(* ===== verification/Prelude.thy ===== *)
theory Prelude
  imports Main "HOL-Library.Word"
begin

text \<open>
  The vocabulary every component shares: the values of the source language (numbers,
  strings, arrays, exceptions) as HOL types, the operators of the language whose meaning
  is not that of the HOL operator of the same name, and the collections of rewrite rules
  the component proofs use.

  \<^item> A \<open>number\<close> of the source that holds an integer is an \<open>int\<close>. Every
    line number, column, offset, length and index of the modelled files is such a number,
    far below \<open>2 ^ 53\<close>, where the arithmetic of doubles and of \<open>int\<close> agree.
    Where the source forces a value to 32 bits (\<open>x | 0\<close>, a \<open>Uint32Array\<close>), the
    model does so too.
  \<^item> A string is the list of its UTF-16 code units.
  \<^item> A thrown exception is the left side of a sum.
\<close>

section \<open>Rule collections\<close>

named_theorems model_defs \<open>unfolding rules of small modelled operations\<close>
named_theorems wf_intros \<open>introduction rules for well-formedness of results\<close>

section \<open>Values\<close>

type_synonym number = int
type_synonym jsstring = "16 word list"

datatype js_error = BugIndicatingError | IllegalArgument | TypeError | RangeError | PlainError

type_synonym 'a result = "js_error + 'a"

text \<open>Sequencing of computations that may throw: the first exception ends the whole.\<close>

fun result_bind :: "'a result \<Rightarrow> ('a \<Rightarrow> 'b result) \<Rightarrow> 'b result" where
  "result_bind (Inl e) f = Inl e"
| "result_bind (Inr x) f = f x"

fun result_map :: "('a \<Rightarrow> 'b) \<Rightarrow> 'a result \<Rightarrow> 'b result" where
  "result_map f (Inl e) = Inl e"
| "result_map f (Inr x) = Inr (f x)"

fun result_list :: "'a result list \<Rightarrow> 'a list result" where
  "result_list [] = Inr []"
| "result_list (r # rs) = result_bind r (\<lambda>x. result_map (\<lambda>xs. x # xs) (result_list rs))"

fun result_fold :: "('a \<Rightarrow> 's \<Rightarrow> 's result) \<Rightarrow> 'a list \<Rightarrow> 's \<Rightarrow> 's result" where
  "result_fold f [] s = Inr s"
| "result_fold f (x # xs) s = result_bind (f x s) (result_fold f xs)"

section \<open>Operators of the language\<close>

text \<open>\<open>n | 0\<close>: the value modulo \<open>2 ^ 32\<close>, read as a signed 32-bit integer.\<close>

definition toInt32 :: "number \<Rightarrow> number" where
  "toInt32 n = (n + 2147483648) mod 4294967296 - 2147483648"

definition is_int32 :: "number \<Rightarrow> bool" where
  "is_int32 n \<longleftrightarrow> - 2147483648 \<le> n \<and> n < 2147483648"

text \<open>\<open>a % b\<close>: the remainder with the sign of the dividend (for \<open>b \<noteq> 0\<close>).\<close>

definition js_rem :: "number \<Rightarrow> number \<Rightarrow> number" where
  "js_rem a b = sgn a * (\<bar>a\<bar> mod \<bar>b\<bar>)"

text \<open>\<open>arr[i]\<close> with an integer index: \<open>undefined\<close> (None) outside the array.\<close>

definition arr_at :: "'a list \<Rightarrow> number \<Rightarrow> 'a option" where
  "arr_at xs i = (if 0 \<le> i \<and> i < int (length xs) then Some (xs ! nat i) else None)"

text \<open>The same where a member of the element is read at once: that of \<open>undefined\<close> throws.\<close>

definition arr_get :: "'a list \<Rightarrow> number \<Rightarrow> 'a result" where
  "arr_get xs i = (case arr_at xs i of None \<Rightarrow> Inl TypeError | Some x \<Rightarrow> Inr x)"

text \<open>\<open>arr.splice(start, deleteCount, ...items)\<close> with a start inside or past the end.\<close>

definition arr_splice :: "'a list \<Rightarrow> nat \<Rightarrow> nat \<Rightarrow> 'a list \<Rightarrow> 'a list" where
  "arr_splice xs start deleteCount items = take start xs @ items @ drop (start + deleteCount) xs"

text \<open>String literals: the code units of an ASCII string.\<close>

definition js_str :: "string \<Rightarrow> jsstring" where
  "js_str s = map (\<lambda>c. of_nat (of_char c)) s"

text \<open>The decimal representation of an integer, as string concatenation makes it.\<close>

fun digits_of_nat :: "nat \<Rightarrow> jsstring" where
  "digits_of_nat n =
     (if n < 10 then [of_nat (48 + n)] else digits_of_nat (n div 10) @ [of_nat (48 + n mod 10)])"

declare digits_of_nat.simps [simp del]

definition js_show_number :: "number \<Rightarrow> jsstring" where
  "js_show_number n =
     (if n < 0 then js_str ''-'' @ digits_of_nat (nat (- n)) else digits_of_nat (nat n))"

text \<open>\<open>arr.slice(start, end)\<close>: a negative index counts from the end of the array.\<close>

definition slice_index :: "nat \<Rightarrow> number \<Rightarrow> nat" where
  "slice_index len i = (if i < 0 then nat (int len + i) else min (nat i) len)"

definition js_slice :: "'a list \<Rightarrow> number \<Rightarrow> number \<Rightarrow> 'a list" where
  "js_slice xs start e = drop (slice_index (length xs) start) (take (slice_index (length xs) e) xs)"

text \<open>\<open>s.substring(a, b)\<close>: both indices are cut to the string, and swapped when out of order.\<close>

definition js_clamp :: "nat \<Rightarrow> number \<Rightarrow> nat" where
  "js_clamp len i = min (nat i) len"

definition js_substring :: "'a list \<Rightarrow> number \<Rightarrow> number \<Rightarrow> 'a list" where
  "js_substring s a b =
     (let i = js_clamp (length s) a; j = js_clamp (length s) b
      in drop (min i j) (take (max i j) s))"

definition js_substring_from :: "'a list \<Rightarrow> number \<Rightarrow> 'a list" where
  "js_substring_from s a = js_substring s a (int (length s))"

text \<open>\<open>parts.join(sep)\<close>.\<close>

fun js_join :: "jsstring \<Rightarrow> jsstring list \<Rightarrow> jsstring" where
  "js_join sep [] = []"
| "js_join sep [x] = x"
| "js_join sep (x # y # zs) = x @ sep @ js_join sep (y # zs)"

text \<open>
  The loop \<open>while (k < arr.length && p(arr[k])) { k++; }\<close>: the index where it stops.
\<close>

function scan_while :: "('a \<Rightarrow> bool) \<Rightarrow> 'a list \<Rightarrow> nat \<Rightarrow> nat" where
  "scan_while p xs k = (if k < length xs \<and> p (xs ! k) then scan_while p xs (Suc k) else k)"
  by pat_completeness auto
termination by (relation "measure (\<lambda>(p, xs, k). length xs - k)") auto

declare scan_while.simps [simp del]

text \<open>The loop \<open>for (let i = from; i < to; i++) { result.push(f(i)); }\<close>.\<close>

function int_loop :: "(number \<Rightarrow> 'a) \<Rightarrow> number \<Rightarrow> number \<Rightarrow> 'a list \<Rightarrow> 'a list" where
  "int_loop f i to acc = (if i < to then int_loop f (i + 1) to (acc @ [f i]) else acc)"
  by pat_completeness auto
termination by (relation "measure (\<lambda>(f, i, to, acc). nat (to - i))") auto

declare int_loop.simps [simp del]

section \<open>Typed arrays\<close>

text \<open>\<open>new Uint32Array(n)\<close>, \<open>target.set(source, offset)\<close> and an element store.\<close>

definition new_Uint32Array :: "number \<Rightarrow> 32 word list result" where
  "new_Uint32Array n = (if n < 0 then Inl RangeError else Inr (replicate (nat n) 0))"

definition ta_set :: "'a list \<Rightarrow> 'a list \<Rightarrow> number \<Rightarrow> 'a list result" where
  "ta_set target source offset =
     (if offset < 0 \<or> offset + int (length source) > int (length target) then Inl RangeError
      else Inr (take (nat offset) target @ source @ drop (nat offset + length source) target))"

definition ta_write :: "'a list \<Rightarrow> number \<Rightarrow> 'a \<Rightarrow> 'a list" where
  "ta_write xs i v = (if 0 \<le> i \<and> i < int (length xs) then xs[nat i := v] else xs)"

section \<open>Lemmas on the operators\<close>

lemma scan_while_eq:
  "k \<le> length xs \<Longrightarrow> scan_while p xs k = k + length (takeWhile p (drop k xs))"
proof (induction p xs k rule: scan_while.induct)
  case (1 p xs k)
  show ?case
  proof (cases "k < length xs")
    case True
    then have "drop k xs = xs ! k # drop (Suc k) xs" by (simp add: Cons_nth_drop_Suc)
    with 1 True show ?thesis by (subst scan_while.simps) auto
  next
    case False
    with 1(2) show ?thesis by (subst scan_while.simps) auto
  qed
qed

lemma scan_while_found:
  "scan_while p xs 0 < length xs \<and> q (xs ! scan_while p xs 0) \<longleftrightarrow>
     (case dropWhile p xs of [] \<Rightarrow> False | x # _ \<Rightarrow> q x)"
proof -
  have "length (takeWhile p xs) < length xs \<and> q (xs ! length (takeWhile p xs)) \<longleftrightarrow>
     (case dropWhile p xs of [] \<Rightarrow> False | x # _ \<Rightarrow> q x)"
    by (induction xs) auto
  then show ?thesis by (simp add: scan_while_eq)
qed

lemma int_loop_eq: "int_loop f i to acc = acc @ map f [i .. to - 1]"
proof (induction f i to acc rule: int_loop.induct)
  case (1 f i to acc)
  then show ?case by (subst int_loop.simps) (auto simp: upto_rec1)
qed

lemma result_bind_Inr_iff [simp]:
  "result_bind r f = Inr y \<longleftrightarrow> (\<exists>x. r = Inr x \<and> f x = Inr y)"
  by (cases r) auto

lemma result_map_Inr_iff [simp]:
  "result_map f r = Inr y \<longleftrightarrow> (\<exists>x. r = Inr x \<and> y = f x)"
  by (cases r) auto

lemma result_list_map_Inr: "(\<And>x. x \<in> set xs \<Longrightarrow> f x = Inr (g x)) \<Longrightarrow> result_list (map f xs) = Inr (map g xs)"
  by (induction xs) auto

lemma toInt32_id [simp]: "is_int32 n \<Longrightarrow> toInt32 n = n"
  by (simp add: toInt32_def is_int32_def)

lemma is_int32_toInt32 [simp]: "is_int32 (toInt32 n)"
  using pos_mod_bound [of 4294967296 "n + 2147483648"]
    pos_mod_sign [of 4294967296 "n + 2147483648"]
  unfolding toInt32_def is_int32_def by linarith

lemma js_rem_nonneg: "0 \<le> a \<Longrightarrow> 0 < b \<Longrightarrow> js_rem a b = a mod b"
  by (cases "a = 0") (simp_all add: js_rem_def)

lemma arr_at_nat [simp]: "i < length xs \<Longrightarrow> arr_at xs (int i) = Some (xs ! i)"
  by (simp add: arr_at_def)

lemma arr_at_Some_iff: "arr_at xs i = Some x \<longleftrightarrow> 0 \<le> i \<and> nat i < length xs \<and> x = xs ! nat i"
  by (auto simp: arr_at_def)

lemma arr_splice_split:
  "length xs = i \<Longrightarrow> length ys = d \<Longrightarrow> arr_splice (xs @ ys @ zs) i d ns = xs @ ns @ zs"
  by (simp add: arr_splice_def)

lemma arr_get_nat [simp]: "i < length xs \<Longrightarrow> arr_get xs (int i) = Inr (xs ! i)"
  by (simp add: arr_get_def)

lemma length_arr_splice: "i + d \<le> length xs \<Longrightarrow> length (arr_splice xs i d ys) = length xs - d + length ys"
  by (simp add: arr_splice_def)

lemma js_substring_prefix: "0 \<le> b \<Longrightarrow> js_substring s 0 b = take (nat b) s"
  by (simp add: js_substring_def js_clamp_def min_def)

lemma js_substring_suffix: "js_substring_from s a = drop (nat a) s"
  by (auto simp: js_substring_from_def js_substring_def js_clamp_def min_def max_def Let_def)

section \<open>Lemmas on lists\<close>

lemma sorted_wrt_mid_iff:
  "sorted_wrt P (xs @ x # ys) \<longleftrightarrow>
     sorted_wrt P xs \<and> sorted_wrt P ys \<and> (\<forall>y \<in> set ys. P x y) \<and>
     (\<forall>z \<in> set xs. P z x \<and> (\<forall>y \<in> set ys. P z y))"
  by (auto simp: sorted_wrt_append)

lemma takeWhile_eq_take_nth:
  assumes "i \<le> length xs" and "\<forall>k < i. P (xs ! k)" and "i < length xs \<Longrightarrow> \<not> P (xs ! i)"
  shows "takeWhile P xs = take i xs" and "dropWhile P xs = drop i xs"
proof -
  show t: "takeWhile P xs = take i xs"
    using assms by (metis nless_le not_le_imp_less takeWhile_eq_take_P_nth)
  have "length (takeWhile P xs) = i" using t assms(1) by simp
  then show "dropWhile P xs = drop i xs"
    by (metis dropWhile_eq_drop)
qed

end
