(* ===== verification/Comparators.thy ===== *)
theory Comparators
  imports Prelude
begin

text \<open>
  Comparators, \<open>src/vs/base/common/arrays.ts\<close>: a function \<open>(a, b) => number\<close>
  whose sign orders two items. The contract the file documents ("a comparator \<open>c\<close>
  defines a total order: \<open>c(a, b) <= 0\<close> iff \<open>a <= b\<close>") is the locale
  \<open>js_comparator\<close>; the combinators that build comparators from comparators keep it.
  The contract is relative to a set of valid items, because several comparators of the
  program order their items only as long as the coordinates fit 32 bits.
\<close>

section \<open>The combinators\<close>

type_synonym 'a comparator = "'a \<Rightarrow> 'a \<Rightarrow> number"

definition isLessThan :: "number \<Rightarrow> bool" where "isLessThan result \<longleftrightarrow> result < 0"

definition isLessThanOrEqual :: "number \<Rightarrow> bool" where "isLessThanOrEqual result \<longleftrightarrow> result \<le> 0"

definition isGreaterThan :: "number \<Rightarrow> bool" where "isGreaterThan result \<longleftrightarrow> result > 0"

definition isNeitherLessOrGreaterThan :: "number \<Rightarrow> bool" where
  "isNeitherLessOrGreaterThan result \<longleftrightarrow> result = 0"

definition compareBy :: "('i \<Rightarrow> 'k) \<Rightarrow> 'k comparator \<Rightarrow> 'i comparator" where
  "compareBy selector comparator = (\<lambda>a b. comparator (selector a) (selector b))"

fun tieBreakComparators :: "'i comparator list \<Rightarrow> 'i comparator" where
  "tieBreakComparators [] item1 item2 = 0"
| "tieBreakComparators (comparator # comparators) item1 item2 =
     (let result = comparator item1 item2
      in if \<not> isNeitherLessOrGreaterThan result then result
         else tieBreakComparators comparators item1 item2)"

definition numberComparator :: "number comparator" where
  "numberComparator a b = a - b"

definition booleanComparator :: "bool comparator" where
  "booleanComparator a b = numberComparator (if a then 1 else 0) (if b then 1 else 0)"

definition reverseOrder :: "'i comparator \<Rightarrow> 'i comparator" where
  "reverseOrder comparator = (\<lambda>a b. - comparator a b)"

lemmas compare_result_defs [model_defs] =
  isLessThan_def isLessThanOrEqual_def isGreaterThan_def isNeitherLessOrGreaterThan_def

section \<open>The contract\<close>

locale js_comparator =
  fixes cmp :: "'a \<Rightarrow> 'a \<Rightarrow> int" and valid :: "'a \<Rightarrow> bool"
  assumes cmp_flip: "valid a \<Longrightarrow> valid b \<Longrightarrow> sgn (cmp b a) = - sgn (cmp a b)"
    and cmp_trans: "valid a \<Longrightarrow> valid b \<Longrightarrow> valid c \<Longrightarrow> cmp a b \<le> 0 \<Longrightarrow> cmp b c \<le> 0 \<Longrightarrow> cmp a c \<le> 0"
begin

lemma cmp_refl: "valid a \<Longrightarrow> cmp a a = 0"
  using cmp_flip [of a a] by (simp add: sgn_if split: if_splits)

lemma cmp_neg_iff: "valid a \<Longrightarrow> valid b \<Longrightarrow> cmp b a < 0 \<longleftrightarrow> 0 < cmp a b"
  using cmp_flip [of a b] by (auto simp: sgn_if split: if_splits)

lemma cmp_zero_sym: "valid a \<Longrightarrow> valid b \<Longrightarrow> cmp b a = 0 \<longleftrightarrow> cmp a b = 0"
  using cmp_flip [of a b] by (auto simp: sgn_if split: if_splits)

lemma cmp_nonpos_iff: "valid a \<Longrightarrow> valid b \<Longrightarrow> cmp b a \<le> 0 \<longleftrightarrow> 0 \<le> cmp a b"
  using cmp_flip [of a b] by (auto simp: sgn_if split: if_splits)

lemma cmp_total: "valid a \<Longrightarrow> valid b \<Longrightarrow> cmp a b \<le> 0 \<or> cmp b a \<le> 0"
  using cmp_nonpos_iff by force

lemma cmp_less_trans:
  assumes v: "valid a" "valid b" "valid c" and l: "cmp a b < 0" "cmp b c \<le> 0"
  shows "cmp a c < 0"
proof (rule ccontr)
  assume "\<not> cmp a c < 0"
  then have "cmp c a \<le> 0" using v cmp_nonpos_iff [of a c] by simp
  with l(2) have "cmp b a \<le> 0" using cmp_trans [of b c a] v by simp
  with l(1) show False using v cmp_nonpos_iff [of a b] by simp
qed

lemma cmp_le_less_trans:
  assumes v: "valid a" "valid b" "valid c" and l: "cmp a b \<le> 0" "cmp b c < 0"
  shows "cmp a c < 0"
proof (rule ccontr)
  assume "\<not> cmp a c < 0"
  then have "cmp c a \<le> 0" using v cmp_nonpos_iff [of a c] by simp
  with l(1) have "cmp c b \<le> 0" using cmp_trans [of c a b] v by simp
  with l(2) show False using v cmp_nonpos_iff [of b c] by simp
qed

lemma cmp_zero_trans:
  assumes v: "valid a" "valid b" "valid c" and z: "cmp a b = 0" "cmp b c = 0"
  shows "cmp a c = 0"
proof -
  have "cmp a c \<le> 0" using cmp_trans [OF v] z by simp
  moreover have "cmp c a \<le> 0"
    using cmp_trans [of c b a] v z cmp_zero_sym [of a b] cmp_zero_sym [of b c] by simp
  ultimately show ?thesis using cmp_nonpos_iff [of a c] v by simp
qed

lemma reverse: "js_comparator (reverseOrder cmp) valid"
proof (unfold_locales, goal_cases)
  case (1 a b)
  then show ?case using cmp_flip [of a b] by (simp add: reverseOrder_def)
next
  case (2 a b c)
  then have "cmp b a \<le> 0" "cmp c b \<le> 0"
    using cmp_nonpos_iff by (simp_all add: reverseOrder_def)
  then have "cmp c a \<le> 0" using cmp_trans [of c b a] 2 by simp
  then show ?case using cmp_nonpos_iff 2 by (simp add: reverseOrder_def)
qed

lemma select: "js_comparator (compareBy selector cmp) (\<lambda>x. valid (selector x))"
  by unfold_locales (auto simp: compareBy_def intro: cmp_flip cmp_trans)

lemma tie:
  assumes c': "js_comparator cmp' valid"
    and eq: "\<And>a b. valid a \<Longrightarrow> valid b \<Longrightarrow> c a b = (if cmp a b \<noteq> 0 then cmp a b else cmp' a b)"
  shows "js_comparator c valid"
proof (unfold_locales, goal_cases)
  case (1 a b)
  then show ?case
    using cmp_flip [of a b] js_comparator.cmp_flip [OF c', of a b] cmp_zero_sym [of a b]
    by (simp add: eq)
next
  case (2 x y z)
  note v = \<open>valid x\<close> \<open>valid y\<close> \<open>valid z\<close>
  have le: "cmp x y \<le> 0" "cmp y z \<le> 0" using 2 by (simp_all add: eq split: if_splits)
  consider "cmp x y < 0" | "cmp y z < 0" | "cmp x y = 0" "cmp y z = 0" using le by linarith
  then show ?case
  proof cases
    case 1
    then have "cmp x z < 0" using cmp_less_trans v le by blast
    then show ?thesis using v by (simp add: eq)
  next
    case 2
    then have "cmp x z < 0" using cmp_le_less_trans v le by blast
    then show ?thesis using v by (simp add: eq)
  next
    case 3
    then have "cmp' x y \<le> 0" "cmp' y z \<le> 0" using 2 by (simp_all add: eq)
    then have "cmp' x z \<le> 0" using js_comparator.cmp_trans [OF c'] v by blast
    then show ?thesis using 3 v cmp_zero_trans [of x y z] by (simp add: eq)
  qed
qed

end

section \<open>The comparators of the file\<close>

interpretation numcmp: js_comparator numberComparator "\<lambda>_. True"
  by unfold_locales (auto simp: numberComparator_def sgn_if)

interpretation boolcmp: js_comparator booleanComparator "\<lambda>_. True"
  by unfold_locales (auto simp: booleanComparator_def numberComparator_def)

lemma tieBreakComparators_comparator:
  assumes "\<And>c. c \<in> set cs \<Longrightarrow> js_comparator c valid"
  shows "js_comparator (tieBreakComparators cs) valid"
  using assms
proof (induction cs)
  case Nil
  show ?case by unfold_locales auto
next
  case (Cons c cs)
  show ?case
  proof (rule js_comparator.tie [of c valid "tieBreakComparators cs"])
    show "js_comparator c valid" using Cons.prems by simp
    show "js_comparator (tieBreakComparators cs) valid" using Cons by simp
  qed (simp add: Let_def model_defs)
qed

end
