(* ===== verification/Arrays_Find.thy ===== *)
theory Arrays_Find
  imports Comparators
begin

text \<open>
  \<open>src/vs/base/common/arraysFind.ts\<close>: linear and binary searches over an array with a
  predicate, the stateful \<open>MonotonousArray\<close>, and the searches for a maximal item under
  a comparator. The binary searches are proved equal to the linear ones for the monotonous
  predicates they ask for; \<open>startIdx\<close> and \<open>endIdxEx\<close> delimit a part of the array.
\<close>

section \<open>Linear searches\<close>

text \<open>The loop of \<open>findLastIdx\<close>: \<open>n\<close> is \<open>i + 1\<close>.\<close>

fun findLastIdx_loop :: "'a list \<Rightarrow> ('a \<Rightarrow> bool) \<Rightarrow> nat \<Rightarrow> number" where
  "findLastIdx_loop array predicate 0 = -1"
| "findLastIdx_loop array predicate (Suc i) =
     (if predicate (array ! i) then int i else findLastIdx_loop array predicate i)"

definition findLastIdx :: "'a list \<Rightarrow> ('a \<Rightarrow> bool) \<Rightarrow> number" where
  "findLastIdx array predicate = findLastIdx_loop array predicate (length array)"

text \<open>The parameter \<open>fromIdx\<close> of \<open>findLast\<close> is accepted and not used.\<close>

definition findLast :: "'a list \<Rightarrow> ('a \<Rightarrow> bool) \<Rightarrow> number option \<Rightarrow> 'a option" where
  "findLast array predicate fromIdx =
     (let idx = findLastIdx array predicate
      in if idx = -1 then None else arr_at array idx)"

fun mapFindFirst :: "'t list \<Rightarrow> ('t \<Rightarrow> 'r option) \<Rightarrow> 'r option" where
  "mapFindFirst [] mapFn = None"
| "mapFindFirst (value # items) mapFn =
     (let mapped = mapFn value in if mapped \<noteq> None then mapped else mapFindFirst items mapFn)"

section \<open>Binary searches\<close>

function findLastIdxMonotonous_loop :: "'a list \<Rightarrow> ('a \<Rightarrow> bool) \<Rightarrow> nat \<Rightarrow> nat \<Rightarrow> nat" where
  "findLastIdxMonotonous_loop array predicate i j =
     (if i < j then
        let k = (i + j) div 2
        in if predicate (array ! k) then findLastIdxMonotonous_loop array predicate (k + 1) j
           else findLastIdxMonotonous_loop array predicate i k
      else i)"
  by pat_completeness auto
termination
  by (relation "measure (\<lambda>(array, predicate, i, j). j - i)") auto

definition findLastIdxMonotonous_from :: "'a list \<Rightarrow> ('a \<Rightarrow> bool) \<Rightarrow> nat \<Rightarrow> nat \<Rightarrow> number" where
  "findLastIdxMonotonous_from array predicate startIdx endIdxEx =
     int (findLastIdxMonotonous_loop array predicate startIdx endIdxEx) - 1"

definition findLastIdxMonotonous :: "'a list \<Rightarrow> ('a \<Rightarrow> bool) \<Rightarrow> number" where
  "findLastIdxMonotonous array predicate =
     findLastIdxMonotonous_from array predicate 0 (length array)"

definition findLastMonotonous :: "'a list \<Rightarrow> ('a \<Rightarrow> bool) \<Rightarrow> 'a option" where
  "findLastMonotonous array predicate =
     (let idx = findLastIdxMonotonous array predicate
      in if idx = -1 then None else arr_at array idx)"

function findFirstIdxMonotonous_loop :: "'a list \<Rightarrow> ('a \<Rightarrow> bool) \<Rightarrow> nat \<Rightarrow> nat \<Rightarrow> nat" where
  "findFirstIdxMonotonous_loop array predicate i j =
     (if i < j then
        let k = (i + j) div 2
        in if predicate (array ! k) then findFirstIdxMonotonous_loop array predicate i k
           else findFirstIdxMonotonous_loop array predicate (k + 1) j
      else i)"
  by pat_completeness auto
termination
  by (relation "measure (\<lambda>(array, predicate, i, j). j - i)") auto

definition findFirstIdxMonotonousOrArrLen_from ::
  "'a list \<Rightarrow> ('a \<Rightarrow> bool) \<Rightarrow> nat \<Rightarrow> nat \<Rightarrow> nat" where
  "findFirstIdxMonotonousOrArrLen_from array predicate startIdx endIdxEx =
     findFirstIdxMonotonous_loop array predicate startIdx endIdxEx"

definition findFirstIdxMonotonousOrArrLen :: "'a list \<Rightarrow> ('a \<Rightarrow> bool) \<Rightarrow> nat" where
  "findFirstIdxMonotonousOrArrLen array predicate =
     findFirstIdxMonotonousOrArrLen_from array predicate 0 (length array)"

definition findFirstMonotonous :: "'a list \<Rightarrow> ('a \<Rightarrow> bool) \<Rightarrow> 'a option" where
  "findFirstMonotonous array predicate =
     (let idx = findFirstIdxMonotonousOrArrLen array predicate
      in if idx = length array then None else arr_at array (int idx))"

definition findFirstIdxMonotonous :: "'a list \<Rightarrow> ('a \<Rightarrow> bool) \<Rightarrow> nat \<Rightarrow> nat \<Rightarrow> number" where
  "findFirstIdxMonotonous array predicate startIdx endIdxEx =
     (let idx = findFirstIdxMonotonousOrArrLen_from array predicate startIdx endIdxEx
      in if idx = length array then -1 else int idx)"

declare findLastIdxMonotonous_loop.simps [simp del] findFirstIdxMonotonous_loop.simps [simp del]

section \<open>MonotonousArray\<close>

text \<open>
  The fields of the class; \<open>assertInvariants\<close> is its static switch. An assertion that
  fails throws.
\<close>

record 'a MonotonousArray =
  ma_assertInvariants :: bool
  ma_array :: "'a list"
  ma_lastIdx :: nat
  ma_prevPredicate :: "('a \<Rightarrow> bool) option"

definition new_MonotonousArray :: "bool \<Rightarrow> 'a list \<Rightarrow> 'a MonotonousArray" where
  "new_MonotonousArray assertInvariants array =
     \<lparr>ma_assertInvariants = assertInvariants, ma_array = array, ma_lastIdx = 0, ma_prevPredicate = None\<rparr>"

definition MonotonousArray_findLastMonotonous ::
  "'a MonotonousArray \<Rightarrow> ('a \<Rightarrow> bool) \<Rightarrow> ('a option \<times> 'a MonotonousArray) result" where
  "MonotonousArray_findLastMonotonous this predicate =
     (if ma_assertInvariants this \<and>
         (case ma_prevPredicate this of None \<Rightarrow> False
          | Some prev \<Rightarrow> list_ex (\<lambda>item. prev item \<and> \<not> predicate item) (ma_array this))
      then Inl PlainError
      else
        let this' = (if ma_assertInvariants this then this\<lparr>ma_prevPredicate := Some predicate\<rparr> else this);
            idx = findLastIdxMonotonous_from (ma_array this') predicate (ma_lastIdx this') (length (ma_array this'))
        in Inr (if idx = -1 then None else arr_at (ma_array this') idx,
                this'\<lparr>ma_lastIdx := nat (idx + 1)\<rparr>))"

section \<open>Maximal items\<close>

fun findMaxBy_loop :: "(number \<Rightarrow> bool) \<Rightarrow> 'a comparator \<Rightarrow> 'a \<Rightarrow> 'a list \<Rightarrow> 'a" where
  "findMaxBy_loop replaces comparator best [] = best"
| "findMaxBy_loop replaces comparator best (item # rest) =
     findMaxBy_loop replaces comparator (if replaces (comparator item best) then item else best) rest"

definition findFirstMaxBy :: "'a list \<Rightarrow> 'a comparator \<Rightarrow> 'a option" where
  "findFirstMaxBy array comparator =
     (case array of [] \<Rightarrow> None | x # rest \<Rightarrow> Some (findMaxBy_loop (\<lambda>c. c > 0) comparator x rest))"

definition findLastMaxBy :: "'a list \<Rightarrow> 'a comparator \<Rightarrow> 'a option" where
  "findLastMaxBy array comparator =
     (case array of [] \<Rightarrow> None | x # rest \<Rightarrow> Some (findMaxBy_loop (\<lambda>c. c \<ge> 0) comparator x rest))"

definition findFirstMinBy :: "'a list \<Rightarrow> 'a comparator \<Rightarrow> 'a option" where
  "findFirstMinBy array comparator = findFirstMaxBy array (\<lambda>a b. - comparator a b)"

fun findMaxIdxBy_loop :: "'a comparator \<Rightarrow> 'a list \<Rightarrow> nat \<Rightarrow> nat \<Rightarrow> nat \<Rightarrow> nat" where
  "findMaxIdxBy_loop comparator array maxIdx i 0 = maxIdx"
| "findMaxIdxBy_loop comparator array maxIdx i (Suc n) =
     findMaxIdxBy_loop comparator array
       (if comparator (array ! i) (array ! maxIdx) > 0 then i else maxIdx) (Suc i) n"

definition findMaxIdxBy :: "'a list \<Rightarrow> 'a comparator \<Rightarrow> number" where
  "findMaxIdxBy array comparator =
     (if array = [] then -1 else int (findMaxIdxBy_loop comparator array 0 1 (length array - 1)))"

section \<open>The searches find what they promise\<close>

text \<open>\<open>[true, ..., true, false, ..., false]\<close> with \<open>m\<close> times \<open>true\<close>.\<close>

definition true_prefix :: "'a list \<Rightarrow> ('a \<Rightarrow> bool) \<Rightarrow> nat \<Rightarrow> bool" where
  "true_prefix array predicate m \<longleftrightarrow>
     m \<le> length array \<and> (\<forall>k < length array. predicate (array ! k) \<longleftrightarrow> k < m)"

lemma findLastIdxMonotonous_loop_eq:
  "true_prefix array predicate m \<Longrightarrow> i \<le> m \<Longrightarrow> m \<le> j \<Longrightarrow> j \<le> length array \<Longrightarrow>
   findLastIdxMonotonous_loop array predicate i j = m"
proof (induction array predicate i j rule: findLastIdxMonotonous_loop.induct)
  case (1 array predicate i j)
  show ?case
  proof (cases "i < j")
    case True
    let ?k = "(i + j) div 2"
    have k: "predicate (array ! ?k) \<longleftrightarrow> ?k < m"
      using 1 True by (simp add: true_prefix_def)
    then show ?thesis
      using 1 True by (subst findLastIdxMonotonous_loop.simps) (auto simp: Let_def)
  next
    case False
    with 1 show ?thesis by (simp add: findLastIdxMonotonous_loop.simps)
  qed
qed

lemma findFirstIdxMonotonous_loop_eq:
  "findFirstIdxMonotonous_loop array predicate i j =
   findLastIdxMonotonous_loop array (\<lambda>x. \<not> predicate x) i j"
proof (induction array predicate i j rule: findFirstIdxMonotonous_loop.induct)
  case (1 array predicate i j)
  let ?k = "(i + j) div 2" and ?f = "findFirstIdxMonotonous_loop array predicate"
    and ?l = "findLastIdxMonotonous_loop array (\<lambda>x. \<not> predicate x)"
  have f: "?f i j = (if i < j then if predicate (array ! ?k) then ?f i ?k else ?f (?k + 1) j else i)"
    by (subst findFirstIdxMonotonous_loop.simps) (simp only: Let_def)
  have l: "?l i j = (if i < j then if predicate (array ! ?k) then ?l i ?k else ?l (?k + 1) j else i)"
    by (subst findLastIdxMonotonous_loop.simps) (simp add: Let_def)
  show ?case
    unfolding f l by (intro if_cong refl) (blast intro: 1)+
qed

lemma findLastIdx_loop_eq:
  "(\<forall>k < n. predicate (array ! k) \<longleftrightarrow> k < m) \<Longrightarrow> m \<le> n \<Longrightarrow>
   findLastIdx_loop array predicate n = int m - 1"
proof (induction n)
  case 0
  then show ?case by simp
next
  case (Suc n)
  show ?case
  proof (cases "n < m")
    case True
    then have "m = Suc n" using Suc.prems by simp
    then show ?thesis using Suc.prems by simp
  next
    case False
    then show ?thesis using Suc by simp
  qed
qed

lemma true_prefix_findLastIdx:
  "true_prefix array predicate m \<Longrightarrow> findLastIdx array predicate = int m - 1"
  by (simp add: findLastIdx_def true_prefix_def findLastIdx_loop_eq)

lemma true_prefix_findLastIdxMonotonous:
  "true_prefix array predicate m \<Longrightarrow> findLastIdxMonotonous array predicate = int m - 1"
  unfolding findLastIdxMonotonous_def findLastIdxMonotonous_from_def
  by (subst findLastIdxMonotonous_loop_eq [of _ _ m]) (auto simp: true_prefix_def)

lemma true_prefix_findFirstIdxMonotonousOrArrLen:
  "true_prefix array (\<lambda>x. \<not> predicate x) m \<Longrightarrow> findFirstIdxMonotonousOrArrLen array predicate = m"
  unfolding findFirstIdxMonotonousOrArrLen_def findFirstIdxMonotonousOrArrLen_from_def
    findFirstIdxMonotonous_loop_eq
  by (subst findLastIdxMonotonous_loop_eq [of _ _ m]) (auto simp: true_prefix_def)

text \<open>A predicate that is antitone along a sorted array is a true prefix of it.\<close>

lemma true_prefix_takeWhile:
  assumes "sorted_wrt R array" and "\<And>x y. R x y \<Longrightarrow> predicate y \<Longrightarrow> predicate x"
  shows "true_prefix array predicate (length (takeWhile predicate array))"
proof -
  let ?m = "length (takeWhile predicate array)"
  have m: "?m \<le> length array" by (rule length_takeWhile_le)
  have "predicate (array ! k) \<longleftrightarrow> k < ?m" if k: "k < length array" for k
  proof
    assume p: "predicate (array ! k)"
    show "k < ?m"
    proof (rule ccontr)
      assume "\<not> k < ?m"
      then have le: "?m \<le> k" by simp
      then have neq: "\<not> predicate (array ! ?m)"
        using k nth_length_takeWhile [of predicate array] by simp
      then have "R (array ! ?m) (array ! k)"
        using p le k sorted_wrt_nth_less [OF assms(1), of ?m k] by (cases "?m = k") auto
      with assms(2) p neq show False by blast
    qed
  next
    assume "k < ?m"
    then show "predicate (array ! k)"
      by (metis nth_mem set_takeWhileD takeWhile_nth)
  qed
  with m show ?thesis by (simp add: true_prefix_def)
qed

section \<open>Sequences of weaker and weaker predicates\<close>

fun run_findLastMonotonous ::
  "'a MonotonousArray \<Rightarrow> ('a \<Rightarrow> bool) list \<Rightarrow> 'a option list result" where
  "run_findLastMonotonous this [] = Inr []"
| "run_findLastMonotonous this (p # ps) =
     result_bind (MonotonousArray_findLastMonotonous this p)
       (\<lambda>(r, this'). result_map (\<lambda>rs. r # rs) (run_findLastMonotonous this' ps))"

text \<open>
  What a correct client of the class promises: each predicate is monotonous on the array
  and at least as weak as the one before it.
\<close>

fun weakening :: "'a list \<Rightarrow> nat \<Rightarrow> ('a \<Rightarrow> bool) list \<Rightarrow> bool" where
  "weakening array m [] \<longleftrightarrow> True"
| "weakening array m (p # ps) \<longleftrightarrow>
     (\<exists>m' \<ge> m. true_prefix array p m' \<and> weakening array m' ps)"

lemma MonotonousArray_step:
  assumes "true_prefix (ma_array this) p m" "ma_lastIdx this \<le> m"
    and prev: "\<And>q. ma_prevPredicate this = Some q \<Longrightarrow> true_prefix (ma_array this) q (ma_lastIdx this)"
  shows "MonotonousArray_findLastMonotonous this p =
      Inr (findLast (ma_array this) p None,
           this\<lparr>ma_lastIdx := m, ma_prevPredicate :=
                 (if ma_assertInvariants this then Some p else ma_prevPredicate this)\<rparr>)"
proof -
  have m: "m \<le> length (ma_array this)" using assms(1) by (simp add: true_prefix_def)
  have noassert: "\<not> list_ex (\<lambda>item. q item \<and> \<not> p item) (ma_array this)"
    if "ma_prevPredicate this = Some q" for q
    using prev [OF that] assms(1,2) by (fastforce simp: true_prefix_def list_ex_iff in_set_conv_nth)
  have idx: "findLastIdxMonotonous_from (ma_array this) p (ma_lastIdx this) (length (ma_array this)) = int m - 1"
    unfolding findLastIdxMonotonous_from_def
    by (subst findLastIdxMonotonous_loop_eq [OF assms(1,2) m]) simp_all
  show ?thesis
    using noassert true_prefix_findLastIdx [OF assms(1)]
    by (auto simp: MonotonousArray_findLastMonotonous_def findLast_def Let_def idx split: option.splits)
qed

lemma run_findLastMonotonous_eq:
  "weakening (ma_array this) (ma_lastIdx this) ps \<Longrightarrow>
   (\<And>q. ma_prevPredicate this = Some q \<Longrightarrow> true_prefix (ma_array this) q (ma_lastIdx this)) \<Longrightarrow>
   (\<not> ma_assertInvariants this \<longrightarrow> ma_prevPredicate this = None) \<Longrightarrow>
   run_findLastMonotonous this ps = Inr (map (\<lambda>p. findLast (ma_array this) p None) ps)"
proof (induction ps arbitrary: this)
  case Nil
  show ?case by simp
next
  case (Cons p ps)
  then obtain m where m: "ma_lastIdx this \<le> m" "true_prefix (ma_array this) p m"
      "weakening (ma_array this) m ps" by auto
  let ?next = "this\<lparr>ma_lastIdx := m, ma_prevPredicate :=
     (if ma_assertInvariants this then Some p else ma_prevPredicate this)\<rparr>"
  have "MonotonousArray_findLastMonotonous this p = Inr (findLast (ma_array this) p None, ?next)"
    by (rule MonotonousArray_step [OF m(2,1) Cons.prems(2)])
  moreover have "run_findLastMonotonous ?next ps = Inr (map (\<lambda>p. findLast (ma_array ?next) p None) ps)"
    using m Cons.prems(3) by (intro Cons.IH) (auto split: if_splits)
  ultimately show ?case by simp
qed

section \<open>Maximal items under a comparator\<close>

lemma findMaxBy_loop_snoc:
  "findMaxBy_loop replaces c b (ys @ [y]) =
   (if replaces (c y (findMaxBy_loop replaces c b ys)) then y else findMaxBy_loop replaces c b ys)"
  by (induction ys arbitrary: b) auto

lemma findMaxBy_loop_mem: "findMaxBy_loop replaces c b ys \<in> set (b # ys)"
  by (induction ys rule: rev_induct) (auto simp: findMaxBy_loop_snoc)

context js_comparator
begin

text \<open>
  Both loops keep a maximum of the items seen so far. The strict one keeps the first of
  the equal maxima, the other one the last.
\<close>

lemma loop_first_max:
  assumes "valid b" "\<forall>y \<in> set ys. valid y"
  defines "m \<equiv> \<lambda>ys. findMaxBy_loop (\<lambda>c. c > 0) cmp b ys"
  shows "\<exists>us vs. b # ys = us @ m ys # vs \<and>
           (\<forall>u \<in> set us. cmp u (m ys) < 0) \<and> (\<forall>v \<in> set vs. cmp v (m ys) \<le> 0)"
  using assms(2)
proof (induction ys rule: rev_induct)
  case Nil
  show ?case by (intro exI [of _ "[]"]) (simp add: m_def)
next
  case (snoc y ys)
  then obtain us vs where d: "b # ys = us @ m ys # vs" "\<forall>u \<in> set us. cmp u (m ys) < 0"
      "\<forall>v \<in> set vs. cmp v (m ys) \<le> 0" by auto
  have val: "\<forall>u \<in> set (b # ys). valid u" "valid y" "valid (m ys)"
    using snoc.prems assms(1) findMaxBy_loop_mem [of "\<lambda>c. c > 0" cmp b ys] by (auto simp: m_def)
  show ?case
  proof (cases "cmp y (m ys) > 0")
    case True
    have "cmp u y < 0" if u: "u \<in> set (b # ys)" for u
    proof -
      have "cmp u (m ys) \<le> 0" using u d cmp_refl [OF val(3)] by (auto simp: d(1))
      moreover have "cmp (m ys) y < 0" using True val cmp_neg_iff by simp
      ultimately show ?thesis using u val cmp_le_less_trans by blast
    qed
    then show ?thesis using True
      by (intro exI [of _ "b # ys"] exI [of _ "[]"]) (simp add: m_def findMaxBy_loop_snoc)
  next
    case False
    then show ?thesis using d
      by (intro exI [of _ us] exI [of _ "vs @ [y]"]) (auto simp: m_def findMaxBy_loop_snoc)
  qed
qed

lemma loop_last_max:
  assumes "valid b" "\<forall>y \<in> set ys. valid y"
  defines "m \<equiv> \<lambda>ys. findMaxBy_loop (\<lambda>c. c \<ge> 0) cmp b ys"
  shows "\<exists>us vs. b # ys = us @ m ys # vs \<and>
           (\<forall>u \<in> set us. cmp u (m ys) \<le> 0) \<and> (\<forall>v \<in> set vs. cmp v (m ys) < 0)"
  using assms(2)
proof (induction ys rule: rev_induct)
  case Nil
  show ?case by (intro exI [of _ "[]"]) (simp add: m_def)
next
  case (snoc y ys)
  then obtain us vs where d: "b # ys = us @ m ys # vs" "\<forall>u \<in> set us. cmp u (m ys) \<le> 0"
      "\<forall>v \<in> set vs. cmp v (m ys) < 0" by auto
  have val: "\<forall>u \<in> set (b # ys). valid u" "valid y" "valid (m ys)"
    using snoc.prems assms(1) findMaxBy_loop_mem [of "\<lambda>c. c \<ge> 0" cmp b ys] by (auto simp: m_def)
  show ?case
  proof (cases "cmp y (m ys) \<ge> 0")
    case True
    have "cmp u y \<le> 0" if u: "u \<in> set (b # ys)" for u
    proof -
      have "cmp u (m ys) \<le> 0" using u d cmp_refl [OF val(3)] by (auto simp: d(1))
      moreover have "cmp (m ys) y \<le> 0" using True val cmp_nonpos_iff by simp
      ultimately show ?thesis using u val cmp_trans by blast
    qed
    then show ?thesis using True
      by (intro exI [of _ "b # ys"] exI [of _ "[]"]) (simp add: m_def findMaxBy_loop_snoc)
  next
    case False
    then show ?thesis using d
      by (intro exI [of _ us] exI [of _ "vs @ [y]"]) (auto simp: m_def findMaxBy_loop_snoc)
  qed
qed

lemma first_max:
  assumes "\<forall>x \<in> set array. valid x" "findFirstMaxBy array cmp = Some x"
  shows "\<exists>us vs. array = us @ x # vs \<and> (\<forall>u \<in> set us. cmp u x < 0) \<and> (\<forall>v \<in> set vs. cmp v x \<le> 0)"
  using assms loop_first_max by (auto simp: findFirstMaxBy_def split: list.splits)

lemma last_max:
  assumes "\<forall>x \<in> set array. valid x" "findLastMaxBy array cmp = Some x"
  shows "\<exists>us vs. array = us @ x # vs \<and> (\<forall>u \<in> set us. cmp u x \<le> 0) \<and> (\<forall>v \<in> set vs. cmp v x < 0)"
  using assms loop_last_max by (auto simp: findLastMaxBy_def split: list.splits)

end

lemma findFirstMinBy_reverse: "findFirstMinBy array c = findFirstMaxBy array (reverseOrder c)"
  by (simp add: findFirstMinBy_def reverseOrder_def)

section \<open>Properties\<close>

lemma find_dropWhile: "List.find P xs = (case dropWhile (\<lambda>x. \<not> P x) xs of [] \<Rightarrow> None | x # _ \<Rightarrow> Some x)"
  by (induction xs) auto

lemma true_prefix_find:
  assumes "true_prefix array (\<lambda>x. \<not> predicate x) m"
  shows "List.find predicate array = (if m < length array then Some (array ! m) else None)"
proof -
  have "dropWhile (\<lambda>x. \<not> predicate x) array = drop m array"
    using assms by (intro takeWhile_eq_take_nth(2)) (auto simp: true_prefix_def)
  then show ?thesis
    by (simp add: find_dropWhile Cons_nth_drop_Suc [symmetric] split: list.split)
qed

text \<open>
  On an array where the predicate has the form \<open>[true, ..., true, false, ..., false]\<close>
  that the binary searches document, they return what a scan of the whole array returns:
  \<open>findLastIdxMonotonous\<close> the index \<open>findLastIdx\<close> finds, \<open>findLastMonotonous\<close> the item
  \<open>findLast\<close> finds, and \<open>findFirstMonotonous\<close>, for the negated predicate, the
  first item that satisfies it.
\<close>

theorem monotonous_searches_agree_with_scans:
  assumes "true_prefix array predicate m"
  shows "findLastIdxMonotonous array predicate = findLastIdx array predicate \<and>
         findLastMonotonous array predicate = findLast array predicate None \<and>
         findFirstMonotonous array (\<lambda>x. \<not> predicate x) = List.find (\<lambda>x. \<not> predicate x) array"
proof (intro conjI)
  note idx = true_prefix_findLastIdxMonotonous [OF assms] true_prefix_findLastIdx [OF assms]
  then show "findLastIdxMonotonous array predicate = findLastIdx array predicate" by simp
  show "findLastMonotonous array predicate = findLast array predicate None"
    by (simp add: findLastMonotonous_def findLast_def idx)
  have np: "true_prefix array (\<lambda>x. \<not> \<not> predicate x) m" and "m \<le> length array"
    using assms by (simp_all add: true_prefix_def)
  then show "findFirstMonotonous array (\<lambda>x. \<not> predicate x) = List.find (\<lambda>x. \<not> predicate x) array"
    by (simp add: findFirstMonotonous_def true_prefix_find [OF np]
        true_prefix_findFirstIdxMonotonousOrArrLen [OF np])
qed

theorem monotonous_searches_agree_with_scans_witness:
  "true_prefix [2, 4, 6, 7, 9 :: nat] even 3 \<and>
   findLastIdxMonotonous [2, 4, 6, 7, 9 :: nat] even = findLastIdx [2, 4, 6, 7, 9 :: nat] even \<and>
   findFirstMonotonous [2, 4, 6, 7, 9 :: nat] (\<lambda>x. \<not> even x) = List.find (\<lambda>x. \<not> even x) [2, 4, 6, 7, 9]"
proof -
  have h: "true_prefix [2, 4, 6, 7, 9 :: nat] even 3"
    by code_simp
  show ?thesis using h monotonous_searches_agree_with_scans [OF h] by blast
qed

text \<open>
  A \<open>MonotonousArray\<close> that is queried with monotonous predicates that get weaker
  and weaker answers every query as a search of the whole array would, although each search
  starts where the last one ended; and the assertion of the class, when switched on, never
  throws for such a client.
\<close>

theorem MonotonousArray_queries:
  assumes "weakening array 0 ps"
  shows "run_findLastMonotonous (new_MonotonousArray assertInvariants array) ps =
         Inr (map (\<lambda>p. findLast array p None) ps)"
  using assms run_findLastMonotonous_eq [of "new_MonotonousArray assertInvariants array" ps]
  by (simp add: new_MonotonousArray_def)

theorem MonotonousArray_queries_witness:
  "run_findLastMonotonous (new_MonotonousArray True [1, 3, 5 :: nat]) [\<lambda>x. x < 2, \<lambda>x. x < 4] =
     Inr [Some 1, Some 3]"
proof -
  have h: "weakening [1, 3, 5 :: nat] 0 [\<lambda>x. x < 2, \<lambda>x. x < 4]"
  proof -
    have "true_prefix [1, 3, 5 :: nat] (\<lambda>x. x < 2) 1" "true_prefix [1, 3, 5 :: nat] (\<lambda>x. x < 4) 2"
      by code_simp+
    then show ?thesis unfolding weakening.simps by (meson le0 one_le_numeral)
  qed
  show ?thesis
    using MonotonousArray_queries [OF h, of True]
    by (simp add: findLast_def findLastIdx_def arr_at_def Let_def numeral_eq_Suc)
qed

text \<open>
  Under a comparator, \<open>findFirstMaxBy\<close> returns the first of the maximal items
  (every item before it is smaller, none after it is greater), \<open>findLastMaxBy\<close> the
  last of them, and \<open>findFirstMinBy\<close> the first of the minimal ones.
\<close>

theorem extremal_searches:
  assumes "js_comparator c valid" "\<forall>x \<in> set array. valid x"
  shows "(findFirstMaxBy array c = Some x \<longrightarrow>
            (\<exists>us vs. array = us @ x # vs \<and> (\<forall>u \<in> set us. c u x < 0) \<and> (\<forall>v \<in> set vs. c v x \<le> 0))) \<and>
         (findLastMaxBy array c = Some x \<longrightarrow>
            (\<exists>us vs. array = us @ x # vs \<and> (\<forall>u \<in> set us. c u x \<le> 0) \<and> (\<forall>v \<in> set vs. c v x < 0))) \<and>
         (findFirstMinBy array c = Some x \<longrightarrow>
            (\<exists>us vs. array = us @ x # vs \<and> (\<forall>u \<in> set us. c u x > 0) \<and> (\<forall>v \<in> set vs. c v x \<ge> 0)))"
  using js_comparator.first_max [OF assms] js_comparator.last_max [OF assms]
    js_comparator.first_max [OF js_comparator.reverse [OF assms(1)] assms(2)]
  by (auto simp: findFirstMinBy_reverse reverseOrder_def)

theorem extremal_searches_witness:
  "findFirstMaxBy [(1, True), (3, True), (3, False)] (compareBy fst numberComparator) = Some (3, True) \<and>
   (\<exists>us vs. [(1, True), (3, True), (3, False)] = us @ (3, True) # vs \<and>
      (\<forall>u \<in> set us. compareBy fst numberComparator u (3, True) < 0) \<and>
      (\<forall>v \<in> set vs. compareBy fst numberComparator v (3, True) \<le> 0))"
proof -
  have h: "findFirstMaxBy [(1, True), (3, True), (3, False)] (compareBy fst numberComparator) = Some (3, True)"
    by (simp add: findFirstMaxBy_def compareBy_def numberComparator_def)
  show ?thesis
    using h extremal_searches [OF numcmp.select, of "[(1, True), (3, True), (3, False)]" fst "(3, True)"]
    by simp
qed

end
