(* ===== verification/Arrays_Ops.thy ===== *)
theory Arrays_Ops
  imports Arrays_Find "HOL-Library.Multiset"
begin

text \<open>
  \<open>src/vs/base/common/arrays.ts\<close>: binary search, selection, grouping, the diff of two
  sorted arrays, the top-n selection and the array-backed queue.
\<close>

section \<open>Binary search with a comparator\<close>

text \<open>
  The loop works on the half-open window \<open>low .. hi\<close> with \<open>hi = high + 1\<close>, so that
  both ends are natural numbers; \<open>mid\<close> is \<open>((low + high) / 2) | 0\<close>.
\<close>

function binarySearch2_loop :: "(nat \<Rightarrow> number) \<Rightarrow> nat \<Rightarrow> nat \<Rightarrow> number" where
  "binarySearch2_loop compareToKey low hi =
     (if low < hi then
        let mid = (low + (hi - 1)) div 2; comp = compareToKey mid
        in if comp < 0 then binarySearch2_loop compareToKey (mid + 1) hi
           else if comp > 0 then binarySearch2_loop compareToKey low mid
           else int mid
      else - (int low + 1))"
  by pat_completeness auto
termination
  by (relation "measure (\<lambda>(f, low, hi). hi - low)") auto

declare binarySearch2_loop.simps [simp del]

definition binarySearch2 :: "nat \<Rightarrow> (nat \<Rightarrow> number) \<Rightarrow> number" where
  "binarySearch2 len compareToKey = binarySearch2_loop compareToKey 0 len"

definition binarySearch :: "'a list \<Rightarrow> 'a \<Rightarrow> 'a comparator \<Rightarrow> number" where
  "binarySearch array key comparator = binarySearch2 (length array) (\<lambda>i. comparator (array ! i) key)"

section \<open>The stable sort of the language\<close>

text \<open>
  \<open>arr.sort(compare)\<close> is a stable sort; for a comparator that orders the items its result
  is determined, here computed by insertion.
\<close>

fun js_insort :: "'a comparator \<Rightarrow> 'a \<Rightarrow> 'a list \<Rightarrow> 'a list" where
  "js_insort compare x [] = [x]"
| "js_insort compare x (y # ys) =
     (if compare x y \<le> 0 then x # y # ys else y # js_insort compare x ys)"

definition js_sort :: "'a comparator \<Rightarrow> 'a list \<Rightarrow> 'a list" where
  "js_sort compare xs = foldr (js_insort compare) xs []"

section \<open>Selection and grouping\<close>

text \<open>
  \<open>quickSelect\<close> picks its pivots at random; \<open>pick n\<close> stands for the random index
  into an array of length \<open>n\<close> (\<open>Math.floor(data.length * Math.random())\<close>).
  Whether the recursion ends depends on the comparator, so the function is partial: None
  means that it does not return. An invalid index throws.
\<close>

partial_function (option) quickSelect ::
  "(nat \<Rightarrow> nat) \<Rightarrow> 'a comparator \<Rightarrow> nat \<Rightarrow> 'a list \<Rightarrow> 'a result option" where
  "quickSelect pick compare k data =
     (if k \<ge> length data then Some (Inl TypeError)
      else
        let pivotValue = data ! pick (length data);
            lower = filter (\<lambda>value. compare value pivotValue < 0) data;
            higher = filter (\<lambda>value. compare value pivotValue > 0) data;
            pivots = filter (\<lambda>value. compare value pivotValue = 0) data
        in if k < length lower then quickSelect pick compare k lower
           else if k < length lower + length pivots then Some (Inr (pivots ! 0))
           else quickSelect pick compare (k - (length lower + length pivots)) higher)"

fun groupBy_loop :: "'a comparator \<Rightarrow> 'a list list \<Rightarrow> 'a list \<Rightarrow> 'a list list" where
  "groupBy_loop compare result [] = result"
| "groupBy_loop compare result (element # rest) =
     (if result = [] \<or> compare (last result ! 0) element \<noteq> 0
      then groupBy_loop compare (result @ [[element]]) rest
      else groupBy_loop compare (butlast result @ [last result @ [element]]) rest)"

definition groupBy :: "'a list \<Rightarrow> 'a comparator \<Rightarrow> 'a list list" where
  "groupBy data compare = groupBy_loop compare [] (js_sort compare data)"

text \<open>
  \<open>groupAdjacentBy\<close> over items other than \<open>undefined\<close>: the state of the loop is
  \<open>currentGroup\<close> with \<open>last\<close>, the previous item; the groups are yielded in order.
\<close>

fun groupAdjacentBy_loop :: "('a \<Rightarrow> 'a \<Rightarrow> bool) \<Rightarrow> ('a list \<times> 'a) option \<Rightarrow> 'a list \<Rightarrow> 'a list list" where
  "groupAdjacentBy_loop shouldBeGrouped None [] = []"
| "groupAdjacentBy_loop shouldBeGrouped (Some (currentGroup, prev)) [] = [currentGroup]"
| "groupAdjacentBy_loop shouldBeGrouped None (item # items) =
     groupAdjacentBy_loop shouldBeGrouped (Some ([item], item)) items"
| "groupAdjacentBy_loop shouldBeGrouped (Some (currentGroup, prev)) (item # items) =
     (if shouldBeGrouped prev item
      then groupAdjacentBy_loop shouldBeGrouped (Some (currentGroup @ [item], item)) items
      else currentGroup # groupAdjacentBy_loop shouldBeGrouped (Some ([item], item)) items)"

definition groupAdjacentBy :: "'a list \<Rightarrow> ('a \<Rightarrow> 'a \<Rightarrow> bool) \<Rightarrow> 'a list list" where
  "groupAdjacentBy items shouldBeGrouped = groupAdjacentBy_loop shouldBeGrouped None items"

section \<open>The diff of two sorted arrays\<close>

record 'a ISplice =
  sp_start :: nat
  sp_deleteCount :: nat
  sp_toInsert :: "'a list"

definition pushSplice :: "'a ISplice list \<Rightarrow> nat \<Rightarrow> nat \<Rightarrow> 'a list \<Rightarrow> 'a ISplice list" where
  "pushSplice result start deleteCount toInsert =
     (if deleteCount = 0 \<and> toInsert = [] then result
      else if result \<noteq> [] \<and> sp_start (last result) + sp_deleteCount (last result) = start
      then butlast result @
             [(last result)\<lparr>sp_deleteCount := sp_deleteCount (last result) + deleteCount,
                            sp_toInsert := sp_toInsert (last result) @ toInsert\<rparr>]
      else result @ [\<lparr>sp_start = start, sp_deleteCount = deleteCount, sp_toInsert = toInsert\<rparr>])"

text \<open>The loop; the two lists are what is left of \<open>before\<close> and \<open>after\<close>.\<close>

fun sortedDiff_loop ::
  "'a comparator \<Rightarrow> 'a ISplice list \<Rightarrow> nat \<Rightarrow> 'a list \<Rightarrow> 'a list \<Rightarrow> 'a ISplice list" where
  "sortedDiff_loop compare result beforeIdx [] as = pushSplice result beforeIdx 0 as"
| "sortedDiff_loop compare result beforeIdx (b # bs) [] =
     pushSplice result beforeIdx (length (b # bs)) []"
| "sortedDiff_loop compare result beforeIdx (b # bs) (a # as) =
     (let n = compare b a
      in if n = 0 then sortedDiff_loop compare result (beforeIdx + 1) bs as
         else if n < 0 then
           sortedDiff_loop compare (pushSplice result beforeIdx 1 []) (beforeIdx + 1) bs (a # as)
         else sortedDiff_loop compare (pushSplice result beforeIdx 0 [a]) beforeIdx (b # bs) as)"

definition sortedDiff :: "'a list \<Rightarrow> 'a list \<Rightarrow> 'a comparator \<Rightarrow> 'a ISplice list" where
  "sortedDiff before after compare = sortedDiff_loop compare [] 0 before after"

definition delta :: "'a list \<Rightarrow> 'a list \<Rightarrow> 'a comparator \<Rightarrow> 'a list \<times> 'a list" where
  "delta before after compare =
     (let splices = sortedDiff before after compare
      in (concat (map (\<lambda>s. take (sp_deleteCount s) (drop (sp_start s) before)) splices),
          concat (map sp_toInsert splices)))"

section \<open>The top n items\<close>

text \<open>The loop over \<open>array[i], ..., array[m - 1]\<close>; the length of \<open>result\<close> does not change.\<close>

fun topStep :: "'a comparator \<Rightarrow> 'a list \<Rightarrow> 'a list \<Rightarrow> 'a list" where
  "topStep compare result [] = result"
| "topStep compare result (element # rest) =
     topStep compare
       (if compare element (result ! (length result - 1)) < 0
        then let popped = butlast result;
                 j = findFirstIdxMonotonousOrArrLen popped (\<lambda>e. compare element e < 0)
             in arr_splice popped j 0 [element]
        else result) rest"

definition top_n :: "'a list \<Rightarrow> 'a comparator \<Rightarrow> nat \<Rightarrow> 'a list" where
  "top_n array compare n =
     (if n = 0 then [] else topStep compare (js_sort compare (take n array)) (drop n array))"

section \<open>ArrayQueue\<close>

record 'a ArrayQueue =
  aq_items :: "'a list"
  aq_firstIdx :: nat
  aq_lastIdx :: number

definition new_ArrayQueue :: "'a list \<Rightarrow> 'a ArrayQueue" where
  "new_ArrayQueue items = \<lparr>aq_items = items, aq_firstIdx = 0, aq_lastIdx = int (length items) - 1\<rparr>"

definition ArrayQueue_length :: "'a ArrayQueue \<Rightarrow> number" where
  "ArrayQueue_length q = aq_lastIdx q - int (aq_firstIdx q) + 1"

function ArrayQueue_takeWhile_loop :: "'a list \<Rightarrow> ('a \<Rightarrow> bool) \<Rightarrow> nat \<Rightarrow> nat" where
  "ArrayQueue_takeWhile_loop items predicate startIdx =
     (if startIdx < length items \<and> predicate (items ! startIdx)
      then ArrayQueue_takeWhile_loop items predicate (startIdx + 1) else startIdx)"
  by pat_completeness auto
termination
  by (relation "measure (\<lambda>(items, p, i). length items - i)") auto

definition ArrayQueue_takeWhile :: "('a \<Rightarrow> bool) \<Rightarrow> 'a ArrayQueue \<Rightarrow> 'a list option \<times> 'a ArrayQueue" where
  "ArrayQueue_takeWhile predicate q =
     (let startIdx = ArrayQueue_takeWhile_loop (aq_items q) predicate (aq_firstIdx q);
          result = (if startIdx = aq_firstIdx q then None
                    else Some (take (startIdx - aq_firstIdx q) (drop (aq_firstIdx q) (aq_items q))))
      in (result, q\<lparr>aq_firstIdx := startIdx\<rparr>))"

text \<open>\<open>n\<close> is \<open>endIdx + 1\<close>; the loop never looks at \<open>firstIdx\<close>.\<close>

fun ArrayQueue_takeFromEndWhile_loop :: "'a list \<Rightarrow> ('a \<Rightarrow> bool) \<Rightarrow> nat \<Rightarrow> nat" where
  "ArrayQueue_takeFromEndWhile_loop items predicate 0 = 0"
| "ArrayQueue_takeFromEndWhile_loop items predicate (Suc n) =
     (if predicate (items ! n) then ArrayQueue_takeFromEndWhile_loop items predicate n else Suc n)"

definition ArrayQueue_takeFromEndWhile ::
  "('a \<Rightarrow> bool) \<Rightarrow> 'a ArrayQueue \<Rightarrow> 'a list option \<times> 'a ArrayQueue" where
  "ArrayQueue_takeFromEndWhile predicate q =
     (if aq_lastIdx q < 0 then (None, q)
      else
        let n = nat (aq_lastIdx q + 1);
            m = ArrayQueue_takeFromEndWhile_loop (aq_items q) predicate n;
            result = (if m = n then None else Some (take (n - m) (drop m (aq_items q))))
        in (result, q\<lparr>aq_lastIdx := int m - 1\<rparr>))"

definition ArrayQueue_peek :: "'a ArrayQueue \<Rightarrow> 'a option" where
  "ArrayQueue_peek q =
     (if ArrayQueue_length q = 0 then None else arr_at (aq_items q) (int (aq_firstIdx q)))"

definition ArrayQueue_peekLast :: "'a ArrayQueue \<Rightarrow> 'a option" where
  "ArrayQueue_peekLast q =
     (if ArrayQueue_length q = 0 then None else arr_at (aq_items q) (aq_lastIdx q))"

definition ArrayQueue_dequeue :: "'a ArrayQueue \<Rightarrow> 'a option \<times> 'a ArrayQueue" where
  "ArrayQueue_dequeue q =
     (arr_at (aq_items q) (int (aq_firstIdx q)), q\<lparr>aq_firstIdx := aq_firstIdx q + 1\<rparr>)"

definition ArrayQueue_removeLast :: "'a ArrayQueue \<Rightarrow> 'a option \<times> 'a ArrayQueue" where
  "ArrayQueue_removeLast q =
     (arr_at (aq_items q) (aq_lastIdx q), q\<lparr>aq_lastIdx := aq_lastIdx q - 1\<rparr>)"

definition ArrayQueue_takeCount :: "nat \<Rightarrow> 'a ArrayQueue \<Rightarrow> 'a list \<times> 'a ArrayQueue" where
  "ArrayQueue_takeCount cnt q =
     (take cnt (drop (aq_firstIdx q) (aq_items q)), q\<lparr>aq_firstIdx := aq_firstIdx q + cnt\<rparr>)"

declare ArrayQueue_takeWhile_loop.simps [simp del]

section \<open>Sorting under a comparator\<close>

lemma mset_js_insort [simp]: "mset (js_insort c x xs) = add_mset x (mset xs)"
  by (induction xs) auto

lemma set_js_insort [simp]: "set (js_insort c x xs) = insert x (set xs)"
  by (induction xs) auto

lemma js_sort_Cons: "js_sort c (x # xs) = js_insort c x (js_sort c xs)"
  by (simp add: js_sort_def)

lemma mset_js_sort [simp]: "mset (js_sort c xs) = mset xs"
  by (induction xs) (simp_all add: js_sort_Cons js_sort_def [of _ "[]"])

lemma set_js_sort [simp]: "set (js_sort c xs) = set xs"
  by (metis mset_js_sort set_mset_mset)

lemma length_js_sort [simp]: "length (js_sort c xs) = length xs"
  by (metis mset_js_sort size_mset)

text \<open>Insertion behind the equal items: what appending an item to the input does to the result.\<close>

fun ins_right :: "'a comparator \<Rightarrow> 'a \<Rightarrow> 'a list \<Rightarrow> 'a list" where
  "ins_right c y [] = [y]"
| "ins_right c y (z # zs) = (if c y z < 0 then y # z # zs else z # ins_right c y zs)"

lemma length_ins_right [simp]: "length (ins_right c y zs) = Suc (length zs)"
  by (induction zs) auto

definition monotone_to_key :: "nat \<Rightarrow> (nat \<Rightarrow> int) \<Rightarrow> bool" where
  "monotone_to_key len f \<longleftrightarrow>
     (\<forall>j < len. \<forall>i \<le> j. (f j < 0 \<longrightarrow> f i < 0) \<and> (f i > 0 \<longrightarrow> f j > 0))"

definition found_or_insertion_point :: "nat \<Rightarrow> (nat \<Rightarrow> int) \<Rightarrow> int \<Rightarrow> bool" where
  "found_or_insertion_point len f r \<longleftrightarrow>
     (if r \<ge> 0 then nat r < len \<and> f (nat r) = 0
      else nat (- r - 1) \<le> len \<and> (\<forall>i < nat (- r - 1). f i < 0) \<and>
           (\<forall>i < len. nat (- r - 1) \<le> i \<longrightarrow> f i > 0))"

lemma binarySearch2_loop_spec:
  "monotone_to_key len f \<Longrightarrow> low \<le> hi \<Longrightarrow> hi \<le> len \<Longrightarrow> \<forall>i < low. f i < 0 \<Longrightarrow>
   \<forall>i < len. hi \<le> i \<longrightarrow> f i > 0 \<Longrightarrow> found_or_insertion_point len f (binarySearch2_loop f low hi)"
proof (induction f low hi rule: binarySearch2_loop.induct)
  case (1 f low hi)
  show ?case
  proof (cases "low < hi")
    case True
    define mid where "mid = (low + (hi - 1)) div 2"
    have mid: "low \<le> mid" "mid < hi" "mid < len" using True 1(5) by (auto simp: mid_def)
    consider "f mid < 0" | "f mid > 0" | "f mid = 0" by linarith
    then show ?thesis
    proof cases
      case neg: 1
      then have "\<forall>i \<le> mid. f i < 0" using 1(3) mid(3) by (simp add: monotone_to_key_def)
      then have "\<forall>i < mid + 1. f i < 0" by simp
      then have "found_or_insertion_point len f (binarySearch2_loop f (mid + 1) hi)"
        using 1(1) [OF True mid_def refl neg] 1(3,5,7) mid by simp
      then show ?thesis using True neg by (subst binarySearch2_loop.simps) (simp add: mid_def Let_def)
    next
      case pos: 2
      then have "\<forall>i < len. mid \<le> i \<longrightarrow> f i > 0"
        using 1(3) by (auto simp: monotone_to_key_def)
      then have "found_or_insertion_point len f (binarySearch2_loop f low mid)"
        using 1(2) [OF True mid_def refl] pos 1(3,5,6) mid by simp
      then show ?thesis using True pos by (subst binarySearch2_loop.simps) (simp add: mid_def Let_def)
    next
      case 3
      then have "binarySearch2_loop f low hi = int mid"
        using True by (subst binarySearch2_loop.simps) (simp add: mid_def Let_def)
      then show ?thesis using 3 mid 1(5) by (simp add: found_or_insertion_point_def)
    qed
  next
    case False
    then have "binarySearch2_loop f low hi = - (int low + 1)"
      by (subst binarySearch2_loop.simps) simp
    then show ?thesis using False 1(4-7) by (simp add: found_or_insertion_point_def)
  qed
qed

lemma length_three_way:
  fixes f :: "'a \<Rightarrow> int"
  shows "length xs = length (filter (\<lambda>x. f x < 0) xs) + length (filter (\<lambda>x. f x = 0) xs) +
     length (filter (\<lambda>x. f x > 0) xs)"
  by (induction xs) auto

lemma length_filter_three_way:
  fixes f :: "'a \<Rightarrow> int"
  assumes "\<And>x. x \<in> set xs \<Longrightarrow> \<not> f x > 0 \<Longrightarrow> Q x"
  shows "length (filter Q xs) = length (filter (\<lambda>x. f x < 0) xs) + length (filter (\<lambda>x. f x = 0) xs) +
     length (filter Q (filter (\<lambda>x. f x > 0) xs))"
  using assms by (induction xs) auto

lemma length_filter_le_zero:
  fixes f :: "'a \<Rightarrow> int"
  shows "length (filter (\<lambda>x. f x \<le> 0) xs) = length (filter (\<lambda>x. f x < 0) xs) + length (filter (\<lambda>x. f x = 0) xs)"
  by (induction xs) auto

lemma quickSelect_unfold:
  assumes "k < length data" "p = data ! pick (length data)"
  shows "quickSelect pick c k data =
    (let lower = filter (\<lambda>x. c x p < 0) data; pivots = filter (\<lambda>x. c x p = 0) data;
         higher = filter (\<lambda>x. c x p > 0) data
     in if k < length lower then quickSelect pick c k lower
        else if k < length lower + length pivots then Some (Inr (pivots ! 0))
        else quickSelect pick c (k - (length lower + length pivots)) higher)"
  using assms by (subst quickSelect.simps) (simp add: Let_def)

context js_comparator
begin

definition sorted_by :: "'a list \<Rightarrow> bool" where
  "sorted_by xs \<longleftrightarrow> sorted_wrt (\<lambda>x y. cmp x y \<le> 0) xs"

lemma sorted_by_insort:
  assumes "sorted_by xs" "valid x" "\<forall>y \<in> set xs. valid y"
  shows "sorted_by (js_insort cmp x xs)"
  using assms
proof (induction xs)
  case (Cons y ys)
  have t: "cmp x z \<le> 0" if "cmp x y \<le> 0" "z \<in> set ys" for z
    using cmp_trans [of x y z] that Cons.prems by (auto simp: sorted_by_def)
  have y: "cmp y x \<le> 0" if "\<not> cmp x y \<le> 0"
    using that cmp_total [of x y] Cons.prems by simp
  show ?case using Cons t y by (auto simp: sorted_by_def)
qed (simp add: sorted_by_def)

lemma sorted_by_js_sort:
  "\<forall>x \<in> set xs. valid x \<Longrightarrow> sorted_by (js_sort cmp xs)"
  by (induction xs) (auto simp: js_sort_Cons sorted_by_insort js_sort_def [of _ "[]"] sorted_by_def [of "[]"])

lemma insort_ins_right:
  assumes "sorted_by zs" "valid x" "valid y" "\<forall>z \<in> set zs. valid z"
  shows "js_insort cmp x (ins_right cmp y zs) = ins_right cmp y (js_insort cmp x zs)"
  using assms
proof (induction zs)
  case Nil
  then show ?case using cmp_neg_iff [of x y] cmp_nonpos_iff [of x y] by simp
next
  case (Cons z zs)
  have v: "valid x" "valid y" "valid z" using Cons.prems by auto
  have "cmp y x < 0" if "cmp y z < 0" "\<not> cmp x z \<le> 0"
  proof -
    have "cmp z x < 0" using that v cmp_neg_iff [of x z] by simp
    then show ?thesis using that cmp_less_trans [of y z x] v by simp
  qed
  moreover have "\<not> cmp y x < 0" if "\<not> cmp y z < 0" "cmp x z \<le> 0"
    using that cmp_less_trans [of y x z] v by blast
  moreover have "(cmp x y \<le> 0) = (\<not> cmp y x < 0)" using cmp_nonpos_iff [of y x] v by auto
  ultimately show ?case
    using Cons by (auto simp: sorted_by_def)
qed

lemma js_sort_snoc:
  assumes "\<forall>x \<in> set (xs @ [y]). valid x"
  shows "js_sort cmp (xs @ [y]) = ins_right cmp y (js_sort cmp xs)"
  using assms
proof (induction xs)
  case Nil
  then show ?case by (simp add: js_sort_def)
next
  case (Cons x xs)
  then show ?case
    using sorted_by_js_sort [of xs] by (simp add: js_sort_Cons insort_ins_right)
qed

lemma ins_right_eq_splice:
  assumes "sorted_by zs" "valid y" "\<forall>z \<in> set zs. valid z"
  shows "arr_splice zs (findFirstIdxMonotonousOrArrLen zs (\<lambda>e. cmp y e < 0)) 0 [y] = ins_right cmp y zs"
proof -
  have "true_prefix zs (\<lambda>e. \<not> cmp y e < 0) (length (takeWhile (\<lambda>e. \<not> cmp y e < 0) zs))"
  proof (rule true_prefix_takeWhile)
    show "sorted_wrt (\<lambda>a b. cmp a b \<le> 0 \<and> valid a \<and> valid b) zs"
      using assms(1,3) unfolding sorted_by_def by (induction zs) auto
    fix a b assume "cmp a b \<le> 0 \<and> valid a \<and> valid b" "\<not> cmp y b < 0"
    then show "\<not> cmp y a < 0" using cmp_less_trans [of y a b] assms(2) by blast
  qed
  then have j: "findFirstIdxMonotonousOrArrLen zs (\<lambda>e. cmp y e < 0) =
      length (takeWhile (\<lambda>e. \<not> cmp y e < 0) zs)"
    by (rule true_prefix_findFirstIdxMonotonousOrArrLen)
  show ?thesis
    unfolding j arr_splice_def by (induction zs) auto
qed

lemma take_ins_right:
  assumes "sorted_by zs" "valid y" "\<forall>z \<in> set zs. valid z" "0 < n" "n \<le> length zs"
  shows "take n (ins_right cmp y zs) =
     (if cmp y (zs ! (n - 1)) < 0 then ins_right cmp y (take (n - 1) zs) else take n zs)"
  using assms
proof (induction zs arbitrary: n)
  case (Cons z zs)
  then obtain k where n: "n = Suc k" by (cases n) auto
  show ?case
  proof (cases k)
    case 0
    then show ?thesis using n by simp
  next
    case (Suc k')
    have t: "cmp y (zs ! k') < 0" if "cmp y z < 0"
      using cmp_less_trans [of y z "zs ! k'"] that Cons.prems n Suc by (auto simp: sorted_by_def)
    have "take k (ins_right cmp y zs) =
        (if cmp y (zs ! k') < 0 then ins_right cmp y (take k' zs) else take k zs)"
      using Cons.IH [of k] Cons.prems n Suc by (simp add: sorted_by_def)
    then show ?thesis using n Suc t by auto
  qed
qed simp

lemma topStep_js_sort:
  assumes "0 < n" "n \<le> length xs" "\<forall>x \<in> set (xs @ rest). valid x"
  shows "topStep cmp (take n (js_sort cmp xs)) rest = take n (js_sort cmp (xs @ rest))"
  using assms(2,3)
proof (induction rest arbitrary: xs)
  case (Cons y rest)
  let ?S = "js_sort cmp xs" and ?r = "take n (js_sort cmp xs)"
  have S: "sorted_by ?S" "\<forall>z \<in> set ?S. valid z" "valid y" "n \<le> length ?S"
    using Cons.prems sorted_by_js_sort by auto
  have b: "butlast ?r = take (n - 1) ?S" "?r ! (length ?r - 1) = ?S ! (n - 1)"
    using S assms(1) by (simp_all add: butlast_take)
  have st: "sorted_by (take (n - 1) ?S)" "\<forall>z \<in> set (take (n - 1) ?S). valid z"
    using S by (auto simp: sorted_by_def sorted_wrt_take dest: in_set_takeD)
  have "(if cmp y (?r ! (length ?r - 1)) < 0
        then let popped = butlast ?r; j = findFirstIdxMonotonousOrArrLen popped (\<lambda>e. cmp y e < 0)
             in arr_splice popped j 0 [y]
        else ?r) = take n (ins_right cmp y ?S)"
    using S st assms(1) by (simp add: b Let_def ins_right_eq_splice take_ins_right)
  also have "\<dots> = take n (js_sort cmp (xs @ [y]))"
    using Cons.prems by (simp add: js_sort_snoc)
  finally show ?case
    using Cons.IH [of "xs @ [y]"] Cons.prems by simp
qed simp

lemma top_n_js_sort:
  assumes "\<forall>x \<in> set array. valid x"
  shows "top_n array cmp n = take n (js_sort cmp array)"
proof (cases "n = 0 \<or> length array \<le> n")
  case True
  then show ?thesis by (auto simp: top_n_def)
next
  case False
  then have "topStep cmp (take n (js_sort cmp (take n array))) (drop n array) =
      take n (js_sort cmp (take n array @ drop n array))"
    using assms by (intro topStep_js_sort) (auto dest: in_set_takeD in_set_dropD)
  then show ?thesis using False by (simp add: top_n_def)
qed

text \<open>The specification of a selected item: its rank among the items is \<open>k\<close>.\<close>

definition has_rank :: "'a list \<Rightarrow> 'a \<Rightarrow> nat \<Rightarrow> bool" where
  "has_rank data v k \<longleftrightarrow> v \<in> set data \<and> length (filter (\<lambda>x. cmp x v < 0) data) \<le> k \<and>
     k < length (filter (\<lambda>x. cmp x v \<le> 0) data)"

lemma has_rank_lower:
  assumes "has_rank (filter (\<lambda>x. cmp x p < 0) data) v k" "\<forall>x \<in> set data. valid x" "valid p"
  shows "has_rank data v k"
proof -
  have v: "v \<in> set data" "cmp v p < 0" using assms(1) by (auto simp: has_rank_def)
  have "cmp x p < 0" if "cmp x v \<le> 0" "x \<in> set data" for x
    using that v cmp_le_less_trans [of x v p] assms by auto
  then have "filter (\<lambda>x. cmp x p < 0 \<and> cmp x v < 0) data = filter (\<lambda>x. cmp x v < 0) data"
      "filter (\<lambda>x. cmp x p < 0 \<and> cmp x v \<le> 0) data = filter (\<lambda>x. cmp x v \<le> 0) data"
    by (auto intro!: filter_cong)
  then show ?thesis using assms(1) v by (simp add: has_rank_def)
qed

lemma has_rank_pivot:
  assumes "v \<in> set data" "cmp v p = 0" "\<forall>x \<in> set data. valid x" "valid p"
    and "length (filter (\<lambda>x. cmp x p < 0) data) \<le> k"
    and "k < length (filter (\<lambda>x. cmp x p < 0) data) + length (filter (\<lambda>x. cmp x p = 0) data)"
  shows "has_rank data v k"
proof -
  have pv: "cmp p v = 0" "valid v" using assms cmp_zero_sym [of v p] by auto
  have "cmp x v < 0 \<longleftrightarrow> cmp x p < 0" "cmp x v \<le> 0 \<longleftrightarrow> cmp x p \<le> 0" if "x \<in> set data" for x
    using cmp_less_trans [of x v p] cmp_less_trans [of x p v]
      cmp_trans [of x v p] cmp_trans [of x p v] that assms pv by auto
  then show ?thesis
    using assms by (simp add: has_rank_def length_filter_le_zero cong: filter_cong)
qed

lemma has_rank_higher:
  assumes "has_rank (filter (\<lambda>x. cmp x p > 0) data) v k'" "\<forall>x \<in> set data. valid x" "valid p"
    and k: "k = length (filter (\<lambda>x. cmp x p < 0) data) + length (filter (\<lambda>x. cmp x p = 0) data) + k'"
  shows "has_rank data v k"
proof -
  have v: "v \<in> set data" "cmp v p > 0" using assms(1) by (auto simp: has_rank_def)
  have lt: "cmp x v < 0" if "\<not> cmp x p > 0" "x \<in> set data" for x
    using that v cmp_le_less_trans [of x p v] cmp_neg_iff [of v p] assms by auto
  show ?thesis
    using assms(1) v lt length_filter_three_way [of data "\<lambda>x. cmp x p" "\<lambda>x. cmp x v < 0"]
      length_filter_three_way [of data "\<lambda>x. cmp x p" "\<lambda>x. cmp x v \<le> 0"]
    by (fastforce simp: has_rank_def k)
qed

lemma quickSelect_rank:
  assumes "k < length data" "\<forall>x \<in> set data. valid x" and pick: "\<And>n. 0 < n \<Longrightarrow> pick n < n"
  shows "\<exists>v. quickSelect pick cmp k data = Some (Inr v) \<and> has_rank data v k"
  using assms(1,2)
proof (induction "length data" arbitrary: k data rule: less_induct)
  case less
  define p where "p = data ! pick (length data)"
  have "pick (length data) < length data" using less.prems pick [of "length data"] by linarith
  then have p: "p \<in> set data" "valid p" using less.prems by (auto simp: p_def)
  let ?L = "filter (\<lambda>x. cmp x p < 0) data" and ?H = "filter (\<lambda>x. cmp x p > 0) data"
    and ?P = "filter (\<lambda>x. cmp x p = 0) data"
  have "p \<in> set ?P" using p cmp_refl by simp
  then have Ppos: "0 < length ?P" by (metis length_pos_if_in_set)
  have len: "length data = length ?L + length ?P + length ?H" by (rule length_three_way)
  note eq = quickSelect_unfold [where c = cmp and pick = pick, OF less.prems(1) p_def, unfolded Let_def]
  consider "k < length ?L" | "length ?L \<le> k" "k < length ?L + length ?P" | "length ?L + length ?P \<le> k"
    by linarith
  then show ?case
  proof cases
    case 1
    have "length ?L < length data" using len Ppos by linarith
    then obtain v where "quickSelect pick cmp k ?L = Some (Inr v)" "has_rank ?L v k"
      using less.hyps [of ?L k] 1 less.prems by auto
    then show ?thesis using 1 eq less.prems(2) p has_rank_lower [of p data v k] by simp
  next
    case 2
    have "?P ! 0 \<in> set ?P" using Ppos by (rule nth_mem)
    then show ?thesis using 2 eq less.prems p has_rank_pivot [of "?P ! 0"] by auto
  next
    case 3
    have "length ?H < length data" "k - (length ?L + length ?P) < length ?H"
      using 3 len Ppos less.prems by linarith+
    then obtain v where "quickSelect pick cmp (k - (length ?L + length ?P)) ?H = Some (Inr v)"
        "has_rank ?H v (k - (length ?L + length ?P))"
      using less.hyps [of ?H] less.prems by auto
    then show ?thesis
      using 3 eq less.prems(2) p has_rank_higher [of p data v "k - (length ?L + length ?P)" k] by simp
  qed
qed

lemma monotone_to_key_sorted:
  assumes "sorted_by array" "valid key" "\<forall>x \<in> set array. valid x"
  shows "monotone_to_key (length array) (\<lambda>i. cmp (array ! i) key)"
  unfolding monotone_to_key_def
proof (intro allI impI)
  fix j i assume ij: "j < length array" "i \<le> j"
  then have v: "valid (array ! i)" "valid (array ! j)" using assms(3) by auto
  have "cmp (array ! i) (array ! j) \<le> 0"
    using sorted_wrt_nth_less [OF assms(1) [unfolded sorted_by_def], of i j] ij v cmp_refl
    by (cases "i = j") auto
  then show "(cmp (array ! j) key < 0 \<longrightarrow> cmp (array ! i) key < 0) \<and>
      (cmp (array ! i) key > 0 \<longrightarrow> cmp (array ! j) key > 0)"
    using v assms(2) cmp_le_less_trans cmp_less_trans cmp_neg_iff by meson
qed

lemma binarySearch_result:
  assumes "sorted_by array" "valid key" "\<forall>x \<in> set array. valid x"
  shows "found_or_insertion_point (length array) (\<lambda>i. cmp (array ! i) key) (binarySearch array key cmp)"
  unfolding binarySearch_def binarySearch2_def
  by (rule binarySearch2_loop_spec [OF monotone_to_key_sorted [OF assms]]) auto

end

section \<open>Groups\<close>

lemma groupAdjacentBy_loop_concat:
  "concat (groupAdjacentBy_loop f cur items) =
   (case cur of None \<Rightarrow> items | Some (g, prev) \<Rightarrow> g @ items)"
  by (induction f cur items rule: groupAdjacentBy_loop.induct) auto

lemma groupAdjacentBy_loop_groups:
  "(\<And>g prev. cur = Some (g, prev) \<Longrightarrow> g \<noteq> [] \<and> prev = last g \<and> successively f g) \<Longrightarrow>
   grp \<in> set (groupAdjacentBy_loop f cur items) \<Longrightarrow> grp \<noteq> [] \<and> successively f grp"
  by (induction f cur items rule: groupAdjacentBy_loop.induct)
    (auto simp: successively_append_iff split: if_splits)

section \<open>Applying the splices of a diff\<close>

text \<open>
  What a client does with the splices: positions refer to the array before the edit.
  \<open>pos\<close> is the position of the first item of \<open>rest\<close>.
\<close>

fun apply_splices :: "nat \<Rightarrow> 'a list \<Rightarrow> 'a ISplice list \<Rightarrow> 'a list" where
  "apply_splices pos rest [] = rest"
| "apply_splices pos rest (s # ss) =
     take (sp_start s - pos) rest @ sp_toInsert s @
     apply_splices (sp_start s + sp_deleteCount s) (drop (sp_start s + sp_deleteCount s - pos) rest) ss"

text \<open>Splices in order, without overlap, inside \<open>pos .. lim\<close>.\<close>

fun splices_within :: "nat \<Rightarrow> 'a ISplice list \<Rightarrow> nat \<Rightarrow> bool" where
  "splices_within pos [] lim \<longleftrightarrow> pos \<le> lim"
| "splices_within pos (s # ss) lim \<longleftrightarrow>
     pos \<le> sp_start s \<and> splices_within (sp_start s + sp_deleteCount s) ss lim"

lemma splices_within_le: "splices_within pos ss lim \<Longrightarrow> pos \<le> lim"
  by (induction ss arbitrary: pos) (fastforce)+

lemma splices_within_mono: "splices_within pos ss lim \<Longrightarrow> lim \<le> lim' \<Longrightarrow> splices_within pos ss lim'"
  by (induction ss arbitrary: pos) auto

lemma splices_within_snoc:
  "splices_within pos (ss @ [s]) lim \<longleftrightarrow>
     splices_within pos ss (sp_start s) \<and> sp_start s + sp_deleteCount s \<le> lim"
  by (induction ss arbitrary: pos) auto

lemma splices_within_snoc2:
  "splices_within pos (ss @ [s, t]) lim \<longleftrightarrow>
     splices_within pos (ss @ [s]) (sp_start t) \<and> sp_start t + sp_deleteCount t \<le> lim"
  using splices_within_snoc [of pos "ss @ [s]" t lim] by simp

lemma apply_splices_append:
  "splices_within pos ss lim \<Longrightarrow> length xs = lim - pos \<Longrightarrow>
   apply_splices pos (xs @ ys) ss = apply_splices pos xs ss @ ys"
proof (induction ss arbitrary: pos xs)
  case (Cons s ss)
  then have "sp_start s + sp_deleteCount s \<le> lim" "pos \<le> sp_start s"
    using splices_within_le by auto
  then show ?case using Cons by auto
qed simp

lemma apply_splices_snoc:
  assumes "splices_within pos ss (sp_start s)" "sp_start s + sp_deleteCount s \<le> pos + length xs" "pos \<le> sp_start s"
  shows "apply_splices pos xs (ss @ [s]) =
     apply_splices pos (take (sp_start s - pos) xs) ss @ sp_toInsert s @ drop (sp_start s + sp_deleteCount s - pos) xs"
  using assms
proof (induction ss arbitrary: pos xs)
  case (Cons t ss)
  let ?e = "sp_start t + sp_deleteCount t"
  have e: "pos \<le> sp_start t" "?e \<le> sp_start s" "splices_within ?e ss (sp_start s)"
    using Cons.prems splices_within_le by auto
  have "apply_splices ?e (drop (?e - pos) xs) (ss @ [s]) =
      apply_splices ?e (take (sp_start s - ?e) (drop (?e - pos) xs)) ss @ sp_toInsert s @
      drop (sp_start s + sp_deleteCount s - ?e) (drop (?e - pos) xs)"
    using Cons.prems e by (intro Cons.IH) auto
  then show ?case using e by (simp add: min_def take_drop)
qed simp

lemma pushSplice_within:
  assumes "splices_within 0 result start"
  shows "splices_within 0 (pushSplice result start del ins) (start + del)"
proof (cases "result = []")
  case False
  then obtain r s where r: "result = r @ [s]" by (metis rev_exhaust)
  show ?thesis using assms unfolding r
    by (auto simp: pushSplice_def splices_within_snoc splices_within_snoc2 intro: splices_within_mono)
qed (simp add: pushSplice_def)

lemma pushSplice_apply:
  assumes "splices_within 0 result start" "length xs = start" "length ys = del"
  shows "apply_splices 0 (xs @ ys) (pushSplice result start del ins) = apply_splices 0 xs result @ ins"
proof (cases "result \<noteq> [] \<and> sp_start (last result) + sp_deleteCount (last result) = start")
  case True
  then obtain r s where r: "result = r @ [s]" by (metis rev_exhaust)
  then show ?thesis
    using assms True by (auto simp: pushSplice_def splices_within_snoc apply_splices_snoc)
next
  case False
  let ?new = "\<lparr>sp_start = start, sp_deleteCount = del, sp_toInsert = ins\<rparr>"
  have "apply_splices 0 (xs @ ys) (result @ [?new]) = apply_splices 0 xs result @ ins"
    using assms by (subst apply_splices_snoc) auto
  then show ?thesis
    using False assms apply_splices_append [of 0 result start xs ys] by (auto simp: pushSplice_def)
qed

lemma sortedDiff_loop_apply:
  assumes "splices_within 0 result beforeIdx" "length done = beforeIdx"
    and "list_all2 (\<lambda>x y. x = y \<or> c x y = 0) (apply_splices 0 done result) after_done"
  shows "list_all2 (\<lambda>x y. x = y \<or> c x y = 0)
           (apply_splices 0 (done @ bs) (sortedDiff_loop c result beforeIdx bs as)) (after_done @ as)"
  using assms
proof (induction c result beforeIdx bs as arbitrary: "done" after_done rule: sortedDiff_loop.induct)
  case (1 c result beforeIdx as)
  then show ?case
    using pushSplice_apply [of result beforeIdx "done" "[]" 0 as]
    by (simp add: list_all2_appendI list_all2_same)
next
  case (2 c result beforeIdx b bs)
  then show ?case
    using pushSplice_apply [of result beforeIdx "done" "b # bs" _ "[]"] by simp
next
  case (3 c result beforeIdx b bs a as)
  let ?R = "\<lambda>x y. x = y \<or> c x y = 0"
  consider "c b a = 0" | "c b a < 0" | "c b a > 0" by linarith
  then show ?case
  proof cases
    case 1
    have "apply_splices 0 (done @ [b]) result = apply_splices 0 done result @ [b]"
      using 3(4,5) by (intro apply_splices_append) auto
    then have "list_all2 ?R (apply_splices 0 (done @ [b]) result) (after_done @ [a])"
      using 3(6) 1 by (simp add: list_all2_appendI)
    then show ?thesis
      using 3(1) [OF refl 1, of "done @ [b]" "after_done @ [a]"] 3(4,5) 1 splices_within_mono by fastforce
  next
    case 2
    have "apply_splices 0 (done @ [b]) (pushSplice result beforeIdx 1 []) = apply_splices 0 done result"
      using pushSplice_apply [of result beforeIdx "done" "[b]" 1 "[]"] 3(4,5) by simp
    then show ?thesis
      using 3(2) [OF refl _ 2, of "done @ [b]" after_done] 2 3(4,5,6)
        pushSplice_within [of result beforeIdx 1 "[]"] by simp
  next
    case gt: 3
    have "apply_splices 0 done (pushSplice result beforeIdx 0 [a]) = apply_splices 0 done result @ [a]"
      using pushSplice_apply [of result beforeIdx "done" "[]" 0 "[a]"] 3(4,5) by simp
    then have "list_all2 ?R (apply_splices 0 done (pushSplice result beforeIdx 0 [a])) (after_done @ [a])"
      using 3(6) by (simp add: list_all2_appendI)
    then show ?thesis
      using 3(3) [OF refl, of "done" "after_done @ [a]"] gt 3(4,5)
        pushSplice_within [of result beforeIdx 0 "[a]"] by simp
  qed
qed

lemma sortedDiff_loop_within:
  "splices_within 0 result beforeIdx \<Longrightarrow>
   splices_within 0 (sortedDiff_loop c result beforeIdx bs as) (beforeIdx + length bs)"
proof (induction c result beforeIdx bs as rule: sortedDiff_loop.induct)
  case (1 c result beforeIdx as)
  then show ?case using pushSplice_within [of result beforeIdx 0 as] by simp
next
  case (2 c result beforeIdx b bs)
  then show ?case using pushSplice_within [of result beforeIdx "length (b # bs)" "[]"] by simp
next
  case (3 c result beforeIdx b bs a as)
  have "splices_within 0 result (beforeIdx + 1)" by (rule splices_within_mono [OF 3(4)]) simp
  then show ?case
    using 3 pushSplice_within [OF 3(4), of 1 "[]"] pushSplice_within [OF 3(4), of 0 "[a]"]
    by (simp add: Let_def)
qed

section \<open>The queue an ArrayQueue stands for\<close>

definition ArrayQueue_contents :: "'a ArrayQueue \<Rightarrow> 'a list" where
  "ArrayQueue_contents q = take (nat (ArrayQueue_length q)) (drop (aq_firstIdx q) (aq_items q))"

definition ArrayQueue_wf :: "'a ArrayQueue \<Rightarrow> bool" where
  "ArrayQueue_wf q \<longleftrightarrow> int (aq_firstIdx q) \<le> aq_lastIdx q + 1 \<and> aq_lastIdx q < int (length (aq_items q))"

lemma ArrayQueue_takeWhile_loop_eq:
  "i \<le> length items \<Longrightarrow>
   ArrayQueue_takeWhile_loop items p i = i + length (takeWhile p (drop i items))"
proof (induction items p i rule: ArrayQueue_takeWhile_loop.induct)
  case (1 items p i)
  show ?case
  proof (cases "i < length items \<and> p (items ! i)")
    case True
    then have "drop i items = items ! i # drop (i + 1) items"
      by (simp add: Cons_nth_drop_Suc)
    then show ?thesis using True 1 by (subst ArrayQueue_takeWhile_loop.simps) simp
  next
    case False
    then have "takeWhile p (drop i items) = []"
      by (cases "drop i items") (auto simp: nth_via_drop)
    then show ?thesis using False by (subst ArrayQueue_takeWhile_loop.simps) auto
  qed
qed

lemma takeWhile_take_eq:
  "(\<exists>x \<in> set (take n xs). \<not> p x) \<or> length xs \<le> n \<Longrightarrow> takeWhile p (take n xs) = takeWhile p xs"
  by (induction xs arbitrary: n) (auto simp: take_Cons split: nat.splits)

lemma length_takeWhile_take:
  "(\<exists>x \<in> set (take n xs). \<not> p x) \<or> length xs \<le> n \<Longrightarrow> length (takeWhile p xs) \<le> n"
  by (metis length_take length_takeWhile_le min.bounded_iff takeWhile_take_eq)

lemma length_ArrayQueue_contents:
  "ArrayQueue_wf q \<Longrightarrow> length (ArrayQueue_contents q) = nat (ArrayQueue_length q)"
  by (auto simp: ArrayQueue_contents_def ArrayQueue_wf_def ArrayQueue_length_def)

lemma nth_ArrayQueue_contents:
  "ArrayQueue_wf q \<Longrightarrow> i < nat (ArrayQueue_length q) \<Longrightarrow>
   ArrayQueue_contents q ! i = aq_items q ! (aq_firstIdx q + i)"
  by (auto simp: ArrayQueue_contents_def ArrayQueue_wf_def ArrayQueue_length_def)

lemma ArrayQueue_window:
  assumes "ArrayQueue_wf q" "ArrayQueue_contents q = x # xs"
  obtains n where "ArrayQueue_length q = int (Suc n)" "aq_lastIdx q = int (aq_firstIdx q + n)"
    "aq_firstIdx q + n < length (aq_items q)" "length xs = n"
    "x = aq_items q ! aq_firstIdx q" "xs = take n (drop (Suc (aq_firstIdx q)) (aq_items q))"
proof -
  have len: "nat (ArrayQueue_length q) = Suc (length xs)"
    using length_ArrayQueue_contents [OF assms(1)] assms(2) by simp
  then have L: "ArrayQueue_length q = int (Suc (length xs))" by linarith
  have b: "aq_lastIdx q = int (aq_firstIdx q + length xs)" "aq_firstIdx q + length xs < length (aq_items q)"
    using L assms(1) by (auto simp: ArrayQueue_length_def ArrayQueue_wf_def)
  then have "drop (aq_firstIdx q) (aq_items q) =
      aq_items q ! aq_firstIdx q # drop (Suc (aq_firstIdx q)) (aq_items q)"
    by (simp add: Cons_nth_drop_Suc)
  then have "x = aq_items q ! aq_firstIdx q" "xs = take (length xs) (drop (Suc (aq_firstIdx q)) (aq_items q))"
    using assms(2) len by (auto simp: ArrayQueue_contents_def)
  then show ?thesis using that L b by blast
qed

lemma ArrayQueue_dequeue_contents:
  assumes "ArrayQueue_wf q" "ArrayQueue_contents q = x # xs"
  shows "ArrayQueue_peek q = Some x" "fst (ArrayQueue_dequeue q) = Some x"
    "ArrayQueue_contents (snd (ArrayQueue_dequeue q)) = xs"
proof -
  from ArrayQueue_window [OF assms] obtain n where n: "ArrayQueue_length q = int (Suc n)"
      "aq_lastIdx q = int (aq_firstIdx q + n)" "aq_firstIdx q + n < length (aq_items q)"
      "x = aq_items q ! aq_firstIdx q" "xs = take n (drop (Suc (aq_firstIdx q)) (aq_items q))" by blast
  then show "ArrayQueue_peek q = Some x" "fst (ArrayQueue_dequeue q) = Some x"
    by (simp_all add: ArrayQueue_dequeue_def ArrayQueue_peek_def)
  show "ArrayQueue_contents (snd (ArrayQueue_dequeue q)) = xs"
    by (simp add: ArrayQueue_dequeue_def ArrayQueue_contents_def ArrayQueue_length_def n)
qed

lemma ArrayQueue_removeLast_contents:
  assumes "ArrayQueue_wf q" "ArrayQueue_contents q = x # xs"
  shows "fst (ArrayQueue_removeLast q) = Some (last (x # xs))"
    "ArrayQueue_contents (snd (ArrayQueue_removeLast q)) = butlast (x # xs)"
proof -
  from ArrayQueue_window [OF assms] obtain n where n: "ArrayQueue_length q = int (Suc n)"
      "aq_lastIdx q = int (aq_firstIdx q + n)" "aq_firstIdx q + n < length (aq_items q)" by blast
  have "nat (ArrayQueue_length q) = Suc n" using n(1) by linarith
  then have c: "x # xs = take (Suc n) (drop (aq_firstIdx q) (aq_items q))"
    using assms(2) by (simp add: ArrayQueue_contents_def)
  have "last (x # xs) = aq_items q ! (aq_firstIdx q + n)"
    unfolding c using n by (subst last_conv_nth) auto
  then show "fst (ArrayQueue_removeLast q) = Some (last (x # xs))"
    unfolding ArrayQueue_removeLast_def n(2) using n(3) by (simp del: of_nat_add)
  have "ArrayQueue_contents (snd (ArrayQueue_removeLast q)) = take n (drop (aq_firstIdx q) (aq_items q))"
    using n by (simp add: ArrayQueue_contents_def ArrayQueue_removeLast_def ArrayQueue_length_def)
  also have "\<dots> = butlast (x # xs)" unfolding c using n by (simp add: butlast_take)
  finally show "ArrayQueue_contents (snd (ArrayQueue_removeLast q)) = butlast (x # xs)" .
qed

lemma ArrayQueue_takeWhile_contents:
  assumes "ArrayQueue_wf q" "(\<exists>y \<in> set (ArrayQueue_contents q). \<not> p y) \<or>
      aq_lastIdx q = int (length (aq_items q)) - 1"
  shows "fst (ArrayQueue_takeWhile p q) =
      (if takeWhile p (ArrayQueue_contents q) = [] then None else Some (takeWhile p (ArrayQueue_contents q)))"
    "ArrayQueue_contents (snd (ArrayQueue_takeWhile p q)) = dropWhile p (ArrayQueue_contents q)"
proof -
  define n where "n = nat (ArrayQueue_length q)"
  define ds where "ds = drop (aq_firstIdx q) (aq_items q)"
  define t where "t = length (takeWhile p ds)"
  have c: "ArrayQueue_contents q = take n ds" by (simp add: ArrayQueue_contents_def n_def ds_def)
  have h: "(\<exists>x \<in> set (take n ds). \<not> p x) \<or> length ds \<le> n"
    using assms by (auto simp: c n_def ds_def ArrayQueue_length_def ArrayQueue_wf_def)
  have tw: "takeWhile p (take n ds) = takeWhile p ds" "t \<le> n"
    using takeWhile_take_eq [OF h] length_takeWhile_take [OF h] by (simp_all add: t_def)
  have take_t: "take t ds = takeWhile p ds" unfolding t_def by (metis takeWhile_eq_take)
  have idx: "ArrayQueue_takeWhile_loop (aq_items q) p (aq_firstIdx q) = aq_firstIdx q + t"
    using assms(1) by (simp add: ArrayQueue_takeWhile_loop_eq ArrayQueue_wf_def ds_def t_def)
  show "fst (ArrayQueue_takeWhile p q) =
      (if takeWhile p (ArrayQueue_contents q) = [] then None else Some (takeWhile p (ArrayQueue_contents q)))"
    by (simp add: ArrayQueue_takeWhile_def idx Let_def c tw take_t ds_def [symmetric]) (simp add: t_def)
  have "nat (ArrayQueue_length (q\<lparr>aq_firstIdx := aq_firstIdx q + t\<rparr>)) = n - t"
    by (simp add: ArrayQueue_length_def n_def)
  then have "ArrayQueue_contents (snd (ArrayQueue_takeWhile p q)) = take (n - t) (drop t ds)"
    by (simp add: ArrayQueue_contents_def ArrayQueue_takeWhile_def idx Let_def ds_def add.commute)
  also have "\<dots> = dropWhile p (take n ds)"
    unfolding dropWhile_eq_drop tw t_def [symmetric] by (simp add: drop_take)
  finally show "ArrayQueue_contents (snd (ArrayQueue_takeWhile p q)) = dropWhile p (ArrayQueue_contents q)"
    by (simp add: c)
qed

section \<open>Properties\<close>

text \<open>
  \<open>binarySearch\<close> on a sorted array: a result that is not negative is the index of an
  item equal to the key; a negative result is \<open>-(n+1)\<close> where every item before \<open>n\<close> is
  smaller than the key and every item from \<open>n\<close> on is greater, so inserting the key at
  \<open>n\<close> keeps the array sorted.
\<close>

theorem binarySearch_finds_or_locates:
  assumes "js_comparator c valid" "sorted_wrt (\<lambda>x y. c x y \<le> 0) array"
    and "valid key" "\<forall>x \<in> set array. valid x"
  shows "found_or_insertion_point (length array) (\<lambda>i. c (array ! i) key) (binarySearch array key c)"
  using js_comparator.binarySearch_result [OF assms(1)] assms(2-)
  by (simp add: js_comparator.sorted_by_def [OF assms(1)])

theorem binarySearch_finds_or_locates_witness:
  "binarySearch [10, 20, 30] 25 numberComparator = - 3 \<and>
   found_or_insertion_point 3 (\<lambda>i. numberComparator ([10, 20, 30] ! i) 25) (- 3)"
proof -
  have e: "binarySearch [10, 20, 30] 25 numberComparator = - 3" by code_simp
  show ?thesis
    using binarySearch_finds_or_locates [OF numcmp.js_comparator_axioms, of "[10, 20, 30]" 25] e
    by (simp add: numberComparator_def numeral_eq_Suc)
qed

text \<open>
  \<open>top\<close>, which keeps a sorted window of n items and inserts into it, returns the
  first n items of the whole array sorted with the comparator, in order and with ties
  resolved as the stable sort resolves them.
\<close>

theorem top_n_is_prefix_of_sort:
  assumes "js_comparator c valid" "\<forall>x \<in> set array. valid x"
  shows "top_n array c n = take n (js_sort c array) \<and> sorted_wrt (\<lambda>x y. c x y \<le> 0) (js_sort c array) \<and>
         mset (js_sort c array) = mset array"
  using js_comparator.top_n_js_sort [OF assms] js_comparator.sorted_by_js_sort [OF assms]
  by (simp add: js_comparator.sorted_by_def [OF assms(1)])

theorem top_n_is_prefix_of_sort_witness:
  "top_n [5, 1, 4, 2, 3] numberComparator 2 = take 2 (js_sort numberComparator [5, 1, 4, 2, 3]) \<and>
   top_n [5, 1, 4, 2, 3] numberComparator 2 = [1, 2]"
proof -
  have "js_sort numberComparator [5, 1, 4, 2, 3] = [1, 2, 3, 4, 5]" by code_simp
  then show ?thesis
    using top_n_is_prefix_of_sort [OF numcmp.js_comparator_axioms, of "[5, 1, 4, 2, 3]" 2] by simp
qed

text \<open>
  \<open>quickSelect\<close> returns, for every choice of the random pivots, and what it returns
  is an item of rank k: at most k items are smaller than it and more than k are smaller or
  equal.
\<close>

theorem quickSelect_returns_kth:
  assumes "js_comparator c valid" "\<forall>x \<in> set data. valid x" "k < length data" "\<And>n. 0 < n \<Longrightarrow> pick n < n"
  shows "\<exists>v \<in> set data. quickSelect pick c k data = Some (Inr v) \<and>
     length (filter (\<lambda>x. c x v < 0) data) \<le> k \<and> k < length (filter (\<lambda>x. c x v \<le> 0) data)"
  using js_comparator.quickSelect_rank [OF assms(1,3,2,4)]
  by (auto simp: js_comparator.has_rank_def [OF assms(1)])

theorem quickSelect_returns_kth_witness:
  "\<exists>v \<in> set [3, 1, 2]. quickSelect (\<lambda>n. n div 2) numberComparator 1 [3, 1, 2] = Some (Inr v) \<and>
     length (filter (\<lambda>x. numberComparator x v < 0) [3, 1, 2]) \<le> 1 \<and>
     1 < length (filter (\<lambda>x. numberComparator x v \<le> 0) [3, 1, 2])"
  using quickSelect_returns_kth [OF numcmp.js_comparator_axioms, of "[3, 1, 2]" 1 "\<lambda>n. n div 2"] by simp

text \<open>
  The splices of \<open>sortedDiff\<close>, applied to \<open>before\<close>, give \<open>after\<close>, up to items the
  comparator calls equal; they are in order, do not overlap and stay inside the array.
\<close>

theorem sortedDiff_transforms_before_to_after:
  "list_all2 (\<lambda>x y. x = y \<or> c x y = 0) (apply_splices 0 before (sortedDiff before after c)) after \<and>
   splices_within 0 (sortedDiff before after c) (length before)"
  using sortedDiff_loop_apply [of "[]" 0 "[]" c "[]" before after]
    sortedDiff_loop_within [of "[]" 0 c before after] by (simp add: sortedDiff_def)

text \<open>
  An \<open>ArrayQueue\<close> is the list of the items between its two indices: \<open>dequeue\<close> and
  \<open>removeLast\<close> take an item from the front and the back, \<open>peek\<close> shows the front,
  \<open>takeCount\<close> takes from the front, and \<open>takeWhile\<close> splits the list at the first item
  that fails the predicate, as long as there is one or nothing was removed from the back.
\<close>

theorem ArrayQueue_is_a_queue:
  assumes "ArrayQueue_wf q" "ArrayQueue_contents q = x # xs"
    and "(\<exists>y \<in> set (x # xs). \<not> p y) \<or> aq_lastIdx q = int (length (aq_items q)) - 1"
  shows "ArrayQueue_peek q = Some x \<and>
    (fst (ArrayQueue_dequeue q) = Some x \<and> ArrayQueue_contents (snd (ArrayQueue_dequeue q)) = xs) \<and>
    (fst (ArrayQueue_removeLast q) = Some (last (x # xs)) \<and>
       ArrayQueue_contents (snd (ArrayQueue_removeLast q)) = butlast (x # xs)) \<and>
    (fst (ArrayQueue_takeWhile p q) = (if p x then Some (takeWhile p (x # xs)) else None) \<and>
       ArrayQueue_contents (snd (ArrayQueue_takeWhile p q)) = dropWhile p (x # xs))"
  using ArrayQueue_dequeue_contents [OF assms(1,2)] ArrayQueue_removeLast_contents [OF assms(1,2)]
    ArrayQueue_takeWhile_contents [OF assms(1), of p] assms(2,3) by auto

theorem ArrayQueue_is_a_queue_witness:
  "ArrayQueue_contents (snd (ArrayQueue_takeWhile even (new_ArrayQueue [2, 4, 5, 6 :: nat]))) = [5, 6] \<and>
   fst (ArrayQueue_removeLast (new_ArrayQueue [2, 4, 5, 6 :: nat])) = Some 6"
proof -
  let ?q = "new_ArrayQueue [2, 4, 5, 6 :: nat]"
  have h: "ArrayQueue_wf ?q" "ArrayQueue_contents ?q = [2, 4, 5, 6]"
    "aq_lastIdx ?q = int (length (aq_items ?q)) - 1" by code_simp+
  show ?thesis using ArrayQueue_is_a_queue [OF h(1,2), of even] h(3) by simp
qed

text \<open>
  The restriction of \<open>takeWhile\<close> is needed: its loop stops at the end of the backing array
  and not at \<open>lastIdx\<close>, so after \<open>removeLast\<close> it hands out an item that is no longer in
  the queue. The comment in the source has the bound \<open>k <= this.lastIdx\<close>.
\<close>

lemma ArrayQueue_takeWhile_returns_removed_item:
  "(let q = snd (ArrayQueue_removeLast (new_ArrayQueue [1, 2, 3 :: nat]))
    in ArrayQueue_contents q = [1, 2] \<and> fst (ArrayQueue_takeWhile (\<lambda>_. True) q) = Some [1, 2, 3])"
  by code_simp

end
