(* ===== verification/Core_Position.thy ===== *)
theory Core_Position
  imports Comparators
begin

text \<open>
  \<open>src/vs/editor/common/core/position.ts\<close>: a position in a text, a line number and a
  column. Positions are ordered by line, then column; the class \<open>linorder\<close> of the
  library is instantiated with that order, and the comparison methods of the source are
  proved to decide it.
\<close>

record Position =
  lineNumber :: number
  column :: number

definition new_Position :: "number \<Rightarrow> number \<Rightarrow> Position" where
  "new_Position l c = \<lparr>lineNumber = l, column = c\<rparr>"

text \<open>The parameters have defaults: None is an omitted argument.\<close>

definition Position_with :: "Position \<Rightarrow> number option \<Rightarrow> number option \<Rightarrow> Position" where
  "Position_with this newLineNumber newColumn =
     (let l = (case newLineNumber of None \<Rightarrow> lineNumber this | Some n \<Rightarrow> n);
          c = (case newColumn of None \<Rightarrow> column this | Some n \<Rightarrow> n)
      in if l = lineNumber this \<and> c = column this then this else new_Position l c)"

definition Position_delta :: "Position \<Rightarrow> number option \<Rightarrow> number option \<Rightarrow> Position" where
  "Position_delta this deltaLineNumber deltaColumn =
     (let dl = (case deltaLineNumber of None \<Rightarrow> 0 | Some n \<Rightarrow> n);
          dc = (case deltaColumn of None \<Rightarrow> 0 | Some n \<Rightarrow> n)
      in Position_with this (Some (lineNumber this + dl)) (Some (column this + dc)))"

text \<open>\<open>null\<close> positions are None.\<close>

definition Position_equals :: "Position option \<Rightarrow> Position option \<Rightarrow> bool" where
  "Position_equals a b \<longleftrightarrow>
     (case (a, b) of
        (None, None) \<Rightarrow> True
      | (Some p, Some q) \<Rightarrow> lineNumber p = lineNumber q \<and> column p = column q
      | _ \<Rightarrow> False)"

definition Position_isBefore :: "Position \<Rightarrow> Position \<Rightarrow> bool" where
  "Position_isBefore a b =
     (if lineNumber a < lineNumber b then True
      else if lineNumber b < lineNumber a then False
      else column a < column b)"

definition Position_isBeforeOrEqual :: "Position \<Rightarrow> Position \<Rightarrow> bool" where
  "Position_isBeforeOrEqual a b =
     (if lineNumber a < lineNumber b then True
      else if lineNumber b < lineNumber a then False
      else column a \<le> column b)"

definition Position_compare :: "Position \<Rightarrow> Position \<Rightarrow> number" where
  "Position_compare a b =
     (let aLineNumber = toInt32 (lineNumber a); bLineNumber = toInt32 (lineNumber b)
      in if aLineNumber = bLineNumber
         then (let aColumn = toInt32 (column a); bColumn = toInt32 (column b) in aColumn - bColumn)
         else aLineNumber - bLineNumber)"

definition Position_clone :: "Position \<Rightarrow> Position" where
  "Position_clone this = new_Position (lineNumber this) (column this)"

definition Position_toString :: "Position \<Rightarrow> jsstring" where
  "Position_toString this =
     js_str ''('' @ js_show_number (lineNumber this) @ js_str '','' @ js_show_number (column this) @ js_str '')''"

definition Position_lift :: "Position \<Rightarrow> Position" where
  "Position_lift pos = new_Position (lineNumber pos) (column pos)"

section \<open>The order on positions\<close>

instantiation Position_ext :: (linorder) linorder
begin

definition less_eq_Position_ext_def:
  "p \<le> q \<longleftrightarrow> lineNumber p < lineNumber q \<or>
     (lineNumber p = lineNumber q \<and>
       (column p < column q \<or> (column p = column q \<and> Position.more p \<le> Position.more q)))"

definition less_Position_ext_def:
  "p < q \<longleftrightarrow> lineNumber p < lineNumber q \<or>
     (lineNumber p = lineNumber q \<and>
       (column p < column q \<or> (column p = column q \<and> Position.more p < Position.more q)))"

instance
  by standard (auto simp: less_eq_Position_ext_def less_Position_ext_def)

end

lemma less_Position_iff:
  "(p :: Position) < q \<longleftrightarrow> lineNumber p < lineNumber q \<or> lineNumber p = lineNumber q \<and> column p < column q"
  by (simp add: less_Position_ext_def)

lemma less_eq_Position_iff:
  "(p :: Position) \<le> q \<longleftrightarrow> lineNumber p < lineNumber q \<or> lineNumber p = lineNumber q \<and> column p \<le> column q"
  by (auto simp: less_eq_Position_ext_def)

lemmas Position_order = less_Position_iff less_eq_Position_iff

lemma new_Position_sel [simp]:
  "lineNumber (new_Position l c) = l" "column (new_Position l c) = c"
  by (simp_all add: new_Position_def)

lemma new_Position_eta [simp]: "new_Position (lineNumber p) (column p) = p"
  by (simp add: new_Position_def)

lemma new_Position_eq_iff [simp]: "new_Position l c = new_Position l' c' \<longleftrightarrow> l = l' \<and> c = c'"
  by (simp add: new_Position_def)

lemma Position_isBefore_iff [simp]: "Position_isBefore a b \<longleftrightarrow> a < b"
  by (auto simp: Position_isBefore_def Position_order)

lemma Position_isBeforeOrEqual_iff [simp]: "Position_isBeforeOrEqual a b \<longleftrightarrow> a \<le> b"
  by (auto simp: Position_isBeforeOrEqual_def Position_order)

lemma Position_equals_Some [simp]: "Position_equals (Some a) (Some b) \<longleftrightarrow> a = b"
  by (auto simp: Position_equals_def)

text \<open>\<open>compare\<close> reads the coordinates as 32-bit integers: it is the order where they fit.\<close>

definition Position_int32 :: "Position \<Rightarrow> bool" where
  "Position_int32 p \<longleftrightarrow> is_int32 (lineNumber p) \<and> is_int32 (column p)"

lemma Position_compare_sgn:
  assumes "Position_int32 a" "Position_int32 b"
  shows "sgn (Position_compare a b) = (if a < b then -1 else if a = b then 0 else 1)"
  using assms by (auto simp: Position_compare_def Position_int32_def Position_order Let_def sgn_if)

lemma Position_compare_signs:
  assumes "Position_int32 a" "Position_int32 b"
  shows "Position_compare a b < 0 \<longleftrightarrow> a < b" "Position_compare a b = 0 \<longleftrightarrow> a = b"
    "Position_compare a b \<le> 0 \<longleftrightarrow> a \<le> b"
  using Position_compare_sgn [OF assms] by (auto simp: sgn_if split: if_splits)

interpretation poscmp: js_comparator Position_compare Position_int32
proof (unfold_locales, goal_cases)
  case (1 a b)
  then show ?case by (auto simp: Position_compare_sgn)
next
  case (2 a b c)
  then show ?case by (auto simp: Position_compare_signs)
qed

section \<open>Properties\<close>

text \<open>
  The position order of the editor: \<open>isBefore\<close> and \<open>isBeforeOrEqual\<close> are the strict
  and the weak lexicographic order on (line, column), and for 32-bit coordinates the sign of
  \<open>compare\<close> decides it: negative exactly for an earlier position, zero exactly for the same.
\<close>

theorem Position_compare_decides_order:
  assumes "Position_int32 a" "Position_int32 b"
  shows "(Position_isBefore a b \<longleftrightarrow> (lineNumber a, column a) \<in> {(l, c). l < lineNumber b \<or> l = lineNumber b \<and> c < column b}) \<and>
         (Position_isBeforeOrEqual a b \<longleftrightarrow> \<not> Position_isBefore b a) \<and>
         (Position_compare a b < 0 \<longleftrightarrow> Position_isBefore a b) \<and>
         (Position_compare a b = 0 \<longleftrightarrow> Position_equals (Some a) (Some b))"
  using assms by (auto simp: Position_compare_signs Position_order)

theorem Position_compare_decides_order_witness:
  "Position_compare (new_Position 3 7) (new_Position 3 9) < 0 \<and>
   Position_isBefore (new_Position 3 7) (new_Position 3 9)"
proof -
  have h: "Position_int32 (new_Position 3 7)" "Position_int32 (new_Position 3 9)"
    by (simp_all add: Position_int32_def is_int32_def)
  show ?thesis
    using Position_compare_decides_order [OF h] by (auto simp: Position_isBefore_def)
qed

end
