(* ===== verification/Core_Range.thy ===== *)
theory Core_Range
  imports Core_Position
begin

text \<open>
  \<open>src/vs/editor/common/core/range.ts\<close>: a range of a text, from a start position to an
  end position. The constructor swaps its arguments when they are in the wrong order, so
  that every range it makes starts before it ends (\<open>Range_wf\<close>). The set of positions
  of a range (\<open>Range_positions\<close>) is the abstract view: containment is inclusion,
  \<open>plusRange\<close> the least range that covers both, \<open>intersectRanges\<close> the intersection.
\<close>

record Range =
  startLineNumber :: number
  startColumn :: number
  endLineNumber :: number
  endColumn :: number

definition new_Range :: "number \<Rightarrow> number \<Rightarrow> number \<Rightarrow> number \<Rightarrow> Range" where
  "new_Range sl sc el ec =
     (if sl > el \<or> sl = el \<and> sc > ec
      then \<lparr>startLineNumber = el, startColumn = ec, endLineNumber = sl, endColumn = sc\<rparr>
      else \<lparr>startLineNumber = sl, startColumn = sc, endLineNumber = el, endColumn = ec\<rparr>)"

definition Range_isEmpty :: "Range \<Rightarrow> bool" where
  "Range_isEmpty r \<longleftrightarrow>
     startLineNumber r = endLineNumber r \<and> startColumn r = endColumn r"

definition Range_containsPosition :: "Range \<Rightarrow> Position \<Rightarrow> bool" where
  "Range_containsPosition r p =
     (if lineNumber p < startLineNumber r \<or> lineNumber p > endLineNumber r then False
      else if lineNumber p = startLineNumber r \<and> column p < startColumn r then False
      else if lineNumber p = endLineNumber r \<and> column p > endColumn r then False
      else True)"

definition Range_strictContainsPosition :: "Range \<Rightarrow> Position \<Rightarrow> bool" where
  "Range_strictContainsPosition r p =
     (if lineNumber p < startLineNumber r \<or> lineNumber p > endLineNumber r then False
      else if lineNumber p = startLineNumber r \<and> column p \<le> startColumn r then False
      else if lineNumber p = endLineNumber r \<and> column p \<ge> endColumn r then False
      else True)"

definition Range_containsRange :: "Range \<Rightarrow> Range \<Rightarrow> bool" where
  "Range_containsRange r other =
     (if startLineNumber other < startLineNumber r \<or> endLineNumber other < startLineNumber r then False
      else if startLineNumber other > endLineNumber r \<or> endLineNumber other > endLineNumber r then False
      else if startLineNumber other = startLineNumber r \<and> startColumn other < startColumn r then False
      else if endLineNumber other = endLineNumber r \<and> endColumn other > endColumn r then False
      else True)"

definition Range_strictContainsRange :: "Range \<Rightarrow> Range \<Rightarrow> bool" where
  "Range_strictContainsRange r other =
     (if startLineNumber other < startLineNumber r \<or> endLineNumber other < startLineNumber r then False
      else if startLineNumber other > endLineNumber r \<or> endLineNumber other > endLineNumber r then False
      else if startLineNumber other = startLineNumber r \<and> startColumn other \<le> startColumn r then False
      else if endLineNumber other = endLineNumber r \<and> endColumn other \<ge> endColumn r then False
      else True)"

definition Range_plusRange :: "Range \<Rightarrow> Range \<Rightarrow> Range" where
  "Range_plusRange a b =
     (let (sl, sc) =
            (if startLineNumber b < startLineNumber a then (startLineNumber b, startColumn b)
             else if startLineNumber b = startLineNumber a
             then (startLineNumber b, min (startColumn b) (startColumn a))
             else (startLineNumber a, startColumn a));
          (el, ec) =
            (if endLineNumber b > endLineNumber a then (endLineNumber b, endColumn b)
             else if endLineNumber b = endLineNumber a
             then (endLineNumber b, max (endColumn b) (endColumn a))
             else (endLineNumber a, endColumn a))
      in new_Range sl sc el ec)"

definition Range_intersectRanges :: "Range \<Rightarrow> Range \<Rightarrow> Range option" where
  "Range_intersectRanges a b =
     (let (sl, sc) =
            (if startLineNumber a < startLineNumber b then (startLineNumber b, startColumn b)
             else if startLineNumber a = startLineNumber b
             then (startLineNumber a, max (startColumn a) (startColumn b))
             else (startLineNumber a, startColumn a));
          (el, ec) =
            (if endLineNumber a > endLineNumber b then (endLineNumber b, endColumn b)
             else if endLineNumber a = endLineNumber b
             then (endLineNumber a, min (endColumn a) (endColumn b))
             else (endLineNumber a, endColumn a))
      in if sl > el then None
         else if sl = el \<and> sc > ec then None
         else Some (new_Range sl sc el ec))"

definition Range_equalsRange :: "Range option \<Rightarrow> Range option \<Rightarrow> bool" where
  "Range_equalsRange a b \<longleftrightarrow>
     (case (a, b) of
        (None, None) \<Rightarrow> True
      | (Some x, Some y) \<Rightarrow>
          startLineNumber x = startLineNumber y \<and> startColumn x = startColumn y \<and>
          endLineNumber x = endLineNumber y \<and> endColumn x = endColumn y
      | _ \<Rightarrow> False)"

definition Range_getEndPosition :: "Range \<Rightarrow> Position" where
  "Range_getEndPosition r = new_Position (endLineNumber r) (endColumn r)"

definition Range_getStartPosition :: "Range \<Rightarrow> Position" where
  "Range_getStartPosition r = new_Position (startLineNumber r) (startColumn r)"

definition Range_toString :: "Range \<Rightarrow> jsstring" where
  "Range_toString r =
     js_str ''['' @ js_show_number (startLineNumber r) @ js_str '','' @ js_show_number (startColumn r) @
     js_str '' -> '' @ js_show_number (endLineNumber r) @ js_str '','' @ js_show_number (endColumn r) @ js_str '']''"

definition Range_setEndPosition :: "Range \<Rightarrow> number \<Rightarrow> number \<Rightarrow> Range" where
  "Range_setEndPosition r el ec = new_Range (startLineNumber r) (startColumn r) el ec"

definition Range_setStartPosition :: "Range \<Rightarrow> number \<Rightarrow> number \<Rightarrow> Range" where
  "Range_setStartPosition r sl sc = new_Range sl sc (endLineNumber r) (endColumn r)"

definition Range_collapseToStart :: "Range \<Rightarrow> Range" where
  "Range_collapseToStart r =
     new_Range (startLineNumber r) (startColumn r) (startLineNumber r) (startColumn r)"

definition Range_collapseToEnd :: "Range \<Rightarrow> Range" where
  "Range_collapseToEnd r = new_Range (endLineNumber r) (endColumn r) (endLineNumber r) (endColumn r)"

definition Range_delta :: "Range \<Rightarrow> number \<Rightarrow> Range" where
  "Range_delta r lineCount =
     new_Range (startLineNumber r + lineCount) (startColumn r) (endLineNumber r + lineCount) (endColumn r)"

definition Range_fromPositions :: "Position \<Rightarrow> Position option \<Rightarrow> Range" where
  "Range_fromPositions start epos =
     (let e = (case epos of None \<Rightarrow> start | Some p \<Rightarrow> p)
      in new_Range (lineNumber start) (column start) (lineNumber e) (column e))"

definition Range_lift :: "Range option \<Rightarrow> Range option" where
  "Range_lift r = map_option (\<lambda>x. new_Range (startLineNumber x) (startColumn x) (endLineNumber x) (endColumn x)) r"

definition Range_areIntersectingOrTouching :: "Range \<Rightarrow> Range \<Rightarrow> bool" where
  "Range_areIntersectingOrTouching a b =
     (if endLineNumber a < startLineNumber b \<or> (endLineNumber a = startLineNumber b \<and> endColumn a < startColumn b)
      then False
      else if endLineNumber b < startLineNumber a \<or> (endLineNumber b = startLineNumber a \<and> endColumn b < startColumn a)
      then False
      else True)"

definition Range_areIntersecting :: "Range \<Rightarrow> Range \<Rightarrow> bool" where
  "Range_areIntersecting a b =
     (if endLineNumber a < startLineNumber b \<or> (endLineNumber a = startLineNumber b \<and> endColumn a \<le> startColumn b)
      then False
      else if endLineNumber b < startLineNumber a \<or> (endLineNumber b = startLineNumber a \<and> endColumn b \<le> startColumn a)
      then False
      else True)"

definition Range_compareRangesUsingStarts :: "Range option \<Rightarrow> Range option \<Rightarrow> number" where
  "Range_compareRangesUsingStarts a b =
     (case (a, b) of
        (Some x, Some y) \<Rightarrow>
          (let aSL = toInt32 (startLineNumber x); bSL = toInt32 (startLineNumber y)
           in if aSL = bSL then
                (let aSC = toInt32 (startColumn x); bSC = toInt32 (startColumn y)
                 in if aSC = bSC then
                      (let aEL = toInt32 (endLineNumber x); bEL = toInt32 (endLineNumber y)
                       in if aEL = bEL
                          then (let aEC = toInt32 (endColumn x); bEC = toInt32 (endColumn y) in aEC - bEC)
                          else aEL - bEL)
                    else aSC - bSC)
              else aSL - bSL)
      | _ \<Rightarrow> (if a = None then 0 else 1) - (if b = None then 0 else 1))"

definition Range_compareRangesUsingEnds :: "Range \<Rightarrow> Range \<Rightarrow> number" where
  "Range_compareRangesUsingEnds a b =
     (if endLineNumber a = endLineNumber b then
        if endColumn a = endColumn b then
          if startLineNumber a = startLineNumber b then startColumn a - startColumn b
          else startLineNumber a - startLineNumber b
        else endColumn a - endColumn b
      else endLineNumber a - endLineNumber b)"

definition Range_spansMultipleLines :: "Range \<Rightarrow> bool" where
  "Range_spansMultipleLines r \<longleftrightarrow> endLineNumber r > startLineNumber r"

section \<open>Ranges as sets of positions\<close>

abbreviation rstart :: "Range \<Rightarrow> Position" where "rstart \<equiv> Range_getStartPosition"
abbreviation rend :: "Range \<Rightarrow> Position" where "rend \<equiv> Range_getEndPosition"

definition Range_wf :: "Range \<Rightarrow> bool" where
  "Range_wf r \<longleftrightarrow> rstart r \<le> rend r"

definition Range_positions :: "Range \<Rightarrow> Position set" where
  "Range_positions r = {p. Range_containsPosition r p}"

lemmas range_ends = Range_getStartPosition_def Range_getEndPosition_def

lemma Range_eq_iff: "r = s \<longleftrightarrow> rstart r = rstart s \<and> rend r = rend s"
  by (auto simp: range_ends)

lemma new_Range_positions:
  "rstart (new_Range sl sc el ec) = min (new_Position sl sc) (new_Position el ec)"
  "rend (new_Range sl sc el ec) = max (new_Position sl sc) (new_Position el ec)"
  by (auto simp: new_Range_def range_ends min_def max_def Position_order)

lemma new_Range_wf [simp, wf_intros]: "Range_wf (new_Range sl sc el ec)"
  by (auto simp: Range_wf_def new_Range_positions min_def max_def)

lemma new_Range_sorted:
  "new_Position sl sc \<le> new_Position el ec \<Longrightarrow>
     new_Range sl sc el ec =
       \<lparr>startLineNumber = sl, startColumn = sc, endLineNumber = el, endColumn = ec\<rparr>"
  by (auto simp: new_Range_def Position_order)

lemma containsPosition_iff: "Range_containsPosition r p \<longleftrightarrow> rstart r \<le> p \<and> p \<le> rend r"
  by (auto simp: Range_containsPosition_def range_ends Position_order)

lemma strictContainsPosition_iff: "Range_strictContainsPosition r p \<longleftrightarrow> rstart r < p \<and> p < rend r"
  by (auto simp: Range_strictContainsPosition_def range_ends Position_order)

lemma containsRange_iff:
  "Range_wf other \<Longrightarrow> Range_containsRange r other \<longleftrightarrow> rstart r \<le> rstart other \<and> rend other \<le> rend r"
  by (auto simp: Range_containsRange_def Range_wf_def range_ends Position_order)

lemma strictContainsRange_iff:
  "Range_wf other \<Longrightarrow> Range_strictContainsRange r other \<longleftrightarrow> rstart r < rstart other \<and> rend other < rend r"
  by (auto simp: Range_strictContainsRange_def Range_wf_def range_ends Position_order)

lemma isEmpty_iff: "Range_isEmpty r \<longleftrightarrow> rstart r = rend r"
  by (auto simp: Range_isEmpty_def range_ends)

lemma Range_positions_eq: "Range_positions r = {rstart r .. rend r}"
  by (auto simp: Range_positions_def containsPosition_iff)

lemma Range_positions_subset_iff:
  "Range_wf a \<Longrightarrow> Range_positions a \<subseteq> Range_positions b \<longleftrightarrow> rstart b \<le> rstart a \<and> rend a \<le> rend b"
  by (auto simp: Range_positions_eq Range_wf_def)

text \<open>The two nested conditionals of \<open>plusRange\<close> and \<open>intersectRanges\<close> are minimum and maximum.\<close>

lemma min_Position_split:
  "(case (if l1 < l2 then (l1, c1) else if l1 = l2 then (l1, min c1 c2) else (l2, c2)) of
     (l, c) \<Rightarrow> f l c) = (let p = min (new_Position l1 c1) (new_Position l2 c2) in f (lineNumber p) (column p))"
  "(case (if l1 < l2 then (l1, c1) else if l2 = l1 then (l2, min c2 c1) else (l2, c2)) of
     (l, c) \<Rightarrow> f l c) = (let p = min (new_Position l1 c1) (new_Position l2 c2) in f (lineNumber p) (column p))"
  by (auto simp: min_def Position_order)

lemma max_Position_split:
  "(case (if l1 > l2 then (l1, c1) else if l1 = l2 then (l1, max c1 c2) else (l2, c2)) of
     (l, c) \<Rightarrow> f l c) = (let p = max (new_Position l1 c1) (new_Position l2 c2) in f (lineNumber p) (column p))"
  "(case (if l1 > l2 then (l1, c1) else if l2 = l1 then (l2, max c2 c1) else (l2, c2)) of
     (l, c) \<Rightarrow> f l c) = (let p = max (new_Position l1 c1) (new_Position l2 c2) in f (lineNumber p) (column p))"
  by (auto simp: max_def Position_order)

lemma less_Position_split:
  "(if lineNumber q < lineNumber p then x else if lineNumber p = lineNumber q \<and> column q < column p then x else y) =
   (if (q :: Position) < p then x else y)"
  by (auto simp: Position_order)

lemma plusRange_eq:
  "Range_plusRange a b =
     (let p = min (rstart b) (rstart a); q = max (rend b) (rend a)
      in new_Range (lineNumber p) (column p) (lineNumber q) (column q))"
  unfolding Range_plusRange_def Let_def min_Position_split max_Position_split range_ends ..

lemma intersectRanges_eq:
  "Range_intersectRanges a b =
     (let p = max (rstart b) (rstart a); q = min (rend b) (rend a)
      in if q < p then None else Some (new_Range (lineNumber p) (column p) (lineNumber q) (column q)))"
  unfolding Range_intersectRanges_def Let_def min_Position_split max_Position_split range_ends less_Position_split ..

lemma plusRange_ends:
  assumes "Range_wf a" "Range_wf b"
  shows "rstart (Range_plusRange a b) = min (rstart a) (rstart b)"
    "rend (Range_plusRange a b) = max (rend a) (rend b)"
  using assms
  by (auto simp: plusRange_eq new_Range_positions Let_def Range_wf_def min_def max_def)

lemma intersectRanges_ends:
  "Range_intersectRanges a b = Some r \<longleftrightarrow>
     max (rstart a) (rstart b) \<le> min (rend a) (rend b) \<and>
     rstart r = max (rstart a) (rstart b) \<and> rend r = min (rend a) (rend b)"
proof (cases "max (rstart a) (rstart b) \<le> min (rend a) (rend b)")
  case True
  then have "\<not> min (rend b) (rend a) < max (rstart b) (rstart a)"
    by (simp only: min.commute [of "rend b"] max.commute [of "rstart b"] not_less)
  with True show ?thesis
    by (auto simp: intersectRanges_eq Let_def new_Range_positions Range_eq_iff min.commute [of "rend b"]
        max.commute [of "rstart b"] min_absorb1 [OF True] max_absorb2 [OF True] simp del: max.bounded_iff min.bounded_iff)
next
  case False
  then have "min (rend b) (rend a) < max (rstart b) (rstart a)"
    by (simp only: min.commute [of "rend b"] max.commute [of "rstart b"] not_le)
  with False show ?thesis
    by (simp only: intersectRanges_eq Let_def if_True option.distinct simp_thms)
qed

lemma areIntersectingOrTouching_iff:
  "Range_areIntersectingOrTouching a b \<longleftrightarrow> rstart b \<le> rend a \<and> rstart a \<le> rend b"
  by (auto simp: Range_areIntersectingOrTouching_def range_ends Position_order)

lemma areIntersecting_iff:
  "Range_areIntersecting a b \<longleftrightarrow> rstart b < rend a \<and> rstart a < rend b"
  by (auto simp: Range_areIntersecting_def range_ends Position_order)

lemma intersectRanges_None_iff:
  "Range_wf a \<Longrightarrow> Range_wf b \<Longrightarrow>
     Range_intersectRanges a b = None \<longleftrightarrow> \<not> Range_areIntersectingOrTouching a b"
  by (auto simp: intersectRanges_eq Let_def areIntersectingOrTouching_iff Range_wf_def min_less_iff_disj
      less_max_iff_disj)

section \<open>The two comparison functions of ranges\<close>

definition Range_int32 :: "Range \<Rightarrow> bool" where
  "Range_int32 r \<longleftrightarrow>
     is_int32 (startLineNumber r) \<and> is_int32 (startColumn r) \<and> is_int32 (endLineNumber r) \<and> is_int32 (endColumn r)"

lemma compareRangesUsingStarts_signs:
  assumes "Range_int32 a" "Range_int32 b"
  shows "Range_compareRangesUsingStarts (Some a) (Some b) < 0 \<longleftrightarrow>
           rstart a < rstart b \<or> rstart a = rstart b \<and> rend a < rend b"
    "Range_compareRangesUsingStarts (Some a) (Some b) = 0 \<longleftrightarrow> a = b"
  using assms
  by (auto simp: Range_compareRangesUsingStarts_def Range_int32_def Let_def range_ends Position_order)

lemma compareRangesUsingStarts_flip:
  "Range_compareRangesUsingStarts b a = - Range_compareRangesUsingStarts a b"
  by (auto simp: Range_compareRangesUsingStarts_def Let_def split: option.splits)

lemma compareRangesUsingEnds_signs:
  "Range_compareRangesUsingEnds a b < 0 \<longleftrightarrow> rend a < rend b \<or> rend a = rend b \<and> rstart a < rstart b"
  "Range_compareRangesUsingEnds a b = 0 \<longleftrightarrow> a = b"
  by (auto simp: Range_compareRangesUsingEnds_def range_ends Position_order)

lemma compareRangesUsingEnds_flip:
  "Range_compareRangesUsingEnds b a = - Range_compareRangesUsingEnds a b"
  by (auto simp: Range_compareRangesUsingEnds_def)

interpretation rangestartcmp: js_comparator "\<lambda>a b. Range_compareRangesUsingStarts (Some a) (Some b)" Range_int32
proof (unfold_locales, goal_cases)
  case (1 a b)
  show ?case by (simp add: compareRangesUsingStarts_flip [of "Some a"] sgn_minus)
next
  case (2 a b c)
  then show ?case
    by (auto simp: compareRangesUsingStarts_signs order.order_iff_strict [of "_ :: number"])
qed

interpretation rangeendcmp: js_comparator Range_compareRangesUsingEnds "\<lambda>_. True"
proof (unfold_locales, goal_cases)
  case (1 a b)
  show ?case by (simp add: compareRangesUsingEnds_flip [of a] sgn_minus)
next
  case (2 a b c)
  then show ?case
    by (auto simp: compareRangesUsingEnds_signs order.order_iff_strict [of "_ :: number"])
qed

section \<open>Properties\<close>

text \<open>
  Containment of ranges is inclusion of the positions they cover, strict containment
  is inclusion that leaves both end positions out, two ranges touch exactly when they share
  a position, and two non-empty ranges intersect exactly when they share a character
  (a position before the end of both).
\<close>

theorem Range_containment_is_inclusion:
  assumes "Range_wf a" "Range_wf b"
  shows "(Range_containsRange a b \<longleftrightarrow> Range_positions b \<subseteq> Range_positions a) \<and>
         (Range_strictContainsRange a b \<longleftrightarrow>
            Range_positions b \<subseteq> {p. Range_strictContainsPosition a p}) \<and>
         (Range_areIntersectingOrTouching a b \<longleftrightarrow> Range_positions a \<inter> Range_positions b \<noteq> {}) \<and>
         (Range_isEmpty a \<or> Range_isEmpty b \<or>
           (Range_areIntersecting a b \<longleftrightarrow>
              (Range_positions a - {rend a}) \<inter> (Range_positions b - {rend b}) \<noteq> {}))"
proof (intro conjI)
  show "Range_containsRange a b \<longleftrightarrow> Range_positions b \<subseteq> Range_positions a"
    using assms by (simp add: containsRange_iff Range_positions_subset_iff)
  show "Range_strictContainsRange a b \<longleftrightarrow> Range_positions b \<subseteq> {p. Range_strictContainsPosition a p}"
    using assms by (auto simp: strictContainsRange_iff strictContainsPosition_iff Range_positions_eq Range_wf_def)
  have "Range_positions a \<inter> Range_positions b = {max (rstart a) (rstart b) .. min (rend a) (rend b)}"
    by (auto simp: Range_positions_eq)
  then show "Range_areIntersectingOrTouching a b \<longleftrightarrow> Range_positions a \<inter> Range_positions b \<noteq> {}"
    using assms by (auto simp: areIntersectingOrTouching_iff Range_wf_def)
  have chars: "Range_positions r - {rend r} = {rstart r ..< rend r}" for r
    by (auto simp: Range_positions_eq)
  have "(Range_positions a - {rend a}) \<inter> (Range_positions b - {rend b}) \<noteq> {} \<longleftrightarrow>
      max (rstart a) (rstart b) < min (rend a) (rend b)"
    by (simp only: chars Int_atLeastLessThan atLeastLessThan_empty_iff not_not)
  then show "Range_isEmpty a \<or> Range_isEmpty b \<or>
           (Range_areIntersecting a b \<longleftrightarrow>
              (Range_positions a - {rend a}) \<inter> (Range_positions b - {rend b}) \<noteq> {})"
    using assms unfolding areIntersecting_iff Range_wf_def isEmpty_iff order.order_iff_strict max_less_iff_conj
      min_less_iff_conj by blast
qed

theorem Range_containment_is_inclusion_witness:
  "Range_containsRange (new_Range 1 2 4 1) (new_Range 2 5 2 9) \<and>
   Range_positions (new_Range 2 5 2 9) \<subseteq> Range_positions (new_Range 1 2 4 1)"
proof -
  have "Range_containsRange (new_Range 1 2 4 1) (new_Range 2 5 2 9)"
    by (simp add: Range_containsRange_def new_Range_def)
  then show ?thesis
    using Range_containment_is_inclusion [of "new_Range 1 2 4 1" "new_Range 2 5 2 9"] by simp
qed

text \<open>
  \<open>plusRange\<close> is the join of two ranges: the result covers both, and every range that
  covers both covers it. \<open>intersectRanges\<close> is the meet: it returns a range that covers
  exactly the common positions, and null exactly when there is no common position.
\<close>

theorem Range_plus_and_intersect:
  assumes "Range_wf a" "Range_wf b" "Range_wf c"
  shows "Range_wf (Range_plusRange a b) \<and>
         (Range_positions (Range_plusRange a b) \<subseteq> Range_positions c \<longleftrightarrow>
            Range_positions a \<subseteq> Range_positions c \<and> Range_positions b \<subseteq> Range_positions c) \<and>
         (case Range_intersectRanges a b of
            None \<Rightarrow> Range_positions a \<inter> Range_positions b = {}
          | Some r \<Rightarrow> Range_wf r \<and> Range_positions r = Range_positions a \<inter> Range_positions b)"
proof (intro conjI)
  show wf: "Range_wf (Range_plusRange a b)"
    by (simp add: Range_plusRange_def Let_def split: prod.splits)
  show "Range_positions (Range_plusRange a b) \<subseteq> Range_positions c \<longleftrightarrow>
      Range_positions a \<subseteq> Range_positions c \<and> Range_positions b \<subseteq> Range_positions c"
    unfolding Range_positions_subset_iff [OF wf] Range_positions_subset_iff [OF assms(1)]
      Range_positions_subset_iff [OF assms(2)] plusRange_ends [OF assms(1,2)]
    by auto
  show "case Range_intersectRanges a b of
      None \<Rightarrow> Range_positions a \<inter> Range_positions b = {}
    | Some r \<Rightarrow> Range_wf r \<and> Range_positions r = Range_positions a \<inter> Range_positions b"
  proof (cases "Range_intersectRanges a b")
    case None
    then have "\<not> (rstart b \<le> rend a \<and> rstart a \<le> rend b)" using assms
      by (simp add: intersectRanges_None_iff areIntersectingOrTouching_iff)
    with None show ?thesis by (auto simp: Range_positions_eq)
  next
    case (Some r)
    have "rstart r \<le> rend r \<and> rstart r = max (rstart a) (rstart b) \<and> rend r = min (rend a) (rend b)"
      using Some [unfolded intersectRanges_ends] by simp
    then show ?thesis
      unfolding Some Range_positions_eq Range_wf_def option.case by (metis Int_atLeastAtMost)
  qed
qed

theorem Range_plus_and_intersect_witness:
  "Range_intersectRanges (new_Range 1 1 2 5) (new_Range 2 3 4 1) = Some (new_Range 2 3 2 5) \<and>
   Range_positions (new_Range 2 3 2 5) =
     Range_positions (new_Range 1 1 2 5) \<inter> Range_positions (new_Range 2 3 4 1)"
proof -
  have "Range_intersectRanges (new_Range 1 1 2 5) (new_Range 2 3 4 1) = Some (new_Range 2 3 2 5)"
    by (simp add: Range_intersectRanges_def new_Range_def)
  then show ?thesis
    using Range_plus_and_intersect [of "new_Range 1 1 2 5" "new_Range 2 3 4 1" "new_Range 1 1 1 1"] by simp
qed

end
