(* ===== verification/Core_Selection.thy ===== *)
theory Core_Selection
  imports Core_Range
begin

text \<open>
  \<open>src/vs/editor/common/core/selection.ts\<close>: a selection is a range with an orientation.
  The class extends \<open>Range\<close>, so the record extends the record of ranges: the inherited
  fields hold the ordered ends, the four own fields the anchor and the cursor. The
  invariant \<open>Selection_wf\<close> ties the two together.
\<close>

datatype SelectionDirection = LTR | RTL

record Selection = Range +
  selectionStartLineNumber :: number
  selectionStartColumn :: number
  positionLineNumber :: number
  positionColumn :: number

text \<open>The constructor: \<open>super(...)\<close> sets the inherited fields as \<open>new Range\<close> does.\<close>

definition new_Selection :: "number \<Rightarrow> number \<Rightarrow> number \<Rightarrow> number \<Rightarrow> Selection" where
  "new_Selection sl sc pl pc =
     Range.extend (new_Range sl sc pl pc)
       \<lparr>selectionStartLineNumber = sl, selectionStartColumn = sc, positionLineNumber = pl, positionColumn = pc\<rparr>"

definition Selection_toString :: "Selection \<Rightarrow> jsstring" where
  "Selection_toString this =
     js_str ''['' @ js_show_number (selectionStartLineNumber this) @ js_str '','' @
     js_show_number (selectionStartColumn this) @ js_str '' -> '' @
     js_show_number (positionLineNumber this) @ js_str '','' @ js_show_number (positionColumn this) @ js_str '']''"

definition Selection_selectionsEqual :: "Selection \<Rightarrow> Selection \<Rightarrow> bool" where
  "Selection_selectionsEqual a b \<longleftrightarrow>
     selectionStartLineNumber a = selectionStartLineNumber b \<and>
     selectionStartColumn a = selectionStartColumn b \<and>
     positionLineNumber a = positionLineNumber b \<and>
     positionColumn a = positionColumn b"

definition Selection_equalsSelection :: "Selection \<Rightarrow> Selection \<Rightarrow> bool" where
  "Selection_equalsSelection this other = Selection_selectionsEqual this other"

definition Selection_getDirection :: "Selection \<Rightarrow> SelectionDirection" where
  "Selection_getDirection this =
     (if selectionStartLineNumber this = startLineNumber this \<and> selectionStartColumn this = startColumn this
      then LTR else RTL)"

definition Selection_setEndPosition :: "Selection \<Rightarrow> number \<Rightarrow> number \<Rightarrow> Selection" where
  "Selection_setEndPosition this el ec =
     (if Selection_getDirection this = LTR
      then new_Selection (startLineNumber this) (startColumn this) el ec
      else new_Selection el ec (startLineNumber this) (startColumn this))"

definition Selection_getPosition :: "Selection \<Rightarrow> Position" where
  "Selection_getPosition this = new_Position (positionLineNumber this) (positionColumn this)"

definition Selection_getSelectionStart :: "Selection \<Rightarrow> Position" where
  "Selection_getSelectionStart this =
     new_Position (selectionStartLineNumber this) (selectionStartColumn this)"

definition Selection_setStartPosition :: "Selection \<Rightarrow> number \<Rightarrow> number \<Rightarrow> Selection" where
  "Selection_setStartPosition this sl sc =
     (if Selection_getDirection this = LTR
      then new_Selection sl sc (endLineNumber this) (endColumn this)
      else new_Selection (endLineNumber this) (endColumn this) sl sc)"

definition Selection_fromPositions :: "Position \<Rightarrow> Position option \<Rightarrow> Selection" where
  "Selection_fromPositions start epos =
     (let e = (case epos of None \<Rightarrow> start | Some p \<Rightarrow> p)
      in new_Selection (lineNumber start) (column start) (lineNumber e) (column e))"

definition Selection_fromRange :: "Range \<Rightarrow> SelectionDirection \<Rightarrow> Selection" where
  "Selection_fromRange r direction =
     (if direction = LTR
      then new_Selection (startLineNumber r) (startColumn r) (endLineNumber r) (endColumn r)
      else new_Selection (endLineNumber r) (endColumn r) (startLineNumber r) (startColumn r))"

definition Selection_liftSelection :: "Selection \<Rightarrow> Selection" where
  "Selection_liftSelection sel =
     new_Selection (selectionStartLineNumber sel) (selectionStartColumn sel)
       (positionLineNumber sel) (positionColumn sel)"

text \<open>None is a falsy argument; the loop compares the arrays index by index.\<close>

fun selectionsArrEqual_loop :: "Selection list \<Rightarrow> Selection list \<Rightarrow> bool" where
  "selectionsArrEqual_loop (a # as) (b # bs) =
     (if \<not> Selection_selectionsEqual a b then False else selectionsArrEqual_loop as bs)"
| "selectionsArrEqual_loop _ _ = True"

definition Selection_selectionsArrEqual :: "Selection list option \<Rightarrow> Selection list option \<Rightarrow> bool" where
  "Selection_selectionsArrEqual a b =
     (case (a, b) of
        (Some xs, None) \<Rightarrow> False
      | (None, Some ys) \<Rightarrow> False
      | (None, None) \<Rightarrow> True
      | (Some xs, Some ys) \<Rightarrow>
          if length xs \<noteq> length ys then False else selectionsArrEqual_loop xs ys)"

definition Selection_createWithDirection ::
  "number \<Rightarrow> number \<Rightarrow> number \<Rightarrow> number \<Rightarrow> SelectionDirection \<Rightarrow> Selection" where
  "Selection_createWithDirection sl sc el ec direction =
     (if direction = LTR then new_Selection sl sc el ec else new_Selection el ec sl sc)"

section \<open>The invariant of selections\<close>

text \<open>The inherited range is the one between the anchor and the cursor, in order.\<close>

definition Selection_range :: "Selection \<Rightarrow> Range" where
  "Selection_range s = Range.truncate s"

definition Selection_wf :: "Selection \<Rightarrow> bool" where
  "Selection_wf s \<longleftrightarrow>
     Selection_range s =
       new_Range (selectionStartLineNumber s) (selectionStartColumn s) (positionLineNumber s) (positionColumn s)"

lemma Selection_range_sel [simp]:
  "startLineNumber (Selection_range s) = startLineNumber s" "startColumn (Selection_range s) = startColumn s"
  "endLineNumber (Selection_range s) = endLineNumber s" "endColumn (Selection_range s) = endColumn s"
  by (simp_all add: Selection_range_def Range.truncate_def)

lemma new_Selection_sel [simp]:
  "selectionStartLineNumber (new_Selection sl sc pl pc) = sl"
  "selectionStartColumn (new_Selection sl sc pl pc) = sc"
  "positionLineNumber (new_Selection sl sc pl pc) = pl"
  "positionColumn (new_Selection sl sc pl pc) = pc"
  "Selection_range (new_Selection sl sc pl pc) = new_Range sl sc pl pc"
  by (simp_all add: new_Selection_def Selection_range_def Range.extend_def Range.truncate_def)

lemma new_Selection_ends [simp]:
  "startLineNumber (new_Selection sl sc pl pc) = startLineNumber (new_Range sl sc pl pc)"
  "startColumn (new_Selection sl sc pl pc) = startColumn (new_Range sl sc pl pc)"
  "endLineNumber (new_Selection sl sc pl pc) = endLineNumber (new_Range sl sc pl pc)"
  "endColumn (new_Selection sl sc pl pc) = endColumn (new_Range sl sc pl pc)"
  by (simp_all add: new_Selection_def Range.extend_def)

lemma new_Selection_wf [simp, wf_intros]: "Selection_wf (new_Selection sl sc pl pc)"
  by (simp add: Selection_wf_def)

text \<open>Every operation that makes a selection goes through the constructor.\<close>

lemma Selection_ops_wf [wf_intros]:
  "Selection_wf (Selection_setEndPosition s l c)" "Selection_wf (Selection_setStartPosition s l c)"
  "Selection_wf (Selection_fromPositions p q)" "Selection_wf (Selection_fromRange r d)"
  "Selection_wf (Selection_liftSelection s)" "Selection_wf (Selection_createWithDirection l c l' c' d)"
  by (simp_all add: Selection_setEndPosition_def Selection_setStartPosition_def Selection_fromPositions_def
      Selection_fromRange_def Selection_liftSelection_def Selection_createWithDirection_def Let_def)

lemma Selection_eqI:
  assumes "Selection_wf a" "Selection_wf b" "Selection_selectionsEqual a b"
  shows "a = b"
proof -
  have "Selection_range a = Selection_range b"
    using assms by (simp add: Selection_wf_def Selection_selectionsEqual_def)
  then show ?thesis
    using assms(3) by (auto simp: Selection_range_def Range.truncate_def Selection_selectionsEqual_def)
qed

lemma selectionsEqual_iff:
  "Selection_wf a \<Longrightarrow> Selection_wf b \<Longrightarrow> Selection_selectionsEqual a b \<longleftrightarrow> a = b"
  using Selection_eqI by (auto simp: Selection_selectionsEqual_def)

lemma selectionsArrEqual_loop_iff:
  assumes "length xs = length ys" "list_all Selection_wf xs" "list_all Selection_wf ys"
  shows "selectionsArrEqual_loop xs ys \<longleftrightarrow> xs = ys"
  using assms by (induction xs ys rule: list_induct2) (auto simp: selectionsEqual_iff)

lemma getDirection_iff:
  "Selection_wf s \<Longrightarrow>
     Selection_getDirection s = LTR \<longleftrightarrow> Selection_getSelectionStart s \<le> Selection_getPosition s"
  by (auto simp: Selection_getDirection_def Selection_wf_def Selection_getSelectionStart_def
      Selection_getPosition_def Range_eq_iff range_ends new_Range_def Position_order split: if_splits)

section \<open>Properties\<close>

text \<open>
  A selection is determined by its range and its direction: every well-formed
  selection is recovered from the two by \<open>fromRange\<close>, \<open>fromRange\<close> gives back the range it
  was made from, and the direction unless the range is empty (an empty selection is
  always left-to-right).
\<close>

theorem Selection_range_direction_roundtrip:
  assumes "Selection_wf s" "Range_wf r"
  shows "Selection_fromRange (Selection_range s) (Selection_getDirection s) = s \<and>
         Selection_range (Selection_fromRange r d) = r \<and>
         Selection_getDirection (Selection_fromRange r d) = (if Range_isEmpty r then LTR else d)"
proof (intro conjI)
  show "Selection_fromRange (Selection_range s) (Selection_getDirection s) = s"
  proof (rule Selection_eqI [OF Selection_ops_wf(4) assms(1)])
    show "Selection_selectionsEqual (Selection_fromRange (Selection_range s) (Selection_getDirection s)) s"
      using assms(1)
      by (auto simp: Selection_selectionsEqual_def Selection_fromRange_def Selection_getDirection_def
          Selection_wf_def new_Range_def Selection_range_def Range.truncate_def split: if_splits)
  qed
  show "Selection_range (Selection_fromRange r d) = r"
    using assms(2)
    by (cases d) (auto simp: Selection_fromRange_def Range_wf_def range_ends new_Range_def Position_order)
  show "Selection_getDirection (Selection_fromRange r d) = (if Range_isEmpty r then LTR else d)"
    using assms(2)
    by (cases d) (auto simp: Selection_fromRange_def Selection_getDirection_def Range_wf_def range_ends
        new_Range_def Position_order Range_isEmpty_def)
qed

theorem Selection_range_direction_roundtrip_witness:
  "Selection_fromRange (Selection_range (new_Selection 4 2 1 7)) (Selection_getDirection (new_Selection 4 2 1 7)) =
     new_Selection 4 2 1 7 \<and>
   Selection_range (Selection_fromRange (new_Range 1 7 4 2) RTL) = new_Range 1 7 4 2"
  using Selection_range_direction_roundtrip [of "new_Selection 4 2 1 7" "new_Range 1 7 4 2" RTL] by simp

text \<open>
  Equality of selections and of arrays of selections as the source decides it is
  equality of the values, and moving one end of a selection keeps the other: after
  \<open>setEndPosition\<close> the start of the range is one of the two ends, the new position is the
  other.
\<close>

theorem Selection_equality_and_setters:
  assumes "list_all Selection_wf xs" "list_all Selection_wf ys"
  shows "(Selection_selectionsArrEqual (Some xs) (Some ys) \<longleftrightarrow> xs = ys) \<and>
         {Selection_getSelectionStart (Selection_setEndPosition s l c), Selection_getPosition (Selection_setEndPosition s l c)}
           = {new_Position (startLineNumber s) (startColumn s), new_Position l c} \<and>
         {Selection_getSelectionStart (Selection_setStartPosition s l c), Selection_getPosition (Selection_setStartPosition s l c)}
           = {new_Position (endLineNumber s) (endColumn s), new_Position l c}"
proof (intro conjI)
  show "Selection_selectionsArrEqual (Some xs) (Some ys) \<longleftrightarrow> xs = ys"
    using assms selectionsArrEqual_loop_iff [OF _ assms] by (auto simp: Selection_selectionsArrEqual_def)
qed (auto simp: Selection_setEndPosition_def Selection_setStartPosition_def Selection_getSelectionStart_def
    Selection_getPosition_def)

theorem Selection_equality_and_setters_witness:
  "\<not> Selection_selectionsArrEqual (Some [new_Selection 1 1 2 2]) (Some [new_Selection 2 2 1 1])"
proof -
  have "new_Selection 1 1 2 2 \<noteq> new_Selection 2 2 1 1"
    by (simp add: new_Selection_def new_Range_def Range.extend_def)
  then show ?thesis
    using Selection_equality_and_setters [of "[new_Selection 1 1 2 2]" "[new_Selection 2 2 1 1]"] by simp
qed

end
