(* ===== verification/Intervals.thy ===== *)
theory Intervals
  imports Prelude
begin

text \<open>
  Lists of half-open integer intervals, as \<open>OffsetRangeSet\<close> and \<open>LineRangeSet\<close> keep
  them: sorted, with a gap between any two neighbours. The theory is parametric in the
  two projections \<open>lo\<close> and \<open>hi\<close> of the range type. It holds the merge step both
  \<open>addRange\<close> methods perform, the uniqueness of the normal form, and the contract of a
  set of ranges as two locales, which the two components interpret.
\<close>

definition covered :: "('r \<Rightarrow> number) \<Rightarrow> ('r \<Rightarrow> number) \<Rightarrow> 'r list \<Rightarrow> number set" where
  "covered lo hi rs = (\<Union>r \<in> set rs. {lo r ..< hi r})"

text \<open>Ordered ends, and a gap between two ranges: no two are touching or intersecting.\<close>

definition separated :: "('r \<Rightarrow> number) \<Rightarrow> ('r \<Rightarrow> number) \<Rightarrow> 'r list \<Rightarrow> bool" where
  "separated lo hi rs \<longleftrightarrow> (\<forall>r \<in> set rs. lo r \<le> hi r) \<and> sorted_wrt (\<lambda>a b. hi a < lo b) rs"

text \<open>The normal form has no empty range either.\<close>

definition normalized :: "('r \<Rightarrow> number) \<Rightarrow> ('r \<Rightarrow> number) \<Rightarrow> 'r list \<Rightarrow> bool" where
  "normalized lo hi rs \<longleftrightarrow> (\<forall>r \<in> set rs. lo r < hi r) \<and> sorted_wrt (\<lambda>a b. hi a < lo b) rs"

lemma normalized_separated: "normalized lo hi rs \<longleftrightarrow> separated lo hi rs \<and> (\<forall>r \<in> set rs. lo r \<noteq> hi r)"
  by (auto simp: normalized_def separated_def) (force simp: less_le)

lemma covered_simps [simp]:
  "covered lo hi [] = {}" "covered lo hi (r # rs) = {lo r ..< hi r} \<union> covered lo hi rs"
  "covered lo hi (rs @ ss) = covered lo hi rs \<union> covered lo hi ss"
  by (auto simp: covered_def)

lemma separated_Nil [simp]: "separated lo hi []" and normalized_Nil [simp]: "normalized lo hi []"
  by (simp_all add: separated_def normalized_def)

lemma separated_append:
  "separated lo hi (rs @ ss) \<longleftrightarrow>
     separated lo hi rs \<and> separated lo hi ss \<and> (\<forall>r \<in> set rs. \<forall>s \<in> set ss. hi r < lo s)"
  by (auto simp: separated_def sorted_wrt_append)

lemma separated_Cons:
  "separated lo hi (r # rs) \<longleftrightarrow> lo r \<le> hi r \<and> separated lo hi rs \<and> (\<forall>s \<in> set rs. hi r < lo s)"
  by (auto simp: separated_def)

lemma normalized_Cons:
  "normalized lo hi (r # rs) \<longleftrightarrow> lo r < hi r \<and> normalized lo hi rs \<and> (\<forall>s \<in> set rs. hi r < lo s)"
  by (auto simp: normalized_def)

lemma normalized_append:
  "normalized lo hi (rs @ ss) \<longleftrightarrow>
     normalized lo hi rs \<and> normalized lo hi ss \<and> (\<forall>r \<in> set rs. \<forall>s \<in> set ss. hi r < lo s)"
  by (auto simp: normalized_def sorted_wrt_append)

section \<open>Where a new range goes\<close>

text \<open>
  The ranges of a separated list fall into those that end before \<open>s\<close>, those that touch
  the interval from \<open>s\<close> to \<open>e\<close>, and those that start after \<open>e\<close>.
\<close>

definition ranges_before :: "('r \<Rightarrow> number) \<Rightarrow> number \<Rightarrow> 'r list \<Rightarrow> 'r list" where
  "ranges_before hi s rs = takeWhile (\<lambda>r. hi r < s) rs"

definition ranges_touching :: "('r \<Rightarrow> number) \<Rightarrow> ('r \<Rightarrow> number) \<Rightarrow> number \<Rightarrow> number \<Rightarrow> 'r list \<Rightarrow> 'r list" where
  "ranges_touching lo hi s e rs = takeWhile (\<lambda>r. lo r \<le> e) (dropWhile (\<lambda>r. hi r < s) rs)"

definition ranges_after :: "('r \<Rightarrow> number) \<Rightarrow> ('r \<Rightarrow> number) \<Rightarrow> number \<Rightarrow> number \<Rightarrow> 'r list \<Rightarrow> 'r list" where
  "ranges_after lo hi s e rs = dropWhile (\<lambda>r. lo r \<le> e) (dropWhile (\<lambda>r. hi r < s) rs)"

lemma ranges_split:
  "rs = ranges_before hi s rs @ ranges_touching lo hi s e rs @ ranges_after lo hi s e rs"
  by (simp add: ranges_before_def ranges_touching_def ranges_after_def)

lemma ranges_before_less: "r \<in> set (ranges_before hi s rs) \<Longrightarrow> hi r < s"
  by (auto simp: ranges_before_def dest: set_takeWhileD)

lemma separated_dropWhile_hi:
  "separated lo hi rs \<Longrightarrow> r \<in> set (dropWhile (\<lambda>r. hi r < s) rs) \<Longrightarrow> s \<le> hi r"
  by (induction rs) (fastforce simp: separated_Cons separated_def split: if_splits)+

lemma separated_dropWhile_lo:
  "separated lo hi rs \<Longrightarrow> r \<in> set (dropWhile (\<lambda>r. lo r \<le> e) rs) \<Longrightarrow> e < lo r"
  by (induction rs) (fastforce simp: separated_Cons separated_def split: if_splits)+

lemma separated_dropWhile: "separated lo hi rs \<Longrightarrow> separated lo hi (dropWhile P rs)"
  by (induction rs) (auto simp: separated_Cons)

lemma ranges_touching_between:
  assumes "separated lo hi rs" "r \<in> set (ranges_touching lo hi s e rs)"
  shows "s \<le> hi r" "lo r \<le> e"
  using assms separated_dropWhile_hi [of lo hi rs r s] unfolding ranges_touching_def
  by (auto dest: set_takeWhileD)

lemma ranges_after_greater:
  assumes "separated lo hi rs" "r \<in> set (ranges_after lo hi s e rs)"
  shows "e < lo r"
  using separated_dropWhile_lo [OF separated_dropWhile [OF assms(1)], of r e "\<lambda>r. hi r < s"] assms(2)
  unfolding ranges_after_def by simp

text \<open>Every range before the interval also starts before its end: the two scans agree.\<close>

lemma ranges_before_touching_takeWhile:
  assumes "separated lo hi rs" "s \<le> e"
  shows "takeWhile (\<lambda>r. lo r \<le> e) rs = ranges_before hi s rs @ ranges_touching lo hi s e rs"
  using assms
proof (induction rs)
  case (Cons r rs)
  then show ?case
    by (auto simp: ranges_before_def ranges_touching_def separated_Cons)
qed (simp add: ranges_before_def ranges_touching_def)

section \<open>The merge step\<close>

lemma separated_between_ends:
  assumes "separated lo hi ys" "y \<in> set ys"
  shows "lo (hd ys) \<le> lo y" "hi y \<le> hi (last ys)"
proof -
  have "lo (hd ys) \<le> lo y" using assms by (cases ys) (auto simp: separated_Cons dest: order.strict_trans1)
  moreover have "hi y \<le> hi (last ys)"
    using assms by (cases ys rule: rev_cases) (fastforce simp: separated_def sorted_wrt_append)+
  ultimately show "lo (hd ys) \<le> lo y" "hi y \<le> hi (last ys)" .
qed

lemma covered_merge:
  assumes "separated lo hi ys" "ys \<noteq> []" "s \<le> hi (hd ys)" "lo (last ys) \<le> e"
  shows "{min s (lo (hd ys)) ..< max e (hi (last ys))} = {s ..< e} \<union> covered lo hi ys"
proof
  show "{min s (lo (hd ys)) ..< max e (hi (last ys))} \<subseteq> {s ..< e} \<union> covered lo hi ys"
  proof
    fix x assume x: "x \<in> {min s (lo (hd ys)) ..< max e (hi (last ys))}"
    have "x \<in> {s ..< e} \<or> x \<in> {lo (hd ys) ..< hi (hd ys)} \<or> x \<in> {lo (last ys) ..< hi (last ys)}"
      using x assms(3,4) by auto
    then show "x \<in> {s ..< e} \<union> covered lo hi ys"
      using assms(2) by (auto simp: covered_def)
  qed
  show "{s ..< e} \<union> covered lo hi ys \<subseteq> {min s (lo (hd ys)) ..< max e (hi (last ys))}"
    using separated_between_ends [OF assms(1)] by (fastforce simp: covered_def)
qed

text \<open>Replacing the touching ranges by the join keeps the form and adds exactly the interval.\<close>

lemma separated_insert:
  assumes rs: "separated lo hi rs" and "s \<le> e"
    and n: "ranges_touching lo hi s e rs = [] \<Longrightarrow> lo n = s \<and> hi n = e"
      "ranges_touching lo hi s e rs \<noteq> [] \<Longrightarrow>
         lo n = min s (lo (hd (ranges_touching lo hi s e rs))) \<and>
         hi n = max e (hi (last (ranges_touching lo hi s e rs)))"
  defines "out \<equiv> ranges_before hi s rs @ n # ranges_after lo hi s e rs"
  shows "separated lo hi out" "covered lo hi out = covered lo hi rs \<union> {s ..< e}"
    "lo n \<le> s" "e \<le> hi n"
proof -
  define B T A where "B = ranges_before hi s rs" "T = ranges_touching lo hi s e rs"
    "A = ranges_after lo hi s e rs"
  note defs = this
  have split: "rs = B @ T @ A" unfolding defs by (rule ranges_split)
  have sep: "separated lo hi B" "separated lo hi T" "separated lo hi A"
    and gaps: "\<forall>b \<in> set B. \<forall>t \<in> set T. hi b < lo t" "\<forall>t \<in> set T. \<forall>a \<in> set A. hi t < lo a"
      "\<forall>b \<in> set B. \<forall>a \<in> set A. hi b < lo a"
    using rs by (auto simp: split separated_append)
  have B: "\<forall>b \<in> set B. hi b < s" unfolding defs by (simp add: ranges_before_less)
  have A: "\<forall>a \<in> set A. e < lo a" unfolding defs using ranges_after_greater [OF rs] by blast
  have T: "T \<noteq> [] \<Longrightarrow> s \<le> hi (hd T) \<and> lo (last T) \<le> e"
    using ranges_touching_between [OF rs, of "hd T" s e] ranges_touching_between [OF rs, of "last T" s e]
    unfolding defs by simp
  show "lo n \<le> s" "e \<le> hi n" using n unfolding defs [symmetric] by (cases "T = []"; simp)+
  have cov: "{lo n ..< hi n} = {s ..< e} \<union> covered lo hi T"
    using n covered_merge [OF sep(2)] T unfolding defs [symmetric] by (cases "T = []") auto
  show "covered lo hi out = covered lo hi rs \<union> {s ..< e}"
    unfolding out_def defs [symmetric] using cov split by auto
  have "\<forall>b \<in> set B. hi b < lo n" "\<forall>a \<in> set A. hi n < lo a"
    using n A B gaps unfolding defs [symmetric] by (cases "T = []"; simp)+
  then show "separated lo hi out"
    unfolding out_def defs [symmetric] separated_append separated_Cons
    using sep gaps(3) \<open>lo n \<le> s\<close> \<open>e \<le> hi n\<close> assms(2) by auto
qed

section \<open>Uniqueness of the normal form\<close>

lemma normalized_first:
  assumes "normalized lo hi (r # rs)" "x \<in> covered lo hi (r # rs)"
  shows "lo r \<le> x"
proof -
  consider "x \<in> {lo r ..< hi r}" | q where "q \<in> set rs" "lo q \<le> x"
    using assms(2) by (auto simp: covered_def)
  then show ?thesis using assms(1) by cases (auto simp: normalized_Cons dest!: bspec)
qed

lemma normalized_gap: "normalized lo hi (r # rs) \<Longrightarrow> hi r \<notin> covered lo hi (r # rs)"
  by (auto simp: covered_def normalized_Cons)

lemma normalized_unique:
  assumes "normalized lo hi rs" "normalized lo hi ss" "covered lo hi rs = covered lo hi ss"
  shows "map (\<lambda>r. (lo r, hi r)) rs = map (\<lambda>r. (lo r, hi r)) ss"
  using assms
proof (induction rs arbitrary: ss)
  case Nil
  then show ?case by (cases ss) (auto simp: normalized_Cons covered_def)
next
  case (Cons r rs)
  then obtain q qs where ss: "ss = q # qs"
    by (cases ss) (auto simp: normalized_Cons)
  note eq = Cons.prems(3) [unfolded ss]
  have nr: "normalized lo hi (r # rs)" and nq: "normalized lo hi (q # qs)"
    using Cons.prems ss by auto
  have "lo r \<in> covered lo hi (r # rs)" "lo q \<in> covered lo hi (q # qs)"
    using nr nq by (auto simp: normalized_Cons)
  then have lo: "lo r = lo q"
    using normalized_first [OF nr, of "lo q"] normalized_first [OF nq, of "lo r"] unfolding eq by force
  have "hi r \<notin> {lo q ..< hi q}" "hi q \<notin> {lo r ..< hi r}"
    using normalized_gap [OF nr] normalized_gap [OF nq] eq by auto
  then have hi: "hi r = hi q" using lo nr nq by (auto simp: normalized_Cons)
  have "covered lo hi rs = covered lo hi (r # rs) - {lo r ..< hi r}"
    using nr by (fastforce simp: covered_def normalized_Cons)
  moreover have "covered lo hi qs = covered lo hi (q # qs) - {lo q ..< hi q}"
    using nq by (fastforce simp: covered_def normalized_Cons)
  ultimately have "covered lo hi rs = covered lo hi qs" using eq lo hi by simp
  then show ?case using Cons.IH [of qs] nr nq lo hi ss by (simp add: normalized_Cons)
qed

text \<open>The number of covered integers is the sum of the lengths.\<close>

lemma card_covered:
  "separated lo hi rs \<Longrightarrow> finite (covered lo hi rs) \<and> int (card (covered lo hi rs)) = (\<Sum>r \<leftarrow> rs. hi r - lo r)"
proof (induction rs)
  case (Cons r rs)
  have "{lo r ..< hi r} \<inter> covered lo hi rs = {}"
    using Cons.prems by (fastforce simp: covered_def separated_Cons)
  with Cons show ?case by (simp add: separated_Cons card_Un_disjoint)
qed simp

section \<open>The contract of a set of ranges\<close>

locale interval_set =
  fixes lo hi :: "'r \<Rightarrow> number" and ranges :: "'s \<Rightarrow> 'r list" and inv :: "'s \<Rightarrow> bool"
    and empty_set :: 's and add :: "'r \<Rightarrow> 's \<Rightarrow> 's result"
  assumes inv_empty: "inv empty_set" and ranges_empty: "ranges empty_set = []"
    and add_ok: "inv s \<Longrightarrow> lo r \<le> hi r \<Longrightarrow>
      \<exists>s'. add r s = Inr s' \<and> inv s' \<and>
        covered lo hi (ranges s') = covered lo hi (ranges s) \<union> {lo r ..< hi r}"
begin

lemma add_all:
  "inv s \<Longrightarrow> \<forall>r \<in> set rs. lo r \<le> hi r \<Longrightarrow>
   \<exists>s'. result_fold add rs s = Inr s' \<and> inv s' \<and>
     covered lo hi (ranges s') = covered lo hi (ranges s) \<union> covered lo hi rs"
proof (induction rs arbitrary: s)
  case (Cons r rs)
  then obtain t where t: "add r s = Inr t" "inv t"
    "covered lo hi (ranges t) = covered lo hi (ranges s) \<union> {lo r ..< hi r}"
    using add_ok [of s r] by auto
  from Cons.IH [OF t(2)] Cons.prems(2) t show ?case by auto
qed auto

lemma add_all_empty:
  "\<forall>r \<in> set rs. lo r \<le> hi r \<Longrightarrow>
   \<exists>s'. result_fold add rs empty_set = Inr s' \<and> inv s' \<and> covered lo hi (ranges s') = covered lo hi rs"
  using add_all [OF inv_empty, of rs] ranges_empty by simp

end

text \<open>With a unique representation, the order of the additions does not matter at all.\<close>

locale canonical_interval_set = interval_set +
  assumes canonical: "inv s \<Longrightarrow> inv t \<Longrightarrow>
    covered lo hi (ranges s) = covered lo hi (ranges t) \<Longrightarrow> s = t"
begin

lemma add_all_order:
  assumes "\<forall>r \<in> set rs. lo r \<le> hi r" "set rs = set rs'" "inv s"
  shows "result_fold add rs s = result_fold add rs' s"
proof -
  obtain a where a: "result_fold add rs s = Inr a" "inv a"
      "covered lo hi (ranges a) = covered lo hi (ranges s) \<union> covered lo hi rs"
    using add_all [OF assms(3,1)] by blast
  obtain b where b: "result_fold add rs' s = Inr b" "inv b"
      "covered lo hi (ranges b) = covered lo hi (ranges s) \<union> covered lo hi rs'"
    using add_all [OF assms(3), of rs'] assms(1,2) by auto
  have "covered lo hi rs = covered lo hi rs'" using assms(2) by (simp add: covered_def)
  then show ?thesis using canonical [OF a(2) b(2)] a b by simp
qed

end

end
