(* ===== verification/Offset_Range.thy ===== *)
theory Offset_Range
  imports Intervals
begin

text \<open>
  \<open>src/vs/editor/common/core/offsetRange.ts\<close>: a half-open range of offsets and a set of
  such ranges. The constructor throws on ends in the wrong order, so every operation that
  makes a range returns a \<open>result\<close>; the lemmas show where that cannot happen. The set
  is interpreted as an \<open>interval_set\<close>.
\<close>

record OffsetRange =
  start :: number
  endExclusive :: number

definition new_OffsetRange :: "number \<Rightarrow> number \<Rightarrow> OffsetRange result" where
  "new_OffsetRange s e = (if s > e then Inl BugIndicatingError else Inr \<lparr>start = s, endExclusive = e\<rparr>)"

text \<open>
  The static \<open>addRange\<close> and the method of \<open>OffsetRangeSet\<close> have the same body: scan
  for the first range that does not end before the new one, scan on over the ranges it
  touches, then insert or replace in place.
\<close>

definition OffsetRange_addRange :: "OffsetRange \<Rightarrow> OffsetRange list \<Rightarrow> OffsetRange list result" where
  "OffsetRange_addRange r sortedRanges =
     (let i = scan_while (\<lambda>x. endExclusive x < start r) sortedRanges 0;
          j = scan_while (\<lambda>x. start x \<le> endExclusive r) sortedRanges i
      in if i = j then Inr (arr_splice sortedRanges i 0 [r])
         else
           (let s = min (start r) (start (sortedRanges ! i));
                e = max (endExclusive r) (endExclusive (sortedRanges ! (j - 1)))
            in result_map (\<lambda>n. arr_splice sortedRanges i (j - i) [n]) (new_OffsetRange s e)))"

definition OffsetRange_tryCreate :: "number \<Rightarrow> number \<Rightarrow> OffsetRange option result" where
  "OffsetRange_tryCreate s e = (if s > e then Inr None else result_map Some (new_OffsetRange s e))"

definition OffsetRange_ofLength :: "number \<Rightarrow> OffsetRange result" where
  "OffsetRange_ofLength len = new_OffsetRange 0 len"

definition OffsetRange_isEmpty :: "OffsetRange \<Rightarrow> bool" where
  "OffsetRange_isEmpty this \<longleftrightarrow> start this = endExclusive this"

definition OffsetRange_delta :: "OffsetRange \<Rightarrow> number \<Rightarrow> OffsetRange result" where
  "OffsetRange_delta this offset = new_OffsetRange (start this + offset) (endExclusive this + offset)"

definition OffsetRange_deltaStart :: "OffsetRange \<Rightarrow> number \<Rightarrow> OffsetRange result" where
  "OffsetRange_deltaStart this offset = new_OffsetRange (start this + offset) (endExclusive this)"

definition OffsetRange_deltaEnd :: "OffsetRange \<Rightarrow> number \<Rightarrow> OffsetRange result" where
  "OffsetRange_deltaEnd this offset = new_OffsetRange (start this) (endExclusive this + offset)"

definition OffsetRange_length :: "OffsetRange \<Rightarrow> number" where
  "OffsetRange_length this = endExclusive this - start this"

definition OffsetRange_toString :: "OffsetRange \<Rightarrow> jsstring" where
  "OffsetRange_toString this =
     js_str ''['' @ js_show_number (start this) @ js_str '', '' @ js_show_number (endExclusive this) @ js_str '')''"

definition OffsetRange_equals :: "OffsetRange \<Rightarrow> OffsetRange \<Rightarrow> bool" where
  "OffsetRange_equals this other \<longleftrightarrow> start this = start other \<and> endExclusive this = endExclusive other"

definition OffsetRange_containsRange :: "OffsetRange \<Rightarrow> OffsetRange \<Rightarrow> bool" where
  "OffsetRange_containsRange this other \<longleftrightarrow>
     start this \<le> start other \<and> endExclusive other \<le> endExclusive this"

definition OffsetRange_contains :: "OffsetRange \<Rightarrow> number \<Rightarrow> bool" where
  "OffsetRange_contains this offset \<longleftrightarrow> start this \<le> offset \<and> offset < endExclusive this"

definition OffsetRange_join :: "OffsetRange \<Rightarrow> OffsetRange \<Rightarrow> OffsetRange result" where
  "OffsetRange_join this other =
     new_OffsetRange (min (start this) (start other)) (max (endExclusive this) (endExclusive other))"

definition OffsetRange_intersect :: "OffsetRange \<Rightarrow> OffsetRange \<Rightarrow> OffsetRange option result" where
  "OffsetRange_intersect this other =
     (let s = max (start this) (start other); e = min (endExclusive this) (endExclusive other)
      in if s \<le> e then result_map Some (new_OffsetRange s e) else Inr None)"

definition OffsetRange_slice :: "OffsetRange \<Rightarrow> 'a list \<Rightarrow> 'a list" where
  "OffsetRange_slice this arr = js_slice arr (start this) (endExclusive this)"

definition OffsetRange_clip :: "OffsetRange \<Rightarrow> number \<Rightarrow> number result" where
  "OffsetRange_clip this v =
     (if OffsetRange_isEmpty this then Inl BugIndicatingError
      else Inr (max (start this) (min (endExclusive this - 1) v)))"

definition OffsetRange_clipCyclic :: "OffsetRange \<Rightarrow> number \<Rightarrow> number result" where
  "OffsetRange_clipCyclic this v =
     (if OffsetRange_isEmpty this then Inl BugIndicatingError
      else if v < start this then Inr (endExclusive this - js_rem (start this - v) (OffsetRange_length this))
      else if v \<ge> endExclusive this then Inr (start this + js_rem (v - start this) (OffsetRange_length this))
      else Inr v)"

definition OffsetRange_map :: "OffsetRange \<Rightarrow> (number \<Rightarrow> 'a) \<Rightarrow> 'a list" where
  "OffsetRange_map this f = int_loop f (start this) (endExclusive this) []"

text \<open>\<open>forEach\<close> calls \<open>f\<close> for its effect; the state \<open>f\<close> works on is threaded through.\<close>

function OffsetRange_forEach_loop :: "(number \<Rightarrow> 's \<Rightarrow> 's) \<Rightarrow> number \<Rightarrow> number \<Rightarrow> 's \<Rightarrow> 's" where
  "OffsetRange_forEach_loop f i e s = (if i < e then OffsetRange_forEach_loop f (i + 1) e (f i s) else s)"
  by pat_completeness auto
termination by (relation "measure (\<lambda>(f, i, e, s). nat (e - i))") auto

declare OffsetRange_forEach_loop.simps [simp del]

definition OffsetRange_forEach :: "OffsetRange \<Rightarrow> (number \<Rightarrow> 's \<Rightarrow> 's) \<Rightarrow> 's \<Rightarrow> 's" where
  "OffsetRange_forEach this f s = OffsetRange_forEach_loop f (start this) (endExclusive this) s"

section \<open>OffsetRangeSet\<close>

record OffsetRangeSet =
  sortedRanges :: "OffsetRange list"

definition new_OffsetRangeSet :: OffsetRangeSet where
  "new_OffsetRangeSet = \<lparr>sortedRanges = []\<rparr>"

definition OffsetRangeSet_addRange :: "OffsetRange \<Rightarrow> OffsetRangeSet \<Rightarrow> OffsetRangeSet result" where
  "OffsetRangeSet_addRange r this =
     (let i = scan_while (\<lambda>x. endExclusive x < start r) (sortedRanges this) 0;
          j = scan_while (\<lambda>x. start x \<le> endExclusive r) (sortedRanges this) i
      in if i = j then Inr (this\<lparr>sortedRanges := arr_splice (sortedRanges this) i 0 [r]\<rparr>)
         else
           (let s = min (start r) (start (sortedRanges this ! i));
                e = max (endExclusive r) (endExclusive (sortedRanges this ! (j - 1)))
            in result_map (\<lambda>n. this\<lparr>sortedRanges := arr_splice (sortedRanges this) i (j - i) [n]\<rparr>)
                 (new_OffsetRange s e)))"

definition OffsetRangeSet_toString :: "OffsetRangeSet \<Rightarrow> jsstring" where
  "OffsetRangeSet_toString this = js_join (js_str '', '') (map OffsetRange_toString (sortedRanges this))"

definition OffsetRangeSet_intersectsStrict :: "OffsetRangeSet \<Rightarrow> OffsetRange \<Rightarrow> bool" where
  "OffsetRangeSet_intersectsStrict this other =
     (let i = scan_while (\<lambda>x. endExclusive x \<le> start other) (sortedRanges this) 0
      in i < length (sortedRanges this) \<and> start (sortedRanges this ! i) < endExclusive other)"

text \<open>One turn of the loop: intersect, and add the intersection when there is one.\<close>

definition intersectWithRange_step :: "OffsetRange \<Rightarrow> OffsetRange \<Rightarrow> OffsetRangeSet \<Rightarrow> OffsetRangeSet result" where
  "intersectWithRange_step other r res =
     result_bind (OffsetRange_intersect r other) (\<lambda>intersection.
       case intersection of None \<Rightarrow> Inr res | Some x \<Rightarrow> OffsetRangeSet_addRange x res)"

definition OffsetRangeSet_intersectWithRange :: "OffsetRangeSet \<Rightarrow> OffsetRange \<Rightarrow> OffsetRangeSet result" where
  "OffsetRangeSet_intersectWithRange this other =
     result_fold (intersectWithRange_step other) (sortedRanges this) new_OffsetRangeSet"

definition OffsetRangeSet_length :: "OffsetRangeSet \<Rightarrow> number" where
  "OffsetRangeSet_length this = foldl (\<lambda>prev cur. prev + OffsetRange_length cur) 0 (sortedRanges this)"

definition OffsetRangeSet_intersectWithRangeLength :: "OffsetRangeSet \<Rightarrow> OffsetRange \<Rightarrow> number result" where
  "OffsetRangeSet_intersectWithRangeLength this other =
     result_map OffsetRangeSet_length (OffsetRangeSet_intersectWithRange this other)"

section \<open>Offset ranges as sets of offsets\<close>

definition OffsetRange_wf :: "OffsetRange \<Rightarrow> bool" where
  "OffsetRange_wf r \<longleftrightarrow> start r \<le> endExclusive r"

definition OffsetRange_offsets :: "OffsetRange \<Rightarrow> number set" where
  "OffsetRange_offsets r = {n. OffsetRange_contains r n}"

lemma OffsetRange_offsets_eq: "OffsetRange_offsets r = {start r ..< endExclusive r}"
  by (auto simp: OffsetRange_offsets_def OffsetRange_contains_def)

lemma new_OffsetRange_ok [simp]: "s \<le> e \<Longrightarrow> new_OffsetRange s e = Inr \<lparr>start = s, endExclusive = e\<rparr>"
  by (simp add: new_OffsetRange_def)

lemma new_OffsetRange_Inr_iff: "new_OffsetRange s e = Inr r \<longleftrightarrow> s \<le> e \<and> start r = s \<and> endExclusive r = e"
  by (auto simp: new_OffsetRange_def)

lemma intersect_eq:
  "OffsetRange_intersect a b =
     Inr (if max (start a) (start b) \<le> min (endExclusive a) (endExclusive b)
          then Some \<lparr>start = max (start a) (start b), endExclusive = min (endExclusive a) (endExclusive b)\<rparr>
          else None)"
  by (simp add: OffsetRange_intersect_def Let_def del: min.bounded_iff max.bounded_iff)

lemma OffsetRange_map_eq: "OffsetRange_map r f = map f [start r .. endExclusive r - 1]"
  by (simp add: OffsetRange_map_def int_loop_eq)

lemma OffsetRange_forEach_loop_eq: "OffsetRange_forEach_loop f i e s = fold f [i .. e - 1] s"
proof (induction f i e s rule: OffsetRange_forEach_loop.induct)
  case (1 f i e s)
  then show ?case by (subst OffsetRange_forEach_loop.simps) (auto simp: upto_rec1)
qed

section \<open>The set of ranges as an interval set\<close>

lemma addRange_scan:
  fixes rs :: "OffsetRange list" and r :: OffsetRange
  defines "i \<equiv> scan_while (\<lambda>x. endExclusive x < start r) rs 0"
  shows "i = length (ranges_before endExclusive (start r) rs)"
    "scan_while (\<lambda>x. start x \<le> endExclusive r) rs i =
       i + length (ranges_touching start endExclusive (start r) (endExclusive r) rs)"
proof -
  show i: "i = length (ranges_before endExclusive (start r) rs)"
    by (simp add: i_def scan_while_eq ranges_before_def)
  have "i \<le> length rs" using i by (simp add: ranges_before_def length_takeWhile_le)
  moreover have "drop i rs = dropWhile (\<lambda>x. endExclusive x < start r) rs"
    using i by (simp add: ranges_before_def dropWhile_eq_drop)
  ultimately show "scan_while (\<lambda>x. start x \<le> endExclusive r) rs i =
       i + length (ranges_touching start endExclusive (start r) (endExclusive r) rs)"
    by (simp add: scan_while_eq ranges_touching_def)
qed

lemma OffsetRange_addRange_correct:
  assumes "separated start endExclusive rs" "OffsetRange_wf r"
  shows "\<exists>out. OffsetRange_addRange r rs = Inr out \<and> separated start endExclusive out \<and>
           covered start endExclusive out = covered start endExclusive rs \<union> OffsetRange_offsets r"
proof -
  define s e where "s = start r" "e = endExclusive r"
  note se = this
  define B T A where "B = ranges_before endExclusive s rs" "T = ranges_touching start endExclusive s e rs"
    "A = ranges_after start endExclusive s e rs"
  note parts = this
  have rs: "rs = B @ T @ A" unfolding parts by (rule ranges_split)
  note scan1 = addRange_scan(1) [of r rs, folded se, folded parts]
  note scan2 = addRange_scan(2) [of r rs, unfolded addRange_scan(1) [of r rs], folded se, folded parts]
  have "s \<le> e" using assms(2) by (simp add: se OffsetRange_wf_def)
  note ins = separated_insert [OF assms(1) this, folded parts]
  show ?thesis
  proof (cases "T = []")
    case True
    then have "OffsetRange_addRange r rs = Inr (B @ r # A)"
      using arr_splice_split [of B "length B" "[]" 0 A "[r]"] rs
      unfolding OffsetRange_addRange_def Let_def se [symmetric] scan1 scan2 by simp
    then show ?thesis
      using ins(1,2) [of r] True by (simp add: se OffsetRange_offsets_eq)
  next
    case False
    define n where "n = \<lparr>start = min s (start (hd T)), endExclusive = max e (endExclusive (last T))\<rparr>"
    have nth: "rs ! length B = hd T" "rs ! (length B + length T - 1) = last T"
      using False by (simp add: rs nth_append hd_conv_nth)
        (cases T rule: rev_cases; simp add: rs nth_append False)
    have "min s (start (hd T)) \<le> max e (endExclusive (last T))" using \<open>s \<le> e\<close> by linarith
    then have "OffsetRange_addRange r rs = Inr (B @ n # A)"
      using False arr_splice_split [of B "length B" T "length T" A "[n]"] rs
      unfolding OffsetRange_addRange_def Let_def se [symmetric] scan1 scan2 nth by (simp add: n_def)
    then show ?thesis
      using ins(1,2) [of n] False by (simp add: n_def se OffsetRange_offsets_eq)
  qed
qed

lemma OffsetRangeSet_addRange_eq:
  "OffsetRangeSet_addRange r this =
     result_map (\<lambda>rs. this\<lparr>sortedRanges := rs\<rparr>) (OffsetRange_addRange r (sortedRanges this))"
proof -
  have map_map: "result_map f (result_map g x) = result_map (\<lambda>y. f (g y)) x"
    for f :: "OffsetRange list \<Rightarrow> OffsetRangeSet" and g and x :: "OffsetRange result"
    by (cases x) auto
  show ?thesis
    by (simp add: OffsetRangeSet_addRange_def OffsetRange_addRange_def Let_def map_map)
qed

definition OffsetRangeSet_wf :: "OffsetRangeSet \<Rightarrow> bool" where
  "OffsetRangeSet_wf this \<longleftrightarrow> separated start endExclusive (sortedRanges this)"

definition OffsetRangeSet_offsets :: "OffsetRangeSet \<Rightarrow> number set" where
  "OffsetRangeSet_offsets this = (\<Union>r \<in> set (sortedRanges this). OffsetRange_offsets r)"

lemma OffsetRangeSet_offsets_eq: "OffsetRangeSet_offsets this = covered start endExclusive (sortedRanges this)"
  by (simp add: OffsetRangeSet_offsets_def covered_def OffsetRange_offsets_eq)

interpretation orset: interval_set start endExclusive sortedRanges OffsetRangeSet_wf new_OffsetRangeSet
  OffsetRangeSet_addRange
proof (unfold_locales, goal_cases)
  case (3 s r)
  then obtain out where "OffsetRange_addRange r (sortedRanges s) = Inr out" "separated start endExclusive out"
    "covered start endExclusive out = covered start endExclusive (sortedRanges s) \<union> OffsetRange_offsets r"
    using OffsetRange_addRange_correct [of "sortedRanges s" r]
    by (auto simp: OffsetRangeSet_wf_def OffsetRange_wf_def)
  then show ?case
    by (simp add: OffsetRangeSet_addRange_eq OffsetRangeSet_wf_def OffsetRange_offsets_eq)
qed (simp_all add: OffsetRangeSet_wf_def new_OffsetRangeSet_def)

text \<open>The loop of \<open>intersectWithRange\<close> adds the intersections that exist, in order.\<close>

definition clipped :: "OffsetRange \<Rightarrow> OffsetRange list \<Rightarrow> OffsetRange list" where
  "clipped other rs =
     [\<lparr>start = max (start r) (start other), endExclusive = min (endExclusive r) (endExclusive other)\<rparr>.
       r \<leftarrow> rs, max (start r) (start other) \<le> min (endExclusive r) (endExclusive other)]"

lemma clipped_Cons:
  "clipped other (r # rs) =
     (if max (start r) (start other) \<le> min (endExclusive r) (endExclusive other)
      then [\<lparr>start = max (start r) (start other), endExclusive = min (endExclusive r) (endExclusive other)\<rparr>]
      else []) @ clipped other rs"
  by (simp add: clipped_def)

lemma intersectWithRange_step_eq:
  "intersectWithRange_step other r =
     (if max (start r) (start other) \<le> min (endExclusive r) (endExclusive other)
      then OffsetRangeSet_addRange
        \<lparr>start = max (start r) (start other), endExclusive = min (endExclusive r) (endExclusive other)\<rparr>
      else Inr)"
  by (rule ext) (simp add: intersectWithRange_step_def intersect_eq del: min.bounded_iff max.bounded_iff)

lemma intersectWithRange_fold:
  "result_fold (intersectWithRange_step other) rs s = result_fold OffsetRangeSet_addRange (clipped other rs) s"
proof (induction rs arbitrary: s)
  case (Cons r rs)
  have IH: "result_fold (intersectWithRange_step other) rs = result_fold OffsetRangeSet_addRange (clipped other rs)"
    using Cons by blast
  show ?case
    unfolding clipped_Cons result_fold.simps intersectWithRange_step_eq [of other r] IH
    by (simp del: min.bounded_iff max.bounded_iff)
qed (simp add: clipped_def)

lemma clipped_wf: "r \<in> set (clipped other rs) \<Longrightarrow> start r \<le> endExclusive r"
  by (auto simp: clipped_def split: if_splits)

lemma covered_clipped:
  "covered start endExclusive (clipped other rs) = covered start endExclusive rs \<inter> OffsetRange_offsets other"
proof (induction rs)
  case (Cons r rs)
  have "{max (start r) (start other) ..< min (endExclusive r) (endExclusive other)} =
      {start r ..< endExclusive r} \<inter> OffsetRange_offsets other"
    by (auto simp: OffsetRange_offsets_eq)
  moreover have "\<not> max (start r) (start other) \<le> min (endExclusive r) (endExclusive other) \<Longrightarrow>
      {max (start r) (start other) ..< min (endExclusive r) (endExclusive other)} = {}" by (simp only: not_le atLeastLessThan_empty_iff)
  ultimately show ?case
    unfolding clipped_Cons covered_simps Cons Int_Un_distrib2
    by (cases "max (start r) (start other) \<le> min (endExclusive r) (endExclusive other)")
      (simp_all del: min.bounded_iff max.bounded_iff)
qed (simp add: clipped_def)

lemma intersectWithRange_correct:
  "\<exists>out. OffsetRangeSet_intersectWithRange this other = Inr out \<and> OffsetRangeSet_wf out \<and>
     OffsetRangeSet_offsets out = OffsetRangeSet_offsets this \<inter> OffsetRange_offsets other"
  using orset.add_all_empty [of "clipped other (sortedRanges this)"]
  unfolding OffsetRangeSet_intersectWithRange_def intersectWithRange_fold OffsetRangeSet_offsets_eq
    covered_clipped
  by (metis clipped_wf)

lemma OffsetRangeSet_length_eq:
  "OffsetRangeSet_length this = (\<Sum>r \<leftarrow> sortedRanges this. endExclusive r - start r)"
proof -
  have "foldl (\<lambda>prev cur. prev + OffsetRange_length cur) a rs = a + (\<Sum>r \<leftarrow> rs. endExclusive r - start r)" for a rs
    by (induction rs arbitrary: a) (simp_all add: OffsetRange_length_def)
  then show ?thesis by (simp add: OffsetRangeSet_length_def)
qed

lemma OffsetRangeSet_length_card:
  "OffsetRangeSet_wf this \<Longrightarrow> OffsetRangeSet_length this = int (card (OffsetRangeSet_offsets this))"
  using card_covered [of start endExclusive "sortedRanges this"]
  by (simp add: OffsetRangeSet_wf_def OffsetRangeSet_length_eq OffsetRangeSet_offsets_eq)

lemma intersectsStrict_scan:
  "OffsetRangeSet_intersectsStrict this other \<longleftrightarrow>
     (case dropWhile (\<lambda>x. endExclusive x \<le> start other) (sortedRanges this) of
        [] \<Rightarrow> False | r # _ \<Rightarrow> start r < endExclusive other)"
  unfolding OffsetRangeSet_intersectsStrict_def Let_def by (rule scan_while_found)

lemma intersectsStrict_iff:
  assumes "normalized start endExclusive rs" "s < e"
  shows "(case dropWhile (\<lambda>x. endExclusive x \<le> s) rs of [] \<Rightarrow> False | r # _ \<Rightarrow> start r < e) \<longleftrightarrow>
         covered start endExclusive rs \<inter> {s ..< e} \<noteq> {}"
  using assms(1)
proof (induction rs)
  case (Cons r rs)
  have IH: "(case dropWhile (\<lambda>x. endExclusive x \<le> s) rs of [] \<Rightarrow> False | r # _ \<Rightarrow> start r < e) \<longleftrightarrow>
      covered start endExclusive rs \<inter> {s ..< e} \<noteq> {}"
    using Cons by (simp add: normalized_Cons)
  show ?case
  proof (cases "endExclusive r \<le> s")
    case True
    then have "{start r ..< endExclusive r} \<inter> {s ..< e} = {}" by auto
    with True IH show ?thesis by (simp add: Int_Un_distrib2)
  next
    case False
    have "covered start endExclusive (r # rs) \<inter> {s ..< e} \<noteq> {}" if "start r < e"
    proof -
      have "max s (start r) \<in> covered start endExclusive (r # rs) \<inter> {s ..< e}"
        using that False assms(2) Cons.prems by (simp add: normalized_Cons)
      then show ?thesis by blast
    qed
    moreover have "covered start endExclusive (r # rs) \<inter> {s ..< e} = {}" if "e \<le> start r"
      using that normalized_first [OF Cons.prems] by fastforce
    ultimately show ?thesis
      using False by (cases "start r < e") (simp_all add: not_less del: covered_simps)
  qed
qed simp

section \<open>Properties\<close>

text \<open>
  \<open>OffsetRangeSet.addRange\<close> never throws on a well-formed set and range, keeps the
  ranges sorted and apart, and adds exactly the offsets of the range; on a set without
  empty ranges \<open>intersectsStrict\<close> decides whether a non-empty range shares an offset with it;
  \<open>intersectWithRange\<close> never throws and returns exactly the common offsets, and
  \<open>intersectWithRangeLength\<close> is their number.
\<close>

theorem OffsetRangeSet_operations:
  assumes "OffsetRangeSet_wf this" "OffsetRange_wf r"
  shows "(\<exists>out. OffsetRangeSet_addRange r this = Inr out \<and> OffsetRangeSet_wf out \<and>
            OffsetRangeSet_offsets out = OffsetRangeSet_offsets this \<union> OffsetRange_offsets r) \<and>
         ((\<forall>x \<in> set (r # sortedRanges this). \<not> OffsetRange_isEmpty x) \<longrightarrow>
            (OffsetRangeSet_intersectsStrict this r \<longleftrightarrow> OffsetRangeSet_offsets this \<inter> OffsetRange_offsets r \<noteq> {})) \<and>
         (\<exists>out. OffsetRangeSet_intersectWithRange this r = Inr out \<and> OffsetRangeSet_wf out \<and>
            OffsetRangeSet_offsets out = OffsetRangeSet_offsets this \<inter> OffsetRange_offsets r) \<and>
         OffsetRangeSet_intersectWithRangeLength this r =
           Inr (int (card (OffsetRangeSet_offsets this \<inter> OffsetRange_offsets r)))"
proof (intro conjI impI)
  show "\<exists>out. OffsetRangeSet_addRange r this = Inr out \<and> OffsetRangeSet_wf out \<and>
            OffsetRangeSet_offsets out = OffsetRangeSet_offsets this \<union> OffsetRange_offsets r"
    using orset.add_ok [OF assms(1)] assms(2)
    by (simp add: OffsetRange_wf_def OffsetRangeSet_offsets_eq OffsetRange_offsets_eq)
  show "OffsetRangeSet_intersectsStrict this r \<longleftrightarrow> OffsetRangeSet_offsets this \<inter> OffsetRange_offsets r \<noteq> {}"
    if ne: "\<forall>x \<in> set (r # sortedRanges this). \<not> OffsetRange_isEmpty x"
  proof -
    have "normalized start endExclusive (sortedRanges this)" "start r < endExclusive r"
      using assms ne by (auto simp: normalized_separated OffsetRangeSet_wf_def OffsetRange_isEmpty_def OffsetRange_wf_def)
    then show ?thesis
      by (simp add: intersectsStrict_scan intersectsStrict_iff OffsetRangeSet_offsets_eq OffsetRange_offsets_eq)
  qed
  obtain out where out: "OffsetRangeSet_intersectWithRange this r = Inr out" "OffsetRangeSet_wf out"
      "OffsetRangeSet_offsets out = OffsetRangeSet_offsets this \<inter> OffsetRange_offsets r"
    using intersectWithRange_correct by blast
  then show "\<exists>out. OffsetRangeSet_intersectWithRange this r = Inr out \<and> OffsetRangeSet_wf out \<and>
            OffsetRangeSet_offsets out = OffsetRangeSet_offsets this \<inter> OffsetRange_offsets r" by blast
  show "OffsetRangeSet_intersectWithRangeLength this r =
      Inr (int (card (OffsetRangeSet_offsets this \<inter> OffsetRange_offsets r)))"
    using OffsetRangeSet_length_card [OF out(2)] out
    by (simp add: OffsetRangeSet_intersectWithRangeLength_def)
qed

theorem OffsetRangeSet_operations_witness:
  "\<exists>out. OffsetRangeSet_addRange \<lparr>start = 4, endExclusive = 8\<rparr>
       \<lparr>sortedRanges = [\<lparr>start = 0, endExclusive = 5\<rparr>, \<lparr>start = 7, endExclusive = 9\<rparr>]\<rparr> = Inr out \<and>
     OffsetRangeSet_offsets out = {0 ..< 5} \<union> {7 ..< 9} \<union> {4 ..< 8}"
  using OffsetRangeSet_operations
    [of "\<lparr>sortedRanges = [\<lparr>start = 0, endExclusive = 5\<rparr>, \<lparr>start = 7, endExclusive = 9\<rparr>]\<rparr>"
        "\<lparr>start = 4, endExclusive = 8\<rparr>"]
  by (auto simp: OffsetRangeSet_wf_def OffsetRange_wf_def separated_def OffsetRangeSet_offsets_eq [of "\<lparr>sortedRanges = _\<rparr>"]
      OffsetRange_offsets_eq)

text \<open>
  Adding an empty range to a set that does not touch it keeps the empty range, and
  \<open>intersectsStrict\<close> then answers true although the set holds no offset at all.
\<close>

lemma intersectsStrict_counts_empty_ranges:
  "OffsetRangeSet_addRange \<lparr>start = 3, endExclusive = 3\<rparr> new_OffsetRangeSet =
     Inr \<lparr>sortedRanges = [\<lparr>start = 3, endExclusive = 3\<rparr>]\<rparr> \<and>
   OffsetRangeSet_offsets \<lparr>sortedRanges = [\<lparr>start = 3, endExclusive = 3\<rparr>]\<rparr> = {} \<and>
   OffsetRangeSet_intersectsStrict \<lparr>sortedRanges = [\<lparr>start = 3, endExclusive = 3\<rparr>]\<rparr> \<lparr>start = 1, endExclusive = 5\<rparr>"
  by (simp add: OffsetRangeSet_addRange_def new_OffsetRangeSet_def scan_while.simps arr_splice_def
      OffsetRangeSet_offsets_eq OffsetRangeSet_intersectsStrict_def)

text \<open>
  The operations of one range: \<open>join\<close> is the least range that covers both,
  \<open>intersect\<close> contains exactly the common offsets and is undefined only when the ranges do
  not touch, neither ever throws; \<open>clip\<close> throws exactly on an empty range and otherwise
  returns the closest contained offset; \<open>clipCyclic\<close> returns an offset congruent to the
  value modulo the length, contained in the range unless the value lies before the start by
  a multiple of the length, when the result is the exclusive end.
\<close>

theorem OffsetRange_operations:
  assumes "OffsetRange_wf a" "OffsetRange_wf b"
  shows "(\<exists>j. OffsetRange_join a b = Inr j \<and> OffsetRange_wf j \<and>
            (\<forall>c. OffsetRange_containsRange c j \<longleftrightarrow> OffsetRange_containsRange c a \<and> OffsetRange_containsRange c b)) \<and>
         (\<exists>m. OffsetRange_intersect a b = Inr m \<and>
            (case m of None \<Rightarrow> endExclusive a < start b \<or> endExclusive b < start a
             | Some c \<Rightarrow> OffsetRange_offsets c = OffsetRange_offsets a \<inter> OffsetRange_offsets b)) \<and>
         (case OffsetRange_clip a v of
            Inl err \<Rightarrow> OffsetRange_isEmpty a
          | Inr c \<Rightarrow> OffsetRange_contains a c \<and> (\<forall>n. OffsetRange_contains a n \<longrightarrow> \<bar>v - c\<bar> \<le> \<bar>v - n\<bar>)) \<and>
         (case OffsetRange_clipCyclic a v of
            Inl err \<Rightarrow> OffsetRange_isEmpty a
          | Inr c \<Rightarrow> c mod OffsetRange_length a = v mod OffsetRange_length a \<and>
              (if v < start a \<and> OffsetRange_length a dvd start a - v then c = endExclusive a
               else OffsetRange_contains a c))"
proof (intro conjI)
  show "\<exists>j. OffsetRange_join a b = Inr j \<and> OffsetRange_wf j \<and>
      (\<forall>c. OffsetRange_containsRange c j \<longleftrightarrow> OffsetRange_containsRange c a \<and> OffsetRange_containsRange c b)"
    using assms by (auto simp: OffsetRange_join_def OffsetRange_wf_def OffsetRange_containsRange_def new_OffsetRange_def)
  show "\<exists>m. OffsetRange_intersect a b = Inr m \<and>
      (case m of None \<Rightarrow> endExclusive a < start b \<or> endExclusive b < start a
       | Some c \<Rightarrow> OffsetRange_offsets c = OffsetRange_offsets a \<inter> OffsetRange_offsets b)"
    using assms by (auto simp: intersect_eq OffsetRange_wf_def OffsetRange_offsets_eq)
  show "case OffsetRange_clip a v of
      Inl err \<Rightarrow> OffsetRange_isEmpty a
    | Inr c \<Rightarrow> OffsetRange_contains a c \<and> (\<forall>n. OffsetRange_contains a n \<longrightarrow> \<bar>v - c\<bar> \<le> \<bar>v - n\<bar>)"
    using assms by (auto simp: OffsetRange_clip_def OffsetRange_wf_def OffsetRange_contains_def OffsetRange_isEmpty_def)
  show "case OffsetRange_clipCyclic a v of
      Inl err \<Rightarrow> OffsetRange_isEmpty a
    | Inr c \<Rightarrow> c mod OffsetRange_length a = v mod OffsetRange_length a \<and>
        (if v < start a \<and> OffsetRange_length a dvd start a - v then c = endExclusive a
         else OffsetRange_contains a c)"
  proof (cases "OffsetRange_isEmpty a")
    case True
    then show ?thesis by (simp add: OffsetRange_clipCyclic_def)
  next
    case False
    define L where "L = OffsetRange_length a"
    have L: "0 < L" "endExclusive a = start a + L"
      using False assms(1) by (auto simp: L_def OffsetRange_length_def OffsetRange_wf_def OffsetRange_isEmpty_def)
    consider "v < start a" | "endExclusive a \<le> v" | "start a \<le> v" "v < endExclusive a" by linarith
    then show ?thesis
    proof cases
      case 1
      then have c: "OffsetRange_clipCyclic a v = Inr (start a + L - (start a - v) mod L)"
        using False L by (simp add: OffsetRange_clipCyclic_def js_rem_nonneg L_def [symmetric])
      have "(start a + L - (start a - v) mod L) mod L = (start a + L - (start a - v)) mod L"
        by (rule mod_diff_right_eq)
      then have "(start a + L - (start a - v) mod L) mod L = v mod L" by simp
      moreover have "L dvd start a - v \<longleftrightarrow> (start a - v) mod L = 0" by (rule dvd_eq_mod_eq_0)
      ultimately show ?thesis
        using 1 L pos_mod_bound [OF L(1), of "start a - v"] pos_mod_sign [OF L(1), of "start a - v"]
        unfolding c sum.case L_def [symmetric] OffsetRange_contains_def
        by (simp only: if_split simp_thms) linarith
    next
      case 2
      then have c: "OffsetRange_clipCyclic a v = Inr (start a + (v - start a) mod L)"
        using False L by (simp add: OffsetRange_clipCyclic_def js_rem_nonneg L_def [symmetric])
      have "(start a + (v - start a) mod L) mod L = (start a + (v - start a)) mod L"
        by (rule mod_add_right_eq)
      with 2 c L pos_mod_bound [OF L(1), of "v - start a"] pos_mod_sign [OF L(1), of "v - start a"] show ?thesis
        by (auto simp: L_def [symmetric] OffsetRange_contains_def)
    next
      case 3
      then show ?thesis using False by (simp add: OffsetRange_clipCyclic_def OffsetRange_contains_def)
    qed
  qed
qed

theorem OffsetRange_operations_witness:
  "OffsetRange_clipCyclic \<lparr>start = 5, endExclusive = 10\<rparr> 0 = Inr 10 \<and>
   OffsetRange_clipCyclic \<lparr>start = 5, endExclusive = 10\<rparr> 4 = Inr 9 \<and>
   (\<exists>m. OffsetRange_intersect \<lparr>start = 5, endExclusive = 10\<rparr> \<lparr>start = 7, endExclusive = 12\<rparr> = Inr (Some m) \<and>
        OffsetRange_offsets m = {5 ..< 10} \<inter> {7 ..< 12})"
proof (intro conjI)
  show "OffsetRange_clipCyclic \<lparr>start = 5, endExclusive = 10\<rparr> 0 = Inr 10"
    "OffsetRange_clipCyclic \<lparr>start = 5, endExclusive = 10\<rparr> 4 = Inr 9"
    by (simp_all add: OffsetRange_clipCyclic_def OffsetRange_isEmpty_def OffsetRange_length_def js_rem_def)
  show "\<exists>m. OffsetRange_intersect \<lparr>start = 5, endExclusive = 10\<rparr> \<lparr>start = 7, endExclusive = 12\<rparr> = Inr (Some m) \<and>
        OffsetRange_offsets m = {5 ..< 10} \<inter> {7 ..< 12}"
  proof -
    have wf: "OffsetRange_wf \<lparr>start = 5, endExclusive = 10\<rparr>" "OffsetRange_wf \<lparr>start = 7, endExclusive = 12\<rparr>"
      by (simp_all add: OffsetRange_wf_def)
    have e: "OffsetRange_intersect \<lparr>start = 5, endExclusive = 10\<rparr> \<lparr>start = 7, endExclusive = 12\<rparr> =
        Inr (Some \<lparr>start = 7, endExclusive = 10\<rparr>)" by (simp add: OffsetRange_intersect_def)
    show ?thesis
      using OffsetRange_operations [OF wf, THEN conjunct2, THEN conjunct1] e
      by (simp add: OffsetRange_offsets_eq)
  qed
qed

end
