(* ===== verification/Line_Range.thy ===== *)
theory Line_Range
  imports Intervals Offset_Range Core_Range Arrays_Find
begin

text \<open>
  \<open>src/vs/editor/common/core/lineRange.ts\<close>: a half-open range of line numbers and
  \<open>LineRangeSet\<close>, a set of lines kept as a list of ranges in normal form (sorted,
  non-empty, with a gap between neighbours). All set operations are proved exact on the
  sets of lines, and the normal form unique, so the order of insertions does not matter.
\<close>

record LineRange =
  lr_startLineNumber :: number
  lr_endLineNumberExclusive :: number

definition new_LineRange :: "number \<Rightarrow> number \<Rightarrow> LineRange result" where
  "new_LineRange s e =
     (if s > e then Inl BugIndicatingError
      else Inr \<lparr>lr_startLineNumber = s, lr_endLineNumberExclusive = e\<rparr>)"

definition LineRange_fromRange :: "Range \<Rightarrow> LineRange result" where
  "LineRange_fromRange r = new_LineRange (startLineNumber r) (endLineNumber r)"

definition LineRange_subtract :: "LineRange \<Rightarrow> LineRange option \<Rightarrow> LineRange list result" where
  "LineRange_subtract a b_opt =
     (case b_opt of None \<Rightarrow> Inr [a]
      | Some b \<Rightarrow>
          if lr_startLineNumber a < lr_startLineNumber b \<and> lr_endLineNumberExclusive b < lr_endLineNumberExclusive a
          then result_list
            [new_LineRange (lr_startLineNumber a) (lr_startLineNumber b),
             new_LineRange (lr_endLineNumberExclusive b) (lr_endLineNumberExclusive a)]
          else if lr_startLineNumber b \<le> lr_startLineNumber a \<and> lr_endLineNumberExclusive a \<le> lr_endLineNumberExclusive b
          then Inr []
          else if lr_endLineNumberExclusive b < lr_endLineNumberExclusive a
          then result_list
            [new_LineRange (max (lr_endLineNumberExclusive b) (lr_startLineNumber a)) (lr_endLineNumberExclusive a)]
          else result_list
            [new_LineRange (lr_startLineNumber a) (min (lr_startLineNumber b) (lr_endLineNumberExclusive a))])"

definition LineRange_ofLength :: "number \<Rightarrow> number \<Rightarrow> LineRange result" where
  "LineRange_ofLength s len = new_LineRange s (s + len)"

definition LineRange_deserialize :: "number \<times> number \<Rightarrow> LineRange result" where
  "LineRange_deserialize p = new_LineRange (fst p) (snd p)"

definition LineRange_contains :: "LineRange \<Rightarrow> number \<Rightarrow> bool" where
  "LineRange_contains this n \<longleftrightarrow> lr_startLineNumber this \<le> n \<and> n < lr_endLineNumberExclusive this"

definition LineRange_isEmpty :: "LineRange \<Rightarrow> bool" where
  "LineRange_isEmpty this \<longleftrightarrow> lr_startLineNumber this = lr_endLineNumberExclusive this"

definition LineRange_delta :: "LineRange \<Rightarrow> number \<Rightarrow> LineRange result" where
  "LineRange_delta this offset =
     new_LineRange (lr_startLineNumber this + offset) (lr_endLineNumberExclusive this + offset)"

definition LineRange_deltaLength :: "LineRange \<Rightarrow> number \<Rightarrow> LineRange result" where
  "LineRange_deltaLength this offset =
     new_LineRange (lr_startLineNumber this) (lr_endLineNumberExclusive this + offset)"

definition LineRange_length :: "LineRange \<Rightarrow> number" where
  "LineRange_length this = lr_endLineNumberExclusive this - lr_startLineNumber this"

definition LineRange_join :: "LineRange \<Rightarrow> LineRange \<Rightarrow> LineRange result" where
  "LineRange_join this other =
     new_LineRange (min (lr_startLineNumber this) (lr_startLineNumber other))
       (max (lr_endLineNumberExclusive this) (lr_endLineNumberExclusive other))"

definition LineRange_toString :: "LineRange \<Rightarrow> jsstring" where
  "LineRange_toString this =
     js_str ''['' @ js_show_number (lr_startLineNumber this) @ js_str '','' @
     js_show_number (lr_endLineNumberExclusive this) @ js_str '')''"

definition LineRange_intersect :: "LineRange \<Rightarrow> LineRange \<Rightarrow> LineRange option result" where
  "LineRange_intersect this other =
     (let s = max (lr_startLineNumber this) (lr_startLineNumber other);
          e = min (lr_endLineNumberExclusive this) (lr_endLineNumberExclusive other)
      in if s \<le> e then result_map Some (new_LineRange s e) else Inr None)"

definition LineRange_intersectsStrict :: "LineRange \<Rightarrow> LineRange \<Rightarrow> bool" where
  "LineRange_intersectsStrict this other \<longleftrightarrow>
     lr_startLineNumber this < lr_endLineNumberExclusive other \<and>
     lr_startLineNumber other < lr_endLineNumberExclusive this"

definition LineRange_overlapOrTouch :: "LineRange \<Rightarrow> LineRange \<Rightarrow> bool" where
  "LineRange_overlapOrTouch this other \<longleftrightarrow>
     lr_startLineNumber this \<le> lr_endLineNumberExclusive other \<and>
     lr_startLineNumber other \<le> lr_endLineNumberExclusive this"

definition LineRange_equals :: "LineRange \<Rightarrow> LineRange \<Rightarrow> bool" where
  "LineRange_equals this b \<longleftrightarrow>
     lr_startLineNumber this = lr_startLineNumber b \<and>
     lr_endLineNumberExclusive this = lr_endLineNumberExclusive b"

text \<open>\<open>Number.MAX_SAFE_INTEGER\<close> is \<open>2 ^ 53 - 1\<close>.\<close>

definition LineRange_toInclusiveRange :: "LineRange \<Rightarrow> Range option" where
  "LineRange_toInclusiveRange this =
     (if LineRange_isEmpty this then None
      else Some (new_Range (lr_startLineNumber this) 1 (lr_endLineNumberExclusive this - 1) 9007199254740991))"

definition LineRange_toExclusiveRange :: "LineRange \<Rightarrow> Range" where
  "LineRange_toExclusiveRange this = new_Range (lr_startLineNumber this) 1 (lr_endLineNumberExclusive this) 1"

definition LineRange_mapToLineArray :: "LineRange \<Rightarrow> (number \<Rightarrow> 'a) \<Rightarrow> 'a list" where
  "LineRange_mapToLineArray this f = int_loop f (lr_startLineNumber this) (lr_endLineNumberExclusive this) []"

definition LineRange_serialize :: "LineRange \<Rightarrow> number \<times> number" where
  "LineRange_serialize this = (lr_startLineNumber this, lr_endLineNumberExclusive this)"

definition LineRange_includes :: "LineRange \<Rightarrow> number \<Rightarrow> bool" where
  "LineRange_includes this n \<longleftrightarrow> lr_startLineNumber this \<le> n \<and> n < lr_endLineNumberExclusive this"

definition LineRange_toOffsetRange :: "LineRange \<Rightarrow> OffsetRange result" where
  "LineRange_toOffsetRange this =
     new_OffsetRange (lr_startLineNumber this - 1) (lr_endLineNumberExclusive this - 1)"

section \<open>LineRangeSet\<close>

record LineRangeSet =
  normalizedRanges :: "LineRange list"

definition new_LineRangeSet :: "LineRange list \<Rightarrow> LineRangeSet" where
  "new_LineRangeSet rs = \<lparr>normalizedRanges = rs\<rparr>"

definition joinRangeStartIdx :: "LineRange list \<Rightarrow> LineRange \<Rightarrow> nat" where
  "joinRangeStartIdx rs r =
     findFirstIdxMonotonousOrArrLen rs (\<lambda>x. lr_endLineNumberExclusive x \<ge> lr_startLineNumber r)"

definition joinRangeEndIdxExclusive :: "LineRange list \<Rightarrow> LineRange \<Rightarrow> number" where
  "joinRangeEndIdxExclusive rs r =
     findLastIdxMonotonous rs (\<lambda>x. lr_startLineNumber x \<le> lr_endLineNumberExclusive r) + 1"

definition LineRangeSet_addRange :: "LineRange \<Rightarrow> LineRangeSet \<Rightarrow> LineRangeSet result" where
  "LineRangeSet_addRange r this =
     (if LineRange_length r = 0 then Inr this
      else
        (let rs = normalizedRanges this;
             i = joinRangeStartIdx rs r;
             j = joinRangeEndIdxExclusive rs r
         in if int i = j then Inr (this\<lparr>normalizedRanges := arr_splice rs i 0 [r]\<rparr>)
            else if int i = j - 1 then
              result_bind (arr_get rs (int i)) (\<lambda>joinRange.
              result_map (\<lambda>n. this\<lparr>normalizedRanges := rs[i := n]\<rparr>) (LineRange_join joinRange r))
            else
              result_bind (arr_get rs (int i)) (\<lambda>first.
              result_bind (arr_get rs (j - 1)) (\<lambda>final.
              result_bind (LineRange_join first final) (\<lambda>both.
              result_map (\<lambda>n. this\<lparr>normalizedRanges := arr_splice rs i (nat (j - int i)) [n]\<rparr>)
                (LineRange_join both r))))))"

definition LineRangeSet_contains :: "LineRangeSet \<Rightarrow> number \<Rightarrow> bool" where
  "LineRangeSet_contains this n =
     (case findLastMonotonous (normalizedRanges this) (\<lambda>r. lr_startLineNumber r \<le> n) of
        None \<Rightarrow> False
      | Some r \<Rightarrow> lr_endLineNumberExclusive r > n)"

definition LineRangeSet_intersects :: "LineRangeSet \<Rightarrow> LineRange \<Rightarrow> bool" where
  "LineRangeSet_intersects this rng =
     (case findLastMonotonous (normalizedRanges this)
             (\<lambda>r. lr_startLineNumber r < lr_endLineNumberExclusive rng) of
        None \<Rightarrow> False
      | Some r \<Rightarrow> lr_endLineNumberExclusive r > lr_startLineNumber rng)"

text \<open>
  The body of the loop of \<open>getUnion\<close> after \<open>next\<close> is chosen: merge it into
  \<open>current\<close>, or push \<open>current\<close> and go on with it.
\<close>

definition getUnion_next ::
  "LineRange \<Rightarrow> LineRange option \<Rightarrow> LineRange list \<Rightarrow> (LineRange \<times> LineRange list) result" where
  "getUnion_next nextRange current_opt res =
     (case current_opt of None \<Rightarrow> Inr (nextRange, res)
      | Some current \<Rightarrow>
          if lr_endLineNumberExclusive current \<ge> lr_startLineNumber nextRange
          then result_map (\<lambda>c. (c, res))
                 (new_LineRange (lr_startLineNumber current)
                   (max (lr_endLineNumberExclusive current) (lr_endLineNumberExclusive nextRange)))
          else Inr (nextRange, res @ [current]))"

text \<open>The loop itself: the lists are the parts of the two arrays from \<open>i1\<close> and from \<open>i2\<close> on.\<close>

function getUnion_loop ::
  "LineRange list \<Rightarrow> LineRange list \<Rightarrow> LineRange option \<Rightarrow> LineRange list \<Rightarrow> LineRange list result" where
  "getUnion_loop [] [] current res = Inr (case current of None \<Rightarrow> res | Some c \<Rightarrow> res @ [c])"
| "getUnion_loop (x # xs) [] current res =
     result_bind (getUnion_next x current res) (\<lambda>(c, res'). getUnion_loop xs [] (Some c) res')"
| "getUnion_loop [] (y # ys) current res =
     result_bind (getUnion_next y current res) (\<lambda>(c, res'). getUnion_loop [] ys (Some c) res')"
| "getUnion_loop (x # xs) (y # ys) current res =
     (if lr_startLineNumber x < lr_startLineNumber y
      then result_bind (getUnion_next x current res) (\<lambda>(c, res'). getUnion_loop xs (y # ys) (Some c) res')
      else result_bind (getUnion_next y current res) (\<lambda>(c, res'). getUnion_loop (x # xs) ys (Some c) res'))"
  by pat_completeness auto
termination by (relation "measure (\<lambda>(xs, ys, c, r). length xs + length ys)") auto

definition LineRangeSet_getUnion :: "LineRangeSet \<Rightarrow> LineRangeSet \<Rightarrow> LineRangeSet result" where
  "LineRangeSet_getUnion this other =
     (if normalizedRanges this = [] then Inr other
      else if normalizedRanges other = [] then Inr this
      else result_map new_LineRangeSet
        (getUnion_loop (normalizedRanges this) (normalizedRanges other) None []))"

fun subtractFrom_loop ::
  "LineRange list \<Rightarrow> number \<Rightarrow> LineRange list \<Rightarrow> (number \<times> LineRange list) result" where
  "subtractFrom_loop [] s res = Inr (s, res)"
| "subtractFrom_loop (r # rs) s res =
     (if lr_startLineNumber r > s
      then result_bind (new_LineRange s (lr_startLineNumber r))
             (\<lambda>n. subtractFrom_loop rs (lr_endLineNumberExclusive r) (res @ [n]))
      else subtractFrom_loop rs (lr_endLineNumberExclusive r) res)"

definition LineRangeSet_subtractFrom :: "LineRangeSet \<Rightarrow> LineRange \<Rightarrow> LineRangeSet result" where
  "LineRangeSet_subtractFrom this rng =
     (let rs = normalizedRanges this;
          i = joinRangeStartIdx rs rng;
          j = joinRangeEndIdxExclusive rs rng
      in if int i = j then Inr (new_LineRangeSet [rng])
         else
           result_bind
             (subtractFrom_loop (map (\<lambda>k. rs ! k) [i ..< nat j]) (lr_startLineNumber rng) [])
             (\<lambda>(s, res).
               if s < lr_endLineNumberExclusive rng
               then result_map (\<lambda>n. new_LineRangeSet (res @ [n])) (new_LineRange s (lr_endLineNumberExclusive rng))
               else Inr (new_LineRangeSet res)))"

definition LineRangeSet_toString :: "LineRangeSet \<Rightarrow> jsstring" where
  "LineRangeSet_toString this = js_join (js_str '', '') (map LineRange_toString (normalizedRanges this))"

function getIntersection_loop ::
  "LineRange list \<Rightarrow> LineRange list \<Rightarrow> LineRange list \<Rightarrow> LineRange list result" where
  "getIntersection_loop (r1 # xs) (r2 # ys) res =
     result_bind (LineRange_intersect r1 r2) (\<lambda>i.
       (let res' = (case i of None \<Rightarrow> res | Some x \<Rightarrow> if \<not> LineRange_isEmpty x then res @ [x] else res)
        in if lr_endLineNumberExclusive r1 < lr_endLineNumberExclusive r2
           then getIntersection_loop xs (r2 # ys) res'
           else getIntersection_loop (r1 # xs) ys res'))"
| "getIntersection_loop [] ys res = Inr res"
| "getIntersection_loop xs [] res = Inr res"
  by pat_completeness auto
termination by (relation "measure (\<lambda>(xs, ys, r). length xs + length ys)") auto

definition LineRangeSet_getIntersection :: "LineRangeSet \<Rightarrow> LineRangeSet \<Rightarrow> LineRangeSet result" where
  "LineRangeSet_getIntersection this other =
     result_map new_LineRangeSet (getIntersection_loop (normalizedRanges this) (normalizedRanges other) [])"

definition LineRangeSet_getWithDelta :: "LineRangeSet \<Rightarrow> number \<Rightarrow> LineRangeSet result" where
  "LineRangeSet_getWithDelta this v =
     result_map new_LineRangeSet (result_list (map (\<lambda>r. LineRange_delta r v) (normalizedRanges this)))"

text \<open>\<open>LineRange.joinMany\<close>: the union of all the arrays, from the first on.\<close>

definition LineRange_joinMany :: "LineRange list list \<Rightarrow> LineRange list result" where
  "LineRange_joinMany lineRanges =
     (case lineRanges of [] \<Rightarrow> Inr []
      | x # xs \<Rightarrow>
          result_map normalizedRanges
            (result_fold (\<lambda>rs acc. LineRangeSet_getUnion acc (new_LineRangeSet rs)) xs (new_LineRangeSet x)))"

section \<open>Ranges of lines as sets\<close>

abbreviation lstart :: "LineRange \<Rightarrow> number" where "lstart \<equiv> lr_startLineNumber"
abbreviation lend :: "LineRange \<Rightarrow> number" where "lend \<equiv> lr_endLineNumberExclusive"

definition LineRange_wf :: "LineRange \<Rightarrow> bool" where
  "LineRange_wf r \<longleftrightarrow> lstart r \<le> lend r"

definition LineRange_lines :: "LineRange \<Rightarrow> number set" where
  "LineRange_lines r = {n. LineRange_contains r n}"

definition LineRangeSet_wf :: "LineRangeSet \<Rightarrow> bool" where
  "LineRangeSet_wf this \<longleftrightarrow> normalized lstart lend (normalizedRanges this)"

definition LineRangeSet_lines :: "LineRangeSet \<Rightarrow> number set" where
  "LineRangeSet_lines this = (\<Union>r \<in> set (normalizedRanges this). LineRange_lines r)"

lemma LineRange_lines_eq: "LineRange_lines r = {lstart r ..< lend r}"
  by (auto simp: LineRange_lines_def LineRange_contains_def)

lemma LineRangeSet_lines_eq: "LineRangeSet_lines this = covered lstart lend (normalizedRanges this)"
  by (simp add: LineRangeSet_lines_def covered_def LineRange_lines_eq)

lemma new_LineRange_ok [simp]:
  "s \<le> e \<Longrightarrow> new_LineRange s e = Inr \<lparr>lr_startLineNumber = s, lr_endLineNumberExclusive = e\<rparr>"
  by (simp add: new_LineRange_def)

lemma normalizedRanges_new [simp]: "normalizedRanges (new_LineRangeSet rs) = rs"
  by (simp add: new_LineRangeSet_def)

lemma LineRange_join_ok:
  "LineRange_wf a \<Longrightarrow> LineRange_wf b \<Longrightarrow>
     LineRange_join a b =
       Inr \<lparr>lr_startLineNumber = min (lstart a) (lstart b), lr_endLineNumberExclusive = max (lend a) (lend b)\<rparr>"
  by (auto simp: LineRange_join_def LineRange_wf_def new_LineRange_def)

lemma LineRange_intersect_eq:
  "LineRange_intersect a b =
     Inr (if max (lstart a) (lstart b) \<le> min (lend a) (lend b)
          then Some \<lparr>lr_startLineNumber = max (lstart a) (lstart b), lr_endLineNumberExclusive = min (lend a) (lend b)\<rparr>
          else None)"
  by (simp add: LineRange_intersect_def Let_def del: min.bounded_iff max.bounded_iff)

section \<open>Searching the ranges\<close>

lemma separated_sorted_lo: "separated lo hi rs \<Longrightarrow> sorted_wrt (\<lambda>a b. lo a \<le> lo b) rs"
  by (induction rs) (fastforce simp: separated_Cons)+

lemma separated_sorted_hi: "separated lo hi rs \<Longrightarrow> sorted_wrt (\<lambda>a b. hi a \<le> hi b) rs"
  by (induction rs) (fastforce simp: separated_Cons separated_def)+

lemma findLastMonotonous_takeWhile:
  assumes "sorted_wrt R rs" and "\<And>x y. R x y \<Longrightarrow> P y \<Longrightarrow> P x"
  shows "findLastMonotonous rs P = (if takeWhile P rs = [] then None else Some (last (takeWhile P rs)))"
proof -
  let ?m = "length (takeWhile P rs)"
  have "findLastIdxMonotonous rs P = int ?m - 1"
    by (rule true_prefix_findLastIdxMonotonous [OF true_prefix_takeWhile [OF assms]])
  moreover have "last (takeWhile P rs) = rs ! (?m - 1)" if "takeWhile P rs \<noteq> []"
    using that by (simp add: last_conv_nth takeWhile_nth)
  moreover have "?m \<le> length rs" by (rule length_takeWhile_le)
  moreover have "nat (int ?m - 1) = ?m - 1" by arith
  ultimately show ?thesis
    by (auto simp: findLastMonotonous_def arr_at_def Let_def)
qed

lemma joinRange_indices:
  assumes "separated lstart lend rs" "LineRange_wf r"
  defines "B \<equiv> ranges_before lend (lstart r) rs"
    and "T \<equiv> ranges_touching lstart lend (lstart r) (lend r) rs"
  shows "joinRangeStartIdx rs r = length B" "joinRangeEndIdxExclusive rs r = int (length B + length T)"
proof -
  have "true_prefix rs (\<lambda>x. \<not> lstart r \<le> lend x) (length (takeWhile (\<lambda>x. \<not> lstart r \<le> lend x) rs))"
    by (rule true_prefix_takeWhile [OF separated_sorted_hi [OF assms(1)]]) auto
  then show "joinRangeStartIdx rs r = length B"
    unfolding joinRangeStartIdx_def B_def ranges_before_def
    by (simp add: true_prefix_findFirstIdxMonotonousOrArrLen not_le)
  have "true_prefix rs (\<lambda>x. lstart x \<le> lend r) (length (takeWhile (\<lambda>x. lstart x \<le> lend r) rs))"
    by (rule true_prefix_takeWhile [OF separated_sorted_lo [OF assms(1)]]) auto
  moreover have "takeWhile (\<lambda>x. lstart x \<le> lend r) rs = B @ T"
    using ranges_before_touching_takeWhile [OF assms(1), of "lstart r" "lend r"] assms(2)
    by (simp add: B_def T_def LineRange_wf_def)
  ultimately show "joinRangeEndIdxExclusive rs r = int (length B + length T)"
    unfolding joinRangeEndIdxExclusive_def by (simp add: true_prefix_findLastIdxMonotonous)
qed

lemma covered_last_takeWhile:
  assumes "separated lo hi rs"
  shows "n \<in> covered lo hi rs \<longleftrightarrow>
    takeWhile (\<lambda>r. lo r \<le> n) rs \<noteq> [] \<and> n < hi (last (takeWhile (\<lambda>r. lo r \<le> n) rs))"
  using assms
proof (induction rs)
  case (Cons r rs)
  show ?case
  proof (cases "n \<in> {lo r ..< hi r}")
    case True
    then have "takeWhile (\<lambda>r. lo r \<le> n) rs = []"
      using Cons.prems by (cases rs) (auto simp: separated_Cons)
    with True show ?thesis by simp
  next
    case False
    have "takeWhile (\<lambda>r. lo r \<le> n) rs = []" if "n < lo r"
      using that Cons.prems by (cases rs) (auto simp: separated_Cons)
    with False Cons show ?thesis by (auto simp: separated_Cons)
  qed
qed simp

lemma covered_meets_last_takeWhile:
  assumes "normalized lo hi rs" "s < e"
  shows "covered lo hi rs \<inter> {s ..< e} \<noteq> {} \<longleftrightarrow>
    takeWhile (\<lambda>r. lo r < e) rs \<noteq> [] \<and> s < hi (last (takeWhile (\<lambda>r. lo r < e) rs))"
proof
  let ?T = "takeWhile (\<lambda>r. lo r < e) rs"
  assume "covered lo hi rs \<inter> {s ..< e} \<noteq> {}"
  then obtain r n where r: "r \<in> set rs" "lo r \<le> n" "n < hi r" "s \<le> n" "n < e" by (auto simp: covered_def)
  have "\<forall>x \<in> set (dropWhile (\<lambda>r. lo r < e) rs). e \<le> lo x"
    using assms(1) by (induction rs) (auto simp: normalized_Cons)
  then have rT: "r \<in> set ?T" using r by (metis Un_iff leD order.strict_trans1 set_append takeWhile_dropWhile_id)
  moreover have "separated lo hi ?T"
    using assms(1) by (metis normalized_append normalized_separated takeWhile_dropWhile_id)
  ultimately have "hi r \<le> hi (last ?T)" by (rule separated_between_ends(2) [rotated])
  with r rT show "?T \<noteq> [] \<and> s < hi (last ?T)" by auto
next
  let ?T = "takeWhile (\<lambda>r. lo r < e) rs"
  assume T: "?T \<noteq> [] \<and> s < hi (last ?T)"
  then have "last ?T \<in> set rs" "lo (last ?T) < e"
    using last_in_set [of ?T] set_takeWhileD [of "last ?T" "\<lambda>r. lo r < e" rs] by blast+
  then have "max s (lo (last ?T)) \<in> covered lo hi rs \<inter> {s ..< e}"
    using T assms by (force simp: covered_def normalized_def)
  then show "covered lo hi rs \<inter> {s ..< e} \<noteq> {}" by blast
qed

lemma LineRangeSet_contains_iff:
  assumes "LineRangeSet_wf this"
  shows "LineRangeSet_contains this n \<longleftrightarrow> n \<in> LineRangeSet_lines this"
proof -
  have sep: "separated lstart lend (normalizedRanges this)"
    using assms by (simp add: LineRangeSet_wf_def normalized_separated)
  show ?thesis
    using findLastMonotonous_takeWhile [OF separated_sorted_lo [OF sep], of "\<lambda>r. lstart r \<le> n"]
    by (simp add: LineRangeSet_contains_def LineRangeSet_lines_eq covered_last_takeWhile [OF sep])
qed

lemma LineRangeSet_intersects_iff:
  assumes "LineRangeSet_wf this" "lstart r < lend r"
  shows "LineRangeSet_intersects this r \<longleftrightarrow> LineRangeSet_lines this \<inter> LineRange_lines r \<noteq> {}"
proof -
  have nrm: "normalized lstart lend (normalizedRanges this)" using assms(1) by (simp add: LineRangeSet_wf_def)
  then have sep: "separated lstart lend (normalizedRanges this)" by (simp add: normalized_separated)
  show ?thesis
    using findLastMonotonous_takeWhile [OF separated_sorted_lo [OF sep], of "\<lambda>x. lstart x < lend r"]
    by (simp add: LineRangeSet_intersects_def LineRangeSet_lines_eq LineRange_lines_eq
        covered_meets_last_takeWhile [OF nrm assms(2)])
qed

section \<open>Adding a range\<close>

lemma LineRangeSet_addRange_eq:
  fixes this :: LineRangeSet
  assumes wf: "LineRangeSet_wf this" and r: "lstart r < lend r"
  defines "rs \<equiv> normalizedRanges this"
  defines "B \<equiv> ranges_before lend (lstart r) rs"
    and "T \<equiv> ranges_touching lstart lend (lstart r) (lend r) rs"
    and "A \<equiv> ranges_after lstart lend (lstart r) (lend r) rs"
  shows "LineRangeSet_addRange r this =
     Inr (new_LineRangeSet (B @
       (if T = [] then r
        else \<lparr>lr_startLineNumber = min (lstart r) (lstart (hd T)),
              lr_endLineNumberExclusive = max (lend r) (lend (last T))\<rparr>) # A))"
proof -
  have sep: "separated lstart lend rs" using wf by (simp add: rs_def LineRangeSet_wf_def normalized_separated)
  have split: "rs = B @ T @ A" unfolding B_def T_def A_def by (rule ranges_split)
  have this_rs: "this\<lparr>normalizedRanges := x\<rparr> = new_LineRangeSet x" for x by (simp add: new_LineRangeSet_def)
  have wf_all: "x \<in> set rs \<Longrightarrow> LineRange_wf x" for x using sep by (simp add: separated_def LineRange_wf_def)
  have wf_r: "LineRange_wf r" using r by (simp add: LineRange_wf_def)
  note idx = joinRange_indices [OF sep wf_r, folded B_def T_def]
  have len: "LineRange_length r \<noteq> 0" using r by (simp add: LineRange_length_def)
  consider "T = []" | t where "T = [t]" | t t' ts where "T = t # ts @ [t']"
    by (metis append_Nil2 neq_Nil_conv rev_exhaust append_Cons)
  then show ?thesis
  proof cases
    case 1
    moreover have "arr_splice rs (length B) 0 [r] = B @ r # A"
      using 1 arr_splice_split [of B "length B" "[]" 0 A "[r]"] split by simp
    ultimately show ?thesis
      using len by (simp add: LineRangeSet_addRange_def Let_def rs_def [symmetric] idx this_rs)
  next
    case (2 t)
    have "LineRange_wf t" using wf_all split 2 by simp
    moreover have "arr_get rs (int (length B)) = Inr t" using split 2 by simp
    moreover have "rs[length B := x] = B @ x # A" for x using split 2 by simp
    ultimately show ?thesis
      using len 2 wf_r
      by (simp add: LineRangeSet_addRange_def Let_def rs_def [symmetric] idx this_rs LineRange_join_ok
          min.commute max.commute)
  next
    case (3 t t' ts)
    have wfs: "LineRange_wf t" "LineRange_wf t'" using wf_all split 3 by simp_all
    have "int (length B) + int (length T) - 1 = int (length B + length T - 1)" using 3 by simp
    moreover have "rs ! length B = t" "rs ! (length B + length T - 1) = t'"
      "length B < length rs" "length B + length T - 1 < length rs"
      using split 3 by (simp_all add: nth_append)
    ultimately have get: "arr_get rs (int (length B)) = Inr t" "arr_get rs (int (length B) + int (length T) - 1) = Inr t'"
      by (simp_all only: arr_get_nat)
    have "separated lstart lend T" using sep by (simp add: split separated_append)
    then have "lstart t \<le> lstart t'" "lend t \<le> lend t'"
      using separated_between_ends [of lstart lend T t] separated_between_ends [of lstart lend T t'] 3 by auto
    then have join1: "LineRange_join t t' = Inr \<lparr>lr_startLineNumber = lstart t, lr_endLineNumberExclusive = lend t'\<rparr>"
      and join2: "LineRange_join \<lparr>lr_startLineNumber = lstart t, lr_endLineNumberExclusive = lend t'\<rparr> r =
        Inr \<lparr>lr_startLineNumber = min (lstart r) (lstart t), lr_endLineNumberExclusive = max (lend r) (lend t')\<rparr>"
      using wfs wf_r by (auto simp: LineRange_wf_def LineRange_join_def new_LineRange_def min.commute max.commute)
    have "arr_splice rs (length B) (length T) [x] = B @ x # A" for x
      using arr_splice_split [of B "length B" T "length T" A "[x]"] split by simp
    moreover have "T \<noteq> []" "length T \<noteq> Suc 0" "hd T = t" "last T = t'" using 3 by simp_all
    ultimately show ?thesis
      using len by (simp add: LineRangeSet_addRange_def Let_def rs_def [symmetric] idx this_rs get join1 join2)
  qed
qed

lemma LineRangeSet_addRange_correct:
  assumes wf: "LineRangeSet_wf this" and r: "LineRange_wf r"
  shows "\<exists>out. LineRangeSet_addRange r this = Inr out \<and> LineRangeSet_wf out \<and>
           LineRangeSet_lines out = LineRangeSet_lines this \<union> LineRange_lines r"
proof (cases "lstart r < lend r")
  case False
  then have "lstart r = lend r" using r by (simp add: LineRange_wf_def)
  then show ?thesis using wf by (simp add: LineRangeSet_addRange_def LineRange_length_def LineRange_lines_eq)
next
  case True
  define rs T n where "rs = normalizedRanges this"
    and "T = ranges_touching lstart lend (lstart r) (lend r) rs"
    and "n = (if T = [] then r
        else \<lparr>lr_startLineNumber = min (lstart r) (lstart (hd T)),
              lr_endLineNumberExclusive = max (lend r) (lend (last T))\<rparr>)"
  define out where "out = ranges_before lend (lstart r) rs @ n # ranges_after lstart lend (lstart r) (lend r) rs"
  have nrm: "normalized lstart lend rs" using wf by (simp add: rs_def LineRangeSet_wf_def)
  then have sep: "separated lstart lend rs" by (simp add: normalized_separated)
  have add: "LineRangeSet_addRange r this = Inr (new_LineRangeSet out)"
    unfolding out_def n_def T_def rs_def by (rule LineRangeSet_addRange_eq [OF wf True])
  have n: "T = [] \<Longrightarrow> lstart n = lstart r \<and> lend n = lend r"
    "T \<noteq> [] \<Longrightarrow> lstart n = min (lstart r) (lstart (hd T)) \<and> lend n = max (lend r) (lend (last T))"
    by (simp_all add: n_def)
  note ins = separated_insert [OF sep less_imp_le [OF True] n [unfolded T_def], folded out_def]
  have "set out \<subseteq> insert n (set rs)"
    using ranges_split [of rs lend "lstart r" lstart "lend r"] unfolding out_def
    by (metis Un_subset_iff insert_is_Un list.set(2) set_append subset_insertI2 sup_ge1 sup_ge2 insert_mono)
  moreover have "lstart n \<noteq> lend n" using ins(3,4) True by linarith
  ultimately have "\<forall>x \<in> set out. lstart x \<noteq> lend x" using nrm
    unfolding normalized_def by (metis insertE less_irrefl subsetD)
  then have "normalized lstart lend out" using ins(1) by (simp add: normalized_separated)
  then show ?thesis
    using add ins(2) by (simp add: LineRangeSet_wf_def LineRangeSet_lines_eq LineRange_lines_eq rs_def)
qed

lemma LineRangeSet_canonical:
  assumes "LineRangeSet_wf a" "LineRangeSet_wf b" "LineRangeSet_lines a = LineRangeSet_lines b"
  shows "a = b"
proof -
  have "map (\<lambda>r. (lstart r, lend r)) (normalizedRanges a) = map (\<lambda>r. (lstart r, lend r)) (normalizedRanges b)"
    using assms by (intro normalized_unique) (simp_all add: LineRangeSet_wf_def LineRangeSet_lines_eq)
  moreover have "inj (\<lambda>r. (lstart r, lend r))" by (auto intro: injI)
  ultimately have "normalizedRanges a = normalizedRanges b" by (simp add: inj_map_eq_map)
  then show ?thesis by simp
qed

interpretation lrset: canonical_interval_set lr_startLineNumber lr_endLineNumberExclusive normalizedRanges
  LineRangeSet_wf "new_LineRangeSet []" LineRangeSet_addRange
proof (unfold_locales, goal_cases)
  case (3 s r)
  then show ?case
    using LineRangeSet_addRange_correct [of s r]
    by (simp add: LineRange_wf_def LineRangeSet_lines_eq LineRange_lines_eq)
next
  case (4 s t)
  then show ?case using LineRangeSet_canonical by (simp add: LineRangeSet_lines_eq)
qed (simp_all add: LineRangeSet_wf_def)

section \<open>Union, difference and intersection\<close>

text \<open>\<open>current\<close> starts before everything left, so merging or pushing keeps the result in order.\<close>

lemma getUnion_next_step:
  assumes "normalized lstart lend (res @ [c])" "lstart c \<le> lstart x" "lstart x < lend x"
  shows "\<exists>c' res'. getUnion_next x (Some c) res = Inr (c', res') \<and>
     normalized lstart lend (res' @ [c']) \<and> lstart c' \<le> lstart x \<and>
     covered lstart lend (res' @ [c']) = covered lstart lend (res @ [c]) \<union> {lstart x ..< lend x}"
proof (cases "lstart x \<le> lend c")
  case True
  have c: "lstart c < lend c" using assms(1) by (simp add: normalized_append normalized_Cons)
  then have "getUnion_next x (Some c) res =
      Inr (\<lparr>lr_startLineNumber = lstart c, lr_endLineNumberExclusive = max (lend c) (lend x)\<rparr>, res)"
    using True by (simp add: getUnion_next_def le_max_iff_disj)
  moreover have "{lstart c ..< max (lend c) (lend x)} = {lstart c ..< lend c} \<union> {lstart x ..< lend x}"
    using True assms(2) by auto
  ultimately show ?thesis using assms c by (auto simp: normalized_append normalized_Cons)
next
  case False
  then have "getUnion_next x (Some c) res = Inr (x, res @ [c])" by (simp add: getUnion_next_def)
  moreover have "\<forall>r \<in> set res. lend r < lstart x"
    using assms(1,2) by (auto simp: normalized_append)
  ultimately show ?thesis using assms False by (auto simp: normalized_append normalized_Cons)
qed

lemma getUnion_loop_correct:
  assumes "normalized lstart lend xs" "normalized lstart lend ys" "normalized lstart lend (res @ [c])"
    "\<forall>x \<in> set xs \<union> set ys. lstart c \<le> lstart x"
  shows "\<exists>out. getUnion_loop xs ys (Some c) res = Inr out \<and> normalized lstart lend out \<and>
     covered lstart lend out = covered lstart lend (res @ [c]) \<union> covered lstart lend xs \<union> covered lstart lend ys"
  using assms
proof (induction "length xs + length ys" arbitrary: xs ys c res)
  case 0
  then show ?case by simp
next
  case (Suc n)
  have tail: "\<forall>y \<in> set rs. lstart r \<le> lstart y" if "normalized lstart lend (r # rs)" for r :: LineRange and rs
    using that by (auto simp: normalized_Cons)
  have step: "\<exists>out. result_bind (getUnion_next z (Some c) res) (\<lambda>(c', res'). getUnion_loop xs' ys' (Some c') res') = Inr out \<and>
        normalized lstart lend out \<and>
        covered lstart lend out = covered lstart lend (res @ [c]) \<union> {lstart z ..< lend z} \<union> covered lstart lend xs' \<union> covered lstart lend ys'"
    if h: "n = length xs' + length ys'" "normalized lstart lend xs'" "normalized lstart lend ys'"
      "lstart c \<le> lstart z" "lstart z < lend z" "\<forall>x \<in> set xs' \<union> set ys'. lstart z \<le> lstart x" for z xs' ys'
  proof -
    obtain c' res' where n: "getUnion_next z (Some c) res = Inr (c', res')"
      "normalized lstart lend (res' @ [c'])" "lstart c' \<le> lstart z"
      "covered lstart lend (res' @ [c']) = covered lstart lend (res @ [c]) \<union> {lstart z ..< lend z}"
      using getUnion_next_step [OF Suc.prems(3) h(4,5)] by blast
    have "\<forall>x \<in> set xs' \<union> set ys'. lstart c' \<le> lstart x" using n(3) h(6) order_trans by blast
    from Suc.hyps(1) [OF h(1,2,3) n(2) this] n(1,4) show ?thesis by (simp del: covered_simps)
  qed
  show ?case
  proof (cases xs; cases ys)
    fix y ys' assume l: "xs = []" "ys = y # ys'"
    then show ?case
      using Suc.hyps(2) Suc.prems step [of "[]" ys' y] tail [of y ys'] by (simp add: normalized_Cons Un_ac)
  next
    fix x xs' assume l: "xs = x # xs'" "ys = []"
    then show ?case
      using Suc.hyps(2) Suc.prems step [of xs' "[]" x] tail [of x xs'] by (simp add: normalized_Cons Un_ac)
  next
    fix x xs' y ys' assume l: "xs = x # xs'" "ys = y # ys'"
    show ?case
    proof (cases "lstart x < lstart y")
      case True
      then have "\<forall>z \<in> set xs' \<union> set ys. lstart x \<le> lstart z"
        using Suc.prems l tail [of x xs'] tail [of y ys'] by fastforce
      then show ?thesis
        using Suc.hyps(2) Suc.prems step [of xs' ys x] l True by (simp add: normalized_Cons Un_ac)
    next
      case False
      then have "\<forall>z \<in> set xs \<union> set ys'. lstart y \<le> lstart z"
        using Suc.prems l tail [of x xs'] tail [of y ys'] by fastforce
      then show ?thesis
        using Suc.hyps(2) Suc.prems step [of xs ys' y] l False by (simp add: normalized_Cons Un_ac)
    qed
  qed (use Suc.hyps(2) in simp)
qed

lemma getUnion_correct:
  assumes "LineRangeSet_wf a" "LineRangeSet_wf b"
  shows "\<exists>out. LineRangeSet_getUnion a b = Inr out \<and> LineRangeSet_wf out \<and>
           LineRangeSet_lines out = LineRangeSet_lines a \<union> LineRangeSet_lines b"
proof (cases "normalizedRanges a = [] \<or> normalizedRanges b = []")
  case True
  then show ?thesis using assms by (auto simp: LineRangeSet_getUnion_def LineRangeSet_lines_eq)
next
  case False
  then obtain x xs y ys where xy: "normalizedRanges a = x # xs" "normalizedRanges b = y # ys"
    by (auto simp: neq_Nil_conv)
  have nrm: "normalized lstart lend (x # xs)" "normalized lstart lend (y # ys)"
    using assms xy by (simp_all add: LineRangeSet_wf_def)
  have lo: "\<forall>z \<in> set xs. lstart x \<le> lstart z" "\<forall>z \<in> set ys. lstart y \<le> lstart z"
    using nrm by (auto simp: normalized_Cons)
  have "\<exists>out. getUnion_loop (x # xs) (y # ys) None [] = Inr out \<and> normalized lstart lend out \<and>
      covered lstart lend out = covered lstart lend (x # xs) \<union> covered lstart lend (y # ys)"
  proof (cases "lstart x < lstart y")
    case True
    then have "\<forall>z \<in> set xs \<union> set (y # ys). lstart x \<le> lstart z" using lo by fastforce
    then show ?thesis
      using getUnion_loop_correct [of xs "y # ys" "[]" x] nrm True
      by (simp add: getUnion_next_def normalized_Cons Un_ac)
  next
    case False
    then have "\<forall>z \<in> set (x # xs) \<union> set ys. lstart y \<le> lstart z" using lo by fastforce
    then show ?thesis
      using getUnion_loop_correct [of "x # xs" ys "[]" y] nrm False
      by (simp add: getUnion_next_def normalized_Cons Un_ac)
  qed
  then show ?thesis
    using xy by (auto simp: LineRangeSet_getUnion_def LineRangeSet_wf_def LineRangeSet_lines_eq simp del: covered_simps)
qed

definition subtract_out :: "number \<Rightarrow> number \<times> LineRange list \<Rightarrow> LineRange list" where
  "subtract_out e p = snd p @
     (if fst p < e then [\<lparr>lr_startLineNumber = fst p, lr_endLineNumberExclusive = e\<rparr>] else [])"

lemma subtractFrom_loop_correct:
  assumes "normalized lstart lend T" "\<forall>r \<in> set T. lstart r \<le> e \<and> s \<le> lend r"
  shows "\<exists>c ns. (\<forall>res. subtractFrom_loop T s res = Inr (c, res @ ns)) \<and>
     normalized lstart lend (subtract_out e (c, ns)) \<and> (\<forall>r \<in> set (subtract_out e (c, ns)). s \<le> lstart r) \<and>
     covered lstart lend (subtract_out e (c, ns)) = {s ..< e} - covered lstart lend T"
  using assms
proof (induction T arbitrary: s)
  case Nil
  then show ?case by (auto simp: subtract_out_def normalized_Cons)
next
  case (Cons r T)
  have r: "lstart r < lend r" "lstart r \<le> e" "s \<le> lend r" and T: "\<forall>t \<in> set T. lend r < lstart t"
    "normalized lstart lend T" using Cons.prems by (auto simp: normalized_Cons)
  have T': "\<forall>t \<in> set T. lstart t \<le> e \<and> lend r \<le> lend t" using Cons.prems T by (fastforce simp: normalized_def)
  have above: "covered lstart lend T \<subseteq> {lend r ..}" using T by (fastforce simp: covered_def)
  obtain c ns where IH: "\<And>res. subtractFrom_loop T (lend r) res = Inr (c, res @ ns)"
    "normalized lstart lend (subtract_out e (c, ns))" "\<forall>t \<in> set (subtract_out e (c, ns)). lend r \<le> lstart t"
    "covered lstart lend (subtract_out e (c, ns)) = {lend r ..< e} - covered lstart lend T"
    using Cons.IH [OF T(2) T'] by blast
  show ?case
  proof (cases "s < lstart r")
    case True
    define n where "n = \<lparr>lr_startLineNumber = s, lr_endLineNumberExclusive = lstart r\<rparr>"
    have "\<forall>res. subtractFrom_loop (r # T) s res = Inr (c, res @ n # ns)" using True IH(1) by (simp add: n_def)
    moreover have "subtract_out e (c, n # ns) = n # subtract_out e (c, ns)" by (simp add: subtract_out_def)
    moreover have "normalized lstart lend (n # subtract_out e (c, ns))"
      using IH(2,3) True r by (fastforce simp: normalized_Cons n_def)
    moreover have "{s ..< lstart r} \<union> ({lend r ..< e} - covered lstart lend T) =
        {s ..< e} - ({lstart r ..< lend r} \<union> covered lstart lend T)"
      using True r above by fastforce
    ultimately show ?thesis using IH(3,4) r by (fastforce simp: n_def)
  next
    case False
    have "{lend r ..< e} - covered lstart lend T = {s ..< e} - ({lstart r ..< lend r} \<union> covered lstart lend T)"
      using False r above by fastforce
    then show ?thesis using False IH r by fastforce
  qed
qed

lemma nths_between:
  "map (\<lambda>k. (xs @ ys @ zs) ! k) [length xs ..< length xs + length ys] = ys"
  by (rule nth_equalityI) (simp_all add: nth_append)

lemma subtractFrom_correct:
  assumes "LineRangeSet_wf this" "LineRange_wf r"
  shows "\<exists>out. LineRangeSet_subtractFrom this r = Inr out \<and>
     LineRangeSet_lines out = LineRange_lines r - LineRangeSet_lines this \<and>
     (\<not> LineRange_isEmpty r \<longrightarrow> LineRangeSet_wf out)"
proof -
  define rs B T A where "rs = normalizedRanges this" and "B = ranges_before lend (lstart r) rs"
    and "T = ranges_touching lstart lend (lstart r) (lend r) rs"
    and "A = ranges_after lstart lend (lstart r) (lend r) rs"
  note defs = this
  have nrm: "normalized lstart lend rs" using assms(1) by (simp add: rs_def LineRangeSet_wf_def)
  then have sep: "separated lstart lend rs" by (simp add: normalized_separated)
  have split: "rs = B @ T @ A" unfolding defs by (rule ranges_split)
  note idx = joinRange_indices [OF sep assms(2), folded B_def T_def]
  have "\<forall>x \<in> set B. lend x < lstart r" unfolding B_def by (simp add: ranges_before_less)
  moreover have "\<forall>x \<in> set A. lend r < lstart x" unfolding A_def using ranges_after_greater [OF sep] by blast
  ultimately have diff: "LineRange_lines r - LineRangeSet_lines this = {lstart r ..< lend r} - covered lstart lend T"
    unfolding LineRangeSet_lines_eq rs_def [symmetric] split
    by (fastforce simp: covered_def LineRange_lines_eq)
  show ?thesis
  proof (cases "T = []")
    case True
    then have "LineRangeSet_subtractFrom this r = Inr (new_LineRangeSet [r])"
      by (simp add: LineRangeSet_subtractFrom_def Let_def rs_def [symmetric] idx)
    then show ?thesis
      using True diff assms(2)
      by (auto simp: LineRangeSet_lines_eq LineRangeSet_wf_def normalized_Cons LineRange_wf_def LineRange_isEmpty_def)
  next
    case False
    have "normalized lstart lend T" using nrm by (simp add: split normalized_append)
    moreover have "\<forall>t \<in> set T. lstart t \<le> lend r \<and> lstart r \<le> lend t"
      unfolding T_def using ranges_touching_between [OF sep] by blast
    ultimately obtain c ns where loop: "subtractFrom_loop T (lstart r) [] = Inr (c, ns)"
      "normalized lstart lend (subtract_out (lend r) (c, ns))"
      "covered lstart lend (subtract_out (lend r) (c, ns)) = {lstart r ..< lend r} - covered lstart lend T"
      using subtractFrom_loop_correct [of T "lend r" "lstart r"] by fastforce
    have "map (\<lambda>k. rs ! k) [length B ..< length B + length T] = T"
      using nths_between [of B T A] by (simp add: split)
    then have "LineRangeSet_subtractFrom this r = Inr (new_LineRangeSet (subtract_out (lend r) (c, ns)))"
      using False loop(1)
      by (simp add: LineRangeSet_subtractFrom_def Let_def rs_def [symmetric] idx nat_add_distrib subtract_out_def)
    then show ?thesis using loop(2,3) diff by (simp add: LineRangeSet_wf_def LineRangeSet_lines_eq)
  qed
qed

lemma covered_tail_above: "normalized lo hi (r # rs) \<Longrightarrow> z \<in> covered lo hi rs \<Longrightarrow> hi r < z"
  by (fastforce simp: covered_def normalized_Cons)

lemma normalized_gap_append:
  assumes "normalized lo hi pre" "normalized lo hi ns" "\<forall>p \<in> set pre. hi p \<le> b" "\<forall>z \<in> covered lo hi ns. b < z"
  shows "normalized lo hi (pre @ ns)"
proof -
  have "b < lo n" if "n \<in> set ns" for n
  proof -
    have "lo n < hi n" using that assms(2) by (simp add: normalized_def)
    then have "lo n \<in> covered lo hi ns" using that by (force simp: covered_def)
    with assms(4) show ?thesis by blast
  qed
  then show ?thesis using assms(1-3) by (fastforce simp: normalized_append)
qed

lemma getIntersection_loop_correct:
  assumes "normalized lstart lend xs" "normalized lstart lend ys"
  shows "\<exists>ns. getIntersection_loop xs ys res = Inr (res @ ns) \<and> normalized lstart lend ns \<and>
     covered lstart lend ns = covered lstart lend xs \<inter> covered lstart lend ys"
  using assms
proof (induction "length xs + length ys" arbitrary: xs ys res)
  case (Suc n)
  show ?case
  proof (cases "xs = [] \<or> ys = []")
    case True
    then show ?thesis by (cases xs) auto
  next
    case False
    then obtain x xs' y ys' where xy: "xs = x # xs'" "ys = y # ys'" by (auto simp: neq_Nil_conv)
    define m where "m = \<lparr>lr_startLineNumber = max (lstart x) (lstart y), lr_endLineNumberExclusive = min (lend x) (lend y)\<rparr>"
    define pre where "pre = (if max (lstart x) (lstart y) < min (lend x) (lend y) then [m] else [])"
    have pre: "normalized lstart lend pre" "covered lstart lend pre = {lstart x ..< lend x} \<inter> {lstart y ..< lend y}"
      by (auto simp: pre_def m_def normalized_Cons)
    have end_pre: "\<forall>p \<in> set pre. lend p \<le> min (lend x) (lend y)" by (simp add: pre_def m_def)
    have turn: "getIntersection_loop xs ys res =
        (if lend x < lend y then getIntersection_loop xs' ys (res @ pre) else getIntersection_loop xs ys' (res @ pre))"
      unfolding xy getIntersection_loop.simps LineRange_intersect_eq result_bind.simps Let_def
      by (simp add: LineRange_isEmpty_def pre_def m_def less_le del: min.bounded_iff max.bounded_iff
          min_less_iff_conj max_less_iff_conj split: if_splits)
    have nrm: "normalized lstart lend xs'" "normalized lstart lend ys'"
      using Suc.prems xy by (simp_all add: normalized_Cons)
    note above = covered_tail_above [OF Suc.prems(1) [unfolded xy]] covered_tail_above [OF Suc.prems(2) [unfolded xy]]
    show ?thesis
    proof (cases "lend x < lend y")
      case True
      obtain ns where ns: "getIntersection_loop xs' ys (res @ pre) = Inr ((res @ pre) @ ns)"
          "normalized lstart lend ns" "covered lstart lend ns = covered lstart lend xs' \<inter> covered lstart lend ys"
        using Suc.hyps(1) [of xs' ys "res @ pre"] Suc.hyps(2) Suc.prems nrm xy by auto
      have "normalized lstart lend (pre @ ns)"
        using end_pre above(1) ns(3) True by (intro normalized_gap_append [OF pre(1) ns(2), of "lend x"]) auto
      moreover have "{lstart x ..< lend x} \<inter> covered lstart lend ys' = {}" using above(2) True by fastforce
      ultimately show ?thesis using turn ns True pre(2) xy by auto
    next
      case False
      obtain ns where ns: "getIntersection_loop xs ys' (res @ pre) = Inr ((res @ pre) @ ns)"
          "normalized lstart lend ns" "covered lstart lend ns = covered lstart lend xs \<inter> covered lstart lend ys'"
        using Suc.hyps(1) [of xs ys' "res @ pre"] Suc.hyps(2) Suc.prems nrm xy by auto
      have "normalized lstart lend (pre @ ns)"
        using end_pre above(2) ns(3) False by (intro normalized_gap_append [OF pre(1) ns(2), of "lend y"]) auto
      moreover have "covered lstart lend xs' \<inter> {lstart y ..< lend y} = {}" using above(1) False by fastforce
      ultimately show ?thesis using turn ns False pre(2) xy by auto
    qed
  qed
qed auto

lemma getIntersection_correct:
  assumes "LineRangeSet_wf a" "LineRangeSet_wf b"
  shows "\<exists>out. LineRangeSet_getIntersection a b = Inr out \<and> LineRangeSet_wf out \<and>
           LineRangeSet_lines out = LineRangeSet_lines a \<inter> LineRangeSet_lines b"
  using getIntersection_loop_correct [of "normalizedRanges a" "normalizedRanges b" "[]"] assms
  by (auto simp: LineRangeSet_getIntersection_def LineRangeSet_wf_def LineRangeSet_lines_eq)

lemma getWithDelta_correct:
  assumes "LineRangeSet_wf this"
  shows "\<exists>out. LineRangeSet_getWithDelta this v = Inr out \<and> LineRangeSet_wf out \<and>
           LineRangeSet_lines out = (\<lambda>n. n + v) ` LineRangeSet_lines this"
proof -
  define g where "g = (\<lambda>r. \<lparr>lr_startLineNumber = lstart r + v, lr_endLineNumberExclusive = lend r + v\<rparr>)"
  have nrm: "normalized lstart lend (normalizedRanges this)" using assms by (simp add: LineRangeSet_wf_def)
  have "result_list (map (\<lambda>r. LineRange_delta r v) (normalizedRanges this)) = Inr (map g (normalizedRanges this))"
    using nrm by (intro result_list_map_Inr) (auto simp: g_def LineRange_delta_def normalized_def)
  moreover have "normalized lstart lend (map g (normalizedRanges this))"
    using nrm by (simp add: normalized_def sorted_wrt_map g_def)
  moreover have "covered lstart lend (map g rs) = (\<lambda>n. n + v) ` covered lstart lend rs" for rs
    by (induction rs) (simp_all add: g_def image_Un)
  ultimately show ?thesis by (simp add: LineRangeSet_getWithDelta_def LineRangeSet_wf_def LineRangeSet_lines_eq)
qed

lemma joinMany_fold:
  "LineRangeSet_wf acc \<Longrightarrow> \<forall>rs \<in> set xs. normalized lstart lend rs \<Longrightarrow>
   \<exists>out. result_fold (\<lambda>rs acc. LineRangeSet_getUnion acc (new_LineRangeSet rs)) xs acc = Inr out \<and>
     LineRangeSet_wf out \<and>
     LineRangeSet_lines out = LineRangeSet_lines acc \<union> (\<Union>rs \<in> set xs. covered lstart lend rs)"
proof (induction xs arbitrary: acc)
  case (Cons rs xs)
  then have "LineRangeSet_wf (new_LineRangeSet rs)" by (simp add: LineRangeSet_wf_def)
  then obtain u where "LineRangeSet_getUnion acc (new_LineRangeSet rs) = Inr u" "LineRangeSet_wf u"
      "LineRangeSet_lines u = LineRangeSet_lines acc \<union> covered lstart lend rs"
    using getUnion_correct [OF Cons.prems(1)] by (metis LineRangeSet_lines_eq normalizedRanges_new)
  with Cons.IH [of u] Cons.prems(2) show ?case by (auto simp: Un_assoc)
qed simp

section \<open>Properties\<close>

text \<open>
  C4. \<open>LineRangeSet\<close> is a set of lines: on sets and ranges in normal form no operation
  throws; \<open>contains\<close> and \<open>intersects\<close> (for a non-empty range) decide membership and overlap;
  \<open>addRange\<close>, \<open>getUnion\<close>, \<open>getIntersection\<close>, \<open>subtractFrom\<close> and \<open>getWithDelta\<close> return exactly
  the union, the intersection, the difference and the shifted set, again in normal form
  (\<open>subtractFrom\<close> when the range it subtracts from is not empty).
\<close>

theorem LineRangeSet_operations_exact:
  assumes "LineRangeSet_wf a" "LineRangeSet_wf b" "LineRange_wf r"
  shows "(LineRangeSet_contains a n \<longleftrightarrow> n \<in> LineRangeSet_lines a) \<and>
         (LineRange_isEmpty r \<or>
            (LineRangeSet_intersects a r \<longleftrightarrow> LineRangeSet_lines a \<inter> LineRange_lines r \<noteq> {})) \<and>
         (\<exists>out. LineRangeSet_addRange r a = Inr out \<and> LineRangeSet_wf out \<and>
            LineRangeSet_lines out = LineRangeSet_lines a \<union> LineRange_lines r) \<and>
         (\<exists>out. LineRangeSet_getUnion a b = Inr out \<and> LineRangeSet_wf out \<and>
            LineRangeSet_lines out = LineRangeSet_lines a \<union> LineRangeSet_lines b) \<and>
         (\<exists>out. LineRangeSet_getIntersection a b = Inr out \<and> LineRangeSet_wf out \<and>
            LineRangeSet_lines out = LineRangeSet_lines a \<inter> LineRangeSet_lines b) \<and>
         (\<exists>out. LineRangeSet_subtractFrom a r = Inr out \<and>
            LineRangeSet_lines out = LineRange_lines r - LineRangeSet_lines a \<and>
            (\<not> LineRange_isEmpty r \<longrightarrow> LineRangeSet_wf out)) \<and>
         (\<exists>out. LineRangeSet_getWithDelta a v = Inr out \<and> LineRangeSet_wf out \<and>
            LineRangeSet_lines out = (\<lambda>n. n + v) ` LineRangeSet_lines a)"
proof (intro conjI)
  show "LineRange_isEmpty r \<or> (LineRangeSet_intersects a r \<longleftrightarrow> LineRangeSet_lines a \<inter> LineRange_lines r \<noteq> {})"
    using LineRangeSet_intersects_iff [OF assms(1), of r] assms(3)
    by (cases "lstart r < lend r") (auto simp: LineRange_isEmpty_def LineRange_wf_def)
qed (rule LineRangeSet_contains_iff LineRangeSet_addRange_correct getUnion_correct getIntersection_correct
    subtractFrom_correct getWithDelta_correct; rule assms)+

theorem LineRangeSet_operations_exact_witness:
  "\<exists>out. LineRangeSet_subtractFrom (new_LineRangeSet [\<lparr>lr_startLineNumber = 3, lr_endLineNumberExclusive = 5\<rparr>])
       \<lparr>lr_startLineNumber = 1, lr_endLineNumberExclusive = 9\<rparr> = Inr out \<and>
     LineRangeSet_lines out = {1 ..< 9} - {3 ..< 5} \<and> LineRangeSet_wf out"
proof -
  let ?s = "new_LineRangeSet [\<lparr>lr_startLineNumber = 3, lr_endLineNumberExclusive = 5\<rparr>]"
  let ?r = "\<lparr>lr_startLineNumber = 1, lr_endLineNumberExclusive = 9\<rparr>"
  have wf: "LineRangeSet_wf ?s" "LineRange_wf ?r" "\<not> LineRange_isEmpty ?r"
    "LineRangeSet_lines ?s = {3 ..< 5}" "LineRange_lines ?r = {1 ..< 9}"
    by (simp_all add: LineRangeSet_wf_def normalized_Cons LineRange_wf_def LineRange_isEmpty_def
        LineRangeSet_lines_eq LineRange_lines_eq)
  show ?thesis using LineRangeSet_operations_exact [OF wf(1) wf(1) wf(2)] wf(3-5) by simp
qed

text \<open>
  The representation is canonical. Two sets in normal form with the same lines are
  equal, so adding ranges gives the same set in whatever order, and however often, they are
  added, and \<open>addRange\<close> agrees with the union with the one-range set.
\<close>

theorem LineRangeSet_insertion_order_irrelevant:
  assumes "LineRangeSet_wf s" "list_all LineRange_wf rs" "set rs = set rs'"
    and "lr_startLineNumber r < lr_endLineNumberExclusive r"
  shows "(\<exists>out. result_fold LineRangeSet_addRange rs s = Inr out \<and> LineRangeSet_wf out) \<and>
         result_fold LineRangeSet_addRange rs s = result_fold LineRangeSet_addRange rs' s \<and>
         LineRangeSet_addRange r s = LineRangeSet_getUnion s (new_LineRangeSet [r])"
proof (intro conjI)
  have rs: "\<forall>r \<in> set rs. lstart r \<le> lend r" using assms(2) by (auto simp: list_all_iff LineRange_wf_def)
  show "\<exists>out. result_fold LineRangeSet_addRange rs s = Inr out \<and> LineRangeSet_wf out"
    using lrset.add_all [OF assms(1) rs] by blast
  show "result_fold LineRangeSet_addRange rs s = result_fold LineRangeSet_addRange rs' s"
    by (rule lrset.add_all_order [OF rs assms(3,1)])
  have wf: "LineRange_wf r" "LineRangeSet_wf (new_LineRangeSet [r])"
    using assms(4) by (simp_all add: LineRange_wf_def LineRangeSet_wf_def normalized_Cons)
  have "LineRangeSet_lines (new_LineRangeSet [r]) = LineRange_lines r"
    by (simp add: LineRangeSet_lines_def)
  then show "LineRangeSet_addRange r s = LineRangeSet_getUnion s (new_LineRangeSet [r])"
    using LineRangeSet_addRange_correct [OF assms(1) wf(1)] getUnion_correct [OF assms(1) wf(2)]
      LineRangeSet_canonical by fastforce
qed

theorem LineRangeSet_insertion_order_irrelevant_witness:
  "result_fold LineRangeSet_addRange
     [\<lparr>lr_startLineNumber = 1, lr_endLineNumberExclusive = 4\<rparr>, \<lparr>lr_startLineNumber = 3, lr_endLineNumberExclusive = 7\<rparr>]
     (new_LineRangeSet []) =
   result_fold LineRangeSet_addRange
     [\<lparr>lr_startLineNumber = 3, lr_endLineNumberExclusive = 7\<rparr>, \<lparr>lr_startLineNumber = 1, lr_endLineNumberExclusive = 4\<rparr>]
     (new_LineRangeSet [])"
  using LineRangeSet_insertion_order_irrelevant
    [of "new_LineRangeSet []"
      "[\<lparr>lr_startLineNumber = 1, lr_endLineNumberExclusive = 4\<rparr>, \<lparr>lr_startLineNumber = 3, lr_endLineNumberExclusive = 7\<rparr>]"
      "[\<lparr>lr_startLineNumber = 3, lr_endLineNumberExclusive = 7\<rparr>, \<lparr>lr_startLineNumber = 1, lr_endLineNumberExclusive = 4\<rparr>]"
      "\<lparr>lr_startLineNumber = 1, lr_endLineNumberExclusive = 4\<rparr>"]
  by (auto simp: LineRangeSet_wf_def LineRange_wf_def)

text \<open>
  \<open>LineRange.subtract\<close> never throws and returns ranges that cover exactly the lines of
  the first range outside the second; \<open>joinMany\<close> returns, in normal form, exactly the lines
  of all the arrays; \<open>deserialize\<close> undoes \<open>serialize\<close>.
\<close>

theorem LineRange_subtract_and_joinMany:
  assumes "LineRange_wf a" "LineRange_wf b" "\<forall>rs \<in> set rss. normalized lr_startLineNumber lr_endLineNumberExclusive rs"
  shows "(\<exists>out. LineRange_subtract a (Some b) = Inr out \<and>
            (\<Union>r \<in> set out. LineRange_lines r) = LineRange_lines a - LineRange_lines b) \<and>
         (\<exists>out. LineRange_joinMany rss = Inr out \<and>
            normalized lr_startLineNumber lr_endLineNumberExclusive out \<and>
            (\<Union>r \<in> set out. LineRange_lines r) = (\<Union>rs \<in> set rss. \<Union>r \<in> set rs. LineRange_lines r)) \<and>
         LineRange_deserialize (LineRange_serialize a) = Inr a"
proof (intro conjI)
  show "\<exists>out. LineRange_subtract a (Some b) = Inr out \<and>
      (\<Union>r \<in> set out. LineRange_lines r) = LineRange_lines a - LineRange_lines b"
    using assms(1,2)
    by (auto simp: LineRange_subtract_def LineRange_wf_def LineRange_lines_eq new_LineRange_def
        min_def max_def split: if_splits)
  show "\<exists>out. LineRange_joinMany rss = Inr out \<and> normalized lstart lend out \<and>
      (\<Union>r \<in> set out. LineRange_lines r) = (\<Union>rs \<in> set rss. \<Union>r \<in> set rs. LineRange_lines r)"
  proof (cases rss)
    case Nil
    then show ?thesis by (simp add: LineRange_joinMany_def)
  next
    case (Cons x xs)
    then obtain out where "result_fold (\<lambda>rs acc. LineRangeSet_getUnion acc (new_LineRangeSet rs)) xs
          (new_LineRangeSet x) = Inr out" "LineRangeSet_wf out"
        "LineRangeSet_lines out = LineRangeSet_lines (new_LineRangeSet x) \<union> (\<Union>rs \<in> set xs. covered lstart lend rs)"
      using joinMany_fold [of "new_LineRangeSet x" xs] assms(3) by (auto simp: LineRangeSet_wf_def)
    then show ?thesis
      using Cons by (simp add: LineRange_joinMany_def LineRangeSet_wf_def LineRangeSet_lines_def covered_def LineRange_lines_eq)
  qed
  show "LineRange_deserialize (LineRange_serialize a) = Inr a"
    using assms(1) by (simp add: LineRange_deserialize_def LineRange_serialize_def LineRange_wf_def)
qed

theorem LineRange_subtract_and_joinMany_witness:
  "\<exists>out. LineRange_subtract \<lparr>lr_startLineNumber = 1, lr_endLineNumberExclusive = 9\<rparr>
       (Some \<lparr>lr_startLineNumber = 3, lr_endLineNumberExclusive = 5\<rparr>) = Inr out \<and>
     (\<Union>r \<in> set out. LineRange_lines r) = {1 ..< 9} - {3 ..< 5}"
  using LineRange_subtract_and_joinMany [of "\<lparr>lr_startLineNumber = 1, lr_endLineNumberExclusive = 9\<rparr>"
      "\<lparr>lr_startLineNumber = 3, lr_endLineNumberExclusive = 5\<rparr>" "[]"]
  by (simp add: LineRange_wf_def LineRange_lines_eq)

end
