(* ===== verification/Text_Lines.thy ===== *)
theory Text_Lines
  imports Prelude
begin

unbundle bit_operations_syntax

text \<open>
  Lines of a text: \<open>splitLines\<close> of \<open>src/vs/base/common/strings.ts\<close>, the one-pass
  \<open>countEOL\<close> of \<open>src/vs/editor/common/core/eolCounter.ts\<close>, proved to agree with it,
  and the algebra of documents as non-empty lists of lines, in which an edit is stated.
\<close>

abbreviation CarriageReturn :: "16 word" where "CarriageReturn \<equiv> 13"
abbreviation LineFeed :: "16 word" where "LineFeed \<equiv> 10"

text \<open>\<open>str.split(/\r\n|\r|\n/)\<close>: the separators are found from left to right, the pair first.\<close>

fun splitLines :: "jsstring \<Rightarrow> jsstring list" where
  "splitLines [] = [[]]"
| "splitLines (c # cs) =
     (if c = CarriageReturn
      then (case cs of [] \<Rightarrow> [] # splitLines cs
            | d # ds \<Rightarrow> if d = LineFeed then [] # splitLines ds else [] # splitLines cs)
      else if c = LineFeed then [] # splitLines cs
      else (case splitLines cs of [] \<Rightarrow> [[c]] | l # ls \<Rightarrow> (c # l) # ls))"

text \<open>
  The loop of \<open>countEOL\<close>: \<open>i\<close> is the index of the first code unit of the rest. The codes of
  \<open>StringEOL\<close> are Unknown 0, LF 1, CRLF 2, Invalid 3, collected by a bitwise or.
\<close>

fun countEOL_loop :: "jsstring \<Rightarrow> number \<Rightarrow> number \<Rightarrow> number \<Rightarrow> number \<Rightarrow> number \<Rightarrow> number \<times> number \<times> number \<times> number" where
  "countEOL_loop [] i eolCount firstLineLength lastLineStart eol =
     (eolCount, firstLineLength, lastLineStart, eol)"
| "countEOL_loop (chr # rest) i eolCount firstLineLength lastLineStart eol =
     (if chr = CarriageReturn
      then
        (let firstLineLength' = (if eolCount = 0 then i else firstLineLength)
         in case rest of
              d # rest' \<Rightarrow>
                if d = LineFeed
                then countEOL_loop rest' (i + 2) (eolCount + 1) firstLineLength' (i + 2) (eol OR 2)
                else countEOL_loop rest (i + 1) (eolCount + 1) firstLineLength' (i + 1) (eol OR 3)
            | [] \<Rightarrow> countEOL_loop rest (i + 1) (eolCount + 1) firstLineLength' (i + 1) (eol OR 3))
      else if chr = LineFeed
      then countEOL_loop rest (i + 1) (eolCount + 1) (if eolCount = 0 then i else firstLineLength) (i + 1) (eol OR 1)
      else countEOL_loop rest (i + 1) eolCount firstLineLength lastLineStart eol)"

definition countEOL :: "jsstring \<Rightarrow> number \<times> number \<times> number \<times> number" where
  "countEOL s =
     (case countEOL_loop s 0 0 0 0 0 of (eolCount, firstLineLength, lastLineStart, eol) \<Rightarrow>
        (eolCount, if eolCount = 0 then int (length s) else firstLineLength, int (length s) - lastLineStart, eol))"

section \<open>countEOL describes the lines\<close>

text \<open>The code of every line break of a text, in order.\<close>

fun line_breaks :: "jsstring \<Rightarrow> number list" where
  "line_breaks [] = []"
| "line_breaks (c # cs) =
     (if c = CarriageReturn
      then (case cs of [] \<Rightarrow> 3 # line_breaks cs | d # ds \<Rightarrow> if d = LineFeed then 2 # line_breaks ds else 3 # line_breaks cs)
      else if c = LineFeed then 1 # line_breaks cs
      else line_breaks cs)"

declare splitLines.simps(2) [simp del] line_breaks.simps(2) [simp del] countEOL_loop.simps(2) [simp del]

text \<open>The four kinds of first code unit, as an induction rule.\<close>

lemma text_induct [case_names Nil CRLF CR LF Other]:
  assumes "P []" and "\<And>ds. P ds \<Longrightarrow> P (CarriageReturn # LineFeed # ds)"
    and "\<And>cs. P cs \<Longrightarrow> cs = [] \<or> hd cs \<noteq> LineFeed \<Longrightarrow> P (CarriageReturn # cs)"
    and "\<And>cs. P cs \<Longrightarrow> P (LineFeed # cs)"
    and "\<And>c cs. P cs \<Longrightarrow> c \<noteq> CarriageReturn \<Longrightarrow> c \<noteq> LineFeed \<Longrightarrow> P (c # cs)"
  shows "P s"
proof (induction s rule: length_induct)
  case (1 s)
  show ?case
  proof (cases s)
    case (Cons c cs)
    have cs: "P cs" using 1 Cons by simp
    consider ds where "c = CarriageReturn" "cs = LineFeed # ds" | "c = CarriageReturn" "cs = [] \<or> hd cs \<noteq> LineFeed"
      | "c = LineFeed" | "c \<noteq> CarriageReturn" "c \<noteq> LineFeed"
      by (cases cs) auto
    then show ?thesis using assms(2-5) cs 1 Cons by cases auto
  qed (simp add: assms(1))
qed

lemma not_LineFeed_case:
  "cs = [] \<or> hd cs \<noteq> LineFeed \<Longrightarrow> (case cs of [] \<Rightarrow> a | d # ds \<Rightarrow> if d = LineFeed then b ds else a) = a"
  by (cases cs) auto

lemma splitLines_kinds:
  "splitLines (CarriageReturn # LineFeed # ds) = [] # splitLines ds"
  "cs = [] \<or> hd cs \<noteq> LineFeed \<Longrightarrow> splitLines (CarriageReturn # cs) = [] # splitLines cs"
  "splitLines (LineFeed # cs) = [] # splitLines cs"
  by (simp_all add: splitLines.simps(2) not_LineFeed_case)

lemma line_breaks_kinds:
  "line_breaks (CarriageReturn # LineFeed # ds) = 2 # line_breaks ds"
  "cs = [] \<or> hd cs \<noteq> LineFeed \<Longrightarrow> line_breaks (CarriageReturn # cs) = 3 # line_breaks cs"
  "line_breaks (LineFeed # cs) = 1 # line_breaks cs"
  "c \<noteq> CarriageReturn \<Longrightarrow> c \<noteq> LineFeed \<Longrightarrow> line_breaks (c # cs) = line_breaks cs"
  by (simp_all add: line_breaks.simps(2) not_LineFeed_case)

lemma countEOL_loop_kinds:
  "countEOL_loop (CarriageReturn # LineFeed # ds) i n f l e =
     countEOL_loop ds (i + 2) (n + 1) (if n = 0 then i else f) (i + 2) (e OR 2)"
  "cs = [] \<or> hd cs \<noteq> LineFeed \<Longrightarrow> countEOL_loop (CarriageReturn # cs) i n f l e =
     countEOL_loop cs (i + 1) (n + 1) (if n = 0 then i else f) (i + 1) (e OR 3)"
  "countEOL_loop (LineFeed # cs) i n f l e =
     countEOL_loop cs (i + 1) (n + 1) (if n = 0 then i else f) (i + 1) (e OR 1)"
  "c \<noteq> CarriageReturn \<Longrightarrow> c \<noteq> LineFeed \<Longrightarrow>
     countEOL_loop (c # cs) i n f l e = countEOL_loop cs (i + 1) n f l e"
  by (simp_all add: countEOL_loop.simps(2) Let_def not_LineFeed_case)

lemma splitLines_nonempty [simp]: "splitLines s \<noteq> []"
  by (induction s rule: text_induct) (auto simp: splitLines_kinds splitLines.simps(2) split: list.splits)

lemma splitLines_cons_other:
  "c \<noteq> CarriageReturn \<Longrightarrow> c \<noteq> LineFeed \<Longrightarrow>
     splitLines (c # cs) = (c # hd (splitLines cs)) # tl (splitLines cs)"
  using splitLines_nonempty [of cs] by (simp add: splitLines.simps(2) split: list.splits)

lemmas text_kinds = splitLines_kinds splitLines_cons_other line_breaks_kinds countEOL_loop_kinds

lemma length_splitLines: "length (splitLines s) = Suc (length (line_breaks s))"
  by (induction s rule: text_induct) (simp_all add: text_kinds)

lemma splitLines_single: "line_breaks s = [] \<Longrightarrow> splitLines s = [s]"
  by (induction s rule: text_induct) (simp_all add: text_kinds)

lemma tl_splitLines_Nil_iff: "tl (splitLines s) = [] \<longleftrightarrow> line_breaks s = []"
  using length_splitLines [of s] by (cases "splitLines s") auto

text \<open>
  What the loop computes from any state: the count grows by the breaks of the rest, the
  first line is cut at the first break ever seen, the last line starts after the last one.
\<close>

lemma countEOL_loop_correct:
  "0 \<le> n \<Longrightarrow> countEOL_loop s i n f l e =
    (n + int (length (line_breaks s)),
     if n = 0 \<and> line_breaks s \<noteq> [] then i + int (length (hd (splitLines s))) else f,
     if line_breaks s = [] then l else i + int (length s) - int (length (last (splitLines s))),
     foldl (OR) e (line_breaks s))"
proof (induction s arbitrary: i n f l e rule: text_induct)
  case (Other c cs)
  have "last (splitLines (c # cs)) = last (splitLines cs)" if "line_breaks cs \<noteq> []"
    using that tl_splitLines_Nil_iff [of cs] Other.hyps by (simp add: splitLines_cons_other last_tl)
  with Other show ?case by (simp add: text_kinds)
qed (auto simp: text_kinds splitLines_single)

text \<open>
  \<open>countEOL\<close> agrees with \<open>splitLines\<close>: it returns the number of line breaks, the length
  of the first and of the last line \<open>splitLines\<close> would produce, and the bitwise or of the
  codes of all the breaks in the text.
\<close>

theorem countEOL_describes_splitLines:
  "countEOL s =
     (int (length (splitLines s)) - 1, int (length (hd (splitLines s))), int (length (last (splitLines s))),
      foldl (OR) 0 (line_breaks s))"
  by (simp add: countEOL_def countEOL_loop_correct length_splitLines splitLines_single)

section \<open>Documents\<close>

text \<open>
  A document is a non-empty list of lines. \<open>doc_append\<close> writes one after the other: the
  first line of the second continues the last line of the first.
\<close>

definition doc_append :: "'a list list \<Rightarrow> 'a list list \<Rightarrow> 'a list list" where
  "doc_append xs ys = butlast xs @ (last xs @ hd ys) # tl ys"

text \<open>The parts of a document before and after a 0-based line and column.\<close>

definition doc_before :: "'a list list \<Rightarrow> nat \<Rightarrow> nat \<Rightarrow> 'a list list" where
  "doc_before xs l c = take l xs @ [take c (xs ! l)]"

definition doc_after :: "'a list list \<Rightarrow> nat \<Rightarrow> nat \<Rightarrow> 'a list list" where
  "doc_after xs l c = drop c (xs ! l) # drop (Suc l) xs"

lemma doc_append_nonempty [simp]: "doc_append xs ys \<noteq> []"
  by (simp add: doc_append_def)

lemma doc_append_assoc:
  "ys \<noteq> [] \<Longrightarrow> doc_append (doc_append xs ys) zs = doc_append xs (doc_append ys zs)"
  by (cases ys rule: list.exhaust; cases "tl ys" rule: rev_cases) (auto simp: doc_append_def butlast_append)

lemma doc_before_after: "l < length xs \<Longrightarrow> doc_append (doc_before xs l c) (doc_after xs l c) = xs"
  by (simp add: doc_append_def doc_before_def doc_after_def id_take_nth_drop [symmetric])

lemma js_join_Cons: "ys \<noteq> [] \<Longrightarrow> js_join sep (x # ys) = x @ sep @ js_join sep ys"
  by (cases ys) auto

text \<open>The text of two documents in sequence is the text of the first followed by that of the second.\<close>

lemma js_join_doc_append:
  "xs \<noteq> [] \<Longrightarrow> ys \<noteq> [] \<Longrightarrow> js_join sep (doc_append xs ys) = js_join sep xs @ js_join sep ys"
proof (induction xs)
  case (Cons x xs)
  show ?case
  proof (cases "xs = []")
    case True
    then show ?thesis using Cons.prems by (cases ys; cases "tl ys") (auto simp: doc_append_def js_join_Cons)
  next
    case False
    then have "doc_append (x # xs) ys = x # doc_append xs ys" by (simp add: doc_append_def)
    then show ?thesis using Cons False by (simp add: js_join_Cons)
  qed
qed simp

end
