(* ===== verification/Prefix_Sum.thy ===== *)
theory Prefix_Sum
  imports Prelude
begin

text \<open>
  \<open>src/vs/editor/common/model/prefixSumComputer.ts\<close> and \<open>src/vs/base/common/uint.ts\<close>:
  two classes that keep a list of values and answer prefix-sum queries.
  \<open>PrefixSumComputer\<close> keeps \<open>Uint32Array\<close>s, here lists of 32-bit words, and a
  lazily extended table of sums; \<open>ConstantTimePrefixSumComputer\<close> also tabulates the
  index of every sum. Both refine the same contract, the locale \<open>prefix_sums\<close>: the
  values are a list, every query is answered from the list, and the tables are only a
  cache.
\<close>

section \<open>uint.ts\<close>

definition toUint8 :: "number \<Rightarrow> number" where
  "toUint8 v = (if v < 0 then 0 else if v > 255 then 255 else toInt32 v)"

definition toUint32 :: "number \<Rightarrow> number" where
  "toUint32 v = (if v < 0 then 0 else if v > 4294967295 then 4294967295 else toInt32 v)"

section \<open>PrefixSumComputer\<close>

record PrefixSumComputer =
  psc_values :: "32 word list"
  psc_prefixSum :: "32 word list"
  psc_prefixSumValidIndex :: number

definition new_PrefixSumComputer :: "32 word list \<Rightarrow> PrefixSumComputer" where
  "new_PrefixSumComputer vs =
     \<lparr>psc_values = vs, psc_prefixSum = replicate (length vs) 0, psc_prefixSumValidIndex = -1\<rparr>"

definition PrefixSumComputer_getCount :: "PrefixSumComputer \<Rightarrow> number" where
  "PrefixSumComputer_getCount this = int (length (psc_values this))"

text \<open>The lowering of the valid index (an \<open>Int32Array\<close> cell) and the copy of the trusted sums.\<close>

definition psc_invalidate :: "number \<Rightarrow> PrefixSumComputer \<Rightarrow> PrefixSumComputer" where
  "psc_invalidate index this =
     (if index - 1 < psc_prefixSumValidIndex this
      then this\<lparr>psc_prefixSumValidIndex := toInt32 (index - 1)\<rparr> else this)"

definition psc_keep_sums :: "32 word list \<Rightarrow> number \<Rightarrow> 32 word list \<Rightarrow> 32 word list result" where
  "psc_keep_sums oldPrefixSum validIndex fresh =
     (if validIndex \<ge> 0 then ta_set fresh (js_slice oldPrefixSum 0 (validIndex + 1)) 0 else Inr fresh)"

definition PrefixSumComputer_insertValues ::
  "number \<Rightarrow> 32 word list \<Rightarrow> PrefixSumComputer \<Rightarrow> (bool \<times> PrefixSumComputer) result" where
  "PrefixSumComputer_insertValues insertIndex0 insertValues this =
     (let insertIndex = toUint32 insertIndex0;
          oldValues = psc_values this;
          oldPrefixSum = psc_prefixSum this;
          insertValuesLen = int (length insertValues)
      in if insertValuesLen = 0 then Inr (False, this)
         else
           result_bind (new_Uint32Array (int (length oldValues) + insertValuesLen)) (\<lambda>v0.
           result_bind (ta_set v0 (js_slice oldValues 0 insertIndex) 0) (\<lambda>v1.
           result_bind (ta_set v1 (js_slice oldValues insertIndex (int (length oldValues)))
                         (insertIndex + insertValuesLen)) (\<lambda>v2.
           result_bind (ta_set v2 insertValues insertIndex) (\<lambda>v3.
             let this1 = psc_invalidate insertIndex (this\<lparr>psc_values := v3\<rparr>)
             in result_bind (new_Uint32Array (int (length v3))) (\<lambda>p0.
                result_map (\<lambda>p1. (True, this1\<lparr>psc_prefixSum := p1\<rparr>))
                  (psc_keep_sums oldPrefixSum (psc_prefixSumValidIndex this1) p0)))))))"

definition PrefixSumComputer_setValue ::
  "number \<Rightarrow> number \<Rightarrow> PrefixSumComputer \<Rightarrow> bool \<times> PrefixSumComputer" where
  "PrefixSumComputer_setValue index0 value0 this =
     (let index = toUint32 index0; v = toUint32 value0
      in if (case arr_at (psc_values this) index of None \<Rightarrow> False | Some w \<Rightarrow> uint w = v) then (False, this)
         else (True, psc_invalidate index
                 (this\<lparr>psc_values := ta_write (psc_values this) index (word_of_int v)\<rparr>)))"

definition PrefixSumComputer_removeValues ::
  "number \<Rightarrow> number \<Rightarrow> PrefixSumComputer \<Rightarrow> (bool \<times> PrefixSumComputer) result" where
  "PrefixSumComputer_removeValues startIndex0 count0 this =
     (let startIndex = toUint32 startIndex0;
          cnt0 = toUint32 count0;
          oldValues = psc_values this;
          oldPrefixSum = psc_prefixSum this
      in if startIndex \<ge> int (length oldValues) then Inr (False, this)
         else
           (let maxCount = int (length oldValues) - startIndex;
                cnt = (if cnt0 \<ge> maxCount then maxCount else cnt0)
            in if cnt = 0 then Inr (False, this)
               else
                 result_bind (new_Uint32Array (int (length oldValues) - cnt)) (\<lambda>v0.
                 result_bind (ta_set v0 (js_slice oldValues 0 startIndex) 0) (\<lambda>v1.
                 result_bind (ta_set v1 (js_slice oldValues (startIndex + cnt) (int (length oldValues))) startIndex) (\<lambda>v2.
                 result_bind (new_Uint32Array (int (length v2))) (\<lambda>p0.
                   let this1 = psc_invalidate startIndex (this\<lparr>psc_values := v2\<rparr>)
                   in result_map (\<lambda>p1. (True, this1\<lparr>psc_prefixSum := p1\<rparr>))
                        (psc_keep_sums oldPrefixSum (psc_prefixSumValidIndex this1) p0)))))))"

text \<open>
  The loop that extends the table; the sum of two 32-bit elements is stored modulo
  \<open>2 ^ 32\<close>, and an operand that is \<open>undefined\<close> makes it \<open>NaN\<close>, stored as 0.
\<close>

function getPrefixSum_loop :: "32 word list \<Rightarrow> 32 word list \<Rightarrow> number \<Rightarrow> number \<Rightarrow> 32 word list" where
  "getPrefixSum_loop vs ps i index =
     (if i \<le> index
      then getPrefixSum_loop vs
             (ta_write ps i (case (arr_at ps (i - 1), arr_at vs i) of (Some a, Some b) \<Rightarrow> a + b | _ \<Rightarrow> 0))
             (i + 1) index
      else ps)"
  by pat_completeness auto
termination by (relation "measure (\<lambda>(vs, ps, i, index). nat (index + 1 - i))") auto

declare getPrefixSum_loop.simps [simp del]

definition getPrefixSum_internal :: "number \<Rightarrow> PrefixSumComputer \<Rightarrow> number option \<times> PrefixSumComputer" where
  "getPrefixSum_internal index0 this =
     (if index0 \<le> psc_prefixSumValidIndex this
      then (map_option uint (arr_at (psc_prefixSum this) index0), this)
      else
        (let start0 = psc_prefixSumValidIndex this + 1;
             (ps0, startIndex) =
               (if start0 = 0
                then (ta_write (psc_prefixSum this) 0 (case arr_at (psc_values this) 0 of None \<Rightarrow> 0 | Some v \<Rightarrow> v), start0 + 1)
                else (psc_prefixSum this, start0));
             index = (if index0 \<ge> int (length (psc_values this)) then int (length (psc_values this)) - 1 else index0);
             ps1 = getPrefixSum_loop (psc_values this) ps0 startIndex index
         in (map_option uint (arr_at ps1 index),
             this\<lparr>psc_prefixSum := ps1,
                  psc_prefixSumValidIndex := max (psc_prefixSumValidIndex this) index\<rparr>)))"

definition PrefixSumComputer_getTotalSum :: "PrefixSumComputer \<Rightarrow> number option \<times> PrefixSumComputer" where
  "PrefixSumComputer_getTotalSum this =
     (if psc_values this = [] then (Some 0, this)
      else getPrefixSum_internal (int (length (psc_values this)) - 1) this)"

definition PrefixSumComputer_getPrefixSum :: "number \<Rightarrow> PrefixSumComputer \<Rightarrow> number option \<times> PrefixSumComputer" where
  "PrefixSumComputer_getPrefixSum index this =
     (if index < 0 then (Some 0, this) else getPrefixSum_internal (toUint32 index) this)"

record PrefixSumIndexOfResult =
  psi_index :: number
  psi_remainder :: number

text \<open>
  The binary search of \<open>getIndexOf\<close>: \<open>midStart\<close> is a plain number, and the last
  \<open>mid\<close> and \<open>midStart\<close> are the answer when the loop runs out. All indices read are
  between \<open>low\<close> and \<open>high\<close>, and their midpoint is below \<open>2 ^ 31\<close>.
\<close>

function getIndexOf_loop ::
  "32 word list \<Rightarrow> 32 word list \<Rightarrow> number \<Rightarrow> number \<Rightarrow> number \<Rightarrow> number \<Rightarrow> number \<Rightarrow> number \<times> number" where
  "getIndexOf_loop vs ps target low high mid0 midStart0 =
     (if low \<le> high
      then
        (let mid = low + (high - low) div 2;
             midStop = uint (ps ! nat mid);
             midStart = midStop - uint (vs ! nat mid)
         in if target < midStart then getIndexOf_loop vs ps target low (mid - 1) mid midStart
            else if target \<ge> midStop then getIndexOf_loop vs ps target (mid + 1) high mid midStart
            else (mid, midStart))
      else (mid0, midStart0))"
  by pat_completeness auto
termination by (relation "measure (\<lambda>(vs, ps, s, low, high, m, ms). nat (high + 1 - low))") auto

declare getIndexOf_loop.simps [simp del]

definition PrefixSumComputer_getIndexOf ::
  "number \<Rightarrow> PrefixSumComputer \<Rightarrow> PrefixSumIndexOfResult \<times> PrefixSumComputer" where
  "PrefixSumComputer_getIndexOf s this =
     (let this1 = snd (PrefixSumComputer_getTotalSum this);
          (mid, midStart) =
            getIndexOf_loop (psc_values this1) (psc_prefixSum this1) s 0 (int (length (psc_values this1)) - 1) 0 0
      in (\<lparr>psi_index = mid, psi_remainder = s - midStart\<rparr>, this1))"

section \<open>ConstantTimePrefixSumComputer\<close>

text \<open>
  Plain arrays. A hole, an absent element and \<open>NaN\<close> are None: all three are falsy in every
  comparison, and make a sum \<open>NaN\<close>. A store past the end leaves holes, and so does a
  larger \<open>length\<close>; a \<open>length\<close> that is not a 32-bit unsigned integer throws.
\<close>

definition js_read :: "'a option list \<Rightarrow> number \<Rightarrow> 'a option" where
  "js_read xs i = (case arr_at xs i of None \<Rightarrow> None | Some v \<Rightarrow> v)"

definition js_write :: "'a option list \<Rightarrow> number \<Rightarrow> 'a option \<Rightarrow> 'a option list" where
  "js_write xs i v =
     (if i < 0 then xs
      else if nat i < length xs then xs[nat i := v]
      else xs @ replicate (nat i - length xs) None @ [v])"

definition js_set_length :: "'a option list \<Rightarrow> nat \<Rightarrow> 'a option list" where
  "js_set_length xs n = take n xs @ replicate (n - length xs) None"

record ConstantTimePrefixSumComputer =
  ct_values :: "number option list"
  ct_isValid :: bool
  ct_validEndIndex :: number
  ct_prefixSum :: "number option list"
  ct_indexBySum :: "number option list"

definition new_ConstantTimePrefixSumComputer :: "number option list \<Rightarrow> ConstantTimePrefixSumComputer" where
  "new_ConstantTimePrefixSumComputer vs =
     \<lparr>ct_values = vs, ct_isValid = False, ct_validEndIndex = -1, ct_prefixSum = [], ct_indexBySum = []\<rparr>"

function indexBySum_loop :: "number option list \<Rightarrow> number \<Rightarrow> number \<Rightarrow> number \<Rightarrow> number \<Rightarrow> number option list" where
  "indexBySum_loop ibs sumAbove i j v =
     (if j < v then indexBySum_loop (js_write ibs (sumAbove + j) (Some i)) sumAbove i (j + 1) v else ibs)"
  by pat_completeness auto
termination by (relation "measure (\<lambda>(ibs, s, i, j, v). nat (v - j))") auto

declare indexBySum_loop.simps [simp del]

function ensureValid_loop ::
  "number option list \<Rightarrow> number \<Rightarrow> number option list \<Rightarrow> number option list \<Rightarrow> number option list \<times> number option list" where
  "ensureValid_loop vs i ps ibs =
     (if i < int (length vs)
      then
        (let v = js_read vs i;
             sumAbove = (if i > 0 then js_read ps (i - 1) else Some 0);
             ps' = js_write ps i (case (sumAbove, v) of (Some a, Some b) \<Rightarrow> Some (a + b) | _ \<Rightarrow> None);
             ibs' = (case (sumAbove, v) of (Some a, Some b) \<Rightarrow> indexBySum_loop ibs a i 0 b | _ \<Rightarrow> ibs)
         in ensureValid_loop vs (i + 1) ps' ibs')
      else (ps, ibs))"
  by pat_completeness auto
termination by (relation "measure (\<lambda>(vs, i, ps, ibs). nat (int (length vs) - i))") auto

declare ensureValid_loop.simps [simp del]

definition ct_ensureValid :: "ConstantTimePrefixSumComputer \<Rightarrow> ConstantTimePrefixSumComputer result" where
  "ct_ensureValid this =
     (if ct_isValid this then Inr this
      else
        (let (ps, ibs) = ensureValid_loop (ct_values this) (ct_validEndIndex this + 1) (ct_prefixSum this) (ct_indexBySum this);
             ps' = js_set_length ps (length (ct_values this))
         in case js_read ps' (int (length ps') - 1) of
              None \<Rightarrow> Inl RangeError
            | Some n \<Rightarrow>
                if n < 0 \<or> n > 4294967295 then Inl RangeError
                else Inr (this\<lparr>ct_prefixSum := ps', ct_indexBySum := js_set_length ibs (nat n),
                              ct_isValid := True, ct_validEndIndex := int (length (ct_values this)) - 1\<rparr>)))"

definition ConstantTimePrefixSumComputer_getTotalSum ::
  "ConstantTimePrefixSumComputer \<Rightarrow> (number \<times> ConstantTimePrefixSumComputer) result" where
  "ConstantTimePrefixSumComputer_getTotalSum this =
     result_map (\<lambda>t. (int (length (ct_indexBySum t)), t)) (ct_ensureValid this)"

definition ConstantTimePrefixSumComputer_getPrefixSum ::
  "number \<Rightarrow> ConstantTimePrefixSumComputer \<Rightarrow> (number option \<times> ConstantTimePrefixSumComputer) result" where
  "ConstantTimePrefixSumComputer_getPrefixSum n this =
     result_map (\<lambda>t. (if n = 0 then Some 0 else js_read (ct_prefixSum t) (n - 1), t)) (ct_ensureValid this)"

definition ConstantTimePrefixSumComputer_getIndexOf ::
  "number \<Rightarrow> ConstantTimePrefixSumComputer \<Rightarrow> ((number option \<times> number option) \<times> ConstantTimePrefixSumComputer) result" where
  "ConstantTimePrefixSumComputer_getIndexOf s this =
     result_map (\<lambda>t.
       let idx = js_read (ct_indexBySum t) s;
           viewLinesAbove =
             (case idx of None \<Rightarrow> Some 0 | Some i \<Rightarrow> if i > 0 then js_read (ct_prefixSum t) (i - 1) else Some 0)
       in ((idx, map_option (\<lambda>a. s - a) viewLinesAbove), t)) (ct_ensureValid this)"

definition ct_invalidate :: "number \<Rightarrow> ConstantTimePrefixSumComputer \<Rightarrow> ConstantTimePrefixSumComputer" where
  "ct_invalidate index this =
     this\<lparr>ct_isValid := False, ct_validEndIndex := min (ct_validEndIndex this) (index - 1)\<rparr>"

definition ConstantTimePrefixSumComputer_removeValues ::
  "number \<Rightarrow> number \<Rightarrow> ConstantTimePrefixSumComputer \<Rightarrow> ConstantTimePrefixSumComputer" where
  "ConstantTimePrefixSumComputer_removeValues start deleteCount this =
     ct_invalidate start
       (this\<lparr>ct_values := arr_splice (ct_values this) (slice_index (length (ct_values this)) start) (nat deleteCount) []\<rparr>)"

text \<open>\<open>arrayInsert\<close> of \<open>src/vs/base/common/arrays.ts\<close>.\<close>

definition arrayInsert :: "'a list \<Rightarrow> number \<Rightarrow> 'a list \<Rightarrow> 'a list" where
  "arrayInsert target insertIndex insertArr =
     (let before = js_slice target 0 insertIndex; after = js_slice target insertIndex (int (length target))
      in before @ insertArr @ after)"

definition ConstantTimePrefixSumComputer_insertValues ::
  "number \<Rightarrow> number option list \<Rightarrow> ConstantTimePrefixSumComputer \<Rightarrow> ConstantTimePrefixSumComputer" where
  "ConstantTimePrefixSumComputer_insertValues insertIndex insertArr this =
     ct_invalidate insertIndex (this\<lparr>ct_values := arrayInsert (ct_values this) insertIndex insertArr\<rparr>)"

definition ConstantTimePrefixSumComputer_setValue ::
  "number \<Rightarrow> number \<Rightarrow> ConstantTimePrefixSumComputer \<Rightarrow> ConstantTimePrefixSumComputer" where
  "ConstantTimePrefixSumComputer_setValue index v this =
     (if js_read (ct_values this) index = Some v then this
      else ct_invalidate index (this\<lparr>ct_values := js_write (ct_values this) index (Some v)\<rparr>))"

section \<open>The contract\<close>

text \<open>
  Queries return the answer and the new state, or None for an exception or \<open>undefined\<close>.
  \<open>vals\<close> is the list of values a state stands for.
\<close>

locale prefix_sums =
  fixes vals :: "'s \<Rightarrow> number list" and inv :: "'s \<Rightarrow> bool"
    and prefix :: "nat \<Rightarrow> 's \<Rightarrow> (number \<times> 's) option"
    and indexOf :: "number \<Rightarrow> 's \<Rightarrow> ((number \<times> number) \<times> 's) option"
  assumes vals_nonneg: "inv s \<Longrightarrow> v \<in> set (vals s) \<Longrightarrow> 0 \<le> v"
    and prefix_ok: "inv s \<Longrightarrow> n \<le> length (vals s) \<Longrightarrow>
      \<exists>s'. prefix n s = Some (sum_list (take n (vals s)), s') \<and> inv s' \<and> vals s' = vals s"
    and indexOf_ok: "inv s \<Longrightarrow> 0 \<le> k \<Longrightarrow> k < sum_list (vals s) \<Longrightarrow>
      \<exists>i s'. indexOf k s = Some ((int i, k - sum_list (take i (vals s))), s') \<and> inv s' \<and> vals s' = vals s \<and>
        i < length (vals s) \<and> sum_list (take i (vals s)) \<le> k \<and> k < sum_list (take (Suc i) (vals s))"

lemma sum_list_take_mono:
  assumes "\<forall>v \<in> set vs. (0 :: number) \<le> v" "i \<le> j"
  shows "sum_list (take i vs) \<le> sum_list (take j vs)"
proof -
  have "take j vs = take i vs @ take (j - i) (drop i vs)"
    using assms(2) by (metis add_diff_inverse_nat not_less take_add)
  moreover have "0 \<le> sum_list (take (j - i) (drop i vs))"
    using assms(1) by (intro sum_list_nonneg) (meson in_set_dropD in_set_takeD)
  ultimately show ?thesis by simp
qed

lemma prefix_location_unique:
  assumes "\<forall>v \<in> set vs. (0 :: number) \<le> v"
    and "sum_list (take i vs) \<le> k" "k < sum_list (take (Suc i) vs)"
    and "sum_list (take j vs) \<le> k" "k < sum_list (take (Suc j) vs)"
  shows "i = j"
proof (rule ccontr)
  assume "i \<noteq> j"
  then consider "Suc i \<le> j" | "Suc j \<le> i" by linarith
  then show False
    using sum_list_take_mono [OF assms(1)] assms(2-5) by cases (metis leD le_less_trans order_less_le_trans)+
qed

context prefix_sums
begin

lemma prefix_value: "inv s \<Longrightarrow> n \<le> length (vals s) \<Longrightarrow> map_option fst (prefix n s) = Some (sum_list (take n (vals s)))"
  using prefix_ok by fastforce

text \<open>The index found is the only one whose half-open block of sums contains the argument.\<close>

lemma indexOf_block:
  assumes "inv s" "i < length (vals s)" "0 \<le> r" "r < vals s ! i"
  shows "map_option fst (indexOf (sum_list (take i (vals s)) + r) s) = Some (int i, r)"
proof -
  let ?k = "sum_list (take i (vals s)) + r"
  have nn: "\<forall>v \<in> set (vals s). 0 \<le> v" using vals_nonneg [OF assms(1)] by blast
  have suc: "sum_list (take (Suc i) (vals s)) = sum_list (take i (vals s)) + vals s ! i"
    using assms(2) by (simp add: take_Suc_conv_app_nth)
  have "0 \<le> sum_list (take i (vals s))" using sum_list_take_mono [OF nn, of 0 i] by simp
  moreover have "?k < sum_list (vals s)"
    using sum_list_take_mono [OF nn, of "Suc i" "length (vals s)"] assms(2,4) suc by simp
  ultimately obtain j s' where j: "indexOf ?k s = Some ((int j, ?k - sum_list (take j (vals s))), s')"
      "sum_list (take j (vals s)) \<le> ?k" "?k < sum_list (take (Suc j) (vals s))"
    using indexOf_ok [OF assms(1), of ?k] assms(3) by auto
  have "i = j" using prefix_location_unique [OF nn, of i ?k j] assms(3,4) suc j(2,3) by simp
  with j(1) show ?thesis by simp
qed

text \<open>Asking again, after the caches changed, gives the same answer.\<close>

lemma indexOf_stable:
  assumes "inv s" "0 \<le> k" "k < sum_list (vals s)" "indexOf k s = Some (a, s')"
  shows "map_option fst (indexOf k s') = Some a"
proof -
  have nn: "\<forall>v \<in> set (vals s). 0 \<le> v" using vals_nonneg [OF assms(1)] by blast
  obtain i where i: "a = (int i, k - sum_list (take i (vals s)))" "inv s'" "vals s' = vals s"
    "sum_list (take i (vals s)) \<le> k" "k < sum_list (take (Suc i) (vals s))"
    using indexOf_ok [OF assms(1-3)] assms(4) by auto
  obtain j t where j: "indexOf k s' = Some ((int j, k - sum_list (take j (vals s))), t)"
    "sum_list (take j (vals s)) \<le> k" "k < sum_list (take (Suc j) (vals s))"
    using indexOf_ok [OF i(2) assms(2)] assms(3) i(3) by auto
  have "i = j" using prefix_location_unique [OF nn i(4,5) j(2,3)] .
  with i(1) j(1) show ?thesis by simp
qed

end

section \<open>Correctness of PrefixSumComputer\<close>

text \<open>The sum of the first \<open>n\<close> values, as the table stores it: modulo \<open>2 ^ 32\<close>.\<close>

definition wsum :: "32 word list \<Rightarrow> nat \<Rightarrow> 32 word" where
  "wsum vs n = sum_list (take n vs)"

definition PrefixSumComputer_wf :: "PrefixSumComputer \<Rightarrow> bool" where
  "PrefixSumComputer_wf this \<longleftrightarrow>
     length (psc_prefixSum this) = length (psc_values this) \<and>
     int (length (psc_values this)) < 2147483648 \<and>
     - 1 \<le> psc_prefixSumValidIndex this \<and>
     psc_prefixSumValidIndex this < int (length (psc_values this)) \<and>
     (\<forall>i. int i \<le> psc_prefixSumValidIndex this \<longrightarrow> psc_prefixSum this ! i = wsum (psc_values this) (Suc i))"

lemma wsum_Suc: "i < length vs \<Longrightarrow> wsum vs (Suc i) = wsum vs i + vs ! i"
  by (simp add: wsum_def take_Suc_conv_app_nth)

lemma toUint32_id: "0 \<le> n \<Longrightarrow> n < 2147483648 \<Longrightarrow> toUint32 n = n"
  by (simp add: toUint32_def is_int32_def)

lemma js_slice_prefix: "0 \<le> n \<Longrightarrow> js_slice xs 0 n = take (nat n) xs"
  by (simp add: js_slice_def slice_index_def min_def)

lemma js_slice_suffix: "0 \<le> n \<Longrightarrow> js_slice xs n (int (length xs)) = drop (nat n) xs"
  by (auto simp: js_slice_def slice_index_def min_def)

lemma new_PrefixSumComputer_wf:
  "int (length vs) < 2147483648 \<Longrightarrow> PrefixSumComputer_wf (new_PrefixSumComputer vs)"
  by (simp add: PrefixSumComputer_wf_def new_PrefixSumComputer_def)

lemma getPrefixSum_loop_correct:
  assumes "length ps = length vs" "1 \<le> i" "index < int (length vs)"
    and "\<forall>k. int k < i \<longrightarrow> k < length vs \<longrightarrow> ps ! k = wsum vs (Suc k)"
  shows "length (getPrefixSum_loop vs ps i index) = length vs \<and>
     (\<forall>k. int k < max i (index + 1) \<longrightarrow> k < length vs \<longrightarrow> getPrefixSum_loop vs ps i index ! k = wsum vs (Suc k))"
  using assms
proof (induction vs ps i index rule: getPrefixSum_loop.induct)
  case (1 vs ps i index)
  show ?case
  proof (cases "i \<le> index")
    case False
    then have "max i (index + 1) = i" by simp
    with 1 False show ?thesis by (subst (1 2) getPrefixSum_loop.simps) simp
  next
    case True
    define m where "m = nat (i - 1)"
    have m: "i = int (Suc m)" "Suc m < length vs" using 1(3,4) True by (simp_all add: m_def)
    let ?ps = "ta_write ps i (case (arr_at ps (i - 1), arr_at vs i) of (Some a, Some b) \<Rightarrow> a + b | _ \<Rightarrow> 0)"
    have "arr_at ps (i - 1) = Some (ps ! m)" "arr_at vs i = Some (vs ! Suc m)"
      using m 1(2) arr_at_nat [of m ps] arr_at_nat [of "Suc m" vs] by simp_all
    then have ps': "?ps = ps[Suc m := wsum vs (Suc (Suc m))]"
      using m 1(2,5) by (simp add: ta_write_def wsum_Suc nat_add_distrib)
    have loop: "getPrefixSum_loop vs ps i index = getPrefixSum_loop vs ?ps (i + 1) index"
      using True by (subst getPrefixSum_loop.simps) simp
    have "\<forall>k. int k < i + 1 \<longrightarrow> k < length vs \<longrightarrow> ?ps ! k = wsum vs (Suc k)"
      unfolding ps' using 1(5) m 1(2) by (auto simp: nth_list_update)
    moreover have "length ?ps = length vs" using ps' 1(2) by simp
    ultimately show ?thesis
      using 1(1) [OF True] 1(3,4) True unfolding loop by auto
  qed
qed

lemma getPrefixSum_internal_correct:
  assumes "PrefixSumComputer_wf this" "psc_values this \<noteq> []" "0 \<le> n"
  shows "\<exists>this'. getPrefixSum_internal n this = (Some (uint (wsum (psc_values this) (nat n + 1))), this') \<and>
     PrefixSumComputer_wf this' \<and> psc_values this' = psc_values this \<and>
     psc_prefixSumValidIndex this' = max (psc_prefixSumValidIndex this) (min n (int (length (psc_values this)) - 1))"
proof (cases "n \<le> psc_prefixSumValidIndex this")
  case True
  then have "nat n < length (psc_prefixSum this)" "int (nat n) \<le> psc_prefixSumValidIndex this"
    using assms by (auto simp: PrefixSumComputer_wf_def)
  then have "arr_at (psc_prefixSum this) n = Some (wsum (psc_values this) (nat n + 1))"
    using assms by (auto simp: PrefixSumComputer_wf_def arr_at_def)
  moreover have "max (psc_prefixSumValidIndex this) (min n (int (length (psc_values this)) - 1)) =
      psc_prefixSumValidIndex this" using True by simp
  ultimately show ?thesis using True assms(1) by (auto simp: getPrefixSum_internal_def)
next
  case False
  define vs v ps where "vs = psc_values this" "v = psc_prefixSumValidIndex this" "ps = psc_prefixSum this"
  note d = this
  have wf: "length ps = length vs" "int (length vs) < 2147483648" "-1 \<le> v" "v < int (length vs)"
    "\<forall>i. int i \<le> v \<longrightarrow> ps ! i = wsum vs (Suc i)" "vs \<noteq> []"
    using assms(1,2) by (auto simp: d PrefixSumComputer_wf_def)
  define ps0 st where "ps0 = (if v + 1 = 0 then ta_write ps 0 (case arr_at vs 0 of None \<Rightarrow> 0 | Some v \<Rightarrow> v) else ps)"
    "st = (if v + 1 = 0 then v + 1 + 1 else v + 1)"
  note d0 = this
  define idx where "idx = (if n \<ge> int (length vs) then int (length vs) - 1 else n)"
  define out where "out = getPrefixSum_loop vs ps0 st idx"
  have idx: "idx = min n (int (length vs) - 1)" "0 \<le> idx" "idx < int (length vs)"
    using assms(3) wf(6) by (auto simp: idx_def)
  have res: "getPrefixSum_internal n this =
      (map_option uint (arr_at out idx), this\<lparr>psc_prefixSum := out, psc_prefixSumValidIndex := max v idx\<rparr>)"
    using False unfolding getPrefixSum_internal_def Let_def out_def d0 idx_def d by simp
  have arr0: "arr_at vs 0 = Some (vs ! 0)" using wf(6) by (simp add: arr_at_def)
  have "wsum vs 1 = vs ! 0" using wf(6) wsum_Suc [of 0 vs] by (simp add: wsum_def)
  then have ps0: "length ps0 = length vs" "\<forall>k. int k < st \<longrightarrow> k < length vs \<longrightarrow> ps0 ! k = wsum vs (Suc k)"
    using wf arr0 by (auto simp: d0 ta_write_def)
  have st: "1 \<le> st" "v < st" "st \<le> idx + 1" using wf(3,4) idx False by (auto simp: d0 d)
  have out: "length out = length vs" "\<forall>k. int k < idx + 1 \<longrightarrow> k < length vs \<longrightarrow> out ! k = wsum vs (Suc k)"
    using getPrefixSum_loop_correct [OF ps0(1) st(1) idx(3) ps0(2)] st(3) by (auto simp: out_def)
  have "wsum vs (nat idx + 1) = wsum vs (nat n + 1)"
  proof (cases "n < int (length vs)")
    case False
    then have "length vs \<le> nat idx + 1" "length vs \<le> nat n + 1" using idx(1) assms(3) by auto
    then show ?thesis by (simp add: wsum_def)
  qed (simp add: idx_def)
  moreover have "arr_at out idx = Some (wsum vs (nat idx + 1))"
    using out(1) out(2) [rule_format, of "nat idx"] idx(2,3) by (simp add: arr_at_def)
  moreover have "v \<le> idx" using False idx wf(4) by (auto simp: d)
  ultimately show ?thesis
    using res out wf idx by (auto simp: PrefixSumComputer_wf_def d max_def)
qed

lemma getTotalSum_correct:
  assumes "PrefixSumComputer_wf this"
  shows "\<exists>this'. PrefixSumComputer_getTotalSum this =
       (Some (uint (wsum (psc_values this) (length (psc_values this)))), this') \<and>
     PrefixSumComputer_wf this' \<and> psc_values this' = psc_values this \<and>
     psc_prefixSumValidIndex this' = int (length (psc_values this)) - 1"
proof (cases "psc_values this = []")
  case True
  then show ?thesis using assms by (auto simp: PrefixSumComputer_getTotalSum_def wsum_def PrefixSumComputer_wf_def)
next
  case False
  have "nat (int (length (psc_values this)) - 1) + 1 = length (psc_values this)"
    using False by (cases "psc_values this") auto
  moreover have "psc_prefixSumValidIndex this < int (length (psc_values this))"
    using assms by (simp add: PrefixSumComputer_wf_def)
  ultimately show ?thesis
    using getPrefixSum_internal_correct [OF assms False, of "int (length (psc_values this)) - 1"] False
    by (auto simp: PrefixSumComputer_getTotalSum_def max_def Suc_le_eq)
qed

lemma getPrefixSum_correct:
  assumes "PrefixSumComputer_wf this" "n \<le> length (psc_values this)"
  shows "\<exists>this'. PrefixSumComputer_getPrefixSum (int n - 1) this = (Some (uint (wsum (psc_values this) n)), this') \<and>
     PrefixSumComputer_wf this' \<and> psc_values this' = psc_values this"
proof (cases n)
  case 0
  then show ?thesis using assms by (simp add: PrefixSumComputer_getPrefixSum_def wsum_def)
next
  case (Suc m)
  then have "psc_values this \<noteq> []" "toUint32 (int n - 1) = int m"
    using assms by (auto simp: PrefixSumComputer_wf_def toUint32_id)
  then show ?thesis
    using getPrefixSum_internal_correct [OF assms(1), of "int m"] Suc
    by (auto simp: PrefixSumComputer_getPrefixSum_def)
qed

text \<open>Without overflow the stored sums are the sums of the numbers.\<close>

definition psc_vals :: "PrefixSumComputer \<Rightarrow> number list" where
  "psc_vals this = map uint (psc_values this)"

lemma uint_sum_list:
  "sum_list (map uint (ws :: 32 word list)) < 4294967296 \<Longrightarrow> uint (sum_list ws) = sum_list (map uint ws)"
proof (induction ws)
  case (Cons w ws)
  have "sum_list (map uint ws) < 4294967296" using Cons.prems uint_ge_0 [of w] by (simp only: list.map sum_list.Cons)
  then have IH: "uint (sum_list ws) = sum_list (map uint ws)" by (rule Cons.IH)
  have "uint w + uint (sum_list ws) < 2 ^ LENGTH(32)" using Cons.prems IH by simp
  then have "uint (w + sum_list ws) = uint w + uint (sum_list ws)" by (simp only: uint_add_lem)
  then show ?case using IH by simp
qed simp

lemma uint_wsum:
  assumes "sum_list (map uint vs) < 4294967296"
  shows "uint (wsum vs n) = sum_list (take n (map uint vs))"
proof -
  have "sum_list (take n (map uint vs)) \<le> sum_list (take (max n (length vs)) (map uint vs))"
    by (rule sum_list_take_mono) auto
  then have "sum_list (map uint (take n vs)) < 4294967296" using assms by (simp add: take_map)
  then show ?thesis by (simp add: wsum_def uint_sum_list take_map)
qed

text \<open>The binary search, over a full table of the sums \<open>P\<close>.\<close>

lemma getIndexOf_loop_step:
  fixes vs ps :: "32 word list" and low high k m ms :: number
  assumes tab: "\<forall>i < length vs. uint (ps ! i) = sum_list (take (Suc i) (map uint vs))"
    and "0 \<le> low" "low \<le> high" "high < int (length vs)"
  defines "P \<equiv> \<lambda>n. sum_list (take n (map uint vs))"
    and "n \<equiv> nat (low + (high - low) div 2)"
  shows "getIndexOf_loop vs ps k low high m ms =
     (if k < P n then getIndexOf_loop vs ps k low (int n - 1) (int n) (P n)
      else if P (Suc n) \<le> k then getIndexOf_loop vs ps k (int n + 1) high (int n) (P n)
      else (int n, P n))"
    and "low \<le> int n" "int n \<le> high" "n < length vs"
proof -
  show n: "low \<le> int n" "int n \<le> high" "n < length vs" using assms(2-4) by (auto simp: n_def)
  have mid: "low + (high - low) div 2 = int n" using assms(2,3) by (simp add: n_def)
  have "uint (ps ! n) = P (Suc n)" "P (Suc n) - uint (vs ! n) = P n"
    using tab n(3) by (simp_all add: P_def take_Suc_conv_app_nth)
  then show "getIndexOf_loop vs ps k low high m ms =
     (if k < P n then getIndexOf_loop vs ps k low (int n - 1) (int n) (P n)
      else if P (Suc n) \<le> k then getIndexOf_loop vs ps k (int n + 1) high (int n) (P n)
      else (int n, P n))"
    using assms(3) by (subst getIndexOf_loop.simps) (simp add: Let_def mid)
qed

lemma getIndexOf_loop_found:
  assumes tab: "\<forall>i < length vs. uint (ps ! i) = sum_list (take (Suc i) (map uint vs))"
    and t: "sum_list (take t (map uint vs)) \<le> k" "k < sum_list (take (Suc t) (map uint vs))"
    and "0 \<le> low" "low \<le> int t" "int t \<le> high" "high < int (length vs)"
  shows "getIndexOf_loop vs ps k low high m ms = (int t, sum_list (take t (map uint vs)))"
  using assms(4-7)
proof (induction "nat (high + 1 - low)" arbitrary: low high m ms rule: less_induct)
  case less
  define n where "n = nat (low + (high - low) div 2)"
  have "low \<le> high" using less.prems by simp
  note step = getIndexOf_loop_step [OF tab less.prems(1) this less.prems(4), folded n_def]
  have mono: "i \<le> j \<Longrightarrow> sum_list (take i (map uint vs)) \<le> sum_list (take j (map uint vs))" for i j
    by (rule sum_list_take_mono) auto
  consider "k < sum_list (take n (map uint vs))"
    | "\<not> k < sum_list (take n (map uint vs))" "sum_list (take (Suc n) (map uint vs)) \<le> k"
    | "\<not> k < sum_list (take n (map uint vs))" "\<not> sum_list (take (Suc n) (map uint vs)) \<le> k" by blast
  then show ?case
  proof cases
    case 1
    then have "t < n" using mono [of n t] t(1) by (meson le_less_linear order.trans leD)
    then show ?thesis
      unfolding step(1) if_P [OF 1] using less.prems step(3) by (intro less.hyps) auto
  next
    case 2
    then have "n < t" using mono [of "Suc t" "Suc n"] t(2) by (meson Suc_le_mono leD le_less_linear order.trans)
    then show ?thesis
      unfolding step(1) if_not_P [OF 2(1)] if_P [OF 2(2)] using less.prems step(2) by (intro less.hyps) auto
  next
    case 3
    have "n = t"
      by (rule prefix_location_unique [of "map uint vs" _ k]) (use 3 t in auto)
    then show ?thesis unfolding step(1) if_not_P [OF 3(1)] if_not_P [OF 3(2)] by simp
  qed
qed

text \<open>Past the last sum the search ends at the last index, before the first one at index 0.\<close>

lemma getIndexOf_loop_past_end:
  assumes tab: "\<forall>i < length vs. uint (ps ! i) = sum_list (take (Suc i) (map uint vs))"
    and t: "sum_list (map uint vs) \<le> k"
    and "0 \<le> low" "low \<le> high" "high < int (length vs)"
  shows "getIndexOf_loop vs ps k low high m ms = (high, sum_list (take (nat high) (map uint vs)))"
  using assms(3-5)
proof (induction "nat (high + 1 - low)" arbitrary: low m ms rule: less_induct)
  case less
  define n where "n = nat (low + (high - low) div 2)"
  note step = getIndexOf_loop_step [OF tab less.prems, folded n_def]
  have mono: "sum_list (take i (map uint vs)) \<le> k" for i
    using sum_list_take_mono [of "map uint vs" i "max i (length vs)"] t by auto
  have ge: "\<not> k < sum_list (take n (map uint vs))" "sum_list (take (Suc n) (map uint vs)) \<le> k"
    using mono [of n] mono [of "Suc n"] by simp_all
  show ?case
  proof (cases "int n = high")
    case True
    have "getIndexOf_loop vs ps k (high + 1) high (int n) x = (int n, x)" for x
      by (subst getIndexOf_loop.simps) simp
    then show ?thesis unfolding step(1) if_not_P [OF ge(1)] if_P [OF ge(2)] using True by auto
  next
    case False
    then show ?thesis
      unfolding step(1) if_not_P [OF ge(1)] if_P [OF ge(2)]
      using less.prems step(2,3) by (intro less.hyps) auto
  qed
qed

lemma full_table:
  assumes "PrefixSumComputer_wf this" "psc_prefixSumValidIndex this = int (length (psc_values this)) - 1"
    "sum_list (psc_vals this) < 4294967296"
  shows "\<forall>i < length (psc_values this).
     uint (psc_prefixSum this ! i) = sum_list (take (Suc i) (map uint (psc_values this)))"
  using assms uint_wsum [of "psc_values this"] by (auto simp: PrefixSumComputer_wf_def psc_vals_def)

lemma getIndexOf_correct:
  assumes "PrefixSumComputer_wf this" "sum_list (psc_vals this) < 4294967296"
    and "t < length (psc_values this)" "sum_list (take t (psc_vals this)) \<le> k"
    and "k < sum_list (take (Suc t) (psc_vals this)) \<or> sum_list (psc_vals this) \<le> k \<and> Suc t = length (psc_values this)"
  shows "\<exists>this'. PrefixSumComputer_getIndexOf k this =
       (\<lparr>psi_index = int t, psi_remainder = k - sum_list (take t (psc_vals this))\<rparr>, this') \<and>
     PrefixSumComputer_wf this' \<and> psc_values this' = psc_values this"
proof -
  obtain this' where t': "snd (PrefixSumComputer_getTotalSum this) = this'" "PrefixSumComputer_wf this'"
    "psc_values this' = psc_values this" "psc_prefixSumValidIndex this' = int (length (psc_values this)) - 1"
    using getTotalSum_correct [OF assms(1)] by auto
  have tab: "\<forall>i < length (psc_values this). uint (psc_prefixSum this' ! i) =
      sum_list (take (Suc i) (map uint (psc_values this)))"
    using full_table [OF t'(2)] t'(3,4) assms(2) by (simp add: psc_vals_def)
  have "getIndexOf_loop (psc_values this) (psc_prefixSum this') k 0 (int (length (psc_values this)) - 1) 0 0 =
      (int t, sum_list (take t (psc_vals this)))"
    using assms(5)
  proof
    assume "k < sum_list (take (Suc t) (psc_vals this))"
    then show ?thesis
      using assms(3,4) unfolding psc_vals_def by (intro getIndexOf_loop_found [OF tab]) auto
  next
    assume h: "sum_list (psc_vals this) \<le> k \<and> Suc t = length (psc_values this)"
    then have len: "int (length (psc_values this)) - 1 = int t" by linarith
    show ?thesis
      unfolding len using h getIndexOf_loop_past_end [OF tab, of k 0 "int t" 0 0] assms(3) by (simp add: psc_vals_def)
  qed
  then show ?thesis
    unfolding PrefixSumComputer_getIndexOf_def Let_def t'(1) t'(3) using t'(2,3) by simp
qed

section \<open>Changes of the values\<close>

lemma psc_keep_sums_correct:
  assumes old: "PrefixSumComputer_wf this" and v: "- 1 \<le> v" "v \<le> psc_prefixSumValidIndex this" "v < int (length vs')"
    and same: "take (nat (v + 1)) vs' = take (nat (v + 1)) (psc_values this)"
    and len: "int (length vs') < 2147483648"
  shows "\<exists>ps'. psc_keep_sums (psc_prefixSum this) v (replicate (length vs') 0) = Inr ps' \<and>
     PrefixSumComputer_wf \<lparr>psc_values = vs', psc_prefixSum = ps', psc_prefixSumValidIndex = v\<rparr>"
proof (cases "0 \<le> v")
  case False
  then show ?thesis using v len by (simp add: psc_keep_sums_def PrefixSumComputer_wf_def)
next
  case True
  define n where "n = nat (v + 1)"
  have n: "v + 1 = int n" "n \<le> length vs'" "n \<le> length (psc_values this)"
    using True v old by (auto simp: n_def PrefixSumComputer_wf_def)
  define ps' where "ps' = take n (psc_prefixSum this) @ replicate (length vs' - n) 0"
  have oldlen: "length (psc_prefixSum this) = length (psc_values this)" using old by (simp add: PrefixSumComputer_wf_def)
  have "psc_keep_sums (psc_prefixSum this) v (replicate (length vs') 0) = Inr ps'"
    using True n oldlen by (simp add: psc_keep_sums_def js_slice_prefix ta_set_def ps'_def min_def)
  moreover have "ps' ! i = wsum vs' (Suc i)" if "int i \<le> v" for i
  proof -
    have i: "Suc i \<le> n" using that n by linarith
    then have "take (Suc i) vs' = take (Suc i) (psc_values this)"
      using same unfolding n_def [symmetric] by (metis min.absorb1 take_take)
    moreover have "psc_prefixSum this ! i = wsum (psc_values this) (Suc i)"
      using old that v by (auto simp: PrefixSumComputer_wf_def)
    ultimately show ?thesis using i n oldlen by (simp add: ps'_def nth_append wsum_def)
  qed
  ultimately show ?thesis using v len n oldlen by (auto simp: PrefixSumComputer_wf_def ps'_def)
qed

lemma psc_invalidate_eq:
  assumes "0 \<le> index" "index < 2147483648" "psc_prefixSumValidIndex this = v" "v < 2147483648"
  shows "psc_invalidate index this = this\<lparr>psc_prefixSumValidIndex := min v (index - 1)\<rparr>"
  using assms by (auto simp: psc_invalidate_def is_int32_def min_def)

lemma insertValues_correct:
  assumes wf: "PrefixSumComputer_wf this" and k: "k \<le> length (psc_values this)"
    and len: "int (length (psc_values this) + length ins) < 2147483648"
  shows "\<exists>this'. PrefixSumComputer_insertValues (int k) ins this = Inr (ins \<noteq> [], this') \<and>
     PrefixSumComputer_wf this' \<and>
     psc_values this' = take k (psc_values this) @ ins @ drop k (psc_values this)"
proof (cases "ins = []")
  case True
  then show ?thesis using wf by (simp add: PrefixSumComputer_insertValues_def Let_def)
next
  case False
  define vs where "vs = psc_values this"
  define vs' where "vs' = take k vs @ ins @ drop k vs"
  define v where "v = min (psc_prefixSumValidIndex this) (int k - 1)"
  have k32: "toUint32 (int k) = int k" using k len by (simp add: toUint32_id)
  have sets: "ta_set (replicate (length vs + length ins) 0) (take k vs) 0 =
      Inr (take k vs @ replicate (length vs - k + length ins) 0)"
    "ta_set (take k vs @ replicate (length vs - k + length ins) 0) (drop k vs) (int k + int (length ins)) =
      Inr (take k vs @ replicate (length ins) 0 @ drop k vs)"
    "ta_set (take k vs @ replicate (length ins) 0 @ drop k vs) ins (int k) = Inr vs'"
    using k by (auto simp: ta_set_def vs_def vs'_def nat_add_distrib min_def)
  have "length vs' = length vs + length ins" using k by (simp add: vs'_def vs_def)
  have same: "take (nat (v + 1)) vs' = take (nat (v + 1)) (psc_values this)"
  proof -
    have "nat (v + 1) \<le> k" by (simp add: v_def nat_le_iff)
    then show ?thesis using k by (simp add: vs'_def vs_def)
  qed
  have v: "- 1 \<le> v" "v \<le> psc_prefixSumValidIndex this" "v < int (length vs')" "int (length vs') < 2147483648"
    using wf k len \<open>length vs' = _\<close> by (auto simp: v_def vs_def PrefixSumComputer_wf_def)
  obtain ps' where ps': "psc_keep_sums (psc_prefixSum this) v (replicate (length vs') 0) = Inr ps'"
    "PrefixSumComputer_wf \<lparr>psc_values = vs', psc_prefixSum = ps', psc_prefixSumValidIndex = v\<rparr>"
    using psc_keep_sums_correct [OF wf v(1-3) same v(4)] by blast
  have inv: "psc_invalidate (int k) (this\<lparr>psc_values := vs'\<rparr>) =
      this\<lparr>psc_values := vs', psc_prefixSumValidIndex := v\<rparr>"
    unfolding v_def using wf k len by (subst psc_invalidate_eq) (auto simp: PrefixSumComputer_wf_def)
  have "new_Uint32Array (int (length vs) + int (length ins)) = Inr (replicate (length vs + length ins) 0)"
    "new_Uint32Array (int (length vs')) = Inr (replicate (length vs') 0)"
    by (simp_all add: new_Uint32Array_def nat_add_distrib)
  then have "PrefixSumComputer_insertValues (int k) ins this =
      Inr (True, \<lparr>psc_values = vs', psc_prefixSum = ps', psc_prefixSumValidIndex = v\<rparr>)"
    using False sets inv ps'(1)
    by (simp add: PrefixSumComputer_insertValues_def Let_def k32 vs_def [symmetric] js_slice_prefix js_slice_suffix)
  then show ?thesis using ps'(2) False by (simp add: vs'_def vs_def)
qed

lemma removeValues_correct:
  assumes wf: "PrefixSumComputer_wf this" and c: "int c < 2147483648" "int k < 2147483648"
  shows "\<exists>this'. PrefixSumComputer_removeValues (int k) (int c) this =
       Inr (k < length (psc_values this) \<and> c \<noteq> 0, this') \<and>
     PrefixSumComputer_wf this' \<and>
     psc_values this' = take k (psc_values this) @ drop (k + c) (psc_values this)"
proof (cases "k < length (psc_values this) \<and> c \<noteq> 0")
  case False
  then show ?thesis
    using wf c by (auto simp: PrefixSumComputer_removeValues_def Let_def toUint32_id split: if_splits)
next
  case True
  define vs where "vs = psc_values this"
  define d where "d = min c (length vs - k)"
  define vs' where "vs' = take k vs @ drop (k + d) vs"
  define v where "v = min (psc_prefixSumValidIndex this) (int k - 1)"
  have k: "k < length vs" "d \<noteq> 0" "k + d \<le> length vs" using True by (auto simp: vs_def d_def)
  have cnt: "(if int c \<ge> int (length vs) - int k then int (length vs) - int k else int c) = int d"
    using k by (auto simp: d_def)
  have len: "length vs' = length vs - d" using k by (simp add: vs'_def)
  have sets: "ta_set (replicate (length vs - d) 0) (take k vs) 0 = Inr (take k vs @ replicate (length vs - d - k) 0)"
    "ta_set (take k vs @ replicate (length vs - d - k) 0) (drop (k + d) vs) (int k) = Inr vs'"
    using k by (auto simp: ta_set_def vs'_def min_def)
  have same: "take (nat (v + 1)) vs' = take (nat (v + 1)) (psc_values this)"
  proof -
    have "nat (v + 1) \<le> k" by (simp add: v_def nat_le_iff)
    then show ?thesis using k by (simp add: vs'_def vs_def)
  qed
  have v: "- 1 \<le> v" "v \<le> psc_prefixSumValidIndex this" "v < int (length vs')" "int (length vs') < 2147483648"
    using wf k len by (auto simp: v_def vs_def PrefixSumComputer_wf_def)
  obtain ps' where ps': "psc_keep_sums (psc_prefixSum this) v (replicate (length vs') 0) = Inr ps'"
    "PrefixSumComputer_wf \<lparr>psc_values = vs', psc_prefixSum = ps', psc_prefixSumValidIndex = v\<rparr>"
    using psc_keep_sums_correct [OF wf v(1-3) same v(4)] by blast
  have inv: "psc_invalidate (int k) (this\<lparr>psc_values := vs'\<rparr>) =
      this\<lparr>psc_values := vs', psc_prefixSumValidIndex := v\<rparr>"
    unfolding v_def using wf c by (subst psc_invalidate_eq) (auto simp: PrefixSumComputer_wf_def)
  have news: "new_Uint32Array (int (length vs) - int d) = Inr (replicate (length vs - d) 0)"
    "new_Uint32Array (int (length vs')) = Inr (replicate (length vs') 0)"
    using k by (auto simp: new_Uint32Array_def nat_diff_distrib)
  have slices: "js_slice vs 0 (int k) = take k vs" "js_slice vs (int k + int d) (int (length vs)) = drop (k + d) vs"
    by (simp_all add: js_slice_prefix js_slice_suffix nat_add_distrib)
  have "PrefixSumComputer_removeValues (int k) (int c) this =
      Inr (True, \<lparr>psc_values = vs', psc_prefixSum = ps', psc_prefixSumValidIndex = v\<rparr>)"
    using k sets inv ps'(1) news
    unfolding PrefixSumComputer_removeValues_def Let_def vs_def [symmetric] toUint32_id [OF of_nat_0_le_iff c(1)]
      toUint32_id [OF of_nat_0_le_iff c(2)] cnt slices
    by simp
  moreover have "drop (k + d) vs = drop (k + c) vs" by (auto simp: d_def min_def)
  ultimately show ?thesis using ps'(2) True by (simp add: vs'_def vs_def)
qed

lemma setValue_correct:
  assumes wf: "PrefixSumComputer_wf this" and k: "k < length (psc_values this)" and x: "0 \<le> x" "x < 2147483648"
  shows "\<exists>b this'. PrefixSumComputer_setValue (int k) x this = (b, this') \<and>
     PrefixSumComputer_wf this' \<and> psc_values this' = (psc_values this)[k := word_of_int x] \<and>
     (b \<longleftrightarrow> psc_values this' \<noteq> psc_values this)"
proof -
  define vs v where "vs = psc_values this" "v = psc_prefixSumValidIndex this"
  note d = this
  have k31: "int k < 2147483648" using wf k by (simp add: PrefixSumComputer_wf_def)
  have x32: "uint (word_of_int x :: 32 word) = x" using x by (simp add: uint_word_of_int)
  show ?thesis
  proof (cases "uint (vs ! k) = x")
    case True
    then have "vs ! k = word_of_int x" by (metis word_of_int_uint)
    then have "vs[k := word_of_int x] = vs" by (metis list_update_id)
    then show ?thesis
      using True wf k k31 x
      by (intro exI [of _ False] exI [of _ this]) (simp add: PrefixSumComputer_setValue_def Let_def toUint32_id d)
  next
    case False
    define this' where "this' = this\<lparr>psc_values := vs[k := word_of_int x], psc_prefixSumValidIndex := min v (int k - 1)\<rparr>"
    have "PrefixSumComputer_setValue (int k) x this = (True, this')"
      using False k k31 x wf
      by (simp add: PrefixSumComputer_setValue_def Let_def toUint32_id d this'_def ta_write_def
          PrefixSumComputer_wf_def psc_invalidate_eq)
    moreover have "wsum (vs[k := y]) (Suc i) = wsum vs (Suc i)" if "int i \<le> int k - 1" for i y
      using that by (simp add: wsum_def take_update_cancel)
    then have "PrefixSumComputer_wf this'"
      using wf by (auto simp: PrefixSumComputer_wf_def this'_def d min_def split: if_splits)
    moreover have "vs[k := word_of_int x] \<noteq> vs"
      using False x32 k by (metis nth_list_update_eq d(1))
    ultimately show ?thesis by (auto simp: this'_def d)
  qed
qed

section \<open>Correctness of ConstantTimePrefixSumComputer\<close>

abbreviation psum :: "number list \<Rightarrow> nat \<Rightarrow> number" where
  "psum ws n \<equiv> sum_list (take n ws)"

definition sum_table :: "number list \<Rightarrow> nat \<Rightarrow> number option list" where
  "sum_table ws n = map (\<lambda>i. Some (psum ws (Suc i))) [0 ..< n]"

definition index_table :: "number list \<Rightarrow> nat \<Rightarrow> number option list" where
  "index_table ws n = concat (map (\<lambda>i. replicate (nat (ws ! i)) (Some (int i))) [0 ..< n])"

definition ct_vals :: "ConstantTimePrefixSumComputer \<Rightarrow> number list" where
  "ct_vals this = map the (ct_values this)"

text \<open>The values are numbers, the tables are right up to the valid index, and all of them when valid.\<close>

definition ConstantTime_wf :: "ConstantTimePrefixSumComputer \<Rightarrow> bool" where
  "ConstantTime_wf this \<longleftrightarrow>
     (let ws = ct_vals this; n = nat (ct_validEndIndex this + 1)
      in ct_values this = map Some ws \<and> (\<forall>w \<in> set ws. 0 \<le> w) \<and> sum_list ws \<le> 4294967295 \<and>
         - 1 \<le> ct_validEndIndex this \<and> ct_validEndIndex this < int (length ws) \<and>
         take n (ct_prefixSum this) = sum_table ws n \<and>
         take (nat (psum ws n)) (ct_indexBySum this) = index_table ws n \<and>
         (ct_isValid this \<longrightarrow> n = length ws \<and> length (ct_prefixSum this) = n \<and>
            length (ct_indexBySum this) = nat (psum ws n)))"

lemma psum_nonneg: "\<forall>w \<in> set ws. 0 \<le> w \<Longrightarrow> 0 \<le> psum ws n"
  by (intro sum_list_nonneg) (meson in_set_takeD)

lemma psum_Suc: "n < length ws \<Longrightarrow> psum ws (Suc n) = psum ws n + ws ! n"
  by (simp add: take_Suc_conv_app_nth)

lemma length_index_table:
  assumes "\<forall>w \<in> set ws. 0 \<le> w" "n \<le> length ws"
  shows "length (index_table ws n) = nat (psum ws n)"
  using assms(2)
proof (induction n)
  case (Suc n)
  then have "0 \<le> ws ! n" using assms(1) by simp
  with Suc psum_nonneg [OF assms(1), of n] show ?case
    by (simp add: index_table_def psum_Suc nat_add_distrib)
qed (simp add: index_table_def)

lemma length_sum_table [simp]: "length (sum_table ws n) = n"
  by (simp add: sum_table_def)

lemma sum_table_nth: "i < n \<Longrightarrow> sum_table ws n ! i = Some (psum ws (Suc i))"
  by (simp add: sum_table_def)

lemma sum_table_Suc: "sum_table ws (Suc n) = sum_table ws n @ [Some (psum ws (Suc n))]"
  by (simp add: sum_table_def)

lemma index_table_Suc: "index_table ws (Suc n) = index_table ws n @ replicate (nat (ws ! n)) (Some (int n))"
  by (simp add: index_table_def)

lemma take_js_write:
  "n \<le> length xs \<Longrightarrow> take (Suc n) (js_write xs (int n) v) = take n xs @ [v]"
  by (auto simp: js_write_def take_Suc_conv_app_nth take_update_cancel)

lemma length_js_write: "n \<le> length xs \<Longrightarrow> Suc n \<le> length (js_write xs (int n) v)"
  by (auto simp: js_write_def)

lemma indexBySum_loop_correct:
  assumes "0 \<le> a" "0 \<le> j" "j \<le> v" "a + j \<le> int (length ibs)"
  shows "take (nat (a + v)) (indexBySum_loop ibs a i j v) = take (nat (a + j)) ibs @ replicate (nat (v - j)) (Some i)"
  using assms
proof (induction ibs a i j v rule: indexBySum_loop.induct)
  case (1 ibs a i j v)
  show ?case
  proof (cases "j < v")
    case False
    then show ?thesis using 1 by (subst indexBySum_loop.simps) simp
  next
    case True
    define n where "n = nat (a + j)"
    have n: "a + j = int n" "n \<le> length ibs" "nat (a + (j + 1)) = Suc n" using 1 by (auto simp: n_def)
    have "nat (v - j) = Suc (nat (v - (j + 1)))" using True by simp
    then show ?thesis
      using 1(1) [OF True] 1(2-5) True n take_js_write [OF n(2), of "Some i"] length_js_write [OF n(2), of "Some i"]
      by (subst indexBySum_loop.simps) simp
  qed
qed

lemma ensureValid_loop_correct:
  assumes nn: "\<forall>w \<in> set ws. 0 \<le> w" and "n \<le> length ws"
    and "take n ps = sum_table ws n" "take (nat (psum ws n)) ibs = index_table ws n"
  shows "\<exists>ps' ibs'. ensureValid_loop (map Some ws) (int n) ps ibs = (ps', ibs') \<and>
     take (length ws) ps' = sum_table ws (length ws) \<and>
     take (nat (psum ws (length ws))) ibs' = index_table ws (length ws)"
  using assms(2-4)
proof (induction "length ws - n" arbitrary: n ps ibs)
  case 0
  then show ?case by (subst ensureValid_loop.simps) simp
next
  case (Suc m)
  have n: "n < length ws" using Suc by simp
  have lens: "n \<le> length ps" "nat (psum ws n) \<le> length ibs"
    using Suc.prems(2,3) length_sum_table [of ws n] length_index_table [OF nn, of n] n
    by (metis length_take min.absorb_iff2 min.commute less_imp_le)+
  have above: "(if int n > 0 then js_read ps (int n - 1) else Some 0) = Some (psum ws n)"
  proof (cases n)
    case (Suc k)
    have "ps ! k = take n ps ! k" using Suc by simp
    also have "\<dots> = Some (psum ws n)" using Suc Suc.prems(2) by (simp add: sum_table_nth)
    finally show ?thesis using Suc lens(1) by (simp add: js_read_def)
  qed simp
  have val: "js_read (map Some ws) (int n) = Some (ws ! n)" using n by (simp add: js_read_def)
  define ps1 where "ps1 = js_write ps (int n) (Some (psum ws n + ws ! n))"
  define ibs1 where "ibs1 = indexBySum_loop ibs (psum ws n) (int n) 0 (ws ! n)"
  have loop: "ensureValid_loop (map Some ws) (int n) ps ibs = ensureValid_loop (map Some ws) (int (Suc n)) ps1 ibs1"
    using n by (subst ensureValid_loop.simps, unfold above val Let_def) (simp add: ps1_def ibs1_def add.commute)
  have "take (Suc n) ps1 = sum_table ws (Suc n)"
    using take_js_write [OF lens(1)] Suc.prems(2) n by (simp add: ps1_def sum_table_Suc psum_Suc)
  moreover have "take (nat (psum ws (Suc n))) ibs1 = index_table ws (Suc n)"
    using indexBySum_loop_correct [of "psum ws n" 0 "ws ! n" ibs "int n"] lens(2) nn n psum_nonneg [OF nn, of n] Suc.prems(3)
    by (simp add: ibs1_def psum_Suc index_table_Suc nat_le_iff)
  ultimately show ?case
    unfolding loop using Suc.hyps(1) [of "Suc n" ps1 ibs1] Suc.hyps(2) n by simp
qed

lemma ensureValid_correct:
  assumes wf: "ConstantTime_wf this" and ne: "ct_values this \<noteq> []"
  shows "\<exists>t. ct_ensureValid this = Inr t \<and> ConstantTime_wf t \<and> ct_values t = ct_values this \<and>
     ct_prefixSum t = sum_table (ct_vals this) (length (ct_vals this)) \<and>
     ct_indexBySum t = index_table (ct_vals this) (length (ct_vals this))"
proof (cases "ct_isValid this")
  case True
  then show ?thesis using wf by (auto simp: ct_ensureValid_def ConstantTime_wf_def Let_def)
next
  case False
  define ws n where "ws = ct_vals this" "n = nat (ct_validEndIndex this + 1)"
  note d = this
  have w: "ct_values this = map Some ws" "\<forall>w \<in> set ws. 0 \<le> w" "sum_list ws \<le> 4294967295"
    "ct_validEndIndex this + 1 = int n" "n \<le> length ws"
    "take n (ct_prefixSum this) = sum_table ws n" "take (nat (psum ws n)) (ct_indexBySum this) = index_table ws n"
    using wf by (auto simp: ConstantTime_wf_def Let_def d)
  obtain ps ibs where loop: "ensureValid_loop (map Some ws) (int n) (ct_prefixSum this) (ct_indexBySum this) = (ps, ibs)"
    "take (length ws) ps = sum_table ws (length ws)" "take (nat (sum_list ws)) ibs = index_table ws (length ws)"
    using ensureValid_loop_correct [OF w(2,5,6,7)] by auto
  have lens: "length ws \<le> length ps" "nat (sum_list ws) \<le> length ibs"
    using loop(2,3) length_sum_table [of ws "length ws"] length_index_table [OF w(2), of "length ws"]
    by (metis length_take min.absorb_iff2 min.commute order_refl take_all)+
  have ps: "js_set_length ps (length ws) = sum_table ws (length ws)"
    and ibs: "js_set_length ibs (nat (sum_list ws)) = index_table ws (length ws)"
    using loop(2,3) lens by (simp_all add: js_set_length_def)
  have "ws \<noteq> []" using ne w(1) by auto
  then obtain m where m: "length ws = Suc m" by (cases ws) auto
  then have "js_read (sum_table ws (length ws)) (int (length ws) - 1) = Some (sum_list ws)"
    using sum_table_nth [of m "Suc m" ws] by (simp add: js_read_def)
  moreover have "0 \<le> sum_list ws" using psum_nonneg [OF w(2), of "length ws"] by simp
  ultimately have res: "ct_ensureValid this =
      Inr (this\<lparr>ct_prefixSum := sum_table ws (length ws), ct_indexBySum := index_table ws (length ws),
                ct_isValid := True, ct_validEndIndex := int (length ws) - 1\<rparr>)" (is "_ = Inr ?t")
    using False loop(1) ps ibs w(1,3,4) by (simp add: ct_ensureValid_def Let_def)
  moreover have "ConstantTime_wf ?t"
    using w \<open>ws \<noteq> []\<close> length_index_table [OF w(2), of "length ws"]
    by (simp add: ConstantTime_wf_def Let_def ct_vals_def)
  ultimately show ?thesis by (simp add: d)
qed

lemma index_table_nth:
  assumes "\<forall>w \<in> set ws. 0 \<le> w" "i < length ws" "psum ws i \<le> k" "k < psum ws (Suc i)"
  shows "js_read (index_table ws (length ws)) k = Some (int i)"
proof -
  define r where "r = nat (k - psum ws i)"
  have r: "nat k = nat (psum ws i) + r" "r < nat (ws ! i)" "0 \<le> k"
    using assms(3,4) psum_nonneg [OF assms(1), of i] unfolding r_def psum_Suc [OF assms(2)] by linarith+
  have pre: "length (index_table ws i) = nat (psum ws i)" using length_index_table [OF assms(1)] assms(2) by simp
  have "nat k < length (index_table ws (Suc i))" using pre r by (simp add: index_table_Suc)
  moreover have "index_table ws (Suc i) ! nat k = Some (int i)"
    using pre r by (simp add: index_table_Suc nth_append)
  moreover have "\<exists>rest. index_table ws (length ws) = index_table ws (Suc i) @ rest"
  proof -
    have "[0 ..< length ws] = [0 ..< Suc i] @ [Suc i ..< length ws]"
      using assms(2) by (metis Suc_leI le_add_diff_inverse upt_add_eq_append zero_le)
    then have "index_table ws (length ws) = index_table ws (Suc i) @
        concat (map (\<lambda>i. replicate (nat (ws ! i)) (Some (int i))) [Suc i ..< length ws])"
      unfolding index_table_def by (simp only: map_append concat_append)
    then show ?thesis by blast
  qed
  ultimately show ?thesis using r(3) by (auto simp: js_read_def arr_at_def nth_append)
qed

definition ct_prefix :: "nat \<Rightarrow> ConstantTimePrefixSumComputer \<Rightarrow> (number \<times> ConstantTimePrefixSumComputer) option" where
  "ct_prefix n this =
     (case ConstantTimePrefixSumComputer_getPrefixSum (int n) this of
        Inr (Some v, t) \<Rightarrow> Some (v, t) | _ \<Rightarrow> None)"

definition ct_indexOf ::
  "number \<Rightarrow> ConstantTimePrefixSumComputer \<Rightarrow> ((number \<times> number) \<times> ConstantTimePrefixSumComputer) option" where
  "ct_indexOf k this =
     (case ConstantTimePrefixSumComputer_getIndexOf k this of
        Inr ((Some i, Some r), t) \<Rightarrow> Some ((i, r), t) | _ \<Rightarrow> None)"

definition psc_prefix :: "nat \<Rightarrow> PrefixSumComputer \<Rightarrow> (number \<times> PrefixSumComputer) option" where
  "psc_prefix n this =
     (case PrefixSumComputer_getPrefixSum (int n - 1) this of (Some v, t) \<Rightarrow> Some (v, t) | _ \<Rightarrow> None)"

definition psc_indexOf :: "number \<Rightarrow> PrefixSumComputer \<Rightarrow> ((number \<times> number) \<times> PrefixSumComputer) option" where
  "psc_indexOf k this =
     (case PrefixSumComputer_getIndexOf k this of (p, t) \<Rightarrow> Some ((psi_index p, psi_remainder p), t))"

lemma psum_locate:
  assumes "\<forall>w \<in> set ws. 0 \<le> w" "0 \<le> k" "k < sum_list ws"
  shows "\<exists>i < length ws. psum ws i \<le> k \<and> k < psum ws (Suc i)"
  using assms
proof (induction ws arbitrary: k)
  case (Cons w ws)
  show ?case
  proof (cases "k < w")
    case True
    then show ?thesis using Cons.prems by (intro exI [of _ 0]) simp
  next
    case False
    then obtain i where "i < length ws" "psum ws i \<le> k - w" "k - w < psum ws (Suc i)"
      using Cons.IH [of "k - w"] Cons.prems by auto
    then show ?thesis by (intro exI [of _ "Suc i"]) simp
  qed
qed simp

interpretation psc: prefix_sums psc_vals
  "\<lambda>this. PrefixSumComputer_wf this \<and> sum_list (psc_vals this) < 4294967296" psc_prefix psc_indexOf
proof (unfold_locales, goal_cases)
  case (1 s v)
  then show ?case by (auto simp: psc_vals_def)
next
  case (2 s n)
  then show ?case
    using getPrefixSum_correct [of s n] uint_wsum [of "psc_values s" n]
    by (auto simp: psc_prefix_def psc_vals_def)
next
  case (3 s k)
  have "\<forall>w \<in> set (psc_vals s). 0 \<le> w" by (auto simp: psc_vals_def)
  from psum_locate [OF this 3(2,3)] obtain i where
    i: "i < length (psc_vals s)" "psum (psc_vals s) i \<le> k" "k < psum (psc_vals s) (Suc i)" by blast
  obtain t where t: "PrefixSumComputer_getIndexOf k s =
      (\<lparr>psi_index = int i, psi_remainder = k - psum (psc_vals s) i\<rparr>, t)" "PrefixSumComputer_wf t"
      "psc_values t = psc_values s"
    using getIndexOf_correct [of s i k] 3 i by (auto simp: psc_vals_def)
  have "psc_vals t = psc_vals s" using t(3) by (simp add: psc_vals_def)
  with i t 3 show ?case by (auto simp: psc_indexOf_def)
qed

interpretation ct: prefix_sums ct_vals "\<lambda>this. ConstantTime_wf this \<and> ct_values this \<noteq> []" ct_prefix ct_indexOf
proof (unfold_locales, goal_cases)
  case (1 s v)
  then show ?case by (auto simp: ConstantTime_wf_def Let_def)
next
  case (2 s n)
  then obtain t where t: "ct_ensureValid s = Inr t" "ConstantTime_wf t" "ct_values t = ct_values s"
     "ct_prefixSum t = sum_table (ct_vals s) (length (ct_vals s))"
    using ensureValid_correct by blast
  have "js_read (ct_prefixSum t) (int n - 1) = Some (psum (ct_vals s) n)" if "n \<noteq> 0"
    using that 2(2) t(4) by (cases n) (auto simp: js_read_def arr_at_def sum_table_nth)
  then show ?case
    using t 2 by (cases "n = 0") (auto simp: ct_prefix_def ConstantTimePrefixSumComputer_getPrefixSum_def ct_vals_def)
next
  case (3 s k)
  then obtain t where t: "ct_ensureValid s = Inr t" "ConstantTime_wf t" "ct_values t = ct_values s"
     "ct_prefixSum t = sum_table (ct_vals s) (length (ct_vals s))"
     "ct_indexBySum t = index_table (ct_vals s) (length (ct_vals s))"
    using ensureValid_correct by blast
  have nn: "\<forall>w \<in> set (ct_vals s). 0 \<le> w" using 3(1) by (auto simp: ConstantTime_wf_def Let_def)
  from psum_locate [OF nn 3(2,3)] obtain i where
    i: "i < length (ct_vals s)" "psum (ct_vals s) i \<le> k" "k < psum (ct_vals s) (Suc i)" by blast
  have "js_read (ct_indexBySum t) k = Some (int i)" using index_table_nth [OF nn i] t(5) by simp
  moreover have "js_read (ct_prefixSum t) (int i - 1) = Some (psum (ct_vals s) i)" if "i \<noteq> 0"
    using that i(1) t(4) by (cases i) (auto simp: js_read_def arr_at_def sum_table_nth)
  ultimately have "ct_indexOf k s = Some ((int i, k - psum (ct_vals s) i), t)"
    using t(1) by (cases "i = 0") (auto simp: ct_indexOf_def ConstantTimePrefixSumComputer_getIndexOf_def Let_def)
  then show ?case using i t 3 by (auto simp: ct_vals_def)
qed

text \<open>Every change keeps the values before its index, and with them the trusted part of the tables.\<close>

lemma ct_change_wf:
  assumes wf: "ConstantTime_wf this" and m: "m \<le> length (ct_vals this)" "m \<le> length ws'"
    and ws': "take m ws' = take m (ct_vals this)" "\<forall>w \<in> set ws'. 0 \<le> w" "sum_list ws' \<le> 4294967295"
  shows "ConstantTime_wf (ct_invalidate (int m) (this\<lparr>ct_values := map Some ws'\<rparr>)) \<and>
     ct_vals (ct_invalidate (int m) (this\<lparr>ct_values := map Some ws'\<rparr>)) = ws'"
proof -
  define ws n n' where "ws = ct_vals this" and "n = nat (ct_validEndIndex this + 1)" and "n' = min n m"
  have w: "\<forall>w \<in> set ws. 0 \<le> w" "- 1 \<le> ct_validEndIndex this" "n \<le> length ws"
    "take n (ct_prefixSum this) = sum_table ws n" "take (nat (psum ws n)) (ct_indexBySum this) = index_table ws n"
    using wf by (auto simp: ConstantTime_wf_def Let_def ws_def n_def)
  have n': "n' \<le> n" "n' \<le> m" "n' \<le> length ws" using w(3) by (auto simp: n'_def)
  have same: "take i ws' = take i ws" if "i \<le> n'" for i
    using that ws'(1) n'(2) unfolding ws_def [symmetric] by (metis min.absorb1 order.trans take_take)
  have "sum_table ws n' = take n' (sum_table ws n)" using n' by (simp add: sum_table_def take_map)
  moreover have "sum_table ws' n' = sum_table ws n'" by (simp add: sum_table_def same)
  ultimately have ps: "take n' (ct_prefixSum this) = sum_table ws' n'"
    using w(4) n'(1) by (metis min.absorb1 take_take)
  have "index_table ws n = index_table ws n' @
      concat (map (\<lambda>i. replicate (nat (ws ! i)) (Some (int i))) [n' ..< n])"
    using n'(1) upt_add_eq_append [of 0 n' "n - n'"] unfolding index_table_def
    by (simp flip: concat_append map_append)
  then have "take (nat (psum ws n')) (index_table ws n) = index_table ws n'"
    using length_index_table [OF w(1) n'(3)] by simp
  moreover have "nat (psum ws n') \<le> nat (psum ws n)" using sum_list_take_mono [OF w(1) n'(1)] by simp
  moreover have "ws' ! i = ws ! i" if "i < n'" for i
    using same [of "Suc i"] that n' m(2) by (metis Suc_leI lessI nth_take)
  then have "index_table ws' n' = index_table ws n'"
    unfolding index_table_def by (intro arg_cong [where f = concat]) simp
  ultimately have ibs: "take (nat (psum ws' n')) (ct_indexBySum this) = index_table ws' n'"
    using w(5) same [of n'] by (metis min.absorb1 order_refl take_take)
  have v: "min (ct_validEndIndex this) (int m - 1) + 1 = int n'" using w(2) by (auto simp: n_def n'_def)
  show ?thesis
    using ps ibs ws' v n'(2) m(2)
    by (auto simp: ConstantTime_wf_def Let_def ct_invalidate_def ct_vals_def comp_def)
qed

lemma ct_values_vals: "ConstantTime_wf this \<Longrightarrow> ct_values this = map Some (ct_vals this)"
  by (simp add: ConstantTime_wf_def Let_def)

lemma ct_removeValues_correct:
  fixes k c :: nat
  assumes "ConstantTime_wf this" "k \<le> length (ct_vals this)"
  defines "out \<equiv> ConstantTimePrefixSumComputer_removeValues (int k) (int c) this"
  shows "ConstantTime_wf out \<and> ct_vals out = take k (ct_vals this) @ drop (k + c) (ct_vals this)"
proof -
  let ?ws = "take k (ct_vals this) @ drop (k + c) (ct_vals this)"
  have nn: "\<forall>w \<in> set (ct_vals this). 0 \<le> w" "sum_list (ct_vals this) \<le> 4294967295"
    using assms(1) by (auto simp: ConstantTime_wf_def Let_def)
  have "sum_list (ct_vals this) = sum_list ?ws + sum_list (take c (drop k (ct_vals this)))"
  proof -
    have "ct_vals this = take k (ct_vals this) @ take c (drop k (ct_vals this)) @ drop (k + c) (ct_vals this)"
      by (metis append_take_drop_id drop_drop add.commute)
    then have "sum_list (ct_vals this) =
        sum_list (take k (ct_vals this)) + (sum_list (take c (drop k (ct_vals this))) + sum_list (drop (k + c) (ct_vals this)))"
      by (metis sum_list.append)
    then show ?thesis by simp
  qed
  moreover have "0 \<le> sum_list (take c (drop k (ct_vals this)))"
    using nn(1) by (intro sum_list_nonneg) (meson in_set_dropD in_set_takeD)
  ultimately have le: "sum_list ?ws \<le> 4294967295" using nn(2) by linarith
  have "\<forall>w \<in> set ?ws. 0 \<le> w" using nn(1) by (auto dest: in_set_takeD in_set_dropD)
  from ct_change_wf [OF assms(1,2) _ _ this le] assms(2)
  have "ConstantTime_wf (ct_invalidate (int k) (this\<lparr>ct_values := map Some ?ws\<rparr>)) \<and>
     ct_vals (ct_invalidate (int k) (this\<lparr>ct_values := map Some ?ws\<rparr>)) = ?ws" by simp
  moreover have "out = ct_invalidate (int k) (this\<lparr>ct_values := map Some ?ws\<rparr>)"
    using assms(2) unfolding out_def ConstantTimePrefixSumComputer_removeValues_def ct_values_vals [OF assms(1)]
    by (simp add: arr_splice_def slice_index_def take_map drop_map)
  ultimately show ?thesis by simp
qed

lemma ct_insertValues_correct:
  assumes "ConstantTime_wf this" "k \<le> length (ct_vals this)" "\<forall>w \<in> set ins. 0 \<le> w"
    "sum_list (ct_vals this) + sum_list ins \<le> 4294967295"
  defines "out \<equiv> ConstantTimePrefixSumComputer_insertValues (int k) (map Some ins) this"
  shows "ConstantTime_wf out \<and> ct_vals out = take k (ct_vals this) @ ins @ drop k (ct_vals this)"
proof -
  let ?ws = "take k (ct_vals this) @ ins @ drop k (ct_vals this)"
  have "sum_list (ct_vals this) = sum_list (take k (ct_vals this)) + sum_list (drop k (ct_vals this))"
    by (metis append_take_drop_id sum_list.append)
  then have le: "sum_list ?ws \<le> 4294967295" using assms(4) by simp
  have "\<forall>w \<in> set (ct_vals this). 0 \<le> w" using assms(1) by (auto simp: ConstantTime_wf_def Let_def)
  then have "\<forall>w \<in> set ?ws. 0 \<le> w" using assms(3) by (auto dest: in_set_takeD in_set_dropD)
  from ct_change_wf [OF assms(1,2) _ _ this le] assms(2)
  have "ConstantTime_wf (ct_invalidate (int k) (this\<lparr>ct_values := map Some ?ws\<rparr>)) \<and>
     ct_vals (ct_invalidate (int k) (this\<lparr>ct_values := map Some ?ws\<rparr>)) = ?ws" by simp
  moreover have "out = ct_invalidate (int k) (this\<lparr>ct_values := map Some ?ws\<rparr>)"
    using assms(2) js_slice_suffix [of "int k" "map Some (ct_vals this)"]
    unfolding out_def ConstantTimePrefixSumComputer_insertValues_def arrayInsert_def ct_values_vals [OF assms(1)]
    by (simp add: js_slice_prefix take_map drop_map Let_def)
  ultimately show ?thesis by simp
qed

lemma ct_setValue_correct:
  assumes "ConstantTime_wf this" "k < length (ct_vals this)" "0 \<le> x"
    "sum_list ((ct_vals this)[k := x]) \<le> 4294967295"
  defines "out \<equiv> ConstantTimePrefixSumComputer_setValue (int k) x this"
  shows "ConstantTime_wf out \<and> ct_vals out = (ct_vals this)[k := x]"
proof (cases "ct_vals this ! k = x")
  case True
  then have "js_read (ct_values this) (int k) = Some x"
    using assms(2) ct_values_vals [OF assms(1)] by (simp add: js_read_def)
  then have "out = this" by (simp add: out_def ConstantTimePrefixSumComputer_setValue_def)
  moreover have "(ct_vals this)[k := x] = ct_vals this" using True by (metis list_update_id)
  ultimately show ?thesis using assms(1) by simp
next
  case False
  let ?ws = "(ct_vals this)[k := x]"
  have "\<forall>w \<in> set (ct_vals this). 0 \<le> w" using assms(1) by (auto simp: ConstantTime_wf_def Let_def)
  then have "\<forall>w \<in> set ?ws. 0 \<le> w" using assms(3) set_update_subset_insert [of "ct_vals this" k x] by blast
  from ct_change_wf [OF assms(1) _ _ _ this assms(4), of k] assms(2)
  have "ConstantTime_wf (ct_invalidate (int k) (this\<lparr>ct_values := map Some ?ws\<rparr>)) \<and>
     ct_vals (ct_invalidate (int k) (this\<lparr>ct_values := map Some ?ws\<rparr>)) = ?ws" by simp
  moreover have "out = ct_invalidate (int k) (this\<lparr>ct_values := map Some ?ws\<rparr>)"
    using assms(2) False
    unfolding out_def ConstantTimePrefixSumComputer_setValue_def ct_values_vals [OF assms(1)]
    by (simp add: js_read_def js_write_def map_update)
  ultimately show ?thesis by simp
qed

section \<open>Properties\<close>



text \<open>
  \<open>PrefixSumComputer.getIndexOf\<close>: when the sum of all values fits in 32 bits, a sum
  between 0 and the total is located at the one index whose block of sums contains it, with
  the offset inside the block; a sum at or past the total is located at the last index.
\<close>

theorem PrefixSumComputer_getIndexOf_locates:
  assumes "PrefixSumComputer_wf this" "sum_list (map uint (psc_values this)) < 4294967296"
    and "t < length (psc_values this)"
    and "sum_list (map uint (take t (psc_values this))) \<le> k"
    and "k < sum_list (map uint (take (Suc t) (psc_values this))) \<or>
         sum_list (map uint (psc_values this)) \<le> k \<and> Suc t = length (psc_values this)"
  shows "\<exists>this'. PrefixSumComputer_getIndexOf k this =
       (\<lparr>psi_index = int t, psi_remainder = k - sum_list (map uint (take t (psc_values this)))\<rparr>, this') \<and>
     PrefixSumComputer_wf this' \<and> psc_values this' = psc_values this"
  using getIndexOf_correct [of this t k] assms by (simp add: psc_vals_def take_map)

theorem PrefixSumComputer_getIndexOf_locates_witness:
  "\<exists>this'. PrefixSumComputer_getIndexOf 9 (new_PrefixSumComputer [3, 0, 5, 4]) =
     (\<lparr>psi_index = 3, psi_remainder = 1\<rparr>, this')"
  using PrefixSumComputer_getIndexOf_locates [of "new_PrefixSumComputer [3, 0, 5, 4]" 3 9]
    new_PrefixSumComputer_wf [of "[3, 0, 5, 4]"]
  by (auto simp: new_PrefixSumComputer_def)



text \<open>
  On an empty list of values the total of \<open>ConstantTimePrefixSumComputer\<close> is not 0: the
  length of the index table is set to an element that does not exist, and the store throws.
\<close>

lemma ConstantTime_empty_throws:
  "ConstantTimePrefixSumComputer_getTotalSum (new_ConstantTimePrefixSumComputer []) = Inl RangeError"
  by (simp add: ConstantTimePrefixSumComputer_getTotalSum_def new_ConstantTimePrefixSumComputer_def ct_ensureValid_def
      ensureValid_loop.simps js_set_length_def js_read_def arr_at_def)

text \<open>\<open>toUint32\<close> is not the identity on the upper half of the unsigned range: it returns negative numbers there.\<close>

lemma toUint32_upper_half_negative:
  "2147483648 \<le> v \<Longrightarrow> v \<le> 4294967295 \<Longrightarrow> toUint32 v = v - 4294967296"
  using mod_add_self2 [of "v - 2147483648" 4294967296] by (simp add: toUint32_def toInt32_def add.commute)

end
