(* ===== verification/Mirror_Text.thy ===== *)
theory Mirror_Text
  imports Text_Lines Prefix_Sum Core_Range
begin

text \<open>
  \<open>src/vs/editor/common/model/mirrorTextModel.ts\<close>: the copy of a text model that workers
  and extension hosts keep in step with the original by replaying its change events. The
  model has an array of lines, a cached text and a lazily created \<open>PrefixSumComputer\<close> of
  the line lengths. The abstract document is the list of lines; an event refines the
  replacement of ranges of it, and the two caches always describe it.
\<close>

record IModelContentChange =
  change_range :: Range
  change_rangeOffset :: number
  change_rangeLength :: number
  change_text :: jsstring

record IModelChangedEvent =
  event_changes :: "IModelContentChange list"
  event_eol :: jsstring
  event_versionId :: number
  event_isUndoing :: bool
  event_isRedoing :: bool

record 'uri MirrorTextModel =
  mtm_uri :: 'uri
  mtm_lines :: "jsstring list"
  mtm_eol :: jsstring
  mtm_versionId :: number
  mtm_lineStarts :: "PrefixSumComputer option"
  mtm_cachedTextValue :: "jsstring option"

definition new_MirrorTextModel :: "'uri \<Rightarrow> jsstring list \<Rightarrow> jsstring \<Rightarrow> number \<Rightarrow> 'uri MirrorTextModel" where
  "new_MirrorTextModel u ls e v =
     \<lparr>mtm_uri = u, mtm_lines = ls, mtm_eol = e, mtm_versionId = v, mtm_lineStarts = None, mtm_cachedTextValue = None\<rparr>"

definition MirrorTextModel_dispose :: "'uri MirrorTextModel \<Rightarrow> 'uri MirrorTextModel" where
  "MirrorTextModel_dispose this = this\<lparr>mtm_lines := []\<rparr>"

definition MirrorTextModel_version :: "'uri MirrorTextModel \<Rightarrow> number" where
  "MirrorTextModel_version this = mtm_versionId this"

definition MirrorTextModel_getText :: "'uri MirrorTextModel \<Rightarrow> jsstring \<times> 'uri MirrorTextModel" where
  "MirrorTextModel_getText this =
     (case mtm_cachedTextValue this of
        Some t \<Rightarrow> (t, this)
      | None \<Rightarrow>
          (let t = js_join (mtm_eol this) (mtm_lines this)
           in (t, this\<lparr>mtm_cachedTextValue := Some t\<rparr>)))"

text \<open>The length of a line with its end-of-line sequence, as a \<open>Uint32Array\<close> stores it.\<close>

definition line_length :: "jsstring \<Rightarrow> jsstring \<Rightarrow> 32 word" where
  "line_length eol l = word_of_int (int (length l) + int (length eol))"

definition MirrorTextModel_ensureLineStarts :: "'uri MirrorTextModel \<Rightarrow> 'uri MirrorTextModel" where
  "MirrorTextModel_ensureLineStarts this =
     (case mtm_lineStarts this of
        Some _ \<Rightarrow> this
      | None \<Rightarrow>
          this\<lparr>mtm_lineStarts := Some (new_PrefixSumComputer (map (line_length (mtm_eol this)) (mtm_lines this)))\<rparr>)"

text \<open>Every caller has just read the line it sets, so the index is inside the array.\<close>

definition MirrorTextModel_setLineText :: "number \<Rightarrow> jsstring \<Rightarrow> 'uri MirrorTextModel \<Rightarrow> 'uri MirrorTextModel" where
  "MirrorTextModel_setLineText lineIndex newValue this =
     this\<lparr>mtm_lines := (mtm_lines this)[nat lineIndex := newValue],
          mtm_lineStarts :=
            map_option (\<lambda>ps. snd (PrefixSumComputer_setValue lineIndex
                                    (int (length newValue) + int (length (mtm_eol this))) ps))
              (mtm_lineStarts this)\<rparr>"

definition MirrorTextModel_acceptDeleteRange :: "Range \<Rightarrow> 'uri MirrorTextModel \<Rightarrow> 'uri MirrorTextModel result" where
  "MirrorTextModel_acceptDeleteRange r this =
     (if startLineNumber r = endLineNumber r then
        if startColumn r = endColumn r then Inr this
        else
          result_map (\<lambda>l.
            MirrorTextModel_setLineText (startLineNumber r - 1)
              (js_substring l 0 (startColumn r - 1) @ js_substring_from l (endColumn r - 1)) this)
            (arr_get (mtm_lines this) (startLineNumber r - 1))
      else
        result_bind (arr_get (mtm_lines this) (startLineNumber r - 1)) (\<lambda>lineA.
        result_bind (arr_get (mtm_lines this) (endLineNumber r - 1)) (\<lambda>lineB.
          let this1 = MirrorTextModel_setLineText (startLineNumber r - 1)
                (js_substring lineA 0 (startColumn r - 1) @ js_substring_from lineB (endColumn r - 1)) this;
              n = endLineNumber r - startLineNumber r;
              this2 = this1\<lparr>mtm_lines :=
                arr_splice (mtm_lines this1) (slice_index (length (mtm_lines this1)) (startLineNumber r)) (nat n) []\<rparr>
          in case mtm_lineStarts this2 of
               None \<Rightarrow> Inr this2
             | Some ps \<Rightarrow>
                 result_map (\<lambda>(b, ps'). this2\<lparr>mtm_lineStarts := Some ps'\<rparr>)
                   (PrefixSumComputer_removeValues (startLineNumber r) n ps))))"

text \<open>The loop that splices the new lines in, one after the other.\<close>

fun insertLines_loop :: "number \<Rightarrow> jsstring list \<Rightarrow> jsstring list \<Rightarrow> jsstring list" where
  "insertLines_loop at [] ls = ls"
| "insertLines_loop at (n # ns) ls =
     insertLines_loop (at + 1) ns (arr_splice ls (slice_index (length ls) at) 0 [n])"

definition MirrorTextModel_acceptInsertText ::
  "Position \<Rightarrow> jsstring \<Rightarrow> 'uri MirrorTextModel \<Rightarrow> 'uri MirrorTextModel result" where
  "MirrorTextModel_acceptInsertText p insertText this =
     (if length insertText = 0 then Inr this
      else
        (let insertLines = splitLines insertText
         in result_bind (arr_get (mtm_lines this) (lineNumber p - 1)) (\<lambda>l.
              if length insertLines = 1 then
                Inr (MirrorTextModel_setLineText (lineNumber p - 1)
                  (js_substring l 0 (column p - 1) @ hd insertLines @ js_substring_from l (column p - 1)) this)
              else
                let insertLines1 = insertLines[length insertLines - 1 :=
                        insertLines ! (length insertLines - 1) @ js_substring_from l (column p - 1)];
                    this1 = MirrorTextModel_setLineText (lineNumber p - 1)
                        (js_substring l 0 (column p - 1) @ hd insertLines1) this;
                    this2 = this1\<lparr>mtm_lines := insertLines_loop (lineNumber p) (tl insertLines1) (mtm_lines this1)\<rparr>;
                    newLengths = map (line_length (mtm_eol this)) (tl insertLines1)
                in case mtm_lineStarts this2 of
                     None \<Rightarrow> Inr this2
                   | Some ps \<Rightarrow>
                       result_map (\<lambda>(b, ps'). this2\<lparr>mtm_lineStarts := Some ps'\<rparr>)
                         (PrefixSumComputer_insertValues (lineNumber p) newLengths ps))))"

definition acceptChange :: "IModelContentChange \<Rightarrow> 'uri MirrorTextModel \<Rightarrow> 'uri MirrorTextModel result" where
  "acceptChange ch this =
     result_bind (MirrorTextModel_acceptDeleteRange (change_range ch) this)
       (MirrorTextModel_acceptInsertText
          (new_Position (startLineNumber (change_range ch)) (startColumn (change_range ch))) (change_text ch))"

definition MirrorTextModel_onEvents :: "IModelChangedEvent \<Rightarrow> 'uri MirrorTextModel \<Rightarrow> 'uri MirrorTextModel result" where
  "MirrorTextModel_onEvents e this =
     (let this1 = (if event_eol e \<noteq> [] \<and> event_eol e \<noteq> mtm_eol this
                   then this\<lparr>mtm_eol := event_eol e, mtm_lineStarts := None\<rparr> else this)
      in result_map (\<lambda>t. t\<lparr>mtm_versionId := event_versionId e, mtm_cachedTextValue := None\<rparr>)
           (result_fold acceptChange (event_changes e) this1))"

section \<open>The abstract edit\<close>

definition valid_change :: "jsstring list \<Rightarrow> IModelContentChange \<Rightarrow> bool" where
  "valid_change ls ch \<longleftrightarrow>
     (let r = change_range ch
      in 1 \<le> startLineNumber r \<and> endLineNumber r \<le> int (length ls) \<and> rstart r \<le> rend r \<and>
         1 \<le> startColumn r \<and> startColumn r \<le> int (length (ls ! nat (startLineNumber r - 1))) + 1 \<and>
         1 \<le> endColumn r \<and> endColumn r \<le> int (length (ls ! nat (endLineNumber r - 1))) + 1)"

definition before_change :: "jsstring list \<Rightarrow> IModelContentChange \<Rightarrow> jsstring list" where
  "before_change ls ch =
     doc_before ls (nat (startLineNumber (change_range ch) - 1)) (nat (startColumn (change_range ch) - 1))"

definition after_change :: "jsstring list \<Rightarrow> IModelContentChange \<Rightarrow> jsstring list" where
  "after_change ls ch =
     doc_after ls (nat (endLineNumber (change_range ch) - 1)) (nat (endColumn (change_range ch) - 1))"

text \<open>The document with the range replaced by the lines of the new text.\<close>

definition apply_change :: "jsstring list \<Rightarrow> IModelContentChange \<Rightarrow> jsstring list" where
  "apply_change ls ch =
     doc_append (doc_append (before_change ls ch) (splitLines (change_text ch))) (after_change ls ch)"

text \<open>The sizes the caches can hold: all line lengths together stay below \<open>2 ^ 31\<close>.\<close>

definition doc_size :: "jsstring \<Rightarrow> jsstring list \<Rightarrow> nat" where
  "doc_size eol ls = (\<Sum>l \<leftarrow> ls. length l + length eol)"

definition doc_fits :: "jsstring \<Rightarrow> jsstring list \<Rightarrow> bool" where
  "doc_fits eol ls \<longleftrightarrow> eol \<noteq> [] \<and> ls \<noteq> [] \<and> int (doc_size eol ls) < 2147483648"

fun changes_ok :: "jsstring \<Rightarrow> jsstring list \<Rightarrow> IModelContentChange list \<Rightarrow> bool" where
  "changes_ok eol ls [] \<longleftrightarrow> True"
| "changes_ok eol ls (ch # chs) \<longleftrightarrow>
     valid_change ls ch \<and> doc_fits eol (apply_change ls ch) \<and> changes_ok eol (apply_change ls ch) chs"

section \<open>The invariant\<close>

definition line_starts_match :: "'uri MirrorTextModel \<Rightarrow> bool" where
  "line_starts_match this \<longleftrightarrow>
     (\<forall>ps. mtm_lineStarts this = Some ps \<longrightarrow>
        PrefixSumComputer_wf ps \<and> psc_values ps = map (line_length (mtm_eol this)) (mtm_lines this))"

definition line_starts_ok :: "'uri MirrorTextModel \<Rightarrow> bool" where
  "line_starts_ok this \<longleftrightarrow> doc_fits (mtm_eol this) (mtm_lines this) \<and> line_starts_match this"

definition MirrorTextModel_wf :: "'uri MirrorTextModel \<Rightarrow> bool" where
  "MirrorTextModel_wf this \<longleftrightarrow>
     line_starts_ok this \<and>
     (\<forall>t. mtm_cachedTextValue this = Some t \<longrightarrow> t = js_join (mtm_eol this) (mtm_lines this))"

lemma doc_size_simps [simp]:
  "doc_size eol [] = 0" "doc_size eol (l # ls) = length l + length eol + doc_size eol ls"
  "doc_size eol (ls @ ms) = doc_size eol ls + doc_size eol ms"
  by (simp_all add: doc_size_def)

lemma doc_size_append:
  "xs \<noteq> [] \<Longrightarrow> ys \<noteq> [] \<Longrightarrow> doc_size eol (doc_append xs ys) + length eol = doc_size eol xs + doc_size eol ys"
  by (cases xs rule: rev_cases; cases ys) (simp_all add: doc_append_def)

lemma doc_size_nth: "i < length ls \<Longrightarrow> length (ls ! i) + length eol \<le> doc_size eol ls"
  using doc_size_simps(3) [of eol "take i ls" "ls ! i # drop (Suc i) ls"] by (simp flip: id_take_nth_drop)

lemma length_le_doc_size: "eol \<noteq> [] \<Longrightarrow> length ls \<le> doc_size eol ls"
proof (induction ls)
  case (Cons l ls)
  have "0 < length eol" using Cons.prems by simp
  moreover have "length ls \<le> doc_size eol ls" using Cons by blast
  ultimately have "Suc (length ls) \<le> length l + length eol + doc_size eol ls" by linarith
  then show ?case by simp
qed simp

lemma doc_size_drop: "doc_size eol (drop n ls) \<le> doc_size eol ls"
  by (metis append_take_drop_id doc_size_simps(3) le_add2)

lemma doc_after_size:
  assumes "l2 < length ls" "l1 < l2 \<or> l1 = l2 \<and> c1 \<le> c2"
  shows "doc_size eol (doc_after ls l2 c2) \<le> doc_size eol (doc_after ls l1 c1)"
  using assms(2)
proof
  assume l: "l1 < l2"
  have "drop (Suc l1) ls = take (l2 - Suc l1) (drop (Suc l1) ls) @ drop l2 ls"
    using l by (metis append_take_drop_id drop_drop le_add_diff_inverse2 Suc_leI)
  then have "doc_size eol (drop l2 ls) \<le> doc_size eol (drop (Suc l1) ls)"
    by (metis doc_size_simps(3) le_add2)
  moreover have "doc_size eol (doc_after ls l2 c2) \<le> doc_size eol (drop l2 ls)"
    using assms(1) by (simp add: doc_after_def flip: Cons_nth_drop_Suc)
  ultimately show ?thesis by (simp add: doc_after_def)
next
  assume "l1 = l2 \<and> c1 \<le> c2"
  then show ?thesis by (simp add: doc_after_def diff_le_mono2)
qed

lemma doc_fits_bounds:
  assumes "doc_fits eol ls"
  shows "int (length ls) < 2147483648" "i < length ls \<Longrightarrow> int (length (ls ! i)) + int (length eol) < 2147483648"
  using assms length_le_doc_size [of eol ls] doc_size_nth [of i ls eol] by (auto simp: doc_fits_def)

lemma setLineText_correct:
  assumes "line_starts_match this" "k < length (mtm_lines this)"
    and x: "int (length v) + int (length (mtm_eol this)) < 2147483648"
  shows "line_starts_match (MirrorTextModel_setLineText (int k) v this)"
    "mtm_lines (MirrorTextModel_setLineText (int k) v this) = (mtm_lines this)[k := v]"
    "mtm_eol (MirrorTextModel_setLineText (int k) v this) = mtm_eol this"
proof -
  show "line_starts_match (MirrorTextModel_setLineText (int k) v this)"
  proof (cases "mtm_lineStarts this")
    case None
    then show ?thesis by (simp add: line_starts_match_def MirrorTextModel_setLineText_def)
  next
    case (Some ps)
    then have ps: "PrefixSumComputer_wf ps" "psc_values ps = map (line_length (mtm_eol this)) (mtm_lines this)"
      using assms(1) by (simp_all add: line_starts_match_def)
    obtain b ps' where "PrefixSumComputer_setValue (int k) (int (length v) + int (length (mtm_eol this))) ps = (b, ps')"
        "PrefixSumComputer_wf ps'"
        "psc_values ps' = (psc_values ps)[k := word_of_int (int (length v) + int (length (mtm_eol this)))]"
      using setValue_correct [OF ps(1), of k "int (length v) + int (length (mtm_eol this))"] x assms(2) ps(2) by auto
    then show ?thesis
      using Some ps(2)
      by (simp add: line_starts_match_def MirrorTextModel_setLineText_def map_update line_length_def)
  qed
qed (simp_all add: MirrorTextModel_setLineText_def)

text \<open>A range in 0-based lines and columns.\<close>

lemma arr_get_line: "1 \<le> n \<Longrightarrow> n \<le> int (length ls) \<Longrightarrow> arr_get ls (n - 1) = Inr (ls ! nat (n - 1))"
  using arr_get_nat [of "nat (n - 1)" ls] by simp

lemma doc_fits_shrink: "doc_fits eol ls \<Longrightarrow> ms \<noteq> [] \<Longrightarrow> doc_size eol ms \<le> doc_size eol ls \<Longrightarrow> doc_fits eol ms"
  by (simp add: doc_fits_def)

lemma doc_join_size:
  assumes "l1 < length ls" "l2 < length ls" "l1 < l2 \<or> l1 = l2 \<and> c1 \<le> c2"
  shows "doc_size eol (doc_append (doc_before ls l1 c1) (doc_after ls l2 c2)) \<le> doc_size eol ls"
proof -
  have "doc_size eol (doc_append (doc_before ls l1 c1) (doc_after ls l2 c2)) + length eol \<le>
      doc_size eol (doc_append (doc_before ls l1 c1) (doc_after ls l1 c1)) + length eol"
    using doc_after_size [OF assms(2,3), of eol]
    by (subst (1 2) doc_size_append) (simp_all add: doc_before_def doc_after_def)
  then show ?thesis using doc_before_after [OF assms(1)] by simp
qed

lemma acceptDeleteRange_correct:
  fixes this :: "'uri MirrorTextModel" and ch :: IModelContentChange
  assumes ok: "line_starts_ok this" and v: "valid_change (mtm_lines this) ch"
  shows "\<exists>this'. MirrorTextModel_acceptDeleteRange (change_range ch) this = Inr this' \<and>
     line_starts_ok this' \<and> mtm_eol this' = mtm_eol this \<and>
     mtm_lines this' = doc_append (before_change (mtm_lines this) ch) (after_change (mtm_lines this) ch)"
proof -
  define r ls where "r = change_range ch" and "ls = mtm_lines this"
  define l1 c1 l2 c2 where "l1 = nat (startLineNumber r - 1)" and "c1 = nat (startColumn r - 1)"
    and "l2 = nat (endLineNumber r - 1)" and "c2 = nat (endColumn r - 1)"
  have r: "startLineNumber r = int l1 + 1" "startColumn r = int c1 + 1" "endLineNumber r = int l2 + 1"
    "endColumn r = int c2 + 1" "l1 < length ls" "l2 < length ls" "l1 < l2 \<or> l1 = l2 \<and> c1 \<le> c2"
    "c1 \<le> length (ls ! l1)" "c2 \<le> length (ls ! l2)"
    using v by (auto simp: valid_change_def Let_def r_def ls_def l1_def c1_def l2_def c2_def range_ends Position_order)
  define v where "v = take c1 (ls ! l1) @ drop c2 (ls ! l2)"
  define out where "out = take l1 ls @ v # drop (Suc l2) ls"
  have join: "doc_append (doc_before ls l1 c1) (doc_after ls l2 c2) = out"
    by (simp add: doc_append_def doc_before_def doc_after_def out_def v_def)
  have goal: "doc_append (before_change ls ch) (after_change ls ch) = out"
    using join by (simp add: before_change_def after_change_def l1_def l2_def c1_def c2_def r_def)
  have fits: "doc_fits (mtm_eol this) ls" and match: "line_starts_match this"
    using ok by (simp_all add: line_starts_ok_def ls_def)
  have fits': "doc_fits (mtm_eol this) out"
    using doc_join_size [OF r(5,6,7), of "mtm_eol this"] unfolding join
    by (intro doc_fits_shrink [OF fits]) (simp_all add: out_def)
  have x: "int (length v) + int (length (mtm_eol this)) < 2147483648"
    using doc_fits_bounds(2) [OF fits', of l1] r(5) by (simp add: out_def nth_append)
  have get: "arr_get ls (int l1) = Inr (ls ! l1)" "arr_get ls (int l2) = Inr (ls ! l2)" using r(5,6) by simp_all
  define this1 where "this1 = MirrorTextModel_setLineText (int l1) v this"
  have set: "line_starts_match this1" "mtm_lines this1 = ls[l1 := v]" "mtm_eol this1 = mtm_eol this"
    using setLineText_correct [OF match _ x] r(5) by (simp_all add: this1_def ls_def)
  show ?thesis
  proof (cases "l1 = l2")
    case True
    have upd: "ls[l1 := v] = out" using True r(5) by (simp add: upd_conv_take_nth_drop out_def)
    show ?thesis
    proof (cases "c1 = c2")
      case True
      then have "v = ls ! l1" using \<open>l1 = l2\<close> by (simp add: v_def)
      then have "out = ls" using upd by simp
      then show ?thesis
        using ok True \<open>l1 = l2\<close> r goal
        by (simp add: MirrorTextModel_acceptDeleteRange_def r_def [symmetric] ls_def [symmetric])
    next
      case False
      then have "MirrorTextModel_acceptDeleteRange r this = Inr this1"
        using r get \<open>l1 = l2\<close>
        by (simp add: MirrorTextModel_acceptDeleteRange_def ls_def [symmetric] js_substring_prefix js_substring_suffix
            v_def this1_def)
      then show ?thesis
        using set fits' goal upd by (simp add: line_starts_ok_def ls_def [symmetric] r_def [symmetric])
    qed
  next
    case False
    then have l: "l1 < l2" using r(7) by simp
    define this2 where "this2 = this1\<lparr>mtm_lines := out\<rparr>"
    have upd: "take (Suc l1) (ls[l1 := v]) = take l1 ls @ [v]" "drop (Suc l2) (ls[l1 := v]) = drop (Suc l2) ls"
      "Suc l1 + (l2 - l1) = Suc l2"
      using r(5) l by (simp_all add: take_Suc_conv_app_nth)
    then have "arr_splice (ls[l1 := v]) (Suc l1) (l2 - l1) [] = out" by (simp add: arr_splice_def out_def)
    moreover have "slice_index (length (ls[l1 := v])) (int l1 + 1) = Suc l1"
      using r(5) by (simp add: slice_index_def nat_add_distrib)
    moreover have "nat (int l2 - int l1) = l2 - l1" by simp
    ultimately have del: "MirrorTextModel_acceptDeleteRange r this =
        (case mtm_lineStarts this1 of None \<Rightarrow> Inr this2
         | Some ps \<Rightarrow> result_map (\<lambda>(b, ps'). this2\<lparr>mtm_lineStarts := Some ps'\<rparr>)
             (PrefixSumComputer_removeValues (int l1 + 1) (int l2 - int l1) ps))"
      using r(1-4) get l set(2)
      by (cases "mtm_lineStarts this1") (simp_all add: MirrorTextModel_acceptDeleteRange_def Let_def ls_def [symmetric] js_substring_prefix js_substring_suffix
          v_def [symmetric] this1_def [symmetric] this2_def)
    show ?thesis
    proof (cases "mtm_lineStarts this1")
      case None
      then show ?thesis
        using del fits' set(3) goal
        by (simp add: line_starts_ok_def line_starts_match_def this2_def ls_def [symmetric] r_def [symmetric])
    next
      case (Some ps)
      then have ps: "PrefixSumComputer_wf ps" "psc_values ps = map (line_length (mtm_eol this)) (ls[l1 := v])"
        using set by (simp_all add: line_starts_match_def)
      have "int (l2 - l1) < 2147483648" "int (Suc l1) < 2147483648"
        using doc_fits_bounds(1) [OF fits] r(5,6) by simp_all
      from removeValues_correct [OF ps(1) this] l obtain b ps' where
        "PrefixSumComputer_removeValues (int l1 + 1) (int l2 - int l1) ps = Inr (b, ps')" "PrefixSumComputer_wf ps'"
        "psc_values ps' = take (Suc l1) (psc_values ps) @ drop (Suc l1 + (l2 - l1)) (psc_values ps)"
        by (auto simp: add.commute)
      moreover from this(3) have "psc_values ps' = map (line_length (mtm_eol this)) out"
        unfolding ps(2) upd(3) by (simp only: take_map drop_map upd(1,2)) (simp add: out_def)
      ultimately show ?thesis
        using del Some fits' set(3) goal
        by (simp add: line_starts_ok_def line_starts_match_def this2_def ls_def [symmetric] r_def [symmetric])
    qed
  qed
qed

lemma insertLines_loop_eq:
  "k \<le> length ls \<Longrightarrow> insertLines_loop (int k) ns ls = take k ls @ ns @ drop k ls"
proof (induction ns arbitrary: k ls)
  case (Cons n ns)
  have "arr_splice ls (slice_index (length ls) (int k)) 0 [n] = take k ls @ n # drop k ls"
    using Cons.prems by (simp add: arr_splice_def slice_index_def)
  then show ?case
    using Cons.IH [of "Suc k" "take k ls @ n # drop k ls"] Cons.prems by (simp add: add.commute)
qed simp

lemma acceptInsertText_correct:
  fixes this :: "'uri MirrorTextModel" and l c :: nat and t :: jsstring
  defines "ls \<equiv> mtm_lines this"
  defines "out \<equiv> doc_append (doc_append (doc_before ls l c) (splitLines t)) (doc_after ls l c)"
  assumes ok: "line_starts_ok this" and l: "l < length ls" and fits: "doc_fits (mtm_eol this) out"
  shows "\<exists>this'. MirrorTextModel_acceptInsertText (new_Position (int l + 1) (int c + 1)) t this = Inr this' \<and>
     line_starts_ok this' \<and> mtm_eol this' = mtm_eol this \<and> mtm_lines this' = out"
proof -
  have match: "line_starts_match this" using ok by (simp add: line_starts_ok_def)
  have get: "arr_get ls (int l) = Inr (ls ! l)" using l by simp
  note sub = js_substring_prefix js_substring_suffix
  consider "t = []" | x where "t \<noteq> []" "splitLines t = [x]" | x ms y where "splitLines t = x # ms @ [y]"
    by (metis neq_Nil_conv rev_exhaust splitLines_nonempty)
  then show ?thesis
  proof cases
    case 1
    then have "out = ls" using l doc_before_after [OF l, of c]
      by (simp add: out_def doc_append_def doc_before_def doc_after_def)
    then show ?thesis using 1 ok by (simp add: MirrorTextModel_acceptInsertText_def ls_def)
  next
    case (2 x)
    define v where "v = take c (ls ! l) @ x @ drop c (ls ! l)"
    have out: "out = ls[l := v]"
      using l 2(2) by (simp add: out_def doc_append_def doc_before_def doc_after_def v_def upd_conv_take_nth_drop)
    have x: "int (length v) + int (length (mtm_eol this)) < 2147483648"
      using doc_fits_bounds(2) [OF fits, of l] l by (simp add: out)
    have "MirrorTextModel_acceptInsertText (new_Position (int l + 1) (int c + 1)) t this =
        Inr (MirrorTextModel_setLineText (int l) v this)"
      using 2 get by (simp add: MirrorTextModel_acceptInsertText_def Let_def ls_def [symmetric] sub v_def)
    then show ?thesis
      using setLineText_correct [OF match _ x, of l] l out fits by (simp add: line_starts_ok_def ls_def)
  next
    case (3 x ms y)
    define v where "v = take c (ls ! l) @ x"
    define ns where "ns = ms @ [y @ drop c (ls ! l)]"
    have out: "out = take l ls @ v # ns @ drop (Suc l) ls"
      using l 3 by (simp add: out_def doc_append_def doc_before_def doc_after_def v_def ns_def butlast_append)
    have x: "int (length v) + int (length (mtm_eol this)) < 2147483648"
      using doc_fits_bounds(2) [OF fits, of l] l by (simp add: out nth_append)
    define this1 where "this1 = MirrorTextModel_setLineText (int l) v this"
    have set: "line_starts_match this1" "mtm_lines this1 = ls[l := v]" "mtm_eol this1 = mtm_eol this"
      using setLineText_correct [OF match _ x] l by (simp_all add: this1_def ls_def)
    have upd: "take (Suc l) (ls[l := v]) = take l ls @ [v]" "drop (Suc l) (ls[l := v]) = drop (Suc l) ls"
      using l by (simp_all add: take_Suc_conv_app_nth)
    have "insertLines_loop (int l + 1) ns (ls[l := v]) = out"
      using insertLines_loop_eq [of "Suc l" "ls[l := v]" ns] l upd by (simp add: out add.commute)
    moreover have "t \<noteq> []" using 3 by auto
    ultimately have ins: "MirrorTextModel_acceptInsertText (new_Position (int l + 1) (int c + 1)) t this =
        (case mtm_lineStarts this1 of None \<Rightarrow> Inr (this1\<lparr>mtm_lines := out\<rparr>)
         | Some ps \<Rightarrow> result_map (\<lambda>(b, ps'). this1\<lparr>mtm_lines := out, mtm_lineStarts := Some ps'\<rparr>)
             (PrefixSumComputer_insertValues (int l + 1) (map (line_length (mtm_eol this)) ns) ps))"
      using 3 get set(2)
      by (cases "mtm_lineStarts this1")
        (simp_all add: MirrorTextModel_acceptInsertText_def Let_def ls_def [symmetric] sub list_update_append
          ns_def v_def [symmetric] this1_def [symmetric])
    show ?thesis
    proof (cases "mtm_lineStarts this1")
      case None
      then show ?thesis
        using ins fits set(3) by (simp add: line_starts_ok_def line_starts_match_def)
    next
      case (Some ps)
      then have ps: "PrefixSumComputer_wf ps" "psc_values ps = map (line_length (mtm_eol this)) (ls[l := v])"
        using set by (simp_all add: line_starts_match_def)
      have "int (length (psc_values ps) + length (map (line_length (mtm_eol this)) ns)) < 2147483648"
        using doc_fits_bounds(1) [OF fits] l by (simp add: ps(2) out)
      from insertValues_correct [OF ps(1) _ this, of "Suc l"] l obtain b ps' where
        "PrefixSumComputer_insertValues (int l + 1) (map (line_length (mtm_eol this)) ns) ps = Inr (b, ps')"
        "PrefixSumComputer_wf ps'"
        "psc_values ps' = take (Suc l) (psc_values ps) @ map (line_length (mtm_eol this)) ns @ drop (Suc l) (psc_values ps)"
        by (auto simp: add.commute ps(2))
      moreover from this(3) have "psc_values ps' = map (line_length (mtm_eol this)) out"
        unfolding ps(2) by (simp only: take_map drop_map upd) (simp add: out)
      ultimately show ?thesis
        using ins Some fits set(3) by (simp add: line_starts_ok_def line_starts_match_def)
    qed
  qed
qed

text \<open>Where a document that was put together is cut again.\<close>

lemma doc_before_append:
  "xs \<noteq> [] \<Longrightarrow> doc_before (doc_append xs ys) (length xs - 1) (length (last xs)) = xs"
  by (cases xs rule: rev_cases) (simp_all add: doc_before_def doc_append_def)

lemma doc_after_append:
  "xs \<noteq> [] \<Longrightarrow> ys \<noteq> [] \<Longrightarrow> doc_after (doc_append xs ys) (length xs - 1) (length (last xs)) = ys"
  by (cases xs rule: rev_cases; cases ys) (simp_all add: doc_after_def doc_append_def)

lemma acceptChange_correct:
  fixes this :: "'uri MirrorTextModel"
  assumes ok: "line_starts_ok this" and v: "valid_change (mtm_lines this) ch"
    and fits: "doc_fits (mtm_eol this) (apply_change (mtm_lines this) ch)"
  shows "\<exists>this'. acceptChange ch this = Inr this' \<and> line_starts_ok this' \<and> mtm_eol this' = mtm_eol this \<and>
     mtm_lines this' = apply_change (mtm_lines this) ch"
proof -
  define ls A B where "ls = mtm_lines this" and "A = before_change ls ch" and "B = after_change ls ch"
  define l c where "l = nat (startLineNumber (change_range ch) - 1)" and "c = nat (startColumn (change_range ch) - 1)"
  have pos: "startLineNumber (change_range ch) = int l + 1" "startColumn (change_range ch) = int c + 1"
    "l < length ls" "c \<le> length (ls ! l)"
    using v by (auto simp: valid_change_def Let_def l_def c_def ls_def range_ends Position_order)
  have A: "A \<noteq> []" "length A - 1 = l" "length (last A) = c" and B: "B \<noteq> []"
    using pos(3,4) by (simp_all add: A_def B_def before_change_def after_change_def doc_before_def doc_after_def
        l_def [symmetric] c_def [symmetric])
  obtain this1 where this1: "MirrorTextModel_acceptDeleteRange (change_range ch) this = Inr this1"
      "line_starts_ok this1" "mtm_eol this1 = mtm_eol this" "mtm_lines this1 = doc_append A B"
    using acceptDeleteRange_correct [OF ok v] by (auto simp: A_def B_def ls_def)
  have cut: "doc_before (doc_append A B) l c = A" "doc_after (doc_append A B) l c = B"
    using doc_before_append [OF A(1), of B] doc_after_append [OF A(1) B] A by simp_all
  have "l < length (doc_append A B)" using A by (cases A rule: rev_cases) (simp_all add: doc_append_def)
  moreover have "doc_fits (mtm_eol this1) (doc_append (doc_append A (splitLines (change_text ch))) B)"
    using fits this1(3) by (simp add: apply_change_def A_def B_def ls_def)
  ultimately obtain this2 where "MirrorTextModel_acceptInsertText (new_Position (int l + 1) (int c + 1)) (change_text ch) this1 = Inr this2"
      "line_starts_ok this2" "mtm_eol this2 = mtm_eol this1"
      "mtm_lines this2 = doc_append (doc_append A (splitLines (change_text ch))) B"
    using acceptInsertText_correct [OF this1(2), of l c "change_text ch"] unfolding this1(4) cut by blast
  then show ?thesis
    using this1 pos(1,2) by (simp add: acceptChange_def apply_change_def A_def B_def ls_def)
qed

lemma acceptChanges_correct:
  fixes this :: "'uri MirrorTextModel"
  assumes "line_starts_ok this" "changes_ok (mtm_eol this) (mtm_lines this) chs"
  shows "\<exists>this'. result_fold acceptChange chs this = Inr this' \<and> line_starts_ok this' \<and>
     mtm_eol this' = mtm_eol this \<and> mtm_lines this' = foldl apply_change (mtm_lines this) chs"
  using assms
proof (induction chs arbitrary: this)
  case (Cons ch chs)
  obtain this1 where "acceptChange ch this = Inr this1" "line_starts_ok this1" "mtm_eol this1 = mtm_eol this"
      "mtm_lines this1 = apply_change (mtm_lines this) ch"
    using acceptChange_correct [OF Cons.prems(1)] Cons.prems(2) by auto
  with Cons.IH [of this1] Cons.prems(2) show ?case by auto
qed simp

lemma getText_correct:
  "MirrorTextModel_wf this \<Longrightarrow>
     fst (MirrorTextModel_getText this) = js_join (mtm_eol this) (mtm_lines this) \<and>
     MirrorTextModel_wf (snd (MirrorTextModel_getText this)) \<and>
     mtm_lines (snd (MirrorTextModel_getText this)) = mtm_lines this"
  by (auto simp: MirrorTextModel_getText_def MirrorTextModel_wf_def line_starts_ok_def line_starts_match_def
      Let_def split: option.splits)

section \<open>Line starts as offsets of the text\<close>

lemma length_js_join: "ls \<noteq> [] \<Longrightarrow> length (js_join eol ls) + length eol = doc_size eol ls"
  by (induction eol ls rule: js_join.induct) auto

lemma uint_line_length:
  "int (length l) + int (length eol) < 4294967296 \<Longrightarrow> uint (line_length eol l) = int (length l + length eol)"
  unfolding line_length_def by (simp add: uint_word_of_int del: of_int_add of_int_of_nat_eq)

lemma sum_line_lengths:
  assumes "int (doc_size eol ls) < 4294967296"
  shows "sum_list (map uint (map (line_length eol) ls)) = int (doc_size eol ls)"
  using assms
proof (induction ls)
  case (Cons l ls)
  then show ?case by (simp add: uint_line_length)
qed simp

lemma ensureLineStarts_correct:
  assumes "MirrorTextModel_wf this"
  shows "MirrorTextModel_wf (MirrorTextModel_ensureLineStarts this)"
    "mtm_lines (MirrorTextModel_ensureLineStarts this) = mtm_lines this"
    "mtm_eol (MirrorTextModel_ensureLineStarts this) = mtm_eol this"
    "\<exists>ps. mtm_lineStarts (MirrorTextModel_ensureLineStarts this) = Some ps"
  using assms doc_fits_bounds(1) [of "mtm_eol this" "mtm_lines this"]
  by (auto simp: MirrorTextModel_ensureLineStarts_def MirrorTextModel_wf_def line_starts_ok_def line_starts_match_def
      new_PrefixSumComputer_wf split: option.splits) (simp_all add: new_PrefixSumComputer_def)

lemma line_start_prefix_sum:
  assumes "line_starts_ok this" "mtm_lineStarts this = Some ps" "l < length (mtm_lines this)"
  shows "fst (PrefixSumComputer_getPrefixSum (int l - 1) ps) =
     Some (int (length (js_join (mtm_eol this) (doc_before (mtm_lines this) l 0))))"
proof -
  let ?e = "mtm_eol this" and ?ls = "mtm_lines this"
  have ps: "PrefixSumComputer_wf ps" "psc_values ps = map (line_length ?e) ?ls"
    and size: "int (doc_size ?e ?ls) < 2147483648"
    using assms by (auto simp: line_starts_ok_def line_starts_match_def doc_fits_def)
  have take: "int (doc_size ?e (take l ?ls)) < 4294967296"
    using size doc_size_simps(3) [of ?e "take l ?ls" "drop l ?ls"] by simp
  have "fst (PrefixSumComputer_getPrefixSum (int l - 1) ps) = Some (uint (wsum (psc_values ps) l))"
    using getPrefixSum_correct [OF ps(1), of l] assms(3) ps(2) by auto
  also have "uint (wsum (psc_values ps) l) = int (doc_size ?e (take l ?ls))"
    using sum_line_lengths [OF take] sum_line_lengths [of ?e ?ls] uint_wsum [of "psc_values ps" l] size
    by (simp add: ps(2) take_map)
  also have "doc_size ?e (take l ?ls) = length (js_join ?e (doc_before ?ls l 0))"
    using length_js_join [of "doc_before ?ls l 0" ?e] by (simp add: doc_before_def)
  finally show ?thesis by simp
qed

section \<open>Properties\<close>

text \<open>
  C2. Replaying an event. For a well-formed mirror and changes that are valid when they
  are applied (and keep the document below the size the line-start table can hold),
  \<open>onEvents\<close> does not throw, the lines become the lines of the document with every range
  replaced in turn, the end-of-line sequence and version are those of the event, and the
  invariant holds again: both caches describe the new document.
\<close>

theorem MirrorTextModel_onEvents_replays_changes:
  fixes this :: "'uri MirrorTextModel"
  defines "eol' \<equiv> \<lambda>e. if event_eol e \<noteq> [] then event_eol e else mtm_eol this"
  assumes "MirrorTextModel_wf this" "doc_fits (eol' e) (mtm_lines this)"
    and "changes_ok (eol' e) (mtm_lines this) (event_changes e)"
  shows "\<exists>this'. MirrorTextModel_onEvents e this = Inr this' \<and> MirrorTextModel_wf this' \<and>
     mtm_lines this' = foldl apply_change (mtm_lines this) (event_changes e) \<and>
     mtm_eol this' = eol' e \<and> MirrorTextModel_version this' = event_versionId e \<and>
     fst (MirrorTextModel_getText this') =
       js_join (eol' e) (foldl apply_change (mtm_lines this) (event_changes e))"
proof -
  define this1 where "this1 = (if event_eol e \<noteq> [] \<and> event_eol e \<noteq> mtm_eol this
      then this\<lparr>mtm_eol := event_eol e, mtm_lineStarts := None\<rparr> else this)"
  have this1: "mtm_lines this1 = mtm_lines this" "mtm_eol this1 = eol' e" by (auto simp: this1_def eol'_def)
  have "line_starts_ok this1"
    using assms(2,3) this1 by (auto simp: this1_def MirrorTextModel_wf_def line_starts_ok_def line_starts_match_def)
  from acceptChanges_correct [OF this, of "event_changes e"] assms(4) this1
  obtain this2 where this2: "result_fold acceptChange (event_changes e) this1 = Inr this2" "line_starts_ok this2"
    "mtm_eol this2 = eol' e" "mtm_lines this2 = foldl apply_change (mtm_lines this) (event_changes e)" by auto
  define out where "out = this2\<lparr>mtm_versionId := event_versionId e, mtm_cachedTextValue := None\<rparr>"
  have "MirrorTextModel_onEvents e this = Inr out"
    using this2(1) by (simp add: MirrorTextModel_onEvents_def this1_def [symmetric] out_def)
  moreover have wf: "MirrorTextModel_wf out"
    using this2(2) by (simp add: MirrorTextModel_wf_def out_def line_starts_ok_def line_starts_match_def)
  ultimately show ?thesis
    using this2(3,4) getText_correct [OF wf] by (auto simp: out_def MirrorTextModel_version_def)
qed

theorem MirrorTextModel_onEvents_replays_changes_witness:
  "\<exists>this'. MirrorTextModel_onEvents
       \<lparr>event_changes = [\<lparr>change_range = new_Range 1 2 2 2, change_rangeOffset = 1, change_rangeLength = 3, change_text = [88, 10, 89]\<rparr>], event_eol = [10], event_versionId = 2, event_isUndoing = False, event_isRedoing = False\<rparr>
       (new_MirrorTextModel () [[97, 98], [99, 100]] [10] 1) = Inr this' \<and>
     mtm_lines this' = [[97, 88], [89, 100]]"
proof -
  let ?ch = "\<lparr>change_range = new_Range 1 2 2 2, change_rangeOffset = 1, change_rangeLength = 3, change_text = [88, 10, 89]\<rparr>"
  let ?ls = "[[97, 98], [99, 100]] :: jsstring list"
  have split: "splitLines [88, 10, 89] = [[88], [89]]" by (simp add: splitLines.simps(2))
  have ap: "apply_change ?ls ?ch = [[97, 88], [89, 100]]"
    by (simp add: apply_change_def before_change_def after_change_def doc_append_def doc_before_def doc_after_def
        new_Range_def split)
  have "valid_change ?ls ?ch"
    by (simp add: valid_change_def new_Range_def range_ends Position_order)
  then show ?thesis
    using MirrorTextModel_onEvents_replays_changes [of "new_MirrorTextModel () ?ls [10] 1"
        "\<lparr>event_changes = [?ch], event_eol = [10], event_versionId = 2, event_isUndoing = False, event_isRedoing = False\<rparr>"] ap
    by (auto simp: new_MirrorTextModel_def MirrorTextModel_wf_def line_starts_ok_def line_starts_match_def doc_fits_def)
qed

text \<open>
  The effect of one change on the text: the new text is the text before the start of
  the range, the inserted text with its line breaks replaced by the end-of-line sequence,
  and the text after the end of the range; and an empty replacement of an empty range
  leaves the document alone.
\<close>

theorem apply_change_replaces_range_of_text:
  assumes "valid_change ls ch"
  shows "js_join eol (apply_change ls ch) =
           js_join eol (before_change ls ch) @ js_join eol (splitLines (change_text ch)) @
           js_join eol (after_change ls ch) \<and>
         (rstart (change_range ch) = rend (change_range ch) \<and> change_text ch = [] \<longrightarrow> apply_change ls ch = ls)"
proof (intro conjI impI)
  have ne: "before_change ls ch \<noteq> []" "after_change ls ch \<noteq> []"
    by (simp_all add: before_change_def after_change_def doc_before_def doc_after_def)
  then show "js_join eol (apply_change ls ch) =
      js_join eol (before_change ls ch) @ js_join eol (splitLines (change_text ch)) @ js_join eol (after_change ls ch)"
    by (simp add: apply_change_def js_join_doc_append)
  assume h: "rstart (change_range ch) = rend (change_range ch) \<and> change_text ch = []"
  have "doc_append (before_change ls ch) [[]] = before_change ls ch"
    by (simp add: before_change_def doc_append_def doc_before_def)
  moreover have "nat (startLineNumber (change_range ch) - 1) < length ls"
    using assms by (auto simp: valid_change_def Let_def range_ends Position_order)
  ultimately show "apply_change ls ch = ls"
    using h doc_before_after by (auto simp: apply_change_def before_change_def after_change_def range_ends)
qed

theorem apply_change_replaces_range_of_text_witness:
  "js_join [10] (apply_change [[97, 98], [99]] \<lparr>change_range = new_Range 1 2 2 1, change_rangeOffset = 1, change_rangeLength = 2, change_text = [88]\<rparr>) = [97, 88, 99]"
proof -
  let ?ch = "\<lparr>change_range = new_Range 1 2 2 1, change_rangeOffset = 1, change_rangeLength = 2, change_text = [88]\<rparr>"
  have "valid_change [[97, 98], [99]] ?ch" by (simp add: valid_change_def new_Range_def range_ends Position_order)
  moreover have "splitLines [88] = [[88]]" by (simp add: splitLines.simps(2))
  ultimately show ?thesis
    using apply_change_replaces_range_of_text [of "[[97, 98], [99]]" ?ch "[10]"]
    by (simp add: before_change_def after_change_def doc_before_def doc_after_def new_Range_def)
qed

text \<open>
  C37. After \<open>_ensureLineStarts\<close> the prefix sum before every line is the offset at which
  the line starts in the text the model returns.
\<close>

theorem MirrorTextModel_line_starts_are_offsets:
  assumes "MirrorTextModel_wf this" "l < length (mtm_lines this)"
  shows "\<exists>ps. mtm_lineStarts (MirrorTextModel_ensureLineStarts this) = Some ps \<and>
     MirrorTextModel_wf (MirrorTextModel_ensureLineStarts this) \<and>
     (\<exists>off. fst (PrefixSumComputer_getPrefixSum (int l - 1) ps) = Some (int off) \<and>
        drop off (fst (MirrorTextModel_getText this)) = js_join (mtm_eol this) (drop l (mtm_lines this)))"
proof -
  let ?t = "MirrorTextModel_ensureLineStarts this" and ?ls = "mtm_lines this"
  note e = ensureLineStarts_correct [OF assms(1)]
  obtain ps where ps: "mtm_lineStarts ?t = Some ps" using e(4) by blast
  have "line_starts_ok ?t" using e(1) by (simp add: MirrorTextModel_wf_def)
  then have "fst (PrefixSumComputer_getPrefixSum (int l - 1) ps) =
      Some (int (length (js_join (mtm_eol this) (doc_before ?ls l 0))))"
    using line_start_prefix_sum [OF _ ps, of l] e(2,3) assms(2) by simp
  moreover have "js_join (mtm_eol this) ?ls =
      js_join (mtm_eol this) (doc_before ?ls l 0) @ js_join (mtm_eol this) (doc_after ?ls l 0)"
  proof -
    have "doc_before ?ls l 0 \<noteq> []" "doc_after ?ls l 0 \<noteq> []" by (simp_all add: doc_before_def doc_after_def)
    from js_join_doc_append [OF this] show ?thesis by (simp only: doc_before_after [OF assms(2)])
  qed
  moreover have "doc_after ?ls l 0 = drop l ?ls" using assms(2) by (simp add: doc_after_def Cons_nth_drop_Suc)
  ultimately show ?thesis using ps e(1) getText_correct [OF assms(1)] by simp
qed

theorem MirrorTextModel_line_starts_are_offsets_witness:
  "\<exists>ps off. mtm_lineStarts (MirrorTextModel_ensureLineStarts (new_MirrorTextModel () [[97, 98], [99]] [10] 1)) = Some ps \<and>
     fst (PrefixSumComputer_getPrefixSum 0 ps) = Some (int off) \<and>
     drop off (fst (MirrorTextModel_getText (new_MirrorTextModel () [[97, 98], [99]] [10] 1))) = [99]"
  using MirrorTextModel_line_starts_are_offsets [of "new_MirrorTextModel () [[97, 98], [99]] [10] 1" 1]
  by (auto simp: new_MirrorTextModel_def MirrorTextModel_wf_def line_starts_ok_def line_starts_match_def doc_fits_def)

end
