(* ===== verification/Ext_Types.thy ===== *)
theory Ext_Types
  imports Prelude
begin

text \<open>
  \<open>Position\<close> and \<open>Range\<close> of \<open>src/vs/workbench/api/common/extHostTypes.ts\<close>, the zero-based
  positions of the extension API. The optional arguments of \<open>translate\<close> and \<open>with\<close> are options;
  the overloads that take an object pass the same optional values.
\<close>

section \<open>Position\<close>

record ExtPosition =
  pos_line :: number
  pos_character :: number

definition new_ExtPosition :: "number \<Rightarrow> number \<Rightarrow> ExtPosition result" where
  "new_ExtPosition line character =
     (if line < 0 then Inl IllegalArgument
      else if character < 0 then Inl IllegalArgument
      else Inr \<lparr>pos_line = line, pos_character = character\<rparr>)"

definition ExtPosition_isBefore :: "ExtPosition \<Rightarrow> ExtPosition \<Rightarrow> bool" where
  "ExtPosition_isBefore this other \<longleftrightarrow>
     (if pos_line this < pos_line other then True
      else if pos_line other < pos_line this then False
      else pos_character this < pos_character other)"

definition ExtPosition_isBeforeOrEqual :: "ExtPosition \<Rightarrow> ExtPosition \<Rightarrow> bool" where
  "ExtPosition_isBeforeOrEqual this other \<longleftrightarrow>
     (if pos_line this < pos_line other then True
      else if pos_line other < pos_line this then False
      else pos_character this \<le> pos_character other)"

definition ExtPosition_isAfter :: "ExtPosition \<Rightarrow> ExtPosition \<Rightarrow> bool" where
  "ExtPosition_isAfter this other \<longleftrightarrow> \<not> ExtPosition_isBeforeOrEqual this other"

definition ExtPosition_isAfterOrEqual :: "ExtPosition \<Rightarrow> ExtPosition \<Rightarrow> bool" where
  "ExtPosition_isAfterOrEqual this other \<longleftrightarrow> \<not> ExtPosition_isBefore this other"

definition ExtPosition_isEqual :: "ExtPosition \<Rightarrow> ExtPosition \<Rightarrow> bool" where
  "ExtPosition_isEqual this other \<longleftrightarrow> pos_line this = pos_line other \<and> pos_character this = pos_character other"

definition ExtPosition_compareTo :: "ExtPosition \<Rightarrow> ExtPosition \<Rightarrow> number" where
  "ExtPosition_compareTo this other =
     (if pos_line this < pos_line other then - 1
      else if pos_line this > pos_line other then 1
      else if pos_character this < pos_character other then - 1
      else if pos_character this > pos_character other then 1
      else 0)"

definition ExtPosition_translate :: "number option \<Rightarrow> number option \<Rightarrow> ExtPosition \<Rightarrow> ExtPosition result" where
  "ExtPosition_translate lineDelta0 characterDelta0 this =
     (let lineDelta = (case lineDelta0 of None \<Rightarrow> 0 | Some d \<Rightarrow> d);
          characterDelta = (case characterDelta0 of None \<Rightarrow> 0 | Some d \<Rightarrow> d)
      in if lineDelta = 0 \<and> characterDelta = 0 then Inr this
         else new_ExtPosition (pos_line this + lineDelta) (pos_character this + characterDelta))"

definition ExtPosition_with :: "number option \<Rightarrow> number option \<Rightarrow> ExtPosition \<Rightarrow> ExtPosition result" where
  "ExtPosition_with line0 character0 this =
     (let line = (case line0 of None \<Rightarrow> pos_line this | Some l \<Rightarrow> l);
          character = (case character0 of None \<Rightarrow> pos_character this | Some c \<Rightarrow> c)
      in if line = pos_line this \<and> character = pos_character this then Inr this
         else new_ExtPosition line character)"

fun ExtPosition_Min_loop :: "ExtPosition \<Rightarrow> ExtPosition list \<Rightarrow> ExtPosition" where
  "ExtPosition_Min_loop res [] = res"
| "ExtPosition_Min_loop res (p # ps) = ExtPosition_Min_loop (if ExtPosition_isBefore p res then p else res) ps"

definition ExtPosition_Min :: "ExtPosition list \<Rightarrow> ExtPosition result" where
  "ExtPosition_Min positions = (case positions of [] \<Rightarrow> Inl TypeError | p # ps \<Rightarrow> Inr (ExtPosition_Min_loop p ps))"

fun ExtPosition_Max_loop :: "ExtPosition \<Rightarrow> ExtPosition list \<Rightarrow> ExtPosition" where
  "ExtPosition_Max_loop res [] = res"
| "ExtPosition_Max_loop res (p # ps) = ExtPosition_Max_loop (if ExtPosition_isAfter p res then p else res) ps"

definition ExtPosition_Max :: "ExtPosition list \<Rightarrow> ExtPosition result" where
  "ExtPosition_Max positions = (case positions of [] \<Rightarrow> Inl TypeError | p # ps \<Rightarrow> Inr (ExtPosition_Max_loop p ps))"

section \<open>Range\<close>

record ExtRange =
  ext_start :: ExtPosition
  ext_end :: ExtPosition

definition new_ExtRange :: "ExtPosition \<Rightarrow> ExtPosition \<Rightarrow> ExtRange" where
  "new_ExtRange s e =
     (if ExtPosition_isBefore s e then \<lparr>ext_start = s, ext_end = e\<rparr> else \<lparr>ext_start = e, ext_end = s\<rparr>)"

definition new_ExtRange_numbers :: "number \<Rightarrow> number \<Rightarrow> number \<Rightarrow> number \<Rightarrow> ExtRange result" where
  "new_ExtRange_numbers startLine startColumn endLine endColumn =
     result_bind (new_ExtPosition startLine startColumn) (\<lambda>s.
     result_map (new_ExtRange s) (new_ExtPosition endLine endColumn))"

definition ExtRange_containsPosition :: "ExtRange \<Rightarrow> ExtPosition \<Rightarrow> bool" where
  "ExtRange_containsPosition this p \<longleftrightarrow>
     (if ExtPosition_isBefore p (ext_start this) then False
      else if ExtPosition_isBefore (ext_end this) p then False
      else True)"

definition ExtRange_contains :: "ExtRange \<Rightarrow> ExtRange \<Rightarrow> bool" where
  "ExtRange_contains this r \<longleftrightarrow>
     ExtRange_containsPosition this (ext_start r) \<and> ExtRange_containsPosition this (ext_end r)"

definition ExtRange_isEqual :: "ExtRange \<Rightarrow> ExtRange \<Rightarrow> bool" where
  "ExtRange_isEqual this other \<longleftrightarrow>
     ExtPosition_isEqual (ext_start this) (ext_start other) \<and> ExtPosition_isEqual (ext_end this) (ext_end other)"

definition ExtRange_intersection :: "ExtRange \<Rightarrow> ExtRange \<Rightarrow> ExtRange option result" where
  "ExtRange_intersection this other =
     result_bind (ExtPosition_Max [ext_start other, ext_start this]) (\<lambda>s.
     result_map (\<lambda>e. if ExtPosition_isAfter s e then None else Some (new_ExtRange s e))
       (ExtPosition_Min [ext_end other, ext_end this]))"

definition ExtRange_union :: "ExtRange \<Rightarrow> ExtRange \<Rightarrow> ExtRange result" where
  "ExtRange_union this other =
     (if ExtRange_contains this other then Inr this
      else if ExtRange_contains other this then Inr other
      else
        result_bind (ExtPosition_Min [ext_start other, ext_start this]) (\<lambda>s.
        result_map (new_ExtRange s) (ExtPosition_Max [ext_end other, ext_end this])))"

definition ExtRange_isEmpty :: "ExtRange \<Rightarrow> bool" where
  "ExtRange_isEmpty this \<longleftrightarrow> ExtPosition_isEqual (ext_start this) (ext_end this)"

definition ExtRange_isSingleLine :: "ExtRange \<Rightarrow> bool" where
  "ExtRange_isSingleLine this \<longleftrightarrow> pos_line (ext_start this) = pos_line (ext_end this)"

definition ExtRange_with :: "ExtPosition option \<Rightarrow> ExtPosition option \<Rightarrow> ExtRange \<Rightarrow> ExtRange" where
  "ExtRange_with start0 end0 this =
     (let s = (case start0 of None \<Rightarrow> ext_start this | Some p \<Rightarrow> p);
          e = (case end0 of None \<Rightarrow> ext_end this | Some p \<Rightarrow> p)
      in if ExtPosition_isEqual s (ext_start this) \<and> ExtPosition_isEqual e (ext_end this) then this
         else new_ExtRange s e)"

section \<open>The order of positions\<close>

lemma ExtPosition_eqI: "pos_line p = pos_line q \<Longrightarrow> pos_character p = pos_character q \<Longrightarrow> p = (q :: ExtPosition)"
  by simp

abbreviation pos_le :: "ExtPosition \<Rightarrow> ExtPosition \<Rightarrow> bool" where
  "pos_le \<equiv> ExtPosition_isBeforeOrEqual"

lemma pos_le_refl [simp]: "pos_le p p" by (simp add: ExtPosition_isBeforeOrEqual_def)

lemma pos_le_trans: "pos_le p q \<Longrightarrow> pos_le q r \<Longrightarrow> pos_le p r"
  by (auto simp: ExtPosition_isBeforeOrEqual_def split: if_splits)

lemma pos_le_antisym: "pos_le p q \<Longrightarrow> pos_le q p \<Longrightarrow> p = q"
  by (auto simp: ExtPosition_isBeforeOrEqual_def intro!: ExtPosition_eqI split: if_splits)

lemma isBefore_iff: "ExtPosition_isBefore p q \<longleftrightarrow> \<not> pos_le q p"
  by (auto simp: ExtPosition_isBefore_def ExtPosition_isBeforeOrEqual_def)

lemma pos_le_total: "\<not> pos_le p q \<Longrightarrow> pos_le q p"
  by (auto simp: ExtPosition_isBeforeOrEqual_def split: if_splits)

lemma isEqual_iff: "ExtPosition_isEqual p q \<longleftrightarrow> p = q"
  by (auto simp: ExtPosition_isEqual_def)

definition ExtPosition_wf :: "ExtPosition \<Rightarrow> bool" where
  "ExtPosition_wf p \<longleftrightarrow> 0 \<le> pos_line p \<and> 0 \<le> pos_character p"

definition ExtRange_wf :: "ExtRange \<Rightarrow> bool" where
  "ExtRange_wf r \<longleftrightarrow> ExtPosition_wf (ext_start r) \<and> ExtPosition_wf (ext_end r) \<and> pos_le (ext_start r) (ext_end r)"

lemma new_ExtPosition_wf: "new_ExtPosition l c = Inr p \<Longrightarrow> ExtPosition_wf p"
  by (auto simp: new_ExtPosition_def ExtPosition_wf_def split: if_splits)

lemma new_ExtRange_wf: "ExtPosition_wf s \<Longrightarrow> ExtPosition_wf e \<Longrightarrow> ExtRange_wf (new_ExtRange s e)"
  by (auto simp: new_ExtRange_def ExtRange_wf_def isBefore_iff dest: pos_le_total)

lemma new_ExtRange_sorted: "pos_le s e \<Longrightarrow> new_ExtRange s e = \<lparr>ext_start = s, ext_end = e\<rparr>"
  by (auto simp: new_ExtRange_def isBefore_iff dest: pos_le_antisym)

lemma ext_containsPosition_iff:
  "ExtRange_containsPosition r p \<longleftrightarrow> pos_le (ext_start r) p \<and> pos_le p (ext_end r)"
  by (simp add: ExtRange_containsPosition_def isBefore_iff)

lemma Max_two: "ExtPosition_Max [p, q] = Inr (if pos_le q p then p else q)"
  by (simp add: ExtPosition_Max_def ExtPosition_isAfter_def)

lemma Min_two: "ExtPosition_Min [p, q] = Inr (if pos_le p q then p else q)"
  by (simp add: ExtPosition_Min_def isBefore_iff)

definition pos_max :: "ExtPosition \<Rightarrow> ExtPosition \<Rightarrow> ExtPosition" where
  "pos_max p q = (if pos_le q p then p else q)"

definition pos_min :: "ExtPosition \<Rightarrow> ExtPosition \<Rightarrow> ExtPosition" where
  "pos_min p q = (if pos_le p q then p else q)"

lemma pos_max_le_iff: "pos_le (pos_max p q) r \<longleftrightarrow> pos_le p r \<and> pos_le q r"
  unfolding pos_max_def using pos_le_trans pos_le_total by (smt (verit))

lemma le_pos_min_iff: "pos_le r (pos_min p q) \<longleftrightarrow> pos_le r p \<and> pos_le r q"
  unfolding pos_min_def using pos_le_trans pos_le_total by (smt (verit))

lemma pos_min_le: "pos_le (pos_min p q) p" "pos_le (pos_min p q) q"
  and le_pos_max: "pos_le p (pos_max p q)" "pos_le q (pos_max p q)"
  by (auto simp: pos_min_def pos_max_def dest: pos_le_total)

lemma pos_min_max_cases: "P p \<Longrightarrow> P q \<Longrightarrow> P (pos_min p q)" "P p \<Longrightarrow> P q \<Longrightarrow> P (pos_max p q)"
  by (simp_all add: pos_min_def pos_max_def)

lemma ExtRange_eqI: "ext_start r = s \<Longrightarrow> ext_end r = e \<Longrightarrow> r = \<lparr>ext_start = s, ext_end = e\<rparr>"
  by simp

lemma ExtRange_intersection_eq:
  "ExtRange_intersection a b =
     (let s = pos_max (ext_start b) (ext_start a); e = pos_min (ext_end b) (ext_end a)
      in Inr (if pos_le s e then Some \<lparr>ext_start = s, ext_end = e\<rparr> else None))"
  by (simp add: ExtRange_intersection_def Max_two Min_two pos_max_def pos_min_def ExtPosition_isAfter_def new_ExtRange_sorted Let_def)

lemma ExtRange_union_eq:
  assumes "ExtRange_wf a" "ExtRange_wf b"
  shows "ExtRange_union a b =
     Inr \<lparr>ext_start = pos_min (ext_start b) (ext_start a), ext_end = pos_max (ext_end b) (ext_end a)\<rparr>"
proof -
  have "pos_le (pos_min (ext_start b) (ext_start a)) (pos_max (ext_end b) (ext_end a))"
    using assms pos_min_le(1) le_pos_max(1) pos_le_trans unfolding ExtRange_wf_def by blast
  moreover have "ExtRange_contains a b \<Longrightarrow>
      a = \<lparr>ext_start = pos_min (ext_start b) (ext_start a), ext_end = pos_max (ext_end b) (ext_end a)\<rparr>"
    by (intro ExtRange_eqI) (auto simp: ExtRange_contains_def ext_containsPosition_iff pos_min_def pos_max_def dest: pos_le_antisym)
  moreover have "ExtRange_contains b a \<Longrightarrow>
      b = \<lparr>ext_start = pos_min (ext_start b) (ext_start a), ext_end = pos_max (ext_end b) (ext_end a)\<rparr>"
    by (intro ExtRange_eqI) (auto simp: ExtRange_contains_def ext_containsPosition_iff pos_min_def pos_max_def dest: pos_le_antisym)
  ultimately show ?thesis
    by (auto simp: ExtRange_union_def Min_two Max_two new_ExtRange_sorted pos_min_def [symmetric] pos_max_def [symmetric])
qed

section \<open>Properties\<close>

text \<open>
  Ranges of the extension API. On well-formed ranges \<open>intersection\<close> and \<open>union\<close> never
  throw. A position lies in the intersection exactly when it lies in both ranges, and there is
  none only when the ranges share no position; the union contains both ranges and is contained in every
  range that does. The order of the endpoints given to the constructor does not matter.
\<close>

theorem ExtRange_intersection_and_union:
  assumes "ExtRange_wf a" "ExtRange_wf b"
  shows "(\<exists>res. ExtRange_intersection a b = Inr res \<and>
           (case res of
              None \<Rightarrow> \<forall>p. \<not> (ExtRange_containsPosition a p \<and> ExtRange_containsPosition b p)
            | Some r \<Rightarrow> ExtRange_wf r \<and> (\<forall>p. ExtRange_containsPosition r p \<longleftrightarrow>
                ExtRange_containsPosition a p \<and> ExtRange_containsPosition b p))) \<and>
         (\<exists>u. ExtRange_union a b = Inr u \<and> ExtRange_wf u \<and> ExtRange_contains u a \<and> ExtRange_contains u b \<and>
           (\<forall>v. ExtRange_contains v a \<and> ExtRange_contains v b \<longrightarrow> ExtRange_contains v u)) \<and>
         new_ExtRange (ext_end a) (ext_start a) = a"
proof (intro conjI)
  let ?u = "\<lparr>ext_start = pos_min (ext_start b) (ext_start a), ext_end = pos_max (ext_end b) (ext_end a)\<rparr>"
  let ?s = "pos_max (ext_start b) (ext_start a)" and ?e = "pos_min (ext_end b) (ext_end a)"
  have le: "pos_le (ext_start a) (ext_end a)" "pos_le (ext_start b) (ext_end b)" using assms by (simp_all add: ExtRange_wf_def)
  show "new_ExtRange (ext_end a) (ext_start a) = a" using le(1) by (auto simp: new_ExtRange_def isBefore_iff)
  have both: "pos_le ?s p \<and> pos_le p ?e \<longleftrightarrow> ExtRange_containsPosition a p \<and> ExtRange_containsPosition b p" for p
    by (auto simp: ext_containsPosition_iff pos_max_le_iff le_pos_min_iff)
  have "ExtPosition_wf ?s" "ExtPosition_wf ?e" using assms by (auto simp: ExtRange_wf_def intro: pos_min_max_cases)
  then show "\<exists>res. ExtRange_intersection a b = Inr res \<and>
           (case res of
              None \<Rightarrow> \<forall>p. \<not> (ExtRange_containsPosition a p \<and> ExtRange_containsPosition b p)
            | Some r \<Rightarrow> ExtRange_wf r \<and> (\<forall>p. ExtRange_containsPosition r p \<longleftrightarrow>
                ExtRange_containsPosition a p \<and> ExtRange_containsPosition b p))"
    unfolding ExtRange_intersection_eq Let_def both [symmetric]
    by (auto simp: ext_containsPosition_iff ExtRange_wf_def dest: pos_le_trans)
  have "ExtRange_wf ?u"
    using assms pos_le_trans [OF pos_min_le(1) pos_le_trans [OF le(2) le_pos_max(1)]]
    by (auto simp: ExtRange_wf_def intro: pos_min_max_cases)
  moreover have "ExtRange_contains ?u a" "ExtRange_contains ?u b"
    using le pos_min_le le_pos_max pos_le_trans by (auto simp: ExtRange_contains_def ext_containsPosition_iff) blast+
  moreover have "ExtRange_contains v ?u" if "ExtRange_contains v a" "ExtRange_contains v b" for v
    using that by (auto simp: ExtRange_contains_def ext_containsPosition_iff intro: pos_min_max_cases)
  ultimately show "\<exists>u. ExtRange_union a b = Inr u \<and> ExtRange_wf u \<and> ExtRange_contains u a \<and> ExtRange_contains u b \<and>
           (\<forall>v. ExtRange_contains v a \<and> ExtRange_contains v b \<longrightarrow> ExtRange_contains v u)"
    using ExtRange_union_eq [OF assms] by blast
qed

theorem ExtRange_intersection_and_union_witness:
  "\<exists>u. ExtRange_union (new_ExtRange \<lparr>pos_line = 1, pos_character = 4\<rparr> \<lparr>pos_line = 0, pos_character = 2\<rparr>)
         (new_ExtRange \<lparr>pos_line = 1, pos_character = 0\<rparr> \<lparr>pos_line = 3, pos_character = 0\<rparr>) = Inr u \<and>
       ExtRange_contains u (new_ExtRange \<lparr>pos_line = 1, pos_character = 4\<rparr> \<lparr>pos_line = 0, pos_character = 2\<rparr>)"
  using ExtRange_intersection_and_union [OF
      new_ExtRange_wf [of "\<lparr>pos_line = 1, pos_character = 4\<rparr>" "\<lparr>pos_line = 0, pos_character = 2\<rparr>"]
      new_ExtRange_wf [of "\<lparr>pos_line = 1, pos_character = 0\<rparr>" "\<lparr>pos_line = 3, pos_character = 0\<rparr>"]]
  by (auto simp: ExtPosition_wf_def)

end
