(* ===== verification/Document_Data.thy ===== *)
theory Document_Data
  imports Mirror_Text Ext_Types
begin

text \<open>
  \<open>src/vs/workbench/api/common/extHostDocumentData.ts\<close>: the document an extension sees. It is
  a \<open>MirrorTextModel\<close> with zero-based positions: this theory puts the mirror, its prefix sums and the
  positions of the extension API together. Word ranges rest on the regular expression
  engine and saving on the main process; they are left out.
\<close>

section \<open>Lines of a document\<close>

record ExtHostDocumentLine =
  edl_line :: number
  edl_text :: jsstring
  edl_isLastLine :: bool

definition ExtHostDocumentLine_range :: "ExtHostDocumentLine \<Rightarrow> ExtRange result" where
  "ExtHostDocumentLine_range this = new_ExtRange_numbers (edl_line this) 0 (edl_line this) (int (length (edl_text this)))"

definition ExtHostDocumentLine_rangeIncludingLineBreak :: "ExtHostDocumentLine \<Rightarrow> ExtRange result" where
  "ExtHostDocumentLine_rangeIncludingLineBreak this =
     (if edl_isLastLine this then ExtHostDocumentLine_range this
      else new_ExtRange_numbers (edl_line this) 0 (edl_line this + 1) 0)"

text \<open>The characters of the class \<open>\s\<close> of the language.\<close>

definition is_js_space :: "16 word \<Rightarrow> bool" where
  "is_js_space c \<longleftrightarrow>
     0x9 \<le> c \<and> c \<le> 0xD \<or> c \<in> {0x20, 0xA0, 0x1680, 0x2028, 0x2029, 0x202F, 0x205F, 0x3000, 0xFEFF} \<or>
     0x2000 \<le> c \<and> c \<le> 0x200A"

definition firstNonWhitespaceCharacterIndex :: "ExtHostDocumentLine \<Rightarrow> number" where
  "firstNonWhitespaceCharacterIndex this = int (length (takeWhile is_js_space (edl_text this)))"

definition isEmptyOrWhitespace :: "ExtHostDocumentLine \<Rightarrow> bool" where
  "isEmptyOrWhitespace this \<longleftrightarrow> firstNonWhitespaceCharacterIndex this = int (length (edl_text this))"

section \<open>The document\<close>

record 'uri ExtHostDocumentData =
  edd_mirror :: "'uri MirrorTextModel"
  edd_languageId :: jsstring
  edd_isDirty :: bool
  edd_isDisposed :: bool

definition new_ExtHostDocumentData ::
  "'uri \<Rightarrow> jsstring list \<Rightarrow> jsstring \<Rightarrow> number \<Rightarrow> jsstring \<Rightarrow> bool \<Rightarrow> 'uri ExtHostDocumentData" where
  "new_ExtHostDocumentData u ls e v languageId isDirty =
     \<lparr>edd_mirror = new_MirrorTextModel u ls e v, edd_languageId = languageId, edd_isDirty = isDirty, edd_isDisposed = False\<rparr>"

definition ExtHostDocumentData_dispose :: "'uri ExtHostDocumentData \<Rightarrow> 'uri ExtHostDocumentData result" where
  "ExtHostDocumentData_dispose this =
     (if edd_isDisposed this then Inl PlainError else Inr (this\<lparr>edd_isDisposed := True, edd_isDirty := False\<rparr>))"

definition ExtHostDocumentData_acceptLanguageId :: "jsstring \<Rightarrow> 'uri ExtHostDocumentData \<Rightarrow> 'uri ExtHostDocumentData result" where
  "ExtHostDocumentData_acceptLanguageId newLanguageId this =
     (if edd_isDisposed this then Inl PlainError else Inr (this\<lparr>edd_languageId := newLanguageId\<rparr>))"

definition ExtHostDocumentData_acceptIsDirty :: "bool \<Rightarrow> 'uri ExtHostDocumentData \<Rightarrow> 'uri ExtHostDocumentData result" where
  "ExtHostDocumentData_acceptIsDirty isDirty this =
     (if edd_isDisposed this then Inl PlainError else Inr (this\<lparr>edd_isDirty := isDirty\<rparr>))"

abbreviation edd_lines :: "'uri ExtHostDocumentData \<Rightarrow> jsstring list" where
  "edd_lines this \<equiv> mtm_lines (edd_mirror this)"

text \<open>\<open>equals\<close> of \<open>arrays.ts\<close> compares the lengths, then the lines one by one.\<close>

definition ExtHostDocumentData_equalLines :: "jsstring list \<Rightarrow> 'uri ExtHostDocumentData \<Rightarrow> bool" where
  "ExtHostDocumentData_equalLines lines this \<longleftrightarrow>
     length (edd_lines this) = length lines \<and> list_all (\<lambda>(a, b). a = b) (zip (edd_lines this) lines)"

definition ExtHostDocumentData_lineAt :: "number \<Rightarrow> 'uri ExtHostDocumentData \<Rightarrow> ExtHostDocumentLine result" where
  "ExtHostDocumentData_lineAt line this =
     (if line < 0 \<or> line \<ge> int (length (edd_lines this)) then Inl PlainError
      else result_map (\<lambda>t. \<lparr>edl_line = line, edl_text = t, edl_isLastLine = (line = int (length (edd_lines this)) - 1)\<rparr>)
             (arr_get (edd_lines this) line))"

definition ExtHostDocumentData_validatePosition :: "ExtPosition \<Rightarrow> 'uri ExtHostDocumentData \<Rightarrow> ExtPosition result" where
  "ExtHostDocumentData_validatePosition position this =
     (if length (edd_lines this) = 0 then ExtPosition_with (Some 0) (Some 0) position
      else
        let line = pos_line position; character = pos_character position; n = int (length (edd_lines this))
        in if line < 0 then new_ExtPosition 0 0
           else if line \<ge> n then
             result_bind (arr_get (edd_lines this) (n - 1)) (\<lambda>l. new_ExtPosition (n - 1) (int (length l)))
           else
             result_bind (arr_get (edd_lines this) line) (\<lambda>l.
               if character < 0 then new_ExtPosition line 0
               else if character > int (length l) then new_ExtPosition line (int (length l))
               else Inr position))"

definition ExtHostDocumentData_validateRange :: "ExtRange \<Rightarrow> 'uri ExtHostDocumentData \<Rightarrow> ExtRange result" where
  "ExtHostDocumentData_validateRange r this =
     result_bind (ExtHostDocumentData_validatePosition (ext_start r) this) (\<lambda>s.
     result_bind (ExtHostDocumentData_validatePosition (ext_end r) this) (\<lambda>e.
       if s = ext_start r \<and> e = ext_end r then Inr r
       else new_ExtRange_numbers (pos_line s) (pos_character s) (pos_line e) (pos_character e)))"

text \<open>None as an offset is \<open>NaN\<close>; both operations fill the cache of line starts.\<close>

definition set_line_starts :: "PrefixSumComputer \<Rightarrow> 'uri ExtHostDocumentData \<Rightarrow> 'uri ExtHostDocumentData" where
  "set_line_starts ps this = this\<lparr>edd_mirror := (edd_mirror this)\<lparr>mtm_lineStarts := Some ps\<rparr>\<rparr>"

definition ExtHostDocumentData_offsetAt ::
  "ExtPosition \<Rightarrow> 'uri ExtHostDocumentData \<Rightarrow> (number option \<times> 'uri ExtHostDocumentData) result" where
  "ExtHostDocumentData_offsetAt position0 this =
     result_bind (ExtHostDocumentData_validatePosition position0 this) (\<lambda>position.
       let mirror = MirrorTextModel_ensureLineStarts (edd_mirror this); this1 = this\<lparr>edd_mirror := mirror\<rparr>
       in case mtm_lineStarts mirror of
            None \<Rightarrow> Inl TypeError
          | Some ps \<Rightarrow>
              (case PrefixSumComputer_getPrefixSum (pos_line position - 1) ps of (n, ps') \<Rightarrow>
                 Inr (map_option (\<lambda>s. s + pos_character position) n, set_line_starts ps' this1)))"

definition ExtHostDocumentData_positionAt ::
  "number \<Rightarrow> 'uri ExtHostDocumentData \<Rightarrow> (ExtPosition \<times> 'uri ExtHostDocumentData) result" where
  "ExtHostDocumentData_positionAt offset0 this =
     (let offset = max 0 offset0; mirror = MirrorTextModel_ensureLineStarts (edd_mirror this); this1 = this\<lparr>edd_mirror := mirror\<rparr>
      in case mtm_lineStarts mirror of
           None \<Rightarrow> Inl TypeError
         | Some ps \<Rightarrow>
             (case PrefixSumComputer_getIndexOf offset ps of (out, ps') \<Rightarrow>
                result_bind (arr_get (edd_lines this1) (psi_index out)) (\<lambda>l.
                result_map (\<lambda>p. (p, set_line_starts ps' this1))
                  (new_ExtPosition (psi_index out) (min (psi_remainder out) (int (length l)))))))"

definition ExtHostDocumentData_getTextInRange :: "ExtRange \<Rightarrow> 'uri ExtHostDocumentData \<Rightarrow> jsstring result" where
  "ExtHostDocumentData_getTextInRange range0 this =
     result_bind (ExtHostDocumentData_validateRange range0 this) (\<lambda>r.
       let ls = edd_lines this; s = ext_start r; e = ext_end r
       in if ExtRange_isEmpty r then Inr []
          else if ExtRange_isSingleLine r then
            result_map (\<lambda>l. js_substring l (pos_character s) (pos_character e)) (arr_get ls (pos_line s))
          else
            result_bind (arr_get ls (pos_line s)) (\<lambda>first.
            result_bind (arr_get ls (pos_line e)) (\<lambda>final.
            result_map (\<lambda>middle.
                js_join (mtm_eol (edd_mirror this))
                  ([js_substring_from first (pos_character s)] @ middle @ [js_substring final 0 (pos_character e)]))
              (result_list (int_loop (arr_get ls) (pos_line s + 1) (pos_line e) [])))))"

section \<open>Valid positions\<close>

definition edd_wf :: "'uri ExtHostDocumentData \<Rightarrow> bool" where
  "edd_wf this \<longleftrightarrow> MirrorTextModel_wf (edd_mirror this)"

definition valid_position :: "ExtPosition \<Rightarrow> 'uri ExtHostDocumentData \<Rightarrow> bool" where
  "valid_position p this \<longleftrightarrow>
     0 \<le> pos_line p \<and> pos_line p < int (length (edd_lines this)) \<and>
     0 \<le> pos_character p \<and> pos_character p \<le> int (length (edd_lines this ! nat (pos_line p)))"

lemma edd_wf_lines: "edd_wf this \<Longrightarrow> edd_lines this \<noteq> [] \<and> doc_fits (mtm_eol (edd_mirror this)) (edd_lines this)"
  by (simp add: edd_wf_def MirrorTextModel_wf_def line_starts_ok_def doc_fits_def)

lemma validatePosition_valid:
  "edd_lines this \<noteq> [] \<Longrightarrow> valid_position p this \<Longrightarrow> ExtHostDocumentData_validatePosition p this = Inr p"
  by (simp add: ExtHostDocumentData_validatePosition_def valid_position_def Let_def arr_get_def arr_at_def)

lemma validatePosition_total:
  assumes "edd_lines this \<noteq> []"
  shows "\<exists>q. ExtHostDocumentData_validatePosition p this = Inr q \<and> valid_position q this"
proof (cases "pos_line p < 0 \<or> int (length (edd_lines this)) \<le> pos_line p")
  case True
  then show ?thesis using assms
    by (auto simp: ExtHostDocumentData_validatePosition_def valid_position_def Let_def arr_get_def arr_at_def new_ExtPosition_def)
next
  case False
  then show ?thesis using assms
    by (auto simp: ExtHostDocumentData_validatePosition_def valid_position_def Let_def arr_get_def arr_at_def new_ExtPosition_def)
qed

section \<open>Offsets\<close>

text \<open>The offset of a position is the length of the text before it.\<close>

definition text_offset :: "'uri ExtHostDocumentData \<Rightarrow> ExtPosition \<Rightarrow> nat" where
  "text_offset this p =
     length (js_join (mtm_eol (edd_mirror this)) (doc_before (edd_lines this) (nat (pos_line p)) (nat (pos_character p))))"

lemma text_offset_eq:
  assumes "valid_position p this"
  shows "text_offset this p = doc_size (mtm_eol (edd_mirror this)) (take (nat (pos_line p)) (edd_lines this)) + nat (pos_character p)"
proof -
  have "min (length (edd_lines this ! nat (pos_line p))) (nat (pos_character p)) = nat (pos_character p)"
    using assms by (auto simp: valid_position_def)
  then show ?thesis
    using length_js_join [of "doc_before (edd_lines this) (nat (pos_line p)) (nat (pos_character p))" "mtm_eol (edd_mirror this)"]
    by (simp add: text_offset_def doc_before_def)
qed

lemma ensure_mirror:
  assumes "edd_wf this"
  obtains ps where "mtm_lineStarts (MirrorTextModel_ensureLineStarts (edd_mirror this)) = Some ps"
    "MirrorTextModel_wf (MirrorTextModel_ensureLineStarts (edd_mirror this))"
    "mtm_lines (MirrorTextModel_ensureLineStarts (edd_mirror this)) = edd_lines this"
    "mtm_eol (MirrorTextModel_ensureLineStarts (edd_mirror this)) = mtm_eol (edd_mirror this)"
    "PrefixSumComputer_wf ps" "psc_values ps = map (line_length (mtm_eol (edd_mirror this))) (edd_lines this)"
proof -
  note m = ensureLineStarts_correct [OF assms [unfolded edd_wf_def]]
  obtain ps where ps: "mtm_lineStarts (MirrorTextModel_ensureLineStarts (edd_mirror this)) = Some ps" using m(4) by blast
  then have "PrefixSumComputer_wf ps" "psc_values ps = map (line_length (mtm_eol (edd_mirror this))) (edd_lines this)"
    using m(1) m(2,3) by (simp_all add: MirrorTextModel_wf_def line_starts_ok_def line_starts_match_def)
  with ps m(1-3) show ?thesis by (rule that)
qed

lemma set_line_starts_wf:
  assumes "MirrorTextModel_wf (edd_mirror this)" "PrefixSumComputer_wf ps"
    "psc_values ps = map (line_length (mtm_eol (edd_mirror this))) (edd_lines this)"
  shows "edd_wf (set_line_starts ps this)" "edd_lines (set_line_starts ps this) = edd_lines this"
    "mtm_eol (edd_mirror (set_line_starts ps this)) = mtm_eol (edd_mirror this)"
  using assms by (auto simp: set_line_starts_def edd_wf_def MirrorTextModel_wf_def line_starts_ok_def line_starts_match_def)

text \<open>The same document, with caches that may differ.\<close>

definition same_document :: "'uri ExtHostDocumentData \<Rightarrow> 'uri ExtHostDocumentData \<Rightarrow> bool" where
  "same_document this this' \<longleftrightarrow> edd_wf this' \<and> edd_lines this' = edd_lines this \<and> mtm_eol (edd_mirror this') = mtm_eol (edd_mirror this)"

lemma offsetAt_correct:
  assumes "edd_wf this" "valid_position p this"
  shows "\<exists>this'. ExtHostDocumentData_offsetAt p this = Inr (Some (int (text_offset this p)), this') \<and> same_document this this'"
proof -
  obtain ps where ps: "mtm_lineStarts (MirrorTextModel_ensureLineStarts (edd_mirror this)) = Some ps"
    "MirrorTextModel_wf (MirrorTextModel_ensureLineStarts (edd_mirror this))"
    "mtm_lines (MirrorTextModel_ensureLineStarts (edd_mirror this)) = edd_lines this"
    "mtm_eol (MirrorTextModel_ensureLineStarts (edd_mirror this)) = mtm_eol (edd_mirror this)"
    "PrefixSumComputer_wf ps" "psc_values ps = map (line_length (mtm_eol (edd_mirror this))) (edd_lines this)"
    using ensure_mirror [OF assms(1)] .
  define l where "l = nat (pos_line p)"
  have l: "int l = pos_line p" "l < length (edd_lines this)" using assms(2) by (auto simp: l_def valid_position_def)
  obtain ps' where p': "PrefixSumComputer_getPrefixSum (int l - 1) ps = (Some (uint (wsum (psc_values ps) l)), ps')"
    "PrefixSumComputer_wf ps'" "psc_values ps' = psc_values ps"
    using getPrefixSum_correct [OF ps(5), of l] l(2) ps(6) by auto
  let ?m = "MirrorTextModel_ensureLineStarts (edd_mirror this)"
  have "line_starts_ok ?m" using ps(2) by (simp add: MirrorTextModel_wf_def)
  then have "uint (wsum (psc_values ps) l) = int (length (js_join (mtm_eol (edd_mirror this)) (doc_before (edd_lines this) l 0)))"
    using line_start_prefix_sum [OF _ ps(1), of l] l(2) p'(1) ps(3,4) by simp
  then have "uint (wsum (psc_values ps) l) + pos_character p = int (text_offset this p)"
    using text_offset_eq [OF assms(2)] length_js_join [of "doc_before (edd_lines this) l 0" "mtm_eol (edd_mirror this)"] assms(2)
    by (simp add: doc_before_def l_def valid_position_def)
  moreover have "same_document this (set_line_starts ps' (this\<lparr>edd_mirror := ?m\<rparr>))"
    using set_line_starts_wf [of "this\<lparr>edd_mirror := ?m\<rparr>" ps'] ps p' by (simp add: same_document_def)
  ultimately show ?thesis
    using validatePosition_valid [OF _ assms(2)] edd_wf_lines [OF assms(1)] ps(1) p'(1) l(1)
    by (simp add: ExtHostDocumentData_offsetAt_def Let_def)
qed

text \<open>Which line an offset belongs to, and how far it reaches into the line.\<close>

lemma positionAt_correct:
  assumes "edd_wf this" "l < length (edd_lines this)" "doc_size (mtm_eol (edd_mirror this)) (take l (edd_lines this)) \<le> k"
    "k < doc_size (mtm_eol (edd_mirror this)) (take (Suc l) (edd_lines this)) \<or> Suc l = length (edd_lines this)"
  shows "\<exists>this'. ExtHostDocumentData_positionAt (int k) this =
       Inr (\<lparr>pos_line = int l, pos_character = int (min (k - doc_size (mtm_eol (edd_mirror this)) (take l (edd_lines this)))
              (length (edd_lines this ! l)))\<rparr>, this') \<and> same_document this this'"
proof -
  let ?e = "mtm_eol (edd_mirror this)" and ?ls = "edd_lines this" and ?m = "MirrorTextModel_ensureLineStarts (edd_mirror this)"
  obtain ps where ps: "mtm_lineStarts ?m = Some ps" "MirrorTextModel_wf ?m" "mtm_lines ?m = ?ls" "mtm_eol ?m = ?e"
    "PrefixSumComputer_wf ps" "psc_values ps = map (line_length ?e) ?ls"
    using ensure_mirror [OF assms(1)] .
  have size: "int (doc_size ?e ?ls) < 4294967296" using edd_wf_lines [OF assms(1)] by (simp add: doc_fits_def)
  have sums: "sum_list (take n (psc_vals ps)) = int (doc_size ?e (take n ?ls))" for n
    using sum_line_lengths [of ?e "take n ?ls"] size doc_size_simps(3) [of ?e "take n ?ls" "drop n ?ls"]
    by (simp add: psc_vals_def ps(6) take_map)
  have "sum_list (psc_vals ps) = int (doc_size ?e ?ls)" using sum_line_lengths [OF size] by (simp add: psc_vals_def ps(6))
  then have "int k < sum_list (take (Suc l) (psc_vals ps)) \<or>
      sum_list (psc_vals ps) \<le> int k \<and> Suc l = length (psc_values ps)"
    using assms(4) sums [of "Suc l"] ps(6) by (cases "Suc l = length ?ls") auto
  then obtain ps' where p': "PrefixSumComputer_getIndexOf (int k) ps =
      (\<lparr>psi_index = int l, psi_remainder = int k - int (doc_size ?e (take l ?ls))\<rparr>, ps')"
    "PrefixSumComputer_wf ps'" "psc_values ps' = psc_values ps"
    using getIndexOf_correct [OF ps(5), of l "int k"] assms(2,3) size sums [of l] ps(6)
      \<open>sum_list (psc_vals ps) = int (doc_size ?e ?ls)\<close> by auto
  have "same_document this (set_line_starts ps' (this\<lparr>edd_mirror := ?m\<rparr>))"
    using set_line_starts_wf [of "this\<lparr>edd_mirror := ?m\<rparr>" ps'] ps p' by (simp add: same_document_def)
  moreover have "min (int k - int (doc_size ?e (take l ?ls))) (int (length (?ls ! l))) =
      int (min (k - doc_size ?e (take l ?ls)) (length (?ls ! l)))"
    using assms(3) by (simp add: of_nat_diff)
  ultimately show ?thesis using ps(1,3) p'(1) assms(2)
    by (simp add: ExtHostDocumentData_positionAt_def Let_def new_ExtPosition_def)
qed

lemma offset_in_line:
  assumes "valid_position p this" "mtm_eol (edd_mirror this) \<noteq> []"
  shows "text_offset this p < doc_size (mtm_eol (edd_mirror this)) (take (Suc (nat (pos_line p))) (edd_lines this))"
proof -
  have l: "nat (pos_line p) < length (edd_lines this)" using assms(1) by (auto simp: valid_position_def)
  have "nat (pos_character p) \<le> length (edd_lines this ! nat (pos_line p))" using assms(1) by (auto simp: valid_position_def)
  moreover obtain n where "length (mtm_eol (edd_mirror this)) = Suc n" using assms(2) by (cases "mtm_eol (edd_mirror this)") auto
  ultimately show ?thesis using text_offset_eq [OF assms(1)] by (simp add: take_Suc_conv_app_nth [OF l])
qed

lemma line_of_offset:
  assumes "ls \<noteq> []"
  shows "\<exists>l < length ls. doc_size eol (take l ls) \<le> k \<and> (k < doc_size eol (take (Suc l) ls) \<or> Suc l = length ls)"
  using assms
proof (induction ls rule: rev_nonempty_induct)
  case (snoc x xs)
  show ?case
  proof (cases "doc_size eol xs \<le> k")
    case True
    then show ?thesis by (intro exI [of _ "length xs"]) simp
  next
    case False
    then obtain l where l: "l < length xs" "doc_size eol (take l xs) \<le> k" "k < doc_size eol (take (Suc l) xs) \<or> Suc l = length xs"
      using snoc.IH by blast
    then show ?thesis using False by (intro exI [of _ l]) auto
  qed
qed auto

lemma positionAt_offsetAt:
  assumes "edd_wf this" "valid_position p this"
  shows "\<exists>this''. ExtHostDocumentData_positionAt (int (text_offset this p)) this = Inr (p, this'') \<and> same_document this this''"
proof -
  let ?l = "nat (pos_line p)" and ?e = "mtm_eol (edd_mirror this)" and ?ls = "edd_lines this"
  have l: "?l < length ?ls" "0 \<le> pos_line p" "0 \<le> pos_character p" "nat (pos_character p) \<le> length (?ls ! ?l)"
    using assms(2) by (auto simp: valid_position_def)
  have eol: "?e \<noteq> []" using edd_wf_lines [OF assms(1)] by (simp add: doc_fits_def)
  note off = text_offset_eq [OF assms(2)] offset_in_line [OF assms(2) eol]
  have "\<exists>this''. ExtHostDocumentData_positionAt (int (text_offset this p)) this =
      Inr (\<lparr>pos_line = int ?l, pos_character = int (min (text_offset this p - doc_size ?e (take ?l ?ls)) (length (?ls ! ?l)))\<rparr>, this'') \<and>
      same_document this this''"
    using positionAt_correct [OF assms(1) l(1), of "text_offset this p"] off by simp
  then show ?thesis using l off(1) by auto
qed

lemma positionAt_closest:
  assumes "edd_wf this"
  shows "\<exists>q this'. ExtHostDocumentData_positionAt (int k) this = Inr (q, this') \<and> same_document this this' \<and> valid_position q this \<and>
     text_offset this q \<le> k \<and>
     (k \<le> length (fst (MirrorTextModel_getText (edd_mirror this))) \<longrightarrow> k < text_offset this q + length (mtm_eol (edd_mirror this)))"
proof -
  let ?e = "mtm_eol (edd_mirror this)" and ?ls = "edd_lines this"
  have ne: "?ls \<noteq> []" and "?e \<noteq> []" using edd_wf_lines [OF assms] by (simp_all add: doc_fits_def)
  then obtain n where eol: "length ?e = Suc n" by (cases ?e) auto
  obtain l where l: "l < length ?ls" "doc_size ?e (take l ?ls) \<le> k" "k < doc_size ?e (take (Suc l) ?ls) \<or> Suc l = length ?ls"
    using line_of_offset [OF ne, of ?e k] by blast
  define c where "c = min (k - doc_size ?e (take l ?ls)) (length (?ls ! l))"
  define q where "q = \<lparr>pos_line = int l, pos_character = int c\<rparr>"
  have v: "valid_position q this" using l(1) by (simp add: valid_position_def q_def c_def)
  have len: "length (fst (MirrorTextModel_getText (edd_mirror this))) + length ?e = doc_size ?e ?ls"
    using getText_correct [of "edd_mirror this"] assms length_js_join [OF ne] by (simp add: edd_wf_def)
  have "k < text_offset this q + length ?e" if "k \<le> length (fst (MirrorTextModel_getText (edd_mirror this)))"
  proof -
    have "doc_size ?e (take (Suc l) ?ls) = doc_size ?e (take l ?ls) + length (?ls ! l) + length ?e"
      by (simp add: take_Suc_conv_app_nth [OF l(1)])
    moreover have "k < doc_size ?e (take (Suc l) ?ls)" using l(3) that len eol by (cases "Suc l = length ?ls") auto
    ultimately show ?thesis using text_offset_eq [OF v] eol by (auto simp: q_def c_def min_def)
  qed
  moreover have "text_offset this q \<le> k" using text_offset_eq [OF v] l(2) by (simp add: q_def c_def)
  moreover have "\<exists>this'. ExtHostDocumentData_positionAt (int k) this = Inr (q, this') \<and> same_document this this'"
    using positionAt_correct [OF assms l] by (simp add: q_def c_def)
  ultimately show ?thesis using v by blast
qed

lemma same_document_text_offset: "same_document this this' \<Longrightarrow> text_offset this' p = text_offset this p \<and>
    (valid_position p this' \<longleftrightarrow> valid_position p this) \<and> edd_wf this' \<and> (same_document this' t \<longrightarrow> same_document this t)"
  by (auto simp: same_document_def text_offset_def valid_position_def)

section \<open>The text of a range\<close>

lemma js_substring_le: "0 \<le> a \<Longrightarrow> a \<le> b \<Longrightarrow> js_substring s a b = drop (nat a) (take (nat b) s)"
  by (auto simp: js_substring_def js_clamp_def Let_def min_def max_def)

lemma result_list_lines:
  assumes "i \<le> j" "j \<le> length ls"
  shows "result_list (int_loop (arr_get ls) (int i) (int j) []) = Inr (take (j - i) (drop i ls))"
proof -
  have "map (arr_get ls) [int i .. int j - 1] = map Inr (take (j - i) (drop i ls))"
    using assms by (intro nth_equalityI) (auto simp: nth_upto arr_get_def arr_at_def nat_add_distrib)
  then show ?thesis using result_list_map_Inr [of "take (j - i) (drop i ls)" Inr "\<lambda>x. x"] by (simp add: int_loop_eq)
qed

lemma ExtPosition_eta: "\<lparr>pos_line = pos_line p, pos_character = pos_character p\<rparr> = p"
  by simp

lemma js_join_split:
  assumes "l < length ls"
  shows "js_join eol ls = js_join eol (doc_before ls l c) @ js_join eol (doc_after ls l c)"
proof -
  have "doc_before ls l c \<noteq> []" "doc_after ls l c \<noteq> []" by (simp_all add: doc_before_def doc_after_def)
  from js_join_doc_append [OF this, of eol] show ?thesis by (simp only: doc_before_after [OF assms])
qed

lemma validatePosition_mono:
  assumes "edd_lines this \<noteq> []" "pos_le p q" "ExtHostDocumentData_validatePosition p this = Inr p'"
    "ExtHostDocumentData_validatePosition q this = Inr q'"
  shows "pos_le p' q'"
proof -
  define clip where "clip x = (let n = int (length (edd_lines this)) in
      if pos_line x < 0 then \<lparr>pos_line = 0, pos_character = 0\<rparr>
      else if n \<le> pos_line x then \<lparr>pos_line = n - 1, pos_character = int (length (edd_lines this ! nat (n - 1)))\<rparr>
      else \<lparr>pos_line = pos_line x, pos_character = max 0 (min (pos_character x) (int (length (edd_lines this ! nat (pos_line x)))))\<rparr>)" for x :: ExtPosition
  have n: "0 < int (length (edd_lines this))" using assms(1) by simp
  have clip: "y = clip x" if "ExtHostDocumentData_validatePosition x this = Inr y" for x y
    using that n by (auto simp: clip_def ExtHostDocumentData_validatePosition_def Let_def new_ExtPosition_def arr_get_def arr_at_def
        split: if_splits)
  have lines: "pos_line p \<le> pos_line q" "pos_line p = pos_line q \<Longrightarrow> pos_character p \<le> pos_character q"
    using assms(2) by (auto simp: ExtPosition_isBeforeOrEqual_def split: if_splits)
  consider (before) "pos_line p < 0" | (same) "pos_line p = pos_line q" | (less) "0 \<le> pos_line p" "pos_line p < pos_line q"
    using lines(1) by linarith
  then have "pos_le (clip p) (clip q)"
  proof cases
    case before
    then show ?thesis using n by (simp add: clip_def Let_def ExtPosition_isBeforeOrEqual_def)
  next
    case same
    then have "clip p = clip q \<or> pos_line (clip p) = pos_line (clip q) \<and> pos_character (clip p) \<le> pos_character (clip q)"
      using lines(2) by (cases "pos_line p < 0 \<or> int (length (edd_lines this)) \<le> pos_line p") (simp_all add: clip_def Let_def max_def min_def)
    then show ?thesis by (auto simp: ExtPosition_isBeforeOrEqual_def)
  next
    case less
    let ?n = "int (length (edd_lines this))"
    consider (behind) "?n \<le> pos_line p" | (inside) "pos_line p < ?n - 1" | (last) "pos_line p = ?n - 1" "?n \<le> pos_line q"
      using less(2) by linarith
    then show ?thesis
    proof cases
      case behind
      then have "clip p = clip q" using less by (simp add: clip_def Let_def)
      then show ?thesis by simp
    next
      case inside
      then have "pos_line (clip p) < pos_line (clip q)" using less by (simp add: clip_def Let_def)
      then show ?thesis by (simp add: ExtPosition_isBeforeOrEqual_def)
    next
      case last
      have "clip q = \<lparr>pos_line = ?n - 1, pos_character = int (length (edd_lines this ! nat (?n - 1)))\<rparr>"
        using last(2) less by (simp add: clip_def Let_def)
      moreover have "pos_line (clip p) = ?n - 1" "pos_character (clip p) \<le> int (length (edd_lines this ! nat (?n - 1)))"
        using last(1) n less(1) by (simp_all add: clip_def Let_def)
      ultimately show ?thesis by (simp add: ExtPosition_isBeforeOrEqual_def)
    qed
  qed
  then show ?thesis using clip [OF assms(3)] clip [OF assms(4)] by simp
qed

lemma validateRange_valid:
  assumes "edd_lines this \<noteq> []" "ExtHostDocumentData_validatePosition (ext_start r) this = Inr s" "valid_position s this"
    "ExtHostDocumentData_validatePosition (ext_end r) this = Inr e" "valid_position e this" "pos_le s e"
  shows "ExtHostDocumentData_validateRange r this = Inr \<lparr>ext_start = s, ext_end = e\<rparr>"
  using assms new_ExtRange_sorted [OF assms(6)]
  by (auto simp: ExtHostDocumentData_validateRange_def new_ExtRange_numbers_def new_ExtPosition_def valid_position_def ExtPosition_eta)

lemma join_between:
  assumes "valid_position s this" "valid_position e this" "pos_le s e"
  shows "js_join (mtm_eol (edd_mirror this))
       (doc_after (doc_before (edd_lines this) (nat (pos_line e)) (nat (pos_character e))) (nat (pos_line s)) (nat (pos_character s))) =
     take (text_offset this e - text_offset this s) (drop (text_offset this s) (js_join (mtm_eol (edd_mirror this)) (edd_lines this)))"
proof -
  let ?ls = "edd_lines this" and ?j = "js_join (mtm_eol (edd_mirror this))"
  define l1 c1 l2 c2 where d: "l1 = nat (pos_line s)" "c1 = nat (pos_character s)" "l2 = nat (pos_line e)" "c2 = nat (pos_character e)"
  have l: "l1 < length ?ls" "l2 < length ?ls" using assms(1,2) by (auto simp: valid_position_def d)
  have ord: "l1 < l2 \<or> l1 = l2 \<and> c1 \<le> c2"
    using assms by (auto simp: valid_position_def d ExtPosition_isBeforeOrEqual_def split: if_splits)
  let ?b = "doc_before ?ls l2 c2"
  have lb: "l1 < length ?b" using ord l(2) by (auto simp: doc_before_def)
  have "doc_before ?b l1 c1 = doc_before ?ls l1 c1"
    using ord l by (auto simp: doc_before_def nth_append min_def)
  then have "?j ?b = ?j (doc_before ?ls l1 c1) @ ?j (doc_after ?b l1 c1)"
    using js_join_split [OF lb, of "mtm_eol (edd_mirror this)" c1] by simp
  moreover have "?j ?ls = ?j ?b @ ?j (doc_after ?ls l2 c2)"
    by (rule js_join_split [OF l(2)])
  ultimately show ?thesis by (simp add: text_offset_def d [symmetric])
qed

lemma getTextInRange_between:
  assumes "edd_lines this \<noteq> []" "valid_position (ext_start r) this" "valid_position (ext_end r) this" "pos_le (ext_start r) (ext_end r)"
  defines "l1 \<equiv> nat (pos_line (ext_start r))" and "c1 \<equiv> nat (pos_character (ext_start r))"
    and "l2 \<equiv> nat (pos_line (ext_end r))" and "c2 \<equiv> nat (pos_character (ext_end r))"
  shows "ExtHostDocumentData_getTextInRange r this =
     Inr (js_join (mtm_eol (edd_mirror this)) (doc_after (doc_before (edd_lines this) l2 c2) l1 c1))"
proof -
  let ?s = "ext_start r" and ?e = "ext_end r" and ?ls = "edd_lines this"
  have l: "int l1 = pos_line ?s" "int c1 = pos_character ?s" "int l2 = pos_line ?e" "int c2 = pos_character ?e"
    "l1 < length ?ls" "l2 < length ?ls" "c1 \<le> length (?ls ! l1)" "c2 \<le> length (?ls ! l2)"
    using assms(2,3) by (auto simp: valid_position_def assms(5-8))
  have v: "ExtHostDocumentData_validateRange r this = Inr r"
    using validatePosition_valid [OF assms(1,2)] validatePosition_valid [OF assms(1,3)] by (simp add: ExtHostDocumentData_validateRange_def)
  have at: "arr_get ?ls (pos_line ?s) = Inr (?ls ! l1)" "arr_get ?ls (pos_line ?e) = Inr (?ls ! l2)"
    using arr_get_nat [OF l(5)] arr_get_nat [OF l(6)] l(1,3) by simp_all
  consider (same) "l1 = l2" "c1 \<le> c2" | (multi) "l1 < l2"
    using assms(4) l(1-4) by (auto simp: ExtPosition_isBeforeOrEqual_def split: if_splits)
  then show ?thesis
  proof cases
    case same
    have "doc_after (doc_before ?ls l2 c2) l1 c1 = [drop c1 (take c2 (?ls ! l2))]"
      using same l(6) by (simp add: doc_after_def doc_before_def nth_append)
    moreover have "ExtRange_isSingleLine r" "ExtRange_isEmpty r \<longleftrightarrow> c1 = c2"
      using same l(1-4) by (auto simp: ExtRange_isSingleLine_def ExtRange_isEmpty_def ExtPosition_isEqual_def)
    moreover have "js_substring (?ls ! l2) (pos_character ?s) (pos_character ?e) = drop c1 (take c2 (?ls ! l2))"
      using js_substring_le [of "pos_character ?s" "pos_character ?e" "?ls ! l2"] same(2) l(2,4) by (simp add: assms(6,8))
    ultimately show ?thesis using v same(1) at by (simp add: ExtHostDocumentData_getTextInRange_def Let_def)
  next
    case multi
    have "doc_after (doc_before ?ls l2 c2) l1 c1 = drop c1 (?ls ! l1) # take (l2 - Suc l1) (drop (Suc l1) ?ls) @ [take c2 (?ls ! l2)]"
      using multi l(6) by (simp add: doc_after_def doc_before_def nth_append drop_take)
    moreover have "\<not> ExtRange_isSingleLine r" "\<not> ExtRange_isEmpty r"
      using multi l(1,3) by (auto simp: ExtRange_isSingleLine_def ExtRange_isEmpty_def ExtPosition_isEqual_def)
    moreover have "js_substring_from (?ls ! l1) (pos_character ?s) = drop c1 (?ls ! l1)"
      "js_substring (?ls ! l2) 0 (pos_character ?e) = take c2 (?ls ! l2)"
      using js_substring_prefix [of "pos_character ?e" "?ls ! l2"] assms(3)
      by (simp_all add: js_substring_suffix assms(6,8) valid_position_def)
    moreover have "result_list (int_loop (arr_get ?ls) (pos_line ?s + 1) (pos_line ?e) []) = Inr (take (l2 - Suc l1) (drop (Suc l1) ?ls))"
      using result_list_lines [of "Suc l1" l2 ?ls] multi l(6) by (simp add: add.commute l(1) [symmetric] l(3) [symmetric])
    ultimately show ?thesis using v at by (simp add: ExtHostDocumentData_getTextInRange_def Let_def)
  qed
qed

section \<open>Properties\<close>



text \<open>
  C11. The text of a range is the part of the whole text between the two offsets, for every
  range: its ends are first moved to valid positions of the document.
\<close>

theorem getTextInRange_is_slice_of_text:
  assumes "edd_wf this" "pos_le (ext_start r) (ext_end r)"
  shows "\<exists>s e. ExtHostDocumentData_validatePosition (ext_start r) this = Inr s \<and>
     ExtHostDocumentData_validatePosition (ext_end r) this = Inr e \<and>
     ExtHostDocumentData_getTextInRange r this =
       Inr (take (text_offset this e - text_offset this s)
             (drop (text_offset this s) (fst (MirrorTextModel_getText (edd_mirror this)))))"
proof -
  let ?ls = "edd_lines this" and ?eol = "mtm_eol (edd_mirror this)"
  have ne: "?ls \<noteq> []" using edd_wf_lines [OF assms(1)] by simp
  obtain s e where v: "ExtHostDocumentData_validatePosition (ext_start r) this = Inr s" "valid_position s this"
    "ExtHostDocumentData_validatePosition (ext_end r) this = Inr e" "valid_position e this"
    using validatePosition_total [OF ne] by metis
  have le: "pos_le s e" by (rule validatePosition_mono [OF ne assms(2) v(1,3)])
  define r' where "r' = \<lparr>ext_start = s, ext_end = e\<rparr>"
  let ?before = "doc_before ?ls (nat (pos_line e)) (nat (pos_character e))"
  let ?between = "doc_after ?before (nat (pos_line s)) (nat (pos_character s))"
  have "ExtHostDocumentData_validateRange r this = Inr r'" "ExtHostDocumentData_validateRange r' this = Inr r'"
    using validateRange_valid [OF ne v le] validateRange_valid [OF ne, of r' s e] validatePosition_valid [OF ne] v le
    by (simp_all add: r'_def)
  then have "ExtHostDocumentData_getTextInRange r this = ExtHostDocumentData_getTextInRange r' this"
    by (simp add: ExtHostDocumentData_getTextInRange_def)
  also have "\<dots> = Inr (js_join ?eol ?between)" using getTextInRange_between [OF ne, of r'] v le by (simp add: r'_def)
  finally have "ExtHostDocumentData_getTextInRange r this = Inr (js_join ?eol ?between)" .
  moreover have "js_join ?eol ?between = take (text_offset this e - text_offset this s) (drop (text_offset this s) (js_join ?eol ?ls))"
    by (rule join_between [OF v(2,4) le])
  ultimately show ?thesis using v getText_correct [of "edd_mirror this"] assms(1) by (simp add: edd_wf_def)
qed

theorem getTextInRange_is_slice_of_text_witness:
  "\<exists>s e. ExtHostDocumentData_getTextInRange \<lparr>ext_start = \<lparr>pos_line = 0, pos_character = 1\<rparr>, ext_end = \<lparr>pos_line = 7, pos_character = 0\<rparr>\<rparr>
       (new_ExtHostDocumentData () [[97, 98], [99]] [10] 1 [] False) =
     Inr (take (text_offset (new_ExtHostDocumentData () [[97, 98], [99]] [10] 1 [] False) e -
               text_offset (new_ExtHostDocumentData () [[97, 98], [99]] [10] 1 [] False) s)
           (drop (text_offset (new_ExtHostDocumentData () [[97, 98], [99]] [10] 1 [] False) s) [97, 98, 10, 99]))"
proof -
  let ?d = "new_ExtHostDocumentData () [[97, 98], [99]] [10] 1 [] False"
  let ?r = "\<lparr>ext_start = \<lparr>pos_line = 0, pos_character = 1\<rparr>, ext_end = \<lparr>pos_line = 7, pos_character = 0\<rparr>\<rparr>"
  have "edd_wf ?d"
    by (simp add: edd_wf_def new_ExtHostDocumentData_def new_MirrorTextModel_def MirrorTextModel_wf_def line_starts_ok_def
        line_starts_match_def doc_fits_def)
  moreover have "pos_le (ext_start ?r) (ext_end ?r)" by (simp add: ExtPosition_isBeforeOrEqual_def)
  moreover have "fst (MirrorTextModel_getText (edd_mirror ?d)) = [97, 98, 10, 99]"
    by (simp add: new_ExtHostDocumentData_def new_MirrorTextModel_def MirrorTextModel_getText_def Let_def)
  ultimately show ?thesis using getTextInRange_is_slice_of_text [of ?d ?r] by metis
qed

end
