(* ===== verification/Text_Change.thy ===== *)
theory Text_Change
  imports Prelude
begin

text \<open>
  \<open>src/vs/editor/common/core/textChange.ts\<close>: the undo/redo stack keeps, for every
  element, the list of text changes between two versions of a text, and compresses the
  changes of consecutive edits into one list. The abstract meaning of a list of changes is
  a relation between the old and the new text (\<open>applies\<close>); compression is proved to
  compose it.
\<close>

record TextChange =
  oldPosition :: number
  oldText :: jsstring
  newPosition :: number
  newText :: jsstring

definition new_TextChange :: "number \<Rightarrow> jsstring \<Rightarrow> number \<Rightarrow> jsstring \<Rightarrow> TextChange" where
  "new_TextChange op ot np nt = \<lparr>oldPosition = op, oldText = ot, newPosition = np, newText = nt\<rparr>"

definition oldLength :: "TextChange \<Rightarrow> number" where
  "oldLength this = int (length (oldText this))"

definition oldEnd :: "TextChange \<Rightarrow> number" where
  "oldEnd this = oldPosition this + int (length (oldText this))"

definition newLength :: "TextChange \<Rightarrow> number" where
  "newLength this = int (length (newText this))"

definition newEnd :: "TextChange \<Rightarrow> number" where
  "newEnd this = newPosition this + int (length (newText this))"

text \<open>\<open>str.replace(/\n/g, '\\n').replace(/\r/g, '\\r')\<close>.\<close>

definition escapeNewLine :: "jsstring \<Rightarrow> jsstring" where
  "escapeNewLine str =
     concat (map (\<lambda>c. if c = 13 then [92, 114] else [c]) (concat (map (\<lambda>c. if c = 10 then [92, 110] else [c]) str)))"

definition TextChange_toString :: "TextChange \<Rightarrow> jsstring" where
  "TextChange_toString this =
     (if length (oldText this) = 0
      then js_str ''(insert@'' @ js_show_number (oldPosition this) @ [32, 34] @ escapeNewLine (newText this) @ [34, 41]
      else if length (newText this) = 0
      then js_str ''(delete@'' @ js_show_number (oldPosition this) @ [32, 34] @ escapeNewLine (oldText this) @ [34, 41]
      else js_str ''(replace@'' @ js_show_number (oldPosition this) @ [32, 34] @ escapeNewLine (oldText this) @
           [34] @ js_str '' with '' @ [34] @ escapeNewLine (newText this) @ [34, 41])"

section \<open>The compressor\<close>

definition rebaseCurr :: "number \<Rightarrow> TextChange \<Rightarrow> TextChange" where
  "rebaseCurr prevDeltaOffset currEdit =
     new_TextChange (oldPosition currEdit - prevDeltaOffset) (oldText currEdit) (newPosition currEdit) (newText currEdit)"

definition rebasePrev :: "number \<Rightarrow> TextChange \<Rightarrow> TextChange" where
  "rebasePrev currDeltaOffset prevEdit =
     new_TextChange (oldPosition prevEdit) (oldText prevEdit) (newPosition prevEdit + currDeltaOffset) (newText prevEdit)"

text \<open>\<open>substr(0, offset)\<close> and \<open>substr(offset)\<close>: a negative start counts from the end.\<close>

definition substr_to :: "jsstring \<Rightarrow> number \<Rightarrow> jsstring" where
  "substr_to s offset = take (nat offset) s"

definition substr_from :: "jsstring \<Rightarrow> number \<Rightarrow> jsstring" where
  "substr_from s offset = drop (slice_index (length s) offset) s"

definition splitPrev :: "TextChange \<Rightarrow> number \<Rightarrow> TextChange \<times> TextChange" where
  "splitPrev edit offset =
     (let preText = substr_to (newText edit) offset; postText = substr_from (newText edit) offset
      in (new_TextChange (oldPosition edit) (oldText edit) (newPosition edit) preText,
          new_TextChange (oldEnd edit) [] (newPosition edit + offset) postText))"

definition splitCurr :: "TextChange \<Rightarrow> number \<Rightarrow> TextChange \<times> TextChange" where
  "splitCurr edit offset =
     (let preText = substr_to (oldText edit) offset; postText = substr_from (oldText edit) offset
      in (new_TextChange (oldPosition edit) preText (newPosition edit) (newText edit),
          new_TextChange (oldPosition edit + offset) postText (newEnd edit) []))"

fun merge_loop :: "TextChange \<Rightarrow> TextChange list \<Rightarrow> TextChange list \<Rightarrow> TextChange list" where
  "merge_loop prev [] res = res @ [prev]"
| "merge_loop prev (current # edits) res =
     (if oldEnd prev = oldPosition current
      then merge_loop
             (new_TextChange (oldPosition prev) (oldText prev @ oldText current) (newPosition prev) (newText prev @ newText current))
             edits res
      else merge_loop current edits (res @ [prev]))"

definition TextChangeCompressor_merge :: "TextChange list \<Rightarrow> TextChange list" where
  "TextChangeCompressor_merge edits = (case edits of [] \<Rightarrow> edits | e # es \<Rightarrow> merge_loop e es [])"

definition removeNoOps :: "TextChange list \<Rightarrow> TextChange list" where
  "removeNoOps edits = filter (\<lambda>edit. oldText edit \<noteq> newText edit) edits"

definition compress_measure :: "TextChange list \<Rightarrow> TextChange list \<Rightarrow> nat" where
  "compress_measure prevs currs =
     length prevs + length currs + (\<Sum>e \<leftarrow> prevs. length (newText e)) + (\<Sum>e \<leftarrow> currs. length (oldText e))"

text \<open>
  The loop of \<open>compress\<close>. The two lists are the edits from \<open>prevIndex\<close> and
  \<open>currIndex\<close> on, with the current edit (which may be the rest of a split one) at the
  head; an empty list is a null edit. The offsets and the result are the fields of the
  compressor.
\<close>

function compress_loop ::
  "TextChange list \<Rightarrow> TextChange list \<Rightarrow> number \<Rightarrow> number \<Rightarrow> TextChange list \<Rightarrow> TextChange list" where
  "compress_loop [] [] prevDelta currDelta res = res"
| "compress_loop [] (currEdit # currs) prevDelta currDelta res =
     compress_loop [] currs prevDelta (currDelta + (newLength currEdit - oldLength currEdit))
       (res @ [rebaseCurr prevDelta currEdit])"
| "compress_loop (prevEdit # prevs) [] prevDelta currDelta res =
     compress_loop prevs [] (prevDelta + (newLength prevEdit - oldLength prevEdit)) currDelta
       (res @ [rebasePrev currDelta prevEdit])"
| "compress_loop (prevEdit # prevs) (currEdit # currs) prevDelta currDelta res =
     (if oldEnd currEdit \<le> newPosition prevEdit
      then compress_loop (prevEdit # prevs) currs prevDelta (currDelta + (newLength currEdit - oldLength currEdit))
             (res @ [rebaseCurr prevDelta currEdit])
      else if newEnd prevEdit \<le> oldPosition currEdit
      then compress_loop prevs (currEdit # currs) (prevDelta + (newLength prevEdit - oldLength prevEdit)) currDelta
             (res @ [rebasePrev currDelta prevEdit])
      else if oldPosition currEdit < newPosition prevEdit
      then (case splitCurr currEdit (newPosition prevEdit - oldPosition currEdit) of (e1, e2) \<Rightarrow>
              compress_loop (prevEdit # prevs) (e2 # currs) prevDelta (currDelta + (newLength e1 - oldLength e1))
                (res @ [rebaseCurr prevDelta e1]))
      else if newPosition prevEdit < oldPosition currEdit
      then (case splitPrev prevEdit (oldPosition currEdit - newPosition prevEdit) of (e1, e2) \<Rightarrow>
              compress_loop (e2 # prevs) (currEdit # currs) (prevDelta + (newLength e1 - oldLength e1)) currDelta
                (res @ [rebasePrev currDelta e1]))
      else
        (let (mergePrev, mergeCurr, prevs', currs') =
               (if oldEnd currEdit = newEnd prevEdit then (prevEdit, currEdit, prevs, currs)
                else if oldEnd currEdit < newEnd prevEdit
                then (case splitPrev prevEdit (oldLength currEdit) of (e1, e2) \<Rightarrow> (e1, currEdit, e2 # prevs, currs))
                else (case splitCurr currEdit (newLength prevEdit) of (e1, e2) \<Rightarrow> (prevEdit, e1, prevs, e2 # currs)))
         in compress_loop prevs' currs'
              (prevDelta + (newLength mergePrev - oldLength mergePrev))
              (currDelta + (newLength mergeCurr - oldLength mergeCurr))
              (res @ [new_TextChange (oldPosition mergePrev) (oldText mergePrev) (newPosition mergeCurr) (newText mergeCurr)])))"
  by pat_completeness auto

termination
  by (relation "measure (\<lambda>(prevs, currs, pd, cd, res). compress_measure prevs currs)")
    (auto simp: compress_measure_def splitCurr_def splitPrev_def new_TextChange_def substr_from_def slice_index_def
      oldEnd_def newEnd_def oldLength_def newLength_def Let_def split: if_splits)

definition TextChangeCompressor_compress :: "TextChange list \<Rightarrow> TextChange list \<Rightarrow> TextChange list" where
  "TextChangeCompressor_compress prevEdits currEdits =
     removeNoOps (TextChangeCompressor_merge (compress_loop prevEdits currEdits 0 0 []))"

definition compressConsecutiveTextChanges :: "TextChange list option \<Rightarrow> TextChange list \<Rightarrow> TextChange list" where
  "compressConsecutiveTextChanges prevEdits currEdits =
     (case prevEdits of None \<Rightarrow> currEdits
      | Some ps \<Rightarrow> if length ps = 0 then currEdits else TextChangeCompressor_compress ps currEdits)"

section \<open>What a list of changes means\<close>

text \<open>
  The changes lead from the text \<open>t\<close>, which starts at offset \<open>p\<close> of the old text, to
  the text \<open>u\<close>, which starts at offset \<open>q\<close> of the new one: they are in order and do not
  overlap, the texts agree between them, and each one's old and new text stand at its
  positions.
\<close>

fun applies :: "TextChange list \<Rightarrow> number \<Rightarrow> number \<Rightarrow> jsstring \<Rightarrow> jsstring \<Rightarrow> bool" where
  "applies [] p q t u \<longleftrightarrow> t = u"
| "applies (e # es) p q t u \<longleftrightarrow>
     (let g = nat (oldPosition e - p); m = length (oldText e); n = length (newText e)
      in p \<le> oldPosition e \<and> newPosition e - q = oldPosition e - p \<and>
         g + m \<le> length t \<and> g + n \<le> length u \<and>
         take g t = take g u \<and> take m (drop g t) = oldText e \<and> take n (drop g u) = newText e \<and>
         applies es (oldEnd e) (newEnd e) (drop (g + m) t) (drop (g + n) u))"

declare applies.simps(2) [simp del]

lemma applies_Cons:
  "applies (e # es) p q t u \<longleftrightarrow>
     (\<exists>g t' u'. t = g @ oldText e @ t' \<and> u = g @ newText e @ u' \<and>
        oldPosition e = p + int (length g) \<and> newPosition e = q + int (length g) \<and>
        applies es (oldEnd e) (newEnd e) t' u')" (is "?L \<longleftrightarrow> ?R")
proof
  assume ?L
  define g where "g = nat (oldPosition e - p)"
  have *: "p \<le> oldPosition e" "newPosition e - q = oldPosition e - p" "take g t = take g u"
    "g + length (oldText e) \<le> length t" "take (length (oldText e)) (drop g t) = oldText e"
    "take (length (newText e)) (drop g u) = newText e"
    "applies es (oldEnd e) (newEnd e) (drop (g + length (oldText e)) t) (drop (g + length (newText e)) u)"
    using \<open>?L\<close> by (simp_all add: applies.simps(2) Let_def g_def)
  have "t = take g t @ oldText e @ drop (g + length (oldText e)) t"
    using *(5) by (metis append_take_drop_id drop_drop add.commute)
  moreover have "u = take g t @ newText e @ drop (g + length (newText e)) u"
    using *(3,6) by (metis append_take_drop_id drop_drop add.commute)
  moreover have "oldPosition e = p + int (length (take g t))" "newPosition e = q + int (length (take g t))"
    using *(1,2,4) by (simp_all add: g_def)
  ultimately show ?R using *(7) by blast
next
  assume ?R
  then show ?L by (auto simp: applies.simps(2) Let_def)
qed

lemma appliesI:
  "oldPosition e = p + int (length g) \<Longrightarrow> newPosition e = q + int (length g) \<Longrightarrow>
   applies es (oldEnd e) (newEnd e) t u \<Longrightarrow>
   applies (e # es) p q (g @ oldText e @ t) (g @ newText e @ u)"
  unfolding applies_Cons by blast

text \<open>Text both sides share can be moved into and out of the part before the first change.\<close>

lemma applies_retreat: "applies es (p + int (length k)) (q + int (length k)) t u \<Longrightarrow> applies es p q (k @ t) (k @ u)"
proof (cases es)
  case (Cons e es')
  assume "applies es (p + int (length k)) (q + int (length k)) t u"
  then obtain g t' u' where *: "t = g @ oldText e @ t'" "u = g @ newText e @ u'"
    "oldPosition e = p + int (length k) + int (length g)" "newPosition e = q + int (length k) + int (length g)"
    "applies es' (oldEnd e) (newEnd e) t' u'"
    unfolding Cons applies_Cons by blast
  then show ?thesis
    unfolding Cons using appliesI [of e p "k @ g" q es' t' u'] by simp
qed simp

lemma applies_advance:
  assumes "applies es p q (k @ t) u" "es = [] \<or> p + int (length k) \<le> oldPosition (hd es)"
  shows "\<exists>u'. u = k @ u' \<and> applies es (p + int (length k)) (q + int (length k)) t u'"
proof (cases es)
  case Nil
  then show ?thesis using assms(1) by auto
next
  case (Cons e es')
  then obtain g t' u' where *: "k @ t = g @ oldText e @ t'" "u = g @ newText e @ u'"
    "oldPosition e = p + int (length g)" "newPosition e = q + int (length g)" "applies es' (oldEnd e) (newEnd e) t' u'"
    using assms(1) [unfolded Cons applies_Cons] by blast
  have "length k \<le> length g" using assms(2) Cons *(3) by simp
  then have "k = take (length k) g" using arg_cong [OF *(1), of "take (length k)"] by simp
  then obtain g' where g1: "g = k @ g'" by (metis append_take_drop_id)
  then have g: "g = k @ g'" "t = g' @ oldText e @ t'" using *(1) by simp_all
  have "applies (e # es') (p + int (length k)) (q + int (length k)) t (g' @ newText e @ u')"
    unfolding g(2) using * g(1) by (intro appliesI) simp_all
  then show ?thesis using Cons *(2) g(1) by auto
qed

text \<open>The inverse changes lead back.\<close>

definition inverse_change :: "TextChange \<Rightarrow> TextChange" where
  "inverse_change e = new_TextChange (newPosition e) (newText e) (oldPosition e) (oldText e)"

lemma inverse_change_sel [simp]:
  "oldPosition (inverse_change e) = newPosition e" "newPosition (inverse_change e) = oldPosition e"
  "oldText (inverse_change e) = newText e" "newText (inverse_change e) = oldText e"
  "oldEnd (inverse_change e) = newEnd e" "newEnd (inverse_change e) = oldEnd e"
  by (simp_all add: inverse_change_def new_TextChange_def oldEnd_def newEnd_def)

lemma applies_inverse: "applies (map inverse_change es) q p u t \<longleftrightarrow> applies es p q t u"
  by (induction es arbitrary: p q t u) (auto simp: applies_Cons)

lemma applies_advance_new:
  assumes "applies es p q t (k @ u)" "es = [] \<or> q + int (length k) \<le> newPosition (hd es)"
  shows "\<exists>t'. t = k @ t' \<and> applies es (p + int (length k)) (q + int (length k)) t' u"
proof -
  have "map inverse_change es = [] \<or> q + int (length k) \<le> oldPosition (hd (map inverse_change es))"
    using assms(2) by (cases es) simp_all
  then show ?thesis
    using applies_advance [of "map inverse_change es" q p k u t] assms(1) unfolding applies_inverse by blast
qed

section \<open>The compressor composes changes\<close>

text \<open>One step of the loop: an edit of one side that lies before the other side's next edit.\<close>

lemma accept_current:
  assumes prev: "applies prevs a b A B" and cur: "applies (e # currs) b c B C"
    and before: "prevs = [] \<or> oldEnd e \<le> newPosition (hd prevs)"
  shows "\<exists>g A' B' C'. A = g @ oldText e @ A' \<and> C = g @ newText e @ C' \<and>
     oldPosition e = b + int (length g) \<and> newPosition e = c + int (length g) \<and>
     applies prevs (oldEnd e - (b - a)) (oldEnd e) A' B' \<and> applies currs (oldEnd e) (newEnd e) B' C'"
proof -
  obtain g B' C' where *: "B = g @ oldText e @ B'" "C = g @ newText e @ C'"
    "oldPosition e = b + int (length g)" "newPosition e = c + int (length g)" "applies currs (oldEnd e) (newEnd e) B' C'"
    using cur unfolding applies_Cons by blast
  have len: "oldEnd e = b + int (length (g @ oldText e))" using *(3) by (simp add: oldEnd_def)
  obtain A' where "A = (g @ oldText e) @ A'"
    "applies prevs (a + int (length (g @ oldText e))) (b + int (length (g @ oldText e))) A' B'"
    using applies_advance_new [of prevs a b A "g @ oldText e" B'] prev before len *(1) by auto
  moreover have "a + int (length (g @ oldText e)) = oldEnd e - (b - a)" using len by simp
  ultimately show ?thesis using * len by (metis append_assoc)
qed

lemma accept_previous:
  assumes prev: "applies (e # prevs) a b A B" and cur: "applies currs b c B C"
    and before: "currs = [] \<or> newEnd e \<le> oldPosition (hd currs)"
  shows "\<exists>g A' B' C'. A = g @ oldText e @ A' \<and> C = g @ newText e @ C' \<and>
     oldPosition e = a + int (length g) \<and> newPosition e = b + int (length g) \<and>
     applies prevs (oldEnd e) (newEnd e) A' B' \<and> applies currs (newEnd e) (newEnd e + (c - b)) B' C'"
proof -
  obtain g A' B' where *: "A = g @ oldText e @ A'" "B = g @ newText e @ B'"
    "oldPosition e = a + int (length g)" "newPosition e = b + int (length g)" "applies prevs (oldEnd e) (newEnd e) A' B'"
    using prev unfolding applies_Cons by blast
  have len: "newEnd e = b + int (length (g @ newText e))" using *(4) by (simp add: newEnd_def)
  obtain C' where "C = (g @ newText e) @ C'"
    "applies currs (b + int (length (g @ newText e))) (c + int (length (g @ newText e))) B' C'"
    using applies_advance [of currs b c "g @ newText e" B' C] cur before len *(2) by auto
  moreover have "c + int (length (g @ newText e)) = newEnd e + (c - b)" using len by simp
  ultimately show ?thesis using * len by (metis append_assoc)
qed

text \<open>Splitting the new text of a previous edit, or the old text of a current one.\<close>

lemma splitPrev_applies:
  assumes "applies (e # es) p q t u" "0 \<le> off" "off \<le> newLength e" "splitPrev e off = (e1, e2)"
  shows "applies (e1 # e2 # es) p q t u" "newEnd e1 = newPosition e + off" "newPosition e1 = newPosition e"
    "oldPosition e1 = oldPosition e" "newLength e1 = off" "newText e2 = drop (nat off) (newText e)"
proof -
  have e1: "oldPosition e1 = oldPosition e" "oldText e1 = oldText e" "newPosition e1 = newPosition e"
    "newText e1 = take (nat off) (newText e)"
    and e2: "oldPosition e2 = oldEnd e" "oldText e2 = []" "newPosition e2 = newPosition e + off"
    "newText e2 = drop (nat off) (newText e)"
    using assms(2-4) by (auto simp: splitPrev_def new_TextChange_def substr_to_def substr_from_def slice_index_def
        newLength_def Let_def)
  obtain g t' u' where *: "t = g @ oldText e @ t'" "u = g @ newText e @ u'"
    "oldPosition e = p + int (length g)" "newPosition e = q + int (length g)" "applies es (oldEnd e) (newEnd e) t' u'"
    using assms(1) unfolding applies_Cons by blast
  have ends: "oldEnd e1 = oldEnd e" "newEnd e1 = newPosition e + off" "oldEnd e2 = oldEnd e" "newEnd e2 = newEnd e"
    using assms(2,3) e1 e2 by (auto simp: oldEnd_def newEnd_def newLength_def)
  have "applies (e2 # es) (oldEnd e1) (newEnd e1) ([] @ oldText e2 @ t') ([] @ newText e2 @ u')"
    using e2 ends *(5) by (intro appliesI) simp_all
  then have "applies (e1 # e2 # es) p q (g @ oldText e1 @ t') (g @ newText e1 @ newText e2 @ u')"
    using e1 e2 *(3,4) appliesI [of e1 p g q "e2 # es" "oldText e2 @ t'" "newText e2 @ u'"] by simp
  then show "applies (e1 # e2 # es) p q t u" using *(1,2) e1 e2 by (metis append_assoc append_take_drop_id)
  show "newEnd e1 = newPosition e + off" "newPosition e1 = newPosition e" "oldPosition e1 = oldPosition e"
    "newText e2 = drop (nat off) (newText e)" using ends e1 e2 by simp_all
  show "newLength e1 = off" using assms(2,3) e1 by (simp add: newLength_def)
qed

lemma splitCurr_inverse:
  "splitCurr e off = (e1, e2) \<longleftrightarrow> splitPrev (inverse_change e) off = (inverse_change e1, inverse_change e2)"
  by (cases e1; cases e2) (auto simp: splitCurr_def splitPrev_def Let_def inverse_change_def new_TextChange_def
      newEnd_def oldEnd_def)

lemma splitCurr_applies:
  assumes "applies (e # es) p q t u" "0 \<le> off" "off \<le> oldLength e" "splitCurr e off = (e1, e2)"
  shows "applies (e1 # e2 # es) p q t u" "oldEnd e1 = oldPosition e + off" "oldPosition e1 = oldPosition e"
    "newPosition e1 = newPosition e" "oldLength e1 = off" "oldText e2 = drop (nat off) (oldText e)"
proof -
  have inv: "applies (inverse_change e # map inverse_change es) q p u t"
    using assms(1) applies_inverse [of "e # es" q p u t] by simp
  have off: "off \<le> newLength (inverse_change e)" using assms(3) by (simp add: oldLength_def newLength_def)
  note s = splitPrev_applies [OF inv assms(2) off assms(4) [unfolded splitCurr_inverse]]
  show "applies (e1 # e2 # es) p q t u" using s(1) applies_inverse [of "e1 # e2 # es" q p u t] by simp
  show "oldEnd e1 = oldPosition e + off" "oldPosition e1 = oldPosition e" "newPosition e1 = newPosition e"
    "oldLength e1 = off" "oldText e2 = drop (nat off) (oldText e)"
    using s(2-6) by (simp_all add: oldLength_def newLength_def)
qed

text \<open>Two edits over the same stretch of the middle text become one.\<close>

lemma merge_same_stretch:
  assumes prev: "applies (e # prevs) a b A B" and cur: "applies (f # currs) b c B C"
    and same: "newPosition e = oldPosition f" "newLength e = oldLength f"
  shows "\<exists>g A' B' C'. A = g @ oldText e @ A' \<and> C = g @ newText f @ C' \<and>
     oldPosition e = a + int (length g) \<and> newPosition f = c + int (length g) \<and>
     applies prevs (oldEnd e) (newEnd e) A' B' \<and> applies currs (newEnd e) (newEnd f) B' C'"
proof -
  obtain g A' B' where e: "A = g @ oldText e @ A'" "B = g @ newText e @ B'"
    "oldPosition e = a + int (length g)" "newPosition e = b + int (length g)" "applies prevs (oldEnd e) (newEnd e) A' B'"
    using prev unfolding applies_Cons by blast
  obtain h B'' C' where f: "B = h @ oldText f @ B''" "C = h @ newText f @ C'"
    "oldPosition f = b + int (length h)" "newPosition f = c + int (length h)" "applies currs (oldEnd f) (newEnd f) B'' C'"
    using cur unfolding applies_Cons by blast
  have "length g = length h" using e(4) f(3) same(1) by simp
  moreover have "length (newText e) = length (oldText f)" using same(2) by (simp add: newLength_def oldLength_def)
  ultimately have "g = h" "B' = B''" using e(2) f(1) by (auto simp: append_eq_append_conv)
  moreover have "oldEnd f = newEnd e" using same by (simp add: oldEnd_def newEnd_def newLength_def oldLength_def)
  ultimately show ?thesis using e f by auto
qed

text \<open>The loop is right on two lists: whatever texts they lead through, its output leads from first to last.\<close>

definition composes :: "TextChange list \<Rightarrow> TextChange list \<Rightarrow> bool" where
  "composes prevs currs \<longleftrightarrow>
     (\<forall>a b c A B C. applies prevs a b A B \<longrightarrow> applies currs b c B C \<longrightarrow>
        (\<exists>out. (\<forall>res. compress_loop prevs currs (b - a) (c - b) res = res @ out) \<and> applies out a c A C))"

lemma composesE:
  assumes "composes prevs currs" "applies prevs a b A B" "applies currs b c B C"
  obtains out where "\<And>res. compress_loop prevs currs (b - a) (c - b) res = res @ out" "applies out a c A C"
  using assms unfolding composes_def by blast

lemma take_current:
  assumes "composes prevs currs" "applies prevs a b A B" "applies (e # currs) b c B C"
    "prevs = [] \<or> oldEnd e \<le> newPosition (hd prevs)"
  shows "\<exists>out. (\<forall>res. compress_loop prevs currs (b - a) (c - b + (newLength e - oldLength e))
      (res @ [rebaseCurr (b - a) e]) = res @ out) \<and> applies out a c A C"
proof -
  obtain g A' B' C' where *: "A = g @ oldText e @ A'" "C = g @ newText e @ C'"
    "oldPosition e = b + int (length g)" "newPosition e = c + int (length g)"
    "applies prevs (oldEnd e - (b - a)) (oldEnd e) A' B'" "applies currs (oldEnd e) (newEnd e) B' C'"
    using accept_current [OF assms(2,3,4)] by blast
  have cd: "newEnd e - oldEnd e = c - b + (newLength e - oldLength e)"
    using *(3,4) by (simp add: newEnd_def oldEnd_def newLength_def oldLength_def)
  have pd: "oldEnd e - (oldEnd e - (b - a)) = b - a" by simp
  obtain out where out: "\<And>res. compress_loop prevs currs (b - a) (newEnd e - oldEnd e) res = res @ out"
    "applies out (oldEnd e - (b - a)) (newEnd e) A' C'"
    using composesE [OF assms(1) *(5,6)] unfolding pd by blast
  have "applies (rebaseCurr (b - a) e # out) a c (g @ oldText e @ A') (g @ newText e @ C')"
    using appliesI [of "rebaseCurr (b - a) e" a g c out A' C'] out(2) *(3,4)
    by (simp add: rebaseCurr_def new_TextChange_def oldEnd_def newEnd_def algebra_simps)
  then show ?thesis using out(1) *(1,2) unfolding cd by (intro exI [of _ "rebaseCurr (b - a) e # out"]) simp
qed

lemma take_previous:
  assumes "composes prevs currs" "applies (e # prevs) a b A B" "applies currs b c B C"
    "currs = [] \<or> newEnd e \<le> oldPosition (hd currs)"
  shows "\<exists>out. (\<forall>res. compress_loop prevs currs (b - a + (newLength e - oldLength e)) (c - b)
      (res @ [rebasePrev (c - b) e]) = res @ out) \<and> applies out a c A C"
proof -
  obtain g A' B' C' where *: "A = g @ oldText e @ A'" "C = g @ newText e @ C'"
    "oldPosition e = a + int (length g)" "newPosition e = b + int (length g)"
    "applies prevs (oldEnd e) (newEnd e) A' B'" "applies currs (newEnd e) (newEnd e + (c - b)) B' C'"
    using accept_previous [OF assms(2,3,4)] by blast
  have pd: "newEnd e - oldEnd e = b - a + (newLength e - oldLength e)"
    using *(3,4) by (simp add: newEnd_def oldEnd_def newLength_def oldLength_def)
  have cd: "newEnd e + (c - b) - newEnd e = c - b" by simp
  obtain out where out: "\<And>res. compress_loop prevs currs (newEnd e - oldEnd e) (c - b) res = res @ out"
    "applies out (oldEnd e) (newEnd e + (c - b)) A' C'"
    using composesE [OF assms(1) *(5,6)] unfolding cd by blast
  have "applies (rebasePrev (c - b) e # out) a c (g @ oldText e @ A') (g @ newText e @ C')"
    using appliesI [of "rebasePrev (c - b) e" a g c out A' C'] out(2) *(3,4)
    by (simp add: rebasePrev_def new_TextChange_def oldEnd_def newEnd_def algebra_simps)
  then show ?thesis using out(1) *(1,2) unfolding pd by (intro exI [of _ "rebasePrev (c - b) e # out"]) simp
qed

lemma take_both:
  assumes "composes prevs currs" "applies (e # prevs) a b A B" "applies (f # currs) b c B C"
    "newPosition e = oldPosition f" "newLength e = oldLength f"
  shows "\<exists>out. (\<forall>res. compress_loop prevs currs (b - a + (newLength e - oldLength e)) (c - b + (newLength f - oldLength f))
      (res @ [new_TextChange (oldPosition e) (oldText e) (newPosition f) (newText f)]) = res @ out) \<and> applies out a c A C"
proof -
  obtain g A' B' C' where *: "A = g @ oldText e @ A'" "C = g @ newText f @ C'"
    "oldPosition e = a + int (length g)" "newPosition f = c + int (length g)"
    "applies prevs (oldEnd e) (newEnd e) A' B'" "applies currs (newEnd e) (newEnd f) B' C'"
    using merge_same_stretch [OF assms(2-5)] by blast
  have "newPosition e = b + int (length g)"
    using assms(2) *(3) by (auto simp: applies_Cons)
  then have d: "newEnd e - oldEnd e = b - a + (newLength e - oldLength e)"
    "newEnd f - newEnd e = c - b + (newLength f - oldLength f)"
    using *(3,4) assms(5) by (simp_all add: newEnd_def oldEnd_def newLength_def oldLength_def)
  obtain out where out: "\<And>res. compress_loop prevs currs (newEnd e - oldEnd e) (newEnd f - newEnd e) res = res @ out"
    "applies out (oldEnd e) (newEnd f) A' C'"
    using composesE [OF assms(1) *(5,6)] by blast
  let ?n = "new_TextChange (oldPosition e) (oldText e) (newPosition f) (newText f)"
  have "applies (?n # out) a c (g @ oldText e @ A') (g @ newText f @ C')"
    using appliesI [of ?n a g c out A' C'] out(2) *(3,4)
    by (simp add: new_TextChange_def oldEnd_def newEnd_def)
  then show ?thesis using out(1) *(1,2) unfolding d by (intro exI [of _ "?n # out"]) simp
qed

lemma splitPrev_measure:
  assumes "0 \<le> off" "off \<le> newLength e" "splitPrev e off = (e1, e2)"
  shows "int (length (newText e2)) = newLength e - off"
  using assms by (auto simp: splitPrev_def new_TextChange_def substr_from_def slice_index_def newLength_def Let_def)

lemma splitCurr_measure:
  assumes "0 \<le> off" "off \<le> oldLength e" "splitCurr e off = (e1, e2)"
  shows "int (length (oldText e2)) = oldLength e - off"
  using assms by (auto simp: splitCurr_def new_TextChange_def substr_from_def slice_index_def oldLength_def Let_def)

lemma compress_measure_Cons [simp]:
  "compress_measure (e # ps) cs = Suc (length (newText e)) + compress_measure ps cs"
  "compress_measure ps (f # cs) = Suc (length (oldText f)) + compress_measure ps cs"
  by (simp_all add: compress_measure_def)

text \<open>At the same position of the middle text, the longer of the two stretches is split first.\<close>

lemma same_position_step:
  assumes IH: "\<And>ps' cs'. compress_measure ps' cs' < compress_measure (e # ps) (f # cs) \<Longrightarrow> composes ps' cs'"
    and P: "applies (e # ps) a b A B" and Q: "applies (f # cs) b c B C"
    and pos: "newPosition e = oldPosition f" "\<not> oldEnd f \<le> newPosition e" "\<not> newEnd e \<le> oldPosition f"
  shows "\<exists>out. (\<forall>res. compress_loop (e # ps) (f # cs) (b - a) (c - b) res = res @ out) \<and> applies out a c A C"
proof -
  consider "oldEnd f = newEnd e" | "oldEnd f < newEnd e" | "newEnd e < oldEnd f" by linarith
  then show ?thesis
  proof cases
    case 1
    then have "newLength e = oldLength f" using pos(1) by (simp add: oldEnd_def newEnd_def newLength_def oldLength_def)
    then show ?thesis using take_both [OF IH P Q pos(1)] pos 1 by simp
  next
    case 2
    obtain e1 e2 where s: "splitPrev e (oldLength f) = (e1, e2)" by fastforce
    have off: "0 \<le> oldLength f" "oldLength f \<le> newLength e"
      using 2 pos(1) by (simp_all add: oldEnd_def newEnd_def newLength_def oldLength_def)
    note sp = splitPrev_applies [OF P off s]
    have "composes (e2 # ps) cs" using splitPrev_measure [OF off s] off by (intro IH) (simp add: newLength_def)
    from take_both [OF this sp(1) Q] sp(3,5) pos(1) show ?thesis using pos 2 s by simp
  next
    case 3
    obtain f1 f2 where s: "splitCurr f (newLength e) = (f1, f2)" by fastforce
    have off: "0 \<le> newLength e" "newLength e \<le> oldLength f"
      using 3 pos(1) by (simp_all add: oldEnd_def newEnd_def newLength_def oldLength_def)
    note sp = splitCurr_applies [OF Q off s]
    have "composes ps (f2 # cs)" using splitCurr_measure [OF off s] off by (intro IH) (simp add: oldLength_def)
    from take_both [OF this P sp(1)] sp(3,5) pos(1) show ?thesis using pos 3 s by simp
  qed
qed

lemma overlap_step:
  assumes IH: "\<And>ps' cs'. compress_measure ps' cs' < compress_measure (e # ps) (f # cs) \<Longrightarrow> composes ps' cs'"
    and P: "applies (e # ps) a b A B" and Q: "applies (f # cs) b c B C"
    and pos: "\<not> oldEnd f \<le> newPosition e" "\<not> newEnd e \<le> oldPosition f"
  shows "\<exists>out. (\<forall>res. compress_loop (e # ps) (f # cs) (b - a) (c - b) res = res @ out) \<and> applies out a c A C"
proof -
  consider "oldPosition f < newPosition e" | "newPosition e < oldPosition f" | "newPosition e = oldPosition f" by linarith
  then show ?thesis
  proof cases
    case 1
    define off where "off = newPosition e - oldPosition f"
    obtain f1 f2 where s: "splitCurr f off = (f1, f2)" by fastforce
    have off: "0 \<le> off" "off \<le> oldLength f" using 1 pos by (simp_all add: off_def oldEnd_def oldLength_def)
    note sp = splitCurr_applies [OF Q off s]
    have "composes (e # ps) (f2 # cs)"
      using splitCurr_measure [OF off s] 1 by (intro IH) (simp add: off_def oldLength_def)
    moreover have "oldEnd f1 \<le> newPosition e" using sp(2) by (simp add: off_def)
    ultimately show ?thesis
      using take_current [OF _ P sp(1)] pos 1 s [unfolded off_def] by simp
  next
    case 2
    define off where "off = oldPosition f - newPosition e"
    obtain e1 e2 where s: "splitPrev e off = (e1, e2)" by fastforce
    have off: "0 \<le> off" "off \<le> newLength e" using 2 pos by (simp_all add: off_def newEnd_def newLength_def)
    note sp = splitPrev_applies [OF P off s]
    have "composes (e2 # ps) (f # cs)"
      using splitPrev_measure [OF off s] 2 by (intro IH) (simp add: off_def newLength_def)
    moreover have "newEnd e1 \<le> oldPosition f" using sp(2) by (simp add: off_def)
    ultimately show ?thesis
      using take_previous [OF _ sp(1) Q] pos 2 s [unfolded off_def] by simp
  next
    case 3
    show ?thesis by (rule same_position_step [OF IH P Q 3 pos])
  qed
qed

lemma composes_all: "composes prevs currs"
proof (induction "compress_measure prevs currs" arbitrary: prevs currs rule: less_induct)
  case less
  show ?case unfolding composes_def
  proof (intro allI impI)
    fix a b c A B C assume P: "applies prevs a b A B" and Q: "applies currs b c B C"
    consider "prevs = []" "currs = []" | f cs where "prevs = []" "currs = f # cs"
      | e ps where "prevs = e # ps" "currs = []" | e ps f cs where "prevs = e # ps" "currs = f # cs"
      by (meson neq_Nil_conv)
    then show "\<exists>out. (\<forall>res. compress_loop prevs currs (b - a) (c - b) res = res @ out) \<and> applies out a c A C"
    proof cases
      case 1
      then show ?thesis using P Q by simp
    next
      case (2 f cs)
      then show ?thesis using take_current [of "[]" cs a b A B f c C] P Q less.hyps [of "[]" cs] by simp
    next
      case (3 e ps)
      then show ?thesis using take_previous [of ps "[]" e a b A B c C] P Q less.hyps [of ps "[]"] by simp
    next
      case (4 e ps f cs)
      note P' = P [unfolded 4] and Q' = Q [unfolded 4]
      have IH: "compress_measure ps' cs' < compress_measure (e # ps) (f # cs) \<Longrightarrow> composes ps' cs'" for ps' cs'
        using less.hyps 4 by simp
      consider "oldEnd f \<le> newPosition e" | "\<not> oldEnd f \<le> newPosition e" "newEnd e \<le> oldPosition f"
        | "\<not> oldEnd f \<le> newPosition e" "\<not> newEnd e \<le> oldPosition f" by blast
      then show ?thesis
      proof cases
        case 1
        then show ?thesis using take_current [OF IH P' Q'] 4 by simp
      next
        case 2
        then show ?thesis using take_previous [OF IH P' Q'] 4 by simp
      next
        case 3
        show ?thesis unfolding 4 by (rule overlap_step [OF IH P' Q' 3])
      qed
    qed
  qed
qed

lemma merge_loop_applies:
  "\<exists>out. (\<forall>res. merge_loop e es res = res @ out) \<and> (applies (e # es) p q t u \<longrightarrow> applies out p q t u)"
proof (induction es arbitrary: e p q t u)
  case Nil
  show ?case by (intro exI [of _ "[e]"]) simp
next
  case (Cons f es)
  show ?case
  proof (cases "oldEnd e = oldPosition f")
    case True
    let ?m = "new_TextChange (oldPosition e) (oldText e @ oldText f) (newPosition e) (newText e @ newText f)"
    have "applies (?m # es) p q t u" if hyp: "applies (e # f # es) p q t u"
    proof -
      obtain g t' u' h where *: "t = g @ oldText e @ h @ oldText f @ t'" "u = g @ newText e @ h @ newText f @ u'"
        "oldPosition e = p + int (length g)" "newPosition e = q + int (length g)"
        "oldPosition f = oldEnd e + int (length h)" "newPosition f = newEnd e + int (length h)"
        "applies es (oldEnd f) (newEnd f) t' u'"
        using hyp unfolding applies_Cons by blast
      have h: "h = []" using *(5) True by simp
      have "oldEnd ?m = oldEnd f" "newEnd ?m = newEnd f"
        using *(5,6) h by (simp_all add: new_TextChange_def oldEnd_def newEnd_def)
      then show ?thesis
        using appliesI [of ?m p g q es t' u'] * h by (simp add: new_TextChange_def)
    qed
    with Cons [of ?m p q t u] True show ?thesis by auto
  next
    case False
    obtain out where out: "\<And>res. merge_loop f es res = res @ out"
      using Cons [of f 0 0 "[]" "[]"] by blast
    have "applies (e # out) p q t u" if hyp: "applies (e # f # es) p q t u"
    proof -
      obtain g t' u' where *: "t = g @ oldText e @ t'" "u = g @ newText e @ u'"
        "oldPosition e = p + int (length g)" "newPosition e = q + int (length g)"
        "applies (f # es) (oldEnd e) (newEnd e) t' u'"
        using hyp unfolding applies_Cons [of e] by blast
      then have "applies out (oldEnd e) (newEnd e) t' u'"
        using Cons [of f "oldEnd e" "newEnd e" t' u'] out by auto
      then show ?thesis using * appliesI by blast
    qed
    then show ?thesis using out False by (intro exI [of _ "e # out"]) simp
  qed
qed

lemma merge_applies: "applies es p q t u \<Longrightarrow> applies (TextChangeCompressor_merge es) p q t u"
proof (cases es)
  case (Cons e es')
  then show "applies es p q t u \<Longrightarrow> applies (TextChangeCompressor_merge es) p q t u"
    using merge_loop_applies [of e es' p q t u] by (auto simp: TextChangeCompressor_merge_def)
qed (simp add: TextChangeCompressor_merge_def)

lemma removeNoOps_applies: "applies es p q t u \<Longrightarrow> applies (removeNoOps es) p q t u"
proof (induction es arbitrary: p q t u)
  case (Cons e es)
  then obtain g t' u' where *: "t = g @ oldText e @ t'" "u = g @ newText e @ u'"
    "oldPosition e = p + int (length g)" "newPosition e = q + int (length g)"
    "applies (removeNoOps es) (oldEnd e) (newEnd e) t' u'"
    unfolding applies_Cons by blast
  show ?case
  proof (cases "oldText e = newText e")
    case True
    then have "applies (removeNoOps es) p q ((g @ oldText e) @ t') ((g @ oldText e) @ u')"
      using * by (intro applies_retreat) (simp add: oldEnd_def newEnd_def algebra_simps)
    then show ?thesis using True * by (simp add: removeNoOps_def)
  next
    case False
    then show ?thesis using * appliesI by (auto simp: removeNoOps_def)
  qed
qed (simp add: removeNoOps_def)

section \<open>Properties\<close>

text \<open>
  C1. Compressing consecutive changes composes them. When the previous changes lead from
  one text to a second and the current ones from the second to a third, the compressed
  list leads from the first to the third, and its inverse back; every edit in it changes
  something when there were previous changes.
\<close>

theorem compressConsecutiveTextChanges_composes:
  assumes "applies prevEdits 0 0 A B" "applies currEdits 0 0 B C"
  shows "applies (compressConsecutiveTextChanges (Some prevEdits) currEdits) 0 0 A C \<and>
         applies (map inverse_change (compressConsecutiveTextChanges (Some prevEdits) currEdits)) 0 0 C A \<and>
         (prevEdits \<noteq> [] \<longrightarrow>
            (\<forall>e \<in> set (compressConsecutiveTextChanges (Some prevEdits) currEdits). oldText e \<noteq> newText e))"
proof -
  obtain out where "\<And>res. compress_loop prevEdits currEdits (0 - 0) (0 - 0) res = res @ out" "applies out 0 0 A C"
    using composesE [OF composes_all assms] by blast
  then have "applies (TextChangeCompressor_compress prevEdits currEdits) 0 0 A C"
    by (simp add: TextChangeCompressor_compress_def removeNoOps_applies merge_applies)
  then show ?thesis
    using assms by (auto simp: compressConsecutiveTextChanges_def applies_inverse TextChangeCompressor_compress_def removeNoOps_def)
qed

theorem compressConsecutiveTextChanges_composes_witness:
  "applies (compressConsecutiveTextChanges (Some [new_TextChange 1 [] 1 [120, 121]]) [new_TextChange 2 [121] 2 [122]]) 0 0
     [97, 98] [97, 120, 122, 98]"
proof -
  have "applies [new_TextChange 1 [] 1 [120, 121]] 0 0 [97, 98] [97, 120, 121, 98]"
    "applies [new_TextChange 2 [121] 2 [122]] 0 0 [97, 120, 121, 98] [97, 120, 122, 98]"
    by (simp_all add: applies.simps(2) new_TextChange_def Let_def numeral_nat)
  then show ?thesis using compressConsecutiveTextChanges_composes by blast
qed

end
