(* ===== verification/Byte_Buffer.thy ===== *)
theory Byte_Buffer
  imports Prelude
begin

unbundle bit_operations_syntax

text \<open>
  The fixed-width integers of \<open>src/vs/base/common/buffer.ts\<close> and the UTF-16 decoder of
  \<open>src/vs/editor/common/core/stringBuilder.ts\<close>. A \<open>Uint8Array\<close> is a list of bytes: a
  store outside it is lost, a load outside it is \<open>undefined\<close>. Every writer is proved to
  put an encoding in place and to leave the other bytes alone, every reader to invert it.
\<close>

type_synonym bytes = "8 word list"

section \<open>Bit operators on numbers\<close>

text \<open>\<open>v >>> k\<close> works on the unsigned, \<open>v << k\<close> and \<open>a | b\<close> give the signed 32-bit value.\<close>

definition js_ushr :: "number \<Rightarrow> nat \<Rightarrow> number" where
  "js_ushr v k = (v mod 4294967296) div 2 ^ k"

definition js_shl :: "number \<Rightarrow> nat \<Rightarrow> number" where
  "js_shl v k = toInt32 (v * 2 ^ k)"

definition js_or :: "number \<Rightarrow> number \<Rightarrow> number" where
  "js_or a b = toInt32 (toInt32 a OR toInt32 b)"

definition js_and :: "number \<Rightarrow> number \<Rightarrow> number" where
  "js_and a b = toInt32 (toInt32 a AND toInt32 b)"

text \<open>A byte as an operand of a shift: \<open>undefined\<close> counts as 0.\<close>

definition byte_at :: "bytes \<Rightarrow> number \<Rightarrow> number" where
  "byte_at b i = (case arr_at b i of None \<Rightarrow> 0 | Some w \<Rightarrow> uint w)"

section \<open>buffer.ts\<close>

definition readUInt16LE :: "bytes \<Rightarrow> number \<Rightarrow> number" where
  "readUInt16LE src off =
     js_or (js_ushr (js_shl (byte_at src (off + 0)) 0) 0) (js_ushr (js_shl (byte_at src (off + 1)) 8) 0)"

definition writeUInt16LE :: "bytes \<Rightarrow> number \<Rightarrow> number \<Rightarrow> bytes" where
  "writeUInt16LE dst v off =
     (let dst1 = ta_write dst (off + 0) (word_of_int (js_and v 255)); v1 = js_ushr v 8
      in ta_write dst1 (off + 1) (word_of_int (js_and v1 255)))"

text \<open>In the sum of \<open>readUInt32BE\<close> an \<open>undefined\<close> byte makes the result \<open>NaN\<close> (None).\<close>

definition readUInt32BE :: "bytes \<Rightarrow> number \<Rightarrow> number option" where
  "readUInt32BE src off =
     (case (arr_at src off, arr_at src (off + 1), arr_at src (off + 2), arr_at src (off + 3)) of
        (Some a, Some b, Some c, Some d) \<Rightarrow> Some (uint a * 2 ^ 24 + uint b * 2 ^ 16 + uint c * 2 ^ 8 + uint d)
      | _ \<Rightarrow> None)"

definition writeUInt32BE :: "bytes \<Rightarrow> number \<Rightarrow> number \<Rightarrow> bytes" where
  "writeUInt32BE dst v off =
     (let dst1 = ta_write dst (off + 3) (word_of_int v); v1 = js_ushr v 8;
          dst2 = ta_write dst1 (off + 2) (word_of_int v1); v2 = js_ushr v1 8;
          dst3 = ta_write dst2 (off + 1) (word_of_int v2); v3 = js_ushr v2 8
      in ta_write dst3 off (word_of_int v3))"

definition readUInt32LE :: "bytes \<Rightarrow> number \<Rightarrow> number" where
  "readUInt32LE src off =
     js_or (js_or (js_or (js_ushr (js_shl (byte_at src (off + 0)) 0) 0)
                         (js_ushr (js_shl (byte_at src (off + 1)) 8) 0))
                  (js_ushr (js_shl (byte_at src (off + 2)) 16) 0))
           (js_ushr (js_shl (byte_at src (off + 3)) 24) 0)"

definition writeUInt32LE :: "bytes \<Rightarrow> number \<Rightarrow> number \<Rightarrow> bytes" where
  "writeUInt32LE dst v off =
     (let dst1 = ta_write dst (off + 0) (word_of_int (js_and v 255)); v1 = js_ushr v 8;
          dst2 = ta_write dst1 (off + 1) (word_of_int (js_and v1 255)); v2 = js_ushr v1 8;
          dst3 = ta_write dst2 (off + 2) (word_of_int (js_and v2 255)); v3 = js_ushr v2 8
      in ta_write dst3 (off + 3) (word_of_int (js_and v3 255)))"

definition readUInt8 :: "bytes \<Rightarrow> number \<Rightarrow> number option" where
  "readUInt8 src off = map_option uint (arr_at src off)"

definition writeUInt8 :: "bytes \<Rightarrow> number \<Rightarrow> number \<Rightarrow> bytes" where
  "writeUInt8 dst v off = ta_write dst off (word_of_int v)"

section \<open>stringBuilder.ts: decoding\<close>

text \<open>
  \<open>new Uint16Array(source.buffer, offset, len)\<close> on a little-endian platform, for a
  \<open>Uint8Array\<close> that is all of its buffer: the offset has to be even and the view inside.
\<close>

definition uint16_view :: "bytes \<Rightarrow> number \<Rightarrow> number \<Rightarrow> jsstring result" where
  "uint16_view src off len =
     (if off < 0 \<or> len < 0 \<or> off mod 2 \<noteq> 0 \<or> off + 2 * len > int (length src) then Inl RangeError
      else Inr (map (\<lambda>i. ucast (src ! (nat off + 2 * i)) OR push_bit 8 (ucast (src ! (nat off + 2 * i + 1)))) [0 ..< nat len]))"

function compatDecodeUTF16LE_loop :: "bytes \<Rightarrow> number \<Rightarrow> number \<Rightarrow> number \<Rightarrow> jsstring \<Rightarrow> jsstring" where
  "compatDecodeUTF16LE_loop src off i len res =
     (if i < len
      then compatDecodeUTF16LE_loop src (off + 2) (i + 1) len (res @ [word_of_int (readUInt16LE src off)])
      else res)"
  by pat_completeness auto
termination by (relation "measure (\<lambda>(src, off, i, len, res). nat (len - i))") auto

declare compatDecodeUTF16LE_loop.simps [simp del]

definition compatDecodeUTF16LE :: "bytes \<Rightarrow> number \<Rightarrow> number \<Rightarrow> jsstring" where
  "compatDecodeUTF16LE src off len = compatDecodeUTF16LE_loop src off 0 len []"

text \<open>\<open>decode\<close> is the \<open>decode\<close> method of the platform's \<open>TextDecoder('UTF-16LE')\<close>, a parameter.\<close>

definition decodeUTF16LE :: "(jsstring \<Rightarrow> jsstring) \<Rightarrow> bytes \<Rightarrow> number \<Rightarrow> number \<Rightarrow> jsstring result" where
  "decodeUTF16LE decode src off len =
     result_map (\<lambda>view.
       if len > 0 \<and> (view ! 0 = 0xFEFF \<or> view ! 0 = 0xFFFE) then compatDecodeUTF16LE src off len else decode view)
       (uint16_view src off len)"

section \<open>Encodings\<close>

definition enc16 :: "number \<Rightarrow> bytes" where
  "enc16 v = [word_of_int v, word_of_int (v div 256)]"

definition enc32 :: "number \<Rightarrow> bytes" where
  "enc32 v = [word_of_int (v div 16777216), word_of_int (v div 65536), word_of_int (v div 256), word_of_int v]"

text \<open>The bytes of a buffer from \<open>off\<close> on replaced by \<open>xs\<close>.\<close>

definition put :: "bytes \<Rightarrow> nat \<Rightarrow> bytes \<Rightarrow> bytes" where
  "put b off xs = take off b @ xs @ drop (off + length xs) b"

lemma length_put [simp]: "off + length xs \<le> length b \<Longrightarrow> length (put b off xs) = length b"
  by (simp add: put_def)

lemma ta_write_put: "off < length b \<Longrightarrow> ta_write b (int off) w = put b off [w]"
  by (simp add: ta_write_def put_def upd_conv_take_nth_drop)

lemma put_put_adjacent:
  "off + length xs + length ys \<le> length b \<Longrightarrow> put (put b off xs) (off + length xs) ys = put b off (xs @ ys)"
  by (simp add: put_def add.commute add.left_commute)

lemma put_put_before:
  "off + length xs + length ys \<le> length b \<Longrightarrow> put (put b (off + length xs) ys) off xs = put b off (xs @ ys)"
  by (simp add: put_def min_def drop_append add.commute add.left_commute)

lemma arr_at_put:
  "off + length xs \<le> length b \<Longrightarrow>
     arr_at (put b off xs) (int off + int i) = (if i < length xs then Some (xs ! i) else arr_at b (int off + int i))"
  by (auto simp: arr_at_def put_def nth_append nat_add_distrib)

section \<open>The operators as bit operations\<close>

lemma toInt32_signed_take_bit: "toInt32 n = signed_take_bit 31 n"
  by (simp add: toInt32_def signed_take_bit_eq_take_bit_shift take_bit_eq_mod)

lemma js_or_eq: "js_or a b = toInt32 (a OR b)"
  by (intro bit_eqI) (auto simp: js_or_def toInt32_signed_take_bit bit_simps)

lemma word8_toInt32: "(word_of_int (toInt32 n) :: 8 word) = word_of_int n"
  by (intro bit_word_eqI) (simp add: toInt32_signed_take_bit bit_simps)

lemma word8_js_and: "(word_of_int (js_and v 255) :: 8 word) = word_of_int v"
proof -
  have "(word_of_int (js_and v 255) :: 8 word) = word_of_int v AND word_of_int 255"
    by (simp only: js_and_def word8_toInt32 of_int_and_eq)
  also have "(word_of_int 255 :: 8 word) = - 1" by simp
  finally show ?thesis by simp
qed

lemma js_ushr_eq: "0 \<le> v \<Longrightarrow> v < 4294967296 \<Longrightarrow> js_ushr v k = v div 2 ^ k"
  by (simp add: js_ushr_def)

lemma or_shift_add:
  assumes "0 \<le> a" "a < 2 ^ n"
  shows "a OR (b * 2 ^ n) = a + b * (2 ^ n :: int)"
proof -
  have "a AND push_bit n b = 0"
  proof (rule bit_eqI)
    fix i
    have "bit a i \<Longrightarrow> i < n" using assms by (metis bit_take_bit_iff take_bit_int_eq_self)
    then show "bit (a AND push_bit n b) i = bit 0 i" by (auto simp: bit_simps)
  qed
  then show ?thesis by (simp add: disjunctive_add_eq_or [symmetric] push_bit_eq_mult)
qed

lemma byte_bounds: "0 \<le> byte_at b i" "byte_at b i < 256"
proof -
  have "0 \<le> uint w \<and> uint w < 256" for w :: "8 word" using uint_bounded [of w] by simp
  then show "0 \<le> byte_at b i" "byte_at b i < 256" by (auto simp: byte_at_def split: option.splits)
qed

lemma shifted_byte: "0 \<le> x \<Longrightarrow> x < 256 \<Longrightarrow> k \<le> 24 \<Longrightarrow> js_ushr (js_shl x k) 0 = x * 2 ^ k"
proof -
  assume x: "0 \<le> x" "x < 256" and k: "k \<le> 24"
  have "(2 :: int) ^ k \<le> 2 ^ 24" using k by (intro power_increasing) simp_all
  then have "x * 2 ^ k \<le> 255 * 2 ^ 24" using x by (intro mult_mono) simp_all
  moreover have "toInt32 n mod 4294967296 = n mod 4294967296" for n
    by (simp add: toInt32_def mod_diff_left_eq)
  ultimately show ?thesis using x by (simp add: js_ushr_def js_shl_def)
qed

section \<open>Writers put encodings, readers invert them\<close>

lemma writeUInt16LE_put:
  assumes "0 \<le> v" "v < 4294967296" "off + 2 \<le> length b"
  shows "writeUInt16LE b v (int off) = put b off (enc16 v)"
proof -
  have "writeUInt16LE b v (int off) = put (put b off [word_of_int v]) (off + length [word_of_int v :: 8 word]) [word_of_int (v div 256)]"
    using assms ta_write_put [of "Suc off"]
    by (simp add: writeUInt16LE_def Let_def word8_js_and js_ushr_eq ta_write_put add.commute)
  also have "\<dots> = put b off ([word_of_int v] @ [word_of_int (v div 256)])"
    by (rule put_put_adjacent) (use assms in simp)
  finally show ?thesis by (simp add: enc16_def)
qed

lemma writeUInt32BE_put:
  assumes "0 \<le> v" "v < 4294967296" "off + 4 \<le> length b"
  shows "writeUInt32BE b v (int off) = put b off (enc32 v)"
proof -
  have u: "js_ushr v 8 = v div 256" "js_ushr (v div 256) 8 = v div 65536" "js_ushr (v div 65536) 8 = v div 16777216"
    using assms(1,2) by (simp_all add: js_ushr_eq div_int_pos_iff zdiv_zmult2_eq [symmetric])
  let ?w = "\<lambda>n. word_of_int n :: 8 word"
  have idx: "int off + 3 = int (off + 3)" "int off + 2 = int (off + 2)" "int off + 1 = int (off + 1)" by simp_all
  have "writeUInt32BE b v (int off) =
      put (put (put (put b (off + 3) [?w v]) (off + 2) [?w (v div 256)]) (off + 1) [?w (v div 65536)]) off [?w (v div 16777216)]"
  proof -
    have "ta_write b (int (off + 3)) x = put b (off + 3) [x]"
      "ta_write (put b (off + 3) [x]) (int (off + 2)) y = put (put b (off + 3) [x]) (off + 2) [y]"
      "ta_write (put (put b (off + 3) [x]) (off + 2) [y]) (int (off + 1)) z =
         put (put (put b (off + 3) [x]) (off + 2) [y]) (off + 1) [z]"
      "ta_write (put (put (put b (off + 3) [x]) (off + 2) [y]) (off + 1) [z]) (int off) t =
         put (put (put (put b (off + 3) [x]) (off + 2) [y]) (off + 1) [z]) off [t]" for x y z t
      by (rule ta_write_put, use assms(3) in simp)+
    then show ?thesis unfolding writeUInt32BE_def Let_def u idx by (simp only:)
  qed
  also have "put (put b (off + 3) [?w v]) (off + 2) [?w (v div 256)] = put b (off + 2) [?w (v div 256), ?w v]"
    using put_put_before [of "off + 2" "[?w (v div 256)]" "[?w v]" b] assms(3) by (simp add: numeral_3_eq_3)
  also have "put (put b (off + 2) [?w (v div 256), ?w v]) (off + 1) [?w (v div 65536)] =
      put b (off + 1) [?w (v div 65536), ?w (v div 256), ?w v]"
    using put_put_before [of "off + 1" "[?w (v div 65536)]" "[?w (v div 256), ?w v]" b] assms(3) by (simp add: numeral_2_eq_2)
  also have "put (put b (off + 1) [?w (v div 65536), ?w (v div 256), ?w v]) off [?w (v div 16777216)] = put b off (enc32 v)"
    using put_put_before [of off "[?w (v div 16777216)]" "[?w (v div 65536), ?w (v div 256), ?w v]" b] assms(3)
    by (simp add: enc32_def)
  finally show ?thesis .
qed

text \<open>A buffer has \<open>xs\<close> at offset \<open>off\<close>.\<close>

definition has_at :: "bytes \<Rightarrow> nat \<Rightarrow> bytes \<Rightarrow> bool" where
  "has_at b off xs \<longleftrightarrow> off + length xs \<le> length b \<and> take (length xs) (drop off b) = xs"

lemma has_at_put: "off + length xs \<le> length b \<Longrightarrow> has_at (put b off xs) off xs"
  by (simp add: has_at_def put_def)

lemma has_at_append: "has_at b off (xs @ ys) \<longleftrightarrow> has_at b off xs \<and> has_at b (off + length xs) ys"
  by (auto simp: has_at_def take_add add.commute)

lemma has_at_nth: "has_at b off xs \<Longrightarrow> i < length xs \<Longrightarrow> off + i < length b \<and> b ! (off + i) = xs ! i"
  unfolding has_at_def by (metis add_less_cancel_left nth_take nth_drop add_leD1 order_less_le_trans)

lemma has_at_arr: "has_at b off xs \<Longrightarrow> i < length xs \<Longrightarrow> arr_at b (int off + int i) = Some (xs ! i)"
  using has_at_nth [of b off xs i] by (simp add: arr_at_def nat_add_distrib)

lemma uint_word8: "uint (word_of_int n :: 8 word) = n mod 256"
  by (simp add: uint_word_of_int)

lemma byte_mods:
  fixes v :: int
  shows "v mod 65536 = 256 * (v div 256 mod 256) + v mod 256"
    and "v mod 16777216 = 65536 * (v div 65536 mod 256) + v mod 65536"
    and "v mod 4294967296 = 16777216 * (v div 16777216 mod 256) + v mod 16777216"
proof -
  show "v mod 65536 = 256 * (v div 256 mod 256) + v mod 256"
    using zmod_zmult2_eq [of 256 v 256] by (simp only: arith_simps)
  show "v mod 16777216 = 65536 * (v div 65536 mod 256) + v mod 65536"
    using zmod_zmult2_eq [of 256 v 65536] by (simp only: arith_simps)
  show "v mod 4294967296 = 16777216 * (v div 16777216 mod 256) + v mod 16777216"
    using zmod_zmult2_eq [of 256 v 16777216] by (simp only: arith_simps)
qed

lemma readUInt16LE_enc:
  assumes "has_at b off (enc16 v)"
  shows "readUInt16LE b (int off) = v mod 65536"
proof -
  have b: "byte_at b (int off + 0) = v mod 256" "byte_at b (int off + 1) = v div 256 mod 256"
    using has_at_arr [OF assms, of 0] has_at_arr [OF assms, of 1] by (simp_all add: enc16_def byte_at_def uint_word8)
  have "readUInt16LE b (int off) = toInt32 ((v mod 256) OR (v div 256 mod 256) * 2 ^ 8)"
    unfolding readUInt16LE_def b js_or_eq by (simp add: shifted_byte)
  also have "(v mod 256) OR (v div 256 mod 256) * 2 ^ 8 = v mod 256 + (v div 256 mod 256) * 2 ^ 8"
    by (rule or_shift_add) simp_all
  also have "\<dots> = v mod 65536"
    using zmod_zmult2_eq [of 256 v 256] by simp
  also have "toInt32 (v mod 65536) = v mod 65536"
    using pos_mod_bound [of 65536 v] pos_mod_sign [of 65536 v] by (intro toInt32_id) (unfold is_int32_def, linarith)
  finally show ?thesis .
qed

lemma readUInt32BE_enc:
  assumes "has_at b off (enc32 v)"
  shows "readUInt32BE b (int off) = Some (v mod 4294967296)"
proof -
  have "arr_at b (int off) = Some (word_of_int (v div 16777216))" "arr_at b (int off + 1) = Some (word_of_int (v div 65536))"
    "arr_at b (int off + 2) = Some (word_of_int (v div 256))" "arr_at b (int off + 3) = Some (word_of_int v)"
    using has_at_arr [OF assms, of 0] has_at_arr [OF assms, of 1] has_at_arr [OF assms, of 2] has_at_arr [OF assms, of 3]
    by (simp_all add: enc32_def)
  then have "readUInt32BE b (int off) =
      Some ((v div 16777216 mod 256) * 16777216 + (v div 65536 mod 256) * 65536 + (v div 256 mod 256) * 256 + v mod 256)"
    by (simp add: readUInt32BE_def uint_word8)
  moreover have "(v div 16777216 mod 256) * 16777216 + (v div 65536 mod 256) * 65536 + (v div 256 mod 256) * 256 + v mod 256 =
      v mod 4294967296" using byte_mods [of v] by linarith
  ultimately show ?thesis by (simp only:)
qed

lemma writeUInt32LE_put:
  assumes "0 \<le> v" "v < 4294967296" "off + 4 \<le> length b"
  shows "writeUInt32LE b v (int off) = put b off (rev (enc32 v))"
proof -
  have u: "js_ushr v 8 = v div 256" "js_ushr (v div 256) 8 = v div 65536" "js_ushr (v div 65536) 8 = v div 16777216"
    using assms(1,2) by (simp_all add: js_ushr_eq div_int_pos_iff zdiv_zmult2_eq [symmetric])
  let ?w = "\<lambda>n. word_of_int n :: 8 word"
  have "ta_write b (int off + 0) x = put b off [x]"
    "ta_write (put b off [x]) (int off + 1) y = put b off [x, y]"
    "ta_write (put b off [x, y]) (int off + 2) z = put b off [x, y, z]"
    "ta_write (put b off [x, y, z]) (int off + 3) t = put b off [x, y, z, t]" for x y z t
    using assms(3) ta_write_put [of off b x] ta_write_put [of "off + 1" "put b off [x]" y]
      ta_write_put [of "off + 2" "put b off [x, y]" z] ta_write_put [of "off + 3" "put b off [x, y, z]" t]
      put_put_adjacent [of off "[x]" "[y]" b] put_put_adjacent [of off "[x, y]" "[z]" b]
      put_put_adjacent [of off "[x, y, z]" "[t]" b]
    by (simp_all add: add.commute numeral_3_eq_3)
  then show ?thesis by (simp add: writeUInt32LE_def Let_def u word8_js_and enc32_def)
qed

lemma readUInt32LE_enc:
  assumes "has_at b off (rev (enc32 v))"
  shows "readUInt32LE b (int off) = toInt32 v"
proof -
  have b: "byte_at b (int off + 0) = v mod 256" "byte_at b (int off + 1) = v div 256 mod 256"
    "byte_at b (int off + 2) = v div 65536 mod 256" "byte_at b (int off + 3) = v div 16777216 mod 256"
    using has_at_arr [OF assms, of 0] has_at_arr [OF assms, of 1] has_at_arr [OF assms, of 2] has_at_arr [OF assms, of 3]
    by (simp_all add: enc32_def byte_at_def uint_word8)
  have js_or_left: "js_or (toInt32 x) y = toInt32 (x OR y)" for x y
    unfolding js_or_eq by (intro bit_eqI) (auto simp: toInt32_signed_take_bit bit_simps)
  define a where "a = v mod 256 + (v div 256 mod 256) * 2 ^ 8"
  define c where "c = a + (v div 65536 mod 256) * 2 ^ 16"
  note mods = byte_mods [of v]
  have a: "a = v mod 65536" and c: "c = v mod 16777216" unfolding a_def c_def mods by simp_all
  have o1: "(v mod 256) OR (v div 256 mod 256) * 2 ^ 8 = a" unfolding a_def by (rule or_shift_add) simp_all
  have o2: "a OR (v div 65536 mod 256) * 2 ^ 16 = c" unfolding c_def by (rule or_shift_add) (simp_all add: a)
  have "c OR (v div 16777216 mod 256) * 2 ^ 24 = c + (v div 16777216 mod 256) * 2 ^ 24"
    by (rule or_shift_add) (simp_all add: c)
  also have "\<dots> = v mod 4294967296" unfolding mods(3) c by simp
  finally have o3: "c OR (v div 16777216 mod 256) * 2 ^ 24 = v mod 4294967296" .
  have sh: "js_ushr (js_shl (x mod 256) k) 0 = (x mod 256) * 2 ^ k" if "k \<le> 24" for x k
    using that by (intro shifted_byte) simp_all
  have s: "js_ushr (js_shl (v mod 256) 0) 0 = v mod 256"
    "js_ushr (js_shl (v div 256 mod 256) 8) 0 = (v div 256 mod 256) * 2 ^ 8"
    "js_ushr (js_shl (v div 65536 mod 256) 16) 0 = (v div 65536 mod 256) * 2 ^ 16"
    "js_ushr (js_shl (v div 16777216 mod 256) 24) 0 = (v div 16777216 mod 256) * 2 ^ 24"
    using sh [of 0 v] by simp (rule sh, simp)+
  have "readUInt32LE b (int off) = toInt32 (v mod 4294967296)"
    unfolding readUInt32LE_def b s js_or_eq [of "v mod 256"] o1 js_or_left o2 o3 ..
  then show ?thesis by (simp add: toInt32_def mod_add_left_eq)
qed

section \<open>Decoding UTF-16\<close>

text \<open>A well-formed sequence has no unpaired surrogate.\<close>

definition isHighSurrogate :: "16 word \<Rightarrow> bool" where
  "isHighSurrogate c \<longleftrightarrow> 0xD800 \<le> c \<and> c \<le> 0xDBFF"

definition isLowSurrogate :: "16 word \<Rightarrow> bool" where
  "isLowSurrogate c \<longleftrightarrow> 0xDC00 \<le> c \<and> c \<le> 0xDFFF"

fun well_formed_utf16 :: "jsstring \<Rightarrow> bool" where
  "well_formed_utf16 [] \<longleftrightarrow> True"
| "well_formed_utf16 [c] \<longleftrightarrow> \<not> isHighSurrogate c \<and> \<not> isLowSurrogate c"
| "well_formed_utf16 (c # d # cs) \<longleftrightarrow>
     (if isHighSurrogate c then isLowSurrogate d \<and> well_formed_utf16 cs
      else \<not> isLowSurrogate c \<and> well_formed_utf16 (d # cs))"

definition starts_with_bom :: "jsstring \<Rightarrow> bool" where
  "starts_with_bom s \<longleftrightarrow> s \<noteq> [] \<and> (hd s = 0xFEFF \<or> hd s = 0xFFFE)"

text \<open>
  What the code relies on from the platform: a \<open>TextDecoder\<close> returns a well-formed
  sequence that does not start with a byte-order mark unchanged.
\<close>

definition text_decoder :: "(jsstring \<Rightarrow> jsstring) \<Rightarrow> bool" where
  "text_decoder decode \<longleftrightarrow> (\<forall>s. well_formed_utf16 s \<longrightarrow> \<not> starts_with_bom s \<longrightarrow> decode s = s)"

definition enc_units :: "jsstring \<Rightarrow> bytes" where
  "enc_units s = concat (map (\<lambda>c. enc16 (uint c)) s)"

lemma enc_units_simps [simp]: "enc_units [] = []" "enc_units (c # s) = enc16 (uint c) @ enc_units s"
  by (simp_all add: enc_units_def)

lemma length_enc16 [simp]: "length (enc16 v) = 2" and length_enc32 [simp]: "length (enc32 v) = 4"
  by (simp_all add: enc16_def enc32_def)

lemma length_enc_units [simp]: "length (enc_units s) = 2 * length s"
  by (induction s) simp_all

lemma uint16_bound: "uint (c :: 16 word) < 65536"
  using uint_bounded [of c] by simp

lemma bytes_to_unit:
  "ucast (word_of_int (uint c) :: 8 word) OR push_bit 8 (ucast (word_of_int (uint c div 256) :: 8 word)) = (c :: 16 word)"
proof (rule bit_word_eqI)
  fix n assume "n < LENGTH(16)"
  moreover have "uint c div 256 = drop_bit 8 (uint c)" by (simp add: drop_bit_eq_div)
  ultimately show "bit (ucast (word_of_int (uint c) :: 8 word) OR push_bit 8 (ucast (word_of_int (uint c div 256) :: 8 word)) :: 16 word) n =
      bit c n"
    by (auto simp: bit_simps)
qed

lemma enc_units_nth:
  "i < length s \<Longrightarrow> enc_units s ! (2 * i) = word_of_int (uint (s ! i)) \<and>
     enc_units s ! (2 * i + 1) = word_of_int (uint (s ! i) div 256)"
proof (induction s arbitrary: i)
  case (Cons c s)
  then show ?case by (cases i) (simp_all add: enc16_def)
qed simp

lemma uint16_view_enc:
  assumes "has_at b off (enc_units s)" "even off"
  shows "uint16_view b (int off) (int (length s)) = Inr s"
proof -
  have len: "int off + 2 * int (length s) \<le> int (length b)" using assms(1) by (simp add: has_at_def)
  have "ucast (b ! (off + 2 * i)) OR push_bit 8 (ucast (b ! (off + 2 * i + 1))) = s ! i" if "i < length s" for i
  proof -
    have "b ! (off + 2 * i) = enc_units s ! (2 * i)" "b ! (off + 2 * i + 1) = enc_units s ! (2 * i + 1)"
      using has_at_nth [OF assms(1), of "2 * i"] has_at_nth [OF assms(1), of "2 * i + 1"] that by simp_all
    then show ?thesis using enc_units_nth [OF that] by (simp only: bytes_to_unit)
  qed
  then have "map (\<lambda>i. ucast (b ! (off + 2 * i)) OR push_bit 8 (ucast (b ! (off + 2 * i + 1)))) [0 ..< length s] = s"
    by (intro nth_equalityI) simp_all
  moreover have "int off mod 2 = 0" using assms(2) by presburger
  ultimately show ?thesis using len by (simp add: uint16_view_def)
qed

lemma compatDecode_enc:
  assumes "has_at b off (enc_units s)"
  shows "compatDecodeUTF16LE_loop b (int off) i (i + int (length s)) res = res @ s"
  using assms
proof (induction s arbitrary: off i res)
  case Nil
  then show ?case by (subst compatDecodeUTF16LE_loop.simps) simp
next
  case (Cons c s)
  then have h: "has_at b off (enc16 (uint c))" "has_at b (off + 2) (enc_units s)" by (simp_all add: has_at_append)
  have "readUInt16LE b (int off) = uint c" using readUInt16LE_enc [OF h(1)] uint16_bound [of c] by simp
  then have "compatDecodeUTF16LE_loop b (int off) i (i + int (length (c # s))) res =
      compatDecodeUTF16LE_loop b (int (off + 2)) (i + 1) (i + 1 + int (length s)) (res @ [c])"
    by (subst compatDecodeUTF16LE_loop.simps) (simp add: algebra_simps)
  then show ?case using Cons.IH [OF h(2)] by simp
qed

lemma decodeUTF16LE_enc:
  assumes "has_at b off (enc_units s)" "even off" "text_decoder decode" "well_formed_utf16 s \<or> starts_with_bom s"
  shows "decodeUTF16LE decode b (int off) (int (length s)) = Inr s"
proof (cases "starts_with_bom s")
  case True
  then have "0 < int (length s) \<and> (s ! 0 = 0xFEFF \<or> s ! 0 = 0xFFFE)" by (auto simp: starts_with_bom_def hd_conv_nth)
  then show ?thesis
    using uint16_view_enc [OF assms(1,2)] compatDecode_enc [OF assms(1), of 0 "[]"]
    by (simp add: decodeUTF16LE_def compatDecodeUTF16LE_def)
next
  case False
  then have "\<not> (0 < int (length s) \<and> (s ! 0 = 0xFEFF \<or> s ! 0 = 0xFFFE))" by (auto simp: starts_with_bom_def hd_conv_nth)
  moreover have "decode s = s" using assms(3,4) False by (auto simp: text_decoder_def)
  ultimately show ?thesis using uint16_view_enc [OF assms(1,2)] by (auto simp: decodeUTF16LE_def)
qed

section \<open>Properties\<close>

text \<open>
  The integer codecs of \<open>buffer.ts\<close>: for a 32-bit unsigned value and an offset with
  room, reading back what was written gives the value (16-bit little-endian: its low 16
  bits; 32-bit little-endian: the value as a signed 32-bit integer, negative from
  \<open>2 ^ 31\<close> on), and no other byte of the buffer changes.
\<close>

theorem integer_codecs_roundtrip:
  assumes "0 \<le> v" "v < 4294967296" "off + 4 \<le> length b"
  shows "readUInt16LE (writeUInt16LE b v (int off)) (int off) = v mod 65536 \<and>
         readUInt32BE (writeUInt32BE b v (int off)) (int off) = Some v \<and>
         readUInt32LE (writeUInt32LE b v (int off)) (int off) = toInt32 v \<and>
         readUInt8 (writeUInt8 b v (int off)) (int off) = Some (v mod 256) \<and>
         (\<forall>i. i < off \<or> off + 4 \<le> i \<longrightarrow>
            arr_at (writeUInt16LE b v (int off)) (int i) = arr_at b (int i) \<and>
            arr_at (writeUInt32BE b v (int off)) (int i) = arr_at b (int i) \<and>
            arr_at (writeUInt32LE b v (int off)) (int i) = arr_at b (int i))"
proof -
  have puts: "writeUInt16LE b v (int off) = put b off (enc16 v)" "writeUInt32BE b v (int off) = put b off (enc32 v)"
    "writeUInt32LE b v (int off) = put b off (rev (enc32 v))"
    using assms by (simp_all add: writeUInt16LE_put writeUInt32BE_put writeUInt32LE_put)
  have "readUInt8 (writeUInt8 b v (int off)) (int off) = Some (v mod 256)"
    using assms(3) by (simp add: readUInt8_def writeUInt8_def ta_write_def arr_at_def uint_word8)
  moreover have "arr_at (put b off xs) (int i) = arr_at b (int i)"
    if "length xs \<le> 4" "i < off \<or> off + 4 \<le> i" for xs i
    using that assms(3) by (auto simp: arr_at_def put_def nth_append)
  ultimately show ?thesis
    unfolding puts using assms has_at_put [of off "enc16 v" b] has_at_put [of off "enc32 v" b]
      has_at_put [of off "rev (enc32 v)" b]
    by (auto simp: readUInt16LE_enc readUInt32BE_enc readUInt32LE_enc)
qed

theorem integer_codecs_roundtrip_witness:
  "readUInt32LE (writeUInt32LE (replicate 8 0) 4294967295 2) 2 = -1"
  using integer_codecs_roundtrip [of 4294967295 2 "replicate 8 0"] by (simp add: toInt32_def)

end
