(* ===== verification/Text_Change_Bytes.thy ===== *)
theory Text_Change_Bytes
  imports Text_Change Byte_Buffer
begin

text \<open>
  The serialization of \<open>src/vs/editor/common/core/textChange.ts\<close>: undo stack elements
  keep their changes as bytes. \<open>write\<close> puts the two positions, then the two texts, each
  with its length; \<open>read\<close> is proved to give the same change back.
\<close>

definition writeStringSize :: "jsstring \<Rightarrow> number" where
  "writeStringSize str = 4 + 2 * int (length str)"

fun writeString_loop :: "bytes \<Rightarrow> jsstring \<Rightarrow> number \<Rightarrow> bytes \<times> number" where
  "writeString_loop b [] off = (b, off)"
| "writeString_loop b (c # cs) off = writeString_loop (writeUInt16LE b (uint c) off) cs (off + 2)"

definition writeString :: "bytes \<Rightarrow> jsstring \<Rightarrow> number \<Rightarrow> bytes \<times> number" where
  "writeString b str off = writeString_loop (writeUInt32BE b (int (length str)) off) str (off + 4)"

text \<open>A length that is \<open>NaN\<close> makes a view of length 0.\<close>

definition readString :: "(jsstring \<Rightarrow> jsstring) \<Rightarrow> bytes \<Rightarrow> number \<Rightarrow> jsstring result" where
  "readString decode b off =
     (let len = (case readUInt32BE b off of None \<Rightarrow> 0 | Some n \<Rightarrow> n) in decodeUTF16LE decode b (off + 4) len)"

definition TextChange_writeSize :: "TextChange \<Rightarrow> number" where
  "TextChange_writeSize this = 4 + 4 + writeStringSize (oldText this) + writeStringSize (newText this)"

definition TextChange_write :: "TextChange \<Rightarrow> bytes \<Rightarrow> number \<Rightarrow> bytes \<times> number" where
  "TextChange_write this b off =
     (let b1 = writeUInt32BE b (oldPosition this) off; off1 = off + 4;
          b2 = writeUInt32BE b1 (newPosition this) off1; off2 = off1 + 4;
          (b3, off3) = writeString b2 (oldText this) off2
      in writeString b3 (newText this) off3)"

text \<open>None as a position is \<open>NaN\<close>; the reader below only builds a change from numbers.\<close>

definition TextChange_read ::
  "(jsstring \<Rightarrow> jsstring) \<Rightarrow> bytes \<Rightarrow> number \<Rightarrow> ((number option \<times> jsstring \<times> number option \<times> jsstring) list) \<Rightarrow>
   (number \<times> (number option \<times> jsstring \<times> number option \<times> jsstring) list) result" where
  "TextChange_read decode b off dest =
     (let oldPos = readUInt32BE b off; off1 = off + 4;
          newPos = readUInt32BE b off1; off2 = off1 + 4
      in result_bind (readString decode b off2) (\<lambda>ot.
           let off3 = off2 + writeStringSize ot
           in result_map (\<lambda>nt. (off3 + writeStringSize nt, dest @ [(oldPos, ot, newPos, nt)]))
                (readString decode b off3)))"

section \<open>The encoding\<close>

definition enc_string :: "jsstring \<Rightarrow> bytes" where
  "enc_string s = enc32 (int (length s)) @ enc_units s"

definition enc_change :: "TextChange \<Rightarrow> bytes" where
  "enc_change e = enc32 (oldPosition e) @ enc32 (newPosition e) @ enc_string (oldText e) @ enc_string (newText e)"

lemma length_enc_string [simp]: "length (enc_string s) = 4 + 2 * length s"
  by (simp add: enc_string_def)

lemma writeString_loop_put:
  "off + 2 * length s \<le> length b \<Longrightarrow>
     writeString_loop b s (int off) = (put b off (enc_units s), int (off + 2 * length s))"
proof (induction s arbitrary: b off)
  case Nil
  then show ?case by (simp add: put_def)
next
  case (Cons c s)
  have w: "writeUInt16LE b (uint c) (int off) = put b off (enc16 (uint c))"
    using Cons.prems uint16_bound [of c] by (intro writeUInt16LE_put) simp_all
  have "writeString_loop (put b off (enc16 (uint c))) s (int (off + 2)) =
      (put (put b off (enc16 (uint c))) (off + 2) (enc_units s), int (off + 2 + 2 * length s))"
    using Cons.prems by (intro Cons.IH) simp
  moreover have "put (put b off (enc16 (uint c))) (off + 2) (enc_units s) = put b off (enc_units (c # s))"
    using put_put_adjacent [of off "enc16 (uint c)" "enc_units s" b] Cons.prems by simp
  ultimately show ?case using w by (simp add: algebra_simps)
qed

lemma writeString_put:
  assumes "off + 4 + 2 * length s \<le> length b" "int (length s) < 4294967296"
  shows "writeString b s (int off) = (put b off (enc_string s), int (off + 4 + 2 * length s))"
proof -
  have "writeUInt32BE b (int (length s)) (int off) = put b off (enc32 (int (length s)))"
    using assms by (intro writeUInt32BE_put) simp_all
  moreover have "writeString_loop (put b off (enc32 (int (length s)))) s (int (off + 4)) =
      (put (put b off (enc32 (int (length s)))) (off + 4) (enc_units s), int (off + 4 + 2 * length s))"
    using assms(1) by (intro writeString_loop_put) simp
  moreover have "put (put b off (enc32 (int (length s)))) (off + 4) (enc_units s) = put b off (enc_string s)"
    using put_put_adjacent [of off "enc32 (int (length s))" "enc_units s" b] assms(1) by (simp add: enc_string_def)
  ultimately show ?thesis by (simp add: writeString_def add.commute)
qed

definition TextChange_encodable :: "TextChange \<Rightarrow> bool" where
  "TextChange_encodable e \<longleftrightarrow>
     0 \<le> oldPosition e \<and> oldPosition e < 4294967296 \<and> 0 \<le> newPosition e \<and> newPosition e < 4294967296 \<and>
     int (length (oldText e)) < 4294967296 \<and> int (length (newText e)) < 4294967296 \<and>
     (well_formed_utf16 (oldText e) \<or> starts_with_bom (oldText e)) \<and>
     (well_formed_utf16 (newText e) \<or> starts_with_bom (newText e))"

lemma write_put:
  assumes "TextChange_encodable e" "int off + TextChange_writeSize e \<le> int (length b)"
  shows "TextChange_write e b (int off) = (put b off (enc_change e), int off + TextChange_writeSize e)"
proof -
  define m n where "m = length (oldText e)" and "n = length (newText e)"
  have room: "off + 16 + 2 * m + 2 * n \<le> length b"
    using assms(2) by (simp add: TextChange_writeSize_def writeStringSize_def m_def n_def)
  have e: "0 \<le> oldPosition e" "oldPosition e < 4294967296" "0 \<le> newPosition e" "newPosition e < 4294967296"
    "int m < 4294967296" "int n < 4294967296" using assms(1) by (simp_all add: TextChange_encodable_def m_def n_def)
  define x y where "x = enc32 (oldPosition e)" and "y = enc32 (newPosition e)"
  define b1 b2 b3 where "b1 = put b off x" and "b2 = put b off (x @ y)" and "b3 = put b off (x @ y @ enc_string (oldText e))"
  have len: "length x = 4" "length y = 4" "length b1 = length b" "length b2 = length b" "length b3 = length b"
    using room by (simp_all add: x_def y_def b1_def b2_def b3_def m_def)
  have "writeUInt32BE b (oldPosition e) (int off) = b1"
    unfolding b1_def x_def using room e by (intro writeUInt32BE_put) simp_all
  moreover have "writeUInt32BE b1 (newPosition e) (int (off + 4)) = b2"
  proof -
    have "writeUInt32BE b1 (newPosition e) (int (off + 4)) = put b1 (off + 4) y"
      unfolding y_def using room e len by (intro writeUInt32BE_put) simp_all
    then show ?thesis using put_put_adjacent [of off x y b] room len by (simp add: b1_def b2_def)
  qed
  moreover have "writeString b2 (oldText e) (int (off + 8)) = (b3, int (off + 12 + 2 * m))"
  proof -
    have "writeString b2 (oldText e) (int (off + 8)) = (put b2 (off + 8) (enc_string (oldText e)), int (off + 8 + 4 + 2 * m))"
      unfolding m_def using room e len by (intro writeString_put) (simp_all add: m_def)
    then show ?thesis using put_put_adjacent [of off "x @ y" "enc_string (oldText e)" b] room len
      by (simp add: b2_def b3_def m_def)
  qed
  moreover have "writeString b3 (newText e) (int (off + 12 + 2 * m)) =
      (put b off (enc_change e), int (off + 16 + 2 * m + 2 * n))"
  proof -
    have "writeString b3 (newText e) (int (off + 12 + 2 * m)) =
        (put b3 (off + 12 + 2 * m) (enc_string (newText e)), int (off + 12 + 2 * m + 4 + 2 * n))"
      unfolding n_def using room e len by (intro writeString_put) (simp_all add: n_def)
    then show ?thesis using put_put_adjacent [of off "x @ y @ enc_string (oldText e)" "enc_string (newText e)" b] room len
      by (simp add: b3_def enc_change_def m_def n_def x_def y_def algebra_simps)
  qed
  ultimately show ?thesis
    by (simp add: TextChange_write_def Let_def TextChange_writeSize_def writeStringSize_def m_def n_def add.commute add.left_commute)
qed

lemma readString_enc:
  assumes "has_at b off (enc_string s)" "even off" "text_decoder decode" "well_formed_utf16 s \<or> starts_with_bom s"
    "int (length s) < 4294967296"
  shows "readString decode b (int off) = Inr s"
proof -
  have h: "has_at b off (enc32 (int (length s)))" "has_at b (off + 4) (enc_units s)"
    using assms(1) by (simp_all add: enc_string_def has_at_append)
  have "readUInt32BE b (int off) = Some (int (length s))" using readUInt32BE_enc [OF h(1)] assms(5) by simp
  moreover have "decodeUTF16LE decode b (int (off + 4)) (int (length s)) = Inr s"
    using assms(2-4) by (intro decodeUTF16LE_enc [OF h(2)]) simp_all
  ultimately show ?thesis by (simp add: readString_def add.commute)
qed

section \<open>Properties\<close>

text \<open>
  C9. A text change survives serialization. Written at an even offset of a buffer with
  enough room (\<open>writeSize\<close> bytes), a change with 32-bit positions and texts that are
  well-formed UTF-16, or that start with a byte-order mark, is read back unchanged, both
  functions return the offset behind it, and the bytes around it are untouched.
\<close>

theorem TextChange_write_read_roundtrip:
  assumes "TextChange_encodable e" "int off + TextChange_writeSize e \<le> int (length b)" "even off" "text_decoder decode"
  shows "TextChange_read decode (fst (TextChange_write e b (int off))) (int off) dest =
           Inr (snd (TextChange_write e b (int off)),
                dest @ [(Some (oldPosition e), oldText e, Some (newPosition e), newText e)]) \<and>
         snd (TextChange_write e b (int off)) = int off + TextChange_writeSize e \<and>
         length (fst (TextChange_write e b (int off))) = length b \<and>
         take off (fst (TextChange_write e b (int off))) = take off b \<and>
         drop (off + nat (TextChange_writeSize e)) (fst (TextChange_write e b (int off))) =
           drop (off + nat (TextChange_writeSize e)) b"
proof -
  define m n where "m = length (oldText e)" and "n = length (newText e)"
  define bb where "bb = put b off (enc_change e)"
  have room: "off + (16 + 2 * m + 2 * n) \<le> length b" and len: "length (enc_change e) = 16 + 2 * m + 2 * n"
    using assms(2) by (simp_all add: TextChange_writeSize_def writeStringSize_def m_def n_def enc_change_def)
  have sz: "TextChange_writeSize e = int (16 + 2 * m + 2 * n)"
    by (simp add: TextChange_writeSize_def writeStringSize_def m_def n_def)
  then have nsz: "nat (TextChange_writeSize e) = 16 + 2 * m + 2 * n" by linarith
  have wr: "TextChange_write e b (int off) = (bb, int off + TextChange_writeSize e)"
    unfolding bb_def by (rule write_put [OF assms(1,2)])
  have "has_at bb off (enc_change e)" unfolding bb_def using room len by (intro has_at_put) simp
  then have h: "has_at bb off (enc32 (oldPosition e))" "has_at bb (off + 4) (enc32 (newPosition e))"
    "has_at bb (off + 8) (enc_string (oldText e))" "has_at bb (off + 12 + 2 * m) (enc_string (newText e))"
    by (simp_all add: enc_change_def has_at_append m_def algebra_simps)
  have e: "oldPosition e mod 4294967296 = oldPosition e" "newPosition e mod 4294967296 = newPosition e"
    using assms(1) by (simp_all add: TextChange_encodable_def)
  have r: "readUInt32BE bb (int off) = Some (oldPosition e)" "readUInt32BE bb (int off + 4) = Some (newPosition e)"
    using readUInt32BE_enc [OF h(1)] readUInt32BE_enc [OF h(2)] e by simp_all
  have "readString decode bb (int (off + 8)) = Inr (oldText e)"
    using assms(1,3,4) by (intro readString_enc [OF h(3)]) (simp_all add: TextChange_encodable_def)
  moreover have "readString decode bb (int (off + 12 + 2 * m)) = Inr (newText e)"
    using assms(1,3,4) by (intro readString_enc [OF h(4)]) (simp_all add: TextChange_encodable_def)
  ultimately have "TextChange_read decode bb (int off) dest =
      Inr (int off + TextChange_writeSize e, dest @ [(Some (oldPosition e), oldText e, Some (newPosition e), newText e)])"
    using r by (simp add: TextChange_read_def Let_def writeStringSize_def TextChange_writeSize_def m_def algebra_simps)
  then show ?thesis
    unfolding wr using room len sz nsz by (simp add: bb_def put_def)
qed

text \<open>A decoder as the platform has it: a leading mark is dropped, an unpaired surrogate replaced.\<close>

fun replace_unpaired :: "jsstring \<Rightarrow> jsstring" where
  "replace_unpaired [] = []"
| "replace_unpaired [c] = [if isHighSurrogate c \<or> isLowSurrogate c then 0xFFFD else c]"
| "replace_unpaired (c # d # cs) =
     (if isHighSurrogate c then
        if isLowSurrogate d then c # d # replace_unpaired cs else 0xFFFD # replace_unpaired (d # cs)
      else (if isLowSurrogate c then 0xFFFD else c) # replace_unpaired (d # cs))"

definition utf16_decoder :: "jsstring \<Rightarrow> jsstring" where
  "utf16_decoder s = replace_unpaired (if s \<noteq> [] \<and> hd s = 0xFEFF then tl s else s)"

lemma text_decoder_utf16: "text_decoder utf16_decoder"
proof -
  have "well_formed_utf16 s \<Longrightarrow> replace_unpaired s = s" for s
    by (induction s rule: replace_unpaired.induct) (auto split: if_splits)
  then show ?thesis by (auto simp: text_decoder_def utf16_decoder_def starts_with_bom_def)
qed

theorem TextChange_write_read_roundtrip_witness:
  "TextChange_read utf16_decoder (fst (TextChange_write (new_TextChange 3 [97] 3 [98, 99]) (replicate 30 0) 2)) 2 [] =
     Inr (24, [(Some 3, [97], Some 3, [98, 99])])"
proof -
  let ?e = "new_TextChange 3 [97] 3 [98, 99]"
  have "TextChange_encodable ?e"
    by (simp add: TextChange_encodable_def new_TextChange_def isHighSurrogate_def isLowSurrogate_def)
  moreover have "TextChange_writeSize ?e = 22" by (simp add: TextChange_writeSize_def writeStringSize_def new_TextChange_def)
  ultimately show ?thesis
    using TextChange_write_read_roundtrip [of ?e 2 "replicate 30 0" utf16_decoder "[]"] text_decoder_utf16
    by (simp add: new_TextChange_def)
qed

end
