(* ===== verification/Folding_Ranges.thy ===== *)
theory Folding_Ranges
  imports Prelude
begin

text \<open>
  \<open>src/vs/editor/contrib/folding/browser/foldingRanges.ts\<close>: the folding regions of an
  editor. Start and end lines are packed into 32-bit words together with the two halves of
  the index of the enclosing region; three bit fields keep the states of the regions. The
  enclosing region of each region is found with a stack on first use. \<open>sanitizeAndMerge\<close>
  combines the ranges of the providers with those the user folded.
\<close>

unbundle bit_operations_syntax

section \<open>BitField\<close>

record BitField =
  bf_states :: "32 word list"

text \<open>\<open>arr[i]\<close> as an operand of a bit operator: \<open>undefined\<close> counts as 0.\<close>

definition word_at :: "32 word list \<Rightarrow> number \<Rightarrow> 32 word" where
  "word_at ws i = (case arr_at ws i of None \<Rightarrow> 0 | Some w \<Rightarrow> w)"

definition new_BitField :: "nat \<Rightarrow> BitField" where
  "new_BitField n = \<lparr>bf_states = replicate ((n + 31) div 32) 0\<rparr>"

text \<open>\<open>(index / 32) | 0\<close> rounds towards 0; a shift count is taken modulo 32.\<close>

definition bf_arrayIndex :: "number \<Rightarrow> number" where
  "bf_arrayIndex index = toInt32 (sgn index * (\<bar>index\<bar> div 32))"

definition bf_mask :: "number \<Rightarrow> 32 word" where
  "bf_mask index = push_bit (nat (js_rem index 32 mod 32)) 1"

definition BitField_get :: "BitField \<Rightarrow> number \<Rightarrow> bool" where
  "BitField_get this index \<longleftrightarrow> word_at (bf_states this) (bf_arrayIndex index) AND bf_mask index \<noteq> 0"

definition BitField_set :: "number \<Rightarrow> bool \<Rightarrow> BitField \<Rightarrow> BitField" where
  "BitField_set index newState this =
     (let arrayIndex = bf_arrayIndex index; v = word_at (bf_states this) arrayIndex
      in this\<lparr>bf_states := ta_write (bf_states this) arrayIndex
           (if newState then v OR bf_mask index else v AND NOT (bf_mask index))\<rparr>)"

section \<open>FoldingRegions\<close>

datatype FoldSource = provider | userDefined | recovered

record FoldRange =
  fold_startLineNumber :: number
  fold_endLineNumber :: number
  fold_type :: "jsstring option"
  fold_isCollapsed :: bool
  fold_source :: FoldSource

definition MAX_FOLDING_REGIONS :: number where "MAX_FOLDING_REGIONS = 0xFFFF"
definition MAX_LINE_NUMBER :: number where "MAX_LINE_NUMBER = 0xFFFFFF"
definition MASK_INDENT :: "32 word" where "MASK_INDENT = 0xFF000000"

record FoldingRegions =
  fr_startIndexes :: "32 word list"
  fr_endIndexes :: "32 word list"
  fr_collapseStates :: BitField
  fr_userDefinedStates :: BitField
  fr_recoveredStates :: BitField
  fr_parentsComputed :: bool
  fr_types :: "jsstring option list option"

definition new_FoldingRegions ::
  "32 word list \<Rightarrow> 32 word list \<Rightarrow> jsstring option list option \<Rightarrow> FoldingRegions result" where
  "new_FoldingRegions startIndexes endIndexes types =
     (if length startIndexes \<noteq> length endIndexes \<or> int (length startIndexes) > MAX_FOLDING_REGIONS
      then Inl PlainError
      else Inr \<lparr>fr_startIndexes = startIndexes, fr_endIndexes = endIndexes,
                fr_collapseStates = new_BitField (length startIndexes),
                fr_userDefinedStates = new_BitField (length startIndexes),
                fr_recoveredStates = new_BitField (length startIndexes),
                fr_parentsComputed = False, fr_types = types\<rparr>)"

definition FoldingRegions_length :: "FoldingRegions \<Rightarrow> number" where
  "FoldingRegions_length this = int (length (fr_startIndexes this))"

definition line_of :: "32 word list \<Rightarrow> number \<Rightarrow> number" where
  "line_of ws index = uint (word_at ws index AND word_of_int MAX_LINE_NUMBER)"

definition FoldingRegions_getStartLineNumber :: "FoldingRegions \<Rightarrow> number \<Rightarrow> number" where
  "FoldingRegions_getStartLineNumber this index = line_of (fr_startIndexes this) index"

definition FoldingRegions_getEndLineNumber :: "FoldingRegions \<Rightarrow> number \<Rightarrow> number" where
  "FoldingRegions_getEndLineNumber this index = line_of (fr_endIndexes this) index"

text \<open>
  The stack \<open>parentIndexes\<close> is a list with its top first. The loop stores into the two
  arrays while it reads lines from them; an oversized line number ends it with an
  exception, the entries before it stored.
\<close>

fun pop_parents :: "32 word list \<Rightarrow> 32 word list \<Rightarrow> number \<Rightarrow> number \<Rightarrow> nat list \<Rightarrow> nat list" where
  "pop_parents ss es sl el [] = []"
| "pop_parents ss es sl el (p # ps) =
     (if line_of ss (int p) \<le> sl \<and> line_of es (int p) \<ge> el then p # ps else pop_parents ss es sl el ps)"

definition pack_start :: "32 word \<Rightarrow> number \<Rightarrow> 32 word" where
  "pack_start w parentIndex = w + push_bit 24 (word_of_int parentIndex AND 0xFF)"

definition pack_end :: "32 word \<Rightarrow> number \<Rightarrow> 32 word" where
  "pack_end w parentIndex = w + push_bit 16 (word_of_int parentIndex AND 0xFF00)"

function parents_loop ::
  "nat \<Rightarrow> nat list \<Rightarrow> 32 word list \<Rightarrow> 32 word list \<Rightarrow> 32 word list \<times> 32 word list \<times> js_error option" where
  "parents_loop i parentIndexes ss es =
     (if i < length ss then
        let sl = word_at ss (int i); el = word_at es (int i)
        in if uint sl > MAX_LINE_NUMBER \<or> uint el > MAX_LINE_NUMBER then (ss, es, Some PlainError)
           else
             let ps = pop_parents ss es (uint sl) (uint el) parentIndexes;
                 parentIndex = (case ps of [] \<Rightarrow> - 1 | p # _ \<Rightarrow> int p)
             in parents_loop (Suc i) (i # ps)
                  (ta_write ss (int i) (pack_start sl parentIndex)) (ta_write es (int i) (pack_end el parentIndex))
      else (ss, es, None))"
  by pat_completeness auto
termination by (relation "measure (\<lambda>(i, ps, ss, es). length ss - i)") (auto simp: ta_write_def)

declare parents_loop.simps [simp del]

definition FoldingRegions_ensureParentIndices :: "FoldingRegions \<Rightarrow> FoldingRegions \<times> js_error option" where
  "FoldingRegions_ensureParentIndices this =
     (if fr_parentsComputed this then (this, None)
      else let (ss, es, err) = parents_loop 0 [] (fr_startIndexes this) (fr_endIndexes this)
           in (this\<lparr>fr_parentsComputed := True, fr_startIndexes := ss, fr_endIndexes := es\<rparr>, err))"

definition FoldingRegions_getType :: "FoldingRegions \<Rightarrow> number \<Rightarrow> jsstring option" where
  "FoldingRegions_getType this index =
     (case fr_types this of None \<Rightarrow> None | Some ts \<Rightarrow> (case arr_at ts index of None \<Rightarrow> None | Some t \<Rightarrow> t))"

definition FoldingRegions_hasTypes :: "FoldingRegions \<Rightarrow> bool" where
  "FoldingRegions_hasTypes this \<longleftrightarrow> fr_types this \<noteq> None"

definition FoldingRegions_isCollapsed :: "FoldingRegions \<Rightarrow> number \<Rightarrow> bool" where
  "FoldingRegions_isCollapsed this index = BitField_get (fr_collapseStates this) index"

definition FoldingRegions_setCollapsed :: "number \<Rightarrow> bool \<Rightarrow> FoldingRegions \<Rightarrow> FoldingRegions" where
  "FoldingRegions_setCollapsed index newState this =
     this\<lparr>fr_collapseStates := BitField_set index newState (fr_collapseStates this)\<rparr>"

definition FoldingRegions_isUserDefined :: "FoldingRegions \<Rightarrow> number \<Rightarrow> bool" where
  "FoldingRegions_isUserDefined this index = BitField_get (fr_userDefinedStates this) index"

definition FoldingRegions_setUserDefined :: "number \<Rightarrow> bool \<Rightarrow> FoldingRegions \<Rightarrow> FoldingRegions" where
  "FoldingRegions_setUserDefined index newState this =
     this\<lparr>fr_userDefinedStates := BitField_set index newState (fr_userDefinedStates this)\<rparr>"

definition FoldingRegions_isRecovered :: "FoldingRegions \<Rightarrow> number \<Rightarrow> bool" where
  "FoldingRegions_isRecovered this index = BitField_get (fr_recoveredStates this) index"

definition FoldingRegions_setRecovered :: "number \<Rightarrow> bool \<Rightarrow> FoldingRegions \<Rightarrow> FoldingRegions" where
  "FoldingRegions_setRecovered index newState this =
     this\<lparr>fr_recoveredStates := BitField_set index newState (fr_recoveredStates this)\<rparr>"

definition FoldingRegions_getSource :: "FoldingRegions \<Rightarrow> number \<Rightarrow> FoldSource" where
  "FoldingRegions_getSource this index =
     (if FoldingRegions_isUserDefined this index then userDefined
      else if FoldingRegions_isRecovered this index then recovered
      else provider)"

definition FoldingRegions_setSource :: "number \<Rightarrow> FoldSource \<Rightarrow> FoldingRegions \<Rightarrow> FoldingRegions" where
  "FoldingRegions_setSource index src this =
     (if src = userDefined then
        FoldingRegions_setRecovered index False (FoldingRegions_setUserDefined index True this)
      else if src = recovered then
        FoldingRegions_setRecovered index True (FoldingRegions_setUserDefined index False this)
      else
        FoldingRegions_setRecovered index False (FoldingRegions_setUserDefined index False this))"

fun setCollapsedAllOfType_loop ::
  "jsstring \<Rightarrow> bool \<Rightarrow> nat \<Rightarrow> jsstring option list \<Rightarrow> bool \<Rightarrow> FoldingRegions \<Rightarrow> bool \<times> FoldingRegions" where
  "setCollapsedAllOfType_loop ty newState i [] hasChanged this = (hasChanged, this)"
| "setCollapsedAllOfType_loop ty newState i (t # ts) hasChanged this =
     (if t = Some ty then setCollapsedAllOfType_loop ty newState (Suc i) ts True (FoldingRegions_setCollapsed (int i) newState this)
      else setCollapsedAllOfType_loop ty newState (Suc i) ts hasChanged this)"

definition FoldingRegions_setCollapsedAllOfType :: "jsstring \<Rightarrow> bool \<Rightarrow> FoldingRegions \<Rightarrow> bool \<times> FoldingRegions" where
  "FoldingRegions_setCollapsedAllOfType ty newState this =
     (case fr_types this of
        None \<Rightarrow> (False, this)
      | Some ts \<Rightarrow> setCollapsedAllOfType_loop ty newState 0 ts False this)"

definition packed_parent :: "FoldingRegions \<Rightarrow> number \<Rightarrow> number" where
  "packed_parent this index =
     (let parent = uint (drop_bit 24 (word_at (fr_startIndexes this) index AND MASK_INDENT)) +
                   uint (drop_bit 16 (word_at (fr_endIndexes this) index AND MASK_INDENT))
      in if parent = MAX_FOLDING_REGIONS then - 1 else parent)"

definition FoldingRegions_getParentIndex :: "number \<Rightarrow> FoldingRegions \<Rightarrow> FoldingRegions \<times> number result" where
  "FoldingRegions_getParentIndex index this =
     (case FoldingRegions_ensureParentIndices this of
        (this', Some e) \<Rightarrow> (this', Inl e)
      | (this', None) \<Rightarrow> (this', Inr (packed_parent this' index)))"

definition FoldingRegions_contains :: "FoldingRegions \<Rightarrow> number \<Rightarrow> number \<Rightarrow> bool" where
  "FoldingRegions_contains this index line \<longleftrightarrow>
     FoldingRegions_getStartLineNumber this index \<le> line \<and> FoldingRegions_getEndLineNumber this index \<ge> line"

function findIndex_loop :: "FoldingRegions \<Rightarrow> number \<Rightarrow> nat \<Rightarrow> nat \<Rightarrow> nat" where
  "findIndex_loop this line low high =
     (if low < high then
        let mid = (low + high) div 2
        in if line < FoldingRegions_getStartLineNumber this (int mid) then findIndex_loop this line low mid
           else findIndex_loop this line (mid + 1) high
      else low)"
  by pat_completeness auto
termination by (relation "measure (\<lambda>(this, line, low, high). high - low)") auto

declare findIndex_loop.simps [simp del]

definition FoldingRegions_findIndex :: "FoldingRegions \<Rightarrow> number \<Rightarrow> number" where
  "FoldingRegions_findIndex this line =
     (if length (fr_startIndexes this) = 0 then - 1
      else int (findIndex_loop this line 0 (length (fr_startIndexes this))) - 1)"

text \<open>
  The loop over the enclosing regions; the parents are computed by the first call of
  \<open>getParentIndex\<close>, before it. It need not end on an object whose computation of the parents
  has failed before: then the words hold no parents.
\<close>

partial_function (option) findRange_loop :: "FoldingRegions \<Rightarrow> number \<Rightarrow> number \<Rightarrow> number option" where
  "findRange_loop this line index =
     (if index \<noteq> - 1 then
        if FoldingRegions_contains this index line then Some index
        else findRange_loop this line (packed_parent this index)
      else Some (- 1))"

definition FoldingRegions_findRange :: "number \<Rightarrow> FoldingRegions \<Rightarrow> FoldingRegions \<times> number result option" where
  "FoldingRegions_findRange line this =
     (let index = FoldingRegions_findIndex this line
      in if index \<ge> 0 then
           if FoldingRegions_getEndLineNumber this index \<ge> line then (this, Some (Inr index))
           else (case FoldingRegions_getParentIndex index this of
                   (this', Inl e) \<Rightarrow> (this', Some (Inl e))
                 | (this', Inr parent) \<Rightarrow> (this', map_option Inr (findRange_loop this' line parent)))
         else (this, Some (Inr (- 1))))"

definition foldSourceAbbr :: "FoldSource \<Rightarrow> jsstring" where
  "foldSourceAbbr src = js_str (case src of provider \<Rightarrow> '' '' | userDefined \<Rightarrow> ''u'' | recovered \<Rightarrow> ''r'')"

definition FoldingRegions_toString :: "FoldingRegions \<Rightarrow> jsstring" where
  "FoldingRegions_toString this =
     js_join (js_str '', '')
       (map (\<lambda>i. js_str ''['' @ foldSourceAbbr (FoldingRegions_getSource this i) @
                 js_str (if FoldingRegions_isCollapsed this i then ''+'' else ''-'') @ js_str ''] '' @
                 js_show_number (FoldingRegions_getStartLineNumber this i) @ js_str ''/'' @
                 js_show_number (FoldingRegions_getEndLineNumber this i))
         [0 .. FoldingRegions_length this - 1])"

definition FoldingRegions_toFoldRange :: "FoldingRegions \<Rightarrow> number \<Rightarrow> FoldRange" where
  "FoldingRegions_toFoldRange this index =
     \<lparr>fold_startLineNumber = line_of (fr_startIndexes this) index,
      fold_endLineNumber = line_of (fr_endIndexes this) index,
      fold_type = FoldingRegions_getType this index,
      fold_isCollapsed = FoldingRegions_isCollapsed this index,
      fold_source = FoldingRegions_getSource this index\<rparr>"

definition fromFoldRanges_step :: "FoldRange \<times> nat \<Rightarrow> FoldingRegions \<Rightarrow> FoldingRegions" where
  "fromFoldRanges_step ri regions =
     (let regions1 = (if fold_isCollapsed (fst ri) then FoldingRegions_setCollapsed (int (snd ri)) True regions else regions)
      in FoldingRegions_setSource (int (snd ri)) (fold_source (fst ri)) regions1)"

definition gotTypes :: "FoldRange list \<Rightarrow> bool" where
  "gotTypes rs \<longleftrightarrow> (\<exists>r \<in> set rs. fold_type r \<noteq> None \<and> fold_type r \<noteq> Some [])"

definition FoldingRegions_fromFoldRanges :: "FoldRange list \<Rightarrow> FoldingRegions result" where
  "FoldingRegions_fromFoldRanges rs =
     result_map (fold fromFoldRanges_step (zip rs [0..<length rs]))
       (new_FoldingRegions (map (\<lambda>r. word_of_int (fold_startLineNumber r)) rs)
          (map (\<lambda>r. word_of_int (fold_endLineNumber r)) rs)
          (if gotTypes rs then Some (map fold_type rs) else None))"

section \<open>sanitizeAndMerge\<close>

text \<open>
  The entries an index function gives out are the remaining lists \<open>as\<close> and \<open>bs\<close>, whose
  heads are \<open>nextA\<close> and \<open>nextB\<close>. The source changes \<open>useRange\<close> in place and never reads
  that entry of its list again. The stack is a list with its top first.
\<close>

type_synonym fold_input = "FoldingRegions + FoldRange list"

fun fold_ranges :: "fold_input \<Rightarrow> FoldRange list" where
  "fold_ranges (Inl regions) = map (FoldingRegions_toFoldRange regions) [0 .. FoldingRegions_length regions - 1]"
| "fold_ranges (Inr rs) = rs"

record sanitize_state =
  stackedRanges :: "FoldRange list"
  topStackedRange :: "FoldRange option"
  prevLineNumber :: number
  resultRanges :: "FoldRange list"

function pop_ended :: "number \<Rightarrow> FoldRange option \<Rightarrow> FoldRange list \<Rightarrow> FoldRange option \<times> FoldRange list" where
  "pop_ended line None st = (None, st)"
| "pop_ended line (Some t) st =
     (if fold_endLineNumber t < line then
        (case st of [] \<Rightarrow> (None, []) | x # xs \<Rightarrow> pop_ended line (Some x) xs)
      else (Some t, st))"
  by pat_completeness auto
termination by (relation "measure (\<lambda>(line, t, st). length st)") auto

definition use_range :: "number option \<Rightarrow> FoldRange \<Rightarrow> sanitize_state \<Rightarrow> sanitize_state" where
  "use_range maxLineNumber u s =
     (let (tp, st) = pop_ended (fold_startLineNumber u) (topStackedRange s) (stackedRanges s)
      in if fold_endLineNumber u > fold_startLineNumber u \<and>
            fold_startLineNumber u > prevLineNumber s \<and>
            (case maxLineNumber of None \<Rightarrow> True | Some m \<Rightarrow> fold_endLineNumber u \<le> m) \<and>
            (case tp of None \<Rightarrow> True | Some t \<Rightarrow> fold_endLineNumber t \<ge> fold_endLineNumber u)
         then \<lparr>stackedRanges = (case tp of None \<Rightarrow> st | Some t \<Rightarrow> t # st), topStackedRange = Some u,
               prevLineNumber = fold_startLineNumber u, resultRanges = resultRanges s @ [u]\<rparr>
         else s\<lparr>stackedRanges := st, topStackedRange := tp\<rparr>)"

fun prescan :: "FoldRange \<Rightarrow> FoldRange list \<Rightarrow> bool" where
  "prescan a [] = True"
| "prescan a (b # bs) =
     (if fold_startLineNumber b > fold_endLineNumber a then True
      else if fold_source b = userDefined \<and> fold_endLineNumber b > fold_endLineNumber a then False
      else prescan a bs)"

definition same_line_range :: "FoldRange \<Rightarrow> FoldRange \<Rightarrow> FoldRange" where
  "same_line_range a b =
     (if fold_source b = userDefined then b
      else a\<lparr>fold_isCollapsed := fold_isCollapsed b \<and> fold_endLineNumber a = fold_endLineNumber b,
             fold_source := provider\<rparr>)"

definition recovered_range :: "FoldRange \<Rightarrow> FoldRange" where
  "recovered_range b = (if fold_isCollapsed b \<and> fold_source b = provider then b\<lparr>fold_source := recovered\<rparr> else b)"

function sanitize_loop :: "number option \<Rightarrow> FoldRange list \<Rightarrow> FoldRange list \<Rightarrow> sanitize_state \<Rightarrow> sanitize_state" where
  "sanitize_loop m [] [] s = s"
| "sanitize_loop m [] (b # bs) s = sanitize_loop m [] bs (use_range m (recovered_range b) s)"
| "sanitize_loop m (a # as) [] s = sanitize_loop m as [] (use_range m a s)"
| "sanitize_loop m (a # as) (b # bs) s =
     (if fold_startLineNumber a \<ge> fold_startLineNumber b then
        if fold_startLineNumber a = fold_startLineNumber b then
          sanitize_loop m as bs (use_range m (same_line_range a b) s)
        else sanitize_loop m (a # as) bs (use_range m (recovered_range b) s)
      else sanitize_loop m as (b # bs) (if prescan a (b # bs) then use_range m a s else s))"
  by pat_completeness auto
termination by (relation "measure (\<lambda>(m, as, bs, s). length as + length bs)") auto

definition sanitizeAndMerge :: "fold_input \<Rightarrow> fold_input \<Rightarrow> number option \<Rightarrow> FoldRange list" where
  "sanitizeAndMerge rangesA rangesB maxLineNumber =
     resultRanges (sanitize_loop maxLineNumber (fold_ranges rangesA) (fold_ranges rangesB)
       \<lparr>stackedRanges = [], topStackedRange = None, prevLineNumber = 0, resultRanges = []\<rparr>)"

section \<open>FoldingRegion\<close>

record FoldingRegion =
  region_ranges :: FoldingRegions
  region_index :: number

definition FoldingRegions_toRegion :: "FoldingRegions \<Rightarrow> number \<Rightarrow> FoldingRegion" where
  "FoldingRegions_toRegion this index = \<lparr>region_ranges = this, region_index = index\<rparr>"

definition FoldingRegion_startLineNumber :: "FoldingRegion \<Rightarrow> number" where
  "FoldingRegion_startLineNumber this = FoldingRegions_getStartLineNumber (region_ranges this) (region_index this)"

definition FoldingRegion_endLineNumber :: "FoldingRegion \<Rightarrow> number" where
  "FoldingRegion_endLineNumber this = FoldingRegions_getEndLineNumber (region_ranges this) (region_index this)"

definition FoldingRegion_regionIndex :: "FoldingRegion \<Rightarrow> number" where
  "FoldingRegion_regionIndex this = region_index this"

definition FoldingRegion_parentIndex :: "FoldingRegion \<Rightarrow> FoldingRegion \<times> number result" where
  "FoldingRegion_parentIndex this =
     (case FoldingRegions_getParentIndex (region_index this) (region_ranges this) of
        (ranges, r) \<Rightarrow> (this\<lparr>region_ranges := ranges\<rparr>, r))"

definition FoldingRegion_isCollapsed :: "FoldingRegion \<Rightarrow> bool" where
  "FoldingRegion_isCollapsed this = FoldingRegions_isCollapsed (region_ranges this) (region_index this)"

definition FoldingRegion_containedBy :: "FoldingRegion \<Rightarrow> number \<Rightarrow> number \<Rightarrow> bool" where
  "FoldingRegion_containedBy this startLine endLine \<longleftrightarrow>
     startLine \<le> FoldingRegion_startLineNumber this \<and> endLine \<ge> FoldingRegion_endLineNumber this"

definition FoldingRegion_containsLine :: "FoldingRegion \<Rightarrow> number \<Rightarrow> bool" where
  "FoldingRegion_containsLine this line \<longleftrightarrow>
     FoldingRegion_startLineNumber this \<le> line \<and> line \<le> FoldingRegion_endLineNumber this"

definition FoldingRegion_hidesLine :: "FoldingRegion \<Rightarrow> number \<Rightarrow> bool" where
  "FoldingRegion_hidesLine this line \<longleftrightarrow>
     FoldingRegion_startLineNumber this < line \<and> line \<le> FoldingRegion_endLineNumber this"


section \<open>Bit fields as sets of flags\<close>

text \<open>
  What the regions rely on: a field made for \<open>n\<close> flags holds \<open>n\<close> independent flags, all
  unset at first.
\<close>

locale flag_field =
  fixes get :: "'f \<Rightarrow> number \<Rightarrow> bool" and put :: "number \<Rightarrow> bool \<Rightarrow> 'f \<Rightarrow> 'f" and make :: "nat \<Rightarrow> 'f"
    and holds :: "nat \<Rightarrow> 'f \<Rightarrow> bool"
  assumes holds_make: "n \<le> 65535 \<Longrightarrow> holds n (make n)"
    and holds_put: "holds n f \<Longrightarrow> i < n \<Longrightarrow> holds n (put (int i) v f)"
    and get_make: "n \<le> 65535 \<Longrightarrow> i < n \<Longrightarrow> \<not> get (make n) (int i)"
    and get_put: "holds n f \<Longrightarrow> i < n \<Longrightarrow> j < n \<Longrightarrow> get (put (int i) v f) (int j) \<longleftrightarrow> (if i = j then v else get f (int j))"
begin

text \<open>Flags set one after the other, some of them skipped when they stay unset.\<close>

lemma holds_fold:
  "holds n f \<Longrightarrow> k + length vs \<le> n \<Longrightarrow> holds n (fold (\<lambda>(v, i). put (int i) v) (zip vs [k..<k + length vs]) f)"
proof (induction vs arbitrary: f k)
  case (Cons v vs)
  then show ?case using holds_put [of n f k v] Cons.IH [of "put (int k) v f" "Suc k"]
    by (simp add: upt_conv_Cons del: upt_Suc)
qed simp

lemma get_fold:
  "holds n f \<Longrightarrow> k + length vs \<le> n \<Longrightarrow> j < n \<Longrightarrow>
     get (fold (\<lambda>(v, i). put (int i) v) (zip vs [k..<k + length vs]) f) (int j) \<longleftrightarrow>
       (if k \<le> j \<and> j < k + length vs then vs ! (j - k) else get f (int j))"
proof (induction vs arbitrary: f k)
  case (Cons v vs)
  have "holds n (put (int k) v f)" using Cons.prems by (intro holds_put) simp_all
  then have "get (fold (\<lambda>(v, i). put (int i) v) (zip vs [Suc k..<Suc k + length vs]) (put (int k) v f)) (int j) \<longleftrightarrow>
       (if Suc k \<le> j \<and> j < Suc k + length vs then vs ! (j - Suc k) else get (put (int k) v f) (int j))"
    using Cons.prems by (intro Cons.IH) simp_all
  then show ?case using Cons.prems get_put [of n f k j v]
    by (auto simp: upt_conv_Cons nth_Cons' Suc_diff_Suc simp del: upt_Suc)
qed auto

lemma get_fold_make:
  "length vs \<le> 65535 \<Longrightarrow> j < length vs \<Longrightarrow>
     get (fold (\<lambda>(v, i). put (int i) v) (zip vs [0..<length vs]) (make (length vs))) (int j) \<longleftrightarrow> vs ! j"
  using get_fold [OF holds_make, of "length vs" 0 vs j] by simp

end

definition BitField_holds :: "nat \<Rightarrow> BitField \<Rightarrow> bool" where
  "BitField_holds n f \<longleftrightarrow> n \<le> 65535 \<and> length (bf_states f) = (n + 31) div 32"

lemma bf_arrayIndex_nat: "i < 65535 \<Longrightarrow> bf_arrayIndex (int i) = int (i div 32)"
proof -
  assume "i < 65535"
  then have "is_int32 (int (i div 32))" unfolding is_int32_def by linarith
  then show ?thesis by (cases "i = 0") (simp_all add: bf_arrayIndex_def zdiv_int)
qed

lemma bf_mask_nat: "bf_mask (int i) = push_bit (i mod 32) 1"
proof -
  have "js_rem (int i) 32 mod 32 = int (i mod 32)" by (simp add: js_rem_nonneg zmod_int)
  then show ?thesis by (simp add: bf_mask_def)
qed

lemma BitField_index: "BitField_holds n f \<Longrightarrow> i < n \<Longrightarrow> i div 32 < length (bf_states f) \<and> i < 65535"
  by (auto simp: BitField_holds_def)

lemma BitField_get_bit:
  "BitField_holds n f \<Longrightarrow> i < n \<Longrightarrow> BitField_get f (int i) \<longleftrightarrow> bit (bf_states f ! (i div 32)) (i mod 32)"
  using BitField_index [of n f i]
  by (simp add: BitField_get_def bf_arrayIndex_nat bf_mask_nat word_at_def bit_iff_and_push_bit_not_eq_0 del: of_nat_div)

lemma BitField_set_bits:
  "BitField_holds n f \<Longrightarrow> i < n \<Longrightarrow> bf_states (BitField_set (int i) v f) =
     (bf_states f)[i div 32 := (if v then set_bit else unset_bit) (i mod 32) (bf_states f ! (i div 32))]"
  using BitField_index [of n f i]
  by (simp add: BitField_set_def bf_arrayIndex_nat bf_mask_nat word_at_def ta_write_def Let_def
      set_bit_eq_or unset_bit_eq_and_not del: of_nat_div)

interpretation bits: flag_field BitField_get BitField_set new_BitField BitField_holds
proof
  fix n i j f v
  show "n \<le> 65535 \<Longrightarrow> BitField_holds n (new_BitField n)"
    by (simp add: BitField_holds_def new_BitField_def)
  show h: "BitField_holds n f \<Longrightarrow> i < n \<Longrightarrow> BitField_holds n (BitField_set (int i) v f)"
    using BitField_set_bits [of n f i v] by (simp add: BitField_holds_def)
  show "n \<le> 65535 \<Longrightarrow> i < n \<Longrightarrow> \<not> BitField_get (new_BitField n) (int i)"
  proof -
    assume a: "n \<le> 65535" "i < n"
    then have b: "BitField_holds n (new_BitField n)" by (simp add: BitField_holds_def new_BitField_def)
    then show "\<not> BitField_get (new_BitField n) (int i)"
      using BitField_get_bit [OF b a(2)] BitField_index [OF b a(2)] by (simp add: new_BitField_def)
  qed
  show "BitField_get (BitField_set (int i) v f) (int j) \<longleftrightarrow> (if i = j then v else BitField_get f (int j))"
    if a: "BitField_holds n f" "i < n" "j < n"
  proof -
    have "i div 32 = j div 32 \<and> i mod 32 = j mod 32 \<longleftrightarrow> i = j" by (metis div_mult_mod_eq)
    moreover have "i mod 32 < 32" "j mod 32 < 32" by simp_all
    ultimately show ?thesis
      using BitField_get_bit [OF h [OF a(1,2)] a(3)] BitField_get_bit [OF a(1,3)] BitField_set_bits [OF a(1,2), of v]
        BitField_index [OF a(1,2)]
      by (cases "i div 32 = j div 32") (auto simp: bit_set_bit_iff bit_unset_bit_iff)
  qed
qed

section \<open>Nested ranges\<close>

definition fold_before :: "FoldRange \<Rightarrow> FoldRange \<Rightarrow> bool" where
  "fold_before x y \<longleftrightarrow>
     fold_startLineNumber x < fold_startLineNumber y \<and>
     (fold_endLineNumber y \<le> fold_endLineNumber x \<or> fold_endLineNumber x < fold_startLineNumber y)"

definition fold_valid :: "number option \<Rightarrow> FoldRange \<Rightarrow> bool" where
  "fold_valid m r \<longleftrightarrow>
     0 < fold_startLineNumber r \<and> fold_startLineNumber r < fold_endLineNumber r \<and>
     (case m of None \<Rightarrow> True | Some k \<Rightarrow> fold_endLineNumber r \<le> k)"

definition folds_ok :: "number option \<Rightarrow> FoldRange list \<Rightarrow> bool" where
  "folds_ok m rs \<longleftrightarrow> sorted_wrt fold_before rs \<and> (\<forall>r \<in> set rs. fold_valid m r)"

abbreviation sorted_by_start :: "FoldRange list \<Rightarrow> bool" where
  "sorted_by_start rs \<equiv> sorted_wrt (\<lambda>x y. fold_startLineNumber x \<le> fold_startLineNumber y) rs"

lemma fold_before_starts: "fold_before x y \<Longrightarrow> fold_startLineNumber x < fold_startLineNumber y"
  by (simp add: fold_before_def)

lemma folds_ok_sorted_by_start: "folds_ok m rs \<Longrightarrow> sorted_by_start rs"
  unfolding folds_ok_def by (auto intro: sorted_wrt_mono_rel [rotated] simp: fold_before_def)

lemma folds_ok_Cons:
  "folds_ok m (r # rs) \<longleftrightarrow> fold_valid m r \<and> (\<forall>x \<in> set rs. fold_before r x) \<and> folds_ok m rs"
  by (auto simp: folds_ok_def)

lemma folds_ok_snoc:
  "folds_ok m (rs @ [r]) \<longleftrightarrow> folds_ok m rs \<and> fold_valid m r \<and> (\<forall>x \<in> set rs. fold_before x r)"
  by (auto simp: folds_ok_def sorted_wrt_append)

lemma folds_ok_unique: "folds_ok m xs \<Longrightarrow> folds_ok m ys \<Longrightarrow> set xs = set ys \<Longrightarrow> xs = ys"
proof (induction xs arbitrary: ys)
  case (Cons x xs)
  then obtain y ys' where ys: "ys = y # ys'" by (cases ys) auto
  have asym: "fold_before a b \<Longrightarrow> \<not> fold_before b a" "\<not> fold_before a a" for a b by (auto simp: fold_before_def)
  have "x = y" using Cons.prems asym unfolding ys folds_ok_Cons by (metis insertE list.simps(15) insertI1)
  moreover have "set xs = set ys'"
    using Cons.prems asym unfolding ys folds_ok_Cons \<open>x = y\<close> by (metis insert_ident list.simps(15))
  ultimately show ?case using Cons ys by (auto simp: folds_ok_Cons)
qed simp

section \<open>One range of the merge\<close>

text \<open>The open ranges: the tp and the stack below it.\<close>

definition chain :: "sanitize_state \<Rightarrow> FoldRange list" where
  "chain s = (case topStackedRange s of None \<Rightarrow> [] | Some t \<Rightarrow> t # stackedRanges s)"

definition stack_ok :: "sanitize_state \<Rightarrow> bool" where
  "stack_ok s \<longleftrightarrow> (topStackedRange s = None \<longrightarrow> stackedRanges s = [])"

definition still_open :: "FoldRange \<Rightarrow> sanitize_state \<Rightarrow> FoldRange list" where
  "still_open u s = dropWhile (\<lambda>r. fold_endLineNumber r < fold_startLineNumber u) (chain s)"

definition accepts :: "number option \<Rightarrow> FoldRange \<Rightarrow> sanitize_state \<Rightarrow> bool" where
  "accepts m u s \<longleftrightarrow>
     fold_startLineNumber u < fold_endLineNumber u \<and> (case m of None \<Rightarrow> True | Some k \<Rightarrow> fold_endLineNumber u \<le> k) \<and>
     prevLineNumber s < fold_startLineNumber u \<and>
     (still_open u s = [] \<or> fold_endLineNumber u \<le> fold_endLineNumber (hd (still_open u s)))"

lemma pop_ended_chain:
  "pop_ended line (Some t) st = (tp, st') \<Longrightarrow>
     (case tp of None \<Rightarrow> [] | Some t' \<Rightarrow> t' # st') = dropWhile (\<lambda>r. fold_endLineNumber r < line) (t # st) \<and>
     (tp = None \<longrightarrow> st' = [])"
  by (induction st arbitrary: t) (auto split: if_splits option.splits)

lemma use_range_step:
  assumes "stack_ok s"
  shows "stack_ok (use_range m u s)"
    and "chain (use_range m u s) = (if accepts m u s then u # still_open u s else still_open u s)"
    and "prevLineNumber (use_range m u s) = (if accepts m u s then fold_startLineNumber u else prevLineNumber s)"
    and "resultRanges (use_range m u s) = (if accepts m u s then resultRanges s @ [u] else resultRanges s)"
proof -
  obtain tp st where p: "pop_ended (fold_startLineNumber u) (topStackedRange s) (stackedRanges s) = (tp, st)"
    by (cases "pop_ended (fold_startLineNumber u) (topStackedRange s) (stackedRanges s)")
  have c: "(case tp of None \<Rightarrow> [] | Some t' \<Rightarrow> t' # st) = still_open u s" "tp = None \<longrightarrow> st = []"
    using p pop_ended_chain [of "fold_startLineNumber u" _ "stackedRanges s" tp st] assms
    by (cases "topStackedRange s"; auto simp: still_open_def chain_def stack_ok_def)+
  have "still_open u s = [] \<longleftrightarrow> tp = None" "tp = Some t \<Longrightarrow> hd (still_open u s) = t" for t
    using c(2) unfolding c(1) [symmetric] by (auto split: option.splits)
  then have a: "accepts m u s \<longleftrightarrow> fold_endLineNumber u > fold_startLineNumber u \<and>
            fold_startLineNumber u > prevLineNumber s \<and>
            (case m of None \<Rightarrow> True | Some k \<Rightarrow> fold_endLineNumber u \<le> k) \<and>
            (case tp of None \<Rightarrow> True | Some t \<Rightarrow> fold_endLineNumber t \<ge> fold_endLineNumber u)"
    by (cases tp) (auto simp: accepts_def)
  show "stack_ok (use_range m u s)"
    "chain (use_range m u s) = (if accepts m u s then u # still_open u s else still_open u s)"
    "prevLineNumber (use_range m u s) = (if accepts m u s then fold_startLineNumber u else prevLineNumber s)"
    "resultRanges (use_range m u s) = (if accepts m u s then resultRanges s @ [u] else resultRanges s)"
    unfolding use_range_def p a using c
    by (cases tp; auto simp: stack_ok_def chain_def Let_def)+
qed

text \<open>
  The state of the merge before a range that starts at or after \<open>line\<close>: the result so far
  is nested, the open ranges are nested in each other, and every other range has ended.
\<close>

definition merge_inv :: "number option \<Rightarrow> number \<Rightarrow> sanitize_state \<Rightarrow> bool" where
  "merge_inv m line s \<longleftrightarrow>
     stack_ok s \<and> folds_ok m (resultRanges s) \<and> 0 \<le> prevLineNumber s \<and>
     (\<forall>r \<in> set (resultRanges s). fold_startLineNumber r \<le> prevLineNumber s) \<and>
     sorted_wrt (\<lambda>x y. fold_endLineNumber x \<le> fold_endLineNumber y) (chain s) \<and>
     set (chain s) \<subseteq> set (resultRanges s) \<and>
     (\<forall>r \<in> set (resultRanges s). r \<notin> set (chain s) \<longrightarrow> fold_endLineNumber r < line)"

lemma merge_inv_mono: "merge_inv m line s \<Longrightarrow> line \<le> line' \<Longrightarrow> merge_inv m line' s"
  by (fastforce simp: merge_inv_def)

lemma still_open_split:
  "\<exists>ended. chain s = ended @ still_open u s \<and> (\<forall>r \<in> set ended. fold_endLineNumber r < fold_startLineNumber u)"
  unfolding still_open_def by (metis set_takeWhileD takeWhile_dropWhile_id)

lemma accepts_nested:
  assumes "merge_inv m line s" "line \<le> fold_startLineNumber u" "accepts m u s" "r \<in> set (resultRanges s)"
  shows "fold_before r u"
proof -
  obtain ended where e: "chain s = ended @ still_open u s" "\<forall>r \<in> set ended. fold_endLineNumber r < fold_startLineNumber u"
    using still_open_split by blast
  have "fold_startLineNumber r < fold_startLineNumber u" using assms by (auto simp: merge_inv_def accepts_def)
  moreover have "fold_endLineNumber u \<le> fold_endLineNumber r \<or> fold_endLineNumber r < fold_startLineNumber u"
  proof (cases "r \<in> set (still_open u s)")
    case True
    then have "fold_endLineNumber (hd (still_open u s)) \<le> fold_endLineNumber r"
      using assms(1) e(1) by (cases "still_open u s") (auto simp: merge_inv_def sorted_wrt_append)
    then show ?thesis using assms(3) True by (auto simp: accepts_def)
  next
    case False
    then show ?thesis using assms(1,2,4) e by (cases "r \<in> set (chain s)") (auto simp: merge_inv_def)
  qed
  ultimately show ?thesis by (simp add: fold_before_def)
qed

lemma use_range_inv:
  assumes "merge_inv m line s" "line \<le> fold_startLineNumber u"
  shows "merge_inv m (fold_startLineNumber u) (use_range m u s)"
proof -
  obtain ended where e: "chain s = ended @ still_open u s" "\<forall>r \<in> set ended. fold_endLineNumber r < fold_startLineNumber u"
    using still_open_split by blast
  have ok: "stack_ok s" using assms by (simp add: merge_inv_def)
  have sub: "set (still_open u s) \<subseteq> set (resultRanges s)"
    and srt: "sorted_wrt (\<lambda>x y. fold_endLineNumber x \<le> fold_endLineNumber y) (still_open u s)"
    using assms(1) e(1) by (auto simp: merge_inv_def sorted_wrt_append)
  have closed: "r \<in> set (resultRanges s) \<Longrightarrow> r \<notin> set (still_open u s) \<Longrightarrow> fold_endLineNumber r < fold_startLineNumber u" for r
    using assms e by (cases "r \<in> set (chain s)") (auto simp: merge_inv_def)
  show ?thesis
  proof (cases "accepts m u s")
    case True
    have "\<forall>r \<in> set (resultRanges s). fold_before r u" using accepts_nested [OF assms True] by blast
    moreover have "fold_valid m u" using True assms(1) by (auto simp: fold_valid_def accepts_def merge_inv_def)
    moreover have "\<forall>r \<in> set (still_open u s). fold_endLineNumber u \<le> fold_endLineNumber r"
      using True srt by (cases "still_open u s") (auto simp: accepts_def)
    moreover have "0 \<le> fold_startLineNumber u" "\<forall>r \<in> set (resultRanges s). fold_startLineNumber r \<le> fold_startLineNumber u"
      using True assms(1) by (auto simp: accepts_def merge_inv_def)
    ultimately show ?thesis using True assms(1) sub srt closed
      by (auto simp: merge_inv_def use_range_step [OF ok] folds_ok_snoc)
  next
    case False
    then show ?thesis using assms(1) sub srt closed by (auto simp: merge_inv_def use_range_step [OF ok])
  qed
qed

text \<open>A range that follows every open range in a nested order is never refused.\<close>

lemma accepts_if_before:
  assumes "fold_valid m u" "prevLineNumber s < fold_startLineNumber u" "\<forall>r \<in> set (chain s). fold_before r u"
  shows "accepts m u s"
proof (cases "still_open u s")
  case (Cons t ts)
  then have "\<not> fold_endLineNumber t < fold_startLineNumber u"
    unfolding still_open_def by (metis dropWhile_eq_Cons_conv)
  moreover have "t \<in> set (chain s)" using Cons still_open_split [of s u] by auto
  ultimately show ?thesis using assms Cons by (auto simp: accepts_def fold_valid_def fold_before_def)
qed (use assms in \<open>simp add: accepts_def fold_valid_def\<close>)

section \<open>The whole merge\<close>

lemma start_of_used [simp]:
  "fold_startLineNumber (recovered_range b) = fold_startLineNumber b"
  "fold_startLineNumber a = fold_startLineNumber b \<Longrightarrow> fold_startLineNumber (same_line_range a b) = fold_startLineNumber b"
  by (simp_all add: recovered_range_def same_line_range_def)

lemma sanitize_loop_inv:
  assumes "sorted_by_start as" "sorted_by_start bs" "merge_inv m line s"
    "\<forall>x \<in> set as \<union> set bs. line \<le> fold_startLineNumber x"
  shows "\<exists>line'. merge_inv m line' (sanitize_loop m as bs s)"
  using assms
proof (induction m as bs s arbitrary: line rule: sanitize_loop.induct)
  case (4 m a as b bs s)
  consider (same) "fold_startLineNumber a = fold_startLineNumber b" | (b) "fold_startLineNumber a > fold_startLineNumber b"
    | (a) "fold_startLineNumber a < fold_startLineNumber b" by linarith
  then show ?case
  proof cases
    case same
    have "merge_inv m (fold_startLineNumber b) (use_range m (same_line_range a b) s)"
      using use_range_inv [OF 4(6), of "same_line_range a b"] 4(7) same by simp
    then show ?thesis using 4(1) [of "fold_startLineNumber b"] 4(4,5) same by auto
  next
    case b
    have "merge_inv m (fold_startLineNumber b) (use_range m (recovered_range b) s)"
      using use_range_inv [OF 4(6), of "recovered_range b"] 4(7) by simp
    moreover have "\<forall>x \<in> set (a # as) \<union> set bs. fold_startLineNumber b \<le> fold_startLineNumber x"
      using 4(4,5) b by fastforce
    ultimately show ?thesis using 4(2) [of "fold_startLineNumber b"] 4(4,5) b by auto
  next
    case a
    have "merge_inv m (fold_startLineNumber a) (if prescan a (b # bs) then use_range m a s else s)"
      using use_range_inv [OF 4(6), of a] merge_inv_mono [OF 4(6), of "fold_startLineNumber a"] 4(7) by simp
    moreover have "\<forall>x \<in> set as \<union> set (b # bs). fold_startLineNumber a \<le> fold_startLineNumber x"
      using 4(4,5) a by fastforce
    ultimately show ?thesis using 4(3) [of "fold_startLineNumber a"] 4(4,5) a by (simp del: prescan.simps)
  qed
next
  case (2 m b bs s)
  then show ?case using use_range_inv [OF 2(4), of "recovered_range b"] by auto
next
  case (3 m a as s)
  then show ?case using use_range_inv [OF 3(4), of a] by auto
qed auto

definition initial_state :: sanitize_state where
  "initial_state = \<lparr>stackedRanges = [], topStackedRange = None, prevLineNumber = 0, resultRanges = []\<rparr>"

lemma merge_inv_initial: "merge_inv m line initial_state"
  by (simp add: merge_inv_def initial_state_def stack_ok_def chain_def folds_ok_def)

lemma sanitizeAndMerge_initial:
  "sanitizeAndMerge rangesA rangesB m = resultRanges (sanitize_loop m (fold_ranges rangesA) (fold_ranges rangesB) initial_state)"
  by (simp add: sanitizeAndMerge_def initial_state_def)

lemma sanitize_nested:
  assumes "sorted_by_start (fold_ranges rangesA)" "sorted_by_start (fold_ranges rangesB)"
  shows "folds_ok m (sanitizeAndMerge rangesA rangesB m)"
proof -
  let ?all = "set (fold_ranges rangesA) \<union> set (fold_ranges rangesB)"
  define line where "line = Min (insert 0 (fold_startLineNumber ` ?all))"
  have "\<forall>x \<in> ?all. line \<le> fold_startLineNumber x" by (auto simp: line_def)
  then show ?thesis
    using sanitize_loop_inv [OF assms merge_inv_initial] by (auto simp: sanitizeAndMerge_initial merge_inv_def)
qed

text \<open>Where the ranges of the result come from.\<close>

abbreviation same_lines :: "FoldRange \<Rightarrow> FoldRange \<Rightarrow> bool" where
  "same_lines x y \<equiv> fold_startLineNumber x = fold_startLineNumber y \<and> fold_endLineNumber x = fold_endLineNumber y \<and>
     fold_type x = fold_type y"

lemma use_range_result: "r \<in> set (resultRanges (use_range m u s)) \<Longrightarrow> r = u \<or> r \<in> set (resultRanges s)"
  by (auto simp: use_range_def Let_def split: prod.splits if_splits)

lemma sanitize_loop_origin:
  "r \<in> set (resultRanges (sanitize_loop m as bs s)) \<Longrightarrow>
     r \<in> set (resultRanges s) \<or> (\<exists>x \<in> set as \<union> set bs. same_lines r x)"
proof (induction m as bs s rule: sanitize_loop.induct)
  case (4 m a as b bs s)
  have u: "same_lines (recovered_range b) b" "same_lines (same_line_range a b) a \<or> same_lines (same_line_range a b) b"
    by (simp_all add: recovered_range_def same_line_range_def)
  consider (same) "fold_startLineNumber a = fold_startLineNumber b" | (b) "fold_startLineNumber a > fold_startLineNumber b"
    | (a) "fold_startLineNumber a < fold_startLineNumber b" by linarith
  then show ?case
  proof cases
    case same
    with 4(1,4) have "r \<in> set (resultRanges (use_range m (same_line_range a b) s)) \<or> (\<exists>x \<in> set as \<union> set bs. same_lines r x)"
      by simp
    then show ?thesis using u(2) by (auto dest: use_range_result)
  next
    case b
    with 4(2,4) have "r \<in> set (resultRanges (use_range m (recovered_range b) s)) \<or> (\<exists>x \<in> set (a # as) \<union> set bs. same_lines r x)"
      by simp
    then show ?thesis using u(1) by (auto dest: use_range_result)
  next
    case a
    with 4(3,4) have "r \<in> set (resultRanges (if prescan a (b # bs) then use_range m a s else s)) \<or>
        (\<exists>x \<in> set as \<union> set (b # bs). same_lines r x)"
      by simp
    then show ?thesis by (auto dest: use_range_result split: if_splits)
  qed
next
  case (2 m b bs s)
  have "same_lines (recovered_range b) b" by (simp add: recovered_range_def)
  with 2 show ?case by (auto dest: use_range_result)
next
  case (3 m a as s)
  then show ?case by (auto dest: use_range_result)
qed simp

section \<open>Ranges of the user\<close>

lemma prescan_iff:
  assumes "sorted_by_start bs" "\<forall>b \<in> set bs. fold_source b = userDefined" "\<forall>b \<in> set bs. fold_startLineNumber a < fold_startLineNumber b"
  shows "prescan a bs \<longleftrightarrow> (\<forall>b \<in> set bs. fold_before a b)"
  using assms
proof (induction bs)
  case (Cons b bs)
  show ?case
  proof (cases "fold_startLineNumber b > fold_endLineNumber a")
    case True
    then show ?thesis using Cons.prems by (auto simp: fold_before_def)
  next
    case False
    then show ?thesis using Cons by (auto simp: fold_before_def)
  qed
qed simp

text \<open>A provider's range is compatible with ranges of the user when it crosses none of them.\<close>

definition fold_compatible :: "FoldRange list \<Rightarrow> FoldRange \<Rightarrow> bool" where
  "fold_compatible B a \<longleftrightarrow> (\<forall>b \<in> set B. fold_before a b \<or> fold_before b a)"

text \<open>The ranges still to come that the merge has to keep.\<close>

definition keeps_coming :: "FoldRange set \<Rightarrow> sanitize_state \<Rightarrow> bool" where
  "keeps_coming T s \<longleftrightarrow> (\<forall>x \<in> T. prevLineNumber s < fold_startLineNumber x \<and> (\<forall>r \<in> set (chain s). fold_before r x))"

lemma use_range_accepted:
  assumes "merge_inv m line s" "fold_valid m u" "keeps_coming T s" "u \<in> T" "\<forall>x \<in> T'. x \<in> T \<and> fold_before u x"
  shows "resultRanges (use_range m u s) = resultRanges s @ [u] \<and> keeps_coming T' (use_range m u s)"
proof -
  have ok: "stack_ok s" using assms(1) by (simp add: merge_inv_def)
  have acc: "accepts m u s" using assms(2-4) by (intro accepts_if_before) (auto simp: keeps_coming_def)
  have "set (still_open u s) \<subseteq> set (chain s)" using still_open_split [of s u] by auto
  then show ?thesis using assms(3,5) acc
    by (auto simp: use_range_step [OF ok] keeps_coming_def dest: fold_before_starts)
qed

lemma use_range_refused:
  assumes "merge_inv m line s" "keeps_coming T s" "\<not> accepts m u s" "T' \<subseteq> T"
  shows "resultRanges (use_range m u s) = resultRanges s \<and> keeps_coming T' (use_range m u s)"
proof -
  have ok: "stack_ok s" using assms(1) by (simp add: merge_inv_def)
  have "set (still_open u s) \<subseteq> set (chain s)" using still_open_split [of s u] by auto
  then show ?thesis using assms(2-4) by (auto simp: use_range_step [OF ok] keeps_coming_def)
qed

lemma use_user_range:
  assumes "folds_ok m (b # bs)" "b \<in> set B" "merge_inv m line s" "line \<le> fold_startLineNumber b"
    "keeps_coming (set (b # bs) \<union> C) s" "\<forall>x \<in> C. fold_compatible B x \<and> fold_startLineNumber b \<le> fold_startLineNumber x"
  shows "resultRanges (use_range m b s) = resultRanges s @ [b]" "keeps_coming (set bs \<union> C) (use_range m b s)"
    "merge_inv m (fold_startLineNumber b) (use_range m b s)"
proof -
  have "fold_before b x" if "x \<in> C" for x
    using assms(2,6) that by (fastforce simp: fold_compatible_def fold_before_def)
  then have "\<forall>x \<in> set bs \<union> C. x \<in> set (b # bs) \<union> C \<and> fold_before b x"
    using assms(1) by (auto simp: folds_ok_Cons)
  then have "resultRanges (use_range m b s) = resultRanges s @ [b] \<and> keeps_coming (set bs \<union> C) (use_range m b s)"
    using assms(1) by (intro use_range_accepted [OF assms(3) _ assms(5)]) (auto simp: folds_ok_Cons)
  then show "resultRanges (use_range m b s) = resultRanges s @ [b]" "keeps_coming (set bs \<union> C) (use_range m b s)"
    by simp_all
  show "merge_inv m (fold_startLineNumber b) (use_range m b s)" using use_range_inv [OF assms(3,4)] .
qed

lemma use_provider_range:
  assumes "folds_ok m (a # as)" "set B \<subseteq> set (resultRanges s) \<union> set bs" "merge_inv m line s" "line \<le> fold_startLineNumber a"
    "keeps_coming (set bs \<union> {x \<in> set (a # as). fold_compatible B x}) s" "\<forall>b \<in> set bs. fold_before a b"
  shows "set (resultRanges (use_range m a s)) = set (resultRanges s) \<union> {x. x = a \<and> fold_compatible B a}"
    "keeps_coming (set bs \<union> {x \<in> set as. fold_compatible B x}) (use_range m a s)"
    "merge_inv m (fold_startLineNumber a) (use_range m a s)"
proof -
  let ?T' = "set bs \<union> {x \<in> set as. fold_compatible B x}"
  have "set (resultRanges (use_range m a s)) = set (resultRanges s) \<union> {x. x = a \<and> fold_compatible B a} \<and>
      keeps_coming ?T' (use_range m a s)"
  proof (cases "fold_compatible B a")
    case True
    have "resultRanges (use_range m a s) = resultRanges s @ [a] \<and> keeps_coming ?T' (use_range m a s)"
      using True assms(1,6) by (intro use_range_accepted [OF assms(3) _ assms(5)]) (auto simp: folds_ok_Cons)
    then show ?thesis using True by auto
  next
    case False
    then obtain b where b: "b \<in> set B" "\<not> fold_before a b" "\<not> fold_before b a" by (auto simp: fold_compatible_def)
    then have "b \<in> set (resultRanges s)" using assms(2,6) by auto
    then have "\<not> accepts m a s" using accepts_nested [OF assms(3,4)] b(3) by blast
    moreover have "?T' \<subseteq> set bs \<union> {x \<in> set (a # as). fold_compatible B x}" by auto
    ultimately show ?thesis using False use_range_refused [OF assms(3,5)] by auto
  qed
  then show "set (resultRanges (use_range m a s)) = set (resultRanges s) \<union> {x. x = a \<and> fold_compatible B a}"
    "keeps_coming ?T' (use_range m a s)" by simp_all
  show "merge_inv m (fold_startLineNumber a) (use_range m a s)" using use_range_inv [OF assms(3,4)] .
qed

lemma skip_or_use_provider_range:
  assumes "folds_ok m (a # as)" "set bs \<subseteq> set B" "set B \<subseteq> set (resultRanges s) \<union> set bs" "merge_inv m line s"
    "line \<le> fold_startLineNumber a" "keeps_coming (set bs \<union> {x \<in> set (a # as). fold_compatible B x}) s"
    "\<forall>b \<in> set bs. fold_startLineNumber a < fold_startLineNumber b" "p \<longleftrightarrow> (\<forall>b \<in> set bs. fold_before a b)"
  shows "let s' = if p then use_range m a s else s
         in set (resultRanges s') = set (resultRanges s) \<union> {x. x = a \<and> fold_compatible B a} \<and>
            keeps_coming (set bs \<union> {x \<in> set as. fold_compatible B x}) s' \<and> merge_inv m (fold_startLineNumber a) s'"
proof (cases p)
  case True
  then show ?thesis using use_provider_range [OF assms(1,3-6)] assms(8) by (simp add: Let_def)
next
  case False
  then have "\<not> fold_compatible B a" using assms(2,7,8) by (fastforce simp: fold_compatible_def fold_before_def)
  moreover have "keeps_coming (set bs \<union> {x \<in> set as. fold_compatible B x}) s"
    using assms(6) by (auto simp: keeps_coming_def)
  ultimately show ?thesis using False merge_inv_mono [OF assms(4,5)] by (simp add: Let_def)
qed

lemma folds_ok_starts: "folds_ok m (r # rs) \<Longrightarrow> \<forall>x \<in> set rs. fold_startLineNumber r \<le> fold_startLineNumber x"
  by (auto simp: folds_ok_Cons fold_before_def less_imp_le)

lemma recovered_range_user: "fold_source b = userDefined \<Longrightarrow> recovered_range b = b"
  by (simp add: recovered_range_def)

lemma sanitize_loop_user_ranges:
  assumes "folds_ok m as" "folds_ok m bs" "\<forall>b \<in> set B. fold_source b = userDefined" "set bs \<subseteq> set B"
    "set B \<subseteq> set (resultRanges s) \<union> set bs" "merge_inv m line s"
    "\<forall>x \<in> set as \<union> set bs. line \<le> fold_startLineNumber x"
    "keeps_coming (set bs \<union> {a \<in> set as. fold_compatible B a}) s"
  shows "set (resultRanges (sanitize_loop m as bs s)) =
           set (resultRanges s) \<union> set bs \<union> {a \<in> set as. fold_compatible B a}"
  using assms
proof (induction m as bs s arbitrary: line rule: sanitize_loop.induct)
  case (1 m s)
  then show ?case by simp
next
  case (2 m b bs s)
  have b: "b \<in> set B" "line \<le> fold_startLineNumber b" "keeps_coming (set (b # bs) \<union> {}) s" using 2(5,8,9) by auto
  then have rb: "recovered_range b = b" using 2(4) by (simp add: recovered_range_user)
  have step: "resultRanges (use_range m b s) = resultRanges s @ [b]" "keeps_coming (set bs) (use_range m b s)"
    "merge_inv m (fold_startLineNumber b) (use_range m b s)"
    using use_user_range [OF 2(3) b(1) 2(7) b(2,3)] by simp_all
  have "set (resultRanges (sanitize_loop m [] bs (use_range m b s))) =
      set (resultRanges (use_range m b s)) \<union> set bs \<union> {a \<in> set []. fold_compatible B a}"
    using 2(2-6) step folds_ok_starts [OF 2(3)]
    by (intro 2(1) [unfolded rb, of "fold_startLineNumber b"]) (auto simp: folds_ok_Cons)
  then show ?case using step rb by auto
next
  case (3 m a as s)
  have le: "line \<le> fold_startLineNumber a" using 3(8) by simp
  note step = use_provider_range [OF 3(2) _ 3(7) le, of B "[]"]
  have "set B \<subseteq> set (resultRanges s) \<union> set []" "keeps_coming (set [] \<union> {x \<in> set (a # as). fold_compatible B x}) s"
    "\<forall>b \<in> set []. fold_before a b" using 3(6,9) by simp_all
  note step = step [OF this]
  have "set (resultRanges (sanitize_loop m as [] (use_range m a s))) =
      set (resultRanges (use_range m a s)) \<union> set [] \<union> {x \<in> set as. fold_compatible B x}"
    using 3(2-6) step folds_ok_starts [OF 3(2)] by (intro 3(1) [of "fold_startLineNumber a"]) (auto simp: folds_ok_Cons)
  then show ?case using step(1) by auto
next
  case (4 m a as b bs s)
  have le: "line \<le> fold_startLineNumber a" "line \<le> fold_startLineNumber b" using 4(10) by simp_all
  have b: "b \<in> set B" "fold_source b = userDefined" "\<forall>b \<in> set (b # bs). fold_source b = userDefined" using 4(6,7) by auto
  consider (b) "fold_startLineNumber a \<ge> fold_startLineNumber b" | (a) "fold_startLineNumber a < fold_startLineNumber b" by linarith
  then show ?case
  proof cases
    case b
    let ?as = "if fold_startLineNumber a = fold_startLineNumber b then as else a # as"
    let ?C = "{x \<in> set ?as. fold_compatible B x}"
    have nb: "fold_startLineNumber a = fold_startLineNumber b \<Longrightarrow> \<not> fold_compatible B a"
      using \<open>b \<in> set B\<close> by (auto simp: fold_compatible_def fold_before_def)
    have C: "?C = {x \<in> set (a # as). fold_compatible B x}" using nb by auto
    have starts: "\<forall>x \<in> set ?as \<union> set bs. fold_startLineNumber b \<le> fold_startLineNumber x"
      using folds_ok_starts [OF 4(4)] folds_ok_starts [OF 4(5)] b by (auto intro: order_trans)
    have k: "keeps_coming (set (b # bs) \<union> ?C) s" using 4(11) unfolding C .
    have step: "resultRanges (use_range m b s) = resultRanges s @ [b]" "keeps_coming (set bs \<union> ?C) (use_range m b s)"
      "merge_inv m (fold_startLineNumber b) (use_range m b s)"
      using use_user_range [OF 4(5) \<open>b \<in> set B\<close> 4(9) le(2) k] starts by auto
    have "folds_ok m ?as" "folds_ok m bs" "set bs \<subseteq> set B" "set B \<subseteq> set (resultRanges (use_range m b s)) \<union> set bs"
      using 4(4,5,7,8) step(1) by (auto simp: folds_ok_Cons)
    note prem = this(1,2) 4(6) this(3,4) step(3) starts step(2)
    have "sanitize_loop m (a # as) (b # bs) s = sanitize_loop m ?as bs (use_range m b s)"
      using b \<open>fold_source b = userDefined\<close> by (simp add: same_line_range_def recovered_range_user)
    moreover have "set (resultRanges (sanitize_loop m ?as bs (use_range m b s))) =
        set (resultRanges (use_range m b s)) \<union> set bs \<union> ?C"
    proof (cases "fold_startLineNumber a = fold_startLineNumber b")
      case True
      then show ?thesis using 4(1) [OF b True, of "fold_startLineNumber b"] prem \<open>fold_source b = userDefined\<close>
        by (simp add: same_line_range_def)
    next
      case False
      then show ?thesis using 4(2) [OF b False, of "fold_startLineNumber b"] prem \<open>fold_source b = userDefined\<close>
        by (simp add: recovered_range_user)
    qed
    ultimately show ?thesis using step(1) C by auto
  next
    case a
    let ?s = "if prescan a (b # bs) then use_range m a s else s"
    have lt: "\<forall>b \<in> set (b # bs). fold_startLineNumber a < fold_startLineNumber b"
      using folds_ok_starts [OF 4(5)] a by auto
    have pre: "prescan a (b # bs) \<longleftrightarrow> (\<forall>b \<in> set (b # bs). fold_before a b)"
      by (rule prescan_iff [OF folds_ok_sorted_by_start [OF 4(5)] b(3) lt])
    have step: "set (resultRanges ?s) = set (resultRanges s) \<union> {x. x = a \<and> fold_compatible B a}"
      "keeps_coming (set (b # bs) \<union> {x \<in> set as. fold_compatible B x}) ?s" "merge_inv m (fold_startLineNumber a) ?s"
      using skip_or_use_provider_range [OF 4(4,7,8,9) le(1) 4(11) lt pre] unfolding Let_def by blast+
    have prem: "folds_ok m as" "set B \<subseteq> set (resultRanges ?s) \<union> set (b # bs)"
      "\<forall>x \<in> set as \<union> set (b # bs). fold_startLineNumber a \<le> fold_startLineNumber x"
      using 4(4,8) step(1) folds_ok_starts [OF 4(4)] lt by (auto simp: folds_ok_Cons less_imp_le simp del: prescan.simps)
    have "set (resultRanges (sanitize_loop m as (b # bs) ?s)) =
        set (resultRanges ?s) \<union> set (b # bs) \<union> {x \<in> set as. fold_compatible B x}"
      using a by (intro 4(3) [OF _ prem(1) 4(5,6,7) prem(2) step(3) prem(3) step(2)]) simp
    then show ?thesis using a unfolding step(1) by (auto simp del: prescan.simps)
  qed
qed

lemma sanitize_user_ranges:
  assumes "folds_ok m A" "folds_ok m B" "\<forall>b \<in> set B. fold_source b = userDefined"
  shows "set (sanitizeAndMerge (Inr A) (Inr B) m) = set B \<union> {a \<in> set A. fold_compatible B a}"
proof -
  have "\<forall>x \<in> set A \<union> set B. 0 < fold_startLineNumber x"
    using assms(1,2) by (auto simp: folds_ok_def fold_valid_def)
  then have "\<forall>x \<in> set A \<union> set B. 0 \<le> fold_startLineNumber x" "keeps_coming (set B \<union> {a \<in> set A. fold_compatible B a}) initial_state"
    by (auto simp: keeps_coming_def initial_state_def chain_def less_imp_le)
  then have "set (resultRanges (sanitize_loop m A B initial_state)) =
      set (resultRanges initial_state) \<union> set B \<union> {a \<in> set A. fold_compatible B a}"
    by (intro sanitize_loop_user_ranges [OF assms _ _ merge_inv_initial [of m 0]]) auto
  then show ?thesis by (simp add: sanitizeAndMerge_initial initial_state_def)
qed

lemma sanitize_valid_unchanged:
  assumes "folds_ok m A"
  shows "sanitizeAndMerge (Inr A) (Inr []) m = A"
proof (rule folds_ok_unique)
  show "folds_ok m (sanitizeAndMerge (Inr A) (Inr []) m)"
    using folds_ok_sorted_by_start [OF assms] by (intro sanitize_nested) simp_all
  show "folds_ok m A" by (fact assms)
  show "set (sanitizeAndMerge (Inr A) (Inr []) m) = set A"
    using sanitize_user_ranges [OF assms, of "[]"] by (simp add: folds_ok_def fold_compatible_def)
qed

section \<open>Packed words\<close>

lemma masks:
  "(0xFFFFFF :: 32 word) = mask 24" "(0xFF :: 32 word) = mask 8" "(0xFF00 :: 32 word) = push_bit 8 (mask 8)"
  "MASK_INDENT = push_bit 24 (mask 8)"
  by (simp_all add: mask_eq_exp_minus_1 MASK_INDENT_def push_bit_eq_mult)

lemma low_word_bits: "uint w \<le> 0xFFFFFF \<Longrightarrow> bit (w :: 32 word) n \<Longrightarrow> n < 24"
proof -
  assume "uint w \<le> 0xFFFFFF" and b: "bit w n"
  then have "uint w < 2 ^ 24" by simp
  then have "take_bit 24 w = w" by (simp add: word_uint_eq_iff unsigned_take_bit_eq take_bit_int_eq_self)
  then show ?thesis using b by (metis bit_take_bit_iff)
qed

lemma add_eq_or: "(x :: 32 word) AND y = 0 \<Longrightarrow> x + y = x OR y"
  using word_plus_and_or [of x y] by simp

lemma pack_eq_or:
  assumes "uint w \<le> 0xFFFFFF"
  shows "pack_start w p = w OR push_bit 24 (word_of_int p AND 0xFF)" "pack_end w p = w OR push_bit 16 (word_of_int p AND 0xFF00)"
  unfolding pack_start_def pack_end_def masks
  by (intro add_eq_or bit_eqI; use low_word_bits [OF assms] in \<open>fastforce simp: bit_simps\<close>)+

lemma pack_line:
  assumes "uint w \<le> 0xFFFFFF"
  shows "pack_start w p AND 0xFFFFFF = w" "pack_end w p AND 0xFFFFFF = w"
  unfolding pack_eq_or [OF assms] masks
  by (intro bit_eqI; use low_word_bits [OF assms] in \<open>fastforce simp: bit_simps\<close>)+

lemma pack_parent:
  assumes "uint w \<le> 0xFFFFFF"
  shows "drop_bit 24 (pack_start w p AND MASK_INDENT) = word_of_int p AND 0xFF"
    "drop_bit 16 (pack_end w p AND MASK_INDENT) = word_of_int p AND 0xFF00"
  unfolding pack_eq_or [OF assms] masks
  by (intro bit_eqI; use low_word_bits [OF assms] in \<open>fastforce simp: bit_simps\<close>)+


lemma parent_halves:
  assumes "- 1 \<le> p" "p < 65535"
  shows "uint ((word_of_int p :: 32 word) AND 0xFF) + uint ((word_of_int p :: 32 word) AND 0xFF00) =
     (if p = - 1 then 65535 else p)"
proof (cases "p = - 1")
  case False
  define v :: "32 word" where "v = word_of_int p"
  have v: "uint v = p" using assms False by (simp add: v_def word_uint_eq_iff uint_word_of_int)
  have "uint (v AND 0xFF) = p mod 256"
    unfolding masks by (simp add: take_bit_eq_mask [symmetric] take_bit_eq_mod uint_mod v)
  moreover have "v AND 0xFF00 = push_bit 8 (take_bit 8 (drop_bit 8 v))"
    unfolding masks by (intro bit_eqI) (auto simp: bit_simps)
  then have "uint (v AND 0xFF00) = uint (push_bit 8 (take_bit 8 (drop_bit 8 v)))" by simp
  moreover have "\<dots> = 256 * (p div 256)"
    using assms False by (simp add: push_bit_eq_mult take_bit_eq_mod drop_bit_eq_div uint_word_ariths(3) uint_mod uint_div v)
  ultimately show ?thesis using False by (simp add: v_def)
qed simp

section \<open>The enclosing region\<close>

text \<open>The greatest index below \<open>n\<close> that satisfies a predicate, or \<open>-1\<close>.\<close>

primrec greatest_below :: "(nat \<Rightarrow> bool) \<Rightarrow> nat \<Rightarrow> number" where
  "greatest_below P 0 = - 1"
| "greatest_below P (Suc n) = (if P n then int n else greatest_below P n)"

lemma greatest_below_bounds: "- 1 \<le> greatest_below P n" "greatest_below P n < int n"
  by (induction n) auto

lemma greatest_below_none: "\<forall>j < n. \<not> P j \<Longrightarrow> greatest_below P n = - 1"
  by (induction n) auto

lemma greatest_below_skip: "k \<le> n \<Longrightarrow> \<forall>j. k \<le> j \<and> j < n \<longrightarrow> \<not> P j \<Longrightarrow> greatest_below P n = greatest_below P k"
proof (induction n)
  case (Suc n)
  then show ?case by (cases "k = Suc n") auto
qed simp

lemma greatest_below_eqI: "p < n \<Longrightarrow> P p \<Longrightarrow> \<forall>j. p < j \<and> j < n \<longrightarrow> \<not> P j \<Longrightarrow> greatest_below P n = int p"
  using greatest_below_skip [of "Suc p" n P] by auto

lemma greatest_below_cases:
  "greatest_below P n = - 1 \<and> (\<forall>j < n. \<not> P j) \<or>
     (\<exists>p < n. greatest_below P n = int p \<and> P p \<and> (\<forall>j. p < j \<and> j < n \<longrightarrow> \<not> P j))"
proof (induction n)
  case (Suc n)
  show ?case
  proof (cases "P n")
    case True
    then show ?thesis by (intro disjI2 exI [of _ n]) auto
  next
    case False
    then show ?thesis using Suc by (auto simp: less_Suc_eq)
  qed
qed simp

definition enclosing :: "FoldRange list \<Rightarrow> nat \<Rightarrow> number" where
  "enclosing rs i = greatest_below (\<lambda>j. fold_endLineNumber (rs ! i) \<le> fold_endLineNumber (rs ! j)) i"

definition packed_starts :: "FoldRange list \<Rightarrow> nat \<Rightarrow> 32 word list" where
  "packed_starts rs i =
     map (\<lambda>k. let w = word_of_int (fold_startLineNumber (rs ! k)) in if k < i then pack_start w (enclosing rs k) else w) [0..<length rs]"

definition packed_ends :: "FoldRange list \<Rightarrow> nat \<Rightarrow> 32 word list" where
  "packed_ends rs i =
     map (\<lambda>k. let w = word_of_int (fold_endLineNumber (rs ! k)) in if k < i then pack_end w (enclosing rs k) else w) [0..<length rs]"

text \<open>The regions object holds the ranges \<open>rs\<close>, its parents computed or not yet.\<close>

definition regions_hold :: "FoldRange list \<Rightarrow> FoldingRegions \<Rightarrow> bool" where
  "regions_hold rs this \<longleftrightarrow>
     folds_ok (Some MAX_LINE_NUMBER) rs \<and> int (length rs) \<le> MAX_FOLDING_REGIONS \<and>
     fr_startIndexes this = packed_starts rs (if fr_parentsComputed this then length rs else 0) \<and>
     fr_endIndexes this = packed_ends rs (if fr_parentsComputed this then length rs else 0)"

abbreviation lines_ok :: "FoldRange list \<Rightarrow> bool" where
  "lines_ok rs \<equiv> folds_ok (Some MAX_LINE_NUMBER) rs"

lemma word_of_line: "0 \<le> l \<Longrightarrow> l \<le> MAX_LINE_NUMBER \<Longrightarrow> uint (word_of_int l :: 32 word) = l"
  by (simp add: MAX_LINE_NUMBER_def uint_word_of_int)

lemma lines_of_ok:
  assumes "lines_ok rs" "k < length rs"
  shows "uint (word_of_int (fold_startLineNumber (rs ! k)) :: 32 word) = fold_startLineNumber (rs ! k)"
    "uint (word_of_int (fold_endLineNumber (rs ! k)) :: 32 word) = fold_endLineNumber (rs ! k)"
    "fold_startLineNumber (rs ! k) \<le> MAX_LINE_NUMBER" "fold_endLineNumber (rs ! k) \<le> MAX_LINE_NUMBER"
    "fold_startLineNumber (rs ! k) < fold_endLineNumber (rs ! k)"
proof -
  have "fold_valid (Some MAX_LINE_NUMBER) (rs ! k)" using assms by (auto simp: folds_ok_def)
  then show "fold_startLineNumber (rs ! k) \<le> MAX_LINE_NUMBER" "fold_endLineNumber (rs ! k) \<le> MAX_LINE_NUMBER"
    "fold_startLineNumber (rs ! k) < fold_endLineNumber (rs ! k)"
    "uint (word_of_int (fold_startLineNumber (rs ! k)) :: 32 word) = fold_startLineNumber (rs ! k)"
    "uint (word_of_int (fold_endLineNumber (rs ! k)) :: 32 word) = fold_endLineNumber (rs ! k)"
    by (auto simp: fold_valid_def intro!: word_of_line)
qed

lemma line_mask: "uint w \<le> MAX_LINE_NUMBER \<Longrightarrow> (w :: 32 word) AND 0xFFFFFF = w"
  using pack_line(1) [of w 0] by (simp add: pack_start_def MAX_LINE_NUMBER_def)

lemma line_of_packed:
  assumes "lines_ok rs" "k < length rs"
  shows "line_of (packed_starts rs i) (int k) = fold_startLineNumber (rs ! k)"
    "line_of (packed_ends rs i) (int k) = fold_endLineNumber (rs ! k)"
  using assms lines_of_ok [OF assms]
  by (simp_all add: line_of_def word_at_def packed_starts_def packed_ends_def Let_def pack_line line_mask MAX_LINE_NUMBER_def)

lemma packed_write:
  assumes "i < length rs"
  shows "ta_write (packed_starts rs i) (int i) (pack_start (word_of_int (fold_startLineNumber (rs ! i))) (enclosing rs i)) = packed_starts rs (Suc i)"
    "ta_write (packed_ends rs i) (int i) (pack_end (word_of_int (fold_endLineNumber (rs ! i))) (enclosing rs i)) = packed_ends rs (Suc i)"
  using assms by (auto intro!: nth_equalityI simp: ta_write_def packed_starts_def packed_ends_def Let_def nth_list_update less_Suc_eq)

lemma nested_nth:
  "lines_ok rs \<Longrightarrow> j < k \<Longrightarrow> k < length rs \<Longrightarrow> fold_before (rs ! j) (rs ! k)"
  by (simp add: folds_ok_def sorted_wrt_nth_less)

text \<open>The stack before region \<open>i\<close>: every region that is not on it has ended.\<close>

definition parents_ok :: "FoldRange list \<Rightarrow> nat \<Rightarrow> nat list \<Rightarrow> bool" where
  "parents_ok rs i ps \<longleftrightarrow>
     sorted_wrt (>) ps \<and> (\<forall>p \<in> set ps. p < i) \<and>
     (\<forall>j < i. j \<notin> set ps \<longrightarrow> (\<forall>k. i \<le> k \<and> k < length rs \<longrightarrow> fold_endLineNumber (rs ! j) < fold_startLineNumber (rs ! k)))"

lemma pop_parents_eq:
  assumes "lines_ok rs" "parents_ok rs i ps" "i < length rs"
  shows "pop_parents (packed_starts rs i) (packed_ends rs i) (fold_startLineNumber (rs ! i)) (fold_endLineNumber (rs ! i)) ps =
     dropWhile (\<lambda>p. fold_endLineNumber (rs ! p) < fold_endLineNumber (rs ! i)) ps"
proof -
  have "\<forall>p \<in> set ps. p < i" using assms(2) by (simp add: parents_ok_def)
  then show ?thesis
  proof (induction ps)
    case (Cons p ps)
    then have "fold_startLineNumber (rs ! p) \<le> fold_startLineNumber (rs ! i)"
      using fold_before_starts [OF nested_nth [OF assms(1), of p i]] assms(3) by simp
    then show ?case using Cons assms(1,3) by (auto simp: line_of_packed)
  qed simp
qed

lemma parents_step:
  assumes "lines_ok rs" "parents_ok rs i ps" "i < length rs"
  defines "qs \<equiv> dropWhile (\<lambda>p. fold_endLineNumber (rs ! p) < fold_endLineNumber (rs ! i)) ps"
  shows "(case qs of [] \<Rightarrow> - 1 | p # _ \<Rightarrow> int p) = enclosing rs i" "parents_ok rs (Suc i) (i # qs)"
proof -
  obtain ts where ts: "ps = ts @ qs" "\<forall>p \<in> set ts. fold_endLineNumber (rs ! p) < fold_endLineNumber (rs ! i)"
    unfolding qs_def by (metis set_takeWhileD takeWhile_dropWhile_id)
  have ps: "sorted_wrt (>) (ts @ qs)" "\<forall>p \<in> set (ts @ qs). p < i" using assms(2) ts(1) by (auto simp: parents_ok_def)
  have off: "fold_endLineNumber (rs ! j) < fold_startLineNumber (rs ! k)"
    if j: "j < i" "j \<notin> set qs" and k: "i \<le> k" "k < length rs" for j k
  proof (cases "j \<in> set ts")
    case True
    then have "fold_endLineNumber (rs ! j) < fold_startLineNumber (rs ! i)"
      using ts(2) nested_nth [OF assms(1) j(1) assms(3)] by (auto simp: fold_before_def)
    moreover have "fold_startLineNumber (rs ! i) \<le> fold_startLineNumber (rs ! k)"
      using nested_nth [OF assms(1), of i k] k by (cases "i = k") (auto simp: fold_before_def)
    ultimately show ?thesis by linarith
  next
    case False
    then show ?thesis using assms(2) j k ts(1) by (auto simp: parents_ok_def)
  qed
  have ended: "fold_endLineNumber (rs ! j) < fold_endLineNumber (rs ! i)" if "j < i" "j \<notin> set qs" for j
    using off [OF that, of i] assms(3) lines_of_ok(5) [OF assms(1,3)] by simp
  show "(case qs of [] \<Rightarrow> - 1 | p # _ \<Rightarrow> int p) = enclosing rs i"
  proof (cases qs)
    case Nil
    then show ?thesis using ended by (simp add: enclosing_def greatest_below_none not_le)
  next
    case (Cons p qs')
    have "fold_endLineNumber (rs ! i) \<le> fold_endLineNumber (rs ! p)"
      using Cons unfolding qs_def by (metis dropWhile_eq_Cons_conv not_le)
    moreover have "j \<notin> set qs" if "p < j" for j using ps(1) Cons that by (auto simp: sorted_wrt_append)
    ultimately have "enclosing rs i = int p"
      unfolding enclosing_def using ps(2) Cons ended by (intro greatest_below_eqI) (auto simp: not_le)
    then show ?thesis using Cons by simp
  qed
  show "parents_ok rs (Suc i) (i # qs)"
    using ps off by (auto simp: parents_ok_def sorted_wrt_append less_Suc_eq)
qed

lemma parents_loop_packed:
  assumes "lines_ok rs" "parents_ok rs i ps" "i \<le> length rs"
  shows "parents_loop i ps (packed_starts rs i) (packed_ends rs i) =
     (packed_starts rs (length rs), packed_ends rs (length rs), None)"
  using assms
proof (induction "length rs - i" arbitrary: i ps)
  case 0
  then show ?case by (subst parents_loop.simps) (simp add: packed_starts_def packed_ends_def)
next
  case (Suc n)
  then have i: "i < length rs" by simp
  have at: "word_at (packed_starts rs i) (int i) = word_of_int (fold_startLineNumber (rs ! i))"
    "word_at (packed_ends rs i) (int i) = word_of_int (fold_endLineNumber (rs ! i))"
    using i by (simp_all add: word_at_def packed_starts_def packed_ends_def)
  have len: "length (packed_starts rs i) = length rs" by (simp add: packed_starts_def)
  have "parents_loop i ps (packed_starts rs i) (packed_ends rs i) =
      parents_loop (Suc i) (i # dropWhile (\<lambda>p. fold_endLineNumber (rs ! p) < fold_endLineNumber (rs ! i)) ps)
        (packed_starts rs (Suc i)) (packed_ends rs (Suc i))"
    using i lines_of_ok [OF Suc.prems(1) i] parents_step(1) [OF Suc.prems(1,2) i]
    by (subst parents_loop.simps) (simp add: at len Let_def pop_parents_eq [OF Suc.prems(1,2) i] packed_write)
  also have "\<dots> = (packed_starts rs (length rs), packed_ends rs (length rs), None)"
    using Suc.hyps(2) i parents_step(2) [OF Suc.prems(1,2) i] by (intro Suc.hyps(1) [OF _ Suc.prems(1)]) simp_all
  finally show ?case .
qed

lemma ensureParentIndices_hold:
  assumes "regions_hold rs this"
  shows "\<exists>this'. FoldingRegions_ensureParentIndices this = (this', None) \<and> regions_hold rs this' \<and> fr_parentsComputed this' \<and>
     fr_types this' = fr_types this \<and> fr_collapseStates this' = fr_collapseStates this \<and>
     fr_userDefinedStates this' = fr_userDefinedStates this \<and> fr_recoveredStates this' = fr_recoveredStates this"
proof -
  have "parents_ok rs 0 []" by (simp add: parents_ok_def)
  then have "parents_loop 0 [] (packed_starts rs 0) (packed_ends rs 0) =
      (packed_starts rs (length rs), packed_ends rs (length rs), None)"
    using assms by (intro parents_loop_packed) (simp_all add: regions_hold_def)
  then show ?thesis
    using assms by (cases "fr_parentsComputed this") (auto simp: FoldingRegions_ensureParentIndices_def regions_hold_def)
qed

lemma packed_parent_enclosing:
  assumes "regions_hold rs this" "fr_parentsComputed this" "i < length rs"
  shows "packed_parent this (int i) = enclosing rs i"
proof -
  have ok: "lines_ok rs" and len: "length rs \<le> 65535" using assms(1) by (simp_all add: regions_hold_def MAX_FOLDING_REGIONS_def)
  have at: "word_at (packed_starts rs (length rs)) (int i) = pack_start (word_of_int (fold_startLineNumber (rs ! i))) (enclosing rs i)"
    "word_at (packed_ends rs (length rs)) (int i) = pack_end (word_of_int (fold_endLineNumber (rs ! i))) (enclosing rs i)"
    using assms(3) by (simp_all add: word_at_def packed_starts_def packed_ends_def)
  have b: "- 1 \<le> enclosing rs i" "enclosing rs i < 65535"
    using greatest_below_bounds [of "\<lambda>j. fold_endLineNumber (rs ! i) \<le> fold_endLineNumber (rs ! j)" i] assms(3) len
    unfolding enclosing_def by linarith+
  have small: "uint (word_of_int (fold_startLineNumber (rs ! i)) :: 32 word) \<le> 0xFFFFFF"
    "uint (word_of_int (fold_endLineNumber (rs ! i)) :: 32 word) \<le> 0xFFFFFF"
    using lines_of_ok [OF ok assms(3)] by (simp_all add: MAX_LINE_NUMBER_def)
  have "fr_startIndexes this = packed_starts rs (length rs)" "fr_endIndexes this = packed_ends rs (length rs)"
    using assms(1,2) by (simp_all add: regions_hold_def)
  then have "packed_parent this (int i) =
      (let parent = uint (word_of_int (enclosing rs i) AND 0xFF :: 32 word) + uint (word_of_int (enclosing rs i) AND 0xFF00 :: 32 word)
       in if parent = MAX_FOLDING_REGIONS then - 1 else parent)"
    unfolding packed_parent_def by (simp only: at pack_parent [OF small(1)] pack_parent [OF small(2)])
  then show ?thesis using b unfolding parent_halves [OF b] by (simp add: MAX_FOLDING_REGIONS_def)
qed

lemma regions_hold_lines:
  assumes "regions_hold rs this" "i < length rs"
  shows "FoldingRegions_getStartLineNumber this (int i) = fold_startLineNumber (rs ! i)"
    "FoldingRegions_getEndLineNumber this (int i) = fold_endLineNumber (rs ! i)"
  using assms
  by (auto simp: FoldingRegions_getStartLineNumber_def FoldingRegions_getEndLineNumber_def regions_hold_def line_of_packed)

lemma regions_hold_length: "regions_hold rs this \<Longrightarrow> length (fr_startIndexes this) = length rs"
  by (simp add: regions_hold_def packed_starts_def)

section \<open>Searching a line\<close>

lemma findIndex_loop_correct:
  assumes "regions_hold rs this" "low \<le> high" "high \<le> length rs"
    "\<forall>k < low. fold_startLineNumber (rs ! k) \<le> line" "\<forall>k. high \<le> k \<and> k < length rs \<longrightarrow> line < fold_startLineNumber (rs ! k)"
  defines "r \<equiv> findIndex_loop this line low high"
  shows "r \<le> length rs \<and> (\<forall>k < length rs. fold_startLineNumber (rs ! k) \<le> line \<longleftrightarrow> k < r)"
  using assms(1-5) unfolding r_def
proof (induction this line low high rule: findIndex_loop.induct)
  case (1 this line low high)
  show ?case
  proof (cases "low < high")
    case True
    define mid where "mid = (low + high) div 2"
    have mid: "low \<le> mid" "mid < high" "mid < length rs" using True 1(5) by (auto simp: mid_def)
    have ok: "lines_ok rs" using 1(3) by (simp add: regions_hold_def)
    have mono: "j \<le> k \<Longrightarrow> k < length rs \<Longrightarrow> fold_startLineNumber (rs ! j) \<le> fold_startLineNumber (rs ! k)" for j k
      using nested_nth [OF ok, of j k] by (cases "j = k") (auto simp: fold_before_def)
    show ?thesis
    proof (cases "line < fold_startLineNumber (rs ! mid)")
      case lt: True
      have "\<forall>k. mid \<le> k \<and> k < length rs \<longrightarrow> line < fold_startLineNumber (rs ! k)" using lt mono by fastforce
      moreover have "findIndex_loop this line low high = findIndex_loop this line low mid"
        using lt True mid by (subst findIndex_loop.simps) (simp add: mid_def [symmetric] regions_hold_lines [OF 1(3)])
      ultimately show ?thesis
        using 1(1) [OF True mid_def] 1(3,6) mid lt by (simp add: regions_hold_lines)
    next
      case ge: False
      have "\<forall>k < mid + 1. fold_startLineNumber (rs ! k) \<le> line" using ge mono mid by (fastforce simp: less_Suc_eq_le)
      moreover have "findIndex_loop this line low high = findIndex_loop this line (mid + 1) high"
        using ge True mid by (subst findIndex_loop.simps) (simp add: mid_def [symmetric] regions_hold_lines [OF 1(3)])
      ultimately show ?thesis
        using 1(2) [OF True mid_def] 1(3,5,7) mid ge by (simp add: regions_hold_lines)
    qed
  next
    case False
    then have "findIndex_loop this line low high = low" by (subst findIndex_loop.simps) simp
    then show ?thesis using False 1(4-7) by (auto simp: not_less)
  qed
qed

definition innermost :: "FoldRange list \<Rightarrow> number \<Rightarrow> nat \<Rightarrow> number" where
  "innermost rs line n = greatest_below (\<lambda>j. fold_startLineNumber (rs ! j) \<le> line \<and> line \<le> fold_endLineNumber (rs ! j)) n"

lemma findRange_loop_innermost:
  assumes "regions_hold rs this" "fr_parentsComputed this"
  shows "k < length rs \<Longrightarrow> fold_startLineNumber (rs ! k) \<le> line \<Longrightarrow> fold_endLineNumber (rs ! k) < line \<Longrightarrow>
     findRange_loop this line (packed_parent this (int k)) = Some (innermost rs line k)"
proof (induction k rule: less_induct)
  case (less k)
  have ok: "lines_ok rs" using assms(1) by (simp add: regions_hold_def)
  have parent: "packed_parent this (int k) = enclosing rs k" by (rule packed_parent_enclosing [OF assms less.prems(1)])
  from greatest_below_cases [of "\<lambda>j. fold_endLineNumber (rs ! k) \<le> fold_endLineNumber (rs ! j)" k]
  consider (none) "enclosing rs k = - 1" "\<forall>j < k. fold_endLineNumber (rs ! j) < fold_endLineNumber (rs ! k)"
    | (some) p where "p < k" "enclosing rs k = int p" "\<forall>j. p < j \<and> j < k \<longrightarrow> fold_endLineNumber (rs ! j) < fold_endLineNumber (rs ! k)"
    by (auto simp: enclosing_def not_le)
  then show ?case
  proof cases
    case none
    then have "innermost rs line k = - 1"
      unfolding innermost_def using less.prems(3) by (intro greatest_below_none) fastforce
    then show ?thesis by (subst findRange_loop.simps) (simp add: parent none)
  next
    case some
    have p: "p < length rs" "fold_startLineNumber (rs ! p) \<le> line"
      using some(1) less.prems(1,2) nested_nth [OF ok some(1)] by (auto simp: fold_before_def)
    have "innermost rs line k = innermost rs line (Suc p)"
      unfolding innermost_def using some less.prems(3) by (intro greatest_below_skip) (fastforce simp: Suc_le_eq)+
    then have inn: "innermost rs line k = (if line \<le> fold_endLineNumber (rs ! p) then int p else innermost rs line p)"
      using p(2) by (simp add: innermost_def)
    have "FoldingRegions_contains this (int p) line \<longleftrightarrow> line \<le> fold_endLineNumber (rs ! p)"
      using p by (simp add: FoldingRegions_contains_def regions_hold_lines [OF assms(1) p(1)])
    then show ?thesis
      using less.IH [OF some(1) p] by (subst findRange_loop.simps) (simp add: parent some inn not_le)
  qed
qed

lemma findRange_innermost:
  assumes "regions_hold rs this"
  shows "\<exists>this'. FoldingRegions_findRange line this = (this', Some (Inr (innermost rs line (length rs)))) \<and> regions_hold rs this'"
proof -
  define r where "r = findIndex_loop this line 0 (length rs)"
  have r: "r \<le> length rs" "\<forall>k < length rs. fold_startLineNumber (rs ! k) \<le> line \<longleftrightarrow> k < r"
    using findIndex_loop_correct [OF assms, of 0 "length rs" line] by (simp_all add: r_def)
  have idx: "FoldingRegions_findIndex this line = int r - 1"
    using r(1) by (auto simp: FoldingRegions_findIndex_def regions_hold_length [OF assms] r_def)
  have "innermost rs line (length rs) = innermost rs line r"
    unfolding innermost_def using r by (intro greatest_below_skip) auto
  show ?thesis
  proof (cases r)
    case 0
    then show ?thesis using assms idx \<open>innermost rs line (length rs) = innermost rs line r\<close>
      by (simp add: FoldingRegions_findRange_def innermost_def)
  next
    case (Suc k)
    then have k: "k < length rs" "fold_startLineNumber (rs ! k) \<le> line" using r by auto
    have inn: "innermost rs line (length rs) = (if line \<le> fold_endLineNumber (rs ! k) then int k else innermost rs line k)"
      using \<open>innermost rs line (length rs) = innermost rs line r\<close> Suc k(2) by (simp add: innermost_def)
    obtain this' where p: "FoldingRegions_ensureParentIndices this = (this', None)" "regions_hold rs this'" "fr_parentsComputed this'"
      using ensureParentIndices_hold [OF assms] by blast
    have g: "FoldingRegions_getParentIndex (int k) this = (this', Inr (packed_parent this' (int k)))"
      by (simp add: FoldingRegions_getParentIndex_def p(1))
    have e: "FoldingRegions_getEndLineNumber this (int k) = fold_endLineNumber (rs ! k)" by (rule regions_hold_lines(2) [OF assms k(1)])
    show ?thesis
    proof (cases "line \<le> fold_endLineNumber (rs ! k)")
      case True
      then show ?thesis using assms by (simp add: FoldingRegions_findRange_def idx Suc e inn)
    next
      case False
      then have "findRange_loop this' line (packed_parent this' (int k)) = Some (innermost rs line k)"
        using k by (intro findRange_loop_innermost [OF p(2,3)]) simp_all
      then show ?thesis using False p(2) by (simp add: FoldingRegions_findRange_def idx Suc e inn g)
    qed
  qed
qed

section \<open>Conversion from and to fold ranges\<close>

lemma fromFoldRanges_step_fields:
  "fr_startIndexes (fold fromFoldRanges_step xs f) = fr_startIndexes f \<and>
   fr_endIndexes (fold fromFoldRanges_step xs f) = fr_endIndexes f \<and>
   fr_types (fold fromFoldRanges_step xs f) = fr_types f \<and>
   fr_parentsComputed (fold fromFoldRanges_step xs f) = fr_parentsComputed f"
  by (induction xs arbitrary: f)
    (simp_all add: fromFoldRanges_step_def FoldingRegions_setSource_def FoldingRegions_setRecovered_def
      FoldingRegions_setUserDefined_def FoldingRegions_setCollapsed_def Let_def)

lemma fromFoldRanges_step_sources:
  "fr_userDefinedStates (fold fromFoldRanges_step (zip rs is) f) =
     fold (\<lambda>(v, i). BitField_set (int i) v) (zip (map (\<lambda>r. fold_source r = userDefined) rs) is) (fr_userDefinedStates f) \<and>
   fr_recoveredStates (fold fromFoldRanges_step (zip rs is) f) =
     fold (\<lambda>(v, i). BitField_set (int i) v) (zip (map (\<lambda>r. fold_source r = recovered) rs) is) (fr_recoveredStates f)"
proof (induction rs arbitrary: "is" f)
  case (Cons r rs)
  then show ?case
    by (cases "is"; cases "fold_source r")
      (simp_all add: fromFoldRanges_step_def FoldingRegions_setSource_def FoldingRegions_setRecovered_def
        FoldingRegions_setUserDefined_def FoldingRegions_setCollapsed_def Let_def)
qed simp

text \<open>A flag that is unset stays so when it is set to false, so skipping that is the same.\<close>

lemma BitField_set_unset:
  assumes "BitField_holds n f" "i < n" "\<not> BitField_get f (int i)"
  shows "BitField_set (int i) False f = f"
proof -
  have "\<not> bit (bf_states f ! (i div 32)) (i mod 32)" using assms by (simp add: BitField_get_bit)
  then have "unset_bit (i mod 32) (bf_states f ! (i div 32)) = bf_states f ! (i div 32)"
    by (intro bit_eqI) (auto simp: bit_unset_bit_iff)
  then show ?thesis using BitField_set_bits [OF assms(1,2), of False] by (simp add: list_update_id)
qed

lemma fromFoldRanges_step_collapsed:
  assumes "BitField_holds n (fr_collapseStates f)" "k + length rs \<le> n" "\<forall>j. k \<le> j \<and> j < n \<longrightarrow> \<not> BitField_get (fr_collapseStates f) (int j)"
  shows "fr_collapseStates (fold fromFoldRanges_step (zip rs [k..<k + length rs]) f) =
     fold (\<lambda>(v, i). BitField_set (int i) v) (zip (map fold_isCollapsed rs) [k..<k + length rs]) (fr_collapseStates f)"
  using assms
proof (induction rs arbitrary: k f)
  case (Cons r rs)
  let ?f = "fromFoldRanges_step (r, k) f"
  have f: "fr_collapseStates ?f = BitField_set (int k) (fold_isCollapsed r) (fr_collapseStates f)"
    using BitField_set_unset [OF Cons.prems(1), of k] Cons.prems(2,3)
    by (cases "fold_source r") (auto simp: fromFoldRanges_step_def FoldingRegions_setSource_def FoldingRegions_setRecovered_def
        FoldingRegions_setUserDefined_def FoldingRegions_setCollapsed_def Let_def)
  have "fr_collapseStates (fold fromFoldRanges_step (zip rs [Suc k..<Suc k + length rs]) ?f) =
     fold (\<lambda>(v, i). BitField_set (int i) v) (zip (map fold_isCollapsed rs) [Suc k..<Suc k + length rs]) (fr_collapseStates ?f)"
    using Cons.prems bits.holds_put [OF Cons.prems(1), of k] bits.get_put [OF Cons.prems(1), of k]
    by (intro Cons.IH) (auto simp: f)
  then show ?case by (simp add: upt_conv_Cons f del: upt_Suc)
qed simp

lemma fromFoldRanges_ranges:
  assumes "int (length rs) \<le> MAX_FOLDING_REGIONS" "\<forall>r \<in> set rs. fold_type r \<noteq> Some []"
    "\<forall>r \<in> set rs. 0 \<le> fold_startLineNumber r \<and> fold_startLineNumber r \<le> MAX_LINE_NUMBER \<and>
       0 \<le> fold_endLineNumber r \<and> fold_endLineNumber r \<le> MAX_LINE_NUMBER"
  shows "\<exists>regions. FoldingRegions_fromFoldRanges rs = Inr regions \<and> fold_ranges (Inl regions) = rs \<and>
     fr_parentsComputed regions = False \<and> fr_startIndexes regions = packed_starts rs 0 \<and> fr_endIndexes regions = packed_ends rs 0"
proof -
  define ss es where "ss = map (\<lambda>r. word_of_int (fold_startLineNumber r) :: 32 word) rs"
    and "es = map (\<lambda>r. word_of_int (fold_endLineNumber r) :: 32 word) rs"
  define f where "f = \<lparr>fr_startIndexes = ss, fr_endIndexes = es,
                fr_collapseStates = new_BitField (length rs), fr_userDefinedStates = new_BitField (length rs),
                fr_recoveredStates = new_BitField (length rs), fr_parentsComputed = False,
                fr_types = if gotTypes rs then Some (map fold_type rs) else None\<rparr>"
  define regions where "regions = fold fromFoldRanges_step (zip rs [0..<length rs]) f"
  have len: "length rs \<le> 65535" using assms(1) by (simp add: MAX_FOLDING_REGIONS_def)
  have "FoldingRegions_fromFoldRanges rs = Inr regions"
    using assms(1) by (simp add: FoldingRegions_fromFoldRanges_def new_FoldingRegions_def regions_def f_def ss_def es_def)
  moreover have fields: "fr_startIndexes regions = ss" "fr_endIndexes regions = es" "fr_parentsComputed regions = False"
    "fr_types regions = (if gotTypes rs then Some (map fold_type rs) else None)"
    using fromFoldRanges_step_fields by (simp_all add: regions_def f_def)
  moreover have "ss = packed_starts rs 0" "es = packed_ends rs 0"
    by (auto simp: ss_def es_def packed_starts_def packed_ends_def intro: nth_equalityI)
  moreover have "FoldingRegions_toFoldRange regions (int i) = rs ! i" if i: "i < length rs" for i
  proof -
    have r: "rs ! i \<in> set rs" using i by simp
    have flags: "FoldingRegions_isUserDefined regions (int i) \<longleftrightarrow> fold_source (rs ! i) = userDefined"
      "FoldingRegions_isRecovered regions (int i) \<longleftrightarrow> fold_source (rs ! i) = recovered"
      "FoldingRegions_isCollapsed regions (int i) \<longleftrightarrow> fold_isCollapsed (rs ! i)"
      using fromFoldRanges_step_sources [of rs "[0..<length rs]" f]
        fromFoldRanges_step_collapsed [of "length rs" f 0 rs] bits.holds_make [OF len] bits.get_make [OF len]
        bits.get_fold_make [of "map (\<lambda>r. fold_source r = userDefined) rs" i]
        bits.get_fold_make [of "map (\<lambda>r. fold_source r = recovered) rs" i]
        bits.get_fold_make [of "map fold_isCollapsed rs" i] i len
      by (simp_all add: FoldingRegions_isUserDefined_def FoldingRegions_isRecovered_def FoldingRegions_isCollapsed_def regions_def f_def)
    have "FoldingRegions_getSource regions (int i) = fold_source (rs ! i)"
      using flags by (cases "fold_source (rs ! i)") (simp_all add: FoldingRegions_getSource_def)
    moreover have "FoldingRegions_getType regions (int i) = fold_type (rs ! i)"
      using i r assms(2) by (cases "gotTypes rs") (auto simp: FoldingRegions_getType_def fields gotTypes_def)
    moreover have "line_of ss (int i) = fold_startLineNumber (rs ! i)" "line_of es (int i) = fold_endLineNumber (rs ! i)"
      using i r assms(3) by (simp_all add: line_of_def word_at_def ss_def es_def MAX_LINE_NUMBER_def line_mask word_of_line)
    ultimately show ?thesis using flags by (simp add: FoldingRegions_toFoldRange_def fields)
  qed
  then have "fold_ranges (Inl regions) = rs"
    by (auto intro!: nth_equalityI simp: FoldingRegions_length_def fields ss_def)
  ultimately show ?thesis by blast
qed

section \<open>Properties\<close>

text \<open>
  C5. The merged folding ranges are always usable. For inputs sorted by start line, the
  result is strictly sorted by start line, every range of it is a valid range of lines
  within the bound, any two are nested or disjoint, and each has the lines and the type of a range
  of one of the inputs. Sanitizing the result again changes nothing.
\<close>

theorem sanitizeAndMerge_result_is_nested:
  fixes maxLineNumber :: "number option"
  assumes "sorted_by_start (fold_ranges rangesA)" "sorted_by_start (fold_ranges rangesB)"
  defines "res \<equiv> sanitizeAndMerge rangesA rangesB maxLineNumber"
  shows "folds_ok maxLineNumber res \<and>
         (\<forall>r \<in> set res. \<exists>x \<in> set (fold_ranges rangesA) \<union> set (fold_ranges rangesB). same_lines r x) \<and>
         sanitizeAndMerge (Inr res) (Inr []) maxLineNumber = res"
proof -
  have "folds_ok maxLineNumber res" unfolding res_def by (rule sanitize_nested [OF assms(1,2)])
  moreover have "\<exists>x \<in> set (fold_ranges rangesA) \<union> set (fold_ranges rangesB). same_lines r x" if "r \<in> set res" for r
    using sanitize_loop_origin [of r] that by (fastforce simp: res_def sanitizeAndMerge_initial initial_state_def)
  ultimately show ?thesis using sanitize_valid_unchanged by blast
qed

definition example_fold :: "number \<Rightarrow> number \<Rightarrow> bool \<Rightarrow> FoldSource \<Rightarrow> FoldRange" where
  "example_fold a b c s = \<lparr>fold_startLineNumber = a, fold_endLineNumber = b, fold_type = None, fold_isCollapsed = c, fold_source = s\<rparr>"

theorem sanitizeAndMerge_result_is_nested_witness:
  "sanitizeAndMerge (Inr [example_fold 1 9 False provider, example_fold 2 12 False provider, example_fold 4 7 False provider])
     (Inr [example_fold 3 5 True provider]) (Some 20) = [example_fold 1 9 False provider, example_fold 3 5 True recovered] \<and>
   folds_ok (Some 20) [example_fold 1 9 False provider, example_fold 3 5 True recovered]"
proof -
  let ?A = "Inr [example_fold 1 9 False provider, example_fold 2 12 False provider, example_fold 4 7 False provider] :: fold_input"
  let ?B = "Inr [example_fold 3 5 True provider] :: fold_input"
  have "sanitizeAndMerge ?A ?B (Some 20) = [example_fold 1 9 False provider, example_fold 3 5 True recovered]"
    by (simp add: sanitizeAndMerge_def use_range_def recovered_range_def example_fold_def Let_def)
  moreover have "sorted_by_start (fold_ranges ?A)" "sorted_by_start (fold_ranges ?B)" by (simp_all add: example_fold_def)
  ultimately show ?thesis using sanitizeAndMerge_result_is_nested [of ?A ?B "Some 20"] by metis
qed



text \<open>
  The hypotheses are needed. A recovered range on the line of a provider's range lets the
  latter in without a look at the ranges of the user that follow, and a range that is out of
  sequence closes ranges that a later one then crosses.
\<close>

lemma user_range_lost_after_recovered:
  "sanitizeAndMerge (Inr [example_fold 1 10 False provider])
     (Inr [example_fold 1 5 True recovered, example_fold 8 12 False userDefined]) None = [example_fold 1 10 False provider]"
  by (simp add: sanitizeAndMerge_def use_range_def same_line_range_def recovered_range_def example_fold_def Let_def)

lemma out_of_sequence_range_breaks_nesting:
  "sanitizeAndMerge (Inr [example_fold 1 10 False provider, example_fold 20 5 False provider, example_fold 3 12 False provider])
     (Inr []) None = [example_fold 1 10 False provider, example_fold 3 12 False provider]"
  by (simp add: sanitizeAndMerge_def use_range_def example_fold_def Let_def)

text \<open>
  C8. Searching a line and the enclosing region. On an object that holds nested ranges,
  its parents computed or not, \<open>findRange\<close> ends and returns the innermost range that contains the line
  (\<open>-1\<close> without one), \<open>getParentIndex\<close> returns the innermost range around a range; both leave an
  object that holds the same ranges.
\<close>

theorem FoldingRegions_findRange_is_innermost:
  assumes "regions_hold rs this" "i < length rs"
  shows "(\<exists>this'. FoldingRegions_findRange line this = (this', Some (Inr (innermost rs line (length rs)))) \<and>
           regions_hold rs this') \<and>
         (\<exists>this'. FoldingRegions_getParentIndex (int i) this = (this', Inr (enclosing rs i)) \<and> regions_hold rs this')"
proof
  show "\<exists>this'. FoldingRegions_findRange line this = (this', Some (Inr (innermost rs line (length rs)))) \<and> regions_hold rs this'"
    by (rule findRange_innermost [OF assms(1)])
  obtain this' where p: "FoldingRegions_ensureParentIndices this = (this', None)" "regions_hold rs this'" "fr_parentsComputed this'"
    using ensureParentIndices_hold [OF assms(1)] by blast
  then show "\<exists>this'. FoldingRegions_getParentIndex (int i) this = (this', Inr (enclosing rs i)) \<and> regions_hold rs this'"
    using packed_parent_enclosing [OF p(2,3) assms(2)] by (simp add: FoldingRegions_getParentIndex_def)
qed

text \<open>
  The packed representation loses nothing. Regions made from up to 65535 ranges with
  24-bit line numbers (and no empty type name) give back the same ranges: lines, types, collapsed states and
  sources. When the ranges are nested the object holds them, and they are still the same
  after the parents have been packed into the words.
\<close>

theorem FoldingRegions_fold_ranges_roundtrip:
  assumes "int (length rs) \<le> MAX_FOLDING_REGIONS" "\<forall>r \<in> set rs. fold_type r \<noteq> Some []"
    "\<forall>r \<in> set rs. 0 \<le> fold_startLineNumber r \<and> fold_startLineNumber r \<le> MAX_LINE_NUMBER \<and>
       0 \<le> fold_endLineNumber r \<and> fold_endLineNumber r \<le> MAX_LINE_NUMBER"
  shows "\<exists>regions. FoldingRegions_fromFoldRanges rs = Inr regions \<and> fold_ranges (Inl regions) = rs \<and>
     (folds_ok (Some MAX_LINE_NUMBER) rs \<longrightarrow>
        regions_hold rs regions \<and> fold_ranges (Inl (fst (FoldingRegions_ensureParentIndices regions))) = rs)"
proof -
  obtain regions where r: "FoldingRegions_fromFoldRanges rs = Inr regions" "fold_ranges (Inl regions) = rs"
    "fr_parentsComputed regions = False" "fr_startIndexes regions = packed_starts rs 0" "fr_endIndexes regions = packed_ends rs 0"
    using fromFoldRanges_ranges [OF assms] by blast
  have "regions_hold rs regions \<and> fold_ranges (Inl (fst (FoldingRegions_ensureParentIndices regions))) = rs"
    if ok: "folds_ok (Some MAX_LINE_NUMBER) rs"
  proof -
    have h: "regions_hold rs regions" using ok assms(1) r by (simp add: regions_hold_def)
    then obtain regions' where p: "FoldingRegions_ensureParentIndices regions = (regions', None)" "regions_hold rs regions'"
      "fr_types regions' = fr_types regions" "fr_collapseStates regions' = fr_collapseStates regions"
      "fr_userDefinedStates regions' = fr_userDefinedStates regions" "fr_recoveredStates regions' = fr_recoveredStates regions"
      using ensureParentIndices_hold [OF h] by blast
    have "FoldingRegions_toFoldRange regions' (int i) = FoldingRegions_toFoldRange regions (int i)" if i: "i < length rs" for i
      using regions_hold_lines [OF h i] regions_hold_lines [OF p(2) i] p
      by (simp add: FoldingRegions_toFoldRange_def FoldingRegions_getStartLineNumber_def FoldingRegions_getEndLineNumber_def
          FoldingRegions_getType_def FoldingRegions_isCollapsed_def FoldingRegions_getSource_def
          FoldingRegions_isUserDefined_def FoldingRegions_isRecovered_def)
    then have "fold_ranges (Inl regions') = fold_ranges (Inl regions)"
      using regions_hold_length [OF h] regions_hold_length [OF p(2)]
      by (auto simp: FoldingRegions_length_def dest!: zero_le_imp_eq_int)
    then show ?thesis using h r(2) p(1) by simp
  qed
  then show ?thesis using r by blast
qed

theorem FoldingRegions_fold_ranges_roundtrip_witness:
  "\<exists>regions. FoldingRegions_fromFoldRanges [example_fold 1 20 True provider, example_fold 2 6 False userDefined] = Inr regions \<and>
     fold_ranges (Inl regions) = [example_fold 1 20 True provider, example_fold 2 6 False userDefined] \<and>
     regions_hold [example_fold 1 20 True provider, example_fold 2 6 False userDefined] regions"
proof -
  let ?rs = "[example_fold 1 20 True provider, example_fold 2 6 False userDefined]"
  have "folds_ok (Some MAX_LINE_NUMBER) ?rs"
    by (simp add: folds_ok_def fold_before_def fold_valid_def example_fold_def MAX_LINE_NUMBER_def)
  moreover have "int (length ?rs) \<le> MAX_FOLDING_REGIONS" "\<forall>r \<in> set ?rs. fold_type r \<noteq> Some []"
    "\<forall>r \<in> set ?rs. 0 \<le> fold_startLineNumber r \<and> fold_startLineNumber r \<le> MAX_LINE_NUMBER \<and>
       0 \<le> fold_endLineNumber r \<and> fold_endLineNumber r \<le> MAX_LINE_NUMBER"
    by (simp_all add: example_fold_def MAX_FOLDING_REGIONS_def MAX_LINE_NUMBER_def)
  ultimately show ?thesis using FoldingRegions_fold_ranges_roundtrip [of ?rs] by blast
qed

theorem FoldingRegions_findRange_is_innermost_witness:
  "\<exists>regions regions' regions''.
     FoldingRegions_fromFoldRanges [example_fold 1 20 True provider, example_fold 2 6 False userDefined] = Inr regions \<and>
     FoldingRegions_findRange 9 regions = (regions', Some (Inr 0)) \<and>
     FoldingRegions_getParentIndex 1 regions = (regions'', Inr 0)"
proof -
  let ?rs = "[example_fold 1 20 True provider, example_fold 2 6 False userDefined]"
  have ok: "folds_ok (Some MAX_LINE_NUMBER) ?rs"
    by (simp add: folds_ok_def fold_before_def fold_valid_def example_fold_def MAX_LINE_NUMBER_def)
  obtain regions where r: "FoldingRegions_fromFoldRanges ?rs = Inr regions" "fr_parentsComputed regions = False"
    "fr_startIndexes regions = packed_starts ?rs 0" "fr_endIndexes regions = packed_ends ?rs 0"
    using fromFoldRanges_ranges [of ?rs] by (auto simp: example_fold_def MAX_FOLDING_REGIONS_def MAX_LINE_NUMBER_def)
  have "regions_hold ?rs regions" using ok r by (simp add: regions_hold_def MAX_FOLDING_REGIONS_def)
  moreover have "innermost ?rs 9 (length ?rs) = 0" "enclosing ?rs 1 = 0"
    by (simp_all add: innermost_def enclosing_def example_fold_def)
  ultimately show ?thesis using r(1) FoldingRegions_findRange_is_innermost [of ?rs regions 1 9] by auto
qed

end
