(* ===== verification/Range_Map.thy ===== *)
theory Range_Map
  imports Prelude
begin

text \<open>
  \<open>src/vs/base/common/range.ts\<close> and \<open>src/vs/base/browser/ui/list/rangeMap.ts\<close>: the
  vertical layout of a list widget. A \<open>RangeMap\<close> keeps the heights of the items as groups
  of consecutive items with the same height; it refines the plain list of the heights.
  Heights and positions are integers here.
\<close>

section \<open>range.ts\<close>

record IRange =
  range_start :: number
  range_end :: number

definition mk_range :: "number \<Rightarrow> number \<Rightarrow> IRange" where
  "mk_range s e = \<lparr>range_start = s, range_end = e\<rparr>"

text \<open>
  The first range may be open: its end is None where the caller passes
  \<open>Number.POSITIVE_INFINITY\<close>.
\<close>

definition upper_le :: "number option \<Rightarrow> number \<Rightarrow> bool" where
  "upper_le u x \<longleftrightarrow> (case u of None \<Rightarrow> False | Some e \<Rightarrow> e \<le> x)"

definition upper_min :: "number option \<Rightarrow> number \<Rightarrow> number" where
  "upper_min u x = (case u of None \<Rightarrow> x | Some e \<Rightarrow> min e x)"

definition Range_intersect_open :: "number \<Rightarrow> number option \<Rightarrow> IRange \<Rightarrow> IRange" where
  "Range_intersect_open oneStart oneEnd other =
     (if oneStart \<ge> range_end other \<or> upper_le oneEnd (range_start other) then mk_range 0 0
      else let s = max oneStart (range_start other); e = upper_min oneEnd (range_end other)
           in if e - s \<le> 0 then mk_range 0 0 else mk_range s e)"

definition BaseRange_intersect :: "IRange \<Rightarrow> IRange \<Rightarrow> IRange" where
  "BaseRange_intersect one other = Range_intersect_open (range_start one) (Some (range_end one)) other"

definition BaseRange_isEmpty :: "IRange \<Rightarrow> bool" where
  "BaseRange_isEmpty r \<longleftrightarrow> range_end r - range_start r \<le> 0"

definition BaseRange_intersects :: "IRange \<Rightarrow> IRange \<Rightarrow> bool" where
  "BaseRange_intersects one other \<longleftrightarrow> \<not> BaseRange_isEmpty (BaseRange_intersect one other)"

definition BaseRange_relativeComplement :: "IRange \<Rightarrow> IRange \<Rightarrow> IRange list" where
  "BaseRange_relativeComplement one other =
     (let first = mk_range (range_start one) (min (range_start other) (range_end one));
          second = mk_range (max (range_end other) (range_start one)) (range_end one)
      in (if \<not> BaseRange_isEmpty first then [first] else []) @ (if \<not> BaseRange_isEmpty second then [second] else []))"

section \<open>Groups\<close>

record IRangedGroup =
  group_range :: IRange
  group_size :: number

definition mk_group :: "number \<Rightarrow> number \<Rightarrow> number \<Rightarrow> IRangedGroup" where
  "mk_group s e z = \<lparr>group_range = mk_range s e, group_size = z\<rparr>"

fun groupIntersect_loop :: "number \<Rightarrow> number option \<Rightarrow> IRangedGroup list \<Rightarrow> IRangedGroup list \<Rightarrow> IRangedGroup list" where
  "groupIntersect_loop rs re [] res = res"
| "groupIntersect_loop rs re (r # groups) res =
     (if rs \<ge> range_end (group_range r) then groupIntersect_loop rs re groups res
      else if (case re of None \<Rightarrow> False | Some e \<Rightarrow> e < range_start (group_range r)) then res
      else let intersection = Range_intersect_open rs re (group_range r)
           in if BaseRange_isEmpty intersection then groupIntersect_loop rs re groups res
              else groupIntersect_loop rs re groups (res @ [\<lparr>group_range = intersection, group_size = group_size r\<rparr>]))"

definition groupIntersect :: "number \<Rightarrow> number option \<Rightarrow> IRangedGroup list \<Rightarrow> IRangedGroup list" where
  "groupIntersect rs re groups = groupIntersect_loop rs re groups []"

definition shift :: "IRange \<Rightarrow> number \<Rightarrow> IRange" where
  "shift r much = mk_range (range_start r + much) (range_end r + much)"

text \<open>\<open>previousGroup\<close> is the last element of the result, changed in place.\<close>

fun consolidate_loop :: "IRangedGroup list \<Rightarrow> IRangedGroup list \<Rightarrow> IRangedGroup option \<Rightarrow> IRangedGroup list" where
  "consolidate_loop [] res previousGroup = res"
| "consolidate_loop (g # gs) res previousGroup =
     (let fresh = mk_group (range_start (group_range g)) (range_end (group_range g)) (group_size g)
      in case previousGroup of
           None \<Rightarrow> consolidate_loop gs (res @ [fresh]) (Some fresh)
         | Some p \<Rightarrow>
             if group_size g = group_size p then
               let p' = p\<lparr>group_range := (group_range p)\<lparr>range_end := range_end (group_range g)\<rparr>\<rparr>
               in consolidate_loop gs (butlast res @ [p']) (Some p')
             else consolidate_loop gs (res @ [fresh]) (Some fresh))"

definition consolidate :: "IRangedGroup list \<Rightarrow> IRangedGroup list" where
  "consolidate groups = consolidate_loop groups [] None"

definition concat_groups :: "IRangedGroup list list \<Rightarrow> IRangedGroup list" where
  "concat_groups groups = consolidate (foldl (@) [] groups)"

section \<open>RangeMap\<close>

record RangeMap =
  rm_groups :: "IRangedGroup list"
  rm_size :: number
  rm_paddingTop :: number

definition new_RangeMap :: "number option \<Rightarrow> RangeMap" where
  "new_RangeMap topPadding =
     (let p = (case topPadding of None \<Rightarrow> 0 | Some p \<Rightarrow> p) in \<lparr>rm_groups = [], rm_size = p, rm_paddingTop = p\<rparr>)"

definition RangeMap_set_paddingTop :: "number \<Rightarrow> RangeMap \<Rightarrow> RangeMap" where
  "RangeMap_set_paddingTop p this =
     this\<lparr>rm_size := rm_size this + p - rm_paddingTop this, rm_paddingTop := p\<rparr>"

definition group_total :: "number \<Rightarrow> IRangedGroup \<Rightarrow> number" where
  "group_total t g = t + group_size g * (range_end (group_range g) - range_start (group_range g))"

definition RangeMap_splice :: "number \<Rightarrow> number \<Rightarrow> number list \<Rightarrow> RangeMap \<Rightarrow> RangeMap" where
  "RangeMap_splice index deleteCount items this =
     (let diff = int (length items) - deleteCount;
          before = groupIntersect 0 (Some index) (rm_groups this);
          after = map (\<lambda>g. \<lparr>group_range = shift (group_range g) diff, group_size = group_size g\<rparr>)
                    (groupIntersect (index + deleteCount) None (rm_groups this));
          middle = map (\<lambda>(item, i). mk_group (index + int i) (index + int i + 1) item) (zip items [0..<length items]);
          groups = concat_groups [before, middle, after]
      in this\<lparr>rm_groups := groups, rm_size := rm_paddingTop this + foldl group_total 0 groups\<rparr>)"

definition RangeMap_count :: "RangeMap \<Rightarrow> number" where
  "RangeMap_count this = (if rm_groups this = [] then 0 else range_end (group_range (last (rm_groups this))))"

text \<open>\<open>Math.floor\<close> of a quotient; the loop divides only by a height that is not 0.\<close>

fun indexAt_loop :: "number \<Rightarrow> number \<Rightarrow> number \<Rightarrow> IRangedGroup list \<Rightarrow> number" where
  "indexAt_loop position index z [] = index"
| "indexAt_loop position index z (g # gs) =
     (let n = range_end (group_range g) - range_start (group_range g);
          newSize = z + n * group_size g
      in if position < newSize then index + (position - z) div group_size g
         else indexAt_loop position (index + n) newSize gs)"

definition RangeMap_indexAt :: "number \<Rightarrow> RangeMap \<Rightarrow> number" where
  "RangeMap_indexAt position this =
     (if position < 0 then - 1
      else if position < rm_paddingTop this then 0
      else indexAt_loop position 0 (rm_paddingTop this) (rm_groups this))"

definition RangeMap_indexAfter :: "number \<Rightarrow> RangeMap \<Rightarrow> number" where
  "RangeMap_indexAfter position this = min (RangeMap_indexAt position this + 1) (RangeMap_count this)"

fun positionAt_loop :: "number \<Rightarrow> number \<Rightarrow> number \<Rightarrow> number \<Rightarrow> IRangedGroup list \<Rightarrow> number" where
  "positionAt_loop padding index position n [] = - 1"
| "positionAt_loop padding index position n (g # gs) =
     (let groupCount = range_end (group_range g) - range_start (group_range g);
          newCount = n + groupCount
      in if index < newCount then padding + position + (index - n) * group_size g
         else positionAt_loop padding index (position + groupCount * group_size g) newCount gs)"

definition RangeMap_positionAt :: "number \<Rightarrow> RangeMap \<Rightarrow> number" where
  "RangeMap_positionAt index this =
     (if index < 0 then - 1 else positionAt_loop (rm_paddingTop this) index 0 0 (rm_groups this))"

section \<open>The heights of the items\<close>

text \<open>The groups cover consecutive items, each at least one, from item \<open>s\<close> on.\<close>

fun chained :: "number \<Rightarrow> IRangedGroup list \<Rightarrow> bool" where
  "chained s [] = True"
| "chained s (g # gs) \<longleftrightarrow>
     range_start (group_range g) = s \<and> s < range_end (group_range g) \<and> chained (range_end (group_range g)) gs"

definition group_count :: "IRangedGroup \<Rightarrow> nat" where
  "group_count g = nat (range_end (group_range g) - range_start (group_range g))"

definition expand :: "IRangedGroup list \<Rightarrow> number list" where
  "expand gs = concat (map (\<lambda>g. replicate (group_count g) (group_size g)) gs)"

definition RangeMap_holds :: "number list \<Rightarrow> RangeMap \<Rightarrow> bool" where
  "RangeMap_holds xs this \<longleftrightarrow>
     chained 0 (rm_groups this) \<and> expand (rm_groups this) = xs \<and>
     successively (\<lambda>g h. group_size g \<noteq> group_size h) (rm_groups this) \<and>
     rm_size this = rm_paddingTop this + sum_list xs"

lemma expand_simps [simp]:
  "expand [] = []" "expand (g # gs) = replicate (group_count g) (group_size g) @ expand gs" "expand (gs @ hs) = expand gs @ expand hs"
  by (simp_all add: expand_def)

lemma mk_sel [simp]:
  "range_start (mk_range s e) = s" "range_end (mk_range s e) = e"
  "group_range (mk_group s e z) = mk_range s e" "group_size (mk_group s e z) = z"
  by (simp_all add: mk_range_def mk_group_def)

lemma chained_append: "chained s (xs @ ys) \<longleftrightarrow> chained s xs \<and> chained (s + int (length (expand xs))) ys"
proof (induction xs arbitrary: s)
  case (Cons g xs)
  show ?case
    by (cases "range_start (group_range g) = s \<and> s < range_end (group_range g)") (auto simp add: Cons group_count_def simp del: expand_simps(3))
qed simp

lemma groupIntersect_acc: "groupIntersect_loop a b gs res = res @ groupIntersect_loop a b gs []"
proof (induction gs arbitrary: res)
  case (Cons g gs)
  show ?case by (simp add: Let_def Cons [of res] Cons [of "res @ [x]" for x] Cons [of "[x]" for x])
qed simp

lemma groupIntersect_Cons:
  "groupIntersect a b (r # gs) =
     (if a \<ge> range_end (group_range r) then groupIntersect a b gs
      else if (case b of None \<Rightarrow> False | Some e \<Rightarrow> e < range_start (group_range r)) then []
      else let x = Range_intersect_open a b (group_range r)
           in if BaseRange_isEmpty x then groupIntersect a b gs
              else \<lparr>group_range = x, group_size = group_size r\<rparr> # groupIntersect a b gs)"
  unfolding groupIntersect_def by (simp add: Let_def groupIntersect_acc [of a b gs "[x]" for x])

lemma groupIntersect_before:
  "chained s gs \<Longrightarrow> 0 \<le> s \<Longrightarrow>
     chained s (groupIntersect 0 (Some i) gs) \<and> expand (groupIntersect 0 (Some i) gs) = take (nat (i - s)) (expand gs)"
proof (induction gs arbitrary: s)
  case (Cons g gs)
  have g: "range_start (group_range g) = s" "s < range_end (group_range g)" "chained (range_end (group_range g)) gs"
    using Cons.prems(1) by simp_all
  note IH = Cons.IH [OF g(3)]
  show ?case
  proof (cases "i \<le> s")
    case True
    then have "groupIntersect 0 (Some i) gs = []"
      using g Cons.prems(2) by (cases gs) (auto simp: groupIntersect_Cons, simp add: groupIntersect_def)
    then show ?thesis using True g Cons.prems(2)
      by (auto simp: groupIntersect_Cons Range_intersect_open_def upper_le_def BaseRange_isEmpty_def Let_def)
  next
    case False
    define e where "e = min i (range_end (group_range g))"
    have "groupIntersect 0 (Some i) (g # gs) = mk_group s e (group_size g) # groupIntersect 0 (Some i) gs"
      using False g Cons.prems(2)
      by (auto simp: groupIntersect_Cons Range_intersect_open_def upper_le_def upper_min_def BaseRange_isEmpty_def Let_def mk_group_def e_def max_def)
    moreover have "take (nat (i - s)) (expand (g # gs)) =
        replicate (nat (e - s)) (group_size g) @ take (nat (i - range_end (group_range g))) (expand gs)"
      using False g by (auto simp: group_count_def e_def min_def nat_diff_distrib [symmetric])
    moreover have "e = range_end (group_range g) \<or> groupIntersect 0 (Some i) gs = []"
      using g(3) IH Cons.prems(2) g(2)
      by (cases gs) (auto simp: e_def groupIntersect_Cons min_def Range_intersect_open_def upper_le_def BaseRange_isEmpty_def Let_def groupIntersect_def)
    ultimately show ?thesis using False g IH Cons.prems(2) by (auto simp: e_def group_count_def)
  qed
qed (simp add: groupIntersect_def)

lemma groupIntersect_after:
  "chained s gs \<Longrightarrow>
     chained (max k s) (groupIntersect k None gs) \<and> expand (groupIntersect k None gs) = drop (nat (k - s)) (expand gs)"
proof (induction gs arbitrary: s)
  case (Cons g gs)
  have g: "range_start (group_range g) = s" "s < range_end (group_range g)" "chained (range_end (group_range g)) gs"
    using Cons.prems by simp_all
  note IH = Cons.IH [OF g(3)]
  show ?case
  proof (cases "range_end (group_range g) \<le> k")
    case True
    have "nat (k - s) = group_count g + nat (k - range_end (group_range g))" using True g by (simp add: group_count_def)
    then show ?thesis using True g IH by (simp add: groupIntersect_Cons max_def split: if_splits)
  next
    case False
    have "groupIntersect k None (g # gs) = mk_group (max k s) (range_end (group_range g)) (group_size g) # groupIntersect k None gs"
      using False g by (auto simp: groupIntersect_Cons Range_intersect_open_def upper_le_def upper_min_def BaseRange_isEmpty_def Let_def mk_group_def)
    then show ?thesis using False g IH by (auto simp: group_count_def max_def)
  qed
qed (simp add: groupIntersect_def)

lemma chained_shift:
  "chained s gs \<Longrightarrow> chained (s + d) (map (\<lambda>g. \<lparr>group_range = shift (group_range g) d, group_size = group_size g\<rparr>) gs) \<and>
     expand (map (\<lambda>g. \<lparr>group_range = shift (group_range g) d, group_size = group_size g\<rparr>) gs) = expand gs"
  by (induction gs arbitrary: s) (auto simp: shift_def group_count_def)

lemma chained_items:
  "chained (index + int k) (map (\<lambda>(item, i). mk_group (index + int i) (index + int i + 1) item) (zip items [k..<k + length items])) \<and>
     expand (map (\<lambda>(item, i). mk_group (index + int i) (index + int i + 1) item) (zip items [k..<k + length items])) = items"
proof (induction items arbitrary: k)
  case (Cons x items)
  then show ?case using Cons [of "Suc k"] by (simp add: upt_conv_Cons group_count_def ac_simps del: upt_Suc)
qed simp

lemma consolidate_loop_correct:
  assumes "chained s (res @ gs)" "successively (\<lambda>g h. group_size g \<noteq> group_size h) res"
    "previousGroup = (if res = [] then None else Some (last res))"
  shows "chained s (consolidate_loop gs res previousGroup) \<and> expand (consolidate_loop gs res previousGroup) = expand (res @ gs) \<and>
     successively (\<lambda>g h. group_size g \<noteq> group_size h) (consolidate_loop gs res previousGroup)"
  using assms
proof (induction gs arbitrary: res previousGroup)
  case Nil
  then show ?case by simp
next
  case (Cons g gs)
  define fresh where "fresh = mk_group (range_start (group_range g)) (range_end (group_range g)) (group_size g)"
  have fresh: "chained s (res @ fresh # gs)" "expand (res @ fresh # gs) = expand (res @ g # gs)" "group_size fresh = group_size g"
    using Cons.prems(1) by (simp_all add: chained_append fresh_def group_count_def)
  consider (new) "previousGroup = None \<or> (\<exists>p. previousGroup = Some p \<and> group_size g \<noteq> group_size p)"
    | (merge) p where "previousGroup = Some p" "group_size g = group_size p" by (cases previousGroup) auto
  then show ?case
  proof cases
    case new
    then have eq: "consolidate_loop (g # gs) res previousGroup = consolidate_loop gs (res @ [fresh]) (Some fresh)"
      by (cases previousGroup) (auto simp: Let_def fresh_def)
    have "successively (\<lambda>g h. group_size g \<noteq> group_size h) (res @ [fresh])"
      using Cons.prems(2,3) new fresh(3) by (auto simp: successively_append_iff split: if_splits)
    then show ?thesis using Cons.IH [of "res @ [fresh]" "Some fresh"] fresh unfolding eq by simp
  next
    case merge
    then obtain res' where res: "res = res' @ [p]" using Cons.prems(3) by (cases res rule: rev_cases) auto
    define p' where "p' = p\<lparr>group_range := (group_range p)\<lparr>range_end := range_end (group_range g)\<rparr>\<rparr>"
    have eq: "consolidate_loop (g # gs) res previousGroup = consolidate_loop gs (res' @ [p']) (Some p')"
      using merge res by (simp add: Let_def p'_def)
    have "chained s ((res' @ [p']) @ gs)" "expand ((res' @ [p']) @ gs) = expand (res @ g # gs)"
      using Cons.prems(1) res merge(2) by (auto simp: chained_append p'_def group_count_def replicate_add [symmetric] nat_add_distrib [symmetric])
    moreover have "successively (\<lambda>g h. group_size g \<noteq> group_size h) (res' @ [p'])"
      using Cons.prems(2) res by (auto simp: successively_append_iff p'_def)
    ultimately show ?thesis using Cons.IH [of "res' @ [p']" "Some p'"] unfolding eq by simp
  qed
qed

lemma foldl_group_total: "chained s gs \<Longrightarrow> foldl group_total t gs = t + sum_list (expand gs)"
  by (induction gs arbitrary: s t) (auto simp: group_total_def group_count_def sum_list_replicate)

lemma RangeMap_splice_holds:
  assumes "RangeMap_holds xs this" "i \<le> length xs"
  shows "RangeMap_holds (arr_splice xs i d items) (RangeMap_splice (int i) (int d) items this)"
proof -
  define before middle after where "before = groupIntersect 0 (Some (int i)) (rm_groups this)"
    and "middle = map (\<lambda>(item, k). mk_group (int i + int k) (int i + int k + 1) item) (zip items [0..<length items])"
    and "after = map (\<lambda>g. \<lparr>group_range = shift (group_range g) (int (length items) - int d), group_size = group_size g\<rparr>)
                   (groupIntersect (int i + int d) None (rm_groups this))"
  have c: "chained 0 (rm_groups this)" "expand (rm_groups this) = xs" using assms(1) by (simp_all add: RangeMap_holds_def)
  have before: "chained 0 before" "expand before = take i xs"
    using groupIntersect_before [OF c(1), of "int i"] c(2) by (simp_all add: before_def)
  have middle: "chained (int i) middle" "expand middle = items"
    using chained_items [of "int i" 0 items] by (simp_all add: middle_def)
  have drop: "chained (int i + int d) (groupIntersect (int i + int d) None (rm_groups this))"
    "expand (groupIntersect (int i + int d) None (rm_groups this)) = drop (i + d) xs"
    using groupIntersect_after [OF c(1), of "int i + int d"] c(2) by (simp_all add: nat_add_distrib)
  have after: "chained (int i + int (length items)) after" "expand after = drop (i + d) xs"
    using chained_shift [OF drop(1), of "int (length items) - int d"] drop(2) by (simp_all add: after_def)
  have all: "chained 0 (before @ middle @ after)" "expand (before @ middle @ after) = arr_splice xs i d items"
    using before middle after assms(2) by (simp_all add: chained_append arr_splice_def)
  define groups where "groups = consolidate (before @ middle @ after)"
  have groups: "chained 0 groups" "expand groups = arr_splice xs i d items"
    "successively (\<lambda>g h. group_size g \<noteq> group_size h) groups"
    using consolidate_loop_correct [of 0 "[]" "before @ middle @ after" None] all by (simp_all add: groups_def consolidate_def)
  have "RangeMap_splice (int i) (int d) items this =
      this\<lparr>rm_groups := groups, rm_size := rm_paddingTop this + foldl group_total 0 groups\<rparr>"
    by (simp add: RangeMap_splice_def Let_def concat_groups_def groups_def before_def middle_def after_def)
  then show ?thesis using groups foldl_group_total [OF groups(1), of 0] by (simp add: RangeMap_holds_def)
qed

lemma RangeMap_count_length:
  assumes "RangeMap_holds xs this"
  shows "RangeMap_count this = int (length xs)"
proof -
  have "chained s gs \<Longrightarrow> gs \<noteq> [] \<Longrightarrow> range_end (group_range (last gs)) = s + int (length (expand gs))" for s gs
  proof (induction gs arbitrary: s)
    case (Cons g gs)
    then show ?case by (cases "gs = []") (auto simp: group_count_def)
  qed simp
  then show ?thesis using assms by (fastforce simp: RangeMap_count_def RangeMap_holds_def)
qed

lemma sum_take_replicate: "k \<le> n \<Longrightarrow> sum_list (take k (replicate n c @ ys)) = int k * (c :: number)"
  by (simp add: sum_list_replicate)

lemma positionAt_loop_correct:
  assumes "chained s gs" "n \<le> index"
  shows "positionAt_loop padding index position n gs =
     (if nat (index - n) < length (expand gs) then padding + position + sum_list (take (nat (index - n)) (expand gs)) else - 1)"
  using assms
proof (induction gs arbitrary: s n position)
  case (Cons g gs)
  define m where "m = range_end (group_range g) - range_start (group_range g)"
  have m: "group_count g = nat m" "0 < m" using Cons.prems(1) by (simp_all add: group_count_def m_def)
  show ?case
  proof (cases "index < n + m")
    case True
    then have "nat (index - n) \<le> nat m" "nat (index - n) < nat m + length (expand gs)" using Cons.prems(2) by auto
    then show ?thesis using True Cons.prems(2) m
      by (simp add: Let_def m_def [symmetric] sum_list_replicate)
  next
    case False
    then have k: "nat (index - n) = nat m + nat (index - (n + m))" using m by simp
    have "positionAt_loop padding index position n (g # gs) =
        positionAt_loop padding index (position + m * group_size g) (n + m) gs"
      using False by (simp add: Let_def m_def [symmetric])
    then show ?thesis using False m Cons.IH [of "range_end (group_range g)" "n + m" "position + m * group_size g"] Cons.prems(1)
      unfolding k by (simp add: sum_list_replicate)
  qed
qed simp

lemma indexAt_loop_correct:
  assumes "chained s gs" "\<forall>x \<in> set (expand gs). 0 \<le> x" "z \<le> position"
  shows "\<exists>k \<le> length (expand gs). indexAt_loop position index z gs = index + int k \<and> z + sum_list (take k (expand gs)) \<le> position \<and>
     (k < length (expand gs) \<longrightarrow> position < z + sum_list (take (Suc k) (expand gs)))"
  using assms
proof (induction gs arbitrary: s index z)
  case (Cons g gs)
  define m where "m = range_end (group_range g) - range_start (group_range g)"
  have m: "group_count g = nat m" "0 < m" using Cons.prems(1) by (simp_all add: group_count_def m_def)
  define c where "c = group_size g"
  have c: "0 \<le> c" using Cons.prems(2) m by (simp add: c_def)
  show ?case
  proof (cases "position < z + m * c")
    case True
    have "0 < c" using True Cons.prems(3) c m(2) by (cases "c = 0") auto
    define k where "k = nat ((position - z) div c)"
    have "0 \<le> (position - z) div c" using Cons.prems(3) \<open>0 < c\<close> by (simp add: pos_imp_zdiv_nonneg_iff)
    then have k: "int k = (position - z) div c" by (simp add: k_def)
    have "int k * c \<le> position - z" "position - z < (int k + 1) * c"
      using div_mult_mod_eq [of "position - z" c] pos_mod_sign [OF \<open>0 < c\<close>, of "position - z"]
        pos_mod_bound [OF \<open>0 < c\<close>, of "position - z"]
      unfolding k distrib_right mult_1 by linarith+
    moreover have "int k < m"
      using True \<open>int k * c \<le> position - z\<close> \<open>0 < c\<close> by (smt (verit) mult_right_mono)
    ultimately show ?thesis
      using True m k by (intro exI [of _ k]) (simp add: Let_def m_def [symmetric] c_def [symmetric] sum_list_replicate nat_less_iff distrib_right)
  next
    case False
    have "\<exists>k \<le> length (expand gs). indexAt_loop position (index + m) (z + m * c) gs = index + m + int k \<and>
        z + m * c + sum_list (take k (expand gs)) \<le> position \<and>
        (k < length (expand gs) \<longrightarrow> position < z + m * c + sum_list (take (Suc k) (expand gs)))"
      using False Cons.prems by (intro Cons.IH) auto
    then obtain k where "k \<le> length (expand gs)" "indexAt_loop position (index + m) (z + m * c) gs = index + m + int k"
        "z + m * c + sum_list (take k (expand gs)) \<le> position"
        "k < length (expand gs) \<longrightarrow> position < z + m * c + sum_list (take (Suc k) (expand gs))" by blast
    then show ?thesis using False m
      by (intro exI [of _ "nat m + k"]) (simp add: Let_def m_def [symmetric] c_def [symmetric] sum_list_replicate Suc_diff_le add.assoc)
  qed
qed simp

section \<open>The two ranges of range.ts\<close>

definition range_values :: "IRange \<Rightarrow> number set" where
  "range_values r = {range_start r ..< range_end r}"

lemma intersect_values: "range_values (BaseRange_intersect one other) = range_values one \<inter> range_values other"
  by (auto simp: range_values_def BaseRange_intersect_def Range_intersect_open_def upper_le_def upper_min_def Let_def)

lemma isEmpty_values: "BaseRange_isEmpty r \<longleftrightarrow> range_values r = {}"
  by (auto simp: BaseRange_isEmpty_def range_values_def)

section \<open>Properties\<close>

text \<open>
  C39. A \<open>RangeMap\<close> is the list of the heights of its items. Splicing it splices the
  list, at every index of the list and with a count that may reach past its end; the
  groups stay maximal and contiguous, and \<open>size\<close> and \<open>count\<close> stay the padding plus the sum of the
  heights and the number of items. Changing the padding keeps the items.
\<close>

theorem RangeMap_splice_refines_list:
  fixes d :: nat and items :: "number list"
  assumes "RangeMap_holds xs this" "i \<le> length xs"
  defines "spliced \<equiv> RangeMap_splice (int i) (int d) items this"
  shows "RangeMap_holds (take i xs @ items @ drop (i + d) xs) spliced \<and>
         rm_size spliced = rm_paddingTop this + sum_list (take i xs @ items @ drop (i + d) xs) \<and>
         RangeMap_count spliced = int (length (take i xs @ items @ drop (i + d) xs)) \<and>
         RangeMap_holds xs (RangeMap_set_paddingTop p this) \<and> RangeMap_holds [] (new_RangeMap q)"
proof -
  have h: "RangeMap_holds (take i xs @ items @ drop (i + d) xs) spliced"
    using RangeMap_splice_holds [OF assms(1,2)] by (simp add: spliced_def arr_splice_def)
  moreover have "rm_paddingTop spliced = rm_paddingTop this" by (simp add: spliced_def RangeMap_splice_def Let_def)
  moreover have "RangeMap_holds xs (RangeMap_set_paddingTop p this)" "RangeMap_holds [] (new_RangeMap q)"
    using assms(1) by (simp_all add: RangeMap_holds_def RangeMap_set_paddingTop_def new_RangeMap_def Let_def)
  ultimately show ?thesis using RangeMap_count_length [OF h] by (simp add: RangeMap_holds_def)
qed

theorem RangeMap_splice_refines_list_witness:
  "RangeMap_holds [5, 7, 5, 5] (RangeMap_splice 1 0 [7] (RangeMap_splice 0 0 [5, 5, 5] (new_RangeMap (Some 3)))) \<and>
   rm_size (RangeMap_splice 1 0 [7] (RangeMap_splice 0 0 [5, 5, 5] (new_RangeMap (Some 3)))) = 25"
proof -
  have "RangeMap_holds [] (new_RangeMap (Some 3))" by (simp add: RangeMap_holds_def new_RangeMap_def)
  then have "RangeMap_holds [5, 5, 5] (RangeMap_splice 0 0 [5, 5, 5] (new_RangeMap (Some 3)))"
    using RangeMap_splice_refines_list [of "[]" "new_RangeMap (Some 3)" 0 "[5, 5, 5]" 0] by simp
  moreover have "rm_paddingTop (RangeMap_splice 0 0 [5, 5, 5] (new_RangeMap (Some 3))) = 3"
    by (simp add: RangeMap_splice_def new_RangeMap_def Let_def)
  ultimately show ?thesis
    using RangeMap_splice_refines_list [of "[5, 5, 5]" "RangeMap_splice 0 0 [5, 5, 5] (new_RangeMap (Some 3))" 1 "[7]" 0] by simp
qed

text \<open>
  Positions and indices of a \<open>RangeMap\<close>. \<open>positionAt\<close> is the padding plus the
  heights of the items before, and \<open>-1\<close> outside the list; for heights that are not negative, a
  position below the padding belongs to item 0 and every other one to the item whose stretch contains
  it, or to the index behind the last item; \<open>indexAfter\<close> is the next index within the list.
\<close>

theorem RangeMap_positions_and_indices:
  assumes "RangeMap_holds xs this" "\<forall>x \<in> set xs. 0 \<le> x" "0 \<le> rm_paddingTop this"
  shows "(\<forall>i < length xs. RangeMap_positionAt (int i) this = rm_paddingTop this + sum_list (take i xs)) \<and>
         (\<forall>i. i < 0 \<or> int (length xs) \<le> i \<longrightarrow> RangeMap_positionAt i this = - 1) \<and>
         (\<forall>p. 0 \<le> p \<and> p < rm_paddingTop this \<longrightarrow> RangeMap_indexAt p this = 0) \<and>
         (\<forall>p \<ge> rm_paddingTop this. \<exists>k \<le> length xs. RangeMap_indexAt p this = int k \<and>
            rm_paddingTop this + sum_list (take k xs) \<le> p \<and>
            (k < length xs \<longrightarrow> p < rm_paddingTop this + sum_list (take (Suc k) xs)) \<and>
            RangeMap_indexAfter p this = int (min (Suc k) (length xs)))"
proof (intro conjI)
  have c: "chained 0 (rm_groups this)" "expand (rm_groups this) = xs" using assms(1) by (simp_all add: RangeMap_holds_def)
  show "\<forall>i < length xs. RangeMap_positionAt (int i) this = rm_paddingTop this + sum_list (take i xs)"
    using positionAt_loop_correct [OF c(1)] c(2) by (simp add: RangeMap_positionAt_def)
  show "\<forall>i. i < 0 \<or> int (length xs) \<le> i \<longrightarrow> RangeMap_positionAt i this = - 1"
    using positionAt_loop_correct [OF c(1)] c(2) by (auto simp: RangeMap_positionAt_def)
  show "\<forall>p. 0 \<le> p \<and> p < rm_paddingTop this \<longrightarrow> RangeMap_indexAt p this = 0" by (simp add: RangeMap_indexAt_def)
  show "\<forall>p \<ge> rm_paddingTop this. \<exists>k \<le> length xs. RangeMap_indexAt p this = int k \<and>
            rm_paddingTop this + sum_list (take k xs) \<le> p \<and>
            (k < length xs \<longrightarrow> p < rm_paddingTop this + sum_list (take (Suc k) xs)) \<and>
            RangeMap_indexAfter p this = int (min (Suc k) (length xs))"
    using indexAt_loop_correct [OF c(1), of "rm_paddingTop this" _ 0] c(2) assms(2,3) RangeMap_count_length [OF assms(1)]
    by (fastforce simp: RangeMap_indexAfter_def RangeMap_indexAt_def)
qed

theorem RangeMap_positions_and_indices_witness:
  "RangeMap_positionAt 2 (RangeMap_splice 0 0 [5, 0, 7] (new_RangeMap (Some 3))) = 8 \<and>
   (\<exists>k \<le> 3. RangeMap_indexAt 8 (RangeMap_splice 0 0 [5, 0, 7] (new_RangeMap (Some 3))) = int k \<and>
      3 + sum_list (take k [5, 0, 7]) \<le> (8 :: number))"
proof -
  let ?m = "RangeMap_splice 0 0 [5, 0, 7] (new_RangeMap (Some 3))"
  have "RangeMap_holds [] (new_RangeMap (Some 3))" by (simp add: RangeMap_holds_def new_RangeMap_def)
  then have "RangeMap_holds [5, 0, 7] ?m" using RangeMap_splice_holds [of "[]" "new_RangeMap (Some 3)" 0 0 "[5, 0, 7]"]
    by (simp add: arr_splice_def)
  moreover have "rm_paddingTop ?m = 3" by (simp add: RangeMap_splice_def new_RangeMap_def Let_def)
  moreover have "\<forall>x \<in> set [5, 0, 7 :: number]. 0 \<le> x" by simp
  ultimately have "(\<forall>i < length [5, 0, 7 :: number]. RangeMap_positionAt (int i) ?m = 3 + sum_list (take i [5, 0, 7])) \<and>
      (\<forall>p \<ge> 3. \<exists>k \<le> length [5, 0, 7 :: number]. RangeMap_indexAt p ?m = int k \<and> 3 + sum_list (take k [5, 0, 7]) \<le> p)"
    using RangeMap_positions_and_indices [of "[5, 0, 7]" ?m] by fastforce
  then show ?thesis by (auto dest: spec [of _ "2 :: nat"] spec [of _ "8 :: number"])
qed

text \<open>
  The ranges of \<open>range.ts\<close>: the intersection holds exactly the common values,
  \<open>intersects\<close> says whether there are any, and the ranges of the relative complement hold exactly
  the values of the first range outside the second, when the second is not reversed.
\<close>

theorem BaseRange_set_operations:
  "range_values (BaseRange_intersect one other) = range_values one \<inter> range_values other \<and>
   (BaseRange_intersects one other \<longleftrightarrow> range_values one \<inter> range_values other \<noteq> {}) \<and>
   (range_start other \<le> range_end other \<longrightarrow>
      \<Union> (range_values ` set (BaseRange_relativeComplement one other)) = range_values one - range_values other)"
proof -
  have "\<Union> (range_values ` set (BaseRange_relativeComplement one other)) = range_values one - range_values other"
    if "range_start other \<le> range_end other"
    using that by (auto simp: BaseRange_relativeComplement_def BaseRange_isEmpty_def range_values_def Let_def)
  then show ?thesis by (simp add: BaseRange_intersects_def isEmpty_values intersect_values)
qed

theorem BaseRange_set_operations_witness:
  "\<Union> (range_values ` set (BaseRange_relativeComplement (mk_range 0 9) (mk_range 3 5))) = {0..<3} \<union> {5..<9}"
proof -
  have "{0..<9} - {3..<5} = {0..<3} \<union> {5..<9 :: number}" by auto
  then show ?thesis using BaseRange_set_operations [of "mk_range 0 9" "mk_range 3 5"] by (simp add: range_values_def)
qed

end
