(* ===== verification/String_Builder.thy ===== *)
theory String_Builder
  imports Byte_Buffer
begin

text \<open>
  The class \<open>StringBuilder\<close> of \<open>src/vs/editor/common/core/stringBuilder.ts\<close>: strings are
  built in a buffer of fixed capacity, which the platform decodes whenever it is full. It
  is proved that no surrogate pair is torn apart by that, so the built string is the
  concatenation of what was appended.
\<close>

record StringBuilder =
  sb_capacity :: number
  sb_buffer :: jsstring
  sb_completedStrings :: "jsstring list option"
  sb_bufferLength :: number

definition new_StringBuilder :: "number \<Rightarrow> StringBuilder result" where
  "new_StringBuilder capacity =
     (let c = toInt32 capacity
      in if c < 0 then Inl RangeError
         else Inr \<lparr>sb_capacity = c, sb_buffer = replicate (nat c) 0, sb_completedStrings = None, sb_bufferLength = 0\<rparr>)"

definition StringBuilder_reset :: "StringBuilder \<Rightarrow> StringBuilder" where
  "StringBuilder_reset this = this\<lparr>sb_completedStrings := None, sb_bufferLength := 0\<rparr>"

definition StringBuilder_buildBuffer :: "(jsstring \<Rightarrow> jsstring) \<Rightarrow> StringBuilder \<Rightarrow> jsstring result" where
  "StringBuilder_buildBuffer decode this =
     (if sb_bufferLength this = 0 then Inr []
      else if sb_bufferLength this > int (length (sb_buffer this)) then Inl RangeError
      else Inr (decode (take (nat (sb_bufferLength this)) (sb_buffer this))))"

definition StringBuilder_flushBuffer :: "(jsstring \<Rightarrow> jsstring) \<Rightarrow> StringBuilder \<Rightarrow> StringBuilder result" where
  "StringBuilder_flushBuffer decode this =
     result_map (\<lambda>bufferString. this\<lparr>sb_bufferLength := 0,
         sb_completedStrings := Some (case sb_completedStrings this of None \<Rightarrow> [bufferString] | Some ss \<Rightarrow> ss @ [bufferString])\<rparr>)
       (StringBuilder_buildBuffer decode this)"

definition StringBuilder_build :: "(jsstring \<Rightarrow> jsstring) \<Rightarrow> StringBuilder \<Rightarrow> (jsstring \<times> StringBuilder) result" where
  "StringBuilder_build decode this =
     (case sb_completedStrings this of
        Some _ \<Rightarrow> result_map (\<lambda>s. (js_join [] (the (sb_completedStrings s)), s)) (StringBuilder_flushBuffer decode this)
      | None \<Rightarrow> result_map (\<lambda>str. (str, this)) (StringBuilder_buildBuffer decode this))"

definition sb_store :: "16 word \<Rightarrow> StringBuilder \<Rightarrow> StringBuilder" where
  "sb_store c this =
     this\<lparr>sb_buffer := ta_write (sb_buffer this) (sb_bufferLength this) c, sb_bufferLength := sb_bufferLength this + 1\<rparr>"

definition StringBuilder_appendCharCode ::
  "(jsstring \<Rightarrow> jsstring) \<Rightarrow> 16 word \<Rightarrow> StringBuilder \<Rightarrow> StringBuilder result" where
  "StringBuilder_appendCharCode decode charCode this =
     (let remainingSpace = sb_capacity this - sb_bufferLength this
      in result_map (sb_store charCode)
           (if remainingSpace \<le> 1 \<and> (remainingSpace = 0 \<or> isHighSurrogate charCode)
            then StringBuilder_flushBuffer decode this else Inr this))"

definition StringBuilder_appendASCIICharCode ::
  "(jsstring \<Rightarrow> jsstring) \<Rightarrow> 16 word \<Rightarrow> StringBuilder \<Rightarrow> StringBuilder result" where
  "StringBuilder_appendASCIICharCode decode charCode this =
     result_map (sb_store charCode)
       (if sb_bufferLength this = sb_capacity this then StringBuilder_flushBuffer decode this else Inr this)"

definition StringBuilder_appendString ::
  "(jsstring \<Rightarrow> jsstring) \<Rightarrow> jsstring \<Rightarrow> StringBuilder \<Rightarrow> StringBuilder result" where
  "StringBuilder_appendString decode str this =
     (if sb_bufferLength this + int (length str) \<ge> sb_capacity this
      then result_map (\<lambda>s. s\<lparr>sb_completedStrings := Some (the (sb_completedStrings s) @ [str])\<rparr>)
             (StringBuilder_flushBuffer decode this)
      else Inr (fold sb_store str this))"

section \<open>Sequences of calls\<close>

datatype sb_call = CharCode "16 word" | ASCIICharCode "16 word" | AppendString jsstring | Reset

fun sb_step :: "(jsstring \<Rightarrow> jsstring) \<Rightarrow> sb_call \<Rightarrow> StringBuilder \<Rightarrow> StringBuilder result" where
  "sb_step decode (CharCode c) this = StringBuilder_appendCharCode decode c this"
| "sb_step decode (ASCIICharCode c) this = StringBuilder_appendASCIICharCode decode c this"
| "sb_step decode (AppendString s) this = StringBuilder_appendString decode s this"
| "sb_step decode Reset this = Inr (StringBuilder_reset this)"

text \<open>The text a sequence of calls asks for, and what makes a sequence reasonable: surrogates
  come in pairs of consecutive calls, strings are well-formed, and there is no byte-order mark.\<close>

fun call_text :: "jsstring \<Rightarrow> sb_call list \<Rightarrow> jsstring" where
  "call_text t [] = t"
| "call_text t (CharCode c # cs) = call_text (t @ [c]) cs"
| "call_text t (ASCIICharCode c # cs) = call_text (t @ [c]) cs"
| "call_text t (AppendString s # cs) = call_text (t @ s) cs"
| "call_text t (Reset # cs) = call_text [] cs"

definition is_bom :: "16 word \<Rightarrow> bool" where
  "is_bom c \<longleftrightarrow> c = 0xFEFF \<or> c = 0xFFFE"

fun calls_ok :: "bool \<Rightarrow> sb_call list \<Rightarrow> bool" where
  "calls_ok pending [] \<longleftrightarrow> \<not> pending"
| "calls_ok pending (CharCode c # cs) \<longleftrightarrow>
     \<not> is_bom c \<and> (if pending then isLowSurrogate c \<and> calls_ok False cs
                   else \<not> isLowSurrogate c \<and> calls_ok (isHighSurrogate c) cs)"
| "calls_ok pending (ASCIICharCode c # cs) \<longleftrightarrow> \<not> pending \<and> c < 256 \<and> calls_ok False cs"
| "calls_ok pending (AppendString s # cs) \<longleftrightarrow>
     \<not> pending \<and> well_formed_utf16 s \<and> (\<forall>c \<in> set s. \<not> is_bom c) \<and> calls_ok False cs"
| "calls_ok pending (Reset # cs) \<longleftrightarrow> calls_ok False cs"

section \<open>The invariant\<close>

definition sb_content :: "StringBuilder \<Rightarrow> jsstring" where
  "sb_content this = take (nat (sb_bufferLength this)) (sb_buffer this)"

definition sb_ok :: "bool \<Rightarrow> jsstring \<Rightarrow> StringBuilder \<Rightarrow> bool" where
  "sb_ok pending t this \<longleftrightarrow>
     2 \<le> sb_capacity this \<and> int (length (sb_buffer this)) = sb_capacity this \<and>
     0 \<le> sb_bufferLength this \<and> sb_bufferLength this \<le> sb_capacity this \<and>
     (\<forall>c \<in> set (sb_content this). \<not> is_bom c) \<and>
     concat (case sb_completedStrings this of None \<Rightarrow> [] | Some ss \<Rightarrow> ss) @ sb_content this = t \<and>
     (if pending then sb_bufferLength this < sb_capacity this \<and>
        (\<exists>w h. sb_content this = w @ [h] \<and> well_formed_utf16 w \<and> isHighSurrogate h)
      else well_formed_utf16 (sb_content this))"

lemma high_not_low: "isHighSurrogate c \<Longrightarrow> \<not> isLowSurrogate c"
  by (auto simp: isHighSurrogate_def isLowSurrogate_def word_le_nat_alt)

lemma well_formed_append: "well_formed_utf16 s \<Longrightarrow> well_formed_utf16 t \<Longrightarrow> well_formed_utf16 (s @ t)"
proof (induction s rule: well_formed_utf16.induct)
  case (2 c)
  then show ?case by (cases t) auto
qed (auto split: if_splits)

lemma well_formed_pair: "isHighSurrogate h \<Longrightarrow> isLowSurrogate l \<Longrightarrow> well_formed_utf16 [h, l]"
  by simp

lemma sb_store_content:
  assumes "int (length (sb_buffer this)) = sb_capacity this" "0 \<le> sb_bufferLength this" "sb_bufferLength this < sb_capacity this"
  shows "sb_content (sb_store c this) = sb_content this @ [c]" "int (length (sb_buffer (sb_store c this))) = sb_capacity this"
    "sb_bufferLength (sb_store c this) = sb_bufferLength this + 1" "sb_capacity (sb_store c this) = sb_capacity this"
    "sb_completedStrings (sb_store c this) = sb_completedStrings this"
  using assms by (auto simp: sb_store_def sb_content_def ta_write_def nat_add_distrib take_Suc_conv_app_nth)

lemma flush_ok:
  assumes "text_decoder decode" "sb_ok False t this"
  shows "\<exists>this'. StringBuilder_flushBuffer decode this = Inr this' \<and> sb_ok False t this' \<and> sb_bufferLength this' = 0 \<and>
     sb_completedStrings this' \<noteq> None \<and> sb_capacity this' = sb_capacity this"
proof -
  have "\<not> starts_with_bom (sb_content this)" using assms(2) by (cases "sb_content this") (auto simp: sb_ok_def starts_with_bom_def is_bom_def)
  then have "decode (sb_content this) = sb_content this" using assms by (simp add: text_decoder_def sb_ok_def)
  then have "StringBuilder_buildBuffer decode this = Inr (sb_content this)"
    using assms(2) by (simp add: StringBuilder_buildBuffer_def sb_ok_def sb_content_def)
  then show ?thesis using assms(2) by (auto simp: StringBuilder_flushBuffer_def sb_ok_def sb_content_def split: option.splits)
qed

lemma store_ok:
  assumes "sb_ok False t this" "sb_bufferLength this < sb_capacity this" "\<not> is_bom c" "\<not> isLowSurrogate c"
    "isHighSurrogate c \<Longrightarrow> sb_bufferLength this + 1 < sb_capacity this"
  shows "sb_ok (isHighSurrogate c) (t @ [c]) (sb_store c this)"
  using assms sb_store_content [of this c] well_formed_append [of "sb_content this" "[c]"]
  by (auto simp: sb_ok_def)

lemma sb_ok_room: "sb_ok pending t this \<Longrightarrow> 2 \<le> sb_capacity this \<and> sb_bufferLength this \<le> sb_capacity this"
  by (simp add: sb_ok_def)

lemma store_low_ok:
  assumes "sb_ok True t this" "\<not> is_bom c" "isLowSurrogate c"
  shows "sb_ok False (t @ [c]) (sb_store c this)"
proof -
  obtain w h where w: "sb_content this = w @ [h]" "well_formed_utf16 w" "isHighSurrogate h" using assms(1) by (auto simp: sb_ok_def)
  then have "well_formed_utf16 (sb_content this @ [c])" using well_formed_append [of w "[h, c]"] assms(3) by simp
  then show ?thesis using assms sb_store_content [of this c] by (auto simp: sb_ok_def)
qed

lemma fold_store_ok:
  assumes "sb_bufferLength this + int (length s) < sb_capacity this" "int (length (sb_buffer this)) = sb_capacity this" "0 \<le> sb_bufferLength this"
  shows "sb_content (fold sb_store s this) = sb_content this @ s \<and> int (length (sb_buffer (fold sb_store s this))) = sb_capacity this \<and>
    sb_bufferLength (fold sb_store s this) = sb_bufferLength this + int (length s) \<and> sb_capacity (fold sb_store s this) = sb_capacity this \<and>
    sb_completedStrings (fold sb_store s this) = sb_completedStrings this"
  using assms
proof (induction s arbitrary: this)
  case (Cons c s)
  then show ?case using sb_store_content [of this c] Cons.IH [of "sb_store c this"] by simp
qed simp

lemma small_code_unit: "c < 256 \<Longrightarrow> \<not> is_bom (c :: 16 word) \<and> \<not> isLowSurrogate c \<and> \<not> isHighSurrogate c"
  by (auto simp: is_bom_def isLowSurrogate_def isHighSurrogate_def word_less_nat_alt word_le_nat_alt)

lemma appendCharCode_ok:
  assumes "text_decoder decode" "sb_ok False t this" "\<not> is_bom c" "\<not> isLowSurrogate c"
  shows "\<exists>this'. StringBuilder_appendCharCode decode c this = Inr this' \<and> sb_ok (isHighSurrogate c) (t @ [c]) this'"
proof (cases "sb_capacity this - sb_bufferLength this \<le> 1 \<and> (sb_capacity this - sb_bufferLength this = 0 \<or> isHighSurrogate c)")
  case True
  obtain this' where f: "StringBuilder_flushBuffer decode this = Inr this'" "sb_ok False t this'" "sb_bufferLength this' = 0"
    using flush_ok [OF assms(1,2)] by blast
  have "sb_ok (isHighSurrogate c) (t @ [c]) (sb_store c this')"
    using sb_ok_room [OF f(2)] f(3) by (intro store_ok [OF f(2) _ assms(3,4)]) simp_all
  then show ?thesis using True f(1) by (simp add: StringBuilder_appendCharCode_def Let_def)
next
  case False
  have "sb_ok (isHighSurrogate c) (t @ [c]) (sb_store c this)"
    using sb_ok_room [OF assms(2)] False by (intro store_ok [OF assms(2) _ assms(3,4)]) auto
  then show ?thesis using False by (auto simp: StringBuilder_appendCharCode_def Let_def)
qed

lemma appendASCIICharCode_ok:
  assumes "text_decoder decode" "sb_ok False t this" "c < 256"
  shows "\<exists>this'. StringBuilder_appendASCIICharCode decode c this = Inr this' \<and> sb_ok False (t @ [c]) this'"
proof -
  have c: "\<not> is_bom c" "\<not> isLowSurrogate c" "\<not> isHighSurrogate c" using small_code_unit [OF assms(3)] by simp_all
  show ?thesis
  proof (cases "sb_bufferLength this = sb_capacity this")
    case True
    obtain this' where f: "StringBuilder_flushBuffer decode this = Inr this'" "sb_ok False t this'" "sb_bufferLength this' = 0"
      using flush_ok [OF assms(1,2)] by blast
    have "sb_ok False (t @ [c]) (sb_store c this')" using store_ok [OF f(2) _ c(1,2)] sb_ok_room [OF f(2)] f(3) c(3) by simp
    then show ?thesis using True f(1) by (simp add: StringBuilder_appendASCIICharCode_def)
  next
    case False
    have "sb_ok False (t @ [c]) (sb_store c this)" using store_ok [OF assms(2) _ c(1,2)] sb_ok_room [OF assms(2)] False c(3) by simp
    then show ?thesis using False by (simp add: StringBuilder_appendASCIICharCode_def)
  qed
qed

lemma appendString_ok:
  assumes "text_decoder decode" "sb_ok False t this" "well_formed_utf16 s" "\<forall>c \<in> set s. \<not> is_bom c"
  shows "\<exists>this'. StringBuilder_appendString decode s this = Inr this' \<and> sb_ok False (t @ s) this'"
proof (cases "sb_bufferLength this + int (length s) \<ge> sb_capacity this")
  case True
  obtain this' where f: "StringBuilder_flushBuffer decode this = Inr this'" "sb_ok False t this'" "sb_bufferLength this' = 0"
    "sb_completedStrings this' \<noteq> None"
    using flush_ok [OF assms(1,2)] by blast
  then have "sb_ok False (t @ s) (this'\<lparr>sb_completedStrings := Some (the (sb_completedStrings this') @ [s])\<rparr>)"
    by (auto simp: sb_ok_def sb_content_def)
  then show ?thesis using True f(1) by (simp add: StringBuilder_appendString_def)
next
  case False
  then have "sb_ok False (t @ s) (fold sb_store s this)"
    using fold_store_ok [of this s] assms(2-4) well_formed_append [of "sb_content this" s] by (auto simp: sb_ok_def)
  then show ?thesis using False by (simp add: StringBuilder_appendString_def)
qed

lemma sb_step_ok:
  assumes "text_decoder decode" "calls_ok pending (x # cs)" "sb_ok pending t this"
  shows "\<exists>this' pending' t'. sb_step decode x this = Inr this' \<and> sb_ok pending' t' this' \<and> calls_ok pending' cs \<and>
     call_text t (x # cs) = call_text t' cs"
proof (cases x)
  case (CharCode c)
  show ?thesis
  proof (cases pending)
    case True
    then have "\<not> (sb_capacity this - sb_bufferLength this \<le> 1 \<and> (sb_capacity this - sb_bufferLength this = 0 \<or> isHighSurrogate c))"
      using assms(2,3) CharCode by (auto simp: sb_ok_def dest: high_not_low)
    then show ?thesis using store_low_ok [of t this c] True assms(2,3) CharCode
      by (auto simp: StringBuilder_appendCharCode_def Let_def)
  next
    case False
    then show ?thesis using appendCharCode_ok [OF assms(1), of t this c] assms(2,3) CharCode by auto
  qed
next
  case (ASCIICharCode c)
  then show ?thesis using appendASCIICharCode_ok [OF assms(1), of t this c] assms(2,3) by auto
next
  case (AppendString s)
  then show ?thesis using appendString_ok [OF assms(1), of t this s] assms(2,3) by auto
next
  case Reset
  then show ?thesis using assms(2,3)
    by (intro exI [of _ "StringBuilder_reset this"] exI [of _ False] exI [of _ "[]"])
      (auto simp: StringBuilder_reset_def sb_ok_def sb_content_def split: if_splits)
qed

lemma sb_run_ok:
  assumes "text_decoder decode" "calls_ok pending cs" "sb_ok pending t this"
  shows "\<exists>this'. result_fold (sb_step decode) cs this = Inr this' \<and> sb_ok False (call_text t cs) this'"
  using assms
proof (induction cs arbitrary: pending t this)
  case Nil
  then show ?case by simp
next
  case (Cons x cs)
  then show ?case using sb_step_ok [OF Cons.prems] by fastforce
qed

lemma js_join_empty: "js_join [] ss = concat ss"
proof (induction ss)
  case (Cons s ss)
  then show ?case by (cases ss) simp_all
qed simp

lemma build_ok:
  assumes "text_decoder decode" "sb_ok False t this"
  shows "\<exists>this'. StringBuilder_build decode this = Inr (t, this') \<and> sb_ok False t this'"
proof -
  obtain this' where f: "StringBuilder_flushBuffer decode this = Inr this'" "sb_ok False t this'" "sb_bufferLength this' = 0"
    "sb_completedStrings this' \<noteq> None" using flush_ok [OF assms] by blast
  show ?thesis
  proof (cases "sb_completedStrings this")
    case None
    then show ?thesis using f assms(2) by (auto simp: StringBuilder_build_def StringBuilder_flushBuffer_def sb_ok_def sb_content_def)
  next
    case (Some ss)
    then show ?thesis using f by (auto simp: StringBuilder_build_def sb_ok_def sb_content_def js_join_empty)
  qed
qed

section \<open>Properties\<close>

text \<open>
  C40. Building a string. From a new builder with room for at least two code units, every
  reasonable sequence of calls succeeds and \<open>build\<close> returns exactly the text appended since the
  last reset, however the text is cut into buffers; building does not change the text.
\<close>

theorem StringBuilder_builds_appended_text:
  assumes "text_decoder decode" "2 \<le> capacity" "capacity < 2147483648" "calls_ok False cs"
  shows "\<exists>this this' this''. new_StringBuilder capacity = Inr this \<and> result_fold (sb_step decode) cs this = Inr this' \<and>
     StringBuilder_build decode this' = Inr (call_text [] cs, this'') \<and>
     map_sum id fst (StringBuilder_build decode this'') = Inr (call_text [] cs)"
proof -
  have c: "toInt32 capacity = capacity" using assms(2,3) by (intro toInt32_id) (simp add: is_int32_def)
  then obtain this where n: "new_StringBuilder capacity = Inr this" "sb_ok False [] this"
    using assms(2) by (auto simp: new_StringBuilder_def sb_ok_def sb_content_def)
  obtain this' where r: "result_fold (sb_step decode) cs this = Inr this'" "sb_ok False (call_text [] cs) this'"
    using sb_run_ok [OF assms(1,4) n(2)] by blast
  obtain this'' where b: "StringBuilder_build decode this' = Inr (call_text [] cs, this'')" "sb_ok False (call_text [] cs) this''"
    using build_ok [OF assms(1) r(2)] by blast
  show ?thesis using n r b build_ok [OF assms(1) b(2)] by fastforce
qed

theorem StringBuilder_builds_appended_text_witness:
  "\<exists>this' this''. result_fold (sb_step id) [AppendString [97, 98], CharCode 0xD83D, CharCode 0xDE00, ASCIICharCode 33]
       \<lparr>sb_capacity = 3, sb_buffer = [0, 0, 0], sb_completedStrings = None, sb_bufferLength = 0\<rparr> = Inr this' \<and>
     StringBuilder_build id this' = Inr ([97, 98, 0xD83D, 0xDE00, 33], this'')"
proof -
  have "calls_ok False [AppendString [97, 98], CharCode 0xD83D, CharCode 0xDE00, ASCIICharCode 33]"
    by (simp add: isHighSurrogate_def isLowSurrogate_def is_bom_def)
  moreover have "new_StringBuilder 3 = Inr \<lparr>sb_capacity = 3, sb_buffer = [0, 0, 0], sb_completedStrings = None, sb_bufferLength = 0\<rparr>"
    by (simp add: new_StringBuilder_def toInt32_def numeral_3_eq_3)
  moreover have "text_decoder id" by (simp add: text_decoder_def)
  ultimately show ?thesis
    using StringBuilder_builds_appended_text [of id 3 "[AppendString [97, 98], CharCode 0xD83D, CharCode 0xDE00, ASCIICharCode 33]"]
    by auto
qed

text \<open>A capacity of one unit tears a pair apart: the high surrogate is flushed alone.\<close>

lemma StringBuilder_capacity_one_tears_pairs:
  "map_sum id sb_completedStrings (result_fold (sb_step id) [CharCode 0xD83D, CharCode 0xDE00]
     \<lparr>sb_capacity = 1, sb_buffer = [0], sb_completedStrings = None, sb_bufferLength = 0\<rparr>) = Inr (Some [[], [0xD83D]])"
  by (simp add: StringBuilder_appendCharCode_def StringBuilder_flushBuffer_def StringBuilder_buildBuffer_def sb_store_def
      ta_write_def isHighSurrogate_def Let_def)

end
