(* ===== verification/Bracket_Length.thy ===== *)
theory Bracket_Length
  imports Core_Range Text_Lines
begin

text \<open>
  Lengths of pieces of text as line and column counts:
  \<open>src/vs/editor/common/model/bracketPairsTextModelPart/bracketPairsTree/length.ts\<close>.
  A \<open>Length\<close> packs both counts into one number, 26 bits for the column; \<open>LengthObj\<close> keeps them apart.
  The locale \<open>additive_lengths\<close> says when lengths can be summed in any grouping;
  both representations satisfy it, the packed one as long as the columns fit.
\<close>

section \<open>LengthObj\<close>

record LengthObj =
  lo_lineCount :: number
  lo_columnCount :: number

definition new_LengthObj :: "number \<Rightarrow> number \<Rightarrow> LengthObj" where
  "new_LengthObj lineCount columnCount = \<lparr>lo_lineCount = lineCount, lo_columnCount = columnCount\<rparr>"

definition LengthObj_zero :: LengthObj where
  "LengthObj_zero = new_LengthObj 0 0"

definition LengthObj_isLessThan :: "LengthObj \<Rightarrow> LengthObj \<Rightarrow> bool" where
  "LengthObj_isLessThan this other =
     (if lo_lineCount this \<noteq> lo_lineCount other then lo_lineCount this < lo_lineCount other
      else lo_columnCount this < lo_columnCount other)"

definition LengthObj_isGreaterThan :: "LengthObj \<Rightarrow> LengthObj \<Rightarrow> bool" where
  "LengthObj_isGreaterThan this other =
     (if lo_lineCount this \<noteq> lo_lineCount other then lo_lineCount this > lo_lineCount other
      else lo_columnCount this > lo_columnCount other)"

definition LengthObj_lengthDiffNonNegative :: "LengthObj \<Rightarrow> LengthObj \<Rightarrow> LengthObj" where
  "LengthObj_lengthDiffNonNegative start e =
     (if LengthObj_isLessThan e start then LengthObj_zero
      else if lo_lineCount start = lo_lineCount e
      then new_LengthObj 0 (lo_columnCount e - lo_columnCount start)
      else new_LengthObj (lo_lineCount e - lo_lineCount start) (lo_columnCount e))"

definition LengthObj_isZero :: "LengthObj \<Rightarrow> bool" where
  "LengthObj_isZero this \<longleftrightarrow> lo_lineCount this = 0 \<and> lo_columnCount this = 0"

definition LengthObj_equals :: "LengthObj \<Rightarrow> LengthObj \<Rightarrow> bool" where
  "LengthObj_equals this other \<longleftrightarrow>
     lo_lineCount this = lo_lineCount other \<and> lo_columnCount this = lo_columnCount other"

definition LengthObj_compare :: "LengthObj \<Rightarrow> LengthObj \<Rightarrow> number" where
  "LengthObj_compare this other =
     (if lo_lineCount this \<noteq> lo_lineCount other then lo_lineCount this - lo_lineCount other
      else lo_columnCount this - lo_columnCount other)"

definition LengthObj_add :: "LengthObj \<Rightarrow> LengthObj \<Rightarrow> LengthObj" where
  "LengthObj_add this other =
     (if lo_lineCount other = 0
      then new_LengthObj (lo_lineCount this) (lo_columnCount this + lo_columnCount other)
      else new_LengthObj (lo_lineCount this + lo_lineCount other) (lo_columnCount other))"

definition LengthObj_toString :: "LengthObj \<Rightarrow> jsstring" where
  "LengthObj_toString this =
     js_show_number (lo_lineCount this) @ js_str '','' @ js_show_number (lo_columnCount this)"

section \<open>Packed lengths\<close>

type_synonym Length = number

abbreviation factor :: number where "factor \<equiv> 67108864"

definition toLength :: "number \<Rightarrow> number \<Rightarrow> Length" where
  "toLength lineCount columnCount = lineCount * factor + columnCount"

definition LengthObj_toLength :: "LengthObj \<Rightarrow> Length" where
  "LengthObj_toLength this = toLength (lo_lineCount this) (lo_columnCount this)"

definition lengthDiff :: "number \<Rightarrow> number \<Rightarrow> number \<Rightarrow> number \<Rightarrow> Length" where
  "lengthDiff startLineCount startColumnCount endLineCount endColumnCount =
     (if startLineCount \<noteq> endLineCount then toLength (endLineCount - startLineCount) endColumnCount
      else toLength 0 (endColumnCount - startColumnCount))"

definition lengthZero :: Length where "lengthZero = 0"

definition lengthIsZero :: "Length \<Rightarrow> bool" where "lengthIsZero l \<longleftrightarrow> l = 0"

definition lengthToObj :: "Length \<Rightarrow> LengthObj" where
  "lengthToObj l = (let lineCount = l div factor; columnCount = l - lineCount * factor in new_LengthObj lineCount columnCount)"

definition lengthGetLineCount :: "Length \<Rightarrow> number" where
  "lengthGetLineCount l = l div factor"

definition lengthGetColumnCountIfZeroLineCount :: "Length \<Rightarrow> number" where
  "lengthGetColumnCountIfZeroLineCount l = l"

definition lengthAdd :: "Length \<Rightarrow> Length \<Rightarrow> Length" where
  "lengthAdd l1 l2 = (let r = l1 + l2 in if l2 \<ge> factor then r - js_rem l1 factor else r)"

definition sumLengths :: "'a list \<Rightarrow> ('a \<Rightarrow> Length) \<Rightarrow> Length" where
  "sumLengths items lengthFn = foldl (\<lambda>a b. lengthAdd a (lengthFn b)) lengthZero items"

definition lengthEquals :: "Length \<Rightarrow> Length \<Rightarrow> bool" where
  "lengthEquals l1 l2 \<longleftrightarrow> l1 = l2"

definition lengthDiffNonNegative :: "Length \<Rightarrow> Length \<Rightarrow> Length" where
  "lengthDiffNonNegative l1 l2 =
     (let diff = l2 - l1
      in if diff \<le> 0 then lengthZero
         else let lineCount1 = l1 div factor; lineCount2 = l2 div factor; colCount2 = l2 - lineCount2 * factor
              in if lineCount1 = lineCount2
                 then let colCount1 = l1 - lineCount1 * factor in toLength 0 (colCount2 - colCount1)
                 else toLength (lineCount2 - lineCount1) colCount2)"

definition lengthLessThan :: "Length \<Rightarrow> Length \<Rightarrow> bool" where "lengthLessThan l1 l2 \<longleftrightarrow> l1 < l2"

definition lengthLessThanEqual :: "Length \<Rightarrow> Length \<Rightarrow> bool" where "lengthLessThanEqual l1 l2 \<longleftrightarrow> l1 \<le> l2"

definition lengthGreaterThanEqual :: "Length \<Rightarrow> Length \<Rightarrow> bool" where "lengthGreaterThanEqual l1 l2 \<longleftrightarrow> l1 \<ge> l2"

definition lengthToPosition :: "Length \<Rightarrow> Position" where
  "lengthToPosition l =
     (let lineCount = l div factor; colCount = l - lineCount * factor in new_Position (lineCount + 1) (colCount + 1))"

definition positionToLength :: "Position \<Rightarrow> Length" where
  "positionToLength position = toLength (lineNumber position - 1) (column position - 1)"

definition lengthsToRange :: "Length \<Rightarrow> Length \<Rightarrow> Range" where
  "lengthsToRange l l2 =
     (let lineCount = l div factor; colCount = l - lineCount * factor;
          lineCount2 = l2 div factor; colCount2 = l2 - lineCount2 * factor
      in new_Range (lineCount + 1) (colCount + 1) (lineCount2 + 1) (colCount2 + 1))"

definition lengthOfRange :: "Range \<Rightarrow> LengthObj" where
  "lengthOfRange r =
     (if startLineNumber r = endLineNumber r then new_LengthObj 0 (endColumn r - startColumn r)
      else new_LengthObj (endLineNumber r - startLineNumber r) (endColumn r - 1))"

definition lengthCompare :: "Length \<Rightarrow> Length \<Rightarrow> number" where
  "lengthCompare l1 l2 = l1 - l2"

definition lengthOfString :: "jsstring \<Rightarrow> Length" where
  "lengthOfString str =
     (let lines = splitLines str in toLength (int (length lines) - 1) (int (length (last lines))))"

definition lengthOfStringObj :: "jsstring \<Rightarrow> LengthObj" where
  "lengthOfStringObj str =
     (let lines = splitLines str in new_LengthObj (int (length lines) - 1) (int (length (last lines))))"

definition lengthHash :: "Length \<Rightarrow> number" where "lengthHash l = l"

definition lengthMax :: "Length \<Rightarrow> Length \<Rightarrow> Length" where
  "lengthMax l1 l2 = (if l1 > l2 then l1 else l2)"

section \<open>Summing lengths in any grouping\<close>

locale additive_lengths =
  fixes fits :: "'l list \<Rightarrow> bool" and zero :: 'l and add :: "'l \<Rightarrow> 'l \<Rightarrow> 'l"
  assumes zero_left: "fits [a] \<Longrightarrow> add zero a = a"
    and zero_right: "fits [a] \<Longrightarrow> add a zero = a"
    and assoc: "fits [a, b, c] \<Longrightarrow> add (add a b) c = add a (add b c)"
    and fits_add: "fits (xs @ a # b # ys) \<Longrightarrow> fits (xs @ add a b # ys)"
    and fits_part: "fits (xs @ ys @ zs) \<Longrightarrow> fits ys"
begin

lemma fits_tail: "fits (x # xs) \<Longrightarrow> fits xs"
  using fits_part [of "[x]" xs "[]"] by simp

lemma fits_front: "fits (xs @ ys) \<Longrightarrow> fits xs"
  using fits_part [of "[]" xs ys] by simp

lemma fits_back: "fits (xs @ ys) \<Longrightarrow> fits ys"
  using fits_part [of xs ys "[]"] by simp

lemma fits_total: "fits (p @ a # xs @ q) \<Longrightarrow> fits (p @ foldl add a xs # q)"
proof (induction xs arbitrary: a)
  case (Cons b xs)
  from fits_add [of p a b "xs @ q"] Cons.prems have "fits (p @ add a b # xs @ q)" by simp
  from Cons.IH [OF this] show ?case by simp
qed simp

lemma total_Cons: "fits (a # xs) \<Longrightarrow> foldl add zero (a # xs) = foldl add a xs"
  using fits_front [of "[a]"] by (simp add: zero_left)

lemma total_start: "fits (a # xs) \<Longrightarrow> foldl add a xs = add a (foldl add zero xs)"
proof (induction xs arbitrary: a)
  case Nil
  then show ?case by (simp add: zero_right)
next
  case (Cons b xs)
  have ab: "fits (add a b # xs)" using fits_add [of "[]"] Cons.prems by simp
  have b: "fits (b # xs)" using Cons.prems by (rule fits_tail)
  show ?case
  proof (cases xs)
    case Nil
    then show ?thesis using b by (simp add: zero_left)
  next
    case (Cons c ys)
    from Cons.prems fits_total [of "[a, b]" c ys "[]"] Cons
    have "fits [a, b, foldl add c ys]" by simp
    moreover have "foldl add c ys = foldl add zero xs" using total_Cons fits_tail [OF b] Cons by simp
    ultimately have "fits [a, b, foldl add zero xs]" by simp
    then have "foldl add a (b # xs) = add a (add b (foldl add zero xs))"
      using Cons.IH [OF ab] by (simp add: assoc)
    then show ?thesis using Cons.IH [OF b] total_Cons [OF b] by simp
  qed
qed

lemma total_append:
  assumes "fits (xs @ ys)" and "fits [zero]"
  shows "foldl add zero (xs @ ys) = add (foldl add zero xs) (foldl add zero ys)"
proof (cases xs)
  case Nil
  have "fits [foldl add zero ys]"
    using fits_total [of "[]" "hd ys" "tl ys" "[]"] assms Nil total_Cons [of "hd ys" "tl ys"]
    by (cases ys) auto
  then show ?thesis using Nil by (simp add: zero_left)
next
  case (Cons a zs)
  have "fits (foldl add a zs # ys)" using fits_total [of "[]" a zs ys] assms(1) Cons by simp
  from total_start [OF this] show ?thesis
    using Cons total_Cons [of a "zs @ ys"] total_Cons [of a zs] assms(1) fits_front [of xs ys] by simp
qed

lemma total_concat:
  assumes "fits [zero]"
  shows "fits (concat xss) \<Longrightarrow> foldl add zero (map (foldl add zero) xss) = foldl add zero (concat xss)"
proof (induction xss rule: rev_induct)
  case (snoc xs xss)
  then have "foldl add zero (concat xss @ xs) = add (foldl add zero (concat xss)) (foldl add zero xs)"
    by (intro total_append assms) simp
  moreover have "fits (concat xss)" using snoc.prems fits_front [of "concat xss" xs] by simp
  ultimately show ?case using snoc.IH by simp
qed simp

end

section \<open>Both representations are additive\<close>

lemma lengthToObj_simps [simp]:
  "lo_lineCount (lengthToObj l) = l div factor" "lo_columnCount (lengthToObj l) = l mod factor"
  by (simp_all add: lengthToObj_def new_LengthObj_def minus_div_mult_eq_mod)

lemma LengthObj_eqI: "lo_lineCount a = lo_lineCount b \<Longrightarrow> lo_columnCount a = lo_columnCount b \<Longrightarrow> a = (b :: LengthObj)"
  by simp

lemma new_LengthObj_simps [simp]:
  "lo_lineCount (new_LengthObj l c) = l" "lo_columnCount (new_LengthObj l c) = c"
  by (simp_all add: new_LengthObj_def)

definition obj_lengths_fit :: "LengthObj list \<Rightarrow> bool" where
  "obj_lengths_fit ls \<longleftrightarrow> (\<forall>l \<in> set ls. 0 \<le> lo_lineCount l \<and> 0 \<le> lo_columnCount l)"

interpretation obj: additive_lengths obj_lengths_fit LengthObj_zero LengthObj_add
  by unfold_locales
    (auto simp: obj_lengths_fit_def LengthObj_add_def LengthObj_zero_def intro!: LengthObj_eqI)

definition lengths_fit :: "Length list \<Rightarrow> bool" where
  "lengths_fit ls \<longleftrightarrow> (\<forall>l \<in> set ls. 0 \<le> l) \<and> sum_list (map (\<lambda>l. l mod factor) ls) < factor"

lemma lengthAdd_eq:
  assumes "0 \<le> l1" shows "lengthAdd l1 l2 = (if l2 < factor then l1 + l2 else (l1 div factor) * factor + l2)"
  using assms by (simp add: lengthAdd_def Let_def js_rem_nonneg minus_mod_eq_div_mult)

lemma lengthAdd_nonneg: "0 \<le> l1 \<Longrightarrow> 0 \<le> l2 \<Longrightarrow> 0 \<le> lengthAdd l1 l2"
  by (simp add: lengthAdd_eq)

lemma lengthAdd_mod_le:
  assumes "0 \<le> l1" "0 \<le> l2" shows "lengthAdd l1 l2 mod factor \<le> l1 mod factor + l2 mod factor"
proof (cases "l2 < factor")
  case True
  have "(l1 + l2) mod factor = (l1 mod factor + l2 mod factor) mod factor" by (simp add: mod_add_eq)
  also have "\<dots> \<le> l1 mod factor + l2 mod factor" by (rule zmod_le_nonneg_dividend) simp
  finally show ?thesis using True assms by (simp add: lengthAdd_eq)
qed (use assms in \<open>simp add: lengthAdd_eq\<close>)

lemma lengthAdd_refines:
  assumes "0 \<le> l1" "0 \<le> l2" and "l2 < factor \<Longrightarrow> l1 mod factor + l2 < factor"
  shows "lengthToObj (lengthAdd l1 l2) = LengthObj_add (lengthToObj l1) (lengthToObj l2)"
proof (cases "l2 < factor")
  case True
  have l1: "l1 = l1 div factor * factor + l1 mod factor" by simp
  have "(l1 + l2) div factor = l1 div factor \<and> (l1 + l2) mod factor = l1 mod factor + l2"
    using assms(2) assms(3) [OF True] l1 int_div_pos_eq [of "l1 + l2" factor "l1 div factor" "l1 mod factor + l2"]
      int_mod_pos_eq [of "l1 + l2" factor "l1 div factor" "l1 mod factor + l2"] by simp
  then show ?thesis using True assms by (auto simp: lengthAdd_eq LengthObj_add_def intro!: LengthObj_eqI)
next
  case False
  then have "1 \<le> l2 div factor" by (simp add: zdiv_mono1 [of factor l2 factor, simplified])
  then show ?thesis using False assms by (auto simp: lengthAdd_eq LengthObj_add_def intro!: LengthObj_eqI)
qed

lemma lengthToObj_inject: "lengthToObj a = lengthToObj b \<longleftrightarrow> a = b"
  by (metis div_mult_mod_eq lengthToObj_simps)

lemma lengths_fit_simps:
  "lengths_fit [a] \<longleftrightarrow> 0 \<le> a"
  "lengths_fit (xs @ ys) \<Longrightarrow> lengths_fit ys"
  "lengths_fit (xs @ ys) \<Longrightarrow> lengths_fit xs"
proof -
  have nonneg: "0 \<le> sum_list (map (\<lambda>l. l mod factor) ls)" for ls by (rule sum_list_nonneg) auto
  show "lengths_fit [a] \<longleftrightarrow> 0 \<le> a" by (simp add: lengths_fit_def)
  show "lengths_fit (xs @ ys) \<Longrightarrow> lengths_fit ys" "lengths_fit (xs @ ys) \<Longrightarrow> lengths_fit xs"
    using nonneg [of xs] nonneg [of ys] by (auto simp: lengths_fit_def)
qed

lemma lengthAdd_assoc:
  assumes "lengths_fit [a, b, c]" shows "lengthAdd (lengthAdd a b) c = lengthAdd a (lengthAdd b c)"
proof -
  have n: "0 \<le> a" "0 \<le> b" "0 \<le> c" and f: "a mod factor + (b mod factor + c mod factor) < factor"
    using assms by (auto simp: lengths_fit_def)
  have m: "0 \<le> a mod factor" "0 \<le> b mod factor" "0 \<le> c mod factor" by simp_all
  have sm: "l mod factor = l" if "0 \<le> l" "l < factor" for l using that by simp
  note ab = lengthAdd_mod_le [OF n(1,2)] and bc = lengthAdd_mod_le [OF n(2,3)]
  have 1: "lengthToObj (lengthAdd (lengthAdd a b) c) = LengthObj_add (lengthToObj (lengthAdd a b)) (lengthToObj c)"
    using ab f m sm [OF n(3)] by (intro lengthAdd_refines lengthAdd_nonneg n) linarith
  have 2: "lengthToObj (lengthAdd a b) = LengthObj_add (lengthToObj a) (lengthToObj b)"
    using f m sm [OF n(2)] by (intro lengthAdd_refines n) linarith
  have 3: "lengthToObj (lengthAdd b c) = LengthObj_add (lengthToObj b) (lengthToObj c)"
    using f m sm [OF n(3)] by (intro lengthAdd_refines n) linarith
  have 4: "lengthToObj (lengthAdd a (lengthAdd b c)) = LengthObj_add (lengthToObj a) (lengthToObj (lengthAdd b c))"
    using bc f m sm [OF lengthAdd_nonneg [OF n(2,3)]] by (intro lengthAdd_refines lengthAdd_nonneg n) linarith
  have "obj_lengths_fit [lengthToObj a, lengthToObj b, lengthToObj c]"
    using n by (simp add: obj_lengths_fit_def pos_imp_zdiv_nonneg_iff)
  from obj.assoc [OF this] have "lengthToObj (lengthAdd (lengthAdd a b) c) = lengthToObj (lengthAdd a (lengthAdd b c))"
    by (simp only: 1 2 3 4)
  then show ?thesis by (simp only: lengthToObj_inject)
qed

interpretation packed: additive_lengths lengths_fit lengthZero lengthAdd
proof
  show "lengthAdd lengthZero a = a" "lengthAdd a lengthZero = a" if "lengths_fit [a]" for a
    using that by (simp_all add: lengths_fit_simps lengthAdd_eq lengthZero_def)
  show "lengths_fit (xs @ lengthAdd a b # ys)" if "lengths_fit (xs @ a # b # ys)" for xs a b ys
    using that lengthAdd_mod_le [of a b] lengthAdd_nonneg [of a b] by (auto simp: lengths_fit_def)
  show "lengths_fit ys" if "lengths_fit (xs @ ys @ zs)" for xs ys zs
    using lengths_fit_simps(3) [OF lengths_fit_simps(2) [OF that]] .
qed (rule lengthAdd_assoc)

section \<open>Packed lengths refine line and column counts\<close>

lemma lengthToObj_toLength:
  "0 \<le> c \<Longrightarrow> c < factor \<Longrightarrow> lengthToObj (toLength l c) = new_LengthObj l c"
  by (auto simp: toLength_def intro!: LengthObj_eqI)

lemma toLength_lengthToObj: "LengthObj_toLength (lengthToObj l) = l"
  by (simp add: LengthObj_toLength_def toLength_def)

lemma lengthLessThan_iff: "lengthLessThan l1 l2 \<longleftrightarrow> LengthObj_isLessThan (lengthToObj l1) (lengthToObj l2)"
proof -
  have "l1 = l1 div factor * factor + l1 mod factor" "l2 = l2 div factor * factor + l2 mod factor" by simp_all
  moreover have "0 \<le> l1 mod factor" "l1 mod factor < factor" "0 \<le> l2 mod factor" "l2 mod factor < factor" by simp_all
  ultimately show ?thesis unfolding lengthLessThan_def LengthObj_isLessThan_def lengthToObj_simps by smt
qed

lemma lengthDiffNonNegative_eq:
  "lengthDiffNonNegative l1 l2 =
     (if l2 \<le> l1 then 0
      else if l1 div factor = l2 div factor then l2 mod factor - l1 mod factor
      else (l2 div factor - l1 div factor) * factor + l2 mod factor)"
  by (simp only: lengthDiffNonNegative_def Let_def minus_div_mult_eq_mod toLength_def lengthZero_def
      diff_le_0_iff_le mult_zero_left add_0)

lemma same_line_diff: "l1 < l2 \<Longrightarrow> l1 div factor = l2 div factor \<Longrightarrow> l1 mod factor < l2 mod (factor :: int)"
  by (metis add_less_cancel_left div_mult_mod_eq)

lemma lengthDiffNonNegative_nonneg: "0 \<le> lengthDiffNonNegative l1 l2"
proof (cases "l2 \<le> l1 \<or> l1 div factor = l2 div factor")
  case True
  then show ?thesis using same_line_diff [of l1 l2] by (auto simp: lengthDiffNonNegative_eq)
next
  case False
  then have "l1 div factor \<le> l2 div factor" by (simp add: zdiv_mono1)
  then show ?thesis using False by (simp add: lengthDiffNonNegative_eq)
qed

lemma isLessThan_lengthToObj: "LengthObj_isLessThan (lengthToObj l1) (lengthToObj l2) \<longleftrightarrow> l1 < l2"
  using lengthLessThan_iff by (simp add: lengthLessThan_def)

lemma lengthDiffNonNegative_lines:
  assumes "l1 < l2" "l1 div factor \<noteq> l2 div factor"
  shows "lengthDiffNonNegative l1 l2 = toLength (l2 div factor - l1 div factor) (l2 mod factor)"
  using assms by (simp add: lengthDiffNonNegative_eq toLength_def)

lemma lengthDiffNonNegative_columns:
  assumes "l1 \<le> l2" "l1 div factor = l2 div factor"
  shows "lengthDiffNonNegative l1 l2 = l2 - l1" and "l2 - l1 = l2 mod factor - l1 mod factor" and "l2 - l1 < factor"
proof -
  show d: "l2 - l1 = l2 mod factor - l1 mod factor"
    using assms div_mult_mod_eq [of l1 factor] div_mult_mod_eq [of l2 factor] by linarith
  show "l2 - l1 < factor" using d pos_mod_bound [of factor l2] pos_mod_sign [of factor l1] by linarith
  show "lengthDiffNonNegative l1 l2 = l2 - l1"
    unfolding lengthDiffNonNegative_eq using assms d by auto
qed

lemma lengthDiffNonNegative_refines:
  "lengthToObj (lengthDiffNonNegative l1 l2) = LengthObj_lengthDiffNonNegative (lengthToObj l1) (lengthToObj l2)"
proof -
  consider "l2 < l1" | "l1 \<le> l2" "l1 div factor = l2 div factor" | "l1 < l2" "l1 div factor \<noteq> l2 div factor" by fastforce
  then show ?thesis
  proof cases
    case 1
    then show ?thesis
      by (auto simp: lengthDiffNonNegative_eq LengthObj_lengthDiffNonNegative_def LengthObj_zero_def
          isLessThan_lengthToObj intro!: LengthObj_eqI)
  next
    case 2
    then have "lengthToObj (l2 - l1) = new_LengthObj 0 (l2 mod factor - l1 mod factor)"
      using lengthDiffNonNegative_columns(2,3) [OF 2] by (intro LengthObj_eqI) simp_all
    then show ?thesis using 2
      by (simp add: lengthDiffNonNegative_columns(1) LengthObj_lengthDiffNonNegative_def isLessThan_lengthToObj)
  next
    case 3
    then show ?thesis
      by (simp add: lengthDiffNonNegative_lines lengthToObj_toLength LengthObj_lengthDiffNonNegative_def isLessThan_lengthToObj)
  qed
qed

lemma lengthAdd_lengthDiff:
  assumes "0 \<le> l1" "l1 \<le> l2" shows "lengthAdd l1 (lengthDiffNonNegative l1 l2) = l2"
proof (cases "l1 div factor = l2 div factor")
  case True
  show ?thesis using lengthDiffNonNegative_columns [OF assms(2) True] assms(1) by (simp add: lengthAdd_eq)
next
  case False
  then have lt: "l1 < l2" using assms(2) by fastforce
  have d: "1 \<le> l2 div factor - l1 div factor" using assms False zdiv_mono1 [of l1 l2 factor] by simp
  then have "factor \<le> toLength (l2 div factor - l1 div factor) (l2 mod factor)"
    using pos_mod_sign [of factor l2] by (simp add: toLength_def)
  then show ?thesis using assms(1) lengthDiffNonNegative_lines [OF lt False]
    by (simp add: lengthAdd_eq toLength_def left_diff_distrib)
qed

lemma lengthDiff_lengthAdd:
  assumes "0 \<le> l1" "0 \<le> l2" and "l2 < factor \<Longrightarrow> l1 mod factor + l2 < factor"
  shows "lengthDiffNonNegative l1 (lengthAdd l1 l2) = l2"
proof -
  have obj: "lengthToObj (lengthAdd l1 l2) = LengthObj_add (lengthToObj l1) (lengthToObj l2)"
    using assms by (rule lengthAdd_refines)
  have "LengthObj_lengthDiffNonNegative a (LengthObj_add a b) = b" if "obj_lengths_fit [a, b]" for a b
    using that by (auto simp: LengthObj_lengthDiffNonNegative_def LengthObj_add_def LengthObj_isLessThan_def
        LengthObj_zero_def obj_lengths_fit_def intro!: LengthObj_eqI)
  moreover have "obj_lengths_fit [lengthToObj l1, lengthToObj l2]"
    using assms by (simp add: obj_lengths_fit_def pos_imp_zdiv_nonneg_iff)
  ultimately have "lengthToObj (lengthDiffNonNegative l1 (lengthAdd l1 l2)) = lengthToObj l2"
    by (simp add: lengthDiffNonNegative_refines obj)
  then show ?thesis by (simp only: lengthToObj_inject)
qed

section \<open>Lengths of strings and ranges\<close>

lemma doc_append_Cons: "xs \<noteq> [] \<Longrightarrow> doc_append (x # xs) ys = x # doc_append xs ys"
  by (simp add: doc_append_def)

lemma doc_append_other:
  "xs \<noteq> [] \<Longrightarrow> doc_append ((c # hd xs) # tl xs) ys = (c # hd (doc_append xs ys)) # tl (doc_append xs ys)"
  by (cases xs) (auto simp: doc_append_def)

lemma splitLines_append:
  assumes "\<not> (s \<noteq> [] \<and> last s = CarriageReturn \<and> t \<noteq> [] \<and> hd t = LineFeed)"
  shows "splitLines (s @ t) = doc_append (splitLines s) (splitLines t)"
  using assms
proof (induction s rule: text_induct)
  case Nil
  then show ?case by (simp add: doc_append_def)
next
  case (CRLF ds)
  then show ?case by (cases "ds = []") (auto simp: text_kinds doc_append_Cons)
next
  case (CR cs)
  then show ?case by (cases cs; cases t) (auto simp: text_kinds doc_append_Cons)
next
  case (LF cs)
  then show ?case by (cases "cs = []") (auto simp: text_kinds doc_append_Cons)
next
  case (Other c cs)
  then show ?case by (cases "cs = []") (simp_all add: text_kinds doc_append_other, simp add: doc_append_def)
qed

lemma lengthOfStringObj_append:
  assumes "\<not> (s \<noteq> [] \<and> last s = CarriageReturn \<and> t \<noteq> [] \<and> hd t = LineFeed)"
  shows "lengthOfStringObj (s @ t) = LengthObj_add (lengthOfStringObj s) (lengthOfStringObj t)"
proof -
  have "length (doc_append xs ys) = length xs + length ys - 1 \<and>
      last (doc_append xs ys) = (if length ys = 1 then last xs @ last ys else last ys)"
    if "xs \<noteq> []" "ys \<noteq> []" for xs ys :: "jsstring list"
    using that by (cases ys; cases "tl ys = []") (auto simp: doc_append_def)
  moreover have "length (splitLines u) \<noteq> 0" for u by simp
  ultimately show ?thesis using splitLines_append [OF assms]
    by (auto simp: lengthOfStringObj_def LengthObj_add_def Let_def of_nat_diff Suc_le_eq
        simp del: length_0_conv intro!: LengthObj_eqI)
qed

lemma lengthToObj_lengthOfString:
  "int (length (last (splitLines s))) < factor \<Longrightarrow> lengthToObj (lengthOfString s) = lengthOfStringObj s"
  by (simp add: lengthOfString_def lengthOfStringObj_def Let_def lengthToObj_toLength)

text \<open>
  C14. A packed length stands for a line and a column count: for lengths whose columns add up to less than
  2 to the 26, adding, subtracting and comparing packed lengths is adding, subtracting and comparing line and
  column counts; subtraction undoes addition on both sides, and the packed number and its counts
  convert into each other.
\<close>

theorem packed_lengths_refine_LengthObj:
  assumes "0 \<le> l1" "0 \<le> l2" and "l2 < factor \<Longrightarrow> l1 mod factor + l2 < factor"
  shows "lengthToObj (lengthAdd l1 l2) = LengthObj_add (lengthToObj l1) (lengthToObj l2) \<and>
    lengthToObj (lengthDiffNonNegative l1 l2) = LengthObj_lengthDiffNonNegative (lengthToObj l1) (lengthToObj l2) \<and>
    (lengthLessThan l1 l2 \<longleftrightarrow> LengthObj_isLessThan (lengthToObj l1) (lengthToObj l2)) \<and>
    (lengthCompare l1 l2 < 0 \<longleftrightarrow> LengthObj_compare (lengthToObj l1) (lengthToObj l2) < 0) \<and>
    lengthDiffNonNegative l1 (lengthAdd l1 l2) = l2 \<and>
    (lengthLessThanEqual l1 l2 \<longrightarrow> lengthAdd l1 (lengthDiffNonNegative l1 l2) = l2) \<and>
    LengthObj_toLength (lengthToObj l1) = l1"
proof -
  have "LengthObj_compare a b < 0 \<longleftrightarrow> LengthObj_isLessThan a b" for a b
    by (auto simp: LengthObj_compare_def LengthObj_isLessThan_def)
  then show ?thesis using assms
    by (simp add: lengthAdd_refines lengthDiffNonNegative_refines lengthDiff_lengthAdd lengthAdd_lengthDiff
        toLength_lengthToObj lengthLessThanEqual_def lengthCompare_def lengthLessThan_def isLessThan_lengthToObj)
qed

theorem packed_lengths_refine_LengthObj_witness:
  "lengthToObj (lengthAdd (toLength 10 5) (toLength 20 3)) = LengthObj_add (lengthToObj (toLength 10 5)) (lengthToObj (toLength 20 3)) \<and>
   lengthToObj (lengthAdd (toLength 10 5) (toLength 20 3)) = new_LengthObj 30 3"
proof -
  have "lengthToObj (lengthAdd (toLength 10 5) (toLength 20 3)) = LengthObj_add (lengthToObj (toLength 10 5)) (lengthToObj (toLength 20 3))"
    using packed_lengths_refine_LengthObj [of "toLength 10 5" "toLength 20 3"] by (simp add: toLength_def)
  moreover have "LengthObj_add (lengthToObj (toLength 10 5)) (lengthToObj (toLength 20 3)) = new_LengthObj 30 3" by code_simp
  ultimately show ?thesis by simp
qed

lemma length_last_splitLines: "length (last (splitLines s)) \<le> length s"
proof (induction s rule: text_induct)
  case (Other c cs)
  then show ?case by (cases "splitLines cs") (auto simp: text_kinds)
qed (auto simp: text_kinds)

lemma lengthOfString_nonneg: "0 \<le> lengthOfString s"
  by (simp add: lengthOfString_def Let_def toLength_def Suc_le_eq)

lemma lengthOfString_append:
  assumes "\<not> (s \<noteq> [] \<and> last s = CarriageReturn \<and> t \<noteq> [] \<and> hd t = LineFeed)"
    and "int (length (s @ t)) < factor"
  shows "lengthOfString (s @ t) = lengthAdd (lengthOfString s) (lengthOfString t)"
proof -
  have short: "int (length (last (splitLines u))) < factor" if "length u \<le> length (s @ t)" for u
    using length_last_splitLines [of u] that assms(2) by linarith
  note obj = lengthToObj_lengthOfString [OF short]
  have "lengthOfString s mod factor + lengthOfString t < factor" if "lengthOfString t < factor"
  proof -
    have "lo_columnCount (lengthToObj (lengthOfString s)) = int (length (last (splitLines s)))"
      "lo_columnCount (lengthToObj (lengthOfString t)) = int (length (last (splitLines t)))"
      by (simp_all only: obj length_append le_add1 le_add2) (simp_all add: lengthOfStringObj_def Let_def)
    then show ?thesis
      using that lengthOfString_nonneg [of t] length_last_splitLines [of s] length_last_splitLines [of t] assms(2)
      by simp
  qed
  then have "lengthToObj (lengthAdd (lengthOfString s) (lengthOfString t)) = lengthToObj (lengthOfString (s @ t))"
    by (simp only: lengthAdd_refines lengthOfString_nonneg obj length_append le_add1 le_add2 order.refl
        lengthOfStringObj_append [OF assms(1)])
  then show ?thesis by (simp only: lengthToObj_inject)
qed

lemma lengthToObj_positionToLength:
  "1 \<le> column p \<Longrightarrow> column p \<le> factor \<Longrightarrow> lengthToObj (positionToLength p) = new_LengthObj (lineNumber p - 1) (column p - 1)"
  by (simp add: positionToLength_def lengthToObj_toLength)

lemma lengthToPosition_eq:
  "lengthToPosition l = new_Position (lo_lineCount (lengthToObj l) + 1) (lo_columnCount (lengthToObj l) + 1)"
  by (simp add: lengthToPosition_def lengthToObj_def new_LengthObj_def Let_def)

lemma lengthsToRange_eq:
  "lengthsToRange l l2 = new_Range (lo_lineCount (lengthToObj l) + 1) (lo_columnCount (lengthToObj l) + 1)
     (lo_lineCount (lengthToObj l2) + 1) (lo_columnCount (lengthToObj l2) + 1)"
  by (simp add: lengthsToRange_def lengthToObj_def new_LengthObj_def Let_def)

text \<open>
  The length of a text is the sum of the lengths of its parts, unless the cut separates a carriage return
  from its line feed; the length of a range leads from its start to its end, and positions convert to lengths
  and back.
\<close>

theorem lengths_of_texts_and_ranges:
  assumes "\<not> (s \<noteq> [] \<and> last s = CarriageReturn \<and> t \<noteq> [] \<and> hd t = LineFeed)"
    and "int (length (s @ t)) < factor"
    and "Range_wf r" and "1 \<le> startLineNumber r" and "1 \<le> startColumn r" and "1 \<le> endColumn r"
    and "startColumn r \<le> factor" and "endColumn r \<le> factor"
  shows "lengthOfString (s @ t) = lengthAdd (lengthOfString s) (lengthOfString t) \<and>
    lengthAdd (positionToLength (Range_getStartPosition r)) (LengthObj_toLength (lengthOfRange r)) =
      positionToLength (Range_getEndPosition r) \<and>
    lengthToPosition (positionToLength (Range_getStartPosition r)) = Range_getStartPosition r \<and>
    lengthsToRange (positionToLength (Range_getStartPosition r)) (positionToLength (Range_getEndPosition r)) = r"
proof (intro conjI)
  show "lengthOfString (s @ t) = lengthAdd (lengthOfString s) (lengthOfString t)"
    using assms(1,2) by (rule lengthOfString_append)
  note start = lengthToObj_positionToLength [of "rstart r"] and stop = lengthToObj_positionToLength [of "rend r"]
  note ends = range_ends new_Position_def
  show "lengthAdd (positionToLength (rstart r)) (LengthObj_toLength (lengthOfRange r)) = positionToLength (rend r)"
  proof -
    have "positionToLength (rstart r) div factor = startLineNumber r - 1"
      using arg_cong [OF start, of lo_lineCount] assms(5,7) by (simp add: ends)
    moreover have "0 \<le> positionToLength (rstart r)" using assms(4,5) by (simp add: positionToLength_def toLength_def ends)
    ultimately show ?thesis
      using assms(3-8) by (auto simp: lengthAdd_eq LengthObj_toLength_def lengthOfRange_def Range_wf_def
          less_eq_Position_ext_def ends) (auto simp: positionToLength_def toLength_def)
  qed
  show "lengthToPosition (positionToLength (rstart r)) = rstart r"
    using assms(5,7) start by (simp add: lengthToPosition_eq ends)
  show "lengthsToRange (positionToLength (rstart r)) (positionToLength (rend r)) = r"
    using assms(3-8) start stop by (auto simp: lengthsToRange_eq ends new_Range_def Range_wf_def less_eq_Position_ext_def)
qed

theorem lengths_of_texts_and_ranges_witness:
  "let s = js_str ''ab''; t = LineFeed # js_str ''cd''; r = \<lparr>startLineNumber = 1, startColumn = 2, endLineNumber = 3, endColumn = 4\<rparr>
   in lengthOfString (s @ t) = lengthAdd (lengthOfString s) (lengthOfString t) \<and> lengthOfString (s @ t) = toLength 1 2 \<and>
      lengthsToRange (positionToLength (Range_getStartPosition r)) (positionToLength (Range_getEndPosition r)) = r"
proof -
  have a: "\<not> (js_str ''ab'' \<noteq> [] \<and> last (js_str ''ab'') = CarriageReturn \<and> LineFeed # js_str ''cd'' \<noteq> [] \<and> hd (LineFeed # js_str ''cd'') = LineFeed)"
    "int (length (js_str ''ab'' @ LineFeed # js_str ''cd'')) < factor"
    "lengthOfString (js_str ''ab'' @ LineFeed # js_str ''cd'') = toLength 1 2" by code_simp+
  show ?thesis
    using lengths_of_texts_and_ranges [OF a(1,2), of "\<lparr>startLineNumber = 1, startColumn = 2, endLineNumber = 3, endColumn = 4\<rparr>"]
    by (simp add: a(3) Range_wf_def range_ends new_Position_def less_eq_Position_ext_def)
qed

end
