(* ===== verification/Small_Set.thy ===== *)
theory Small_Set
  imports Prelude
begin

unbundle bit_operations_syntax

text \<open>
  Sets of small numbers in the bits of 32-bit words:
  \<open>src/vs/editor/common/model/bracketPairsTextModelPart/bracketPairsTree/smallImmutableSet.ts\<close>, with the
  provider that numbers arbitrary values densely. The locale \<open>key_sets\<close> is what the bracket tree relies on.
\<close>

section \<open>SmallImmutableSet\<close>

record SmallImmutableSet =
  sis_items :: "32 word"
  sis_additionalItems :: "32 word list"

text \<open>The source keeps the sets of few elements in a cache, so that equal ones are one object.\<close>

definition SmallImmutableSet_create :: "32 word \<Rightarrow> 32 word list \<Rightarrow> SmallImmutableSet" where
  "SmallImmutableSet_create items additionalItems = \<lparr>sis_items = items, sis_additionalItems = additionalItems\<rparr>"

definition SmallImmutableSet_getEmpty :: SmallImmutableSet where
  "SmallImmutableSet_getEmpty = SmallImmutableSet_create 0 []"

text \<open>
  The loop that extends the array and the update of its element: an element that does not exist counts as 0.
  Keys are natural numbers below \<open>2 ^ 31\<close>, so \<open>key >> 5\<close> is division; a shift by \<open>key\<close> is one by its last five bits.
\<close>

definition sis_set_bit :: "32 word list \<Rightarrow> nat \<Rightarrow> 32 word \<Rightarrow> 32 word list" where
  "sis_set_bit newItems idx b =
     (let padded = newItems @ replicate (idx - length newItems) 0
      in if idx < length padded then padded[idx := padded ! idx OR b] else padded @ [0 OR b])"

definition SmallImmutableSet_add :: "nat \<Rightarrow> SmallImmutableSet \<Rightarrow> SmallImmutableSet" where
  "SmallImmutableSet_add key this =
     (let idx = key div 32
      in if idx = 0
         then let newItem = push_bit key 1 OR sis_items this
              in if newItem = sis_items this then this
                 else SmallImmutableSet_create newItem (sis_additionalItems this)
         else SmallImmutableSet_create (sis_items this)
                (sis_set_bit (sis_additionalItems this) (idx - 1) (push_bit (key mod 32) 1)))"

definition sis_item_or_0 :: "32 word list \<Rightarrow> nat \<Rightarrow> 32 word" where
  "sis_item_or_0 items i = (case arr_at items (int i) of None \<Rightarrow> 0 | Some w \<Rightarrow> w)"

definition SmallImmutableSet_has :: "nat \<Rightarrow> SmallImmutableSet \<Rightarrow> bool" where
  "SmallImmutableSet_has key this =
     (let idx = key div 32
      in if idx = 0 then sis_items this AND push_bit key 1 \<noteq> 0
         else sis_item_or_0 (sis_additionalItems this) (idx - 1) AND push_bit (key mod 32) 1 \<noteq> 0)"

definition SmallImmutableSet_merge :: "SmallImmutableSet \<Rightarrow> SmallImmutableSet \<Rightarrow> SmallImmutableSet" where
  "SmallImmutableSet_merge this other =
     (let merged = sis_items this OR sis_items other
      in if sis_additionalItems this = [] \<and> sis_additionalItems other = []
         then if merged = sis_items this then this
              else if merged = sis_items other then other
              else SmallImmutableSet_create merged []
         else SmallImmutableSet_create merged
                (map (\<lambda>i. sis_item_or_0 (sis_additionalItems this) i OR sis_item_or_0 (sis_additionalItems other) i)
                   [0 ..< max (length (sis_additionalItems this)) (length (sis_additionalItems other))]))"

definition SmallImmutableSet_intersects :: "SmallImmutableSet \<Rightarrow> SmallImmutableSet \<Rightarrow> bool" where
  "SmallImmutableSet_intersects this other \<longleftrightarrow>
     sis_items this AND sis_items other \<noteq> 0 \<or>
     list_ex (\<lambda>(a, b). a AND b \<noteq> 0) (zip (sis_additionalItems this) (sis_additionalItems other))"

definition SmallImmutableSet_equals :: "SmallImmutableSet \<Rightarrow> SmallImmutableSet \<Rightarrow> bool" where
  "SmallImmutableSet_equals this other \<longleftrightarrow>
     sis_items this = sis_items other \<and>
     length (sis_additionalItems this) = length (sis_additionalItems other) \<and>
     list_all (\<lambda>(a, b). a = b) (zip (sis_additionalItems this) (sis_additionalItems other))"

section \<open>DenseKeyProvider\<close>

definition identityKeyProvider :: "number \<Rightarrow> number" where "identityKeyProvider v = v"

text \<open>The \<open>Map\<close> from values to keys, in the order of insertion.\<close>

record 'a DenseKeyProvider =
  dkp_items :: "('a \<times> nat) list"

definition new_DenseKeyProvider :: "'a DenseKeyProvider" where
  "new_DenseKeyProvider = \<lparr>dkp_items = []\<rparr>"

definition DenseKeyProvider_getKey :: "'a \<Rightarrow> 'a DenseKeyProvider \<Rightarrow> nat \<times> 'a DenseKeyProvider" where
  "DenseKeyProvider_getKey v this =
     (case map_of (dkp_items this) v of
        None \<Rightarrow> (let existing = length (dkp_items this) in (existing, this\<lparr>dkp_items := dkp_items this @ [(v, existing)]\<rparr>))
      | Some existing \<Rightarrow> (existing, this))"

definition DenseKeyProvider_reverseLookup :: "nat \<Rightarrow> 'a DenseKeyProvider \<Rightarrow> 'a option" where
  "DenseKeyProvider_reverseLookup key this = map_option fst (List.find (\<lambda>(_, v). v = key) (dkp_items this))"

definition DenseKeyProvider_reverseLookupSet :: "SmallImmutableSet \<Rightarrow> 'a DenseKeyProvider \<Rightarrow> 'a list" where
  "DenseKeyProvider_reverseLookupSet s this =
     filter (\<lambda>v. SmallImmutableSet_has (fst (DenseKeyProvider_getKey v this)) s) (map fst (dkp_items this))"

definition DenseKeyProvider_keys :: "'a DenseKeyProvider \<Rightarrow> 'a list" where
  "DenseKeyProvider_keys this = map fst (dkp_items this)"

section \<open>The set of keys\<close>

definition sis_keys :: "SmallImmutableSet \<Rightarrow> nat set" where
  "sis_keys s = {k. bit (sis_item_or_0 (sis_items s # sis_additionalItems s) (k div 32)) (k mod 32)}"

definition sis_wf :: "SmallImmutableSet \<Rightarrow> bool" where
  "sis_wf s \<longleftrightarrow> sis_additionalItems s = [] \<or> last (sis_additionalItems s) \<noteq> 0"

locale key_sets =
  fixes wf :: "'s \<Rightarrow> bool" and keys :: "'s \<Rightarrow> nat set" and empty :: 's
    and add :: "nat \<Rightarrow> 's \<Rightarrow> 's" and has :: "nat \<Rightarrow> 's \<Rightarrow> bool" and merge :: "'s \<Rightarrow> 's \<Rightarrow> 's"
    and intersects :: "'s \<Rightarrow> 's \<Rightarrow> bool" and equals :: "'s \<Rightarrow> 's \<Rightarrow> bool"
  assumes empty: "wf empty" "keys empty = {}"
    and add: "wf s \<Longrightarrow> wf (add k s)" "wf s \<Longrightarrow> keys (add k s) = insert k (keys s)"
    and has: "wf s \<Longrightarrow> has k s \<longleftrightarrow> k \<in> keys s"
    and merge: "wf s \<Longrightarrow> wf t \<Longrightarrow> wf (merge s t)" "wf s \<Longrightarrow> wf t \<Longrightarrow> keys (merge s t) = keys s \<union> keys t"
    and intersects: "wf s \<Longrightarrow> wf t \<Longrightarrow> intersects s t \<longleftrightarrow> keys s \<inter> keys t \<noteq> {}"
    and equals: "wf s \<Longrightarrow> wf t \<Longrightarrow> equals s t \<longleftrightarrow> keys s = keys t"
begin

lemma add_all: "wf s \<Longrightarrow> wf (fold add ks s) \<and> keys (fold add ks s) = set ks \<union> keys s"
  by (induction ks arbitrary: s) (auto simp: add)

lemma merge_all: "wf s \<Longrightarrow> (\<forall>t \<in> set ts. wf t) \<Longrightarrow> wf (foldl merge s ts) \<and> keys (foldl merge s ts) = keys s \<union> (\<Union>t \<in> set ts. keys t)"
  by (induction ts arbitrary: s) (auto simp: merge)

lemma merge_idem: "wf s \<Longrightarrow> equals (merge s s) s"
  by (simp add: equals merge)

end

lemma sis_item_or_0_eq: "sis_item_or_0 items i = (if i < length items then items ! i else 0)"
  by (simp add: sis_item_or_0_def arr_at_def)

lemma sis_item_or_0_Cons: "sis_item_or_0 (w # ws) i = (if i = 0 then w else sis_item_or_0 ws (i - 1))"
  by (cases i) (auto simp: sis_item_or_0_eq)

lemma sis_set_bit_item:
  "sis_item_or_0 (sis_set_bit ws idx b) i = (if i = idx then sis_item_or_0 ws i OR b else sis_item_or_0 ws i)"
  by (auto simp: sis_set_bit_def sis_item_or_0_eq Let_def nth_append nth_list_update)

lemma sis_merge_item:
  "n = max (length ws) (length vs) \<Longrightarrow>
     sis_item_or_0 (map (\<lambda>i. sis_item_or_0 ws i OR sis_item_or_0 vs i) [0 ..< n]) i = sis_item_or_0 ws i OR sis_item_or_0 vs i"
  by (auto simp: sis_item_or_0_eq)

lemma bit_single: "bit (2 ^ n :: 32 word) m \<longleftrightarrow> m = n \<and> n < 32"
  by (auto simp: bit_simps)

lemma and_single_zero: "(w :: 32 word) AND 2 ^ n = 0 \<longleftrightarrow> \<not> (n < 32 \<and> bit w n)"
  by (subst bit_eq_iff) (auto simp: bit_and_iff bit_single)

lemma and_nonzero_iff: "(w :: 32 word) AND v \<noteq> 0 \<longleftrightarrow> (\<exists>n < 32. bit w n \<and> bit v n)"
  by (auto simp: bit_eq_iff bit_and_iff)

lemma same_key_iff: "(j :: nat) = k \<longleftrightarrow> j div 32 = k div 32 \<and> j mod 32 = k mod 32"
  by (metis div_mult_mod_eq)

lemma sis_keys_create:
  "k \<in> sis_keys (SmallImmutableSet_create w ws) \<longleftrightarrow>
     bit (if k div 32 = 0 then w else sis_item_or_0 ws (k div 32 - 1)) (k mod 32)"
  by (simp add: sis_keys_def SmallImmutableSet_create_def sis_item_or_0_Cons)

lemma SmallImmutableSet_eta: "SmallImmutableSet_create (sis_items s) (sis_additionalItems s) = s"
  by (simp add: SmallImmutableSet_create_def)

lemma sis_keys_iff:
  "k \<in> sis_keys s \<longleftrightarrow> bit (if k div 32 = 0 then sis_items s else sis_item_or_0 (sis_additionalItems s) (k div 32 - 1)) (k mod 32)"
  using sis_keys_create [of k "sis_items s" "sis_additionalItems s"] by (simp add: SmallImmutableSet_eta)

lemma SmallImmutableSet_add_eq:
  "SmallImmutableSet_add k s =
     (if k div 32 = 0 then SmallImmutableSet_create (push_bit k 1 OR sis_items s) (sis_additionalItems s)
      else SmallImmutableSet_create (sis_items s)
             (sis_set_bit (sis_additionalItems s) (k div 32 - 1) (push_bit (k mod 32) 1)))"
  by (auto simp: SmallImmutableSet_add_def Let_def SmallImmutableSet_create_def)

lemma sis_add: "sis_keys (SmallImmutableSet_add k s) = insert k (sis_keys s)"
proof (rule set_eqI)
  fix j
  have idx: "j div 32 \<noteq> 0 \<Longrightarrow> k div 32 \<noteq> 0 \<Longrightarrow> j div 32 - 1 = k div 32 - 1 \<longleftrightarrow> j div 32 = k div 32" by linarith
  show "j \<in> sis_keys (SmallImmutableSet_add k s) \<longleftrightarrow> j \<in> insert k (sis_keys s)"
  proof (cases "k div 32 = 0")
    case True
    then have k: "k < 32" by simp
    show ?thesis
    proof (cases "j < 32")
      case True
      then show ?thesis using k
        by (simp add: SmallImmutableSet_add_eq sis_keys_create sis_keys_iff [of j s] bit_or_iff bit_single)
    next
      case False
      then have "j \<noteq> k" "j div 32 \<noteq> 0" using k by simp_all
      then show ?thesis using True by (simp add: SmallImmutableSet_add_eq sis_keys_create sis_keys_iff [of j s])
    qed
  next
    case False
    then show ?thesis using same_key_iff [of j k] idx
      by (simp add: SmallImmutableSet_add_eq sis_keys_create sis_keys_iff [of j s] sis_set_bit_item bit_or_iff bit_single) auto
  qed
qed

lemma sis_has: "SmallImmutableSet_has k s \<longleftrightarrow> k \<in> sis_keys s"
  by (auto simp: SmallImmutableSet_has_def sis_keys_iff Let_def and_single_zero)

lemma SmallImmutableSet_merge_eq:
  "SmallImmutableSet_merge s t = SmallImmutableSet_create (sis_items s OR sis_items t)
     (map (\<lambda>i. sis_item_or_0 (sis_additionalItems s) i OR sis_item_or_0 (sis_additionalItems t) i)
        [0 ..< max (length (sis_additionalItems s)) (length (sis_additionalItems t))])"
  by (auto simp: SmallImmutableSet_merge_def Let_def SmallImmutableSet_create_def)

lemma sis_merge: "sis_keys (SmallImmutableSet_merge s t) = sis_keys s \<union> sis_keys t"
proof (rule set_eqI)
  fix k
  show "k \<in> sis_keys (SmallImmutableSet_merge s t) \<longleftrightarrow> k \<in> sis_keys s \<union> sis_keys t"
    by (auto simp: SmallImmutableSet_merge_eq sis_keys_create sis_keys_iff [of k s] sis_keys_iff [of k t] sis_merge_item bit_or_iff)
qed

lemma or_zero_iff: "(w :: 32 word) OR v = 0 \<longleftrightarrow> w = 0 \<and> v = 0"
  by (auto simp: bit_eq_iff bit_or_iff)

lemma last_eq_item: "ws \<noteq> [] \<Longrightarrow> last ws = sis_item_or_0 ws (length ws - 1)"
  by (simp add: sis_item_or_0_eq last_conv_nth)

lemma length_sis_set_bit: "length (sis_set_bit ws idx b) = max (length ws) (Suc idx)"
  by (auto simp: sis_set_bit_def Let_def)

lemma sis_wf_create: "sis_wf (SmallImmutableSet_create w ws) \<longleftrightarrow> ws = [] \<or> sis_item_or_0 ws (length ws - 1) \<noteq> 0"
  by (auto simp: sis_wf_def SmallImmutableSet_create_def last_eq_item)

lemma sis_wf_iff: "sis_wf s \<longleftrightarrow> sis_additionalItems s = [] \<or> sis_item_or_0 (sis_additionalItems s) (length (sis_additionalItems s) - 1) \<noteq> 0"
  using sis_wf_create [of "sis_items s" "sis_additionalItems s"] by (simp add: SmallImmutableSet_eta)

lemma sis_wf_add: "sis_wf s \<Longrightarrow> sis_wf (SmallImmutableSet_add k s)"
  by (auto simp: SmallImmutableSet_add_eq sis_wf_create sis_wf_iff [of s] sis_set_bit_item length_sis_set_bit or_zero_iff max_def)

lemma sis_wf_merge: "sis_wf s \<Longrightarrow> sis_wf t \<Longrightarrow> sis_wf (SmallImmutableSet_merge s t)"
  by (auto simp: SmallImmutableSet_merge_eq sis_wf_create sis_wf_iff [of s] sis_wf_iff [of t] sis_merge_item or_zero_iff max_def)

lemma sis_keys_at:
  assumes "n < 32"
  shows "n \<in> sis_keys s \<longleftrightarrow> bit (sis_items s) n"
    and "Suc i * 32 + n \<in> sis_keys s \<longleftrightarrow> bit (sis_item_or_0 (sis_additionalItems s) i) n"
proof -
  have "(Suc i * 32 + n) div 32 = Suc i" "(Suc i * 32 + n) mod 32 = n" using assms by (simp_all del: mult_Suc)
  then show "Suc i * 32 + n \<in> sis_keys s \<longleftrightarrow> bit (sis_item_or_0 (sis_additionalItems s) i) n"
    by (simp add: sis_keys_iff del: mult_Suc)
  show "n \<in> sis_keys s \<longleftrightarrow> bit (sis_items s) n" using assms by (simp add: sis_keys_iff)
qed

lemma key_cases [case_names items additional]:
  fixes k :: nat
  obtains n where "n < 32" "k = n" | i n where "n < 32" "k = Suc i * 32 + n"
proof (cases "k < 32")
  case False
  then have "Suc (k div 32 - 1) = k div 32" by simp
  then show ?thesis using that(2) [of "k mod 32" "k div 32 - 1"] by (simp del: mult_Suc)
qed (use that(1) in blast)

lemma sis_intersects: "SmallImmutableSet_intersects s t \<longleftrightarrow> sis_keys s \<inter> sis_keys t \<noteq> {}"
proof
  assume "SmallImmutableSet_intersects s t"
  then consider "sis_items s AND sis_items t \<noteq> 0"
    | i where "sis_item_or_0 (sis_additionalItems s) i AND sis_item_or_0 (sis_additionalItems t) i \<noteq> 0"
    unfolding SmallImmutableSet_intersects_def list_ex_iff in_set_zip by (auto simp: in_set_zip) (metis sis_item_or_0_eq)
  then show "sis_keys s \<inter> sis_keys t \<noteq> {}"
    by cases (auto simp: and_nonzero_iff simp flip: sis_keys_at)
next
  assume "sis_keys s \<inter> sis_keys t \<noteq> {}"
  then obtain k where "k \<in> sis_keys s" "k \<in> sis_keys t" by auto
  then show "SmallImmutableSet_intersects s t"
  proof (cases k rule: key_cases)
    case (items n)
    then show ?thesis using \<open>k \<in> sis_keys s\<close> \<open>k \<in> sis_keys t\<close>
      by (auto simp: SmallImmutableSet_intersects_def sis_keys_at and_nonzero_iff)
  next
    case (additional i n)
    then have "bit (sis_item_or_0 (sis_additionalItems s) i) n" "bit (sis_item_or_0 (sis_additionalItems t) i) n"
      using \<open>k \<in> sis_keys s\<close> \<open>k \<in> sis_keys t\<close> by (simp_all add: sis_keys_at del: mult_Suc)
    then have "(sis_additionalItems s ! i, sis_additionalItems t ! i) \<in> set (zip (sis_additionalItems s) (sis_additionalItems t)) \<and>
        sis_additionalItems s ! i AND sis_additionalItems t ! i \<noteq> 0"
      using additional(1) by (auto simp: sis_item_or_0_eq in_set_zip and_nonzero_iff split: if_splits)
    then show ?thesis by (auto simp: SmallImmutableSet_intersects_def list_ex_iff)
  qed
qed

lemma sis_length_le:
  assumes "sis_wf t" "sis_keys t \<subseteq> sis_keys s" shows "length (sis_additionalItems t) \<le> length (sis_additionalItems s)"
proof (cases "sis_additionalItems t = []")
  case False
  let ?i = "length (sis_additionalItems t) - 1"
  have "sis_item_or_0 (sis_additionalItems t) ?i \<noteq> 0" using assms(1) False by (simp add: sis_wf_iff)
  then obtain n where n: "n < 32" "bit (sis_item_or_0 (sis_additionalItems t) ?i) n"
    using and_nonzero_iff [of "sis_item_or_0 (sis_additionalItems t) ?i" "sis_item_or_0 (sis_additionalItems t) ?i"] by auto
  then have "bit (sis_item_or_0 (sis_additionalItems s) ?i) n"
    using assms(2) by (auto simp flip: sis_keys_at simp del: mult_Suc)
  then show ?thesis by (auto simp: sis_item_or_0_eq split: if_splits)
qed simp

lemma sis_equals:
  assumes "sis_wf s" "sis_wf t" shows "SmallImmutableSet_equals s t \<longleftrightarrow> sis_keys s = sis_keys t"
proof
  assume "SmallImmutableSet_equals s t"
  then have "sis_items s = sis_items t" "sis_additionalItems s = sis_additionalItems t"
    by (auto simp: SmallImmutableSet_equals_def list_all_iff list_eq_iff_zip_eq)
  then show "sis_keys s = sis_keys t" by (simp add: sis_keys_def)
next
  assume eq: "sis_keys s = sis_keys t"
  have "sis_items s = sis_items t"
    by (rule bit_word_eqI) (use eq in \<open>simp flip: sis_keys_at(1)\<close>)
  moreover have len: "length (sis_additionalItems s) = length (sis_additionalItems t)"
    using sis_length_le assms eq by (simp add: le_antisym)
  moreover have "sis_item_or_0 (sis_additionalItems s) i = sis_item_or_0 (sis_additionalItems t) i" for i
    by (rule bit_word_eqI) (use eq in \<open>simp flip: sis_keys_at(2) del: mult_Suc\<close>)
  then have "list_all (\<lambda>(a, b). a = b) (zip (sis_additionalItems s) (sis_additionalItems t))"
    by (auto simp: list_all_iff in_set_zip) (metis len sis_item_or_0_eq)
  ultimately show "SmallImmutableSet_equals s t" by (simp add: SmallImmutableSet_equals_def)
qed

lemma sis_getEmpty: "sis_wf SmallImmutableSet_getEmpty" "sis_keys SmallImmutableSet_getEmpty = {}"
  by (auto simp: SmallImmutableSet_getEmpty_def sis_wf_create sis_keys_create sis_item_or_0_eq split: if_splits)

interpretation sis: key_sets sis_wf sis_keys SmallImmutableSet_getEmpty SmallImmutableSet_add SmallImmutableSet_has
  SmallImmutableSet_merge SmallImmutableSet_intersects SmallImmutableSet_equals
  by unfold_locales
    (simp_all add: sis_add sis_has sis_merge sis_intersects sis_equals sis_wf_add sis_wf_merge sis_getEmpty)

section \<open>Dense keys\<close>

definition dkp_wf :: "'a DenseKeyProvider \<Rightarrow> bool" where
  "dkp_wf p \<longleftrightarrow> map snd (dkp_items p) = [0 ..< length (dkp_items p)] \<and> distinct (map fst (dkp_items p))"

lemma dkp_wf_new: "dkp_wf new_DenseKeyProvider"
  by (simp add: dkp_wf_def new_DenseKeyProvider_def)

lemma dkp_map_of:
  assumes "dkp_wf p" shows "map_of (dkp_items p) v = Some k \<longleftrightarrow> k < length (dkp_items p) \<and> fst (dkp_items p ! k) = v"
proof -
  have nth: "snd (dkp_items p ! i) = i" if "i < length (dkp_items p)" for i
    using assms that by (metis add_0 diff_zero dkp_wf_def length_map nth_map nth_upt)
  have "map_of (dkp_items p) v = Some k \<longleftrightarrow> (v, k) \<in> set (dkp_items p)"
    using assms by (simp add: dkp_wf_def)
  then show ?thesis using nth by (fastforce simp: in_set_conv_nth prod_eq_iff)
qed

lemma dkp_getKey:
  assumes "dkp_wf p" and "DenseKeyProvider_getKey v p = (k, p')"
  shows "dkp_wf p'" and "map_of (dkp_items p') v = Some k"
    and "map_of (dkp_items p) u = Some j \<Longrightarrow> map_of (dkp_items p') u = Some j"
    and "map fst (dkp_items p') = (if v \<in> set (map fst (dkp_items p)) then map fst (dkp_items p) else map fst (dkp_items p) @ [v])"
  using assms
  by (auto simp: DenseKeyProvider_getKey_def dkp_wf_def Let_def map_add_def map_of_eq_None_iff image_iff
      split: option.splits dest: map_of_SomeD) force+

lemma dkp_reverseLookup:
  assumes "dkp_wf p" shows "DenseKeyProvider_reverseLookup k p = Some v \<longleftrightarrow> map_of (dkp_items p) v = Some k"
proof -
  have nth: "snd (dkp_items p ! i) = i" if "i < length (dkp_items p)" for i
    using assms that by (metis add_0 diff_zero dkp_wf_def length_map nth_map nth_upt)
  show ?thesis
    using nth unfolding dkp_map_of [OF assms] DenseKeyProvider_reverseLookup_def
    by (auto simp: find_Some_iff case_prod_beta prod_eq_iff) (metis order.strict_trans less_irrefl)
qed



text \<open>
  The dense key provider numbers values in the order they are first seen: a value keeps its key, different
  values have different keys, the keys are the numbers below their count, and looking up a key or a set of
  keys gives back exactly the values that have them.
\<close>

theorem DenseKeyProvider_numbers_values:
  assumes "dkp_wf p" and "DenseKeyProvider_getKey v p = (k, p')"
  shows "dkp_wf p' \<and> DenseKeyProvider_reverseLookup k p' = Some v \<and> fst (DenseKeyProvider_getKey v p') = k \<and>
    DenseKeyProvider_keys p' = (if v \<in> set (DenseKeyProvider_keys p) then DenseKeyProvider_keys p else DenseKeyProvider_keys p @ [v]) \<and>
    (\<forall>u j. DenseKeyProvider_reverseLookup j p = Some u \<longrightarrow> DenseKeyProvider_reverseLookup j p' = Some u) \<and>
    (\<forall>j. (\<exists>u. DenseKeyProvider_reverseLookup j p' = Some u) \<longleftrightarrow> j < length (DenseKeyProvider_keys p')) \<and>
    set (DenseKeyProvider_reverseLookupSet s p') = {u. \<exists>j \<in> sis_keys s. DenseKeyProvider_reverseLookup j p' = Some u}"
proof -
  note g = dkp_getKey [OF assms]
  have len: "(\<exists>u. DenseKeyProvider_reverseLookup j p' = Some u) \<longleftrightarrow> j < length (DenseKeyProvider_keys p')" for j
    by (simp add: DenseKeyProvider_keys_def dkp_reverseLookup [OF g(1)] dkp_map_of [OF g(1)])
  moreover have "set (DenseKeyProvider_reverseLookupSet s p') = {u. \<exists>j \<in> sis_keys s. DenseKeyProvider_reverseLookup j p' = Some u}"
  proof -
    have "u \<in> set (map fst (dkp_items p')) \<longleftrightarrow> (\<exists>j. map_of (dkp_items p') u = Some j)" for u
      by (metis list.set_map map_of_eq_None_iff not_None_eq)
    moreover have "fst (DenseKeyProvider_getKey u p') = j" if "map_of (dkp_items p') u = Some j" for u j
      using that by (simp add: DenseKeyProvider_getKey_def)
    ultimately show ?thesis
      unfolding DenseKeyProvider_reverseLookupSet_def sis_has set_filter dkp_reverseLookup [OF g(1)] by fastforce
  qed
  moreover have "fst (DenseKeyProvider_getKey v p') = k" using g(2) by (simp add: DenseKeyProvider_getKey_def)
  moreover have "DenseKeyProvider_reverseLookup j p' = Some u" if "DenseKeyProvider_reverseLookup j p = Some u" for u j
    using that g(3) by (simp add: dkp_reverseLookup [OF g(1)] dkp_reverseLookup [OF assms(1)])
  ultimately show ?thesis using g(1,2) g(4) [folded DenseKeyProvider_keys_def] dkp_reverseLookup [OF g(1)] by blast
qed

theorem DenseKeyProvider_numbers_values_witness:
  "let p = snd (DenseKeyProvider_getKey ''a'' new_DenseKeyProvider); p' = snd (DenseKeyProvider_getKey ''b'' p)
   in fst (DenseKeyProvider_getKey ''b'' p) = 1 \<and> DenseKeyProvider_reverseLookup 1 p' = Some ''b'' \<and>
      DenseKeyProvider_keys p' = [''a'', ''b'']"
proof -
  let ?p = "snd (DenseKeyProvider_getKey ''a'' new_DenseKeyProvider)"
  have k: "dkp_wf ?p" "DenseKeyProvider_getKey ''b'' ?p = (1, snd (DenseKeyProvider_getKey ''b'' ?p))"
    "fst (DenseKeyProvider_getKey ''b'' ?p) = 1" "DenseKeyProvider_keys ?p = [''a'']" by code_simp+
  from DenseKeyProvider_numbers_values [OF k(1,2), of SmallImmutableSet_getEmpty] k(3,4) show ?thesis by (simp add: Let_def)
qed

end
