(* ===== verification/Bracket_Ast.thy ===== *)
theory Bracket_Ast
  imports Bracket_Length Small_Set
begin

text \<open>
  The nodes of the bracket pair tree:
  \<open>src/vs/editor/common/model/bracketPairsTextModelPart/bracketPairsTree/ast.ts\<close>. Every node caches its length and the
  ids of the closing brackets that found no opening one; list nodes form (2,3) trees. An object the source
  mutates is a node that is returned changed; the flag of a list node is whether its class is one of the immutable ones, whose
  mutators throw. The cache of the minimal indentation is left out.
\<close>

section \<open>Nodes\<close>

datatype AstNodeKind = Kind_Text | Kind_Bracket | Kind_Pair | Kind_UnexpectedClosingBracket | Kind_List

text \<open>A bracket node carries the description of the bracket, a value the tree only stores.\<close>

record 'b BracketNode =
  bn_length :: Length
  bn_bracketInfo :: 'b
  bn_bracketIds :: SmallImmutableSet

datatype 'b AstNode =
    TextAstNode Length
  | BracketAstNode "'b BracketNode"
  | PairAstNode Length "'b BracketNode" "'b AstNode option" "'b BracketNode option" SmallImmutableSet
  | InvalidBracketAstNode SmallImmutableSet Length
  | TwoThreeListAstNode bool Length number "'b AstNode" "'b AstNode" "'b AstNode option" SmallImmutableSet
  | ArrayListAstNode bool Length number "'b AstNode list" SmallImmutableSet

fun AstNode_kind :: "'b AstNode \<Rightarrow> AstNodeKind" where
  "AstNode_kind (TextAstNode _) = Kind_Text"
| "AstNode_kind (BracketAstNode _) = Kind_Bracket"
| "AstNode_kind (PairAstNode _ _ _ _ _) = Kind_Pair"
| "AstNode_kind (InvalidBracketAstNode _ _) = Kind_UnexpectedClosingBracket"
| "AstNode_kind (TwoThreeListAstNode _ _ _ _ _ _ _) = Kind_List"
| "AstNode_kind (ArrayListAstNode _ _ _ _ _) = Kind_List"

fun AstNode_length :: "'b AstNode \<Rightarrow> Length" where
  "AstNode_length (TextAstNode l) = l"
| "AstNode_length (BracketAstNode b) = bn_length b"
| "AstNode_length (PairAstNode l _ _ _ _) = l"
| "AstNode_length (InvalidBracketAstNode _ l) = l"
| "AstNode_length (TwoThreeListAstNode _ l _ _ _ _ _) = l"
| "AstNode_length (ArrayListAstNode _ l _ _ _) = l"

fun AstNode_listHeight :: "'b AstNode \<Rightarrow> number" where
  "AstNode_listHeight (TwoThreeListAstNode _ _ h _ _ _ _) = h"
| "AstNode_listHeight (ArrayListAstNode _ _ h _ _) = h"
| "AstNode_listHeight _ = 0"

fun AstNode_missingOpeningBracketIds :: "'b AstNode \<Rightarrow> SmallImmutableSet" where
  "AstNode_missingOpeningBracketIds (TextAstNode _) = SmallImmutableSet_getEmpty"
| "AstNode_missingOpeningBracketIds (BracketAstNode _) = SmallImmutableSet_getEmpty"
| "AstNode_missingOpeningBracketIds (PairAstNode _ _ _ _ m) = m"
| "AstNode_missingOpeningBracketIds (InvalidBracketAstNode m _) = m"
| "AstNode_missingOpeningBracketIds (TwoThreeListAstNode _ _ _ _ _ _ m) = m"
| "AstNode_missingOpeningBracketIds (ArrayListAstNode _ _ _ _ m) = m"

fun AstNode_childrenLength :: "'b AstNode \<Rightarrow> number" where
  "AstNode_childrenLength (PairAstNode _ _ _ _ _) = 3"
| "AstNode_childrenLength (TwoThreeListAstNode _ _ _ _ _ c _) = (if c \<noteq> None then 3 else 2)"
| "AstNode_childrenLength (ArrayListAstNode _ _ _ cs _) = int (length cs)"
| "AstNode_childrenLength _ = 0"

fun AstNode_getChild :: "number \<Rightarrow> 'b AstNode \<Rightarrow> 'b AstNode option result" where
  "AstNode_getChild idx (PairAstNode _ ob child cb _) =
     (if idx = 0 then Inr (Some (BracketAstNode ob)) else if idx = 1 then Inr child
      else if idx = 2 then Inr (map_option BracketAstNode cb) else Inl PlainError)"
| "AstNode_getChild idx (TwoThreeListAstNode _ _ _ a b c _) =
     (if idx = 0 then Inr (Some a) else if idx = 1 then Inr (Some b) else if idx = 2 then Inr c else Inl PlainError)"
| "AstNode_getChild idx (ArrayListAstNode _ _ _ cs _) = Inr (arr_at cs idx)"
| "AstNode_getChild idx _ = Inr None"

fun AstNode_children :: "'b AstNode \<Rightarrow> 'b AstNode list" where
  "AstNode_children (PairAstNode _ ob child cb _) =
     BracketAstNode ob # (case child of None \<Rightarrow> [] | Some c \<Rightarrow> [c]) @ (case cb of None \<Rightarrow> [] | Some b \<Rightarrow> [BracketAstNode b])"
| "AstNode_children (TwoThreeListAstNode _ _ _ a b c _) = (case c of Some c \<Rightarrow> [a, b, c] | None \<Rightarrow> [a, b])"
| "AstNode_children (ArrayListAstNode _ _ _ cs _) = cs"
| "AstNode_children _ = []"

section \<open>Creating nodes\<close>

definition PairAstNode_create :: "'b BracketNode \<Rightarrow> 'b AstNode option \<Rightarrow> 'b BracketNode option \<Rightarrow> 'b AstNode" where
  "PairAstNode_create openingBracket child closingBracket =
     (let l0 = bn_length openingBracket;
          l1 = (case child of None \<Rightarrow> l0 | Some c \<Rightarrow> lengthAdd l0 (AstNode_length c));
          l2 = (case closingBracket of None \<Rightarrow> l1 | Some b \<Rightarrow> lengthAdd l1 (bn_length b))
      in PairAstNode l2 openingBracket child closingBracket
           (case child of None \<Rightarrow> SmallImmutableSet_getEmpty | Some c \<Rightarrow> AstNode_missingOpeningBracketIds c))"

definition ListAstNode_create23 :: "'b AstNode \<Rightarrow> 'b AstNode \<Rightarrow> 'b AstNode option \<Rightarrow> bool \<Rightarrow> 'b AstNode result" where
  "ListAstNode_create23 item1 item2 item3 imm =
     (if AstNode_listHeight item1 \<noteq> AstNode_listHeight item2 then Inl PlainError
      else let l = lengthAdd (AstNode_length item1) (AstNode_length item2);
               m = SmallImmutableSet_merge (AstNode_missingOpeningBracketIds item1) (AstNode_missingOpeningBracketIds item2)
           in case item3 of
                None \<Rightarrow> Inr (TwoThreeListAstNode imm l (AstNode_listHeight item1 + 1) item1 item2 None m)
              | Some c \<Rightarrow>
                  if AstNode_listHeight item1 \<noteq> AstNode_listHeight c then Inl PlainError
                  else Inr (TwoThreeListAstNode imm (lengthAdd l (AstNode_length c)) (AstNode_listHeight item1 + 1) item1 item2 item3
                         (SmallImmutableSet_merge m (AstNode_missingOpeningBracketIds c))))"

text \<open>The sums over a non-empty array of children, as \<open>create\<close> and \<open>handleChildrenChanged\<close> compute them.\<close>

definition children_length :: "'b AstNode list \<Rightarrow> Length" where
  "children_length cs = foldl (\<lambda>l c. lengthAdd l (AstNode_length c)) (AstNode_length (hd cs)) (tl cs)"

definition children_missing :: "'b AstNode list \<Rightarrow> SmallImmutableSet" where
  "children_missing cs =
     foldl (\<lambda>m c. SmallImmutableSet_merge m (AstNode_missingOpeningBracketIds c)) (AstNode_missingOpeningBracketIds (hd cs)) (tl cs)"

definition ListAstNode_getEmpty :: "'b AstNode" where
  "ListAstNode_getEmpty = ArrayListAstNode True lengthZero 0 [] SmallImmutableSet_getEmpty"

definition ListAstNode_create :: "'b AstNode list \<Rightarrow> bool \<Rightarrow> 'b AstNode" where
  "ListAstNode_create items imm =
     (if items = [] then ListAstNode_getEmpty
      else ArrayListAstNode imm (children_length items) (AstNode_listHeight (hd items) + 1) items (children_missing items))"

section \<open>Mutating list nodes\<close>

fun ListAstNode_throwIfImmutable :: "'b AstNode \<Rightarrow> unit result" where
  "ListAstNode_throwIfImmutable (TwoThreeListAstNode imm _ _ _ _ _ _) = (if imm then Inl PlainError else Inr ())"
| "ListAstNode_throwIfImmutable (ArrayListAstNode imm _ _ _ _) = (if imm then Inl PlainError else Inr ())"
| "ListAstNode_throwIfImmutable _ = Inr ()"

fun ListAstNode_toMutable :: "'b AstNode \<Rightarrow> 'b AstNode" where
  "ListAstNode_toMutable (TwoThreeListAstNode _ l h a b c m) = TwoThreeListAstNode False l h a b c m"
| "ListAstNode_toMutable (ArrayListAstNode _ l h cs m) = ArrayListAstNode False l h cs m"
| "ListAstNode_toMutable n = n"

fun ListAstNode_setChild :: "number \<Rightarrow> 'b AstNode \<Rightarrow> 'b AstNode \<Rightarrow> 'b AstNode result" where
  "ListAstNode_setChild idx node (TwoThreeListAstNode imm l h a b c m) =
     (if idx = 0 then Inr (TwoThreeListAstNode imm l h node b c m)
      else if idx = 1 then Inr (TwoThreeListAstNode imm l h a node c m)
      else if idx = 2 then Inr (TwoThreeListAstNode imm l h a b (Some node) m)
      else Inl PlainError)"
| "ListAstNode_setChild idx node (ArrayListAstNode imm l h cs m) = Inr (ArrayListAstNode imm l h (cs[nat idx := node]) m)"
| "ListAstNode_setChild idx node n = Inr n"

definition mutable_child :: "'b AstNode \<Rightarrow> 'b AstNode" where
  "mutable_child child = (if AstNode_kind child = Kind_List then ListAstNode_toMutable child else child)"

text \<open>Both return the child, which the parent now holds, and the parent.\<close>

definition ListAstNode_makeElementMutable :: "number \<Rightarrow> 'b AstNode \<Rightarrow> ('b AstNode option \<times> 'b AstNode) result" where
  "ListAstNode_makeElementMutable idx this =
     result_bind (AstNode_getChild idx this) (\<lambda>child.
       case child of None \<Rightarrow> Inl TypeError
       | Some c \<Rightarrow> result_bind (ListAstNode_setChild idx (mutable_child c) this) (\<lambda>this'. Inr (Some (mutable_child c), this')))"

definition ListAstNode_makeLastElementMutable :: "'b AstNode \<Rightarrow> ('b AstNode option \<times> 'b AstNode) result" where
  "ListAstNode_makeLastElementMutable this =
     result_bind (ListAstNode_throwIfImmutable this) (\<lambda>_.
       let childCount = AstNode_childrenLength this
       in if childCount = 0 then Inr (None, this) else ListAstNode_makeElementMutable (childCount - 1) this)"

definition ListAstNode_makeFirstElementMutable :: "'b AstNode \<Rightarrow> ('b AstNode option \<times> 'b AstNode) result" where
  "ListAstNode_makeFirstElementMutable this =
     result_bind (ListAstNode_throwIfImmutable this) (\<lambda>_.
       let childCount = AstNode_childrenLength this
       in if childCount = 0 then Inr (None, this) else ListAstNode_makeElementMutable 0 this)"

fun ListAstNode_update :: "Length \<Rightarrow> SmallImmutableSet \<Rightarrow> 'b AstNode \<Rightarrow> 'b AstNode" where
  "ListAstNode_update l m (TwoThreeListAstNode imm _ h a b c _) = TwoThreeListAstNode imm l h a b c m"
| "ListAstNode_update l m (ArrayListAstNode imm _ h cs _) = ArrayListAstNode imm l h cs m"
| "ListAstNode_update l m n = n"

definition ListAstNode_handleChildrenChanged :: "'b AstNode \<Rightarrow> 'b AstNode result" where
  "ListAstNode_handleChildrenChanged this =
     result_bind (ListAstNode_throwIfImmutable this) (\<lambda>_.
       if AstNode_children this = [] then Inl TypeError
       else Inr (ListAstNode_update (children_length (AstNode_children this)) (children_missing (AstNode_children this)) this))"

fun ListAstNode_appendChildOfSameHeight :: "'b AstNode \<Rightarrow> 'b AstNode \<Rightarrow> 'b AstNode result" where
  "ListAstNode_appendChildOfSameHeight node (TwoThreeListAstNode imm l h a b c m) =
     (case c of
        Some _ \<Rightarrow> Inl PlainError
      | None \<Rightarrow> result_bind (ListAstNode_throwIfImmutable (TwoThreeListAstNode imm l h a b c m))
          (\<lambda>_. ListAstNode_handleChildrenChanged (TwoThreeListAstNode imm l h a b (Some node) m)))"
| "ListAstNode_appendChildOfSameHeight node (ArrayListAstNode imm l h cs m) =
     result_bind (ListAstNode_throwIfImmutable (ArrayListAstNode imm l h cs m))
       (\<lambda>_. ListAstNode_handleChildrenChanged (ArrayListAstNode imm l h (cs @ [node]) m))"
| "ListAstNode_appendChildOfSameHeight node n = Inl TypeError"

fun ListAstNode_unappendChild :: "'b AstNode \<Rightarrow> ('b AstNode option \<times> 'b AstNode) result" where
  "ListAstNode_unappendChild (TwoThreeListAstNode imm l h a b c m) =
     (case c of
        None \<Rightarrow> Inl PlainError
      | Some r \<Rightarrow> result_bind (ListAstNode_throwIfImmutable (TwoThreeListAstNode imm l h a b c m))
          (\<lambda>_. result_map (Pair (Some r)) (ListAstNode_handleChildrenChanged (TwoThreeListAstNode imm l h a b None m))))"
| "ListAstNode_unappendChild (ArrayListAstNode imm l h cs m) =
     result_bind (ListAstNode_throwIfImmutable (ArrayListAstNode imm l h cs m))
       (\<lambda>_. result_map (Pair (if cs = [] then None else Some (last cs)))
              (ListAstNode_handleChildrenChanged (ArrayListAstNode imm l h (butlast cs) m)))"
| "ListAstNode_unappendChild n = Inl TypeError"

fun ListAstNode_prependChildOfSameHeight :: "'b AstNode \<Rightarrow> 'b AstNode \<Rightarrow> 'b AstNode result" where
  "ListAstNode_prependChildOfSameHeight node (TwoThreeListAstNode imm l h a b c m) =
     (case c of
        Some _ \<Rightarrow> Inl PlainError
      | None \<Rightarrow> result_bind (ListAstNode_throwIfImmutable (TwoThreeListAstNode imm l h a b c m))
          (\<lambda>_. ListAstNode_handleChildrenChanged (TwoThreeListAstNode imm l h node a (Some b) m)))"
| "ListAstNode_prependChildOfSameHeight node (ArrayListAstNode imm l h cs m) =
     result_bind (ListAstNode_throwIfImmutable (ArrayListAstNode imm l h cs m))
       (\<lambda>_. ListAstNode_handleChildrenChanged (ArrayListAstNode imm l h (node # cs) m))"
| "ListAstNode_prependChildOfSameHeight node n = Inl TypeError"

fun ListAstNode_unprependChild :: "'b AstNode \<Rightarrow> ('b AstNode option \<times> 'b AstNode) result" where
  "ListAstNode_unprependChild (TwoThreeListAstNode imm l h a b c m) =
     (case c of
        None \<Rightarrow> Inl PlainError
      | Some r \<Rightarrow> result_bind (ListAstNode_throwIfImmutable (TwoThreeListAstNode imm l h a b c m))
          (\<lambda>_. result_map (Pair (Some a)) (ListAstNode_handleChildrenChanged (TwoThreeListAstNode imm l h b r None m))))"
| "ListAstNode_unprependChild (ArrayListAstNode imm l h cs m) =
     result_bind (ListAstNode_throwIfImmutable (ArrayListAstNode imm l h cs m))
       (\<lambda>_. result_map (Pair (case cs of [] \<Rightarrow> None | c # _ \<Rightarrow> Some c))
              (ListAstNode_handleChildrenChanged (ArrayListAstNode imm l h (tl cs) m)))"
| "ListAstNode_unprependChild n = Inl TypeError"

section \<open>Reuse, flattening and cloning\<close>

lemma size_last_child [termination_simp]: "cs \<noteq> [] \<Longrightarrow> size (last cs) < Suc (size_list size cs)"
  by (metis last_in_set le_imp_less_Suc order.refl size_list_estimation')

text \<open>\<open>canBeReused\<close> of the nodes that are not lists, and of a list, which descends to its last leaf.\<close>

fun leaf_canBeReused :: "SmallImmutableSet \<Rightarrow> 'b AstNode \<Rightarrow> bool" where
  "leaf_canBeReused openBracketIds (TextAstNode _) = True"
| "leaf_canBeReused openBracketIds (BracketAstNode _) = False"
| "leaf_canBeReused openBracketIds (PairAstNode _ _ _ cb m) =
     (if cb = None then False else if SmallImmutableSet_intersects openBracketIds m then False else True)"
| "leaf_canBeReused openBracketIds (InvalidBracketAstNode m _) = (\<not> SmallImmutableSet_intersects openBracketIds m)"
| "leaf_canBeReused openBracketIds _ = False"

fun last_leaf :: "'b AstNode \<Rightarrow> 'b AstNode result" where
  "last_leaf (TwoThreeListAstNode _ _ _ a b c _) = (case c of Some c \<Rightarrow> last_leaf c | None \<Rightarrow> last_leaf b)"
| "last_leaf (ArrayListAstNode _ _ _ cs _) = (if cs = [] then Inl BugIndicatingError else last_leaf (last cs))"
| "last_leaf n = Inr n"

definition AstNode_canBeReused :: "SmallImmutableSet \<Rightarrow> 'b AstNode \<Rightarrow> bool result" where
  "AstNode_canBeReused openBracketIds this =
     (if AstNode_kind this = Kind_List
      then if SmallImmutableSet_intersects openBracketIds (AstNode_missingOpeningBracketIds this) then Inr False
           else if AstNode_childrenLength this = 0 then Inr False
           else result_map (leaf_canBeReused openBracketIds) (last_leaf this)
      else Inr (leaf_canBeReused openBracketIds this))"

function (sequential) AstNode_flattenLists :: "'b AstNode \<Rightarrow> 'b AstNode" where
  "AstNode_flattenLists (PairAstNode l ob child cb m) = PairAstNode_create ob (map_option AstNode_flattenLists child) cb"
| "AstNode_flattenLists (TwoThreeListAstNode imm l h a b c m) =
     ListAstNode_create (concat (map (\<lambda>n. let f = AstNode_flattenLists n in if AstNode_kind f = Kind_List then AstNode_children f else [f])
       (case c of Some c \<Rightarrow> [a, b, c] | None \<Rightarrow> [a, b]))) False"
| "AstNode_flattenLists (ArrayListAstNode imm l h cs m) =
     ListAstNode_create (concat (map (\<lambda>n. let f = AstNode_flattenLists n in if AstNode_kind f = Kind_List then AstNode_children f else [f]) cs)) False"
| "AstNode_flattenLists n = n"
  by pat_completeness auto
termination
  by (relation "measure size") (auto split: option.splits simp: termination_simp)

fun AstNode_deepClone :: "'b AstNode \<Rightarrow> 'b AstNode" where
  "AstNode_deepClone (PairAstNode l ob child cb m) = PairAstNode l ob (map_option AstNode_deepClone child) cb m"
| "AstNode_deepClone (TwoThreeListAstNode imm l h a b c m) =
     TwoThreeListAstNode False l h (AstNode_deepClone a) (AstNode_deepClone b) (map_option AstNode_deepClone c) m"
| "AstNode_deepClone (ArrayListAstNode imm l h cs m) = ArrayListAstNode False l h (map AstNode_deepClone cs) m"
| "AstNode_deepClone n = n"

section \<open>Well-formed (2,3) trees\<close>

text \<open>
  The items of a list are its leaves in order. A node is well formed when the cached length and ids are those of its
  children and the children of a list have the same height; the list nodes are those with two or three children.
\<close>

fun list_items :: "'b AstNode \<Rightarrow> 'b AstNode list" where
  "list_items (TwoThreeListAstNode _ _ _ a b c _) =
     list_items a @ list_items b @ (case c of None \<Rightarrow> [] | Some c \<Rightarrow> list_items c)"
| "list_items (ArrayListAstNode _ _ _ cs _) = concat (map list_items cs)"
| "list_items n = [n]"

fun tree23 :: "'b AstNode \<Rightarrow> bool" where
  "tree23 (TextAstNode l) = True"
| "tree23 (BracketAstNode b) = True"
| "tree23 (InvalidBracketAstNode m l) = sis_wf m"
| "tree23 (PairAstNode l ob child cb m) \<longleftrightarrow>
     PairAstNode_create ob child cb = PairAstNode l ob child cb m \<and> (case child of None \<Rightarrow> True | Some c \<Rightarrow> tree23 c)"
| "tree23 (TwoThreeListAstNode imm l h a b c m) \<longleftrightarrow>
     ListAstNode_create23 a b c imm = Inr (TwoThreeListAstNode imm l h a b c m) \<and>
     tree23 a \<and> tree23 b \<and> (case c of None \<Rightarrow> True | Some c \<Rightarrow> tree23 c)"
| "tree23 (ArrayListAstNode imm l h cs m) = False"

lemma create23_Inr:
  "ListAstNode_create23 a b c imm = Inr t \<longleftrightarrow>
     AstNode_listHeight a = AstNode_listHeight b \<and> (\<forall>x. c = Some x \<longrightarrow> AstNode_listHeight a = AstNode_listHeight x) \<and>
     t = TwoThreeListAstNode imm (children_length (a # b # (case c of None \<Rightarrow> [] | Some x \<Rightarrow> [x]))) (AstNode_listHeight a + 1) a b c
       (children_missing (a # b # (case c of None \<Rightarrow> [] | Some x \<Rightarrow> [x])))"
  by (auto simp: ListAstNode_create23_def Let_def children_length_def children_missing_def split: option.splits)

lemma tree23_induct [consumes 1, case_names leaf list]:
  assumes "tree23 t"
    and "\<And>t. tree23 t \<Longrightarrow> AstNode_kind t \<noteq> Kind_List \<Longrightarrow> list_items t = [t] \<Longrightarrow> AstNode_listHeight t = 0 \<Longrightarrow> P t"
    and "\<And>t a b cs. tree23 t \<Longrightarrow> AstNode_kind t = Kind_List \<Longrightarrow> AstNode_children t = a # b # cs \<Longrightarrow> length cs \<le> 1 \<Longrightarrow>
      (\<forall>x \<in> set (a # b # cs). tree23 x \<and> AstNode_listHeight x = AstNode_listHeight t - 1 \<and> P x) \<Longrightarrow>
      AstNode_length t = children_length (a # b # cs) \<Longrightarrow> AstNode_missingOpeningBracketIds t = children_missing (a # b # cs) \<Longrightarrow>
      list_items t = concat (map list_items (a # b # cs)) \<Longrightarrow> P t"
  shows "P t"
  using assms(1)
proof (induction t rule: list_items.induct)
  case (1 imm l h a b c m)
  show ?case
    by (rule assms(3) [of _ a b "case c of None \<Rightarrow> [] | Some x \<Rightarrow> [x]"])
      (use 1 in \<open>auto simp: create23_Inr split: option.splits\<close>)
qed (use assms(2) in auto)

lemma tree23_height_nonneg: "tree23 t \<Longrightarrow> 0 \<le> AstNode_listHeight t"
  by (induction t rule: tree23_induct) auto

lemma tree23_leaf_height: "tree23 t \<Longrightarrow> AstNode_listHeight t = 0 \<longleftrightarrow> AstNode_kind t \<noteq> Kind_List"
  by (induction t rule: tree23_induct) (use tree23_height_nonneg in fastforce)+

text \<open>The length of a tree is the sum of the lengths of its items, whatever its shape.\<close>

lemma lengths_fit_zero: "lengths_fit [lengthZero]"
  by (simp add: lengths_fit_def lengthZero_def)

lemma children_length_total:
  assumes "cs \<noteq> []" "lengths_fit (map AstNode_length cs)"
  shows "children_length cs = foldl lengthAdd lengthZero (map AstNode_length cs)"
  using assms packed.total_Cons [of "AstNode_length (hd cs)" "map AstNode_length (tl cs)"]
  by (cases cs) (auto simp: children_length_def foldl_map)

lemma lengths_fit_totals:
  "lengths_fit (xs @ concat yss @ zs) \<Longrightarrow> (\<forall>ys \<in> set yss. ys \<noteq> []) \<Longrightarrow> lengths_fit (xs @ map (foldl lengthAdd lengthZero) yss @ zs)"
proof (induction yss arbitrary: xs)
  case (Cons ys yss)
  obtain y ws where ys: "ys = y # ws" using Cons.prems by (cases ys) auto
  have "lengths_fit (xs @ foldl lengthAdd y ws # concat yss @ zs)"
    using packed.fits_total [of xs y ws "concat yss @ zs"] Cons.prems ys by simp
  moreover have "foldl lengthAdd lengthZero ys = foldl lengthAdd y ws"
    using packed.total_Cons [of y ws] packed.fits_part [of xs "y # ws" "concat yss @ zs"] Cons.prems ys by simp
  ultimately show ?case using Cons.IH [of "xs @ [foldl lengthAdd lengthZero ys]"] Cons.prems by simp
qed simp

lemma list_items_nonempty: "tree23 t \<Longrightarrow> list_items t \<noteq> []"
  by (induction t rule: tree23_induct) auto

lemma tree23_length:
  "tree23 t \<Longrightarrow> lengths_fit (map AstNode_length (list_items t)) \<Longrightarrow>
     AstNode_length t = foldl lengthAdd lengthZero (map AstNode_length (list_items t))"
proof (induction t rule: tree23_induct)
  case (leaf t)
  then show ?case by (simp add: packed.zero_left)
next
  case (list t a b cs')
  define cs where "cs = a # b # cs'"
  let ?yss = "map (\<lambda>c. map AstNode_length (list_items c)) cs"
  have fit: "lengths_fit (concat ?yss)" using list by (simp add: map_concat comp_def cs_def)
  have part: "lengths_fit (map AstNode_length (list_items x))" if "x \<in> set cs" for x
  proof -
    obtain us vs where "cs = us @ x # vs" using split_list [OF \<open>x \<in> set cs\<close>] by blast
    then show ?thesis using fit packed.fits_part [of _ "map AstNode_length (list_items x)"] by fastforce
  qed
  have ne: "\<forall>ys \<in> set ?yss. ys \<noteq> []" using list.IH list_items_nonempty by (fastforce simp: cs_def)
  have cs: "map AstNode_length cs = map (foldl lengthAdd lengthZero) ?yss"
    using list.IH part by (auto simp: cs_def)
  have "AstNode_length t = foldl lengthAdd lengthZero (map AstNode_length cs)"
    using list.hyps(5) children_length_total [of cs] lengths_fit_totals [of "[]" ?yss "[]"] fit ne by (simp add: cs) (simp add: cs_def)
  also have "\<dots> = foldl lengthAdd lengthZero (concat ?yss)"
    unfolding cs by (rule packed.total_concat [OF lengths_fit_zero fit])
  finally show ?case using list.hyps(7) by (simp add: map_concat comp_def cs_def)
qed

lemma children_missing_keys:
  assumes "cs \<noteq> []" "\<forall>c \<in> set cs. sis_wf (AstNode_missingOpeningBracketIds c)"
  shows "sis_wf (children_missing cs) \<and> sis_keys (children_missing cs) = (\<Union>c \<in> set cs. sis_keys (AstNode_missingOpeningBracketIds c))"
proof -
  obtain c ds where "cs = c # ds" using assms(1) by (cases cs) auto
  then show ?thesis
    using assms(2) sis.merge_all [of "AstNode_missingOpeningBracketIds c" "map AstNode_missingOpeningBracketIds ds"]
    by (simp add: children_missing_def foldl_map)
qed

lemma tree23_missing_wf: "tree23 t \<Longrightarrow> sis_wf (AstNode_missingOpeningBracketIds t)"
proof (induction t rule: tree23.induct)
  case (5 imm l h a b c m)
  then show ?case using children_missing_keys [of "AstNode_children (TwoThreeListAstNode imm l h a b c m)"]
    by (auto simp: create23_Inr split: option.splits)
qed (auto simp: sis_getEmpty PairAstNode_create_def Let_def split: option.splits)

lemma tree23_missing:
  "tree23 t \<Longrightarrow> sis_keys (AstNode_missingOpeningBracketIds t) = (\<Union>i \<in> set (list_items t). sis_keys (AstNode_missingOpeningBracketIds i))"
proof (induction t rule: tree23_induct)
  case (list t a b cs)
  then have "\<forall>x \<in> set (a # b # cs). sis_wf (AstNode_missingOpeningBracketIds x)" using tree23_missing_wf by blast
  with list show ?case using children_missing_keys [of "a # b # cs"] by simp
qed simp

text \<open>A list of \<open>n\<close> items has a height between the logarithms of \<open>n\<close> to the bases 3 and 2.\<close>

lemma tree23_size_bounds:
  "tree23 t \<Longrightarrow> 2 ^ nat (AstNode_listHeight t) \<le> length (list_items t) \<and> length (list_items t) \<le> 3 ^ nat (AstNode_listHeight t)"
proof (induction t rule: tree23_induct)
  case (list t a b cs)
  define n where "n = nat (AstNode_listHeight a)"
  have n: "AstNode_listHeight t = int (Suc n)" and h: "AstNode_listHeight x = int n" if "x \<in> set (a # b # cs)" for x
    using list.IH that tree23_height_nonneg [of a] by (auto simp: n_def)
  have len: "2 ^ n \<le> length (list_items x) \<and> length (list_items x) \<le> 3 ^ n" if "x \<in> set (a # b # cs)" for x
    using list.IH that h [OF that] by (metis nat_int)
  have items: "length (list_items t) = length (list_items a) + length (list_items b) + sum_list (map (length \<circ> list_items) cs)"
    using list.hyps(7) by (simp add: length_concat comp_def)
  from list.hyps(4) consider "cs = []" | c where "cs = [c]" by (cases cs) auto
  then have "2 * 2 ^ n \<le> length (list_items t) \<and> length (list_items t) \<le> 3 * 3 ^ n"
  proof cases
    case 1
    then show ?thesis using len [of a] len [of b] items by simp
  next
    case (2 c)
    then show ?thesis using len [of a] len [of b] len [of c] items by simp
  qed
  then show ?case using n [of a] by (simp add: nat_add_distrib)
qed simp

end
