(* ===== verification/Bracket_Concat.thy ===== *)
theory Bracket_Concat
  imports Bracket_Ast
begin

text \<open>
  Concatenation of (2,3) trees:
  \<open>src/vs/editor/common/model/bracketPairsTextModelPart/bracketPairsTree/concat23Trees.ts\<close>. Where the source changes
  nodes in place on the way from the root to the insertion point and back, the model keeps
  the stack of parents and puts each changed child back into its parent.
\<close>

section \<open>Trees of the same height\<close>

text \<open>
  One pass of the inner loop writes the parents over the front of the array while it reads pairs behind them.
\<close>

function pair_pass :: "nat \<Rightarrow> nat \<Rightarrow> nat \<Rightarrow> bool \<Rightarrow> 'b AstNode list \<Rightarrow> 'b AstNode list result" where
  "pair_pass i newLength len imm items =
     (if i < newLength
      then let j = 2 * i
           in result_bind (arr_get items (int j)) (\<lambda>a. result_bind (arr_get items (int (j + 1))) (\<lambda>b.
                result_bind (ListAstNode_create23 a b (if j + 3 = len then arr_at items (int (j + 2)) else None) imm) (\<lambda>n.
                  pair_pass (Suc i) newLength len imm (items[i := n]))))
      else Inr items)"
  by pat_completeness auto
termination by (relation "measure (\<lambda>(i, newLength, _). newLength - i)") auto

declare pair_pass.simps [simp del]

function same_height_loop :: "nat \<Rightarrow> bool \<Rightarrow> 'b AstNode list \<Rightarrow> 'b AstNode result" where
  "same_height_loop len imm items =
     (if len > 3
      then result_bind (pair_pass 0 (len div 2) len imm items) (same_height_loop (len div 2) imm)
      else result_bind (arr_get items 0) (\<lambda>a. result_bind (arr_get items 1) (\<lambda>b.
             ListAstNode_create23 a b (if len \<ge> 3 then arr_at items 2 else None) imm)))"
  by pat_completeness auto
termination by (relation "measure fst") auto

declare same_height_loop.simps [simp del]

definition concat23TreesOfSameHeight :: "'b AstNode list \<Rightarrow> bool \<Rightarrow> 'b AstNode option result" where
  "concat23TreesOfSameHeight items createImmutableLists =
     (case items of [] \<Rightarrow> Inr None | [x] \<Rightarrow> Inr (Some x)
      | _ \<Rightarrow> result_map Some (same_height_loop (length items) createImmutableLists items))"

section \<open>Appending and prepending\<close>

lemma size_getChild: "AstNode_getChild idx n = Inr (Some c) \<Longrightarrow> AstNode_kind n = Kind_List \<Longrightarrow> size c < size n"
  by (cases n) (auto simp: arr_at_def less_Suc_eq_le split: if_splits intro!: size_list_estimation')

lemma size_mutable_child [simp]: "size (mutable_child c) = size c"
  by (cases c) (auto simp: mutable_child_def)

lemma size_makeElementMutable:
  "ListAstNode_makeElementMutable idx n = Inr (Some c, n') \<Longrightarrow> AstNode_kind n = Kind_List \<Longrightarrow> size c < size n"
  by (auto simp: ListAstNode_makeElementMutable_def split: option.splits) (metis size_getChild)

text \<open>
  The way down: the parents are pushed on a stack, the innermost one first. A child that does not exist
  is undefined, and reading its height throws.
\<close>

function append_down :: "number \<Rightarrow> 'b AstNode \<Rightarrow> 'b AstNode list \<Rightarrow> ('b AstNode \<times> 'b AstNode list) result" where
  "append_down h curNode parents =
     (if h = AstNode_listHeight curNode then Inr (curNode, parents)
      else if AstNode_kind curNode \<noteq> Kind_List then Inl PlainError
      else case ListAstNode_makeLastElementMutable curNode of
             Inl e \<Rightarrow> Inl e
           | Inr (None, _) \<Rightarrow> Inl TypeError
           | Inr (Some child, curNode') \<Rightarrow> append_down h child (curNode' # parents))"
  by pat_completeness auto
termination
  by (relation "measure (\<lambda>(h, curNode, parents). size curNode)")
    (auto simp: ListAstNode_makeLastElementMutable_def Let_def split: if_splits dest: size_makeElementMutable)

declare append_down.simps [simp del]

text \<open>The way up: the child goes back into its parent, which then takes the node, splits, or only updates its sums.\<close>

definition append_step :: "'b AstNode \<Rightarrow> 'b AstNode \<Rightarrow> 'b AstNode option \<Rightarrow> ('b AstNode \<times> 'b AstNode option) result" where
  "append_step parent child nodeToAppend =
     result_bind (ListAstNode_setChild (AstNode_childrenLength parent - 1) child parent) (\<lambda>parent.
       case nodeToAppend of
         None \<Rightarrow> result_map (\<lambda>p. (p, None)) (ListAstNode_handleChildrenChanged parent)
       | Some node \<Rightarrow>
           if AstNode_childrenLength parent \<ge> 3
           then result_bind (ListAstNode_unappendChild parent) (\<lambda>(c, parent').
                  case c of None \<Rightarrow> Inl TypeError
                  | Some c \<Rightarrow> result_map (\<lambda>n. (parent', Some n)) (ListAstNode_create23 c node None False))
           else result_map (\<lambda>p. (p, None)) (ListAstNode_appendChildOfSameHeight node parent))"

fun append_up :: "'b AstNode list \<Rightarrow> 'b AstNode \<Rightarrow> 'b AstNode option \<Rightarrow> ('b AstNode \<times> 'b AstNode option) result" where
  "append_up [] cur nodeToAppend = Inr (cur, nodeToAppend)"
| "append_up (parent # parents) cur nodeToAppend =
     result_bind (append_step parent cur nodeToAppend) (\<lambda>(p, n). append_up parents p n)"

definition append_tree :: "'b AstNode \<Rightarrow> 'b AstNode \<Rightarrow> 'b AstNode result" where
  "append_tree list nodeToAppend =
     result_bind (append_down (AstNode_listHeight nodeToAppend) (ListAstNode_toMutable list) []) (\<lambda>(cur, parents).
       result_bind (append_up parents cur (Some nodeToAppend)) (\<lambda>(list, rest).
         case rest of Some n \<Rightarrow> ListAstNode_create23 list n None False | None \<Rightarrow> Inr list))"

function prepend_down :: "number \<Rightarrow> 'b AstNode \<Rightarrow> 'b AstNode list \<Rightarrow> ('b AstNode \<times> 'b AstNode list) result" where
  "prepend_down h curNode parents =
     (if h = AstNode_listHeight curNode then Inr (curNode, parents)
      else if AstNode_kind curNode \<noteq> Kind_List then Inl PlainError
      else case ListAstNode_makeFirstElementMutable curNode of
             Inl e \<Rightarrow> Inl e
           | Inr (None, _) \<Rightarrow> Inl TypeError
           | Inr (Some child, curNode') \<Rightarrow> prepend_down h child (curNode' # parents))"
  by pat_completeness auto
termination
  by (relation "measure (\<lambda>(h, curNode, parents). size curNode)")
    (auto simp: ListAstNode_makeFirstElementMutable_def Let_def split: if_splits dest: size_makeElementMutable)

declare prepend_down.simps [simp del]

definition prepend_step :: "'b AstNode \<Rightarrow> 'b AstNode \<Rightarrow> 'b AstNode option \<Rightarrow> ('b AstNode \<times> 'b AstNode option) result" where
  "prepend_step parent child nodeToPrepend =
     result_bind (ListAstNode_setChild 0 child parent) (\<lambda>parent.
       case nodeToPrepend of
         None \<Rightarrow> result_map (\<lambda>p. (p, None)) (ListAstNode_handleChildrenChanged parent)
       | Some node \<Rightarrow>
           if AstNode_childrenLength parent \<ge> 3
           then result_bind (ListAstNode_unprependChild parent) (\<lambda>(c, parent').
                  case c of None \<Rightarrow> Inl TypeError
                  | Some c \<Rightarrow> result_map (\<lambda>n. (parent', Some n)) (ListAstNode_create23 node c None False))
           else result_map (\<lambda>p. (p, None)) (ListAstNode_prependChildOfSameHeight node parent))"

fun prepend_up :: "'b AstNode list \<Rightarrow> 'b AstNode \<Rightarrow> 'b AstNode option \<Rightarrow> ('b AstNode \<times> 'b AstNode option) result" where
  "prepend_up [] cur nodeToPrepend = Inr (cur, nodeToPrepend)"
| "prepend_up (parent # parents) cur nodeToPrepend =
     result_bind (prepend_step parent cur nodeToPrepend) (\<lambda>(p, n). prepend_up parents p n)"

definition prepend_tree :: "'b AstNode \<Rightarrow> 'b AstNode \<Rightarrow> 'b AstNode result" where
  "prepend_tree list nodeToPrepend =
     result_bind (prepend_down (AstNode_listHeight nodeToPrepend) (ListAstNode_toMutable list) []) (\<lambda>(cur, parents).
       result_bind (prepend_up parents cur (Some nodeToPrepend)) (\<lambda>(list, rest).
         case rest of Some n \<Rightarrow> ListAstNode_create23 n list None False | None \<Rightarrow> Inr list))"

section \<open>Trees of any height\<close>

definition heightDiff :: "'b AstNode \<Rightarrow> 'b AstNode \<Rightarrow> number" where
  "heightDiff node1 node2 = \<bar>AstNode_listHeight node1 - AstNode_listHeight node2\<bar>"

definition concat_two :: "'b AstNode \<Rightarrow> 'b AstNode \<Rightarrow> 'b AstNode result" where
  "concat_two node1 node2 =
     (if AstNode_listHeight node1 = AstNode_listHeight node2 then ListAstNode_create23 node1 node2 None False
      else if AstNode_listHeight node1 > AstNode_listHeight node2 then append_tree node1 node2
      else prepend_tree node2 node1)"

text \<open>\<open>readNode\<close>: the array from the index \<open>i\<close> on, and the rest after the nodes of one height.\<close>

fun readNode :: "'b AstNode list \<Rightarrow> ('b AstNode option \<times> 'b AstNode list) result" where
  "readNode [] = Inr (None, [])"
| "readNode (x # xs) =
     (let same = takeWhile (\<lambda>y. AstNode_listHeight y = AstNode_listHeight x) xs;
          rest = dropWhile (\<lambda>y. AstNode_listHeight y = AstNode_listHeight x) xs
      in if same \<noteq> [] then result_map (\<lambda>n. (n, rest)) (concat23TreesOfSameHeight (x # same) False)
         else Inr (Some x, rest))"

lemma readNode_shorter: "readNode xs = Inr (Some n, rest) \<Longrightarrow> length rest < length xs"
  by (cases xs) (auto simp: Let_def less_Suc_eq_le length_dropWhile_le split: if_splits)

function concat_loop :: "'b AstNode \<Rightarrow> 'b AstNode \<Rightarrow> 'b AstNode list \<Rightarrow> 'b AstNode result" where
  "concat_loop first second items =
     (case readNode items of
        Inl e \<Rightarrow> Inl e
      | Inr (None, _) \<Rightarrow> concat_two first second
      | Inr (Some item, rest) \<Rightarrow>
          if heightDiff first second \<le> heightDiff second item
          then (case concat_two first second of Inl e \<Rightarrow> Inl e | Inr f \<Rightarrow> concat_loop f item rest)
          else (case concat_two second item of Inl e \<Rightarrow> Inl e | Inr s \<Rightarrow> concat_loop first s rest))"
  by pat_completeness auto
termination
  by (relation "measure (\<lambda>(f, s, items). length items)") (auto dest: readNode_shorter)

declare concat_loop.simps [simp del]

definition concat23Trees :: "'b AstNode list \<Rightarrow> 'b AstNode option result" where
  "concat23Trees items =
     (case items of [] \<Rightarrow> Inr None | [x] \<Rightarrow> Inr (Some x)
      | _ \<Rightarrow> result_bind (readNode items) (\<lambda>(first, rest).
          case first of None \<Rightarrow> Inr None
          | Some first \<Rightarrow> result_bind (readNode rest) (\<lambda>(second, rest').
              case second of None \<Rightarrow> Inr (Some first)
              | Some second \<Rightarrow> result_map Some (concat_loop first second rest'))))"

section \<open>Correctness for trees of the same height\<close>

text \<open>The items of a row of trees.\<close>

abbreviation row_items :: "'b AstNode list \<Rightarrow> 'b AstNode list" where
  "row_items ts \<equiv> concat (map list_items ts)"

lemma create23_tree23:
  assumes "tree23 a" "tree23 b" "AstNode_listHeight a = AstNode_listHeight b"
    and "\<And>c. co = Some c \<Longrightarrow> tree23 c \<and> AstNode_listHeight a = AstNode_listHeight c"
  shows "\<exists>t. ListAstNode_create23 a b co imm = Inr t \<and> tree23 t \<and> AstNode_listHeight t = AstNode_listHeight a + 1 \<and>
    list_items t = list_items a @ list_items b @ (case co of None \<Rightarrow> [] | Some c \<Rightarrow> list_items c)"
  using assms by (auto simp: create23_Inr split: option.splits)

lemma pair_pass_correct:
  assumes "i < newLength" "newLength = len div 2" "len \<le> length items"
    and "\<forall>k < i. tree23 (items ! k) \<and> AstNode_listHeight (items ! k) = h + 1"
    and "\<forall>k < len. 2 * i \<le> k \<longrightarrow> tree23 (items ! k) \<and> AstNode_listHeight (items ! k) = h"
  shows "\<exists>items'. pair_pass i newLength len imm items = Inr items' \<and> length items' = length items \<and>
    (\<forall>k < newLength. tree23 (items' ! k) \<and> AstNode_listHeight (items' ! k) = h + 1) \<and>
    row_items (take newLength items') = row_items (take i items) @ row_items (drop (2 * i) (take len items))"
  using assms
proof (induction "newLength - i" arbitrary: i items)
  case (Suc d)
  let ?a = "items ! (2 * i)" and ?b = "items ! (2 * i + 1)"
  let ?co = "if 2 * i + 3 = len then Some (items ! (2 * i + 2)) else None"
  have len: "2 * i + 1 < len" using Suc.prems(1,2) by linarith
  have co: "(if 2 * i + 3 = len then arr_at items (int (2 * i + 2)) else None) = ?co"
    using Suc.prems(3) by (simp add: arr_at_def nat_add_distrib nat_mult_distrib)
  have get: "arr_get items (int (2 * i)) = Inr ?a" "arr_get items (int (2 * i + 1)) = Inr ?b"
    using len Suc.prems(3) by (simp_all only: arr_get_nat)
  obtain n where n: "ListAstNode_create23 ?a ?b ?co imm = Inr n" "tree23 n" "AstNode_listHeight n = h + 1"
    "list_items n = list_items ?a @ list_items ?b @ (case ?co of None \<Rightarrow> [] | Some c \<Rightarrow> list_items c)"
  proof -
    have "tree23 ?a \<and> AstNode_listHeight ?a = h" "tree23 ?b \<and> AstNode_listHeight ?b = h"
      using Suc.prems(5) len by simp_all
    moreover have "tree23 c \<and> h = AstNode_listHeight c" if "?co = Some c" for c
      using that Suc.prems(5) by (auto split: if_splits)
    ultimately show thesis using create23_tree23 [of ?a ?b ?co imm] that by metis
  qed
  let ?items = "items[i := n]"
  have step: "pair_pass i newLength len imm items = pair_pass (Suc i) newLength len imm ?items"
    using Suc.prems(1) get co n(1) by (subst pair_pass.simps) (simp add: Let_def)
  have written: "\<forall>k < Suc i. tree23 (?items ! k) \<and> AstNode_listHeight (?items ! k) = h + 1"
    using Suc.prems(3,4) n len by (simp add: nth_list_update less_Suc_eq)
  have taken: "row_items (take (Suc i) ?items) = row_items (take i items) @ list_items n"
    using len Suc.prems(3) by (simp add: take_Suc_conv_app_nth)
  have rest: "drop (2 * i) (take len items) = ?a # ?b # drop (2 * Suc i) (take len items)"
    using len Suc.prems(3) by (simp add: Cons_nth_drop_Suc [symmetric])
  show ?case
  proof (cases "Suc i < newLength")
    case True
    then have co: "?co = None" using Suc.prems(2) by auto
    have "drop (2 * Suc i) (take len ?items) = drop (2 * Suc i) (take len items)"
      by (simp add: take_update_swap)
    moreover have "\<exists>items'. pair_pass (Suc i) newLength len imm ?items = Inr items' \<and> length items' = length ?items \<and>
      (\<forall>k < newLength. tree23 (items' ! k) \<and> AstNode_listHeight (items' ! k) = h + 1) \<and>
      row_items (take newLength items') = row_items (take (Suc i) ?items) @ row_items (drop (2 * Suc i) (take len ?items))"
      using Suc.hyps(2) Suc.prems(1-3,5) True written by (intro Suc.hyps(1)) auto
    ultimately show ?thesis using step taken rest n(4) co by (auto simp: append_assoc)
  next
    case False
    then have new: "newLength = Suc i" using Suc.prems(1) by simp
    then have "pair_pass (Suc i) newLength len imm ?items = Inr ?items" by (subst pair_pass.simps) simp
    moreover have "list_items n = row_items (drop (2 * i) (take len items))"
    proof (cases "2 * i + 3 = len")
      case True
      then have "drop (2 * Suc i) (take len items) = [items ! (2 * i + 2)]"
        using Suc.prems(3) by (simp add: take_Suc_conv_app_nth numeral_3_eq_3 flip: True)
      then show ?thesis using rest n(4) True by simp
    next
      case False
      then have "len = 2 * Suc i" using new Suc.prems(2) len by auto
      then show ?thesis using rest n(4) False by simp
    qed
    ultimately show ?thesis using step taken written new by auto
  qed
qed simp

lemma same_height_loop_correct:
  assumes "2 \<le> len" "len \<le> length items" "\<forall>k < len. tree23 (items ! k) \<and> AstNode_listHeight (items ! k) = h"
  shows "\<exists>t. same_height_loop len imm items = Inr t \<and> tree23 t \<and> list_items t = row_items (take len items)"
  using assms
proof (induction len imm items arbitrary: h rule: same_height_loop.induct)
  case (1 len imm items)
  show ?case
  proof (cases "len > 3")
    case True
    obtain items' where p: "pair_pass 0 (len div 2) len imm items = Inr items'" "length items' = length items"
      "\<forall>k < len div 2. tree23 (items' ! k) \<and> AstNode_listHeight (items' ! k) = h + 1"
      "row_items (take (len div 2) items') = row_items (take len items)"
      using pair_pass_correct [of 0 "len div 2" len items h imm] 1(3,4) True by auto
    have "\<exists>t. same_height_loop (len div 2) imm items' = Inr t \<and> tree23 t \<and> list_items t = row_items (take (len div 2) items')"
      using True p(2) 1(3) by (intro 1(1) [OF True _ _ p(3)]) auto
    then show ?thesis using True p by (subst same_height_loop.simps) auto
  next
    case False
    then have len: "len = 2 \<or> len = 3" using 1(2) by auto
    then have items: "take len items = items ! 0 # items ! 1 # (if len = 3 then [items ! 2] else [])"
      using 1(3) by (intro nth_equalityI) (auto simp: nth_Cons less_Suc_eq numeral_2_eq_2 numeral_3_eq_3 split: nat.splits)
    have get: "arr_get items 0 = Inr (items ! 0)" "arr_get items 1 = Inr (items ! 1)"
      "(if len \<ge> 3 then arr_at items 2 else None) = (if len = 3 then Some (items ! 2) else None)"
      using len 1(3) by (auto simp: arr_get_def arr_at_def)
    obtain t where "ListAstNode_create23 (items ! 0) (items ! 1) (if len = 3 then Some (items ! 2) else None) imm = Inr t"
      "tree23 t" "list_items t = list_items (items ! 0) @ list_items (items ! 1) @ (if len = 3 then list_items (items ! 2) else [])"
      using create23_tree23 [of "items ! 0" "items ! 1" "if len = 3 then Some (items ! 2) else None" imm] 1(4) len by fastforce
    then show ?thesis using False get items by (subst same_height_loop.simps) auto
  qed
qed

lemma concat23TreesOfSameHeight_correct:
  assumes "items \<noteq> []" "\<forall>x \<in> set items. tree23 x \<and> AstNode_listHeight x = h"
  shows "\<exists>t. concat23TreesOfSameHeight items imm = Inr (Some t) \<and> tree23 t \<and> list_items t = row_items items"
proof -
  consider x where "items = [x]" | x y zs where "items = x # y # zs" using assms(1) by (metis list.exhaust)
  then show ?thesis
  proof cases
    case (2 x y zs)
    have "\<exists>t. same_height_loop (length items) imm items = Inr t \<and> tree23 t \<and> list_items t = row_items (take (length items) items)"
      using 2 assms(2) [unfolded all_set_conv_all_nth] by (intro same_height_loop_correct [of _ _ h]) simp_all
    then show ?thesis using 2 by (auto simp: concat23TreesOfSameHeight_def)
  qed (use assms in \<open>simp add: concat23TreesOfSameHeight_def\<close>)
qed

section \<open>Correctness of appending and prepending\<close>

text \<open>
  What comes up from a level of the tree: a tree of the same height and, when it had to split, a second one.
\<close>

definition grown_right :: "number \<Rightarrow> 'b AstNode list \<Rightarrow> 'b AstNode \<times> 'b AstNode option \<Rightarrow> bool" where
  "grown_right h xs = (\<lambda>(t, rest). tree23 t \<and> AstNode_listHeight t = h \<and>
     (case rest of None \<Rightarrow> list_items t = xs
      | Some r \<Rightarrow> tree23 r \<and> AstNode_listHeight r = h \<and> list_items t @ list_items r = xs))"

definition grown_left :: "number \<Rightarrow> 'b AstNode list \<Rightarrow> 'b AstNode \<times> 'b AstNode option \<Rightarrow> bool" where
  "grown_left h xs = (\<lambda>(t, rest). tree23 t \<and> AstNode_listHeight t = h \<and>
     (case rest of None \<Rightarrow> list_items t = xs
      | Some r \<Rightarrow> tree23 r \<and> AstNode_listHeight r = h \<and> list_items r @ list_items t = xs))"

lemma mutable_child_simps [simp]:
  "AstNode_listHeight (mutable_child t) = AstNode_listHeight t" "list_items (mutable_child t) = list_items t"
  "AstNode_kind (mutable_child t) = AstNode_kind t" "tree23 (mutable_child t) = tree23 t"
  by (cases t; auto simp: mutable_child_def create23_Inr)+

lemma mutable_child_list: "AstNode_kind t = Kind_List \<Longrightarrow> ListAstNode_toMutable t = mutable_child t"
  by (simp add: mutable_child_def)

lemmas mutation_simps = ListAstNode_handleChildrenChanged_def create23_Inr

text \<open>One level of the way up.\<close>

lemma append_step_correct:
  assumes "tree23 (TwoThreeListAstNode imm l h a b co m)" and "x = (case co of None \<Rightarrow> b | Some c \<Rightarrow> c)"
    and "grown_right (h - 1) (list_items x @ ys) (child, rest)"
  shows "\<exists>r. append_step (TwoThreeListAstNode False l h a (if co = None then x' else b) (map_option (\<lambda>_. x') co) m) child rest = Inr r \<and>
    grown_right h (list_items (TwoThreeListAstNode imm l h a b co m) @ ys) r"
proof (cases co)
  case None
  show ?thesis
  proof (cases rest)
    case None
    with \<open>co = None\<close> show ?thesis using assms
      by (auto simp: append_step_def mutation_simps grown_right_def)
  next
    case (Some r)
    with None show ?thesis using assms
      by (auto simp: append_step_def mutation_simps grown_right_def)
  qed
next
  case (Some c)
  show ?thesis
  proof (cases rest)
    case None
    with Some show ?thesis using assms
      by (auto simp: append_step_def mutation_simps grown_right_def)
  next
    case (Some r)
    obtain n where n: "ListAstNode_create23 child r None False = Inr n" "tree23 n" "AstNode_listHeight n = h"
      "list_items n = list_items child @ list_items r"
      using create23_tree23 [of child r None False] assms(3) Some by (auto simp: grown_right_def)
    then show ?thesis using assms Some \<open>co = Some c\<close>
      by (auto simp: append_step_def mutation_simps grown_right_def)
  qed
qed

lemma prepend_step_correct:
  assumes "tree23 (TwoThreeListAstNode imm l h a b co m)" and "grown_left (h - 1) (ys @ list_items a) (child, rest)"
  shows "\<exists>r. prepend_step (TwoThreeListAstNode False l h x' b co m) child rest = Inr r \<and>
    grown_left h (ys @ list_items (TwoThreeListAstNode imm l h a b co m)) r"
proof (cases co)
  case None
  show ?thesis
  proof (cases rest)
    case None
    with \<open>co = None\<close> show ?thesis using assms
      by (auto simp: prepend_step_def mutation_simps grown_left_def)
  next
    case (Some r)
    with None show ?thesis using assms
      by (auto simp: prepend_step_def mutation_simps grown_left_def)
  qed
next
  case (Some c)
  show ?thesis
  proof (cases rest)
    case None
    with Some show ?thesis using assms
      by (auto simp: prepend_step_def mutation_simps grown_left_def)
  next
    case (Some r)
    obtain n where n: "ListAstNode_create23 r child None False = Inr n" "tree23 n" "AstNode_listHeight n = h"
      "list_items n = list_items r @ list_items child"
      using create23_tree23 [of r child None False] assms(2) Some by (auto simp: grown_left_def)
    then show ?thesis using assms Some \<open>co = Some c\<close>
      by (auto simp: prepend_step_def mutation_simps grown_left_def)
  qed
qed

text \<open>All levels: going down from a node and coming up to it again.\<close>

lemma append_here:
  assumes "tree23 node" "tree23 t" "AstNode_listHeight node = h" "h = AstNode_listHeight t"
  shows "\<exists>r. result_bind (append_down h (mutable_child t) ps) (\<lambda>(cur, parents). append_up parents cur (Some node)) =
          append_up ps (fst r) (snd r) \<and> grown_right (AstNode_listHeight t) (list_items t @ list_items node) r"
  using assms by (intro exI [of _ "(mutable_child t, Some node)"], subst append_down.simps) (simp add: grown_right_def)

lemma append_levels:
  assumes "tree23 node" "AstNode_listHeight node = h"
  shows "tree23 t \<Longrightarrow> h \<le> AstNode_listHeight t \<Longrightarrow>
    \<exists>r. result_bind (append_down h (mutable_child t) ps) (\<lambda>(cur, parents). append_up parents cur (Some node)) =
          append_up ps (fst r) (snd r) \<and>
        grown_right (AstNode_listHeight t) (list_items t @ list_items node) r"
proof (induction t arbitrary: ps rule: list_items.induct)
  case (1 imm l H a b co m)
  let ?t = "TwoThreeListAstNode imm l H a b co m"
  show ?case
  proof (cases "h = H")
    case True
    then show ?thesis using append_here [OF assms(1) 1(4) assms(2)] by simp
  next
    case False
    let ?x = "case co of None \<Rightarrow> b | Some c \<Rightarrow> c"
    let ?t1 = "TwoThreeListAstNode False l H a (if co = None then mutable_child ?x else b) (map_option (\<lambda>_. mutable_child ?x) co) m"
    have x: "tree23 ?x" "AstNode_listHeight ?x = H - 1" using 1(4) by (auto simp: create23_Inr split: option.splits)
    have down: "append_down h (mutable_child ?t) ps = append_down h (mutable_child ?x) (?t1 # ps)"
      using False by (subst append_down.simps)
        (auto simp: mutable_child_def ListAstNode_makeLastElementMutable_def ListAstNode_makeElementMutable_def split: option.splits)
    have "h \<le> AstNode_listHeight ?x" using 1(5) False x(2) by simp
    then obtain child rest where r: "result_bind (append_down h (mutable_child ?x) (?t1 # ps)) (\<lambda>(cur, parents). append_up parents cur (Some node)) =
        append_up (?t1 # ps) child rest" "grown_right (H - 1) (list_items ?x @ list_items node) (child, rest)"
      using 1(2) [of "?t1 # ps"] 1(3) [of _ "?t1 # ps"] x by (cases co) fastforce+
    obtain r' where "append_step ?t1 child rest = Inr r'" "grown_right H (list_items ?t @ list_items node) r'"
      using append_step_correct [OF 1(4) refl r(2)] by blast
    then show ?thesis using down r(1) by (intro exI [of _ r']) (cases r', simp)
  qed
next
  case (2 imm l H cs m)
  then show ?case by simp
qed ((rule append_here; use assms tree23_height_nonneg [OF assms(1)] in simp)+)

lemma prepend_here:
  assumes "tree23 node" "tree23 t" "AstNode_listHeight node = h" "h = AstNode_listHeight t"
  shows "\<exists>r. result_bind (prepend_down h (mutable_child t) ps) (\<lambda>(cur, parents). prepend_up parents cur (Some node)) =
          prepend_up ps (fst r) (snd r) \<and> grown_left (AstNode_listHeight t) (list_items node @ list_items t) r"
  using assms by (intro exI [of _ "(mutable_child t, Some node)"], subst prepend_down.simps) (simp add: grown_left_def)

lemma prepend_levels:
  assumes "tree23 node" "AstNode_listHeight node = h"
  shows "tree23 t \<Longrightarrow> h \<le> AstNode_listHeight t \<Longrightarrow>
    \<exists>r. result_bind (prepend_down h (mutable_child t) ps) (\<lambda>(cur, parents). prepend_up parents cur (Some node)) =
          prepend_up ps (fst r) (snd r) \<and>
        grown_left (AstNode_listHeight t) (list_items node @ list_items t) r"
proof (induction t arbitrary: ps rule: list_items.induct)
  case (1 imm l H a b co m)
  let ?t = "TwoThreeListAstNode imm l H a b co m"
  show ?case
  proof (cases "h = H")
    case True
    then show ?thesis using prepend_here [OF assms(1) 1(4) assms(2)] by simp
  next
    case False
    let ?t1 = "TwoThreeListAstNode False l H (mutable_child a) b co m"
    have x: "tree23 a" "AstNode_listHeight a = H - 1" using 1(4) by (auto simp: create23_Inr)
    have down: "prepend_down h (mutable_child ?t) ps = prepend_down h (mutable_child a) (?t1 # ps)"
      using False by (subst prepend_down.simps)
        (auto simp: mutable_child_def ListAstNode_makeFirstElementMutable_def ListAstNode_makeElementMutable_def)
    have "h \<le> AstNode_listHeight a" using 1(5) False x(2) by simp
    then obtain child rest where r: "result_bind (prepend_down h (mutable_child a) (?t1 # ps)) (\<lambda>(cur, parents). prepend_up parents cur (Some node)) =
        prepend_up (?t1 # ps) child rest" "grown_left (H - 1) (list_items node @ list_items a) (child, rest)"
      using 1(1) [of "?t1 # ps"] x by fastforce
    obtain r' where "prepend_step ?t1 child rest = Inr r'" "grown_left H (list_items node @ list_items ?t) r'"
      using prepend_step_correct [OF 1(4) r(2)] by blast
    then show ?thesis using down r(1) by (intro exI [of _ r']) (cases r', simp)
  qed
next
  case (2 imm l H cs m)
  then show ?case by simp
qed ((rule prepend_here; use assms tree23_height_nonneg [OF assms(1)] in simp)+)

lemma append_tree_correct:
  assumes "tree23 t" "tree23 node" "AstNode_listHeight node < AstNode_listHeight t"
  shows "\<exists>r. append_tree t node = Inr r \<and> tree23 r \<and> list_items r = list_items t @ list_items node"
proof -
  have "AstNode_kind t = Kind_List" using assms tree23_leaf_height [of t] tree23_height_nonneg [of node] by force
  moreover obtain t' rest where "result_bind (append_down (AstNode_listHeight node) (mutable_child t) []) (\<lambda>(cur, parents). append_up parents cur (Some node)) =
      Inr (t', rest)" "grown_right (AstNode_listHeight t) (list_items t @ list_items node) (t', rest)"
    using append_levels [OF assms(2) refl assms(1), of "[]"] assms(3) by fastforce
  ultimately show ?thesis using create23_tree23 [of t' _ None False]
    by (cases rest) (fastforce simp: append_tree_def mutable_child_list grown_right_def case_prod_beta)+
qed

lemma prepend_tree_correct:
  assumes "tree23 t" "tree23 node" "AstNode_listHeight node < AstNode_listHeight t"
  shows "\<exists>r. prepend_tree t node = Inr r \<and> tree23 r \<and> list_items r = list_items node @ list_items t"
proof -
  have "AstNode_kind t = Kind_List" using assms tree23_leaf_height [of t] tree23_height_nonneg [of node] by force
  moreover obtain t' rest where "result_bind (prepend_down (AstNode_listHeight node) (mutable_child t) []) (\<lambda>(cur, parents). prepend_up parents cur (Some node)) =
      Inr (t', rest)" "grown_left (AstNode_listHeight t) (list_items node @ list_items t) (t', rest)"
    using prepend_levels [OF assms(2) refl assms(1), of "[]"] assms(3) by fastforce
  ultimately show ?thesis using create23_tree23 [of _ t' None False]
    by (cases rest) (fastforce simp: prepend_tree_def mutable_child_list grown_left_def case_prod_beta)+
qed

section \<open>Correctness for trees of any height\<close>

lemma concat_two_correct:
  assumes "tree23 s" "tree23 t"
  shows "\<exists>r. concat_two s t = Inr r \<and> tree23 r \<and> list_items r = list_items s @ list_items t"
  using create23_tree23 [of s t None False] append_tree_correct [of s t] prepend_tree_correct [of t s] assms
  by (auto simp: concat_two_def)

lemma readNode_correct:
  assumes "xs \<noteq> []" "\<forall>x \<in> set xs. tree23 x"
  shows "\<exists>n rest. readNode xs = Inr (Some n, rest) \<and> tree23 n \<and> (\<forall>x \<in> set rest. tree23 x) \<and>
    list_items n @ row_items rest = row_items xs"
proof -
  obtain x ys where xs: "xs = x # ys" using assms(1) by (cases xs) auto
  let ?same = "takeWhile (\<lambda>y. AstNode_listHeight y = AstNode_listHeight x) ys"
  let ?rest = "dropWhile (\<lambda>y. AstNode_listHeight y = AstNode_listHeight x) ys"
  have split: "row_items ys = row_items ?same @ row_items ?rest"
    by (metis concat_append map_append takeWhile_dropWhile_id)
  have "\<forall>y \<in> set (x # ?same). tree23 y \<and> AstNode_listHeight y = AstNode_listHeight x"
    using assms xs by (auto dest: set_takeWhileD)
  from concat23TreesOfSameHeight_correct [OF _ this, of False] obtain t where
    "concat23TreesOfSameHeight (x # ?same) False = Inr (Some t)" "tree23 t" "list_items t = row_items (x # ?same)" by auto
  moreover have "\<forall>y \<in> set ?rest. tree23 y" using assms xs by (auto dest: set_dropWhileD)
  ultimately show ?thesis using assms xs split by (cases "?same = []") (auto simp: Let_def)
qed

lemma concat_loop_correct:
  assumes "tree23 f" "tree23 s" "\<forall>x \<in> set items. tree23 x"
  shows "\<exists>t. concat_loop f s items = Inr t \<and> tree23 t \<and> list_items t = list_items f @ list_items s @ row_items items"
  using assms
proof (induction f s items rule: concat_loop.induct)
  case (1 f s items)
  show ?case
  proof (cases "items = []")
    case True
    then show ?thesis using concat_two_correct [OF 1(3,4)] by (subst concat_loop.simps) auto
  next
    case False
    from readNode_correct [OF this 1(5)] obtain n rest where n: "readNode items = Inr (Some n, rest)" "tree23 n"
      "\<forall>x \<in> set rest. tree23 x" "list_items n @ row_items rest = row_items items" by blast
    show ?thesis
    proof (cases "heightDiff f s \<le> heightDiff s n")
      case True
      from concat_two_correct [OF 1(3,4)] obtain r where r: "concat_two f s = Inr r" "tree23 r"
        "list_items r = list_items f @ list_items s" by blast
      from 1(1) [OF n(1) _ refl True r(1) r(2) n(2,3)] show ?thesis
        using n r True by (subst concat_loop.simps) auto
    next
      case False
      from concat_two_correct [OF 1(4) n(2)] obtain r where r: "concat_two s n = Inr r" "tree23 r"
        "list_items r = list_items s @ list_items n" by blast
      from 1(2) [OF n(1) _ refl False r(1) 1(3) r(2) n(3)] show ?thesis
        using n r False by (subst concat_loop.simps) auto
    qed
  qed
qed

lemma concat23Trees_correct:
  assumes "items \<noteq> []" "\<forall>x \<in> set items. tree23 x"
  shows "\<exists>t. concat23Trees items = Inr (Some t) \<and> tree23 t \<and> list_items t = row_items items"
proof -
  consider x where "items = [x]" | x y zs where "items = x # y # zs" using assms(1) by (metis list.exhaust)
  then show ?thesis
  proof cases
    case (2 x y zs)
    from readNode_correct [OF assms] obtain f rest where f: "readNode items = Inr (Some f, rest)" "tree23 f"
      "\<forall>x \<in> set rest. tree23 x" "list_items f @ row_items rest = row_items items" by blast
    show ?thesis
    proof (cases "rest = []")
      case True
      then show ?thesis using 2 f by (simp add: concat23Trees_def del: readNode.simps(2))
    next
      case False
      from readNode_correct [OF this f(3)] obtain s rest' where s: "readNode rest = Inr (Some s, rest')" "tree23 s"
        "\<forall>x \<in> set rest'. tree23 x" "list_items s @ row_items rest' = row_items rest" by blast
      from concat_loop_correct [OF f(2) s(2,3)] show ?thesis
        using 2 f s by (auto simp: concat23Trees_def simp del: readNode.simps(2))
    qed
  qed (use assms in \<open>simp add: concat23Trees_def\<close>)
qed

text \<open>
  C13. Concatenating well-formed (2,3) trees of any heights never throws and gives one well-formed (2,3) tree that holds
  the items of all of them in order; its length is the sum of the lengths of the items, its missing ids are theirs, and its
  height is logarithmic in their number. For trees of one height, the bottom-up construction holds the same items.
\<close>

theorem concat23Trees_builds_one_tree:
  assumes "items \<noteq> []" and "\<forall>x \<in> set items. tree23 x"
    and "lengths_fit (map AstNode_length (concat (map list_items items)))"
  shows "\<exists>t. concat23Trees items = Inr (Some t) \<and> tree23 t \<and> list_items t = concat (map list_items items) \<and>
    AstNode_length t = sumLengths (list_items t) AstNode_length \<and>
    sis_keys (AstNode_missingOpeningBracketIds t) = (\<Union>i \<in> set (list_items t). sis_keys (AstNode_missingOpeningBracketIds i)) \<and>
    2 ^ nat (AstNode_listHeight t) \<le> length (list_items t) \<and> length (list_items t) \<le> 3 ^ nat (AstNode_listHeight t) \<and>
    ((\<forall>x \<in> set items. AstNode_listHeight x = h) \<longrightarrow>
       (\<exists>s. concat23TreesOfSameHeight items imm = Inr (Some s) \<and> tree23 s \<and> list_items s = list_items t))"
proof -
  from concat23Trees_correct [OF assms(1,2)] obtain t where t: "concat23Trees items = Inr (Some t)" "tree23 t"
    "list_items t = row_items items" by blast
  have "AstNode_length t = sumLengths (list_items t) AstNode_length"
    using tree23_length [OF t(2)] assms(3) t(3) by (simp add: sumLengths_def foldl_map)
  then show ?thesis
    using t tree23_missing [OF t(2)] tree23_size_bounds [OF t(2)] concat23TreesOfSameHeight_correct [of items h imm] assms(1,2)
    by (intro exI [of _ t]) simp
qed

theorem concat23Trees_builds_one_tree_witness:
  "let a = TextAstNode 3 :: nat AstNode; b = projr (ListAstNode_create23 (TextAstNode 4) (TextAstNode 5) (Some (TextAstNode 6)) False)
   in \<exists>t. concat23Trees [b, a] = Inr (Some t) \<and> list_items t = map TextAstNode [4, 5, 6, 3] \<and>
      AstNode_length t = sumLengths (list_items t) AstNode_length"
proof -
  let ?a = "TextAstNode 3 :: nat AstNode" and ?b = "projr (ListAstNode_create23 (TextAstNode 4) (TextAstNode 5) (Some (TextAstNode 6)) False) :: nat AstNode"
  have "[?b, ?a] \<noteq> []" "\<forall>x \<in> set [?b, ?a]. tree23 x" "lengths_fit (map AstNode_length (concat (map list_items [?b, ?a])))"
    "concat (map list_items [?b, ?a]) = map TextAstNode [4, 5, 6, 3]" by code_simp+
  note a = this
  from concat23Trees_builds_one_tree [OF a(1-3)] a(4) show ?thesis by (simp only: Let_def) metis
qed

end
