(* ===== verification/Bracket_Mapper.thy ===== *)
theory Bracket_Mapper
  imports Bracket_Length Mirror_Text
begin

text \<open>
  \<open>src/vs/editor/common/model/bracketPairsTextModelPart/bracketPairsTree/beforeEditPositionMapper.ts\<close>: the mapper the
  incremental bracket parser uses to translate offsets of the new text to offsets of the text before the edits.
\<close>

section \<open>Edits as lengths\<close>

record TextEditInfo =
  tei_startOffset :: Length
  tei_endOffset :: Length
  tei_newLength :: Length

definition new_TextEditInfo :: "Length \<Rightarrow> Length \<Rightarrow> Length \<Rightarrow> TextEditInfo" where
  "new_TextEditInfo startOffset endOffset newLength =
     \<lparr>tei_startOffset = startOffset, tei_endOffset = endOffset, tei_newLength = newLength\<rparr>"

definition TextEditInfo_fromModelContentChanges :: "IModelContentChange list \<Rightarrow> TextEditInfo list" where
  "TextEditInfo_fromModelContentChanges changes =
     rev (map (\<lambda>c. let r = change_range c
                   in new_TextEditInfo (positionToLength (Range_getStartPosition r))
                        (positionToLength (Range_getEndPosition r)) (lengthOfString (change_text c))) changes)"

record TextEditInfoCache =
  tec_endOffsetBeforeObj :: LengthObj
  tec_endOffsetAfterObj :: LengthObj
  tec_offsetObj :: LengthObj

definition TextEditInfoCache_from :: "TextEditInfo \<Rightarrow> TextEditInfoCache" where
  "TextEditInfoCache_from edit =
     \<lparr>tec_endOffsetBeforeObj = lengthToObj (tei_endOffset edit),
      tec_endOffsetAfterObj = lengthToObj (lengthAdd (tei_startOffset edit) (tei_newLength edit)),
      tec_offsetObj = lengthToObj (tei_startOffset edit)\<rparr>"

section \<open>BeforeEditPositionMapper\<close>

record BeforeEditPositionMapper =
  bpm_nextEditIdx :: nat
  bpm_deltaOldToNewLineCount :: number
  bpm_deltaOldToNewColumnCount :: number
  bpm_deltaLineIdxInOld :: number
  bpm_edits :: "TextEditInfoCache list"

definition new_BeforeEditPositionMapper :: "TextEditInfo list \<Rightarrow> BeforeEditPositionMapper" where
  "new_BeforeEditPositionMapper edits =
     \<lparr>bpm_nextEditIdx = 0, bpm_deltaOldToNewLineCount = 0, bpm_deltaOldToNewColumnCount = 0, bpm_deltaLineIdxInOld = - 1,
      bpm_edits = map TextEditInfoCache_from edits\<rparr>"

definition translateOldToCur :: "LengthObj \<Rightarrow> BeforeEditPositionMapper \<Rightarrow> Length" where
  "translateOldToCur oldOffsetObj this =
     (if lo_lineCount oldOffsetObj = bpm_deltaLineIdxInOld this
      then toLength (lo_lineCount oldOffsetObj + bpm_deltaOldToNewLineCount this)
             (lo_columnCount oldOffsetObj + bpm_deltaOldToNewColumnCount this)
      else toLength (lo_lineCount oldOffsetObj + bpm_deltaOldToNewLineCount this) (lo_columnCount oldOffsetObj))"

definition translateCurToOld :: "Length \<Rightarrow> BeforeEditPositionMapper \<Rightarrow> Length" where
  "translateCurToOld newOffset this =
     (let offsetObj = lengthToObj newOffset
      in if lo_lineCount offsetObj - bpm_deltaOldToNewLineCount this = bpm_deltaLineIdxInOld this
         then toLength (lo_lineCount offsetObj - bpm_deltaOldToNewLineCount this)
                (lo_columnCount offsetObj - bpm_deltaOldToNewColumnCount this)
         else toLength (lo_lineCount offsetObj - bpm_deltaOldToNewLineCount this) (lo_columnCount offsetObj))"

text \<open>The body of the loop of \<open>adjustNextEdit\<close>, for an edit that ends at or before the offset.\<close>

definition skip_edit :: "TextEditInfoCache \<Rightarrow> BeforeEditPositionMapper \<Rightarrow> BeforeEditPositionMapper" where
  "skip_edit nextEdit this =
     (let nextEditEndOffsetInCurObj = lengthToObj (translateOldToCur (tec_endOffsetAfterObj nextEdit) this);
          nextEditEndOffsetBeforeInCurObj = lengthToObj (translateOldToCur (tec_endOffsetBeforeObj nextEdit) this);
          lineDelta = lo_lineCount nextEditEndOffsetInCurObj - lo_lineCount nextEditEndOffsetBeforeInCurObj;
          previousColumnDelta =
            (if bpm_deltaLineIdxInOld this = lo_lineCount (tec_endOffsetBeforeObj nextEdit) then bpm_deltaOldToNewColumnCount this else 0);
          columnDelta = lo_columnCount nextEditEndOffsetInCurObj - lo_columnCount nextEditEndOffsetBeforeInCurObj
      in this\<lparr>bpm_nextEditIdx := Suc (bpm_nextEditIdx this),
              bpm_deltaOldToNewLineCount := bpm_deltaOldToNewLineCount this + lineDelta,
              bpm_deltaOldToNewColumnCount := previousColumnDelta + columnDelta,
              bpm_deltaLineIdxInOld := lo_lineCount (tec_endOffsetBeforeObj nextEdit)\<rparr>)"

lemma skip_edit_simps [simp]:
  "bpm_nextEditIdx (skip_edit e this) = Suc (bpm_nextEditIdx this)" "bpm_edits (skip_edit e this) = bpm_edits this"
  by (simp_all add: skip_edit_def Let_def)

function adjustNextEdit :: "Length \<Rightarrow> BeforeEditPositionMapper \<Rightarrow> BeforeEditPositionMapper" where
  "adjustNextEdit offset this =
     (if bpm_nextEditIdx this < length (bpm_edits this)
      then let nextEdit = bpm_edits this ! bpm_nextEditIdx this
           in if lengthLessThanEqual (translateOldToCur (tec_endOffsetAfterObj nextEdit) this) offset
              then adjustNextEdit offset (skip_edit nextEdit this)
              else this
      else this)"
  by pat_completeness auto
termination by (relation "measure (\<lambda>(offset, this). length (bpm_edits this) - bpm_nextEditIdx this)") auto

declare adjustNextEdit.simps [simp del]

definition getOffsetBeforeChange :: "Length \<Rightarrow> BeforeEditPositionMapper \<Rightarrow> Length \<times> BeforeEditPositionMapper" where
  "getOffsetBeforeChange offset this =
     (let this' = adjustNextEdit offset this in (translateCurToOld offset this', this'))"

definition getDistanceToNextChange :: "Length \<Rightarrow> BeforeEditPositionMapper \<Rightarrow> Length option \<times> BeforeEditPositionMapper" where
  "getDistanceToNextChange offset this =
     (let this' = adjustNextEdit offset this
      in (map_option (\<lambda>nextEdit. lengthDiffNonNegative offset (translateOldToCur (tec_offsetObj nextEdit) this'))
            (arr_at (bpm_edits this') (int (bpm_nextEditIdx this'))), this'))"

section \<open>The mapper translates offsets across edits\<close>

text \<open>
  The specification: where the text before and after the edits is again the same, that is, the end of an edit in
  the old text and in the new one.
\<close>

definition after_edit :: "Length \<times> Length \<Rightarrow> TextEditInfo \<Rightarrow> Length \<times> Length" where
  "after_edit = (\<lambda>(old, new) e.
     (tei_endOffset e, lengthAdd (lengthAdd new (lengthDiffNonNegative old (tei_startOffset e))) (tei_newLength e)))"

definition after_edits :: "TextEditInfo list \<Rightarrow> Length \<times> Length" where
  "after_edits edits = foldl after_edit (0, 0) edits"

fun edits_sorted :: "Length \<Rightarrow> TextEditInfo list \<Rightarrow> bool" where
  "edits_sorted o0 [] \<longleftrightarrow> 0 \<le> o0"
| "edits_sorted o0 (e # es) \<longleftrightarrow>
     0 \<le> o0 \<and> o0 \<le> tei_startOffset e \<and> tei_startOffset e \<le> tei_endOffset e \<and> 0 \<le> tei_newLength e \<and> edits_sorted (tei_endOffset e) es"

definition edit_columns :: "TextEditInfo list \<Rightarrow> number" where
  "edit_columns es = sum_list (map (\<lambda>e. tei_startOffset e mod factor + tei_endOffset e mod factor + tei_newLength e mod factor) es)"

text \<open>The deltas of the mapper are those between the two ends.\<close>

definition bpm_inv :: "Length \<times> Length \<Rightarrow> BeforeEditPositionMapper \<Rightarrow> bool" where
  "bpm_inv = (\<lambda>(old, new) m.
     bpm_deltaOldToNewLineCount m = new div factor - old div factor \<and>
     (bpm_deltaLineIdxInOld m = old div factor \<and> bpm_deltaOldToNewColumnCount m = new mod factor - old mod factor \<or>
      old = 0 \<and> new = 0 \<and> bpm_deltaLineIdxInOld m = - 1 \<and> bpm_deltaOldToNewColumnCount m = 0))"

lemma div_mono_less: "a \<le> (b :: int) \<Longrightarrow> a div factor \<noteq> b div factor \<Longrightarrow> a div factor < b div factor"
  using zdiv_mono1 [of a b factor] by simp

lemma translateOldToCur_eq:
  assumes "bpm_inv (old, new) m" "0 \<le> old" "0 \<le> new" "old \<le> x"
  shows "translateOldToCur (lengthToObj x) m = lengthAdd new (lengthDiffNonNegative old x)"
proof (cases "old div factor = x div factor")
  case True
  have d: "lengthDiffNonNegative old x = x - old" "x - old = x mod factor - old mod factor" "x - old < factor"
    using lengthDiffNonNegative_columns [OF assms(4) True] by simp_all
  have "translateOldToCur (lengthToObj x) m = toLength (new div factor) (x mod factor + (new mod factor - old mod factor))"
  proof -
    from assms(1) consider
      "bpm_deltaLineIdxInOld m = old div factor" "bpm_deltaOldToNewColumnCount m = new mod factor - old mod factor"
        "bpm_deltaOldToNewLineCount m = new div factor - old div factor"
      | "old = 0" "new = 0" "bpm_deltaLineIdxInOld m = - 1" "bpm_deltaOldToNewLineCount m = 0"
      by (auto simp: bpm_inv_def)
    then show ?thesis using True by cases (simp_all add: translateOldToCur_def)
  qed
  also have "\<dots> = new + (x - old)" using d(2) div_mult_mod_eq [of new factor] unfolding toLength_def by linarith
  finally show ?thesis using d(1,3) assms(3) by (simp add: lengthAdd_eq)
next
  case False
  have lt: "old div factor < x div factor" using assms(4) False by (rule div_mono_less)
  then have "old < x" using assms(4) by force
  note d = lengthDiffNonNegative_lines [OF this False]
  have big: "factor \<le> toLength (x div factor - old div factor) (x mod factor)"
    using lt pos_mod_sign [of factor x] by (simp add: toLength_def)
  have "0 \<le> old div factor" using assms(2) by (simp add: pos_imp_zdiv_nonneg_iff)
  then have "translateOldToCur (lengthToObj x) m = toLength (x div factor + (new div factor - old div factor)) (x mod factor)"
    using assms(1) False lt by (auto simp: translateOldToCur_def bpm_inv_def)
  then show ?thesis using d big assms(3) by (simp add: lengthAdd_eq toLength_def left_diff_distrib distrib_right)
qed

lemma translateCurToOld_eq:
  assumes "bpm_inv (old, new) m" "0 \<le> old" "0 \<le> new" "new \<le> x"
  shows "translateCurToOld x m = lengthAdd old (lengthDiffNonNegative new x)"
proof -
  define m' where "m' = m\<lparr>bpm_deltaOldToNewLineCount := - bpm_deltaOldToNewLineCount m,
    bpm_deltaOldToNewColumnCount := - bpm_deltaOldToNewColumnCount m,
    bpm_deltaLineIdxInOld := bpm_deltaLineIdxInOld m + bpm_deltaOldToNewLineCount m\<rparr>"
  have "bpm_inv (new, old) m'" using assms(1) by (auto simp: bpm_inv_def m'_def)
  moreover have "translateCurToOld x m = translateOldToCur (lengthToObj x) m'"
    by (auto simp: translateCurToOld_def translateOldToCur_def m'_def Let_def)
  ultimately show ?thesis using translateOldToCur_eq assms(2-4) by simp
qed

lemma lengthDiffNonNegative_mod_le: "0 \<le> old \<Longrightarrow> old \<le> x \<Longrightarrow> lengthDiffNonNegative old x mod factor \<le> x mod factor"
proof (cases "old div factor = x div factor")
  case True
  assume "old \<le> x"
  note c = lengthDiffNonNegative_columns [OF this True]
  have "0 \<le> x - old" using \<open>old \<le> x\<close> by simp
  then have "(x - old) mod factor = x - old" using c(3) by simp
  then show ?thesis using c(1,2) pos_mod_sign [of factor old] by simp
next
  case False
  assume "old \<le> x"
  then have "old < x" using False by fastforce
  then have "lengthToObj (lengthDiffNonNegative old x) = new_LengthObj (x div factor - old div factor) (x mod factor)"
    using False by (simp only: lengthDiffNonNegative_lines not_False_eq_True) (simp add: lengthToObj_toLength)
  from arg_cong [OF this, of lo_columnCount] show ?thesis by simp
qed

text \<open>Skipping an edit moves both ends behind it.\<close>

lemma lengthAdd_obj:
  assumes "0 \<le> l1" "0 \<le> l2" "l1 mod factor + l2 mod factor < factor"
  shows "lengthToObj (lengthAdd l1 l2) = LengthObj_add (lengthToObj l1) (lengthToObj l2)"
  using assms by (intro lengthAdd_refines) simp_all

lemma lengthAdd_le:
  assumes "0 \<le> l1" "0 \<le> l2" shows "l1 \<le> lengthAdd l1 l2"
proof (cases "l2 < factor")
  case False
  have "l1 = l1 div factor * factor + l1 mod factor" "l1 mod factor < factor" by simp_all
  then have "l1 \<le> l1 div factor * factor + l2" using False by linarith
  then show ?thesis using False by (simp only: lengthAdd_eq [OF assms(1)] if_False)
qed (use assms in \<open>simp add: lengthAdd_eq\<close>)

lemma obj_add_diff_assoc:
  "obj_lengths_fit [old, s, l] \<Longrightarrow> \<not> LengthObj_isLessThan s old \<Longrightarrow>
     LengthObj_add new (LengthObj_lengthDiffNonNegative old (LengthObj_add s l)) =
       LengthObj_add (LengthObj_add new (LengthObj_lengthDiffNonNegative old s)) l"
  by (auto simp: LengthObj_add_def LengthObj_lengthDiffNonNegative_def LengthObj_isLessThan_def LengthObj_zero_def
      obj_lengths_fit_def intro!: LengthObj_eqI split: if_splits)

lemma lengthAdd_diff_assoc:
  assumes "0 \<le> old" "0 \<le> new" "old \<le> s" "0 \<le> l" "new mod factor + s mod factor + l mod factor < factor"
  shows "lengthAdd new (lengthDiffNonNegative old (lengthAdd s l)) = lengthAdd (lengthAdd new (lengthDiffNonNegative old s)) l"
proof -
  let ?d = "lengthDiffNonNegative old s" and ?sl = "lengthAdd s l"
  have s: "0 \<le> s" using assms by simp
  have m: "0 \<le> new mod factor" "0 \<le> l mod factor" "0 \<le> s mod factor" by simp_all
  have d: "0 \<le> ?d" "?d mod factor \<le> s mod factor" using assms by (simp_all add: lengthDiffNonNegative_nonneg lengthDiffNonNegative_mod_le)
  have sl: "s \<le> ?sl" "?sl mod factor \<le> s mod factor + l mod factor"
    using s assms(4) lengthAdd_le lengthAdd_mod_le by simp_all
  have e: "0 \<le> lengthDiffNonNegative old ?sl" "lengthDiffNonNegative old ?sl mod factor \<le> ?sl mod factor"
    using assms sl by (simp_all add: lengthDiffNonNegative_nonneg lengthDiffNonNegative_mod_le)
  have nd: "0 \<le> lengthAdd new ?d" "lengthAdd new ?d mod factor \<le> new mod factor + ?d mod factor"
    using assms(2) d lengthAdd_nonneg lengthAdd_mod_le by simp_all
  have "lengthToObj (lengthAdd new (lengthDiffNonNegative old ?sl)) =
      LengthObj_add (lengthToObj new) (LengthObj_lengthDiffNonNegative (lengthToObj old) (LengthObj_add (lengthToObj s) (lengthToObj l)))"
    using assms m s e sl by (simp only: lengthAdd_obj [of new] lengthAdd_obj [of s] lengthDiffNonNegative_refines)
  also have "\<dots> = LengthObj_add (LengthObj_add (lengthToObj new) (LengthObj_lengthDiffNonNegative (lengthToObj old) (lengthToObj s))) (lengthToObj l)"
    using assms s by (intro obj_add_diff_assoc) (simp_all add: isLessThan_lengthToObj obj_lengths_fit_def pos_imp_zdiv_nonneg_iff)
  also have "\<dots> = lengthToObj (lengthAdd (lengthAdd new ?d) l)"
    using assms m d nd by (simp only: lengthAdd_obj lengthDiffNonNegative_refines)
  finally show ?thesis by (simp only: lengthToObj_inject)
qed

text \<open>Lines and columns of a position at or behind the old end, translated.\<close>

lemma translated_obj:
  assumes "0 \<le> old" "0 \<le> new" "old \<le> x" "new mod factor + x mod factor < factor"
  shows "lengthAdd new (lengthDiffNonNegative old x) div factor = new div factor + (x div factor - old div factor)"
    and "lengthAdd new (lengthDiffNonNegative old x) mod factor =
      (if x div factor = old div factor then new mod factor + (x mod factor - old mod factor) else x mod factor)"
proof -
  let ?d = "lengthDiffNonNegative old x"
  have d: "0 \<le> ?d" "?d mod factor \<le> x mod factor" using assms by (simp_all add: lengthDiffNonNegative_nonneg lengthDiffNonNegative_mod_le)
  have "lengthToObj (lengthAdd new ?d) = LengthObj_add (lengthToObj new) (LengthObj_lengthDiffNonNegative (lengthToObj old) (lengthToObj x))"
    using assms d by (simp only: lengthAdd_obj lengthDiffNonNegative_refines)
  from arg_cong [OF this, of lo_lineCount] arg_cong [OF this, of lo_columnCount]
  show "lengthAdd new ?d div factor = new div factor + (x div factor - old div factor)"
    and "lengthAdd new ?d mod factor =
      (if x div factor = old div factor then new mod factor + (x mod factor - old mod factor) else x mod factor)"
    using assms(3) by (auto simp: LengthObj_add_def LengthObj_lengthDiffNonNegative_def isLessThan_lengthToObj)
qed

lemma skip_edit_inv:
  assumes "bpm_inv (old, new) m" "0 \<le> old" "0 \<le> new" "old \<le> tei_startOffset e" "tei_startOffset e \<le> tei_endOffset e" "0 \<le> tei_newLength e"
    and fit: "new mod factor + tei_startOffset e mod factor + tei_endOffset e mod factor + tei_newLength e mod factor < factor"
  shows "translateOldToCur (tec_endOffsetAfterObj (TextEditInfoCache_from e)) m = snd (after_edit (old, new) e)"
    and "bpm_inv (after_edit (old, new) e) (skip_edit (TextEditInfoCache_from e) m)"
proof -
  let ?N = "snd (after_edit (old, new) e)" and ?O = "tei_endOffset e"
  have m: "0 \<le> tei_startOffset e mod factor" "0 \<le> ?O mod factor" "0 \<le> tei_newLength e mod factor" by simp_all
  have sl: "tei_startOffset e \<le> lengthAdd (tei_startOffset e) (tei_newLength e)" using assms lengthAdd_le by simp
  have "translateOldToCur (lengthToObj (lengthAdd (tei_startOffset e) (tei_newLength e))) m =
      lengthAdd new (lengthDiffNonNegative old (lengthAdd (tei_startOffset e) (tei_newLength e)))"
    using assms sl by (intro translateOldToCur_eq) simp_all
  also have "\<dots> = ?N"
    using assms m lengthAdd_diff_assoc [of old new "tei_startOffset e" "tei_newLength e"] by (simp add: after_edit_def)
  finally show after: "translateOldToCur (tec_endOffsetAfterObj (TextEditInfoCache_from e)) m = ?N"
    by (simp add: TextEditInfoCache_from_def)
  have before: "translateOldToCur (lengthToObj ?O) m = lengthAdd new (lengthDiffNonNegative old ?O)"
    using assms by (intro translateOldToCur_eq) simp_all
  note B = translated_obj [of old new ?O]
  define B' where "B' = lengthAdd new (lengthDiffNonNegative old ?O)"
  have fields: "bpm_deltaOldToNewLineCount (skip_edit (TextEditInfoCache_from e) m) = bpm_deltaOldToNewLineCount m + (?N div factor - B' div factor)"
    "bpm_deltaLineIdxInOld (skip_edit (TextEditInfoCache_from e) m) = ?O div factor"
    "bpm_deltaOldToNewColumnCount (skip_edit (TextEditInfoCache_from e) m) =
       (if bpm_deltaLineIdxInOld m = ?O div factor then bpm_deltaOldToNewColumnCount m else 0) + (?N mod factor - B' mod factor)"
    using after before by (simp_all add: skip_edit_def Let_def TextEditInfoCache_from_def B'_def)
  have O: "0 \<le> old" "0 \<le> new" "old \<le> ?O" "new mod factor + ?O mod factor < factor" using assms m by simp_all
  have B': "B' div factor = new div factor + (?O div factor - old div factor)"
    "B' mod factor = (if ?O div factor = old div factor then new mod factor + (?O mod factor - old mod factor) else ?O mod factor)"
    using B [OF O] by (simp_all add: B'_def)
  from assms(1) consider
    "bpm_deltaLineIdxInOld m = old div factor" "bpm_deltaOldToNewColumnCount m = new mod factor - old mod factor"
      "bpm_deltaOldToNewLineCount m = new div factor - old div factor"
    | "old = 0" "new = 0" "bpm_deltaLineIdxInOld m = - 1" "bpm_deltaOldToNewLineCount m = 0" "bpm_deltaOldToNewColumnCount m = 0"
    by (auto simp: bpm_inv_def)
  then have "bpm_inv (?O, ?N) (skip_edit (TextEditInfoCache_from e) m)"
  proof cases
    case 1
    have "bpm_deltaOldToNewLineCount (skip_edit (TextEditInfoCache_from e) m) = ?N div factor - ?O div factor"
      unfolding fields B' 1 by linarith
    moreover have "bpm_deltaOldToNewColumnCount (skip_edit (TextEditInfoCache_from e) m) = ?N mod factor - ?O mod factor"
      unfolding fields B' 1 by (auto simp only: split: if_split)
    ultimately show ?thesis using fields(2) by (simp only: bpm_inv_def case_prod_conv simp_thms)
  next
    case 2
    have "0 \<le> ?O div factor" using assms by (simp add: pos_imp_zdiv_nonneg_iff)
    then show ?thesis using 2 unfolding bpm_inv_def case_prod_conv fields B' by simp
  qed
  then show "bpm_inv (after_edit (old, new) e) (skip_edit (TextEditInfoCache_from e) m)" by (simp add: after_edit_def)
qed

lemma edit_columns_single:
  "edit_columns [e] = tei_startOffset e mod factor + tei_endOffset e mod factor + tei_newLength e mod factor"
  by (simp add: edit_columns_def)

lemma edit_columns_Cons: "edit_columns (e # es) = edit_columns [e] + edit_columns es"
  by (simp add: edit_columns_def)

lemma sum_le: "(x :: int) \<le> y + v \<Longrightarrow> y \<le> n + z \<Longrightarrow> z \<le> u \<Longrightarrow> 0 \<le> w \<Longrightarrow> x \<le> n + (u + w + v)"
  by linarith

lemma after_edit_bounds:
  assumes "0 \<le> old" "0 \<le> new" "old \<le> tei_startOffset e" "tei_startOffset e \<le> tei_endOffset e" "0 \<le> tei_newLength e"
  shows "0 \<le> fst (after_edit (old, new) e)" "0 \<le> snd (after_edit (old, new) e)"
    and "snd (after_edit (old, new) e) mod factor \<le> new mod factor + edit_columns [e]"
proof -
  let ?d = "lengthDiffNonNegative old (tei_startOffset e)"
  have d: "0 \<le> ?d" "?d mod factor \<le> tei_startOffset e mod factor"
    using assms by (simp_all add: lengthDiffNonNegative_nonneg lengthDiffNonNegative_mod_le)
  have nd: "0 \<le> lengthAdd new ?d" "lengthAdd new ?d mod factor \<le> new mod factor + ?d mod factor"
    using assms(2) d lengthAdd_nonneg lengthAdd_mod_le by simp_all
  show "0 \<le> fst (after_edit (old, new) e)" "0 \<le> snd (after_edit (old, new) e)"
    using assms nd(1) lengthAdd_nonneg by (simp_all add: after_edit_def)
  have "0 \<le> tei_endOffset e mod factor" by simp
  moreover have "snd (after_edit (old, new) e) = lengthAdd (lengthAdd new ?d) (tei_newLength e)" by (simp add: after_edit_def)
  ultimately show "snd (after_edit (old, new) e) mod factor \<le> new mod factor + edit_columns [e]"
    unfolding edit_columns_single
    using sum_le [OF lengthAdd_mod_le [OF nd(1) assms(5)] nd(2) d(2)] by (simp only:)
qed

lemma after_edits_bounds:
  assumes "edits_sorted o0 es" "0 \<le> n0" "foldl after_edit (o0, n0) (take k es) = (old, new)"
  shows "0 \<le> old \<and> 0 \<le> new \<and> new mod factor \<le> n0 mod factor + edit_columns (take k es) \<and>
    (k < length es \<longrightarrow> old \<le> tei_startOffset (es ! k) \<and> tei_startOffset (es ! k) \<le> tei_endOffset (es ! k) \<and> 0 \<le> tei_newLength (es ! k))"
  using assms
proof (induction es arbitrary: o0 n0 k)
  case Nil
  then show ?case by (simp add: edit_columns_def)
next
  case (Cons e es)
  show ?case
  proof (cases k)
    case 0
    then show ?thesis using Cons.prems by (simp add: edit_columns_def)
  next
    case (Suc j)
    note b = after_edit_bounds [of o0 n0 e]
    have "after_edit (o0, n0) e = (tei_endOffset e, snd (after_edit (o0, n0) e))" by (simp add: after_edit_def)
    then have "foldl after_edit (tei_endOffset e, snd (after_edit (o0, n0) e)) (take j es) = (old, new)"
      using Cons.prems(3) Suc by simp
    moreover have b': "0 \<le> snd (after_edit (o0, n0) e)"
      "snd (after_edit (o0, n0) e) mod factor \<le> n0 mod factor + edit_columns [e]" using b Cons.prems(1,2) by simp_all
    ultimately have ih: "0 \<le> old \<and> 0 \<le> new \<and> new mod factor \<le> snd (after_edit (o0, n0) e) mod factor + edit_columns (take j es) \<and>
      (j < length es \<longrightarrow> old \<le> tei_startOffset (es ! j) \<and> tei_startOffset (es ! j) \<le> tei_endOffset (es ! j) \<and> 0 \<le> tei_newLength (es ! j))"
      using Cons.prems(1) by (intro Cons.IH) simp_all
    then have "new mod factor \<le> n0 mod factor + edit_columns (take k (e # es))"
      using b'(2) Suc by (simp only: take_Suc_Cons edit_columns_Cons [of e "take j es"]) linarith
    with ih show ?thesis unfolding Suc nth_Cons_Suc length_Cons Suc_less_eq by blast
  qed
qed

lemma edit_columns_take: "k < length es \<Longrightarrow> edit_columns (take k es) + edit_columns [es ! k] \<le> edit_columns es"
proof -
  assume k: "k < length es"
  have "edit_columns es = edit_columns (take k es) + edit_columns [es ! k] + edit_columns (drop (Suc k) es)"
    by (subst id_take_nth_drop [OF k]) (simp add: edit_columns_def)
  moreover have "0 \<le> edit_columns (drop (Suc k) es)" unfolding edit_columns_def by (rule sum_list_nonneg) auto
  ultimately show ?thesis by simp
qed

text \<open>The mapper after it has passed \<open>k\<close> edits.\<close>

definition mapper_at :: "TextEditInfo list \<Rightarrow> nat \<Rightarrow> BeforeEditPositionMapper \<Rightarrow> bool" where
  "mapper_at es k m \<longleftrightarrow> bpm_edits m = map TextEditInfoCache_from es \<and> bpm_nextEditIdx m = k \<and> k \<le> length es \<and>
     bpm_inv (after_edits (take k es)) m"

lemma mapper_at_new: "mapper_at es 0 (new_BeforeEditPositionMapper es)"
  by (simp add: mapper_at_def new_BeforeEditPositionMapper_def after_edits_def bpm_inv_def)

lemma mapper_step:
  assumes "edits_sorted 0 es" "edit_columns es < factor" "mapper_at es k m" "k < length es"
  shows "translateOldToCur (tec_endOffsetAfterObj (bpm_edits m ! k)) m = snd (after_edits (take (Suc k) es))"
    and "mapper_at es (Suc k) (skip_edit (bpm_edits m ! k) m)"
proof -
  obtain old new where on: "after_edits (take k es) = (old, new)" by fastforce
  note b = after_edits_bounds [OF assms(1), of 0 k old new] on [unfolded after_edits_def]
  have inv: "bpm_inv (old, new) m" using assms(3) on by (simp add: mapper_at_def)
  have fit: "new mod factor + tei_startOffset (es ! k) mod factor + tei_endOffset (es ! k) mod factor + tei_newLength (es ! k) mod factor < factor"
    using b assms(2,4) edit_columns_take [OF assms(4)] by (simp add: edit_columns_def)
  have nxt: "after_edits (take (Suc k) es) = after_edit (old, new) (es ! k)" "bpm_edits m ! k = TextEditInfoCache_from (es ! k)"
    using on assms(3,4) by (simp_all add: after_edits_def take_Suc_conv_app_nth mapper_at_def)
  note s = skip_edit_inv [OF inv _ _ _ _ _ fit]
  show "translateOldToCur (tec_endOffsetAfterObj (bpm_edits m ! k)) m = snd (after_edits (take (Suc k) es))"
    using s(1) b assms(4) nxt by simp
  show "mapper_at es (Suc k) (skip_edit (bpm_edits m ! k) m)"
    using s(2) b assms(3,4) nxt by (simp add: mapper_at_def)
qed

lemma adjustNextEdit_correct:
  assumes "edits_sorted 0 es" "edit_columns es < factor" "mapper_at es k m" "snd (after_edits (take k es)) \<le> offset"
  shows "\<exists>j \<ge> k. mapper_at es j (adjustNextEdit offset m) \<and> snd (after_edits (take j es)) \<le> offset \<and>
    (j < length es \<longrightarrow> offset < snd (after_edits (take (Suc j) es)))"
  using assms(3,4)
proof (induction offset m arbitrary: k rule: adjustNextEdit.induct)
  case (1 offset m)
  have k: "bpm_nextEditIdx m = k" "length (bpm_edits m) = length es" using 1(2) by (simp_all add: mapper_at_def)
  show ?case
  proof (cases "k < length es")
    case True
    note step = mapper_step [OF assms(1,2) 1(2) True]
    show ?thesis
    proof (cases "snd (after_edits (take (Suc k) es)) \<le> offset")
      case le: True
      then have skip: "lengthLessThanEqual (translateOldToCur (tec_endOffsetAfterObj (bpm_edits m ! bpm_nextEditIdx m)) m) offset"
        using step(1) k by (simp add: lengthLessThanEqual_def)
      then have "adjustNextEdit offset m = adjustNextEdit offset (skip_edit (bpm_edits m ! k) m)"
        using True k by (subst adjustNextEdit.simps) (simp add: Let_def)
      moreover have "bpm_nextEditIdx m < length (bpm_edits m)" using True k by simp
      from 1(1) [OF this refl skip, of "Suc k"] step(2) le
      have "\<exists>j \<ge> Suc k. mapper_at es j (adjustNextEdit offset (skip_edit (bpm_edits m ! k) m)) \<and> snd (after_edits (take j es)) \<le> offset \<and>
          (j < length es \<longrightarrow> offset < snd (after_edits (take (Suc j) es)))" by (simp only: k)
      ultimately have "\<exists>j \<ge> Suc k. mapper_at es j (adjustNextEdit offset m) \<and> snd (after_edits (take j es)) \<le> offset \<and>
          (j < length es \<longrightarrow> offset < snd (after_edits (take (Suc j) es)))" by (simp only:)
      then show ?thesis by (metis Suc_leD)
    next
      case False
      then have "adjustNextEdit offset m = m"
        using step(1) k by (subst adjustNextEdit.simps) (simp add: Let_def lengthLessThanEqual_def)
      then show ?thesis using 1(2,3) False by (intro exI [of _ k]) auto
    qed
  next
    case False
    then have "adjustNextEdit offset m = m" using k by (subst adjustNextEdit.simps) simp
    then show ?thesis using 1(2,3) False by (intro exI [of _ k]) auto
  qed
qed



end
