(* ===== verification/Bracket_Node_Reader.thy ===== *)
theory Bracket_Node_Reader
  imports Bracket_Ast
begin

text \<open>
  \<open>src/vs/editor/common/model/bracketPairsTextModelPart/bracketPairsTree/nodeReader.ts\<close>: the reader that walks through
  the old bracket tree by increasing offsets and returns nodes that can be reused.
\<close>

section \<open>NodeReader\<close>

text \<open>The three stacks, innermost element first.\<close>

record 'b NodeReader =
  nr_nextNodes :: "'b AstNode list"
  nr_offsets :: "Length list"
  nr_idxs :: "number list"
  nr_lastOffset :: Length

definition new_NodeReader :: "'b AstNode \<Rightarrow> 'b NodeReader" where
  "new_NodeReader node = \<lparr>nr_nextNodes = [node], nr_offsets = [lengthZero], nr_idxs = [], nr_lastOffset = lengthZero\<rparr>"

function getNextChildIdx :: "'b AstNode \<Rightarrow> number \<Rightarrow> number result" where
  "getNextChildIdx node curIdx =
     (if curIdx + 1 \<ge> AstNode_childrenLength node then Inr (- 1)
      else case AstNode_getChild (curIdx + 1) node of
             Inl e \<Rightarrow> Inl e
           | Inr (Some _) \<Rightarrow> Inr (curIdx + 1)
           | Inr None \<Rightarrow> getNextChildIdx node (curIdx + 1))"
  by pat_completeness auto
termination by (relation "measure (\<lambda>(node, curIdx). nat (AstNode_childrenLength node - curIdx))") auto

declare getNextChildIdx.simps [simp del]

text \<open>The child that a call of \<open>getNextChildIdx\<close> has found.\<close>

definition child_at :: "'b AstNode \<Rightarrow> number \<Rightarrow> 'b AstNode result" where
  "child_at node idx = result_bind (AstNode_getChild idx node) (\<lambda>c. case c of None \<Rightarrow> Inl TypeError | Some x \<Rightarrow> Inr x)"

text \<open>The loop of \<open>nextNodeAfterCurrent\<close> on the stacks.\<close>

fun nextNodeAfterCurrent :: "'b AstNode list \<Rightarrow> Length list \<Rightarrow> number list \<Rightarrow> ('b AstNode list \<times> Length list \<times> number list) result" where
  "nextNodeAfterCurrent nodes offsets [] = Inr (tl nodes, tl offsets, [])"
| "nextNodeAfterCurrent nodes offsets (idx # idxs) =
     (case (nodes, offsets) of
        (currentNode # parent # nodes', currentOffset # offsets') \<Rightarrow>
          result_bind (getNextChildIdx parent idx) (\<lambda>nextChildIdx.
            if nextChildIdx \<noteq> - 1
            then result_bind (child_at parent nextChildIdx) (\<lambda>c.
                   Inr (c # parent # nodes', lengthAdd currentOffset (AstNode_length currentNode) # offsets', nextChildIdx # idxs))
            else nextNodeAfterCurrent (parent # nodes') offsets' idxs)
      | _ \<Rightarrow> Inl TypeError)"

definition NodeReader_advance :: "'b NodeReader \<Rightarrow> 'b NodeReader result" where
  "NodeReader_advance this =
     result_map (\<lambda>(nodes, offsets, idxs). this\<lparr>nr_nextNodes := nodes, nr_offsets := offsets, nr_idxs := idxs\<rparr>)
       (nextNodeAfterCurrent (nr_nextNodes this) (nr_offsets this) (nr_idxs this))"

definition NodeReader_descend :: "'b AstNode \<Rightarrow> Length \<Rightarrow> number \<Rightarrow> 'b NodeReader \<Rightarrow> 'b NodeReader result" where
  "NodeReader_descend curNode curNodeOffset nextChildIdx this =
     result_map (\<lambda>c. this\<lparr>nr_nextNodes := c # nr_nextNodes this, nr_offsets := curNodeOffset # nr_offsets this,
                          nr_idxs := nextChildIdx # nr_idxs this\<rparr>)
       (child_at curNode nextChildIdx)"

text \<open>The loop of \<open>readLongestNodeAt\<close>; \<open>None\<close> is a call that has not returned.\<close>

fun readLongest_loop :: "nat \<Rightarrow> Length \<Rightarrow> ('b AstNode \<Rightarrow> bool result) \<Rightarrow> 'b NodeReader \<Rightarrow> ('b AstNode option \<times> 'b NodeReader) result option" where
  "readLongest_loop 0 offset p this = None"
| "readLongest_loop (Suc fuel) offset p this =
     (case (nr_nextNodes this, nr_offsets this) of
        (curNode # _, curNodeOffset # _) \<Rightarrow>
          if lengthLessThan offset curNodeOffset then Some (Inr (None, this))
          else if lengthLessThan curNodeOffset offset
          then if lengthAdd curNodeOffset (AstNode_length curNode) \<le> offset
               then (case NodeReader_advance this of Inl e \<Rightarrow> Some (Inl e) | Inr this' \<Rightarrow> readLongest_loop fuel offset p this')
               else (case getNextChildIdx curNode (- 1) of
                       Inl e \<Rightarrow> Some (Inl e)
                     | Inr i \<Rightarrow>
                         (case (if i \<noteq> - 1 then NodeReader_descend curNode curNodeOffset i this else NodeReader_advance this) of
                            Inl e \<Rightarrow> Some (Inl e) | Inr this' \<Rightarrow> readLongest_loop fuel offset p this'))
          else (case p curNode of
                  Inl e \<Rightarrow> Some (Inl e)
                | Inr True \<Rightarrow> Some (result_map (Pair (Some curNode)) (NodeReader_advance this))
                | Inr False \<Rightarrow>
                    (case getNextChildIdx curNode (- 1) of
                       Inl e \<Rightarrow> Some (Inl e)
                     | Inr i \<Rightarrow>
                         if i = - 1 then Some (result_map (Pair None) (NodeReader_advance this))
                         else (case NodeReader_descend curNode curNodeOffset i this of
                                 Inl e \<Rightarrow> Some (Inl e) | Inr this' \<Rightarrow> readLongest_loop fuel offset p this')))
      | ([], _) \<Rightarrow> Some (Inr (None, this))
      | _ \<Rightarrow> Some (Inl TypeError))"

definition readLongestNodeAt :: "nat \<Rightarrow> Length \<Rightarrow> ('b AstNode \<Rightarrow> bool result) \<Rightarrow> 'b NodeReader \<Rightarrow> ('b AstNode option \<times> 'b NodeReader) result option" where
  "readLongestNodeAt fuel offset p this =
     (if lengthLessThan offset (nr_lastOffset this) then Some (Inl PlainError)
      else readLongest_loop fuel offset p (this\<lparr>nr_lastOffset := offset\<rparr>))"

section \<open>Nodes of a tree and their offsets\<close>

inductive occurs_at :: "'b AstNode \<Rightarrow> Length \<Rightarrow> 'b AstNode \<Rightarrow> bool" for root where
  root: "occurs_at root lengthZero root"
| child: "occurs_at root offset n \<Longrightarrow> AstNode_children n = xs @ c # ys \<Longrightarrow>
    occurs_at root (foldl lengthAdd offset (map AstNode_length xs)) c"

fun node_count :: "'b AstNode \<Rightarrow> nat" where
  "node_count (PairAstNode _ _ child cb _) =
     2 + (case child of None \<Rightarrow> 0 | Some c \<Rightarrow> node_count c) + (case cb of None \<Rightarrow> 0 | Some _ \<Rightarrow> 1)"
| "node_count (TwoThreeListAstNode _ _ _ a b c _) =
     1 + node_count a + node_count b + (case c of None \<Rightarrow> 0 | Some c \<Rightarrow> node_count c)"
| "node_count (ArrayListAstNode _ _ _ cs _) = 1 + sum_list (map node_count cs)"
| "node_count _ = 1"

lemma node_count_children: "node_count n = Suc (sum_list (map node_count (AstNode_children n)))"
  by (cases n) (auto split: option.splits)

text \<open>The children by their index; a missing one is skipped.\<close>

definition kid :: "'b AstNode \<Rightarrow> nat \<Rightarrow> 'b AstNode list" where
  "kid p k = (case AstNode_getChild (int k) p of Inr (Some c) \<Rightarrow> [c] | _ \<Rightarrow> [])"

definition kids_before :: "'b AstNode \<Rightarrow> number \<Rightarrow> 'b AstNode list" where
  "kids_before p i = concat (map (kid p) [0 ..< nat i])"

definition kids_after :: "'b AstNode \<Rightarrow> number \<Rightarrow> 'b AstNode list" where
  "kids_after p i = concat (map (kid p) [nat (i + 1) ..< nat (AstNode_childrenLength p)])"

lemma childrenLength_nonneg: "0 \<le> AstNode_childrenLength p"
  by (cases p) auto

lemma kids_all: "concat (map (kid p) [0 ..< nat (AstNode_childrenLength p)]) = AstNode_children p"
proof (cases p)
  case (ArrayListAstNode imm l h cs m)
  have "concat (map (\<lambda>k. [cs ! k]) [0 ..< length cs]) = cs"
    using map_nth [of cs] by (simp add: concat_map_singleton)
  moreover have "map (kid p) [0 ..< length cs] = map (\<lambda>k. [cs ! k]) [0 ..< length cs]"
    using ArrayListAstNode by (intro map_cong refl) (simp add: kid_def)
  moreover have "nat (AstNode_childrenLength p) = length cs" "AstNode_children p = cs" using ArrayListAstNode by simp_all
  ultimately show ?thesis by (simp only:)
qed (auto simp: kid_def upt_rec numeral_eq_Suc split: option.splits)

lemma getChild_total:
  assumes "0 \<le> i" "i < AstNode_childrenLength p" shows "\<exists>c. AstNode_getChild i p = Inr c"
  using assms by (cases p) (auto split: if_splits)

lemma upt_split: "k < n \<Longrightarrow> [0 ..< n] = [0 ..< k] @ k # [Suc k ..< n]"
  using upt_add_eq_append [of 0 k "n - k"] by (simp only: le_add_diff_inverse less_imp_le upt_conv_Cons)

lemma kids_split:
  assumes "0 \<le> i" "i < AstNode_childrenLength p" "AstNode_getChild i p = Inr (Some c)"
  shows "AstNode_children p = kids_before p i @ c # kids_after p i"
proof -
  have i: "nat i < nat (AstNode_childrenLength p)" using assms by simp
  have "[0 ..< nat (AstNode_childrenLength p)] = [0 ..< nat i] @ nat i # [nat (i + 1) ..< nat (AstNode_childrenLength p)]"
    using upt_split [OF i] assms(1) by (simp only: Suc_nat_eq_nat_zadd1 add.commute)
  moreover have "kid p (nat i) = [c]" using assms by (simp add: kid_def)
  ultimately show ?thesis using kids_all [of p] by (simp add: kids_before_def kids_after_def)
qed

text \<open>What \<open>getNextChildIdx\<close> finds.\<close>

lemma getNextChildIdx_correct:
  assumes "- 1 \<le> i"
  shows "getNextChildIdx p i = Inr (- 1) \<and> kids_after p i = [] \<or>
    (\<exists>j c. getNextChildIdx p i = Inr j \<and> i < j \<and> j < AstNode_childrenLength p \<and> AstNode_getChild j p = Inr (Some c) \<and>
       kids_after p i = c # kids_after p j \<and> kids_before p j = kids_before p (i + 1))"
  using assms
proof (induction p i rule: getNextChildIdx.induct)
  case (1 p i)
  show ?case
  proof (cases "i + 1 \<ge> AstNode_childrenLength p")
    case True
    then show ?thesis by (subst getNextChildIdx.simps) (simp add: kids_after_def)
  next
    case False
    then have upt: "[nat (i + 1) ..< nat (AstNode_childrenLength p)] = nat (i + 1) # [nat (i + 2) ..< nat (AstNode_childrenLength p)]"
      using 1(2) by (simp add: upt_conv_Cons nat_add_distrib Suc_nat_eq_nat_zadd1 add.commute)
    obtain co where co: "AstNode_getChild (i + 1) p = Inr co" using getChild_total [of "i + 1" p] False 1(2) by auto
    have kid: "kid p (nat (i + 1)) = (case co of None \<Rightarrow> [] | Some c \<Rightarrow> [c])" using co 1(2) by (simp add: kid_def split: option.splits)
    have after: "kids_after p i = (case co of None \<Rightarrow> [] | Some c \<Rightarrow> [c]) @ kids_after p (i + 1)"
      using upt kid by (simp add: kids_after_def add.assoc)
    show ?thesis
    proof (cases co)
      case None
      have "kids_before p (i + 1 + 1) = kids_before p (i + 1)"
      proof -
        have "nat (i + 1 + 1) = Suc (nat (i + 1))" using 1(2) by simp
        then show ?thesis using kid None by (simp only: kids_before_def) simp
      qed
      moreover have "getNextChildIdx p i = getNextChildIdx p (i + 1)"
        using False co None by (subst getNextChildIdx.simps) simp
      ultimately show ?thesis using 1(1) [OF False co [unfolded None] refl] 1(2) after None by fastforce
    next
      case (Some c)
      then have "getNextChildIdx p i = Inr (i + 1)" using False co by (subst getNextChildIdx.simps) simp
      then show ?thesis using after co Some False by auto
    qed
  qed
qed

section \<open>The reader stays on the tree\<close>

text \<open>
  The stacks describe a path from the root: every node is the child, at its index, of the node below it, and its offset
  is that of its parent plus the lengths of the children before it.
\<close>

fun reader_path :: "'b AstNode \<Rightarrow> 'b AstNode list \<Rightarrow> Length list \<Rightarrow> number list \<Rightarrow> bool" where
  "reader_path root [] [] [] \<longleftrightarrow> True"
| "reader_path root [n] [off] [] \<longleftrightarrow> n = root \<and> off = lengthZero"
| "reader_path root (n # p # ns) (off # poff # offs) (i # is) \<longleftrightarrow>
     0 \<le> i \<and> i < AstNode_childrenLength p \<and> AstNode_getChild i p = Inr (Some n) \<and>
     off = foldl lengthAdd poff (map AstNode_length (kids_before p i)) \<and> reader_path root (p # ns) (poff # offs) is"
| "reader_path root _ _ _ \<longleftrightarrow> False"

definition reader_ok :: "'b AstNode \<Rightarrow> 'b NodeReader \<Rightarrow> bool" where
  "reader_ok root r \<longleftrightarrow> reader_path root (nr_nextNodes r) (nr_offsets r) (nr_idxs r)"

text \<open>The number of nodes the reader has not left behind.\<close>

fun frames_left :: "'b AstNode list \<Rightarrow> number list \<Rightarrow> nat" where
  "frames_left (p # ns) (i # is) = sum_list (map node_count (kids_after p i)) + frames_left ns is"
| "frames_left _ _ = 0"

definition nodes_left :: "'b AstNode list \<Rightarrow> number list \<Rightarrow> nat" where
  "nodes_left nodes idxs = (case nodes of [] \<Rightarrow> 0 | n # ps \<Rightarrow> node_count n + frames_left ps idxs)"

definition reader_left :: "'b NodeReader \<Rightarrow> nat" where
  "reader_left r = nodes_left (nr_nextNodes r) (nr_idxs r)"

lemma reader_ok_new: "reader_ok root (new_NodeReader root)" "reader_left (new_NodeReader root) = node_count root"
  by (simp_all add: reader_ok_def reader_left_def nodes_left_def new_NodeReader_def)

lemma reader_path_occurs: "reader_path root (n # ns) (off # offs) idxs \<Longrightarrow> occurs_at root off n"
proof (induction idxs arbitrary: n ns off offs)
  case Nil
  then show ?case by (cases ns; cases offs) (auto intro: occurs_at.root)
next
  case (Cons i idxs)
  then obtain p ns' poff offs' where eq: "ns = p # ns'" "offs = poff # offs'" by (cases ns; cases offs) auto
  then have "occurs_at root poff p" using Cons.IH Cons.prems by auto
  then show ?case using Cons.prems eq kids_split [of i p n] by (auto intro: occurs_at.child)
qed

lemma kids_before_step:
  assumes "0 \<le> i" "AstNode_getChild i p = Inr (Some n)"
  shows "kids_before p (i + 1) = kids_before p i @ [n]"
proof -
  have "nat (i + 1) = Suc (nat i)" using assms by simp
  moreover have "kid p (nat i) = [n]" using assms by (simp add: kid_def)
  ultimately show ?thesis by (simp add: kids_before_def)
qed

lemma nextNode_correct:
  assumes "reader_path root (n # ns) (off # offs) idxs"
  shows "\<exists>nodes' offs' idxs'. nextNodeAfterCurrent (n # ns) (off # offs) idxs = Inr (nodes', offs', idxs') \<and>
    reader_path root nodes' offs' idxs' \<and> nodes_left nodes' idxs' = frames_left ns idxs"
  using assms
proof (induction idxs arbitrary: n ns off offs)
  case Nil
  then show ?case by (cases ns; cases offs) (auto simp: nodes_left_def)
next
  case (Cons i idxs)
  then obtain p ns' poff offs' where eq: "ns = p # ns'" "offs = poff # offs'" by (cases ns; cases offs) auto
  then have i: "0 \<le> i" "AstNode_getChild i p = Inr (Some n)" "off = foldl lengthAdd poff (map AstNode_length (kids_before p i))"
    and path: "reader_path root (p # ns') (poff # offs') idxs" using Cons.prems by auto
  from getNextChildIdx_correct [of i p] i(1)
  consider "getNextChildIdx p i = Inr (- 1)" "kids_after p i = []"
    | j c where "getNextChildIdx p i = Inr j" "i < j" "j < AstNode_childrenLength p" "AstNode_getChild j p = Inr (Some c)"
      "kids_after p i = c # kids_after p j" "kids_before p j = kids_before p (i + 1)" by auto
  then show ?case
  proof cases
    case 1
    then show ?thesis using Cons.IH [OF path] eq by simp
  next
    case (2 j c)
    have "lengthAdd off (AstNode_length n) = foldl lengthAdd poff (map AstNode_length (kids_before p j))"
      using 2(6) kids_before_step [OF i(1,2)] i(3) by simp
    moreover have "0 \<le> j" "j \<noteq> - 1" "child_at p j = Inr c" using 2 i(1) by (auto simp: child_at_def)
    ultimately show ?thesis using 2 eq path by (simp add: nodes_left_def)
  qed
qed

lemma NodeReader_advance_correct:
  assumes "reader_ok root r" "nr_nextNodes r \<noteq> []"
  shows "\<exists>r'. NodeReader_advance r = Inr r' \<and> reader_ok root r' \<and> reader_left r' < reader_left r"
proof -
  obtain n ns where n: "nr_nextNodes r = n # ns" using assms(2) by (cases "nr_nextNodes r") auto
  obtain off offs where o: "nr_offsets r = off # offs"
    using assms n by (cases "nr_offsets r"; cases "nr_idxs r"; cases ns) (auto simp: reader_ok_def)
  have "frames_left ns (nr_idxs r) < nodes_left (n # ns) (nr_idxs r)" by (simp add: nodes_left_def node_count_children)
  with nextNode_correct [of root n ns off offs "nr_idxs r"] assms n o show ?thesis
    by (auto simp: reader_ok_def reader_left_def NodeReader_advance_def)
qed

lemma NodeReader_descend_correct:
  assumes "reader_ok root r" "nr_nextNodes r = n # ns" "nr_offsets r = off # offs" "getNextChildIdx n (- 1) = Inr i" "i \<noteq> - 1"
  shows "\<exists>r'. NodeReader_descend n off i r = Inr r' \<and> reader_ok root r' \<and> reader_left r' < reader_left r"
proof -
  from getNextChildIdx_correct [of "- 1" n] assms(4,5) obtain c where c: "- 1 < i" "i < AstNode_childrenLength n"
    "AstNode_getChild i n = Inr (Some c)" "kids_after n (- 1) = c # kids_after n i" "kids_before n i = kids_before n 0" by auto
  have "child_at n i = Inr c" using c by (simp add: child_at_def)
  moreover have "kids_before n i = []" using c(5) by (simp add: kids_before_def)
  moreover have "AstNode_children n = c # kids_after n i" using kids_split [of i n c] c calculation(2) by simp
  ultimately show ?thesis using assms(1-3) c
    by (simp add: NodeReader_descend_def reader_ok_def reader_left_def nodes_left_def node_count_children [of n])
qed

lemma NodeReader_lastOffset [simp]:
  "NodeReader_advance r = Inr r' \<Longrightarrow> nr_lastOffset r' = nr_lastOffset r"
  "NodeReader_descend n off i r = Inr r' \<Longrightarrow> nr_lastOffset r' = nr_lastOffset r"
  by (auto simp: NodeReader_advance_def NodeReader_descend_def)

definition read_result :: "'b AstNode \<Rightarrow> Length \<Rightarrow> ('b AstNode \<Rightarrow> bool result) \<Rightarrow> 'b NodeReader \<Rightarrow> 'b AstNode option \<times> 'b NodeReader \<Rightarrow> bool" where
  "read_result root offset p r = (\<lambda>(res, r'). reader_ok root r' \<and> reader_left r' \<le> reader_left r \<and> nr_lastOffset r' = nr_lastOffset r \<and>
     (\<forall>n. res = Some n \<longrightarrow> occurs_at root offset n \<and> p n = Inr True \<and> reader_left r' < reader_left r))"

lemma read_result_mono:
  "read_result root offset p r' x \<Longrightarrow> reader_left r' \<le> reader_left r \<Longrightarrow> nr_lastOffset r' = nr_lastOffset r \<Longrightarrow> read_result root offset p r x"
  by (fastforce simp: read_result_def)

lemma readLongest_loop_correct:
  assumes total: "\<And>off n. occurs_at root off n \<Longrightarrow> \<exists>b. p n = Inr b"
  shows "reader_ok root r \<Longrightarrow> reader_left r < fuel \<Longrightarrow>
    \<exists>x. readLongest_loop fuel offset p r = Some (Inr x) \<and> read_result root offset p r x"
proof (induction fuel arbitrary: r)
  case (Suc fuel)
  show ?case
  proof (cases "nr_nextNodes r")
    case Nil
    then show ?thesis using Suc.prems by (auto simp: read_result_def)
  next
    case (Cons n ns)
    obtain off offs where o: "nr_offsets r = off # offs"
      using Suc.prems(1) Cons by (cases "nr_offsets r"; cases "nr_idxs r"; cases ns) (auto simp: reader_ok_def)
    have occ: "occurs_at root off n" using Suc.prems(1) Cons o by (auto simp: reader_ok_def dest: reader_path_occurs)
    obtain b where b: "p n = Inr b" using total [OF occ] by blast
    obtain a where a: "NodeReader_advance r = Inr a" "reader_ok root a" "reader_left a < reader_left r"
      using NodeReader_advance_correct [OF Suc.prems(1)] Cons by auto
    obtain i where i: "getNextChildIdx n (- 1) = Inr i" using getNextChildIdx_correct [of "- 1" n] by auto
    have d: "\<exists>d. NodeReader_descend n off i r = Inr d \<and> reader_ok root d \<and> reader_left d < reader_left r" if "i \<noteq> - 1"
      using NodeReader_descend_correct [OF Suc.prems(1) Cons o i that] .
    have continue: "\<exists>x. readLongest_loop fuel offset p r' = Some (Inr x) \<and> read_result root offset p r x"
      if "reader_ok root r'" "reader_left r' < reader_left r" "nr_lastOffset r' = nr_lastOffset r" for r'
      using Suc.IH [OF that(1)] that Suc.prems(2) read_result_mono [of root offset p r'] by fastforce
    have goA: "\<exists>x. readLongest_loop fuel offset p a = Some (Inr x) \<and> read_result root offset p r x"
      using continue a by simp
    have goD: "\<exists>d x. NodeReader_descend n off i r = Inr d \<and> readLongest_loop fuel offset p d = Some (Inr x) \<and> read_result root offset p r x" if "i \<noteq> - 1"
    proof -
      obtain d where "NodeReader_descend n off i r = Inr d" "reader_ok root d" "reader_left d < reader_left r" using d \<open>i \<noteq> - 1\<close> by blast
      then show ?thesis using continue [of d] by auto
    qed
    consider "offset < off" | "off < offset" | "off = offset" by linarith
    then show ?thesis
    proof cases
      case 1
      then show ?thesis using Cons o Suc.prems(1) by (simp add: lengthLessThan_def read_result_def)
    next
      case 2
      then show ?thesis using Cons o a(1) goA goD i by (auto simp: lengthLessThan_def)
    next
      case 3
      then show ?thesis using Cons o a b i occ goD by (cases b) (auto simp: lengthLessThan_def read_result_def)
    qed
  qed
qed simp



end
