(* ===== verification/Bracket_Config.thy ===== *)
theory Bracket_Config
  imports Prelude "HOL-Library.AList"
begin

text \<open>
  The brackets of a language, \<open>src/vs/editor/common/languages/supports/languageBracketsConfiguration.ts\<close>: from the pairs of the language's configuration the
  constructor builds one object per opening and per closing bracket text. These objects refer to each other in cycles; the model refers to an object of the same
  configuration by its bracket text, which is its key in the maps, and to a configuration object by a number.
\<close>

section \<open>The configuration\<close>

type_synonym bracket_pair = "jsstring \<times> jsstring"

record LanguageConfiguration =
  conf_brackets :: "bracket_pair list option"
  conf_colorizedBracketPairs :: "bracket_pair list option"

record OpeningBracketKind =
  obk_config :: nat
  obk_languageId :: jsstring
  obk_bracketText :: jsstring
  obk_openedBrackets :: "jsstring list"

record ClosingBracketKind =
  cbk_config :: nat
  cbk_languageId :: jsstring
  cbk_bracketText :: jsstring
  cbk_openingBrackets :: "jsstring list"
  cbk_openingColorizedBrackets :: "jsstring list"

record LanguageBracketsConfiguration =
  lbc_languageId :: jsstring
  lbc_openingBrackets :: "(jsstring \<times> OpeningBracketKind) list"
  lbc_closingBrackets :: "(jsstring \<times> ClosingBracketKind) list"

definition filterValidBrackets :: "bracket_pair list \<Rightarrow> bracket_pair list" where
  "filterValidBrackets bracketPairs = filter (\<lambda>(opn, cls). opn \<noteq> [] \<and> cls \<noteq> []) bracketPairs"

text \<open>
  \<open>CachedFunction.get\<close> creates the value of a new key, and \<open>Set.add\<close> adds a new element, at the end. The two cached functions hold the
  sets that belong to a text: the closing texts, and the opening and the colorized opening texts.
\<close>

definition cached_get :: "'k \<Rightarrow> 'v \<Rightarrow> ('k \<times> 'v) list \<Rightarrow> ('k \<times> 'v) list" where
  "cached_get k fresh cache = (if map_of cache k = None then cache @ [(k, fresh)] else cache)"

definition set_add :: "'a \<Rightarrow> 'a list \<Rightarrow> 'a list" where
  "set_add x xs = (if x \<in> set xs then xs else xs @ [x])"

record bracket_infos =
  bi_opening :: "(jsstring \<times> jsstring list) list"
  bi_closing :: "(jsstring \<times> jsstring list \<times> jsstring list) list"

text \<open>One round of the two loops of the constructor, the second of which marks the pair as colorized.\<close>

definition add_pair :: "bool \<Rightarrow> bracket_pair \<Rightarrow> bracket_infos \<Rightarrow> bracket_infos" where
  "add_pair colorized = (\<lambda>(opn, cls) infos.
     \<lparr>bi_opening = AList.map_entry opn (set_add cls) (cached_get opn [] (bi_opening infos)),
      bi_closing = AList.map_entry cls (\<lambda>(opening, openingColorized). (set_add opn opening, if colorized then set_add opn openingColorized else openingColorized))
        (cached_get cls ([], []) (bi_closing infos))\<rparr>)"

definition config_pairs :: "LanguageConfiguration \<Rightarrow> bracket_pair list" where
  "config_pairs config = (case conf_brackets config of None \<Rightarrow> [] | Some ps \<Rightarrow> filterValidBrackets ps)"

definition colorized_pairs :: "LanguageConfiguration \<Rightarrow> bracket_pair list" where
  "colorized_pairs config =
     (case conf_colorizedBracketPairs config of
        Some ps \<Rightarrow> filterValidBrackets ps
      | None \<Rightarrow> filter (\<lambda>p. \<not> (fst p = js_str ''<'' \<and> snd p = js_str ''>'')) (config_pairs config))"

definition new_LanguageBracketsConfiguration :: "nat \<Rightarrow> jsstring \<Rightarrow> LanguageConfiguration \<Rightarrow> LanguageBracketsConfiguration" where
  "new_LanguageBracketsConfiguration this languageId config =
     (let infos = fold (add_pair True) (colorized_pairs config) (fold (add_pair False) (config_pairs config) \<lparr>bi_opening = [], bi_closing = []\<rparr>)
      in \<lparr>lbc_languageId = languageId,
          lbc_openingBrackets = map (\<lambda>(k, closing). (k, \<lparr>obk_config = this, obk_languageId = languageId, obk_bracketText = k, obk_openedBrackets = closing\<rparr>))
            (bi_opening infos),
          lbc_closingBrackets = map (\<lambda>(k, opening, openingColorized). (k, \<lparr>cbk_config = this, cbk_languageId = languageId, cbk_bracketText = k,
            cbk_openingBrackets = opening, cbk_openingColorizedBrackets = openingColorized\<rparr>)) (bi_closing infos)\<rparr>)"

definition openingBrackets :: "LanguageBracketsConfiguration \<Rightarrow> OpeningBracketKind list" where
  "openingBrackets this = map snd (lbc_openingBrackets this)"

definition closingBrackets :: "LanguageBracketsConfiguration \<Rightarrow> ClosingBracketKind list" where
  "closingBrackets this = map snd (lbc_closingBrackets this)"

definition getOpeningBracketInfo :: "jsstring \<Rightarrow> LanguageBracketsConfiguration \<Rightarrow> OpeningBracketKind option" where
  "getOpeningBracketInfo bracketText this = map_of (lbc_openingBrackets this) bracketText"

definition getClosingBracketInfo :: "jsstring \<Rightarrow> LanguageBracketsConfiguration \<Rightarrow> ClosingBracketKind option" where
  "getClosingBracketInfo bracketText this = map_of (lbc_closingBrackets this) bracketText"

datatype BracketKind = Opening OpeningBracketKind | Closing ClosingBracketKind

definition getBracketInfo :: "jsstring \<Rightarrow> LanguageBracketsConfiguration \<Rightarrow> BracketKind option" where
  "getBracketInfo bracketText this =
     (case getOpeningBracketInfo bracketText this of
        Some o' \<Rightarrow> Some (Opening o')
      | None \<Rightarrow> map_option Closing (getClosingBracketInfo bracketText this))"

definition ClosingBracketKind_closes :: "OpeningBracketKind \<Rightarrow> ClosingBracketKind \<Rightarrow> bool" where
  "ClosingBracketKind_closes other this =
     (if obk_config other \<noteq> cbk_config this then False else obk_bracketText other \<in> set (cbk_openingBrackets this))"

definition ClosingBracketKind_closesColorized :: "OpeningBracketKind \<Rightarrow> ClosingBracketKind \<Rightarrow> bool" where
  "ClosingBracketKind_closesColorized other this =
     (if obk_config other \<noteq> cbk_config this then False else obk_bracketText other \<in> set (cbk_openingColorizedBrackets this))"

text \<open>The opening brackets of a closing one: the objects that the configuration has under these texts.\<close>

definition getOpeningBrackets :: "LanguageBracketsConfiguration \<Rightarrow> ClosingBracketKind \<Rightarrow> OpeningBracketKind list" where
  "getOpeningBrackets config this = List.map_filter (\<lambda>text. getOpeningBracketInfo text config) (cbk_openingBrackets this)"

section \<open>The pairs of a configuration\<close>

text \<open>The sets after some pairs: \<open>S\<close> are all of them, \<open>C\<close> the colorized ones.\<close>

definition entries_ok :: "'k set \<Rightarrow> ('k \<Rightarrow> 'v \<Rightarrow> bool) \<Rightarrow> ('k \<times> 'v) list \<Rightarrow> bool" where
  "entries_ok K Q al \<longleftrightarrow> distinct (map fst al) \<and> fst ` set al = K \<and> (\<forall>(k, v) \<in> set al. Q k v)"

definition infos_ok :: "bracket_pair set \<Rightarrow> bracket_pair set \<Rightarrow> bracket_infos \<Rightarrow> bool" where
  "infos_ok S C infos \<longleftrightarrow>
     entries_ok (fst ` S) (\<lambda>k cs. set cs = {c. (k, c) \<in> S}) (bi_opening infos) \<and>
     entries_ok (snd ` S) (\<lambda>k (os, ks). set os = {p. (p, k) \<in> S} \<and> set ks = {p. (p, k) \<in> C}) (bi_closing infos)"

lemma set_add [simp]: "set (set_add x xs) = insert x (set xs)"
  by (auto simp: set_add_def)

lemma cached_get_entries:
  "fst ` set (cached_get k fresh cache) = insert k (fst ` set cache)"
  "distinct (map fst cache) \<Longrightarrow> distinct (map fst (cached_get k fresh cache))"
  "x \<in> set (cached_get k fresh cache) \<longleftrightarrow> x \<in> set cache \<or> x = (k, fresh) \<and> k \<notin> fst ` set cache"
  by (cases "k \<in> fst ` set cache", simp_all add: cached_get_def map_of_eq_None_iff insert_absorb, blast)+

lemma map_entry_keys: "map fst (AList.map_entry k f xs) = map fst xs"
  by (induction xs) auto

lemma map_entry_member:
  assumes "distinct (map fst xs)"
  shows "(k, v) \<in> set (AList.map_entry k' f xs) \<longleftrightarrow> (\<exists>w. (k, w) \<in> set xs \<and> v = (if k = k' then f w else w))"
proof -
  have "(k, v) \<in> set (AList.map_entry k' f xs) \<longleftrightarrow> map_of (AList.map_entry k' f xs) k = Some v"
    using assms by (intro map_of_eq_Some_iff [symmetric]) (simp only: map_entry_keys)
  also have "\<dots> \<longleftrightarrow> (\<exists>w. map_of xs k = Some w \<and> v = (if k = k' then f w else w))"
    by (auto simp: AList.map_of_map_entry split: option.splits)
  finally show ?thesis by (simp only: map_of_eq_Some_iff [OF assms])
qed

lemma entries_ok_update:
  assumes "entries_ok K Q al" and "\<And>k v. k \<noteq> x \<Longrightarrow> Q k v \<Longrightarrow> Q' k v" and "\<And>v. Q x v \<Longrightarrow> Q' x (f v)" and "x \<notin> K \<Longrightarrow> Q' x (f fresh)"
  shows "entries_ok (insert x K) Q' (AList.map_entry x f (cached_get x fresh al))"
proof -
  have al: "distinct (map fst al)" "fst ` set al = K" "\<And>k v. (k, v) \<in> set al \<Longrightarrow> Q k v" using assms(1) by (auto simp: entries_ok_def)
  note d = cached_get_entries(2) [OF al(1), of x fresh]
  have "Q' k v" if "(k, v) \<in> set (AList.map_entry x f (cached_get x fresh al))" for k v
    using that al(2,3) assms(2-4) unfolding map_entry_member [OF d] cached_get_entries by (cases "k = x") auto
  then show ?thesis using d by (auto simp: entries_ok_def map_entry_keys AList.dom_map_entry cached_get_entries(1) al(2))
qed

lemma add_pair_ok:
  assumes "infos_ok S C infos" "C \<subseteq> S"
  shows "infos_ok (insert p S) (if colorized then insert p C else C) (add_pair colorized p infos)"
proof -
  obtain opn cls where p: "p = (opn, cls)" by fastforce
  have "entries_ok (insert opn (fst ` S)) (\<lambda>k cs. set cs = {c. (k, c) \<in> insert p S})
      (AList.map_entry opn (set_add cls) (cached_get opn [] (bi_opening infos)))"
    by (rule entries_ok_update [OF conjunct1 [OF assms(1) [unfolded infos_ok_def]]]) (auto simp: p image_iff)
  moreover have "entries_ok (insert cls (snd ` S)) (\<lambda>k (os, ks). set os = {p'. (p', k) \<in> insert p S} \<and>
      set ks = {p'. (p', k) \<in> (if colorized then insert p C else C)}) (bi_closing (add_pair colorized p infos))"
    unfolding p add_pair_def case_prod_conv bracket_infos.simps
    by (rule entries_ok_update [OF conjunct2 [OF assms(1) [unfolded infos_ok_def]]]) (use assms(2) in \<open>force simp: image_iff\<close>)+
  ultimately show ?thesis by (simp add: infos_ok_def p add_pair_def)
qed

lemma add_pairs_ok:
  "infos_ok S C infos \<Longrightarrow> C \<subseteq> S \<Longrightarrow> infos_ok (set ps \<union> S) (if colorized then set ps \<union> C else C) (fold (add_pair colorized) ps infos)"
proof (induction ps arbitrary: S C infos)
  case (Cons p ps)
  from Cons.IH [OF add_pair_ok [OF Cons.prems, of p colorized]] Cons.prems(2) show ?case by (cases colorized) auto
qed auto

text \<open>The pairs the brackets of a configuration stand for.\<close>

definition all_pairs :: "LanguageConfiguration \<Rightarrow> bracket_pair set" where
  "all_pairs config = set (config_pairs config) \<union> set (colorized_pairs config)"

lemma new_configuration_infos:
  "infos_ok (all_pairs config) (set (colorized_pairs config))
     (fold (add_pair True) (colorized_pairs config) (fold (add_pair False) (config_pairs config) \<lparr>bi_opening = [], bi_closing = []\<rparr>))"
proof -
  have "infos_ok {} {} \<lparr>bi_opening = [], bi_closing = []\<rparr>" by (simp add: infos_ok_def entries_ok_def)
  from add_pairs_ok [OF this, of "config_pairs config" False] show ?thesis
    using add_pairs_ok [of "set (config_pairs config)" "{}" _ "colorized_pairs config" True] by (simp add: all_pairs_def Un_commute)
qed

lemma new_configuration_opening:
  assumes "cfg = new_LanguageBracketsConfiguration this languageId config"
  shows "distinct (map obk_bracketText (openingBrackets cfg))" "obk_bracketText ` set (openingBrackets cfg) = fst ` all_pairs config"
    and "p \<in> set (openingBrackets cfg) \<Longrightarrow> obk_config p = this \<and> obk_languageId p = languageId \<and> set (obk_openedBrackets p) = {c. (obk_bracketText p, c) \<in> all_pairs config}"
    and "getOpeningBracketInfo t cfg = Some p \<longleftrightarrow> p \<in> set (openingBrackets cfg) \<and> obk_bracketText p = t"
proof -
  let ?infos = "fold (add_pair True) (colorized_pairs config) (fold (add_pair False) (config_pairs config) \<lparr>bi_opening = [], bi_closing = []\<rparr>)"
  have ok: "entries_ok (fst ` all_pairs config) (\<lambda>k cs. set cs = {c. (k, c) \<in> all_pairs config}) (bi_opening ?infos)"
    using new_configuration_infos by (simp add: infos_ok_def)
  have texts: "map obk_bracketText (openingBrackets cfg) = map fst (bi_opening ?infos)" "map fst (lbc_openingBrackets cfg) = map fst (bi_opening ?infos)"
    by (simp_all add: openingBrackets_def assms new_LanguageBracketsConfiguration_def Let_def case_prod_beta comp_def)
  show "distinct (map obk_bracketText (openingBrackets cfg))" using ok by (simp only: texts entries_ok_def)
  show "obk_bracketText ` set (openingBrackets cfg) = fst ` all_pairs config"
    using ok arg_cong [OF texts(1), of set] by (simp add: entries_ok_def)
  show "p \<in> set (openingBrackets cfg) \<Longrightarrow> obk_config p = this \<and> obk_languageId p = languageId \<and> set (obk_openedBrackets p) = {c. (obk_bracketText p, c) \<in> all_pairs config}"
    using ok by (auto simp: openingBrackets_def assms new_LanguageBracketsConfiguration_def Let_def case_prod_beta entries_ok_def)
  have "map_of (lbc_openingBrackets cfg) t = Some p \<longleftrightarrow> (t, p) \<in> set (lbc_openingBrackets cfg)"
    using ok by (intro map_of_eq_Some_iff) (simp only: texts entries_ok_def)
  moreover have "x \<in> set (lbc_openingBrackets cfg) \<Longrightarrow> obk_bracketText (snd x) = fst x" for x
    by (auto simp: assms new_LanguageBracketsConfiguration_def Let_def)
  ultimately show "getOpeningBracketInfo t cfg = Some p \<longleftrightarrow> p \<in> set (openingBrackets cfg) \<and> obk_bracketText p = t"
    by (auto simp: getOpeningBracketInfo_def openingBrackets_def image_iff) (metis fst_conv snd_conv)+
qed

lemma new_configuration_closing:
  assumes "cfg = new_LanguageBracketsConfiguration this languageId config"
  shows "distinct (map cbk_bracketText (closingBrackets cfg))" "cbk_bracketText ` set (closingBrackets cfg) = snd ` all_pairs config"
    and "c \<in> set (closingBrackets cfg) \<Longrightarrow> cbk_config c = this \<and> cbk_languageId c = languageId \<and>
      set (cbk_openingBrackets c) = {p. (p, cbk_bracketText c) \<in> all_pairs config} \<and>
      set (cbk_openingColorizedBrackets c) = {p. (p, cbk_bracketText c) \<in> set (colorized_pairs config)}"
proof -
  let ?infos = "fold (add_pair True) (colorized_pairs config) (fold (add_pair False) (config_pairs config) \<lparr>bi_opening = [], bi_closing = []\<rparr>)"
  have ok: "entries_ok (snd ` all_pairs config) (\<lambda>k (os, ks). set os = {p. (p, k) \<in> all_pairs config} \<and> set ks = {p. (p, k) \<in> set (colorized_pairs config)})
      (bi_closing ?infos)"
    using new_configuration_infos by (simp add: infos_ok_def)
  have texts: "map cbk_bracketText (closingBrackets cfg) = map fst (bi_closing ?infos)"
    by (simp add: closingBrackets_def assms new_LanguageBracketsConfiguration_def Let_def case_prod_beta comp_def)
  show "distinct (map cbk_bracketText (closingBrackets cfg))" using ok by (simp only: texts entries_ok_def)
  show "cbk_bracketText ` set (closingBrackets cfg) = snd ` all_pairs config"
    using ok arg_cong [OF texts, of set] by (simp add: entries_ok_def)
  show "c \<in> set (closingBrackets cfg) \<Longrightarrow> cbk_config c = this \<and> cbk_languageId c = languageId \<and>
      set (cbk_openingBrackets c) = {p. (p, cbk_bracketText c) \<in> all_pairs config} \<and>
      set (cbk_openingColorizedBrackets c) = {p. (p, cbk_bracketText c) \<in> set (colorized_pairs config)}"
    using ok by (auto simp: closingBrackets_def assms new_LanguageBracketsConfiguration_def Let_def case_prod_beta entries_ok_def)
qed

lemma set_map_filter: "set (List.map_filter f xs) = {y. \<exists>x \<in> set xs. f x = Some y}"
  by (induction xs) (auto simp: List.map_filter_simps split: option.splits)

lemma new_configuration_getOpeningBrackets:
  assumes "cfg = new_LanguageBracketsConfiguration this languageId config" "c \<in> set (closingBrackets cfg)"
  shows "p \<in> set (getOpeningBrackets cfg c) \<longleftrightarrow> p \<in> set (openingBrackets cfg) \<and> (obk_bracketText p, cbk_bracketText c) \<in> all_pairs config"
    and "getOpeningBrackets cfg c \<noteq> []"
proof -
  show mem: "p \<in> set (getOpeningBrackets cfg c) \<longleftrightarrow> p \<in> set (openingBrackets cfg) \<and> (obk_bracketText p, cbk_bracketText c) \<in> all_pairs config" for p
    using new_configuration_closing(3) [OF assms]
    by (auto simp: getOpeningBrackets_def set_map_filter new_configuration_opening(4) [OF assms(1)])
  have "cbk_bracketText c \<in> snd ` all_pairs config" using new_configuration_closing(2) [OF assms(1)] assms(2) by blast
  then obtain q where q: "(q, cbk_bracketText c) \<in> all_pairs config" by auto
  then have "q \<in> obk_bracketText ` set (openingBrackets cfg)" using new_configuration_opening(2) [OF assms(1)] by force
  then show "getOpeningBrackets cfg c \<noteq> []" using mem q by fastforce
qed

text \<open>
  The brackets of a language are exactly those of its configured pairs: there is one opening and one closing bracket for every text on the left and on
  the right of a pair with two non-empty texts, a closing bracket closes an opening one (in colors) if and only if the two are a (colorized) pair, where the colorized pairs default to all
  pairs but the angle brackets, and every closing bracket closes at least one opening bracket.
\<close>

theorem LanguageBracketsConfiguration_has_the_pairs:
  assumes "cfg = new_LanguageBracketsConfiguration this languageId config"
  shows "distinct (map obk_bracketText (openingBrackets cfg)) \<and> obk_bracketText ` set (openingBrackets cfg) = fst ` all_pairs config \<and>
    distinct (map cbk_bracketText (closingBrackets cfg)) \<and> cbk_bracketText ` set (closingBrackets cfg) = snd ` all_pairs config \<and>
    (\<forall>p \<in> set (openingBrackets cfg). set (obk_openedBrackets p) = {c. (obk_bracketText p, c) \<in> all_pairs config}) \<and>
    (\<forall>c \<in> set (closingBrackets cfg). getOpeningBrackets cfg c \<noteq> [] \<and>
       (\<forall>p \<in> set (openingBrackets cfg).
          (ClosingBracketKind_closes p c \<longleftrightarrow> (obk_bracketText p, cbk_bracketText c) \<in> all_pairs config) \<and>
          (ClosingBracketKind_closesColorized p c \<longleftrightarrow> (obk_bracketText p, cbk_bracketText c) \<in> set (colorized_pairs config)) \<and>
          (p \<in> set (getOpeningBrackets cfg c) \<longleftrightarrow> ClosingBracketKind_closes p c)))"
proof (intro conjI ballI)
  note opn = new_configuration_opening [OF assms] and cls = new_configuration_closing [OF assms]
  show "distinct (map obk_bracketText (openingBrackets cfg))" "obk_bracketText ` set (openingBrackets cfg) = fst ` all_pairs config"
    "distinct (map cbk_bracketText (closingBrackets cfg))" "cbk_bracketText ` set (closingBrackets cfg) = snd ` all_pairs config"
    by (fact opn cls)+
  show "set (obk_openedBrackets p) = {c. (obk_bracketText p, c) \<in> all_pairs config}" if "p \<in> set (openingBrackets cfg)" for p
    using opn(3) [OF that] by blast
  fix c assume c: "c \<in> set (closingBrackets cfg)"
  show "getOpeningBrackets cfg c \<noteq> []" by (rule new_configuration_getOpeningBrackets [OF assms c])
  fix p assume p: "p \<in> set (openingBrackets cfg)"
  note pc = opn(3) [OF p] cls(3) [OF c]
  show "ClosingBracketKind_closes p c \<longleftrightarrow> (obk_bracketText p, cbk_bracketText c) \<in> all_pairs config"
    "ClosingBracketKind_closesColorized p c \<longleftrightarrow> (obk_bracketText p, cbk_bracketText c) \<in> set (colorized_pairs config)"
    "p \<in> set (getOpeningBrackets cfg c) \<longleftrightarrow> ClosingBracketKind_closes p c"
    using pc p new_configuration_getOpeningBrackets(1) [OF assms c]
    by (simp_all add: ClosingBracketKind_closes_def ClosingBracketKind_closesColorized_def)
qed

theorem LanguageBracketsConfiguration_has_the_pairs_witness:
  "let config = \<lparr>conf_brackets = Some [(js_str ''{'', js_str ''}''), (js_str ''<'', js_str ''>''), ([], js_str '')'')], conf_colorizedBracketPairs = None\<rparr>;
     cfg = new_LanguageBracketsConfiguration 0 (js_str ''ts'') config
   in obk_bracketText ` set (openingBrackets cfg) = fst ` all_pairs config \<and> map obk_bracketText (openingBrackets cfg) = [js_str ''{'', js_str ''<''] \<and>
      \<not> ClosingBracketKind_closesColorized (openingBrackets cfg ! 1) (closingBrackets cfg ! 1)"
proof -
  let ?config = "\<lparr>conf_brackets = Some [(js_str ''{'', js_str ''}''), (js_str ''<'', js_str ''>''), ([], js_str '')'')], conf_colorizedBracketPairs = None\<rparr>"
  let ?cfg = "new_LanguageBracketsConfiguration 0 (js_str ''ts'') ?config"
  have "map obk_bracketText (openingBrackets ?cfg) = [js_str ''{'', js_str ''<'']"
    "\<not> ClosingBracketKind_closesColorized (openingBrackets ?cfg ! 1) (closingBrackets ?cfg ! 1)" by code_simp+
  then show ?thesis using LanguageBracketsConfiguration_has_the_pairs [OF refl, of 0 "js_str ''ts''" ?config] by (simp add: Let_def)
qed

end
