(* ===== verification/Bracket_Tokenizer.thy ===== *)
theory Bracket_Tokenizer
  imports Bracket_Ast Bracket_Config
begin

text \<open>
  The tokens the bracket parser reads, under \<open>src/vs/editor/common/model/bracketPairsTextModelPart/bracketPairsTree/\<close>: the tokens of the brackets of
  a language (\<open>brackets.ts\<close>) and the tokenizers (\<open>tokenizer.ts\<close>). A tokenizer is a record of its methods over a state. The
  matches of the regular expression in a text and the reader behind \<open>TextBufferTokenizer\<close>, which scans the text model line by line, are parameters.
\<close>

section \<open>Tokens\<close>

datatype TokenKind = Token_Text | Token_OpeningBracket | Token_ClosingBracket

record 'b Token =
  t_length :: Length
  t_kind :: TokenKind
  t_bracketId :: number
  t_bracketIds :: SmallImmutableSet
  t_astNode :: "'b AstNode option"

text \<open>The tokens a tokenizer delivers: a text token carries a text node, a bracket token a bracket node with its ids.\<close>

definition token_ok :: "'b Token \<Rightarrow> bool" where
  "token_ok t \<longleftrightarrow> sis_wf (t_bracketIds t) \<and>
     (case t_kind t of
        Token_Text \<Rightarrow> t_astNode t = Some (TextAstNode (t_length t))
      | Token_OpeningBracket \<Rightarrow> (case t_astNode t of Some (BracketAstNode b) \<Rightarrow> bn_length b = t_length t \<and> bn_bracketIds b = t_bracketIds t | _ \<Rightarrow> False) \<and>
          0 \<le> t_bracketId t \<and> sis_keys (t_bracketIds t) = {nat (t_bracketId t)}
      | Token_ClosingBracket \<Rightarrow> (case t_astNode t of Some (BracketAstNode b) \<Rightarrow> bn_length b = t_length t \<and> bn_bracketIds b = t_bracketIds t | _ \<Rightarrow> False) \<and>
          0 \<le> t_bracketId t \<and> nat (t_bracketId t) \<in> sis_keys (t_bracketIds t))"

section \<open>The tokens of the brackets of a language\<close>

record BracketTokens =
  bt_map :: "(jsstring \<times> BracketKind Token) list"

definition getId :: "jsstring \<Rightarrow> jsstring \<Rightarrow> jsstring DenseKeyProvider \<Rightarrow> nat \<times> jsstring DenseKeyProvider" where
  "getId languageId bracketText = DenseKeyProvider_getKey (languageId @ js_str '':::'' @ bracketText)"

definition bracket_token :: "TokenKind \<Rightarrow> jsstring \<Rightarrow> nat \<Rightarrow> SmallImmutableSet \<Rightarrow> BracketKind \<Rightarrow> BracketKind Token" where
  "bracket_token kind bracketText bracketId bracketIds info =
     (let len = toLength 0 (int (length bracketText))
      in \<lparr>t_length = len, t_kind = kind, t_bracketId = int bracketId, t_bracketIds = bracketIds,
          t_astNode = Some (BracketAstNode \<lparr>bn_length = len, bn_bracketInfo = info, bn_bracketIds = bracketIds\<rparr>)\<rparr>)"

type_synonym tokens_state = "(jsstring \<times> BracketKind Token) list \<times> jsstring DenseKeyProvider"

definition opening_entry :: "OpeningBracketKind \<Rightarrow> tokens_state \<Rightarrow> tokens_state" where
  "opening_entry openingBracket = (\<lambda>(m, provider).
     let (openingTextId, provider') = getId (obk_languageId openingBracket) (obk_bracketText openingBracket) provider;
         bracketIds = SmallImmutableSet_add openingTextId SmallImmutableSet_getEmpty
     in (AList.update (obk_bracketText openingBracket)
           (bracket_token Token_OpeningBracket (obk_bracketText openingBracket) openingTextId bracketIds (Opening openingBracket)) m, provider'))"

definition add_id :: "OpeningBracketKind \<Rightarrow> SmallImmutableSet \<times> jsstring DenseKeyProvider \<Rightarrow> SmallImmutableSet \<times> jsstring DenseKeyProvider" where
  "add_id bracket = (\<lambda>(bracketIds, provider).
     let (i, provider') = getId (obk_languageId bracket) (obk_bracketText bracket) provider in (SmallImmutableSet_add i bracketIds, provider'))"

definition closing_entry :: "LanguageBracketsConfiguration \<Rightarrow> ClosingBracketKind \<Rightarrow> tokens_state \<Rightarrow> tokens_state result" where
  "closing_entry config closingBracket = (\<lambda>(m, provider).
     let opening = getOpeningBrackets config closingBracket;
         (bracketIds, provider1) = fold add_id opening (SmallImmutableSet_getEmpty, provider)
     in case opening of
          [] \<Rightarrow> Inl TypeError
        | b # _ \<Rightarrow>
            let (i, provider2) = getId (obk_languageId b) (obk_bracketText b) provider1
            in Inr (AList.update (cbk_bracketText closingBracket)
                 (bracket_token Token_ClosingBracket (cbk_bracketText closingBracket) i bracketIds (Closing closingBracket)) m, provider2))"

definition BracketTokens_createFromLanguage ::
  "LanguageBracketsConfiguration \<Rightarrow> jsstring DenseKeyProvider \<Rightarrow> (BracketTokens \<times> jsstring DenseKeyProvider) result" where
  "BracketTokens_createFromLanguage config provider =
     result_map (\<lambda>(m, provider'). (\<lparr>bt_map = m\<rparr>, provider'))
       (result_fold (closing_entry config) (closingBrackets config) (fold opening_entry (openingBrackets config) ([], provider)))"

text \<open>\<open>String.prototype.toLowerCase\<close> is a parameter.\<close>

definition BracketTokens_getToken :: "(jsstring \<Rightarrow> jsstring) \<Rightarrow> jsstring \<Rightarrow> BracketTokens \<Rightarrow> BracketKind Token option" where
  "BracketTokens_getToken toLowerCase value this = map_of (bt_map this) (toLowerCase value)"

definition BracketTokens_findClosingTokenText :: "SmallImmutableSet \<Rightarrow> BracketTokens \<Rightarrow> jsstring option" where
  "BracketTokens_findClosingTokenText openingBracketIds this =
     map_option fst (List.find (\<lambda>(_, info). t_kind info = Token_ClosingBracket \<and> SmallImmutableSet_intersects (t_bracketIds info) openingBracketIds)
       (bt_map this))"

definition BracketTokens_isEmpty :: "BracketTokens \<Rightarrow> bool" where
  "BracketTokens_isEmpty this \<longleftrightarrow> length (bt_map this) = 0"

record LanguageAgnosticBracketTokens =
  lab_denseKeyProvider :: "jsstring DenseKeyProvider"
  lab_tokens :: "(jsstring \<times> BracketTokens) list"

definition LanguageAgnosticBracketTokens_didLanguageChange :: "jsstring \<Rightarrow> LanguageAgnosticBracketTokens \<Rightarrow> bool" where
  "LanguageAgnosticBracketTokens_didLanguageChange languageId this \<longleftrightarrow> map_of (lab_tokens this) languageId \<noteq> None"

definition getSingleLanguageBracketTokens ::
  "(jsstring \<Rightarrow> LanguageBracketsConfiguration) \<Rightarrow> jsstring \<Rightarrow> LanguageAgnosticBracketTokens \<Rightarrow> (BracketTokens \<times> LanguageAgnosticBracketTokens) result" where
  "getSingleLanguageBracketTokens getLanguageConfiguration languageId this =
     (case map_of (lab_tokens this) languageId of
        Some t \<Rightarrow> Inr (t, this)
      | None \<Rightarrow> result_map (\<lambda>(t, provider). (t, this\<lparr>lab_denseKeyProvider := provider, lab_tokens := AList.update languageId t (lab_tokens this)\<rparr>))
          (BracketTokens_createFromLanguage (getLanguageConfiguration languageId) (lab_denseKeyProvider this)))"

definition LanguageAgnosticBracketTokens_getToken ::
  "(jsstring \<Rightarrow> jsstring) \<Rightarrow> (jsstring \<Rightarrow> LanguageBracketsConfiguration) \<Rightarrow> jsstring \<Rightarrow> jsstring \<Rightarrow> LanguageAgnosticBracketTokens \<Rightarrow>
     (BracketKind Token option \<times> LanguageAgnosticBracketTokens) result" where
  "LanguageAgnosticBracketTokens_getToken toLowerCase getLanguageConfiguration value languageId this =
     result_map (\<lambda>(t, this'). (BracketTokens_getToken toLowerCase value t, this')) (getSingleLanguageBracketTokens getLanguageConfiguration languageId this)"

section \<open>Tokenizers\<close>

record ('s, 'b) Tokenizer =
  tk_offset :: "'s \<Rightarrow> Length"
  tk_read :: "'s \<Rightarrow> 'b Token option \<times> 's"
  tk_peek :: "'s \<Rightarrow> 'b Token option \<times> 's"
  tk_skip :: "Length \<Rightarrow> 's \<Rightarrow> 's result"

definition text_token :: "Length \<Rightarrow> 'b Token" where
  "text_token len = \<lparr>t_length = len, t_kind = Token_Text, t_bracketId = - 1, t_bracketIds = SmallImmutableSet_getEmpty,
     t_astNode = Some (TextAstNode len)\<rparr>"

subsection \<open>FastTokenizer\<close>

record 'b FastTokenizer =
  ft_offset :: Length
  ft_tokens :: "'b Token option list"
  ft_idx :: nat
  ft_length :: Length
  ft_text :: jsstring

text \<open>
  The state of the loop over the matches of the regular expression: the tokens so far and the local variables.
  Each match is an index and the text found there; there are none when the language has no brackets. The token of a match may be undefined, as far as the types know.
\<close>

record 'b fast_state =
  fs_tokens :: "'b Token option list"
  fs_curLineCount :: number
  fs_lastLineBreakOffset :: number
  fs_lastTokenEndOffset :: number
  fs_lastTokenEndLine :: number

text \<open>The length of the text between the last token and an offset. The arrays of small tokens hold the tokens that would be built.\<close>

definition fast_gap :: "'b fast_state \<Rightarrow> number \<Rightarrow> Length" where
  "fast_gap st curOffset =
     (if fs_lastTokenEndLine st = fs_curLineCount st then toLength 0 (curOffset - fs_lastTokenEndOffset st)
      else toLength (fs_curLineCount st - fs_lastTokenEndLine st) (curOffset - fs_lastLineBreakOffset st))"

definition fast_match :: "(jsstring \<Rightarrow> 'b Token option) \<Rightarrow> number \<times> jsstring \<Rightarrow> 'b fast_state \<Rightarrow> 'b fast_state" where
  "fast_match getToken = (\<lambda>(curOffset, value) st.
     if value = [LineFeed]
     then st\<lparr>fs_curLineCount := fs_curLineCount st + 1, fs_lastLineBreakOffset := curOffset + 1\<rparr>
     else st\<lparr>fs_tokens := fs_tokens st @ (if fs_lastTokenEndOffset st \<noteq> curOffset then [Some (text_token (fast_gap st curOffset))] else []) @ [getToken value],
             fs_lastTokenEndOffset := curOffset + int (length value),
             fs_lastTokenEndLine := fs_curLineCount st\<rparr>)"

definition new_FastTokenizer :: "jsstring \<Rightarrow> (number \<times> jsstring) list \<Rightarrow> (jsstring \<Rightarrow> 'b Token option) \<Rightarrow> 'b FastTokenizer" where
  "new_FastTokenizer text matches getToken =
     (let st = fold (fast_match getToken) matches
            \<lparr>fs_tokens = [], fs_curLineCount = 0, fs_lastLineBreakOffset = 0, fs_lastTokenEndOffset = 0, fs_lastTokenEndLine = 0\<rparr>;
          offset = int (length text)
      in \<lparr>ft_offset = lengthZero,
          ft_tokens = fs_tokens st @ (if fs_lastTokenEndOffset st \<noteq> offset then [Some (text_token (fast_gap st offset))] else []),
          ft_idx = 0, ft_length = toLength (fs_curLineCount st) (offset - fs_lastLineBreakOffset st), ft_text = text\<rparr>)"

definition FastTokenizer_read :: "'b FastTokenizer \<Rightarrow> 'b Token option \<times> 'b FastTokenizer" where
  "FastTokenizer_read this = (Option.bind (arr_at (ft_tokens this) (int (ft_idx this))) id, this\<lparr>ft_idx := Suc (ft_idx this)\<rparr>)"

definition FastTokenizer_peek :: "'b FastTokenizer \<Rightarrow> 'b Token option \<times> 'b FastTokenizer" where
  "FastTokenizer_peek this = (Option.bind (arr_at (ft_tokens this) (int (ft_idx this))) id, this)"

definition FastTokenizer_skip :: "Length \<Rightarrow> 'b FastTokenizer \<Rightarrow> 'b FastTokenizer result" where
  "FastTokenizer_skip len this = Inl PlainError"

definition FastTokenizer_methods :: "('b FastTokenizer, 'b) Tokenizer" where
  "FastTokenizer_methods =
     \<lparr>tk_offset = ft_offset, tk_read = FastTokenizer_read, tk_peek = FastTokenizer_peek, tk_skip = FastTokenizer_skip\<rparr>"

subsection \<open>TextBufferTokenizer\<close>

text \<open>The scanner of the text model: reading a token, and moving to a line and a column.\<close>

record ('r, 'b) TokenReader =
  rd_read :: "'r \<Rightarrow> 'b Token option \<times> 'r"
  rd_setPosition :: "number \<Rightarrow> number \<Rightarrow> 'r \<Rightarrow> 'r"

record ('r, 'b) TextBufferTokenizer =
  tbt_reader :: 'r
  tbt_offset :: Length
  tbt_didPeek :: bool
  tbt_peeked :: "'b Token option"

definition TextBufferTokenizer_skip :: "('r, 'b) TokenReader \<Rightarrow> Length \<Rightarrow> ('r, 'b) TextBufferTokenizer \<Rightarrow> ('r, 'b) TextBufferTokenizer" where
  "TextBufferTokenizer_skip R len this =
     (let offset = lengthAdd (tbt_offset this) len; obj = lengthToObj offset
      in this\<lparr>tbt_didPeek := False, tbt_offset := offset,
              tbt_reader := rd_setPosition R (lo_lineCount obj) (lo_columnCount obj) (tbt_reader this)\<rparr>)"

definition TextBufferTokenizer_read :: "('r, 'b) TokenReader \<Rightarrow> ('r, 'b) TextBufferTokenizer \<Rightarrow> 'b Token option \<times> ('r, 'b) TextBufferTokenizer" where
  "TextBufferTokenizer_read R this =
     (let (token, this') =
            (case tbt_peeked this of
               Some t \<Rightarrow> (Some t, this\<lparr>tbt_didPeek := False\<rparr>)
             | None \<Rightarrow> (let (t, r) = rd_read R (tbt_reader this) in (t, this\<lparr>tbt_reader := r\<rparr>)))
      in case token of
           None \<Rightarrow> (None, this')
         | Some t \<Rightarrow> (Some t, this'\<lparr>tbt_offset := lengthAdd (tbt_offset this') (t_length t)\<rparr>))"

definition TextBufferTokenizer_peek :: "('r, 'b) TokenReader \<Rightarrow> ('r, 'b) TextBufferTokenizer \<Rightarrow> 'b Token option \<times> ('r, 'b) TextBufferTokenizer" where
  "TextBufferTokenizer_peek R this =
     (let this' = (if \<not> tbt_didPeek this
                   then let (t, r) = rd_read R (tbt_reader this) in this\<lparr>tbt_reader := r, tbt_peeked := t, tbt_didPeek := True\<rparr>
                   else this)
      in (tbt_peeked this', this'))"

definition TextBufferTokenizer_methods :: "('r, 'b) TokenReader \<Rightarrow> (('r, 'b) TextBufferTokenizer, 'b) Tokenizer" where
  "TextBufferTokenizer_methods R =
     \<lparr>tk_offset = tbt_offset, tk_read = TextBufferTokenizer_read R, tk_peek = TextBufferTokenizer_peek R,
      tk_skip = (\<lambda>len s. Inr (TextBufferTokenizer_skip R len s))\<rparr>"

section \<open>The tokens of a language are those of its pairs\<close>

text \<open>The number the provider has given to the bracket text of a language.\<close>

definition id_of :: "jsstring \<Rightarrow> jsstring DenseKeyProvider \<Rightarrow> jsstring \<Rightarrow> nat option" where
  "id_of languageId provider text = map_of (dkp_items provider) (languageId @ js_str '':::'' @ text)"

definition ids_kept :: "'a DenseKeyProvider \<Rightarrow> 'a DenseKeyProvider \<Rightarrow> bool" where
  "ids_kept p p' \<longleftrightarrow> dkp_wf p' \<and> (\<forall>u j. map_of (dkp_items p) u = Some j \<longrightarrow> map_of (dkp_items p') u = Some j)"

lemma ids_kept_trans: "ids_kept p q \<Longrightarrow> ids_kept q r \<Longrightarrow> ids_kept p r"
  by (simp add: ids_kept_def)

lemma ids_kept_refl: "dkp_wf p \<Longrightarrow> ids_kept p p"
  by (simp add: ids_kept_def)

lemma ids_kept_wf: "ids_kept p q \<Longrightarrow> dkp_wf q"
  by (simp add: ids_kept_def)

lemma id_of_kept: "ids_kept p p' \<Longrightarrow> id_of l p t = Some i \<Longrightarrow> id_of l p' t = Some i"
  by (simp add: ids_kept_def id_of_def)

lemma getId_eq: "dkp_wf p \<Longrightarrow> getId l t p = (i, p') \<Longrightarrow> ids_kept p p' \<and> id_of l p' t = Some i"
  using dkp_getKey [of p "l @ js_str '':::'' @ t" i p'] by (simp add: getId_def id_of_def ids_kept_def)

lemma id_of_inj:
  assumes "dkp_wf p" "id_of l p s = Some i" "id_of l p t = Some i" shows "s = t"
  using assms dkp_map_of [OF assms(1)] by (auto simp: id_of_def)

definition opening_ok :: "jsstring \<Rightarrow> jsstring DenseKeyProvider \<Rightarrow> jsstring \<Rightarrow> BracketKind Token \<Rightarrow> bool" where
  "opening_ok l p text t \<longleftrightarrow> (\<exists>i ids b. t = bracket_token Token_OpeningBracket text i ids (Opening b) \<and> obk_bracketText b = text \<and>
     id_of l p text = Some i \<and> sis_wf ids \<and> sis_keys ids = {i})"

definition closing_ok :: "bracket_pair set \<Rightarrow> jsstring \<Rightarrow> jsstring DenseKeyProvider \<Rightarrow> jsstring \<Rightarrow> BracketKind Token \<Rightarrow> bool" where
  "closing_ok S l p text t \<longleftrightarrow> (\<exists>i ids b. t = bracket_token Token_ClosingBracket text i ids (Closing b) \<and> cbk_bracketText b = text \<and> sis_wf ids \<and> i \<in> sis_keys ids \<and>
     (\<forall>q. (q, text) \<in> S \<longrightarrow> id_of l p q \<noteq> None) \<and> sis_keys ids = {j. \<exists>q. (q, text) \<in> S \<and> id_of l p q = Some j})"

lemma opening_ok_kept: "ids_kept p p' \<Longrightarrow> opening_ok l p text t \<Longrightarrow> opening_ok l p' text t"
  using id_of_kept by (fastforce simp: opening_ok_def)

lemma closing_ok_kept: "ids_kept p p' \<Longrightarrow> closing_ok S l p text t \<Longrightarrow> closing_ok S l p' text t"
proof -
  assume k: "ids_kept p p'" and "closing_ok S l p text t"
  then obtain i ids b where t: "t = bracket_token Token_ClosingBracket text i ids (Closing b)" "cbk_bracketText b = text" "sis_wf ids" "i \<in> sis_keys ids"
    "\<forall>q. (q, text) \<in> S \<longrightarrow> id_of l p q \<noteq> None" "sis_keys ids = {j. \<exists>q. (q, text) \<in> S \<and> id_of l p q = Some j}" by (auto simp: closing_ok_def)
  have "id_of l p' q = id_of l p q" if "(q, text) \<in> S" for q using t(5) that id_of_kept [OF k] by force
  then have "\<forall>q. (q, text) \<in> S \<longrightarrow> id_of l p' q \<noteq> None" "sis_keys ids = {j. \<exists>q. (q, text) \<in> S \<and> id_of l p' q = Some j}"
    using t(5,6) by auto
  then show ?thesis using t unfolding closing_ok_def by blast
qed

text \<open>The entries of the map when the texts \<open>Os\<close> and \<open>Cs\<close> have been entered.\<close>

definition tokens_ok :: "bracket_pair set \<Rightarrow> jsstring \<Rightarrow> jsstring set \<Rightarrow> jsstring set \<Rightarrow> tokens_state \<Rightarrow> bool" where
  "tokens_ok S l Os Cs = (\<lambda>(m, p). dkp_wf p \<and>
     entries_ok (Os \<union> Cs) (\<lambda>k t. if k \<in> Cs then closing_ok S l p k t else opening_ok l p k t) m)"

lemma entries_ok_AList_update:
  assumes "entries_ok K Q m" "\<And>k v. k \<noteq> x \<Longrightarrow> Q k v \<Longrightarrow> Q' k v" "Q' x t"
  shows "entries_ok (insert x K) Q' (AList.update x t m)"
proof -
  have d: "distinct (map fst m)" using assms(1) by (simp add: entries_ok_def)
  then have "distinct (map fst (AList.update x t m))" by (rule AList.distinct_update)
  moreover have "fst ` set (AList.update x t m) = insert x K" using assms(1) by (simp add: AList.dom_update entries_ok_def)
  moreover have "Q' k v" if "(k, v) \<in> set (AList.update x t m)" for k v
  proof -
    have "map_of (AList.update x t m) k = Some v" using that calculation(1) by simp
    then have "k = x \<and> v = t \<or> k \<noteq> x \<and> (k, v) \<in> set m" using d by (auto simp: AList.update_conv' split: if_splits)
    then show ?thesis using assms by (auto simp: entries_ok_def)
  qed
  ultimately show ?thesis by (auto simp: entries_ok_def)
qed

lemma single_id:
  "sis_wf (SmallImmutableSet_add i SmallImmutableSet_getEmpty)" "sis_keys (SmallImmutableSet_add i SmallImmutableSet_getEmpty) = {i}"
  using sis.add [OF sis_getEmpty(1), of i] sis_getEmpty(2) by auto

lemma opening_entry_ok:
  assumes "tokens_ok S l Os {} st" "obk_languageId b = l"
  shows "tokens_ok S l (insert (obk_bracketText b) Os) {} (opening_entry b st)"
proof -
  obtain m p where st: "st = (m, p)" by fastforce
  obtain i p' where g: "getId l (obk_bracketText b) p = (i, p')" by fastforce
  have p': "ids_kept p p'" "id_of l p' (obk_bracketText b) = Some i" using getId_eq [OF _ g] assms(1) by (auto simp: tokens_ok_def st)
  have "opening_ok l p' (obk_bracketText b) (bracket_token Token_OpeningBracket (obk_bracketText b) i (SmallImmutableSet_add i SmallImmutableSet_getEmpty) (Opening b))"
    unfolding opening_ok_def by (intro exI conjI, rule refl) (simp_all add: p'(2) single_id)
  then show ?thesis
    using assms p' opening_ok_kept [OF p'(1)] ids_kept_wf [OF p'(1)]
    by (auto simp: tokens_ok_def st opening_entry_def g intro!: entries_ok_AList_update)
qed

lemma add_ids_ok:
  assumes "dkp_wf p" "sis_wf ids" "\<forall>b \<in> set bs. obk_languageId b = l"
    "fold add_id bs (ids, p) = (ids', p')"
  shows "ids_kept p p' \<and> sis_wf ids' \<and> (\<forall>b \<in> set bs. id_of l p' (obk_bracketText b) \<noteq> None) \<and>
    sis_keys ids' = sis_keys ids \<union> {j. \<exists>b \<in> set bs. id_of l p' (obk_bracketText b) = Some j}"
  using assms
proof (induction bs arbitrary: ids p)
  case Nil
  then show ?case by (simp add: ids_kept_refl)
next
  case (Cons b bs)
  obtain i q where g: "getId l (obk_bracketText b) p = (i, q)" by fastforce
  have q: "ids_kept p q" "id_of l q (obk_bracketText b) = Some i" using getId_eq [OF Cons.prems(1) g] by auto
  have "add_id b (ids, p) = (SmallImmutableSet_add i ids, q)" using Cons.prems(3) g by (simp add: add_id_def)
  then have "fold add_id bs (SmallImmutableSet_add i ids, q) = (ids', p')" using Cons.prems(4) by simp
  from Cons.IH [OF ids_kept_wf [OF q(1)] _ _ this] Cons.prems have
    IH: "ids_kept q p'" "sis_wf ids'" "\<forall>b \<in> set bs. id_of l p' (obk_bracketText b) \<noteq> None"
    "sis_keys ids' = insert i (sis_keys ids) \<union> {j. \<exists>b \<in> set bs. id_of l p' (obk_bracketText b) = Some j}" by (auto simp: sis.add)
  moreover have "id_of l p' (obk_bracketText b) = Some i" by (rule id_of_kept [OF IH(1) q(2)])
  ultimately show ?case using ids_kept_trans [OF q(1) IH(1)] by auto
qed

lemma closing_entry_ok:
  assumes "tokens_ok S l Os Cs st" "\<forall>b \<in> set (getOpeningBrackets cfg c). obk_languageId b = l" "getOpeningBrackets cfg c \<noteq> []"
    and "obk_bracketText ` set (getOpeningBrackets cfg c) = {q. (q, cbk_bracketText c) \<in> S}"
  shows "\<exists>st'. closing_entry cfg c st = Inr st' \<and> tokens_ok S l Os (insert (cbk_bracketText c) Cs) st'"
proof -
  obtain m p where st: "st = (m, p)" by fastforce
  have wf: "dkp_wf p" using assms(1) by (simp add: tokens_ok_def st)
  obtain b bs where bs: "getOpeningBrackets cfg c = b # bs" using assms(3) by (cases "getOpeningBrackets cfg c") auto
  obtain ids p1 where f: "fold add_id (b # bs) (SmallImmutableSet_getEmpty, p) = (ids, p1)" by fastforce
  have ids: "ids_kept p p1" "sis_wf ids" "\<forall>b \<in> set (getOpeningBrackets cfg c). id_of l p1 (obk_bracketText b) \<noteq> None"
    "sis_keys ids = {j. \<exists>b \<in> set (getOpeningBrackets cfg c). id_of l p1 (obk_bracketText b) = Some j}"
    using add_ids_ok [OF wf sis_getEmpty(1) _ f] assms(2) bs by (auto simp: sis_getEmpty)
  obtain i p2 where g: "getId l (obk_bracketText b) p1 = (i, p2)" by fastforce
  have p2: "ids_kept p1 p2" "id_of l p2 (obk_bracketText b) = Some i" using getId_eq [OF ids_kept_wf [OF ids(1)] g] by auto
  have kept: "ids_kept p p2" by (rule ids_kept_trans [OF ids(1) p2(1)])
  have mem: "(q, cbk_bracketText c) \<in> S \<longleftrightarrow> (\<exists>b \<in> set (getOpeningBrackets cfg c). obk_bracketText b = q)" for q
    unfolding mem_Collect_eq [of q "\<lambda>q. (q, cbk_bracketText c) \<in> S", symmetric] assms(4) [symmetric] by auto
  let ?t = "bracket_token Token_ClosingBracket (cbk_bracketText c) i ids (Closing c)"
  have i: "i \<in> sis_keys ids"
    using ids(3,4) p2 bs id_of_kept [OF p2(1)] by force
  have "closing_ok S l p1 (cbk_bracketText c) ?t" unfolding closing_ok_def
    by (intro exI conjI, rule refl) (use i ids(2-4) mem in auto)
  then have t: "closing_ok S l p2 (cbk_bracketText c) ?t" by (rule closing_ok_kept [OF p2(1)])
  have "tokens_ok S l Os (insert (cbk_bracketText c) Cs) (AList.update (cbk_bracketText c) ?t m, p2)"
    using assms(1) opening_ok_kept [OF kept] closing_ok_kept [OF kept] ids_kept_wf [OF kept] t
      entries_ok_AList_update [of "Os \<union> Cs" "\<lambda>k t. if k \<in> Cs then closing_ok S l p k t else opening_ok l p k t" m "cbk_bracketText c"
        "\<lambda>k t. if k \<in> insert (cbk_bracketText c) Cs then closing_ok S l p2 k t else opening_ok l p2 k t" ?t]
    by (auto simp: tokens_ok_def st split: if_splits)
  moreover have "closing_entry cfg c st = Inr (AList.update (cbk_bracketText c) ?t m, p2)"
    using f g bs assms(2) by (simp add: closing_entry_def st)
  ultimately show ?thesis by blast
qed

lemma opening_entries_ok:
  "tokens_ok S l Os {} st \<Longrightarrow> \<forall>b \<in> set bs. obk_languageId b = l \<Longrightarrow> tokens_ok S l (obk_bracketText ` set bs \<union> Os) {} (fold opening_entry bs st)"
proof (induction bs arbitrary: Os st)
  case (Cons b bs)
  from Cons.IH [OF opening_entry_ok [OF Cons.prems(1)]] Cons.prems(2) show ?case by simp
qed simp

lemma closing_entries_ok:
  assumes "\<forall>c \<in> set cs. (\<forall>b \<in> set (getOpeningBrackets cfg c). obk_languageId b = l) \<and> getOpeningBrackets cfg c \<noteq> [] \<and>
      obk_bracketText ` set (getOpeningBrackets cfg c) = {q. (q, cbk_bracketText c) \<in> S}"
    and "tokens_ok S l Os Cs st"
  shows "\<exists>st'. result_fold (closing_entry cfg) cs st = Inr st' \<and> tokens_ok S l Os (cbk_bracketText ` set cs \<union> Cs) st'"
  using assms
proof (induction cs arbitrary: Cs st)
  case (Cons c cs)
  then obtain st1 where "closing_entry cfg c st = Inr st1" "tokens_ok S l Os (insert (cbk_bracketText c) Cs) st1"
    using closing_entry_ok [of S l Os Cs st cfg c] by auto
  then show ?case using Cons.IH [of "insert (cbk_bracketText c) Cs" st1] Cons.prems(1) by simp
qed simp

lemma createFromLanguage_ok:
  assumes "cfg = new_LanguageBracketsConfiguration this l config" "dkp_wf p"
  shows "\<exists>bt p'. BracketTokens_createFromLanguage cfg p = Inr (bt, p') \<and>
    tokens_ok (all_pairs config) l (fst ` all_pairs config) (snd ` all_pairs config) (bt_map bt, p')"
proof -
  note opn = new_configuration_opening [OF assms(1)] and cls = new_configuration_closing [OF assms(1)]
  have "tokens_ok (all_pairs config) l {} {} ([], p)" using assms(2) by (simp add: tokens_ok_def entries_ok_def)
  from opening_entries_ok [OF this, of "openingBrackets cfg"] have
    st: "tokens_ok (all_pairs config) l (fst ` all_pairs config) {} (fold opening_entry (openingBrackets cfg) ([], p))"
    using opn(2,3) by simp
  have "(\<forall>b \<in> set (getOpeningBrackets cfg c). obk_languageId b = l) \<and> getOpeningBrackets cfg c \<noteq> [] \<and>
      obk_bracketText ` set (getOpeningBrackets cfg c) = {q. (q, cbk_bracketText c) \<in> all_pairs config}" if c: "c \<in> set (closingBrackets cfg)" for c
  proof -
    note g = new_configuration_getOpeningBrackets [OF assms(1) c]
    have "q \<in> obk_bracketText ` set (getOpeningBrackets cfg c)" if "(q, cbk_bracketText c) \<in> all_pairs config" for q
    proof -
      have "q \<in> obk_bracketText ` set (openingBrackets cfg)" using opn(2) that by force
      then show ?thesis using g(1) that by auto
    qed
    then show ?thesis using g opn(3) by auto
  qed
  then obtain st' where "result_fold (closing_entry cfg) (closingBrackets cfg) (fold opening_entry (openingBrackets cfg) ([], p)) = Inr st'"
    "tokens_ok (all_pairs config) l (fst ` all_pairs config) (snd ` all_pairs config) st'"
    using closing_entries_ok [OF _ st, of "closingBrackets cfg" cfg] cls(2) by auto
  then show ?thesis by (cases st') (auto simp: BracketTokens_createFromLanguage_def)
qed

lemma bracket_token_simps [simp]:
  "t_length (bracket_token k text i ids info) = toLength 0 (int (length text))" "t_kind (bracket_token k text i ids info) = k"
  "t_bracketId (bracket_token k text i ids info) = int i" "t_bracketIds (bracket_token k text i ids info) = ids"
  "t_astNode (bracket_token k text i ids info) = Some (BracketAstNode \<lparr>bn_length = toLength 0 (int (length text)), bn_bracketInfo = info, bn_bracketIds = ids\<rparr>)"
  by (simp_all add: bracket_token_def Let_def)

lemma opening_ok_token: "opening_ok l p text t \<Longrightarrow> token_ok t \<and> t_kind t = Token_OpeningBracket \<and> t_length t = toLength 0 (int (length text))"
  by (auto simp: opening_ok_def token_ok_def)

lemma closing_ok_token: "closing_ok S l p text t \<Longrightarrow> token_ok t \<and> t_kind t = Token_ClosingBracket \<and> t_length t = toLength 0 (int (length text))"
  by (auto simp: closing_ok_def token_ok_def)

lemma opening_closing_intersect:
  assumes "dkp_wf p" "opening_ok l p q tq" "closing_ok S l p c tc"
  shows "sis_keys (t_bracketIds tc) \<inter> sis_keys (t_bracketIds tq) \<noteq> {} \<longleftrightarrow> (q, c) \<in> S"
proof -
  obtain i where i: "id_of l p q = Some i" "sis_keys (t_bracketIds tq) = {i}" using assms(2) by (auto simp: opening_ok_def)
  have "sis_keys (t_bracketIds tc) = {j. \<exists>q. (q, c) \<in> S \<and> id_of l p q = Some j}" using assms(3) by (auto simp: closing_ok_def)
  then have "sis_keys (t_bracketIds tc) \<inter> sis_keys (t_bracketIds tq) \<noteq> {} \<longleftrightarrow> (\<exists>q'. (q', c) \<in> S \<and> id_of l p q' = Some i)" using i(2) by simp
  then show ?thesis using i(1) id_of_inj [OF assms(1) i(1)] by blast
qed

text \<open>
  The tokens of a language represent its configured pairs, whatever languages have been numbered before: there is one token for every bracket text, well formed and
  as long as the text; a text on the right of a pair has a closing token, any other an opening token; and an opening and a closing token
  have a bracket id in common if and only if they are a configured pair.
\<close>

theorem createFromLanguage_represents_pairs:
  assumes "cfg = new_LanguageBracketsConfiguration this l config" "dkp_wf p"
  shows "\<exists>bt p'. BracketTokens_createFromLanguage cfg p = Inr (bt, p') \<and> dkp_wf p' \<and>
    dom (map_of (bt_map bt)) = fst ` all_pairs config \<union> snd ` all_pairs config \<and>
    (\<forall>k t. map_of (bt_map bt) k = Some t \<longrightarrow> token_ok t \<and> t_length t = toLength 0 (int (length k)) \<and>
       t_kind t = (if k \<in> snd ` all_pairs config then Token_ClosingBracket else Token_OpeningBracket)) \<and>
    (\<forall>q c tq tc. map_of (bt_map bt) q = Some tq \<and> t_kind tq = Token_OpeningBracket \<and> map_of (bt_map bt) c = Some tc \<and> t_kind tc = Token_ClosingBracket \<longrightarrow>
       (SmallImmutableSet_intersects (t_bracketIds tc) (t_bracketIds tq) \<longleftrightarrow> (q, c) \<in> all_pairs config))"
proof -
  let ?S = "all_pairs config"
  obtain bt p' where bt: "BracketTokens_createFromLanguage cfg p = Inr (bt, p')" "tokens_ok ?S l (fst ` ?S) (snd ` ?S) (bt_map bt, p')"
    using createFromLanguage_ok [OF assms] by blast
  then have wf: "dkp_wf p'" and e: "distinct (map fst (bt_map bt))" "fst ` set (bt_map bt) = fst ` ?S \<union> snd ` ?S"
    "\<And>k t. map_of (bt_map bt) k = Some t \<Longrightarrow> if k \<in> snd ` ?S then closing_ok ?S l p' k t else opening_ok l p' k t"
    using map_of_SomeD [of "bt_map bt"] unfolding tokens_ok_def entries_ok_def case_prod_conv by blast+
  have kind: "token_ok t \<and> t_length t = toLength 0 (int (length k)) \<and> t_kind t = (if k \<in> snd ` ?S then Token_ClosingBracket else Token_OpeningBracket)"
    if "map_of (bt_map bt) k = Some t" for k t
    using e(3) [OF that] opening_ok_token closing_ok_token by (cases "k \<in> snd ` ?S") auto
  have "SmallImmutableSet_intersects (t_bracketIds tc) (t_bracketIds tq) \<longleftrightarrow> (q, c) \<in> ?S"
    if h: "map_of (bt_map bt) q = Some tq" "t_kind tq = Token_OpeningBracket" "map_of (bt_map bt) c = Some tc" "t_kind tc = Token_ClosingBracket" for q c tq tc
  proof -
    have "q \<notin> snd ` ?S" "c \<in> snd ` ?S" using kind [OF h(1)] kind [OF h(3)] h(2,4) by (metis TokenKind.distinct(5))+
    then have ok: "opening_ok l p' q tq" "closing_ok ?S l p' c tc" using e(3) [OF h(1)] e(3) [OF h(3)] by simp_all
    have "sis_wf (t_bracketIds tc)" "sis_wf (t_bracketIds tq)" using kind [OF h(1)] kind [OF h(3)] by (simp_all add: token_ok_def)
    then show ?thesis using opening_closing_intersect [OF wf ok] by (simp add: sis.intersects)
  qed
  moreover have "dom (map_of (bt_map bt)) = fst ` ?S \<union> snd ` ?S" by (simp only: dom_map_of_conv_image_fst e(2))
  ultimately show ?thesis using bt(1) wf kind by blast
qed

theorem createFromLanguage_represents_pairs_witness:
  "let config = \<lparr>conf_brackets = Some [(js_str ''('', js_str '')''), (js_str ''['', js_str '')''), (js_str ''{'', js_str ''}'')], conf_colorizedBracketPairs = None\<rparr>;
     bt = fst (projr (BracketTokens_createFromLanguage (new_LanguageBracketsConfiguration 0 (js_str ''x'') config) new_DenseKeyProvider))
   in dom (map_of (bt_map bt)) = fst ` all_pairs config \<union> snd ` all_pairs config \<and>
      map (\<lambda>(k, t). (k, t_bracketId t)) (bt_map bt) = [(js_str ''('', 0), (js_str ''['', 1), (js_str ''{'', 2), (js_str '')'', 0), (js_str ''}'', 2)]"
proof -
  let ?config = "\<lparr>conf_brackets = Some [(js_str ''('', js_str '')''), (js_str ''['', js_str '')''), (js_str ''{'', js_str ''}'')], conf_colorizedBracketPairs = None\<rparr>"
  let ?r = "BracketTokens_createFromLanguage (new_LanguageBracketsConfiguration 0 (js_str ''x'') ?config) new_DenseKeyProvider"
  have "map (\<lambda>(k, t). (k, t_bracketId t)) (bt_map (fst (projr ?r))) =
      [(js_str ''('', 0), (js_str ''['', 1), (js_str ''{'', 2), (js_str '')'', 0), (js_str ''}'', 2)]" by code_simp
  moreover obtain bt p' where "?r = Inr (bt, p')" "dom (map_of (bt_map bt)) = fst ` all_pairs ?config \<union> snd ` all_pairs ?config"
    using createFromLanguage_represents_pairs [OF refl dkp_wf_new, of 0 "js_str ''x''" ?config] by blast
  ultimately show ?thesis by (simp add: Let_def)
qed

section \<open>The tokens of a text\<close>

text \<open>
  A text in which the regular expression has found the texts \<open>v\<close>, each after a text \<open>g\<close> without a match; the matches are the offsets and texts that
  repeated calls of \<open>exec\<close> return.
\<close>

type_synonym segments = "(jsstring \<times> jsstring) list"

fun segment_text :: "segments \<Rightarrow> jsstring" where
  "segment_text [] = []"
| "segment_text ((g, v) # segs) = g @ v @ segment_text segs"

fun segment_matches :: "number \<Rightarrow> segments \<Rightarrow> (number \<times> jsstring) list" where
  "segment_matches off [] = []"
| "segment_matches off ((g, v) # segs) = (off + int (length g), v) # segment_matches (off + int (length g) + int (length v)) segs"

text \<open>Every line feed is a match of its own, and every other match is the text of a token with no line feed.\<close>

definition segment_ok :: "(jsstring \<Rightarrow> 'b Token option) \<Rightarrow> jsstring \<times> jsstring \<Rightarrow> bool" where
  "segment_ok getToken = (\<lambda>(g, v). LineFeed \<notin> set g \<and> (v = [LineFeed] \<or> v \<noteq> [] \<and> LineFeed \<notin> set v \<and>
     (\<exists>t. getToken v = Some t \<and> t_length t = toLength 0 (int (length v)))))"

text \<open>The number of characters after the last line feed.\<close>

definition lf_column :: "jsstring \<Rightarrow> nat" where
  "lf_column s = length (takeWhile (\<lambda>c. c \<noteq> LineFeed) (rev s))"

lemma lf_column_append: "lf_column (s @ t) = (if LineFeed \<in> set t then lf_column t else lf_column s + length t)"
  by (auto simp: lf_column_def takeWhile_append takeWhile_eq_all_conv)

lemma lf_column_simps [simp]: "lf_column [] = 0" "lf_column [c] = (if c = LineFeed then 0 else 1)"
  by (simp_all add: lf_column_def)

lemma lf_column_no_break: "LineFeed \<notin> set s \<Longrightarrow> lf_column s = length s"
  using lf_column_append [of "[]" s] by (simp add: lf_column_def)

lemma lengthOfString_lf:
  "CarriageReturn \<notin> set s \<Longrightarrow> lengthOfString s = toLength (int (count_list s LineFeed)) (int (lf_column s))"
proof -
  have "length (splitLines s) = Suc (count_list s LineFeed) \<and> length (last (splitLines s)) = lf_column s" if "CarriageReturn \<notin> set s"
    using that
  proof (induction s rule: text_induct)
    case (LF cs)
    then show ?case using lf_column_append [of "[LineFeed]" cs] by (cases "LineFeed \<in> set cs"; simp add: text_kinds lf_column_no_break)
  next
    case (Other c cs)
    then show ?case using lf_column_append [of "[c]" cs] by (cases "splitLines cs") (auto simp: text_kinds lf_column_no_break count_list_0_iff)
  qed auto
  moreover assume "CarriageReturn \<notin> set s"
  ultimately show ?thesis by (simp add: lengthOfString_def Let_def)
qed

text \<open>The loop after the text \<open>u\<close>: the tokens cover the pieces \<open>ps\<close>, and \<open>w\<close> is the text after the last token.\<close>

definition fast_inv :: "jsstring list \<Rightarrow> jsstring \<Rightarrow> 'b Token list \<Rightarrow> 'b fast_state \<Rightarrow> bool" where
  "fast_inv ps w ts st \<longleftrightarrow>
     (let u = concat ps @ w in CarriageReturn \<notin> set u \<and> [] \<notin> set ps \<and>
      fs_tokens st = map Some ts \<and> map t_length ts = map lengthOfString ps \<and>
      fs_lastTokenEndOffset st = int (length (concat ps)) \<and> fs_lastTokenEndLine st = int (count_list (concat ps) LineFeed) \<and>
      fs_curLineCount st = int (count_list u LineFeed) \<and> fs_lastLineBreakOffset st = int (length u) - int (lf_column u))"

lemma fast_gap_eq:
  assumes "fast_inv ps w ts st" "LineFeed \<notin> set g" "CarriageReturn \<notin> set g"
  shows "fast_gap st (int (length (concat ps @ w @ g))) = lengthOfString (w @ g)"
proof (cases "LineFeed \<in> set w")
  case True
  then have "count_list w LineFeed \<noteq> 0" by (simp add: count_list_0_iff)
  then show ?thesis using assms True
    by (simp add: fast_inv_def Let_def fast_gap_def lengthOfString_lf lf_column_append count_list_0_iff add_ac)
next
  case False
  then show ?thesis using assms
    by (simp add: fast_inv_def Let_def fast_gap_def lengthOfString_lf lf_column_no_break count_list_0_iff)
qed

lemma fast_inv_offset:
  assumes "fast_inv ps w ts st"
  shows "fs_lastTokenEndOffset st \<noteq> int (length (concat ps @ w @ g)) \<longleftrightarrow> w @ g \<noteq> []"
proof -
  have "fs_lastTokenEndOffset st = int (length (concat ps))" using assms by (simp add: fast_inv_def Let_def)
  moreover have "length (concat ps) = length (concat ps @ w @ g) \<longleftrightarrow> w @ g = []" by auto
  ultimately show ?thesis by (simp only: of_nat_eq_iff)
qed

definition gap_pieces :: "jsstring \<Rightarrow> jsstring list" where
  "gap_pieces w = (if w = [] then [] else [w])"

lemma fast_match_step:
  assumes "fast_inv ps w ts st" "segment_ok getToken (g, v)" "CarriageReturn \<notin> set g" "CarriageReturn \<notin> set v"
  shows "\<exists>ps' w' ts'. fast_inv ps' w' ts' (fast_match getToken (int (length (concat ps @ w @ g)), v) st) \<and> concat ps' @ w' = concat ps @ w @ g @ v \<and>
    set ts' \<subseteq> set ts \<union> range text_token \<union> {t. getToken v = Some t}"
proof (cases "v = [LineFeed]")
  case True
  then have "fast_inv ps (w @ g @ v) ts (fast_match getToken (int (length (concat ps @ w @ g)), v) st)"
    using assms by (auto simp: fast_inv_def fast_match_def Let_def segment_ok_def lf_column_append count_list_0_iff)
  then show ?thesis using True by (intro exI [of _ ps] exI [of _ "w @ g @ v"] exI [of _ ts]) auto
next
  case False
  with assms(2) obtain t where t: "getToken v = Some t" "t_length t = toLength 0 (int (length v))" "LineFeed \<notin> set v" "v \<noteq> []" "LineFeed \<notin> set g"
    by (auto simp: segment_ok_def)
  note gap = fast_gap_eq [OF assms(1) t(5) assms(3)]
  let ?ps = "ps @ gap_pieces (w @ g) @ [v]" and ?ts = "ts @ map (\<lambda>p. text_token (lengthOfString p)) (gap_pieces (w @ g)) @ [t]"
  note off = fast_inv_offset [OF assms(1), of g]
  have "fast_match getToken (int (length (concat ps @ w @ g)), v) st =
      st\<lparr>fs_tokens := map Some ?ts, fs_lastTokenEndOffset := int (length (concat ps @ w @ g)) + int (length v), fs_lastTokenEndLine := fs_curLineCount st\<rparr>"
    using assms(1) t(1) False gap off by (simp add: fast_match_def fast_inv_def Let_def gap_pieces_def)
  moreover have "fast_inv ?ps [] ?ts
      (st\<lparr>fs_tokens := map Some ?ts, fs_lastTokenEndOffset := int (length (concat ps @ w @ g)) + int (length v), fs_lastTokenEndLine := fs_curLineCount st\<rparr>)"
    using assms t by (auto simp: fast_inv_def Let_def gap_pieces_def text_token_def lengthOfString_lf lf_column_append lf_column_no_break count_list_0_iff)
  ultimately show ?thesis using t(1) by (intro exI [of _ ?ps] exI [of _ "[]"] exI [of _ ?ts]) (auto simp: gap_pieces_def)
qed

lemma fast_matches:
  assumes "fast_inv ps w ts st" "\<forall>x \<in> set segs. segment_ok getToken x" "CarriageReturn \<notin> set (segment_text segs)"
    and "off = int (length (concat ps @ w))"
  shows "\<exists>ps' w' ts'. fast_inv ps' w' ts' (fold (fast_match getToken) (segment_matches off segs) st) \<and> concat ps' @ w' = concat ps @ w @ segment_text segs \<and>
    set ts' \<subseteq> set ts \<union> range text_token \<union> {t. \<exists>(g, v) \<in> set segs. getToken v = Some t}"
  using assms
proof (induction segs arbitrary: ps w ts st off)
  case Nil
  then show ?case by (intro exI [of _ ps] exI [of _ w] exI [of _ ts]) simp
next
  case (Cons x segs)
  obtain g v where x: "x = (g, v)" by fastforce
  obtain ps1 w1 ts1 where s: "fast_inv ps1 w1 ts1 (fast_match getToken (int (length (concat ps @ w @ g)), v) st)" "concat ps1 @ w1 = concat ps @ w @ g @ v"
    "set ts1 \<subseteq> set ts \<union> range text_token \<union> {t. getToken v = Some t}"
    using fast_match_step [OF Cons.prems(1), of getToken g v] Cons.prems x by auto
  have off: "off + int (length g) = int (length (concat ps @ w @ g))" "off + int (length g) + int (length v) = int (length (concat ps1 @ w1))"
    using Cons.prems(4) by (simp_all add: s(2))
  obtain ps2 w2 ts2 where r: "fast_inv ps2 w2 ts2 (fold (fast_match getToken) (segment_matches (int (length (concat ps1 @ w1))) segs)
      (fast_match getToken (int (length (concat ps @ w @ g)), v) st))" "concat ps2 @ w2 = concat ps1 @ w1 @ segment_text segs"
    "set ts2 \<subseteq> set ts1 \<union> range text_token \<union> {t. \<exists>(g, v) \<in> set segs. getToken v = Some t}"
    using Cons.IH [OF s(1) _ _ refl] Cons.prems x by auto
  have "concat ps2 @ w2 = concat ps @ w @ segment_text (x # segs)" using r(2) s(2) x by (metis append.assoc segment_text.simps(2))
  moreover have "set ts2 \<subseteq> set ts \<union> range text_token \<union> {t. \<exists>(g, v) \<in> set (x # segs). getToken v = Some t}"
    using r(3) s(3) x by fastforce
  ultimately show ?case using r(1) x off by (intro exI [of _ ps2] exI [of _ w2] exI [of _ ts2]) (simp only: segment_matches.simps fold_simps)
qed

lemma FastTokenizer_covers:
  assumes "text = segment_text segs @ rest" "\<forall>x \<in> set segs. segment_ok getToken x" "LineFeed \<notin> set rest" "CarriageReturn \<notin> set text"
  shows "\<exists>ps ts. ft_tokens (new_FastTokenizer text (segment_matches 0 segs) getToken) = map Some ts \<and> concat ps = text \<and> [] \<notin> set ps \<and>
    map t_length ts = map lengthOfString ps \<and> set ts \<subseteq> range text_token \<union> {t. \<exists>(g, v) \<in> set segs. getToken v = Some t} \<and>
    ft_length (new_FastTokenizer text (segment_matches 0 segs) getToken) = lengthOfString text"
proof -
  let ?st = "\<lparr>fs_tokens = [], fs_curLineCount = 0, fs_lastLineBreakOffset = 0, fs_lastTokenEndOffset = 0, fs_lastTokenEndLine = 0\<rparr> :: 'a fast_state"
  have "fast_inv [] [] [] ?st" by (simp add: fast_inv_def)
  from fast_matches [OF this assms(2), of 0] assms(1,4) obtain ps w ts where
    r: "fast_inv ps w ts (fold (fast_match getToken) (segment_matches 0 segs) ?st)" "concat ps @ w = segment_text segs"
    "set ts \<subseteq> range text_token \<union> {t. \<exists>(g, v) \<in> set segs. getToken v = Some t}" by auto
  let ?st' = "fold (fast_match getToken) (segment_matches 0 segs) ?st"
  have whole: "text = concat ps @ w @ rest" using assms(1) r(2) by (metis append.assoc)
  have cr: "CarriageReturn \<notin> set rest" using assms(1,4) by simp
  have gap: "fast_gap ?st' (int (length text)) = lengthOfString (w @ rest)" using fast_gap_eq [OF r(1) assms(3) cr] whole by simp
  have off: "fs_lastTokenEndOffset ?st' \<noteq> int (length text) \<longleftrightarrow> w @ rest \<noteq> []" using fast_inv_offset [OF r(1), of rest] whole by simp
  let ?ts = "ts @ map (\<lambda>p. text_token (lengthOfString p)) (gap_pieces (w @ rest))"
  have "ft_tokens (new_FastTokenizer text (segment_matches 0 segs) getToken) = map Some ?ts"
    using r(1) gap off by (simp add: new_FastTokenizer_def Let_def gap_pieces_def fast_inv_def)
  moreover have "ft_length (new_FastTokenizer text (segment_matches 0 segs) getToken) = lengthOfString text"
    using r(1) whole assms(3,4) by (simp add: new_FastTokenizer_def fast_inv_def Let_def lengthOfString_lf lf_column_append count_list_0_iff add_ac)
  moreover have "map t_length ?ts = map lengthOfString (ps @ gap_pieces (w @ rest))" "[] \<notin> set (ps @ gap_pieces (w @ rest))" "concat (ps @ gap_pieces (w @ rest)) = text"
    using r(1) whole by (auto simp: fast_inv_def Let_def gap_pieces_def text_token_def)
  moreover have "set ?ts \<subseteq> range text_token \<union> {t. \<exists>(g, v) \<in> set segs. getToken v = Some t}" using r(3) by auto
  ultimately show ?thesis by blast
qed

text \<open>
  The tokens of a text cut it into non-empty pieces: if the matches of the regular expression are all line feeds of the text and texts of tokens, then
  the concatenation of the pieces is the text, every token has the length of its piece, the tokens other than those of matches are text tokens, and the length of the tokenizer
  is the length of the text (a text with line feeds only).
\<close>

theorem FastTokenizer_tokens_cover_text:
  assumes "text = segment_text segs @ rest" "\<forall>x \<in> set segs. segment_ok getToken x" "LineFeed \<notin> set rest" "CarriageReturn \<notin> set text"
  shows "\<exists>ps ts. ft_tokens (new_FastTokenizer text (segment_matches 0 segs) getToken) = map Some ts \<and> concat ps = text \<and> [] \<notin> set ps \<and>
    map t_length ts = map lengthOfString ps \<and> set ts \<subseteq> range text_token \<union> {t. \<exists>(g, v) \<in> set segs. getToken v = Some t} \<and>
    ft_length (new_FastTokenizer text (segment_matches 0 segs) getToken) = lengthOfString text"
  using assms by (rule FastTokenizer_covers)

text \<open>Without brackets there is no regular expression, and the length counts the line feeds as columns.\<close>

theorem FastTokenizer_without_brackets_has_no_lines:
  "ft_length (new_FastTokenizer text [] getToken) = toLength 0 (int (length text))"
  by (simp add: new_FastTokenizer_def Let_def)

theorem FastTokenizer_tokens_cover_text_witness:
  "let getToken = (\<lambda>_. Some (text_token (toLength 0 1) :: unit Token)); segs = [(js_str ''ab'', js_str ''(''), ([], [LineFeed]), (js_str ''c'', js_str '')'')];
     s = new_FastTokenizer (segment_text segs @ js_str ''d'') (segment_matches 0 segs) getToken
   in (\<exists>ps ts. ft_tokens s = map Some ts \<and> concat ps = js_str ''ab('' @ [LineFeed] @ js_str ''c)d'' \<and> map t_length ts = map lengthOfString ps) \<and>
      ft_length s = lengthOfString (js_str ''ab('' @ [LineFeed] @ js_str ''c)d'') \<and>
      map (t_length \<circ> the) (ft_tokens s) = [toLength 0 2, toLength 0 1, toLength 1 1, toLength 0 1, toLength 0 1]"
proof -
  let ?g = "\<lambda>_ :: jsstring. Some (text_token (toLength 0 1) :: unit Token)" and ?segs = "[(js_str ''ab'', js_str ''(''), ([], [LineFeed]), (js_str ''c'', js_str '')'')]"
  let ?s = "new_FastTokenizer (segment_text ?segs @ js_str ''d'') (segment_matches 0 ?segs) ?g"
  have ok: "\<forall>x \<in> set ?segs. segment_ok ?g x" by (simp add: segment_ok_def text_token_def js_str_def)
  have e: "LineFeed \<notin> set (js_str ''d'')" "CarriageReturn \<notin> set (segment_text ?segs @ js_str ''d'')"
    "segment_text ?segs @ js_str ''d'' = js_str ''ab('' @ [LineFeed] @ js_str ''c)d''"
    "map (t_length \<circ> the) (ft_tokens ?s) = [toLength 0 2, toLength 0 1, toLength 1 1, toLength 0 1, toLength 0 1]" by code_simp+
  obtain ps ts where "ft_tokens ?s = map Some ts" "concat ps = segment_text ?segs @ js_str ''d''" "map t_length ts = map lengthOfString ps"
    "ft_length ?s = lengthOfString (segment_text ?segs @ js_str ''d'')"
    using FastTokenizer_tokens_cover_text [OF refl ok e(1,2)] by blast
  then show ?thesis using e(4) unfolding Let_def e(3) by blast
qed

end
