(* ===== verification/Bracket_Parser.thy ===== *)
theory Bracket_Parser
  imports Bracket_Concat Bracket_Mapper Bracket_Node_Reader Bracket_Tokenizer
begin

text \<open>
  The bracket parser, \<open>src/vs/editor/common/model/bracketPairsTextModelPart/bracketPairsTree/parser.ts\<close>. The parser
  calls itself to the depth of the nesting, so its functions take fuel, and \<open>None\<close> is a call that has not returned.
\<close>

section \<open>The parser\<close>

record ('s, 'b) Parser =
  pa_tokenizer :: 's
  pa_oldNodeReader :: "'b NodeReader option"
  pa_positionMapper :: BeforeEditPositionMapper
  pa_itemsConstructed :: number
  pa_itemsFromCache :: number
  pa_createImmutableLists :: bool

definition new_Parser :: "'s \<Rightarrow> TextEditInfo list \<Rightarrow> 'b AstNode option \<Rightarrow> bool \<Rightarrow> ('s, 'b) Parser result" where
  "new_Parser tokenizer edits oldNode createImmutableLists =
     (if oldNode \<noteq> None \<and> createImmutableLists then Inl PlainError
      else Inr \<lparr>pa_tokenizer = tokenizer, pa_oldNodeReader = map_option new_NodeReader oldNode,
                pa_positionMapper = new_BeforeEditPositionMapper edits, pa_itemsConstructed = 0, pa_itemsFromCache = 0,
                pa_createImmutableLists = createImmutableLists\<rparr>)"

type_synonym ('s, 'b, 'a) parser_result = "('a \<times> ('s, 'b) Parser) result option"

fun parser_bind :: "('s, 'b, 'a) parser_result \<Rightarrow> ('a \<Rightarrow> ('s, 'b) Parser \<Rightarrow> ('s, 'b, 'c) parser_result) \<Rightarrow> ('s, 'b, 'c) parser_result" where
  "parser_bind None f = None"
| "parser_bind (Some (Inl e)) f = Some (Inl e)"
| "parser_bind (Some (Inr (x, P))) f = f x P"

text \<open>The predicate for nodes that can be reused.\<close>

definition reusable :: "SmallImmutableSet \<Rightarrow> Length option \<Rightarrow> 'b AstNode \<Rightarrow> bool result" where
  "reusable openedBracketIds maxCacheableLength curNode =
     (case maxCacheableLength of
        Some m \<Rightarrow> if \<not> lengthLessThan (AstNode_length curNode) m then Inr False else AstNode_canBeReused openedBracketIds curNode
      | None \<Rightarrow> AstNode_canBeReused openedBracketIds curNode)"

definition tryReadChildFromCache :: "nat \<Rightarrow> ('s, 'b) Tokenizer \<Rightarrow> SmallImmutableSet \<Rightarrow> ('s, 'b) Parser \<Rightarrow> ('s, 'b, 'b AstNode option) parser_result" where
  "tryReadChildFromCache fuel T openedBracketIds this =
     (case pa_oldNodeReader this of
        None \<Rightarrow> Some (Inr (None, this))
      | Some reader \<Rightarrow>
          let (maxCacheableLength, m1) = getDistanceToNextChange (tk_offset T (pa_tokenizer this)) (pa_positionMapper this);
              this1 = this\<lparr>pa_positionMapper := m1\<rparr>
          in if maxCacheableLength = None \<or> \<not> lengthIsZero (the maxCacheableLength)
             then let (before, m2) = getOffsetBeforeChange (tk_offset T (pa_tokenizer this)) m1;
                      this2 = this1\<lparr>pa_positionMapper := m2\<rparr>
                  in (case readLongestNodeAt fuel before (reusable openedBracketIds maxCacheableLength) reader of
                        None \<Rightarrow> None
                      | Some (Inl e) \<Rightarrow> Some (Inl e)
                      | Some (Inr (None, reader')) \<Rightarrow> Some (Inr (None, this2\<lparr>pa_oldNodeReader := Some reader'\<rparr>))
                      | Some (Inr (Some cachedNode, reader')) \<Rightarrow>
                          (case tk_skip T (AstNode_length cachedNode) (pa_tokenizer this2) of
                             Inl e \<Rightarrow> Some (Inl e)
                           | Inr s \<Rightarrow> Some (Inr (Some cachedNode,
                               this2\<lparr>pa_oldNodeReader := Some reader', pa_itemsFromCache := pa_itemsFromCache this2 + 1, pa_tokenizer := s\<rparr>))))
             else Some (Inr (None, this1)))"

definition Parser_peek :: "('s, 'b) Tokenizer \<Rightarrow> ('s, 'b) Parser \<Rightarrow> 'b Token option \<times> ('s, 'b) Parser" where
  "Parser_peek T this = (let (t, s) = tk_peek T (pa_tokenizer this) in (t, this\<lparr>pa_tokenizer := s\<rparr>))"

definition Parser_read :: "('s, 'b) Tokenizer \<Rightarrow> ('s, 'b) Parser \<Rightarrow> 'b Token option \<times> ('s, 'b) Parser" where
  "Parser_read T this = (let (t, s) = tk_read T (pa_tokenizer this) in (t, this\<lparr>pa_tokenizer := s\<rparr>))"

text \<open>The end of \<open>parseList\<close>: the items become one tree.\<close>

definition finish_list :: "'b AstNode list \<Rightarrow> ('s, 'b) Parser \<Rightarrow> ('s, 'b, 'b AstNode option) parser_result" where
  "finish_list items this =
     Some (result_map (\<lambda>n. (n, this))
       (if pa_oldNodeReader this \<noteq> None then concat23Trees items else concat23TreesOfSameHeight items (pa_createImmutableLists this)))"

definition is_empty_list :: "'b AstNode \<Rightarrow> bool" where
  "is_empty_list child \<longleftrightarrow> AstNode_kind child = Kind_List \<and> AstNode_childrenLength child = 0"

definition closes :: "'b Token \<Rightarrow> 'b Token \<Rightarrow> bool" where
  "closes token nextToken \<longleftrightarrow> t_kind nextToken = Token_ClosingBracket \<and>
     (t_bracketId nextToken = t_bracketId token \<or> SmallImmutableSet_intersects (t_bracketIds nextToken) (t_bracketIds token))"

text \<open>A bracket token's node is a bracket node.\<close>

fun bracket_of :: "'b AstNode option \<Rightarrow> 'b BracketNode result" where
  "bracket_of (Some (BracketAstNode b)) = Inr b"
| "bracket_of _ = Inl TypeError"

fun parseList :: "nat \<Rightarrow> ('s, 'b) Tokenizer \<Rightarrow> SmallImmutableSet \<Rightarrow> number \<Rightarrow> 'b AstNode list \<Rightarrow> ('s, 'b) Parser \<Rightarrow> ('s, 'b, 'b AstNode option) parser_result"
  and parseChild :: "nat \<Rightarrow> ('s, 'b) Tokenizer \<Rightarrow> SmallImmutableSet \<Rightarrow> number \<Rightarrow> ('s, 'b) Parser \<Rightarrow> ('s, 'b, 'b AstNode) parser_result" where
  "parseList 0 T openedBracketIds level items this = None"
| "parseList (Suc fuel) T openedBracketIds level items this =
     parser_bind (tryReadChildFromCache fuel T openedBracketIds this) (\<lambda>cached this1.
       case cached of
         Some child \<Rightarrow> parseList fuel T openedBracketIds level (if is_empty_list child then items else items @ [child]) this1
       | None \<Rightarrow>
           let (token, this2) = Parser_peek T this1
           in (case token of
                 None \<Rightarrow> finish_list items this2
               | Some t \<Rightarrow>
                   if t_kind t = Token_ClosingBracket \<and> SmallImmutableSet_intersects (t_bracketIds t) openedBracketIds
                   then finish_list items this2
                   else parser_bind (parseChild fuel T openedBracketIds (level + 1) this2) (\<lambda>child this3.
                          parseList fuel T openedBracketIds level (if is_empty_list child then items else items @ [child]) this3)))"
| "parseChild 0 T openedBracketIds level this = None"
| "parseChild (Suc fuel) T openedBracketIds level this =
     (let (token, this1) = Parser_read T (this\<lparr>pa_itemsConstructed := pa_itemsConstructed this + 1\<rparr>)
      in case token of
           None \<Rightarrow> Some (Inl TypeError)
         | Some t \<Rightarrow>
             (case t_kind t of
                Token_ClosingBracket \<Rightarrow> Some (Inr (InvalidBracketAstNode (t_bracketIds t) (t_length t), this1))
              | Token_Text \<Rightarrow> (case t_astNode t of None \<Rightarrow> Some (Inl TypeError) | Some n \<Rightarrow> Some (Inr (n, this1)))
              | Token_OpeningBracket \<Rightarrow>
                  if level > 300 then Some (Inr (TextAstNode (t_length t), this1))
                  else parser_bind (parseList fuel T (SmallImmutableSet_merge openedBracketIds (t_bracketIds t)) (level + 1) [] this1) (\<lambda>child this2.
                         let (nextToken, this3) = Parser_peek T this2
                         in case nextToken of
                              Some n \<Rightarrow>
                                if closes t n
                                then Some (result_bind (bracket_of (t_astNode t)) (\<lambda>ob. result_bind (bracket_of (t_astNode n)) (\<lambda>cb.
                                       Inr (PairAstNode_create ob child (Some cb), snd (Parser_read T this3)))))
                                else Some (result_map (\<lambda>ob. (PairAstNode_create ob child None, this3)) (bracket_of (t_astNode t)))
                            | None \<Rightarrow> Some (result_map (\<lambda>ob. (PairAstNode_create ob child None, this3)) (bracket_of (t_astNode t))))))"

definition Parser_parseDocument :: "nat \<Rightarrow> ('s, 'b) Tokenizer \<Rightarrow> ('s, 'b) Parser \<Rightarrow> ('s, 'b, 'b AstNode) parser_result" where
  "Parser_parseDocument fuel T this =
     parser_bind (parseList fuel T SmallImmutableSet_getEmpty 0 [] (this\<lparr>pa_itemsConstructed := 0, pa_itemsFromCache := 0\<rparr>))
       (\<lambda>r this'. Some (Inr (case r of None \<Rightarrow> ListAstNode_getEmpty | Some n \<Rightarrow> n, this')))"

definition parseDocument :: "nat \<Rightarrow> ('s, 'b) Tokenizer \<Rightarrow> 's \<Rightarrow> TextEditInfo list \<Rightarrow> 'b AstNode option \<Rightarrow> bool \<Rightarrow> 'b AstNode result option" where
  "parseDocument fuel T tokenizer edits oldNode createImmutableLists =
     (case new_Parser tokenizer edits oldNode createImmutableLists of
        Inl e \<Rightarrow> Some (Inl e)
      | Inr P \<Rightarrow> map_option (result_map fst) (Parser_parseDocument fuel T P))"

section \<open>What a parse means\<close>

text \<open>The leaves of the whole tree, and the leaf a token may become.\<close>

fun ast_leaves :: "'b AstNode \<Rightarrow> 'b AstNode list" where
  "ast_leaves (PairAstNode _ ob child cb _) =
     BracketAstNode ob # (case child of None \<Rightarrow> [] | Some c \<Rightarrow> ast_leaves c) @ (case cb of None \<Rightarrow> [] | Some b \<Rightarrow> [BracketAstNode b])"
| "ast_leaves (TwoThreeListAstNode _ _ _ a b c _) = ast_leaves a @ ast_leaves b @ (case c of None \<Rightarrow> [] | Some c \<Rightarrow> ast_leaves c)"
| "ast_leaves (ArrayListAstNode _ _ _ cs _) = concat (map ast_leaves cs)"
| "ast_leaves n = [n]"

definition leaf_of_token :: "'b Token \<Rightarrow> 'b AstNode \<Rightarrow> bool" where
  "leaf_of_token t n \<longleftrightarrow> t_astNode t = Some n \<or>
     t_kind t = Token_OpeningBracket \<and> n = TextAstNode (t_length t) \<or>
     t_kind t = Token_ClosingBracket \<and> n = InvalidBracketAstNode (t_bracketIds t) (t_length t)"

lemma leaf_of_token_length:
  "\<forall>t \<in> set ts. token_ok t \<Longrightarrow> list_all2 leaf_of_token ts ns \<Longrightarrow> map AstNode_length ns = map t_length ts"
  by (rotate_tac 1, induction rule: list_all2_induct)
    (auto simp: leaf_of_token_def token_ok_def split: TokenKind.splits AstNode.splits)

text \<open>
  Correct nesting inside open brackets with the ids \<open>S\<close>: a closed pair is closed by a bracket for it, an unexpected bracket closes none of the open ones,
  and a pair without a closing bracket is the last item of its list.
\<close>

fun closed_node :: "'b AstNode \<Rightarrow> bool" where
  "closed_node (PairAstNode _ _ _ cb _) = (cb \<noteq> None)"
| "closed_node _ = True"

definition closed_but_last :: "'b AstNode list \<Rightarrow> bool" where
  "closed_but_last xs = list_all closed_node (butlast xs)"

fun nested :: "'b Token set \<Rightarrow> nat set \<Rightarrow> 'b AstNode \<Rightarrow> bool" where
  "nested U S (PairAstNode _ ob child cb _) \<longleftrightarrow>
     (\<exists>t \<in> U. t_kind t = Token_OpeningBracket \<and> t_astNode t = Some (BracketAstNode ob)) \<and>
     (case child of None \<Rightarrow> True | Some c \<Rightarrow> nested U (S \<union> sis_keys (bn_bracketIds ob)) c \<and> closed_but_last (list_items c)) \<and>
     (case cb of None \<Rightarrow> True
      | Some b \<Rightarrow> sis_keys (bn_bracketIds b) \<inter> sis_keys (bn_bracketIds ob) \<noteq> {} \<and>
          (\<exists>t \<in> U. t_kind t = Token_ClosingBracket \<and> t_astNode t = Some (BracketAstNode b)))"
| "nested U S (InvalidBracketAstNode m _) \<longleftrightarrow> sis_keys m \<inter> S = {}"
| "nested U S (TwoThreeListAstNode _ _ _ a b c _) \<longleftrightarrow> nested U S a \<and> nested U S b \<and> (case c of None \<Rightarrow> True | Some c \<Rightarrow> nested U S c)"
| "nested U S (ArrayListAstNode _ _ _ cs _) \<longleftrightarrow> (\<forall>c \<in> set cs. nested U S c)"
| "nested U S _ \<longleftrightarrow> True"

lemma nested_items: "nested U S t \<longleftrightarrow> (\<forall>n \<in> set (list_items t). nested U S n)"
  by (induction t rule: list_items.induct) (auto split: option.splits)

lemma concat_concat: "concat (concat xss) = concat (map concat xss)"
  by (induction xss) auto

lemma ast_leaves_items: "ast_leaves t = concat (map ast_leaves (list_items t))"
  by (induction t rule: list_items.induct) (auto simp: map_concat comp_def concat_concat split: option.splits cong: map_cong)

lemma ast_leaves_nonempty: "tree23 t \<Longrightarrow> ast_leaves t \<noteq> []"
  by (induction t rule: ast_leaves.induct) auto

lemma list_items_leaf: "AstNode_kind n \<noteq> Kind_List \<Longrightarrow> list_items n = [n]"
  by (cases n) auto

text \<open>The cached length of a tree is the total of its leaves' lengths, hence of its tokens' lengths.\<close>

lemmas total_pair_append = packed.total_append [OF _ lengths_fit_zero]

lemma total_three:
  assumes "lengths_fit (xs @ ys @ zs)"
  shows "foldl lengthAdd lengthZero (xs @ ys @ zs) =
    lengthAdd (lengthAdd (foldl lengthAdd lengthZero xs) (foldl lengthAdd lengthZero ys)) (foldl lengthAdd lengthZero zs)"
  using total_pair_append [of "xs @ ys" zs] total_pair_append [of xs ys] assms packed.fits_front [of "xs @ ys" zs] by simp

lemma total_single: "lengths_fit (xs @ l # ys) \<Longrightarrow> foldl lengthAdd lengthZero [l] = l"
  using packed.zero_left [of l] packed.fits_part [of xs "[l]" ys] by simp

lemma PairAstNode_create_length:
  assumes "PairAstNode_create ob child cb = PairAstNode l ob child cb m"
    and "lengths_fit (bn_length ob # (case child of None \<Rightarrow> [] | Some c \<Rightarrow> ls) @ (case cb of None \<Rightarrow> [] | Some b \<Rightarrow> [bn_length b]))"
    and "\<And>c. child = Some c \<Longrightarrow> AstNode_length c = foldl lengthAdd lengthZero ls"
  shows "l = foldl lengthAdd lengthZero (bn_length ob # (case child of None \<Rightarrow> [] | Some c \<Rightarrow> ls) @ (case cb of None \<Rightarrow> [] | Some b \<Rightarrow> [bn_length b]))"
proof -
  note three = total_three [of "[bn_length ob]" "case child of None \<Rightarrow> [] | Some c \<Rightarrow> ls" "case cb of None \<Rightarrow> [] | Some b \<Rightarrow> [bn_length b]"]
  have ob: "foldl lengthAdd lengthZero [bn_length ob] = bn_length ob" using total_single [of "[]"] assms(2) by simp
  show ?thesis
  proof (cases cb)
    case None
    then show ?thesis using total_pair_append [of "[bn_length ob]"] assms ob
      by (cases child) (auto simp: PairAstNode_create_def Let_def)
  next
    case (Some b)
    then have "foldl lengthAdd lengthZero [bn_length b] = bn_length b"
      using total_single [of "bn_length ob # (case child of None \<Rightarrow> [] | Some c \<Rightarrow> ls)" "bn_length b" "[]"] assms(2) by simp
    then show ?thesis using three assms ob Some total_pair_append [of "[bn_length ob]" "[bn_length b]"]
      by (cases child) (auto simp: PairAstNode_create_def Let_def)
  qed
qed

lemma ast_leaves_length:
  "tree23 t \<Longrightarrow> lengths_fit (map AstNode_length (ast_leaves t)) \<Longrightarrow>
     AstNode_length t = foldl lengthAdd lengthZero (map AstNode_length (ast_leaves t))"
proof (induction t rule: ast_leaves.induct)
  case (1 l ob child cb m)
  define ls where "ls = (case child of None \<Rightarrow> [] | Some c \<Rightarrow> map AstNode_length (ast_leaves c))"
  have leaves: "map AstNode_length (ast_leaves (PairAstNode l ob child cb m)) =
      bn_length ob # (case child of None \<Rightarrow> [] | Some c \<Rightarrow> ls) @ (case cb of None \<Rightarrow> [] | Some b \<Rightarrow> [bn_length b])"
    by (simp add: ls_def split: option.splits)
  have "AstNode_length c = foldl lengthAdd lengthZero ls" if "child = Some c" for c
  proof -
    have "lengths_fit ls" using 1(3) packed.fits_part [of "[bn_length ob]" ls] unfolding leaves by (simp add: that)
    then show ?thesis using 1 that by (simp add: ls_def)
  qed
  then show ?case using PairAstNode_create_length [of ob child cb l m ls] 1(2,3) unfolding leaves by simp
next
  case (2 imm l h a b c m)
  let ?len = "\<lambda>n. map AstNode_length (ast_leaves n)"
  have fit: "lengths_fit (?len a @ ?len b @ (case c of None \<Rightarrow> [] | Some c \<Rightarrow> ?len c))" using 2(5) by (simp split: option.splits)
  have trees: "tree23 a" "tree23 b" using 2(4) by simp_all
  have "AstNode_length a = foldl lengthAdd lengthZero (?len a)" by (rule 2(1) [OF trees(1) packed.fits_front [OF fit]])
  moreover have "AstNode_length b = foldl lengthAdd lengthZero (?len b)" by (rule 2(2) [OF trees(2) packed.fits_part [OF fit]])
  moreover have "AstNode_length d = foldl lengthAdd lengthZero (?len d)" if "c = Some d" for d
    using 2 fit that packed.fits_back [of "?len a @ ?len b"] by simp
  ultimately show ?case using 2(4) fit total_three [OF fit] total_pair_append [of "?len a" "?len b"]
    by (cases c) (auto simp: create23_Inr children_length_def)
qed (auto simp: packed.zero_left)

text \<open>The tokens before which the list inside the open brackets \<open>S\<close> ends.\<close>

definition stops :: "nat set \<Rightarrow> 'b Token list \<Rightarrow> bool" where
  "stops S ts \<longleftrightarrow> (case ts of [] \<Rightarrow> True | t # _ \<Rightarrow> t_kind t = Token_ClosingBracket \<and> sis_keys (t_bracketIds t) \<inter> S \<noteq> {})"

definition item_ok :: "'b Token set \<Rightarrow> nat set \<Rightarrow> 'b AstNode \<Rightarrow> bool" where
  "item_ok U S n \<longleftrightarrow> AstNode_kind n \<noteq> Kind_List \<and> tree23 n \<and> nested U S n"

text \<open>A list or a child has been parsed from the tokens \<open>ts\<close>, of which \<open>rest\<close> remain.\<close>

definition row_parsed :: "'b Token set \<Rightarrow> nat set \<Rightarrow> 'b Token list \<Rightarrow> 'b Token list \<Rightarrow> 'b AstNode list \<Rightarrow> bool" where
  "row_parsed U S ts rest items \<longleftrightarrow> (\<forall>n \<in> set items. item_ok U S n) \<and>
     (\<exists>used. ts = used @ rest \<and> list_all2 leaf_of_token used (concat (map ast_leaves items)))"

definition row_closed :: "nat set \<Rightarrow> 'b Token list \<Rightarrow> 'b AstNode list \<Rightarrow> bool" where
  "row_closed S rest items \<longleftrightarrow> closed_but_last items \<and> (list_all closed_node items \<or> stops S rest)"

lemma PairAstNode_create_tree23:
  "case child of None \<Rightarrow> True | Some c \<Rightarrow> tree23 c \<Longrightarrow> tree23 (PairAstNode_create ob child cb)"
  by (simp add: PairAstNode_create_def Let_def)

lemma PairAstNode_create_item_ok:
  assumes "\<And>c. child = Some c \<Longrightarrow> tree23 c \<and> nested U (S \<union> sis_keys (bn_bracketIds ob)) c \<and> closed_but_last (list_items c)"
    and "\<And>b. cb = Some b \<Longrightarrow> sis_keys (bn_bracketIds b) \<inter> sis_keys (bn_bracketIds ob) \<noteq> {} \<and>
      (\<exists>t \<in> U. t_kind t = Token_ClosingBracket \<and> t_astNode t = Some (BracketAstNode b))"
    and "\<exists>t \<in> U. t_kind t = Token_OpeningBracket \<and> t_astNode t = Some (BracketAstNode ob)"
  shows "item_ok U S (PairAstNode_create ob child cb)"
proof -
  have "tree23 (PairAstNode_create ob child cb)"
    using assms(1) by (intro PairAstNode_create_tree23) (simp split: option.splits)
  moreover have "nested U S (PairAstNode_create ob child cb)" "AstNode_kind (PairAstNode_create ob child cb) \<noteq> Kind_List"
    using assms by (simp_all add: PairAstNode_create_def Let_def split: option.splits)
  ultimately show ?thesis by (simp add: item_ok_def)
qed

lemma row_parsed_Nil: "row_parsed U S ts ts []"
  by (auto simp: row_parsed_def)

lemma row_parsed_append:
  "row_parsed U S ts us xs \<Longrightarrow> row_parsed U S us rest ys \<Longrightarrow> row_parsed U S ts rest (xs @ ys)"
  by (fastforce simp: row_parsed_def intro: list_all2_appendI)

lemma row_closed_snoc:
  "row_closed S rest items \<Longrightarrow> \<not> stops S rest \<Longrightarrow> closed_node n \<or> stops S rest' \<Longrightarrow> row_closed S rest' (items @ [n])"
  by (auto simp: row_closed_def closed_but_last_def butlast_append)

section \<open>Parsing a stream of tokens\<close>

text \<open>
  The contract of a tokenizer for the non-incremental parser: a list of tokens still to come, of which peeking shows the
  first and reading, after a peek, removes it.
\<close>

locale token_stream =
  fixes T :: "('s, 'b) Tokenizer" and tokens :: "'s \<Rightarrow> 'b Token list" and inv :: "'s \<Rightarrow> bool" and ready :: "'s \<Rightarrow> bool"
  assumes peek: "inv s \<Longrightarrow> \<exists>s'. tk_peek T s = (case tokens s of [] \<Rightarrow> None | t # _ \<Rightarrow> Some t, s') \<and> tokens s' = tokens s \<and> ready s'"
    and read: "ready s \<Longrightarrow> \<exists>s'. tk_read T s = (case tokens s of [] \<Rightarrow> None | t # _ \<Rightarrow> Some t, s') \<and> tokens s' = tl (tokens s) \<and> inv s'"
    and ready_inv: "ready s \<Longrightarrow> inv s"
begin

abbreviation plain :: "('s, 'b) Parser \<Rightarrow> bool" where "plain P \<equiv> pa_oldNodeReader P = None \<and> inv (pa_tokenizer P)"


lemma Parser_peek_eq:
  "inv (pa_tokenizer P) \<Longrightarrow> \<exists>P'. Parser_peek T P = (case tokens (pa_tokenizer P) of [] \<Rightarrow> None | t # _ \<Rightarrow> Some t, P') \<and>
     tokens (pa_tokenizer P') = tokens (pa_tokenizer P) \<and> ready (pa_tokenizer P') \<and> inv (pa_tokenizer P') \<and> pa_oldNodeReader P' = pa_oldNodeReader P"
  using peek [of "pa_tokenizer P"] ready_inv by (auto simp: Parser_peek_def)

lemma Parser_read_eq:
  "ready (pa_tokenizer P) \<Longrightarrow> \<exists>P'. Parser_read T P = (case tokens (pa_tokenizer P) of [] \<Rightarrow> None | t # _ \<Rightarrow> Some t, P') \<and>
     tokens (pa_tokenizer P') = tl (tokens (pa_tokenizer P)) \<and> inv (pa_tokenizer P') \<and> pa_oldNodeReader P' = pa_oldNodeReader P"
  using read [of "pa_tokenizer P"] by (auto simp: Parser_read_def)

abbreviation toks :: "('s, 'b) Parser \<Rightarrow> 'b Token list" where "toks P \<equiv> tokens (pa_tokenizer P)"

definition list_parsed :: "'b Token set \<Rightarrow> SmallImmutableSet \<Rightarrow> 'b AstNode list \<Rightarrow> ('s, 'b) Parser \<Rightarrow> 'b AstNode option \<times> ('s, 'b) Parser \<Rightarrow> bool" where
  "list_parsed U opened items P = (\<lambda>(res, P'). plain P' \<and> stops (sis_keys opened) (toks P') \<and>
     (\<exists>new. row_parsed U (sis_keys opened) (toks P) (toks P') new \<and> closed_but_last (items @ new) \<and>
        (case res of None \<Rightarrow> items @ new = [] | Some t \<Rightarrow> tree23 t \<and> list_items t = items @ new)))"

definition child_parsed :: "'b Token set \<Rightarrow> SmallImmutableSet \<Rightarrow> ('s, 'b) Parser \<Rightarrow> 'b AstNode \<times> ('s, 'b) Parser \<Rightarrow> bool" where
  "child_parsed U opened P = (\<lambda>(n, P'). plain P' \<and> length (toks P') < length (toks P) \<and>
     row_parsed U (sis_keys opened) (toks P) (toks P') [n] \<and> (closed_node n \<or> stops (sis_keys opened) (toks P')))"

lemma finish_list_parsed:
  assumes "plain P" "stops (sis_keys opened) (toks P)" "toks P = toks P0" "closed_but_last items"
    and "\<forall>n \<in> set items. AstNode_kind n \<noteq> Kind_List \<and> tree23 n"
  shows "\<exists>x. finish_list items P = Some (Inr x) \<and> list_parsed U opened items P0 x"
proof (cases "items = []")
  case True
  then show ?thesis using assms row_parsed_Nil
    by (auto simp: finish_list_def concat23TreesOfSameHeight_def list_parsed_def closed_but_last_def intro!: exI [of _ "[]"])
next
  case False
  have "\<forall>n \<in> set items. tree23 n \<and> AstNode_listHeight n = 0" using assms(5) tree23_leaf_height by blast
  from concat23TreesOfSameHeight_correct [OF False this, of "pa_createImmutableLists P"] obtain t where
    t: "concat23TreesOfSameHeight items (pa_createImmutableLists P) = Inr (Some t)" "tree23 t" "list_items t = concat (map list_items items)" by blast
  have "map list_items items = map (\<lambda>n. [n]) items"
    using assms(5) by (intro map_cong refl) (simp add: list_items_leaf)
  moreover have "concat (map (\<lambda>n. [n]) items) = items" by (induction items) auto
  ultimately have "list_items t = items" using t(3) by (simp only:)
  then show ?thesis using t assms row_parsed_Nil
    by (auto simp: finish_list_def list_parsed_def intro!: exI [of _ "[]"])
qed

lemma list_parsed_step:
  assumes "child_parsed U opened P (n, P')" "list_parsed U opened (items @ [n]) P' x" shows "list_parsed U opened items P x"
proof -
  obtain res P'' where x: "x = (res, P'')" by fastforce
  with assms(2) obtain new where "row_parsed U (sis_keys opened) (toks P') (toks P'') new" "closed_but_last (items @ [n] @ new)"
    "plain P''" "stops (sis_keys opened) (toks P'')"
    "case res of None \<Rightarrow> items @ [n] @ new = [] | Some t \<Rightarrow> tree23 t \<and> list_items t = items @ [n] @ new"
    by (auto simp: list_parsed_def split: option.splits)
  moreover have "row_parsed U (sis_keys opened) (toks P) (toks P') [n]" using assms(1) by (simp add: child_parsed_def)
  ultimately show ?thesis using x row_parsed_append [of _ _ "toks P" "toks P'" "[n]"]
    by (auto simp: list_parsed_def intro!: exI [of _ "n # new"] split: option.splits)
qed

lemma child_leaf_parsed:
  assumes "toks P = t # ts" "toks P' = ts" "plain P'" "item_ok U (sis_keys opened) n" "leaf_of_token t n"
    "ast_leaves n = [n]" "closed_node n"
  shows "child_parsed U opened P (n, P')"
  using assms by (auto simp: child_parsed_def row_parsed_def intro!: exI [of _ "[t]"])

text \<open>A pair, from the list inside it and the token after that.\<close>

lemma child_pair_parsed:
  assumes "toks P = t # ts" "toks P1 = ts" "list_parsed U opened' [] P1 (child, P2)" "sis_keys opened' = sis_keys opened \<union> sis_keys (t_bracketIds t)"
    and "token_ok t" "t \<in> U" "t_kind t = Token_OpeningBracket" "t_astNode t = Some (BracketAstNode ob)" "plain P'"
    and "case cb of None \<Rightarrow> toks P' = toks P2 \<and> stops (sis_keys opened) (toks P2)
      | Some b \<Rightarrow> (\<exists>n. toks P2 = n # toks P' \<and> n \<in> U \<and> t_kind n = Token_ClosingBracket \<and> token_ok n \<and> t_astNode n = Some (BracketAstNode b) \<and> sis_keys (bn_bracketIds b) \<inter> sis_keys (t_bracketIds t) \<noteq> {})"
  shows "child_parsed U opened P (PairAstNode_create ob child cb, P')"
proof -
  obtain new used where new: "\<forall>n \<in> set new. item_ok U (sis_keys opened') n" "ts = used @ toks P2" "list_all2 leaf_of_token used (concat (map ast_leaves new))"
    "closed_but_last new" "case child of None \<Rightarrow> new = [] | Some t \<Rightarrow> tree23 t \<and> list_items t = new"
    using assms(2,3) unfolding list_parsed_def row_parsed_def case_prod_conv append_Nil by blast
  let ?n = "PairAstNode_create ob child cb"
  have ids: "bn_bracketIds ob = t_bracketIds t" using assms(5,7,8) by (simp add: token_ok_def)
  obtain l m where n: "?n = PairAstNode l ob child cb m" by (auto simp: PairAstNode_create_def Let_def)
  have "item_ok U (sis_keys opened) ?n"
  proof (rule PairAstNode_create_item_ok)
    show "tree23 c \<and> nested U (sis_keys opened \<union> sis_keys (bn_bracketIds ob)) c \<and> closed_but_last (list_items c)" if "child = Some c" for c
    proof -
      have c: "tree23 c" "list_items c = new" using new(5) that by auto
      have "nested U (sis_keys opened') c" unfolding nested_items [of _ _ c] c(2) using new(1) by (simp add: item_ok_def)
      then show ?thesis using c new(4) ids assms(4) by simp
    qed
    show "sis_keys (bn_bracketIds b) \<inter> sis_keys (bn_bracketIds ob) \<noteq> {} \<and> (\<exists>t \<in> U. t_kind t = Token_ClosingBracket \<and> t_astNode t = Some (BracketAstNode b))"
      if "cb = Some b" for b
      using assms(10) ids that by auto
    show "\<exists>t \<in> U. t_kind t = Token_OpeningBracket \<and> t_astNode t = Some (BracketAstNode ob)" using assms(6-8) by blast
  qed
  moreover have "list_all2 leaf_of_token used (case child of None \<Rightarrow> [] | Some c \<Rightarrow> ast_leaves c)"
    using new(3,5) ast_leaves_items [of "the child"] by (cases child) simp_all
  then have "list_all2 leaf_of_token (t # used @ (case cb of None \<Rightarrow> [] | Some b \<Rightarrow> [hd (toks P2)])) (ast_leaves ?n)"
    using assms(8,10) by (auto simp: n leaf_of_token_def intro!: list_all2_appendI split: option.splits)
  moreover have "toks P = (t # used @ (case cb of None \<Rightarrow> [] | Some b \<Rightarrow> [hd (toks P2)])) @ toks P'"
    using assms(1,10) new(2) by (auto split: option.splits)
  ultimately have "row_parsed U (sis_keys opened) (toks P) (toks P') [?n]" unfolding row_parsed_def by fastforce
  moreover have "length (toks P') < length (toks P)" using assms(1,10) new(2) by (auto split: option.splits)
  moreover have "closed_node ?n \<or> stops (sis_keys opened) (toks P')" using assms(10) by (auto simp: n split: option.splits)
  ultimately show ?thesis using assms(9) by (simp add: child_parsed_def)
qed

lemma stops_iff_intersects:
  assumes "token_ok t" "sis_wf opened"
  shows "t_kind t = Token_ClosingBracket \<and> SmallImmutableSet_intersects (t_bracketIds t) opened \<longleftrightarrow> stops (sis_keys opened) (t # ts)"
  using assms by (simp add: stops_def sis.intersects token_ok_def)

lemma closes_iff:
  assumes "token_ok t" "t_kind t = Token_OpeningBracket" "token_ok n" "t_kind n = Token_ClosingBracket"
  shows "closes t n \<longleftrightarrow> sis_keys (t_bracketIds n) \<inter> sis_keys (t_bracketIds t) \<noteq> {}"
  using assms by (auto simp: closes_def sis.intersects token_ok_def)

lemma token_bracket:
  "token_ok t \<Longrightarrow> t_kind t \<noteq> Token_Text \<Longrightarrow> \<exists>b. t_astNode t = Some (BracketAstNode b) \<and> bn_bracketIds b = t_bracketIds t"
  by (auto simp: token_ok_def split: TokenKind.splits option.splits AstNode.splits)

lemma parseChild_step:
  assumes IH: "\<And>opened level items P. plain P \<Longrightarrow> \<forall>t \<in> set (toks P). token_ok t \<and> t \<in> U \<Longrightarrow> sis_wf opened \<Longrightarrow> 2 * length (toks P) < fuel \<Longrightarrow>
      \<forall>n \<in> set items. AstNode_kind n \<noteq> Kind_List \<and> tree23 n \<Longrightarrow> row_closed (sis_keys opened) (toks P) items \<Longrightarrow>
      \<exists>x. parseList fuel T opened level items P = Some (Inr x) \<and> list_parsed U opened items P x"
    and "plain P" "\<forall>t \<in> set (toks P). token_ok t \<and> t \<in> U" "sis_wf opened" "2 * length (toks P) \<le> Suc fuel"
    and "ready (pa_tokenizer P)" "toks P \<noteq> []" "\<not> stops (sis_keys opened) (toks P)"
  shows "\<exists>x. parseChild (Suc fuel) T opened level P = Some (Inr x) \<and> child_parsed U opened P x"
proof -
  obtain t ts where ts: "toks P = t # ts" using assms(7) by (cases "toks P") auto
  have t: "token_ok t" "sis_wf (t_bracketIds t)" "t \<in> U" using assms(3) ts by (auto simp: token_ok_def)
  let ?P = "P\<lparr>pa_itemsConstructed := pa_itemsConstructed P + 1\<rparr>"
  obtain P1 where P1: "Parser_read T ?P = (Some t, P1)" "toks P1 = ts" "plain P1"
    using Parser_read_eq [of ?P] assms(2,6) ts by auto
  show ?thesis
  proof (cases "t_kind t")
    case Token_Text
    then have "t_astNode t = Some (TextAstNode (t_length t))" using t by (simp add: token_ok_def)
    then show ?thesis using Token_Text P1 ts
      by (auto simp: leaf_of_token_def item_ok_def intro!: child_leaf_parsed)
  next
    case Token_ClosingBracket
    then have "sis_keys (t_bracketIds t) \<inter> sis_keys opened = {}" using assms(8) ts by (auto simp: stops_def)
    then show ?thesis using Token_ClosingBracket P1 ts t
      by (auto simp: leaf_of_token_def item_ok_def intro!: child_leaf_parsed)
  next
    case Token_OpeningBracket
    obtain ob where ob: "t_astNode t = Some (BracketAstNode ob)" "bn_bracketIds ob = t_bracketIds t"
      using token_bracket [OF t(1)] Token_OpeningBracket by auto
    show ?thesis
    proof (cases "level > 300")
      case True
      then show ?thesis using Token_OpeningBracket P1 ts
        by (auto simp: leaf_of_token_def item_ok_def intro!: child_leaf_parsed)
    next
      case False
      let ?S = "SmallImmutableSet_merge opened (t_bracketIds t)"
      have S: "sis_wf ?S" "sis_keys ?S = sis_keys opened \<union> sis_keys (t_bracketIds t)" using assms(4) t(2) by (simp_all add: sis.merge)
      have "row_closed (sis_keys ?S) (toks P1) []" by (simp add: row_closed_def closed_but_last_def)
      then obtain child P2 where c: "parseList fuel T ?S (level + 1) [] P1 = Some (Inr (child, P2))" "list_parsed U ?S [] P1 (child, P2)"
        using IH [of P1 ?S "[]" "level + 1"] P1 assms(3,5) S(1) ts by auto
      obtain P3 where P3: "Parser_peek T P2 = (case toks P2 of [] \<Rightarrow> None | t # _ \<Rightarrow> Some t, P3)" "toks P3 = toks P2" "ready (pa_tokenizer P3)"
        "plain P3" using Parser_peek_eq [of P2] c(2) by (auto simp: list_parsed_def)
      note pair = child_pair_parsed [OF ts P1(2) c(2) S(2) t(1,3) Token_OpeningBracket ob(1)]
      have stop: "stops (sis_keys ?S) (toks P2)" and ok: "\<forall>t \<in> set (toks P2). token_ok t \<and> t \<in> U"
        using c(2) P1(2) assms(3) ts by (auto simp: list_parsed_def row_parsed_def)
      show ?thesis
      proof (cases "\<exists>n ns. toks P2 = n # ns \<and> closes t n")
        case True
        then obtain n ns where n: "toks P2 = n # ns" "closes t n" by blast
        then have n': "token_ok n" "t_kind n = Token_ClosingBracket" "n \<in> U" using ok by (auto simp: closes_def)
        then obtain cb where cb: "t_astNode n = Some (BracketAstNode cb)" "bn_bracketIds cb = t_bracketIds n" using token_bracket by force
        obtain P4 where P4: "Parser_read T P3 = (Some n, P4)" "toks P4 = ns" "plain P4"
          using Parser_read_eq [OF P3(3)] P3 n by auto
        have "sis_keys (bn_bracketIds cb) \<inter> sis_keys (t_bracketIds t) \<noteq> {}"
          using closes_iff [OF t(1) Token_OpeningBracket n'(1,2)] n(2) cb(2) by simp
        then have "child_parsed U opened P (PairAstNode_create ob child (Some cb), P4)"
          using P4 n n' cb by (intro pair) auto
        then show ?thesis using Token_OpeningBracket False P1 c P3(1) n ob cb P4 by (auto split: prod.splits)
      next
        case no: False
        have "stops (sis_keys opened) (toks P2)"
        proof (cases "toks P2")
          case (Cons n ns)
          then have "t_kind n = Token_ClosingBracket" using stop by (simp add: stops_def)
          then have "sis_keys (t_bracketIds n) \<inter> sis_keys (t_bracketIds t) = {}"
            using closes_iff [OF t(1) Token_OpeningBracket, of n] ok no Cons by auto
          then show ?thesis using stop S(2) Cons by (auto simp: stops_def)
        qed (simp add: stops_def)
        then have "child_parsed U opened P (PairAstNode_create ob child None, P3)" using P3 by (intro pair) auto
        then show ?thesis using Token_OpeningBracket False P1 c P3(1) ob no by (auto split: list.splits prod.splits)
      qed
    qed
  qed
qed

text \<open>Enough fuel: a list takes one call for every child and one for its end, a child one call.\<close>

lemma parseList_correct:
  assumes "plain P" "\<forall>t \<in> set (toks P). token_ok t \<and> t \<in> U" "sis_wf opened" "2 * length (toks P) < fuel"
    and "\<forall>n \<in> set items. AstNode_kind n \<noteq> Kind_List \<and> tree23 n" "row_closed (sis_keys opened) (toks P) items"
  shows "\<exists>x. parseList fuel T opened level items P = Some (Inr x) \<and> list_parsed U opened items P x"
  using assms
proof (induction fuel arbitrary: opened level items P rule: less_induct)
  case (less fuel)
  obtain f where f: "fuel = Suc f" using less.prems(4) by (cases fuel) auto
  obtain P1 where P1: "Parser_peek T P = (case toks P of [] \<Rightarrow> None | t # _ \<Rightarrow> Some t, P1)" "toks P1 = toks P" "ready (pa_tokenizer P1)"
    "plain P1" using Parser_peek_eq [of P] less.prems(1) by auto
  have cache: "tryReadChildFromCache f T opened P = Some (Inr (None, P))" using less.prems(1) by (simp add: tryReadChildFromCache_def)
  show ?case
  proof (cases "stops (sis_keys opened) (toks P)")
    case True
    have "parseList fuel T opened level items P = finish_list items P1"
      using True stops_iff_intersects [OF _ less.prems(3)] less.prems(2)
      by (cases "toks P") (auto simp: f cache P1(1))
    then show ?thesis using finish_list_parsed [of P1 opened P items] P1 True less.prems(5,6) by (simp add: row_closed_def)
  next
    case False
    then obtain t ts where ts: "toks P = t # ts" by (cases "toks P") (auto simp: stops_def)
    then obtain g where g: "f = Suc g" using less.prems(4) f by (cases f) auto
    have "\<exists>x. parseChild (Suc g) T opened (level + 1) P1 = Some (Inr x) \<and> child_parsed U opened P1 x"
      by (rule parseChild_step) (use less.IH [of g] less.prems P1 False ts f g in auto)
    then obtain n P2 where n: "parseChild f T opened (level + 1) P1 = Some (Inr (n, P2))" "child_parsed U opened P1 (n, P2)" using g by auto
    then have n': "AstNode_kind n \<noteq> Kind_List" "tree23 n" "plain P2" "length (toks P2) < length (toks P)"
      "set (toks P2) \<subseteq> set (toks P)" "closed_node n \<or> stops (sis_keys opened) (toks P2)"
      using P1(2) by (auto simp: child_parsed_def row_parsed_def item_ok_def)
    then have "\<exists>x. parseList f T opened level (items @ [n]) P2 = Some (Inr x) \<and> list_parsed U opened (items @ [n]) P2 x"
      using less.prems f row_closed_snoc [OF less.prems(6) False] by (intro less.IH) auto
    moreover have "parseList fuel T opened level items P = parseList f T opened level (items @ [n]) P2"
      using False stops_iff_intersects [OF _ less.prems(3)] less.prems(2) n(1) n'(1)
      by (auto simp: f cache P1(1) ts is_empty_list_def)
    moreover have "child_parsed U opened P (n, P2)" using n(2) P1(2) by (simp add: child_parsed_def)
    ultimately show ?thesis using list_parsed_step by metis
  qed
qed

lemma parseDocument_correct:
  assumes "inv s" "\<forall>t \<in> set (tokens s). token_ok t" "2 * length (tokens s) < fuel"
  shows "\<exists>t. parseDocument fuel T s edits None imm = Some (Inr t) \<and>
    (if tokens s = [] then t = ListAstNode_getEmpty else tree23 t) \<and> list_all2 leaf_of_token (tokens s) (ast_leaves t) \<and>
    nested (set (tokens s)) {} t \<and> closed_but_last (list_items t) \<and>
    (lengths_fit (map t_length (tokens s)) \<longrightarrow> AstNode_length t = foldl lengthAdd lengthZero (map t_length (tokens s)))"
proof -
  let ?P = "\<lparr>pa_tokenizer = s, pa_oldNodeReader = None, pa_positionMapper = new_BeforeEditPositionMapper edits, pa_itemsConstructed = 0,
    pa_itemsFromCache = 0, pa_createImmutableLists = imm\<rparr>"
  have S: "sis_wf SmallImmutableSet_getEmpty" "sis_keys SmallImmutableSet_getEmpty = {}" by (simp_all add: sis_getEmpty)
  have "\<exists>x. parseList fuel T SmallImmutableSet_getEmpty 0 [] ?P = Some (Inr x) \<and> list_parsed (set (tokens s)) SmallImmutableSet_getEmpty [] ?P x"
    by (rule parseList_correct) (use assms S in \<open>simp_all add: row_closed_def closed_but_last_def\<close>)
  then obtain r P' where r: "parseList fuel T SmallImmutableSet_getEmpty 0 [] ?P = Some (Inr (r, P'))"
    "list_parsed (set (tokens s)) SmallImmutableSet_getEmpty [] ?P (r, P')" by auto
  then have "toks P' = []" by (auto simp: list_parsed_def stops_def S split: list.splits)
  with r(2) obtain new where new: "\<forall>n \<in> set new. item_ok (set (tokens s)) {} n" "list_all2 leaf_of_token (tokens s) (concat (map ast_leaves new))"
    "closed_but_last new" "case r of None \<Rightarrow> new = [] | Some t \<Rightarrow> tree23 t \<and> list_items t = new"
    unfolding list_parsed_def row_parsed_def S case_prod_conv append_Nil by auto
  define t where "t = (case r of None \<Rightarrow> ListAstNode_getEmpty | Some n \<Rightarrow> n)"
  have "parseDocument fuel T s edits None imm = Some (Inr t)"
    using r(1) by (simp add: parseDocument_def new_Parser_def Parser_parseDocument_def t_def)
  moreover have items: "list_items t = new" using new(4) by (auto simp: t_def ListAstNode_getEmpty_def split: option.splits)
  then have "list_all2 leaf_of_token (tokens s) (ast_leaves t)" using new(2) by (simp only: ast_leaves_items)
  moreover have "nested (set (tokens s)) {} t" unfolding nested_items [of _ _ t] items using new(1) by (simp add: item_ok_def)
  moreover have "tree23 t \<and> tokens s \<noteq> [] \<or> t = ListAstNode_getEmpty \<and> tokens s = []"
  proof (cases r)
    case None
    then show ?thesis using new(2,4) by (simp add: t_def)
  next
    case (Some u)
    then have "tree23 t" using new(4) by (simp add: t_def)
    then show ?thesis using \<open>list_all2 leaf_of_token (tokens s) (ast_leaves t)\<close> ast_leaves_nonempty [of t] by auto
  qed
  moreover have "map AstNode_length (ast_leaves t) = map t_length (tokens s)"
    using leaf_of_token_length [OF _ \<open>list_all2 leaf_of_token (tokens s) (ast_leaves t)\<close>] assms(2) by simp
  then have "AstNode_length t = foldl lengthAdd lengthZero (map t_length (tokens s))" if "lengths_fit (map t_length (tokens s))"
    using that calculation(4) ast_leaves_length [of t] by (auto simp: ListAstNode_getEmpty_def)
  ultimately show ?thesis using new(3) items by auto
qed

end

text \<open>The tokens the fast tokenizer still has: an undefined token ends the stream, and the interface is about streams without one.\<close>

definition ft_rest :: "'b FastTokenizer \<Rightarrow> 'b Token list" where
  "ft_rest s = map the (drop (ft_idx s) (ft_tokens s))"

definition ft_inv :: "'b FastTokenizer \<Rightarrow> bool" where
  "ft_inv s \<longleftrightarrow> None \<notin> set (drop (ft_idx s) (ft_tokens s))"

lemma ft_head:
  "ft_inv s \<Longrightarrow> Option.bind (arr_at (ft_tokens s) (int (ft_idx s))) id = (case ft_rest s of [] \<Rightarrow> None | t # _ \<Rightarrow> Some t)"
  by (cases "ft_idx s < length (ft_tokens s)")
    (auto simp: arr_at_def ft_rest_def ft_inv_def Cons_nth_drop_Suc [symmetric])

interpretation fast: token_stream FastTokenizer_methods ft_rest ft_inv ft_inv
proof
  fix s :: "'a FastTokenizer"
  assume s: "ft_inv s"
  show "\<exists>s'. tk_peek FastTokenizer_methods s = (case ft_rest s of [] \<Rightarrow> None | t # _ \<Rightarrow> Some t, s') \<and> ft_rest s' = ft_rest s \<and> ft_inv s'"
    using s ft_head [OF s] by (simp add: FastTokenizer_methods_def FastTokenizer_peek_def)
  have "drop (Suc (ft_idx s)) (ft_tokens s) = tl (drop (ft_idx s) (ft_tokens s))" by (simp add: drop_Suc tl_drop)
  moreover have "set (tl xs) \<subseteq> set xs" for xs :: "'a Token option list" by (cases xs) auto
  ultimately show "\<exists>s'. tk_read FastTokenizer_methods s = (case ft_rest s of [] \<Rightarrow> None | t # _ \<Rightarrow> Some t, s') \<and> ft_rest s' = tl (ft_rest s) \<and> ft_inv s'"
    using s ft_head [OF s] by (auto simp: FastTokenizer_methods_def FastTokenizer_read_def ft_rest_def ft_inv_def map_tl)
qed

text \<open>A peeking tokenizer over a reader of the tokens \<open>rest r\<close>.\<close>

definition tbt_tokens :: "('r \<Rightarrow> 'b Token list) \<Rightarrow> ('r, 'b) TextBufferTokenizer \<Rightarrow> 'b Token list" where
  "tbt_tokens rest s = (if tbt_didPeek s then (case tbt_peeked s of None \<Rightarrow> [] | Some t \<Rightarrow> t # rest (tbt_reader s)) else rest (tbt_reader s))"

definition tbt_inv :: "('r \<Rightarrow> 'b Token list) \<Rightarrow> ('r, 'b) TextBufferTokenizer \<Rightarrow> bool" where
  "tbt_inv rest s \<longleftrightarrow> (tbt_didPeek s \<longrightarrow> tbt_peeked s = None \<longrightarrow> rest (tbt_reader s) = [])"

lemma TextBufferTokenizer_stream:
  assumes "\<And>r. \<exists>r'. rd_read R r = (case rest r of [] \<Rightarrow> None | t # _ \<Rightarrow> Some t, r') \<and> rest r' = tl (rest r)"
  shows "token_stream (TextBufferTokenizer_methods R) (tbt_tokens rest) (tbt_inv rest) (\<lambda>s. tbt_inv rest s \<and> tbt_didPeek s)"
proof
  fix s :: "('a, 'b) TextBufferTokenizer"
  obtain r' where r': "rd_read R (tbt_reader s) = (case rest (tbt_reader s) of [] \<Rightarrow> None | t # _ \<Rightarrow> Some t, r')" "rest r' = tl (rest (tbt_reader s))"
    using assms by blast
  note defs = TextBufferTokenizer_methods_def TextBufferTokenizer_peek_def TextBufferTokenizer_read_def tbt_tokens_def tbt_inv_def Let_def
  show "\<exists>s'. tk_peek (TextBufferTokenizer_methods R) s = (case tbt_tokens rest s of [] \<Rightarrow> None | t # _ \<Rightarrow> Some t, s') \<and>
      tbt_tokens rest s' = tbt_tokens rest s \<and> tbt_inv rest s' \<and> tbt_didPeek s'" if "tbt_inv rest s"
    using that r' by (auto simp: defs split: list.splits option.splits)
  show "\<exists>s'. tk_read (TextBufferTokenizer_methods R) s = (case tbt_tokens rest s of [] \<Rightarrow> None | t # _ \<Rightarrow> Some t, s') \<and>
      tbt_tokens rest s' = tl (tbt_tokens rest s) \<and> tbt_inv rest s'" if "tbt_inv rest s \<and> tbt_didPeek s"
    using that r' by (intro exI [of _ "snd (tk_read (TextBufferTokenizer_methods R) s)"]) (auto simp: defs split: list.splits option.splits)
qed auto

section \<open>The parse of a document\<close>

text \<open>A document to parse: no tokens, or the root of a tree over all of them.\<close>

definition document_ast :: "'b Token list \<Rightarrow> 'b AstNode \<Rightarrow> bool" where
  "document_ast ts t \<longleftrightarrow> (if ts = [] then t = ListAstNode_getEmpty else tree23 t) \<and> list_all2 leaf_of_token ts (ast_leaves t) \<and>
     nested (set ts) {} t \<and> closed_but_last (list_items t) \<and>
     (lengths_fit (map t_length ts) \<longrightarrow> AstNode_length t = foldl lengthAdd lengthZero (map t_length ts))"



text \<open>
  Reading twice without a peek between delivers the token that was peeked at before the first read again: the field \<open>peeked\<close> is
  not reset by \<open>read\<close>.
\<close>

theorem TextBufferTokenizer_read_repeats_peeked:
  assumes "TextBufferTokenizer_peek R s = (Some t, s1)" "TextBufferTokenizer_read R s1 = (x, s2)" "TextBufferTokenizer_read R s2 = (y, s3)"
  shows "x = Some t \<and> y = Some t"
  using assms by (auto simp: TextBufferTokenizer_peek_def TextBufferTokenizer_read_def Let_def split: if_splits option.splits prod.splits)

end
