(* ===== verification/Bracket_Document.thy ===== *)
theory Bracket_Document
  imports Bracket_Parser
begin

text \<open>
  The tree of the brackets of a text, from the configuration of its language to the parsed document: the parts of
  \<open>src/vs/editor/common/model/bracketPairsTextModelPart/bracketPairsTree/\<close> put together the way the constructor of \<open>BracketPairsTree\<close> does for the first tree, which is built
  from the text alone.
\<close>

section \<open>Pieces of a text\<close>

lemma lengthOfString_column:
  assumes "int (length s) < factor" shows "lengthOfString s mod factor \<le> int (length s)"
proof -
  have "int (length (last (splitLines s))) < factor" using assms length_last_splitLines [of s] by linarith
  then have "lo_columnCount (lengthToObj (lengthOfString s)) = lo_columnCount (lengthOfStringObj s)" by (simp only: lengthToObj_lengthOfString)
  then have "lengthOfString s mod factor = int (length (last (splitLines s)))" by (simp add: lengthOfStringObj_def Let_def)
  then show ?thesis using length_last_splitLines [of s] by simp
qed

lemma lengths_fit_pieces:
  assumes "int (length (concat ps)) < factor" shows "lengths_fit (map lengthOfString ps)"
proof -
  have "sum_list (map (\<lambda>p. lengthOfString p mod factor) ps) \<le> int (length (concat ps))" using assms
  proof (induction ps)
    case (Cons p ps)
    then have "lengthOfString p mod factor \<le> int (length p)" by (intro lengthOfString_column) simp
    with Cons show ?case by simp
  qed simp
  then show ?thesis using assms by (auto simp: lengths_fit_def lengthOfString_nonneg comp_def)
qed

lemma total_of_pieces:
  assumes "int (length (concat ps)) < factor" "CarriageReturn \<notin> set (concat ps)"
  shows "foldl lengthAdd lengthZero (map lengthOfString ps) = lengthOfString (concat ps)"
  using assms
proof (induction ps rule: rev_induct)
  case Nil
  then show ?case by (simp add: lengthOfString_def toLength_def lengthZero_def)
next
  case (snoc p ps)
  have "last (concat ps) \<noteq> CarriageReturn" if "concat ps \<noteq> []" using last_in_set [OF that] snoc.prems(2) by auto
  then have "lengthOfString (concat ps @ p) = lengthAdd (lengthOfString (concat ps)) (lengthOfString p)"
    using snoc.prems(1) by (intro lengthOfString_append) auto
  then show ?case using snoc by simp
qed

lemma length_le_concat: "[] \<notin> set ps \<Longrightarrow> length ps \<le> length (concat ps)"
proof (induction ps)
  case (Cons p ps)
  then show ?case by (cases p) auto
qed simp

section \<open>Pairs of a tree\<close>

fun pair_nodes :: "'b AstNode \<Rightarrow> ('b BracketNode \<times> 'b BracketNode) list" where
  "pair_nodes (PairAstNode _ ob child cb _) =
     (case cb of None \<Rightarrow> [] | Some b \<Rightarrow> [(ob, b)]) @ (case child of None \<Rightarrow> [] | Some c \<Rightarrow> pair_nodes c)"
| "pair_nodes (TwoThreeListAstNode _ _ _ a b c _) = pair_nodes a @ pair_nodes b @ (case c of None \<Rightarrow> [] | Some c \<Rightarrow> pair_nodes c)"
| "pair_nodes (ArrayListAstNode _ _ _ cs _) = concat (map pair_nodes cs)"
| "pair_nodes n = []"

lemma nested_pairs:
  "nested U S t \<Longrightarrow> (ob, cb) \<in> set (pair_nodes t) \<Longrightarrow> sis_keys (bn_bracketIds cb) \<inter> sis_keys (bn_bracketIds ob) \<noteq> {} \<and>
     (\<exists>t \<in> U. t_kind t = Token_OpeningBracket \<and> t_astNode t = Some (BracketAstNode ob)) \<and>
     (\<exists>t \<in> U. t_kind t = Token_ClosingBracket \<and> t_astNode t = Some (BracketAstNode cb))"
  by (induction U S t rule: nested.induct) (auto split: option.splits)

section \<open>The first tree of a document\<close>

text \<open>The matches in a text whose language has the tokens \<open>bt\<close>.\<close>

definition bracket_segment :: "(jsstring \<Rightarrow> jsstring) \<Rightarrow> BracketTokens \<Rightarrow> jsstring \<times> jsstring \<Rightarrow> bool" where
  "bracket_segment toLowerCase bt = (\<lambda>(g, v). LineFeed \<notin> set g \<and> (v = [LineFeed] \<or> v \<noteq> [] \<and> LineFeed \<notin> set v \<and>
     toLowerCase v \<in> fst ` set (bt_map bt) \<and> length (toLowerCase v) = length v))"

definition initialAst :: "nat \<Rightarrow> (jsstring \<Rightarrow> jsstring) \<Rightarrow> BracketTokens \<Rightarrow> jsstring \<Rightarrow> (number \<times> jsstring) list \<Rightarrow> BracketKind AstNode result option" where
  "initialAst fuel toLowerCase brackets content matches =
     parseDocument fuel FastTokenizer_methods (new_FastTokenizer content matches (\<lambda>v. BracketTokens_getToken toLowerCase v brackets)) [] None True"

lemma language_tokens:
  assumes "tokens_ok S l Os Cs (bt_map bt, p)" "BracketTokens_getToken lower v bt = Some t"
  shows "token_ok t" "t_length t = toLength 0 (int (length (lower v)))"
    and "t_kind t = Token_OpeningBracket \<Longrightarrow> opening_ok l p (lower v) t" "t_kind t = Token_ClosingBracket \<Longrightarrow> closing_ok S l p (lower v) t"
proof -
  have "if lower v \<in> Cs then closing_ok S l p (lower v) t else opening_ok l p (lower v) t"
    using assms map_of_SomeD [of "bt_map bt" "lower v" t] unfolding tokens_ok_def entries_ok_def BracketTokens_getToken_def case_prod_conv by blast
  then show "token_ok t" "t_length t = toLength 0 (int (length (lower v)))"
    and "t_kind t = Token_OpeningBracket \<Longrightarrow> opening_ok l p (lower v) t" "t_kind t = Token_ClosingBracket \<Longrightarrow> closing_ok S l p (lower v) t"
    using opening_ok_token [of l p "lower v" t] closing_ok_token [of S l p "lower v" t] by (auto split: if_splits)
qed

lemma text_token_ok: "token_ok (text_token len)"
  by (simp add: token_ok_def text_token_def sis_getEmpty)

lemma bracket_segment_ok:
  assumes "tokens_ok S l Os Cs (bt_map bt, p)" "bracket_segment lower bt x"
  shows "segment_ok (\<lambda>v. BracketTokens_getToken lower v bt) x"
proof -
  obtain g v where x: "x = (g, v)" by fastforce
  have "\<exists>t. BracketTokens_getToken lower v bt = Some t \<and> t_length t = toLength 0 (int (length v))"
    if v: "lower v \<in> fst ` set (bt_map bt)" "length (lower v) = length v"
  proof -
    have "BracketTokens_getToken lower v bt \<noteq> None" using v(1) by (simp add: BracketTokens_getToken_def map_of_eq_None_iff)
    then obtain t where t: "BracketTokens_getToken lower v bt = Some t" by blast
    then show ?thesis using language_tokens(2) [OF assms(1) t] v(2) by simp
  qed
  then show ?thesis using assms(2) x by (auto simp: bracket_segment_def segment_ok_def)
qed

lemma language_pair:
  assumes "tokens_ok S l Os Cs (bt_map bt, p)" "U \<subseteq> range text_token \<union> {t. \<exists>v. BracketTokens_getToken lower v bt = Some t}"
    and "tq \<in> U" "t_kind tq = Token_OpeningBracket" "t_astNode tq = Some (BracketAstNode ob)"
    and "tc \<in> U" "t_kind tc = Token_ClosingBracket" "t_astNode tc = Some (BracketAstNode cb)"
    and "sis_keys (bn_bracketIds cb) \<inter> sis_keys (bn_bracketIds ob) \<noteq> {}"
  shows "\<exists>q c. bn_bracketInfo ob = Opening q \<and> bn_bracketInfo cb = Closing c \<and> (obk_bracketText q, cbk_bracketText c) \<in> S"
proof -
  have "tq \<notin> range text_token" "tc \<notin> range text_token" using assms(4,7) by (auto simp: text_token_def)
  then obtain v w where vw: "BracketTokens_getToken lower v bt = Some tq" "BracketTokens_getToken lower w bt = Some tc" using assms(2,3,6) by blast
  have ok: "opening_ok l p (lower v) tq" "closing_ok S l p (lower w) tc"
    using language_tokens(3) [OF assms(1) vw(1)] language_tokens(4) [OF assms(1) vw(2)] assms(4,7) by auto
  then obtain q c where "bn_bracketInfo ob = Opening q" "obk_bracketText q = lower v" "bn_bracketIds ob = t_bracketIds tq"
    "bn_bracketInfo cb = Closing c" "cbk_bracketText c = lower w" "bn_bracketIds cb = t_bracketIds tc"
    using assms(5,8) by (auto simp: opening_ok_def closing_ok_def)
  moreover have "dkp_wf p" using assms(1) by (simp add: tokens_ok_def)
  ultimately show ?thesis using opening_closing_intersect [OF _ ok] assms(9) by auto
qed



end
