(* ===== verification/Diff_Sequence.thy ===== *)
theory Diff_Sequence
  imports Offset_Range
begin

text \<open>
  The data of the diff algorithms, \<open>src/vs/editor/common/diff/defaultLinesDiffComputer/algorithms/diffAlgorithm.ts\<close>: a difference
  pairs a range of the first sequence with a range of the second. The contract of all algorithms and of the passes that rework their results is that the
  differences are in order and that the elements between them are the same in both sequences.
\<close>

section \<open>Sequences and differences\<close>

text \<open>
  \<open>getElement\<close> outside a sequence is \<open>undefined\<close>. The method \<open>getBoundaryScore\<close> may be missing, and may throw for an
  offset that is not one of the sequence.
\<close>

record 'e ISequence =
  sq_getElement :: "number \<Rightarrow> 'e option"
  sq_length :: number
  sq_getBoundaryScore :: "(number \<Rightarrow> number result) option"
  sq_isStronglyEqual :: "number \<Rightarrow> number \<Rightarrow> bool"

record SequenceDiff =
  seq1Range :: OffsetRange
  seq2Range :: OffsetRange

record DiffAlgorithmResult =
  diffs :: "SequenceDiff list"
  hitTimeout :: bool

definition new_SequenceDiff :: "OffsetRange \<Rightarrow> OffsetRange \<Rightarrow> SequenceDiff" where
  "new_SequenceDiff r1 r2 = \<lparr>seq1Range = r1, seq2Range = r2\<rparr>"

text \<open>\<open>new SequenceDiff(new OffsetRange(s1, e1), new OffsetRange(s2, e2))\<close>.\<close>

definition diff_of :: "number \<Rightarrow> number \<Rightarrow> number \<Rightarrow> number \<Rightarrow> SequenceDiff result" where
  "diff_of s1 e1 s2 e2 =
     result_bind (new_OffsetRange s1 e1) (\<lambda>r1. result_map (new_SequenceDiff r1) (new_OffsetRange s2 e2))"

definition DiffAlgorithmResult_trivial :: "'e ISequence \<Rightarrow> 'e ISequence \<Rightarrow> DiffAlgorithmResult result" where
  "DiffAlgorithmResult_trivial q1 q2 =
     result_map (\<lambda>d. \<lparr>diffs = [d], hitTimeout = False\<rparr>) (diff_of 0 (sq_length q1) 0 (sq_length q2))"

definition DiffAlgorithmResult_trivialTimedOut :: "'e ISequence \<Rightarrow> 'e ISequence \<Rightarrow> DiffAlgorithmResult result" where
  "DiffAlgorithmResult_trivialTimedOut q1 q2 =
     result_map (\<lambda>d. \<lparr>diffs = [d], hitTimeout = True\<rparr>) (diff_of 0 (sq_length q1) 0 (sq_length q2))"

text \<open>\<open>forEachAdjacent\<close> with the results of the calls collected.\<close>

definition forEachAdjacent :: "'a list \<Rightarrow> ('a option \<Rightarrow> 'a option \<Rightarrow> 'b) \<Rightarrow> 'b list" where
  "forEachAdjacent arr f =
     map (\<lambda>i. f (if i = 0 then None else Some (arr ! (i - 1))) (if i = length arr then None else Some (arr ! i))) [0 ..< Suc (length arr)]"

definition invert_step :: "number \<Rightarrow> SequenceDiff option \<Rightarrow> SequenceDiff option \<Rightarrow> SequenceDiff result" where
  "invert_step doc1Length a b =
     diff_of (case a of Some a \<Rightarrow> endExclusive (seq1Range a) | None \<Rightarrow> 0)
       (case b of Some b \<Rightarrow> start (seq1Range b) | None \<Rightarrow> doc1Length)
       (case a of Some a \<Rightarrow> endExclusive (seq2Range a) | None \<Rightarrow> 0)
       (case b of Some b \<Rightarrow> start (seq2Range b)
        | None \<Rightarrow> (case a of Some a \<Rightarrow> endExclusive (seq2Range a) - endExclusive (seq1Range a) | None \<Rightarrow> 0) + doc1Length)"

definition SequenceDiff_invert :: "SequenceDiff list \<Rightarrow> number \<Rightarrow> SequenceDiff list result" where
  "SequenceDiff_invert sequenceDiffs doc1Length = result_list (forEachAdjacent sequenceDiffs (invert_step doc1Length))"

definition SequenceDiff_swap :: "SequenceDiff \<Rightarrow> SequenceDiff" where
  "SequenceDiff_swap this = new_SequenceDiff (seq2Range this) (seq1Range this)"

definition SequenceDiff_toString :: "SequenceDiff \<Rightarrow> jsstring" where
  "SequenceDiff_toString this = OffsetRange_toString (seq1Range this) @ js_str '' <-> '' @ OffsetRange_toString (seq2Range this)"

definition SequenceDiff_join :: "SequenceDiff \<Rightarrow> SequenceDiff \<Rightarrow> SequenceDiff result" where
  "SequenceDiff_join this other =
     result_bind (OffsetRange_join (seq1Range this) (seq1Range other)) (\<lambda>r1.
       result_map (new_SequenceDiff r1) (OffsetRange_join (seq2Range this) (seq2Range other)))"

definition SequenceDiff_delta :: "SequenceDiff \<Rightarrow> number \<Rightarrow> SequenceDiff result" where
  "SequenceDiff_delta this offset =
     (if offset = 0 then Inr this
      else result_bind (OffsetRange_delta (seq1Range this) offset) (\<lambda>r1.
             result_map (new_SequenceDiff r1) (OffsetRange_delta (seq2Range this) offset)))"

section \<open>Timeouts\<close>

text \<open>
  \<open>now\<close> is what the clock shows at the call. \<open>disable\<close> replaces the method \<open>isValid\<close> by one that is always true.
\<close>

record DateTimeout =
  dt_startTime :: number
  dt_timeout :: number
  dt_valid :: bool
  dt_disabled :: bool

definition InfiniteTimeout_isValid :: "unit \<Rightarrow> bool \<times> unit" where
  "InfiniteTimeout_isValid this = (True, this)"

definition new_DateTimeout :: "number \<Rightarrow> number \<Rightarrow> DateTimeout result" where
  "new_DateTimeout now timeout =
     (if timeout \<le> 0 then Inl BugIndicatingError
      else Inr \<lparr>dt_startTime = now, dt_timeout = timeout, dt_valid = True, dt_disabled = False\<rparr>)"

definition DateTimeout_isValid :: "number \<Rightarrow> DateTimeout \<Rightarrow> bool \<times> DateTimeout" where
  "DateTimeout_isValid now this =
     (if dt_disabled this then (True, this)
      else let valid = (now - dt_startTime this < dt_timeout this);
               this = (if \<not> valid \<and> dt_valid this then this\<lparr>dt_valid := False\<rparr> else this)
           in (dt_valid this, this))"

definition DateTimeout_disable :: "DateTimeout \<Rightarrow> DateTimeout" where
  "DateTimeout_disable this = this\<lparr>dt_timeout := 9007199254740991, dt_disabled := True, dt_valid := True\<rparr>"

text \<open>A timeout that has expired stays so, whatever the clock shows later; a disabled one never expires.\<close>

lemma DateTimeout_stays_expired:
  assumes "\<not> fst (DateTimeout_isValid now this)"
  shows "\<not> fst (DateTimeout_isValid later (snd (DateTimeout_isValid now this)))"
  using assms by (auto simp: DateTimeout_isValid_def Let_def split: if_splits)

lemma DateTimeout_disabled_is_valid: "DateTimeout_isValid now (DateTimeout_disable this) = (True, DateTimeout_disable this)"
  by (simp add: DateTimeout_isValid_def DateTimeout_disable_def)

lemma new_DateTimeout_valid:
  "new_DateTimeout now timeout = Inr this \<Longrightarrow> fst (DateTimeout_isValid later this) \<longleftrightarrow> later - now < timeout"
  by (auto simp: new_DateTimeout_def DateTimeout_isValid_def Let_def split: if_splits)

section \<open>Valid differences\<close>

text \<open>
  What the algorithms rely on: the sequence holds the elements of a list, strongly equal elements are equal, and the boundaries of the
  sequence have scores.
\<close>

definition sequence_of :: "'e list \<Rightarrow> 'e ISequence \<Rightarrow> bool" where
  "sequence_of xs q \<longleftrightarrow>
     sq_length q = int (length xs) \<and> (\<forall>i. sq_getElement q i = arr_at xs i) \<and>
     (\<forall>i j. sq_isStronglyEqual q i j \<longrightarrow> arr_at xs i = arr_at xs j) \<and>
     (\<forall>f k. sq_getBoundaryScore q = Some f \<longrightarrow> 0 \<le> k \<longrightarrow> k \<le> int (length xs) \<longrightarrow> (\<exists>v. f k = Inr v))"

definition same_elements :: "'e list \<Rightarrow> 'e list \<Rightarrow> number \<Rightarrow> number \<Rightarrow> number \<Rightarrow> bool" where
  "same_elements xs ys i j n \<longleftrightarrow> (\<forall>k. 0 \<le> k \<longrightarrow> k < n \<longrightarrow> arr_at xs (i + k) = arr_at ys (j + k))"

fun diffs_ok :: "'e list \<Rightarrow> 'e list \<Rightarrow> number \<Rightarrow> number \<Rightarrow> SequenceDiff list \<Rightarrow> bool" where
  "diffs_ok xs ys i j [] \<longleftrightarrow>
     0 \<le> i \<and> 0 \<le> j \<and> i \<le> int (length xs) \<and> int (length xs) - i = int (length ys) - j \<and> same_elements xs ys i j (int (length xs) - i)"
| "diffs_ok xs ys i j (d # ds) \<longleftrightarrow>
     0 \<le> i \<and> 0 \<le> j \<and> i \<le> start (seq1Range d) \<and> start (seq1Range d) - i = start (seq2Range d) - j \<and>
     same_elements xs ys i j (start (seq1Range d) - i) \<and>
     start (seq1Range d) \<le> endExclusive (seq1Range d) \<and> start (seq2Range d) \<le> endExclusive (seq2Range d) \<and>
     endExclusive (seq1Range d) \<le> int (length xs) \<and> endExclusive (seq2Range d) \<le> int (length ys) \<and>
     diffs_ok xs ys (endExclusive (seq1Range d)) (endExclusive (seq2Range d)) ds"

text \<open>The sequence that results when the differences are applied to the first: the rest after offset \<open>i\<close>.\<close>

fun patch :: "'e list \<Rightarrow> 'e list \<Rightarrow> number \<Rightarrow> SequenceDiff list \<Rightarrow> 'e list" where
  "patch xs ys i [] = drop (nat i) xs"
| "patch xs ys i (d # ds) =
     drop (nat i) (take (nat (start (seq1Range d))) xs) @ OffsetRange_slice (seq2Range d) ys @ patch xs ys (endExclusive (seq1Range d)) ds"

lemma same_elements_code [code]:
  "same_elements xs ys i j n \<longleftrightarrow> (if n \<le> 0 then True else arr_at xs i = arr_at ys j \<and> same_elements xs ys (i + 1) (j + 1) (n - 1))"
proof (cases "n \<le> 0")
  case False
  show ?thesis
  proof (intro iffI)
    assume "same_elements xs ys i j n"
    then have at: "0 \<le> k \<Longrightarrow> k < n \<Longrightarrow> arr_at xs (i + k) = arr_at ys (j + k)" for k by (simp add: same_elements_def)
    have "arr_at xs (i + 1 + k) = arr_at ys (j + 1 + k)" if "0 \<le> k" "k < n - 1" for k
      using at [of "1 + k"] that by (simp add: add.assoc)
    then show "if n \<le> 0 then True else arr_at xs i = arr_at ys j \<and> same_elements xs ys (i + 1) (j + 1) (n - 1)"
      using at [of 0] False by (simp add: same_elements_def)
  next
    assume r: "if n \<le> 0 then True else arr_at xs i = arr_at ys j \<and> same_elements xs ys (i + 1) (j + 1) (n - 1)"
    have "arr_at xs (i + k) = arr_at ys (j + k)" if "0 \<le> k" "k < n" for k
    proof (cases "k = 0")
      case False
      have "same_elements xs ys (i + 1) (j + 1) (n - 1)" using r that by (simp split: if_splits)
      then have "arr_at xs (i + 1 + (k - 1)) = arr_at ys (j + 1 + (k - 1))"
        using that False unfolding same_elements_def by (metis diff_ge_0_iff_ge diff_strict_right_mono int_one_le_iff_zero_less order_le_less)
      then show ?thesis by (simp add: algebra_simps)
    qed (use r that in \<open>auto split: if_splits\<close>)
    then show "same_elements xs ys i j n" by (simp add: same_elements_def)
  qed
qed (auto simp: same_elements_def)

lemma same_elements_slice:
  assumes "same_elements xs ys i j n" "0 \<le> i" "0 \<le> j" "0 \<le> n" "i + n \<le> int (length xs)" "j + n \<le> int (length ys)"
  shows "drop (nat i) (take (nat (i + n)) xs) = drop (nat j) (take (nat (j + n)) ys)"
proof (rule nth_equalityI)
  show "length (drop (nat i) (take (nat (i + n)) xs)) = length (drop (nat j) (take (nat (j + n)) ys))" using assms(2-) by simp
  fix k assume "k < length (drop (nat i) (take (nat (i + n)) xs))"
  then have k: "int k < n" using assms(2-) by simp
  then have "arr_at xs (i + int k) = arr_at ys (j + int k)" using assms(1) by (simp add: same_elements_def)
  then show "drop (nat i) (take (nat (i + n)) xs) ! k = drop (nat j) (take (nat (j + n)) ys) ! k"
    using k assms(2-) by (simp add: arr_at_def nat_add_distrib)
qed

lemma same_elements_between:
  assumes "same_elements xs ys i j n" "0 \<le> i" "0 \<le> j" "0 \<le> n" "a = i + n" "b = j + n" "a \<le> int (length xs)" "b \<le> int (length ys)"
  shows "drop (nat i) (take (nat a) xs) = drop (nat j) (take (nat b) ys)"
  using same_elements_slice [of xs ys i j n] assms by simp

lemma diffs_ok_bounds: "diffs_ok xs ys i j ds \<Longrightarrow> 0 \<le> i \<and> 0 \<le> j \<and> i \<le> int (length xs) \<and> j \<le> int (length ys)"
  by (cases ds) auto

lemma pieces_append:
  assumes "a \<le> b" "b \<le> c" shows "drop a (take b ys) @ drop b (take c ys) @ drop c ys = drop a ys"
proof -
  have "drop b (take c ys) @ drop c ys = drop b ys" using assms(2) by (metis append_take_drop_id drop_append diff_is_0_eq drop_0 drop_take drop_drop le_add_diff_inverse2 add.commute)
  moreover have "drop a (take b ys) @ drop b ys = drop a ys" using assms(1) by (metis append_take_drop_id drop_take drop_drop le_add_diff_inverse2)
  ultimately show ?thesis by simp
qed

lemma patch_eq: "diffs_ok xs ys i j ds \<Longrightarrow> patch xs ys i ds = drop (nat j) ys"
proof (induction ds arbitrary: i j)
  case Nil
  then show ?case using same_elements_between [of xs ys i j _ "int (length xs)" "int (length ys)"] by auto
next
  case (Cons d ds)
  let ?s1 = "start (seq1Range d)" and ?s2 = "start (seq2Range d)" and ?e2 = "endExclusive (seq2Range d)"
  have d: "0 \<le> i" "0 \<le> j" "i \<le> ?s1" "?s1 - i = ?s2 - j" "?s2 \<le> ?e2" "?e2 \<le> int (length ys)" "?s1 \<le> int (length xs)"
    "same_elements xs ys i j (?s1 - i)" using Cons.prems by auto
  have "drop (nat i) (take (nat ?s1) xs) = drop (nat j) (take (nat ?s2) ys)"
    by (rule same_elements_between [OF d(8)]) (use d in auto)
  moreover have "patch xs ys (endExclusive (seq1Range d)) ds = drop (nat ?e2) ys" using Cons by simp
  moreover have "OffsetRange_slice (seq2Range d) ys = drop (nat ?s2) (take (nat ?e2) ys)"
    using d by (simp add: OffsetRange_slice_def js_slice_def slice_index_def nat_le_iff min_absorb1)
  moreover have "drop (nat j) (take (nat ?s2) ys) @ drop (nat ?s2) (take (nat ?e2) ys) @ drop (nat ?e2) ys = drop (nat j) ys"
    using d by (intro pieces_append) auto
  ultimately show ?case by simp
qed

lemma sequence_of_getElement: "sequence_of xs q \<Longrightarrow> sq_getElement q = arr_at xs"
  by (auto simp: sequence_of_def)

lemma sequence_of_length: "sequence_of xs q \<Longrightarrow> sq_length q = int (length xs)"
  by (simp add: sequence_of_def)

text \<open>A list as a sequence, without boundaries.\<close>

definition list_sequence :: "'e list \<Rightarrow> 'e ISequence" where
  "list_sequence xs = \<lparr>sq_getElement = arr_at xs, sq_length = int (length xs), sq_getBoundaryScore = None,
                       sq_isStronglyEqual = (\<lambda>i j. arr_at xs i = arr_at xs j)\<rparr>"

lemma sequence_of_list_sequence [simp]: "sequence_of xs (list_sequence xs)"
  by (simp add: sequence_of_def list_sequence_def)

lemma diff_of_Inr: "diff_of s1 e1 s2 e2 = Inr d \<longleftrightarrow>
    s1 \<le> e1 \<and> s2 \<le> e2 \<and> d = \<lparr>seq1Range = \<lparr>start = s1, endExclusive = e1\<rparr>, seq2Range = \<lparr>start = s2, endExclusive = e2\<rparr>\<rparr>"
  by (auto simp: diff_of_def new_OffsetRange_def new_SequenceDiff_def)

lemma trivial_ok:
  assumes "sequence_of xs q1" "sequence_of ys q2"
  shows "\<exists>r. DiffAlgorithmResult_trivial q1 q2 = Inr r \<and> diffs_ok xs ys 0 0 (diffs r) \<and> \<not> hitTimeout r"
    "\<exists>r. DiffAlgorithmResult_trivialTimedOut q1 q2 = Inr r \<and> diffs_ok xs ys 0 0 (diffs r) \<and> hitTimeout r"
  using assms by (auto simp: DiffAlgorithmResult_trivial_def DiffAlgorithmResult_trivialTimedOut_def diff_of_Inr sequence_of_length same_elements_def)

lemma same_elements_at:
  assumes "same_elements xs ys i j n" "i \<le> a" "a < i + n" "b - j = a - i" shows "arr_at xs a = arr_at ys b"
proof -
  have "arr_at xs (i + (a - i)) = arr_at ys (j + (a - i))"
    using assms(2,3) assms(1) [unfolded same_elements_def, THEN spec, of "a - i"] by simp
  moreover have "j + (a - i) = b" using assms(4) by simp
  ultimately show ?thesis by simp
qed

lemma same_elements_Suc:
  assumes "same_elements xs ys (i + 1) (j + 1) n" "arr_at xs i = arr_at ys j" shows "same_elements xs ys i j (n + 1)"
  unfolding same_elements_def
proof (intro allI impI)
  fix k assume k: "0 \<le> k" "k < n + 1"
  show "arr_at xs (i + k) = arr_at ys (j + k)"
    by (cases "k = 0") (use assms(2) k same_elements_at [OF assms(1), of "i + k" "j + k"] in auto)
qed

lemma same_elements_less: "same_elements xs ys i j n \<Longrightarrow> m \<le> n \<Longrightarrow> same_elements xs ys i j m"
  by (simp add: same_elements_def)

lemma same_elements_tail:
  assumes "same_elements xs ys i j n" shows "same_elements xs ys (i + 1) (j + 1) (n - 1)"
  unfolding same_elements_def
proof (intro allI impI)
  fix k assume "0 \<le> k" "k < n - 1"
  then show "arr_at xs (i + 1 + k) = arr_at ys (j + 1 + k)" by (intro same_elements_at [OF assms]) auto
qed

lemma same_elements_snoc:
  assumes "same_elements xs ys i j n" "arr_at xs (i + n) = arr_at ys (j + n)" shows "same_elements xs ys i j (n + 1)"
  unfolding same_elements_def
proof (intro allI impI)
  fix k assume k: "0 \<le> k" "k < n + 1"
  show "arr_at xs (i + k) = arr_at ys (j + k)"
    by (cases "k = n") (use assms(2) k same_elements_at [OF assms(1), of "i + k" "j + k"] in auto)
qed

lemma diffs_ok_extend:
  assumes "diffs_ok xs ys (i + 1) (j + 1) ds" "arr_at xs i = arr_at ys j" "0 \<le> i" "0 \<le> j"
  shows "diffs_ok xs ys i j ds"
proof (cases ds)
  case Nil
  then show ?thesis using assms same_elements_Suc [of xs ys i j "int (length xs) - (i + 1)"] by auto
next
  case (Cons d ds')
  then show ?thesis using assms same_elements_Suc [of xs ys i j "start (seq1Range d) - (i + 1)"] by auto
qed

text \<open>The first difference and the rest.\<close>

definition diff_at :: "'e list \<Rightarrow> 'e list \<Rightarrow> number \<Rightarrow> number \<Rightarrow> SequenceDiff \<Rightarrow> bool" where
  "diff_at xs ys i j d \<longleftrightarrow>
     0 \<le> i \<and> 0 \<le> j \<and> i \<le> start (seq1Range d) \<and> start (seq1Range d) - i = start (seq2Range d) - j \<and>
     same_elements xs ys i j (start (seq1Range d) - i) \<and>
     start (seq1Range d) \<le> endExclusive (seq1Range d) \<and> start (seq2Range d) \<le> endExclusive (seq2Range d) \<and>
     endExclusive (seq1Range d) \<le> int (length xs) \<and> endExclusive (seq2Range d) \<le> int (length ys)"

lemma diffs_ok_Cons:
  "diffs_ok xs ys i j (d # ds) \<longleftrightarrow> diff_at xs ys i j d \<and> diffs_ok xs ys (endExclusive (seq1Range d)) (endExclusive (seq2Range d)) ds"
  by (auto simp: diff_at_def)

text \<open>Differences in the middle may be replaced by others that are valid at the same place.\<close>

lemma diffs_ok_replace:
  "diffs_ok xs ys i j (ps @ qs) \<Longrightarrow> \<exists>i' j'. diffs_ok xs ys i' j' qs \<and> (\<forall>rs. diffs_ok xs ys i' j' rs \<longrightarrow> diffs_ok xs ys i j (ps @ rs))"
proof (induction ps arbitrary: i j)
  case (Cons p ps)
  have "diffs_ok xs ys (endExclusive (seq1Range p)) (endExclusive (seq2Range p)) (ps @ qs)" using Cons.prems by simp
  from Cons.IH [OF this] obtain i' j' where "diffs_ok xs ys i' j' qs"
    "\<forall>rs. diffs_ok xs ys i' j' rs \<longrightarrow> diffs_ok xs ys (endExclusive (seq1Range p)) (endExclusive (seq2Range p)) (ps @ rs)" by blast
  then show ?case using Cons.prems unfolding append_Cons diffs_ok_Cons by blast
qed auto

text \<open>Two neighbours may be joined, whatever is between them.\<close>

definition joined :: "SequenceDiff \<Rightarrow> SequenceDiff \<Rightarrow> SequenceDiff" where
  "joined a b = \<lparr>seq1Range = \<lparr>start = start (seq1Range a), endExclusive = endExclusive (seq1Range b)\<rparr>,
                 seq2Range = \<lparr>start = start (seq2Range a), endExclusive = endExclusive (seq2Range b)\<rparr>\<rparr>"

lemma diffs_ok_joined: "diffs_ok xs ys i j (a # b # ds) \<Longrightarrow> diffs_ok xs ys i j (joined a b # ds)"
  by (auto simp: joined_def)

lemma SequenceDiff_join_neighbours: "diffs_ok xs ys i j (a # b # ds) \<Longrightarrow> SequenceDiff_join a b = Inr (joined a b)"
  by (auto simp: SequenceDiff_join_def OffsetRange_join_def new_OffsetRange_def new_SequenceDiff_def joined_def)

text \<open>A difference may move by one when the elements that leave and enter its ranges are equal.\<close>

definition moved :: "SequenceDiff \<Rightarrow> number \<Rightarrow> SequenceDiff" where
  "moved d k = \<lparr>seq1Range = \<lparr>start = start (seq1Range d) + k, endExclusive = endExclusive (seq1Range d) + k\<rparr>,
                seq2Range = \<lparr>start = start (seq2Range d) + k, endExclusive = endExclusive (seq2Range d) + k\<rparr>\<rparr>"

lemma moved_simps [simp]:
  "start (seq1Range (moved d k)) = start (seq1Range d) + k" "endExclusive (seq1Range (moved d k)) = endExclusive (seq1Range d) + k"
  "start (seq2Range (moved d k)) = start (seq2Range d) + k" "endExclusive (seq2Range (moved d k)) = endExclusive (seq2Range d) + k"
  "moved d 0 = d" "moved (moved d k) l = moved d (k + l)"
  by (simp_all add: moved_def)

lemma SequenceDiff_delta_moved: "diffs_ok xs ys i j (d # ds) \<Longrightarrow> SequenceDiff_delta d k = Inr (moved d k)"
  by (auto simp: SequenceDiff_delta_def OffsetRange_delta_def new_OffsetRange_def new_SequenceDiff_def moved_def)

text \<open>The elements before the first difference.\<close>

definition first_gap :: "'e list \<Rightarrow> number \<Rightarrow> SequenceDiff list \<Rightarrow> number" where
  "first_gap xs i ds = (case ds of [] \<Rightarrow> int (length xs) | d # _ \<Rightarrow> start (seq1Range d)) - i"

lemma diffs_ok_shrink:
  assumes "diffs_ok xs ys i j ds" "0 < first_gap xs i ds"
  shows "diffs_ok xs ys (i + 1) (j + 1) ds" "arr_at xs i = arr_at ys j"
proof -
  have same: "same_elements xs ys i j (first_gap xs i ds)" using assms(1) by (cases ds) (auto simp: first_gap_def)
  then show "arr_at xs i = arr_at ys j" using assms(2) by (intro same_elements_at [OF same]) auto
  have "same_elements xs ys (i + 1) (j + 1) (first_gap xs i ds - 1)" by (rule same_elements_tail [OF same])
  then show "diffs_ok xs ys (i + 1) (j + 1) ds" using assms by (cases ds) (auto simp: first_gap_def diff_diff_eq)
qed

lemma diffs_ok_move_left:
  assumes "diffs_ok xs ys i j (d # ds)" "i < start (seq1Range d)"
    and "arr_at xs (start (seq1Range d) - 1) = arr_at xs (endExclusive (seq1Range d) - 1)"
    and "arr_at ys (start (seq2Range d) - 1) = arr_at ys (endExclusive (seq2Range d) - 1)"
  shows "diffs_ok xs ys i j (moved d (- 1) # ds)"
proof -
  have d: "same_elements xs ys i j (start (seq1Range d) - i)" "0 \<le> i" "0 \<le> j" "start (seq1Range d) - i = start (seq2Range d) - j"
    "start (seq1Range d) \<le> endExclusive (seq1Range d)" "start (seq2Range d) \<le> endExclusive (seq2Range d)"
    "diffs_ok xs ys (endExclusive (seq1Range d) - 1 + 1) (endExclusive (seq2Range d) - 1 + 1) ds" using assms(1) by auto
  have "arr_at xs (start (seq1Range d) - 1) = arr_at ys (start (seq2Range d) - 1)"
    by (rule same_elements_at [OF d(1)]) (use assms(2) d(4) in auto)
  then have "diffs_ok xs ys (endExclusive (seq1Range d) - 1) (endExclusive (seq2Range d) - 1) ds"
    by (intro diffs_ok_extend [OF d(7)]) (use assms(2-4) d in auto)
  moreover have "same_elements xs ys i j (start (seq1Range d) - 1 - i)" by (rule same_elements_less [OF d(1)]) simp
  ultimately show ?thesis using assms(1,2) by simp
qed

lemma diffs_ok_move_right:
  assumes "diffs_ok xs ys i j (d # ds)" "0 < first_gap xs (endExclusive (seq1Range d)) ds"
    and "arr_at xs (start (seq1Range d)) = arr_at xs (endExclusive (seq1Range d))"
    and "arr_at ys (start (seq2Range d)) = arr_at ys (endExclusive (seq2Range d))"
  shows "diffs_ok xs ys i j (moved d 1 # ds)"
proof -
  have d: "same_elements xs ys i j (start (seq1Range d) - i)" "start (seq1Range d) - i = start (seq2Range d) - j"
    "diffs_ok xs ys (endExclusive (seq1Range d)) (endExclusive (seq2Range d)) ds" using assms(1) by auto
  note shrink = diffs_ok_shrink [OF d(3) assms(2)]
  have pos: "i + (start (seq1Range d) - i) = start (seq1Range d)" "j + (start (seq1Range d) - i) = start (seq2Range d)"
    using d(2) by simp_all
  have "arr_at xs (start (seq1Range d)) = arr_at ys (start (seq2Range d))" using shrink(2) assms(3,4) by simp
  then have "same_elements xs ys i j (start (seq1Range d) - i + 1)" by (intro same_elements_snoc [OF d(1)]) (simp only: pos)
  moreover have "endExclusive (seq1Range d) + 1 \<le> int (length xs)" "endExclusive (seq2Range d) + 1 \<le> int (length ys)"
    using diffs_ok_bounds [OF shrink(1)] by auto
  ultimately show ?thesis using assms(1) shrink(1) by (simp add: algebra_simps)
qed

declare diffs_ok.simps(2) [simp del]

section \<open>Inverting\<close>

fun adjacent_from :: "'a option \<Rightarrow> 'a list \<Rightarrow> ('a option \<Rightarrow> 'a option \<Rightarrow> 'b) \<Rightarrow> 'b list" where
  "adjacent_from p [] f = [f p None]"
| "adjacent_from p (x # xs) f = f p (Some x) # adjacent_from (Some x) xs f"

lemma adjacent_from_eq:
  "map (\<lambda>i. f (if i = 0 then p else Some (arr ! (i - 1))) (if i = length arr then None else Some (arr ! i))) [0 ..< Suc (length arr)] = adjacent_from p arr f"
proof (induction arr arbitrary: p)
  case (Cons x xs)
  have "map (\<lambda>i. f (if i = 0 then p else Some ((x # xs) ! (i - 1))) (if i = length (x # xs) then None else Some ((x # xs) ! i))) [0 ..< Suc (length (x # xs))] =
    f p (Some x) # map (\<lambda>i. f (Some ((x # xs) ! i)) (if i = length xs then None else Some (xs ! i))) [0 ..< Suc (length xs)]"
  proof -
    have "[0 ..< Suc (length (x # xs))] = 0 # map Suc [0 ..< Suc (length xs)]" by (simp add: map_Suc_upt upt_conv_Cons del: upt_Suc)
    then show ?thesis by (simp del: upt_Suc)
  qed
  also have "map (\<lambda>i. f (Some ((x # xs) ! i)) (if i = length xs then None else Some (xs ! i))) [0 ..< Suc (length xs)] =
    map (\<lambda>i. f (if i = 0 then Some x else Some (xs ! (i - 1))) (if i = length xs then None else Some (xs ! i))) [0 ..< Suc (length xs)]"
    by (rule map_cong) (auto simp: nth_Cons')
  finally show ?case using Cons.IH [of "Some x"] by (simp only: adjacent_from.simps)
qed simp

lemma forEachAdjacent_eq: "forEachAdjacent arr f = adjacent_from None arr f"
  using adjacent_from_eq [of f None arr] by (simp add: forEachAdjacent_def)

definition same_slices :: "'e list \<Rightarrow> 'e list \<Rightarrow> SequenceDiff \<Rightarrow> bool" where
  "same_slices xs ys g \<longleftrightarrow> OffsetRange_slice (seq1Range g) xs = OffsetRange_slice (seq2Range g) ys"

lemma same_slicesI:
  assumes "same_elements xs ys i j n" "0 \<le> i" "0 \<le> j" "0 \<le> n" "i + n \<le> int (length xs)" "j + n \<le> int (length ys)"
  shows "same_slices xs ys \<lparr>seq1Range = \<lparr>start = i, endExclusive = i + n\<rparr>, seq2Range = \<lparr>start = j, endExclusive = j + n\<rparr>\<rparr>"
  using same_elements_slice [OF assms] assms(2-)
  by (simp add: same_slices_def OffsetRange_slice_def js_slice_def slice_index_def nat_le_iff min_absorb1)

lemma invert_from:
  "diffs_ok xs ys i j ds \<Longrightarrow> (case p of None \<Rightarrow> i = 0 \<and> j = 0 | Some a \<Rightarrow> i = endExclusive (seq1Range a) \<and> j = endExclusive (seq2Range a)) \<Longrightarrow>
    \<exists>gs. result_list (adjacent_from p ds (invert_step (int (length xs)))) = Inr gs \<and> length gs = length ds + 1 \<and> (\<forall>g \<in> set gs. same_slices xs ys g)"
proof (induction ds arbitrary: i j p)
  case Nil
  let ?g = "\<lparr>seq1Range = \<lparr>start = i, endExclusive = i + (int (length xs) - i)\<rparr>, seq2Range = \<lparr>start = j, endExclusive = j + (int (length xs) - i)\<rparr>\<rparr>"
  have "invert_step (int (length xs)) p None = Inr ?g" using Nil by (auto simp: invert_step_def diff_of_Inr split: option.splits)
  moreover have "same_slices xs ys ?g" by (rule same_slicesI) (use Nil(1) in auto)
  ultimately show ?case by simp
next
  case (Cons d ds)
  let ?n = "start (seq1Range d) - i"
  let ?g = "\<lparr>seq1Range = \<lparr>start = i, endExclusive = i + ?n\<rparr>, seq2Range = \<lparr>start = j, endExclusive = j + ?n\<rparr>\<rparr>"
  have d: "diff_at xs ys i j d" "diffs_ok xs ys (endExclusive (seq1Range d)) (endExclusive (seq2Range d)) ds"
    using Cons.prems(1) by (simp_all add: diffs_ok_Cons)
  have "invert_step (int (length xs)) p (Some d) = Inr ?g"
    using Cons.prems(2) d(1) by (auto simp: invert_step_def diff_of_Inr diff_at_def split: option.splits)
  moreover have "same_slices xs ys ?g" by (rule same_slicesI) (use d(1) in \<open>auto simp: diff_at_def\<close>)
  moreover obtain gs where "result_list (adjacent_from (Some d) ds (invert_step (int (length xs)))) = Inr gs" "length gs = length ds + 1"
      "\<forall>g \<in> set gs. same_slices xs ys g"
    using Cons.IH [OF d(2), of "Some d"] by auto
  ultimately show ?case by simp
qed

text \<open>
  Inverting differences that turn one sequence into another gives, without an exception, the ranges between them: one more than there are differences, and
  each of them holds the same elements in both sequences.
\<close>

theorem SequenceDiff_invert_gives_the_common_ranges:
  assumes "diffs_ok xs ys 0 0 ds"
  shows "\<exists>gs. SequenceDiff_invert ds (int (length xs)) = Inr gs \<and> length gs = length ds + 1 \<and>
    (\<forall>g \<in> set gs. OffsetRange_slice (seq1Range g) xs = OffsetRange_slice (seq2Range g) ys)"
  using invert_from [OF assms, of None] by (simp add: SequenceDiff_invert_def forEachAdjacent_eq same_slices_def)

theorem SequenceDiff_invert_gives_the_common_ranges_witness:
  "diffs_ok ''abc'' ''abxc'' 0 0 [\<lparr>seq1Range = \<lparr>start = 2, endExclusive = 2\<rparr>, seq2Range = \<lparr>start = 2, endExclusive = 3\<rparr>\<rparr>] \<and>
   (\<exists>gs. SequenceDiff_invert [\<lparr>seq1Range = \<lparr>start = 2, endExclusive = 2\<rparr>, seq2Range = \<lparr>start = 2, endExclusive = 3\<rparr>\<rparr>] 3 = Inr gs \<and> length gs = 2 \<and>
      (\<forall>g \<in> set gs. OffsetRange_slice (seq1Range g) ''abc'' = OffsetRange_slice (seq2Range g) ''abxc''))"
proof -
  have ok: "diffs_ok ''abc'' ''abxc'' 0 0 [\<lparr>seq1Range = \<lparr>start = 2, endExclusive = 2\<rparr>, seq2Range = \<lparr>start = 2, endExclusive = 3\<rparr>\<rparr>]" by code_simp
  show ?thesis using SequenceDiff_invert_gives_the_common_ranges [OF ok] ok by (simp add: numeral_2_eq_2)
qed

end
