(* ===== verification/Diff_Dynamic.thy ===== *)
theory Diff_Dynamic
  imports Diff_Sequence
begin

text \<open>
  The quadratic diff algorithm, \<open>src/vs/editor/common/diff/defaultLinesDiffComputer/algorithms/dynamicProgrammingDiffing.ts\<close>, with the
  two-dimensional arrays of \<open>utils.ts\<close>. The scores may be any linearly ordered numbers in which \<open>- 1\<close> is below \<open>0\<close>: no law of
  addition is used, so what is shown holds for doubles that are not \<open>NaN\<close> as well.
\<close>

section \<open>Two-dimensional arrays\<close>

text \<open>
  An array of the source is a map from indices, without a value where nothing has been stored. \<open>new Array(n)\<close> throws when \<open>n\<close> is
  not a 32-bit length.
\<close>

record 'a Array2D =
  a2_width :: number
  a2_height :: number
  a2_array :: "number \<Rightarrow> 'a option"

definition new_Array2D :: "number \<Rightarrow> number \<Rightarrow> 'a Array2D result" where
  "new_Array2D w h =
     (if 0 \<le> w * h \<and> w * h < 4294967296 then Inr \<lparr>a2_width = w, a2_height = h, a2_array = (\<lambda>_. None)\<rparr> else Inl RangeError)"

definition Array2D_get :: "'a Array2D \<Rightarrow> number \<Rightarrow> number \<Rightarrow> 'a option" where
  "Array2D_get this x y = a2_array this (x + y * a2_width this)"

definition Array2D_set :: "'a Array2D \<Rightarrow> number \<Rightarrow> number \<Rightarrow> 'a \<Rightarrow> 'a Array2D" where
  "Array2D_set this x y v = this\<lparr>a2_array := (a2_array this)(x + y * a2_width this := Some v)\<rparr>"

lemma Array2D_set_width [simp]: "a2_width (Array2D_set a x y v) = a2_width a"
  by (simp add: Array2D_set_def)

lemma index_injective:
  fixes x y x' y' w :: int
  assumes "0 \<le> x" "x < w" "0 \<le> x'" "x' < w"
  shows "x + y * w = x' + y' * w \<longleftrightarrow> x = x' \<and> y = y'"
proof
  assume eq: "x + y * w = x' + y' * w"
  have "(x + y * w) mod w = x" "(x' + y' * w) mod w = x'" using assms by simp_all
  then have "x = x'" using eq by simp
  then show "x = x' \<and> y = y'" using eq assms by simp
qed simp

lemma Array2D_get_set:
  assumes "0 \<le> x" "x < a2_width a" "0 \<le> x'" "x' < a2_width a"
  shows "Array2D_get (Array2D_set a x y v) x' y' = (if x' = x \<and> y' = y then Some v else Array2D_get a x' y')"
  using index_injective [of x' "a2_width a" x y' y] assms by (auto simp: Array2D_get_def Array2D_set_def)

section \<open>Numbers that may be missing\<close>

text \<open>A value read where nothing has been stored is \<open>undefined\<close>, arithmetic on it gives \<open>NaN\<close>, and neither equals anything here.\<close>

definition num_add :: "'n::plus option \<Rightarrow> 'n option \<Rightarrow> 'n option" where
  "num_add a b = (case a of None \<Rightarrow> None | Some x \<Rightarrow> map_option (\<lambda>y. x + y) b)"

definition num_max :: "'n::ord option \<Rightarrow> 'n option \<Rightarrow> 'n option" where
  "num_max a b = (case a of None \<Rightarrow> None | Some x \<Rightarrow> map_option (max x) b)"

definition num_eq :: "'n option \<Rightarrow> 'n option \<Rightarrow> bool" where
  "num_eq a b = (case a of None \<Rightarrow> False | Some x \<Rightarrow> b = Some x)"

lemma num_simps [simp]:
  "num_add (Some x) (Some y) = Some (x + y)" "num_max (Some x) (Some y) = Some (max x y)" "num_eq (Some x) (Some y) \<longleftrightarrow> x = y"
  by (auto simp: num_add_def num_max_def num_eq_def)

section \<open>The tables\<close>

text \<open>The three tables; a number or \<open>NaN\<close> is stored in the first and the third.\<close>

record 'n dp_tables =
  lcsLengths :: "'n option Array2D"
  directions :: "number Array2D"
  dp_lengths :: "'n option Array2D"

definition get_num :: "'n option Array2D \<Rightarrow> number \<Rightarrow> number \<Rightarrow> 'n option" where
  "get_num a x y = Option.bind (Array2D_get a x y) id"

text \<open>The body of the inner loop: the score of the aligned pair, then the stores into the cell.\<close>

definition extendedSeqScore_of ::
  "'e ISequence \<Rightarrow> 'e ISequence \<Rightarrow> (number \<Rightarrow> number \<Rightarrow> 'n) option \<Rightarrow> number \<Rightarrow> number \<Rightarrow>
   'n::{zero,one,plus,uminus,linorder} dp_tables \<Rightarrow> 'n option" where
  "extendedSeqScore_of q1 q2 equalityScore s1 s2 T =
     (if sq_getElement q1 s1 = sq_getElement q2 s2 then
        (let e = (if s1 = 0 \<or> s2 = 0 then Some 0 else get_num (lcsLengths T) (s1 - 1) (s2 - 1));
             e = (if 0 < s1 \<and> 0 < s2 \<and> Array2D_get (directions T) (s1 - 1) (s2 - 1) = Some 3
                  then num_add e (get_num (dp_lengths T) (s1 - 1) (s2 - 1)) else e)
         in num_add e (Some (case equalityScore of Some f \<Rightarrow> f s1 s2 | None \<Rightarrow> 1)))
      else Some (- 1))"

definition dp_store ::
  "number \<Rightarrow> number \<Rightarrow> 'n option \<Rightarrow> 'n option \<Rightarrow> 'n option \<Rightarrow> 'n::{zero,one,plus,uminus,linorder} dp_tables \<Rightarrow> 'n dp_tables" where
  "dp_store s1 s2 horizontalLen verticalLen extended T =
     (let newValue = num_max (num_max horizontalLen verticalLen) extended;
          T = (if num_eq newValue extended then
                 (let prevLen = (if 0 < s1 \<and> 0 < s2 then get_num (dp_lengths T) (s1 - 1) (s2 - 1) else Some 0)
                  in T\<lparr>dp_lengths := Array2D_set (dp_lengths T) s1 s2 (num_add prevLen (Some 1)), directions := Array2D_set (directions T) s1 s2 3\<rparr>)
               else if num_eq newValue horizontalLen then
                 T\<lparr>dp_lengths := Array2D_set (dp_lengths T) s1 s2 (Some 0), directions := Array2D_set (directions T) s1 s2 1\<rparr>
               else if num_eq newValue verticalLen then
                 T\<lparr>dp_lengths := Array2D_set (dp_lengths T) s1 s2 (Some 0), directions := Array2D_set (directions T) s1 s2 2\<rparr>
               else T)
      in T\<lparr>lcsLengths := Array2D_set (lcsLengths T) s1 s2 newValue\<rparr>)"

definition dp_cell ::
  "'e ISequence \<Rightarrow> 'e ISequence \<Rightarrow> (number \<Rightarrow> number \<Rightarrow> 'n) option \<Rightarrow> number \<Rightarrow> number \<Rightarrow>
   'n::{zero,one,plus,uminus,linorder} dp_tables \<Rightarrow> 'n dp_tables" where
  "dp_cell q1 q2 equalityScore s1 s2 T =
     (let horizontalLen = (if s1 = 0 then Some 0 else get_num (lcsLengths T) (s1 - 1) s2);
          verticalLen = (if s2 = 0 then Some 0 else get_num (lcsLengths T) s1 (s2 - 1))
      in dp_store s1 s2 horizontalLen verticalLen (extendedSeqScore_of q1 q2 equalityScore s1 s2 T) T)"

text \<open>
  The two loops. \<open>isValid\<close> is the timeout: it reads the clock, so it has a state of its own. None is the early return.
\<close>

fun dp_row ::
  "('t \<Rightarrow> bool \<times> 't) \<Rightarrow> 'e ISequence \<Rightarrow> 'e ISequence \<Rightarrow> (number \<Rightarrow> number \<Rightarrow> 'n) option \<Rightarrow> number \<Rightarrow> number list \<Rightarrow>
   'n::{zero,one,plus,uminus,linorder} dp_tables \<times> 't \<Rightarrow> ('n dp_tables \<times> 't) option" where
  "dp_row isValid q1 q2 equalityScore s1 [] (T, t) = Some (T, t)"
| "dp_row isValid q1 q2 equalityScore s1 (s2 # rest) (T, t) =
     (let (valid, t) = isValid t
      in if \<not> valid then None else dp_row isValid q1 q2 equalityScore s1 rest (dp_cell q1 q2 equalityScore s1 s2 T, t))"

fun dp_rows ::
  "('t \<Rightarrow> bool \<times> 't) \<Rightarrow> 'e ISequence \<Rightarrow> 'e ISequence \<Rightarrow> (number \<Rightarrow> number \<Rightarrow> 'n) option \<Rightarrow> number list \<Rightarrow>
   'n::{zero,one,plus,uminus,linorder} dp_tables \<times> 't \<Rightarrow> ('n dp_tables \<times> 't) option" where
  "dp_rows isValid q1 q2 equalityScore [] st = Some st"
| "dp_rows isValid q1 q2 equalityScore (s1 # rest) st =
     Option.bind (dp_row isValid q1 q2 equalityScore s1 [0 .. sq_length q2 - 1] st) (dp_rows isValid q1 q2 equalityScore rest)"

section \<open>Backtracking\<close>

record backtrack =
  bt_result :: "SequenceDiff list"
  lastAligningPosS1 :: number
  lastAligningPosS2 :: number

definition reportDecreasingAligningPositions :: "number \<Rightarrow> number \<Rightarrow> backtrack \<Rightarrow> backtrack result" where
  "reportDecreasingAligningPositions s1 s2 b =
     result_map (\<lambda>res. \<lparr>bt_result = res, lastAligningPosS1 = s1, lastAligningPosS2 = s2\<rparr>)
       (if s1 + 1 \<noteq> lastAligningPosS1 b \<or> s2 + 1 \<noteq> lastAligningPosS2 b
        then result_map (\<lambda>d. bt_result b @ [d]) (diff_of (s1 + 1) (lastAligningPosS1 b) (s2 + 1) (lastAligningPosS2 b))
        else Inr (bt_result b))"

function dp_backtrack :: "number Array2D \<Rightarrow> number \<Rightarrow> number \<Rightarrow> backtrack \<Rightarrow> backtrack result" where
  "dp_backtrack dirs s1 s2 b =
     (if 0 \<le> s1 \<and> 0 \<le> s2 then
        (if Array2D_get dirs s1 s2 = Some 3
         then result_bind (reportDecreasingAligningPositions s1 s2 b) (dp_backtrack dirs (s1 - 1) (s2 - 1))
         else if Array2D_get dirs s1 s2 = Some 1 then dp_backtrack dirs (s1 - 1) s2 b
         else dp_backtrack dirs s1 (s2 - 1) b)
      else Inr b)"
  by pat_completeness auto

termination
  by (relation "measure (\<lambda>(dirs, s1, s2, b). nat (s1 + 1) + nat (s2 + 1))") auto

declare dp_backtrack.simps [simp del]

definition DynamicProgrammingDiffing_compute ::
  "'e ISequence \<Rightarrow> 'e ISequence \<Rightarrow> ('t \<Rightarrow> bool \<times> 't) \<Rightarrow> 't \<Rightarrow> (number \<Rightarrow> number \<Rightarrow> 'n::{zero,one,plus,uminus,linorder}) option \<Rightarrow>
   DiffAlgorithmResult result" where
  "DynamicProgrammingDiffing_compute q1 q2 isValid t equalityScore =
     (if sq_length q1 = 0 \<or> sq_length q2 = 0 then DiffAlgorithmResult_trivial q1 q2
      else
        result_bind (new_Array2D (sq_length q1) (sq_length q2)) (\<lambda>lcs.
        result_bind (new_Array2D (sq_length q1) (sq_length q2)) (\<lambda>dirs.
        result_bind (new_Array2D (sq_length q1) (sq_length q2)) (\<lambda>lens.
          case dp_rows isValid q1 q2 equalityScore [0 .. sq_length q1 - 1] (\<lparr>lcsLengths = lcs, directions = dirs, dp_lengths = lens\<rparr>, t) of
            None \<Rightarrow> DiffAlgorithmResult_trivialTimedOut q1 q2
          | Some (T, _) \<Rightarrow>
              result_bind (dp_backtrack (directions T) (sq_length q1 - 1) (sq_length q2 - 1)
                             \<lparr>bt_result = [], lastAligningPosS1 = sq_length q1, lastAligningPosS2 = sq_length q2\<rparr>) (\<lambda>b.
              result_map (\<lambda>b. \<lparr>diffs = rev (bt_result b), hitTimeout = False\<rparr>) (reportDecreasingAligningPositions (- 1) (- 1) b))))))"

section \<open>What the tables hold\<close>

text \<open>A filled cell: its value is not negative, and the direction 3 is only stored where the elements are the same.\<close>

definition dp_cell_ok :: "'e list \<Rightarrow> 'e list \<Rightarrow> 'n::{zero,one,plus,uminus,linorder} dp_tables \<Rightarrow> number \<Rightarrow> number \<Rightarrow> bool" where
  "dp_cell_ok xs ys T i j \<longleftrightarrow>
     (\<exists>v. get_num (lcsLengths T) i j = Some v \<and> 0 \<le> v) \<and> (\<exists>l. get_num (dp_lengths T) i j = Some l) \<and>
     (\<exists>d. Array2D_get (directions T) i j = Some d \<and> (d = 3 \<longrightarrow> arr_at xs i = arr_at ys j))"

definition dp_inv :: "'e list \<Rightarrow> 'e list \<Rightarrow> (number \<Rightarrow> number \<Rightarrow> bool) \<Rightarrow> 'n::{zero,one,plus,uminus,linorder} dp_tables \<Rightarrow> bool" where
  "dp_inv xs ys filled T \<longleftrightarrow>
     a2_width (lcsLengths T) = int (length xs) \<and> a2_width (directions T) = int (length xs) \<and> a2_width (dp_lengths T) = int (length xs) \<and>
     (\<forall>i j. 0 \<le> i \<longrightarrow> i < int (length xs) \<longrightarrow> 0 \<le> j \<longrightarrow> filled i j \<longrightarrow> dp_cell_ok xs ys T i j)"

lemma dp_invD: "dp_inv xs ys filled T \<Longrightarrow> 0 \<le> i \<Longrightarrow> i < int (length xs) \<Longrightarrow> 0 \<le> j \<Longrightarrow> filled i j \<Longrightarrow> dp_cell_ok xs ys T i j"
  by (simp add: dp_inv_def)

lemma dp_store_inv:
  fixes T :: "'n::{zero,one,plus,uminus,linorder} dp_tables"
  assumes inv: "dp_inv xs ys filled T" and s: "0 \<le> s1" "s1 < int (length xs)" "0 \<le> s2"
    and h: "0 \<le> h" and v: "0 \<le> v"
    and prev: "0 < s1 \<Longrightarrow> 0 < s2 \<Longrightarrow> filled (s1 - 1) (s2 - 1)"
    and e: "0 \<le> e \<Longrightarrow> arr_at xs s1 = arr_at ys s2"
  shows "dp_inv xs ys (\<lambda>i j. filled i j \<or> i = s1 \<and> j = s2) (dp_store s1 s2 (Some h) (Some v) (Some e) T)" (is "dp_inv _ _ _ ?T")
proof -
  have w: "a2_width (lcsLengths T) = int (length xs)" "a2_width (directions T) = int (length xs)" "a2_width (dp_lengths T) = int (length xs)"
    using inv by (simp_all add: dp_inv_def)
  let ?new = "max (max h v) e"
  obtain l where l: "(if 0 < s1 \<and> 0 < s2 then get_num (dp_lengths T) (s1 - 1) (s2 - 1) else Some 0) = Some l"
  proof (cases "0 < s1 \<and> 0 < s2")
    case True
    then have "dp_cell_ok xs ys T (s1 - 1) (s2 - 1)" using dp_invD [OF inv, of "s1 - 1" "s2 - 1"] prev s by simp
    then show ?thesis using that True by (auto simp: dp_cell_ok_def)
  qed (use that in auto)
  define d :: number where "d = (if ?new = e then 3 else if ?new = h then 1 else 2)"
  define n where "n = (if ?new = e then l + 1 else 0)"
  have T': "?T = \<lparr>lcsLengths = Array2D_set (lcsLengths T) s1 s2 (Some ?new),
                 directions = Array2D_set (directions T) s1 s2 d, dp_lengths = Array2D_set (dp_lengths T) s1 s2 (Some n)\<rparr>"
  proof -
    have "?new = e \<or> ?new = h \<or> ?new = v" by (auto simp: max_def)
    then show ?thesis unfolding dp_store_def Let_def l d_def n_def by (auto simp: num_max_def)
  qed
  have "0 \<le> ?new" using h by (simp add: le_max_iff_disj)
  moreover have "d = 3 \<longrightarrow> arr_at xs s1 = arr_at ys s2" using e \<open>0 \<le> ?new\<close> by (auto simp: d_def split: if_splits)
  ultimately have "dp_cell_ok xs ys ?T s1 s2"
    using s w unfolding T' by (simp add: dp_cell_ok_def get_num_def Array2D_get_set)
  moreover have "dp_cell_ok xs ys ?T i j" if "dp_cell_ok xs ys T i j" "0 \<le> i" "i < int (length xs)" "\<not> (i = s1 \<and> j = s2)" for i j
    using that s w unfolding T' by (auto simp add: dp_cell_ok_def get_num_def Array2D_get_set)
  ultimately have "dp_cell_ok xs ys ?T i j" if "filled i j \<or> i = s1 \<and> j = s2" "0 \<le> i" "i < int (length xs)" "0 \<le> j" for i j
    using that dp_invD [OF inv, of i j] by blast
  moreover have "a2_width (lcsLengths ?T) = int (length xs)" "a2_width (directions ?T) = int (length xs)" "a2_width (dp_lengths ?T) = int (length xs)"
    using w unfolding T' by simp_all
  ultimately show ?thesis by (simp add: dp_inv_def)
qed

lemma extendedSeqScore_defined:
  fixes T :: "'n::{zero,one,plus,uminus,linorder} dp_tables"
  assumes "dp_inv xs ys filled T" "0 \<le> s1" "s1 < int (length xs)" "0 \<le> s2" "sequence_of xs q1" "sequence_of ys q2" "- 1 < (0::'n)"
    and prev: "0 < s1 \<Longrightarrow> 0 < s2 \<Longrightarrow> filled (s1 - 1) (s2 - 1)"
  shows "\<exists>e. extendedSeqScore_of q1 q2 equalityScore s1 s2 T = Some e \<and> (0 \<le> e \<longrightarrow> arr_at xs s1 = arr_at ys s2)"
proof (cases "0 < s1 \<and> 0 < s2")
  case True
  then have "dp_cell_ok xs ys T (s1 - 1) (s2 - 1)" using dp_invD [OF assms(1), of "s1 - 1" "s2 - 1"] prev assms(3) by simp
  then obtain v l where "get_num (lcsLengths T) (s1 - 1) (s2 - 1) = Some v" "get_num (dp_lengths T) (s1 - 1) (s2 - 1) = Some l"
    by (auto simp: dp_cell_ok_def)
  then show ?thesis
    using assms(5-7) True by (auto simp: extendedSeqScore_of_def sequence_of_getElement Let_def split: option.splits)
next
  case False
  then have "s1 = 0 \<or> s2 = 0" using assms(2,4) by auto
  then show ?thesis
    using assms(5-7) by (auto simp: extendedSeqScore_of_def sequence_of_getElement Let_def split: option.splits)
qed

lemma dp_cell_inv:
  fixes T :: "'n::{zero,one,plus,uminus,linorder} dp_tables"
  assumes inv: "dp_inv xs ys filled T" and s: "0 \<le> s1" "s1 < int (length xs)" "0 \<le> s2"
    and q: "sequence_of xs q1" "sequence_of ys q2" and neg: "- 1 < (0::'n)"
    and filled: "0 < s1 \<Longrightarrow> filled (s1 - 1) s2" "0 < s2 \<Longrightarrow> filled s1 (s2 - 1)" "0 < s1 \<Longrightarrow> 0 < s2 \<Longrightarrow> filled (s1 - 1) (s2 - 1)"
  shows "dp_inv xs ys (\<lambda>i j. filled i j \<or> i = s1 \<and> j = s2) (dp_cell q1 q2 equalityScore s1 s2 T)"
proof -
  obtain h where h: "(if s1 = 0 then Some 0 else get_num (lcsLengths T) (s1 - 1) s2) = Some h" "0 \<le> h"
    using dp_invD [OF inv, of "s1 - 1" s2] filled(1) s by (cases "s1 = 0") (auto simp: dp_cell_ok_def)
  obtain v where v: "(if s2 = 0 then Some 0 else get_num (lcsLengths T) s1 (s2 - 1)) = Some v" "0 \<le> v"
    using dp_invD [OF inv, of s1 "s2 - 1"] filled(2) s by (cases "s2 = 0") (auto simp: dp_cell_ok_def)
  obtain e where e: "extendedSeqScore_of q1 q2 equalityScore s1 s2 T = Some e" "0 \<le> e \<longrightarrow> arr_at xs s1 = arr_at ys s2"
    using extendedSeqScore_defined [OF inv s q neg, of equalityScore] filled(3) by blast
  show ?thesis
    unfolding dp_cell_def Let_def h(1) v(1) e(1)
    by (rule dp_store_inv [OF inv s h(2) v(2)]) (use filled(3) e(2) in auto)
qed

lemma dp_row_inv:
  fixes T :: "'n::{zero,one,plus,uminus,linorder} dp_tables"
  assumes "sequence_of xs q1" "sequence_of ys q2" "- 1 < (0::'n)" "0 \<le> s1" "s1 < int (length xs)"
  shows "dp_row isValid q1 q2 equalityScore s1 [s2 .. h] (T, t) = Some (T', t') \<Longrightarrow> 0 \<le> s2 \<Longrightarrow>
    dp_inv xs ys (\<lambda>i j. j \<le> h \<and> (i < s1 \<or> i = s1 \<and> j < s2)) T \<Longrightarrow> dp_inv xs ys (\<lambda>i j. j \<le> h \<and> i \<le> s1) T'"
proof (induction "nat (h + 1 - s2)" arbitrary: s2 T t)
  case 0
  then have "[s2 .. h] = []" "(\<lambda>i j. j \<le> h \<and> (i < s1 \<or> i = s1 \<and> j < s2)) = (\<lambda>i j. j \<le> h \<and> i \<le> s1)" by (auto simp: fun_eq_iff)
  then show ?case using 0 by simp
next
  case (Suc n)
  then have s2: "s2 \<le> h" "[s2 .. h] = s2 # [s2 + 1 .. h]" by (simp_all add: upto_rec1)
  obtain t1 where t1: "isValid t = (True, t1)" using Suc.prems(1) unfolding s2(2) by (cases "isValid t") (auto split: if_splits)
  have "dp_inv xs ys (\<lambda>i j. j \<le> h \<and> (i < s1 \<or> i = s1 \<and> j < s2) \<or> i = s1 \<and> j = s2) (dp_cell q1 q2 equalityScore s1 s2 T)"
    by (rule dp_cell_inv) (use Suc.prems assms s2(1) in auto)
  moreover have "(\<lambda>i j. j \<le> h \<and> (i < s1 \<or> i = s1 \<and> j < s2) \<or> i = s1 \<and> j = s2) = (\<lambda>i j. j \<le> h \<and> (i < s1 \<or> i = s1 \<and> j < s2 + 1))"
    using s2(1) by (auto simp: fun_eq_iff)
  ultimately show ?case
    using Suc.hyps(1) [of "s2 + 1" "dp_cell q1 q2 equalityScore s1 s2 T" t1] Suc.hyps(2) Suc.prems t1 unfolding s2(2) by simp
qed

lemma dp_rows_inv:
  fixes T :: "'n::{zero,one,plus,uminus,linorder} dp_tables"
  assumes "sequence_of xs q1" "sequence_of ys q2" "- 1 < (0::'n)"
  shows "dp_rows isValid q1 q2 equalityScore [s1 .. int (length xs) - 1] (T, t) = Some (T', t') \<Longrightarrow> 0 \<le> s1 \<Longrightarrow>
    dp_inv xs ys (\<lambda>i j. j < int (length ys) \<and> i < s1) T \<Longrightarrow> dp_inv xs ys (\<lambda>i j. j < int (length ys)) T'"
proof (induction "nat (int (length xs) - s1)" arbitrary: s1 T t)
  case 0
  then show ?case by (auto simp: dp_inv_def)
next
  case (Suc n)
  let ?h = "int (length ys) - 1"
  have s1: "s1 < int (length xs)" "[s1 .. int (length xs) - 1] = s1 # [s1 + 1 .. int (length xs) - 1]"
    using Suc.hyps(2) by (simp_all add: upto_rec1)
  obtain T1 t1 where row: "dp_row isValid q1 q2 equalityScore s1 [0 .. ?h] (T, t) = Some (T1, t1)"
    and rows: "dp_rows isValid q1 q2 equalityScore [s1 + 1 .. int (length xs) - 1] (T1, t1) = Some (T', t')"
    using Suc.prems(1) unfolding s1(2) by (auto simp: sequence_of_length [OF assms(2)] bind_eq_Some_conv)
  have "dp_inv xs ys (\<lambda>i j. j \<le> ?h \<and> (i < s1 \<or> i = s1 \<and> j < 0)) T"
    using Suc.prems(3) by (auto simp: dp_inv_def)
  then have "dp_inv xs ys (\<lambda>i j. j \<le> ?h \<and> i \<le> s1) T1"
    using dp_row_inv [OF assms Suc.prems(2) s1(1) row] by simp
  then have "dp_inv xs ys (\<lambda>i j. j < int (length ys) \<and> i < s1 + 1) T1" by (simp add: dp_inv_def)
  then show ?case using Suc.hyps(1) [OF _ rows] Suc.hyps(2) Suc.prems(2) by simp
qed

section \<open>What backtracking reports\<close>

text \<open>
  The differences are apart: something is left unchanged between two of them, and none of them is empty.
\<close>

fun diffs_apart :: "number \<Rightarrow> SequenceDiff list \<Rightarrow> bool" where
  "diffs_apart i [] \<longleftrightarrow> True"
| "diffs_apart i (d # ds) \<longleftrightarrow>
     i \<le> start (seq1Range d) \<and> (start (seq1Range d) < endExclusive (seq1Range d) \<or> start (seq2Range d) < endExclusive (seq2Range d)) \<and>
     diffs_apart (endExclusive (seq1Range d) + 1) ds"

definition backtrack_inv :: "'e list \<Rightarrow> 'e list \<Rightarrow> number \<Rightarrow> backtrack \<Rightarrow> bool" where
  "backtrack_inv xs ys gap b \<longleftrightarrow>
     diffs_ok xs ys (lastAligningPosS1 b + gap) (lastAligningPosS2 b + gap) (rev (bt_result b)) \<and>
     diffs_apart (lastAligningPosS1 b + 1) (rev (bt_result b))"

lemma diffs_apart_mono: "diffs_apart i ds \<Longrightarrow> k \<le> i \<Longrightarrow> diffs_apart k ds"
  by (cases ds) auto

lemma report_inv:
  assumes "backtrack_inv xs ys 0 b" "s1 < lastAligningPosS1 b" "s2 < lastAligningPosS2 b" "- 1 \<le> s1" "- 1 \<le> s2"
  shows "\<exists>b'. reportDecreasingAligningPositions s1 s2 b = Inr b' \<and> backtrack_inv xs ys 1 b' \<and>
      lastAligningPosS1 b' = s1 \<and> lastAligningPosS2 b' = s2"
proof (cases "s1 + 1 \<noteq> lastAligningPosS1 b \<or> s2 + 1 \<noteq> lastAligningPosS2 b")
  case True
  let ?d = "\<lparr>seq1Range = \<lparr>start = s1 + 1, endExclusive = lastAligningPosS1 b\<rparr>, seq2Range = \<lparr>start = s2 + 1, endExclusive = lastAligningPosS2 b\<rparr>\<rparr>"
  have "diff_of (s1 + 1) (lastAligningPosS1 b) (s2 + 1) (lastAligningPosS2 b) = Inr ?d" using assms(2,3) by (simp add: diff_of_Inr)
  moreover have "0 \<le> lastAligningPosS1 b \<and> 0 \<le> lastAligningPosS2 b \<and> lastAligningPosS1 b \<le> int (length xs) \<and> lastAligningPosS2 b \<le> int (length ys)"
    using diffs_ok_bounds assms(1) unfolding backtrack_inv_def by fastforce
  ultimately show ?thesis
    using True assms by (auto simp: reportDecreasingAligningPositions_def backtrack_inv_def diffs_ok_Cons diff_at_def same_elements_def)
next
  case False
  then show ?thesis using assms
    by (auto simp: reportDecreasingAligningPositions_def backtrack_inv_def add_ac elim: diffs_apart_mono)
qed

text \<open>Where the table has direction 3 the elements are the same.\<close>

definition directions_ok :: "'e list \<Rightarrow> 'e list \<Rightarrow> number Array2D \<Rightarrow> bool" where
  "directions_ok xs ys dirs \<longleftrightarrow>
     (\<forall>i j. 0 \<le> i \<longrightarrow> i < int (length xs) \<longrightarrow> 0 \<le> j \<longrightarrow> j < int (length ys) \<longrightarrow> Array2D_get dirs i j = Some 3 \<longrightarrow> arr_at xs i = arr_at ys j)"

lemma backtrack_inv_bounds:
  "backtrack_inv xs ys 0 b \<Longrightarrow> lastAligningPosS1 b \<le> int (length xs) \<and> lastAligningPosS2 b \<le> int (length ys)"
  using diffs_ok_bounds unfolding backtrack_inv_def by fastforce

lemma report_aligned:
  assumes "directions_ok xs ys dirs" "backtrack_inv xs ys 0 b" "s1 < lastAligningPosS1 b" "s2 < lastAligningPosS2 b" "0 \<le> s1" "0 \<le> s2"
    and "Array2D_get dirs s1 s2 = Some 3"
  shows "\<exists>b'. reportDecreasingAligningPositions s1 s2 b = Inr b' \<and> backtrack_inv xs ys 0 b' \<and>
      lastAligningPosS1 b' = s1 \<and> lastAligningPosS2 b' = s2"
proof -
  obtain b' where b': "reportDecreasingAligningPositions s1 s2 b = Inr b'" "backtrack_inv xs ys 1 b'"
      "lastAligningPosS1 b' = s1" "lastAligningPosS2 b' = s2"
    using report_inv [OF assms(2-4)] assms(5,6) by auto
  have "arr_at xs s1 = arr_at ys s2" using assms backtrack_inv_bounds [OF assms(2)] by (simp add: directions_ok_def)
  then have "backtrack_inv xs ys 0 b'" using b' assms(5,6) diffs_ok_extend unfolding backtrack_inv_def by auto
  then show ?thesis using b' by blast
qed

lemma dp_backtrack_inv:
  "directions_ok xs ys dirs \<Longrightarrow> backtrack_inv xs ys 0 b \<Longrightarrow> s1 < lastAligningPosS1 b \<Longrightarrow> s2 < lastAligningPosS2 b \<Longrightarrow> - 1 \<le> s1 \<Longrightarrow> - 1 \<le> s2 \<Longrightarrow>
    \<exists>b'. dp_backtrack dirs s1 s2 b = Inr b' \<and> backtrack_inv xs ys 0 b' \<and> - 1 < lastAligningPosS1 b' \<and> - 1 < lastAligningPosS2 b'"
proof (induction dirs s1 s2 b rule: dp_backtrack.induct)
  case (1 dirs s1 s2 b)
  consider (out) "\<not> (0 \<le> s1 \<and> 0 \<le> s2)" | (aligned) "0 \<le> s1 \<and> 0 \<le> s2" "Array2D_get dirs s1 s2 = Some 3"
    | (left) "0 \<le> s1 \<and> 0 \<le> s2" "Array2D_get dirs s1 s2 \<noteq> Some 3" "Array2D_get dirs s1 s2 = Some 1"
    | (up) "0 \<le> s1 \<and> 0 \<le> s2" "Array2D_get dirs s1 s2 \<noteq> Some 3" "Array2D_get dirs s1 s2 \<noteq> Some 1" by blast
  then show ?case
  proof cases
    case out
    then show ?thesis using 1(5-) by (auto simp: dp_backtrack.simps [of dirs s1 s2 b])
  next
    case aligned
    then obtain b' where b': "reportDecreasingAligningPositions s1 s2 b = Inr b'" "backtrack_inv xs ys 0 b'"
        "lastAligningPosS1 b' = s1" "lastAligningPosS2 b' = s2"
      using report_aligned [OF 1(4-7)] by blast
    then show ?thesis using 1(1) [OF aligned, of b'] 1(4) aligned by (simp add: dp_backtrack.simps [of dirs s1 s2 b])
  next
    case left
    then show ?thesis using 1(2) [OF left 1(4,5)] 1(6-) by (simp add: dp_backtrack.simps [of dirs s1 s2 b])
  next
    case up
    then show ?thesis using 1(3) [OF up 1(4,5)] 1(6-) by (simp add: dp_backtrack.simps [of dirs s1 s2 b])
  qed
qed

lemma backtrack_result:
  assumes "directions_ok xs ys dirs"
    and b: "b = \<lparr>bt_result = [], lastAligningPosS1 = int (length xs), lastAligningPosS2 = int (length ys)\<rparr>"
  shows "\<exists>b' b''. dp_backtrack dirs (int (length xs) - 1) (int (length ys) - 1) b = Inr b' \<and>
    reportDecreasingAligningPositions (- 1) (- 1) b' = Inr b'' \<and>
    diffs_ok xs ys 0 0 (rev (bt_result b'')) \<and> diffs_apart 0 (rev (bt_result b''))"
proof -
  have "backtrack_inv xs ys 0 b" by (simp add: b backtrack_inv_def same_elements_def)
  then obtain b' where b': "dp_backtrack dirs (int (length xs) - 1) (int (length ys) - 1) b = Inr b'" "backtrack_inv xs ys 0 b'"
      "- 1 < lastAligningPosS1 b'" "- 1 < lastAligningPosS2 b'"
    using dp_backtrack_inv [OF assms(1), of b "int (length xs) - 1" "int (length ys) - 1"] by (auto simp: b)
  then show ?thesis using report_inv [OF b'(2-4)] by (auto simp: backtrack_inv_def)
qed

lemma dp_row_not_timed_out:
  assumes "\<forall>t. fst (isValid t)" shows "\<exists>st'. dp_row isValid q1 q2 equalityScore s1 cols (T, t) = Some st'"
  using assms by (induction cols arbitrary: T t) (auto split: prod.split, metis fst_conv)

lemma dp_rows_not_timed_out:
  assumes "\<forall>t. fst (isValid t)" shows "\<exists>st'. dp_rows isValid q1 q2 equalityScore rows st = Some st'"
proof (induction rows arbitrary: st)
  case (Cons s1 rows)
  obtain st' where "dp_row isValid q1 q2 equalityScore s1 [0 .. sq_length q2 - 1] st = Some st'"
    using dp_row_not_timed_out [OF assms] by (cases st) blast
  then show ?case using Cons by simp
qed simp

section \<open>The algorithm\<close>

lemma compute_filled:
  fixes equalityScore :: "(number \<Rightarrow> number \<Rightarrow> 'n::{zero,one,plus,uminus,linorder}) option"
  assumes q: "sequence_of xs q1" "sequence_of ys q2" and small: "int (length xs) * int (length ys) < 4294967296" and neg: "- 1 < (0::'n)"
    and ne: "xs \<noteq> []" "ys \<noteq> []"
  shows "(\<exists>r. DynamicProgrammingDiffing_compute q1 q2 isValid t equalityScore = Inr r \<and> diffs_ok xs ys 0 0 (diffs r) \<and>
            (hitTimeout r \<longrightarrow> diffs r = [\<lparr>seq1Range = \<lparr>start = 0, endExclusive = int (length xs)\<rparr>, seq2Range = \<lparr>start = 0, endExclusive = int (length ys)\<rparr>\<rparr>]) \<and>
            diffs_apart 0 (diffs r) \<and> ((\<forall>t. fst (isValid t)) \<longrightarrow> \<not> hitTimeout r))"
proof -
  define T :: "'n dp_tables" where "T = \<lparr>lcsLengths = \<lparr>a2_width = int (length xs), a2_height = int (length ys), a2_array = (\<lambda>_. None)\<rparr>,
      directions = \<lparr>a2_width = int (length xs), a2_height = int (length ys), a2_array = (\<lambda>_. None)\<rparr>,
      dp_lengths = \<lparr>a2_width = int (length xs), a2_height = int (length ys), a2_array = (\<lambda>_. None)\<rparr>\<rparr>"
  have init: "dp_inv xs ys (\<lambda>i j. j < int (length ys) \<and> i < 0) T" by (simp add: dp_inv_def T_def)
  show ?thesis
  proof (cases "dp_rows isValid q1 q2 equalityScore [0 .. int (length xs) - 1] (T, t)")
    case None
    then have "\<not> (\<forall>t. fst (isValid t))" by (metis dp_rows_not_timed_out option.distinct(1))
    then show ?thesis
      using None ne small q [THEN sequence_of_length] trivial_ok(2) [OF q]
      by (auto simp: DynamicProgrammingDiffing_compute_def new_Array2D_def T_def DiffAlgorithmResult_trivialTimedOut_def diff_of_Inr)
  next
    case (Some st')
    then obtain T' t' where rows: "dp_rows isValid q1 q2 equalityScore [0 .. int (length xs) - 1] (T, t) = Some (T', t')"
      by (cases st') auto
    have "dp_inv xs ys (\<lambda>i j. j < int (length ys)) T'" by (rule dp_rows_inv [OF q neg rows _ init]) simp
    then have "directions_ok xs ys (directions T')" by (fastforce simp: directions_ok_def dp_inv_def dp_cell_ok_def)
    from backtrack_result [OF this refl] show ?thesis
      using rows ne small q [THEN sequence_of_length]
      by (fastforce simp: DynamicProgrammingDiffing_compute_def new_Array2D_def T_def)
  qed
qed

lemma compute_ok:
  fixes equalityScore :: "(number \<Rightarrow> number \<Rightarrow> 'n::{zero,one,plus,uminus,linorder}) option"
  assumes "sequence_of xs q1" "sequence_of ys q2" "int (length xs) * int (length ys) < 4294967296" "- 1 < (0::'n)"
  shows "\<exists>r. DynamicProgrammingDiffing_compute q1 q2 isValid t equalityScore = Inr r \<and> diffs_ok xs ys 0 0 (diffs r) \<and>
    (xs \<noteq> [] \<and> ys \<noteq> [] \<longrightarrow> diffs_apart 0 (diffs r)) \<and> ((\<forall>t. fst (isValid t)) \<longrightarrow> \<not> hitTimeout r)"
proof (cases "xs = [] \<or> ys = []")
  case True
  then show ?thesis
    using trivial_ok(1) [OF assms(1,2)] assms(1,2) [THEN sequence_of_length] by (auto simp: DynamicProgrammingDiffing_compute_def)
next
  case False
  then show ?thesis using compute_filled [OF assms, of isValid t equalityScore] by auto
qed

text \<open>
  C29. For two sequences (whose product of lengths is a length of an array) the algorithm always returns. The differences it returns turn the
  first sequence into the second, they are in order with the same elements between them, and, when neither sequence is empty, none of
  them is empty and at least one common element separates two neighbours. It reports a timeout only if the timeout expired.
\<close>

theorem DynamicProgrammingDiffing_differences_are_valid:
  fixes equalityScore :: "(number \<Rightarrow> number \<Rightarrow> 'n::{zero,one,plus,uminus,linorder}) option"
  assumes "sequence_of xs q1" "sequence_of ys q2" "int (length xs) * int (length ys) < 4294967296" "- 1 < (0::'n)"
  shows "\<exists>r. DynamicProgrammingDiffing_compute q1 q2 isValid t equalityScore = Inr r \<and>
    diffs_ok xs ys 0 0 (diffs r) \<and> patch xs ys 0 (diffs r) = ys \<and>
    (xs \<noteq> [] \<and> ys \<noteq> [] \<longrightarrow> diffs_apart 0 (diffs r)) \<and>
    ((\<forall>t. fst (isValid t)) \<longrightarrow> \<not> hitTimeout r)"
  using compute_ok [OF assms, of isValid t equalityScore] patch_eq [of xs ys 0 0] by auto

theorem DynamicProgrammingDiffing_differences_are_valid_witness:
  "sequence_of [1, 2, 3 :: int] (list_sequence [1, 2, 3]) \<and> sequence_of [1, 3 :: int] (list_sequence [1, 3]) \<and> - 1 < (0 :: int) \<and>
   (\<exists>r. DynamicProgrammingDiffing_compute (list_sequence [1, 2, 3 :: int]) (list_sequence [1, 3]) (\<lambda>t. (True, t)) () (None :: (number \<Rightarrow> number \<Rightarrow> int) option) = Inr r \<and>
      diffs_ok [1, 2, 3 :: int] [1, 3] 0 0 (diffs r) \<and> patch [1, 2, 3 :: int] [1, 3] 0 (diffs r) = [1, 3] \<and> diffs_apart 0 (diffs r) \<and> \<not> hitTimeout r)"
  using DynamicProgrammingDiffing_differences_are_valid [of "[1, 2, 3 :: int]" "list_sequence [1, 2, 3]" "[1, 3]" "list_sequence [1, 3]"
      "\<lambda>t. (True, t)" "()" "None :: (number \<Rightarrow> number \<Rightarrow> int) option"] by simp

end
