(* ===== verification/Diff_Optimize.thy ===== *)
theory Diff_Optimize
  imports Diff_Sequence
begin

text \<open>
  The passes that rework the differences of a diff algorithm,
  \<open>src/vs/editor/common/diff/defaultLinesDiffComputer/heuristicSequenceOptimizations.ts\<close>: moving differences to join them, moving them to
  better boundaries, and joining what only a short match separates.
\<close>

section \<open>Joining by shifting\<close>

definition mismatch :: "'e ISequence \<Rightarrow> 'e ISequence \<Rightarrow> SequenceDiff \<Rightarrow> number \<Rightarrow> bool" where
  "mismatch q1 q2 cur o1 \<longleftrightarrow>
     sq_getElement q1 (start (seq1Range cur) + o1) \<noteq> sq_getElement q1 (endExclusive (seq1Range cur) + o1) \<or>
     sq_getElement q2 (start (seq2Range cur) + o1) \<noteq> sq_getElement q2 (endExclusive (seq2Range cur) + o1)"

text \<open>The value of \<open>d\<close> after \<open>for (d = 1; d <= length; d++) \<dots>\<close>, and after \<open>for (d = 0; d < length; d++) \<dots>\<close>.\<close>

function left_loop :: "'e ISequence \<Rightarrow> 'e ISequence \<Rightarrow> SequenceDiff \<Rightarrow> number \<Rightarrow> number \<Rightarrow> number" where
  "left_loop q1 q2 cur len d = (if d \<le> len \<and> \<not> mismatch q1 q2 cur (- d) then left_loop q1 q2 cur len (d + 1) else d)"
  by pat_completeness auto

termination
  by (relation "measure (\<lambda>(q1, q2, cur, len, d). nat (len + 1 - d))") auto

function right_loop :: "'e ISequence \<Rightarrow> 'e ISequence \<Rightarrow> SequenceDiff \<Rightarrow> number \<Rightarrow> number \<Rightarrow> number" where
  "right_loop q1 q2 cur len d = (if d < len \<and> \<not> mismatch q1 q2 cur d then right_loop q1 q2 cur len (d + 1) else d)"
  by pat_completeness auto

termination
  by (relation "measure (\<lambda>(q1, q2, cur, len, d). nat (len - d))") auto

declare left_loop.simps [simp del] right_loop.simps [simp del]

definition one_sided :: "SequenceDiff \<Rightarrow> bool" where
  "one_sided d \<longleftrightarrow> OffsetRange_isEmpty (seq1Range d) \<or> OffsetRange_isEmpty (seq2Range d)"

text \<open>The body of the first loop: the new end of \<open>result\<close>, whose last element was \<open>prevResult\<close>.\<close>

definition join_left :: "'e ISequence \<Rightarrow> 'e ISequence \<Rightarrow> SequenceDiff \<Rightarrow> SequenceDiff \<Rightarrow> SequenceDiff list result" where
  "join_left q1 q2 prevResult cur =
     (if one_sided cur then
        (let len = start (seq1Range cur) - endExclusive (seq1Range prevResult);
             d = left_loop q1 q2 cur len 1 - 1
         in if d = len
            then result_map (\<lambda>m. [m]) (diff_of (start (seq1Range prevResult)) (endExclusive (seq1Range cur) - len)
                                          (start (seq2Range prevResult)) (endExclusive (seq2Range cur) - len))
            else result_map (\<lambda>cur. [prevResult, cur]) (SequenceDiff_delta cur (- d)))
      else Inr [prevResult, cur])"

fun join_pass1 :: "'e ISequence \<Rightarrow> 'e ISequence \<Rightarrow> SequenceDiff list \<Rightarrow> SequenceDiff list \<Rightarrow> SequenceDiff list result" where
  "join_pass1 q1 q2 res [] = Inr res"
| "join_pass1 q1 q2 res (cur # rest) =
     result_bind (join_left q1 q2 (last res) cur) (\<lambda>new. join_pass1 q1 q2 (butlast res @ new) rest)"

text \<open>
  The second loop reads \<open>result[i]\<close> and \<open>result[i + 1]\<close> and may store into the latter: the list is what it has not passed yet. Inl in the pair is a
  merged element, Inr the one pushed.
\<close>

definition join_right :: "'e ISequence \<Rightarrow> 'e ISequence \<Rightarrow> SequenceDiff \<Rightarrow> SequenceDiff \<Rightarrow> (SequenceDiff + SequenceDiff) result" where
  "join_right q1 q2 cur nextResult =
     (if one_sided cur then
        (let len = start (seq1Range nextResult) - endExclusive (seq1Range cur);
             d = right_loop q1 q2 cur len 0
         in if d = len
            then result_map Inl (diff_of (start (seq1Range cur) + len) (endExclusive (seq1Range nextResult))
                                   (start (seq2Range cur) + len) (endExclusive (seq2Range nextResult)))
            else result_map Inr (if 0 < d then SequenceDiff_delta cur d else Inr cur))
      else Inr (Inr cur))"

function join_pass2 :: "'e ISequence \<Rightarrow> 'e ISequence \<Rightarrow> SequenceDiff list \<Rightarrow> SequenceDiff list \<Rightarrow> SequenceDiff list result" where
  "join_pass2 q1 q2 (cur # nextResult # rest) res2 =
     result_bind (join_right q1 q2 cur nextResult) (\<lambda>r.
       case r of Inl merged \<Rightarrow> join_pass2 q1 q2 (merged # rest) res2
       | Inr cur' \<Rightarrow> join_pass2 q1 q2 (nextResult # rest) (res2 @ [cur']))"
| "join_pass2 q1 q2 [x] res2 = Inr (res2 @ [x])"
| "join_pass2 q1 q2 [] res2 = Inr res2"
  by pat_completeness auto

termination
  by (relation "measure (\<lambda>(q1, q2, ds, res2). length ds)") auto

definition joinSequenceDiffsByShifting :: "'e ISequence \<Rightarrow> 'e ISequence \<Rightarrow> SequenceDiff list \<Rightarrow> SequenceDiff list result" where
  "joinSequenceDiffsByShifting q1 q2 sequenceDiffs =
     (case sequenceDiffs of [] \<Rightarrow> Inr sequenceDiffs
      | d # ds \<Rightarrow> result_bind (join_pass1 q1 q2 [d] ds) (\<lambda>res. join_pass2 q1 q2 res []))"

section \<open>Moving to a better boundary\<close>

abbreviation maxShiftLimit :: number where "maxShiftLimit \<equiv> 100"

function deltaBefore_loop :: "SequenceDiff \<Rightarrow> 'e ISequence \<Rightarrow> OffsetRange \<Rightarrow> OffsetRange \<Rightarrow> number \<Rightarrow> number" where
  "deltaBefore_loop d q2 seq1ValidRange seq2ValidRange deltaBefore =
     (if start (seq1Range d) - deltaBefore \<ge> start seq1ValidRange \<and> start (seq2Range d) - deltaBefore \<ge> start seq2ValidRange \<and>
         sq_isStronglyEqual q2 (start (seq2Range d) - deltaBefore) (endExclusive (seq2Range d) - deltaBefore) \<and> deltaBefore < maxShiftLimit
      then deltaBefore_loop d q2 seq1ValidRange seq2ValidRange (deltaBefore + 1) else deltaBefore)"
  by pat_completeness auto

termination
  by (relation "measure (\<lambda>(d, q2, v1, v2, k). nat (maxShiftLimit - k))") auto

function deltaAfter_loop :: "SequenceDiff \<Rightarrow> 'e ISequence \<Rightarrow> OffsetRange \<Rightarrow> OffsetRange \<Rightarrow> number \<Rightarrow> number" where
  "deltaAfter_loop d q2 seq1ValidRange seq2ValidRange deltaAfter =
     (if start (seq1Range d) + deltaAfter < endExclusive seq1ValidRange \<and> endExclusive (seq2Range d) + deltaAfter < endExclusive seq2ValidRange \<and>
         sq_isStronglyEqual q2 (start (seq2Range d) + deltaAfter) (endExclusive (seq2Range d) + deltaAfter) \<and> deltaAfter < maxShiftLimit
      then deltaAfter_loop d q2 seq1ValidRange seq2ValidRange (deltaAfter + 1) else deltaAfter)"
  by pat_completeness auto

termination
  by (relation "measure (\<lambda>(d, q2, v1, v2, k). nat (maxShiftLimit - k))") auto

declare deltaBefore_loop.simps [simp del] deltaAfter_loop.simps [simp del]

text \<open>\<open>q.getBoundaryScore!(k)\<close>: a call of a missing method throws.\<close>

definition boundary_score :: "'e ISequence \<Rightarrow> number \<Rightarrow> number result" where
  "boundary_score q k = (case sq_getBoundaryScore q of None \<Rightarrow> Inl TypeError | Some f \<Rightarrow> f k)"

definition shift_score :: "SequenceDiff \<Rightarrow> 'e ISequence \<Rightarrow> 'e ISequence \<Rightarrow> number \<Rightarrow> number result" where
  "shift_score d q1 q2 delta =
     result_bind (boundary_score q1 (start (seq1Range d) + delta)) (\<lambda>a.
     result_bind (boundary_score q2 (start (seq2Range d) + delta)) (\<lambda>b.
     result_map (\<lambda>c. a + b + c) (boundary_score q2 (endExclusive (seq2Range d) + delta))))"

definition best_step :: "SequenceDiff \<Rightarrow> 'e ISequence \<Rightarrow> 'e ISequence \<Rightarrow> number \<Rightarrow> number \<times> number \<Rightarrow> (number \<times> number) result" where
  "best_step d q1 q2 delta best = result_map (\<lambda>score. if score > snd best then (delta, score) else best) (shift_score d q1 q2 delta)"

definition shiftDiffToBetterPosition ::
  "SequenceDiff \<Rightarrow> 'e ISequence \<Rightarrow> 'e ISequence \<Rightarrow> OffsetRange \<Rightarrow> OffsetRange \<Rightarrow> SequenceDiff result" where
  "shiftDiffToBetterPosition d q1 q2 seq1ValidRange seq2ValidRange =
     (let deltaBefore = deltaBefore_loop d q2 seq1ValidRange seq2ValidRange 1 - 1;
          deltaAfter = deltaAfter_loop d q2 seq1ValidRange seq2ValidRange 0
      in if deltaBefore = 0 \<and> deltaAfter = 0 then Inr d
         else result_bind (result_fold (best_step d q1 q2) [- deltaBefore .. deltaAfter] (0, - 1)) (\<lambda>best. SequenceDiff_delta d (fst best)))"

definition shift_step :: "'e ISequence \<Rightarrow> 'e ISequence \<Rightarrow> nat \<Rightarrow> SequenceDiff list \<Rightarrow> SequenceDiff list result" where
  "shift_step q1 q2 i sequenceDiffs =
     (let prevDiff = (if 0 < i then Some (sequenceDiffs ! (i - 1)) else None);
          d = sequenceDiffs ! i;
          nextDiff = (if i + 1 < length sequenceDiffs then Some (sequenceDiffs ! (i + 1)) else None)
      in result_bind (new_OffsetRange (case prevDiff of Some p \<Rightarrow> start (seq1Range p) + 1 | None \<Rightarrow> 0)
                        (case nextDiff of Some n \<Rightarrow> endExclusive (seq1Range n) - 1 | None \<Rightarrow> sq_length q1)) (\<lambda>seq1ValidRange.
         result_bind (new_OffsetRange (case prevDiff of Some p \<Rightarrow> start (seq2Range p) + 1 | None \<Rightarrow> 0)
                        (case nextDiff of Some n \<Rightarrow> endExclusive (seq2Range n) - 1 | None \<Rightarrow> sq_length q2)) (\<lambda>seq2ValidRange.
           if OffsetRange_isEmpty (seq1Range d)
           then result_map (\<lambda>d'. sequenceDiffs[i := d']) (shiftDiffToBetterPosition d q1 q2 seq1ValidRange seq2ValidRange)
           else if OffsetRange_isEmpty (seq2Range d)
           then result_map (\<lambda>d'. sequenceDiffs[i := SequenceDiff_swap d'])
                  (shiftDiffToBetterPosition (SequenceDiff_swap d) q2 q1 seq2ValidRange seq1ValidRange)
           else Inr sequenceDiffs)))"

definition shiftSequenceDiffs :: "'e ISequence \<Rightarrow> 'e ISequence \<Rightarrow> SequenceDiff list \<Rightarrow> SequenceDiff list result" where
  "shiftSequenceDiffs q1 q2 sequenceDiffs =
     (if sq_getBoundaryScore q1 = None \<or> sq_getBoundaryScore q2 = None then Inr sequenceDiffs
      else result_fold (shift_step q1 q2) [0 ..< length sequenceDiffs] sequenceDiffs)"

definition optimizeSequenceDiffs :: "'e ISequence \<Rightarrow> 'e ISequence \<Rightarrow> SequenceDiff list \<Rightarrow> SequenceDiff list result" where
  "optimizeSequenceDiffs q1 q2 sequenceDiffs = result_bind (joinSequenceDiffsByShifting q1 q2 sequenceDiffs) (shiftSequenceDiffs q1 q2)"

section \<open>Joining across short matches\<close>

definition removeShortMatches_step :: "SequenceDiff \<Rightarrow> SequenceDiff list \<Rightarrow> SequenceDiff list result" where
  "removeShortMatches_step s res =
     (if res = [] then Inr (res @ [s])
      else if start (seq1Range s) - endExclusive (seq1Range (last res)) \<le> 2 \<or> start (seq2Range s) - endExclusive (seq2Range (last res)) \<le> 2
      then result_bind (OffsetRange_join (seq1Range (last res)) (seq1Range s)) (\<lambda>r1.
             result_map (\<lambda>r2. butlast res @ [new_SequenceDiff r1 r2]) (OffsetRange_join (seq2Range (last res)) (seq2Range s)))
      else Inr (res @ [s]))"

definition removeShortMatches :: "'e ISequence \<Rightarrow> 'e ISequence \<Rightarrow> SequenceDiff list \<Rightarrow> SequenceDiff list result" where
  "removeShortMatches q1 q2 sequenceDiffs = result_fold removeShortMatches_step sequenceDiffs []"

text \<open>
  The loops of the other passes: one sweep joins an element to the last one when \<open>shouldJoinDiffs\<close> says so, sweeps are repeated at most eleven times.
\<close>

definition join_sweep_step ::
  "(SequenceDiff \<Rightarrow> SequenceDiff \<Rightarrow> bool result) \<Rightarrow> SequenceDiff \<Rightarrow> SequenceDiff list \<times> bool \<Rightarrow> (SequenceDiff list \<times> bool) result" where
  "join_sweep_step shouldJoinDiffs cur st =
     result_bind (shouldJoinDiffs (last (fst st)) cur) (\<lambda>shouldJoin.
       if shouldJoin then result_map (\<lambda>d. (butlast (fst st) @ [d], True)) (SequenceDiff_join (last (fst st)) cur)
       else Inr (fst st @ [cur], snd st))"

definition join_sweep :: "(SequenceDiff \<Rightarrow> SequenceDiff \<Rightarrow> bool result) \<Rightarrow> SequenceDiff list \<Rightarrow> (SequenceDiff list \<times> bool) result" where
  "join_sweep shouldJoinDiffs ds = result_fold (join_sweep_step shouldJoinDiffs) (tl ds) ([hd ds], False)"

function join_sweeps :: "(SequenceDiff \<Rightarrow> SequenceDiff \<Rightarrow> bool result) \<Rightarrow> nat \<Rightarrow> SequenceDiff list \<Rightarrow> SequenceDiff list result" where
  "join_sweeps shouldJoinDiffs counter ds =
     result_bind (join_sweep shouldJoinDiffs ds) (\<lambda>(ds, shouldRepeat).
       if counter < 10 \<and> shouldRepeat then join_sweeps shouldJoinDiffs (counter + 1) ds else Inr ds)"
  by pat_completeness auto

termination
  by (relation "measure (\<lambda>(f, counter, ds). 10 - counter)") auto

declare join_sweeps.simps [simp del]

section \<open>Shifting keeps the differences valid\<close>

lemma mismatch_iff:
  assumes "sequence_of xs q1" "sequence_of ys q2"
  shows "\<not> mismatch q1 q2 cur k \<longleftrightarrow>
    arr_at xs (start (seq1Range cur) + k) = arr_at xs (endExclusive (seq1Range cur) + k) \<and>
    arr_at ys (start (seq2Range cur) + k) = arr_at ys (endExclusive (seq2Range cur) + k)"
  by (simp add: mismatch_def sequence_of_getElement [OF assms(1)] sequence_of_getElement [OF assms(2)])

lemma left_loop_cases:
  "\<not> (d \<le> len \<and> \<not> mismatch q1 q2 cur (- d)) \<Longrightarrow> left_loop q1 q2 cur len d = d"
  "d \<le> len \<Longrightarrow> \<not> mismatch q1 q2 cur (- d) \<Longrightarrow> left_loop q1 q2 cur len d = left_loop q1 q2 cur len (d + 1)"
  by (subst left_loop.simps; simp)+

lemma right_loop_cases:
  "\<not> (d < len \<and> \<not> mismatch q1 q2 cur d) \<Longrightarrow> right_loop q1 q2 cur len d = d"
  "d < len \<Longrightarrow> \<not> mismatch q1 q2 cur d \<Longrightarrow> right_loop q1 q2 cur len d = right_loop q1 q2 cur len (d + 1)"
  by (subst right_loop.simps; simp)+

lemma left_loop_ok:
  assumes q: "sequence_of xs q1" "sequence_of ys q2"
  shows "1 \<le> d \<Longrightarrow> d \<le> len + 1 \<Longrightarrow> len = start (seq1Range cur) - i \<Longrightarrow> diffs_ok xs ys i j (moved cur (1 - d) # ds) \<Longrightarrow>
    (\<exists>D. left_loop q1 q2 cur len d = D + 1 \<and> 0 \<le> D \<and> D \<le> len \<and> diffs_ok xs ys i j (moved cur (- D) # ds))"
proof (induction "nat (len + 1 - d)" arbitrary: d)
  case 0
  then have d: "d = len + 1" by simp
  then have "left_loop q1 q2 cur len d = d" by (intro left_loop_cases) simp
  then show ?case using 0 d by (intro exI [of _ len]) simp
next
  case (Suc n)
  show ?case
  proof (cases "d \<le> len \<and> \<not> mismatch q1 q2 cur (- d)")
    case True
    have "diffs_ok xs ys i j (moved (moved cur (1 - d)) (- 1) # ds)"
      by (rule diffs_ok_move_left [OF Suc.prems(4)]) (use Suc.prems(3) True mismatch_iff [OF q, of cur "- d"] in auto)
    then show ?thesis using Suc.hyps(1) [of "d + 1"] Suc.hyps(2) Suc.prems True by (simp add: left_loop_cases(2))
  next
    case False
    then have "left_loop q1 q2 cur len d = d" by (intro left_loop_cases) simp
    then show ?thesis using Suc.prems by (intro exI [of _ "d - 1"]) simp
  qed
qed

lemma right_loop_ok:
  assumes q: "sequence_of xs q1" "sequence_of ys q2"
  shows "0 \<le> d \<Longrightarrow> d \<le> len \<Longrightarrow> len = first_gap xs (endExclusive (seq1Range cur)) ds \<Longrightarrow> diffs_ok xs ys i j (moved cur d # ds) \<Longrightarrow>
    (\<exists>D. right_loop q1 q2 cur len d = D \<and> 0 \<le> D \<and> D \<le> len \<and> diffs_ok xs ys i j (moved cur D # ds))"
proof (induction "nat (len - d)" arbitrary: d)
  case 0
  then have "right_loop q1 q2 cur len d = d" by (intro right_loop_cases) simp
  then show ?case using 0 by simp
next
  case (Suc n)
  show ?case
  proof (cases "d < len \<and> \<not> mismatch q1 q2 cur d")
    case True
    have "diffs_ok xs ys i j (moved (moved cur d) 1 # ds)"
      by (rule diffs_ok_move_right [OF Suc.prems(4)])
        (use Suc.prems(3) True mismatch_iff [OF q, of cur d] in \<open>auto simp: first_gap_def\<close>)
    then show ?thesis using Suc.hyps(1) [of "d + 1"] Suc.hyps(2) Suc.prems True by (simp add: right_loop_cases(2))
  next
    case False
    then have "right_loop q1 q2 cur len d = d" by (intro right_loop_cases) simp
    then show ?thesis using Suc.prems by simp
  qed
qed

lemma diff_of_joined:
  assumes "diffs_ok xs ys i j (a # b # ds)"
  shows "diff_of (start (seq1Range a)) (endExclusive (seq1Range b)) (start (seq2Range a)) (endExclusive (seq2Range b)) = Inr (joined a b)"
  using assms by (auto simp: diff_of_Inr joined_def diffs_ok_Cons diff_at_def)

lemma join_left_ok:
  assumes q: "sequence_of xs q1" "sequence_of ys q2" and ok: "diffs_ok xs ys i j (prev # cur # rest)"
  shows "\<exists>new. join_left q1 q2 prev cur = Inr new \<and> new \<noteq> [] \<and> diffs_ok xs ys i j (new @ rest)"
proof (cases "one_sided cur")
  case True
  let ?i = "endExclusive (seq1Range prev)" and ?j = "endExclusive (seq2Range prev)" and ?len = "start (seq1Range cur) - endExclusive (seq1Range prev)"
  have ok1: "diffs_ok xs ys ?i ?j (cur # rest)" using ok by (simp only: diffs_ok_Cons)
  obtain D where D: "left_loop q1 q2 cur ?len 1 = D + 1" "0 \<le> D" "D \<le> ?len" "diffs_ok xs ys ?i ?j (moved cur (- D) # rest)"
    using left_loop_ok [OF q, of 1 ?len cur ?i ?j rest] ok1 by (auto simp: diffs_ok_Cons diff_at_def)
  have ok2: "diffs_ok xs ys i j (prev # moved cur (- D) # rest)" using ok D(4) by (simp only: diffs_ok_Cons [of _ _ i])
  show ?thesis
  proof (cases "D = ?len")
    case eq: True
    have "diff_of (start (seq1Range prev)) (endExclusive (seq1Range cur) - ?len) (start (seq2Range prev)) (endExclusive (seq2Range cur) - ?len) =
        Inr (joined prev (moved cur (- D)))"
      using diff_of_joined [OF ok2] by (simp only: moved_simps eq diff_conv_add_uminus)
    then have "join_left q1 q2 prev cur = Inr [joined prev (moved cur (- D))]"
      using True D(1) eq by (simp add: join_left_def Let_def)
    then show ?thesis using diffs_ok_joined [OF ok2] by simp
  next
    case False
    then have "join_left q1 q2 prev cur = Inr [prev, moved cur (- D)]"
      using True D(1) SequenceDiff_delta_moved [OF ok1] by (simp add: join_left_def)
    then show ?thesis using ok2 by simp
  qed
qed (use ok in \<open>simp add: join_left_def\<close>)

lemma join_pass1_ok:
  assumes q: "sequence_of xs q1" "sequence_of ys q2"
  shows "res \<noteq> [] \<Longrightarrow> diffs_ok xs ys i j (res @ rest) \<Longrightarrow> \<exists>r. join_pass1 q1 q2 res rest = Inr r \<and> diffs_ok xs ys i j r"
proof (induction rest arbitrary: res)
  case (Cons cur rest)
  have "diffs_ok xs ys i j (butlast res @ last res # cur # rest)" using Cons.prems by (cases res rule: rev_cases) simp_all
  from diffs_ok_replace [OF this] obtain i' j' where r: "diffs_ok xs ys i' j' (last res # cur # rest)"
    "\<And>rs. diffs_ok xs ys i' j' rs \<Longrightarrow> diffs_ok xs ys i j (butlast res @ rs)" by blast
  from join_left_ok [OF q r(1)] obtain new where "join_left q1 q2 (last res) cur = Inr new" "new \<noteq> []" "diffs_ok xs ys i' j' (new @ rest)" by blast
  then show ?case using Cons.IH [of "butlast res @ new"] r(2) by simp
qed simp

lemma join_right_ok:
  assumes q: "sequence_of xs q1" "sequence_of ys q2" and ok: "diffs_ok xs ys i j (cur # next # rest)"
  shows "(\<exists>m. join_right q1 q2 cur next = Inr (Inl m) \<and> diffs_ok xs ys i j (m # rest)) \<or>
    (\<exists>c. join_right q1 q2 cur next = Inr (Inr c) \<and> diffs_ok xs ys i j (c # next # rest))"
proof (cases "one_sided cur")
  case True
  let ?len = "start (seq1Range next) - endExclusive (seq1Range cur)"
  obtain D where D: "right_loop q1 q2 cur ?len 0 = D" "0 \<le> D" "D \<le> ?len" "diffs_ok xs ys i j (moved cur D # next # rest)"
  proof -
    have "?len = first_gap xs (endExclusive (seq1Range cur)) (next # rest)" by (simp add: first_gap_def)
    moreover have "0 \<le> ?len" using ok by (simp add: diffs_ok_Cons diff_at_def)
    ultimately show ?thesis using right_loop_ok [OF q, of 0 ?len cur "next # rest" i j] ok that by auto
  qed
  show ?thesis
  proof (cases "D = ?len")
    case eq: True
    have "diff_of (start (seq1Range cur) + ?len) (endExclusive (seq1Range next)) (start (seq2Range cur) + ?len) (endExclusive (seq2Range next)) =
        Inr (joined (moved cur D) next)"
      using diff_of_joined [OF D(4)] by (simp only: moved_simps eq)
    then have "join_right q1 q2 cur next = Inr (Inl (joined (moved cur D) next))"
      using True D(1) eq by (simp add: join_right_def Let_def)
    then show ?thesis using diffs_ok_joined [OF D(4)] by simp
  next
    case False
    then have "join_right q1 q2 cur next = Inr (Inr (moved cur D))"
      using True D(1,2) SequenceDiff_delta_moved [OF ok] by (auto simp add: join_right_def)
    then show ?thesis using D(4) by simp
  qed
qed (use ok in \<open>simp add: join_right_def\<close>)

lemma join_pass2_ok:
  assumes q: "sequence_of xs q1" "sequence_of ys q2"
  shows "diffs_ok xs ys i j (res2 @ ds) \<Longrightarrow> \<exists>r. join_pass2 q1 q2 ds res2 = Inr r \<and> diffs_ok xs ys i j r"
proof (induction "length ds" arbitrary: ds res2)
  case (Suc n)
  then obtain cur ds' where ds: "ds = cur # ds'" by (cases ds) auto
  show ?case
  proof (cases ds')
    case Nil
    then show ?thesis using ds Suc.prems by simp
  next
    case (Cons nextr rest)
    from diffs_ok_replace [OF Suc.prems [unfolded ds Cons]] obtain i' j' where r: "diffs_ok xs ys i' j' (cur # nextr # rest)"
      "\<And>rs. diffs_ok xs ys i' j' rs \<Longrightarrow> diffs_ok xs ys i j (res2 @ rs)" by blast
    from join_right_ok [OF q r(1)] show ?thesis
    proof (elim disjE exE conjE)
      fix m assume "join_right q1 q2 cur nextr = Inr (Inl m)" "diffs_ok xs ys i' j' (m # rest)"
      then show ?thesis using Suc.hyps(1) [of "m # rest" res2] Suc.hyps(2) r(2) by (simp add: ds Cons)
    next
      fix c assume c: "join_right q1 q2 cur nextr = Inr (Inr c)" "diffs_ok xs ys i' j' (c # nextr # rest)"
      then show ?thesis using Suc.hyps(1) [of "nextr # rest" "res2 @ [c]"] Suc.hyps(2) r(2) [OF c(2)] by (simp add: ds Cons)
    qed
  qed
qed simp

lemma joinSequenceDiffsByShifting_ok:
  assumes "sequence_of xs q1" "sequence_of ys q2" "diffs_ok xs ys i j ds"
  shows "\<exists>ds'. joinSequenceDiffsByShifting q1 q2 ds = Inr ds' \<and> diffs_ok xs ys i j ds'"
proof (cases ds)
  case (Cons d rest)
  then obtain r where r: "join_pass1 q1 q2 [d] rest = Inr r" "diffs_ok xs ys i j r"
    using join_pass1_ok [OF assms(1,2), of "[d]" i j rest] assms(3) by auto
  then show ?thesis
    using join_pass2_ok [OF assms(1,2), of i j "[]" r] by (simp add: joinSequenceDiffsByShifting_def Cons)
next
  case Nil
  then have "joinSequenceDiffsByShifting q1 q2 ds = Inr ds" by (simp add: joinSequenceDiffsByShifting_def)
  then show ?thesis using assms(3) by blast
qed

section \<open>Joining neighbours keeps the differences valid\<close>

lemma diffs_ok_join_last:
  assumes "res \<noteq> []" "diffs_ok xs ys i j (res @ cur # rest)"
  shows "SequenceDiff_join (last res) cur = Inr (joined (last res) cur)" "diffs_ok xs ys i j ((butlast res @ [joined (last res) cur]) @ rest)"
proof -
  have "diffs_ok xs ys i j (butlast res @ last res # cur # rest)" using assms by (cases res rule: rev_cases) simp_all
  from diffs_ok_replace [OF this] obtain i' j' where r: "diffs_ok xs ys i' j' (last res # cur # rest)"
    "\<And>rs. diffs_ok xs ys i' j' rs \<Longrightarrow> diffs_ok xs ys i j (butlast res @ rs)" by blast
  show "SequenceDiff_join (last res) cur = Inr (joined (last res) cur)" by (rule SequenceDiff_join_neighbours [OF r(1)])
  show "diffs_ok xs ys i j ((butlast res @ [joined (last res) cur]) @ rest)" using r(2) [OF diffs_ok_joined [OF r(1)]] by simp
qed

text \<open>The gaps that are left are longer than two elements.\<close>

definition long_gap :: "SequenceDiff \<Rightarrow> SequenceDiff \<Rightarrow> bool" where
  "long_gap a b \<longleftrightarrow> 2 < start (seq1Range b) - endExclusive (seq1Range a) \<and> 2 < start (seq2Range b) - endExclusive (seq2Range a)"

lemma removeShortMatches_step_eq:
  "removeShortMatches_step s res =
     (if res \<noteq> [] \<and> \<not> long_gap (last res) s then result_map (\<lambda>d. butlast res @ [d]) (SequenceDiff_join (last res) s) else Inr (res @ [s]))"
  by (cases "OffsetRange_join (seq1Range (last res)) (seq1Range s)"; cases "OffsetRange_join (seq2Range (last res)) (seq2Range s)")
    (auto simp: removeShortMatches_step_def SequenceDiff_join_def long_gap_def)

lemma long_gap_joined: "long_gap a (joined b c) \<longleftrightarrow> long_gap a b"
  by (simp add: long_gap_def joined_def)

lemma successively_joined_last:
  "successively long_gap res \<Longrightarrow> res \<noteq> [] \<Longrightarrow> successively long_gap (butlast res @ [joined (last res) c])"
  by (cases res rule: rev_cases) (auto simp: successively_append_iff long_gap_joined)

lemma removeShortMatches_ok:
  "diffs_ok xs ys i j (res @ ds) \<Longrightarrow> successively long_gap res \<Longrightarrow>
    \<exists>ds'. result_fold removeShortMatches_step ds res = Inr ds' \<and> diffs_ok xs ys i j ds' \<and> successively long_gap ds'"
proof (induction ds arbitrary: res)
  case (Cons s ds)
  show ?case
  proof (cases "res \<noteq> [] \<and> \<not> long_gap (last res) s")
    case True
    note joined = diffs_ok_join_last [OF conjunct1 [OF True] Cons.prems(1)]
    then have "removeShortMatches_step s res = Inr (butlast res @ [joined (last res) s])" using True by (simp add: removeShortMatches_step_eq)
    then show ?thesis using Cons.IH [OF joined(2) successively_joined_last] Cons.prems(2) True by simp
  next
    case False
    then have "removeShortMatches_step s res = Inr (res @ [s])" by (auto simp: removeShortMatches_step_eq)
    moreover have "successively long_gap (res @ [s])" using False Cons.prems(2) by (auto simp: successively_append_iff)
    ultimately show ?thesis using Cons.IH [of "res @ [s]"] Cons.prems(1) by simp
  qed
qed simp

text \<open>A sweep never throws when \<open>shouldJoinDiffs\<close> does not on differences in order.\<close>

definition answers_neighbours :: "'e list \<Rightarrow> 'e list \<Rightarrow> (SequenceDiff \<Rightarrow> SequenceDiff \<Rightarrow> bool result) \<Rightarrow> bool" where
  "answers_neighbours xs ys f \<longleftrightarrow> (\<forall>i j a b ds. diffs_ok xs ys i j (a # b # ds) \<longrightarrow> (\<exists>r. f a b = Inr r))"

lemma join_sweep_fold_ok:
  assumes f: "answers_neighbours xs ys f"
  shows "fst st \<noteq> [] \<Longrightarrow> diffs_ok xs ys i j (fst st @ ds) \<Longrightarrow>
    \<exists>st'. result_fold (join_sweep_step f) ds st = Inr st' \<and> fst st' \<noteq> [] \<and> diffs_ok xs ys i j (fst st')"
proof (induction ds arbitrary: st)
  case (Cons cur ds)
  have "diffs_ok xs ys i j (butlast (fst st) @ last (fst st) # cur # ds)" using Cons.prems by (cases "fst st" rule: rev_cases) simp_all
  from diffs_ok_replace [OF this] obtain r where r: "f (last (fst st)) cur = Inr r" using f unfolding answers_neighbours_def by blast
  show ?case
  proof (cases r)
    case True
    then have "join_sweep_step f cur st = Inr (butlast (fst st) @ [joined (last (fst st)) cur], True)"
      using r diffs_ok_join_last(1) [OF Cons.prems] by (simp add: join_sweep_step_def)
    then show ?thesis using Cons.IH [of "(butlast (fst st) @ [joined (last (fst st)) cur], True)"] diffs_ok_join_last(2) [OF Cons.prems] by simp
  next
    case False
    then have "join_sweep_step f cur st = Inr (fst st @ [cur], snd st)" using r by (simp add: join_sweep_step_def)
    then show ?thesis using Cons.IH [of "(fst st @ [cur], snd st)"] Cons.prems by simp
  qed
qed simp

lemma join_sweeps_ok:
  assumes f: "answers_neighbours xs ys f"
  shows "ds \<noteq> [] \<Longrightarrow> diffs_ok xs ys i j ds \<Longrightarrow> \<exists>ds'. join_sweeps f counter ds = Inr ds' \<and> diffs_ok xs ys i j ds'"
proof (induction "10 - counter" arbitrary: counter ds)
  case 0
  then obtain st' where "join_sweep f ds = Inr st'" "diffs_ok xs ys i j (fst st')"
    using join_sweep_fold_ok [OF f, of "([hd ds], False)" i j "tl ds"] by (auto simp: join_sweep_def)
  then show ?case using 0 by (cases st') (simp add: join_sweeps.simps)
next
  case (Suc n)
  then obtain st' where "join_sweep f ds = Inr st'" "fst st' \<noteq> []" "diffs_ok xs ys i j (fst st')"
    using join_sweep_fold_ok [OF f, of "([hd ds], False)" i j "tl ds"] by (auto simp: join_sweep_def)
  then show ?case using Suc.hyps(1) [of "counter + 1" "fst st'"] Suc.hyps(2) by (cases st') (simp add: join_sweeps.simps [of f counter ds])
qed

section \<open>Moving within the gaps\<close>

lemma deltaBefore_loop_ok:
  assumes q: "sequence_of ys q2" and empty: "start (seq1Range d) = endExclusive (seq1Range d)" and v1: "i \<le> start v1"
  shows "1 \<le> k \<Longrightarrow> k \<le> maxShiftLimit \<Longrightarrow> \<forall>l. 0 \<le> l \<and> l < k \<longrightarrow> diffs_ok xs ys i j (moved d (- l) # ds) \<Longrightarrow>
    k \<le> deltaBefore_loop d q2 v1 v2 k \<and> (\<forall>l. 0 \<le> l \<and> l < deltaBefore_loop d q2 v1 v2 k \<longrightarrow> diffs_ok xs ys i j (moved d (- l) # ds))"
proof (induction "nat (maxShiftLimit - k)" arbitrary: k)
  case 0
  then have "deltaBefore_loop d q2 v1 v2 k = k" by (subst deltaBefore_loop.simps) simp
  then show ?case using 0 by simp
next
  case (Suc n)
  show ?case
  proof (cases "start (seq1Range d) - k \<ge> start v1 \<and> start (seq2Range d) - k \<ge> start v2 \<and>
         sq_isStronglyEqual q2 (start (seq2Range d) - k) (endExclusive (seq2Range d) - k) \<and> k < maxShiftLimit")
    case True
    then have loop: "deltaBefore_loop d q2 v1 v2 k = deltaBefore_loop d q2 v1 v2 (k + 1)" by (subst deltaBefore_loop.simps) simp
    have "arr_at ys (start (seq2Range d) - k) = arr_at ys (endExclusive (seq2Range d) - k)" using True q by (simp add: sequence_of_def)
    moreover have "diffs_ok xs ys i j (moved d (- (k - 1)) # ds)" using Suc.prems(1) Suc.prems(3) [THEN spec, of "k - 1"] by simp
    ultimately have "diffs_ok xs ys i j (moved (moved d (- (k - 1))) (- 1) # ds)"
      by (intro diffs_ok_move_left) (use True v1 empty in auto)
    then have "diffs_ok xs ys i j (moved d (- k) # ds)" by simp
    then have "\<forall>l. 0 \<le> l \<and> l < k + 1 \<longrightarrow> diffs_ok xs ys i j (moved d (- l) # ds)" using Suc.prems(3) by (metis zless_add1_eq)
    moreover have "n = nat (maxShiftLimit - (k + 1))" using Suc.hyps(2) by simp
    ultimately show ?thesis using Suc.hyps(1) [of "k + 1"] Suc.prems(1) True loop by auto
  next
    case False
    then have "deltaBefore_loop d q2 v1 v2 k = k" by (subst deltaBefore_loop.simps) auto
    then show ?thesis using Suc.prems by simp
  qed
qed

lemma deltaAfter_loop_ok:
  assumes q: "sequence_of ys q2" and empty: "start (seq1Range d) = endExclusive (seq1Range d)"
    and v1: "endExclusive v1 \<le> endExclusive (seq1Range d) + first_gap xs (endExclusive (seq1Range d)) ds"
  shows "0 \<le> k \<Longrightarrow> k \<le> maxShiftLimit \<Longrightarrow> \<forall>l. 0 \<le> l \<and> l \<le> k \<longrightarrow> diffs_ok xs ys i j (moved d l # ds) \<Longrightarrow>
    k \<le> deltaAfter_loop d q2 v1 v2 k \<and> (\<forall>l. 0 \<le> l \<and> l \<le> deltaAfter_loop d q2 v1 v2 k \<longrightarrow> diffs_ok xs ys i j (moved d l # ds))"
proof (induction "nat (maxShiftLimit - k)" arbitrary: k)
  case 0
  then have "deltaAfter_loop d q2 v1 v2 k = k" by (subst deltaAfter_loop.simps) simp
  then show ?case using 0 by simp
next
  case (Suc n)
  show ?case
  proof (cases "start (seq1Range d) + k < endExclusive v1 \<and> endExclusive (seq2Range d) + k < endExclusive v2 \<and>
         sq_isStronglyEqual q2 (start (seq2Range d) + k) (endExclusive (seq2Range d) + k) \<and> k < maxShiftLimit")
    case True
    then have loop: "deltaAfter_loop d q2 v1 v2 k = deltaAfter_loop d q2 v1 v2 (k + 1)" by (subst deltaAfter_loop.simps) simp
    have "arr_at ys (start (seq2Range d) + k) = arr_at ys (endExclusive (seq2Range d) + k)" using True q by (simp add: sequence_of_def)
    moreover have "diffs_ok xs ys i j (moved d k # ds)" using Suc.prems(1) Suc.prems(3) by simp
    ultimately have "diffs_ok xs ys i j (moved (moved d k) 1 # ds)"
      by (intro diffs_ok_move_right) (use True v1 empty in \<open>auto simp: first_gap_def\<close>)
    then have "diffs_ok xs ys i j (moved d (k + 1) # ds)" by simp
    then have "\<forall>l. 0 \<le> l \<and> l \<le> k + 1 \<longrightarrow> diffs_ok xs ys i j (moved d l # ds)" using Suc.prems(3)
      by (metis zle_add1_eq_le order_le_less)
    moreover have "n = nat (maxShiftLimit - (k + 1))" using Suc.hyps(2) by simp
    ultimately show ?thesis using Suc.hyps(1) [of "k + 1"] Suc.prems(1) True loop by auto
  next
    case False
    then have "deltaAfter_loop d q2 v1 v2 k = k" by (subst deltaAfter_loop.simps) auto
    then show ?thesis using Suc.prems by simp
  qed
qed

text \<open>The scores are defined where a difference may be, and the search keeps one with the greatest score.\<close>

lemma shift_score_defined:
  assumes "sequence_of xs q1" "sequence_of ys q2" "sq_getBoundaryScore q1 \<noteq> None" "sq_getBoundaryScore q2 \<noteq> None"
    and "diffs_ok xs ys i j (moved d k # ds)"
  shows "\<exists>v. shift_score d q1 q2 k = Inr v"
proof -
  obtain f g where fg: "sq_getBoundaryScore q1 = Some f" "sq_getBoundaryScore q2 = Some g" using assms(3,4) by blast
  have "0 \<le> start (seq1Range d) + k" "start (seq1Range d) + k \<le> int (length xs)" "0 \<le> start (seq2Range d) + k"
    "start (seq2Range d) + k \<le> int (length ys)" "0 \<le> endExclusive (seq2Range d) + k" "endExclusive (seq2Range d) + k \<le> int (length ys)"
    using assms(5) by (auto simp: diffs_ok_Cons diff_at_def)
  then obtain a b c where "f (start (seq1Range d) + k) = Inr a" "g (start (seq2Range d) + k) = Inr b" "g (endExclusive (seq2Range d) + k) = Inr c"
    using assms(1,2) fg unfolding sequence_of_def by meson
  then show ?thesis by (simp add: shift_score_def boundary_score_def fg)
qed

lemma best_fold:
  assumes "\<forall>k \<in> set ks. \<exists>v. shift_score d q1 q2 k = Inr v"
  shows "\<exists>b' s'. result_fold (best_step d q1 q2) ks (b, s) = Inr (b', s') \<and> s \<le> s' \<and>
    (\<forall>k \<in> set ks. \<forall>v. shift_score d q1 q2 k = Inr v \<longrightarrow> v \<le> s') \<and>
    (b' = b \<and> s' = s \<or> b' \<in> set ks \<and> shift_score d q1 q2 b' = Inr s')"
  using assms
proof (induction ks arbitrary: b s)
  case (Cons k ks)
  then obtain v where v: "shift_score d q1 q2 k = Inr v" by auto
  define b1 s1 where "b1 = (if v > s then k else b)" and "s1 = (if v > s then v else s)"
  have step: "best_step d q1 q2 k (b, s) = Inr (b1, s1)" by (simp add: best_step_def v b1_def s1_def)
  obtain b' s' where r: "result_fold (best_step d q1 q2) ks (b1, s1) = Inr (b', s')" "s1 \<le> s'"
    "\<forall>k \<in> set ks. \<forall>v. shift_score d q1 q2 k = Inr v \<longrightarrow> v \<le> s'" "b' = b1 \<and> s' = s1 \<or> b' \<in> set ks \<and> shift_score d q1 q2 b' = Inr s'"
    using Cons.IH [of b1 s1] Cons.prems by auto
  have "s \<le> s1" "v \<le> s1" "b1 = b \<and> s1 = s \<or> b1 = k \<and> shift_score d q1 q2 k = Inr s1" using v by (auto simp: b1_def s1_def)
  then show ?case using r v step by auto
qed simp

lemma moves_ok:
  assumes q: "sequence_of ys q2" and ok: "diffs_ok xs ys i j (d # ds)" and empty: "OffsetRange_isEmpty (seq1Range d)"
    and v1: "i \<le> start v1" "endExclusive v1 \<le> endExclusive (seq1Range d) + first_gap xs (endExclusive (seq1Range d)) ds"
    and k: "- (deltaBefore_loop d q2 v1 v2 1 - 1) \<le> k" "k \<le> deltaAfter_loop d q2 v1 v2 0"
  shows "diffs_ok xs ys i j (moved d k # ds)"
proof -
  have e: "start (seq1Range d) = endExclusive (seq1Range d)" using empty by (simp add: OffsetRange_isEmpty_def)
  have "\<forall>l. 0 \<le> l \<and> l < 1 \<longrightarrow> diffs_ok xs ys i j (moved d (- l) # ds)" using ok by (auto simp: int_one_le_iff_zero_less dest: zless_imp_add1_zle)
  from deltaBefore_loop_ok [OF q e v1(1) _ _ this]
  have before: "0 \<le> l \<Longrightarrow> l < deltaBefore_loop d q2 v1 v2 1 \<Longrightarrow> diffs_ok xs ys i j (moved d (- l) # ds)" for l by simp
  have "\<forall>l. 0 \<le> l \<and> l \<le> 0 \<longrightarrow> diffs_ok xs ys i j (moved d l # ds)" using ok by auto
  from deltaAfter_loop_ok [OF q e v1(2) _ _ this]
  have after: "0 \<le> l \<Longrightarrow> l \<le> deltaAfter_loop d q2 v1 v2 0 \<Longrightarrow> diffs_ok xs ys i j (moved d l # ds)" for l by simp
  show ?thesis using before [of "- k"] after [of k] k by (cases "0 \<le> k") auto
qed

section \<open>Passes\<close>

text \<open>
  What a pass over the differences promises: for differences that turn one sequence into another it returns, and gives such differences again.
\<close>

locale diff_pass =
  fixes pass :: "'e ISequence \<Rightarrow> 'e ISequence \<Rightarrow> SequenceDiff list \<Rightarrow> SequenceDiff list result"
  assumes pass_ok: "sequence_of xs q1 \<Longrightarrow> sequence_of ys q2 \<Longrightarrow> diffs_ok xs ys 0 0 ds \<Longrightarrow>
    \<exists>ds'. pass q1 q2 ds = Inr ds' \<and> diffs_ok xs ys 0 0 ds'"
begin

lemma pass_patch:
  assumes "sequence_of xs q1" "sequence_of ys q2" "diffs_ok xs ys 0 0 ds"
  shows "\<exists>ds'. pass q1 q2 ds = Inr ds' \<and> diffs_ok xs ys 0 0 ds' \<and> patch xs ys 0 ds' = ys"
  using pass_ok [OF assms] patch_eq [of xs ys 0 0] by auto

lemma pass_after:
  assumes "sequence_of xs q1" "sequence_of ys q2" "r = Inr ds" "diffs_ok xs ys 0 0 ds"
  shows "\<exists>ds'. result_bind r (pass q1 q2) = Inr ds' \<and> diffs_ok xs ys 0 0 ds' \<and> patch xs ys 0 ds' = ys"
  using pass_patch [OF assms(1,2,4)] assms(3) by simp

end

interpretation join_shifting: diff_pass joinSequenceDiffsByShifting
  by unfold_locales (rule joinSequenceDiffsByShifting_ok)

lemma removeShortMatches_gaps:
  "diffs_ok xs ys i j ds \<Longrightarrow> \<exists>ds'. removeShortMatches q1 q2 ds = Inr ds' \<and> diffs_ok xs ys i j ds' \<and> successively long_gap ds'"
  using removeShortMatches_ok [of xs ys i j "[]" ds] by (simp add: removeShortMatches_def)

interpretation short_matches: diff_pass removeShortMatches
proof unfold_locales
  fix xs ys :: "'e list" and q1 q2 :: "'e ISequence" and ds
  assume "diffs_ok xs ys 0 0 ds"
  from removeShortMatches_gaps [OF this, of q1 q2] show "\<exists>ds'. removeShortMatches q1 q2 ds = Inr ds' \<and> diffs_ok xs ys 0 0 ds'" by blast
qed

section \<open>Properties\<close>

text \<open>
  C30. Joining differences by shifting, followed by removing short matches, never throws on differences that turn the first sequence into the
  second: the outcome turns it into the second again, and more than two unchanged elements are between any two neighbours.
\<close>

theorem joining_passes_keep_the_result:
  assumes "sequence_of xs q1" "sequence_of ys q2" "diffs_ok xs ys 0 0 ds"
  shows "\<exists>ds1 ds2. joinSequenceDiffsByShifting q1 q2 ds = Inr ds1 \<and> patch xs ys 0 ds1 = ys \<and> diffs_ok xs ys 0 0 ds1 \<and>
    removeShortMatches q1 q2 ds1 = Inr ds2 \<and> patch xs ys 0 ds2 = ys \<and> diffs_ok xs ys 0 0 ds2 \<and> successively long_gap ds2"
proof -
  obtain ds1 where ds1: "joinSequenceDiffsByShifting q1 q2 ds = Inr ds1" "diffs_ok xs ys 0 0 ds1" "patch xs ys 0 ds1 = ys"
    using join_shifting.pass_patch [OF assms] by blast
  obtain ds2 where "removeShortMatches q1 q2 ds1 = Inr ds2" "diffs_ok xs ys 0 0 ds2" "successively long_gap ds2"
    using removeShortMatches_gaps [OF ds1(2)] by blast
  then show ?thesis using ds1 patch_eq [of xs ys 0 0 ds2] by auto
qed

theorem joining_passes_keep_the_result_witness:
  "diffs_ok ''ab, cd'' ''ab, x, cd'' 0 0 [\<lparr>seq1Range = \<lparr>start = 2, endExclusive = 2\<rparr>, seq2Range = \<lparr>start = 2, endExclusive = 5\<rparr>\<rparr>] \<and>
   (\<exists>ds1 ds2. joinSequenceDiffsByShifting (list_sequence ''ab, cd'') (list_sequence ''ab, x, cd'')
        [\<lparr>seq1Range = \<lparr>start = 2, endExclusive = 2\<rparr>, seq2Range = \<lparr>start = 2, endExclusive = 5\<rparr>\<rparr>] = Inr ds1 \<and> patch ''ab, cd'' ''ab, x, cd'' 0 ds1 = ''ab, x, cd'' \<and>
      removeShortMatches (list_sequence ''ab, cd'') (list_sequence ''ab, x, cd'') ds1 = Inr ds2 \<and> patch ''ab, cd'' ''ab, x, cd'' 0 ds2 = ''ab, x, cd'')"
proof -
  have ok: "diffs_ok ''ab, cd'' ''ab, x, cd'' 0 0 [\<lparr>seq1Range = \<lparr>start = 2, endExclusive = 2\<rparr>, seq2Range = \<lparr>start = 2, endExclusive = 5\<rparr>\<rparr>]" by code_simp
  show ?thesis
    using joining_passes_keep_the_result [OF sequence_of_list_sequence sequence_of_list_sequence ok] ok by blast
qed

text \<open>
  An insertion that is moved to a better position stays an insertion that gives the second sequence, as long as the valid range of the
  first sequence does not reach into the neighbours; when scores are not negative (and some boundary around is better than nothing), no other
  position that was tried has a better score.
\<close>

theorem shiftDiffToBetterPosition_within_the_gaps:
  assumes q: "sequence_of xs q1" "sequence_of ys q2" and b: "sq_getBoundaryScore q1 \<noteq> None" "sq_getBoundaryScore q2 \<noteq> None"
    and ok: "diffs_ok xs ys i j (d # ds)" and empty: "OffsetRange_isEmpty (seq1Range d)"
    and v1: "i \<le> start v1" "endExclusive v1 \<le> endExclusive (seq1Range d) + first_gap xs (endExclusive (seq1Range d)) ds"
  shows "\<exists>k. shiftDiffToBetterPosition d q1 q2 v1 v2 = Inr (moved d k) \<and> diffs_ok xs ys i j (moved d k # ds) \<and>
    (\<forall>l v. - (deltaBefore_loop d q2 v1 v2 1 - 1) \<le> l \<longrightarrow> l \<le> deltaAfter_loop d q2 v1 v2 0 \<longrightarrow> shift_score d q1 q2 l = Inr v \<longrightarrow> 0 \<le> v \<longrightarrow>
       (\<exists>w. shift_score d q1 q2 k = Inr w \<and> v \<le> w))"
proof -
  let ?b = "deltaBefore_loop d q2 v1 v2 1 - 1" and ?a = "deltaAfter_loop d q2 v1 v2 0"
  note moves = moves_ok [OF q(2) ok empty v1]
  show ?thesis
  proof (cases "?b = 0 \<and> ?a = 0")
    case True
    then have "shiftDiffToBetterPosition d q1 q2 v1 v2 = Inr (moved d 0)" by (simp add: shiftDiffToBetterPosition_def)
    then show ?thesis using ok True by (intro exI [of _ 0]) auto
  next
    case False
    have "\<forall>k \<in> set [- ?b .. ?a]. \<exists>v. shift_score d q1 q2 k = Inr v" 
      by (intro ballI, rule shift_score_defined [OF q b moves [of v2]]) simp_all
    from best_fold [OF this, of 0 "- 1"] obtain k s where k: "result_fold (best_step d q1 q2) [- ?b .. ?a] (0, - 1) = Inr (k, s)"
      "\<forall>l \<in> set [- ?b .. ?a]. \<forall>v. shift_score d q1 q2 l = Inr v \<longrightarrow> v \<le> s"
      "k = 0 \<and> s = - 1 \<or> k \<in> set [- ?b .. ?a] \<and> shift_score d q1 q2 k = Inr s" by blast
    have "diffs_ok xs ys i j (moved d k # ds)" using k(3) ok moves [of v2 k] by auto
    moreover have "shiftDiffToBetterPosition d q1 q2 v1 v2 = Inr (moved d k)"
      using False k(1) SequenceDiff_delta_moved [OF ok] by (auto simp: shiftDiffToBetterPosition_def Let_def)
    ultimately show ?thesis using k(2,3) by (intro exI [of _ k]) fastforce
  qed
qed

definition scored_sequence :: "'e list \<Rightarrow> (number \<Rightarrow> number) \<Rightarrow> 'e ISequence" where
  "scored_sequence xs f = \<lparr>sq_getElement = arr_at xs, sq_length = int (length xs), sq_getBoundaryScore = Some (\<lambda>k. Inr (f k)),
                           sq_isStronglyEqual = (\<lambda>i j. arr_at xs i = arr_at xs j)\<rparr>"

lemma sequence_of_scored_sequence [simp]: "sequence_of xs (scored_sequence xs f)"
  by (simp add: sequence_of_def scored_sequence_def)

theorem shiftDiffToBetterPosition_within_the_gaps_witness:
  "\<exists>k. shiftDiffToBetterPosition \<lparr>seq1Range = \<lparr>start = 2, endExclusive = 2\<rparr>, seq2Range = \<lparr>start = 2, endExclusive = 4\<rparr>\<rparr>
      (scored_sequence ''aab'' (\<lambda>k. k)) (scored_sequence ''aaaab'' (\<lambda>k. 1)) \<lparr>start = 0, endExclusive = 3\<rparr> \<lparr>start = 0, endExclusive = 5\<rparr> =
      Inr (moved \<lparr>seq1Range = \<lparr>start = 2, endExclusive = 2\<rparr>, seq2Range = \<lparr>start = 2, endExclusive = 4\<rparr>\<rparr> k) \<and>
    diffs_ok ''aab'' ''aaaab'' 0 0 [moved \<lparr>seq1Range = \<lparr>start = 2, endExclusive = 2\<rparr>, seq2Range = \<lparr>start = 2, endExclusive = 4\<rparr>\<rparr> k]"
proof -
  let ?d = "\<lparr>seq1Range = \<lparr>start = 2, endExclusive = 2\<rparr>, seq2Range = \<lparr>start = 2, endExclusive = 4\<rparr>\<rparr>"
  have ok: "diffs_ok ''aab'' ''aaaab'' 0 0 [?d]" by code_simp
  have "sq_getBoundaryScore (scored_sequence ''aab'' (\<lambda>k. k)) \<noteq> None" "sq_getBoundaryScore (scored_sequence ''aaaab'' (\<lambda>k. 1)) \<noteq> None"
    "OffsetRange_isEmpty (seq1Range ?d)" "0 \<le> start \<lparr>start = 0, endExclusive = 3\<rparr>"
    "endExclusive \<lparr>start = 0, endExclusive = 3\<rparr> \<le> endExclusive (seq1Range ?d) + first_gap ''aab'' (endExclusive (seq1Range ?d)) []"
    by (simp_all add: scored_sequence_def OffsetRange_isEmpty_def first_gap_def)
  from shiftDiffToBetterPosition_within_the_gaps [OF sequence_of_scored_sequence sequence_of_scored_sequence this(1,2) ok this(3-),
      of "\<lparr>start = 0, endExclusive = 5\<rparr>"]
  show ?thesis by blast
qed

text \<open>
  The ranges \<open>shiftSequenceDiffs\<close> allows begin one after the start of the previous difference, not at its end: in the example the
  differences are valid, and those returned overlap.
\<close>

lemma optimized_differences_may_overlap:
  "sequence_of [0, 1, 1, 1, 1, 0 :: int] (scored_sequence [0, 1, 1, 1, 1, 0] (\<lambda>k. if k = 1 then 1 else 0)) \<and>
   diffs_ok [0, 1, 1, 1, 1, 0 :: int] [1, 1, 0, 1, 0, 0, 1, 1, 1, 0] 0 0
     [\<lparr>seq1Range = \<lparr>start = 0, endExclusive = 2\<rparr>, seq2Range = \<lparr>start = 0, endExclusive = 3\<rparr>\<rparr>,
      \<lparr>seq1Range = \<lparr>start = 3, endExclusive = 3\<rparr>, seq2Range = \<lparr>start = 4, endExclusive = 6\<rparr>\<rparr>,
      \<lparr>seq1Range = \<lparr>start = 5, endExclusive = 5\<rparr>, seq2Range = \<lparr>start = 8, endExclusive = 9\<rparr>\<rparr>] \<and>
   optimizeSequenceDiffs (scored_sequence [0, 1, 1, 1, 1, 0 :: int] (\<lambda>k. if k = 1 then 1 else 0)) (scored_sequence [1, 1, 0, 1, 0, 0, 1, 1, 1, 0] (\<lambda>k. 0))
     [\<lparr>seq1Range = \<lparr>start = 0, endExclusive = 2\<rparr>, seq2Range = \<lparr>start = 0, endExclusive = 3\<rparr>\<rparr>,
      \<lparr>seq1Range = \<lparr>start = 3, endExclusive = 3\<rparr>, seq2Range = \<lparr>start = 4, endExclusive = 6\<rparr>\<rparr>,
      \<lparr>seq1Range = \<lparr>start = 5, endExclusive = 5\<rparr>, seq2Range = \<lparr>start = 8, endExclusive = 9\<rparr>\<rparr>] =
   Inr [\<lparr>seq1Range = \<lparr>start = 0, endExclusive = 2\<rparr>, seq2Range = \<lparr>start = 0, endExclusive = 3\<rparr>\<rparr>,
        \<lparr>seq1Range = \<lparr>start = 1, endExclusive = 1\<rparr>, seq2Range = \<lparr>start = 2, endExclusive = 5\<rparr>\<rparr>]"
  by (intro conjI, rule sequence_of_scored_sequence; code_simp)

end
