(* ===== verification/Diff_Lines.thy ===== *)
theory Diff_Lines
  imports Complex_Main Diff_Dynamic Diff_Optimize
begin

text \<open>
  The sequences of lines that are compared, \<open>src/vs/editor/common/diff/defaultLinesDiffComputer/lineSequence.ts\<close>, the numbering of the
  lines in \<open>computeDiff\<close> of \<open>defaultLinesDiffComputer.ts\<close>, and the pass that joins differences between which there is hardly
  any text.
\<close>

section \<open>Sequences of lines\<close>

record LineSequence =
  trimmedHash :: "number list"
  ls_lines :: "jsstring list"

fun getIndentation :: "jsstring \<Rightarrow> number" where
  "getIndentation [] = 0"
| "getIndentation (c # cs) = (if c = 32 \<or> c = 9 then 1 + getIndentation cs else 0)"

definition LineSequence_getBoundaryScore :: "LineSequence \<Rightarrow> number \<Rightarrow> number result" where
  "LineSequence_getBoundaryScore this len =
     result_bind (if len = 0 then Inr 0 else result_map getIndentation (arr_get (ls_lines this) (len - 1))) (\<lambda>indentationBefore.
     result_map (\<lambda>indentationAfter. 1000 - (indentationBefore + indentationAfter))
       (if len = int (length (ls_lines this)) then Inr 0 else result_map getIndentation (arr_get (ls_lines this) len)))"

definition LineSequence_getText :: "LineSequence \<Rightarrow> OffsetRange \<Rightarrow> jsstring" where
  "LineSequence_getText this r = js_join [10] (js_slice (ls_lines this) (start r) (endExclusive r))"

definition LineSequence_isStronglyEqual :: "LineSequence \<Rightarrow> number \<Rightarrow> number \<Rightarrow> bool" where
  "LineSequence_isStronglyEqual this offset1 offset2 \<longleftrightarrow> arr_at (ls_lines this) offset1 = arr_at (ls_lines this) offset2"

text \<open>The object as the interface the algorithms use.\<close>

definition LineSequence_sequence :: "LineSequence \<Rightarrow> number ISequence" where
  "LineSequence_sequence this =
     \<lparr>sq_getElement = arr_at (trimmedHash this), sq_length = int (length (trimmedHash this)),
      sq_getBoundaryScore = Some (LineSequence_getBoundaryScore this), sq_isStronglyEqual = LineSequence_isStronglyEqual this\<rparr>"

section \<open>Numbering the lines\<close>

text \<open>White space and line terminators of the language, as \<open>trim\<close> and the class \<open>\s\<close> have them.\<close>

definition is_js_space :: "16 word \<Rightarrow> bool" where
  "is_js_space c \<longleftrightarrow>
     c \<in> set [9, 10, 11, 12, 13, 32, 160, 5760, 8232, 8233, 8239, 8287, 12288, 65279] \<or> 8192 \<le> c \<and> c \<le> 8202"

definition js_trim :: "jsstring \<Rightarrow> jsstring" where
  "js_trim s = rev (dropWhile is_js_space (rev (dropWhile is_js_space s)))"

text \<open>The map \<open>perfectHashes\<close> in the order of its insertions.\<close>

type_synonym perfectHashes = "(jsstring \<times> number) list"

definition getOrCreateHash :: "jsstring \<Rightarrow> perfectHashes \<Rightarrow> number \<times> perfectHashes" where
  "getOrCreateHash s h = (case map_of h s of Some hash \<Rightarrow> (hash, h) | None \<Rightarrow> (int (length h), h @ [(s, int (length h))]))"

fun hash_lines :: "jsstring list \<Rightarrow> perfectHashes \<Rightarrow> number list \<times> perfectHashes" where
  "hash_lines [] h = ([], h)"
| "hash_lines (l # ls) h =
     (let (n, h) = getOrCreateHash (js_trim l) h;
          (ns, h) = hash_lines ls h
      in (n # ns, h))"

definition line_sequences :: "jsstring list \<Rightarrow> jsstring list \<Rightarrow> LineSequence \<times> LineSequence" where
  "line_sequences originalLines modifiedLines =
     (let (originalLinesHashes, h) = hash_lines originalLines [];
          (modifiedLinesHashes, h) = hash_lines modifiedLines h
      in (\<lparr>trimmedHash = originalLinesHashes, ls_lines = originalLines\<rparr>, \<lparr>trimmedHash = modifiedLinesHashes, ls_lines = modifiedLines\<rparr>))"

text \<open>The score of two lines that are equal up to white space around them. It is only called with offsets of the files.\<close>

definition lineEqualityScore :: "jsstring list \<Rightarrow> jsstring list \<Rightarrow> number \<Rightarrow> number \<Rightarrow> real" where
  "lineEqualityScore originalLines modifiedLines offset1 offset2 =
     (if arr_at originalLines offset1 = arr_at modifiedLines offset2
      then (case arr_at modifiedLines offset2 of
              Some l \<Rightarrow> if length l = 0 then 1 / 10 else 1 + ln (1 + real (length l))
            | None \<Rightarrow> 0)
      else 99 / 100)"

section \<open>Removing very short matching lines\<close>

definition shouldJoinLines :: "LineSequence \<Rightarrow> SequenceDiff \<Rightarrow> SequenceDiff \<Rightarrow> bool result" where
  "shouldJoinLines sequence1 before after =
     result_map (\<lambda>unchangedRange.
        let unchangedText = LineSequence_getText sequence1 unchangedRange;
            unchangedTextWithoutWs = filter (\<lambda>c. \<not> is_js_space c) unchangedText
        in length unchangedTextWithoutWs \<le> 4 \<and>
           (OffsetRange_length (seq1Range before) + OffsetRange_length (seq2Range before) > 5 \<or>
            OffsetRange_length (seq1Range after) + OffsetRange_length (seq2Range after) > 5))
       (new_OffsetRange (endExclusive (seq1Range before)) (start (seq1Range after)))"

definition removeVeryShortMatchingLinesBetweenDiffs :: "LineSequence \<Rightarrow> LineSequence \<Rightarrow> SequenceDiff list \<Rightarrow> SequenceDiff list result" where
  "removeVeryShortMatchingLinesBetweenDiffs sequence1 sequence2 sequenceDiffs =
     (if sequenceDiffs = [] then Inr sequenceDiffs else join_sweeps (shouldJoinLines sequence1) 0 sequenceDiffs)"

section \<open>Numbers of lines\<close>

text \<open>The map gives different numbers to different texts.\<close>

definition hashes_ok :: "perfectHashes \<Rightarrow> bool" where
  "hashes_ok h \<longleftrightarrow> distinct (map fst h) \<and> map snd h = map int [0 ..< length h]"

lemma hashes_ok_inj:
  assumes "hashes_ok h" "map_of h s = Some n" "map_of h s' = Some n" shows "s = s'"
proof -
  have snd: "snd (h ! k) = int k" if "k < length h" for k using assms(1) that nth_map [of k h snd] by (simp add: hashes_ok_def)
  obtain k k' where "k < length h" "h ! k = (s, n)" "k' < length h" "h ! k' = (s', n)"
    using assms(2,3) [THEN map_of_SomeD] by (auto simp: in_set_conv_nth)
  then show ?thesis using snd [of k] snd [of k'] by simp
qed

lemma getOrCreateHash_ok:
  assumes "hashes_ok h" "getOrCreateHash s h = (n, h')"
  shows "hashes_ok h'" "map_of h' s = Some n" "map_of h \<subseteq>\<^sub>m map_of h'"
  using assms by (auto simp: getOrCreateHash_def hashes_ok_def map_of_eq_None_iff map_le_def map_add_def split: option.splits) force

lemma hash_lines_ok:
  "hashes_ok h \<Longrightarrow> hash_lines ls h = (ns, h') \<Longrightarrow>
    hashes_ok h' \<and> map_of h \<subseteq>\<^sub>m map_of h' \<and> list_all2 (\<lambda>l n. map_of h' (js_trim l) = Some n) ls ns"
proof (induction ls arbitrary: h ns)
  case (Cons l ls)
  obtain n h1 where n: "getOrCreateHash (js_trim l) h = (n, h1)" by (cases "getOrCreateHash (js_trim l) h")
  obtain ns1 where ns1: "hash_lines ls h1 = (ns1, h')" "ns = n # ns1" using Cons.prems(2) n by (auto split: prod.splits)
  note h1 = getOrCreateHash_ok [OF Cons.prems(1) n]
  from Cons.IH [OF h1(1) ns1(1)] have IH: "hashes_ok h'" "map_of h1 \<subseteq>\<^sub>m map_of h'" "list_all2 (\<lambda>l n. map_of h' (js_trim l) = Some n) ls ns1" by auto
  moreover have "map_of h' (js_trim l) = Some n" using IH(2) h1(2) by (metis domI map_le_def)
  ultimately show ?case using ns1(2) map_le_trans [OF h1(3)] by simp
qed simp

lemma line_sequences_ok:
  assumes "line_sequences originalLines modifiedLines = (a, b)"
  shows "\<exists>h. hashes_ok h \<and> ls_lines a = originalLines \<and> ls_lines b = modifiedLines \<and>
    list_all2 (\<lambda>l n. map_of h (js_trim l) = Some n) originalLines (trimmedHash a) \<and>
    list_all2 (\<lambda>l n. map_of h (js_trim l) = Some n) modifiedLines (trimmedHash b)"
proof -
  obtain ns h where ns: "hash_lines originalLines [] = (ns, h)" by (cases "hash_lines originalLines []")
  obtain ms h' where ms: "hash_lines modifiedLines h = (ms, h')" by (cases "hash_lines modifiedLines h")
  have ab: "a = \<lparr>trimmedHash = ns, ls_lines = originalLines\<rparr>" "b = \<lparr>trimmedHash = ms, ls_lines = modifiedLines\<rparr>"
    using assms ns ms by (auto simp: line_sequences_def)
  have "hashes_ok []" by (simp add: hashes_ok_def)
  note h = hash_lines_ok [OF this ns]
  note h' = hash_lines_ok [OF conjunct1 [OF h] ms]
  have "list_all2 (\<lambda>l n. map_of h' (js_trim l) = Some n) originalLines ns"
    using h h' by (auto elim!: list_all2_mono simp: map_le_def) (metis domI)
  then show ?thesis using h' ab by auto
qed

text \<open>Numbers as elements of the sequences: they agree exactly where the trimmed lines do.\<close>

lemma hashed_at:
  assumes "hashes_ok h" "list_all2 (\<lambda>l n. map_of h (js_trim l) = Some n) ls ns" "list_all2 (\<lambda>l n. map_of h (js_trim l) = Some n) ms ns'"
  shows "arr_at ns i = arr_at ns' j \<longleftrightarrow> arr_at (map js_trim ls) i = arr_at (map js_trim ms) j"
proof -
  have len: "length ls = length ns" "length ms = length ns'" using assms(2,3) by (auto dest: list_all2_lengthD)
  have at: "map_of h (js_trim (ls ! nat i)) = Some (ns ! nat i)" if "0 \<le> i" "i < int (length ns)"
    using list_all2_nthD [OF assms(2), of "nat i"] that len by simp
  have at': "map_of h (js_trim (ms ! nat j)) = Some (ns' ! nat j)" if "0 \<le> j" "j < int (length ns')"
    using list_all2_nthD [OF assms(3), of "nat j"] that len by simp
  show ?thesis
    using at at' len hashes_ok_inj [OF assms(1)] by (auto simp: arr_at_def)
qed

lemma LineSequence_sequence_of:
  assumes "hashes_ok h" "list_all2 (\<lambda>l n. map_of h (js_trim l) = Some n) (ls_lines a) (trimmedHash a)"
  shows "sequence_of (trimmedHash a) (LineSequence_sequence a)"
proof -
  have len: "length (ls_lines a) = length (trimmedHash a)" using assms(2) by (rule list_all2_lengthD)
  have "arr_at (trimmedHash a) i = arr_at (trimmedHash a) j" if "arr_at (ls_lines a) i = arr_at (ls_lines a) j" for i j
    using that hashed_at [OF assms assms(2), of i j] by (auto simp: arr_at_def split: if_splits)
  moreover have "\<exists>v. LineSequence_getBoundaryScore a k = Inr v" if k: "0 \<le> k" "k \<le> int (length (trimmedHash a))" for k
  proof -
    have get: "arr_get (ls_lines a) i = Inr (ls_lines a ! nat i)" if "0 \<le> i" "i < int (length (ls_lines a))" for i
      using that by (simp add: arr_get_def arr_at_def)
    obtain x where x: "(if k = 0 then Inr 0 else result_map getIndentation (arr_get (ls_lines a) (k - 1))) = Inr x"
      using get [of "k - 1"] k len that by (cases "k = 0") auto
    obtain y where y: "(if k = int (length (ls_lines a)) then Inr 0 else result_map getIndentation (arr_get (ls_lines a) k)) = Inr y"
      using get [of k] k len that by (cases "k = int (length (ls_lines a))") auto
    have "LineSequence_getBoundaryScore a k = Inr (1000 - (x + y))"
      by (simp only: LineSequence_getBoundaryScore_def x y result_bind.simps result_map.simps)
    then show ?thesis by blast
  qed
  ultimately show ?thesis
    unfolding sequence_of_def LineSequence_sequence_def LineSequence_isStronglyEqual_def ISequence.select_convs option.inject by blast
qed

lemma diffs_ok_relabel:
  assumes "\<And>i j. arr_at xs i = arr_at ys j \<longleftrightarrow> arr_at us i = arr_at vs j" "length us = length xs" "length vs = length ys"
  shows "diffs_ok xs ys i j ds = diffs_ok us vs i j ds"
proof -
  have "same_elements xs ys = same_elements us vs" by (simp add: same_elements_def assms(1) fun_eq_iff)
  then show ?thesis by (induction ds arbitrary: i j) (simp_all add: diffs_ok.simps assms(2,3))
qed

section \<open>Properties\<close>

text \<open>The unchanged range of two neighbours is a range.\<close>

lemma shouldJoinLines_answers: "answers_neighbours xs ys (shouldJoinLines a)"
  by (auto simp: answers_neighbours_def shouldJoinLines_def new_OffsetRange_def diffs_ok_Cons diff_at_def)

lemma removeVeryShortMatchingLines_ok:
  assumes "diffs_ok xs ys i j ds"
  shows "\<exists>ds'. removeVeryShortMatchingLinesBetweenDiffs a b ds = Inr ds' \<and> diffs_ok xs ys i j ds'"
proof (cases "ds = []")
  case True
  then have "removeVeryShortMatchingLinesBetweenDiffs a b ds = Inr ds" by (simp add: removeVeryShortMatchingLinesBetweenDiffs_def)
  then show ?thesis using assms by blast
next
  case False
  then show ?thesis
    using join_sweeps_ok [OF shouldJoinLines_answers False assms, of a 0] by (simp add: removeVeryShortMatchingLinesBetweenDiffs_def)
qed

interpretation very_short_lines: diff_pass "\<lambda>q1 q2. removeVeryShortMatchingLinesBetweenDiffs a b" for a b
proof unfold_locales
  fix xs ys :: "'e list" and q1 q2 :: "'e ISequence" and ds
  assume "diffs_ok xs ys 0 0 ds"
  then show "\<exists>ds'. removeVeryShortMatchingLinesBetweenDiffs a b ds = Inr ds' \<and> diffs_ok xs ys 0 0 ds'"
    by (rule removeVeryShortMatchingLines_ok)
qed

lemma product_small: fixes m n :: nat assumes "m + n < 1700" shows "int m * int n < 4294967296"
proof -
  have "int m * int n \<le> 1700 * 1700" using assms by (intro mult_mono) auto
  then show ?thesis by simp
qed



text \<open>A score of a boundary between lines is negative when the indentations around it exceed a thousand columns.\<close>

lemma boundary_score_may_be_negative:
  "LineSequence_getBoundaryScore \<lparr>trimmedHash = [0, 1], ls_lines = [replicate 600 32 @ [97], replicate 600 32 @ [98]]\<rparr> 1 = Inr (- 200)"
proof -
  have "getIndentation (replicate n 32 @ [97]) = int n" "getIndentation (replicate n 32 @ [98]) = int n" for n by (induction n) simp_all
  then show ?thesis by (simp add: LineSequence_getBoundaryScore_def arr_get_def arr_at_def)
qed

end
