(* ===== verification/Linked_Map.thy ===== *)
theory Linked_Map
  imports Complex_Main "HOL-Library.Multiset" Prelude
begin

text \<open>
  \<open>LinkedMap\<close> and \<open>LRUCache\<close>, and the counting and bidirectional maps, of \<open>src/vs/base/common/map.ts\<close>. The items of a linked map
  are objects that point to each other: they live in a store of addresses. The store refines a list of pairs in the order of the links.
\<close>

section \<open>Items and their store\<close>

record ('k, 'v) Item =
  it_previous :: "nat option"
  it_next :: "nat option"
  it_key :: 'k
  it_value :: 'v

datatype Touch = Touch_None | Touch_AsOld | Touch_AsNew

text \<open>
  The native \<open>Map\<close> gives the address of the item of a key. \<open>lm_items\<close> holds the objects and \<open>lm_fresh\<close> is the next address
  that has not been used.
\<close>

record ('k, 'v) LinkedMap =
  lm_map :: "'k \<Rightarrow> nat option"
  lm_head :: "nat option"
  lm_tail :: "nat option"
  lm_size :: number
  lm_state :: number
  lm_items :: "nat \<Rightarrow> ('k, 'v) Item option"
  lm_fresh :: nat

definition new_LinkedMap :: "('k, 'v) LinkedMap" where
  "new_LinkedMap = \<lparr>lm_map = (\<lambda>_. None), lm_head = None, lm_tail = None, lm_size = 0, lm_state = 0, lm_items = (\<lambda>_. None), lm_fresh = 0\<rparr>"

text \<open>Reading and writing a field of an item; \<open>this._state++\<close>.\<close>

definition item_next :: "('k, 'v) LinkedMap \<Rightarrow> nat \<Rightarrow> nat option" where
  "item_next this p = Option.bind (lm_items this p) it_next"

definition item_previous :: "('k, 'v) LinkedMap \<Rightarrow> nat \<Rightarrow> nat option" where
  "item_previous this p = Option.bind (lm_items this p) it_previous"

definition upd_item :: "nat \<Rightarrow> (('k, 'v) Item \<Rightarrow> ('k, 'v) Item) \<Rightarrow> ('k, 'v) LinkedMap \<Rightarrow> ('k, 'v) LinkedMap" where
  "upd_item p f this = this\<lparr>lm_items := (lm_items this)(p := map_option f (lm_items this p))\<rparr>"

definition set_next :: "nat \<Rightarrow> nat option \<Rightarrow> ('k, 'v) LinkedMap \<Rightarrow> ('k, 'v) LinkedMap" where
  "set_next p q = upd_item p (\<lambda>it. it\<lparr>it_next := q\<rparr>)"

definition set_previous :: "nat \<Rightarrow> nat option \<Rightarrow> ('k, 'v) LinkedMap \<Rightarrow> ('k, 'v) LinkedMap" where
  "set_previous p q = upd_item p (\<lambda>it. it\<lparr>it_previous := q\<rparr>)"

definition bump_state :: "('k, 'v) LinkedMap \<Rightarrow> ('k, 'v) LinkedMap" where
  "bump_state this = this\<lparr>lm_state := lm_state this + 1\<rparr>"

section \<open>The operations\<close>

definition LinkedMap_clear :: "('k, 'v) LinkedMap \<Rightarrow> ('k, 'v) LinkedMap" where
  "LinkedMap_clear this = bump_state (this\<lparr>lm_map := (\<lambda>_. None), lm_head := None, lm_tail := None, lm_size := 0\<rparr>)"

definition LinkedMap_isEmpty :: "('k, 'v) LinkedMap \<Rightarrow> bool" where
  "LinkedMap_isEmpty this \<longleftrightarrow> lm_head this = None \<and> lm_tail this = None"

definition LinkedMap_first :: "('k, 'v) LinkedMap \<Rightarrow> 'v option" where
  "LinkedMap_first this = Option.bind (lm_head this) (\<lambda>p. map_option it_value (lm_items this p))"

definition LinkedMap_last :: "('k, 'v) LinkedMap \<Rightarrow> 'v option" where
  "LinkedMap_last this = Option.bind (lm_tail this) (\<lambda>p. map_option it_value (lm_items this p))"

definition LinkedMap_has :: "'k \<Rightarrow> ('k, 'v) LinkedMap \<Rightarrow> bool" where
  "LinkedMap_has key this \<longleftrightarrow> lm_map this key \<noteq> None"

definition LinkedMap_addItemFirst :: "nat \<Rightarrow> ('k, 'v) LinkedMap \<Rightarrow> ('k, 'v) LinkedMap result" where
  "LinkedMap_addItemFirst item this =
     result_map (\<lambda>this. bump_state (this\<lparr>lm_head := Some item\<rparr>))
       (if lm_head this = None \<and> lm_tail this = None then Inr (this\<lparr>lm_tail := Some item\<rparr>)
        else case lm_head this of
          None \<Rightarrow> Inl PlainError
        | Some h \<Rightarrow> Inr (set_previous h (Some item) (set_next item (Some h) this)))"

definition LinkedMap_addItemLast :: "nat \<Rightarrow> ('k, 'v) LinkedMap \<Rightarrow> ('k, 'v) LinkedMap result" where
  "LinkedMap_addItemLast item this =
     result_map (\<lambda>this. bump_state (this\<lparr>lm_tail := Some item\<rparr>))
       (if lm_head this = None \<and> lm_tail this = None then Inr (this\<lparr>lm_head := Some item\<rparr>)
        else case lm_tail this of
          None \<Rightarrow> Inl PlainError
        | Some t \<Rightarrow> Inr (set_next t (Some item) (set_previous item (Some t) this)))"

text \<open>\<open>next.previous = previous; previous.next = next\<close>\<close>

definition bridge :: "nat \<Rightarrow> nat \<Rightarrow> ('k, 'v) LinkedMap \<Rightarrow> ('k, 'v) LinkedMap" where
  "bridge previous nxt this = set_next previous (Some nxt) (set_previous nxt (Some previous) this)"

definition LinkedMap_removeItem :: "nat \<Rightarrow> ('k, 'v) LinkedMap \<Rightarrow> ('k, 'v) LinkedMap result" where
  "LinkedMap_removeItem item this =
     result_map (\<lambda>this. bump_state (set_previous item None (set_next item None this)))
       (if lm_head this = Some item \<and> lm_tail this = Some item then Inr (this\<lparr>lm_head := None, lm_tail := None\<rparr>)
        else if lm_head this = Some item then
          (case item_next this item of
             None \<Rightarrow> Inl PlainError
           | Some n \<Rightarrow> Inr ((set_previous n None this)\<lparr>lm_head := Some n\<rparr>))
        else if lm_tail this = Some item then
          (case item_previous this item of
             None \<Rightarrow> Inl PlainError
           | Some p \<Rightarrow> Inr ((set_next p None this)\<lparr>lm_tail := Some p\<rparr>))
        else
          (case (item_next this item, item_previous this item) of
             (Some n, Some p) \<Rightarrow> Inr (bridge p n this)
           | _ \<Rightarrow> Inl PlainError))"

text \<open>Writing a field of \<open>undefined\<close> throws.\<close>

definition LinkedMap_touch :: "nat \<Rightarrow> Touch \<Rightarrow> ('k, 'v) LinkedMap \<Rightarrow> ('k, 'v) LinkedMap result" where
  "LinkedMap_touch item touch this =
     (case (lm_head this, lm_tail this) of
        (Some h, Some t) \<Rightarrow>
          (case touch of
             Touch_None \<Rightarrow> Inr this
           | Touch_AsOld \<Rightarrow>
               if h = item then Inr this
               else result_map (\<lambda>this. bump_state ((set_previous h (Some item) (set_next item (Some h) (set_previous item None this)))\<lparr>lm_head := Some item\<rparr>))
                 (if t = item then
                    (case item_previous this item of
                       None \<Rightarrow> Inl TypeError
                     | Some p \<Rightarrow> Inr ((set_next p None this)\<lparr>lm_tail := Some p\<rparr>))
                  else
                    (case (item_next this item, item_previous this item) of
                       (Some n, Some p) \<Rightarrow> Inr (bridge p n this)
                     | _ \<Rightarrow> Inl TypeError))
           | Touch_AsNew \<Rightarrow>
               if t = item then Inr this
               else result_map (\<lambda>this. bump_state ((set_next t (Some item) (set_previous item (Some t) (set_next item None this)))\<lparr>lm_tail := Some item\<rparr>))
                 (if h = item then
                    (case item_next this item of
                       None \<Rightarrow> Inl TypeError
                     | Some n \<Rightarrow> Inr ((set_previous n None this)\<lparr>lm_head := Some n\<rparr>))
                  else
                    (case (item_next this item, item_previous this item) of
                       (Some n, Some p) \<Rightarrow> Inr (bridge p n this)
                     | _ \<Rightarrow> Inl TypeError)))
      | _ \<Rightarrow> Inl PlainError)"

text \<open>A read returns the value, None for \<open>undefined\<close>, and the map.\<close>

definition item_value :: "('k, 'v) LinkedMap \<Rightarrow> nat \<Rightarrow> 'v option" where
  "item_value this p = map_option it_value (lm_items this p)"

definition LinkedMap_get :: "'k \<Rightarrow> Touch \<Rightarrow> ('k, 'v) LinkedMap \<Rightarrow> ('v option \<times> ('k, 'v) LinkedMap) result" where
  "LinkedMap_get key touch this =
     (case lm_map this key of
        None \<Rightarrow> Inr (None, this)
      | Some item \<Rightarrow>
          result_map (\<lambda>this. (item_value this item, this)) (if touch \<noteq> Touch_None then LinkedMap_touch item touch this else Inr this))"

definition LinkedMap_set :: "'k \<Rightarrow> 'v \<Rightarrow> Touch \<Rightarrow> ('k, 'v) LinkedMap \<Rightarrow> ('k, 'v) LinkedMap result" where
  "LinkedMap_set key v touch this =
     (case lm_map this key of
        Some item \<Rightarrow>
          (let this = upd_item item (\<lambda>it. it\<lparr>it_value := v\<rparr>) this
           in if touch \<noteq> Touch_None then LinkedMap_touch item touch this else Inr this)
      | None \<Rightarrow>
          (let item = lm_fresh this;
               this = this\<lparr>lm_items := (lm_items this)(item := Some \<lparr>it_previous = None, it_next = None, it_key = key, it_value = v\<rparr>), lm_fresh := item + 1\<rparr>
           in result_map (\<lambda>this. this\<lparr>lm_map := (lm_map this)(key := Some item), lm_size := lm_size this + 1\<rparr>)
                (case touch of Touch_None \<Rightarrow> LinkedMap_addItemLast item this
                 | Touch_AsOld \<Rightarrow> LinkedMap_addItemFirst item this
                 | Touch_AsNew \<Rightarrow> LinkedMap_addItemLast item this)))"

definition LinkedMap_remove :: "'k \<Rightarrow> ('k, 'v) LinkedMap \<Rightarrow> ('v option \<times> ('k, 'v) LinkedMap) result" where
  "LinkedMap_remove key this =
     (case lm_map this key of
        None \<Rightarrow> Inr (None, this)
      | Some item \<Rightarrow>
          result_map (\<lambda>this. (item_value this item, this\<lparr>lm_size := lm_size this - 1\<rparr>))
            (LinkedMap_removeItem item (this\<lparr>lm_map := (lm_map this)(key := None)\<rparr>)))"

text \<open>\<open>delete\<close> returns whether the value that was removed is truthy.\<close>

definition LinkedMap_delete :: "('v \<Rightarrow> bool) \<Rightarrow> 'k \<Rightarrow> ('k, 'v) LinkedMap \<Rightarrow> (bool \<times> ('k, 'v) LinkedMap) result" where
  "LinkedMap_delete truthy key this =
     result_map (\<lambda>(v, this). (case v of None \<Rightarrow> False | Some v \<Rightarrow> truthy v, this)) (LinkedMap_remove key this)"

definition LinkedMap_shift :: "('k, 'v) LinkedMap \<Rightarrow> ('v option \<times> ('k, 'v) LinkedMap) result" where
  "LinkedMap_shift this =
     (if lm_head this = None \<and> lm_tail this = None then Inr (None, this)
      else case (lm_head this, lm_tail this) of
        (Some item, Some _) \<Rightarrow>
          (case lm_items this item of
             None \<Rightarrow> Inl TypeError
           | Some it \<Rightarrow>
               result_map (\<lambda>this. (item_value this item, this\<lparr>lm_size := lm_size this - 1\<rparr>))
                 (LinkedMap_removeItem item (this\<lparr>lm_map := (lm_map this)(it_key it := None)\<rparr>)))
      | _ \<Rightarrow> Inl PlainError)"

text \<open>The loop of \<open>trimOld\<close>: the native map, the item and the number of items that are left.\<close>

function trim_loop :: "(nat \<Rightarrow> ('k, 'v) Item option) \<Rightarrow> number \<Rightarrow> ('k \<Rightarrow> nat option) \<Rightarrow> nat option \<Rightarrow> number \<Rightarrow> ('k \<Rightarrow> nat option) \<times> nat option \<times> number" where
  "trim_loop items newSize m current currentSize =
     (case current of
        None \<Rightarrow> (m, current, currentSize)
      | Some p \<Rightarrow>
          if currentSize > newSize
          then (case items p of
                  None \<Rightarrow> (m, current, currentSize)
                | Some it \<Rightarrow> trim_loop items newSize (m(it_key it := None)) (it_next it) (currentSize - 1))
          else (m, current, currentSize))"
  by pat_completeness auto

termination
  by (relation "measure (\<lambda>(items, newSize, m, current, currentSize). nat (currentSize - newSize))") auto

declare trim_loop.simps [simp del]

definition LinkedMap_trimOld :: "number \<Rightarrow> ('k, 'v) LinkedMap \<Rightarrow> ('k, 'v) LinkedMap" where
  "LinkedMap_trimOld newSize this =
     (if newSize \<ge> lm_size this then this
      else if newSize = 0 then LinkedMap_clear this
      else
        (let (m, current, currentSize) = trim_loop (lm_items this) newSize (lm_map this) (lm_head this) (lm_size this);
             this = this\<lparr>lm_map := m, lm_head := current, lm_size := currentSize\<rparr>
         in bump_state (case current of None \<Rightarrow> this | Some p \<Rightarrow> set_previous p None this)))"

definition LinkedMap_fromJSON :: "('k \<times> 'v) list \<Rightarrow> ('k, 'v) LinkedMap \<Rightarrow> ('k, 'v) LinkedMap result" where
  "LinkedMap_fromJSON data this = result_fold (\<lambda>(key, v). LinkedMap_set key v Touch_None) data (LinkedMap_clear this)"

section \<open>Iteration\<close>

text \<open>
  An iterator keeps the item it is at and the state of the map when it was created. The result of \<open>next\<close> is None when it is done.
\<close>

record LinkedMap_iterator =
  li_current :: "nat option"
  li_state :: number

definition LinkedMap_iterate :: "('k, 'v) LinkedMap \<Rightarrow> LinkedMap_iterator" where
  "LinkedMap_iterate this = \<lparr>li_current = lm_head this, li_state = lm_state this\<rparr>"

definition iterator_next :: "(('k, 'v) Item \<Rightarrow> 'a) \<Rightarrow> ('k, 'v) LinkedMap \<Rightarrow> LinkedMap_iterator \<Rightarrow> ('a option \<times> LinkedMap_iterator) result" where
  "iterator_next get lm i =
     (if lm_state lm \<noteq> li_state i then Inl PlainError
      else case li_current i of
        None \<Rightarrow> Inr (None, i)
      | Some p \<Rightarrow>
          (case lm_items lm p of
             None \<Rightarrow> Inl TypeError
           | Some it \<Rightarrow> Inr (Some (get it), i\<lparr>li_current := it_next it\<rparr>)))"

abbreviation "keys_next \<equiv> iterator_next it_key"
abbreviation "values_next \<equiv> iterator_next it_value"
abbreviation "entries_next \<equiv> iterator_next (\<lambda>it. (it_key it, it_value it))"

text \<open>
  The callback of \<open>forEach\<close> may change the map, so the loop need not end: None is a loop that does not.
\<close>

partial_function (option) forEach_loop ::
  "('v \<Rightarrow> 'k \<Rightarrow> ('k, 'v) LinkedMap \<times> 's \<Rightarrow> ('k, 'v) LinkedMap \<times> 's) \<Rightarrow> number \<Rightarrow> nat option \<Rightarrow> ('k, 'v) LinkedMap \<times> 's \<Rightarrow>
   (('k, 'v) LinkedMap \<times> 's) result option" where
  "forEach_loop callbackfn state current st =
     (case current of
        None \<Rightarrow> Some (Inr st)
      | Some p \<Rightarrow>
          (case lm_items (fst st) p of
             None \<Rightarrow> Some (Inl TypeError)
           | Some it \<Rightarrow>
               let st = callbackfn (it_value it) (it_key it) st
               in if lm_state (fst st) \<noteq> state then Some (Inl PlainError)
                  else forEach_loop callbackfn state (item_next (fst st) p) st))"

definition LinkedMap_forEach ::
  "('v \<Rightarrow> 'k \<Rightarrow> ('k, 'v) LinkedMap \<times> 's \<Rightarrow> ('k, 'v) LinkedMap \<times> 's) \<Rightarrow> ('k, 'v) LinkedMap \<times> 's \<Rightarrow> (('k, 'v) LinkedMap \<times> 's) result option" where
  "LinkedMap_forEach callbackfn st = forEach_loop callbackfn (lm_state (fst st)) (lm_head (fst st)) st"

definition LinkedMap_toJSON :: "('k, 'v) LinkedMap \<Rightarrow> ('k \<times> 'v) list result option" where
  "LinkedMap_toJSON this = map_option (result_map snd) (LinkedMap_forEach (\<lambda>v k (m, data). (m, data @ [(k, v)])) (this, []))"

section \<open>Chains of items\<close>

text \<open>The address after a list of addresses begins, and the one before it ends.\<close>

definition first_addr :: "nat list \<Rightarrow> nat option \<Rightarrow> nat option" where
  "first_addr ps nx = (case ps of [] \<Rightarrow> nx | p # _ \<Rightarrow> Some p)"

definition last_addr :: "nat list \<Rightarrow> nat option \<Rightarrow> nat option" where
  "last_addr ps pr = (if ps = [] then pr else Some (last ps))"

lemma addr_simps [simp]:
  "first_addr [] nx = nx" "first_addr (p # ps) nx = Some p" "first_addr (ps @ qs) nx = first_addr ps (first_addr qs nx)"
  "last_addr [] pr = pr" "last_addr (ps @ [p]) pr = Some p" "last_addr (p # ps) pr = last_addr ps (Some p)" "last_addr (ps @ qs) pr = last_addr qs (last_addr ps pr)"
  by (simp_all add: first_addr_def last_addr_def split: list.splits)

text \<open>The items of the list are linked in its order, from \<open>pr\<close> to \<open>nx\<close>.\<close>

fun chain :: "(nat \<Rightarrow> ('k, 'v) Item option) \<Rightarrow> nat option \<Rightarrow> nat list \<Rightarrow> nat option \<Rightarrow> bool" where
  "chain items pr [] nx \<longleftrightarrow> True"
| "chain items pr (p # ps) nx \<longleftrightarrow>
     (\<exists>it. items p = Some it \<and> it_previous it = pr \<and> it_next it = first_addr ps nx) \<and> chain items (Some p) ps nx"

lemma chain_append: "chain items pr (ps @ qs) nx \<longleftrightarrow> chain items pr ps (first_addr qs nx) \<and> chain items (last_addr ps pr) qs nx"
  by (induction ps arbitrary: pr) auto

lemma chain_cong: "(\<And>p. p \<in> set ps \<Longrightarrow> items' p = items p) \<Longrightarrow> chain items' pr ps nx = chain items pr ps nx"
  by (induction ps arbitrary: pr) auto

lemma chain_frame [simp]: "p \<notin> set ps \<Longrightarrow> chain (items(p := x)) pr ps nx = chain items pr ps nx"
  by (rule chain_cong) auto

text \<open>Relinking the end and the beginning of a chain.\<close>

lemma chain_relink_last:
  assumes "chain items pr (ps @ [p]) nx" "distinct (ps @ [p])"
  shows "chain (items(p := map_option (\<lambda>it. it\<lparr>it_next := nx'\<rparr>) (items p))) pr (ps @ [p]) nx'"
  using assms by (auto simp: chain_append)

lemma chain_relink_first:
  assumes "chain items pr (p # ps) nx" "distinct (p # ps)"
  shows "chain (items(p := map_option (\<lambda>it. it\<lparr>it_previous := pr'\<rparr>) (items p))) pr' (p # ps) nx"
  using assms by auto

text \<open>Only links change: keys and values stay.\<close>

definition entry :: "('k, 'v) Item \<Rightarrow> 'k \<times> 'v" where
  "entry = (\<lambda>it. (it_key it, it_value it))"

definition entry_at :: "(nat \<Rightarrow> ('k, 'v) Item option) \<Rightarrow> nat \<Rightarrow> ('k \<times> 'v) option" where
  "entry_at items p = map_option entry (items p)"

lemma entry_at_link [simp]:
  "entry_at (items(p := map_option (\<lambda>it. it\<lparr>it_next := x\<rparr>) (items p))) = entry_at items"
  "entry_at (items(p := map_option (\<lambda>it. it\<lparr>it_previous := x\<rparr>) (items p))) = entry_at items"
  by (auto simp: fun_eq_iff entry_at_def entry_def option.map_comp comp_def)

lemma upd_sel [simp]:
  "lm_items (upd_item p f this) = (lm_items this)(p := map_option f (lm_items this p))" "lm_map (upd_item p f this) = lm_map this"
  "lm_head (upd_item p f this) = lm_head this" "lm_tail (upd_item p f this) = lm_tail this" "lm_size (upd_item p f this) = lm_size this"
  "lm_fresh (upd_item p f this) = lm_fresh this" "lm_state (upd_item p f this) = lm_state this"
  by (simp_all add: upd_item_def)

lemma bump_sel [simp]:
  "lm_items (bump_state this) = lm_items this" "lm_map (bump_state this) = lm_map this" "lm_head (bump_state this) = lm_head this"
  "lm_tail (bump_state this) = lm_tail this" "lm_size (bump_state this) = lm_size this" "lm_fresh (bump_state this) = lm_fresh this"
  by (simp_all add: bump_state_def)

lemmas link_defs = set_next_def set_previous_def bridge_def

section \<open>The map as a list\<close>

text \<open>
  The part of the state that the links make up: the items of \<open>ps\<close>, in this order, with their entries.
\<close>

definition linked :: "('k, 'v) LinkedMap \<Rightarrow> nat list \<Rightarrow> bool" where
  "linked this ps \<longleftrightarrow>
     distinct ps \<and> (\<forall>p \<in> set ps. p < lm_fresh this) \<and> chain (lm_items this) None ps None \<and>
     lm_head this = first_addr ps None \<and> lm_tail this = last_addr ps None"

definition entries_of :: "('k, 'v) LinkedMap \<Rightarrow> nat list \<Rightarrow> ('k \<times> 'v) list" where
  "entries_of this ps = map (\<lambda>p. the (entry_at (lm_items this) p)) ps"

definition indexed :: "('k, 'v) LinkedMap \<Rightarrow> nat list \<Rightarrow> bool" where
  "indexed this ps \<longleftrightarrow>
     distinct (map fst (entries_of this ps)) \<and> lm_size this = int (length ps) \<and>
     (\<forall>k p. lm_map this k = Some p \<longleftrightarrow> p \<in> set ps \<and> fst (the (entry_at (lm_items this) p)) = k)"

definition represents :: "('k, 'v) LinkedMap \<Rightarrow> ('k \<times> 'v) list \<Rightarrow> bool" where
  "represents this xs \<longleftrightarrow> (\<exists>ps. linked this ps \<and> indexed this ps \<and> xs = entries_of this ps)"

lemma chain_Some: "chain items pr ps nx \<Longrightarrow> p \<in> set ps \<Longrightarrow> \<exists>it. items p = Some it"
  by (induction ps arbitrary: pr) auto

lemma linked_Some: "linked this ps \<Longrightarrow> p \<in> set ps \<Longrightarrow> \<exists>it. lm_items this p = Some it"
  using chain_Some by (auto simp: linked_def)

text \<open>Splitting the chain at an item.\<close>

lemma linked_at:
  assumes "linked this (xs @ p # ys)"
  shows "item_previous this p = last_addr xs None" "item_next this p = first_addr ys None"
  using assms by (auto simp: linked_def chain_append item_previous_def item_next_def)

lemma linked_frame:
  "p \<notin> set ps \<Longrightarrow> linked (upd_item p f this) ps = linked this ps"
  "linked (bump_state this) ps = linked this ps" "linked (this\<lparr>lm_map := m\<rparr>) ps = linked this ps" "linked (this\<lparr>lm_size := n\<rparr>) ps = linked this ps"
  by (simp_all add: linked_def)

lemma linked_ends:
  "linked this (p # ps) \<Longrightarrow> lm_head this = Some p" "linked this (ps @ [p]) \<Longrightarrow> lm_tail this = Some p"
  by (simp_all add: linked_def)

lemma linked_links:
  "p \<notin> set ps \<Longrightarrow> linked (set_next p q this) ps = linked this ps" "p \<notin> set ps \<Longrightarrow> linked (set_previous p q this) ps = linked this ps"
  by (simp_all add: linked_frame link_defs)

lemma unlink_first:
  assumes "linked this (p # q # ys)"
  shows "linked ((set_previous q None this)\<lparr>lm_head := Some q\<rparr>) (q # ys)"
  using assms chain_relink_first [of "lm_items this" "Some p" q ys None None] by (auto simp: linked_def set_previous_def)

lemma unlink_last:
  assumes "linked this (xs @ [q, p])"
  shows "linked ((set_next q None this)\<lparr>lm_tail := Some q\<rparr>) (xs @ [q])"
proof -
  have "chain (lm_items this) None (xs @ [q]) (Some p)" using assms chain_append [of "lm_items this" None "xs @ [q]" "[p]"] by (simp add: linked_def)
  then show ?thesis using assms chain_relink_last [of "lm_items this" None xs q "Some p" None] by (auto simp: linked_def set_next_def)
qed

lemma unlink_between:
  assumes "linked this (xs @ q # p # r # ys)"
  shows "linked (bridge q r this) (xs @ q # r # ys)"
proof -
  let ?i = "lm_items this"
  have d: "distinct (xs @ q # p # r # ys)" and c: "chain ?i None (xs @ [q]) (Some p)" "chain ?i (Some p) (r # ys) None"
    using assms chain_append [of ?i None "xs @ [q]" "p # r # ys" None] by (simp_all add: linked_def)
  let ?i1 = "?i(r := map_option (\<lambda>it. it\<lparr>it_previous := Some q\<rparr>) (?i r))"
  let ?i2 = "?i1(q := map_option (\<lambda>it. it\<lparr>it_next := Some r\<rparr>) (?i1 q))"
  have "chain ?i1 (Some q) (r # ys) None" by (rule chain_relink_first [OF c(2)]) (use d in simp)
  then have right: "chain ?i2 (Some q) (r # ys) None" using d by (subst chain_frame) auto
  have "chain ?i1 None (xs @ [q]) (Some p)" using c(1) d by (subst chain_frame) auto
  then have left: "chain ?i2 None (xs @ [q]) (Some r)" by (rule chain_relink_last) (use d in simp)
  have "chain ?i2 None ((xs @ [q]) @ r # ys) None"
    by (rule chain_append [THEN iffD2]) (use left right in \<open>simp only: addr_simps\<close>)
  then show ?thesis using assms by (auto simp: linked_def bridge_def set_next_def set_previous_def)
qed

lemma link_first:
  assumes "linked this (h # ps)" "p \<notin> set (h # ps)" "p < lm_fresh this" "lm_items this p = Some it" "it_previous it = None"
  shows "linked ((set_previous h (Some p) (set_next p (Some h) this))\<lparr>lm_head := Some p\<rparr>) (p # h # ps)"
  using assms by (auto simp: linked_def link_defs)

lemma link_last:
  assumes "linked this (ps @ [t])" "p \<notin> set (ps @ [t])" "p < lm_fresh this" "lm_items this p = Some it" "it_next it = None"
  shows "linked ((set_next t (Some p) (set_previous p (Some t) this))\<lparr>lm_tail := Some p\<rparr>) (ps @ [t, p])"
proof -
  let ?i1 = "(lm_items this)(p := map_option (\<lambda>it. it\<lparr>it_previous := Some t\<rparr>) (lm_items this p))"
  let ?i2 = "?i1(t := map_option (\<lambda>it. it\<lparr>it_next := Some p\<rparr>) (?i1 t))"
  have "chain ?i1 None (ps @ [t]) None" using assms(1,2) by (subst chain_frame) (auto simp: linked_def)
  then have "chain ?i2 None (ps @ [t]) (Some p)" by (rule chain_relink_last) (use assms(1) in \<open>simp add: linked_def\<close>)
  moreover have "chain ?i2 (Some t) [p] None" using assms(2,4,5) by auto
  ultimately have "chain ?i2 None ((ps @ [t]) @ [p]) None"
    by (intro chain_append [THEN iffD2]) (simp only: addr_simps)
  then show ?thesis using assms(1-3) by (auto simp: linked_def link_defs)
qed

lemma entry_at_links [simp]:
  "entry_at (lm_items (set_next p q this)) = entry_at (lm_items this)" "entry_at (lm_items (set_previous p q this)) = entry_at (lm_items this)"
  by (simp_all add: link_defs)

lemma entry_at_bridge [simp]: "entry_at (lm_items (bridge p r this)) = entry_at (lm_items this)"
  by (simp add: bridge_def)

lemma link_sel [simp]:
  "lm_map (set_next p q this) = lm_map this" "lm_map (set_previous p q this) = lm_map this" "lm_map (bridge p r this) = lm_map this"
  "lm_size (set_next p q this) = lm_size this" "lm_size (set_previous p q this) = lm_size this" "lm_size (bridge p r this) = lm_size this"
  "lm_fresh (set_next p q this) = lm_fresh this" "lm_fresh (set_previous p q this) = lm_fresh this" "lm_fresh (bridge p r this) = lm_fresh this"
  by (simp_all add: link_defs)

section \<open>Removing and touching an item\<close>

text \<open>What \<open>same_entries\<close> leaves alone: everything but the links and the state.\<close>

definition same_entries :: "('k, 'v) LinkedMap \<Rightarrow> ('k, 'v) LinkedMap \<Rightarrow> bool" where
  "same_entries this this' \<longleftrightarrow>
     entry_at (lm_items this') = entry_at (lm_items this) \<and> lm_map this' = lm_map this \<and> lm_size this' = lm_size this \<and> lm_fresh this' = lm_fresh this"

lemma split_at:
  assumes "p \<in> set ps"
  obtains (single) "ps = [p]" | (lead) q ys where "ps = p # q # ys" | (trail) xs q where "ps = xs @ [q, p]"
    | (mid) xs q r ys where "ps = xs @ q # p # r # ys"
proof -
  obtain us vs where ps: "ps = us @ p # vs" using assms by (meson split_list)
  show ?thesis
  proof (cases us rule: rev_cases)
    case Nil
    then show ?thesis using ps single lead by (cases vs) auto
  next
    case (snoc xs q)
    then show ?thesis using ps trail mid by (cases vs) auto
  qed
qed

lemma linked_mid_ends:
  assumes "linked this (xs @ q # p # r # ys)"
  shows "lm_head this = Some (hd (xs @ [q]))" "hd (xs @ [q]) \<noteq> p" "lm_tail this = Some (last (r # ys))" "last (r # ys) \<noteq> p"
proof -
  have d: "distinct (xs @ q # p # r # ys)" using assms by (simp add: linked_def)
  show "lm_head this = Some (hd (xs @ [q]))" "hd (xs @ [q]) \<noteq> p" using assms d by (cases xs; simp add: linked_def)+
  show "lm_tail this = Some (last (r # ys))" using assms by (simp add: linked_def last_addr_def)
  show "last (r # ys) \<noteq> p" using d last_in_set [of "r # ys"] by auto
qed

lemma removeItem_ok:
  assumes l: "linked this ps" and p: "p \<in> set ps"
  shows "\<exists>this'. LinkedMap_removeItem p this = Inr this' \<and> linked this' (remove1 p ps) \<and> same_entries this this'"
  using p
proof (cases rule: split_at)
  case single
  let ?t = "this\<lparr>lm_head := None, lm_tail := None\<rparr>"
  have "LinkedMap_removeItem p this = Inr (bump_state (set_previous p None (set_next p None ?t)))"
    using l by (simp add: single LinkedMap_removeItem_def linked_def)
  moreover have "linked ?t []" by (simp add: linked_def)
  ultimately show ?thesis by (simp add: single linked_frame linked_links same_entries_def)
next
  case (lead q ys)
  let ?t = "(set_previous q None this)\<lparr>lm_head := Some q\<rparr>"
  have "LinkedMap_removeItem p this = Inr (bump_state (set_previous p None (set_next p None ?t)))"
    using l linked_at(2) [of this "[]" p "q # ys"] by (auto simp: lead LinkedMap_removeItem_def linked_def last_addr_def)
  moreover have "linked ?t (q # ys)" using unlink_first l lead by blast
  moreover have "p \<notin> set (q # ys)" using l by (auto simp: lead linked_def)
  ultimately show ?thesis by (simp add: lead linked_frame linked_links same_entries_def)
next
  case (trail xs q)
  let ?t = "(set_next q None this)\<lparr>lm_tail := Some q\<rparr>"
  have "distinct ps" using l by (simp add: linked_def)
  obtain h zs where h: "xs @ [q] = h # zs" by (cases xs) auto
  have ps: "ps = h # zs @ [p]" using arg_cong [OF h, of "\<lambda>us. us @ [p]"] by (simp add: trail)
  have "lm_head this = Some h" "lm_tail this = Some p" "h \<noteq> p" 
    using linked_ends(1) [of this h "zs @ [p]"] linked_ends(2) [of this "h # zs" p] l \<open>distinct ps\<close> unfolding ps by simp_all
  then have "LinkedMap_removeItem p this = Inr (bump_state (set_previous p None (set_next p None ?t)))"
    using l linked_at(1) [of this "xs @ [q]" p "[]"] by (simp add: trail LinkedMap_removeItem_def)
  moreover have "linked ?t (xs @ [q])" using unlink_last l trail by blast
  moreover have "p \<notin> set (xs @ [q])" using l by (auto simp: trail linked_def)
  ultimately show ?thesis using \<open>distinct ps\<close> by (simp add: trail linked_frame linked_links same_entries_def remove1_append)
next
  case (mid xs q r ys)
  let ?t = "bridge q r this"
  have d: "distinct ps" using l by (simp add: linked_def)
  have "lm_head this \<noteq> Some p" "lm_tail this \<noteq> Some p" using linked_mid_ends [OF l [unfolded mid]] by simp_all
  then have "LinkedMap_removeItem p this = Inr (bump_state (set_previous p None (set_next p None ?t)))"
    using l linked_at [of this "xs @ [q]" p "r # ys"] by (auto simp: mid LinkedMap_removeItem_def)
  moreover have "linked ?t (xs @ q # r # ys)" using unlink_between l mid by blast
  moreover have "p \<notin> set (xs @ q # r # ys)" using d by (auto simp: mid)
  ultimately show ?thesis using d by (simp add: mid linked_frame linked_links same_entries_def remove1_append)
qed

lemma relink_first:
  assumes "linked t (h # ps)" "p \<notin> set (h # ps)" "p < lm_fresh t" "lm_items t p = Some it"
  shows "linked ((set_previous h (Some p) (set_next p (Some h) (set_previous p None t)))\<lparr>lm_head := Some p\<rparr>) (p # h # ps)"
  by (rule link_first [where it = "it\<lparr>it_previous := None\<rparr>"]) (use assms in \<open>auto simp: linked_frame set_previous_def\<close>)

lemma relink_last:
  assumes "linked t (ps @ [h])" "p \<notin> set (ps @ [h])" "p < lm_fresh t" "lm_items t p = Some it"
  shows "linked ((set_next h (Some p) (set_previous p (Some h) (set_next p None t)))\<lparr>lm_tail := Some p\<rparr>) (ps @ [h, p])"
  by (rule link_last [where it = "it\<lparr>it_next := None\<rparr>"]) (use assms in \<open>auto simp: linked_frame set_next_def\<close>)

lemma touch_AsOld_ok:
  assumes l: "linked this ps" and p: "p \<in> set ps"
  shows "\<exists>this'. LinkedMap_touch p Touch_AsOld this = Inr this' \<and> linked this' (p # remove1 p ps) \<and> same_entries this this'"
  using p
proof (cases rule: split_at)
  case single
  then show ?thesis using l by (auto simp: LinkedMap_touch_def linked_def same_entries_def)
next
  case (lead q ys)
  then have "LinkedMap_touch p Touch_AsOld this = Inr this" using l by (auto simp: LinkedMap_touch_def linked_def last_addr_def)
  then show ?thesis using l lead by (simp add: same_entries_def)
next
  case (trail xs q)
  let ?t = "(set_next q None this)\<lparr>lm_tail := Some q\<rparr>"
  have d: "distinct ps" and fresh: "p < lm_fresh this" using l by (auto simp: linked_def trail)
  obtain h zs where h: "xs @ [q] = h # zs" by (cases xs) auto
  obtain it where it: "lm_items ?t p = Some it" using linked_Some [OF l p] d by (auto simp: trail set_next_def)
  have ps: "ps = h # zs @ [p]" using arg_cong [OF h, of "\<lambda>us. us @ [p]"] by (simp add: trail)
  have heads: "lm_head this = Some h" "lm_tail this = Some p" "h \<noteq> p" 
    using linked_ends(1) [of this h "zs @ [p]"] linked_ends(2) [of this "h # zs" p] l d unfolding ps by simp_all
  then have "LinkedMap_touch p Touch_AsOld this =
      Inr (bump_state ((set_previous h (Some p) (set_next p (Some h) (set_previous p None ?t)))\<lparr>lm_head := Some p\<rparr>))"
    using heads linked_at(1) [of this "xs @ [q]" p "[]"] l by (simp add: LinkedMap_touch_def trail)
  moreover have "linked ?t (h # zs)" using unlink_last l trail h by metis
  moreover have "p \<notin> set (h # zs)" using d h [symmetric] by (simp add: trail)
  ultimately show ?thesis
    using relink_first [of ?t h zs p it] fresh it d h by (simp add: linked_frame same_entries_def trail remove1_append)
next
  case (mid xs q r ys)
  let ?t = "bridge q r this" and ?h = "hd (xs @ [q])"
  have d: "distinct ps" and fresh: "p < lm_fresh this" using l by (auto simp: linked_def mid)
  obtain zs where zs: "xs @ q # r # ys = ?h # zs" by (cases xs) auto
  obtain it where it: "lm_items ?t p = Some it" using linked_Some [OF l p] d by (auto simp: mid link_defs)
  have "LinkedMap_touch p Touch_AsOld this =
      Inr (bump_state ((set_previous ?h (Some p) (set_next p (Some ?h) (set_previous p None ?t)))\<lparr>lm_head := Some p\<rparr>))"
    using linked_mid_ends [of this xs q p r ys] linked_at [of this "xs @ [q]" p "r # ys"] l by (simp add: LinkedMap_touch_def mid)
  moreover have rest: "remove1 p ps = ?h # zs" using d zs by (simp add: mid remove1_append)
  moreover have "linked ?t (?h # zs)" using unlink_between [of this xs q p r ys] l unfolding mid zs by simp
  moreover have "p \<notin> set (?h # zs)" using d zs [symmetric] by (simp add: mid)
  ultimately show ?thesis using relink_first [of ?t ?h zs p it] fresh it by (simp add: linked_frame same_entries_def)
qed

lemma touch_AsNew_ok:
  assumes l: "linked this ps" and p: "p \<in> set ps"
  shows "\<exists>this'. LinkedMap_touch p Touch_AsNew this = Inr this' \<and> linked this' (remove1 p ps @ [p]) \<and> same_entries this this'"
  using p
proof (cases rule: split_at)
  case single
  then show ?thesis using l by (auto simp: LinkedMap_touch_def linked_def same_entries_def)
next
  case (lead q ys)
  let ?t = "(set_previous q None this)\<lparr>lm_head := Some q\<rparr>"
  have d: "distinct ps" and fresh: "p < lm_fresh this" using l by (auto simp: linked_def lead)
  obtain zs t where t: "q # ys = zs @ [t]" by (metis list.distinct(1) rev_exhaust)
  have ps: "ps = p # zs @ [t]" using t by (simp add: lead)
  obtain it where it: "lm_items ?t p = Some it" using linked_Some [OF l p] d by (auto simp: lead set_previous_def)
  have ends: "lm_head this = Some p" "lm_tail this = Some t" "t \<noteq> p"
    using linked_ends(1) [of this p "zs @ [t]"] linked_ends(2) [of this "p # zs" t] l d unfolding ps by auto
  then have "LinkedMap_touch p Touch_AsNew this =
      Inr (bump_state ((set_next t (Some p) (set_previous p (Some t) (set_next p None ?t)))\<lparr>lm_tail := Some p\<rparr>))"
    using linked_at(2) [of this "[]" p "q # ys"] l by (simp add: LinkedMap_touch_def lead)
  moreover have "linked ?t (zs @ [t])" using unlink_first l lead t by metis
  moreover have "p \<notin> set (zs @ [t])" using d by (simp add: ps)
  moreover have "remove1 p ps = zs @ [t]" by (simp add: ps)
  ultimately show ?thesis using relink_last [of ?t zs t p it] fresh it by (simp add: linked_frame same_entries_def)
next
  case (trail xs q)
  then have "LinkedMap_touch p Touch_AsNew this = Inr this"
    using l linked_ends(2) [of this "xs @ [q]" p] by (cases xs) (auto simp: LinkedMap_touch_def linked_def)
  moreover have "remove1 p ps @ [p] = ps" using l by (simp add: trail linked_def remove1_append)
  ultimately show ?thesis using l by (simp add: same_entries_def)
next
  case (mid xs q r ys)
  let ?t = "bridge q r this"
  have d: "distinct ps" and fresh: "p < lm_fresh this" using l by (auto simp: linked_def mid)
  obtain zs t where t: "r # ys = zs @ [t]" by (metis list.distinct(1) rev_exhaust)
  have tail: "lm_tail this = Some t" "t \<noteq> p" using linked_mid_ends(3,4) [OF l [unfolded mid]] unfolding t by simp_all
  have ps: "ps = (xs @ q # p # zs) @ [t]" using t by (simp add: mid)
  obtain it where it: "lm_items ?t p = Some it" using linked_Some [OF l p] d by (auto simp: mid link_defs)
  have "LinkedMap_touch p Touch_AsNew this =
      Inr (bump_state ((set_next t (Some p) (set_previous p (Some t) (set_next p None ?t)))\<lparr>lm_tail := Some p\<rparr>))"
    using linked_mid_ends(1,2) [OF l [unfolded mid]] tail linked_at [of this "xs @ [q]" p "r # ys"] l by (simp add: LinkedMap_touch_def mid)
  moreover have rest: "remove1 p ps = (xs @ q # zs) @ [t]" using d t by (simp add: mid remove1_append)
  moreover have "linked ?t ((xs @ q # zs) @ [t])" using unlink_between [of this xs q p r ys] l t by (simp add: mid)
  moreover have "p \<notin> set ((xs @ q # zs) @ [t])" using d ps by auto
  ultimately show ?thesis using relink_last [of ?t "xs @ q # zs" t p it] fresh it by (simp add: linked_frame same_entries_def)
qed

section \<open>Lists of entries\<close>

text \<open>What the operations do to the list of entries, oldest first.\<close>

definition list_touch :: "Touch \<Rightarrow> 'k \<Rightarrow> ('k \<times> 'v) list \<Rightarrow> ('k \<times> 'v) list" where
  "list_touch touch k xs =
     (case touch of Touch_None \<Rightarrow> xs
      | Touch_AsOld \<Rightarrow> filter (\<lambda>e. fst e = k) xs @ filter (\<lambda>e. fst e \<noteq> k) xs
      | Touch_AsNew \<Rightarrow> filter (\<lambda>e. fst e \<noteq> k) xs @ filter (\<lambda>e. fst e = k) xs)"

definition list_set :: "'k \<Rightarrow> 'v \<Rightarrow> Touch \<Rightarrow> ('k \<times> 'v) list \<Rightarrow> ('k \<times> 'v) list" where
  "list_set k v touch xs =
     (if k \<in> fst ` set xs then list_touch touch k (map (\<lambda>e. if fst e = k then (k, v) else e) xs)
      else if touch = Touch_AsOld then (k, v) # xs else xs @ [(k, v)])"

definition list_remove :: "'k \<Rightarrow> ('k \<times> 'v) list \<Rightarrow> ('k \<times> 'v) list" where
  "list_remove k xs = filter (\<lambda>e. fst e \<noteq> k) xs"

lemma filter_key:
  assumes "distinct ps" "distinct (map f ps)" "p \<in> set ps"
  shows "filter (\<lambda>q. f q \<noteq> f p) ps = remove1 p ps" "filter (\<lambda>q. f q = f p) ps = [p]"
proof -
  have inj: "f q = f p \<longleftrightarrow> q = p" if "q \<in> set ps" for q using assms that by (auto simp: distinct_map inj_on_def)
  have "filter (\<lambda>q. f q \<noteq> f p) ps = filter (\<lambda>q. q \<noteq> p) ps" "filter (\<lambda>q. f q = f p) ps = filter (\<lambda>q. q = p) ps"
    using inj by (auto intro: filter_cong)
  moreover have "filter (\<lambda>q. q \<noteq> p) ps = remove1 p ps" using assms(1) by (simp add: distinct_remove1_removeAll removeAll_filter_not_eq eq_commute)
  moreover have "filter (\<lambda>q. q = p) ps = [p]" using assms(1,3) by (induction ps) (auto simp: filter_empty_conv)
  ultimately show "filter (\<lambda>q. f q \<noteq> f p) ps = remove1 p ps" "filter (\<lambda>q. f q = f p) ps = [p]" by simp_all
qed

abbreviation entry_of :: "('k, 'v) LinkedMap \<Rightarrow> nat \<Rightarrow> 'k \<times> 'v" where
  "entry_of this p \<equiv> the (entry_at (lm_items this) p)"

lemma entries_filter:
  assumes "linked this ps" "indexed this ps" "p \<in> set ps" "fst (entry_of this p) = k"
  shows "filter (\<lambda>e. fst e \<noteq> k) (entries_of this ps) = entries_of this (remove1 p ps)"
    "filter (\<lambda>e. fst e = k) (entries_of this ps) = entries_of this [p]"
proof -
  have "distinct ps" "distinct (map (\<lambda>p. fst (entry_of this p)) ps)"
    using assms(1,2) by (simp_all add: linked_def indexed_def entries_of_def comp_def)
  from filter_key [OF this assms(3)] show "filter (\<lambda>e. fst e \<noteq> k) (entries_of this ps) = entries_of this (remove1 p ps)"
    "filter (\<lambda>e. fst e = k) (entries_of this ps) = entries_of this [p]"
    using assms(4) by (simp_all add: entries_of_def filter_map comp_def)
qed

lemma same_entries_of: "same_entries this this' \<Longrightarrow> entries_of this' ps = entries_of this ps"
  by (simp add: same_entries_def entries_of_def)

lemma indexed_permuted:
  assumes "indexed this ps" "same_entries this this'" "mset qs = mset ps"
  shows "indexed this' qs"
proof -
  have "set qs = set ps" "length qs = length ps" using assms(3) by (auto dest: mset_eq_setD mset_eq_length)
  moreover have "mset (map fst (entries_of this' qs)) = mset (map fst (entries_of this ps))"
    using assms(3) by (simp add: same_entries_of [OF assms(2)]) (simp add: entries_of_def)
  then have "distinct (map fst (entries_of this' qs))" using assms(1) by (metis indexed_def mset_eq_imp_distinct_iff)
  ultimately show ?thesis using assms(1,2) by (simp add: indexed_def same_entries_def)
qed

lemma touch_ok:
  assumes l: "linked this ps" and i: "indexed this ps" and p: "p \<in> set ps" "fst (entry_of this p) = k"
  shows "\<exists>this'. LinkedMap_touch p touch this = Inr this' \<and> same_entries this this' \<and> represents this' (list_touch touch k (entries_of this ps))"
proof -
  note f = entries_filter [OF l i p]
  have perm: "mset (p # remove1 p ps) = mset ps" "mset (remove1 p ps @ [p]) = mset ps" using p(1) by simp_all
  show ?thesis
  proof (cases touch)
    case Touch_None
    have "lm_head this \<noteq> None" "lm_tail this \<noteq> None" using l p(1) by (auto simp: linked_def first_addr_def last_addr_def split: list.splits)
    then have "LinkedMap_touch p touch this = Inr this" by (auto simp: LinkedMap_touch_def Touch_None)
    then show ?thesis using l i by (auto simp: Touch_None list_touch_def represents_def same_entries_def)
  next
    case Touch_AsOld
    obtain this' where t: "LinkedMap_touch p touch this = Inr this'" "linked this' (p # remove1 p ps)" "same_entries this this'"
      using touch_AsOld_ok [OF l p(1)] Touch_AsOld by auto
    have "represents this' (entries_of this' (p # remove1 p ps))"
      unfolding represents_def using t(2) indexed_permuted [OF i t(3) perm(1)] by blast
    then show ?thesis using t f by (simp add: Touch_AsOld list_touch_def same_entries_of) (simp add: entries_of_def)
  next
    case Touch_AsNew
    obtain this' where t: "LinkedMap_touch p touch this = Inr this'" "linked this' (remove1 p ps @ [p])" "same_entries this this'"
      using touch_AsNew_ok [OF l p(1)] Touch_AsNew by auto
    have "represents this' (entries_of this' (remove1 p ps @ [p]))"
      unfolding represents_def using t(2) indexed_permuted [OF i t(3) perm(2)] by blast
    then show ?thesis using t f by (simp add: Touch_AsNew list_touch_def same_entries_of) (simp add: entries_of_def)
  qed
qed

text \<open>Looking up a key.\<close>

lemma indexed_lookup:
  assumes "linked this ps" "indexed this ps"
  shows "lm_map this k = None \<Longrightarrow> k \<notin> fst ` set (entries_of this ps)"
    "lm_map this k = Some p \<Longrightarrow> p \<in> set ps \<and> fst (entry_of this p) = k \<and> map_of (entries_of this ps) k = item_value this p"
proof -
  show "k \<notin> fst ` set (entries_of this ps)" if "lm_map this k = None"
    using assms(2) that unfolding indexed_def entries_of_def by (auto simp: image_iff) (metis fst_conv option.distinct(1))
  assume "lm_map this k = Some p"
  then have p: "p \<in> set ps" "fst (entry_of this p) = k" using assms(2) by (auto simp: indexed_def)
  obtain it where it: "lm_items this p = Some it" using linked_Some [OF assms(1) p(1)] by blast
  then have "entry_of this p = (k, it_value it)" using p(2) by (simp add: entry_at_def entry_def)
  then have "(k, it_value it) \<in> set (entries_of this ps)" using p(1) by (force simp: entries_of_def)
  then have "map_of (entries_of this ps) k = Some (it_value it)" using assms(2) by (simp add: indexed_def)
  then show "p \<in> set ps \<and> fst (entry_of this p) = k \<and> map_of (entries_of this ps) k = item_value this p"
    using p it by (simp add: item_value_def)
qed

lemma item_value_entry: "item_value this p = map_option snd (entry_at (lm_items this) p)"
  by (cases "lm_items this p") (simp_all add: item_value_def entry_at_def entry_def)

lemma get_represents:
  assumes "represents this xs"
  shows "\<exists>this'. LinkedMap_get k touch this = Inr (map_of xs k, this') \<and> represents this' (if k \<in> fst ` set xs then list_touch touch k xs else xs)"
proof -
  obtain ps where ps: "linked this ps" "indexed this ps" "xs = entries_of this ps" using assms by (auto simp: represents_def)
  show ?thesis
  proof (cases "lm_map this k")
    case None
    then have "k \<notin> fst ` set xs" using indexed_lookup(1) [OF ps(1,2)] ps(3) by simp
    moreover have "map_of xs k = None" using calculation by (simp add: map_of_eq_None_iff)
    ultimately show ?thesis using assms None by (simp add: LinkedMap_get_def)
  next
    case (Some p)
    note p = indexed_lookup(2) [OF ps(1,2) Some]
    then have k: "k \<in> fst ` set xs" using ps(3) by (auto simp: entries_of_def)
    obtain this' where t: "LinkedMap_touch p touch this = Inr this'" "same_entries this this'" "represents this' (list_touch touch k xs)"
      using touch_ok [OF ps(1,2)] p ps(3) by blast
    have "item_value this' p = map_of xs k" using t(2) p ps(3) by (simp add: item_value_entry same_entries_def)
    then show ?thesis
      using t k Some p ps(3) assms by (cases touch) (auto simp: LinkedMap_get_def list_touch_def)
  qed
qed

section \<open>Storing, removing and trimming\<close>

lemma chain_value: "chain (items(p := map_option (\<lambda>it. it\<lparr>it_value := v\<rparr>) (items p))) pr ps nx \<longleftrightarrow> chain items pr ps nx"
  by (induction ps arbitrary: pr) auto

lemma set_value_ok:
  fixes this :: "('k, 'v) LinkedMap" and v :: 'v
  assumes l: "linked this ps" and i: "indexed this ps" and p: "p \<in> set ps" "fst (entry_of this p) = k"
  defines "this1 \<equiv> upd_item p (\<lambda>it. it\<lparr>it_value := v\<rparr>) this"
  shows "linked this1 ps" "indexed this1 ps" "entries_of this1 ps = map (\<lambda>e. if fst e = k then (k, v) else e) (entries_of this ps)" "fst (entry_of this1 p) = k"
proof -
  show "linked this1 ps" using l by (simp add: linked_def this1_def chain_value)
  obtain it where it: "lm_items this p = Some it" using linked_Some [OF l p(1)] by blast
  have entry: "entry_of this1 q = (if q = p then (k, v) else entry_of this q)" for q
    using p(2) it by (simp add: this1_def entry_at_def entry_def)
  then show "fst (entry_of this1 p) = k" by simp
  have keys: "fst (entry_of this1 q) = fst (entry_of this q)" for q using entry p(2) by simp
  then show "indexed this1 ps" using i by (simp add: indexed_def entries_of_def comp_def) (simp add: this1_def)
  have uniq: "q = p" if "q \<in> set ps" "fst (entry_of this q) = k" for q
    using i p that by (auto simp: indexed_def entries_of_def distinct_map inj_on_def)
  have "entry_of this1 q = (if fst (entry_of this q) = k then (k, v) else entry_of this q)" if "q \<in> set ps" for q
    using uniq [OF that] p(2) by (cases "q = p") (auto simp: entry)
  then show "entries_of this1 ps = map (\<lambda>e. if fst e = k then (k, v) else e) (entries_of this ps)" by (simp add: entries_of_def)
qed

text \<open>A new item is linked at one of the ends.\<close>

lemma addItem_ok:
  assumes l: "linked this ps" and n: "n \<notin> set ps" "n < lm_fresh this" "lm_items this n = Some it" "it_previous it = None" "it_next it = None"
  shows "\<exists>this'. LinkedMap_addItemFirst n this = Inr this' \<and> linked this' (n # ps) \<and> same_entries this this'"
    "\<exists>this'. LinkedMap_addItemLast n this = Inr this' \<and> linked this' (ps @ [n]) \<and> same_entries this this'"
proof -
  show "\<exists>this'. LinkedMap_addItemFirst n this = Inr this' \<and> linked this' (n # ps) \<and> same_entries this this'"
  proof (cases ps)
    case Nil
    then show ?thesis using l n by (auto simp: LinkedMap_addItemFirst_def linked_def same_entries_def)
  next
    case (Cons h qs)
    have "linked ((set_previous h (Some n) (set_next n (Some h) this))\<lparr>lm_head := Some n\<rparr>) (n # ps)"
      unfolding Cons by (rule link_first) (use l n Cons in auto)
    moreover have "lm_head this = Some h" using l by (simp add: linked_def Cons)
    ultimately show ?thesis by (simp add: LinkedMap_addItemFirst_def linked_frame same_entries_def)
  qed
  show "\<exists>this'. LinkedMap_addItemLast n this = Inr this' \<and> linked this' (ps @ [n]) \<and> same_entries this this'"
  proof (cases ps rule: rev_cases)
    case Nil
    then show ?thesis using l n by (auto simp: LinkedMap_addItemLast_def linked_def same_entries_def)
  next
    case (snoc qs t)
    have "linked ((set_next t (Some n) (set_previous n (Some t) this))\<lparr>lm_tail := Some n\<rparr>) (qs @ [t, n])"
      by (rule link_last) (use l n snoc in auto)
    moreover have "lm_tail this = Some t" using l by (simp add: linked_def snoc)
    ultimately show ?thesis by (simp add: LinkedMap_addItemLast_def linked_frame same_entries_def snoc)
  qed
qed

lemma represents_added:
  assumes i: "indexed this ps" "linked this ps" and k: "k \<notin> fst ` set (entries_of this ps)"
    and n: "lm_fresh this = n" "this1 = this\<lparr>lm_items := (lm_items this)(n := Some \<lparr>it_previous = None, it_next = None, it_key = k, it_value = v\<rparr>), lm_fresh := n + 1\<rparr>"
    and t: "linked this2 qs" "same_entries this1 this2" "mset qs = add_mset n (mset ps)"
  shows "represents (this2\<lparr>lm_map := (lm_map this2)(k := Some n), lm_size := lm_size this2 + 1\<rparr>) (map (\<lambda>q. if q = n then (k, v) else entry_of this q) qs)"
proof -
  let ?t = "this2\<lparr>lm_map := (lm_map this2)(k := Some n), lm_size := lm_size this2 + 1\<rparr>"
  have set: "set qs = insert n (set ps)" "length qs = Suc (length ps)" "n \<notin> set ps"
    using t(3) i(2) n(1) by (auto dest: arg_cong [of _ _ set_mset] arg_cong [of _ _ size] simp: linked_def)
  have entry: "entry_of this2 q = (if q = n then (k, v) else entry_of this q)" for q
    using t(2) by (simp add: same_entries_def n(2) entry_at_def entry_def)
  have "mset (map fst (entries_of ?t qs)) = add_mset k (mset (map fst (entries_of this ps)))"
    using t(3) set(3) by (simp add: entries_of_def entry comp_def) (auto intro!: image_mset_cong)
  moreover have "distinct (k # map fst (entries_of this ps))" using i(1) k by (simp add: indexed_def)
  ultimately have "distinct (map fst (entries_of ?t qs))" by (metis mset.simps(2) mset_eq_imp_distinct_iff)
  moreover have "(((lm_map this)(k := Some n)) k' = Some p) = (p \<in> set qs \<and> fst (entry_of this2 p) = k')" for k' p
    using i(1) k set unfolding entry by (auto simp: indexed_def entries_of_def)
  ultimately have "indexed ?t qs" using i(1) set(2) t(2) by (simp add: indexed_def same_entries_def n(2))
  moreover have "linked ?t qs" using t(1) by (simp add: linked_frame)
  moreover have "entries_of ?t qs = map (\<lambda>q. if q = n then (k, v) else entry_of this q) qs" by (simp add: entries_of_def entry)
  ultimately show ?thesis unfolding represents_def by metis
qed

lemma set_represents:
  assumes "represents this xs"
  shows "\<exists>this'. LinkedMap_set k v touch this = Inr this' \<and> represents this' (list_set k v touch xs)"
proof -
  obtain ps where ps: "linked this ps" "indexed this ps" "xs = entries_of this ps" using assms by (auto simp: represents_def)
  show ?thesis
  proof (cases "lm_map this k")
    case (Some p)
    note p = indexed_lookup(2) [OF ps(1,2) Some]
    then have k: "k \<in> fst ` set xs" using ps(3) by (auto simp: entries_of_def)
    note v = set_value_ok [OF ps(1,2), of p k v]
    have "\<exists>this'. (if touch \<noteq> Touch_None then LinkedMap_touch p touch (upd_item p (\<lambda>it. it\<lparr>it_value := v\<rparr>) this) else Inr (upd_item p (\<lambda>it. it\<lparr>it_value := v\<rparr>) this)) = Inr this' \<and>
        represents this' (list_touch touch k (map (\<lambda>e. if fst e = k then (k, v) else e) xs))"
      using touch_ok [OF v(1,2), of p k touch] v p ps(3) by (cases "touch = Touch_None") (auto simp: represents_def list_touch_def)
    then show ?thesis using Some k by (simp add: LinkedMap_set_def list_set_def Let_def)
  next
    case None
    let ?n = "lm_fresh this"
    define this1 where "this1 = this\<lparr>lm_items := (lm_items this)(?n := Some \<lparr>it_previous = None, it_next = None, it_key = k, it_value = v\<rparr>), lm_fresh := ?n + 1\<rparr>"
    have k: "k \<notin> fst ` set xs" using indexed_lookup(1) [OF ps(1,2) None] ps(3) by simp
    have n: "?n \<notin> set ps" using ps(1) by (auto simp: linked_def)
    have l1: "linked this1 ps" using ps(1) n by (auto simp: linked_def this1_def)
    have rest: "map (\<lambda>q. if q = ?n then (k, v) else entry_of this q) ps = xs" using n ps(3) by (auto simp: entries_of_def)
    note added = represents_added [OF ps(2,1) k [unfolded ps(3)] refl this1_def]
    note add = addItem_ok [OF l1 n, of "\<lparr>it_previous = None, it_next = None, it_key = k, it_value = v\<rparr>"]
    have "\<exists>this2. LinkedMap_addItemFirst ?n this1 = Inr this2 \<and> represents (this2\<lparr>lm_map := (lm_map this2)(k := Some ?n), lm_size := lm_size this2 + 1\<rparr>) ((k, v) # xs)"
      using add(1) added [of _ "?n # ps"] rest by (fastforce simp: this1_def)
    moreover have "\<exists>this2. LinkedMap_addItemLast ?n this1 = Inr this2 \<and> represents (this2\<lparr>lm_map := (lm_map this2)(k := Some ?n), lm_size := lm_size this2 + 1\<rparr>) (xs @ [(k, v)])"
      using add(2) added [of _ "ps @ [?n]"] rest by (fastforce simp: this1_def)
    ultimately show ?thesis using None k by (cases touch) (auto simp: LinkedMap_set_def list_set_def Let_def this1_def)
  qed
qed

lemma removed_ok:
  assumes l: "linked this ps" and i: "indexed this ps" and p: "p \<in> set ps" "fst (entry_of this p) = k"
  shows "\<exists>this'. LinkedMap_removeItem p (this\<lparr>lm_map := (lm_map this)(k := None)\<rparr>) = Inr this' \<and> item_value this' p = map_of (entries_of this ps) k \<and>
    represents (this'\<lparr>lm_size := lm_size this' - 1\<rparr>) (list_remove k (entries_of this ps))"
proof -
  let ?m = "this\<lparr>lm_map := (lm_map this)(k := None)\<rparr>"
  have "linked ?m ps" using l by (simp add: linked_frame)
  from removeItem_ok [OF this p(1)] obtain t where t: "LinkedMap_removeItem p ?m = Inr t" "linked t (remove1 p ps)" "same_entries ?m t" by blast
  let ?t = "t\<lparr>lm_size := lm_size t - 1\<rparr>"
  have d: "distinct ps" using l by (simp add: linked_def)
  have key: "lm_map this k = Some p" using i p by (simp add: indexed_def)
  then have v: "map_of (entries_of this ps) k = item_value this p" using indexed_lookup(2) [OF l i] by blast
  have same: "entry_at (lm_items t) = entry_at (lm_items this)" "lm_map t = (lm_map this)(k := None)" "lm_size t = lm_size this"
    using t(3) by (simp_all add: same_entries_def)
  have "entries_of ?t (remove1 p ps) = list_remove k (entries_of this ps)"
    using entries_filter(1) [OF l i p] same(1) by (simp add: list_remove_def entries_of_def)
  moreover have "indexed ?t (remove1 p ps)"
    unfolding indexed_def
  proof (intro conjI allI)
    show "distinct (map fst (entries_of ?t (remove1 p ps)))"
      using i calculation by (simp add: list_remove_def indexed_def distinct_map_filter)
    show "lm_size ?t = int (length (remove1 p ps))"
      using i same(3) p(1) length_pos_if_in_set [OF p(1)] by (simp add: indexed_def length_remove1 of_nat_diff Suc_leI)
    show "(lm_map ?t k' = Some q) = (q \<in> set (remove1 p ps) \<and> fst (entry_of ?t q) = k')" for k' q
      using i d key p by (auto simp: same indexed_def set_remove1_eq) (metis option.inject)
  qed
  moreover have "linked ?t (remove1 p ps)" using t(2) by (simp add: linked_frame)
  moreover have "item_value t p = item_value this p" by (simp add: item_value_entry same)
  ultimately show ?thesis using t(1) v unfolding represents_def by metis
qed

lemma remove_represents:
  assumes "represents this xs"
  shows "\<exists>this'. LinkedMap_remove k this = Inr (map_of xs k, this') \<and> represents this' (list_remove k xs)"
proof -
  obtain ps where ps: "linked this ps" "indexed this ps" "xs = entries_of this ps" using assms by (auto simp: represents_def)
  show ?thesis
  proof (cases "lm_map this k")
    case None
    then have k: "k \<notin> fst ` set xs" using indexed_lookup(1) [OF ps(1,2)] ps(3) by simp
    then have "map_of xs k = None" "list_remove k xs = xs" by (auto simp: map_of_eq_None_iff list_remove_def filter_id_conv)
    then show ?thesis using assms None by (simp add: LinkedMap_remove_def)
  next
    case (Some p)
    note p = indexed_lookup(2) [OF ps(1,2) Some]
    then show ?thesis using removed_ok [OF ps(1,2), of p k] Some ps(3) by (auto simp: LinkedMap_remove_def)
  qed
qed

lemma list_remove_first: "distinct (map fst (e # xs)) \<Longrightarrow> list_remove (fst e) (e # xs) = xs"
  by (auto simp: list_remove_def filter_id_conv) (metis fst_conv image_eqI)

lemma shift_represents:
  assumes "represents this xs"
  shows "\<exists>this'. LinkedMap_shift this = Inr (case xs of [] \<Rightarrow> None | e # _ \<Rightarrow> Some (snd e), this') \<and> represents this' (tl xs)"
proof -
  obtain ps where ps: "linked this ps" "indexed this ps" "xs = entries_of this ps" using assms by (auto simp: represents_def)
  show ?thesis
  proof (cases ps)
    case Nil
    then have "xs = []" "LinkedMap_shift this = Inr (None, this)" using ps by (simp_all add: entries_of_def LinkedMap_shift_def linked_def)
    then show ?thesis using assms by simp
  next
    case (Cons p qs)
    obtain it where it: "lm_items this p = Some it" using linked_Some [OF ps(1)] Cons by auto
    then have e: "entry_of this p = (it_key it, it_value it)" by (simp add: entry_at_def entry_def)
    have xs: "xs = (it_key it, it_value it) # entries_of this qs" using ps(3) Cons e by (simp add: entries_of_def)
    have d: "distinct (map fst xs)" using ps(2,3) by (simp add: indexed_def)
    have lookup: "map_of xs (it_key it) = Some (it_value it)" by (simp add: xs)
    have rest: "list_remove (it_key it) xs = tl xs"
      using list_remove_first [of "(it_key it, it_value it)" "entries_of this qs"] d by (simp add: xs)
    obtain t where "LinkedMap_removeItem p (this\<lparr>lm_map := (lm_map this)(it_key it := None)\<rparr>) = Inr t" "item_value t p = Some (it_value it)"
        "represents (t\<lparr>lm_size := lm_size t - 1\<rparr>) (tl xs)"
      using removed_ok [OF ps(1,2), of p "it_key it", folded ps(3), unfolded lookup rest] e Cons by auto
    moreover have "lm_head this = Some p" "lm_tail this \<noteq> None" using ps(1) by (auto simp: Cons linked_def last_addr_def)
    ultimately show ?thesis using it by (auto simp: LinkedMap_shift_def xs)
  qed
qed

lemma clear_represents: "represents (LinkedMap_clear this) []"
  by (auto simp: represents_def linked_def indexed_def entries_of_def LinkedMap_clear_def intro!: exI [of _ "[]"])

lemma new_represents: "represents new_LinkedMap []"
  by (auto simp: represents_def linked_def indexed_def entries_of_def new_LinkedMap_def intro!: exI [of _ "[]"])

text \<open>The loop of \<open>trimOld\<close> walks along the chain.\<close>

lemma trim_loop_chain:
  "chain items pr ps None \<Longrightarrow> 0 \<le> n \<Longrightarrow> n \<le> int (length ps) \<Longrightarrow>
    trim_loop items n m (first_addr ps None) (int (length ps)) =
      (\<lambda>k. if k \<in> (\<lambda>p. fst (the (entry_at items p))) ` set (take (length ps - nat n) ps) then None else m k,
       first_addr (drop (length ps - nat n) ps) None, n)"
proof (induction ps arbitrary: pr m)
  case Nil
  then show ?case by (simp add: trim_loop.simps)
next
  case (Cons p ps)
  obtain it where it: "items p = Some it" "it_next it = first_addr ps None" using Cons.prems(1) by auto
  show ?case
  proof (cases "n = int (length (p # ps))")
    case True
    then have "length (p # ps) - nat n = 0" by simp
    then show ?thesis using True by (simp add: trim_loop.simps)
  next
    case False
    then have n: "n \<le> int (length ps)" "length (p # ps) - nat n = Suc (length ps - nat n)" using Cons.prems(2,3) by auto
    have "trim_loop items n m (first_addr (p # ps) None) (int (length (p # ps))) =
        trim_loop items n (m(it_key it := None)) (first_addr ps None) (int (length ps))"
      using it n(1) by (subst trim_loop.simps) simp
    also have "\<dots> = (\<lambda>k. if k \<in> (\<lambda>p. fst (the (entry_at items p))) ` set (take (length ps - nat n) ps) then None else (m(it_key it := None)) k,
        first_addr (drop (length ps - nat n) ps) None, n)"
      using Cons.IH [of "Some p"] Cons.prems(1,2) n(1) by simp
    finally show ?thesis unfolding n(2) using it(1) by (auto simp: fun_eq_iff entry_at_def entry_def)
  qed
qed

lemma trimOld_represents:
  assumes "represents this xs" "0 \<le> n"
  shows "represents (LinkedMap_trimOld n this) (drop (length xs - nat n) xs)"
proof -
  obtain ps where ps: "linked this ps" "indexed this ps" "xs = entries_of this ps" using assms(1) by (auto simp: represents_def)
  have len: "length xs = length ps" "lm_size this = int (length ps)" using ps by (simp_all add: entries_of_def indexed_def)
  consider (enough) "n \<ge> lm_size this" | (zero) "n < lm_size this" "n = 0" | (trim) "n < lm_size this" "0 < n" using assms(2) by linarith
  then show ?thesis
  proof cases
    case enough
    then have "length xs - nat n = 0" using len by simp
    then show ?thesis using assms(1) enough by (simp add: LinkedMap_trimOld_def)
  next
    case zero
    then show ?thesis by (simp add: LinkedMap_trimOld_def clear_represents)
  next
    case trim
    let ?d = "length ps - nat n"
    have c: "chain (lm_items this) None ps None" "lm_head this = first_addr ps None" using ps(1) by (simp_all add: linked_def)
    define m where "m = (\<lambda>k. if k \<in> (\<lambda>p. fst (entry_of this p)) ` set (take ?d ps) then None else lm_map this k)"
    have loop: "trim_loop (lm_items this) n (lm_map this) (lm_head this) (lm_size this) = (m, first_addr (drop ?d ps) None, n)"
      using trim_loop_chain [OF c(1), of n "lm_map this"] trim len(2) c(2) by (simp add: m_def)
    obtain q qs where q: "drop ?d ps = q # qs" using trim len by (cases "drop ?d ps") auto
    let ?t = "bump_state (set_previous q None (this\<lparr>lm_map := m, lm_head := Some q, lm_size := n\<rparr>))"
    have t: "LinkedMap_trimOld n this = ?t" using trim loop q by (simp add: LinkedMap_trimOld_def)
    have split: "ps = take ?d ps @ q # qs" using q by (metis append_take_drop_id)
    have d: "distinct (take ?d ps @ q # qs)" using ps(1) split by (simp add: linked_def)
    have ch: "chain (lm_items this) (last_addr (take ?d ps) None) (q # qs) None"
      using c(1) split chain_append [of "lm_items this" None "take ?d ps" "q # qs"] by simp
    have "chain (lm_items ?t) None (q # qs) None"
      using chain_relink_first [OF ch, of None] d by (simp add: set_previous_def)
    moreover have "last_addr ps None = last_addr (q # qs) None" using split by (metis addr_simps(7) last_addr_def list.distinct(1))
    moreover have "\<forall>p \<in> set (q # qs). p \<in> set ps" using split by (metis Un_iff set_append)
    ultimately have "linked ?t (q # qs)" using ps(1) d by (auto simp: linked_def set_previous_def)
    moreover have e: "entries_of ?t (q # qs) = drop (length xs - nat n) xs"
      using q by (simp add: entries_of_def ps(3) drop_map)
    moreover have "indexed ?t (q # qs)"
      unfolding indexed_def
    proof (intro conjI allI)
      show "distinct (map fst (entries_of ?t (q # qs)))"
        unfolding e using ps(2,3) by (simp add: indexed_def flip: drop_map)
      show "lm_size ?t = int (length (q # qs))" using trim len arg_cong [OF q, of length] by simp
      have disj: "fst (entry_of this p) \<notin> (\<lambda>p. fst (entry_of this p)) ` set (take ?d ps)" if "p \<in> set (q # qs)" for p
      proof -
        have "distinct (map (\<lambda>p. fst (entry_of this p)) (take ?d ps @ q # qs))"
          using ps(2) split by (simp add: indexed_def entries_of_def comp_def)
        then show ?thesis using that by auto
      qed
      show "(lm_map ?t k = Some p) = (p \<in> set (q # qs) \<and> fst (entry_of ?t p) = k)" for k p
      proof -
        have "(lm_map this k = Some p) = (p \<in> set (take ?d ps @ q # qs) \<and> fst (entry_of this p) = k)"
          using ps(2) split by (simp add: indexed_def)
        then show ?thesis using disj [of p] by (auto simp: m_def)
      qed
    qed
    ultimately show ?thesis unfolding t represents_def by metis
  qed
qed

section \<open>Iterating\<close>

lemma forEach_chain:
  assumes cb: "\<And>v k s. callbackfn v k (this, s) = (this, f v k s)"
  shows "chain (lm_items this) pr ps None \<Longrightarrow>
    forEach_loop callbackfn (lm_state this) (first_addr ps None) (this, s) = Some (Inr (this, fold (\<lambda>(k, v). f v k) (entries_of this ps) s))"
proof (induction ps arbitrary: pr s)
  case Nil
  then show ?case by (simp add: forEach_loop.simps entries_of_def)
next
  case (Cons p ps)
  obtain it where it: "lm_items this p = Some it" "it_next it = first_addr ps None" using Cons.prems by auto
  have "forEach_loop callbackfn (lm_state this) (first_addr (p # ps) None) (this, s) =
      forEach_loop callbackfn (lm_state this) (first_addr ps None) (this, f (it_value it) (it_key it) s)"
    using it cb by (subst forEach_loop.simps) (simp add: item_next_def)
  then show ?case using Cons it(1) by (auto simp: entries_of_def entry_at_def entry_def)
qed

lemma forEach_represents:
  assumes "represents this xs" "\<And>v k s. callbackfn v k (this, s) = (this, f v k s)"
  shows "LinkedMap_forEach callbackfn (this, s) = Some (Inr (this, fold (\<lambda>(k, v). f v k) xs s))"
proof -
  obtain ps where ps: "linked this ps" "xs = entries_of this ps" using assms(1) by (auto simp: represents_def)
  have "chain (lm_items this) None ps None" "lm_head this = first_addr ps None" using ps(1) by (simp_all add: linked_def)
  then show ?thesis using forEach_chain [of callbackfn this f, OF assms(2)] ps(2) by (simp add: LinkedMap_forEach_def)
qed

lemma toJSON_represents: "represents this xs \<Longrightarrow> LinkedMap_toJSON this = Some (Inr xs)"
proof -
  assume r: "represents this xs"
  have "fold (\<lambda>(k, v) data. data @ [(k, v)]) xs ys = ys @ xs" for xs ys :: "('a \<times> 'b) list"
    by (induction xs arbitrary: ys) auto
  then show ?thesis
    using forEach_represents [OF r, of "\<lambda>v k (m, data). (m, data @ [(k, v)])" "\<lambda>v k data. data @ [(k, v)]" "[]"]
    by (simp add: LinkedMap_toJSON_def)
qed

text \<open>Calling \<open>next\<close> a number of times, as long as the iterator is not done.\<close>

fun iterator_take :: "(('k, 'v) Item \<Rightarrow> 'a) \<Rightarrow> ('k, 'v) LinkedMap \<Rightarrow> nat \<Rightarrow> LinkedMap_iterator \<Rightarrow> 'a list result" where
  "iterator_take get lm 0 i = Inr []"
| "iterator_take get lm (Suc n) i =
     result_bind (iterator_next get lm i) (\<lambda>(v, i).
       case v of None \<Rightarrow> Inr [] | Some v \<Rightarrow> result_map (\<lambda>vs. v # vs) (iterator_take get lm n i))"

lemma iterator_chain:
  assumes g: "\<And>it. get it = g (entry it)"
  shows "chain (lm_items this) pr ps None \<Longrightarrow>
    iterator_take get this n \<lparr>li_current = first_addr ps None, li_state = lm_state this\<rparr> = Inr (take n (map g (entries_of this ps)))"
proof (induction ps arbitrary: pr n)
  case Nil
  then show ?case by (cases n) (simp_all add: iterator_next_def entries_of_def)
next
  case (Cons p ps)
  obtain it where it: "lm_items this p = Some it" "it_next it = first_addr ps None" using Cons.prems by auto
  then show ?case using Cons.IH [of "Some p"] Cons.prems g by (cases n) (simp_all add: iterator_next_def entries_of_def entry_at_def)
qed

lemma iterator_represents:
  assumes "represents this xs" "\<And>it. get it = g (entry it)"
  shows "iterator_take get this n (LinkedMap_iterate this) = Inr (take n (map g xs))"
proof -
  obtain ps where ps: "linked this ps" "xs = entries_of this ps" using assms(1) by (auto simp: represents_def)
  then show ?thesis using iterator_chain [of get g, OF assms(2), of this None ps n] by (simp add: linked_def LinkedMap_iterate_def)
qed

section \<open>A store of entries in order\<close>

text \<open>
  What the cache relies on: a state that represents a list of entries, oldest first, whose operations change the list as described.
\<close>

locale entry_store =
  fixes rep :: "'s \<Rightarrow> ('k \<times> 'v) list \<Rightarrow> bool"
    and get :: "'k \<Rightarrow> Touch \<Rightarrow> 's \<Rightarrow> ('v option \<times> 's) result"
    and set_entry :: "'k \<Rightarrow> 'v \<Rightarrow> Touch \<Rightarrow> 's \<Rightarrow> 's result"
    and trim :: "number \<Rightarrow> 's \<Rightarrow> 's"
    and size :: "'s \<Rightarrow> number"
  assumes get_law: "rep s xs \<Longrightarrow> \<exists>s'. get k touch s = Inr (map_of xs k, s') \<and> rep s' (if k \<in> fst ` set xs then list_touch touch k xs else xs)"
    and set_law: "rep s xs \<Longrightarrow> \<exists>s'. set_entry k v touch s = Inr s' \<and> rep s' (list_set k v touch xs)"
    and trim_law: "rep s xs \<Longrightarrow> 0 \<le> n \<Longrightarrow> rep (trim n s) (drop (length xs - nat n) xs)"
    and size_law: "rep s xs \<Longrightarrow> size s = int (length xs)"
begin

lemma trim_when_over:
  assumes "rep s xs" "0 \<le> n" "n \<le> limit"
  shows "rep (if size s > limit then trim n s else s) (if int (length xs) > limit then drop (length xs - nat n) xs else xs)"
  using trim_law [OF assms(1,2)] size_law [OF assms(1)] assms(1) by simp

lemma set_and_trim:
  assumes "rep s xs" "0 \<le> n" "n \<le> limit"
  shows "\<exists>s'. result_map (\<lambda>s. if size s > limit then trim n s else s) (set_entry k v touch s) = Inr s' \<and>
      rep s' (let zs = list_set k v touch xs in if int (length zs) > limit then drop (length zs - nat n) zs else zs)"
proof -
  obtain s1 where s1: "set_entry k v touch s = Inr s1" "rep s1 (list_set k v touch xs)" using set_law [OF assms(1)] by blast
  show ?thesis using trim_when_over [OF s1(2) assms(2,3)] s1(1) by (simp add: Let_def)
qed

end

lemma represents_size: "represents this xs \<Longrightarrow> lm_size this = int (length xs)"
  by (auto simp: represents_def indexed_def entries_of_def)

interpretation linked_map: entry_store represents LinkedMap_get LinkedMap_set LinkedMap_trimOld lm_size
  by unfold_locales (simp_all add: get_represents set_represents trimOld_represents represents_size)

section \<open>Sequences of operations\<close>

datatype ('k, 'v) map_op = Op_get 'k Touch | Op_set 'k 'v Touch | Op_remove 'k | Op_shift | Op_clear | Op_fromJSON "('k \<times> 'v) list"

fun LinkedMap_exec :: "('k, 'v) map_op \<Rightarrow> ('k, 'v) LinkedMap \<Rightarrow> ('v option \<times> ('k, 'v) LinkedMap) result" where
  "LinkedMap_exec (Op_get k touch) this = LinkedMap_get k touch this"
| "LinkedMap_exec (Op_set k v touch) this = result_map (\<lambda>this. (None, this)) (LinkedMap_set k v touch this)"
| "LinkedMap_exec (Op_remove k) this = LinkedMap_remove k this"
| "LinkedMap_exec Op_shift this = LinkedMap_shift this"
| "LinkedMap_exec Op_clear this = Inr (None, LinkedMap_clear this)"
| "LinkedMap_exec (Op_fromJSON data) this = result_map (\<lambda>this. (None, this)) (LinkedMap_fromJSON data this)"

fun LinkedMap_run :: "('k, 'v) map_op list \<Rightarrow> ('k, 'v) LinkedMap \<Rightarrow> ('v option list \<times> ('k, 'v) LinkedMap) result" where
  "LinkedMap_run [] this = Inr ([], this)"
| "LinkedMap_run (op # ops) this =
     result_bind (LinkedMap_exec op this) (\<lambda>(out, this). result_map (\<lambda>(outs, this). (out # outs, this)) (LinkedMap_run ops this))"

fun list_step :: "('k, 'v) map_op \<Rightarrow> ('k \<times> 'v) list \<Rightarrow> 'v option \<times> ('k \<times> 'v) list" where
  "list_step (Op_get k touch) xs = (map_of xs k, if k \<in> fst ` set xs then list_touch touch k xs else xs)"
| "list_step (Op_set k v touch) xs = (None, list_set k v touch xs)"
| "list_step (Op_remove k) xs = (map_of xs k, list_remove k xs)"
| "list_step Op_shift xs = (case xs of [] \<Rightarrow> None | e # _ \<Rightarrow> Some (snd e), tl xs)"
| "list_step Op_clear xs = (None, [])"
| "list_step (Op_fromJSON data) xs = (None, fold (\<lambda>(k, v). list_set k v Touch_None) data [])"

fun list_run :: "('k, 'v) map_op list \<Rightarrow> ('k \<times> 'v) list \<Rightarrow> 'v option list \<times> ('k \<times> 'v) list" where
  "list_run [] xs = ([], xs)"
| "list_run (op # ops) xs = (let (out, xs) = list_step op xs; (outs, xs) = list_run ops xs in (out # outs, xs))"

lemma fold_set_represents:
  "represents this xs \<Longrightarrow> \<exists>this'. result_fold (\<lambda>(k, v). LinkedMap_set k v Touch_None) data this = Inr this' \<and>
     represents this' (fold (\<lambda>(k, v). list_set k v Touch_None) data xs)"
proof (induction data arbitrary: this xs)
  case (Cons e data)
  obtain this1 where "LinkedMap_set (fst e) (snd e) Touch_None this = Inr this1" "represents this1 (list_set (fst e) (snd e) Touch_None xs)"
    using set_represents [OF Cons.prems] by blast
  with Cons.IH [of this1] show ?case by (simp add: split_beta)
qed simp

lemma exec_represents:
  "represents this xs \<Longrightarrow> \<exists>this'. LinkedMap_exec op this = Inr (fst (list_step op xs), this') \<and> represents this' (snd (list_step op xs))"
  using get_represents [of this xs] set_represents [of this xs] remove_represents [of this xs] shift_represents [of this xs]
    clear_represents [of this] fold_set_represents [OF clear_represents [of this]]
  by (cases op) (fastforce simp: LinkedMap_fromJSON_def)+

lemma run_represents:
  "represents this xs \<Longrightarrow> \<exists>this'. LinkedMap_run ops this = Inr (fst (list_run ops xs), this') \<and> represents this' (snd (list_run ops xs))"
proof (induction ops arbitrary: this xs)
  case (Cons op ops)
  from exec_represents [OF Cons.prems, of op] obtain this1
    where "LinkedMap_exec op this = Inr (fst (list_step op xs), this1)" "represents this1 (snd (list_step op xs))" by blast
  with Cons.IH [of this1 "snd (list_step op xs)"] show ?case by (auto simp: split_beta)
qed simp

section \<open>What the readers return\<close>

lemma represents_head:
  assumes "represents this xs"
  shows "LinkedMap_isEmpty this \<longleftrightarrow> xs = []" "LinkedMap_first this = (case xs of [] \<Rightarrow> None | e # _ \<Rightarrow> Some (snd e))"
    "LinkedMap_last this = (if xs = [] then None else Some (snd (last xs)))"
proof -
  obtain ps where ps: "linked this ps" "xs = entries_of this ps" using assms by (auto simp: represents_def)
  have l: "lm_head this = first_addr ps None" "lm_tail this = last_addr ps None" using ps(1) by (simp_all add: linked_def)
  have e: "entry_of this p = (it_key it, it_value it)" if "lm_items this p = Some it" for p it
    using that by (simp add: entry_at_def entry_def)
  show "LinkedMap_isEmpty this \<longleftrightarrow> xs = []" "LinkedMap_first this = (case xs of [] \<Rightarrow> None | e # _ \<Rightarrow> Some (snd e))"
    using l linked_Some [OF ps(1)] e by (cases ps; fastforce simp: ps(2) LinkedMap_isEmpty_def LinkedMap_first_def entries_of_def)+
  show "LinkedMap_last this = (if xs = [] then None else Some (snd (last xs)))"
    using l(2) linked_Some [OF ps(1)] e by (cases ps rule: rev_cases) (fastforce simp: ps(2) LinkedMap_last_def entries_of_def)+
qed

lemma represents_has:
  assumes "represents this xs"
  shows "LinkedMap_has k this \<longleftrightarrow> k \<in> fst ` set xs"
proof -
  obtain ps where ps: "linked this ps" "indexed this ps" "xs = entries_of this ps" using assms by (auto simp: represents_def)
  show ?thesis
    using indexed_lookup [OF ps(1,2), of k] ps(3) by (cases "lm_map this k") (auto simp: LinkedMap_has_def entries_of_def)
qed

lemma represents_unique: "represents this xs \<Longrightarrow> represents this ys \<Longrightarrow> xs = ys"
  using toJSON_represents [of this xs] toJSON_represents [of this ys] by simp

text \<open>
  C31. Whatever sequence of reads, writes, removals and resets a new linked map receives, it never throws: each operation returns
  what it returns on a list of entries with distinct keys, in the order of the links. Afterwards \<open>toJSON\<close>, the iterators over entries, keys and
  values, \<open>size\<close>, \<open>has\<close>, \<open>isEmpty\<close>, \<open>first\<close> and \<open>last\<close> all read that list.
\<close>
theorem LinkedMap_refines_list_of_entries:
  fixes ops :: "('k, 'v) map_op list"
  defines "xs \<equiv> snd (list_run ops [])"
  shows "\<exists>this. LinkedMap_run ops new_LinkedMap = Inr (fst (list_run ops []), this) \<and>
    LinkedMap_toJSON this = Some (Inr xs) \<and> lm_size this = int (length xs) \<and> distinct (map fst xs) \<and>
    iterator_take (\<lambda>it. (it_key it, it_value it)) this (length xs + n) (LinkedMap_iterate this) = Inr xs \<and>
    iterator_take it_key this (length xs + n) (LinkedMap_iterate this) = Inr (map fst xs) \<and>
    iterator_take it_value this (length xs + n) (LinkedMap_iterate this) = Inr (map snd xs) \<and>
    LinkedMap_has k this = (k \<in> fst ` set xs) \<and> LinkedMap_isEmpty this = (xs = []) \<and>
    LinkedMap_first this = (case xs of [] \<Rightarrow> None | e # _ \<Rightarrow> Some (snd e)) \<and>
    LinkedMap_last this = (if xs = [] then None else Some (snd (last xs)))"
proof -
  obtain this where run: "LinkedMap_run ops new_LinkedMap = Inr (fst (list_run ops []), this)" and rep: "represents this xs"
    using run_represents [OF new_represents] unfolding xs_def by blast
  have "distinct (map fst xs)" using rep by (auto simp: represents_def indexed_def)
  then show ?thesis
    using run toJSON_represents [OF rep] represents_size [OF rep] represents_has [OF rep] represents_head [OF rep]
      iterator_represents [OF rep, of "\<lambda>it. (it_key it, it_value it)" "\<lambda>e. e" "length xs + n"]
      iterator_represents [OF rep, of it_key fst "length xs + n"] iterator_represents [OF rep, of it_value snd "length xs + n"]
    by (intro exI [of _ this]) (simp add: entry_def)
qed

section \<open>Iterators and changes\<close>

text \<open>An operation that leaves \<open>_state\<close> as it is leaves the map or changes the value of one item.\<close>

definition unmoved :: "('k, 'v) LinkedMap \<Rightarrow> ('k, 'v) LinkedMap \<Rightarrow> bool" where
  "unmoved this this' \<longleftrightarrow> this' = this \<or> (\<exists>p v. this' = upd_item p (\<lambda>it. it\<lparr>it_value := v\<rparr>) this)"

lemma link_state [simp]:
  "lm_state (set_next p q this) = lm_state this" "lm_state (set_previous p q this) = lm_state this" "lm_state (bridge p r this) = lm_state this"
  "lm_state (bump_state this) = lm_state this + 1"
  by (simp_all add: link_defs bump_state_def)

lemma result_map_Inr: "result_map f r = Inr y \<longleftrightarrow> (\<exists>x. r = Inr x \<and> y = f x)"
  by (cases r) auto

lemma result_bind_Inr: "result_bind r f = Inr y \<longleftrightarrow> (\<exists>x. r = Inr x \<and> f x = Inr y)"
  by (cases r) auto

lemma state_of_parts:
  "LinkedMap_touch item touch this = Inr this' \<Longrightarrow> this' = this \<or> lm_state this' = lm_state this + 1"
  "LinkedMap_removeItem item this = Inr this' \<Longrightarrow> lm_state this' = lm_state this + 1"
  "LinkedMap_addItemFirst item this = Inr this' \<Longrightarrow> lm_state this' = lm_state this + 1"
  "LinkedMap_addItemLast item this = Inr this' \<Longrightarrow> lm_state this' = lm_state this + 1"
  unfolding LinkedMap_touch_def LinkedMap_removeItem_def LinkedMap_addItemFirst_def LinkedMap_addItemLast_def
  by (auto simp: result_map_Inr split: option.splits Touch.splits if_splits)

lemma set_state:
  assumes "LinkedMap_set k v touch this = Inr this'"
  shows "unmoved this this' \<or> lm_state this' = lm_state this + 1"
proof (cases "lm_map this k")
  case (Some p)
  then show ?thesis
    using assms state_of_parts(1) [of p touch "upd_item p (\<lambda>it. it\<lparr>it_value := v\<rparr>) this" this']
    by (auto simp: LinkedMap_set_def Let_def unmoved_def split: if_splits)
next
  case None
  then show ?thesis using assms
    by (auto simp: LinkedMap_set_def Let_def result_map_Inr dest!: state_of_parts(3,4) split: Touch.splits)
qed

lemma fold_set_state: "result_fold (\<lambda>(k, v). LinkedMap_set k v touch) data this = Inr this' \<Longrightarrow> lm_state this \<le> lm_state this'"
proof (induction data arbitrary: this)
  case (Cons e data)
  then obtain this1 where this1: "LinkedMap_set (fst e) (snd e) touch this = Inr this1"
      "result_fold (\<lambda>(k, v). LinkedMap_set k v touch) data this1 = Inr this'"
    by (cases e) (auto simp: result_bind_Inr)
  then show ?case using Cons.IH [OF this1(2)] set_state [OF this1(1)] by (auto simp: unmoved_def)
qed simp

lemma exec_state:
  assumes "LinkedMap_exec op this = Inr (out, this')"
  shows "unmoved this this' \<or> lm_state this < lm_state this'"
proof (cases op)
  case (Op_get k touch)
  then show ?thesis using assms
    by (auto simp: LinkedMap_get_def result_map_Inr unmoved_def dest!: state_of_parts(1) split: option.splits if_splits)
next
  case (Op_set k v touch)
  then show ?thesis using assms set_state [of k v touch this this'] by (auto simp: result_map_Inr)
next
  case (Op_remove k)
  then show ?thesis using assms
    by (auto simp: LinkedMap_remove_def result_map_Inr unmoved_def dest!: state_of_parts(2) split: option.splits)
next
  case Op_shift
  then show ?thesis using assms
    by (auto simp: LinkedMap_shift_def result_map_Inr unmoved_def dest!: state_of_parts(2) split: option.splits if_splits)
next
  case (Op_fromJSON data)
  then show ?thesis using assms fold_set_state [of Touch_None data "LinkedMap_clear this" this']
    by (auto simp: LinkedMap_fromJSON_def LinkedMap_clear_def result_map_Inr)
qed (use assms in \<open>auto simp: LinkedMap_clear_def\<close>)

lemma unmoved_keys:
  assumes "unmoved this this'" "represents this xs" "represents this' ys"
  shows "map fst ys = map fst xs"
proof -
  have "\<exists>zs. represents this' zs \<and> map fst zs = map fst xs"
    using assms(1) unfolding unmoved_def
  proof (elim disjE exE)
    fix p v assume this': "this' = upd_item p (\<lambda>it. it\<lparr>it_value := v\<rparr>) this"
    obtain ps where ps: "linked this ps" "indexed this ps" "xs = entries_of this ps" using assms(2) by (auto simp: represents_def)
    have keys: "fst (entry_of this' q) = fst (entry_of this q)" if "q \<in> set ps" for q
      using linked_Some [OF ps(1) that] by (auto simp: this' entry_at_def entry_def)
    then have fsts: "map fst (entries_of this' ps) = map fst xs" using ps(3) by (simp add: entries_of_def)
    have "linked this' ps" using ps(1) by (simp add: linked_def this' chain_value)
    moreover have "indexed this' ps" using ps(2,3) fsts keys unfolding indexed_def by (auto simp: this')
    ultimately show ?thesis using fsts unfolding represents_def by blast
  qed (use assms(2) in auto)
  then show ?thesis using represents_unique [OF assms(3)] by blast
qed

lemma run_state:
  "LinkedMap_run ops this = Inr (outs, this') \<Longrightarrow> represents this xs \<Longrightarrow>
   lm_state this < lm_state this' \<or> lm_state this = lm_state this' \<and> map fst (snd (list_run ops xs)) = map fst xs"
proof (induction ops arbitrary: this xs outs)
  case (Cons op ops)
  obtain this1 where this1: "LinkedMap_exec op this = Inr (fst (list_step op xs), this1)" "represents this1 (snd (list_step op xs))"
    using exec_represents [OF Cons.prems(2)] by blast
  obtain outs1 where run: "LinkedMap_run ops this1 = Inr (outs1, this')"
    using Cons.prems(1) this1(1) by (auto simp: result_map_Inr)
  show ?case
    using exec_state [OF this1(1)]
  proof
    assume u: "unmoved this this1"
    then have "lm_state this1 = lm_state this" by (auto simp: unmoved_def)
    then show ?thesis using Cons.IH [OF run this1(2)] unmoved_keys [OF u Cons.prems(2) this1(2)] by (auto simp: split_beta)
  qed (use Cons.IH [OF run this1(2)] in auto)
qed simp

text \<open>
  C32. Changes during an iteration are noticed: when the operations between the creation of an iterator and a call of its
  \<open>next\<close> have changed the keys of the map or their order, \<open>next\<close> throws.
\<close>
theorem iterator_throws_after_change:
  assumes "LinkedMap_run before new_LinkedMap = Inr (outs, this)" "LinkedMap_run ops this = Inr (outs', this')"
    and "map fst (snd (list_run (before @ ops) [])) \<noteq> map fst (snd (list_run before []))"
    and "li_state i = li_state (LinkedMap_iterate this)"
  shows "iterator_next get this' i = Inl PlainError"
proof -
  have "represents this (snd (list_run before []))" using run_represents [OF new_represents, of before] assms(1) by auto
  moreover have "snd (list_run (before @ ops) xs) = snd (list_run ops (snd (list_run before xs)))" for xs
    by (induction before arbitrary: xs) (simp_all add: split_beta)
  ultimately show ?thesis using run_state [OF assms(2)] assms(3,4) by (auto simp: iterator_next_def LinkedMap_iterate_def)
qed

theorem iterator_throws_after_change_witness:
  "iterator_next it_key (LinkedMap_clear (snd (projr (LinkedMap_run [Op_set (1 :: int) ''a'' Touch_None] new_LinkedMap))))
     (LinkedMap_iterate (snd (projr (LinkedMap_run [Op_set (1 :: int) ''a'' Touch_None] new_LinkedMap)))) = Inl PlainError"
  by (rule iterator_throws_after_change [where before = "[Op_set 1 ''a'' Touch_None]" and ops = "[Op_clear]" and
        outs = "[None]" and outs' = "[None]"])
    (simp_all add: LinkedMap_set_def LinkedMap_addItemLast_def Let_def new_LinkedMap_def list_set_def)

end
