(* ===== verification/Lru_Cache.thy ===== *)
theory Lru_Cache
  imports Linked_Map
begin

text \<open>
  \<open>LRUCache\<close>, and the counting and bidirectional maps, of \<open>src/vs/base/common/map.ts\<close>. A cache is a linked map that drops its oldest
  entries when it has more than its limit.
\<close>

section \<open>The cache of recently used entries\<close>

record ('k, 'v) LRUCache =
  lru_map :: "('k, 'v) LinkedMap"
  lru_limit :: number
  lru_ratio :: rat

definition js_round :: "rat \<Rightarrow> number" where
  "js_round x = \<lfloor>x + 1 / 2\<rfloor>"

definition new_LRUCache :: "number \<Rightarrow> rat \<Rightarrow> ('k, 'v) LRUCache" where
  "new_LRUCache limit ratio = \<lparr>lru_map = new_LinkedMap, lru_limit = limit, lru_ratio = min (max 0 ratio) 1\<rparr>"

definition LRUCache_checkTrim :: "('k, 'v) LRUCache \<Rightarrow> ('k, 'v) LRUCache" where
  "LRUCache_checkTrim this =
     (if lm_size (lru_map this) > lru_limit this
      then this\<lparr>lru_map := LinkedMap_trimOld (js_round (of_int (lru_limit this) * lru_ratio this)) (lru_map this)\<rparr> else this)"

definition LRUCache_setLimit :: "number \<Rightarrow> ('k, 'v) LRUCache \<Rightarrow> ('k, 'v) LRUCache" where
  "LRUCache_setLimit limit this = LRUCache_checkTrim (this\<lparr>lru_limit := limit\<rparr>)"

definition LRUCache_setRatio :: "rat \<Rightarrow> ('k, 'v) LRUCache \<Rightarrow> ('k, 'v) LRUCache" where
  "LRUCache_setRatio ratio this = LRUCache_checkTrim (this\<lparr>lru_ratio := min (max 0 ratio) 1\<rparr>)"

definition LRUCache_get :: "'k \<Rightarrow> Touch \<Rightarrow> ('k, 'v) LRUCache \<Rightarrow> ('v option \<times> ('k, 'v) LRUCache) result" where
  "LRUCache_get key touch this = result_map (\<lambda>(v, m). (v, this\<lparr>lru_map := m\<rparr>)) (LinkedMap_get key touch (lru_map this))"

definition LRUCache_peek :: "'k \<Rightarrow> ('k, 'v) LRUCache \<Rightarrow> ('v option \<times> ('k, 'v) LRUCache) result" where
  "LRUCache_peek key this = result_map (\<lambda>(v, m). (v, this\<lparr>lru_map := m\<rparr>)) (LinkedMap_get key Touch_None (lru_map this))"

definition LRUCache_set :: "'k \<Rightarrow> 'v \<Rightarrow> ('k, 'v) LRUCache \<Rightarrow> ('k, 'v) LRUCache result" where
  "LRUCache_set key v this = result_map (\<lambda>m. LRUCache_checkTrim (this\<lparr>lru_map := m\<rparr>)) (LinkedMap_set key v Touch_AsNew (lru_map this))"

section \<open>Counting and bidirectional maps\<close>

type_synonym 't CounterSet = "'t \<Rightarrow> number option"

definition CounterSet_add :: "'t \<Rightarrow> 't CounterSet \<Rightarrow> 't CounterSet" where
  "CounterSet_add v m = m(v := Some ((case m v of None \<Rightarrow> 0 | Some n \<Rightarrow> n) + 1))"

definition CounterSet_delete :: "'t \<Rightarrow> 't CounterSet \<Rightarrow> bool \<times> 't CounterSet" where
  "CounterSet_delete v m =
     (let counter = (case m v of None \<Rightarrow> 0 | Some n \<Rightarrow> n)
      in if counter = 0 then (False, m)
         else if counter - 1 = 0 then (True, m(v := None))
         else (True, m(v := Some (counter - 1))))"

definition CounterSet_has :: "'t \<Rightarrow> 't CounterSet \<Rightarrow> bool" where
  "CounterSet_has v m \<longleftrightarrow> m v \<noteq> None"

record ('k, 'v) BidirectionalMap =
  bm_m1 :: "'k \<Rightarrow> 'v option"
  bm_m2 :: "'v \<Rightarrow> 'k option"

definition BidirectionalMap_clear :: "('k, 'v) BidirectionalMap \<Rightarrow> ('k, 'v) BidirectionalMap" where
  "BidirectionalMap_clear this = this\<lparr>bm_m1 := (\<lambda>_. None), bm_m2 := (\<lambda>_. None)\<rparr>"

definition BidirectionalMap_set :: "'k \<Rightarrow> 'v \<Rightarrow> ('k, 'v) BidirectionalMap \<Rightarrow> ('k, 'v) BidirectionalMap" where
  "BidirectionalMap_set key v this = this\<lparr>bm_m1 := (bm_m1 this)(key := Some v), bm_m2 := (bm_m2 this)(v := Some key)\<rparr>"

definition new_BidirectionalMap :: "('k \<times> 'v) list \<Rightarrow> ('k, 'v) BidirectionalMap" where
  "new_BidirectionalMap entries = fold (\<lambda>(key, v). BidirectionalMap_set key v) entries \<lparr>bm_m1 = (\<lambda>_. None), bm_m2 = (\<lambda>_. None)\<rparr>"

definition BidirectionalMap_get :: "'k \<Rightarrow> ('k, 'v) BidirectionalMap \<Rightarrow> 'v option" where
  "BidirectionalMap_get key this = bm_m1 this key"

definition BidirectionalMap_getKey :: "'v \<Rightarrow> ('k, 'v) BidirectionalMap \<Rightarrow> 'k option" where
  "BidirectionalMap_getKey v this = bm_m2 this v"

definition BidirectionalMap_delete :: "'k \<Rightarrow> ('k, 'v) BidirectionalMap \<Rightarrow> bool \<times> ('k, 'v) BidirectionalMap" where
  "BidirectionalMap_delete key this =
     (case bm_m1 this key of
        None \<Rightarrow> (False, this)
      | Some v \<Rightarrow> (True, this\<lparr>bm_m1 := (bm_m1 this)(key := None), bm_m2 := (bm_m2 this)(v := None)\<rparr>))"

section \<open>The cache as a list with a limit\<close>

datatype ('k, 'v) cache_op = Cache_get 'k | Cache_peek 'k | Cache_set 'k 'v | Cache_remove 'k | Cache_clear | Cache_limit nat | Cache_ratio rat

fun LRUCache_exec :: "('k, 'v) cache_op \<Rightarrow> ('k, 'v) LRUCache \<Rightarrow> ('v option \<times> ('k, 'v) LRUCache) result" where
  "LRUCache_exec (Cache_get k) this = LRUCache_get k Touch_AsNew this"
| "LRUCache_exec (Cache_peek k) this = LRUCache_peek k this"
| "LRUCache_exec (Cache_set k v) this = result_map (\<lambda>this. (None, this)) (LRUCache_set k v this)"
| "LRUCache_exec (Cache_remove k) this = result_map (\<lambda>(v, m). (v, this\<lparr>lru_map := m\<rparr>)) (LinkedMap_remove k (lru_map this))"
| "LRUCache_exec Cache_clear this = Inr (None, this\<lparr>lru_map := LinkedMap_clear (lru_map this)\<rparr>)"
| "LRUCache_exec (Cache_limit n) this = Inr (None, LRUCache_setLimit (int n) this)"
| "LRUCache_exec (Cache_ratio r) this = Inr (None, LRUCache_setRatio r this)"

fun LRUCache_run :: "('k, 'v) cache_op list \<Rightarrow> ('k, 'v) LRUCache \<Rightarrow> ('v option list \<times> ('k, 'v) LRUCache) result" where
  "LRUCache_run [] this = Inr ([], this)"
| "LRUCache_run (op # ops) this =
     result_bind (LRUCache_exec op this) (\<lambda>(out, this). result_map (\<lambda>(outs, this). (out # outs, this)) (LRUCache_run ops this))"

text \<open>
  The specification: a limit, a ratio and the entries from the one used longest ago to the one used last. An overfull cache keeps the last
  \<open>round (limit * ratio)\<close> entries.
\<close>

type_synonym ('k, 'v) cache = "number \<times> rat \<times> ('k \<times> 'v) list"

definition clamp :: "rat \<Rightarrow> rat" where
  "clamp ratio = min (max 0 ratio) 1"

definition recent :: "number \<Rightarrow> rat \<Rightarrow> ('k \<times> 'v) list \<Rightarrow> ('k \<times> 'v) list" where
  "recent limit ratio xs = (if int (length xs) > limit then drop (length xs - nat (js_round (of_int limit * ratio))) xs else xs)"

fun cache_step :: "('k, 'v) cache_op \<Rightarrow> ('k, 'v) cache \<Rightarrow> 'v option \<times> ('k, 'v) cache" where
  "cache_step (Cache_get k) (limit, ratio, xs) = (map_of xs k, limit, ratio, if k \<in> fst ` set xs then list_touch Touch_AsNew k xs else xs)"
| "cache_step (Cache_peek k) (limit, ratio, xs) = (map_of xs k, limit, ratio, xs)"
| "cache_step (Cache_set k v) (limit, ratio, xs) = (None, limit, ratio, recent limit ratio (list_remove k xs @ [(k, v)]))"
| "cache_step (Cache_remove k) (limit, ratio, xs) = (map_of xs k, limit, ratio, list_remove k xs)"
| "cache_step Cache_clear (limit, ratio, xs) = (None, limit, ratio, [])"
| "cache_step (Cache_limit n) (limit, ratio, xs) = (None, int n, ratio, recent (int n) ratio xs)"
| "cache_step (Cache_ratio r) (limit, ratio, xs) = (None, limit, clamp r, xs)"

fun cache_run :: "('k, 'v) cache_op list \<Rightarrow> ('k, 'v) cache \<Rightarrow> 'v option list \<times> ('k, 'v) cache" where
  "cache_run [] st = ([], st)"
| "cache_run (op # ops) st = (let (out, st) = cache_step op st; (outs, st) = cache_run ops st in (out # outs, st))"

definition cache_ok :: "('k, 'v) cache \<Rightarrow> bool" where
  "cache_ok st = (case st of (limit, ratio, xs) \<Rightarrow> 0 \<le> limit \<and> 0 \<le> ratio \<and> ratio \<le> 1 \<and> int (length xs) \<le> limit \<and> distinct (map fst xs))"

definition cached :: "('k, 'v) LRUCache \<Rightarrow> ('k, 'v) cache \<Rightarrow> bool" where
  "cached this st = (case st of (limit, ratio, xs) \<Rightarrow>
     represents (lru_map this) xs \<and> lru_limit this = limit \<and> lru_ratio this = ratio \<and> cache_ok st)"

lemma clamp_bounds: "0 \<le> clamp r" "clamp r \<le> 1"
  by (simp_all add: clamp_def)

lemma round_bounds:
  assumes "0 \<le> limit" "0 \<le> ratio" "ratio \<le> 1"
  shows "0 \<le> js_round (of_int limit * ratio)" "js_round (of_int limit * ratio) \<le> limit"
proof -
  have "0 \<le> of_int limit * ratio" using assms by simp
  then show "0 \<le> js_round (of_int limit * ratio)" by (simp add: js_round_def)
  have "of_int limit * ratio \<le> of_int limit" using mult_left_le [of ratio "of_int limit"] assms by (simp add: mult.commute)
  then have "of_int limit * ratio + 1 / 2 < of_int (limit + 1)" by simp
  then show "js_round (of_int limit * ratio) \<le> limit" unfolding js_round_def by (simp add: floor_le_iff)
qed

lemma recent_length: "0 \<le> limit \<Longrightarrow> 0 \<le> ratio \<Longrightarrow> ratio \<le> 1 \<Longrightarrow> int (length (recent limit ratio xs)) \<le> limit"
  using round_bounds [of limit ratio] by (auto simp: recent_def)

lemma recent_distinct: "distinct (map fst xs) \<Longrightarrow> distinct (map fst (recent limit ratio xs))"
  by (simp add: recent_def flip: drop_map)

lemma represents_distinct: "represents this xs \<Longrightarrow> distinct (map fst xs)"
  by (auto simp: represents_def indexed_def)

lemma represents_trimmed:
  assumes "represents (lru_map this) xs" "0 \<le> lru_limit this" "0 \<le> lru_ratio this" "lru_ratio this \<le> 1"
  shows "cached (LRUCache_checkTrim this) (lru_limit this, lru_ratio this, recent (lru_limit this) (lru_ratio this) xs)"
  using linked_map.trim_when_over [OF assms(1) round_bounds [OF assms(2-4)]] recent_length [OF assms(2-4), of xs]
    recent_distinct [OF represents_distinct [OF assms(1)]] assms
  by (auto simp: cached_def cache_ok_def LRUCache_checkTrim_def recent_def split: if_splits)

lemma length_list_touch: "length (list_touch touch k xs) = length xs"
  using sum_length_filter_compl [of "\<lambda>e. fst e = k" xs] by (cases touch) (simp_all add: list_touch_def)

lemma list_set_AsNew:
  assumes "distinct (map fst xs)"
  shows "list_set k v Touch_AsNew xs = list_remove k xs @ [(k, v)]"
proof (cases "k \<in> fst ` set xs")
  case True
  let ?ys = "map (\<lambda>e. if fst e = k then (k, v) else e) xs"
  have "filter (\<lambda>e. fst e \<noteq> k) ?ys = filter (\<lambda>e. fst e \<noteq> k) xs" by (induction xs) auto
  moreover have "filter (\<lambda>e. fst e = k) ?ys = map (\<lambda>e. (k, v)) (filter (\<lambda>e. fst e = k) xs)" by (induction xs) auto
  moreover obtain e where e: "e \<in> set xs" "fst e = k" using True by auto
  moreover have "filter (\<lambda>e'. fst e' = fst e) xs = [e]" using assms e(1) by (intro filter_key(2)) (simp_all add: distinct_map)
  ultimately show ?thesis using True by (simp add: list_set_def list_touch_def list_remove_def)
next
  case False
  then have "filter (\<lambda>e. fst e \<noteq> k) xs = xs" by (simp add: filter_id_conv image_iff) metis
  then show ?thesis using False by (simp add: list_set_def list_remove_def)
qed

lemma cached_step:
  assumes c: "cached this st"
  shows "\<exists>this'. LRUCache_exec op this = Inr (fst (cache_step op st), this') \<and> cached this' (snd (cache_step op st))"
proof -
  obtain limit ratio xs where st: "st = (limit, ratio, xs)" by (cases st)
  have rep: "represents (lru_map this) xs" and l: "lru_limit this = limit" "lru_ratio this = ratio" and
    ok: "0 \<le> limit" "0 \<le> ratio" "ratio \<le> 1" "int (length xs) \<le> limit" "distinct (map fst xs)"
    using c by (simp_all add: cached_def cache_ok_def st)
  have keep: "cached (this\<lparr>lru_map := m\<rparr>) (limit, ratio, ys)" if "represents m ys" "length ys \<le> length xs" for m ys
    using that l ok represents_distinct [OF that(1)] by (simp add: cached_def cache_ok_def)
  have get: "\<exists>m. LinkedMap_get k touch (lru_map this) = Inr (map_of xs k, m) \<and>
      cached (this\<lparr>lru_map := m\<rparr>) (limit, ratio, if k \<in> fst ` set xs then list_touch touch k xs else xs)" for k touch
  proof -
    obtain m where m: "LinkedMap_get k touch (lru_map this) = Inr (map_of xs k, m)"
        "represents m (if k \<in> fst ` set xs then list_touch touch k xs else xs)"
      using get_represents [OF rep] by blast
    show ?thesis using keep [OF m(2)] m(1) length_list_touch [of touch k xs] by (intro exI [of _ m]) simp
  qed
  show ?thesis
  proof (cases op)
    case (Cache_get k)
    show ?thesis using get [of k Touch_AsNew] by (elim exE) (simp add: Cache_get LRUCache_get_def st)
  next
    case (Cache_peek k)
    have same: "(if k \<in> fst ` set xs then list_touch Touch_None k xs else xs) = xs" by (simp add: list_touch_def)
    show ?thesis using get [of k Touch_None] unfolding same by (elim exE) (simp add: Cache_peek LRUCache_peek_def st)
  next
    case (Cache_set k v)
    obtain m where m: "LinkedMap_set k v Touch_AsNew (lru_map this) = Inr m" "represents m (list_remove k xs @ [(k, v)])"
      using set_represents [OF rep] by (metis list_set_AsNew [OF ok(5)])
    then show ?thesis using represents_trimmed [of "this\<lparr>lru_map := m\<rparr>"] l ok by (simp add: Cache_set LRUCache_set_def st)
  next
    case (Cache_remove k)
    obtain m where "LinkedMap_remove k (lru_map this) = Inr (map_of xs k, m)" "represents m (list_remove k xs)"
      using remove_represents [OF rep] by blast
    then show ?thesis using keep [of m "list_remove k xs"] by (simp add: Cache_remove st list_remove_def)
  next
    case Cache_clear
    then show ?thesis using keep [OF clear_represents] by (simp add: st)
  next
    case (Cache_limit n)
    then show ?thesis using represents_trimmed [of "this\<lparr>lru_limit := int n\<rparr>"] rep l ok by (simp add: LRUCache_setLimit_def st)
  next
    case (Cache_ratio r)
    then show ?thesis using represents_trimmed [of "this\<lparr>lru_ratio := clamp r\<rparr>" xs] rep l ok clamp_bounds [of r]
      by (simp add: LRUCache_setRatio_def st recent_def flip: clamp_def)
  qed
qed

lemma run_cached:
  "cached this st \<Longrightarrow> \<exists>this'. LRUCache_run ops this = Inr (fst (cache_run ops st), this') \<and> cached this' (snd (cache_run ops st))"
proof (induction ops arbitrary: this st)
  case (Cons op ops)
  from cached_step [OF Cons.prems, of op] obtain this1
    where "LRUCache_exec op this = Inr (fst (cache_step op st), this1)" "cached this1 (snd (cache_step op st))" by blast
  with Cons.IH [of this1 "snd (cache_step op st)"] show ?case by (auto simp: split_beta)
qed simp

lemma new_cached: "0 \<le> limit \<Longrightarrow> cached (new_LRUCache limit ratio) (limit, clamp ratio, [])"
  using clamp_bounds [of ratio] by (simp add: cached_def cache_ok_def new_LRUCache_def new_represents clamp_def)

text \<open>
  C33. A cache never throws and behaves as a list of entries in the order of their last use: reads return the entry of the key and move it to
  the end, \<open>peek\<close> does not move it, \<open>set\<close> puts its entry at the end, and when there are more entries than the limit only the
  last \<open>round(limit * ratio)\<close> stay. After any operations the cache holds at most \<open>limit\<close> entries.
\<close>
theorem LRUCache_keeps_recently_used:
  fixes ops :: "('k, 'v) cache_op list"
  assumes "0 \<le> limit"
  shows "\<exists>this limit' ratio' xs. cache_run ops (limit, clamp ratio, []) = (fst (cache_run ops (limit, clamp ratio, [])), limit', ratio', xs) \<and>
    LRUCache_run ops (new_LRUCache limit ratio) = Inr (fst (cache_run ops (limit, clamp ratio, [])), this) \<and>
    LinkedMap_toJSON (lru_map this) = Some (Inr xs) \<and> lru_limit this = limit' \<and> lru_ratio this = ratio' \<and>
    lm_size (lru_map this) = int (length xs) \<and> int (length xs) \<le> limit'"
proof -
  obtain this where run: "LRUCache_run ops (new_LRUCache limit ratio) = Inr (fst (cache_run ops (limit, clamp ratio, [])), this)"
      "cached this (snd (cache_run ops (limit, clamp ratio, [])))"
    using run_cached [OF new_cached [OF assms]] by blast
  obtain outs limit' ratio' xs where r: "cache_run ops (limit, clamp ratio, []) = (outs, limit', ratio', xs)" by (metis prod_cases4)
  have rep: "represents (lru_map this) xs" using run(2) by (simp add: r cached_def)
  show ?thesis using toJSON_represents [OF rep] represents_size [OF rep] run by (simp add: r cached_def cache_ok_def)
qed

theorem LRUCache_keeps_recently_used_witness:
  "fst (cache_run [Cache_set (1::int) ''a'', Cache_set 2 ''b'', Cache_get 1, Cache_set 3 ''c'', Cache_peek 2, Cache_peek 1] (2, clamp 1, [])) =
     [None, None, Some ''a'', None, None, Some ''a''] \<and>
   (\<exists>this limit' ratio' xs. cache_run [Cache_set (1::int) ''a'', Cache_set 2 ''b'', Cache_get 1, Cache_set 3 ''c'', Cache_peek 2, Cache_peek 1] (2, clamp 1, []) =
      ([None, None, Some ''a'', None, None, Some ''a''], limit', ratio', xs) \<and>
    LRUCache_run [Cache_set (1::int) ''a'', Cache_set 2 ''b'', Cache_get 1, Cache_set 3 ''c'', Cache_peek 2, Cache_peek 1] (new_LRUCache 2 1) =
      Inr ([None, None, Some ''a'', None, None, Some ''a''], this) \<and>
    LinkedMap_toJSON (lru_map this) = Some (Inr xs) \<and> lru_limit this = limit' \<and> lru_ratio this = ratio' \<and>
    lm_size (lru_map this) = int (length xs) \<and> int (length xs) \<le> limit')"
proof
  have half: "\<lfloor>5 / 2 :: rat\<rfloor> = 2" by (simp add: floor_eq_iff)
  show run: "fst (cache_run [Cache_set (1::int) ''a'', Cache_set 2 ''b'', Cache_get 1, Cache_set 3 ''c'', Cache_peek 2, Cache_peek 1] (2, clamp 1, [])) =
     [None, None, Some ''a'', None, None, Some ''a'']"
    by (simp add: recent_def list_remove_def list_touch_def clamp_def js_round_def half)
  show "\<exists>this limit' ratio' xs. cache_run [Cache_set (1::int) ''a'', Cache_set 2 ''b'', Cache_get 1, Cache_set 3 ''c'', Cache_peek 2, Cache_peek 1] (2, clamp 1, []) =
      ([None, None, Some ''a'', None, None, Some ''a''], limit', ratio', xs) \<and>
    LRUCache_run [Cache_set (1::int) ''a'', Cache_set 2 ''b'', Cache_get 1, Cache_set 3 ''c'', Cache_peek 2, Cache_peek 1] (new_LRUCache 2 1) =
      Inr ([None, None, Some ''a'', None, None, Some ''a''], this) \<and>
    LinkedMap_toJSON (lru_map this) = Some (Inr xs) \<and> lru_limit this = limit' \<and> lru_ratio this = ratio' \<and>
    lm_size (lru_map this) = int (length xs) \<and> int (length xs) \<le> limit'"
    using LRUCache_keeps_recently_used [of 2 "[Cache_set (1::int) ''a'', Cache_set 2 ''b'', Cache_get 1, Cache_set 3 ''c'', Cache_peek 2, Cache_peek 1]" 1]
    unfolding run by simp
qed

section \<open>The other maps\<close>

text \<open>A counting set counts the additions that have not been deleted.\<close>

definition count_of :: "'t CounterSet \<Rightarrow> 't \<Rightarrow> number" where
  "count_of m v = (case m v of None \<Rightarrow> 0 | Some n \<Rightarrow> n)"

definition counts :: "'t CounterSet \<Rightarrow> bool" where
  "counts m \<longleftrightarrow> (\<forall>n \<in> ran m. 0 < n)"

lemma counts_pos: "counts m \<Longrightarrow> m v = Some n \<Longrightarrow> 0 < n"
  by (auto simp: counts_def ran_def)

lemma CounterSet_add_counts:
  assumes "counts m"
  shows "counts (CounterSet_add v m)" "count_of (CounterSet_add v m) w = count_of m w + (if w = v then 1 else 0)"
  using assms counts_pos [OF assms, of v]
  by (auto simp: CounterSet_add_def counts_def count_of_def ran_def split: option.splits if_splits)

lemma CounterSet_delete_counts:
  assumes "counts m"
  shows "counts (snd (CounterSet_delete v m))" "fst (CounterSet_delete v m) = CounterSet_has v m"
    "count_of (snd (CounterSet_delete v m)) w = (if w = v then max 0 (count_of m v - 1) else count_of m w)"
  using assms counts_pos [OF assms, of v]
  by (auto simp: CounterSet_delete_def CounterSet_has_def counts_def count_of_def ran_def Let_def split: option.splits if_splits)

lemma CounterSet_has_counts: "counts m \<Longrightarrow> CounterSet_has v m \<longleftrightarrow> 0 < count_of m v"
  by (auto simp: CounterSet_has_def count_of_def dest: counts_pos split: option.splits)

text \<open>The two maps of a bidirectional map are inverse to each other as long as keys and values are fresh when they are set.\<close>

definition inverse_maps :: "('k, 'v) BidirectionalMap \<Rightarrow> bool" where
  "inverse_maps this \<longleftrightarrow> (\<forall>k v. bm_m1 this k = Some v \<longleftrightarrow> bm_m2 this v = Some k)"

lemma BidirectionalMap_set_inverse:
  assumes "inverse_maps this" "bm_m1 this k = None \<or> bm_m1 this k = Some v" "bm_m2 this v = None \<or> bm_m2 this v = Some k"
  shows "inverse_maps (BidirectionalMap_set k v this)"
  using assms by (auto simp: inverse_maps_def BidirectionalMap_set_def) (metis option.distinct(1) option.inject)+

lemma BidirectionalMap_delete_inverse:
  assumes "inverse_maps this"
  shows "inverse_maps (snd (BidirectionalMap_delete k this))" "BidirectionalMap_get k (snd (BidirectionalMap_delete k this)) = None"
  using assms by (auto simp: inverse_maps_def BidirectionalMap_delete_def BidirectionalMap_get_def split: option.splits) (metis option.inject)+

text \<open>A key that gets another value stays the key of its old value.\<close>

lemma BidirectionalMap_set_stale:
  assumes "v \<noteq> w"
  shows "BidirectionalMap_getKey v (BidirectionalMap_set k w (BidirectionalMap_set k v this)) = Some k"
    "BidirectionalMap_get k (BidirectionalMap_set k w (BidirectionalMap_set k v this)) = Some w"
  using assms by (simp_all add: BidirectionalMap_set_def BidirectionalMap_getKey_def BidirectionalMap_get_def)

text \<open>Deleting an entry whose value is falsy removes it and returns false.\<close>

lemma LinkedMap_delete_falsy:
  assumes "represents this xs" "map_of xs k = Some v" "\<not> truthy v"
  shows "\<exists>this'. LinkedMap_delete truthy k this = Inr (False, this') \<and> represents this' (list_remove k xs)"
  using remove_represents [OF assms(1), of k] assms(2,3) by (auto simp: LinkedMap_delete_def)

end
