(* ===== verification/Lines_Layout.thy ===== *)
theory Lines_Layout
  imports Arrays_Ops
begin

text \<open>
  The vertical layout of lines and of the whitespaces (view zones) between them, \<open>src/vs/editor/common/viewLayout/linesLayout.ts\<close>: the changes
  of whitespaces and lines, and the heights above a line. Indices of arrays and their midpoints are below \<open>2 ^ 31\<close>. A read of a member of
  \<open>undefined\<close> throws; the object after a throw is not modelled.
\<close>

section \<open>Whitespaces and pending changes\<close>

record EditorWhitespace =
  ws_id :: jsstring
  ws_afterLineNumber :: number
  ws_ordinal :: number
  ws_height :: number
  ws_minWidth :: number
  ws_prefixSum :: number

definition new_EditorWhitespace :: "jsstring \<Rightarrow> number \<Rightarrow> number \<Rightarrow> number \<Rightarrow> number \<Rightarrow> EditorWhitespace" where
  "new_EditorWhitespace wid afterLineNumber ordinal height minWidth =
     \<lparr>ws_id = wid, ws_afterLineNumber = afterLineNumber, ws_ordinal = ordinal, ws_height = height, ws_minWidth = minWidth, ws_prefixSum = 0\<rparr>"

record IPendingChange =
  pc_id :: jsstring
  pc_newAfterLineNumber :: number
  pc_newHeight :: number

record PendingChanges =
  pd_hasPending :: bool
  pd_inserts :: "EditorWhitespace list"
  pd_changes :: "IPendingChange list"
  pd_removes :: "jsstring list"

definition new_PendingChanges :: PendingChanges where
  "new_PendingChanges = \<lparr>pd_hasPending = False, pd_inserts = [], pd_changes = [], pd_removes = []\<rparr>"

definition PendingChanges_insert :: "EditorWhitespace \<Rightarrow> PendingChanges \<Rightarrow> PendingChanges" where
  "PendingChanges_insert x this = this\<lparr>pd_hasPending := True, pd_inserts := pd_inserts this @ [x]\<rparr>"

definition PendingChanges_change :: "IPendingChange \<Rightarrow> PendingChanges \<Rightarrow> PendingChanges" where
  "PendingChanges_change x this = this\<lparr>pd_hasPending := True, pd_changes := pd_changes this @ [x]\<rparr>"

definition PendingChanges_remove :: "jsstring \<Rightarrow> PendingChanges \<Rightarrow> PendingChanges" where
  "PendingChanges_remove x this = this\<lparr>pd_hasPending := True, pd_removes := pd_removes this @ [x]\<rparr>"

definition PendingChanges_mustCommit :: "PendingChanges \<Rightarrow> bool" where
  "PendingChanges_mustCommit this = pd_hasPending this"

section \<open>The layout\<close>

record LinesLayout =
  ll_instanceId :: jsstring
  ll_pendingChanges :: PendingChanges
  ll_lastWhitespaceId :: number
  ll_arr :: "EditorWhitespace list"
  ll_prefixSumValidIndex :: number
  ll_minWidth :: number
  ll_lineCount :: number
  ll_lineHeight :: number
  ll_paddingTop :: number
  ll_paddingBottom :: number

definition singleLetterHash :: "number \<Rightarrow> jsstring" where
  "singleLetterHash n =
     (let LETTERS_CNT = 26; n = js_rem n (2 * LETTERS_CNT)
      in if n < LETTERS_CNT then [word_of_int (97 + n)] else [word_of_int (65 + n - LETTERS_CNT)])"

text \<open>The constructor takes and returns the count of instances.\<close>

definition new_LinesLayout :: "number \<Rightarrow> number \<Rightarrow> number \<Rightarrow> number \<Rightarrow> number \<Rightarrow> LinesLayout \<times> number" where
  "new_LinesLayout INSTANCE_COUNT lineCount lineHeight paddingTop paddingBottom =
     (\<lparr>ll_instanceId = singleLetterHash (INSTANCE_COUNT + 1), ll_pendingChanges = new_PendingChanges, ll_lastWhitespaceId = 0, ll_arr = [],
       ll_prefixSumValidIndex = - 1, ll_minWidth = - 1, ll_lineCount = lineCount, ll_lineHeight = lineHeight, ll_paddingTop = paddingTop,
       ll_paddingBottom = paddingBottom\<rparr>, INSTANCE_COUNT + 1)"

section \<open>Changing whitespaces\<close>

function findInsertionIndex_loop :: "EditorWhitespace list \<Rightarrow> number \<Rightarrow> number \<Rightarrow> nat \<Rightarrow> nat \<Rightarrow> nat" where
  "findInsertionIndex_loop arr afterLineNumber ordinal low high =
     (if low < high then
        let mid = (low + high) div 2
        in if afterLineNumber = ws_afterLineNumber (arr ! mid) then
             if ordinal < ws_ordinal (arr ! mid) then findInsertionIndex_loop arr afterLineNumber ordinal low mid
             else findInsertionIndex_loop arr afterLineNumber ordinal (mid + 1) high
           else if afterLineNumber < ws_afterLineNumber (arr ! mid) then findInsertionIndex_loop arr afterLineNumber ordinal low mid
           else findInsertionIndex_loop arr afterLineNumber ordinal (mid + 1) high
      else low)"
  by pat_completeness auto
termination by (relation "measure (\<lambda>(arr, a, ordinal, low, high). high - low)") auto

declare findInsertionIndex_loop.simps [simp del]

definition LinesLayout_findInsertionIndex :: "EditorWhitespace list \<Rightarrow> number \<Rightarrow> number \<Rightarrow> nat" where
  "LinesLayout_findInsertionIndex arr afterLineNumber ordinal = findInsertionIndex_loop arr afterLineNumber ordinal 0 (length arr)"

definition LinesLayout_insertWhitespace :: "EditorWhitespace \<Rightarrow> LinesLayout \<Rightarrow> LinesLayout" where
  "LinesLayout_insertWhitespace whitespace this =
     (let insertIndex = LinesLayout_findInsertionIndex (ll_arr this) (ws_afterLineNumber whitespace) (ws_ordinal whitespace)
      in this\<lparr>ll_arr := arr_splice (ll_arr this) insertIndex 0 [whitespace],
              ll_prefixSumValidIndex := min (ll_prefixSumValidIndex this) (int insertIndex - 1)\<rparr>)"

fun findWhitespaceIndex_loop :: "jsstring \<Rightarrow> EditorWhitespace list \<Rightarrow> number \<Rightarrow> number" where
  "findWhitespaceIndex_loop wid [] i = - 1"
| "findWhitespaceIndex_loop wid (w # ws) i = (if ws_id w = wid then i else findWhitespaceIndex_loop wid ws (i + 1))"

definition LinesLayout_findWhitespaceIndex :: "jsstring \<Rightarrow> LinesLayout \<Rightarrow> number" where
  "LinesLayout_findWhitespaceIndex wid this = findWhitespaceIndex_loop wid (ll_arr this) 0"

definition LinesLayout_removeWhitespace :: "number \<Rightarrow> LinesLayout \<Rightarrow> LinesLayout" where
  "LinesLayout_removeWhitespace removeIndex this =
     this\<lparr>ll_arr := arr_splice (ll_arr this) (nat removeIndex) 1 [], ll_prefixSumValidIndex := min (ll_prefixSumValidIndex this) (removeIndex - 1)\<rparr>"

definition LinesLayout_changeOneWhitespace :: "jsstring \<Rightarrow> number \<Rightarrow> number \<Rightarrow> LinesLayout \<Rightarrow> LinesLayout" where
  "LinesLayout_changeOneWhitespace wid newAfterLineNumber newHeight this =
     (let index = LinesLayout_findWhitespaceIndex wid this
      in if index = - 1 then this
         else
           let w = ll_arr this ! nat index;
               this = (if ws_height w \<noteq> newHeight
                       then this\<lparr>ll_arr := (ll_arr this)[nat index := w\<lparr>ws_height := newHeight\<rparr>],
                                 ll_prefixSumValidIndex := min (ll_prefixSumValidIndex this) (index - 1)\<rparr>
                       else this);
               w = ll_arr this ! nat index
           in if ws_afterLineNumber w \<noteq> newAfterLineNumber
              then LinesLayout_insertWhitespace (w\<lparr>ws_afterLineNumber := newAfterLineNumber\<rparr>) (LinesLayout_removeWhitespace index this)
              else this)"

definition compareWhitespace :: "EditorWhitespace comparator" where
  "compareWhitespace a b =
     (if ws_afterLineNumber a = ws_afterLineNumber b then ws_ordinal a - ws_ordinal b else ws_afterLineNumber a - ws_afterLineNumber b)"

definition applyRemoveAndChange :: "jsstring set \<Rightarrow> (jsstring \<Rightarrow> IPendingChange option) \<Rightarrow> EditorWhitespace list \<Rightarrow> EditorWhitespace list" where
  "applyRemoveAndChange toRemove toChange whitespaces =
     map (\<lambda>w. case toChange (ws_id w) of None \<Rightarrow> w
              | Some c \<Rightarrow> w\<lparr>ws_afterLineNumber := pc_newAfterLineNumber c, ws_height := pc_newHeight c\<rparr>)
       (filter (\<lambda>w. ws_id w \<notin> toRemove) whitespaces)"

definition pending_changes :: "IPendingChange list \<Rightarrow> jsstring \<Rightarrow> IPendingChange option" where
  "pending_changes changes = fold (\<lambda>c m. m(pc_id c := Some c)) changes (\<lambda>_. None)"

definition LinesLayout_commitPendingChanges ::
  "EditorWhitespace list \<Rightarrow> IPendingChange list \<Rightarrow> jsstring list \<Rightarrow> LinesLayout \<Rightarrow> LinesLayout" where
  "LinesLayout_commitPendingChanges inserts changes removes this =
     (let this = (if length inserts > 0 \<or> length removes > 0 then this\<lparr>ll_minWidth := - 1\<rparr> else this)
      in if length inserts + length changes + length removes \<le> 1 then
           (let this = fold LinesLayout_insertWhitespace inserts this;
                this = fold (\<lambda>c. LinesLayout_changeOneWhitespace (pc_id c) (pc_newAfterLineNumber c) (pc_newHeight c)) changes this
            in fold (\<lambda>wid this.
                 let index = LinesLayout_findWhitespaceIndex wid this
                 in if index = - 1 then this else LinesLayout_removeWhitespace index this) removes this)
         else
           (let toRemove = set removes;
                toChange = pending_changes changes;
                result = applyRemoveAndChange toRemove toChange (ll_arr this) @ applyRemoveAndChange toRemove toChange inserts
            in this\<lparr>ll_arr := js_sort compareWhitespace result, ll_prefixSumValidIndex := - 1\<rparr>))"

definition PendingChanges_commit :: "LinesLayout \<Rightarrow> LinesLayout" where
  "PendingChanges_commit linesLayout =
     (let this = ll_pendingChanges linesLayout
      in if \<not> pd_hasPending this then linesLayout
         else LinesLayout_commitPendingChanges (pd_inserts this) (pd_changes this) (pd_removes this)
           (linesLayout\<lparr>ll_pendingChanges := new_PendingChanges\<rparr>))"

definition LinesLayout_checkPendingChanges :: "LinesLayout \<Rightarrow> LinesLayout" where
  "LinesLayout_checkPendingChanges this =
     (if PendingChanges_mustCommit (ll_pendingChanges this) then PendingChanges_commit this else this)"

text \<open>
  The accessor's operations: \<open>hadAChange\<close> and the layout. A callback of \<open>changeWhitespace\<close> runs on both and may throw;
  the pending changes are committed in any case.
\<close>

definition accessor_insertWhitespace :: "number \<Rightarrow> number \<Rightarrow> number \<Rightarrow> number \<Rightarrow> bool \<times> LinesLayout \<Rightarrow> jsstring \<times> bool \<times> LinesLayout" where
  "accessor_insertWhitespace afterLineNumber ordinal heightInPx minWidth st =
     (let this = snd st;
          afterLineNumber = toInt32 afterLineNumber; ordinal = toInt32 ordinal; heightInPx = toInt32 heightInPx; minWidth = toInt32 minWidth;
          lastWhitespaceId = ll_lastWhitespaceId this + 1;
          wid = ll_instanceId this @ js_show_number lastWhitespaceId
      in (wid, True, this\<lparr>ll_lastWhitespaceId := lastWhitespaceId,
            ll_pendingChanges := PendingChanges_insert (new_EditorWhitespace wid afterLineNumber ordinal heightInPx minWidth) (ll_pendingChanges this)\<rparr>))"

definition accessor_changeOneWhitespace :: "jsstring \<Rightarrow> number \<Rightarrow> number \<Rightarrow> bool \<times> LinesLayout \<Rightarrow> bool \<times> LinesLayout" where
  "accessor_changeOneWhitespace wid newAfterLineNumber newHeight st =
     (let this = snd st
      in (True, this\<lparr>ll_pendingChanges :=
           PendingChanges_change \<lparr>pc_id = wid, pc_newAfterLineNumber = toInt32 newAfterLineNumber, pc_newHeight = toInt32 newHeight\<rparr> (ll_pendingChanges this)\<rparr>))"

definition accessor_removeWhitespace :: "jsstring \<Rightarrow> bool \<times> LinesLayout \<Rightarrow> bool \<times> LinesLayout" where
  "accessor_removeWhitespace wid st = (True, (snd st)\<lparr>ll_pendingChanges := PendingChanges_remove wid (ll_pendingChanges (snd st))\<rparr>)"

definition LinesLayout_changeWhitespace :: "(bool \<times> LinesLayout \<Rightarrow> unit result \<times> bool \<times> LinesLayout) \<Rightarrow> LinesLayout \<Rightarrow> bool result \<times> LinesLayout" where
  "LinesLayout_changeWhitespace callback this =
     (case callback (False, this) of (r, hadAChange, this) \<Rightarrow> (result_map (\<lambda>_. hadAChange) r, PendingChanges_commit this))"

section \<open>Changing lines\<close>

definition LinesLayout_setLineHeight :: "number \<Rightarrow> LinesLayout \<Rightarrow> LinesLayout" where
  "LinesLayout_setLineHeight lineHeight this = (LinesLayout_checkPendingChanges this)\<lparr>ll_lineHeight := lineHeight\<rparr>"

definition LinesLayout_setPadding :: "number \<Rightarrow> number \<Rightarrow> LinesLayout \<Rightarrow> LinesLayout" where
  "LinesLayout_setPadding paddingTop paddingBottom this = this\<lparr>ll_paddingTop := paddingTop, ll_paddingBottom := paddingBottom\<rparr>"

definition LinesLayout_onFlushed :: "number \<Rightarrow> LinesLayout \<Rightarrow> LinesLayout" where
  "LinesLayout_onFlushed lineCount this = (LinesLayout_checkPendingChanges this)\<lparr>ll_lineCount := lineCount\<rparr>"

definition after_deletion :: "number \<Rightarrow> number \<Rightarrow> number \<Rightarrow> number" where
  "after_deletion fromLineNumber toLineNumber afterLineNumber =
     (if fromLineNumber \<le> afterLineNumber \<and> afterLineNumber \<le> toLineNumber then fromLineNumber - 1
      else if afterLineNumber > toLineNumber then afterLineNumber - (toLineNumber - fromLineNumber + 1)
      else afterLineNumber)"

definition LinesLayout_onLinesDeleted :: "number \<Rightarrow> number \<Rightarrow> LinesLayout \<Rightarrow> LinesLayout" where
  "LinesLayout_onLinesDeleted fromLineNumber toLineNumber this =
     (let this = LinesLayout_checkPendingChanges this; fromLineNumber = toInt32 fromLineNumber; toLineNumber = toInt32 toLineNumber
      in this\<lparr>ll_lineCount := ll_lineCount this - (toLineNumber - fromLineNumber + 1),
              ll_arr := map (ws_afterLineNumber_update (after_deletion fromLineNumber toLineNumber)) (ll_arr this)\<rparr>)"

definition after_insertion :: "number \<Rightarrow> number \<Rightarrow> number \<Rightarrow> number" where
  "after_insertion fromLineNumber toLineNumber afterLineNumber =
     (if fromLineNumber \<le> afterLineNumber then afterLineNumber + (toLineNumber - fromLineNumber + 1) else afterLineNumber)"

definition LinesLayout_onLinesInserted :: "number \<Rightarrow> number \<Rightarrow> LinesLayout \<Rightarrow> LinesLayout" where
  "LinesLayout_onLinesInserted fromLineNumber toLineNumber this =
     (let this = LinesLayout_checkPendingChanges this; fromLineNumber = toInt32 fromLineNumber; toLineNumber = toInt32 toLineNumber
      in this\<lparr>ll_lineCount := ll_lineCount this + (toLineNumber - fromLineNumber + 1),
              ll_arr := map (ws_afterLineNumber_update (after_insertion fromLineNumber toLineNumber)) (ll_arr this)\<rparr>)"

section \<open>Heights\<close>

text \<open>Every reader commits the pending changes first, and returns its value and the layout.\<close>

function accumulate_loop :: "number \<Rightarrow> number \<Rightarrow> EditorWhitespace list \<Rightarrow> EditorWhitespace list result" where
  "accumulate_loop i index arr =
     (if i \<le> index then
        (case (arr_at arr i, arr_at arr (i - 1)) of
           (Some w, Some previous) \<Rightarrow> accumulate_loop (i + 1) index (arr[nat i := w\<lparr>ws_prefixSum := ws_prefixSum previous + ws_height w\<rparr>])
         | _ \<Rightarrow> Inl TypeError)
      else Inr arr)"
  by pat_completeness auto
termination by (relation "measure (\<lambda>(i, index, arr). nat (index + 1 - i))") auto

declare accumulate_loop.simps [simp del]

definition LinesLayout_getWhitespacesAccumulatedHeight :: "number \<Rightarrow> LinesLayout \<Rightarrow> (number \<times> LinesLayout) result" where
  "LinesLayout_getWhitespacesAccumulatedHeight index this =
     (let this = LinesLayout_checkPendingChanges this; index = toInt32 index; startIndex = max 0 (ll_prefixSumValidIndex this + 1)
      in result_bind
           (if startIndex = 0
            then (case ll_arr this of [] \<Rightarrow> Inl TypeError | w # ws \<Rightarrow> Inr (w\<lparr>ws_prefixSum := ws_height w\<rparr> # ws, 1))
            else Inr (ll_arr this, startIndex)) (\<lambda>(arr, startIndex).
         result_bind (accumulate_loop startIndex index arr) (\<lambda>arr.
         result_map (\<lambda>w. (ws_prefixSum w, this\<lparr>ll_arr := arr, ll_prefixSumValidIndex := max (ll_prefixSumValidIndex this) index\<rparr>))
           (arr_get arr index))))"

definition LinesLayout_getWhitespacesTotalHeight :: "LinesLayout \<Rightarrow> (number \<times> LinesLayout) result" where
  "LinesLayout_getWhitespacesTotalHeight this =
     (let this = LinesLayout_checkPendingChanges this
      in if length (ll_arr this) = 0 then Inr (0, this)
         else LinesLayout_getWhitespacesAccumulatedHeight (int (length (ll_arr this)) - 1) this)"

definition LinesLayout_getLinesTotalHeight :: "LinesLayout \<Rightarrow> (number \<times> LinesLayout) result" where
  "LinesLayout_getLinesTotalHeight this =
     (let this = LinesLayout_checkPendingChanges this; linesHeight = ll_lineHeight this * ll_lineCount this
      in result_map (\<lambda>(whitespacesHeight, this). (linesHeight + whitespacesHeight + ll_paddingTop this + ll_paddingBottom this, this))
           (LinesLayout_getWhitespacesTotalHeight this))"

function findLastWhitespace_loop :: "EditorWhitespace list \<Rightarrow> number \<Rightarrow> number \<Rightarrow> number \<Rightarrow> number" where
  "findLastWhitespace_loop arr lineNumber low high =
     (if low \<le> high then
        let mid = low + (high - low) div 2
        in if ws_afterLineNumber (arr ! nat mid) < lineNumber then
             if mid + 1 \<ge> int (length arr) \<or> ws_afterLineNumber (arr ! nat (mid + 1)) \<ge> lineNumber then mid
             else findLastWhitespace_loop arr lineNumber (mid + 1) high
           else findLastWhitespace_loop arr lineNumber low (mid - 1)
      else - 1)"
  by pat_completeness auto
termination by (relation "measure (\<lambda>(arr, n, low, high). nat (high + 1 - low))") auto

declare findLastWhitespace_loop.simps [simp del]

definition LinesLayout_findLastWhitespaceBeforeLineNumber :: "number \<Rightarrow> LinesLayout \<Rightarrow> number" where
  "LinesLayout_findLastWhitespaceBeforeLineNumber lineNumber this =
     findLastWhitespace_loop (ll_arr this) (toInt32 lineNumber) 0 (int (length (ll_arr this)) - 1)"

definition LinesLayout_findFirstWhitespaceAfterLineNumber :: "number \<Rightarrow> LinesLayout \<Rightarrow> number" where
  "LinesLayout_findFirstWhitespaceAfterLineNumber lineNumber this =
     (let firstWhitespaceAfterLineNumber = LinesLayout_findLastWhitespaceBeforeLineNumber (toInt32 lineNumber) this + 1
      in if firstWhitespaceAfterLineNumber < int (length (ll_arr this)) then firstWhitespaceAfterLineNumber else - 1)"

definition LinesLayout_getFirstWhitespaceIndexAfterLineNumber :: "number \<Rightarrow> LinesLayout \<Rightarrow> number \<times> LinesLayout" where
  "LinesLayout_getFirstWhitespaceIndexAfterLineNumber lineNumber this =
     (let this = LinesLayout_checkPendingChanges this in (LinesLayout_findFirstWhitespaceAfterLineNumber (toInt32 lineNumber) this, this))"

definition LinesLayout_getWhitespaceAccumulatedHeightBeforeLineNumber :: "number \<Rightarrow> LinesLayout \<Rightarrow> (number \<times> LinesLayout) result" where
  "LinesLayout_getWhitespaceAccumulatedHeightBeforeLineNumber lineNumber this =
     (let this = LinesLayout_checkPendingChanges this;
          lastWhitespaceBeforeLineNumber = LinesLayout_findLastWhitespaceBeforeLineNumber (toInt32 lineNumber) this
      in if lastWhitespaceBeforeLineNumber = - 1 then Inr (0, this)
         else LinesLayout_getWhitespacesAccumulatedHeight lastWhitespaceBeforeLineNumber this)"

definition LinesLayout_getVerticalOffsetForLineNumber :: "number \<Rightarrow> bool \<Rightarrow> LinesLayout \<Rightarrow> (number \<times> LinesLayout) result" where
  "LinesLayout_getVerticalOffsetForLineNumber lineNumber includeViewZones this =
     (let this = LinesLayout_checkPendingChanges this; lineNumber = toInt32 lineNumber;
          previousLinesHeight = (if lineNumber > 1 then ll_lineHeight this * (lineNumber - 1) else 0)
      in result_map (\<lambda>(previousWhitespacesHeight, this). (previousLinesHeight + previousWhitespacesHeight + ll_paddingTop this, this))
           (LinesLayout_getWhitespaceAccumulatedHeightBeforeLineNumber (lineNumber - (if includeViewZones then 1 else 0)) this))"

definition LinesLayout_getVerticalOffsetAfterLineNumber :: "number \<Rightarrow> bool \<Rightarrow> LinesLayout \<Rightarrow> (number \<times> LinesLayout) result" where
  "LinesLayout_getVerticalOffsetAfterLineNumber lineNumber includeViewZones this =
     (let this = LinesLayout_checkPendingChanges this; lineNumber = toInt32 lineNumber;
          previousLinesHeight = ll_lineHeight this * lineNumber
      in result_map (\<lambda>(previousWhitespacesHeight, this). (previousLinesHeight + previousWhitespacesHeight + ll_paddingTop this, this))
           (LinesLayout_getWhitespaceAccumulatedHeightBeforeLineNumber (lineNumber + (if includeViewZones then 1 else 0)) this))"

definition LinesLayout_getWhitespacesCount :: "LinesLayout \<Rightarrow> number \<times> LinesLayout" where
  "LinesLayout_getWhitespacesCount this = (let this = LinesLayout_checkPendingChanges this in (int (length (ll_arr this)), this))"

definition LinesLayout_hasWhitespace :: "LinesLayout \<Rightarrow> bool \<times> LinesLayout" where
  "LinesLayout_hasWhitespace this =
     (let this = LinesLayout_checkPendingChanges this; (count, this) = LinesLayout_getWhitespacesCount this in (count > 0, this))"

definition LinesLayout_getWhitespaceMinWidth :: "LinesLayout \<Rightarrow> number \<times> LinesLayout" where
  "LinesLayout_getWhitespaceMinWidth this =
     (let this = LinesLayout_checkPendingChanges this;
          this = (if ll_minWidth this = - 1 then this\<lparr>ll_minWidth := fold (\<lambda>w minWidth. max minWidth (ws_minWidth w)) (ll_arr this) 0\<rparr> else this)
      in (ll_minWidth this, this))"

definition LinesLayout_isAfterLines :: "number \<Rightarrow> LinesLayout \<Rightarrow> (bool \<times> LinesLayout) result" where
  "LinesLayout_isAfterLines verticalOffset this =
     result_map (\<lambda>(totalHeight, this). (verticalOffset > totalHeight, this)) (LinesLayout_getLinesTotalHeight (LinesLayout_checkPendingChanges this))"

definition LinesLayout_isInTopPadding :: "number \<Rightarrow> LinesLayout \<Rightarrow> bool \<times> LinesLayout" where
  "LinesLayout_isInTopPadding verticalOffset this =
     (if ll_paddingTop this = 0 then (False, this)
      else let this = LinesLayout_checkPendingChanges this in (verticalOffset < ll_paddingTop this, this))"

definition LinesLayout_isInBottomPadding :: "number \<Rightarrow> LinesLayout \<Rightarrow> (bool \<times> LinesLayout) result" where
  "LinesLayout_isInBottomPadding verticalOffset this =
     (if ll_paddingBottom this = 0 then Inr (False, this)
      else result_map (\<lambda>(totalHeight, this). (verticalOffset \<ge> totalHeight - ll_paddingBottom this, this))
             (LinesLayout_getLinesTotalHeight (LinesLayout_checkPendingChanges this)))"

definition LinesLayout_getWhitespaces :: "LinesLayout \<Rightarrow> EditorWhitespace list \<times> LinesLayout" where
  "LinesLayout_getWhitespaces this = (let this = LinesLayout_checkPendingChanges this in (ll_arr this, this))"

definition whitespace_at :: "(EditorWhitespace \<Rightarrow> 'a) \<Rightarrow> number \<Rightarrow> LinesLayout \<Rightarrow> ('a \<times> LinesLayout) result" where
  "whitespace_at member index this =
     (let this = LinesLayout_checkPendingChanges this; index = toInt32 index
      in result_map (\<lambda>w. (member w, this)) (arr_get (ll_arr this) index))"

definition LinesLayout_getIdForWhitespaceIndex :: "number \<Rightarrow> LinesLayout \<Rightarrow> (jsstring \<times> LinesLayout) result" where
  "LinesLayout_getIdForWhitespaceIndex = whitespace_at ws_id"

definition LinesLayout_getAfterLineNumberForWhitespaceIndex :: "number \<Rightarrow> LinesLayout \<Rightarrow> (number \<times> LinesLayout) result" where
  "LinesLayout_getAfterLineNumberForWhitespaceIndex = whitespace_at ws_afterLineNumber"

definition LinesLayout_getHeightForWhitespaceIndex :: "number \<Rightarrow> LinesLayout \<Rightarrow> (number \<times> LinesLayout) result" where
  "LinesLayout_getHeightForWhitespaceIndex = whitespace_at ws_height"

section \<open>The invariant\<close>

definition heights :: "EditorWhitespace list \<Rightarrow> number" where
  "heights ws = sum_list (map ws_height ws)"

definition by_line :: "EditorWhitespace list \<Rightarrow> bool" where
  "by_line arr \<longleftrightarrow> sorted (map ws_afterLineNumber arr)"

definition sums_ok :: "EditorWhitespace list \<Rightarrow> number \<Rightarrow> bool" where
  "sums_ok arr valid \<longleftrightarrow>
     - 1 \<le> valid \<and> valid < int (length arr) \<and> (\<forall>i. int i \<le> valid \<longrightarrow> ws_prefixSum (arr ! i) = heights (take (Suc i) arr))"

definition max_width :: "EditorWhitespace list \<Rightarrow> number" where
  "max_width ws = fold (\<lambda>w minWidth. max minWidth (ws_minWidth w)) ws 0"

definition issued :: "LinesLayout \<Rightarrow> jsstring set" where
  "issued this = (\<lambda>n. ll_instanceId this @ js_show_number n) ` {1 .. ll_lastWhitespaceId this}"

definition pending_ok :: "PendingChanges \<Rightarrow> bool" where
  "pending_ok p \<longleftrightarrow> pd_hasPending p \<or> pd_inserts p = [] \<and> pd_changes p = [] \<and> pd_removes p = []"

definition layout_ok :: "LinesLayout \<Rightarrow> bool" where
  "layout_ok this \<longleftrightarrow>
     by_line (ll_arr this) \<and> sums_ok (ll_arr this) (ll_prefixSumValidIndex this) \<and>
     (ll_minWidth this = - 1 \<or> ll_minWidth this = max_width (ll_arr this)) \<and> pending_ok (ll_pendingChanges this) \<and>
     0 \<le> ll_lastWhitespaceId this \<and>
     (let ids = map ws_id (ll_arr this) @ map ws_id (pd_inserts (ll_pendingChanges this)) in distinct ids \<and> set ids \<subseteq> issued this)"

text \<open>A whitespace without its cached sum.\<close>

definition strip :: "EditorWhitespace \<Rightarrow> EditorWhitespace" where
  "strip w = w\<lparr>ws_prefixSum := 0\<rparr>"

lemma strip_sel [simp]:
  "ws_id (strip w) = ws_id w" "ws_afterLineNumber (strip w) = ws_afterLineNumber w" "ws_ordinal (strip w) = ws_ordinal w"
  "ws_height (strip w) = ws_height w" "ws_minWidth (strip w) = ws_minWidth w"
  by (simp_all add: strip_def)

lemma strip_map:
  assumes "map strip xs = map strip ys" "\<And>w. f (strip w) = f w"
  shows "map f xs = map f ys"
  using arg_cong [OF assms(1), of "map f"] by (simp add: comp_def assms(2))

lemma strip_eqD:
  assumes "map strip xs = map strip ys"
  shows "map ws_id xs = map ws_id ys" "map ws_afterLineNumber xs = map ws_afterLineNumber ys" "map ws_ordinal xs = map ws_ordinal ys"
    "map ws_height xs = map ws_height ys" "map ws_minWidth xs = map ws_minWidth ys"
  by (rule strip_map [OF assms]; simp)+

lemma heights_append [simp]: "heights (xs @ ys) = heights xs + heights ys" "heights [] = 0" "heights (w # ws) = ws_height w + heights ws"
  by (simp_all add: heights_def)

lemma heights_strip: "map strip xs = map strip ys \<Longrightarrow> heights xs = heights ys"
  using strip_eqD(4) [of xs ys] by (simp add: heights_def)

lemma max_width_eq: "map ws_minWidth xs = map ws_minWidth ys \<Longrightarrow> max_width xs = max_width ys"
proof -
  have "max_width ws = fold (\<lambda>m minWidth. max minWidth m) (map ws_minWidth ws) 0" for ws by (simp add: max_width_def fold_map comp_def)
  then show "map ws_minWidth xs = map ws_minWidth ys \<Longrightarrow> max_width xs = max_width ys" by simp
qed

lemma heights_take_Suc: "i < length arr \<Longrightarrow> heights (take (Suc i) arr) = heights (take i arr) + ws_height (arr ! i)"
  by (simp add: take_Suc_conv_app_nth)

text \<open>Sums that are valid up to an index depend on the whitespaces up to it.\<close>

lemma sums_ok_prefix:
  assumes "sums_ok arr valid" "take n arr' = take n arr" "n \<le> length arr" "n \<le> length arr'"
  shows "sums_ok arr' (min valid (int n - 1))"
proof -
  have "ws_prefixSum (arr' ! i) = heights (take (Suc i) arr')" if "int i \<le> min valid (int n - 1)" for i
  proof -
    have i: "i < n" using that by simp
    then have "arr' ! i = arr ! i" "take (Suc i) arr' = take (Suc i) arr"
      using arg_cong [OF assms(2), of "\<lambda>xs. xs ! i"] arg_cong [OF assms(2), of "take (Suc i)"] by (simp_all add: min_def)
    then show ?thesis using assms(1) that by (simp add: sums_ok_def)
  qed
  then show ?thesis using assms(1,4) by (auto simp: sums_ok_def)
qed

lemma sums_ok_none: "sums_ok arr (- 1)"
  by (simp add: sums_ok_def)

lemma sums_ok_moved: "sums_ok (map (ws_afterLineNumber_update f) arr) valid \<longleftrightarrow> sums_ok arr valid"
proof -
  have "heights (take i (map (ws_afterLineNumber_update f) arr)) = heights (take i arr)" for i
    by (simp add: heights_def take_map comp_def)
  then show ?thesis unfolding sums_ok_def by (auto simp: nth_map)
qed

section \<open>Searching\<close>

lemma by_line_nth: "by_line arr \<longleftrightarrow> (\<forall>i j. i \<le> j \<longrightarrow> j < length arr \<longrightarrow> ws_afterLineNumber (arr ! i) \<le> ws_afterLineNumber (arr ! j))"
  unfolding by_line_def sorted_iff_nth_mono by (auto simp: nth_map)

lemma findInsertionIndex_loop_by_line:
  fixes ordinal :: number
  assumes "by_line arr" "low \<le> high" "high \<le> length arr"
    "\<forall>k < low. ws_afterLineNumber (arr ! k) \<le> a" "\<forall>k. high \<le> k \<and> k < length arr \<longrightarrow> a \<le> ws_afterLineNumber (arr ! k)"
  defines "r \<equiv> findInsertionIndex_loop arr a ordinal low high"
  shows "r \<le> length arr \<and> (\<forall>k < r. ws_afterLineNumber (arr ! k) \<le> a) \<and> (\<forall>k. r \<le> k \<and> k < length arr \<longrightarrow> a \<le> ws_afterLineNumber (arr ! k))"
  using assms(1-5) unfolding r_def
proof (induction arr a ordinal low high rule: findInsertionIndex_loop.induct)
  case (1 arr a ordinal low high)
  show ?case
  proof (cases "low < high")
    case True
    define mid where "mid = (low + high) div 2"
    have mid: "low \<le> mid" "mid < high" "mid < length arr" using True 1(7) by (auto simp: mid_def)
    have left: "ws_afterLineNumber (arr ! k) \<le> ws_afterLineNumber (arr ! mid)" if "k < mid + 1" for k
      using 1(5) mid that by (auto simp: by_line_nth)
    have right: "ws_afterLineNumber (arr ! mid) \<le> ws_afterLineNumber (arr ! k)" if "mid \<le> k" "k < length arr" for k
      using 1(5) mid that by (auto simp: by_line_nth)
    have step: "findInsertionIndex_loop arr a ordinal low high =
        (if a = ws_afterLineNumber (arr ! mid) \<and> ordinal < ws_ordinal (arr ! mid) \<or> a < ws_afterLineNumber (arr ! mid)
         then findInsertionIndex_loop arr a ordinal low mid else findInsertionIndex_loop arr a ordinal (mid + 1) high)"
      using True by (subst findInsertionIndex_loop.simps) (auto simp: Let_def mid_def)
    show ?thesis
    proof (cases "a = ws_afterLineNumber (arr ! mid) \<and> ordinal < ws_ordinal (arr ! mid) \<or> a < ws_afterLineNumber (arr ! mid)")
      case before: True
      then have "\<forall>k. mid \<le> k \<and> k < length arr \<longrightarrow> a \<le> ws_afterLineNumber (arr ! k)" using right by fastforce
      note r = this
      have eq: "findInsertionIndex_loop arr a ordinal low high = findInsertionIndex_loop arr a ordinal low mid" using step before by simp
      show ?thesis
      proof (cases "a = ws_afterLineNumber (arr ! mid)")
        case same: True
        then have "ordinal < ws_ordinal (arr ! mid)" using before by simp
        from 1(1) [OF True mid_def same this 1(5) mid(1) less_imp_le [OF mid(3)] 1(8) r] show ?thesis unfolding eq .
      next
        case less: False
        then have "a < ws_afterLineNumber (arr ! mid)" using before by simp
        from 1(3) [OF True mid_def less this 1(5) mid(1) less_imp_le [OF mid(3)] 1(8) r] show ?thesis unfolding eq .
      qed
    next
      case after: False
      then have "\<forall>k < mid + 1. ws_afterLineNumber (arr ! k) \<le> a" using left by fastforce
      note l = this
      have eq: "findInsertionIndex_loop arr a ordinal low high = findInsertionIndex_loop arr a ordinal (mid + 1) high" using step after by simp
      have m: "mid + 1 \<le> high" using mid(2) by simp
      show ?thesis
      proof (cases "a = ws_afterLineNumber (arr ! mid)")
        case same: True
        then have "\<not> ordinal < ws_ordinal (arr ! mid)" using after by simp
        from 1(2) [OF True mid_def same this 1(5) m 1(7) l 1(9)] show ?thesis unfolding eq .
      next
        case greater: False
        then have "\<not> a < ws_afterLineNumber (arr ! mid)" using after by simp
        from 1(4) [OF True mid_def greater this 1(5) m 1(7) l 1(9)] show ?thesis unfolding eq .
      qed
    qed
  next
    case False
    with 1(5-9) show ?thesis by (subst (1 2 3) findInsertionIndex_loop.simps) auto
  qed
qed

lemma findInsertionIndex_by_line:
  assumes "by_line arr"
  shows "LinesLayout_findInsertionIndex arr a ordinal \<le> length arr"
    "k < LinesLayout_findInsertionIndex arr a ordinal \<Longrightarrow> ws_afterLineNumber (arr ! k) \<le> a"
    "LinesLayout_findInsertionIndex arr a ordinal \<le> k \<Longrightarrow> k < length arr \<Longrightarrow> a \<le> ws_afterLineNumber (arr ! k)"
  using findInsertionIndex_loop_by_line [OF assms, of 0 "length arr" a ordinal] by (auto simp: LinesLayout_findInsertionIndex_def)

lemma findLastWhitespace_loop_eq:
  assumes "true_prefix arr (\<lambda>w. ws_afterLineNumber w < n) m" "0 \<le> low" "high < int (length arr)"
    "low \<le> int m - 1 \<and> int m - 1 \<le> high \<or> m = 0 \<and> low = 0"
  shows "findLastWhitespace_loop arr n low high = int m - 1"
  using assms
proof (induction arr n low high rule: findLastWhitespace_loop.induct)
  case (1 arr n low high)
  show ?case
  proof (cases "low \<le> high")
    case True
    define mid where "mid = low + (high - low) div 2"
    have mid: "low \<le> mid" "mid \<le> high" "0 \<le> mid" using True 1(4) by (auto simp: mid_def)
    have at: "ws_afterLineNumber (arr ! nat k) < n \<longleftrightarrow> k < int m" if "0 \<le> k" "k < int (length arr)" for k
      using 1(3) that by (auto simp: true_prefix_def)
    have m: "m \<le> length arr" using 1(3) by (simp add: true_prefix_def)
    have step: "findLastWhitespace_loop arr n low high =
        (if mid < int m then if int (length arr) \<le> mid + 1 \<or> int m \<le> mid + 1 then mid else findLastWhitespace_loop arr n (mid + 1) high
         else findLastWhitespace_loop arr n low (mid - 1))"
      using True at [of mid] at [of "mid + 1"] mid 1(5) by (subst findLastWhitespace_loop.simps) (auto simp: Let_def simp flip: mid_def)
    show ?thesis
      using 1(1,2) [OF True mid_def] 1(3-6) mid at [of mid] at [of "mid + 1"] m unfolding step by (auto simp: not_less)
  next
    case False
    with 1(4-6) show ?thesis by (subst findLastWhitespace_loop.simps) auto
  qed
qed

definition count_before :: "number \<Rightarrow> EditorWhitespace list \<Rightarrow> nat" where
  "count_before n ws = length (takeWhile (\<lambda>w. ws_afterLineNumber w < n) ws)"

lemma count_before_prefix:
  assumes "by_line arr"
  shows "true_prefix arr (\<lambda>w. ws_afterLineNumber w < n) (count_before n arr)"
  unfolding count_before_def
proof (rule true_prefix_takeWhile)
  show "sorted_wrt (\<lambda>a b. ws_afterLineNumber a \<le> ws_afterLineNumber b) arr"
    using assms by (simp add: by_line_def sorted_map)
qed auto

lemma findLastWhitespaceBeforeLineNumber_eq:
  assumes "by_line (ll_arr this)" "is_int32 n"
  shows "LinesLayout_findLastWhitespaceBeforeLineNumber n this = int (count_before n (ll_arr this)) - 1"
proof -
  note p = count_before_prefix [OF assms(1), of n]
  then have "count_before n (ll_arr this) \<le> length (ll_arr this)" by (simp add: true_prefix_def)
  then show ?thesis
    using findLastWhitespace_loop_eq [OF p, of 0 "int (length (ll_arr this)) - 1"] assms(2)
    by (auto simp: LinesLayout_findLastWhitespaceBeforeLineNumber_def)
qed

section \<open>Changes keep the invariant\<close>

interpretation whitespace_order: js_comparator compareWhitespace "\<lambda>_. True"
  by unfold_locales (auto simp: compareWhitespace_def sgn_if split: if_splits)

lemma by_line_js_sort: "by_line (js_sort compareWhitespace ws)"
proof -
  have "sorted_wrt (\<lambda>a b. compareWhitespace a b \<le> 0) (js_sort compareWhitespace ws)"
    using whitespace_order.sorted_by_js_sort [of ws] by (simp add: whitespace_order.sorted_by_def)
  then have "sorted_wrt (\<lambda>a b. ws_afterLineNumber a \<le> ws_afterLineNumber b) (js_sort compareWhitespace ws)"
    by (rule sorted_wrt_mono_rel [rotated]) (auto simp: compareWhitespace_def split: if_splits)
  then show ?thesis by (simp add: by_line_def sorted_map)
qed

lemma by_line_splice:
  assumes "by_line arr" "i \<le> length arr" "\<And>k. k < i \<Longrightarrow> ws_afterLineNumber (arr ! k) \<le> ws_afterLineNumber w"
    "\<And>k. i \<le> k \<Longrightarrow> k < length arr \<Longrightarrow> ws_afterLineNumber w \<le> ws_afterLineNumber (arr ! k)"
  shows "by_line (arr_splice arr i 0 [w])"
proof -
  have "by_line (take i arr @ drop i arr)" using assms(1) by simp
  then have "sorted (map ws_afterLineNumber (take i arr))" "sorted (map ws_afterLineNumber (drop i arr))"
    "\<forall>x \<in> set (take i arr). \<forall>y \<in> set (drop i arr). ws_afterLineNumber x \<le> ws_afterLineNumber y"
    unfolding by_line_def map_append sorted_append by auto
  moreover have "\<forall>x \<in> set (take i arr). ws_afterLineNumber x \<le> ws_afterLineNumber w"
    using assms(3) by (auto simp: in_set_conv_nth)
  moreover have "\<forall>y \<in> set (drop i arr). ws_afterLineNumber w \<le> ws_afterLineNumber y"
    using assms(4) by (auto simp: in_set_conv_nth)
  ultimately show ?thesis by (auto simp: by_line_def arr_splice_def sorted_append)
qed

lemma by_line_removed: "by_line arr \<Longrightarrow> by_line (arr_splice arr i 1 [])"
proof -
  assume "by_line arr"
  then have "sorted (map ws_afterLineNumber (take i arr) @ map ws_afterLineNumber (drop i arr))"
    unfolding by_line_def by (simp flip: map_append)
  moreover have "sorted (map ws_afterLineNumber (drop (Suc i) arr))" using \<open>by_line arr\<close> by (simp add: by_line_def sorted_wrt_drop flip: drop_map)
  moreover have "set (drop (Suc i) arr) \<subseteq> set (drop i arr)" by (rule set_drop_subset_set_drop) simp
  ultimately show ?thesis unfolding by_line_def arr_splice_def sorted_append by (auto simp: sorted_append)
qed

lemma insertWhitespace_ok:
  assumes "by_line (ll_arr this)" "sums_ok (ll_arr this) (ll_prefixSumValidIndex this)"
  shows "by_line (ll_arr (LinesLayout_insertWhitespace w this))"
    "sums_ok (ll_arr (LinesLayout_insertWhitespace w this)) (ll_prefixSumValidIndex (LinesLayout_insertWhitespace w this))"
    "mset (ll_arr (LinesLayout_insertWhitespace w this)) = add_mset w (mset (ll_arr this))"
proof -
  let ?i = "LinesLayout_findInsertionIndex (ll_arr this) (ws_afterLineNumber w) (ws_ordinal w)"
  note i = findInsertionIndex_by_line [OF assms(1), where a = "ws_afterLineNumber w" and ordinal = "ws_ordinal w"]
  show "by_line (ll_arr (LinesLayout_insertWhitespace w this))"
    using by_line_splice [OF assms(1) i] by (simp add: LinesLayout_insertWhitespace_def Let_def)
  have "take ?i (arr_splice (ll_arr this) ?i 0 [w]) = take ?i (ll_arr this)" using i(1) by (simp add: arr_splice_def)
  then show "sums_ok (ll_arr (LinesLayout_insertWhitespace w this)) (ll_prefixSumValidIndex (LinesLayout_insertWhitespace w this))"
    using sums_ok_prefix [OF assms(2), of ?i] i(1) by (simp add: LinesLayout_insertWhitespace_def Let_def length_arr_splice)
  show "mset (ll_arr (LinesLayout_insertWhitespace w this)) = add_mset w (mset (ll_arr this))"
    by (simp add: LinesLayout_insertWhitespace_def Let_def arr_splice_def) (simp only: mset_append [symmetric] append_take_drop_id)
qed

lemma removeWhitespace_ok:
  assumes "by_line (ll_arr this)" "sums_ok (ll_arr this) (ll_prefixSumValidIndex this)" "i < length (ll_arr this)"
  shows "by_line (ll_arr (LinesLayout_removeWhitespace (int i) this))"
    "sums_ok (ll_arr (LinesLayout_removeWhitespace (int i) this)) (ll_prefixSumValidIndex (LinesLayout_removeWhitespace (int i) this))"
    "add_mset (ll_arr this ! i) (mset (ll_arr (LinesLayout_removeWhitespace (int i) this))) = mset (ll_arr this)"
proof -
  show "by_line (ll_arr (LinesLayout_removeWhitespace (int i) this))"
    using by_line_removed [OF assms(1)] by (simp add: LinesLayout_removeWhitespace_def)
  have "take i (arr_splice (ll_arr this) i 1 []) = take i (ll_arr this)" using assms(3) by (simp add: arr_splice_def)
  then show "sums_ok (ll_arr (LinesLayout_removeWhitespace (int i) this)) (ll_prefixSumValidIndex (LinesLayout_removeWhitespace (int i) this))"
    using sums_ok_prefix [OF assms(2), of i] assms(3) by (simp add: LinesLayout_removeWhitespace_def arr_splice_def)
  have "mset (ll_arr this) = mset (take i (ll_arr this) @ ll_arr this ! i # drop (Suc i) (ll_arr this))"
    using id_take_nth_drop [OF assms(3)] by simp
  then show "add_mset (ll_arr this ! i) (mset (ll_arr (LinesLayout_removeWhitespace (int i) this))) = mset (ll_arr this)"
    by (simp add: LinesLayout_removeWhitespace_def arr_splice_def)
qed

lemma findWhitespaceIndex_loop_cases:
  "findWhitespaceIndex_loop wid ws i = - 1 \<and> wid \<notin> ws_id ` set ws \<or>
   (\<exists>k < length ws. findWhitespaceIndex_loop wid ws i = i + int k \<and> ws_id (ws ! k) = wid)"
proof (induction ws arbitrary: i)
  case (Cons w ws)
  show ?case
  proof (cases "ws_id w = wid")
    case True
    then show ?thesis by (intro disjI2 exI [of _ 0]) simp
  next
    case False
    from Cons [of "i + 1"] show ?thesis
    proof
      assume "\<exists>k < length ws. findWhitespaceIndex_loop wid ws (i + 1) = i + 1 + int k \<and> ws_id (ws ! k) = wid"
      then obtain k where "k < length ws" "findWhitespaceIndex_loop wid ws (i + 1) = i + 1 + int k" "ws_id (ws ! k) = wid" by blast
      then show ?thesis using False by (intro disjI2 exI [of _ "Suc k"]) simp
    qed (use False in auto)
  qed
qed simp

lemma findWhitespaceIndex_cases:
  obtains "LinesLayout_findWhitespaceIndex wid this = - 1" "wid \<notin> ws_id ` set (ll_arr this)"
  | k where "k < length (ll_arr this)" "LinesLayout_findWhitespaceIndex wid this = int k" "ws_id (ll_arr this ! k) = wid"
  using findWhitespaceIndex_loop_cases [of wid "ll_arr this" 0] by (auto simp: LinesLayout_findWhitespaceIndex_def)

text \<open>The change of one whitespace, and of all.\<close>

definition change_to :: "number \<Rightarrow> number \<Rightarrow> EditorWhitespace \<Rightarrow> EditorWhitespace" where
  "change_to a h w = w\<lparr>ws_afterLineNumber := a, ws_height := h\<rparr>"

lemma change_to_parts:
  "w\<lparr>ws_height := h, ws_afterLineNumber := a\<rparr> = change_to a h w" "w\<lparr>ws_afterLineNumber := a\<rparr> = change_to a (ws_height w) w"
    "change_to a h (w\<lparr>ws_height := g\<rparr>) = change_to a h w"
  by (simp_all add: change_to_def)

lemma distinct_update_one:
  assumes "distinct (map ws_id arr)" "k < length arr"
  shows "map (\<lambda>w. if ws_id w = ws_id (arr ! k) then f w else w) arr = arr[k := f (arr ! k)]"
proof (rule nth_equalityI)
  fix j assume "j < length (map (\<lambda>w. if ws_id w = ws_id (arr ! k) then f w else w) arr)"
  then show "map (\<lambda>w. if ws_id w = ws_id (arr ! k) then f w else w) arr ! j = arr[k := f (arr ! k)] ! j"
    using assms nth_eq_iff_index_eq [OF assms(1), of j k] by (auto simp: nth_list_update)
qed simp

lemma changeOneWhitespace_ok:
  fixes wid :: jsstring and a h :: number
  assumes b: "by_line (ll_arr this)" and s: "sums_ok (ll_arr this) (ll_prefixSumValidIndex this)" and d: "distinct (map ws_id (ll_arr this))"
  defines "this' \<equiv> LinesLayout_changeOneWhitespace wid a h this"
  shows "by_line (ll_arr this')" "sums_ok (ll_arr this') (ll_prefixSumValidIndex this')"
    "mset (ll_arr this') = mset (map (\<lambda>w. if ws_id w = wid then change_to a h w else w) (ll_arr this))"
proof -
  have "by_line (ll_arr this') \<and> sums_ok (ll_arr this') (ll_prefixSumValidIndex this') \<and>
    mset (ll_arr this') = mset (map (\<lambda>w. if ws_id w = wid then change_to a h w else w) (ll_arr this))"
  proof (cases wid this rule: findWhitespaceIndex_cases)
    case 1
    then have "this' = this" by (simp add: this'_def LinesLayout_changeOneWhitespace_def Let_def)
    moreover have "map (\<lambda>w. if ws_id w = wid then change_to a h w else w) (ll_arr this) = ll_arr this"
      using 1(2) by (intro map_idI) (auto simp: image_iff)
    ultimately show ?thesis using b s by simp
  next
    case (2 k)
    define w where "w = ll_arr this ! k"
    define this1 where "this1 = (if ws_height w \<noteq> h then this\<lparr>ll_arr := (ll_arr this)[k := w\<lparr>ws_height := h\<rparr>],
        ll_prefixSumValidIndex := min (ll_prefixSumValidIndex this) (int k - 1)\<rparr> else this)"
    have arr1: "ll_arr this1 = (ll_arr this)[k := w\<lparr>ws_height := h\<rparr>]" using 2(1) by (auto simp: this1_def w_def)
    have lines: "map ws_afterLineNumber (ll_arr this1) = map ws_afterLineNumber (ll_arr this)"
      using 2(1) by (simp add: arr1 map_update w_def list_update_same_conv)
    have b1: "by_line (ll_arr this1)" using b lines by (simp add: by_line_def)
    have s1: "sums_ok (ll_arr this1) (ll_prefixSumValidIndex this1)"
      using sums_ok_prefix [OF s, of k "(ll_arr this)[k := w\<lparr>ws_height := h\<rparr>]"] s 2(1) by (simp add: this1_def)
    have target: "map (\<lambda>w. if ws_id w = wid then change_to a h w else w) (ll_arr this) = (ll_arr this)[k := change_to a h w]"
      using distinct_update_one [OF d 2(1), of "change_to a h"] 2(3) by (simp add: w_def)
    have this': "this' = (if ws_afterLineNumber w \<noteq> a
        then LinesLayout_insertWhitespace (change_to a h w) (LinesLayout_removeWhitespace (int k) this1) else this1)"
      using 2 by (simp add: this'_def LinesLayout_changeOneWhitespace_def Let_def this1_def w_def change_to_parts)
    show ?thesis
    proof (cases "ws_afterLineNumber w = a")
      case True
      then have "change_to a h w = w\<lparr>ws_height := h\<rparr>" by (simp add: change_to_def)
      then show ?thesis using True b1 s1 by (simp add: this' target arr1)
    next
      case False
      have k1: "k < length (ll_arr this1)" using 2(1) by (simp add: arr1)
      note r = removeWhitespace_ok [OF b1 s1 k1]
      have "add_mset (w\<lparr>ws_height := h\<rparr>) (mset ((ll_arr this)[k := change_to a h w])) = add_mset (change_to a h w) (mset (ll_arr this1))"
        using 2(1) by (simp add: arr1 mset_update)
      also have "\<dots> = add_mset (w\<lparr>ws_height := h\<rparr>) (add_mset (change_to a h w) (mset (ll_arr (LinesLayout_removeWhitespace (int k) this1))))"
        using r(3) 2(1) by (simp add: arr1)
      finally show ?thesis using insertWhitespace_ok [OF r(1,2), of "change_to a h w"] False by (simp add: this' target)
    qed
  qed
  then show "by_line (ll_arr this')" "sums_ok (ll_arr this') (ll_prefixSumValidIndex this')"
    "mset (ll_arr this') = mset (map (\<lambda>w. if ws_id w = wid then change_to a h w else w) (ll_arr this))" by auto
qed

section \<open>Committing\<close>

text \<open>What the pending changes make of the whitespaces, before they are put in order.\<close>

definition changed_whitespaces :: "PendingChanges \<Rightarrow> EditorWhitespace list \<Rightarrow> EditorWhitespace list" where
  "changed_whitespaces p arr = applyRemoveAndChange (set (pd_removes p)) (pending_changes (pd_changes p)) (arr @ pd_inserts p)"

lemma applyRemoveAndChange_append:
  "applyRemoveAndChange R C (xs @ ys) = applyRemoveAndChange R C xs @ applyRemoveAndChange R C ys"
  by (simp add: applyRemoveAndChange_def)

lemma max_width_Max: "max_width ws = Max (insert 0 (ws_minWidth ` set ws))"
proof -
  have flip: "(\<lambda>w m. max m (ws_minWidth w)) = (\<lambda>w. max (ws_minWidth w))" by (simp add: fun_eq_iff max.commute)
  show ?thesis using Max.set_eq_fold [of 0 "map ws_minWidth ws"] by (simp add: max_width_def fold_map comp_def flip)
qed

lemma max_width_mset:
  assumes "mset (map ws_minWidth xs) = mset (map ws_minWidth ys)"
  shows "max_width xs = max_width ys"
  using mset_eq_setD [OF assms] by (simp add: max_width_Max)

lemma one_of_three:
  assumes "length inserts + length changes + length removes \<le> 1"
  obtains "inserts = []" "changes = []" "removes = []" | w where "inserts = [w]" "changes = []" "removes = []"
  | c where "inserts = []" "changes = [c]" "removes = []" | r where "inserts = []" "changes = []" "removes = [r]"
  using assms by (cases inserts; cases changes; cases removes) auto

lemma apply_nothing [simp]: "applyRemoveAndChange {} (\<lambda>_. None) ws = ws" "pending_changes [] = (\<lambda>_. None)"
  by (simp_all add: applyRemoveAndChange_def pending_changes_def)

lemma apply_one_change:
  "applyRemoveAndChange {} (pending_changes [c]) ws = map (\<lambda>w. if ws_id w = pc_id c then change_to (pc_newAfterLineNumber c) (pc_newHeight c) w else w) ws"
  by (simp add: applyRemoveAndChange_def pending_changes_def change_to_def)

lemma apply_one_remove:
  assumes "distinct (map ws_id arr)" "k < length arr"
  shows "applyRemoveAndChange {ws_id (arr ! k)} (\<lambda>_. None) arr = arr_splice arr k 1 []"
proof -
  have split: "arr = take k arr @ arr ! k # drop (Suc k) arr" using id_take_nth_drop [OF assms(2)] .
  have "filter (\<lambda>w. ws_id w \<noteq> ws_id (arr ! k)) (take k arr @ arr ! k # drop (Suc k) arr) = take k arr @ drop (Suc k) arr"
  proof -
    have "distinct (map ws_id (take k arr @ arr ! k # drop (Suc k) arr))" using assms(1) split by simp
    then have "ws_id (arr ! k) \<notin> ws_id ` set (take k arr)" "ws_id (arr ! k) \<notin> ws_id ` set (drop (Suc k) arr)" by auto
    then have "filter (\<lambda>w. ws_id w \<noteq> ws_id (arr ! k)) (take k arr) = take k arr"
      "filter (\<lambda>w. ws_id w \<noteq> ws_id (arr ! k)) (drop (Suc k) arr) = drop (Suc k) arr"
      unfolding filter_id_conv by (auto simp: image_iff)
    then show ?thesis by simp
  qed
  then show ?thesis using split by (simp add: applyRemoveAndChange_def arr_splice_def)
qed

lemma commitPendingChanges_ok:
  fixes inserts :: "EditorWhitespace list" and changes :: "IPendingChange list" and removes :: "jsstring list"
  assumes b: "by_line (ll_arr this)" and s: "sums_ok (ll_arr this) (ll_prefixSumValidIndex this)" and d: "distinct (map ws_id (ll_arr this))"
  defines "this' \<equiv> LinesLayout_commitPendingChanges inserts changes removes this"
  shows "by_line (ll_arr this')" "sums_ok (ll_arr this') (ll_prefixSumValidIndex this')"
    "mset (ll_arr this') = mset (applyRemoveAndChange (set removes) (pending_changes changes) (ll_arr this @ inserts))"
proof -
  define this1 where "this1 = (if length inserts > 0 \<or> length removes > 0 then this\<lparr>ll_minWidth := - 1\<rparr> else this)"
  have b1: "by_line (ll_arr this1)" and s1: "sums_ok (ll_arr this1) (ll_prefixSumValidIndex this1)" and d1: "distinct (map ws_id (ll_arr this1))"
    and arr1: "ll_arr this1 = ll_arr this"
    using b s d by (simp_all add: this1_def)
  have "by_line (ll_arr this') \<and> sums_ok (ll_arr this') (ll_prefixSumValidIndex this') \<and>
    mset (ll_arr this') = mset (applyRemoveAndChange (set removes) (pending_changes changes) (ll_arr this1 @ inserts))"
  proof (cases "length inserts + length changes + length removes \<le> 1")
    case True
    have this': "this' = fold (\<lambda>wid this. let index = LinesLayout_findWhitespaceIndex wid this
        in if index = - 1 then this else LinesLayout_removeWhitespace index this) removes
      (fold (\<lambda>c. LinesLayout_changeOneWhitespace (pc_id c) (pc_newAfterLineNumber c) (pc_newHeight c)) changes
        (fold LinesLayout_insertWhitespace inserts this1))"
      using True unfolding this'_def LinesLayout_commitPendingChanges_def this1_def Let_def by (simp only: if_True)
    from True show ?thesis
    proof (cases rule: one_of_three)
      case 1
      then show ?thesis using b1 s1 by (simp add: this')
    next
      case (2 w)
      then show ?thesis using insertWhitespace_ok [OF b1 s1, of w] by (simp add: this')
    next
      case (3 c)
      then show ?thesis using changeOneWhitespace_ok [OF b1 s1 d1, of "pc_id c" "pc_newAfterLineNumber c" "pc_newHeight c"]
        by (simp add: this' apply_one_change)
    next
      case (4 r)
      show ?thesis
      proof (cases r this1 rule: findWhitespaceIndex_cases)
        case 1
        then have "filter (\<lambda>w. ws_id w \<noteq> r) (ll_arr this1) = ll_arr this1" unfolding filter_id_conv by (auto simp: image_iff)
        then show ?thesis using 1 4 b1 s1 by (simp add: this' Let_def applyRemoveAndChange_def)
      next
        case (2 k)
        then show ?thesis using 4 removeWhitespace_ok [OF b1 s1 2(1)] apply_one_remove [OF d1 2(1)]
          by (simp add: this' Let_def) (simp add: LinesLayout_removeWhitespace_def)
      qed
    qed
  next
    case False
    then have "this' = this1\<lparr>ll_arr := js_sort compareWhitespace
        (applyRemoveAndChange (set removes) (pending_changes changes) (ll_arr this1 @ inserts)), ll_prefixSumValidIndex := - 1\<rparr>"
      unfolding this'_def LinesLayout_commitPendingChanges_def this1_def Let_def applyRemoveAndChange_append by (simp only: if_False)
    then show ?thesis by (simp add: by_line_js_sort sums_ok_none)
  qed
  then show "by_line (ll_arr this')" "sums_ok (ll_arr this') (ll_prefixSumValidIndex this')"
    "mset (ll_arr this') = mset (applyRemoveAndChange (set removes) (pending_changes changes) (ll_arr this @ inserts))"
    by (simp_all add: arr1)
qed

text \<open>Committing leaves the other fields; \<open>_minWidth\<close> is reset whenever whitespaces come or go.\<close>

lemma insert_sel [simp]:
  "ll_instanceId (LinesLayout_insertWhitespace w this) = ll_instanceId this" "ll_pendingChanges (LinesLayout_insertWhitespace w this) = ll_pendingChanges this"
  "ll_lastWhitespaceId (LinesLayout_insertWhitespace w this) = ll_lastWhitespaceId this" "ll_minWidth (LinesLayout_insertWhitespace w this) = ll_minWidth this"
  "ll_lineCount (LinesLayout_insertWhitespace w this) = ll_lineCount this" "ll_lineHeight (LinesLayout_insertWhitespace w this) = ll_lineHeight this"
  "ll_paddingTop (LinesLayout_insertWhitespace w this) = ll_paddingTop this" "ll_paddingBottom (LinesLayout_insertWhitespace w this) = ll_paddingBottom this"
  by (simp_all add: LinesLayout_insertWhitespace_def Let_def)

lemma remove_sel [simp]:
  "ll_instanceId (LinesLayout_removeWhitespace i this) = ll_instanceId this" "ll_pendingChanges (LinesLayout_removeWhitespace i this) = ll_pendingChanges this"
  "ll_lastWhitespaceId (LinesLayout_removeWhitespace i this) = ll_lastWhitespaceId this" "ll_minWidth (LinesLayout_removeWhitespace i this) = ll_minWidth this"
  "ll_lineCount (LinesLayout_removeWhitespace i this) = ll_lineCount this" "ll_lineHeight (LinesLayout_removeWhitespace i this) = ll_lineHeight this"
  "ll_paddingTop (LinesLayout_removeWhitespace i this) = ll_paddingTop this" "ll_paddingBottom (LinesLayout_removeWhitespace i this) = ll_paddingBottom this"
  by (simp_all add: LinesLayout_removeWhitespace_def)

lemma change_sel [simp]:
  "ll_instanceId (LinesLayout_changeOneWhitespace r a h this) = ll_instanceId this" "ll_pendingChanges (LinesLayout_changeOneWhitespace r a h this) = ll_pendingChanges this"
  "ll_lastWhitespaceId (LinesLayout_changeOneWhitespace r a h this) = ll_lastWhitespaceId this" "ll_minWidth (LinesLayout_changeOneWhitespace r a h this) = ll_minWidth this"
  "ll_lineCount (LinesLayout_changeOneWhitespace r a h this) = ll_lineCount this" "ll_lineHeight (LinesLayout_changeOneWhitespace r a h this) = ll_lineHeight this"
  "ll_paddingTop (LinesLayout_changeOneWhitespace r a h this) = ll_paddingTop this" "ll_paddingBottom (LinesLayout_changeOneWhitespace r a h this) = ll_paddingBottom this"
  by (simp_all add: LinesLayout_changeOneWhitespace_def Let_def)

lemma fold_keeps:
  assumes "\<And>x this. f (g x this) = f this"
  shows "f (fold g xs this) = f this"
  by (induction xs arbitrary: this) (simp_all add: assms)

lemma commit_sel [simp]:
  "ll_instanceId (LinesLayout_commitPendingChanges is cs rs this) = ll_instanceId this"
  "ll_pendingChanges (LinesLayout_commitPendingChanges is cs rs this) = ll_pendingChanges this"
  "ll_lastWhitespaceId (LinesLayout_commitPendingChanges is cs rs this) = ll_lastWhitespaceId this"
  "ll_minWidth (LinesLayout_commitPendingChanges is cs rs this) = (if is = [] \<and> rs = [] then ll_minWidth this else - 1)"
  "ll_lineCount (LinesLayout_commitPendingChanges is cs rs this) = ll_lineCount this"
  "ll_lineHeight (LinesLayout_commitPendingChanges is cs rs this) = ll_lineHeight this"
  "ll_paddingTop (LinesLayout_commitPendingChanges is cs rs this) = ll_paddingTop this"
  "ll_paddingBottom (LinesLayout_commitPendingChanges is cs rs this) = ll_paddingBottom this"
  unfolding LinesLayout_commitPendingChanges_def Let_def
  by (simp_all add: fold_keeps [where f = ll_instanceId] fold_keeps [where f = ll_pendingChanges] fold_keeps [where f = ll_lastWhitespaceId]
      fold_keeps [where f = ll_minWidth] fold_keeps [where f = ll_lineCount] fold_keeps [where f = ll_lineHeight]
      fold_keeps [where f = ll_paddingTop] fold_keeps [where f = ll_paddingBottom])

lemma ids_of_changed: "map ws_id (applyRemoveAndChange R C ws) = filter (\<lambda>wid. wid \<notin> R) (map ws_id ws)"
  by (induction ws) (auto simp: applyRemoveAndChange_def split: option.splits)

lemma widths_of_changed: "map ws_minWidth (applyRemoveAndChange {} C ws) = map ws_minWidth ws"
  by (induction ws) (auto simp: applyRemoveAndChange_def split: option.splits)

lemma commit_ok:
  assumes ok: "layout_ok this" and p: "pd_hasPending (ll_pendingChanges this)"
  shows "layout_ok (PendingChanges_commit this)"
    "mset (ll_arr (PendingChanges_commit this)) = mset (changed_whitespaces (ll_pendingChanges this) (ll_arr this))"
proof -
  let ?p = "ll_pendingChanges this" and ?L = "this\<lparr>ll_pendingChanges := new_PendingChanges\<rparr>"
  have d: "distinct (map ws_id (ll_arr this @ pd_inserts ?p))" and i: "set (map ws_id (ll_arr this @ pd_inserts ?p)) \<subseteq> issued this"
    using ok by (auto simp: layout_ok_def Let_def)
  have commit: "PendingChanges_commit this = LinesLayout_commitPendingChanges (pd_inserts ?p) (pd_changes ?p) (pd_removes ?p) ?L"
    using p by (simp add: PendingChanges_commit_def Let_def)
  have "by_line (ll_arr ?L)" "sums_ok (ll_arr ?L) (ll_prefixSumValidIndex ?L)" "distinct (map ws_id (ll_arr ?L))"
    using ok d by (simp_all add: layout_ok_def)
  note c = commitPendingChanges_ok [OF this, of "pd_inserts ?p" "pd_changes ?p" "pd_removes ?p", folded commit]
  show m: "mset (ll_arr (PendingChanges_commit this)) = mset (changed_whitespaces ?p (ll_arr this))"
    using c(3) by (simp add: changed_whitespaces_def)
  have ids: "mset (map ws_id (ll_arr (PendingChanges_commit this))) = mset (filter (\<lambda>wid. wid \<notin> set (pd_removes ?p)) (map ws_id (ll_arr this @ pd_inserts ?p)))"
    using arg_cong [OF m, of "image_mset ws_id"] unfolding changed_whitespaces_def mset_map [symmetric] ids_of_changed .
  have "distinct (map ws_id (ll_arr (PendingChanges_commit this)))"
    using mset_eq_imp_distinct_iff [OF ids] distinct_filter [OF d] by blast
  moreover have "set (map ws_id (ll_arr (PendingChanges_commit this))) \<subseteq> issued this" using mset_eq_setD [OF ids] i by auto
  moreover have "issued (PendingChanges_commit this) = issued this" by (simp add: issued_def commit)
  moreover have "ll_minWidth (PendingChanges_commit this) = - 1 \<or> ll_minWidth (PendingChanges_commit this) = max_width (ll_arr (PendingChanges_commit this))"
  proof (cases "pd_inserts ?p = [] \<and> pd_removes ?p = []")
    case True
    then have "changed_whitespaces ?p (ll_arr this) = applyRemoveAndChange {} (pending_changes (pd_changes ?p)) (ll_arr this)"
      by (simp add: changed_whitespaces_def)
    with m have "mset (map ws_minWidth (ll_arr (PendingChanges_commit this))) = mset (map ws_minWidth (applyRemoveAndChange {} (pending_changes (pd_changes ?p)) (ll_arr this)))"
      by (simp only: mset_map)
    then have "max_width (ll_arr (PendingChanges_commit this)) = max_width (ll_arr this)"
      unfolding widths_of_changed by (rule max_width_mset)
    moreover have "ll_minWidth (PendingChanges_commit this) = ll_minWidth this" using True by (simp add: commit)
    ultimately show ?thesis using ok by (simp add: layout_ok_def)
  qed (auto simp: commit)
  moreover have "0 \<le> ll_lastWhitespaceId this" using ok by (simp add: layout_ok_def)
  ultimately show "layout_ok (PendingChanges_commit this)"
    using c(1,2) by (simp add: layout_ok_def commit new_PendingChanges_def pending_ok_def)
qed

lemma check_ok:
  assumes "layout_ok this"
  shows "layout_ok (LinesLayout_checkPendingChanges this)" "\<not> pd_hasPending (ll_pendingChanges (LinesLayout_checkPendingChanges this))"
    "mset (ll_arr (LinesLayout_checkPendingChanges this)) = mset (changed_whitespaces (ll_pendingChanges this) (ll_arr this))"
proof -
  have "\<not> pd_hasPending (ll_pendingChanges (PendingChanges_commit this))"
    by (simp add: PendingChanges_commit_def Let_def new_PendingChanges_def)
  moreover have "changed_whitespaces (ll_pendingChanges this) (ll_arr this) = ll_arr this" if "\<not> pd_hasPending (ll_pendingChanges this)"
    using that assms by (simp add: layout_ok_def pending_ok_def changed_whitespaces_def)
  ultimately show "layout_ok (LinesLayout_checkPendingChanges this)" "\<not> pd_hasPending (ll_pendingChanges (LinesLayout_checkPendingChanges this))"
    "mset (ll_arr (LinesLayout_checkPendingChanges this)) = mset (changed_whitespaces (ll_pendingChanges this) (ll_arr this))"
    using assms commit_ok [OF assms] by (simp_all add: LinesLayout_checkPendingChanges_def PendingChanges_mustCommit_def)
qed

lemma check_none [simp]: "\<not> pd_hasPending (ll_pendingChanges this) \<Longrightarrow> LinesLayout_checkPendingChanges this = this"
  by (simp add: LinesLayout_checkPendingChanges_def PendingChanges_mustCommit_def)

lemma check_sel [simp]:
  "ll_instanceId (LinesLayout_checkPendingChanges this) = ll_instanceId this" "ll_lastWhitespaceId (LinesLayout_checkPendingChanges this) = ll_lastWhitespaceId this"
  "ll_lineCount (LinesLayout_checkPendingChanges this) = ll_lineCount this" "ll_lineHeight (LinesLayout_checkPendingChanges this) = ll_lineHeight this"
  "ll_paddingTop (LinesLayout_checkPendingChanges this) = ll_paddingTop this" "ll_paddingBottom (LinesLayout_checkPendingChanges this) = ll_paddingBottom this"
  by (simp_all add: LinesLayout_checkPendingChanges_def PendingChanges_commit_def Let_def)

section \<open>Reading\<close>

text \<open>
  The whitespaces of a layout, after its pending changes. A reader commits the pending changes and may fill caches, and nothing else.
\<close>

definition whitespaces :: "LinesLayout \<Rightarrow> EditorWhitespace list" where
  "whitespaces this = map strip (ll_arr (LinesLayout_checkPendingChanges this))"

definition reads :: "LinesLayout \<Rightarrow> LinesLayout \<Rightarrow> bool" where
  "reads this this' \<longleftrightarrow>
     layout_ok this' \<and> \<not> pd_hasPending (ll_pendingChanges this') \<and> whitespaces this' = whitespaces this \<and>
     ll_instanceId this' = ll_instanceId this \<and> ll_lastWhitespaceId this' = ll_lastWhitespaceId this \<and>
     ll_lineCount this' = ll_lineCount this \<and> ll_lineHeight this' = ll_lineHeight this \<and>
     ll_paddingTop this' = ll_paddingTop this \<and> ll_paddingBottom this' = ll_paddingBottom this"

definition returns :: "('a \<times> LinesLayout) result \<Rightarrow> 'a \<Rightarrow> LinesLayout \<Rightarrow> bool" where
  "returns r v this \<longleftrightarrow> (\<exists>this'. r = Inr (v, this') \<and> reads this this')"

lemma reads_check: "layout_ok this \<Longrightarrow> reads this (LinesLayout_checkPendingChanges this)"
  using check_ok(1,2) [of this] by (simp add: reads_def whitespaces_def)

lemma reads_trans: "reads a b \<Longrightarrow> reads b c \<Longrightarrow> reads a c"
  by (simp add: reads_def)

lemma returns_trans: "reads a b \<Longrightarrow> returns r v b \<Longrightarrow> returns r v a"
  by (auto simp: returns_def intro: reads_trans)

lemma returns_check: "layout_ok this \<Longrightarrow> (\<And>this'. reads this this' \<Longrightarrow> returns (f this') v this') \<Longrightarrow> returns (f (LinesLayout_checkPendingChanges this)) v this"
  by (rule returns_trans [OF reads_check]) (auto intro: reads_check)

lemma returns_bind:
  assumes "returns r v this" "\<And>this'. reads this this' \<Longrightarrow> returns (f (v, this')) w this'"
  shows "returns (result_bind r f) w this"
proof -
  obtain this1 where this1: "r = Inr (v, this1)" "reads this this1" using assms(1) by (auto simp: returns_def)
  show ?thesis using returns_trans [OF this1(2) assms(2) [OF this1(2)]] this1(1) by simp
qed

lemma returns_map:
  assumes "returns r v this" "\<And>this'. reads this this' \<Longrightarrow> f (v, this') = (w, this')"
  shows "returns (result_map f r) w this"
  using assms by (auto simp: returns_def)

lemma returns_Inr: "reads this this \<Longrightarrow> returns (Inr (v, this)) v this"
  by (auto simp: returns_def)

lemma reads_self: "reads this this' \<Longrightarrow> reads this' this'"
  by (simp add: reads_def)

lemma reads_arr: "reads this this' \<Longrightarrow> map strip (ll_arr this') = whitespaces this"
  unfolding reads_def whitespaces_def by (metis check_none)

section \<open>Accumulated heights\<close>

lemma accumulate_loop_ok:
  assumes "1 \<le> i" "i \<le> int (length arr)" "index < int (length arr)"
    "\<forall>j. int j < i \<longrightarrow> ws_prefixSum (arr ! j) = heights (take (Suc j) arr)"
  shows "\<exists>arr'. accumulate_loop i index arr = Inr arr' \<and> map strip arr' = map strip arr \<and>
    (\<forall>j. int j \<le> max (i - 1) index \<longrightarrow> ws_prefixSum (arr' ! j) = heights (take (Suc j) arr'))"
  using assms
proof (induction i index arr rule: accumulate_loop.induct)
  case (1 i index arr)
  show ?case
  proof (cases "i \<le> index")
    case True
    define n where "n = nat (i - 1)"
    have n: "i = int (Suc n)" "Suc n < length arr" using 1(2,4) True by (simp_all add: n_def)
    then have ni: "nat i = Suc n" by simp
    let ?w = "arr ! Suc n" and ?p = "arr ! n"
    let ?arr = "arr[Suc n := ?w\<lparr>ws_prefixSum := ws_prefixSum ?p + ws_height ?w\<rparr>]"
    have at: "arr_at arr i = Some ?w" "arr_at arr (i - 1) = Some ?p" using arr_at_nat [OF n(2)] arr_at_nat [of n arr] n(2) by (simp_all add: n(1))
    have same: "map strip ?arr = map strip arr" using n(2) by (simp add: map_update strip_def list_update_same_conv)
    have take: "heights (take k ?arr) = heights (take k arr)" for k
      using heights_strip [of "take k ?arr" "take k arr"] same by (simp add: take_map [symmetric])
    have sums: "ws_prefixSum (?arr ! j) = heights (take (Suc j) ?arr)" if "int j < i + 1" for j
    proof (cases "j = Suc n")
      case True
      have "ws_prefixSum ?p = heights (take (Suc n) arr)" using 1(5) n by simp
      then show ?thesis unfolding take using True n(2) by (simp add: heights_take_Suc)
    next
      case False
      then show ?thesis unfolding take using that 1(5) n by simp
    qed
    have eq: "accumulate_loop i index arr = accumulate_loop (i + 1) index ?arr" using True at ni by (subst accumulate_loop.simps) simp
    have "\<exists>arr'. accumulate_loop (i + 1) index ?arr = Inr arr' \<and> map strip arr' = map strip ?arr \<and>
        (\<forall>j. int j \<le> max (i + 1 - 1) index \<longrightarrow> ws_prefixSum (arr' ! j) = heights (take (Suc j) arr'))"
      using 1(1) [OF True refl at, unfolded ni] n sums 1(4) by simp
    then show ?thesis unfolding eq same using True by (auto simp: max_def)
  next
    case False
    then show ?thesis using 1(5) by (subst accumulate_loop.simps) auto
  qed
qed

lemma layout_ok_cache:
  assumes "layout_ok this" "map strip arr = map strip (ll_arr this)" "sums_ok arr valid"
  shows "layout_ok (this\<lparr>ll_arr := arr, ll_prefixSumValidIndex := valid\<rparr>)"
  using assms strip_eqD [OF assms(2)] max_width_eq [of arr "ll_arr this"]
  by (simp add: layout_ok_def by_line_def issued_def Let_def set_map [symmetric] del: set_map)

lemma reads_cache:
  assumes "reads this this'" "map strip arr = map strip (ll_arr this')" "sums_ok arr valid"
  shows "reads this (this'\<lparr>ll_arr := arr, ll_prefixSumValidIndex := valid\<rparr>)"
proof -
  have "whitespaces (this'\<lparr>ll_arr := arr, ll_prefixSumValidIndex := valid\<rparr>) = map strip arr"
    using assms(1) by (simp add: whitespaces_def reads_def)
  then show ?thesis using assms(1,2) reads_arr [OF assms(1)] layout_ok_cache [OF _ assms(2,3)] by (simp add: reads_def)
qed

lemma whitespaces_length: "reads this this' \<Longrightarrow> length (ll_arr this') = length (whitespaces this)"
  using reads_arr [of this this'] by (metis length_map)

lemma getWhitespacesAccumulatedHeight_returns:
  assumes ok: "layout_ok this" and i: "0 \<le> index" "index < int (length (whitespaces this))" "is_int32 index"
  shows "returns (LinesLayout_getWhitespacesAccumulatedHeight index this) (heights (take (nat index + 1) (whitespaces this))) this"
proof -
  define L where "L = LinesLayout_checkPendingChanges this"
  have r: "reads this L" using reads_check [OF ok] by (simp add: L_def)
  then have okL: "layout_ok L" by (simp add: reads_def)
  let ?v = "ll_prefixSumValidIndex L" and ?arr = "ll_arr L"
  have len: "length ?arr = length (whitespaces this)" by (rule whitespaces_length [OF r])
  have s: "- 1 \<le> ?v" "?v < int (length ?arr)" "\<And>j. int j \<le> ?v \<Longrightarrow> ws_prefixSum (?arr ! j) = heights (take (Suc j) ?arr)"
    using okL by (auto simp: layout_ok_def sums_ok_def)
  obtain arr1 start where start: "(if max 0 (?v + 1) = 0 then (case ?arr of [] \<Rightarrow> Inl TypeError | w # ws \<Rightarrow> Inr (w\<lparr>ws_prefixSum := ws_height w\<rparr> # ws, 1))
      else Inr (?arr, max 0 (?v + 1))) = Inr (arr1, start)" "map strip arr1 = map strip ?arr" "1 \<le> start" "start \<le> int (length arr1)"
      "start - 1 = max 0 ?v" "\<forall>j. int j < start \<longrightarrow> ws_prefixSum (arr1 ! j) = heights (take (Suc j) arr1)"
  proof (cases "?v = - 1")
    case True
    obtain w ws where "?arr = w # ws" using i len by (cases ?arr) auto
    then show thesis using True that [of "w\<lparr>ws_prefixSum := ws_height w\<rparr> # ws" 1] by (simp add: strip_def)
  next
    case False
    then show thesis using that [of ?arr "?v + 1"] s by auto
  qed
  have l1: "length arr1 = length ?arr" using start(2) by (metis length_map)
  obtain arr2 where arr2: "accumulate_loop start index arr1 = Inr arr2" "map strip arr2 = map strip arr1"
      "\<forall>j. int j \<le> max (start - 1) index \<longrightarrow> ws_prefixSum (arr2 ! j) = heights (take (Suc j) arr2)"
    using accumulate_loop_ok [OF start(3,4) _ start(6), of index] i len l1 by auto
  have l2: "length arr2 = length ?arr" using arr2(2) l1 by (metis length_map)
  have same: "map strip arr2 = whitespaces this" using arr2(2) start(2) reads_arr [OF r] by simp
  have "sums_ok arr2 (max ?v index)" using arr2(3) start(5) s i len l2 by (auto simp: sums_ok_def)
  then have "reads this (L\<lparr>ll_arr := arr2, ll_prefixSumValidIndex := max ?v index\<rparr>)"
    using reads_cache [OF r] arr2(2) start(2) by simp
  moreover have "ws_prefixSum (arr2 ! nat index) = heights (take (nat index + 1) (whitespaces this))"
  proof -
    have "heights (take (Suc (nat index)) arr2) = heights (take (Suc (nat index)) (whitespaces this))"
      unfolding same [symmetric] take_map by (rule heights_strip) (simp add: strip_def comp_def)
    then show ?thesis using arr2(3) i by simp
  qed
  moreover have "arr_get arr2 index = Inr (arr2 ! nat index)" using i len l2 by (simp add: arr_get_def arr_at_def)
  ultimately show ?thesis
    using start(1) arr2(1) i(3) unfolding LinesLayout_getWhitespacesAccumulatedHeight_def Let_def L_def [symmetric] returns_def by auto
qed

text \<open>The height of the whitespaces above a line, and the vertical offset of a line.\<close>

definition height_above :: "number \<Rightarrow> EditorWhitespace list \<Rightarrow> number" where
  "height_above n ws = heights (filter (\<lambda>w. ws_afterLineNumber w < n) ws)"

definition line_top :: "LinesLayout \<Rightarrow> number \<Rightarrow> number" where
  "line_top this n = ll_lineHeight this * max 0 (n - 1) + height_above n (whitespaces this) + ll_paddingTop this"

definition few :: "LinesLayout \<Rightarrow> bool" where
  "few this \<longleftrightarrow> int (length (whitespaces this)) < 2147483648"

lemma whitespaces_by_line: "layout_ok this \<Longrightarrow> by_line (whitespaces this)"
  using check_ok(1) [of this] by (simp add: layout_ok_def by_line_def whitespaces_def comp_def)

lemma filter_before:
  assumes "by_line ws"
  shows "filter (\<lambda>w. ws_afterLineNumber w < n) ws = take (count_before n ws) ws"
  using assms
proof (induction ws)
  case (Cons w ws)
  have ws: "by_line ws" using Cons.prems by (simp add: by_line_def)
  show ?case
  proof (cases "ws_afterLineNumber w < n")
    case False
    then have "filter (\<lambda>w. ws_afterLineNumber w < n) ws = []" using Cons.prems by (auto simp: by_line_def filter_empty_conv)
    then show ?thesis using False by (simp add: count_before_def)
  qed (use Cons.IH [OF ws] in \<open>simp add: count_before_def\<close>)
qed (simp add: count_before_def)

lemma count_before_strip: "map ws_afterLineNumber xs = map ws_afterLineNumber ys \<Longrightarrow> count_before n xs = count_before n ys"
proof -
  have "count_before n ws = length (takeWhile (\<lambda>a. a < n) (map ws_afterLineNumber ws))" for ws
    by (simp add: count_before_def takeWhile_map comp_def)
  then show "map ws_afterLineNumber xs = map ws_afterLineNumber ys \<Longrightarrow> count_before n xs = count_before n ys" by simp
qed

lemma count_before_le: "count_before n ws \<le> length ws"
  by (simp add: count_before_def length_takeWhile_le)

lemma findLast_reads:
  assumes "reads this this'" "is_int32 n"
  shows "LinesLayout_findLastWhitespaceBeforeLineNumber n this' = int (count_before n (whitespaces this)) - 1"
proof -
  have "map ws_afterLineNumber (ll_arr this') = map ws_afterLineNumber (whitespaces this)"
    using arg_cong [OF reads_arr [OF assms(1)], of "map ws_afterLineNumber"] by (simp add: comp_def)
  moreover have "by_line (ll_arr this')" using assms(1) by (simp add: reads_def layout_ok_def)
  ultimately show ?thesis using findLastWhitespaceBeforeLineNumber_eq [OF _ assms(2), of this'] count_before_strip by metis
qed

lemma few_index: "few this \<Longrightarrow> i < length (whitespaces this) \<Longrightarrow> is_int32 (int i)"
  by (simp add: few_def is_int32_def)

lemma reads_same: "reads this this' \<Longrightarrow> whitespaces this' = whitespaces this" "reads this this' \<Longrightarrow> few this' \<longleftrightarrow> few this"
  "reads this this' \<Longrightarrow> layout_ok this'" "reads this this' \<Longrightarrow> line_top this' = line_top this"
  by (auto simp: reads_def few_def line_top_def fun_eq_iff)

lemma reads_sel:
  "reads this this' \<Longrightarrow> ll_lineCount this' = ll_lineCount this" "reads this this' \<Longrightarrow> ll_lineHeight this' = ll_lineHeight this"
  "reads this this' \<Longrightarrow> ll_paddingTop this' = ll_paddingTop this" "reads this this' \<Longrightarrow> ll_paddingBottom this' = ll_paddingBottom this"
  by (simp_all add: reads_def)

lemma getWhitespaceAccumulatedHeightBeforeLineNumber_returns:
  assumes ok: "layout_ok this" "few this" and n: "is_int32 n"
  shows "returns (LinesLayout_getWhitespaceAccumulatedHeightBeforeLineNumber n this) (height_above n (whitespaces this)) this"
  unfolding LinesLayout_getWhitespaceAccumulatedHeightBeforeLineNumber_def Let_def
proof (rule returns_check [OF ok(1)])
  fix this' assume r: "reads this this'"
  let ?m = "count_before n (whitespaces this)"
  have h: "height_above n (whitespaces this) = heights (take ?m (whitespaces this))"
    using filter_before [OF whitespaces_by_line [OF ok(1)]] by (simp add: height_above_def)
  note f = findLast_reads [OF r n]
  have "returns (LinesLayout_getWhitespacesAccumulatedHeight (int ?m - 1) this') (heights (take ?m (whitespaces this))) this'" if m0: "?m \<noteq> 0"
  proof -
    obtain k where k: "?m = Suc k" using m0 by (cases ?m) auto
    then have k': "k < length (whitespaces this)" using count_before_le [of n "whitespaces this"] by simp
    have "returns (LinesLayout_getWhitespacesAccumulatedHeight (int k) this') (heights (take (nat (int k) + 1) (whitespaces this'))) this'"
      using k' few_index [OF ok(2) k'] reads_same(1,3) [OF r] by (intro getWhitespacesAccumulatedHeight_returns) simp_all
    moreover have "int ?m - 1 = int k" "take (nat (int k) + 1) (whitespaces this') = take ?m (whitespaces this)" using k reads_same(1) [OF r] by simp_all
    ultimately show ?thesis by (simp only:)
  qed
  then show "returns (if LinesLayout_findLastWhitespaceBeforeLineNumber (toInt32 n) this' = - 1 then Inr (0, this')
      else LinesLayout_getWhitespacesAccumulatedHeight (LinesLayout_findLastWhitespaceBeforeLineNumber (toInt32 n) this') this')
      (height_above n (whitespaces this)) this'"
    using f n h returns_Inr [OF reads_self [OF r], of 0] by (cases "?m = 0") simp_all
qed

lemma getVerticalOffsetForLineNumber_returns:
  assumes ok: "layout_ok this" "few this" and n: "is_int32 n" "is_int32 (n - 1)"
  shows "returns (LinesLayout_getVerticalOffsetForLineNumber n zones this)
    (ll_lineHeight this * max 0 (n - 1) + height_above (if zones then n - 1 else n) (whitespaces this) + ll_paddingTop this) this"
  unfolding LinesLayout_getVerticalOffsetForLineNumber_def Let_def
proof (rule returns_check [OF ok(1)])
  fix this' assume r: "reads this this'"
  show "returns (result_map (\<lambda>(h, l). ((if 1 < toInt32 n then ll_lineHeight this' * (toInt32 n - 1) else 0) + h + ll_paddingTop l, l))
      (LinesLayout_getWhitespaceAccumulatedHeightBeforeLineNumber (toInt32 n - (if zones then 1 else 0)) this'))
    (ll_lineHeight this * max 0 (n - 1) + height_above (if zones then n - 1 else n) (whitespaces this) + ll_paddingTop this) this'"
    using getWhitespaceAccumulatedHeightBeforeLineNumber_returns [of this' "n - (if zones then 1 else 0)"] reads_same [OF r] reads_sel [OF r] ok n
    by (intro returns_map [of _ "height_above (if zones then n - 1 else n) (whitespaces this)"]) (auto simp: reads_sel max_def)
qed

lemma line_top_returns:
  assumes "layout_ok this" "few this" "is_int32 n" "is_int32 (n - 1)"
  shows "returns (LinesLayout_getVerticalOffsetForLineNumber n False this) (line_top this n) this"
  using getVerticalOffsetForLineNumber_returns [OF assms, of False] by (simp add: line_top_def)

lemma getVerticalOffsetAfterLineNumber_returns:
  assumes ok: "layout_ok this" "few this" and n: "is_int32 n" "is_int32 (n + 1)"
  shows "returns (LinesLayout_getVerticalOffsetAfterLineNumber n zones this)
    (ll_lineHeight this * n + height_above (if zones then n + 1 else n) (whitespaces this) + ll_paddingTop this) this"
  unfolding LinesLayout_getVerticalOffsetAfterLineNumber_def Let_def
proof (rule returns_check [OF ok(1)])
  fix this' assume r: "reads this this'"
  show "returns (result_map (\<lambda>(h, l). (ll_lineHeight this' * toInt32 n + h + ll_paddingTop l, l))
      (LinesLayout_getWhitespaceAccumulatedHeightBeforeLineNumber (toInt32 n + (if zones then 1 else 0)) this'))
    (ll_lineHeight this * n + height_above (if zones then n + 1 else n) (whitespaces this) + ll_paddingTop this) this'"
    using getWhitespaceAccumulatedHeightBeforeLineNumber_returns [of this' "n + (if zones then 1 else 0)"] reads_same [OF r] reads_sel [OF r] ok n
    by (intro returns_map [of _ "height_above (if zones then n + 1 else n) (whitespaces this)"]) (auto simp: reads_sel)
qed

lemma getWhitespacesTotalHeight_returns:
  assumes ok: "layout_ok this" "few this"
  shows "returns (LinesLayout_getWhitespacesTotalHeight this) (heights (whitespaces this)) this"
  unfolding LinesLayout_getWhitespacesTotalHeight_def Let_def
proof (rule returns_check [OF ok(1)])
  fix this' assume r: "reads this this'"
  show "returns (if length (ll_arr this') = 0 then Inr (0, this') else LinesLayout_getWhitespacesAccumulatedHeight (int (length (ll_arr this')) - 1) this')
      (heights (whitespaces this)) this'"
  proof (cases "whitespaces this = []")
    case True
    then show ?thesis using whitespaces_length [OF r] returns_Inr [OF reads_self [OF r], of 0] by simp
  next
    case False
    then obtain k where k: "length (whitespaces this) = Suc k" by (cases "whitespaces this") auto
    then show ?thesis
      using getWhitespacesAccumulatedHeight_returns [of this' "int k"] few_index [OF ok(2), of k] reads_same [OF r] whitespaces_length [OF r] by simp
  qed
qed

lemma getLinesTotalHeight_returns:
  assumes ok: "layout_ok this" "few this"
  shows "returns (LinesLayout_getLinesTotalHeight this)
    (ll_lineHeight this * ll_lineCount this + heights (whitespaces this) + ll_paddingTop this + ll_paddingBottom this) this"
  unfolding LinesLayout_getLinesTotalHeight_def Let_def
proof (rule returns_check [OF ok(1)])
  fix this' assume r: "reads this this'"
  show "returns (result_map (\<lambda>(h, l). (ll_lineHeight this' * ll_lineCount this' + h + ll_paddingTop l + ll_paddingBottom l, l)) (LinesLayout_getWhitespacesTotalHeight this'))
    (ll_lineHeight this * ll_lineCount this + heights (whitespaces this) + ll_paddingTop this + ll_paddingBottom this) this'"
    using getWhitespacesTotalHeight_returns [of this'] reads_same [OF r] reads_sel [OF r] ok
    by (intro returns_map [of _ "heights (whitespaces this)"]) (auto simp: reads_sel)
qed

lemma whitespace_at_returns:
  assumes ok: "layout_ok this" "few this" and i: "i < length (whitespaces this)" and m: "\<And>w. member (strip w) = member w"
  shows "returns (whitespace_at member (int i) this) (member (whitespaces this ! i)) this"
  unfolding whitespace_at_def Let_def
proof (rule returns_check [OF ok(1)])
  fix this' assume r: "reads this this'"
  have "i < length (ll_arr this')" using whitespaces_length [OF r] i by simp
  moreover from this have "member (whitespaces this ! i) = member (ll_arr this' ! i)" using m by (simp flip: reads_arr [OF r])
  ultimately show "returns (result_map (\<lambda>w. (member w, this')) (arr_get (ll_arr this') (toInt32 (int i)))) (member (whitespaces this ! i)) this'"
    using few_index [OF ok(2) i] returns_Inr [OF reads_self [OF r]] by simp
qed

section \<open>The operations keep the invariant\<close>

text \<open>Decimal representations are different for different numbers, so the ids of whitespaces are.\<close>

definition digits_value :: "jsstring \<Rightarrow> nat" where
  "digits_value ds = foldl (\<lambda>n d. 10 * n + (unat d - 48)) 0 ds"

lemma digits_value_digits: "digits_value (digits_of_nat n) = n"
proof (induction n rule: digits_of_nat.induct)
  case (1 n)
  have digit: "unat (of_nat (48 + d) :: 16 word) = 48 + d" if "d < 10" for d
    using that by (simp only: unat_of_nat) simp
  show ?case
  proof (cases "n < 10")
    case True
    then show ?thesis using digit [of n] by (subst digits_of_nat.simps) (simp add: digits_value_def)
  next
    case False
    then show ?thesis using 1 digit [of "n mod 10"] by (subst digits_of_nat.simps) (simp add: digits_value_def)
  qed
qed

lemma show_number_inj: "0 \<le> m \<Longrightarrow> 0 \<le> n \<Longrightarrow> js_show_number m = js_show_number n \<Longrightarrow> m = n"
  unfolding js_show_number_def by (metis digits_value_digits eq_nat_nat_iff not_less)

lemma fresh_id: "0 \<le> ll_lastWhitespaceId this \<Longrightarrow> ll_instanceId this @ js_show_number (ll_lastWhitespaceId this + 1) \<notin> issued this"
  by (auto simp: issued_def dest: show_number_inj [rotated 2])

lemma new_ok: "layout_ok (fst (new_LinesLayout INSTANCE_COUNT lineCount lineHeight paddingTop paddingBottom))"
  by (simp add: new_LinesLayout_def layout_ok_def by_line_def sums_ok_def pending_ok_def new_PendingChanges_def)

lemma accessor_insert_ok:
  assumes "layout_ok (snd st)"
  shows "layout_ok (snd (snd (accessor_insertWhitespace a ordinal h m st)))"
proof -
  let ?L = "snd st"
  let ?wid = "ll_instanceId ?L @ js_show_number (ll_lastWhitespaceId ?L + 1)"
  have l: "0 \<le> ll_lastWhitespaceId ?L" using assms by (simp add: layout_ok_def)
  note new = fresh_id [OF l]
  have "issued ?L \<subseteq> issued (snd (snd (accessor_insertWhitespace a ordinal h m st)))" "?wid \<in> issued (snd (snd (accessor_insertWhitespace a ordinal h m st)))"
    using l by (auto simp: issued_def accessor_insertWhitespace_def Let_def)
  then show ?thesis using assms new l
    by (auto simp: layout_ok_def Let_def accessor_insertWhitespace_def PendingChanges_insert_def new_EditorWhitespace_def pending_ok_def)
qed

lemma accessor_change_ok: "layout_ok (snd st) \<Longrightarrow> layout_ok (snd (accessor_changeOneWhitespace wid a h st))"
  by (simp add: layout_ok_def Let_def accessor_changeOneWhitespace_def PendingChanges_change_def pending_ok_def issued_def)

lemma accessor_remove_ok: "layout_ok (snd st) \<Longrightarrow> layout_ok (snd (accessor_removeWhitespace wid st))"
  by (simp add: layout_ok_def Let_def accessor_removeWhitespace_def PendingChanges_remove_def pending_ok_def issued_def)

lemma commit_layout_ok: "layout_ok this \<Longrightarrow> layout_ok (PendingChanges_commit this)"
  using commit_ok(1) [of this] by (cases "pd_hasPending (ll_pendingChanges this)") (simp_all add: PendingChanges_commit_def)

lemma after_deletion_mono: "f \<le> t + 1 \<Longrightarrow> a \<le> b \<Longrightarrow> after_deletion f t a \<le> after_deletion f t b"
  by (auto simp: after_deletion_def)

lemma after_insertion_mono: "f \<le> t + 1 \<Longrightarrow> a \<le> b \<Longrightarrow> after_insertion f t a \<le> after_insertion f t b"
  by (auto simp: after_insertion_def)

lemma moved_ok:
  assumes "layout_ok this" "\<And>a b. a \<le> b \<Longrightarrow> f a \<le> f b"
  shows "layout_ok (this\<lparr>ll_lineCount := c, ll_arr := map (ws_afterLineNumber_update f) (ll_arr this)\<rparr>)"
proof -
  have "by_line (map (ws_afterLineNumber_update f) (ll_arr this))"
    using assms by (auto simp: layout_ok_def by_line_nth)
  moreover have "max_width (map (ws_afterLineNumber_update f) (ll_arr this)) = max_width (ll_arr this)"
    by (rule max_width_eq) (simp add: comp_def)
  ultimately show ?thesis using assms(1) by (simp add: layout_ok_def sums_ok_moved Let_def issued_def comp_def image_image)
qed

lemma onLinesDeleted_ok:
  assumes "layout_ok this" "toInt32 f \<le> toInt32 t + 1"
  shows "layout_ok (LinesLayout_onLinesDeleted f t this)"
  unfolding LinesLayout_onLinesDeleted_def Let_def by (rule moved_ok [OF check_ok(1) [OF assms(1)]]) (rule after_deletion_mono [OF assms(2)])

lemma onLinesInserted_ok:
  assumes "layout_ok this" "toInt32 f \<le> toInt32 t + 1"
  shows "layout_ok (LinesLayout_onLinesInserted f t this)"
  unfolding LinesLayout_onLinesInserted_def Let_def by (rule moved_ok [OF check_ok(1) [OF assms(1)]]) (rule after_insertion_mono [OF assms(2)])

lemma layout_ok_params:
  "layout_ok this \<Longrightarrow> layout_ok (this\<lparr>ll_lineHeight := h\<rparr>)" "layout_ok this \<Longrightarrow> layout_ok (this\<lparr>ll_lineCount := n\<rparr>)"
  "layout_ok this \<Longrightarrow> layout_ok (this\<lparr>ll_paddingTop := p, ll_paddingBottom := q\<rparr>)"
  "layout_ok this \<Longrightarrow> layout_ok (this\<lparr>ll_minWidth := max_width (ll_arr this)\<rparr>)"
  by (simp_all add: layout_ok_def Let_def issued_def)

lemma simple_setters_ok:
  assumes "layout_ok this"
  shows "layout_ok (LinesLayout_setLineHeight h this)" "layout_ok (LinesLayout_setPadding p q this)" "layout_ok (LinesLayout_onFlushed n this)"
  using layout_ok_params [OF check_ok(1) [OF assms]] layout_ok_params [OF assms]
  by (simp_all add: LinesLayout_setLineHeight_def LinesLayout_setPadding_def LinesLayout_onFlushed_def)

section \<open>Reachable layouts\<close>

text \<open>
  A callback of \<open>changeWhitespace\<close> calls the accessor a number of times and may throw afterwards. All readers of the layout
  consist of the steps of the last three rules.
\<close>

datatype whitespace_op = Insert_whitespace number number number number | Change_whitespace jsstring number number | Remove_whitespace jsstring

fun accessor_step :: "whitespace_op \<Rightarrow> bool \<times> LinesLayout \<Rightarrow> bool \<times> LinesLayout" where
  "accessor_step (Insert_whitespace a ordinal h m) st = snd (accessor_insertWhitespace a ordinal h m st)"
| "accessor_step (Change_whitespace wid a h) st = accessor_changeOneWhitespace wid a h st"
| "accessor_step (Remove_whitespace wid) st = accessor_removeWhitespace wid st"

inductive layout_step :: "LinesLayout \<Rightarrow> LinesLayout \<Rightarrow> bool" where
  changeWhitespace: "layout_step this (snd (LinesLayout_changeWhitespace (\<lambda>st. (r, fold accessor_step ops st)) this))"
| setLineHeight: "layout_step this (LinesLayout_setLineHeight h this)"
| setPadding: "layout_step this (LinesLayout_setPadding p q this)"
| onFlushed: "layout_step this (LinesLayout_onFlushed n this)"
| onLinesDeleted: "1 \<le> f \<Longrightarrow> f \<le> t \<Longrightarrow> is_int32 t \<Longrightarrow> layout_step this (LinesLayout_onLinesDeleted f t this)"
| onLinesInserted: "1 \<le> f \<Longrightarrow> f \<le> t \<Longrightarrow> is_int32 t \<Longrightarrow> layout_step this (LinesLayout_onLinesInserted f t this)"
| checkPendingChanges: "layout_step this (LinesLayout_checkPendingChanges this)"
| getWhitespacesAccumulatedHeight: "LinesLayout_getWhitespacesAccumulatedHeight index this = Inr (v, this') \<Longrightarrow> layout_step this this'"
| getWhitespaceMinWidth: "layout_step this (snd (LinesLayout_getWhitespaceMinWidth this))"

inductive reachable_layout :: "LinesLayout \<Rightarrow> bool" where
  init: "reachable_layout (fst (new_LinesLayout INSTANCE_COUNT lineCount lineHeight paddingTop paddingBottom))"
| step: "reachable_layout this \<Longrightarrow> layout_step this this' \<Longrightarrow> reachable_layout this'"

lemma accumulate_loop_length: "accumulate_loop i index arr = Inr arr' \<Longrightarrow> length arr' = length arr"
proof (induction i index arr rule: accumulate_loop.induct)
  case (1 i index arr)
  then show ?case by (subst (asm) (2) accumulate_loop.simps) (auto split: if_splits option.splits)
qed

lemma toInt32_idem [simp]: "toInt32 (toInt32 n) = toInt32 n"
  by simp

lemma getWhitespacesAccumulatedHeight_ok:
  assumes ok: "layout_ok this" and r: "LinesLayout_getWhitespacesAccumulatedHeight index this = Inr (v, this')"
  shows "layout_ok this'"
proof -
  define L where "L = LinesLayout_checkPendingChanges this"
  let ?i = "toInt32 index"
  have eq: "LinesLayout_getWhitespacesAccumulatedHeight ?i this = Inr (v, this')"
    using r by (simp add: LinesLayout_getWhitespacesAccumulatedHeight_def)
  define S where "S = (if max 0 (ll_prefixSumValidIndex L + 1) = 0 then (case ll_arr L of [] \<Rightarrow> Inl TypeError | w # ws \<Rightarrow> Inr (w\<lparr>ws_prefixSum := ws_height w\<rparr> # ws, 1))
      else Inr (ll_arr L, max 0 (ll_prefixSumValidIndex L + 1)))"
  obtain x arr2 w where x: "S = Inr x" "accumulate_loop (snd x) ?i (fst x) = Inr arr2" "arr_get arr2 ?i = Inr w"
    using r unfolding LinesLayout_getWhitespacesAccumulatedHeight_def Let_def L_def [symmetric] S_def [symmetric] by (auto simp: split_beta)
  have "length (fst x) = length (ll_arr L)" using x(1) by (auto simp: S_def split: if_splits list.splits)
  then have "0 \<le> ?i" "?i < int (length (ll_arr L))"
    using x(3) accumulate_loop_length [OF x(2)] by (auto simp: arr_get_def arr_at_def split: if_splits)
  then have "0 \<le> ?i" "?i < int (length (whitespaces this))" by (simp_all add: whitespaces_def L_def)
  then have "returns (LinesLayout_getWhitespacesAccumulatedHeight ?i this) (heights (take (nat ?i + 1) (whitespaces this))) this"
    by (rule getWhitespacesAccumulatedHeight_returns [OF ok]) simp
  then show ?thesis unfolding eq returns_def by (auto dest: reads_same(3))
qed

lemma getWhitespaceMinWidth_returns:
  assumes "layout_ok this"
  shows "returns (Inr (LinesLayout_getWhitespaceMinWidth this)) (max_width (whitespaces this)) this"
proof -
  define L where "L = LinesLayout_checkPendingChanges this"
  have r: "reads this L" using reads_check [OF assms] by (simp add: L_def)
  have w: "max_width (whitespaces this) = max_width (ll_arr L)" by (rule max_width_eq) (simp add: whitespaces_def L_def comp_def)
  have "whitespaces (L\<lparr>ll_minWidth := max_width (ll_arr L)\<rparr>) = whitespaces this"
    using r reads_arr [OF r] by (simp add: whitespaces_def reads_def)
  then have "reads this (L\<lparr>ll_minWidth := max_width (ll_arr L)\<rparr>)"
    using r layout_ok_params(4) [of L] by (simp add: reads_def)
  moreover have "ll_minWidth L = max_width (ll_arr L)" if "ll_minWidth L \<noteq> - 1" using that r by (simp add: reads_def layout_ok_def)
  ultimately show ?thesis
    using r w unfolding LinesLayout_getWhitespaceMinWidth_def Let_def L_def [symmetric] by (auto simp: returns_def max_width_def)
qed

lemma accessor_steps_ok: "layout_ok (snd st) \<Longrightarrow> layout_ok (snd (fold accessor_step ops st))"
proof (induction ops arbitrary: st)
  case (Cons op ops)
  have "layout_ok (snd (accessor_step op st))"
    using Cons.prems accessor_insert_ok accessor_change_ok accessor_remove_ok by (cases op) simp_all
  then show ?case using Cons.IH by simp
qed simp

lemma accessor_step_arr: "ll_arr (snd (accessor_step op st)) = ll_arr (snd st)" "fst (accessor_step op st)"
  by (cases op; simp add: accessor_insertWhitespace_def accessor_changeOneWhitespace_def accessor_removeWhitespace_def Let_def)+

lemma layout_step_ok: "layout_step this this' \<Longrightarrow> layout_ok this \<Longrightarrow> layout_ok this'"
proof (induction rule: layout_step.induct)
  case (changeWhitespace this r ops)
  then show ?case using accessor_steps_ok [of "(False, this)" ops]
    by (auto simp: LinesLayout_changeWhitespace_def commit_layout_ok split: prod.splits)
next
  case (onLinesDeleted f t this)
  then show ?case by (intro onLinesDeleted_ok) (simp_all add: is_int32_def)
next
  case (onLinesInserted f t this)
  then show ?case by (intro onLinesInserted_ok) (simp_all add: is_int32_def)
next
  case (getWhitespaceMinWidth this)
  then show ?case using getWhitespaceMinWidth_returns [of this] by (auto simp: returns_def dest: reads_same(3))
qed (simp_all add: simple_setters_ok check_ok getWhitespacesAccumulatedHeight_ok)

lemma reachable_ok: "reachable_layout this \<Longrightarrow> layout_ok this"
  by (induction rule: reachable_layout.induct) (auto simp: new_ok dest: layout_step_ok)

text \<open>
  C15. The state of a layout is always consistent. In every layout that changes of whitespaces, insertions and deletions of lines, changes of the
  parameters and readers can lead to, the whitespaces are in the order of their lines and have different ids, the cached sums up to
  the valid index are the heights of the whitespaces up to there, and \<open>getWhitespaceMinWidth\<close> returns the greatest width.
\<close>
theorem LinesLayout_invariant:
  assumes "reachable_layout this"
  shows "sorted (map ws_afterLineNumber (whitespaces this)) \<and> distinct (map ws_id (whitespaces this)) \<and>
    (\<forall>i. int i \<le> ll_prefixSumValidIndex this \<longrightarrow> i < length (ll_arr this) \<and> ws_prefixSum (ll_arr this ! i) = heights (take (Suc i) (ll_arr this))) \<and>
    fst (LinesLayout_getWhitespaceMinWidth this) = Max (insert 0 (ws_minWidth ` set (whitespaces this)))"
proof -
  note ok = reachable_ok [OF assms]
  have "distinct (map ws_id (ll_arr (LinesLayout_checkPendingChanges this)))"
    using check_ok(1) [OF ok] by (simp add: layout_ok_def Let_def)
  then have "distinct (map ws_id (whitespaces this))" by (simp add: whitespaces_def comp_def)
  moreover have "fst (LinesLayout_getWhitespaceMinWidth this) = Max (insert 0 (ws_minWidth ` set (whitespaces this)))"
    using getWhitespaceMinWidth_returns [OF ok] max_width_Max by (auto simp: returns_def)
  ultimately show ?thesis using whitespaces_by_line [OF ok] ok by (auto simp: by_line_def layout_ok_def sums_ok_def)
qed

theorem LinesLayout_invariant_witness:
  "reachable_layout (fst (new_LinesLayout 0 10 20 5 5)) \<and> distinct (map ws_id (whitespaces (fst (new_LinesLayout 0 10 20 5 5))))"
  using LinesLayout_invariant [OF reachable_layout.init [of 0 10 20 5 5]] reachable_layout.init [of 0 10 20 5 5] by blast



text \<open>
  C17. The vertical offset of a line is the height of the lines above it, the heights of all whitespaces that come after one of these lines (or before the
  first line) and the padding; \<open>includeViewZones\<close> leaves out the whitespaces directly above the line, or counts those directly below it. The
  total height is that of all lines and whitespaces and of the padding. No reader throws, and none changes what another one returns.
\<close>
theorem vertical_offsets_are_heights_above:
  assumes "reachable_layout this" "int (length (whitespaces this)) < 2147483648" "0 < n" "n < 2147483647"
  shows "returns (LinesLayout_getVerticalOffsetForLineNumber n zones this)
      (ll_lineHeight this * (n - 1) + heights (filter (\<lambda>w. ws_afterLineNumber w < (if zones then n - 1 else n)) (whitespaces this)) + ll_paddingTop this) this \<and>
    returns (LinesLayout_getVerticalOffsetAfterLineNumber n zones this)
      (ll_lineHeight this * n + heights (filter (\<lambda>w. ws_afterLineNumber w < (if zones then n + 1 else n)) (whitespaces this)) + ll_paddingTop this) this \<and>
    returns (LinesLayout_getLinesTotalHeight this)
      (ll_lineHeight this * ll_lineCount this + heights (whitespaces this) + ll_paddingTop this + ll_paddingBottom this) this"
  using getVerticalOffsetForLineNumber_returns [OF reachable_ok [OF assms(1)], of n zones] getLinesTotalHeight_returns [OF reachable_ok [OF assms(1)]]
    getVerticalOffsetAfterLineNumber_returns [OF reachable_ok [OF assms(1)], of n zones] assms(2-4)
  by (simp add: few_def is_int32_def height_above_def)

theorem vertical_offsets_are_heights_above_witness:
  "returns (LinesLayout_getVerticalOffsetForLineNumber 3 False (fst (new_LinesLayout 0 10 20 5 5))) 45 (fst (new_LinesLayout 0 10 20 5 5))"
  using vertical_offsets_are_heights_above [OF reachable_layout.init [of 0 10 20 5 5], of 3 False]
  by (simp add: new_LinesLayout_def whitespaces_def new_PendingChanges_def)

text \<open>
  C19. Whitespaces stay with their lines. When lines are inserted, lines before them keep their offset and lines after them move down by the height of the
  inserted lines; the whitespaces around the place stay above the first inserted line or below the last one. When lines are deleted, the lines after them
  move up by the height of the deleted lines, and the whitespaces between those are kept.
\<close>
theorem editing_lines_shifts_offsets:
  assumes "reachable_layout this" "1 \<le> f" "f \<le> t" "t < 2147483648"
  shows "line_top (LinesLayout_onLinesInserted f t this) n =
      (if n < f then line_top this n
       else if n \<le> t then line_top this f + (n - f) * ll_lineHeight this
       else line_top this (n - (t - f + 1)) + (t - f + 1) * ll_lineHeight this) \<and>
    line_top (LinesLayout_onLinesDeleted f t this) n =
      (if n < f then line_top this n else line_top this (n + (t - f + 1)) - (t - f + 1) * ll_lineHeight this)"
proof -
  define L where "L = LinesLayout_checkPendingChanges this"
  have i: "toInt32 f = f" "toInt32 t = t" using assms(2-4) by (simp_all add: is_int32_def)
  have none: "\<not> pd_hasPending (ll_pendingChanges L)" using check_ok(2) [OF reachable_ok [OF assms(1)]] by (simp add: L_def)
  have h: "height_above m (whitespaces (L\<lparr>ll_lineCount := c, ll_arr := map (ws_afterLineNumber_update g) (ll_arr L)\<rparr>)) =
      height_above m' (whitespaces this)" if "\<And>a. g a < m \<longleftrightarrow> a < m'" for g m m' c
    using that none by (simp add: whitespaces_def height_above_def heights_def filter_map comp_def flip: L_def)
  have ins: "after_insertion f t a < n \<longleftrightarrow> a < (if n < f then n else if n \<le> t then f else n - (t - f + 1))" for a
    using assms(2,3) by (auto simp: after_insertion_def)
  have del: "after_deletion f t a < n \<longleftrightarrow> a < (if n < f then n else n + (t - f + 1))" for a
    using assms(2,3) by (auto simp: after_deletion_def)
  show ?thesis
    using h [OF ins] h [OF del] assms(2,3)
    by (auto simp: line_top_def LinesLayout_onLinesInserted_def LinesLayout_onLinesDeleted_def Let_def i simp flip: L_def) (auto simp: L_def max_def algebra_simps)
qed

theorem editing_lines_shifts_offsets_witness:
  "line_top (LinesLayout_onLinesInserted 2 3 (fst (new_LinesLayout 0 10 20 5 5))) 4 = line_top (fst (new_LinesLayout 0 10 20 5 5)) 2 + 40"
  using editing_lines_shifts_offsets [OF reachable_layout.init [of 0 10 20 5 5], of 2 3 4] by (simp add: new_LinesLayout_def)

section \<open>One change and many\<close>

abbreviation in_order :: "EditorWhitespace list \<Rightarrow> bool" where
  "in_order arr \<equiv> sorted_wrt (\<lambda>a b. compareWhitespace a b \<le> 0) arr"

lemma js_sort_in_order: "in_order arr \<Longrightarrow> js_sort compareWhitespace arr = arr"
proof (induction arr)
  case (Cons w arr)
  then show ?case by (cases arr) (simp_all add: js_sort_Cons)
qed (simp add: js_sort_def)

lemma findInsertionIndex_loop_eq:
  assumes "true_prefix arr (\<lambda>e. \<not> compareWhitespace w e < 0) m" "low \<le> m" "m \<le> high" "high \<le> length arr"
  shows "findInsertionIndex_loop arr (ws_afterLineNumber w) (ws_ordinal w) low high = m"
  using assms
proof (induction arr "ws_afterLineNumber w" "ws_ordinal w" low high rule: findInsertionIndex_loop.induct)
  case (1 arr low high)
  show ?case
  proof (cases "low < high")
    case True
    define mid where "mid = (low + high) div 2"
    have mid: "low \<le> mid" "mid < high" using True by (auto simp: mid_def)
    have at: "compareWhitespace w (arr ! mid) < 0 \<longleftrightarrow> m \<le> mid" using 1(5,8) mid unfolding true_prefix_def by (metis less_le_trans not_le)
    have step: "findInsertionIndex_loop arr (ws_afterLineNumber w) (ws_ordinal w) low high =
        (if compareWhitespace w (arr ! mid) < 0 then findInsertionIndex_loop arr (ws_afterLineNumber w) (ws_ordinal w) low mid
         else findInsertionIndex_loop arr (ws_afterLineNumber w) (ws_ordinal w) (mid + 1) high)"
      using True by (subst findInsertionIndex_loop.simps) (auto simp: Let_def mid_def compareWhitespace_def)
    show ?thesis
    proof (cases "compareWhitespace w (arr ! mid) < 0")
      case before: True
      then have "findInsertionIndex_loop arr (ws_afterLineNumber w) (ws_ordinal w) low mid = m"
        using 1(1,3) [OF True mid_def] 1(5,6,8) mid at by (cases "ws_afterLineNumber w = ws_afterLineNumber (arr ! mid)") (auto simp: compareWhitespace_def)
      then show ?thesis using step before by simp
    next
      case after: False
      then have "findInsertionIndex_loop arr (ws_afterLineNumber w) (ws_ordinal w) (mid + 1) high = m"
        using 1(2,4) [OF True mid_def] 1(5,7,8) mid at by (cases "ws_afterLineNumber w = ws_afterLineNumber (arr ! mid)") (auto simp: compareWhitespace_def)
      then show ?thesis using step after by simp
    qed
  next
    case False
    with 1(6,7) show ?thesis by (subst findInsertionIndex_loop.simps) auto
  qed
qed

lemma insertWhitespace_sorts:
  assumes "in_order (ll_arr this)"
  shows "ll_arr (LinesLayout_insertWhitespace w this) = js_sort compareWhitespace (ll_arr this @ [w])"
proof -
  let ?m = "length (takeWhile (\<lambda>e. \<not> compareWhitespace w e < 0) (ll_arr this))"
  have p: "true_prefix (ll_arr this) (\<lambda>e. \<not> compareWhitespace w e < 0) ?m"
    by (rule true_prefix_takeWhile [OF assms]) (auto simp: compareWhitespace_def split: if_splits)
  have "LinesLayout_findInsertionIndex (ll_arr this) (ws_afterLineNumber w) (ws_ordinal w) = ?m"
    using findInsertionIndex_loop_eq [OF p] by (simp add: LinesLayout_findInsertionIndex_def length_takeWhile_le)
  moreover have "findFirstIdxMonotonousOrArrLen (ll_arr this) (\<lambda>e. compareWhitespace w e < 0) = ?m"
    using true_prefix_findFirstIdxMonotonousOrArrLen [OF p] .
  moreover have "js_sort compareWhitespace (ll_arr this @ [w]) = ins_right compareWhitespace w (ll_arr this)"
    using whitespace_order.js_sort_snoc [of "ll_arr this" w] js_sort_in_order [OF assms] by simp
  ultimately show ?thesis
    using whitespace_order.ins_right_eq_splice [of "ll_arr this" w] assms
    by (simp add: LinesLayout_insertWhitespace_def Let_def whitespace_order.sorted_by_def)
qed

text \<open>
  C20. Inserting or removing one whitespace in place gives the same array as building the array anew, as the layout does for more than one change: on whitespaces
  in the order of lines and ordinals, the binary search inserts where the stable sort puts a new whitespace.
\<close>
theorem single_change_equals_rebuild:
  assumes "in_order (ll_arr this)" "distinct (map ws_id (ll_arr this))"
  shows "ll_arr (LinesLayout_commitPendingChanges [w] [] [] this) =
      js_sort compareWhitespace (applyRemoveAndChange (set []) (pending_changes []) (ll_arr this) @ applyRemoveAndChange (set []) (pending_changes []) [w]) \<and>
    ll_arr (LinesLayout_commitPendingChanges [] [] [wid] this) =
      js_sort compareWhitespace (applyRemoveAndChange (set [wid]) (pending_changes []) (ll_arr this) @ applyRemoveAndChange (set [wid]) (pending_changes []) [])"
proof -
  have "ll_arr (LinesLayout_commitPendingChanges [] [] [wid] this) = applyRemoveAndChange {wid} (\<lambda>_. None) (ll_arr this)"
  proof (cases wid "this\<lparr>ll_minWidth := - 1\<rparr>" rule: findWhitespaceIndex_cases)
    case 1
    then have "filter (\<lambda>w. ws_id w \<noteq> wid) (ll_arr this) = ll_arr this" unfolding filter_id_conv by (auto simp: image_iff)
    then show ?thesis using 1 by (simp add: LinesLayout_commitPendingChanges_def Let_def applyRemoveAndChange_def)
  next
    case (2 k)
    then show ?thesis using apply_one_remove [OF assms(2), of k]
      by (simp add: LinesLayout_commitPendingChanges_def Let_def) (simp add: LinesLayout_removeWhitespace_def)
  qed
  moreover have "in_order (applyRemoveAndChange {wid} (\<lambda>_. None) (ll_arr this))"
    using assms(1) by (simp add: applyRemoveAndChange_def sorted_wrt_filter)
  moreover have "ll_arr (LinesLayout_commitPendingChanges [w] [] [] this) = js_sort compareWhitespace (ll_arr this @ [w])"
    using insertWhitespace_sorts [of "this\<lparr>ll_minWidth := - 1\<rparr>" w] assms(1) by (simp add: LinesLayout_commitPendingChanges_def Let_def)
  ultimately show ?thesis using js_sort_in_order by (simp add: applyRemoveAndChange_def [of _ _ "[]"])
qed

theorem single_change_equals_rebuild_witness:
  "ll_arr (LinesLayout_commitPendingChanges [new_EditorWhitespace [1] 3 0 10 0] [] [] (fst (new_LinesLayout 0 10 20 5 5))) =
   js_sort compareWhitespace [new_EditorWhitespace [1] 3 0 10 0]"
  using single_change_equals_rebuild [of "fst (new_LinesLayout 0 10 20 5 5)" "new_EditorWhitespace [1] 3 0 10 0"] by (simp add: new_LinesLayout_def)

text \<open>
  Two limits of this equivalence. A whitespace that is moved to the place of another one ends behind it when it is the only change, and stays before it when there
  are more changes. And after a deletion of lines the ordinals of whitespaces that have come together need not be in order.
\<close>

lemma single_move_differs_from_rebuild:
  fixes a b :: jsstring
  assumes "a \<noteq> b"
  defines "this \<equiv> (fst (new_LinesLayout 0 10 20 5 5))\<lparr>ll_arr := [new_EditorWhitespace a 1 0 10 0, new_EditorWhitespace b 5 0 10 0]\<rparr>"
  defines "move \<equiv> \<lparr>pc_id = a, pc_newAfterLineNumber = 5, pc_newHeight = 10\<rparr>"
  shows "map ws_id (ll_arr (LinesLayout_commitPendingChanges [] [move] [] this)) = [b, a]"
    "map ws_id (ll_arr (LinesLayout_commitPendingChanges [] [move, move] [] this)) = [a, b]"
  using assms(1) unfolding this_def move_def
  by (simp_all add: LinesLayout_commitPendingChanges_def Let_def LinesLayout_changeOneWhitespace_def LinesLayout_findWhitespaceIndex_def
      new_LinesLayout_def new_EditorWhitespace_def LinesLayout_insertWhitespace_def LinesLayout_findInsertionIndex_def findInsertionIndex_loop.simps
      LinesLayout_removeWhitespace_def arr_splice_def applyRemoveAndChange_def pending_changes_def js_sort_def compareWhitespace_def)

lemma deletion_breaks_ordinals:
  fixes a b :: jsstring
  defines "this \<equiv> (fst (new_LinesLayout 0 10 20 5 5))\<lparr>ll_arr := [new_EditorWhitespace a 5 10 10 0, new_EditorWhitespace b 6 1 10 0]\<rparr>"
  shows "in_order (ll_arr this)" "\<not> in_order (ll_arr (LinesLayout_onLinesDeleted 5 6 this))"
  unfolding this_def
  by (simp_all add: new_LinesLayout_def new_EditorWhitespace_def compareWhitespace_def LinesLayout_onLinesDeleted_def Let_def
      LinesLayout_checkPendingChanges_def PendingChanges_mustCommit_def new_PendingChanges_def after_deletion_def toInt32_def)

end
