(* ===== verification/Lines_Viewport.thy ===== *)
theory Lines_Viewport
  imports Complex_Main Lines_Layout
begin

text \<open>
  Searching a layout by vertical offset and the lines and whitespaces of a viewport, \<open>src/vs/editor/common/viewLayout/linesLayout.ts\<close>. The height of a
  line is a positive integer.
\<close>

section \<open>The line at an offset\<close>

text \<open>The loop returns whether it has hit a line, and the line.\<close>

function lineAt_loop :: "number \<Rightarrow> number \<Rightarrow> number \<Rightarrow> number \<Rightarrow> LinesLayout \<Rightarrow> ((bool \<times> number) \<times> LinesLayout) result" where
  "lineAt_loop verticalOffset lineHeight minLineNumber maxLineNumber this =
     (if minLineNumber < maxLineNumber then
        let midLineNumber = (minLineNumber + maxLineNumber) div 2
        in case LinesLayout_getVerticalOffsetForLineNumber midLineNumber False this of
             Inl e \<Rightarrow> Inl e
           | Inr (offset, this) \<Rightarrow>
               let midLineNumberVerticalOffset = toInt32 offset
               in if verticalOffset \<ge> midLineNumberVerticalOffset + lineHeight
                  then lineAt_loop verticalOffset lineHeight (midLineNumber + 1) maxLineNumber this
                  else if verticalOffset \<ge> midLineNumberVerticalOffset then Inr ((True, midLineNumber), this)
                  else lineAt_loop verticalOffset lineHeight minLineNumber midLineNumber this
      else Inr ((False, minLineNumber), this))"
  by pat_completeness auto
termination by (relation "measure (\<lambda>(v, h, lo, hi, this). nat (hi - lo))") auto

declare lineAt_loop.simps [simp del]

definition LinesLayout_getLineNumberAtOrAfterVerticalOffset :: "number \<Rightarrow> LinesLayout \<Rightarrow> (number \<times> LinesLayout) result" where
  "LinesLayout_getLineNumberAtOrAfterVerticalOffset verticalOffset this =
     (let this = LinesLayout_checkPendingChanges this; verticalOffset = toInt32 verticalOffset
      in if verticalOffset < 0 then Inr (1, this)
         else
           let linesCount = toInt32 (ll_lineCount this); lineHeight = ll_lineHeight this
           in result_map (\<lambda>((hit, lineNumber), this). (if \<not> hit \<and> lineNumber > linesCount then linesCount else lineNumber, this))
                (lineAt_loop verticalOffset lineHeight 1 linesCount this))"

section \<open>The lines of a viewport\<close>

record IPartialViewLinesViewportData =
  vd_bigNumbersDelta :: number
  vd_startLineNumber :: number
  vd_endLineNumber :: number
  vd_relativeVerticalOffset :: "number list"
  vd_centeredLineNumber :: number
  vd_completelyVisibleStartLineNumber :: number
  vd_completelyVisibleEndLineNumber :: number

text \<open>The variables of the loop over the lines.\<close>

record viewport =
  vp_currentVerticalOffset :: number
  vp_currentLineRelativeOffset :: number
  vp_linesOffsets :: "number list"
  vp_centeredLineNumber :: number
  vp_whitespaceIndex :: number
  vp_currentWhitespaceAfterLineNumber :: number
  vp_currentWhitespaceHeight :: number

text \<open>
  The inner loop. When the whitespaces are used up, the next test of the loop compares the line with \<open>endLineNumber + 1\<close> and fails, because
  the line is not after \<open>endLineNumber\<close>.
\<close>

function viewport_whitespaces :: "number \<Rightarrow> number \<Rightarrow> number \<Rightarrow> viewport \<Rightarrow> LinesLayout \<Rightarrow> (viewport \<times> LinesLayout) result" where
  "viewport_whitespaces lineNumber endLineNumber whitespaceCount vp this =
     (if vp_currentWhitespaceAfterLineNumber vp = lineNumber then
        let vp = vp\<lparr>vp_currentLineRelativeOffset := vp_currentLineRelativeOffset vp + vp_currentWhitespaceHeight vp,
                    vp_currentVerticalOffset := vp_currentVerticalOffset vp + vp_currentWhitespaceHeight vp,
                    vp_whitespaceIndex := vp_whitespaceIndex vp + 1\<rparr>
        in if vp_whitespaceIndex vp \<ge> whitespaceCount then Inr (vp\<lparr>vp_currentWhitespaceAfterLineNumber := endLineNumber + 1\<rparr>, this)
           else
             case LinesLayout_getAfterLineNumberForWhitespaceIndex (vp_whitespaceIndex vp) this of
               Inl e \<Rightarrow> Inl e
             | Inr (afterLineNumber, this) \<Rightarrow>
                 (case LinesLayout_getHeightForWhitespaceIndex (vp_whitespaceIndex vp) this of
                    Inl e \<Rightarrow> Inl e
                  | Inr (height, this) \<Rightarrow>
                      viewport_whitespaces lineNumber endLineNumber whitespaceCount
                        (vp\<lparr>vp_currentWhitespaceAfterLineNumber := toInt32 afterLineNumber, vp_currentWhitespaceHeight := toInt32 height\<rparr>) this)
      else Inr (vp, this))"
  by pat_completeness auto
termination by (relation "measure (\<lambda>(l, e, n, vp, this). nat (n - vp_whitespaceIndex vp))") auto

declare viewport_whitespaces.simps [simp del]

definition viewport_line :: "number \<Rightarrow> rat \<Rightarrow> number \<Rightarrow> viewport \<Rightarrow> viewport" where
  "viewport_line lineHeight verticalCenter lineNumber vp =
     (let centeredLineNumber =
            (if vp_centeredLineNumber vp = - 1 then
               let currentLineTop = of_int (vp_currentVerticalOffset vp); currentLineBottom = of_int (vp_currentVerticalOffset vp + lineHeight)
               in if currentLineTop \<le> verticalCenter \<and> verticalCenter < currentLineBottom \<or> currentLineTop > verticalCenter then lineNumber else - 1
             else vp_centeredLineNumber vp)
      in vp\<lparr>vp_centeredLineNumber := centeredLineNumber, vp_currentVerticalOffset := vp_currentVerticalOffset vp + lineHeight,
            vp_linesOffsets := vp_linesOffsets vp @ [vp_currentLineRelativeOffset vp],
            vp_currentLineRelativeOffset := vp_currentLineRelativeOffset vp + lineHeight\<rparr>)"

function viewport_lines ::
  "number \<Rightarrow> rat \<Rightarrow> number \<Rightarrow> number \<Rightarrow> number \<Rightarrow> number \<Rightarrow> viewport \<Rightarrow> LinesLayout \<Rightarrow> ((number \<times> viewport) \<times> LinesLayout) result" where
  "viewport_lines verticalOffset2 verticalCenter lineHeight whitespaceCount endLineNumber lineNumber vp this =
     (if lineNumber \<le> endLineNumber then
        case viewport_whitespaces lineNumber endLineNumber whitespaceCount (viewport_line lineHeight verticalCenter lineNumber vp) this of
          Inl e \<Rightarrow> Inl e
        | Inr (vp, this) \<Rightarrow>
            if vp_currentVerticalOffset vp \<ge> verticalOffset2 then Inr ((lineNumber, vp), this)
            else viewport_lines verticalOffset2 verticalCenter lineHeight whitespaceCount endLineNumber (lineNumber + 1) vp this
      else Inr ((endLineNumber, vp), this))"
  by pat_completeness auto
termination by (relation "measure (\<lambda>(v2, c, h, n, e, l, vp, this). nat (e + 1 - l))") auto

declare viewport_lines.simps [simp del]

definition bigNumbersDelta_of :: "number \<Rightarrow> number \<Rightarrow> number" where
  "bigNumbersDelta_of startLineNumberVerticalOffset lineHeight =
     (let STEP_SIZE = 500000
      in if startLineNumberVerticalOffset \<ge> STEP_SIZE
         then (startLineNumberVerticalOffset div STEP_SIZE * STEP_SIZE) div lineHeight * lineHeight else 0)"

text \<open>The first whitespace below the first line: its index, the number of whitespaces, its line and its height.\<close>

definition first_whitespace :: "number \<Rightarrow> number \<Rightarrow> LinesLayout \<Rightarrow> ((number \<times> number \<times> number \<times> number) \<times> LinesLayout) result" where
  "first_whitespace startLineNumber endLineNumber this =
     (case LinesLayout_getFirstWhitespaceIndexAfterLineNumber startLineNumber this of (index, this) \<Rightarrow>
        case LinesLayout_getWhitespacesCount this of (arrLength, this) \<Rightarrow>
          let whitespaceIndex = toInt32 index; whitespaceCount = toInt32 arrLength
          in if whitespaceIndex = - 1 then Inr ((whitespaceCount, whitespaceCount, endLineNumber + 1, 0), this)
             else
               result_bind (LinesLayout_getAfterLineNumberForWhitespaceIndex whitespaceIndex this) (\<lambda>(afterLineNumber, this).
               result_map (\<lambda>(height, this). ((whitespaceIndex, whitespaceCount, toInt32 afterLineNumber, toInt32 height), this))
                 (LinesLayout_getHeightForWhitespaceIndex whitespaceIndex this)))"

definition LinesLayout_getLinesViewportData :: "number \<Rightarrow> number \<Rightarrow> LinesLayout \<Rightarrow> (IPartialViewLinesViewportData \<times> LinesLayout) result" where
  "LinesLayout_getLinesViewportData verticalOffset1 verticalOffset2 this =
     (let this = LinesLayout_checkPendingChanges this;
          verticalOffset1 = toInt32 verticalOffset1; verticalOffset2 = toInt32 verticalOffset2; lineHeight = ll_lineHeight this
      in result_bind (LinesLayout_getLineNumberAtOrAfterVerticalOffset verticalOffset1 this) (\<lambda>(lineNumber, this).
         let startLineNumber = toInt32 lineNumber
         in result_bind (LinesLayout_getVerticalOffsetForLineNumber startLineNumber False this) (\<lambda>(offset, this).
         let startLineNumberVerticalOffset = toInt32 offset; endLineNumber = toInt32 (ll_lineCount this)
         in result_bind (first_whitespace startLineNumber endLineNumber this) (\<lambda>((whitespaceIndex, whitespaceCount, afterLineNumber, height), this).
         let bigNumbersDelta = bigNumbersDelta_of startLineNumberVerticalOffset lineHeight;
             verticalCenter = of_int verticalOffset1 + of_int (verticalOffset2 - verticalOffset1) / 2;
             vp = \<lparr>vp_currentVerticalOffset = startLineNumberVerticalOffset,
                   vp_currentLineRelativeOffset = startLineNumberVerticalOffset - bigNumbersDelta,
                   vp_linesOffsets = [], vp_centeredLineNumber = - 1, vp_whitespaceIndex = whitespaceIndex,
                   vp_currentWhitespaceAfterLineNumber = afterLineNumber, vp_currentWhitespaceHeight = height\<rparr>
         in result_bind (viewport_lines verticalOffset2 verticalCenter lineHeight whitespaceCount endLineNumber startLineNumber vp this) (\<lambda>((endLineNumber, vp), this).
         let centeredLineNumber = (if vp_centeredLineNumber vp = - 1 then endLineNumber else vp_centeredLineNumber vp)
         in result_map (\<lambda>(offset, this).
              let endLineNumberVerticalOffset = toInt32 offset;
                  visibleStart = (if startLineNumber < endLineNumber \<and> startLineNumberVerticalOffset < verticalOffset1 then startLineNumber + 1 else startLineNumber);
                  visibleEnd = (if visibleStart < endLineNumber \<and> endLineNumberVerticalOffset + lineHeight > verticalOffset2 then endLineNumber - 1 else endLineNumber)
              in (\<lparr>vd_bigNumbersDelta = bigNumbersDelta, vd_startLineNumber = startLineNumber, vd_endLineNumber = endLineNumber,
                   vd_relativeVerticalOffset = vp_linesOffsets vp, vd_centeredLineNumber = centeredLineNumber,
                   vd_completelyVisibleStartLineNumber = visibleStart, vd_completelyVisibleEndLineNumber = visibleEnd\<rparr>, this))
              (LinesLayout_getVerticalOffsetForLineNumber endLineNumber False this))))))"

section \<open>The whitespaces of a viewport\<close>

definition LinesLayout_getVerticalOffsetForWhitespaceIndex :: "number \<Rightarrow> LinesLayout \<Rightarrow> (number \<times> LinesLayout) result" where
  "LinesLayout_getVerticalOffsetForWhitespaceIndex whitespaceIndex this =
     (let this = LinesLayout_checkPendingChanges this; whitespaceIndex = toInt32 whitespaceIndex
      in result_bind (LinesLayout_getAfterLineNumberForWhitespaceIndex whitespaceIndex this) (\<lambda>(afterLineNumber, this).
         let previousLinesHeight = (if afterLineNumber \<ge> 1 then ll_lineHeight this * afterLineNumber else 0)
         in result_map (\<lambda>(previousWhitespacesHeight, this). (previousLinesHeight + previousWhitespacesHeight + ll_paddingTop this, this))
              (if whitespaceIndex > 0 then LinesLayout_getWhitespacesAccumulatedHeight (whitespaceIndex - 1) this else Inr (0, this))))"

function whitespaceAt_loop :: "number \<Rightarrow> number \<Rightarrow> number \<Rightarrow> LinesLayout \<Rightarrow> (number \<times> LinesLayout) result" where
  "whitespaceAt_loop verticalOffset minWhitespaceIndex maxWhitespaceIndex this =
     (if minWhitespaceIndex < maxWhitespaceIndex then
        let midWhitespaceIndex = (minWhitespaceIndex + maxWhitespaceIndex) div 2
        in case LinesLayout_getVerticalOffsetForWhitespaceIndex midWhitespaceIndex this of
             Inl e \<Rightarrow> Inl e
           | Inr (midWhitespaceVerticalOffset, this) \<Rightarrow>
               (case LinesLayout_getHeightForWhitespaceIndex midWhitespaceIndex this of
                  Inl e \<Rightarrow> Inl e
                | Inr (midWhitespaceHeight, this) \<Rightarrow>
                    if verticalOffset \<ge> midWhitespaceVerticalOffset + midWhitespaceHeight
                    then whitespaceAt_loop verticalOffset (midWhitespaceIndex + 1) maxWhitespaceIndex this
                    else if verticalOffset \<ge> midWhitespaceVerticalOffset then Inr (midWhitespaceIndex, this)
                    else whitespaceAt_loop verticalOffset minWhitespaceIndex midWhitespaceIndex this)
      else Inr (minWhitespaceIndex, this))"
  by pat_completeness auto
termination by (relation "measure (\<lambda>(v, lo, hi, this). nat (hi - lo))") auto

declare whitespaceAt_loop.simps [simp del]

definition LinesLayout_getWhitespaceIndexAtOrAfterVerticallOffset :: "number \<Rightarrow> LinesLayout \<Rightarrow> (number \<times> LinesLayout) result" where
  "LinesLayout_getWhitespaceIndexAtOrAfterVerticallOffset verticalOffset this =
     (let this = LinesLayout_checkPendingChanges this; verticalOffset = toInt32 verticalOffset
      in case LinesLayout_getWhitespacesCount this of (arrLength, this) \<Rightarrow>
         let maxWhitespaceIndex = arrLength - 1
         in if maxWhitespaceIndex < 0 then Inr (- 1, this)
            else
              result_bind (LinesLayout_getVerticalOffsetForWhitespaceIndex maxWhitespaceIndex this) (\<lambda>(maxWhitespaceVerticalOffset, this).
              result_bind (LinesLayout_getHeightForWhitespaceIndex maxWhitespaceIndex this) (\<lambda>(maxWhitespaceHeight, this).
              if verticalOffset \<ge> maxWhitespaceVerticalOffset + maxWhitespaceHeight then Inr (- 1, this)
              else whitespaceAt_loop verticalOffset 0 maxWhitespaceIndex this)))"

record IViewWhitespaceViewportData =
  vw_id :: jsstring
  vw_afterLineNumber :: number
  vw_verticalOffset :: number
  vw_height :: number

definition LinesLayout_getWhitespaceAtVerticalOffset :: "number \<Rightarrow> LinesLayout \<Rightarrow> (IViewWhitespaceViewportData option \<times> LinesLayout) result" where
  "LinesLayout_getWhitespaceAtVerticalOffset verticalOffset this =
     (let this = LinesLayout_checkPendingChanges this; verticalOffset = toInt32 verticalOffset
      in result_bind (LinesLayout_getWhitespaceIndexAtOrAfterVerticallOffset verticalOffset this) (\<lambda>(candidateIndex, this).
         if candidateIndex < 0 then Inr (None, this)
         else case LinesLayout_getWhitespacesCount this of (arrLength, this) \<Rightarrow>
           if candidateIndex \<ge> arrLength then Inr (None, this)
           else result_bind (LinesLayout_getVerticalOffsetForWhitespaceIndex candidateIndex this) (\<lambda>(candidateTop, this).
             if candidateTop > verticalOffset then Inr (None, this)
             else
               result_bind (LinesLayout_getHeightForWhitespaceIndex candidateIndex this) (\<lambda>(candidateHeight, this).
               result_bind (LinesLayout_getIdForWhitespaceIndex candidateIndex this) (\<lambda>(candidateId, this).
               result_map (\<lambda>(candidateAfterLineNumber, this).
                 (Some \<lparr>vw_id = candidateId, vw_afterLineNumber = candidateAfterLineNumber, vw_verticalOffset = candidateTop, vw_height = candidateHeight\<rparr>, this))
                 (LinesLayout_getAfterLineNumberForWhitespaceIndex candidateIndex this))))))"

function whitespace_viewport_loop ::
  "number \<Rightarrow> number \<Rightarrow> number \<Rightarrow> IViewWhitespaceViewportData list \<Rightarrow> LinesLayout \<Rightarrow> (IViewWhitespaceViewportData list \<times> LinesLayout) result" where
  "whitespace_viewport_loop verticalOffset2 endIndex i result this =
     (if i \<le> endIndex then
        case LinesLayout_getVerticalOffsetForWhitespaceIndex i this of
          Inl e \<Rightarrow> Inl e
        | Inr (wtop, this) \<Rightarrow>
            (case LinesLayout_getHeightForWhitespaceIndex i this of
               Inl e \<Rightarrow> Inl e
             | Inr (height, this) \<Rightarrow>
                 if wtop \<ge> verticalOffset2 then Inr (result, this)
                 else
                   case LinesLayout_getIdForWhitespaceIndex i this of
                     Inl e \<Rightarrow> Inl e
                   | Inr (wid, this) \<Rightarrow>
                       (case LinesLayout_getAfterLineNumberForWhitespaceIndex i this of
                          Inl e \<Rightarrow> Inl e
                        | Inr (afterLineNumber, this) \<Rightarrow>
                            whitespace_viewport_loop verticalOffset2 endIndex (i + 1)
                              (result @ [\<lparr>vw_id = wid, vw_afterLineNumber = afterLineNumber, vw_verticalOffset = wtop, vw_height = height\<rparr>]) this))
      else Inr (result, this))"
  by pat_completeness auto
termination by (relation "measure (\<lambda>(v2, e, i, r, this). nat (e + 1 - i))") auto

declare whitespace_viewport_loop.simps [simp del]

definition LinesLayout_getWhitespaceViewportData :: "number \<Rightarrow> number \<Rightarrow> LinesLayout \<Rightarrow> (IViewWhitespaceViewportData list \<times> LinesLayout) result" where
  "LinesLayout_getWhitespaceViewportData verticalOffset1 verticalOffset2 this =
     (let this = LinesLayout_checkPendingChanges this; verticalOffset1 = toInt32 verticalOffset1; verticalOffset2 = toInt32 verticalOffset2
      in result_bind (LinesLayout_getWhitespaceIndexAtOrAfterVerticallOffset verticalOffset1 this) (\<lambda>(startIndex, this).
         case LinesLayout_getWhitespacesCount this of (arrLength, this) \<Rightarrow>
           let endIndex = arrLength - 1
           in if startIndex < 0 then Inr ([], this) else whitespace_viewport_loop verticalOffset2 endIndex startIndex [] this))"

section \<open>Rows on top of each other\<close>

text \<open>The two binary searches are the same search for the first row that ends after an offset.\<close>

function row_search :: "(number \<Rightarrow> number) \<Rightarrow> (number \<Rightarrow> number) \<Rightarrow> number \<Rightarrow> number \<Rightarrow> number \<Rightarrow> number" where
  "row_search row_top row_height v lo hi =
     (if lo < hi then
        let mid = (lo + hi) div 2
        in if v \<ge> row_top mid + row_height mid then row_search row_top row_height v (mid + 1) hi
           else if v \<ge> row_top mid then mid
           else row_search row_top row_height v lo mid
      else lo)"
  by pat_completeness auto
termination by (relation "measure (\<lambda>(t, h, v, lo, hi). nat (hi - lo))") auto

declare row_search.simps [simp del]

locale stacked_rows =
  fixes ok :: "'s \<Rightarrow> bool" and row_top row_height :: "'s \<Rightarrow> number \<Rightarrow> number" and first_row last_row :: "'s \<Rightarrow> number"
  assumes stacked: "ok s \<Longrightarrow> first_row s \<le> i \<Longrightarrow> i < j \<Longrightarrow> j \<le> last_row s \<Longrightarrow> row_top s i + row_height s i \<le> row_top s j"
    and height_nonneg: "ok s \<Longrightarrow> first_row s \<le> i \<Longrightarrow> i \<le> last_row s \<Longrightarrow> 0 \<le> row_height s i"
begin

lemma ends_mono:
  assumes "ok s" "first_row s \<le> i" "i \<le> j" "j \<le> last_row s"
  shows "row_top s i + row_height s i \<le> row_top s j + row_height s j"
  using stacked [of s i j] height_nonneg [of s j] assms by (cases "i = j") auto

lemma tops_mono:
  assumes "ok s" "first_row s \<le> i" "i \<le> j" "j \<le> last_row s"
  shows "row_top s i \<le> row_top s j"
  using stacked [of s i j] height_nonneg [of s i] assms by (cases "i = j") auto

lemma search_first:
  assumes "ok s" "first_row s \<le> lo" "lo \<le> hi" "hi \<le> last_row s"
    "\<And>i. first_row s \<le> i \<Longrightarrow> i < lo \<Longrightarrow> row_top s i + row_height s i \<le> v" "hi = last_row s \<or> v < row_top s hi + row_height s hi"
  defines "r \<equiv> row_search (row_top s) (row_height s) v lo hi"
  shows "lo \<le> r \<and> r \<le> hi \<and> (\<forall>i. first_row s \<le> i \<longrightarrow> i < r \<longrightarrow> row_top s i + row_height s i \<le> v) \<and> (r = last_row s \<or> v < row_top s r + row_height s r)"
  using assms(2-6) unfolding r_def
proof (induction "nat (hi - lo)" arbitrary: lo hi rule: less_induct)
  case less
  show ?case
  proof (cases "lo < hi")
    case True
    define mid where "mid = (lo + hi) div 2"
    have mid: "lo \<le> mid" "mid < hi" using True by (auto simp: mid_def)
    note step = row_search.simps [of "row_top s" "row_height s" v lo hi]
    show ?thesis
    proof (cases "v \<ge> row_top s mid + row_height s mid")
      case below: True
      have "row_top s i + row_height s i \<le> v" if "first_row s \<le> i" "i < mid + 1" for i
        using ends_mono [OF assms(1), of i mid] that below mid less(4) by simp
      then have "mid + 1 \<le> row_search (row_top s) (row_height s) v (mid + 1) hi \<and> row_search (row_top s) (row_height s) v (mid + 1) hi \<le> hi \<and>
          (\<forall>i. first_row s \<le> i \<longrightarrow> i < row_search (row_top s) (row_height s) v (mid + 1) hi \<longrightarrow> row_top s i + row_height s i \<le> v) \<and>
          (row_search (row_top s) (row_height s) v (mid + 1) hi = last_row s \<or>
           v < row_top s (row_search (row_top s) (row_height s) v (mid + 1) hi) + row_height s (row_search (row_top s) (row_height s) v (mid + 1) hi))"
        using less(1) [of hi "mid + 1"] less(2,4,6) mid by simp
      moreover have "row_search (row_top s) (row_height s) v lo hi = row_search (row_top s) (row_height s) v (mid + 1) hi"
        using step True below by (simp add: mid_def Let_def)
      ultimately show ?thesis using mid by simp
    next
      case above: False
      show ?thesis
      proof (cases "v \<ge> row_top s mid")
        case hit: True
        have "row_top s i + row_height s i \<le> v" if "first_row s \<le> i" "i < mid" for i
          using stacked [OF assms(1) that(1,2)] hit mid less(4) by simp
        moreover have "row_search (row_top s) (row_height s) v lo hi = mid" using step True above hit by (simp add: mid_def Let_def)
        ultimately show ?thesis using above mid by simp
      next
        case False
        have "v < row_top s mid + row_height s mid" using above by simp
        moreover have "row_search (row_top s) (row_height s) v lo hi = row_search (row_top s) (row_height s) v lo mid"
          using step True above False by (simp add: mid_def Let_def)
        ultimately show ?thesis using less(1) [of mid lo] less(2,4,5) mid by auto
      qed
    qed
  next
    case False
    then have "row_search (row_top s) (row_height s) v lo hi = lo" by (subst row_search.simps) simp
    moreover have "lo = hi" using False less(3) by simp
    ultimately show ?thesis using less(5,6) by simp
  qed
qed

end

text \<open>
  A layout whose total height is below \<open>2 ^ 31\<close> pixels, with at least one line and no negative heights.
\<close>

definition sized :: "LinesLayout \<Rightarrow> bool" where
  "sized this \<longleftrightarrow>
     layout_ok this \<and> few this \<and> 0 < ll_lineHeight this \<and> 0 < ll_lineCount this \<and> 0 \<le> ll_paddingTop this \<and> 0 \<le> ll_paddingBottom this \<and>
     (\<forall>w \<in> set (whitespaces this). 0 \<le> ws_height w \<and> is_int32 (ws_afterLineNumber w)) \<and>
     ll_lineHeight this * ll_lineCount this + heights (whitespaces this) + ll_paddingTop this + ll_paddingBottom this < 2147483648"

lemma sized_reads: "sized this \<Longrightarrow> reads this this' \<Longrightarrow> sized this'"
  by (auto simp: sized_def reads_def few_def)

lemma heights_nonneg: "(\<And>w. w \<in> set ws \<Longrightarrow> 0 \<le> ws_height w) \<Longrightarrow> 0 \<le> heights ws"
  by (auto simp: heights_def intro!: sum_list_nonneg)

lemma heights_filter_mono:
  assumes "\<And>w. w \<in> set ws \<Longrightarrow> 0 \<le> ws_height w" "\<And>w. w \<in> set ws \<Longrightarrow> P w \<Longrightarrow> Q w"
  shows "heights (filter P ws) \<le> heights (filter Q ws)"
  using assms by (induction ws) (auto intro: order_trans)

lemma height_above_mono: "sized this \<Longrightarrow> m \<le> n \<Longrightarrow> height_above m (whitespaces this) \<le> height_above n (whitespaces this)"
  unfolding height_above_def by (rule heights_filter_mono) (auto simp: sized_def)

lemma height_above_le: "sized this \<Longrightarrow> height_above n (whitespaces this) \<le> heights (whitespaces this)"
  using heights_filter_mono [of "whitespaces this" "\<lambda>w. ws_afterLineNumber w < n" "\<lambda>_. True"] by (simp add: height_above_def sized_def)

lemma height_above_nonneg: "sized this \<Longrightarrow> 0 \<le> height_above n (whitespaces this)"
  unfolding height_above_def by (rule heights_nonneg) (auto simp: sized_def)

lemma line_top_next:
  assumes "sized this" "1 \<le> m" "m < n"
  shows "line_top this m + ll_lineHeight this \<le> line_top this n"
proof -
  have "ll_lineHeight this * m \<le> ll_lineHeight this * (n - 1)" using assms by (intro mult_left_mono) (auto simp: sized_def)
  then show ?thesis using height_above_mono [OF assms(1), of m n] assms(2,3) by (simp add: line_top_def algebra_simps)
qed

lemma line_top_bounds:
  assumes "sized this" "1 \<le> n" "n \<le> ll_lineCount this"
  shows "0 \<le> line_top this n" "line_top this n + ll_lineHeight this < 2147483648" "is_int32 (line_top this n)" "is_int32 n" "is_int32 (n - 1)"
proof -
  have h: "0 < ll_lineHeight this" "0 \<le> ll_paddingTop this" "0 \<le> ll_paddingBottom this"
      "ll_lineHeight this * ll_lineCount this + heights (whitespaces this) + ll_paddingTop this + ll_paddingBottom this < 2147483648"
    using assms(1) by (auto simp: sized_def)
  have m: "ll_lineHeight this * n \<le> ll_lineHeight this * ll_lineCount this" using h(1) assms(3) by (intro mult_left_mono) auto
  have hn: "n \<le> ll_lineHeight this * n" using h(1) assms(2) by (simp add: mult_le_cancel_right1)
  have top: "line_top this n = ll_lineHeight this * n - ll_lineHeight this + height_above n (whitespaces this) + ll_paddingTop this"
    using assms(2) by (simp add: line_top_def algebra_simps)
  have "ll_lineHeight this \<le> ll_lineHeight this * n" using h(1) assms(2) by (simp add: mult_le_cancel_left1)
  then show a: "0 \<le> line_top this n" using height_above_nonneg [OF assms(1), of n] h(2) top by linarith
  show b: "line_top this n + ll_lineHeight this < 2147483648"
    using top m h height_above_le [OF assms(1), of n] by linarith
  show "is_int32 (line_top this n)" using a b h(1) by (simp add: is_int32_def)
  have "0 \<le> heights (whitespaces this)" using assms(1) by (intro heights_nonneg) (auto simp: sized_def)
  then have "n < 2147483648" using m hn h by linarith
  then show "is_int32 n" "is_int32 (n - 1)" using assms(2) by (simp_all add: is_int32_def)
qed

interpretation line_rows: stacked_rows sized line_top "\<lambda>this _. ll_lineHeight this" "\<lambda>_. 1" ll_lineCount
  by unfold_locales (auto simp: line_top_next sized_def)

text \<open>The offset of a whitespace.\<close>

definition whitespace_top :: "LinesLayout \<Rightarrow> number \<Rightarrow> number" where
  "whitespace_top this i =
     ll_lineHeight this * max 0 (ws_afterLineNumber (whitespaces this ! nat i)) + heights (take (nat i) (whitespaces this)) + ll_paddingTop this"

definition whitespace_height :: "LinesLayout \<Rightarrow> number \<Rightarrow> number" where
  "whitespace_height this i = ws_height (whitespaces this ! nat i)"

lemma heights_take_mono:
  assumes "\<And>w. w \<in> set ws \<Longrightarrow> 0 \<le> ws_height w" "i \<le> j"
  shows "heights (take i ws) \<le> heights (take j ws)"
proof -
  have "take j ws = take i ws @ take (j - i) (drop i ws)" using assms(2) by (metis le_add_diff_inverse take_add)
  moreover have "0 \<le> heights (take (j - i) (drop i ws))" using assms(1) by (intro heights_nonneg) (auto dest!: in_set_takeD in_set_dropD)
  ultimately show ?thesis by simp
qed

interpretation whitespace_rows: stacked_rows sized whitespace_top whitespace_height "\<lambda>_. 0" "\<lambda>this. int (length (whitespaces this)) - 1"
proof unfold_locales
  fix this :: LinesLayout and i j :: number
  assume s: "sized this" and ij: "0 \<le> i" "i < j" "j \<le> int (length (whitespaces this)) - 1"
  have "ws_afterLineNumber (whitespaces this ! nat i) \<le> ws_afterLineNumber (whitespaces this ! nat j)"
    using whitespaces_by_line [of this] s ij by (auto simp: by_line_nth sized_def)
  then have "ll_lineHeight this * max 0 (ws_afterLineNumber (whitespaces this ! nat i)) \<le> ll_lineHeight this * max 0 (ws_afterLineNumber (whitespaces this ! nat j))"
    using s by (intro mult_left_mono) (auto simp: sized_def)
  moreover have "heights (take (nat i) (whitespaces this)) + ws_height (whitespaces this ! nat i) \<le> heights (take (nat j) (whitespaces this))"
    using heights_take_mono [of "whitespaces this" "Suc (nat i)" "nat j"] s ij by (simp add: heights_take_Suc sized_def)
  ultimately show "whitespace_top this i + whitespace_height this i \<le> whitespace_top this j"
    by (simp add: whitespace_top_def whitespace_height_def)
next
  fix this :: LinesLayout and i :: number
  assume "sized this" "0 \<le> i" "i \<le> int (length (whitespaces this)) - 1"
  then show "0 \<le> whitespace_height this i" by (auto simp: whitespace_height_def sized_def)
qed

section \<open>Searching by offset\<close>

lemma lineAt_loop_returns:
  assumes "sized this" "1 \<le> lo" "lo \<le> hi" "hi \<le> ll_lineCount this" "reads this this"
  shows "\<exists>hit. returns (lineAt_loop v (ll_lineHeight this) lo hi this) (hit, row_search (line_top this) (\<lambda>_. ll_lineHeight this) v lo hi) this"
  using assms
proof (induction "nat (hi - lo)" arbitrary: lo hi this rule: less_induct)
  case less
  let ?h = "ll_lineHeight this"
  have self: "layout_ok this" "few this" using less(2) by (simp_all add: sized_def)
  show ?case
  proof (cases "lo < hi")
    case True
    define mid where "mid = (lo + hi) div 2"
    have mid: "lo \<le> mid" "mid < hi" using True by (auto simp: mid_def)
    note bounds = line_top_bounds [OF less(2), of mid]
    have b: "is_int32 mid" "is_int32 (mid - 1)" "is_int32 (line_top this mid)" using bounds mid less(3,5) by auto
    obtain this1 where r: "LinesLayout_getVerticalOffsetForLineNumber mid False this = Inr (line_top this mid, this1)" "reads this this1"
      using line_top_returns [OF self b(1,2)] by (auto simp: returns_def)
    have s1: "sized this1" by (rule sized_reads [OF less(2) r(2)])
    have same: "ll_lineHeight this1 = ?h" "line_top this1 = line_top this" "ll_lineCount this1 = ll_lineCount this"
      using reads_sel [OF r(2)] reads_same [OF r(2)] by simp_all
    have step: "lineAt_loop v ?h lo hi this =
        (if v \<ge> line_top this mid + ?h then lineAt_loop v ?h (mid + 1) hi this1
         else if v \<ge> line_top this mid then Inr ((True, mid), this1) else lineAt_loop v ?h lo mid this1)"
      using True r(1) b(3) by (subst lineAt_loop.simps) (simp add: Let_def flip: mid_def)
    have search: "row_search (line_top this) (\<lambda>_. ?h) v lo hi =
        (if v \<ge> line_top this mid + ?h then row_search (line_top this) (\<lambda>_. ?h) v (mid + 1) hi
         else if v \<ge> line_top this mid then mid else row_search (line_top this) (\<lambda>_. ?h) v lo mid)"
      using True by (subst row_search.simps) (simp add: Let_def flip: mid_def)
    obtain right where right: "returns (lineAt_loop v ?h (mid + 1) hi this1) (right, row_search (line_top this) (\<lambda>_. ?h) v (mid + 1) hi) this1"
      using less(1) [of hi "mid + 1" this1] s1 mid less(3,5) same reads_self [OF r(2)] by auto
    obtain left where left: "returns (lineAt_loop v ?h lo mid this1) (left, row_search (line_top this) (\<lambda>_. ?h) v lo mid) this1"
      using less(1) [of mid lo this1] s1 mid less(3,5) same reads_self [OF r(2)] by auto
    show ?thesis
    proof (cases "v \<ge> line_top this mid + ?h")
      case True
      then show ?thesis using returns_trans [OF r(2) right] unfolding step search by (simp only: if_True) blast
    next
      case below: False
      show ?thesis
      proof (cases "v \<ge> line_top this mid")
        case True
        then show ?thesis using below returns_trans [OF r(2) returns_Inr [OF reads_self [OF r(2)], of "(True, mid)"]] unfolding step search by (simp only: if_True if_False) blast
      next
        case False
        then show ?thesis using below returns_trans [OF r(2) left] unfolding step search by (simp only: if_False) blast
      qed
    qed
  next
    case False
    then have "lineAt_loop v ?h lo hi this = Inr ((False, lo), this)" "row_search (line_top this) (\<lambda>_. ?h) v lo hi = lo"
      by (simp_all add: lineAt_loop.simps row_search.simps)
    then show ?thesis using returns_Inr [OF less(6), of "(False, lo)"] by auto
  qed
qed

definition line_at :: "LinesLayout \<Rightarrow> number \<Rightarrow> number" where
  "line_at this v = (if v < 0 then 1 else row_search (line_top this) (\<lambda>_. ll_lineHeight this) v 1 (ll_lineCount this))"

lemma line_at_first:
  assumes "sized this"
  shows "1 \<le> line_at this v" "line_at this v \<le> ll_lineCount this"
    "1 \<le> n \<Longrightarrow> n < line_at this v \<Longrightarrow> line_top this n + ll_lineHeight this \<le> v"
    "line_at this v = ll_lineCount this \<or> v < line_top this (line_at this v) + ll_lineHeight this"
proof -
  have c: "1 \<le> ll_lineCount this" "0 < ll_lineHeight this" using assms by (auto simp: sized_def)
  note s = line_rows.search_first [OF assms, of 1 "ll_lineCount this" v]
  have "1 \<le> line_at this v \<and> line_at this v \<le> ll_lineCount this \<and> (\<forall>n. 1 \<le> n \<longrightarrow> n < line_at this v \<longrightarrow> line_top this n + ll_lineHeight this \<le> v) \<and>
      (line_at this v = ll_lineCount this \<or> v < line_top this (line_at this v) + ll_lineHeight this)"
  proof (cases "v < 0")
    case True
    then show ?thesis using c line_top_bounds(1) [OF assms, of 1] by (simp add: line_at_def)
  next
    case False
    then show ?thesis using s c unfolding line_at_def by simp
  qed
  then show "1 \<le> line_at this v" "line_at this v \<le> ll_lineCount this"
    "1 \<le> n \<Longrightarrow> n < line_at this v \<Longrightarrow> line_top this n + ll_lineHeight this \<le> v"
    "line_at this v = ll_lineCount this \<or> v < line_top this (line_at this v) + ll_lineHeight this" by auto
qed

lemma getLineNumberAtOrAfterVerticalOffset_returns:
  assumes "sized this" "is_int32 v"
  shows "returns (LinesLayout_getLineNumberAtOrAfterVerticalOffset v this) (line_at this v) this"
  unfolding LinesLayout_getLineNumberAtOrAfterVerticalOffset_def Let_def
proof (rule returns_check)
  show "layout_ok this" using assms(1) by (simp add: sized_def)
  fix this' assume r: "reads this this'"
  have s: "sized this'" by (rule sized_reads [OF assms(1) r])
  have c: "1 \<le> ll_lineCount this'" "toInt32 (ll_lineCount this') = ll_lineCount this'"
    using s line_top_bounds(4) [OF s, of "ll_lineCount this'"] by (simp_all add: sized_def)
  have same: "line_at this' v = line_at this v" using reads_same [OF r] reads_sel [OF r] by (simp add: line_at_def)
  obtain hit where hit: "returns (lineAt_loop v (ll_lineHeight this') 1 (ll_lineCount this') this')
      (hit, row_search (line_top this') (\<lambda>_. ll_lineHeight this') v 1 (ll_lineCount this')) this'"
    using lineAt_loop_returns [OF s _ c(1) order_refl reads_self [OF r], of v] by auto
  have "returns (result_map (\<lambda>((hit, lineNumber), l). (if \<not> hit \<and> lineNumber > ll_lineCount this' then ll_lineCount this' else lineNumber, l))
      (lineAt_loop v (ll_lineHeight this') 1 (ll_lineCount this') this')) (line_at this' v) this'" if "\<not> v < 0"
    using line_at_first(2) [OF s, of v] that by (intro returns_map [OF hit]) (simp add: line_at_def)
  then show "returns (if toInt32 v < 0 then Inr (1, this') else
      result_map (\<lambda>((hit, lineNumber), l). (if \<not> hit \<and> lineNumber > toInt32 (ll_lineCount this') then toInt32 (ll_lineCount this') else lineNumber, l))
        (lineAt_loop (toInt32 v) (ll_lineHeight this') 1 (toInt32 (ll_lineCount this')) this')) (line_at this v) this'"
    using same returns_Inr [OF reads_self [OF r], of "line_at this v"] unfolding c(2) toInt32_id [OF assms(2)]
    by (cases "v < 0") (simp_all, simp add: line_at_def)
qed


text \<open>Ten lines of 20 pixels with a whitespace of 10 pixels after the third line.\<close>

definition sample_layout :: LinesLayout where
  "sample_layout = snd (LinesLayout_changeWhitespace (\<lambda>st. (Inr (), fold accessor_step [Insert_whitespace 3 0 10 0] st)) (fst (new_LinesLayout 0 10 20 5 5)))"

lemma sample_ok: "layout_ok sample_layout"
  unfolding sample_layout_def by (rule layout_step_ok [OF layout_step.changeWhitespace new_ok])

lemma sample_values:
  "whitespaces sample_layout = [new_EditorWhitespace (singleLetterHash 1 @ [49]) 3 0 10 0]" "ll_lineCount sample_layout = 10" "ll_lineHeight sample_layout = 20"
  "ll_paddingTop sample_layout = 5" "ll_paddingBottom sample_layout = 5"
  unfolding sample_layout_def by code_simp+

lemma sample_sized: "sized sample_layout"
  by (simp add: sized_def sample_ok few_def sample_values heights_def new_EditorWhitespace_def is_int32_def)


section \<open>Whitespaces by offset\<close>

lemma member_returns:
  assumes "sized this" "0 \<le> i" "i < int (length (whitespaces this))"
  shows "returns (LinesLayout_getIdForWhitespaceIndex i this) (ws_id (whitespaces this ! nat i)) this"
    "returns (LinesLayout_getAfterLineNumberForWhitespaceIndex i this) (ws_afterLineNumber (whitespaces this ! nat i)) this"
    "returns (LinesLayout_getHeightForWhitespaceIndex i this) (whitespace_height this i) this"
proof -
  obtain k where k: "i = int k" using nonneg_int_cases [OF assms(2)] by blast
  have a: "layout_ok this" "few this" "k < length (whitespaces this)" using assms by (simp_all add: sized_def k)
  show "returns (LinesLayout_getIdForWhitespaceIndex i this) (ws_id (whitespaces this ! nat i)) this"
    "returns (LinesLayout_getAfterLineNumberForWhitespaceIndex i this) (ws_afterLineNumber (whitespaces this ! nat i)) this"
    "returns (LinesLayout_getHeightForWhitespaceIndex i this) (whitespace_height this i) this"
    using whitespace_at_returns [OF a, of ws_id] whitespace_at_returns [OF a, of ws_afterLineNumber] whitespace_at_returns [OF a, of ws_height]
    by (simp_all add: k LinesLayout_getIdForWhitespaceIndex_def LinesLayout_getAfterLineNumberForWhitespaceIndex_def
        LinesLayout_getHeightForWhitespaceIndex_def whitespace_height_def)
qed

lemma reads_whitespace:
  assumes "reads this this'"
  shows "whitespace_top this' = whitespace_top this" "whitespace_height this' = whitespace_height this"
  using reads_same(1) [OF assms] reads_sel [OF assms] by (simp_all add: whitespace_top_def whitespace_height_def fun_eq_iff)

lemma whitespace_top_returns:
  assumes s: "sized this" and i: "0 \<le> i" "i < int (length (whitespaces this))"
  shows "returns (LinesLayout_getVerticalOffsetForWhitespaceIndex i this) (whitespace_top this i) this"
proof -
  let ?a = "ws_afterLineNumber (whitespaces this ! nat i)"
  have ok: "layout_ok this" "few this" using s by (simp_all add: sized_def)
  have i32: "is_int32 i" "is_int32 (i - 1)" using ok(2) i by (simp_all add: few_def is_int32_def)
  have acc: "returns (if i > 0 then LinesLayout_getWhitespacesAccumulatedHeight (i - 1) l else Inr (0, l)) (heights (take (nat i) (whitespaces this))) l"
    if l: "reads this l" for l
  proof (cases "i > 0")
    case True
    then have "nat (i - 1) + 1 = nat i" by simp
    then show ?thesis
      using getWhitespacesAccumulatedHeight_returns [OF reads_same(3) [OF l], of "i - 1"] True i i32(2) reads_same(1) [OF l] by simp
  next
    case False
    then show ?thesis using i returns_Inr [OF reads_self [OF l], of 0] by simp
  qed
  have step: "returns (result_map (\<lambda>(h, m). ((if ?a \<ge> 1 then ll_lineHeight l * ?a else 0) + h + ll_paddingTop m, m))
      (if i > 0 then LinesLayout_getWhitespacesAccumulatedHeight (i - 1) l else Inr (0, l))) (whitespace_top this i) l" if l: "reads this l" for l
    using reads_sel [OF l] by (intro returns_map [OF acc [OF l]]) (auto simp: reads_sel whitespace_top_def max_def)
  show ?thesis
    unfolding LinesLayout_getVerticalOffsetForWhitespaceIndex_def Let_def toInt32_id [OF i32(1)]
  proof (rule returns_check [OF ok(1)])
    fix l assume l: "reads this l"
    have "returns (LinesLayout_getAfterLineNumberForWhitespaceIndex i l) ?a l"
      using member_returns(2) [OF sized_reads [OF s l]] i reads_same(1) [OF l] by simp
    then show "returns (result_bind (LinesLayout_getAfterLineNumberForWhitespaceIndex i l) (\<lambda>(a, l).
        result_map (\<lambda>(h, m). ((if a \<ge> 1 then ll_lineHeight l * a else 0) + h + ll_paddingTop m, m))
          (if i > 0 then LinesLayout_getWhitespacesAccumulatedHeight (i - 1) l else Inr (0, l)))) (whitespace_top this i) l"
      using step reads_trans [OF l] by (intro returns_bind) auto
  qed
qed

text \<open>Two reads one after the other.\<close>

lemma top_and_height:
  assumes s: "sized this" and i: "0 \<le> i" "i < int (length (whitespaces this))"
  obtains this1 this2 where "LinesLayout_getVerticalOffsetForWhitespaceIndex i this = Inr (whitespace_top this i, this1)"
    "LinesLayout_getHeightForWhitespaceIndex i this1 = Inr (whitespace_height this i, this2)" "reads this this2"
proof -
  obtain this1 where 1: "LinesLayout_getVerticalOffsetForWhitespaceIndex i this = Inr (whitespace_top this i, this1)" "reads this this1"
    using whitespace_top_returns [OF assms] by (auto simp: returns_def)
  obtain this2 where 2: "LinesLayout_getHeightForWhitespaceIndex i this1 = Inr (whitespace_height this1 i, this2)" "reads this1 this2"
    using member_returns(3) [OF sized_reads [OF s 1(2)], of i] i reads_same(1) [OF 1(2)] by (auto simp: returns_def)
  show thesis using that [OF 1(1)] 2 reads_whitespace(2) [OF 1(2)] reads_trans [OF 1(2) 2(2)] by simp
qed

lemma whitespaceAt_loop_returns:
  assumes "sized this" "0 \<le> lo" "lo \<le> hi" "hi < int (length (whitespaces this))" "reads this this"
  shows "returns (whitespaceAt_loop v lo hi this) (row_search (whitespace_top this) (whitespace_height this) v lo hi) this"
  using assms
proof (induction "nat (hi - lo)" arbitrary: lo hi this rule: less_induct)
  case less
  show ?case
  proof (cases "lo < hi")
    case True
    define mid where "mid = (lo + hi) div 2"
    have mid: "lo \<le> mid" "mid < hi" using True by (auto simp: mid_def)
    obtain this1 this2 where r: "LinesLayout_getVerticalOffsetForWhitespaceIndex mid this = Inr (whitespace_top this mid, this1)"
        "LinesLayout_getHeightForWhitespaceIndex mid this1 = Inr (whitespace_height this mid, this2)" "reads this this2"
      using top_and_height [OF less(2), of mid] mid less(3,5) by auto
    have s2: "sized this2" by (rule sized_reads [OF less(2) r(3)])
    note same = reads_whitespace [OF r(3)] reads_same(1) [OF r(3)]
    let ?b = "whitespace_top this mid + whitespace_height this mid" and ?s = "row_search (whitespace_top this) (whitespace_height this) v"
    have step: "whitespaceAt_loop v lo hi this =
        (if v \<ge> ?b then whitespaceAt_loop v (mid + 1) hi this2 else if v \<ge> whitespace_top this mid then Inr (mid, this2) else whitespaceAt_loop v lo mid this2)"
      using True r(1,2) by (subst whitespaceAt_loop.simps) (simp add: Let_def flip: mid_def)
    have search: "?s lo hi = (if v \<ge> ?b then ?s (mid + 1) hi else if v \<ge> whitespace_top this mid then mid else ?s lo mid)"
      using True by (subst row_search.simps) (simp add: Let_def flip: mid_def)
    have right: "returns (whitespaceAt_loop v (mid + 1) hi this2) (?s (mid + 1) hi) this2"
      using less(1) [of hi "mid + 1" this2] s2 mid less(3,5) same reads_self [OF r(3)] by simp
    have left: "returns (whitespaceAt_loop v lo mid this2) (?s lo mid) this2"
      using less(1) [of mid lo this2] s2 mid less(3,5) same reads_self [OF r(3)] by simp
    show ?thesis
      using returns_trans [OF r(3) right] returns_trans [OF r(3) left] returns_trans [OF r(3) returns_Inr [OF reads_self [OF r(3)], of mid]]
      unfolding step search by auto
  next
    case False
    then have "whitespaceAt_loop v lo hi this = Inr (lo, this)" "row_search (whitespace_top this) (whitespace_height this) v lo hi = lo"
      by (simp_all add: whitespaceAt_loop.simps row_search.simps)
    then show ?thesis using returns_Inr [OF less(6), of lo] by simp
  qed
qed

text \<open>The index that the search returns, and the data of a whitespace.\<close>

definition whitespace_end :: "LinesLayout \<Rightarrow> number \<Rightarrow> number" where
  "whitespace_end this i = whitespace_top this i + whitespace_height this i"

definition last_index :: "LinesLayout \<Rightarrow> number" where
  "last_index this = int (length (whitespaces this)) - 1"

definition index_at :: "LinesLayout \<Rightarrow> number \<Rightarrow> number" where
  "index_at this v = (if last_index this < 0 \<or> v \<ge> whitespace_end this (last_index this) then - 1
     else row_search (whitespace_top this) (whitespace_height this) v 0 (last_index this))"

definition whitespace_data :: "LinesLayout \<Rightarrow> number \<Rightarrow> IViewWhitespaceViewportData" where
  "whitespace_data this i =
     (let w = whitespaces this ! nat i
      in \<lparr>vw_id = ws_id w, vw_afterLineNumber = ws_afterLineNumber w, vw_verticalOffset = whitespace_top this i, vw_height = ws_height w\<rparr>)"

lemma reads_index:
  assumes "reads this this'"
  shows "whitespace_end this' = whitespace_end this" "last_index this' = last_index this" "index_at this' = index_at this" "whitespace_data this' = whitespace_data this"
  by (rule ext | simp add: whitespace_end_def last_index_def index_at_def whitespace_data_def reads_whitespace [OF assms] reads_same(1) [OF assms])+

lemma index_at_first:
  assumes s: "sized this"
  shows "index_at this v = - 1 \<Longrightarrow> 0 \<le> i \<Longrightarrow> i \<le> last_index this \<Longrightarrow> whitespace_end this i \<le> v"
    "index_at this v \<noteq> - 1 \<Longrightarrow> 0 \<le> index_at this v \<and> index_at this v \<le> last_index this \<and> v < whitespace_end this (index_at this v)"
    "0 \<le> i \<Longrightarrow> i < index_at this v \<Longrightarrow> whitespace_end this i \<le> v"
proof -
  have first: "0 \<le> index_at this v \<and> index_at this v \<le> last_index this \<and> (\<forall>i. 0 \<le> i \<longrightarrow> i < index_at this v \<longrightarrow> whitespace_end this i \<le> v) \<and>
      v < whitespace_end this (index_at this v)" if c: "\<not> (last_index this < 0 \<or> v \<ge> whitespace_end this (last_index this))"
  proof -
    have "index_at this v = row_search (whitespace_top this) (whitespace_height this) v 0 (last_index this)" using c by (simp add: index_at_def)
    then show ?thesis
      using whitespace_rows.search_first [OF s, of 0 "last_index this" v] c by (auto simp: whitespace_end_def last_index_def)
  qed
  show "whitespace_end this i \<le> v" if "index_at this v = - 1" "0 \<le> i" "i \<le> last_index this"
  proof -
    have "last_index this < 0 \<or> v \<ge> whitespace_end this (last_index this)" using first that(1) by linarith
    then show ?thesis using whitespace_rows.ends_mono [OF s that(2,3)] that(2,3) by (auto simp: whitespace_end_def last_index_def)
  qed
  show "0 \<le> index_at this v \<and> index_at this v \<le> last_index this \<and> v < whitespace_end this (index_at this v)" if "index_at this v \<noteq> - 1"
    using first that by (auto simp: index_at_def [of this v])
  show "whitespace_end this i \<le> v" if "0 \<le> i" "i < index_at this v"
    using first that by (auto simp: index_at_def split: if_splits)
qed

lemma count_returns: "reads this l \<Longrightarrow> LinesLayout_getWhitespacesCount l = (last_index this + 1, l)"
  using whitespaces_length [of this l] by (simp add: LinesLayout_getWhitespacesCount_def reads_def last_index_def)

lemma index_at_returns:
  assumes s: "sized this" and v: "is_int32 v"
  shows "returns (LinesLayout_getWhitespaceIndexAtOrAfterVerticallOffset v this) (index_at this v) this"
  unfolding LinesLayout_getWhitespaceIndexAtOrAfterVerticallOffset_def Let_def toInt32_id [OF v]
proof (rule returns_check)
  show "layout_ok this" using s by (simp add: sized_def)
  fix l assume l: "reads this l"
  have sl: "sized l" by (rule sized_reads [OF s l])
  note same = reads_index [OF l] reads_whitespace [OF l] reads_same(1) [OF l]
  have "returns (if last_index this < 0 then Inr (- 1, l) else
      result_bind (LinesLayout_getVerticalOffsetForWhitespaceIndex (last_index this) l) (\<lambda>(t, l).
      result_bind (LinesLayout_getHeightForWhitespaceIndex (last_index this) l) (\<lambda>(h, l).
      if v \<ge> t + h then Inr (- 1, l) else whitespaceAt_loop v 0 (last_index this) l))) (index_at this v) l"
  proof (cases "last_index this < 0")
    case True
    then show ?thesis using returns_Inr [OF reads_self [OF l], of "- 1"] by (simp add: index_at_def)
  next
    case False
    then have i: "0 \<le> last_index this" "last_index this < int (length (whitespaces l))" using same(7) by (simp_all add: last_index_def)
    obtain l1 l2 where r: "LinesLayout_getVerticalOffsetForWhitespaceIndex (last_index this) l = Inr (whitespace_top l (last_index this), l1)"
        "LinesLayout_getHeightForWhitespaceIndex (last_index this) l1 = Inr (whitespace_height l (last_index this), l2)" "reads l l2"
      using top_and_height [OF sl i] by blast
    note l2 = reads_trans [OF l r(3)]
    have "returns (if v \<ge> whitespace_end this (last_index this) then Inr (- 1, l2) else whitespaceAt_loop v 0 (last_index this) l2) (index_at this v) l2"
      using whitespaceAt_loop_returns [OF sized_reads [OF s l2] order_refl, of "last_index this" v] i returns_Inr [OF reads_self [OF l2], of "- 1"] reads_self [OF l2]
        reads_whitespace [OF l2] reads_same(1) [OF l2] same(7) False by (auto simp: index_at_def)
    from returns_trans [OF r(3) this] show ?thesis
      using False r(1,2) same by (simp add: whitespace_end_def)
  qed
  then show "returns (case LinesLayout_getWhitespacesCount l of (n, l) \<Rightarrow> if n - 1 < 0 then Inr (- 1, l) else
      result_bind (LinesLayout_getVerticalOffsetForWhitespaceIndex (n - 1) l) (\<lambda>(t, l).
      result_bind (LinesLayout_getHeightForWhitespaceIndex (n - 1) l) (\<lambda>(h, l).
      if v \<ge> t + h then Inr (- 1, l) else whitespaceAt_loop v 0 (n - 1) l))) (index_at this v) l"
    unfolding count_returns [OF l] by (simp only: prod.case add_diff_cancel_right')
qed

lemma whitespace_data_read:
  assumes s: "sized this" and l: "reads this l" and i: "0 \<le> i" "i \<le> last_index this"
  obtains l1 l2 where "LinesLayout_getIdForWhitespaceIndex i l = Inr (vw_id (whitespace_data this i), l1)"
    "LinesLayout_getAfterLineNumberForWhitespaceIndex i l1 = Inr (vw_afterLineNumber (whitespace_data this i), l2)" "reads l l2"
proof -
  have i': "i < int (length (whitespaces this))" using i(2) by (simp add: last_index_def)
  obtain l1 where 1: "LinesLayout_getIdForWhitespaceIndex i l = Inr (vw_id (whitespace_data this i), l1)" "reads l l1"
    using member_returns(1) [OF sized_reads [OF s l] i(1)] i' reads_same(1) [OF l] by (auto simp: returns_def whitespace_data_def Let_def)
  note t = reads_trans [OF l 1(2)]
  obtain l2 where 2: "LinesLayout_getAfterLineNumberForWhitespaceIndex i l1 = Inr (vw_afterLineNumber (whitespace_data this i), l2)" "reads l1 l2"
    using member_returns(2) [OF sized_reads [OF s t] i(1)] i' reads_same(1) [OF t] by (auto simp: returns_def whitespace_data_def Let_def)
  show thesis using that [OF 1(1) 2(1) reads_trans [OF 1(2) 2(2)]] .
qed

lemma whitespace_data_eq:
  "\<lparr>vw_id = vw_id (whitespace_data this i), vw_afterLineNumber = vw_afterLineNumber (whitespace_data this i), vw_verticalOffset = whitespace_top this i,
    vw_height = whitespace_height this i\<rparr> = whitespace_data this i"
  by (simp add: whitespace_data_def Let_def whitespace_height_def)

lemma whitespace_viewport_loop_returns:
  assumes "sized this" "0 \<le> i" "reads this this"
  shows "returns (whitespace_viewport_loop v (last_index this) i acc this)
    (acc @ map (whitespace_data this) (takeWhile (\<lambda>i. whitespace_top this i < v) [i..last_index this])) this"
  using assms
proof (induction "nat (last_index this + 1 - i)" arbitrary: i acc this rule: less_induct)
  case less
  show ?case
  proof (cases "i \<le> last_index this")
    case True
    then have i: "i < int (length (whitespaces this))" by (simp add: last_index_def)
    obtain l1 l2 where r: "LinesLayout_getVerticalOffsetForWhitespaceIndex i this = Inr (whitespace_top this i, l1)"
        "LinesLayout_getHeightForWhitespaceIndex i l1 = Inr (whitespace_height this i, l2)" "reads this l2"
      using top_and_height [OF less(2,3) i] by blast
    obtain l3 l4 where d: "LinesLayout_getIdForWhitespaceIndex i l2 = Inr (vw_id (whitespace_data this i), l3)"
        "LinesLayout_getAfterLineNumberForWhitespaceIndex i l3 = Inr (vw_afterLineNumber (whitespace_data this i), l4)" "reads l2 l4"
      using whitespace_data_read [OF less(2) r(3) less(3) True] by blast
    note l4 = reads_trans [OF r(3) d(3)]
    have step: "whitespace_viewport_loop v (last_index this) i acc this =
        (if whitespace_top this i \<ge> v then Inr (acc, l2) else whitespace_viewport_loop v (last_index this) (i + 1) (acc @ [whitespace_data this i]) l4)"
      using True r(1,2) d(1,2) by (subst whitespace_viewport_loop.simps) (simp add: whitespace_data_eq)
    have "returns (whitespace_viewport_loop v (last_index this) (i + 1) (acc @ [whitespace_data this i]) l4)
        (acc @ whitespace_data this i # map (whitespace_data this) (takeWhile (\<lambda>i. whitespace_top this i < v) [i + 1..last_index this])) l4"
      using less(1) [of l4 "i + 1" "acc @ [whitespace_data this i]"] sized_reads [OF less(2) l4] less(3) reads_self [OF l4] reads_index [OF l4] reads_whitespace [OF l4] True
      by simp
    note rec = returns_trans [OF l4 this]
    have upto: "[i..last_index this] = i # [i + 1..last_index this]" using True by (simp add: upto_rec1)
    show ?thesis
      using rec returns_trans [OF r(3) returns_Inr [OF reads_self [OF r(3)], of acc]] unfolding step upto by (auto simp: not_less)
  next
    case False
    then show ?thesis using returns_Inr [OF less(4), of acc] by (subst whitespace_viewport_loop.simps) simp
  qed
qed

lemma takeWhile_filter_upto:
  assumes "\<And>i j. a \<le> i \<Longrightarrow> i \<le> j \<Longrightarrow> j \<le> b \<Longrightarrow> f j < (v :: number) \<Longrightarrow> f i < v"
  shows "takeWhile (\<lambda>i. f i < v) [a..b] = filter (\<lambda>i. f i < v) [a..b]"
  using assms
proof (induction "nat (b + 1 - a)" arbitrary: a rule: less_induct)
  case less
  show ?case
  proof (cases "a \<le> b")
    case True
    then have "takeWhile (\<lambda>i. f i < v) [a + 1..b] = filter (\<lambda>i. f i < v) [a + 1..b]" using less(2) by (intro less(1)) auto
    moreover have "filter (\<lambda>i. f i < v) [a + 1..b] = []" if "\<not> f a < v" using less(2) [OF order_refl] that by (force simp: filter_empty_conv)
    ultimately show ?thesis using True by (simp add: upto_rec1)
  qed simp
qed

lemma find_upto:
  assumes "0 \<le> i" "i \<le> n" "P i" "\<And>j. 0 \<le> j \<Longrightarrow> j < i \<Longrightarrow> \<not> P j"
  shows "find P [0..n :: number] = Some i"
proof -
  have "find P [a..n] = Some i" if "0 \<le> a" "a \<le> i" for a
    using that
  proof (induction "nat (i - a)" arbitrary: a rule: less_induct)
    case less
    then show ?case using assms less(1) [of "a + 1"] by (cases "a = i") (auto simp: upto_rec1)
  qed
  then show ?thesis using assms(1) by simp
qed

definition visible_whitespaces :: "LinesLayout \<Rightarrow> number \<Rightarrow> number \<Rightarrow> number list" where
  "visible_whitespaces this v1 v2 = filter (\<lambda>i. v1 < whitespace_end this i \<and> whitespace_top this i < v2) [0..last_index this]"

lemma visible_from_index:
  assumes s: "sized this"
  shows "visible_whitespaces this v1 v2 = (if index_at this v1 = - 1 then []
    else takeWhile (\<lambda>i. whitespace_top this i < v2) [index_at this v1..last_index this])"
proof (cases "index_at this v1 = - 1")
  case True
  then show ?thesis using index_at_first(1) [OF s True] by (force simp: visible_whitespaces_def filter_empty_conv)
next
  case False
  let ?k = "index_at this v1"
  note k = index_at_first(2) [OF s False]
  have "[0..last_index this] = [0..?k - 1] @ [?k..last_index this]" using k upto_split1 [of 0 ?k "last_index this"] by simp
  moreover have "filter (\<lambda>i. v1 < whitespace_end this i \<and> whitespace_top this i < v2) [0..?k - 1] = []"
    using index_at_first(3) [OF s, where v = v1] by (force simp: filter_empty_conv)
  moreover have "filter (\<lambda>i. v1 < whitespace_end this i \<and> whitespace_top this i < v2) [?k..last_index this] = filter (\<lambda>i. whitespace_top this i < v2) [?k..last_index this]"
  proof (rule filter_cong [OF refl])
    fix i assume i: "i \<in> set [?k..last_index this]"
    then have "whitespace_end this ?k \<le> whitespace_end this i"
      using whitespace_rows.ends_mono [OF s, of ?k i] k by (simp add: whitespace_end_def last_index_def)
    then show "(v1 < whitespace_end this i \<and> whitespace_top this i < v2) = (whitespace_top this i < v2)" using k by simp
  qed
  moreover have "takeWhile (\<lambda>i. whitespace_top this i < v2) [?k..last_index this] = filter (\<lambda>i. whitespace_top this i < v2) [?k..last_index this]"
  proof (rule takeWhile_filter_upto)
    fix i j assume "?k \<le> i" "i \<le> j" "j \<le> last_index this" "whitespace_top this j < v2"
    then show "whitespace_top this i < v2" using whitespace_rows.tops_mono [OF s, of i j] k by (simp add: last_index_def)
  qed
  ultimately show ?thesis using False by (simp add: visible_whitespaces_def)
qed

lemma getWhitespaceViewportData_returns:
  assumes s: "sized this" and v: "is_int32 v1" "is_int32 v2"
  shows "returns (LinesLayout_getWhitespaceViewportData v1 v2 this) (map (whitespace_data this) (visible_whitespaces this v1 v2)) this"
  unfolding LinesLayout_getWhitespaceViewportData_def Let_def toInt32_id [OF v(1)] toInt32_id [OF v(2)]
proof (rule returns_check)
  show "layout_ok this" using s by (simp add: sized_def)
  fix l assume l: "reads this l"
  have idx: "returns (LinesLayout_getWhitespaceIndexAtOrAfterVerticallOffset v1 l) (index_at this v1) l"
    using index_at_returns [OF sized_reads [OF s l] v(1)] reads_index [OF l] by simp
  show "returns (result_bind (LinesLayout_getWhitespaceIndexAtOrAfterVerticallOffset v1 l) (\<lambda>(startIndex, l).
      case LinesLayout_getWhitespacesCount l of (n, l) \<Rightarrow> if startIndex < 0 then Inr ([], l) else whitespace_viewport_loop v2 (n - 1) startIndex [] l))
      (map (whitespace_data this) (visible_whitespaces this v1 v2)) l"
  proof (rule returns_bind [OF idx])
    fix m assume "reads l m"
    then have m: "reads this m" by (rule reads_trans [OF l])
    have "returns (if index_at this v1 < 0 then Inr ([], m) else whitespace_viewport_loop v2 (last_index this) (index_at this v1) [] m)
        (map (whitespace_data this) (visible_whitespaces this v1 v2)) m"
      using index_at_first(2) [OF s, of v1] whitespace_viewport_loop_returns [OF sized_reads [OF s m] _ reads_self [OF m], of "index_at this v1" v2 "[]"]
        returns_Inr [OF reads_self [OF m], of "[]"] reads_index [OF m] reads_whitespace [OF m] unfolding visible_from_index [OF s] by (cases "index_at this v1 = - 1") auto
    then show "returns (case (index_at this v1, m) of (startIndex, l) \<Rightarrow> case LinesLayout_getWhitespacesCount l of (n, l) \<Rightarrow>
        if startIndex < 0 then Inr ([], l) else whitespace_viewport_loop v2 (n - 1) startIndex [] l) (map (whitespace_data this) (visible_whitespaces this v1 v2)) m"
      unfolding prod.case count_returns [OF m] by (simp only: prod.case add_diff_cancel_right')
  qed
qed

lemma getWhitespaceAtVerticalOffset_returns:
  assumes s: "sized this" and v: "is_int32 v"
  shows "returns (LinesLayout_getWhitespaceAtVerticalOffset v this)
    (map_option (whitespace_data this) (find (\<lambda>i. whitespace_top this i \<le> v \<and> v < whitespace_end this i) [0..last_index this])) this"
    (is "returns _ ?found this")
  unfolding LinesLayout_getWhitespaceAtVerticalOffset_def Let_def toInt32_id [OF v]
proof (rule returns_check)
  show "layout_ok this" using s by (simp add: sized_def)
  fix l assume l: "reads this l"
  let ?k = "index_at this v"
  let ?rest = "\<lambda>(candidateIndex, l). if candidateIndex < 0 then Inr (None, l) else case LinesLayout_getWhitespacesCount l of (n, l) \<Rightarrow>
      if n \<le> candidateIndex then Inr (None, l) else result_bind (LinesLayout_getVerticalOffsetForWhitespaceIndex candidateIndex l) (\<lambda>(candidateTop, l).
      if v < candidateTop then Inr (None, l) else result_bind (LinesLayout_getHeightForWhitespaceIndex candidateIndex l) (\<lambda>(candidateHeight, l).
      result_bind (LinesLayout_getIdForWhitespaceIndex candidateIndex l) (\<lambda>(candidateId, l).
      result_map (\<lambda>(a, l). (Some \<lparr>vw_id = candidateId, vw_afterLineNumber = a, vw_verticalOffset = candidateTop, vw_height = candidateHeight\<rparr>, l))
        (LinesLayout_getAfterLineNumberForWhitespaceIndex candidateIndex l))))"
  have idx: "returns (LinesLayout_getWhitespaceIndexAtOrAfterVerticallOffset v l) ?k l"
    using index_at_returns [OF sized_reads [OF s l] v] reads_index [OF l] by simp
  show "returns (result_bind (LinesLayout_getWhitespaceIndexAtOrAfterVerticallOffset v l) ?rest) ?found l"
  proof (rule returns_bind [OF idx])
    fix m assume "reads l m"
    then have m: "reads this m" by (rule reads_trans [OF l])
    show "returns (?rest (?k, m)) ?found m"
    proof (cases "?k = - 1")
      case True
      then have "?found = None" using index_at_first(1) [OF s True] by (force simp: find_None_iff)
      then show ?thesis using True returns_Inr [OF reads_self [OF m], of None] by simp
    next
      case False
      note k = index_at_first(2) [OF s False]
      have k': "0 \<le> ?k" "?k < int (length (whitespaces m))" using k reads_same(1) [OF m] by (simp_all add: last_index_def)
      obtain l1 where t: "LinesLayout_getVerticalOffsetForWhitespaceIndex ?k m = Inr (whitespace_top this ?k, l1)" "reads m l1"
        using whitespace_top_returns [OF sized_reads [OF s m] k'] reads_whitespace [OF m] by (auto simp: returns_def)
      note tm = reads_trans [OF m t(2)]
      have rest: "?rest (?k, m) = (if v < whitespace_top this ?k then Inr (None, l1) else result_bind (LinesLayout_getHeightForWhitespaceIndex ?k l1) (\<lambda>(candidateHeight, l).
          result_bind (LinesLayout_getIdForWhitespaceIndex ?k l) (\<lambda>(candidateId, l).
          result_map (\<lambda>(a, l). (Some \<lparr>vw_id = candidateId, vw_afterLineNumber = a, vw_verticalOffset = whitespace_top this ?k, vw_height = candidateHeight\<rparr>, l))
            (LinesLayout_getAfterLineNumberForWhitespaceIndex ?k l))))"
        using k t(1) count_returns [OF m] by simp
      show ?thesis
      proof (cases "v < whitespace_top this ?k")
        case True
        have "whitespace_end this i \<le> v \<or> v < whitespace_top this i" if "0 \<le> i" "i \<le> last_index this" for i
          using index_at_first(3) [OF s that(1), of v] whitespace_rows.tops_mono [OF s, of ?k i] k that True
          by (cases "i < ?k") (auto simp: last_index_def)
        then have "?found = None" by (force simp: find_None_iff)
        then show ?thesis using True returns_trans [OF t(2) returns_Inr [OF reads_self [OF t(2)], of None]] unfolding rest by simp
      next
        case in_it: False
        have "find (\<lambda>i. whitespace_top this i \<le> v \<and> v < whitespace_end this i) [0..last_index this] = Some ?k"
          using k in_it index_at_first(3) [OF s, where v = v] by (intro find_upto) force+
        then have found: "?found = Some (whitespace_data this ?k)" by simp
        obtain l2 where h: "LinesLayout_getHeightForWhitespaceIndex ?k l1 = Inr (whitespace_height this ?k, l2)" "reads l1 l2"
          using member_returns(3) [OF sized_reads [OF s tm] k'(1)] k'(2) reads_same(1) [OF tm] reads_same(1) [OF m] reads_whitespace [OF tm] by (auto simp: returns_def)
        note hm = reads_trans [OF tm h(2)]
        obtain l3 l4 where d: "LinesLayout_getIdForWhitespaceIndex ?k l2 = Inr (vw_id (whitespace_data this ?k), l3)"
            "LinesLayout_getAfterLineNumberForWhitespaceIndex ?k l3 = Inr (vw_afterLineNumber (whitespace_data this ?k), l4)" "reads l2 l4"
          using whitespace_data_read [OF s hm] k by blast
        have "reads m l4" using reads_trans [OF reads_trans [OF t(2) h(2)] d(3)] .
        then show ?thesis unfolding rest found returns_def using in_it h(1) d(1,2) by (simp add: whitespace_data_eq)
      qed
    qed
  qed
qed

text \<open>
  C22. The whitespaces of a viewport are exactly those that lie partly in it, in their order: those that end below its beginning and start above its end.
  And \<open>getWhitespaceAtVerticalOffset\<close> returns the whitespace that covers the offset, if there is one.
\<close>
theorem whitespace_queries_are_exact:
  assumes "sized this" "is_int32 v1" "is_int32 v2"
  shows "returns (LinesLayout_getWhitespaceViewportData v1 v2 this)
      (map (whitespace_data this) (filter (\<lambda>i. v1 < whitespace_end this i \<and> whitespace_top this i < v2) [0..last_index this])) this \<and>
    returns (LinesLayout_getWhitespaceAtVerticalOffset v1 this)
      (map_option (whitespace_data this) (find (\<lambda>i. whitespace_top this i \<le> v1 \<and> v1 < whitespace_end this i) [0..last_index this])) this"
  using getWhitespaceViewportData_returns [OF assms] getWhitespaceAtVerticalOffset_returns [OF assms(1,2)] by (simp add: visible_whitespaces_def)

theorem whitespace_queries_are_exact_witness:
  "returns (LinesLayout_getWhitespaceViewportData 70 200 sample_layout) [whitespace_data sample_layout 0] sample_layout"
proof -
  have "last_index sample_layout = 0" "whitespace_top sample_layout 0 = 65" "whitespace_end sample_layout 0 = 75"
    by (simp_all add: sample_values new_EditorWhitespace_def whitespace_top_def whitespace_end_def whitespace_height_def heights_def last_index_def)
  then show ?thesis using whitespace_queries_are_exact [OF sample_sized, of 70 200] by (simp add: is_int32_def)
qed

section \<open>Lines in a viewport\<close>

text \<open>The variables of the whitespace at which the loop is; \<open>cb\<close> whitespaces come before a line.\<close>

abbreviation cb :: "LinesLayout \<Rightarrow> number \<Rightarrow> nat" where
  "cb this n \<equiv> count_before n (whitespaces this)"

definition at_whitespace :: "LinesLayout \<Rightarrow> number \<Rightarrow> nat \<Rightarrow> viewport \<Rightarrow> bool" where
  "at_whitespace this endLine i vp \<longleftrightarrow>
     vp_whitespaceIndex vp = int i \<and> i \<le> length (whitespaces this) \<and>
     (if i < length (whitespaces this)
      then vp_currentWhitespaceAfterLineNumber vp = ws_afterLineNumber (whitespaces this ! i) \<and> vp_currentWhitespaceHeight vp = ws_height (whitespaces this ! i)
      else vp_currentWhitespaceAfterLineNumber vp = endLine + 1)"

definition lower :: "number \<Rightarrow> viewport \<Rightarrow> viewport" where
  "lower d vp = vp\<lparr>vp_currentLineRelativeOffset := vp_currentLineRelativeOffset vp + d, vp_currentVerticalOffset := vp_currentVerticalOffset vp + d\<rparr>"

lemma cb_iff: "sized this \<Longrightarrow> i < length (whitespaces this) \<Longrightarrow> ws_afterLineNumber (whitespaces this ! i) < n \<longleftrightarrow> i < cb this n"
  using count_before_prefix [OF whitespaces_by_line, of this n] by (auto simp: true_prefix_def sized_def)

lemma height_above_take: "sized this \<Longrightarrow> height_above n (whitespaces this) = heights (take (cb this n) (whitespaces this))"
  using filter_before [OF whitespaces_by_line, of this n] by (simp add: height_above_def sized_def)

lemma height_int32:
  assumes s: "sized this" and i: "i < length (whitespaces this)"
  shows "is_int32 (ws_height (whitespaces this ! i))"
proof -
  have nn: "\<And>w. w \<in> set (whitespaces this) \<Longrightarrow> 0 \<le> ws_height w" using s by (auto simp: sized_def)
  have "heights (take (Suc i) (whitespaces this)) \<le> heights (whitespaces this)"
    using heights_take_mono [of "whitespaces this" "Suc i" "length (whitespaces this)"] nn i by simp
  moreover have "0 \<le> heights (take i (whitespaces this))" using nn by (intro heights_nonneg) (auto dest: in_set_takeD)
  moreover have "0 \<le> ll_lineHeight this * ll_lineCount this" using s by (auto simp: sized_def)
  moreover have "0 \<le> ws_height (whitespaces this ! i)" using nn i by simp
  moreover have "ll_lineHeight this * ll_lineCount this + heights (whitespaces this) + ll_paddingTop this + ll_paddingBottom this < 2147483648"
      "0 \<le> ll_paddingTop this" "0 \<le> ll_paddingBottom this" using s by (auto simp: sized_def)
  ultimately show ?thesis unfolding heights_take_Suc [OF i] is_int32_def by linarith
qed

lemma viewport_whitespaces_returns:
  assumes "sized this" "reads this this" "n \<le> endLine" "at_whitespace this endLine i vp" "cb this n \<le> i" "i \<le> cb this (n + 1)"
  shows "\<exists>vp'. returns (viewport_whitespaces n endLine (int (length (whitespaces this))) vp this) vp' this \<and> at_whitespace this endLine (cb this (n + 1)) vp' \<and>
    vp_linesOffsets vp' = vp_linesOffsets vp \<and> vp_centeredLineNumber vp' = vp_centeredLineNumber vp \<and>
    vp_currentVerticalOffset vp' = vp_currentVerticalOffset vp + heights (take (cb this (n + 1)) (whitespaces this)) - heights (take i (whitespaces this)) \<and>
    vp_currentLineRelativeOffset vp' = vp_currentLineRelativeOffset vp + heights (take (cb this (n + 1)) (whitespaces this)) - heights (take i (whitespaces this))"
  using assms
proof (induction "length (whitespaces this) - i" arbitrary: i vp this rule: less_induct)
  case less
  note s = less(2) and w = less(5)
  let ?ws = "whitespaces this"
  show ?case
  proof (cases "vp_currentWhitespaceAfterLineNumber vp = n")
    case True
    then have i: "i < length ?ws" using w less(4) by (auto simp: at_whitespace_def split: if_splits)
    then have a: "ws_afterLineNumber (?ws ! i) = n" "vp_currentWhitespaceHeight vp = ws_height (?ws ! i)" using w True by (simp_all add: at_whitespace_def)
    then have i1: "Suc i \<le> cb this (n + 1)" using cb_iff [OF s i, of "n + 1"] by simp
    define vp1 where "vp1 = (lower (ws_height (?ws ! i)) vp)\<lparr>vp_whitespaceIndex := int (Suc i)\<rparr>"
    have vp1: "vp\<lparr>vp_currentLineRelativeOffset := vp_currentLineRelativeOffset vp + vp_currentWhitespaceHeight vp,
        vp_currentVerticalOffset := vp_currentVerticalOffset vp + vp_currentWhitespaceHeight vp, vp_whitespaceIndex := vp_whitespaceIndex vp + 1\<rparr> = vp1"
      using w a(2) by (simp add: vp1_def lower_def at_whitespace_def)
    show ?thesis
    proof (cases "Suc i < length ?ws")
      case False
      have "viewport_whitespaces n endLine (int (length ?ws)) vp this = Inr (vp1\<lparr>vp_currentWhitespaceAfterLineNumber := endLine + 1\<rparr>, this)"
        using True vp1 False i by (subst viewport_whitespaces.simps) (simp add: Let_def vp1_def)
      moreover have "cb this (n + 1) = Suc i" using i1 False i count_before_le [of "n + 1" ?ws] by simp
      moreover have "at_whitespace this endLine (Suc i) (vp1\<lparr>vp_currentWhitespaceAfterLineNumber := endLine + 1\<rparr>)"
        using False i by (simp add: at_whitespace_def vp1_def)
      ultimately show ?thesis
        using returns_Inr [OF less(3), of "vp1\<lparr>vp_currentWhitespaceAfterLineNumber := endLine + 1\<rparr>"] i
        by (intro exI [of _ "vp1\<lparr>vp_currentWhitespaceAfterLineNumber := endLine + 1\<rparr>"]) (simp add: vp1_def lower_def heights_take_Suc)
    next
      case more: True
      obtain l1 where r1: "LinesLayout_getAfterLineNumberForWhitespaceIndex (int (Suc i)) this = Inr (ws_afterLineNumber (?ws ! Suc i), l1)" "reads this l1"
        using member_returns(2) [OF s, of "int (Suc i)"] more by (auto simp: returns_def nat_add_distrib)
      obtain l2 where r2: "LinesLayout_getHeightForWhitespaceIndex (int (Suc i)) l1 = Inr (ws_height (?ws ! Suc i), l2)" "reads l1 l2"
        using member_returns(3) [OF sized_reads [OF s r1(2)], of "int (Suc i)"] more reads_same(1) [OF r1(2)]
        by (auto simp: returns_def whitespace_height_def nat_add_distrib)
      note r = reads_trans [OF r1(2) r2(2)]
      define vp2 where "vp2 = vp1\<lparr>vp_currentWhitespaceAfterLineNumber := ws_afterLineNumber (?ws ! Suc i), vp_currentWhitespaceHeight := ws_height (?ws ! Suc i)\<rparr>"
      have i32: "is_int32 (ws_afterLineNumber (?ws ! Suc i))" "is_int32 (ws_height (?ws ! Suc i))"
        using s more height_int32 [OF s more] by (auto simp: sized_def)
      have idx: "vp_whitespaceIndex vp1 = int (Suc i)" by (simp add: vp1_def)
      have step: "viewport_whitespaces n endLine (int (length ?ws)) vp this = viewport_whitespaces n endLine (int (length ?ws)) vp2 l2"
        using True vp1 more r1(1) r2(1) i32 unfolding vp2_def
        by (subst viewport_whitespaces.simps) (simp add: Let_def idx)
      have same: "whitespaces l2 = ?ws" by (rule reads_same(1) [OF r])
      have at2: "at_whitespace l2 endLine (Suc i) vp2" using more by (simp add: at_whitespace_def vp2_def vp1_def same)
      have fewer: "length (whitespaces l2) - Suc i < length ?ws - i" and c: "cb l2 n \<le> Suc i" "Suc i \<le> cb l2 (n + 1)"
        using i i1 less(6) by (simp_all add: same)
      obtain vp' where vp': "returns (viewport_whitespaces n endLine (int (length ?ws)) vp2 l2) vp' l2" "at_whitespace l2 endLine (cb this (n + 1)) vp'"
          "vp_linesOffsets vp' = vp_linesOffsets vp2" "vp_centeredLineNumber vp' = vp_centeredLineNumber vp2"
          "vp_currentVerticalOffset vp' = vp_currentVerticalOffset vp2 + heights (take (cb this (n + 1)) ?ws) - heights (take (Suc i) ?ws)"
          "vp_currentLineRelativeOffset vp' = vp_currentLineRelativeOffset vp2 + heights (take (cb this (n + 1)) ?ws) - heights (take (Suc i) ?ws)"
        using less(1) [OF fewer sized_reads [OF s r] reads_self [OF r] less(4) at2 c, unfolded same] by blast
      have "at_whitespace this endLine (cb this (n + 1)) vp'" using vp'(2) by (simp add: at_whitespace_def same)
      then show ?thesis unfolding step using returns_trans [OF r vp'(1)] vp'(3-6) i
        by (intro exI [of _ vp']) (simp add: vp2_def vp1_def lower_def heights_take_Suc)
    qed
  next
    case False
    have "i = cb this (n + 1)"
    proof (cases "i < length ?ws")
      case True
      then have "\<not> ws_afterLineNumber (?ws ! i) < n" "ws_afterLineNumber (?ws ! i) \<noteq> n" using cb_iff [OF s True, of n] less(6) w False by (auto simp: at_whitespace_def)
      then have "\<not> i < cb this (n + 1)" using cb_iff [OF s True, of "n + 1"] by simp
      then show ?thesis using less(7) by simp
    next
      case False
      then show ?thesis using less(7) count_before_le [of "n + 1" ?ws] by simp
    qed
    moreover have "viewport_whitespaces n endLine (int (length ?ws)) vp this = Inr (vp, this)" using False by (subst viewport_whitespaces.simps) simp
    ultimately show ?thesis using returns_Inr [OF less(3), of vp] w by (intro exI [of _ vp]) simp
  qed
qed

lemma line_top_Suc:
  assumes "sized this" "1 \<le> n"
  shows "line_top this (n + 1) = line_top this n + ll_lineHeight this + heights (take (cb this (n + 1)) (whitespaces this)) - heights (take (cb this n) (whitespaces this))"
  using assms(2) by (simp add: line_top_def height_above_take [OF assms(1)] algebra_simps)

definition viewport_end :: "LinesLayout \<Rightarrow> number \<Rightarrow> number \<Rightarrow> number" where
  "viewport_end this v n = (case find (\<lambda>k. v \<le> line_top this (k + 1)) [n..ll_lineCount this] of Some k \<Rightarrow> k | None \<Rightarrow> ll_lineCount this)"

definition centered_from :: "LinesLayout \<Rightarrow> rat \<Rightarrow> number \<Rightarrow> number \<Rightarrow> number option" where
  "centered_from this center n e = find (\<lambda>k. center < of_int (line_top this k + ll_lineHeight this)) [n..e]"

lemma find_SomeD: "find P [a..b] = Some (k::int) \<Longrightarrow> a \<le> k \<and> k \<le> b \<and> P k"
  by (auto simp: find_Some_iff nth_upto)

lemma viewport_end_bounds:
  assumes "n \<le> ll_lineCount this"
  shows "n \<le> viewport_end this v n" "viewport_end this v n \<le> ll_lineCount this" "n \<le> viewport_end this v (n + 1)"
    "n \<le> k \<Longrightarrow> k < viewport_end this v n \<Longrightarrow> line_top this (k + 1) < v"
    "viewport_end this v n < ll_lineCount this \<Longrightarrow> v \<le> line_top this (viewport_end this v n + 1)"
proof -
  let ?P = "\<lambda>k. v \<le> line_top this (k + 1)"
  show "n \<le> viewport_end this v n" "viewport_end this v n \<le> ll_lineCount this" "n \<le> viewport_end this v (n + 1)"
    using assms by (auto simp: viewport_end_def find_Some_iff split: option.splits dest!: nth_mem)
  show "line_top this (k + 1) < v" if "n \<le> k" "k < viewport_end this v n" for k
  proof (cases "find ?P [n..ll_lineCount this]")
    case None
    then have "k < ll_lineCount this" using that(2) by (simp add: viewport_end_def)
    moreover have "\<forall>x \<le> ll_lineCount this. n \<le> x \<longrightarrow> \<not> ?P x" using None by (auto simp: find_None_iff)
    ultimately show ?thesis using that(1) by (meson less_imp_le not_le)
  next
    case (Some m)
    then obtain j where j: "j < length [n..ll_lineCount this]" "m = [n..ll_lineCount this] ! j" "\<And>i. i < j \<Longrightarrow> \<not> ?P ([n..ll_lineCount this] ! i)"
      by (auto simp: find_Some_iff)
    have "nat (k - n) < j" using j(1,2) that Some by (simp add: viewport_end_def nth_upto)
    then show ?thesis using j(3) [of "nat (k - n)"] j(1) that(1) by (simp add: nth_upto)
  qed
  show "v \<le> line_top this (viewport_end this v n + 1)" if "viewport_end this v n < ll_lineCount this"
    using that by (auto simp: viewport_end_def split: option.splits dest: find_SomeD)
qed

lemma centered_condition: "0 < h \<Longrightarrow> (of_int t \<le> c \<and> c < of_int (t + h) \<or> of_int t > c) \<longleftrightarrow> c < (of_int (t + h) :: rat)"
  by auto

lemma viewport_lines_returns:
  assumes "sized this" "reads this this" "1 \<le> n" "n \<le> ll_lineCount this + 1" "at_whitespace this (ll_lineCount this) (cb this n) vp"
    "vp_currentVerticalOffset vp = line_top this n" "vp_currentLineRelativeOffset vp = line_top this n - shift"
  shows "\<exists>vp'. returns (viewport_lines v center (ll_lineHeight this) (int (length (whitespaces this))) (ll_lineCount this) n vp this) (viewport_end this v n, vp') this \<and>
    vp_linesOffsets vp' = vp_linesOffsets vp @ map (\<lambda>k. line_top this k - shift) [n..viewport_end this v n] \<and>
    vp_centeredLineNumber vp' = (if vp_centeredLineNumber vp \<noteq> - 1 then vp_centeredLineNumber vp
      else case centered_from this center n (viewport_end this v n) of Some k \<Rightarrow> k | None \<Rightarrow> - 1)"
  using assms
proof (induction "nat (ll_lineCount this + 1 - n)" arbitrary: n vp this rule: less_induct)
  case less
  note s = less(2)
  let ?h = "ll_lineHeight this" and ?e = "ll_lineCount this" and ?C = "int (length (whitespaces this))"
  show ?case
  proof (cases "n \<le> ?e")
    case True
    have h: "0 < ?h" using s by (simp add: sized_def)
    define vp1 where "vp1 = viewport_line ?h center n vp"
    have c1: "vp_centeredLineNumber vp1 = (if vp_centeredLineNumber vp \<noteq> - 1 then vp_centeredLineNumber vp else if center < of_int (line_top this n + ?h) then n else - 1)"
      using less(7) centered_condition [OF h, of "line_top this n" center] by (simp add: vp1_def viewport_line_def Let_def)
    have at1: "at_whitespace this ?e (cb this n) vp1" using less(6) by (simp add: at_whitespace_def vp1_def viewport_line_def Let_def)
    have "cb this n \<le> cb this (n + 1)"
      using cb_iff [OF s, of _ n] cb_iff [OF s, of _ "n + 1"] count_before_le [of n "whitespaces this"] by (metis le_less_linear less_le_trans less_irrefl zless_add1_eq)
    then obtain vp2 where vp2: "returns (viewport_whitespaces n ?e ?C vp1 this) vp2 this" "at_whitespace this ?e (cb this (n + 1)) vp2"
        "vp_linesOffsets vp2 = vp_linesOffsets vp1" "vp_centeredLineNumber vp2 = vp_centeredLineNumber vp1"
        "vp_currentVerticalOffset vp2 = vp_currentVerticalOffset vp1 + heights (take (cb this (n + 1)) (whitespaces this)) - heights (take (cb this n) (whitespaces this))"
        "vp_currentLineRelativeOffset vp2 = vp_currentLineRelativeOffset vp1 + heights (take (cb this (n + 1)) (whitespaces this)) - heights (take (cb this n) (whitespaces this))"
      using viewport_whitespaces_returns [OF s less(3) True at1 order_refl] by blast
    have tops: "vp_currentVerticalOffset vp2 = line_top this (n + 1)" "vp_currentLineRelativeOffset vp2 = line_top this (n + 1) - shift"
        "vp_linesOffsets vp2 = vp_linesOffsets vp @ [line_top this n - shift]"
      using vp2(3,5,6) less(7,8) line_top_Suc [OF s less(4)] by (simp_all add: vp1_def viewport_line_def Let_def)
    obtain l where l: "viewport_whitespaces n ?e ?C vp1 this = Inr (vp2, l)" "reads this l" using vp2(1) by (auto simp: returns_def)
    have step: "viewport_lines v center ?h ?C ?e n vp this =
        (if v \<le> line_top this (n + 1) then Inr ((n, vp2), l) else viewport_lines v center ?h ?C ?e (n + 1) vp2 l)"
      using True l(1) tops(1) by (subst viewport_lines.simps) (simp flip: vp1_def)
    have upto: "[n..?e] = n # [n + 1..?e]" using True by (simp add: upto_rec1)
    show ?thesis
    proof (cases "v \<le> line_top this (n + 1)")
      case stop: True
      have "viewport_end this v n = n" using stop by (simp add: viewport_end_def upto)
      then show ?thesis unfolding step
        using stop returns_trans [OF l(2) returns_Inr [OF reads_self [OF l(2)], of "(n, vp2)"]] tops(3) vp2(4) c1
        by (intro exI [of _ vp2]) (simp add: centered_from_def upto_rec1)
    next
      case go: False
      have e: "viewport_end this v n = viewport_end this v (n + 1)" using go by (simp add: viewport_end_def upto)
      have n: "[n..viewport_end this v (n + 1)] = n # [n + 1..viewport_end this v (n + 1)]"
        using viewport_end_bounds(3) [OF True, of v] by (simp add: upto_rec1)
      note same = reads_same(1,4) [OF l(2)] reads_sel(1,2) [OF l(2)]
      have e': "viewport_end l = viewport_end this" "centered_from l = centered_from this" by (simp_all only: fun_eq_iff viewport_end_def centered_from_def same simp_thms)
      have at2: "at_whitespace l ?e (cb this (n + 1)) vp2" using vp2(2) by (simp add: at_whitespace_def same)
      obtain vp' where vp': "returns (viewport_lines v center ?h ?C ?e (n + 1) vp2 l) (viewport_end this v (n + 1), vp') l"
          "vp_linesOffsets vp' = vp_linesOffsets vp2 @ map (\<lambda>k. line_top this k - shift) [n + 1..viewport_end this v (n + 1)]"
          "vp_centeredLineNumber vp' = (if vp_centeredLineNumber vp2 \<noteq> - 1 then vp_centeredLineNumber vp2
            else case centered_from this center (n + 1) (viewport_end this v (n + 1)) of Some k \<Rightarrow> k | None \<Rightarrow> - 1)"
        using less(1) [of l "n + 1" vp2] sized_reads [OF s l(2)] reads_self [OF l(2)] less(4) True at2 tops(1,2) unfolding same e' by auto
      show ?thesis unfolding step e
        using go returns_trans [OF l(2) vp'(1)] vp'(2,3) tops(3) vp2(4) c1 less(4)
        by (intro exI [of _ vp']) (simp add: n centered_from_def)
    qed
  next
    case False
    then have "viewport_lines v center ?h ?C ?e n vp this = Inr ((?e, vp), this)" by (subst viewport_lines.simps) simp
    then show ?thesis using False returns_Inr [OF less(3), of "(?e, vp)"] by (intro exI [of _ vp]) (simp add: viewport_end_def centered_from_def)
  qed
qed

definition viewport_data :: "LinesLayout \<Rightarrow> number \<Rightarrow> number \<Rightarrow> IPartialViewLinesViewportData" where
  "viewport_data this v1 v2 =
     (let h = ll_lineHeight this; s = line_at this v1; e = viewport_end this v2 s; shift = bigNumbersDelta_of (line_top this s) h;
          vs = (if s < e \<and> line_top this s < v1 then s + 1 else s); ve = (if vs < e \<and> line_top this e + h > v2 then e - 1 else e)
      in \<lparr>vd_bigNumbersDelta = shift, vd_startLineNumber = s, vd_endLineNumber = e, vd_relativeVerticalOffset = map (\<lambda>k. line_top this k - shift) [s..e],
          vd_centeredLineNumber = (case centered_from this (of_int v1 + of_int (v2 - v1) / 2) s e of Some k \<Rightarrow> k | None \<Rightarrow> e),
          vd_completelyVisibleStartLineNumber = vs, vd_completelyVisibleEndLineNumber = ve\<rparr>)"

lemma first_whitespace_returns:
  assumes s: "sized this" and l: "reads this l" and n: "1 \<le> n" "n \<le> ll_lineCount this"
  shows "\<exists>a h. returns (first_whitespace n (ll_lineCount this) l) (int (cb this n), int (length (whitespaces this)), a, h) l \<and>
    (if cb this n < length (whitespaces this)
     then a = ws_afterLineNumber (whitespaces this ! cb this n) \<and> h = ws_height (whitespaces this ! cb this n) else a = ll_lineCount this + 1)"
proof -
  let ?ws = "whitespaces this" and ?k = "cb this n"
  have n32: "is_int32 n" using line_top_bounds(4) [OF s n] .
  have len: "length (ll_arr l) = length ?ws" by (rule whitespaces_length [OF l])
  have few: "int (length ?ws) < 2147483648" using s by (simp add: sized_def few_def)
  have kle: "?k \<le> length ?ws" by (rule count_before_le)
  have chk: "LinesLayout_checkPendingChanges l = l" using l by (simp add: reads_def)
  have first: "LinesLayout_getFirstWhitespaceIndexAfterLineNumber n l = (if ?k < length ?ws then int ?k else - 1, l)"
    using findLast_reads [OF l n32] n32 len
    by (simp add: LinesLayout_getFirstWhitespaceIndexAfterLineNumber_def LinesLayout_findFirstWhitespaceAfterLineNumber_def Let_def chk)
  have cnt: "LinesLayout_getWhitespacesCount l = (int (length ?ws), l)" using len by (simp add: LinesLayout_getWhitespacesCount_def chk)
  have c32: "toInt32 (int (length ?ws)) = int (length ?ws)" "toInt32 (int ?k) = int ?k" "toInt32 (- 1) = - 1"
    using few kle by (simp_all add: is_int32_def)
  show ?thesis
  proof (cases "?k < length ?ws")
    case False
    then have "first_whitespace n (ll_lineCount this) l = Inr ((int ?k, int (length ?ws), ll_lineCount this + 1, 0), l)"
      using kle by (simp add: first_whitespace_def first cnt c32 Let_def)
    then show ?thesis using False returns_Inr [OF reads_self [OF l], of "(int ?k, int (length ?ws), ll_lineCount this + 1, 0)"] by auto
  next
    case True
    have i: "0 \<le> int ?k" "int ?k < int (length (whitespaces l))" using True reads_same(1) [OF l] by simp_all
    have i32: "toInt32 (ws_afterLineNumber (?ws ! ?k)) = ws_afterLineNumber (?ws ! ?k)" "toInt32 (ws_height (?ws ! ?k)) = ws_height (?ws ! ?k)"
      using s True height_int32 [OF s True] by (auto simp: sized_def)
    have a: "returns (LinesLayout_getAfterLineNumberForWhitespaceIndex (int ?k) l) (ws_afterLineNumber (?ws ! ?k)) l"
      using member_returns(2) [OF sized_reads [OF s l] i] reads_same(1) [OF l] by simp
    have "returns (first_whitespace n (ll_lineCount this) l) (int ?k, int (length ?ws), ws_afterLineNumber (?ws ! ?k), ws_height (?ws ! ?k)) l"
    proof -
      have "first_whitespace n (ll_lineCount this) l =
          result_bind (LinesLayout_getAfterLineNumberForWhitespaceIndex (int ?k) l) (\<lambda>(a, l).
          result_map (\<lambda>(h, l). ((int ?k, int (length ?ws), toInt32 a, toInt32 h), l)) (LinesLayout_getHeightForWhitespaceIndex (int ?k) l))"
        using True by (simp add: first_whitespace_def first cnt c32 Let_def)
      also have "returns \<dots> (int ?k, int (length ?ws), ws_afterLineNumber (?ws ! ?k), ws_height (?ws ! ?k)) l"
      proof (rule returns_bind [OF a])
        fix m assume m: "reads l m"
        have "returns (LinesLayout_getHeightForWhitespaceIndex (int ?k) m) (ws_height (?ws ! ?k)) m"
          using member_returns(3) [OF sized_reads [OF sized_reads [OF s l] m] i(1)] i(2) reads_same(1) [OF l] reads_same(1) [OF m] by (simp add: whitespace_height_def)
        then show "returns (case (ws_afterLineNumber (?ws ! ?k), m) of (a, l) \<Rightarrow>
            result_map (\<lambda>(h, l). ((int ?k, int (length ?ws), toInt32 a, toInt32 h), l)) (LinesLayout_getHeightForWhitespaceIndex (int ?k) l))
            (int ?k, int (length ?ws), ws_afterLineNumber (?ws ! ?k), ws_height (?ws ! ?k)) m"
          by (simp add: i32(1)) (rule returns_map, auto simp: i32(2))
      qed
      finally show ?thesis .
    qed
    then show ?thesis using True by auto
  qed
qed

lemma offset_returns:
  assumes s: "sized this" and l: "reads this l" and n: "1 \<le> n" "n \<le> ll_lineCount this"
  obtains m where "LinesLayout_getVerticalOffsetForLineNumber n False l = Inr (line_top this n, m)" "reads this m" "reads l m"
proof -
  note b = line_top_bounds(4,5) [OF s n]
  have "layout_ok l" "few l" using sized_reads [OF s l] by (simp_all add: sized_def)
  from line_top_returns [OF this b] reads_same(4) [OF l] obtain m where "LinesLayout_getVerticalOffsetForLineNumber n False l = Inr (line_top this n, m)" "reads l m"
    by (auto simp: returns_def)
  then show thesis using that reads_trans [OF l] by blast
qed

lemma getLinesViewportData_returns:
  assumes s: "sized this" and v: "is_int32 v1" "is_int32 v2"
  shows "returns (LinesLayout_getLinesViewportData v1 v2 this) (viewport_data this v1 v2) this"
proof -
  let ?e = "ll_lineCount this" and ?h = "ll_lineHeight this" and ?C = "int (length (whitespaces this))"
  define n where "n = line_at this v1"
  have n: "1 \<le> n" "n \<le> ?e" using line_at_first(1,2) [OF s] by (simp_all add: n_def)
  have e32: "toInt32 ?e = ?e" "toInt32 n = n" "toInt32 (line_top this n) = line_top this n"
    using line_top_bounds(4) [OF s, of ?e] line_top_bounds(3,4) [OF s n] s by (simp_all add: sized_def)
  define l0 where "l0 = LinesLayout_checkPendingChanges this"
  have l0: "reads this l0" using reads_check [of this] s by (simp add: l0_def sized_def)
  obtain l1 where l1: "LinesLayout_getLineNumberAtOrAfterVerticalOffset v1 l0 = Inr (n, l1)" "reads l0 l1"
  proof -
    have "line_at l0 v1 = n" using reads_same(4) [OF l0] reads_sel [OF l0] by (simp add: n_def line_at_def)
    then show thesis using getLineNumberAtOrAfterVerticalOffset_returns [OF sized_reads [OF s l0] v(1)] that by (auto simp: returns_def)
  qed
  note t1 = reads_trans [OF l0 l1(2)]
  obtain l2 where l2: "LinesLayout_getVerticalOffsetForLineNumber n False l1 = Inr (line_top this n, l2)" "reads this l2" using offset_returns [OF s t1 n] by blast
  obtain a h l3 where l3: "first_whitespace n ?e l2 = Inr ((int (cb this n), ?C, a, h), l3)" "reads l2 l3" and
    ah: "if cb this n < length (whitespaces this) then a = ws_afterLineNumber (whitespaces this ! cb this n) \<and> h = ws_height (whitespaces this ! cb this n) else a = ?e + 1"
    using first_whitespace_returns [OF s l2(2) n] by (auto simp: returns_def)
  note t3 = reads_trans [OF l2(2) l3(2)]
  define shift where "shift = bigNumbersDelta_of (line_top this n) ?h"
  define vp where "vp = \<lparr>vp_currentVerticalOffset = line_top this n, vp_currentLineRelativeOffset = line_top this n - shift, vp_linesOffsets = [],
      vp_centeredLineNumber = - 1, vp_whitespaceIndex = int (cb this n), vp_currentWhitespaceAfterLineNumber = a, vp_currentWhitespaceHeight = h\<rparr>"
  define center :: rat where "center = of_int v1 + (of_int v2 - of_int v1) / 2"
  define e where "e = viewport_end this v2 n"
  have e: "n \<le> e" "e \<le> ?e" using viewport_end_bounds(1,2) [OF n(2)] by (simp_all add: e_def)
  have same: "whitespaces l3 = whitespaces this" "line_top l3 = line_top this" "ll_lineCount l3 = ?e" "ll_lineHeight l3 = ?h"
    using reads_same [OF t3] reads_sel [OF t3] by simp_all
  have same': "viewport_end l3 = viewport_end this" "centered_from l3 = centered_from this"
    by (simp_all only: fun_eq_iff viewport_end_def centered_from_def same simp_thms)
  have at: "at_whitespace l3 ?e (cb this n) vp" using ah count_before_le [of n "whitespaces this"] by (simp add: at_whitespace_def vp_def same)
  obtain vp' l4 where vp': "viewport_lines v2 center ?h ?C ?e n vp l3 = Inr ((e, vp'), l4)" "reads l3 l4"
      "vp_linesOffsets vp' = map (\<lambda>k. line_top this k - shift) [n..e]" "vp_centeredLineNumber vp' = (case centered_from this center n e of Some k \<Rightarrow> k | None \<Rightarrow> - 1)"
    using viewport_lines_returns [OF sized_reads [OF s t3] reads_self [OF t3] n(1), of vp shift v2 center, unfolded same same', folded e_def] n(2) at
    by (auto simp: returns_def vp_def)
  note t4 = reads_trans [OF t3 vp'(2)]
  have e1: "1 \<le> e" using n(1) e(1) by simp
  obtain l5 where l5: "LinesLayout_getVerticalOffsetForLineNumber e False l4 = Inr (line_top this e, l5)" "reads this l5" using offset_returns [OF s t4 e1 e(2)] by blast
  have e32': "toInt32 (line_top this e) = line_top this e" using line_top_bounds(3) [OF s e1 e(2)] by simp
  have centered: "(if vp_centeredLineNumber vp' = - 1 then e else vp_centeredLineNumber vp') = (case centered_from this center n e of Some k \<Rightarrow> k | None \<Rightarrow> e)"
    using n(1) unfolding vp'(4) by (auto simp: centered_from_def split: option.splits dest: find_SomeD)
  have "LinesLayout_getLinesViewportData v1 v2 this = Inr (viewport_data this v1 v2, l5)"
    using l1(1) l2(1) l3(1) vp'(1,3) l5(1) centered reads_sel [OF l0] reads_sel [OF l2(2)]
    by (simp add: LinesLayout_getLinesViewportData_def Let_def toInt32_id [OF v(1)] toInt32_id [OF v(2)] e32 e32' flip: l0_def shift_def vp_def center_def)
      (simp add: viewport_data_def Let_def cong: option.case_cong flip: n_def e_def shift_def center_def)
  then show ?thesis using l5(2) by (auto simp: returns_def)
qed

lemma bigNumbersDelta_bounds:
  assumes "0 < h" "0 \<le> t"
  shows "h dvd bigNumbersDelta_of t h" "0 \<le> t - bigNumbersDelta_of t h" "t - bigNumbersDelta_of t h < 500000 + h"
proof -
  let ?s = "500000 :: int"
  have a: "t div ?s * ?s \<le> t" "t < t div ?s * ?s + ?s"
    using div_mult_mod_eq [of t ?s] pos_mod_sign [of ?s t] pos_mod_bound [of ?s t] by linarith+
  have b: "x div h * h \<le> x" "x < x div h * h + h" for x
    using assms(1) div_mult_mod_eq [of x h] pos_mod_sign [of h x] pos_mod_bound [of h x] by linarith+
  show "h dvd bigNumbersDelta_of t h" by (simp add: bigNumbersDelta_of_def Let_def)
  show "0 \<le> t - bigNumbersDelta_of t h" "t - bigNumbersDelta_of t h < 500000 + h"
    using a b [of "t div ?s * ?s"] assms by (simp_all add: bigNumbersDelta_of_def Let_def)
qed

lemma viewport_data_lines:
  assumes s: "sized this" and d: "data = viewport_data this v1 v2"
  shows "1 \<le> vd_startLineNumber data" "vd_startLineNumber data \<le> vd_endLineNumber data" "vd_endLineNumber data \<le> ll_lineCount this"
    "\<lbrakk>1 \<le> k; k \<le> ll_lineCount this; v1 < line_top this k + ll_lineHeight this; line_top this k < v2\<rbrakk> \<Longrightarrow> vd_startLineNumber data \<le> k \<and> k \<le> vd_endLineNumber data"
proof -
  define n where "n = line_at this v1"
  note f = line_at_first [OF s, where v = v1, folded n_def]
  note e = viewport_end_bounds [OF f(2), where v = v2]
  have sel: "vd_startLineNumber data = n" "vd_endLineNumber data = viewport_end this v2 n" by (simp_all add: d viewport_data_def Let_def n_def)
  show "1 \<le> vd_startLineNumber data" "vd_startLineNumber data \<le> vd_endLineNumber data" "vd_endLineNumber data \<le> ll_lineCount this"
    using f(1) e(1,2) by (simp_all add: sel)
  assume k: "1 \<le> k" "k \<le> ll_lineCount this" "v1 < line_top this k + ll_lineHeight this" "line_top this k < v2"
  have "n \<le> k" using line_at_first(3) [OF s k(1), of v1] k(3) unfolding n_def by linarith
  moreover have "k \<le> viewport_end this v2 n"
  proof (rule ccontr)
    assume "\<not> k \<le> viewport_end this v2 n"
    then have "viewport_end this v2 n < k" by simp
    then have "v2 \<le> line_top this (viewport_end this v2 n + 1)" using e(5) k(2) by simp
    also have "\<dots> \<le> line_top this k"
    proof (cases "viewport_end this v2 n + 1 = k")
      case False
      then show ?thesis using line_top_next [OF s, of "viewport_end this v2 n + 1" k] \<open>viewport_end this v2 n < k\<close> f(1) e(1) s by (simp add: sized_def)
    qed simp
    finally show False using k(4) by simp
  qed
  ultimately show "vd_startLineNumber data \<le> k \<and> k \<le> vd_endLineNumber data" by (simp add: sel)
qed

lemma viewport_data_visible:
  assumes s: "sized this" and d: "data = viewport_data this v1 v2"
    and lt: "vd_completelyVisibleStartLineNumber data < vd_completelyVisibleEndLineNumber data"
    and k: "vd_completelyVisibleStartLineNumber data \<le> k" "k \<le> vd_completelyVisibleEndLineNumber data"
  shows "v1 \<le> line_top this k" "line_top this k + ll_lineHeight this \<le> v2"
proof -
  define n where "n = line_at this v1"
  define e where "e = viewport_end this v2 n"
  note f = line_at_first [OF s, where v = v1, folded n_def]
  note b = viewport_end_bounds [OF f(2), where v = v2, folded e_def]
  have h: "0 < ll_lineHeight this" using s by (simp add: sized_def)
  have sel: "vd_completelyVisibleStartLineNumber data = (if n < e \<and> line_top this n < v1 then n + 1 else n)"
      "vd_completelyVisibleEndLineNumber data =
        (if vd_completelyVisibleStartLineNumber data < e \<and> line_top this e + ll_lineHeight this > v2 then e - 1 else e)"
    by (simp_all add: d viewport_data_def Let_def n_def e_def)
  have step: "line_top this m + ll_lineHeight this \<le> line_top this m'" if "1 \<le> m" "m < m'" for m m' using line_top_next [OF s that] .
  have ne: "n < e" using sel lt by (auto split: if_splits)
  have "v1 < line_top this n + ll_lineHeight this" using f(4) ne b(2) by auto
  then show "v1 \<le> line_top this k"
    using step [of n k] f(1) k(1) ne h unfolding sel(1) by (cases "k = n") (auto split: if_splits)
  have "line_top this (k + 1) < v2" if "k < e" using b(4) [of k] that k(1) ne unfolding sel(1) by (auto split: if_splits)
  moreover have "line_top this k + ll_lineHeight this \<le> line_top this (k + 1)" using step [of k "k + 1"] f(1) k(1) unfolding sel(1) by (auto split: if_splits)
  moreover have "k \<le> e" using k(2) unfolding sel(2) by (auto split: if_splits)
  moreover have "line_top this e + ll_lineHeight this \<le> v2" if "k = e" using that k(2) lt unfolding sel(2) by (auto split: if_splits)
  ultimately show "line_top this k + ll_lineHeight this \<le> v2" by (cases "k = e") auto
qed

lemma viewport_data_offsets:
  assumes s: "sized this" and d: "data = viewport_data this v1 v2"
  shows "vd_relativeVerticalOffset data = map (\<lambda>k. line_top this k - vd_bigNumbersDelta data) [vd_startLineNumber data..vd_endLineNumber data]"
    "ll_lineHeight this dvd vd_bigNumbersDelta data"
    "0 \<le> line_top this (vd_startLineNumber data) - vd_bigNumbersDelta data"
    "line_top this (vd_startLineNumber data) - vd_bigNumbersDelta data < 500000 + ll_lineHeight this"
proof -
  have h: "0 < ll_lineHeight this" using s by (simp add: sized_def)
  have t: "0 \<le> line_top this (line_at this v1)" using line_top_bounds(1) [OF s] line_at_first(1,2) [OF s] by simp
  show "vd_relativeVerticalOffset data = map (\<lambda>k. line_top this k - vd_bigNumbersDelta data) [vd_startLineNumber data..vd_endLineNumber data]"
    "ll_lineHeight this dvd vd_bigNumbersDelta data"
    "0 \<le> line_top this (vd_startLineNumber data) - vd_bigNumbersDelta data"
    "line_top this (vd_startLineNumber data) - vd_bigNumbersDelta data < 500000 + ll_lineHeight this"
    using bigNumbersDelta_bounds [OF h t] by (simp_all add: d viewport_data_def Let_def)
qed

lemma viewport_data_centered:
  assumes s: "sized this" and d: "data = viewport_data this v1 v2"
  shows "vd_startLineNumber data \<le> vd_centeredLineNumber data" "vd_centeredLineNumber data \<le> vd_endLineNumber data"
  using viewport_end_bounds(1) [OF line_at_first(2) [OF s, of v1], of v2]
  by (auto simp: d viewport_data_def Let_def centered_from_def split: option.splits dest: find_SomeD)

text \<open>
  C18. The lines of a viewport. In a layout of less than \<open>2 ^ 31\<close> pixels, \<open>getLinesViewportData\<close> returns a range of lines that includes every
  line some pixel of which lies between the two offsets; the relative offsets are the tops of exactly those lines, all less the same delta,
  which is a multiple of the line height and keeps the first offset below 500,000 pixels plus a line; the centered line is one of
  the lines; and when more than one line is said to be completely visible, they all are.
\<close>
theorem getLinesViewportData_covers_viewport:
  assumes "sized this" "is_int32 v1" "is_int32 v2"
  shows "\<exists>data. returns (LinesLayout_getLinesViewportData v1 v2 this) data this \<and>
    1 \<le> vd_startLineNumber data \<and> vd_startLineNumber data \<le> vd_endLineNumber data \<and> vd_endLineNumber data \<le> ll_lineCount this \<and>
    (\<forall>k. 1 \<le> k \<and> k \<le> ll_lineCount this \<and> v1 < line_top this k + ll_lineHeight this \<and> line_top this k < v2 \<longrightarrow>
      vd_startLineNumber data \<le> k \<and> k \<le> vd_endLineNumber data) \<and>
    vd_relativeVerticalOffset data = map (\<lambda>k. line_top this k - vd_bigNumbersDelta data) [vd_startLineNumber data..vd_endLineNumber data] \<and>
    ll_lineHeight this dvd vd_bigNumbersDelta data \<and> 0 \<le> hd (vd_relativeVerticalOffset data) \<and>
    hd (vd_relativeVerticalOffset data) < 500000 + ll_lineHeight this \<and>
    vd_startLineNumber data \<le> vd_centeredLineNumber data \<and> vd_centeredLineNumber data \<le> vd_endLineNumber data \<and>
    (vd_completelyVisibleStartLineNumber data < vd_completelyVisibleEndLineNumber data \<longrightarrow>
      (\<forall>k. vd_completelyVisibleStartLineNumber data \<le> k \<and> k \<le> vd_completelyVisibleEndLineNumber data \<longrightarrow>
        v1 \<le> line_top this k \<and> line_top this k + ll_lineHeight this \<le> v2))"
proof -
  define data where "data = viewport_data this v1 v2"
  note l = viewport_data_lines [OF assms(1) data_def] and o = viewport_data_offsets [OF assms(1) data_def]
  have "hd (vd_relativeVerticalOffset data) = line_top this (vd_startLineNumber data) - vd_bigNumbersDelta data"
    using l(2) unfolding o(1) by (simp add: upto_rec1)
  then show ?thesis
    using getLinesViewportData_returns [OF assms, folded data_def] l o viewport_data_centered [OF assms(1) data_def] viewport_data_visible [OF assms(1) data_def]
    by (intro exI [of _ data]) simp
qed

theorem getLinesViewportData_covers_viewport_witness:
  "\<exists>data. returns (LinesLayout_getLinesViewportData 70 90 sample_layout) data sample_layout \<and> vd_startLineNumber data \<le> 4 \<and> 4 \<le> vd_endLineNumber data"
proof -
  have top: "line_top sample_layout 4 = 75" by (simp add: line_top_def height_above_def heights_def sample_values new_EditorWhitespace_def)
  obtain data where "returns (LinesLayout_getLinesViewportData 70 90 sample_layout) data sample_layout"
    "\<forall>k. 1 \<le> k \<and> k \<le> 10 \<and> 70 < line_top sample_layout k + 20 \<and> line_top sample_layout k < 90 \<longrightarrow> vd_startLineNumber data \<le> k \<and> k \<le> vd_endLineNumber data"
    using getLinesViewportData_covers_viewport [OF sample_sized, of 70 90, unfolded sample_values] by (auto simp: is_int32_def)
  then show ?thesis using spec [of _ 4] top by (intro exI [of _ data]) simp
qed

end
