(* ===== verification/Line_Projection.thy ===== *)
theory Line_Projection
  imports Complex_Main Arrays_Ops Core_Range
begin

text \<open>
  The projection of a line of the model to lines of the view, \<open>src/vs/editor/common/modelLineProjectionData.ts\<close>, with \<open>LineInjectedText\<close> of
  \<open>textModelEvents.ts\<close>: texts are injected into the line, and the result is broken at offsets and the lines after the first are indented. A \<open>point\<close> below is an
  offset in the line with the injected texts; \<open>model_before\<close> counts the characters of the model before a point. Reading \<open>breakOffsets\<close> outside
  the array is \<open>undefined\<close>, and arithmetic with it gives \<open>NaN\<close>: both are None.
\<close>

section \<open>Injected text\<close>

datatype PositionAffinity = AffinityLeft | AffinityRight | AffinityNone | LeftOfInjectedText | RightOfInjectedText

datatype InjectedTextCursorStops = StopsBoth | StopsRight | StopsLeft | StopsNone

text \<open>The options that the modelled code reads or copies; \<open>cursorStops\<close> may be missing.\<close>

record InjectedTextOptions =
  it_content :: jsstring
  it_inlineClassName :: "jsstring option"
  it_inlineClassNameAffectsLetterSpacing :: "bool option"
  it_cursorStops :: "InjectedTextCursorStops option"

record LineInjectedText =
  lit_ownerId :: number
  lit_lineNumber :: number
  lit_column :: number
  lit_options :: InjectedTextOptions
  lit_order :: number

definition new_LineInjectedText :: "number \<Rightarrow> number \<Rightarrow> number \<Rightarrow> InjectedTextOptions \<Rightarrow> number \<Rightarrow> LineInjectedText" where
  "new_LineInjectedText ownerId line col options order =
     \<lparr>lit_ownerId = ownerId, lit_lineNumber = line, lit_column = col, lit_options = options, lit_order = order\<rparr>"

definition LineInjectedText_withText :: "jsstring \<Rightarrow> LineInjectedText \<Rightarrow> LineInjectedText" where
  "LineInjectedText_withText text this =
     new_LineInjectedText (lit_ownerId this) (lit_lineNumber this) (lit_column this) ((lit_options this)\<lparr>it_content := text\<rparr>) (lit_order this)"

fun applyInjectedText_loop :: "jsstring \<Rightarrow> LineInjectedText list \<Rightarrow> jsstring \<Rightarrow> number \<Rightarrow> jsstring \<times> number" where
  "applyInjectedText_loop lineText [] result lastOriginalOffset = (result, lastOriginalOffset)"
| "applyInjectedText_loop lineText (t # ts) result lastOriginalOffset =
     applyInjectedText_loop lineText ts (result @ js_substring lineText lastOriginalOffset (lit_column t - 1) @ it_content (lit_options t)) (lit_column t - 1)"

definition LineInjectedText_applyInjectedText :: "jsstring \<Rightarrow> LineInjectedText list option \<Rightarrow> jsstring" where
  "LineInjectedText_applyInjectedText lineText injectedTexts =
     (case injectedTexts of
        None \<Rightarrow> lineText
      | Some ts \<Rightarrow>
          if ts = [] then lineText
          else case applyInjectedText_loop lineText ts [] 0 of (result, lastOriginalOffset) \<Rightarrow> result @ js_substring_from lineText lastOriginalOffset)"

text \<open>Of a decoration, its owner, its range and the texts before and after it.\<close>

record IModelDecoration =
  dec_ownerId :: number
  dec_range :: Range
  dec_before :: "InjectedTextOptions option"
  dec_after :: "InjectedTextOptions option"

definition decoration_texts :: "IModelDecoration \<Rightarrow> LineInjectedText list" where
  "decoration_texts decoration =
     (case dec_before decoration of
        Some t \<Rightarrow> if int (length (it_content t)) > 0
          then [new_LineInjectedText (dec_ownerId decoration) (startLineNumber (dec_range decoration)) (startColumn (dec_range decoration)) t 0] else []
      | None \<Rightarrow> []) @
     (case dec_after decoration of
        Some t \<Rightarrow> if int (length (it_content t)) > 0
          then [new_LineInjectedText (dec_ownerId decoration) (endLineNumber (dec_range decoration)) (endColumn (dec_range decoration)) t 1] else []
      | None \<Rightarrow> [])"

definition compareInjectedText :: "LineInjectedText comparator" where
  "compareInjectedText a b =
     (if lit_lineNumber a = lit_lineNumber b then
        if lit_column a = lit_column b then lit_order a - lit_order b else lit_column a - lit_column b
      else lit_lineNumber a - lit_lineNumber b)"

definition LineInjectedText_fromDecorations :: "IModelDecoration list \<Rightarrow> LineInjectedText list" where
  "LineInjectedText_fromDecorations decorations = js_sort compareInjectedText (concat (map decoration_texts decorations))"

section \<open>Projection data\<close>

record ModelLineProjectionData =
  injectionOffsets :: "number list option"
  injectionOptions :: "InjectedTextOptions list option"
  breakOffsets :: "number list"
  breakOffsetsVisibleColumn :: "rat list"
  wrappedTextIndentLength :: number

record OutputPosition =
  outputLineIndex :: number
  outputOffset :: number

definition new_OutputPosition :: "number \<Rightarrow> number \<Rightarrow> OutputPosition" where
  "new_OutputPosition line off = \<lparr>outputLineIndex = line, outputOffset = off\<rparr>"

definition OutputPosition_toString :: "OutputPosition \<Rightarrow> jsstring" where
  "OutputPosition_toString this = js_show_number (outputLineIndex this) @ js_str '':'' @ js_show_number (outputOffset this)"

definition OutputPosition_toPosition :: "number \<Rightarrow> OutputPosition \<Rightarrow> Position" where
  "OutputPosition_toPosition baseLineNumber this = new_Position (baseLineNumber + outputLineIndex this) (outputOffset this + 1)"

definition getOutputLineCount :: "ModelLineProjectionData \<Rightarrow> number" where
  "getOutputLineCount this = int (length (breakOffsets this))"

definition getMinOutputOffset :: "number \<Rightarrow> ModelLineProjectionData \<Rightarrow> number" where
  "getMinOutputOffset line this = (if line > 0 then wrappedTextIndentLength this else 0)"

text \<open>\<open>outputLineIndex > 0 ? this.breakOffsets[outputLineIndex - 1] : 0\<close>\<close>

definition line_start :: "number \<Rightarrow> ModelLineProjectionData \<Rightarrow> number option" where
  "line_start line this = (if line > 0 then arr_at (breakOffsets this) (line - 1) else Some 0)"

definition getLineLength :: "number \<Rightarrow> ModelLineProjectionData \<Rightarrow> number option" where
  "getLineLength line this =
     Option.bind (line_start line this) (\<lambda>startOffset.
     map_option (\<lambda>endOffset. endOffset - startOffset + (if line > 0 then wrappedTextIndentLength this else 0)) (arr_at (breakOffsets this) line))"

definition getMaxOutputOffset :: "number \<Rightarrow> ModelLineProjectionData \<Rightarrow> number option" where
  "getMaxOutputOffset line this = getLineLength line this"

text \<open>An element of \<open>injectionOptions!\<close>: a member of an element that is not there throws, and so does \<open>null\<close>.\<close>

definition options_of :: "ModelLineProjectionData \<Rightarrow> InjectedTextOptions list" where
  "options_of this = (case injectionOptions this of None \<Rightarrow> [] | Some options \<Rightarrow> options)"

abbreviation content_length :: "InjectedTextOptions \<Rightarrow> number" where
  "content_length options \<equiv> int (length (it_content options))"

fun inputOffset_loop :: "number list \<Rightarrow> InjectedTextOptions list \<Rightarrow> number \<Rightarrow> number result" where
  "inputOffset_loop [] options offsetInInput = Inr offsetInInput"
| "inputOffset_loop (offset # offsets) options offsetInInput =
     (if offsetInInput > offset then
        case options of
          [] \<Rightarrow> Inl TypeError
        | opt # opts \<Rightarrow>
            if offsetInInput < offset + content_length opt then inputOffset_loop offsets opts offset
            else inputOffset_loop offsets opts (offsetInInput - content_length opt)
      else Inr offsetInInput)"

definition translateToInputOffset :: "number \<Rightarrow> number \<Rightarrow> ModelLineProjectionData \<Rightarrow> number option result" where
  "translateToInputOffset line off this =
     (let off = (if line > 0 then max 0 (off - wrappedTextIndentLength this) else off);
          offsetInInputWithInjection = (if line = 0 then Some off else map_option (\<lambda>start. start + off) (arr_at (breakOffsets this) (line - 1)))
      in case offsetInInputWithInjection of
           None \<Rightarrow> Inr None
         | Some offsetInInput \<Rightarrow>
             (case injectionOffsets this of
                None \<Rightarrow> Inr (Some offsetInInput)
              | Some offsets \<Rightarrow> result_map Some (inputOffset_loop offsets (options_of this) offsetInInput)))"

fun withInjection_loop :: "PositionAffinity \<Rightarrow> number \<Rightarrow> number list \<Rightarrow> InjectedTextOptions list \<Rightarrow> number \<Rightarrow> number result" where
  "withInjection_loop affinity inputOffset [] options r = Inr r"
| "withInjection_loop affinity inputOffset (offset # offsets) options r =
     (if inputOffset < offset then Inr r
      else if affinity \<noteq> AffinityRight \<and> inputOffset = offset then Inr r
      else case options of [] \<Rightarrow> Inl TypeError | opt # opts \<Rightarrow> withInjection_loop affinity inputOffset offsets opts (r + content_length opt))"

function outputPosition_loop :: "PositionAffinity \<Rightarrow> number list \<Rightarrow> number \<Rightarrow> number \<Rightarrow> number \<Rightarrow> number \<times> number \<Rightarrow> number \<times> number" where
  "outputPosition_loop affinity breaks off low high found =
     (if low \<le> high then
        let mid = (low + high) div 2; midStop = breaks ! nat mid; midStart = (if mid > 0 then breaks ! nat (mid - 1) else 0)
        in if affinity = AffinityLeft then
             if off \<le> midStart then outputPosition_loop affinity breaks off low (mid - 1) (mid, midStart)
             else if off > midStop then outputPosition_loop affinity breaks off (mid + 1) high (mid, midStart)
             else (mid, midStart)
           else
             if off < midStart then outputPosition_loop affinity breaks off low (mid - 1) (mid, midStart)
             else if off \<ge> midStop then outputPosition_loop affinity breaks off (mid + 1) high (mid, midStart)
             else (mid, midStart)
      else found)"
  by pat_completeness auto
termination by (relation "measure (\<lambda>(a, breaks, off, low, high, found). nat (high + 1 - low))") auto

declare outputPosition_loop.simps [simp del]

definition offsetInInputWithInjectionsToOutputPosition :: "number \<Rightarrow> PositionAffinity \<Rightarrow> ModelLineProjectionData \<Rightarrow> OutputPosition" where
  "offsetInInputWithInjectionsToOutputPosition off affinity this =
     (case outputPosition_loop affinity (breakOffsets this) off 0 (int (length (breakOffsets this)) - 1) (0, 0) of (mid, midStart) \<Rightarrow>
        new_OutputPosition mid (off - midStart + (if mid > 0 then wrappedTextIndentLength this else 0)))"

definition translateToOutputPosition :: "number \<Rightarrow> PositionAffinity \<Rightarrow> ModelLineProjectionData \<Rightarrow> OutputPosition result" where
  "translateToOutputPosition inputOffset affinity this =
     result_map (\<lambda>off. offsetInInputWithInjectionsToOutputPosition off affinity this)
       (case injectionOffsets this of
          None \<Rightarrow> Inr inputOffset
        | Some offsets \<Rightarrow> withInjection_loop affinity inputOffset offsets (options_of this) inputOffset)"

definition outputPositionToOffsetInInputWithInjections :: "number \<Rightarrow> number \<Rightarrow> ModelLineProjectionData \<Rightarrow> number option" where
  "outputPositionToOffsetInInputWithInjections line off this =
     (let off = (if line > 0 then max 0 (off - wrappedTextIndentLength this) else off)
      in map_option (\<lambda>start. start + off) (line_start line this))"

definition hasRightCursorStop :: "InjectedTextCursorStops option \<Rightarrow> bool" where
  "hasRightCursorStop cursorStop = (case cursorStop of None \<Rightarrow> True | Some stop \<Rightarrow> stop = StopsRight \<or> stop = StopsBoth)"

definition hasLeftCursorStop :: "InjectedTextCursorStops option \<Rightarrow> bool" where
  "hasLeftCursorStop cursorStop = (case cursorStop of None \<Rightarrow> True | Some stop \<Rightarrow> stop = StopsLeft \<or> stop = StopsBoth)"

text \<open>The injected text at an offset: its index, where it starts in the line with injections, and its length.\<close>

record injected_text =
  injectedTextIndex :: number
  it_offset :: number
  it_length :: number

fun injectedTextAt_loop :: "number \<Rightarrow> number \<Rightarrow> number \<Rightarrow> number list \<Rightarrow> InjectedTextOptions list \<Rightarrow> injected_text option result" where
  "injectedTextAt_loop off i totalInjectedTextLengthBefore [] options = Inr None"
| "injectedTextAt_loop off i totalInjectedTextLengthBefore (offset # offsets) options =
     (case options of
        [] \<Rightarrow> Inl TypeError
      | opt # opts \<Rightarrow>
          let start = offset + totalInjectedTextLengthBefore; stop = offset + totalInjectedTextLengthBefore + content_length opt
          in if start > off then Inr None
             else if off \<le> stop then Inr (Some \<lparr>injectedTextIndex = i, it_offset = start, it_length = content_length opt\<rparr>)
             else injectedTextAt_loop off (i + 1) (totalInjectedTextLengthBefore + content_length opt) offsets opts)"

definition getInjectedTextAtOffset :: "number \<Rightarrow> ModelLineProjectionData \<Rightarrow> injected_text option result" where
  "getInjectedTextAtOffset off this =
     (case injectionOffsets this of None \<Rightarrow> Inr None | Some offsets \<Rightarrow> injectedTextAt_loop off 0 0 offsets (options_of this))"

text \<open>\<open>NaN\<close> is in no injected text, but the loop still reads all options.\<close>

definition getInjectedTextAtNaN :: "ModelLineProjectionData \<Rightarrow> injected_text option result" where
  "getInjectedTextAtNaN this =
     (case injectionOffsets this of None \<Rightarrow> Inr None | Some offsets \<Rightarrow> if length (options_of this) < length offsets then Inl TypeError else Inr None)"

definition getInjectedText :: "number \<Rightarrow> number \<Rightarrow> ModelLineProjectionData \<Rightarrow> InjectedTextOptions option result" where
  "getInjectedText line off this =
     (case outputPositionToOffsetInInputWithInjections line off this of
        None \<Rightarrow> result_map (\<lambda>_. None) (getInjectedTextAtNaN this)
      | Some k \<Rightarrow> result_bind (getInjectedTextAtOffset k this) (\<lambda>injectedText.
          case injectedText of None \<Rightarrow> Inr None | Some t \<Rightarrow> Inr (arr_at (options_of this) (injectedTextIndex t))))"

text \<open>The three loops over injected texts that touch: \<open>k\<close> is one more than \<open>index\<close> in the first.\<close>

fun cursorStop_loop :: "number list \<Rightarrow> InjectedTextOptions list \<Rightarrow> number \<Rightarrow> nat \<Rightarrow> number \<Rightarrow> number result" where
  "cursorStop_loop offsets options target 0 r = Inr r"
| "cursorStop_loop offsets options target (Suc k) r =
     (if arr_at offsets (int k) = Some target then
        case arr_get options (int k) of
          Inl e \<Rightarrow> Inl e
        | Inr opt \<Rightarrow>
            if hasRightCursorStop (it_cursorStops opt) then Inr r
            else if hasLeftCursorStop (it_cursorStops opt) then Inr (r - content_length opt)
            else cursorStop_loop offsets options target k (r - content_length opt)
      else Inr r)"

function touchingRight_loop :: "number list \<Rightarrow> InjectedTextOptions list \<Rightarrow> nat \<Rightarrow> number \<Rightarrow> number result" where
  "touchingRight_loop offsets options index r =
     (if Suc index < length offsets \<and> offsets ! Suc index = offsets ! index then
        case arr_get options (int (Suc index)) of
          Inl e \<Rightarrow> Inl e
        | Inr opt \<Rightarrow> touchingRight_loop offsets options (Suc index) (r + content_length opt)
      else Inr r)"
  by pat_completeness auto
termination by (relation "measure (\<lambda>(offsets, options, index, r). length offsets - index)") auto

declare touchingRight_loop.simps [simp del]

fun touchingLeft_loop :: "number list \<Rightarrow> InjectedTextOptions list \<Rightarrow> nat \<Rightarrow> number \<Rightarrow> number result" where
  "touchingLeft_loop offsets options 0 r = Inr r"
| "touchingLeft_loop offsets options (Suc k) r =
     (if arr_at offsets (int k) = arr_at offsets (int (Suc k)) then
        case arr_get options (int k) of Inl e \<Rightarrow> Inl e | Inr opt \<Rightarrow> touchingLeft_loop offsets options k (r - content_length opt)
      else Inr r)"

definition normalizeOffsetInInputWithInjectionsAroundInjections :: "number \<Rightarrow> PositionAffinity \<Rightarrow> number list \<Rightarrow> ModelLineProjectionData \<Rightarrow> number result" where
  "normalizeOffsetInInputWithInjectionsAroundInjections off affinity offsets this =
     result_bind (getInjectedTextAtOffset off this) (\<lambda>injectedText.
     case injectedText of
       None \<Rightarrow> Inr off
     | Some t \<Rightarrow>
         let start = it_offset t; stop = it_offset t + it_length t; index = nat (injectedTextIndex t)
         in case affinity of
              AffinityNone \<Rightarrow>
                result_bind (arr_get (options_of this) (injectedTextIndex t)) (\<lambda>opt.
                if off = stop \<and> hasRightCursorStop (it_cursorStops opt) then Inr stop
                else if hasLeftCursorStop (it_cursorStops opt) then Inr start
                else cursorStop_loop offsets (options_of this) (offsets ! index) index start)
            | AffinityRight \<Rightarrow> touchingRight_loop offsets (options_of this) index stop
            | RightOfInjectedText \<Rightarrow> touchingRight_loop offsets (options_of this) index stop
            | AffinityLeft \<Rightarrow> touchingLeft_loop offsets (options_of this) index start
            | LeftOfInjectedText \<Rightarrow> touchingLeft_loop offsets (options_of this) index start)"

text \<open>The position when no injected text has changed it. A length that is \<open>NaN\<close> equals no offset, and makes the position None.\<close>

definition normalizeAroundBreaks :: "number \<Rightarrow> number \<Rightarrow> PositionAffinity \<Rightarrow> ModelLineProjectionData \<Rightarrow> OutputPosition option" where
  "normalizeAroundBreaks line off affinity this =
     (if affinity = AffinityLeft \<and> line > 0 \<and> off = getMinOutputOffset line this
      then map_option (new_OutputPosition (line - 1)) (getMaxOutputOffset (line - 1) this)
      else if affinity = AffinityRight \<and> line < getOutputLineCount this - 1 \<and> Some off = getMaxOutputOffset line this
      then Some (new_OutputPosition (line + 1) (getMinOutputOffset (line + 1) this))
      else Some (new_OutputPosition line off))"

definition normalizeOutputPosition :: "number \<Rightarrow> number \<Rightarrow> PositionAffinity \<Rightarrow> ModelLineProjectionData \<Rightarrow> OutputPosition option result" where
  "normalizeOutputPosition line off affinity this =
     (case injectionOffsets this of
        None \<Rightarrow> Inr (normalizeAroundBreaks line off affinity this)
      | Some offsets \<Rightarrow>
          (case outputPositionToOffsetInInputWithInjections line off this of
             None \<Rightarrow> result_map (\<lambda>_. None) (getInjectedTextAtNaN this)
           | Some k \<Rightarrow> result_map (\<lambda>k'.
               if k' \<noteq> k then Some (offsetInInputWithInjectionsToOutputPosition k' affinity this) else normalizeAroundBreaks line off affinity this)
               (normalizeOffsetInInputWithInjectionsAroundInjections k affinity offsets this)))"

section \<open>The line with injected texts\<close>

text \<open>The reference: the rest of a line from an offset on, with texts inserted at offsets of the line.\<close>

fun injected :: "'a list \<Rightarrow> nat \<Rightarrow> (nat \<times> 'a list) list \<Rightarrow> 'a list" where
  "injected s p [] = drop p s"
| "injected s p ((q, t) # ts) = take (q - p) (drop p s) @ t @ injected s q ts"

definition injections :: "ModelLineProjectionData \<Rightarrow> (nat \<times> jsstring) list" where
  "injections this = (case injectionOffsets this of None \<Rightarrow> [] | Some offsets \<Rightarrow> zip (map nat offsets) (map it_content (options_of this)))"

text \<open>The same line with every character of the model marked by True and every injected one by False.\<close>

definition marks_from :: "nat \<Rightarrow> nat \<Rightarrow> (nat \<times> jsstring) list \<Rightarrow> bool list" where
  "marks_from n p ts = injected (replicate n True) p (map (map_prod id (map (\<lambda>_. False))) ts)"

definition trues :: "bool list \<Rightarrow> nat" where
  "trues bs = length (filter id bs)"

text \<open>Sorted insertions inside a line of length \<open>n\<close>, none of them empty.\<close>

definition insertions_ok :: "nat \<Rightarrow> nat \<Rightarrow> (nat \<times> 'a list) list \<Rightarrow> bool" where
  "insertions_ok n p ts \<longleftrightarrow> p \<le> n \<and> sorted (p # map fst ts) \<and> (\<forall>(q, t) \<in> set ts. q \<le> n \<and> t \<noteq> [])"

lemma insertions_ok_simps [simp]:
  "insertions_ok n p [] \<longleftrightarrow> p \<le> n" "insertions_ok n p ((q, t) # ts) \<longleftrightarrow> p \<le> q \<and> q \<le> n \<and> t \<noteq> [] \<and> insertions_ok n q ts"
  by (auto simp: insertions_ok_def)

lemma trues_simps [simp]: "trues [] = 0" "trues (b # bs) = (if b then Suc (trues bs) else trues bs)" "trues (xs @ ys) = trues xs + trues ys"
  "trues (replicate k True) = k" "trues (map (\<lambda>_. False) t) = 0" "trues (replicate k False) = 0"
  by (simp_all add: trues_def filter_replicate)

lemma trues_take_mono: "i \<le> j \<Longrightarrow> trues (take i bs) \<le> trues (take j bs)"
  using trues_simps(3) [of "take i bs" "take (j - i) (drop i bs)"] take_add [of i "j - i" bs] by simp

lemma trues_take_le: "trues (take k bs) \<le> k"
  unfolding trues_def by (rule order_trans [OF length_filter_le]) simp

lemma marks_Nil [simp]: "marks_from n p [] = replicate (n - p) True"
  by (simp add: marks_from_def)

lemma marks_Cons: "p \<le> q \<Longrightarrow> q \<le> n \<Longrightarrow> marks_from n p ((q, t) # ts) = replicate (q - p) True @ replicate (length t) False @ marks_from n q ts"
  by (simp add: marks_from_def map_replicate_const)

lemma trues_marks: "insertions_ok n p ts \<Longrightarrow> trues (marks_from n p ts) = n - p"
  by (induction ts arbitrary: p) (auto simp: marks_Cons)

text \<open>A point before which there is a character of the model is the first one with as many of them; after which, the last one.\<close>

lemma trues_least:
  assumes "k \<le> length bs" "k = 0 \<or> bs ! (k - 1)" "trues (take j bs) = trues (take k bs)"
  shows "k \<le> j"
proof (rule ccontr)
  assume "\<not> k \<le> j"
  then obtain m where m: "k = Suc m" "j \<le> m" by (cases k) auto
  then have "trues (take k bs) = Suc (trues (take m bs))" using assms(1,2) by (simp add: take_Suc_conv_app_nth)
  then show False using trues_take_mono [OF m(2), of bs] assms(3) by simp
qed

lemma trues_greatest:
  assumes "j \<le> length bs" "k = length bs \<or> bs ! k" "trues (take j bs) = trues (take k bs)"
  shows "j \<le> k"
proof (rule ccontr)
  assume "\<not> j \<le> k"
  then have "k < length bs" "Suc k \<le> j" using assms(1) by auto
  then have "trues (take (Suc k) bs) = Suc (trues (take k bs))" using assms(2) by (simp add: take_Suc_conv_app_nth)
  then show False using trues_take_mono [OF \<open>Suc k \<le> j\<close>, of bs] assms(3) by simp
qed

section \<open>Translating offsets\<close>

abbreviation entries :: "(nat \<times> jsstring) list \<Rightarrow> number list \<Rightarrow> InjectedTextOptions list \<Rightarrow> bool" where
  "entries ts offsets options \<equiv> list_all2 (\<lambda>(q, t) (offset, opt). offset = int q \<and> it_content opt = t) ts (zip offsets options) \<and> length offsets \<le> length options"

lemma inputOffset_loop_counts:
  assumes "entries ts offsets options" "insertions_ok n p ts" "k \<le> length (marks_from n p ts)"
  shows "inputOffset_loop offsets options (int (p + k)) = Inr (int (p + trues (take k (marks_from n p ts))))"
  using assms
proof (induction offsets arbitrary: ts options p k)
  case (Cons offset offsets)
  then obtain opt opts where options: "options = opt # opts" by (cases options) auto
  then obtain q t ts' where ts: "ts = (q, t) # ts'" "offset = int q" "it_content opt = t" "entries ts' offsets opts"
    using Cons.prems(1) by (cases ts) auto
  have ok: "p \<le> q" "q \<le> n" "insertions_ok n q ts'" using Cons.prems(2) ts(1) by auto
  note marks = marks_Cons [OF ok(1,2), of t ts']
  show ?case
  proof (cases "p + k \<le> q")
    case True
    then show ?thesis using ok by (simp add: ts(1,2) options marks)
  next
    case False
    define j where "j = k - (q - p) - length t"
    show ?thesis
    proof (cases "p + k < q + length t")
      case True
      have "inputOffset_loop offsets opts (int (q + 0)) = Inr (int (q + trues (take 0 (marks_from n q ts'))))"
        by (rule Cons.IH [OF ts(4) ok(3)]) simp
      moreover have "take k (marks_from n p ts) = replicate (q - p) True @ replicate (k - (q - p)) False" using True False by (simp add: ts(1) marks)
      ultimately show ?thesis using True False ok(1) by (simp add: options ts(2,3))
    next
      case False': False
      have k: "k = (q - p) + length t + j" using False False' ok(1) by (simp add: j_def)
      have "inputOffset_loop offsets opts (int (q + j)) = Inr (int (q + trues (take j (marks_from n q ts'))))"
        using Cons.prems(3) by (intro Cons.IH [OF ts(4) ok(3)]) (simp add: ts(1) marks k)
      moreover have "int (p + k) - int (length t) = int (q + j)" using k ok(1) by simp
      moreover have "t \<noteq> []" using Cons.prems(2) ts(1) by simp
      then have "0 < int (length t) + int j" by (cases t) simp_all
      ultimately show ?thesis using False False' ok(1) by (simp add: options ts marks k)
    qed
  qed
qed auto

lemma withInjection_loop_point:
  assumes "entries ts offsets options" "insertions_ok n p ts" "p \<le> x" "x \<le> n"
  shows "\<exists>l. withInjection_loop affinity (int x) offsets options r = Inr (r + int l) \<and> x - p + l \<le> length (marks_from n p ts) \<and>
    trues (take (x - p + l) (marks_from n p ts)) = x - p \<and>
    (if affinity = AffinityRight then x - p + l = length (marks_from n p ts) \<or> marks_from n p ts ! (x - p + l)
     else x - p + l = 0 \<or> marks_from n p ts ! (x - p + l - 1))"
  using assms
proof (induction offsets arbitrary: ts options p r)
  case Nil
  then have "ts = []" by auto
  then show ?case using Nil by (cases "x = n"; cases "x = p") (auto intro!: exI [of _ 0])
next
  case (Cons offset offsets)
  then obtain opt opts where options: "options = opt # opts" by (cases options) auto
  then obtain q t ts' where ts: "ts = (q, t) # ts'" "offset = int q" "it_content opt = t" "entries ts' offsets opts"
    using Cons.prems(1) by (cases ts) auto
  have ok: "p \<le> q" "q \<le> n" "insertions_ok n q ts'" using Cons.prems(2) ts(1) by auto
  note marks = marks_Cons [OF ok(1,2), of t ts', folded ts(1)]
  show ?case
  proof (cases "x < q \<or> affinity \<noteq> AffinityRight \<and> x = q")
    case True
    then have "x - p + 0 \<le> length (marks_from n p ts) \<and> trues (take (x - p) (marks_from n p ts)) = x - p" using ok(1) by (auto simp: marks)
    moreover have "marks_from n p ts ! i" if "i < q - p" for i using that by (simp add: marks nth_append)
    moreover have "withInjection_loop affinity (int x) (offset # offsets) options r = Inr (r + int 0)" using True by (auto simp: ts(2))
    moreover have "if affinity = AffinityRight then x - p < q - p else x - p = 0 \<or> x - p - 1 < q - p" using True Cons.prems(3) by auto
    ultimately show ?thesis by (intro exI [of _ 0]) (metis add_0_right)
  next
    case False
    then have q: "q \<le> x" by auto
    obtain l where l: "withInjection_loop affinity (int x) offsets opts (r + int (length t)) = Inr (r + int (length t) + int l)"
        "x - q + l \<le> length (marks_from n q ts')" "trues (take (x - q + l) (marks_from n q ts')) = x - q"
        "if affinity = AffinityRight then x - q + l = length (marks_from n q ts') \<or> marks_from n q ts' ! (x - q + l)
         else x - q + l = 0 \<or> marks_from n q ts' ! (x - q + l - 1)"
      using Cons.IH [OF ts(4) ok(3) q Cons.prems(4)] by blast
    define j where "j = x - q + l"
    have k: "x - p + (length t + l) = (q - p) + length t + j" using ok(1) q by (simp add: j_def)
    have nth: "marks_from n p ts ! ((q - p) + length t + i) = marks_from n q ts' ! i" for i by (simp add: marks nth_append)
    have "withInjection_loop affinity (int x) (offset # offsets) options r = Inr (r + int (length t + l))"
      using False l(1) by (auto simp: ts(2,3) options algebra_simps)
    moreover have "(q - p) + length t + j \<le> length (marks_from n p ts)" using l(2) by (simp add: marks j_def)
    moreover have "trues (take ((q - p) + length t + j) (marks_from n p ts)) = x - p" using l(3) ok(1) q by (simp add: marks flip: j_def)
    moreover have "(q - p) + length t + j = length (marks_from n p ts) \<or> marks_from n p ts ! ((q - p) + length t + j)" if "affinity = AffinityRight"
      using l(4) that unfolding nth by (auto simp: marks j_def)
    moreover have "marks_from n p ts ! ((q - p) + length t + j - 1)" if "affinity \<noteq> AffinityRight"
      using l(4) that False q nth [of "j - 1"] by (auto simp: j_def)
    ultimately show ?thesis unfolding k [symmetric] by (intro exI [of _ "length t + l"]) simp
  qed
qed

section \<open>Breaking the line\<close>

definition marks :: "nat \<Rightarrow> ModelLineProjectionData \<Rightarrow> bool list" where
  "marks n this = marks_from n 0 (injections this)"

text \<open>The number of characters of the model before a point of a line with \<open>n\<close> of them.\<close>

definition model_before :: "nat \<Rightarrow> ModelLineProjectionData \<Rightarrow> nat \<Rightarrow> nat" where
  "model_before n this k = trues (take k (marks n this))"

definition breaks_ok :: "nat \<Rightarrow> ModelLineProjectionData \<Rightarrow> bool" where
  "breaks_ok len this \<longleftrightarrow>
     breakOffsets this \<noteq> [] \<and> sorted_wrt (<) (0 # breakOffsets this) \<and> last (breakOffsets this) = int len \<and> 0 \<le> wrappedTextIndentLength this"

text \<open>Data for a line of \<open>n\<close> characters: as many options as offsets, sorted and inside the line, no injected text empty, and increasing breaks up to the end.\<close>

definition projection_ok :: "nat \<Rightarrow> ModelLineProjectionData \<Rightarrow> bool" where
  "projection_ok n this \<longleftrightarrow>
     (case injectionOffsets this of None \<Rightarrow> True | Some offsets \<Rightarrow> length offsets = length (options_of this) \<and> (\<forall>q \<in> set offsets. 0 \<le> q)) \<and>
     insertions_ok n 0 (injections this) \<and> breaks_ok (length (marks n this)) this"

definition line_begin :: "ModelLineProjectionData \<Rightarrow> number \<Rightarrow> number" where
  "line_begin this line = (0 # breakOffsets this) ! nat line"

definition is_line :: "ModelLineProjectionData \<Rightarrow> number \<Rightarrow> bool" where
  "is_line this line \<longleftrightarrow> 0 \<le> line \<and> line < getOutputLineCount this"

definition is_position :: "ModelLineProjectionData \<Rightarrow> OutputPosition \<Rightarrow> bool" where
  "is_position this p \<longleftrightarrow>
     is_line this (outputLineIndex p) \<and> getMinOutputOffset (outputLineIndex p) this \<le> outputOffset p \<and>
     (\<exists>m. getMaxOutputOffset (outputLineIndex p) this = Some m \<and> outputOffset p \<le> m)"

definition point :: "ModelLineProjectionData \<Rightarrow> OutputPosition \<Rightarrow> number" where
  "point this p = line_begin this (outputLineIndex p) + outputOffset p - getMinOutputOffset (outputLineIndex p) this"

lemma line_begin_0 [simp]: "line_begin this 0 = 0"
  by (simp add: line_begin_def)

lemma line_begin_pos: "0 < i \<Longrightarrow> line_begin this i = breakOffsets this ! nat (i - 1)"
  by (auto simp: line_begin_def nth_Cons' nat_diff_distrib)

lemma line_begin_mono: "breaks_ok len this \<Longrightarrow> 0 \<le> i \<Longrightarrow> i < j \<Longrightarrow> j \<le> getOutputLineCount this \<Longrightarrow> line_begin this i < line_begin this j"
  unfolding line_begin_def breaks_ok_def getOutputLineCount_def by (intro sorted_wrt_nth_less [where P = "(<)"]) auto

lemma line_begin_last: "breaks_ok len this \<Longrightarrow> line_begin this (getOutputLineCount this) = int len"
  by (auto simp: breaks_ok_def getOutputLineCount_def line_begin_def last_conv_nth nth_Cons')

lemma lines_exist: "breaks_ok len this \<Longrightarrow> 0 < getOutputLineCount this"
  by (simp add: breaks_ok_def getOutputLineCount_def)

lemma line_start_eq: "is_line this i \<Longrightarrow> line_start i this = Some (line_begin this i)"
  by (cases "i = 0") (auto simp: line_start_def is_line_def getOutputLineCount_def arr_at_def line_begin_pos)

lemma getLineLength_eq:
  assumes "is_line this i"
  shows "getLineLength i this = Some (line_begin this (i + 1) - line_begin this i + getMinOutputOffset i this)"
  using assms line_start_eq [OF assms] by (auto simp: getLineLength_def is_line_def getOutputLineCount_def arr_at_def getMinOutputOffset_def line_begin_pos [of "i + 1"])

lemma is_position_iff:
  "is_position this p \<longleftrightarrow> is_line this (outputLineIndex p) \<and> line_begin this (outputLineIndex p) \<le> point this p \<and> point this p \<le> line_begin this (outputLineIndex p + 1)"
  using getLineLength_eq [of this "outputLineIndex p"] by (auto simp: is_position_def getMaxOutputOffset_def point_def)

lemma point_of:
  assumes "breaks_ok len this" "is_position this p"
  shows "outputPositionToOffsetInInputWithInjections (outputLineIndex p) (outputOffset p) this = Some (point this p)"
    "0 \<le> point this p" "point this p \<le> int len"
proof -
  have line: "is_line this (outputLineIndex p)" using assms(2) by (simp add: is_position_def)
  show "outputPositionToOffsetInInputWithInjections (outputLineIndex p) (outputOffset p) this = Some (point this p)"
    using assms(2) line_start_eq [OF line]
    by (auto simp: outputPositionToOffsetInInputWithInjections_def point_def is_position_def getMinOutputOffset_def is_line_def Let_def)
  have b: "line_begin this (outputLineIndex p) \<le> point this p" "point this p \<le> line_begin this (outputLineIndex p + 1)" "0 \<le> outputLineIndex p"
      "outputLineIndex p + 1 \<le> getOutputLineCount this"
    using assms(2) line by (simp_all add: is_position_iff is_line_def)
  show "0 \<le> point this p" using b(1,3,4) line_begin_mono [OF assms(1), of 0 "outputLineIndex p"] by (cases "outputLineIndex p = 0") auto
  show "point this p \<le> int len" using b line_begin_mono [OF assms(1), of "outputLineIndex p + 1" "getOutputLineCount this"] line_begin_last [OF assms(1)]
    by (cases "outputLineIndex p + 1 = getOutputLineCount this") auto
qed

text \<open>The search ends in the line of the point; at a break, \<open>Left\<close> prefers the end of a line and every other affinity the beginning of the next one.\<close>

definition at_affinity :: "PositionAffinity \<Rightarrow> ModelLineProjectionData \<Rightarrow> number \<Rightarrow> number \<Rightarrow> bool" where
  "at_affinity affinity this i k \<longleftrightarrow>
     (if affinity = AffinityLeft then (i = 0 \<or> line_begin this i < k) \<and> k \<le> line_begin this (i + 1)
      else line_begin this i \<le> k \<and> (i = getOutputLineCount this - 1 \<or> k < line_begin this (i + 1)))"

lemma outputPosition_loop_line:
  assumes ok: "breaks_ok len this" and k: "0 \<le> k" and t: "at_affinity affinity this t k" "0 \<le> low" "high < getOutputLineCount this"
    and found: "low \<le> t \<and> t \<le> high \<or> high < low \<and> found = (t, line_begin this t)"
  shows "outputPosition_loop affinity (breakOffsets this) k low high found = (t, line_begin this t)"
  using t(2,3) found
proof (induction "nat (high + 1 - low)" arbitrary: low high found rule: less_induct)
  case less
  let ?loop = "outputPosition_loop affinity (breakOffsets this) k" and ?b = "line_begin this"
  show ?case
  proof (cases "low \<le> high")
    case False
    then show ?thesis using less(4) by (auto simp: outputPosition_loop.simps)
  next
    case True
    define mid where "mid = (low + high) div 2"
    have mid: "low \<le> mid" "mid \<le> high" using True by (simp_all add: mid_def)
    have reads: "breakOffsets this ! nat mid = ?b (mid + 1)" "(if mid > 0 then breakOffsets this ! nat (mid - 1) else 0) = ?b mid" "?b mid < ?b (mid + 1)"
      using mid less(2,3) line_begin_mono [OF ok, of mid "mid + 1"] by (cases "mid = 0"; simp add: line_begin_pos)+
    have step: "?loop low high found =
        (if affinity = AffinityLeft then
           if k \<le> ?b mid then ?loop low (mid - 1) (mid, ?b mid) else if k > ?b (mid + 1) then ?loop (mid + 1) high (mid, ?b mid) else (mid, ?b mid)
         else if k < ?b mid then ?loop low (mid - 1) (mid, ?b mid) else if k \<ge> ?b (mid + 1) then ?loop (mid + 1) high (mid, ?b mid) else (mid, ?b mid))"
      using True by (subst outputPosition_loop.simps) (simp add: Let_def reads(1,2) flip: mid_def)
    have lt: "low \<le> t" "t \<le> high" using less(4) True by auto
    consider "mid < t" | "mid = t" | "t < mid" by linarith
    then show ?thesis
    proof cases
      case 1
      have "?b (mid + 1) \<le> ?b t" using 1 mid less(2,3) lt line_begin_mono [OF ok, of "mid + 1" t] by (cases "mid + 1 = t") auto
      then have "if affinity = AffinityLeft then ?b (mid + 1) < k else ?b (mid + 1) \<le> k" using t(1) 1 mid less(2) by (auto simp: at_affinity_def)
      then have "?loop low high found = ?loop (mid + 1) high (mid, ?b mid)" using step reads(3) by auto
      then show ?thesis using less(1) [of high "mid + 1" "(mid, ?b mid)"] 1 mid lt less(2,3) by auto
    next
      case 2
      have "?loop low (mid - 1) (mid, ?b mid) = (t, ?b t)" if "t = 0" using less(1) [of "mid - 1" low "(mid, ?b mid)"] 2 mid lt less(2,3) that by auto
      moreover have "?loop (mid + 1) high (mid, ?b mid) = (t, ?b t)" if "t = getOutputLineCount this - 1"
        using less(1) [of high "mid + 1" "(mid, ?b mid)"] 2 mid lt less(2,3) that by auto
      ultimately show ?thesis using step t(1) 2 by (auto simp: at_affinity_def split: if_splits)
    next
      case 3
      have "?b (t + 1) \<le> ?b mid" using 3 mid less(2,3) lt line_begin_mono [OF ok, of "t + 1" mid] by (cases "t + 1 = mid") auto
      then have "if affinity = AffinityLeft then k \<le> ?b mid else k < ?b mid" using t(1) 3 mid less(3) by (auto simp: at_affinity_def)
      then have "?loop low high found = ?loop low (mid - 1) (mid, ?b mid)" using step by auto
      then show ?thesis using less(1) [of "mid - 1" low "(mid, ?b mid)"] 3 mid lt less(2,3) by auto
    qed
  qed
qed

lemma line_at_affinity:
  assumes ok: "breaks_ok len this" and k: "0 \<le> k" "k \<le> int len"
  obtains t where "is_line this t" "at_affinity affinity this t k"
proof -
  let ?P = "\<lambda>i. if affinity = AffinityLeft then line_begin this i < k else line_begin this i \<le> k"
  define c where "c = Max {i \<in> {0..getOutputLineCount this - 1}. i = 0 \<or> ?P i}"
  have n: "0 < getOutputLineCount this" by (rule lines_exist [OF ok])
  have fin: "finite {i \<in> {0..getOutputLineCount this - 1}. i = 0 \<or> ?P i}" by (rule finite_subset [of _ "{0..getOutputLineCount this - 1}"]) auto
  have "c \<in> {i \<in> {0..getOutputLineCount this - 1}. i = 0 \<or> ?P i}" unfolding c_def using n by (intro Max_in fin) auto
  then have c: "0 \<le> c" "c < getOutputLineCount this" "c = 0 \<or> ?P c" by auto
  have "\<not> ?P (c + 1)" if "c + 1 < getOutputLineCount this"
  proof
    assume "?P (c + 1)"
    then have "c + 1 \<le> c" unfolding c_def using that c(1) by (intro Max_ge fin) (auto simp: c_def)
    then show False by simp
  qed
  moreover have "k \<le> line_begin this (c + 1)" if "c + 1 = getOutputLineCount this" using that k(2) line_begin_last [OF ok] by simp
  ultimately have "at_affinity affinity this c k"
    using c k(1) by (cases "c + 1 = getOutputLineCount this"; cases "affinity = AffinityLeft") (auto simp: at_affinity_def)
  then show thesis using that [of c] c(1,2) by (simp add: is_line_def)
qed

lemma toOutputPosition:
  assumes ok: "breaks_ok len this" and k: "0 \<le> k" "k \<le> int len"
  shows "is_position this (offsetInInputWithInjectionsToOutputPosition k affinity this)"
    "point this (offsetInInputWithInjectionsToOutputPosition k affinity this) = k"
    "at_affinity affinity this (outputLineIndex (offsetInInputWithInjectionsToOutputPosition k affinity this)) k"
proof -
  obtain t where t: "is_line this t" "at_affinity affinity this t k" using line_at_affinity [OF ok k] by blast
  have "outputPosition_loop affinity (breakOffsets this) k 0 (int (length (breakOffsets this)) - 1) (0, 0) = (t, line_begin this t)"
    using t(1) by (intro outputPosition_loop_line [OF ok k(1) t(2)]) (auto simp: is_line_def getOutputLineCount_def)
  then have p: "offsetInInputWithInjectionsToOutputPosition k affinity this = new_OutputPosition t (k - line_begin this t + getMinOutputOffset t this)"
    by (simp add: offsetInInputWithInjectionsToOutputPosition_def getMinOutputOffset_def)
  show "at_affinity affinity this (outputLineIndex (offsetInInputWithInjectionsToOutputPosition k affinity this)) k" using t(2) by (simp add: p new_OutputPosition_def)
  show pt: "point this (offsetInInputWithInjectionsToOutputPosition k affinity this) = k" by (simp add: p point_def new_OutputPosition_def)
  have "line_begin this t \<le> k" "k \<le> line_begin this (t + 1)"
    using t k line_begin_last [OF ok] by (auto simp: at_affinity_def is_line_def split: if_splits)
  then show "is_position this (offsetInInputWithInjectionsToOutputPosition k affinity this)" using t(1) pt by (simp add: is_position_iff) (simp add: p new_OutputPosition_def)
qed

section \<open>Positions of the model and of the view\<close>

lemma projection_entries:
  assumes "projection_ok n this" "injectionOffsets this = Some offsets"
  shows "entries (injections this) offsets (options_of this)"
  using assms by (auto simp: projection_ok_def injections_def list_all2_conv_all_nth)

lemma translateToInputOffset_counts:
  assumes ok: "projection_ok n this" and p: "is_position this p"
  shows "translateToInputOffset (outputLineIndex p) (outputOffset p) this = Inr (Some (int (model_before n this (nat (point this p)))))"
proof -
  have b: "breaks_ok (length (marks n this)) this" and i: "insertions_ok n 0 (injections this)" using ok by (auto simp: projection_ok_def)
  note pt = point_of [OF b p]
  have line: "is_line this (outputLineIndex p)" using p by (simp add: is_position_def)
  have k: "(if outputLineIndex p = 0 then Some (if outputLineIndex p > 0 then max 0 (outputOffset p - wrappedTextIndentLength this) else outputOffset p)
      else map_option (\<lambda>start. start + (if outputLineIndex p > 0 then max 0 (outputOffset p - wrappedTextIndentLength this) else outputOffset p))
        (arr_at (breakOffsets this) (outputLineIndex p - 1))) = Some (point this p)"
    using pt(1) line by (auto simp: outputPositionToOffsetInInputWithInjections_def line_start_def is_line_def)
  show ?thesis
  proof (cases "injectionOffsets this")
    case None
    then have "marks n this = replicate n True" by (simp add: marks_def injections_def)
    then have "model_before n this (nat (point this p)) = nat (point this p)" using pt(3) by (simp add: model_before_def)
    then show ?thesis using k pt(2) None unfolding translateToInputOffset_def Let_def by simp
  next
    case (Some offsets)
    have "inputOffset_loop offsets (options_of this) (int (0 + nat (point this p))) = Inr (int (0 + model_before n this (nat (point this p))))"
      unfolding model_before_def marks_def using pt(3) by (intro inputOffset_loop_counts [OF projection_entries [OF ok Some] i]) (simp add: marks_def)
    then show ?thesis using k pt(2) Some unfolding translateToInputOffset_def Let_def by simp
  qed
qed

lemma translateToOutputPosition_point:
  assumes ok: "projection_ok n this" and x: "x \<le> n"
  obtains k where "translateToOutputPosition (int x) affinity this = Inr (offsetInInputWithInjectionsToOutputPosition (int k) affinity this)"
    "k \<le> length (marks n this)" "model_before n this k = x"
    "if affinity = AffinityRight then k = length (marks n this) \<or> marks n this ! k else k = 0 \<or> marks n this ! (k - 1)"
proof (cases "injectionOffsets this")
  case None
  then have "marks n this = replicate n True" by (simp add: marks_def injections_def)
  then show thesis using that [of x] x None by (cases "x = n"; cases "x = 0") (auto simp: translateToOutputPosition_def model_before_def)
next
  case (Some offsets)
  have i: "insertions_ok n 0 (injections this)" using ok by (simp add: projection_ok_def)
  obtain l where "withInjection_loop affinity (int x) offsets (options_of this) (int x) = Inr (int x + int l)"
      "x - 0 + l \<le> length (marks_from n 0 (injections this))" "trues (take (x - 0 + l) (marks_from n 0 (injections this))) = x - 0"
      "if affinity = AffinityRight then x - 0 + l = length (marks_from n 0 (injections this)) \<or> marks_from n 0 (injections this) ! (x - 0 + l)
       else x - 0 + l = 0 \<or> marks_from n 0 (injections this) ! (x - 0 + l - 1)"
    using withInjection_loop_point [OF projection_entries [OF ok Some] i _ x] by blast
  then show thesis using that [of "x + l"] Some unfolding translateToOutputPosition_def model_before_def marks_def diff_zero by simp
qed

lemma translate_point:
  assumes "projection_ok n this" "x \<le> n"
  shows "\<exists>p. translateToOutputPosition (int x) affinity this = Inr p \<and> is_position this p \<and>
      translateToInputOffset (outputLineIndex p) (outputOffset p) this = Inr (Some (int x)) \<and>
      (\<forall>k \<le> length (marks n this). model_before n this k = x \<longrightarrow> (if affinity = AffinityRight then int k \<le> point this p else point this p \<le> int k))"
proof -
  obtain k where k: "translateToOutputPosition (int x) affinity this = Inr (offsetInInputWithInjectionsToOutputPosition (int k) affinity this)"
      "k \<le> length (marks n this)" "model_before n this k = x"
      "if affinity = AffinityRight then k = length (marks n this) \<or> marks n this ! k else k = 0 \<or> marks n this ! (k - 1)"
    using translateToOutputPosition_point [OF assms] by blast
  have b: "breaks_ok (length (marks n this)) this" using assms(1) by (simp add: projection_ok_def)
  note p = toOutputPosition [OF b, of "int k" affinity]
  have "if affinity = AffinityRight then j \<le> k else k \<le> j" if "j \<le> length (marks n this)" "model_before n this j = x" for j
    using k(2,3,4) that trues_least [of k "marks n this" j] trues_greatest [of j "marks n this" k] by (auto simp: model_before_def)
  then show ?thesis
    using k(1-3) p translateToInputOffset_counts [OF assms(1)]
    by (intro exI [of _ "offsetInInputWithInjectionsToOutputPosition (int k) affinity this"]) auto
qed

text \<open>
  C22. From the model to the view and back. Every offset of a line has a position in the lines of the view, for every affinity; the offset of that position is the
  offset again. Among the points of the line with injected texts that have the same offset, the position is the last one for \<open>Right\<close> and the first one otherwise. And
  the offset of any position of the view is the number of characters of the model before it.
\<close>
theorem translate_roundtrip:
  assumes "projection_ok n this" "x \<le> n"
  shows "(\<exists>p. translateToOutputPosition (int x) affinity this = Inr p \<and> is_position this p \<and>
      translateToInputOffset (outputLineIndex p) (outputOffset p) this = Inr (Some (int x)) \<and>
      (\<forall>k \<le> length (marks n this). model_before n this k = x \<longrightarrow> (if affinity = AffinityRight then int k \<le> point this p else point this p \<le> int k))) \<and>
    (\<forall>p. is_position this p \<longrightarrow>
      translateToInputOffset (outputLineIndex p) (outputOffset p) this = Inr (Some (int (model_before n this (nat (point this p))))))"
  using translate_point [OF assms, of affinity] translateToInputOffset_counts [OF assms(1)] by blast

text \<open>A line \<open>abcd\<close> with \<open>xy\<close> and \<open>zw\<close> injected after \<open>ab\<close>, broken after \<open>abx\<close>.\<close>

definition sample_projection :: "InjectedTextCursorStops \<Rightarrow> InjectedTextCursorStops \<Rightarrow> ModelLineProjectionData" where
  "sample_projection stops stops' =
     \<lparr>injectionOffsets = Some [2, 2],
      injectionOptions = Some [\<lparr>it_content = [120, 121], it_inlineClassName = None, it_inlineClassNameAffectsLetterSpacing = None, it_cursorStops = Some stops\<rparr>,
        \<lparr>it_content = [122, 119], it_inlineClassName = None, it_inlineClassNameAffectsLetterSpacing = None, it_cursorStops = Some stops'\<rparr>],
      breakOffsets = [3, 8], breakOffsetsVisibleColumn = [3, 8], wrappedTextIndentLength = 4\<rparr>"

lemma sample_injections: "injections (sample_projection stops stops') = [(2, [120, 121]), (2, [122, 119])]"
  by (simp add: injections_def sample_projection_def options_of_def)

lemma sample_projection_ok: "projection_ok 4 (sample_projection stops stops')"
proof -
  have "length (marks 4 (sample_projection stops stops')) = 8" by (simp add: marks_def sample_injections marks_Cons)
  then show ?thesis unfolding projection_ok_def sample_injections by (simp add: sample_projection_def options_of_def breaks_ok_def)
qed

theorem translate_roundtrip_witness:
  "\<exists>p. translateToOutputPosition 2 AffinityRight (sample_projection StopsBoth StopsBoth) = Inr p \<and>
    translateToInputOffset (outputLineIndex p) (outputOffset p) (sample_projection StopsBoth StopsBoth) = Inr (Some 2)"
  using translate_roundtrip [OF sample_projection_ok, of 2 AffinityRight StopsBoth StopsBoth] by auto

section \<open>Normalizing positions around injected texts\<close>

definition lens :: "(nat \<times> 'a list) list \<Rightarrow> nat" where
  "lens ts = sum_list (map (length \<circ> snd) ts)"

lemma lens_simps [simp]: "lens [] = 0" "lens ((q, t) # ts) = length t + lens ts" "lens (xs @ ys) = lens xs + lens ys"
  by (simp_all add: lens_def)

definition all_at :: "nat \<Rightarrow> (nat \<times> 'a list) list \<Rightarrow> bool" where
  "all_at q ts \<longleftrightarrow> (\<forall>t \<in> set ts. fst t = q)"

lemma all_at_simps [simp]: "all_at q []" "all_at q ((q', t) # ts) \<longleftrightarrow> q' = q \<and> all_at q ts" "all_at q (xs @ ys) \<longleftrightarrow> all_at q xs \<and> all_at q ys"
  by (auto simp: all_at_def)

lemma marks_block_first:
  assumes "insertions_ok n p (bs @ ys)" "all_at q bs" "p \<le> q" "q \<le> n" "bs = [] \<longrightarrow> p = q"
  shows "marks_from n p (bs @ ys) = replicate (q - p) True @ replicate (lens bs) False @ marks_from n q ys"
  using assms
proof (induction bs arbitrary: p)
  case (Cons b bs)
  obtain t where b: "b = (q, t)" using Cons.prems(2) by (cases b) auto
  show ?case using Cons.prems Cons.IH [of q] by (simp add: b marks_Cons replicate_add)
qed simp

text \<open>Injected texts at the same offset are one block of the line with injections.\<close>

lemma marks_block:
  assumes "insertions_ok n p (xs @ bs @ ys)" "all_at q bs" "bs \<noteq> []"
  shows "\<exists>A. marks_from n p (xs @ bs @ ys) = A @ replicate (lens bs) False @ marks_from n q ys \<and> p \<le> q \<and> q \<le> n \<and> length A = q - p + lens xs \<and>
    trues A = q - p \<and> insertions_ok n q ys \<and> (xs = [] \<or> fst (last xs) < q \<longrightarrow> A = [] \<or> last A)"
  using assms
proof (induction xs arbitrary: p)
  case Nil
  obtain t bs' where bs: "bs = (q, t) # bs'" using Nil.prems(2,3) by (cases bs) auto
  have q: "p \<le> q" "q \<le> n" using Nil.prems(1) by (simp_all add: bs)
  have "insertions_ok n q ys" using Nil.prems(1,2) unfolding bs by (induction bs') (auto simp: all_at_def)
  then show ?case using marks_block_first [of n p bs ys q] Nil.prems q
    by (intro exI [of _ "replicate (q - p) True"]) (cases "q = p"; simp add: last_replicate)
next
  case (Cons x xs)
  obtain q' t where x: "x = (q', t)" by (cases x) auto
  have ok: "p \<le> q'" "q' \<le> n" "insertions_ok n q' (xs @ bs @ ys)" using Cons.prems(1) by (simp_all add: x)
  obtain A where A: "marks_from n q' (xs @ bs @ ys) = A @ replicate (lens bs) False @ marks_from n q ys" "q' \<le> q" "q \<le> n" "length A = q - q' + lens xs"
      "trues A = q - q'" "insertions_ok n q ys" "xs = [] \<or> fst (last xs) < q \<longrightarrow> A = [] \<or> last A"
    using Cons.IH [OF ok(3) Cons.prems(2,3)] by blast
  have "lens xs \<noteq> 0 \<or> xs = []" using ok(3) by (cases xs) auto
  then have "A \<noteq> []" if "fst (last (x # xs)) < q" using that A(2,4) x by (cases "xs = []") auto
  moreover from this have "last A" if "fst (last (x # xs)) < q" using A(7) that x by (cases xs) auto
  ultimately show ?case
    using A(1-6) ok(1,2) by (intro exI [of _ "replicate (q' - p) True @ replicate (length t) False @ A"]) (auto simp: x marks_Cons)
qed

lemma marks_first: "insertions_ok n q ys \<Longrightarrow> ys = [] \<or> q < fst (hd ys) \<Longrightarrow> marks_from n q ys = [] \<or> hd (marks_from n q ys)"
  by (cases ys; cases "n = q") (auto simp: marks_Cons hd_append)

lemma injectedTextAt_loop_finds:
  assumes "entries ts offsets options" "insertions_ok n p ts" "k \<le> length (marks_from n p ts)"
  shows "\<exists>r. injectedTextAt_loop (int (p + total' + k)) i (int total') offsets options = Inr r \<and>
    (case r of
       None \<Rightarrow> (k = 0 \<or> marks_from n p ts ! (k - 1)) \<and> (k = length (marks_from n p ts) \<or> marks_from n p ts ! k)
     | Some f \<Rightarrow> \<exists>xs q t ys. ts = xs @ (q, t) # ys \<and> injectedTextIndex f = i + int (length xs) \<and> it_offset f = int (q + total' + lens xs) \<and>
         it_length f = int (length t) \<and> q - p + lens xs \<le> k \<and> k \<le> q - p + lens xs + length t)"
  using assms
proof (induction offsets arbitrary: ts options p k i total')
  case Nil
  then have "ts = []" by auto
  then show ?case using Nil by (cases "k = n - p"; cases "k = 0") auto
next
  case (Cons offset offsets)
  then obtain opt opts where options: "options = opt # opts" by (cases options) auto
  then obtain q t ts' where ts: "ts = (q, t) # ts'" "offset = int q" "it_content opt = t" "entries ts' offsets opts"
    using Cons.prems(1) by (cases ts) auto
  have ok: "p \<le> q" "q \<le> n" "insertions_ok n q ts'" using Cons.prems(2) ts(1) by auto
  note marks = marks_Cons [OF ok(1,2), of t ts', folded ts(1)]
  consider "p + k < q" | "q \<le> p + k" "p + k \<le> q + length t" | "q + length t < p + k" by linarith
  then show ?case
  proof cases
    case 1
    then have "k < q - p" "k - 1 < q - p" by simp_all
    then have "marks_from n p ts ! k" "marks_from n p ts ! (k - 1)" by (simp_all add: marks nth_append)
    then show ?thesis using 1 by (intro exI [of _ None]) (simp add: options ts(2) Let_def)
  next
    case 2
    then show ?thesis using ok(1) unfolding options
      by (intro exI [of _ "Some \<lparr>injectedTextIndex = i, it_offset = int (q + total'), it_length = int (length t)\<rparr>"] conjI)
        (auto simp: ts Let_def intro!: exI [of _ "[]"])
  next
    case 3
    define j where "j = k - (q - p) - length t"
    have k: "k = (q - p) + length t + j" "0 < j" using 3 ok(1) by (simp_all add: j_def)
    have nth: "marks_from n p ts ! ((q - p) + length t + m) = marks_from n q ts' ! m" for m by (simp add: marks nth_append)
    have "j \<le> length (marks_from n q ts')" using Cons.prems(3) by (simp add: marks k)
    then obtain r where r: "injectedTextAt_loop (int (q + (total' + length t) + j)) (i + 1) (int (total' + length t)) offsets opts = Inr r"
        "case r of
           None \<Rightarrow> (j = 0 \<or> marks_from n q ts' ! (j - 1)) \<and> (j = length (marks_from n q ts') \<or> marks_from n q ts' ! j)
         | Some f \<Rightarrow> \<exists>xs q' t' ys. ts' = xs @ (q', t') # ys \<and> injectedTextIndex f = i + 1 + int (length xs) \<and>
             it_offset f = int (q' + (total' + length t) + lens xs) \<and> it_length f = int (length t') \<and> q' - q + lens xs \<le> j \<and> j \<le> q' - q + lens xs + length t'"
      using Cons.IH [OF ts(4) ok(3)] by blast
    have e: "int (q + (total' + length t) + j) = int (p + total' + k)" using k(1) ok(1) by simp
    have "injectedTextAt_loop (int (p + total' + k)) i (int total') (offset # offsets) options = Inr r"
      using r(1) 3 unfolding e by (simp add: options ts(2,3) Let_def)
    moreover have "case r of
       None \<Rightarrow> (k = 0 \<or> marks_from n p ts ! (k - 1)) \<and> (k = length (marks_from n p ts) \<or> marks_from n p ts ! k)
     | Some f \<Rightarrow> \<exists>xs q t ys. ts = xs @ (q, t) # ys \<and> injectedTextIndex f = i + int (length xs) \<and> it_offset f = int (q + total' + lens xs) \<and>
         it_length f = int (length t) \<and> q - p + lens xs \<le> k \<and> k \<le> q - p + lens xs + length t"
    proof (cases r)
      case None
      then show ?thesis using r(2) nth [of j] nth [of "j - 1"] k by (auto simp: marks)
    next
      case (Some f)
      then obtain xs q' t' ys where f: "ts' = xs @ (q', t') # ys" "injectedTextIndex f = i + 1 + int (length xs)"
          "it_offset f = int (q' + (total' + length t) + lens xs)" "it_length f = int (length t')" "q' - q + lens xs \<le> j" "j \<le> q' - q + lens xs + length t'"
        using r(2) by auto
      have "q \<le> q'" using ok(3) f(1) by (auto simp: insertions_ok_def)
      then have "ts = ((q, t) # xs) @ (q', t') # ys \<and> injectedTextIndex f = i + int (length ((q, t) # xs)) \<and>
          it_offset f = int (q' + total' + lens ((q, t) # xs)) \<and> it_length f = int (length t') \<and>
          q' - p + lens ((q, t) # xs) \<le> k \<and> k \<le> q' - p + lens ((q, t) # xs) + length t'"
        using f k ok(1) by (auto simp: ts(1))
      then show ?thesis unfolding Some option.case by blast
    qed
    ultimately show ?thesis by blast
  qed
qed

lemma entries_nth:
  assumes "entries ts offsets options"
  shows "length offsets = length ts"
    "i < length ts \<Longrightarrow> offsets ! i = int (fst (ts ! i)) \<and> i < length options \<and> it_content (options ! i) = snd (ts ! i)"
  using assms by (auto simp: list_all2_conv_all_nth split_beta)

lemma touchingRight_loop_block:
  assumes "entries (xs @ (q, t) # ys) offsets options"
  shows "\<exists>ys1 ys2. ys = ys1 @ ys2 \<and> all_at q ys1 \<and> (ys2 = [] \<or> fst (hd ys2) \<noteq> q) \<and> touchingRight_loop offsets options (length xs) r = Inr (r + int (lens ys1))"
  using assms
proof (induction ys arbitrary: xs t r)
  case Nil
  then show ?case using entries_nth(1) [OF Nil] by (simp add: touchingRight_loop.simps)
next
  case (Cons y ys)
  obtain q' t' where y: "y = (q', t')" by (cases y)
  have len: "length offsets = length xs + length ys + 2" using entries_nth(1) [OF Cons.prems] by simp
  have at: "offsets ! length xs = int q" "offsets ! Suc (length xs) = int q'" "it_content (options ! Suc (length xs)) = t'" "Suc (length xs) < length options"
    using entries_nth(2) [OF Cons.prems, of "length xs"] entries_nth(2) [OF Cons.prems, of "Suc (length xs)"] by (simp_all add: nth_append y)
  have get: "arr_get options (int (Suc (length xs))) = Inr (options ! Suc (length xs))" using at(4) by (rule arr_get_nat)
  show ?case
  proof (cases "q' = q")
    case True
    then obtain ys1 ys2 where ys: "ys = ys1 @ ys2" "all_at q ys1" "ys2 = [] \<or> fst (hd ys2) \<noteq> q"
        "touchingRight_loop offsets options (length (xs @ [(q, t)])) (r + int (length t')) = Inr (r + int (length t') + int (lens ys1))"
      using Cons.IH [of "xs @ [(q, t)]" t' "r + int (length t')"] Cons.prems y by auto
    have "touchingRight_loop offsets options (length xs) r = Inr (r + int (lens (y # ys1)))"
      using ys(4) at get len True by (subst touchingRight_loop.simps) (simp add: y del: of_nat_Suc)
    then show ?thesis using ys(1-3) True y by (intro exI [of _ "y # ys1"] exI [of _ ys2]) simp
  next
    case False
    then show ?thesis using at by (intro exI [of _ "[]"] exI [of _ "y # ys"]) (simp add: touchingRight_loop.simps y)
  qed
qed

lemma touchingLeft_loop_block:
  assumes "entries (xs @ (q, t) # ys) offsets options"
  shows "\<exists>xs1 xs2. xs = xs1 @ xs2 \<and> all_at q xs2 \<and> (xs1 = [] \<or> fst (last xs1) \<noteq> q) \<and> touchingLeft_loop offsets options (length xs) r = Inr (r - int (lens xs2))"
  using assms
proof (induction xs arbitrary: t ys r rule: rev_induct)
  case (snoc x xs)
  obtain q' t' where x: "x = (q', t')" by (cases x)
  have len: "length offsets = length xs + length ys + 2" using entries_nth(1) [OF snoc.prems] by simp
  have at: "offsets ! length xs = int q'" "offsets ! Suc (length xs) = int q" "it_content (options ! length xs) = t'" "length xs < length options"
    using entries_nth(2) [OF snoc.prems, of "length xs"] entries_nth(2) [OF snoc.prems, of "Suc (length xs)"] by (simp_all add: nth_append x)
  have eq: "arr_at offsets (int (length xs)) = arr_at offsets (int (Suc (length xs))) \<longleftrightarrow> q' = q" using at(1,2) len by (simp del: of_nat_Suc)
  show ?case
  proof (cases "q' = q")
    case True
    then obtain xs1 xs2 where xs: "xs = xs1 @ xs2" "all_at q xs2" "xs1 = [] \<or> fst (last xs1) \<noteq> q"
        "touchingLeft_loop offsets options (length xs) (r - int (length t')) = Inr (r - int (length t') - int (lens xs2))"
      using snoc.IH [of t' "(q, t) # ys" "r - int (length t')"] snoc.prems unfolding x append_assoc append.simps by blast
    have "touchingLeft_loop offsets options (length (xs @ [x])) r = Inr (r - int (lens (xs2 @ [x])))" using xs(4) eq at True x by (simp del: of_nat_Suc)
    then show ?thesis using xs(1-3) True x by (intro exI [of _ xs1] exI [of _ "xs2 @ [x]"]) simp
  next
    case False
    then show ?thesis using eq x by (intro exI [of _ "xs @ [x]"] exI [of _ "[]"]) (simp del: of_nat_Suc)
  qed
qed simp

lemma cursorStop_loop_block:
  assumes "entries (xs @ ys) offsets options"
  shows "\<exists>xs1 xs2. xs = xs1 @ xs2 \<and> all_at q xs2 \<and> cursorStop_loop offsets options (int q) (length xs) r = Inr (r - int (lens xs2))"
  using assms
proof (induction xs arbitrary: ys r rule: rev_induct)
  case (snoc x xs)
  obtain q' t' where x: "x = (q', t')" by (cases x)
  have len: "length xs < length offsets" using entries_nth(1) [OF snoc.prems] by simp
  have at: "offsets ! length xs = int q'" "it_content (options ! length xs) = t'" "length xs < length options"
    using entries_nth(2) [OF snoc.prems, of "length xs"] by (simp_all add: nth_append x)
  have get: "arr_get options (int (length xs)) = Inr (options ! length xs)" using at(3) by (rule arr_get_nat)
  obtain xs1 xs2 where xs: "xs = xs1 @ xs2" "all_at q xs2"
      "cursorStop_loop offsets options (int q) (length xs) (r - int (length t')) = Inr (r - int (length t') - int (lens xs2))"
    using snoc.IH [of "x # ys" "r - int (length t')"] snoc.prems by auto
  consider "q' \<noteq> q \<or> hasRightCursorStop (it_cursorStops (options ! length xs))"
    | "q' = q" "\<not> hasRightCursorStop (it_cursorStops (options ! length xs))" "hasLeftCursorStop (it_cursorStops (options ! length xs))"
    | "q' = q" "\<not> hasRightCursorStop (it_cursorStops (options ! length xs))" "\<not> hasLeftCursorStop (it_cursorStops (options ! length xs))" by blast
  then show ?case
  proof cases
    case 1
    then show ?thesis using at(1) len get by (intro exI [of _ "xs @ [x]"] exI [of _ "[]"]) (auto simp: arr_at_nat)
  next
    case 2
    then show ?thesis using at len get x by (intro exI [of _ xs] exI [of _ "[x]"]) simp
  next
    case 3
    then have "cursorStop_loop offsets options (int q) (length (xs @ [x])) r = Inr (r - int (lens (xs2 @ [x])))" using xs(3) at len get x by simp
    then show ?thesis using xs(1,2) 3(1) x by (intro exI [of _ xs1] exI [of _ "xs2 @ [x]"]) simp
  qed
qed simp

text \<open>A point is inside an injected text when it has characters of that text on both sides.\<close>

definition outside_texts :: "ModelLineProjectionData \<Rightarrow> nat \<Rightarrow> bool" where
  "outside_texts this k \<longleftrightarrow> (\<forall>xs q t ys. injections this = xs @ (q, t) # ys \<longrightarrow> \<not> (q + lens xs < k \<and> k < q + lens xs + length t))"

definition first_point :: "nat \<Rightarrow> ModelLineProjectionData \<Rightarrow> nat \<Rightarrow> bool" where
  "first_point n this k \<longleftrightarrow> k = 0 \<or> marks n this ! (k - 1)"

definition last_point :: "nat \<Rightarrow> ModelLineProjectionData \<Rightarrow> nat \<Rightarrow> bool" where
  "last_point n this k \<longleftrightarrow> k = length (marks n this) \<or> marks n this ! k"

lemma block_points:
  assumes ok: "insertions_ok n 0 (injections this)" and ts: "injections this = xs @ bs @ ys" "all_at q bs" "bs \<noteq> []"
  shows "q + lens xs + lens bs \<le> length (marks n this)"
    "\<And>k. q + lens xs \<le> k \<Longrightarrow> k \<le> q + lens xs + lens bs \<Longrightarrow> model_before n this k = q"
    "\<And>k. q + lens xs \<le> k \<Longrightarrow> k < q + lens xs + lens bs \<Longrightarrow> \<not> marks n this ! k"
    "xs = [] \<or> fst (last xs) \<noteq> q \<Longrightarrow> first_point n this (q + lens xs)"
    "ys = [] \<or> fst (hd ys) \<noteq> q \<Longrightarrow> last_point n this (q + lens xs + lens bs)"
proof -
  obtain A where A: "marks n this = A @ replicate (lens bs) False @ marks_from n q ys" "length A = q + lens xs" "trues A = q" "insertions_ok n q ys"
      "xs = [] \<or> fst (last xs) < q \<longrightarrow> A = [] \<or> last A"
    using marks_block [of n 0 xs bs ys q] ok ts by (auto simp: marks_def)
  show "q + lens xs + lens bs \<le> length (marks n this)" by (simp add: A(1,2))
  show "model_before n this k = q" if "q + lens xs \<le> k" "k \<le> q + lens xs + lens bs" for k
    using that by (simp add: model_before_def A(1,2,3))
  show "\<not> marks n this ! k" if "q + lens xs \<le> k" "k < q + lens xs + lens bs" for k
  proof -
    have "k - (q + lens xs) < lens bs" using that by linarith
    then show ?thesis using that(1) by (simp add: A(1,2) nth_append)
  qed
  have le: "fst (last xs) \<le> q" if "xs \<noteq> []"
  proof -
    have "last xs \<in> set xs" "bs ! 0 \<in> set bs" "fst (bs ! 0) = q" using that ts(2,3) by (auto simp: all_at_def)
    then show ?thesis using ok ts(1) by (auto simp: insertions_ok_def sorted_append)
  qed
  show "first_point n this (q + lens xs)" if "xs = [] \<or> fst (last xs) \<noteq> q"
  proof -
    have "A = [] \<or> last A" using A(5) that le by fastforce
    then show ?thesis unfolding first_point_def A(1) A(2) [symmetric] by (cases "A = []") (simp_all add: nth_append last_conv_nth)
  qed
  show "last_point n this (q + lens xs + lens bs)" if "ys = [] \<or> fst (hd ys) \<noteq> q"
  proof -
    have "ys = [] \<or> q < fst (hd ys)" using that A(4) by (cases ys) (auto simp: insertions_ok_def)
    then have "marks_from n q ys = [] \<or> hd (marks_from n q ys)" using marks_first [OF A(4)] by blast
    then show ?thesis using A(2) by (cases "marks_from n q ys = []") (simp_all add: last_point_def A(1) nth_append hd_conv_nth)
  qed
qed

lemma first_point_outside:
  assumes "insertions_ok n 0 (injections this)" "first_point n this k \<or> last_point n this k"
  shows "outside_texts this k"
  unfolding outside_texts_def
proof (intro allI impI notI)
  fix xs q t ys assume ts: "injections this = xs @ (q, t) # ys" and k: "q + lens xs < k \<and> k < q + lens xs + length t"
  note b = block_points [OF assms(1), of xs "[(q, t)]" ys q]
  have "q + lens xs \<le> k - 1" "k - 1 < q + lens xs + length t" using k by linarith+
  then have "\<not> marks n this ! k" "\<not> marks n this ! (k - 1)" "k < length (marks n this)" using b(1) b(3) [of k] b(3) [of "k - 1"] ts k by auto
  then show False using assms(2) k by (auto simp: first_point_def last_point_def)
qed

lemma boundary_outside:
  assumes ok: "insertions_ok n 0 (injections this)" and ts: "injections this = xs @ (q, t) # ys" and k: "k = q + lens xs \<or> k = q + lens xs + length t"
  shows "outside_texts this k"
  unfolding outside_texts_def
proof (intro allI impI notI)
  fix xs' q' t' ys' assume ts': "injections this = xs' @ (q', t') # ys'" and k': "q' + lens xs' < k \<and> k < q' + lens xs' + length t'"
  have srt: "sorted (map fst (injections this))" using ok by (simp add: insertions_ok_def)
  consider "length xs < length xs'" | "length xs = length xs'" | "length xs' < length xs" by linarith
  then show False
  proof cases
    case 1
    then obtain zs where "xs' = xs @ (q, t) # zs" using ts ts' by (auto simp: append_eq_append_conv2 append_eq_Cons_conv Cons_eq_append_conv)
    moreover from this have "q \<le> q'" using srt ts' by (auto simp: sorted_append)
    ultimately show False using k k' by auto
  next
    case 2
    then show False using ts ts' k k' by auto
  next
    case 3
    then obtain zs where "xs = xs' @ (q', t') # zs" using ts ts' by (auto simp: append_eq_append_conv2 append_eq_Cons_conv Cons_eq_append_conv)
    moreover from this have "q' \<le> q" using srt ts by (auto simp: sorted_append)
    ultimately show False using k k' by auto
  qed
qed

abbreviation leftwards :: "PositionAffinity \<Rightarrow> bool" where
  "leftwards affinity \<equiv> affinity = AffinityLeft \<or> affinity = LeftOfInjectedText"

abbreviation rightwards :: "PositionAffinity \<Rightarrow> bool" where
  "rightwards affinity \<equiv> affinity = AffinityRight \<or> affinity = RightOfInjectedText"

lemma normalizeOffset_point:
  assumes ok: "projection_ok n this" and Some: "injectionOffsets this = Some offsets" and k: "k \<le> length (marks n this)"
  shows "\<exists>k'. normalizeOffsetInInputWithInjectionsAroundInjections (int k) affinity offsets this = Inr (int k') \<and> k' \<le> length (marks n this) \<and>
    model_before n this k' = model_before n this k \<and> outside_texts this k' \<and>
    (leftwards affinity \<longrightarrow> first_point n this k') \<and> (rightwards affinity \<longrightarrow> last_point n this k')"
proof -
  let ?N = "normalizeOffsetInInputWithInjectionsAroundInjections (int k) affinity offsets this"
  have i: "insertions_ok n 0 (injections this)" using ok by (simp add: projection_ok_def)
  note e = projection_entries [OF ok Some]
  obtain r where r: "getInjectedTextAtOffset (int k) this = Inr r"
      "case r of None \<Rightarrow> first_point n this k \<and> last_point n this k
       | Some f \<Rightarrow> \<exists>xs q t ys. injections this = xs @ (q, t) # ys \<and> injectedTextIndex f = int (length xs) \<and> it_offset f = int (q + lens xs) \<and>
           it_length f = int (length t) \<and> q + lens xs \<le> k \<and> k \<le> q + lens xs + length t"
    using injectedTextAt_loop_finds [OF e i, of k 0 0] k
    by (simp add: getInjectedTextAtOffset_def Some marks_def first_point_def last_point_def cong: option.case_cong) blast
  show ?thesis
  proof (cases r)
    case None
    then show ?thesis using r k first_point_outside [OF i, of k] by (intro exI [of _ k]) (simp add: normalizeOffsetInInputWithInjectionsAroundInjections_def)
  next
    case (Some f)
    then obtain xs q t ys where f: "injections this = xs @ (q, t) # ys" "injectedTextIndex f = int (length xs)" "it_offset f = int (q + lens xs)"
        "it_length f = int (length t)" and kk: "q + lens xs \<le> k" "k \<le> q + lens xs + length t"
      using r(2) by auto
    note e' = e [unfolded f(1)]
    have at: "length xs < length offsets" "offsets ! length xs = int q" "length xs < length (options_of this)"
      using entries_nth(1) [OF e'] entries_nth(2) [OF e', of "length xs"] by simp_all
    define opt where "opt = options_of this ! length xs"
    have get: "arr_get (options_of this) (int (length xs)) = Inr opt" using at(3) unfolding opt_def by (rule arr_get_nat)
    have N: "?N = (case affinity of
        AffinityNone \<Rightarrow> if int k = int (q + lens xs + length t) \<and> hasRightCursorStop (it_cursorStops opt) then Inr (int (q + lens xs + length t))
          else if hasLeftCursorStop (it_cursorStops opt) then Inr (int (q + lens xs)) else cursorStop_loop offsets (options_of this) (int q) (length xs) (int (q + lens xs))
      | AffinityRight \<Rightarrow> touchingRight_loop offsets (options_of this) (length xs) (int (q + lens xs + length t))
      | RightOfInjectedText \<Rightarrow> touchingRight_loop offsets (options_of this) (length xs) (int (q + lens xs + length t))
      | AffinityLeft \<Rightarrow> touchingLeft_loop offsets (options_of this) (length xs) (int (q + lens xs))
      | LeftOfInjectedText \<Rightarrow> touchingLeft_loop offsets (options_of this) (length xs) (int (q + lens xs)))"
      using r(1) get at(2) by (simp add: Some f Let_def normalizeOffsetInInputWithInjectionsAroundInjections_def cong: PositionAffinity.case_cong)
    note single = block_points [OF i, of xs "[(q, t)]" ys q, simplified, OF f(1)]
    have mk: "model_before n this k = q" using single(2) kk by simp
    consider "leftwards affinity" | "rightwards affinity" | "affinity = AffinityNone" by (cases affinity) auto
    then show ?thesis
    proof cases
      case 1
      obtain xs1 xs2 where xs: "xs = xs1 @ xs2" "all_at q xs2" "xs1 = [] \<or> fst (last xs1) \<noteq> q"
          "touchingLeft_loop offsets (options_of this) (length xs) (int (q + lens xs)) = Inr (int (q + lens xs) - int (lens xs2))"
        using touchingLeft_loop_block [OF e', of "int (q + lens xs)"] by (elim exE conjE)
      note b = block_points [OF i, of xs1 "xs2 @ [(q, t)]" ys q]
      have ts: "injections this = xs1 @ (xs2 @ [(q, t)]) @ ys" "all_at q (xs2 @ [(q, t)])" "xs2 @ [(q, t)] \<noteq> []" using f(1) xs(1,2) by simp_all
      have "?N = Inr (int (q + lens xs1))" using N 1 xs(1,4) by auto
      moreover have "q + lens xs1 \<le> length (marks n this)" using b(1) [OF ts] by simp
      moreover have "model_before n this (q + lens xs1) = q" using b(2) [OF ts] by simp
      moreover have "first_point n this (q + lens xs1)" using b(4) [OF ts] xs(3) by simp
      ultimately show ?thesis using mk 1 first_point_outside [OF i, of "q + lens xs1"] by (intro exI [of _ "q + lens xs1"]) auto
    next
      case 2
      obtain ys1 ys2 where ys: "ys = ys1 @ ys2" "all_at q ys1" "ys2 = [] \<or> fst (hd ys2) \<noteq> q"
          "touchingRight_loop offsets (options_of this) (length xs) (int (q + lens xs + length t)) = Inr (int (q + lens xs + length t) + int (lens ys1))"
        using touchingRight_loop_block [OF e', of "int (q + lens xs + length t)"] by (elim exE conjE)
      note b = block_points [OF i, of xs "(q, t) # ys1" ys2 q]
      have ts: "injections this = xs @ ((q, t) # ys1) @ ys2" "all_at q ((q, t) # ys1)" "(q, t) # ys1 \<noteq> []" using f(1) ys(1,2) by simp_all
      define k' where "k' = q + lens xs + lens ((q, t) # ys1)"
      have "?N = Inr (int k')" using N 2 ys(1,4) by (auto simp: k'_def)
      moreover have "k' \<le> length (marks n this)" using b(1) [OF ts] by (simp add: k'_def)
      moreover have "model_before n this k' = q" using b(2) [OF ts] by (simp add: k'_def)
      moreover have "last_point n this k'" using b(5) [OF ts] ys(3) by (simp add: k'_def)
      ultimately show ?thesis using mk 2 first_point_outside [OF i, of k'] by (intro exI [of _ k']) auto
    next
      case 3
      obtain xs1 xs2 where xs: "xs = xs1 @ xs2" "all_at q xs2"
          "cursorStop_loop offsets (options_of this) (int q) (length xs) (int (q + lens xs)) = Inr (int (q + lens xs) - int (lens xs2))"
        using cursorStop_loop_block [OF e', of q "int (q + lens xs)"] by (elim exE conjE)
      note b = block_points [OF i, of xs1 "xs2 @ [(q, t)]" ys q]
      have "outside_texts this (q + lens xs1)"
      proof (cases xs2)
        case Nil
        then show ?thesis using boundary_outside [OF i f(1)] xs(1) by simp
      next
        case (Cons x xs3)
        then obtain t' where "x = (q, t')" using xs(2) by (cases x) auto
        then show ?thesis using boundary_outside [OF i, of xs1 q t' "xs3 @ (q, t) # ys"] xs(1) f(1) Cons by simp
      qed
      moreover have "outside_texts this (q + lens xs)" "outside_texts this (q + lens xs + length t)" using boundary_outside [OF i f(1)] by simp_all
      moreover have "q + lens xs1 \<le> length (marks n this)" "model_before n this (q + lens xs1) = q" using b(1,2) xs(1,2) f(1) by auto
      moreover have "model_before n this (q + lens xs) = q" "model_before n this (q + lens xs + length t) = q" "q + lens xs \<le> length (marks n this)"
        using single(1,2) by simp_all
      moreover have "\<exists>k' \<in> {q + lens xs + length t, q + lens xs, q + lens xs1}. ?N = Inr (int k')" using N 3 xs(1,3) by auto
      ultimately have "\<exists>k'. ?N = Inr (int k') \<and> k' \<le> length (marks n this) \<and> model_before n this k' = q \<and> outside_texts this k'"
        using single(1) by blast
      then show ?thesis using 3 by (simp add: mk)
    qed
  qed
qed

definition settled :: "PositionAffinity \<Rightarrow> ModelLineProjectionData \<Rightarrow> OutputPosition \<Rightarrow> bool" where
  "settled affinity this p \<longleftrightarrow>
     (affinity = AffinityLeft \<longrightarrow> outputLineIndex p = 0 \<or> getMinOutputOffset (outputLineIndex p) this < outputOffset p) \<and>
     (affinity = AffinityRight \<longrightarrow> outputLineIndex p = getOutputLineCount this - 1 \<or> Some (outputOffset p) \<noteq> getMaxOutputOffset (outputLineIndex p) this)"

lemma normalizeAroundBreaks_settles:
  assumes b: "breaks_ok len this" and p: "is_position this p"
  shows "\<exists>q. normalizeAroundBreaks (outputLineIndex p) (outputOffset p) affinity this = Some q \<and> is_position this q \<and> point this q = point this p \<and> settled affinity this q"
proof -
  define i where "i = outputLineIndex p"
  have line: "is_line this i" using p by (simp add: is_position_def i_def)
  have max: "getMaxOutputOffset j this = Some (line_begin this (j + 1) - line_begin this j + getMinOutputOffset j this)" if "is_line this j" for j
    using getLineLength_eq [OF that] by (simp add: getMaxOutputOffset_def)
  consider "affinity = AffinityLeft" "0 < i" "outputOffset p = getMinOutputOffset i this"
    | "affinity = AffinityRight" "i < getOutputLineCount this - 1" "Some (outputOffset p) = getMaxOutputOffset i this"
    | "\<not> (affinity = AffinityLeft \<and> 0 < i \<and> outputOffset p = getMinOutputOffset i this)"
      "\<not> (affinity = AffinityRight \<and> i < getOutputLineCount this - 1 \<and> Some (outputOffset p) = getMaxOutputOffset i this)" by blast
  then show ?thesis
  proof cases
    case 1
    define q where "q = new_OutputPosition (i - 1) (line_begin this i - line_begin this (i - 1) + getMinOutputOffset (i - 1) this)"
    have l: "is_line this (i - 1)" using line 1(2) by (simp add: is_line_def)
    have lt: "line_begin this (i - 1) < line_begin this i" using line_begin_mono [OF b, of "i - 1" i] line 1(2) by (simp add: is_line_def)
    have pt: "point this q = line_begin this i" "outputLineIndex q = i - 1" by (simp_all add: q_def point_def new_OutputPosition_def)
    have "normalizeAroundBreaks (outputLineIndex p) (outputOffset p) affinity this = Some q"
      using 1 max [OF l] by (simp add: normalizeAroundBreaks_def q_def flip: i_def)
    moreover have "point this p = line_begin this i" using 1(3) by (simp add: point_def flip: i_def)
    moreover have "settled affinity this q" using 1 lt by (simp add: settled_def q_def new_OutputPosition_def)
    ultimately show ?thesis using l lt pt by (auto simp: is_position_iff)
  next
    case 2
    define q where "q = new_OutputPosition (i + 1) (getMinOutputOffset (i + 1) this)"
    have l: "is_line this (i + 1)" using line 2(2) by (simp add: is_line_def)
    have lt: "line_begin this (i + 1) < line_begin this (i + 1 + 1)" using line_begin_mono [OF b, of "i + 1" "i + 1 + 1"] l by (simp add: is_line_def)
    have pt: "point this q = line_begin this (i + 1)" "outputLineIndex q = i + 1" by (simp_all add: q_def point_def new_OutputPosition_def)
    have "normalizeAroundBreaks (outputLineIndex p) (outputOffset p) affinity this = Some q"
      using 2 by (simp add: normalizeAroundBreaks_def q_def flip: i_def)
    moreover have "point this p = line_begin this (i + 1)" using 2(3) max [OF line] by (simp add: point_def flip: i_def)
    moreover have "settled affinity this q" using 2 lt max [OF l] by (simp add: settled_def q_def new_OutputPosition_def)
    ultimately show ?thesis using l lt pt by (auto simp: is_position_iff)
  next
    case 3
    have "new_OutputPosition i (outputOffset p) = p" by (simp add: new_OutputPosition_def i_def)
    then have n: "normalizeAroundBreaks (outputLineIndex p) (outputOffset p) affinity this = Some p" using 3 unfolding normalizeAroundBreaks_def i_def by auto
    have "getMinOutputOffset i this \<le> outputOffset p" using p by (simp add: is_position_def i_def)
    then have "settled affinity this p" using 3 line by (auto simp: settled_def is_line_def simp flip: i_def)
    then show ?thesis using n p by blast
  qed
qed

lemma settled_stays: "settled affinity this p \<Longrightarrow> is_position this p \<Longrightarrow> normalizeAroundBreaks (outputLineIndex p) (outputOffset p) affinity this = Some p"
  by (auto simp: settled_def normalizeAroundBreaks_def is_position_def is_line_def new_OutputPosition_def)

lemma toOutputPosition_settled:
  assumes "breaks_ok len this" "0 \<le> k" "k \<le> int len"
  shows "settled affinity this (offsetInInputWithInjectionsToOutputPosition k affinity this)"
proof -
  define p where "p = offsetInInputWithInjectionsToOutputPosition k affinity this"
  note o = toOutputPosition [OF assms, of affinity, folded p_def]
  have line: "is_line this (outputLineIndex p)" using o(1) by (simp add: is_position_def)
  show ?thesis using o(2,3) getLineLength_eq [OF line] unfolding p_def [symmetric]
    by (auto simp: settled_def at_affinity_def point_def getMaxOutputOffset_def)
qed

lemma points_without_injections:
  assumes "injectionOffsets this = None" "k \<le> length (marks n this)"
  shows "first_point n this k" "last_point n this k" "outside_texts this k"
proof -
  have m: "injections this = []" "marks n this = replicate n True" using assms(1) by (simp_all add: marks_def injections_def)
  show "first_point n this k" using assms(2) by (cases k) (simp_all add: first_point_def m)
  show "last_point n this k" using assms(2) by (cases "k = n") (simp_all add: last_point_def m)
  show "outside_texts this k" by (simp add: outside_texts_def m)
qed

lemma normalizeOutputPosition_point:
  assumes ok: "projection_ok n this" and p: "is_position this p"
  shows "\<exists>q k. normalizeOutputPosition (outputLineIndex p) (outputOffset p) affinity this = Inr (Some q) \<and> is_position this q \<and> point this q = int k \<and>
    k \<le> length (marks n this) \<and> model_before n this k = model_before n this (nat (point this p)) \<and> outside_texts this k \<and> settled affinity this q \<and>
    (leftwards affinity \<longrightarrow> first_point n this k) \<and> (rightwards affinity \<longrightarrow> last_point n this k)"
proof -
  have b: "breaks_ok (length (marks n this)) this" using ok by (simp add: projection_ok_def)
  note pt = point_of [OF b p]
  define k where "k = nat (point this p)"
  have k: "point this p = int k" "k \<le> length (marks n this)" using pt(2,3) by (auto simp: k_def)
  obtain q where q: "normalizeAroundBreaks (outputLineIndex p) (outputOffset p) affinity this = Some q" "is_position this q" "point this q = point this p" "settled affinity this q"
    using normalizeAroundBreaks_settles [OF b p] by blast
  show ?thesis
  proof (cases "injectionOffsets this")
    case None
    then show ?thesis using q k points_without_injections [OF None k(2)] by (intro exI [of _ q] exI [of _ k]) (simp add: normalizeOutputPosition_def)
  next
    case (Some offsets)
    obtain k' where k': "normalizeOffsetInInputWithInjectionsAroundInjections (int k) affinity offsets this = Inr (int k')" "k' \<le> length (marks n this)"
        "model_before n this k' = model_before n this k" "outside_texts this k'" "leftwards affinity \<longrightarrow> first_point n this k'" "rightwards affinity \<longrightarrow> last_point n this k'"
      using normalizeOffset_point [OF ok Some k(2), of affinity] by (elim exE conjE)
    have n: "normalizeOutputPosition (outputLineIndex p) (outputOffset p) affinity this =
        Inr (if k' \<noteq> k then Some (offsetInInputWithInjectionsToOutputPosition (int k') affinity this) else Some q)"
      using k'(1) q(1) pt(1) by (simp add: normalizeOutputPosition_def Some k(1))
    show ?thesis
    proof (cases "k' = k")
      case True
      then show ?thesis using n q k k' by (intro exI [of _ q] exI [of _ k]) simp
    next
      case False
      note o = toOutputPosition [OF b, of "int k'" affinity] toOutputPosition_settled [OF b, of "int k'" affinity]
      show ?thesis using n False o k'(2-6)
        by (intro exI [of _ "offsetInInputWithInjectionsToOutputPosition (int k') affinity this"] exI [of _ k']) (simp add: k_def)
    qed
  qed
qed

text \<open>
  C25. Normalizing a position. It never throws and gives a position with the same offset in the model that is not inside an injected text. For the affinities to the
  left it is the first point of the line with that offset, for those to the right the last one; \<open>Left\<close> prefers the end of a line of the view to the beginning of the
  next one and \<open>Right\<close> the converse. With one of these affinities, normalizing again changes nothing.
\<close>
theorem normalizeOutputPosition_settles:
  assumes "projection_ok n this" "is_position this p"
  shows "\<exists>q. normalizeOutputPosition (outputLineIndex p) (outputOffset p) affinity this = Inr (Some q) \<and> is_position this q \<and>
    translateToInputOffset (outputLineIndex q) (outputOffset q) this = translateToInputOffset (outputLineIndex p) (outputOffset p) this \<and>
    outside_texts this (nat (point this q)) \<and> settled affinity this q \<and>
    (\<forall>k \<le> length (marks n this). model_before n this k = model_before n this (nat (point this q)) \<longrightarrow>
      (leftwards affinity \<longrightarrow> point this q \<le> int k) \<and> (rightwards affinity \<longrightarrow> int k \<le> point this q)) \<and>
    (affinity \<noteq> AffinityNone \<longrightarrow> normalizeOutputPosition (outputLineIndex q) (outputOffset q) affinity this = Inr (Some q))"
proof -
  have b: "breaks_ok (length (marks n this)) this" using assms(1) by (simp add: projection_ok_def)
  obtain q k where q: "normalizeOutputPosition (outputLineIndex p) (outputOffset p) affinity this = Inr (Some q)" "is_position this q" "point this q = int k"
      "k \<le> length (marks n this)" "model_before n this k = model_before n this (nat (point this p))" "outside_texts this k" "settled affinity this q"
      "leftwards affinity \<longrightarrow> first_point n this k" "rightwards affinity \<longrightarrow> last_point n this k"
    using normalizeOutputPosition_point [OF assms, of affinity] by (elim exE conjE)
  have least: "k \<le> j" if "leftwards affinity" "model_before n this j = model_before n this k" for j
    using trues_least [OF q(4), of j] q(8) that by (simp add: model_before_def first_point_def)
  have greatest: "j \<le> k" if "rightwards affinity" "j \<le> length (marks n this)" "model_before n this j = model_before n this k" for j
    using trues_greatest [OF that(2), of k] q(9) that by (simp add: model_before_def last_point_def)
  have again: "normalizeOutputPosition (outputLineIndex q) (outputOffset q) affinity this = Inr (Some q)" if "affinity \<noteq> AffinityNone"
  proof -
    note stays = settled_stays [OF q(7,2)]
    show ?thesis
    proof (cases "injectionOffsets this")
      case None
      then show ?thesis using stays by (simp add: normalizeOutputPosition_def)
    next
      case (Some offsets)
      obtain k' where k': "normalizeOffsetInInputWithInjectionsAroundInjections (int k) affinity offsets this = Inr (int k')" "k' \<le> length (marks n this)"
          "model_before n this k' = model_before n this k" "leftwards affinity \<longrightarrow> first_point n this k'" "rightwards affinity \<longrightarrow> last_point n this k'"
        using normalizeOffset_point [OF assms(1) Some q(4), of affinity] by (elim exE conjE)
      have "k' = k"
      proof (cases "leftwards affinity")
        case True
        have "k' \<le> k" using trues_least [OF k'(2), of k] k'(3,4) True by (simp add: model_before_def first_point_def)
        then show ?thesis using least [OF True k'(3)] by simp
      next
        case False
        then have r: "rightwards affinity" using that by (cases affinity) auto
        have "k \<le> k'" using trues_greatest [OF q(4), of k'] k'(3,5) r by (simp add: model_before_def last_point_def)
        then show ?thesis using greatest [OF r k'(2,3)] by simp
      qed
      then show ?thesis using k'(1) stays point_of(1) [OF b q(2)] by (simp add: normalizeOutputPosition_def Some q(3))
    qed
  qed
  show ?thesis
    using q(1,2,5,6,7) translateToInputOffset_counts [OF assms] translateToInputOffset_counts [OF assms(1) q(2)] least greatest again
    by (intro exI [of _ q]) (auto simp: q(3))
qed

theorem normalizeOutputPosition_settles_witness:
  "\<exists>q. normalizeOutputPosition 1 4 RightOfInjectedText (sample_projection StopsNone StopsNone) = Inr (Some q) \<and>
    normalizeOutputPosition (outputLineIndex q) (outputOffset q) RightOfInjectedText (sample_projection StopsNone StopsNone) = Inr (Some q)"
proof -
  have "is_position (sample_projection StopsNone StopsNone) (new_OutputPosition 1 4)"
    by (simp add: is_position_def is_line_def getOutputLineCount_def getMinOutputOffset_def getMaxOutputOffset_def getLineLength_def line_start_def arr_at_def
        new_OutputPosition_def sample_projection_def)
  from normalizeOutputPosition_settles [OF sample_projection_ok this, of RightOfInjectedText] show ?thesis by (auto simp: new_OutputPosition_def)
qed

text \<open>
  Without affinity, normalizing again can move the position: from inside the second text it first goes to the left of it, and then, as the first text
  has no cursor stop on its right, to the left of both.
\<close>

lemma normalize_without_affinity_moves_twice:
  "normalizeOutputPosition 1 6 AffinityNone (sample_projection StopsLeft StopsLeft) = Inr (Some (new_OutputPosition 1 5))"
  "normalizeOutputPosition 1 5 AffinityNone (sample_projection StopsLeft StopsLeft) = Inr (Some (new_OutputPosition 0 2))"
  by code_simp+

end
