(* ===== verification/Model_Lines.thy ===== *)
theory Model_Lines
  imports Line_Projection
begin

text \<open>
  The projections of \<open>src/vs/editor/common/viewModel/modelLineProjection.ts\<close>: a line of the model is shown as it is, hidden, or shown through projection data. The
  methods that make tokens and decorations of the lines of the view are left out. The text model is a parameter.
\<close>

section \<open>Injected texts of decorations\<close>

interpretation injected_order: js_comparator compareInjectedText "\<lambda>_. True"
proof
  show "sgn (compareInjectedText b a) = - sgn (compareInjectedText a b)" for a b by (simp add: compareInjectedText_def sgn_if)
  show "compareInjectedText a c \<le> 0" if "compareInjectedText a b \<le> 0" "compareInjectedText b c \<le> 0" for a b c
    using that by (auto simp: compareInjectedText_def split: if_splits)
qed

lemma decoration_texts_nonempty: "t \<in> set (decoration_texts d) \<Longrightarrow> it_content (lit_options t) \<noteq> []"
  by (auto simp: decoration_texts_def new_LineInjectedText_def split: option.splits if_splits)

section \<open>Applying injected texts\<close>

definition insertions :: "LineInjectedText list \<Rightarrow> (nat \<times> jsstring) list" where
  "insertions ts = map (\<lambda>t. (nat (lit_column t - 1), it_content (lit_options t))) ts"

lemma applyInjectedText_loop_injects:
  assumes "insertions_ok (length s) p (insertions ts)" "\<forall>t \<in> set ts. 1 \<le> lit_column t"
  shows "\<exists>r' p'. applyInjectedText_loop s ts r (int p) = (r', p') \<and> r' @ js_substring_from s p' = r @ injected s p (insertions ts)"
  using assms
proof (induction ts arbitrary: p r)
  case Nil
  then show ?case by (simp add: js_substring_suffix insertions_def)
next
  case (Cons t ts)
  define q where "q = nat (lit_column t - 1)"
  have q: "lit_column t - 1 = int q" using Cons.prems(2) by (simp add: q_def)
  have ok: "p \<le> q" "q \<le> length s" "insertions_ok (length s) q (insertions ts)" using Cons.prems(1) by (simp_all add: insertions_def q_def)
  have cut: "js_substring s (int p) (int q) = take (q - p) (drop p s)" using ok(1,2) by (simp add: js_substring_def js_clamp_def drop_take)
  obtain r' p' where "applyInjectedText_loop s ts (r @ js_substring s (int p) (int q) @ it_content (lit_options t)) (int q) = (r', p')"
      "r' @ js_substring_from s p' = (r @ js_substring s (int p) (int q) @ it_content (lit_options t)) @ injected s q (insertions ts)"
    using Cons.IH [OF ok(3)] Cons.prems(2) by fastforce
  then show ?case by (simp add: q cut insertions_def)
qed

lemma applyInjectedText_injects:
  assumes "insertions_ok (length s) 0 (insertions ts)" "\<forall>t \<in> set ts. 1 \<le> lit_column t"
  shows "LineInjectedText_applyInjectedText s (Some ts) = injected s 0 (insertions ts)"
proof (cases "ts = []")
  case False
  then show ?thesis using applyInjectedText_loop_injects [OF assms, of "[]"] by (auto simp: LineInjectedText_applyInjectedText_def split: prod.splits)
qed (simp add: LineInjectedText_applyInjectedText_def insertions_def)

section \<open>Projections\<close>

text \<open>The text model, as far as lines are read from it. A column that is \<open>undefined\<close> or \<open>NaN\<close> is None.\<close>

record ISimpleModel =
  getLineContent :: "number \<Rightarrow> jsstring"
  sm_getLineLength :: "number \<Rightarrow> number"
  getLineMinColumn :: "number \<Rightarrow> number"
  getLineMaxColumn :: "number \<Rightarrow> number"
  getValueInRange :: "number \<Rightarrow> number option \<Rightarrow> number option \<Rightarrow> jsstring"

datatype IModelLineProjection = ModelLineProjection ModelLineProjectionData bool | IdentityModelLineProjection | HiddenModelLineProjection

definition createModelLineProjection :: "ModelLineProjectionData option \<Rightarrow> bool \<Rightarrow> IModelLineProjection" where
  "createModelLineProjection lineBreakData visible =
     (case lineBreakData of
        None \<Rightarrow> if visible then IdentityModelLineProjection else HiddenModelLineProjection
      | Some data \<Rightarrow> ModelLineProjection data visible)"

fun isVisible :: "IModelLineProjection \<Rightarrow> bool" where
  "isVisible (ModelLineProjection data visible) = visible"
| "isVisible IdentityModelLineProjection = True"
| "isVisible HiddenModelLineProjection = False"

fun setVisible :: "bool \<Rightarrow> IModelLineProjection \<Rightarrow> IModelLineProjection" where
  "setVisible visible (ModelLineProjection data _) = ModelLineProjection data visible"
| "setVisible visible IdentityModelLineProjection = (if visible then IdentityModelLineProjection else HiddenModelLineProjection)"
| "setVisible visible HiddenModelLineProjection = (if \<not> visible then HiddenModelLineProjection else IdentityModelLineProjection)"

fun getProjectionData :: "IModelLineProjection \<Rightarrow> ModelLineProjectionData option" where
  "getProjectionData (ModelLineProjection data visible) = Some data"
| "getProjectionData IdentityModelLineProjection = None"
| "getProjectionData HiddenModelLineProjection = None"

fun getViewLineCount :: "IModelLineProjection \<Rightarrow> number" where
  "getViewLineCount (ModelLineProjection data visible) = (if \<not> visible then 0 else getOutputLineCount data)"
| "getViewLineCount IdentityModelLineProjection = 1"
| "getViewLineCount HiddenModelLineProjection = 0"

definition assertVisible :: "bool \<Rightarrow> 'a result \<Rightarrow> 'a result" where
  "assertVisible visible r = (if \<not> visible then Inl PlainError else r)"

text \<open>\<open>spaces\<close> keeps the strings it has made; the array of these strings is passed and returned.\<close>

definition makeSpaces :: "number \<Rightarrow> jsstring" where
  "makeSpaces count' = replicate (nat count') 32"

definition spaces :: "number \<Rightarrow> jsstring list \<Rightarrow> jsstring option \<times> jsstring list" where
  "spaces count' cache =
     (let cache = (if count' \<ge> int (length cache) then take 1 cache @ map makeSpaces [1..count'] else cache)
      in (arr_at cache count', cache))"

definition view_line_piece :: "ISimpleModel \<Rightarrow> number \<Rightarrow> number \<Rightarrow> ModelLineProjectionData \<Rightarrow> jsstring result" where
  "view_line_piece model modelLineNumber line data =
     (let startOffset = line_start line data; endOffset = arr_at (breakOffsets data) line
      in case injectionOffsets data of
           Some offsets \<Rightarrow>
             if length (options_of data) < length offsets then Inl TypeError
             else
               let injectedTexts = map (\<lambda>(offset, opt). new_LineInjectedText 0 0 (offset + 1) opt 0) (zip offsets (options_of data));
                   lineWithInjections = LineInjectedText_applyInjectedText (getLineContent model modelLineNumber) (Some injectedTexts)
               in Inr (js_substring lineWithInjections (case startOffset of None \<Rightarrow> 0 | Some s \<Rightarrow> s)
                   (case endOffset of None \<Rightarrow> int (length lineWithInjections) | Some e \<Rightarrow> e))
         | None \<Rightarrow> Inr (getValueInRange model modelLineNumber (map_option (\<lambda>s. s + 1) startOffset) (map_option (\<lambda>e. e + 1) endOffset)))"

fun getViewLineContent :: "ISimpleModel \<Rightarrow> number \<Rightarrow> number \<Rightarrow> IModelLineProjection \<Rightarrow> jsstring list \<Rightarrow> (jsstring \<times> jsstring list) result" where
  "getViewLineContent model modelLineNumber line (ModelLineProjection data visible) cache =
     assertVisible visible (result_map (\<lambda>r.
       if line > 0 then case spaces (wrappedTextIndentLength data) cache of (s, cache) \<Rightarrow> ((case s of None \<Rightarrow> js_str ''undefined'' | Some s \<Rightarrow> s) @ r, cache)
       else (r, cache)) (view_line_piece model modelLineNumber line data))"
| "getViewLineContent model modelLineNumber line IdentityModelLineProjection cache = Inr (getLineContent model modelLineNumber, cache)"
| "getViewLineContent model modelLineNumber line HiddenModelLineProjection cache = Inl PlainError"

fun getViewLineLength :: "ISimpleModel \<Rightarrow> number \<Rightarrow> number \<Rightarrow> IModelLineProjection \<Rightarrow> number option result" where
  "getViewLineLength model modelLineNumber line (ModelLineProjection data visible) = assertVisible visible (Inr (getLineLength line data))"
| "getViewLineLength model modelLineNumber line IdentityModelLineProjection = Inr (Some (sm_getLineLength model modelLineNumber))"
| "getViewLineLength model modelLineNumber line HiddenModelLineProjection = Inl PlainError"

fun getViewLineMinColumn :: "ISimpleModel \<Rightarrow> number \<Rightarrow> number \<Rightarrow> IModelLineProjection \<Rightarrow> number result" where
  "getViewLineMinColumn model modelLineNumber line (ModelLineProjection data visible) = assertVisible visible (Inr (getMinOutputOffset line data + 1))"
| "getViewLineMinColumn model modelLineNumber line IdentityModelLineProjection = Inr (getLineMinColumn model modelLineNumber)"
| "getViewLineMinColumn model modelLineNumber line HiddenModelLineProjection = Inl PlainError"

fun getViewLineMaxColumn :: "ISimpleModel \<Rightarrow> number \<Rightarrow> number \<Rightarrow> IModelLineProjection \<Rightarrow> number option result" where
  "getViewLineMaxColumn model modelLineNumber line (ModelLineProjection data visible) =
     assertVisible visible (Inr (map_option (\<lambda>m. m + 1) (getMaxOutputOffset line data)))"
| "getViewLineMaxColumn model modelLineNumber line IdentityModelLineProjection = Inr (Some (getLineMaxColumn model modelLineNumber))"
| "getViewLineMaxColumn model modelLineNumber line HiddenModelLineProjection = Inl PlainError"

fun getModelColumnOfViewPosition :: "number \<Rightarrow> number \<Rightarrow> IModelLineProjection \<Rightarrow> number option result" where
  "getModelColumnOfViewPosition line col (ModelLineProjection data visible) =
     assertVisible visible (result_map (map_option (\<lambda>off. off + 1)) (translateToInputOffset line (col - 1) data))"
| "getModelColumnOfViewPosition line col IdentityModelLineProjection = Inr (Some col)"
| "getModelColumnOfViewPosition line col HiddenModelLineProjection = Inl PlainError"

fun getViewPositionOfModelPosition :: "number \<Rightarrow> number \<Rightarrow> PositionAffinity \<Rightarrow> IModelLineProjection \<Rightarrow> Position result" where
  "getViewPositionOfModelPosition deltaLineNumber inputColumn affinity (ModelLineProjection data visible) =
     assertVisible visible (result_map (OutputPosition_toPosition deltaLineNumber) (translateToOutputPosition (inputColumn - 1) affinity data))"
| "getViewPositionOfModelPosition deltaLineNumber inputColumn affinity IdentityModelLineProjection = Inr (new_Position deltaLineNumber inputColumn)"
| "getViewPositionOfModelPosition deltaLineNumber inputColumn affinity HiddenModelLineProjection = Inl PlainError"

fun getViewLineNumberOfModelPosition :: "number \<Rightarrow> number \<Rightarrow> IModelLineProjection \<Rightarrow> number result" where
  "getViewLineNumberOfModelPosition deltaLineNumber inputColumn (ModelLineProjection data visible) =
     assertVisible visible (result_map (\<lambda>r. deltaLineNumber + outputLineIndex r) (translateToOutputPosition (inputColumn - 1) AffinityNone data))"
| "getViewLineNumberOfModelPosition deltaLineNumber inputColumn IdentityModelLineProjection = Inr deltaLineNumber"
| "getViewLineNumberOfModelPosition deltaLineNumber inputColumn HiddenModelLineProjection = Inl PlainError"

fun normalizePosition :: "number \<Rightarrow> Position \<Rightarrow> PositionAffinity \<Rightarrow> IModelLineProjection \<Rightarrow> Position option result" where
  "normalizePosition line outputPosition affinity (ModelLineProjection data visible) =
     (let baseViewLineNumber = lineNumber outputPosition - line
      in result_map (map_option (OutputPosition_toPosition baseViewLineNumber)) (normalizeOutputPosition line (column outputPosition - 1) affinity data))"
| "normalizePosition line outputPosition affinity IdentityModelLineProjection = Inr (Some outputPosition)"
| "normalizePosition line outputPosition affinity HiddenModelLineProjection = Inl PlainError"

fun getInjectedTextAt :: "number \<Rightarrow> number \<Rightarrow> IModelLineProjection \<Rightarrow> InjectedTextOptions option result" where
  "getInjectedTextAt line col (ModelLineProjection data visible) = getInjectedText line (col - 1) data"
| "getInjectedTextAt line col IdentityModelLineProjection = Inr None"
| "getInjectedTextAt line col HiddenModelLineProjection = Inl PlainError"

section \<open>The text of the lines of the view\<close>

lemma length_injected: "insertions_ok (length s) p ts \<Longrightarrow> length (injected s p ts) = length (marks_from (length s) p ts)"
proof (induction ts arbitrary: p)
  case (Cons t ts)
  then show ?case by (cases t) (auto simp: marks_Cons min_def)
qed simp

definition piece :: "'a list \<Rightarrow> ModelLineProjectionData \<Rightarrow> nat \<Rightarrow> 'a list" where
  "piece w data i = drop (nat (line_begin data (int i))) (take (nat (line_begin data (int (Suc i)))) w)"

lemma concat_pieces:
  assumes "breaks_ok (length w) data"
  shows "concat (map (piece w data) [0..<nat (getOutputLineCount data)]) = w"
proof -
  have "concat (map (piece w data) [0..<m]) = take (nat (line_begin data (int m))) w" if "int m \<le> getOutputLineCount data" for m
    using that
  proof (induction m)
    case (Suc m)
    have lt: "line_begin data (int m) < line_begin data (int (Suc m))" using line_begin_mono [OF assms, of "int m" "int (Suc m)"] Suc.prems by simp
    let ?a = "nat (line_begin data (int m))" and ?b = "nat (line_begin data (int (Suc m)))"
    have "take ?a (take ?b w) @ drop ?a (take ?b w) = take ?b w" by (rule append_take_drop_id)
    moreover have "take ?a (take ?b w) = take ?a w" using lt by (simp add: min_def)
    ultimately show ?case using Suc by (simp add: piece_def)
  qed simp
  then show ?thesis using line_begin_last [OF assms] lines_exist [OF assms] by simp
qed

text \<open>What the text model documents of a line with the text \<open>s\<close>: its length and columns, and that a range in the line gives the text between the columns.\<close>

definition shows_line :: "ISimpleModel \<Rightarrow> number \<Rightarrow> jsstring \<Rightarrow> bool" where
  "shows_line model l s \<longleftrightarrow>
     getLineContent model l = s \<and> sm_getLineLength model l = int (length s) \<and> getLineMinColumn model l = 1 \<and> getLineMaxColumn model l = int (length s) + 1 \<and>
     (\<forall>a b. 1 \<le> a \<and> a \<le> b \<and> b \<le> int (length s) + 1 \<longrightarrow> getValueInRange model l (Some a) (Some b) = js_substring s (a - 1) (b - 1))"

definition spaces_ok :: "jsstring list \<Rightarrow> bool" where
  "spaces_ok cache \<longleftrightarrow> cache \<noteq> [] \<and> (\<forall>i < length cache. cache ! i = replicate i 32)"

lemma spaces_returns:
  assumes "spaces_ok cache" "0 \<le> k"
  shows "\<exists>cache'. spaces k cache = (Some (replicate (nat k) 32), cache') \<and> spaces_ok cache'"
proof (cases "k \<ge> int (length cache)")
  case True
  have hd: "take 1 cache = [[]]" using assms(1) by (cases cache) (auto simp: spaces_ok_def)
  define cache' where "cache' = [] # map makeSpaces [1..k]"
  have "cache' ! i = replicate i 32" if "i \<le> nat k" for i using that by (cases i) (auto simp: cache'_def makeSpaces_def nth_upto nat_add_distrib)
  moreover have "length cache' = Suc (nat k)" using assms(2) by (simp add: cache'_def)
  moreover have "spaces k cache = (arr_at cache' k, cache')" using True unfolding spaces_def hd by (simp add: cache'_def Let_def)
  ultimately show ?thesis using assms(2) by (auto simp: arr_at_def spaces_ok_def)
next
  case False
  then show ?thesis using assms by (auto simp: spaces_def arr_at_def spaces_ok_def)
qed

lemma substring_piece:
  assumes "breaks_ok (length w) data" "int i < getOutputLineCount data"
  shows "js_substring w (line_begin data (int i)) (line_begin data (int (Suc i))) = piece w data i"
    "0 \<le> line_begin data (int i)" "line_begin data (int i) < line_begin data (int (Suc i))" "line_begin data (int (Suc i)) \<le> int (length w)"
proof -
  have b: "0 \<le> line_begin data (int i)"
    using line_begin_mono [OF assms(1), of 0 "int i"] assms(2) by (cases i) simp_all
  show lt: "line_begin data (int i) < line_begin data (int (Suc i))" using line_begin_mono [OF assms(1), of "int i" "int (Suc i)"] assms(2) by simp
  show le: "line_begin data (int (Suc i)) \<le> int (length w)"
    using line_begin_mono [OF assms(1), of "int (Suc i)" "getOutputLineCount data"] line_begin_last [OF assms(1)] assms(2)
    by (cases "int (Suc i) = getOutputLineCount data") auto
  show "0 \<le> line_begin data (int i)" by (rule b)
  show "js_substring w (line_begin data (int i)) (line_begin data (int (Suc i))) = piece w data i"
    using b lt le by (simp add: js_substring_def js_clamp_def piece_def Let_def min_def max_def nat_le_iff)
qed

lemma view_line_piece_returns:
  assumes ok: "projection_ok (length s) data" and m: "shows_line model l s" and i: "int i < getOutputLineCount data"
  shows "view_line_piece model l (int i) data = Inr (piece (injected s 0 (injections data)) data i)"
proof -
  let ?w = "injected s 0 (injections data)"
  have ins: "insertions_ok (length s) 0 (injections data)" using ok by (simp add: projection_ok_def)
  have b: "breaks_ok (length ?w) data" using ok length_injected [OF ins] by (simp add: projection_ok_def marks_def)
  have line: "is_line data (int i)" using i by (simp add: is_line_def)
  have e: "arr_at (breakOffsets data) (int i) = Some (line_begin data (int (Suc i)))" using i by (simp add: arr_at_def getOutputLineCount_def line_begin_pos)
  note sub = substring_piece [OF b i]
  show ?thesis
  proof (cases "injectionOffsets data")
    case None
    then have w: "?w = s" by (simp add: injections_def)
    have "getValueInRange model l (Some (line_begin data (int i) + 1)) (Some (line_begin data (int (Suc i)) + 1)) =
        js_substring s (line_begin data (int i)) (line_begin data (int (Suc i)))"
      using m sub(2-4) unfolding shows_line_def w by (auto dest!: spec [of _ "line_begin data (int i) + 1"] spec [of _ "line_begin data (int (Suc i)) + 1"])
    then show ?thesis using sub(1) by (simp add: view_line_piece_def Let_def None e line_start_eq [OF line] w)
  next
    case (Some offsets)
    define ts where "ts = map (\<lambda>(offset, opt). new_LineInjectedText 0 0 (offset + 1) opt 0) (zip offsets (options_of data))"
    have len: "length offsets = length (options_of data)" "\<forall>q \<in> set offsets. 0 \<le> q" using ok Some by (auto simp: projection_ok_def)
    have "insertions ts = injections data"
      using len(1) by (auto simp: insertions_def ts_def injections_def Some new_LineInjectedText_def intro!: nth_equalityI)
    moreover have "\<forall>t \<in> set ts. 1 \<le> lit_column t" using len(2) by (auto simp: ts_def new_LineInjectedText_def dest: set_zip_leftD)
    ultimately have "LineInjectedText_applyInjectedText s (Some ts) = ?w" using applyInjectedText_injects [of s ts] ins by simp
    then show ?thesis using sub(1) len(1) m by (simp add: view_line_piece_def Let_def Some e line_start_eq [OF line] shows_line_def flip: ts_def)
  qed
qed

text \<open>
  C23. What the lines of the view show. The lines of a projected line without their indentation, put together, are the line of the model with the injected
  texts; the length that is reported for each of them is that of its text; and the indentation, taken from a growing array of strings of spaces, is right whatever was
  asked before.
\<close>
theorem view_lines_show_injected_line:
  assumes "projection_ok (length s) data" "shows_line model l s" "spaces_ok cache"
  shows "\<exists>pieces. int (length pieces) = getViewLineCount (ModelLineProjection data True) \<and> concat pieces = injected s 0 (injections data) \<and>
    (\<forall>i < length pieces. \<exists>cache'. spaces_ok cache' \<and>
      getViewLineContent model l (int i) (ModelLineProjection data True) cache =
        Inr (replicate (nat (getMinOutputOffset (int i) data)) 32 @ pieces ! i, cache') \<and>
      getViewLineLength model l (int i) (ModelLineProjection data True) =
        Inr (Some (getMinOutputOffset (int i) data + int (length (pieces ! i)))))"
proof -
  let ?w = "injected s 0 (injections data)"
  have ins: "insertions_ok (length s) 0 (injections data)" using assms(1) by (simp add: projection_ok_def)
  have b: "breaks_ok (length ?w) data" using assms(1) length_injected [OF ins] by (simp add: projection_ok_def marks_def)
  define pieces where "pieces = map (piece ?w data) [0..<nat (getOutputLineCount data)]"
  have len: "int (length pieces) = getOutputLineCount data" using lines_exist [OF b] by (simp add: pieces_def)
  have "\<exists>cache'. spaces_ok cache' \<and>
      getViewLineContent model l (int i) (ModelLineProjection data True) cache = Inr (replicate (nat (getMinOutputOffset (int i) data)) 32 @ pieces ! i, cache') \<and>
      getViewLineLength model l (int i) (ModelLineProjection data True) = Inr (Some (getMinOutputOffset (int i) data + int (length (pieces ! i))))"
    if i: "i < length pieces" for i
  proof -
    have ic: "int i < getOutputLineCount data" using i len by simp
    note sub = substring_piece [OF b ic]
    have p: "pieces ! i = piece ?w data i" using i by (simp add: pieces_def)
    obtain cache' where cache': "spaces (wrappedTextIndentLength data) cache = (Some (replicate (nat (wrappedTextIndentLength data)) 32), cache')" "spaces_ok cache'"
      using spaces_returns [OF assms(3), of "wrappedTextIndentLength data"] b by (auto simp: breaks_ok_def)
    have "int (length (piece ?w data i)) = line_begin data (int (Suc i)) - line_begin data (int i)" using sub(2-4) by (simp add: piece_def min_def nat_le_iff) linarith
    then have "getLineLength (int i) data = Some (getMinOutputOffset (int i) data + int (length (pieces ! i)))"
      using getLineLength_eq [of data "int i"] ic by (simp add: is_line_def p algebra_simps)
    then show ?thesis using view_line_piece_returns [OF assms(1,2) ic, folded p] cache' assms(3)
      by (cases "i = 0") (auto simp: assertVisible_def getMinOutputOffset_def)
  qed
  moreover have "concat pieces = ?w" unfolding pieces_def by (rule concat_pieces [OF b])
  ultimately show ?thesis using len by (intro exI [of _ pieces]) simp
qed

definition sample_model :: "jsstring \<Rightarrow> ISimpleModel" where
  "sample_model s =
     \<lparr>getLineContent = (\<lambda>_. s), sm_getLineLength = (\<lambda>_. int (length s)), getLineMinColumn = (\<lambda>_. 1), getLineMaxColumn = (\<lambda>_. int (length s) + 1),
      getValueInRange = (\<lambda>_ a b. case (a, b) of (Some a, Some b) \<Rightarrow> js_substring s (a - 1) (b - 1) | _ \<Rightarrow> [])\<rparr>"

theorem view_lines_show_injected_line_witness:
  "\<exists>pieces. concat pieces = ([97, 98, 120, 121, 122, 119, 99, 100] :: jsstring) \<and> int (length pieces) = getViewLineCount (ModelLineProjection (sample_projection StopsBoth StopsBoth) True)"
proof -
  have ok: "projection_ok (length [97, 98, 99, 100]) (sample_projection StopsBoth StopsBoth)" using sample_projection_ok [of StopsBoth StopsBoth] by (simp add: numeral_eq_Suc)
  have m: "shows_line (sample_model [97, 98, 99, 100]) 1 [97, 98, 99, 100]" by (simp add: shows_line_def sample_model_def)
  have c: "spaces_ok [[]]" by (simp add: spaces_ok_def)
  obtain pieces where "int (length pieces) = getViewLineCount (ModelLineProjection (sample_projection StopsBoth StopsBoth) True)"
      "concat pieces = injected [97, 98, 99, 100] 0 (injections (sample_projection StopsBoth StopsBoth))"
    using view_lines_show_injected_line [OF ok m c] by (elim exE conjE)
  then show ?thesis by (intro exI [of _ pieces]) (simp add: sample_injections numeral_eq_Suc)
qed

section \<open>Positions through projections\<close>

text \<open>A projection for a line of \<open>n\<close> characters.\<close>

fun line_projection_ok :: "nat \<Rightarrow> IModelLineProjection \<Rightarrow> bool" where
  "line_projection_ok n (ModelLineProjection data visible) = projection_ok n data"
| "line_projection_ok n IdentityModelLineProjection = True"
| "line_projection_ok n HiddenModelLineProjection = True"



section \<open>Decorations\<close>

text \<open>
  C0. The injected texts of decorations. On every line they are sorted by column, texts before a decoration come before texts after another one at the same column, and none is
  empty; so they can be applied to the line, and give offsets for projection data.
\<close>
theorem fromDecorations_can_be_applied:
  assumes "\<forall>t \<in> set (LineInjectedText_fromDecorations decorations). lit_lineNumber t = l \<longrightarrow> 1 \<le> lit_column t \<and> lit_column t \<le> int (length s) + 1"
  defines "ts \<equiv> filter (\<lambda>t. lit_lineNumber t = l) (LineInjectedText_fromDecorations decorations)"
  shows "insertions_ok (length s) 0 (insertions ts) \<and> sorted_wrt (\<lambda>t u. lit_column t = lit_column u \<longrightarrow> lit_order t \<le> lit_order u) ts \<and>
    LineInjectedText_applyInjectedText s (Some ts) = injected s 0 (insertions ts) \<and>
    mset ts = mset (filter (\<lambda>t. lit_lineNumber t = l) (concat (map decoration_texts decorations)))"
proof -
  have cmp: "sorted_wrt (\<lambda>t u. compareInjectedText t u \<le> 0) ts"
    using injected_order.sorted_by_js_sort [of "concat (map decoration_texts decorations)"]
    unfolding ts_def LineInjectedText_fromDecorations_def injected_order.sorted_by_def by (auto intro: sorted_wrt_filter)
  have line: "lit_lineNumber t = l" if "t \<in> set ts" for t using that by (simp add: ts_def)
  have col: "1 \<le> lit_column t" "lit_column t \<le> int (length s) + 1" if "t \<in> set ts" for t using that assms(1) by (simp_all add: ts_def)
  have full: "it_content (lit_options t) \<noteq> []" if "t \<in> set ts" for t
    using that decoration_texts_nonempty by (auto simp: ts_def LineInjectedText_fromDecorations_def)
  have "sorted_wrt (\<lambda>t u. lit_column t \<le> lit_column u) ts"
    by (rule sorted_wrt_mono_rel [OF _ cmp]) (auto simp: compareInjectedText_def line split: if_splits)
  then have "sorted (map (\<lambda>t. nat (lit_column t - 1)) ts)" unfolding sorted_map by (rule sorted_wrt_mono_rel [rotated]) simp
  then have ok: "insertions_ok (length s) 0 (insertions ts)" using col full by (fastforce simp: insertions_ok_def insertions_def comp_def)
  moreover have "sorted_wrt (\<lambda>t u. lit_column t = lit_column u \<longrightarrow> lit_order t \<le> lit_order u) ts"
    by (rule sorted_wrt_mono_rel [OF _ cmp]) (auto simp: compareInjectedText_def line split: if_splits)
  moreover have "LineInjectedText_applyInjectedText s (Some ts) = injected s 0 (insertions ts)"
    using applyInjectedText_injects [OF ok] col by blast
  moreover have "mset ts = mset (filter (\<lambda>t. lit_lineNumber t = l) (concat (map decoration_texts decorations)))"
    by (simp add: ts_def LineInjectedText_fromDecorations_def mset_filter)
  ultimately show ?thesis by blast
qed

theorem fromDecorations_can_be_applied_witness:
  "insertions_ok 3 0 (insertions (filter (\<lambda>t. lit_lineNumber t = 1) (LineInjectedText_fromDecorations
     [\<lparr>dec_ownerId = 0, dec_range = new_Range 1 2 1 3, dec_before = None,
       dec_after = Some \<lparr>it_content = [120], it_inlineClassName = None, it_inlineClassNameAffectsLetterSpacing = None, it_cursorStops = None\<rparr>\<rparr>])))"
proof -
  let ?ds = "[\<lparr>dec_ownerId = 0, dec_range = new_Range 1 2 1 3, dec_before = None,
       dec_after = Some \<lparr>it_content = [120], it_inlineClassName = None, it_inlineClassNameAffectsLetterSpacing = None, it_cursorStops = None\<rparr>\<rparr>]"
  have "\<forall>t \<in> set (LineInjectedText_fromDecorations ?ds). lit_lineNumber t = 1 \<longrightarrow> 1 \<le> lit_column t \<and> lit_column t \<le> int (length [97, 98, 99 :: 16 word]) + 1"
    by (simp add: LineInjectedText_fromDecorations_def decoration_texts_def new_LineInjectedText_def new_Range_def)
  from fromDecorations_can_be_applied [OF this] show ?thesis by (simp add: numeral_eq_Suc)
qed

end
