(* ===== verification/Line_Breaks.thy ===== *)
theory Line_Breaks
  imports Model_Lines Byte_Buffer Prefix_Sum
begin

text \<open>
  Breaking lines at a column, \<open>createLineBreaks\<close> of \<open>src/vs/editor/common/viewModel/monospaceLineBreaksComputer.ts\<close>, with
  \<open>src/vs/editor/common/core/characterClassifier.ts\<close>. The width of a full width character in columns is a ratio of two widths of the font, so columns are
  rational numbers. The variant that starts from previous breaks is not modelled.
\<close>

section \<open>Classes of characters\<close>

record CharacterClassifier =
  cc_asciiMap :: "number list"
  cc_map :: "number \<Rightarrow> number option"
  cc_defaultValue :: number

definition new_CharacterClassifier :: "number \<Rightarrow> CharacterClassifier" where
  "new_CharacterClassifier value =
     (let defaultValue = toUint8 value
      in \<lparr>cc_asciiMap = replicate 256 defaultValue, cc_map = (\<lambda>_. None), cc_defaultValue = defaultValue\<rparr>)"

definition CharacterClassifier_set :: "number \<Rightarrow> number \<Rightarrow> CharacterClassifier \<Rightarrow> CharacterClassifier" where
  "CharacterClassifier_set charCode value this =
     (let value = toUint8 value
      in if charCode \<ge> 0 \<and> charCode < 256 then this\<lparr>cc_asciiMap := (cc_asciiMap this)[nat charCode := value]\<rparr>
         else this\<lparr>cc_map := (cc_map this)(charCode := Some value)\<rparr>)"

text \<open>\<open>this._map.get(charCode) || this._defaultValue\<close>: a value 0 counts as missing.\<close>

definition map_or_default :: "number \<Rightarrow> CharacterClassifier \<Rightarrow> number" where
  "map_or_default charCode this = (case cc_map this charCode of None \<Rightarrow> cc_defaultValue this | Some v \<Rightarrow> if v = 0 then cc_defaultValue this else v)"

definition CharacterClassifier_get :: "number \<Rightarrow> CharacterClassifier \<Rightarrow> number" where
  "CharacterClassifier_get charCode this =
     (if charCode \<ge> 0 \<and> charCode < 256 then cc_asciiMap this ! nat charCode else map_or_default charCode this)"

definition CharacterClassifier_clear :: "CharacterClassifier \<Rightarrow> CharacterClassifier" where
  "CharacterClassifier_clear this =
     this\<lparr>cc_asciiMap := replicate (length (cc_asciiMap this)) (cc_defaultValue this), cc_map := (\<lambda>_. None)\<rparr>"

text \<open>\<open>CharacterSet\<close> has a classifier with the values 0 and 1.\<close>

definition new_CharacterSet :: CharacterClassifier where
  "new_CharacterSet = new_CharacterClassifier 0"

definition CharacterSet_add :: "number \<Rightarrow> CharacterClassifier \<Rightarrow> CharacterClassifier" where
  "CharacterSet_add charCode this = CharacterClassifier_set charCode 1 this"

definition CharacterSet_has :: "number \<Rightarrow> CharacterClassifier \<Rightarrow> bool" where
  "CharacterSet_has charCode this \<longleftrightarrow> CharacterClassifier_get charCode this = 1"

definition CharacterSet_clear :: "CharacterClassifier \<Rightarrow> CharacterClassifier" where
  "CharacterSet_clear this = CharacterClassifier_clear this"

text \<open>The classes \<open>NONE\<close>, \<open>BREAK_BEFORE\<close>, \<open>BREAK_AFTER\<close> and \<open>BREAK_IDEOGRAPHIC\<close>.\<close>

abbreviation (input) CLASS_NONE :: number where "CLASS_NONE \<equiv> 0"
abbreviation (input) BREAK_BEFORE :: number where "BREAK_BEFORE \<equiv> 1"
abbreviation (input) BREAK_AFTER :: number where "BREAK_AFTER \<equiv> 2"
abbreviation (input) BREAK_IDEOGRAPHIC :: number where "BREAK_IDEOGRAPHIC \<equiv> 3"

definition new_WrappingCharacterClassifier :: "jsstring \<Rightarrow> jsstring \<Rightarrow> CharacterClassifier" where
  "new_WrappingCharacterClassifier before after =
     fold (\<lambda>c. CharacterClassifier_set (uint c) BREAK_AFTER) after
       (fold (\<lambda>c. CharacterClassifier_set (uint c) BREAK_BEFORE) before (new_CharacterClassifier CLASS_NONE))"

definition is_ideographic :: "number \<Rightarrow> bool" where
  "is_ideographic charCode \<longleftrightarrow>
     charCode \<ge> 0x3040 \<and> charCode \<le> 0x30FF \<or> charCode \<ge> 0x3400 \<and> charCode \<le> 0x4DBF \<or> charCode \<ge> 0x4E00 \<and> charCode \<le> 0x9FFF"

definition WrappingCharacterClassifier_get :: "number \<Rightarrow> CharacterClassifier \<Rightarrow> number" where
  "WrappingCharacterClassifier_get charCode this =
     (if charCode \<ge> 0 \<and> charCode < 256 then cc_asciiMap this ! nat charCode
      else if is_ideographic charCode then BREAK_IDEOGRAPHIC
      else map_or_default charCode this)"

section \<open>Widths\<close>

definition isFullWidthCharacter :: "number \<Rightarrow> bool" where
  "isFullWidthCharacter charCode \<longleftrightarrow>
     charCode \<ge> 0x2E80 \<and> charCode \<le> 0xD7AF \<or> charCode \<ge> 0xF900 \<and> charCode \<le> 0xFAFF \<or> charCode \<ge> 0xFF01 \<and> charCode \<le> 0xFF5E"

text \<open>\<open>x % t\<close> for columns, which are not negative.\<close>

definition column_rem :: "rat \<Rightarrow> number \<Rightarrow> rat" where
  "column_rem x t = x - of_int (floor (x / of_int t) * t)"

definition computeCharWidth :: "number \<Rightarrow> rat \<Rightarrow> number \<Rightarrow> rat \<Rightarrow> rat" where
  "computeCharWidth charCode visibleColumn tabSize columnsForFullWidthChar =
     (if charCode = 9 then of_int tabSize - column_rem visibleColumn tabSize
      else if isFullWidthCharacter charCode then columnsForFullWidthChar
      else if charCode < 32 then columnsForFullWidthChar
      else 1)"

definition tabCharacterWidth :: "number \<Rightarrow> number \<Rightarrow> number" where
  "tabCharacterWidth visibleColumn tabSize = tabSize - js_rem visibleColumn tabSize"

definition canBreak :: "number \<Rightarrow> number \<Rightarrow> number \<Rightarrow> number \<Rightarrow> bool \<Rightarrow> bool" where
  "canBreak prevCharCode prevCharCodeClass charCode charCodeClass isKeepAll \<longleftrightarrow>
     charCode \<noteq> 32 \<and>
     (prevCharCodeClass = BREAK_AFTER \<and> charCodeClass \<noteq> BREAK_AFTER \<or>
      prevCharCodeClass \<noteq> BREAK_BEFORE \<and> charCodeClass = BREAK_BEFORE \<or>
      \<not> isKeepAll \<and> prevCharCodeClass = BREAK_IDEOGRAPHIC \<and> charCodeClass \<noteq> BREAK_AFTER \<or>
      \<not> isKeepAll \<and> charCodeClass = BREAK_IDEOGRAPHIC \<and> prevCharCodeClass \<noteq> BREAK_BEFORE)"

fun firstNonWhitespaceIndex_loop :: "jsstring \<Rightarrow> number \<Rightarrow> number" where
  "firstNonWhitespaceIndex_loop [] i = - 1"
| "firstNonWhitespaceIndex_loop (c # cs) i = (if c \<noteq> 32 \<and> c \<noteq> 9 then i else firstNonWhitespaceIndex_loop cs (i + 1))"

definition firstNonWhitespaceIndex :: "jsstring \<Rightarrow> number" where
  "firstNonWhitespaceIndex str = firstNonWhitespaceIndex_loop str 0"

datatype WrappingIndent = IndentNone | IndentSame | IndentIndent | DeepIndent

definition indent_of :: "number \<Rightarrow> jsstring \<Rightarrow> number" where
  "indent_of tabSize cs = foldl (\<lambda>w c. w + (if c = 9 then tabCharacterWidth w tabSize else 1)) 0 cs"

definition add_tabs :: "number \<Rightarrow> nat \<Rightarrow> number \<Rightarrow> number" where
  "add_tabs tabSize k w = ((\<lambda>w. w + tabCharacterWidth w tabSize) ^^ k) w"

definition computeWrappedTextIndentLength :: "jsstring \<Rightarrow> number \<Rightarrow> number \<Rightarrow> rat \<Rightarrow> WrappingIndent \<Rightarrow> number" where
  "computeWrappedTextIndentLength lineText tabSize firstLineBreakColumn columnsForFullWidthChar wrappingIndent =
     (if wrappingIndent \<noteq> IndentNone then
        let first = firstNonWhitespaceIndex lineText
        in if first \<noteq> - 1 then
             let w = indent_of tabSize (take (nat first) lineText);
                 w = add_tabs tabSize (if wrappingIndent = DeepIndent then 2 else if wrappingIndent = IndentIndent then 1 else 0) w
             in if of_int w + columnsForFullWidthChar > of_int firstLineBreakColumn then 0 else w
           else 0
      else 0)"

section \<open>Breaking\<close>

record breaking =
  bk_offsets :: "number list"
  bk_columns :: "rat list"
  bk_breakOffset :: number
  bk_breakOffsetVisibleColumn :: rat
  bk_breakingColumn :: rat
  bk_visibleColumn :: rat
  bk_prevCharCode :: number
  bk_prevCharCodeClass :: number

definition break_before :: "number \<Rightarrow> number \<Rightarrow> number \<Rightarrow> bool \<Rightarrow> breaking \<Rightarrow> breaking" where
  "break_before charStartOffset charCode charCodeClass isKeepAll st =
     (if canBreak (bk_prevCharCode st) (bk_prevCharCodeClass st) charCode charCodeClass isKeepAll
      then st\<lparr>bk_breakOffset := charStartOffset, bk_breakOffsetVisibleColumn := bk_visibleColumn st\<rparr> else st)"

definition break_over :: "number \<Rightarrow> rat \<Rightarrow> number \<Rightarrow> breaking \<Rightarrow> breaking" where
  "break_over charStartOffset charWidth wrappedLineBreakColumn st =
     (if bk_visibleColumn st > bk_breakingColumn st then
        let st = (if bk_breakOffset st = 0 \<or> bk_visibleColumn st - bk_breakOffsetVisibleColumn st > of_int wrappedLineBreakColumn
                  then st\<lparr>bk_breakOffset := charStartOffset, bk_breakOffsetVisibleColumn := bk_visibleColumn st - charWidth\<rparr> else st)
        in st\<lparr>bk_offsets := bk_offsets st @ [bk_breakOffset st], bk_columns := bk_columns st @ [bk_breakOffsetVisibleColumn st],
              bk_breakingColumn := bk_breakOffsetVisibleColumn st + of_int wrappedLineBreakColumn, bk_breakOffset := 0\<rparr>
      else st)"

definition break_step :: "number \<Rightarrow> number \<Rightarrow> number \<Rightarrow> rat \<Rightarrow> number \<Rightarrow> bool \<Rightarrow> breaking \<Rightarrow> breaking" where
  "break_step charStartOffset charCode charCodeClass charWidth wrappedLineBreakColumn isKeepAll st =
     (let st = break_before charStartOffset charCode charCodeClass isKeepAll st;
          st = st\<lparr>bk_visibleColumn := bk_visibleColumn st + charWidth\<rparr>;
          st = break_over charStartOffset charWidth wrappedLineBreakColumn st
      in st\<lparr>bk_prevCharCode := charCode, bk_prevCharCodeClass := charCodeClass\<rparr>)"

function breaks_loop :: "CharacterClassifier \<Rightarrow> jsstring \<Rightarrow> number \<Rightarrow> rat \<Rightarrow> number \<Rightarrow> bool \<Rightarrow> nat \<Rightarrow> breaking \<Rightarrow> breaking" where
  "breaks_loop classifier lineText tabSize columnsForFullWidthChar wrappedLineBreakColumn isKeepAll i st =
     (if i < length lineText then
        let charCode = lineText ! i
        in if isHighSurrogate charCode
           then breaks_loop classifier lineText tabSize columnsForFullWidthChar wrappedLineBreakColumn isKeepAll (Suc (Suc i))
             (break_step (int i) (uint charCode) CLASS_NONE 2 wrappedLineBreakColumn isKeepAll st)
           else breaks_loop classifier lineText tabSize columnsForFullWidthChar wrappedLineBreakColumn isKeepAll (Suc i)
             (break_step (int i) (uint charCode) (WrappingCharacterClassifier_get (uint charCode) classifier)
               (computeCharWidth (uint charCode) (bk_visibleColumn st) tabSize columnsForFullWidthChar) wrappedLineBreakColumn isKeepAll st)
      else st)"
  by pat_completeness auto
termination by (relation "measure (\<lambda>(classifier, lineText, t, f, w, k, i, st). length lineText - i)") auto

declare breaks_loop.simps [simp del]

definition new_ModelLineProjectionData ::
  "number list option \<Rightarrow> InjectedTextOptions list option \<Rightarrow> number list \<Rightarrow> rat list \<Rightarrow> number \<Rightarrow> ModelLineProjectionData" where
  "new_ModelLineProjectionData offsets options breaks columns indent =
     \<lparr>injectionOffsets = offsets, injectionOptions = options, breakOffsets = breaks, breakOffsetsVisibleColumn = columns, wrappedTextIndentLength = indent\<rparr>"

text \<open>The state before the loop, for a line of at least two code units, and the offset where the loop starts.\<close>

definition breaks_start :: "CharacterClassifier \<Rightarrow> jsstring \<Rightarrow> number \<Rightarrow> number \<Rightarrow> rat \<Rightarrow> nat \<times> breaking" where
  "breaks_start classifier lineText tabSize firstLineBreakColumn columnsForFullWidthChar =
     (let c = lineText ! 0; width = computeCharWidth (uint c) 0 tabSize columnsForFullWidthChar; high = isHighSurrogate c;
          prev = uint (if high then lineText ! 1 else c)
      in (if high then 2 else 1,
          \<lparr>bk_offsets = [], bk_columns = [], bk_breakOffset = 0, bk_breakOffsetVisibleColumn = 0, bk_breakingColumn = of_int firstLineBreakColumn,
           bk_visibleColumn = (if high then width + 1 else width), bk_prevCharCode = prev,
           bk_prevCharCodeClass = WrappingCharacterClassifier_get prev classifier\<rparr>))"

definition createLineBreaks ::
  "CharacterClassifier \<Rightarrow> jsstring \<Rightarrow> LineInjectedText list option \<Rightarrow> number \<Rightarrow> number \<Rightarrow> rat \<Rightarrow> WrappingIndent \<Rightarrow> bool \<Rightarrow> ModelLineProjectionData option" where
  "createLineBreaks classifier lineText0 injectedTexts tabSize firstLineBreakColumn columnsForFullWidthChar wrappingIndent isKeepAll =
     (let lineText = LineInjectedText_applyInjectedText lineText0 injectedTexts;
          texts = (case injectedTexts of None \<Rightarrow> [] | Some ts \<Rightarrow> ts);
          options = (if texts \<noteq> [] then Some (map lit_options texts) else None);
          offsets = (if texts \<noteq> [] then Some (map (\<lambda>t. lit_column t - 1) texts) else None);
          len = length lineText
      in if firstLineBreakColumn = - 1 \<or> len \<le> 1 then
           if options = None then None else Some (new_ModelLineProjectionData offsets options [int len] [] 0)
         else
           let indent = computeWrappedTextIndentLength lineText tabSize firstLineBreakColumn columnsForFullWidthChar wrappingIndent
           in case breaks_start classifier lineText tabSize firstLineBreakColumn columnsForFullWidthChar of (startOffset, st) \<Rightarrow>
                let st = breaks_loop classifier lineText tabSize columnsForFullWidthChar (firstLineBreakColumn - indent) isKeepAll startOffset st
                in if bk_offsets st = [] \<and> texts = [] then None
                   else Some (new_ModelLineProjectionData offsets options (bk_offsets st @ [int len]) (bk_columns st @ [bk_visibleColumn st]) indent))"

section \<open>Breaks are between characters\<close>

text \<open>The offsets between the characters of a text, a surrogate pair counting as one, with the visible column of each.\<close>

fun char_starts :: "number \<Rightarrow> rat \<Rightarrow> nat \<Rightarrow> rat \<Rightarrow> jsstring \<Rightarrow> (nat \<times> rat) list" where
  "char_starts tabSize full i v [] = [(i, v)]"
| "char_starts tabSize full i v [c] = (i, v) # (if isHighSurrogate c then [(i + 2, v + 2)] else [(i + 1, v + computeCharWidth (uint c) v tabSize full)])"
| "char_starts tabSize full i v (c # d # cs) =
     (i, v) # (if isHighSurrogate c then char_starts tabSize full (i + 2) (v + 2) cs
               else char_starts tabSize full (i + 1) (v + computeCharWidth (uint c) v tabSize full) (d # cs))"

lemma char_starts_first: "(i, v) \<in> set (char_starts tabSize full i v cs)"
  by (induction tabSize full i v cs rule: char_starts.induct) auto

lemma char_starts_next:
  assumes "(j, u) \<in> set (char_starts tabSize full i v cs)" "j < i + length cs"
  shows "i \<le> j \<and> (if isHighSurrogate (cs ! (j - i)) then (j + 2, u + 2) \<in> set (char_starts tabSize full i v cs)
    else (j + 1, u + computeCharWidth (uint (cs ! (j - i))) u tabSize full) \<in> set (char_starts tabSize full i v cs))"
  using assms
proof (induction tabSize full i v cs rule: char_starts.induct)
  case (3 tabSize full i v c d cs)
  show ?case
  proof (cases "(j, u) = (i, v)")
    case True
    then show ?thesis using char_starts_first by simp
  next
    case False
    show ?thesis
    proof (cases "isHighSurrogate c")
      case True
      then have *: "(j, u) \<in> set (char_starts tabSize full (i + 2) (v + 2) cs)" "j < i + 2 + length cs" using 3(3,4) False by auto
      have "i + 2 \<le> j" using 3(1) [OF True *] by simp
      then have "(c # d # cs) ! (j - i) = cs ! (j - (i + 2))" by (simp add: nth_Cons' numeral_2_eq_2)
      then show ?thesis using 3(1) [OF True *] True by auto
    next
      case False': False
      then have *: "(j, u) \<in> set (char_starts tabSize full (i + 1) (v + computeCharWidth (uint c) v tabSize full) (d # cs))" "j < i + 1 + length (d # cs)"
        using 3(3,4) False by auto
      have "i + 1 \<le> j" using 3(2) [OF False' *] by simp
      then have "(c # d # cs) ! (j - i) = (d # cs) ! (j - (i + 1))" by (simp add: nth_Cons')
      then show ?thesis using 3(2) [OF False' *] False' by auto
    qed
  qed
qed (auto split: if_splits)

lemma char_starts_pairs:
  assumes "well_formed_utf16 cs" "(j, u) \<in> set (char_starts tabSize full i v cs)" "j < i + length cs"
  shows "\<not> isLowSurrogate (cs ! (j - i))"
  using assms
proof (induction tabSize full i v cs rule: char_starts.induct)
  case (3 tabSize full i v c d cs)
  show ?case
  proof (cases "(j, u) = (i, v)")
    case True
    then show ?thesis using 3(3) by (auto simp: isHighSurrogate_def isLowSurrogate_def word_le_nat_alt split: if_splits)
  next
    case False
    show ?thesis
    proof (cases "isHighSurrogate c")
      case True
      then have *: "(j, u) \<in> set (char_starts tabSize full (i + 2) (v + 2) cs)" "j < i + 2 + length cs" using 3(4,5) False by auto
      have "i + 2 \<le> j" using char_starts_next [OF *] by simp
      then have "(c # d # cs) ! (j - i) = cs ! (j - (i + 2))" by (simp add: nth_Cons' numeral_2_eq_2)
      then show ?thesis using 3(1) [OF True _ *] 3(3) True by simp
    next
      case False': False
      then have *: "(j, u) \<in> set (char_starts tabSize full (i + 1) (v + computeCharWidth (uint c) v tabSize full) (d # cs))" "j < i + 1 + length (d # cs)"
        using 3(4,5) False by auto
      have "i + 1 \<le> j" using char_starts_next [OF *] by simp
      then have "(c # d # cs) ! (j - i) = (d # cs) ! (j - (i + 1))" by (simp add: nth_Cons')
      then show ?thesis using 3(2) [OF False' _ *] 3(3) False' by simp
    qed
  qed
qed (auto split: if_splits)

text \<open>The invariant of the loop: \<open>Q\<close> are the places where it may break.\<close>

definition breaking_ok :: "(nat \<Rightarrow> rat \<Rightarrow> bool) \<Rightarrow> nat \<Rightarrow> nat \<Rightarrow> breaking \<Rightarrow> bool" where
  "breaking_ok Q len i st \<longleftrightarrow>
     sorted_wrt (<) (0 # bk_offsets st) \<and> list_all2 (\<lambda>b v. Q (nat b) v \<and> b < int i \<and> b < int len) (bk_offsets st) (bk_columns st) \<and>
     (bk_breakOffset st \<noteq> 0 \<longrightarrow> Q (nat (bk_breakOffset st)) (bk_breakOffsetVisibleColumn st) \<and> 0 < bk_breakOffset st \<and> bk_breakOffset st < int i \<and>
       bk_breakOffset st < int len \<and> (\<forall>b \<in> set (bk_offsets st). b < bk_breakOffset st))"

lemma breaking_ok_mono: "breaking_ok Q len i st \<Longrightarrow> i \<le> j \<Longrightarrow> breaking_ok Q len j st"
  by (auto simp: breaking_ok_def elim!: list_all2_mono)

lemma break_step_ok:
  assumes ok: "breaking_ok Q len i st" and i: "0 < i" "i < len" and Q: "Q i (bk_visibleColumn st)"
  shows "breaking_ok Q len (Suc i) (break_step (int i) c cls w W keep st)" "bk_visibleColumn (break_step (int i) c cls w W keep st) = bk_visibleColumn st + w"
proof -
  let ?st = "break_before (int i) c cls keep st"
  have below: "\<forall>b \<in> set (bk_offsets st). b < int i" using ok by (auto simp: breaking_ok_def list_all2_conv_all_nth in_set_conv_nth)
  have 1: "breaking_ok Q len (Suc i) ?st" "bk_visibleColumn ?st = bk_visibleColumn st" "bk_offsets ?st = bk_offsets st" "bk_columns ?st = bk_columns st"
    using breaking_ok_mono [OF ok, of "Suc i"] i Q below by (auto simp: breaking_ok_def break_before_def)
  have snoc: "breaking_ok Q len (Suc i) (s\<lparr>bk_offsets := bk_offsets s @ [bk_breakOffset s], bk_columns := bk_columns s @ [bk_breakOffsetVisibleColumn s],
      bk_breakingColumn := x, bk_breakOffset := 0\<rparr>)" if "breaking_ok Q len (Suc i) s" "bk_breakOffset s \<noteq> 0" for s x
    using that by (auto simp: breaking_ok_def sorted_wrt_append list_all2_appendI)
  have forced: "breaking_ok Q len (Suc i) (s\<lparr>bk_breakOffset := int i, bk_breakOffsetVisibleColumn := bk_visibleColumn st\<rparr>)"
    if "breaking_ok Q len (Suc i) s" "bk_offsets s = bk_offsets st" for s
    using that i Q below by (auto simp: breaking_ok_def)
  define s1 where "s1 = ?st\<lparr>bk_visibleColumn := bk_visibleColumn st + w\<rparr>"
  have s1: "breaking_ok Q len (Suc i) s1" "bk_offsets s1 = bk_offsets st" "bk_visibleColumn s1 = bk_visibleColumn st + w"
    using 1 by (simp_all add: s1_def breaking_ok_def)
  have "breaking_ok Q len (Suc i) (break_over (int i) w W s1) \<and> bk_visibleColumn (break_over (int i) w W s1) = bk_visibleColumn st + w"
    using s1 snoc [OF forced [OF s1(1,2)], simplified] snoc [OF s1(1)] i(1) by (auto simp: break_over_def Let_def)
  then show "breaking_ok Q len (Suc i) (break_step (int i) c cls w W keep st)" "bk_visibleColumn (break_step (int i) c cls w W keep st) = bk_visibleColumn st + w"
    by (simp_all add: break_step_def Let_def 1(2) breaking_ok_def flip: s1_def)
qed

lemma breaks_loop_ok:
  assumes "\<And>j v. Q j v \<Longrightarrow> j < length line \<Longrightarrow>
      (if isHighSurrogate (line ! j) then Q (j + 2) (v + 2) else Q (j + 1) (v + computeCharWidth (uint (line ! j)) v tabSize full))"
    "breaking_ok Q (length line) i st" "0 < i" "Q i (bk_visibleColumn st)"
  shows "\<exists>j \<ge> length line. breaking_ok Q (length line) j (breaks_loop classifier line tabSize full W keep i st)"
  using assms(2-4)
proof (induction "length line - i" arbitrary: i st rule: less_induct)
  case less
  show ?case
  proof (cases "i < length line")
    case True
    note step = break_step_ok [OF less(2,3) True less(4)]
    show ?thesis
    proof (cases "isHighSurrogate (line ! i)")
      case high: True
      have "Q (Suc (Suc i)) (bk_visibleColumn st + 2)" using assms(1) [OF less(4) True] high by simp
      then show ?thesis using less(1) [of "Suc (Suc i)" "break_step (int i) (uint (line ! i)) CLASS_NONE 2 W keep st"] True high
          breaking_ok_mono [OF step(1), of "Suc (Suc i)"] step(2)
        by (subst breaks_loop.simps) (simp add: Let_def)
    next
      case False
      have "Q (Suc i) (bk_visibleColumn st + computeCharWidth (uint (line ! i)) (bk_visibleColumn st) tabSize full)" using assms(1) [OF less(4) True] False by simp
      then show ?thesis using less(1) [of "Suc i" "break_step (int i) (uint (line ! i)) (WrappingCharacterClassifier_get (uint (line ! i)) classifier)
            (computeCharWidth (uint (line ! i)) (bk_visibleColumn st) tabSize full) W keep st"] True False step
        by (subst breaks_loop.simps) (simp add: Let_def)
    qed
  next
    case False
    then show ?thesis using less(2) by (subst breaks_loop.simps) (auto intro!: exI [of _ i])
  qed
qed

section \<open>Lines fit\<close>

text \<open>The first column is at most \<open>first\<close>, and every other one at most \<open>W\<close> after the one before.\<close>

definition columns_fit :: "rat \<Rightarrow> rat \<Rightarrow> rat list \<Rightarrow> bool" where
  "columns_fit first W cs \<longleftrightarrow> (\<forall>k < length cs. cs ! k \<le> (if k = 0 then first else cs ! (k - 1) + W))"

lemma columns_fit_snoc: "columns_fit first W (cs @ [c]) \<longleftrightarrow> columns_fit first W cs \<and> c \<le> (if cs = [] then first else last cs + W)"
proof -
  have "(cs @ [c]) ! (k - 1) = cs ! (k - 1)" if "k < length cs" for k using that by (simp add: nth_append less_imp_diff_less)
  then show ?thesis by (auto simp: columns_fit_def less_Suc_eq nth_append last_conv_nth)
qed

definition breaking_fits :: "rat \<Rightarrow> rat \<Rightarrow> breaking \<Rightarrow> bool" where
  "breaking_fits first W st \<longleftrightarrow>
     columns_fit first W (bk_columns st) \<and> bk_breakingColumn st = (if bk_columns st = [] then first else last (bk_columns st) + W) \<and>
     bk_visibleColumn st \<le> bk_breakingColumn st \<and> (bk_breakOffset st \<noteq> 0 \<longrightarrow> bk_breakOffsetVisibleColumn st \<le> bk_visibleColumn st)"

lemma break_step_fits:
  assumes fits: "breaking_fits first (of_int W) st" and w: "0 \<le> w" "w \<le> of_int W" and i: "0 < i"
  shows "breaking_fits first (of_int W) (break_step i c cls w W keep st)"
proof -
  define s where "s = break_before i c cls keep st"
  have s: "breaking_fits first (of_int W) s" using fits i by (auto simp: s_def breaking_fits_def break_before_def)
  define s1 where "s1 = s\<lparr>bk_visibleColumn := bk_visibleColumn s + w\<rparr>"
  have "breaking_fits first (of_int W) (break_over i w W s1)"
    using s w by (auto simp: breaking_fits_def break_over_def s1_def Let_def columns_fit_snoc)
  then show ?thesis by (simp add: break_step_def Let_def breaking_fits_def flip: s_def s1_def)
qed

lemma column_rem_bounds: "0 < t \<Longrightarrow> 0 \<le> column_rem x t" "0 < t \<Longrightarrow> column_rem x t < of_int t"
proof -
  assume t: "0 < t"
  have a: "of_int (floor (x / of_int t)) \<le> x / of_int t" "x / of_int t < of_int (floor (x / of_int t)) + 1" by linarith+
  have "of_int (floor (x / of_int t)) * of_int t \<le> x" using mult_right_mono [OF a(1), of "of_int t"] t by simp
  then show "0 \<le> column_rem x t" by (simp add: column_rem_def)
  have "x < (of_int (floor (x / of_int t)) + 1) * of_int t" using mult_strict_right_mono [OF a(2), of "of_int t"] t by simp
  then show "column_rem x t < of_int t" by (simp add: column_rem_def algebra_simps)
qed

lemma computeCharWidth_bounds:
  assumes "0 < tabSize" "0 \<le> full" "tabSize \<le> W" "full \<le> of_int W" "1 \<le> W"
  shows "0 \<le> computeCharWidth c v tabSize full" "computeCharWidth c v tabSize full \<le> of_int W"
  using assms column_rem_bounds [OF assms(1), of v] of_int_le_iff [of tabSize W, where 'a = rat] of_int_le_iff [of 1 W, where 'a = rat]
  by (auto simp: computeCharWidth_def)

lemma breaks_loop_fits:
  assumes w: "0 < tabSize" "0 \<le> full" "tabSize \<le> W" "full \<le> of_int W" "2 \<le> W"
    and st: "breaking_fits first (of_int W) st" "0 < i"
  shows "breaking_fits first (of_int W) (breaks_loop classifier line tabSize full W keep i st)"
  using st
proof (induction "length line - i" arbitrary: i st rule: less_induct)
  case less
  have two: "(2 :: rat) \<le> of_int W" using of_int_le_iff [of 2 W, where 'a = rat] w(5) by simp
  show ?case
  proof (cases "i < length line")
    case True
    have 1: "breaking_fits first (of_int W) (break_step (int i) (uint (line ! i)) CLASS_NONE 2 W keep st)"
      using less(2,3) two by (intro break_step_fits) auto
    have 2: "breaking_fits first (of_int W) (break_step (int i) (uint (line ! i)) (WrappingCharacterClassifier_get (uint (line ! i)) classifier)
            (computeCharWidth (uint (line ! i)) (bk_visibleColumn st) tabSize full) W keep st)"
      using less(2,3) w by (intro break_step_fits computeCharWidth_bounds) auto
    show ?thesis using less(1) [OF _ 1, of "Suc (Suc i)"] less(1) [OF _ 2, of "Suc i"] True by (subst breaks_loop.simps) (simp add: Let_def)
  next
    case False
    then show ?thesis using less(2) by (subst breaks_loop.simps) auto
  qed
qed

lemma tabCharacterWidth_pos: "0 \<le> w \<Longrightarrow> 0 < tabSize \<Longrightarrow> 0 < tabCharacterWidth w tabSize"
  by (simp add: tabCharacterWidth_def js_rem_nonneg)

lemma indent_nonneg: "0 < tabSize \<Longrightarrow> 0 \<le> computeWrappedTextIndentLength line tabSize first full wrapping"
proof -
  assume t: "0 < tabSize"
  have fold: "0 \<le> w \<Longrightarrow> 0 \<le> foldl (\<lambda>w c. w + (if c = 9 then tabCharacterWidth w tabSize else 1)) w cs" for w and cs :: jsstring
  proof (induction cs arbitrary: w)
    case (Cons c cs)
    then show ?case using tabCharacterWidth_pos [OF Cons.prems t] by simp
  qed simp
  have tabs: "0 \<le> w \<Longrightarrow> 0 \<le> add_tabs tabSize k w" for w k
  proof (induction k)
    case (Suc k)
    then show ?case using tabCharacterWidth_pos [OF _ t, of "add_tabs tabSize k w"] by (simp add: add_tabs_def)
  qed (simp add: add_tabs_def)
  show ?thesis using tabs [OF fold [of 0]] by (auto simp: computeWrappedTextIndentLength_def indent_of_def Let_def)
qed

section \<open>From lines to projections\<close>

lemma high_surrogate_width: "isHighSurrogate c \<Longrightarrow> computeCharWidth (uint c) v tabSize full = 1"
  by (auto simp: isHighSurrogate_def computeCharWidth_def isFullWidthCharacter_def word_le_def)

definition texts_of :: "LineInjectedText list option \<Rightarrow> LineInjectedText list" where
  "texts_of injectedTexts = (case injectedTexts of None \<Rightarrow> [] | Some ts \<Rightarrow> ts)"

definition texts_ok :: "nat \<Rightarrow> LineInjectedText list option \<Rightarrow> bool" where
  "texts_ok n injectedTexts \<longleftrightarrow> insertions_ok n 0 (insertions (texts_of injectedTexts)) \<and> (\<forall>t \<in> set (texts_of injectedTexts). 1 \<le> lit_column t)"

definition data_for :: "LineInjectedText list option \<Rightarrow> number list \<Rightarrow> rat list \<Rightarrow> number \<Rightarrow> ModelLineProjectionData" where
  "data_for injectedTexts breaks columns indent =
     (let texts = texts_of injectedTexts
      in new_ModelLineProjectionData (if texts \<noteq> [] then Some (map (\<lambda>t. lit_column t - 1) texts) else None)
           (if texts \<noteq> [] then Some (map lit_options texts) else None) breaks columns indent)"

lemma line_with_texts: "texts_ok (length s) injectedTexts \<Longrightarrow> LineInjectedText_applyInjectedText s injectedTexts = injected s 0 (insertions (texts_of injectedTexts))"
  using applyInjectedText_injects [of s "texts_of injectedTexts"]
  by (cases injectedTexts) (simp_all add: texts_ok_def texts_of_def LineInjectedText_applyInjectedText_def insertions_def)

lemma data_for_ok:
  assumes t: "texts_ok n injectedTexts" and b: "breaks \<noteq> []" "sorted_wrt (<) (0 # breaks)" "last breaks = int (length (marks_from n 0 (insertions (texts_of injectedTexts))))" "0 \<le> indent"
  shows "projection_ok n (data_for injectedTexts breaks columns indent)" "injections (data_for injectedTexts breaks columns indent) = insertions (texts_of injectedTexts)"
proof -
  let ?d = "data_for injectedTexts breaks columns indent" and ?ts = "texts_of injectedTexts"
  show i: "injections ?d = insertions ?ts"
    by (auto simp: injections_def data_for_def Let_def new_ModelLineProjectionData_def options_of_def insertions_def zip_map_map zip_same_conv_map split: option.splits)
  have "\<forall>q \<in> (\<lambda>t. lit_column t - 1) ` set ?ts. 0 \<le> q" using t by (auto simp: texts_ok_def)
  then have "case injectionOffsets ?d of None \<Rightarrow> True | Some offsets \<Rightarrow> length offsets = length (options_of ?d) \<and> (\<forall>q \<in> set offsets. 0 \<le> q)"
    by (simp add: data_for_def Let_def new_ModelLineProjectionData_def options_of_def)
  moreover have "breaks_ok (length (marks n ?d)) ?d" using b unfolding marks_def i breaks_ok_def by (simp add: data_for_def Let_def new_ModelLineProjectionData_def)
  ultimately show "projection_ok n ?d" using t unfolding projection_ok_def i by (simp add: texts_ok_def)
qed

text \<open>The breaks found in a line, without the last one.\<close>

definition found_breaks :: "CharacterClassifier \<Rightarrow> jsstring \<Rightarrow> number \<Rightarrow> number \<Rightarrow> rat \<Rightarrow> WrappingIndent \<Rightarrow> bool \<Rightarrow> breaking" where
  "found_breaks classifier line tabSize first full wrapping keep =
     (case breaks_start classifier line tabSize first full of (i, st) \<Rightarrow>
        breaks_loop classifier line tabSize full (first - computeWrappedTextIndentLength line tabSize first full wrapping) keep i st)"

lemma createLineBreaks_eq:
  fixes s :: jsstring and injectedTexts :: "LineInjectedText list option"
  defines "line \<equiv> LineInjectedText_applyInjectedText s injectedTexts"
  shows "createLineBreaks classifier s injectedTexts tabSize first full wrapping keep =
     (if first = - 1 \<or> length line \<le> 1 then if texts_of injectedTexts = [] then None else Some (data_for injectedTexts [int (length line)] [] 0)
      else let st = found_breaks classifier line tabSize first full wrapping keep
        in if bk_offsets st = [] \<and> texts_of injectedTexts = [] then None
           else Some (data_for injectedTexts (bk_offsets st @ [int (length line)]) (bk_columns st @ [bk_visibleColumn st])
             (computeWrappedTextIndentLength line tabSize first full wrapping)))"
  unfolding createLineBreaks_def texts_of_def data_for_def found_breaks_def line_def Let_def by (simp split: prod.splits)

lemma found_breaks_ok:
  assumes "1 < length line"
  shows "\<exists>j. breaking_ok (\<lambda>i v. (i, v) \<in> set (char_starts tabSize full 0 0 line)) (length line) j (found_breaks classifier line tabSize first full wrapping keep)"
proof -
  let ?Q = "\<lambda>i v. (i, v) \<in> set (char_starts tabSize full 0 0 line)"
  obtain i st where st: "breaks_start classifier line tabSize first full = (i, st)" by (cases "breaks_start classifier line tabSize first full")
  have next_start: "if isHighSurrogate (line ! j) then ?Q (j + 2) (v + 2) else ?Q (j + 1) (v + computeCharWidth (uint (line ! j)) v tabSize full)"
    if "?Q j v" "j < length line" for j v using char_starts_next [of j v tabSize full 0 0 line] that unfolding diff_zero by simp
  have "0 < length line" using assms by linarith
  from next_start [OF char_starts_first this] have "?Q i (bk_visibleColumn st)" "0 < i" "breaking_ok ?Q (length line) i st"
    using st assms high_surrogate_width [of "line ! 0" 0 tabSize full] by (auto simp: breaks_start_def Let_def breaking_ok_def numeral_2_eq_2 split: if_splits)
  then show ?thesis using breaks_loop_ok [OF next_start] unfolding found_breaks_def st by fastforce
qed

text \<open>
  C24. From a line to its projection. For every classifier, width and indentation, the data computed for a line and its injected texts is well formed (\<open>projection_ok\<close>), has
  just these injected texts, and every break but the last one is between two characters, a surrogate pair counting as one, with the visible column there. No data is
  returned only when there are no injected texts: then the line is shown as it is.
\<close>
theorem createLineBreaks_gives_projection:
  fixes s :: jsstring
  assumes "texts_ok (length s) injectedTexts" "0 < tabSize"
  shows "line_projection_ok (length s) (createModelLineProjection (createLineBreaks classifier s injectedTexts tabSize first full wrapping keep) visible) \<and>
    (case createLineBreaks classifier s injectedTexts tabSize first full wrapping keep of
       None \<Rightarrow> texts_of injectedTexts = []
     | Some data \<Rightarrow> injections data = insertions (texts_of injectedTexts) \<and>
         (\<forall>k < length (breakOffsets data) - 1.
           (nat (breakOffsets data ! k), breakOffsetsVisibleColumn data ! k) \<in> set (char_starts tabSize full 0 0 (injected s 0 (injections data)))))"
proof -
  define line where "line = LineInjectedText_applyInjectedText s injectedTexts"
  have line: "line = injected s 0 (insertions (texts_of injectedTexts))" unfolding line_def by (rule line_with_texts [OF assms(1)])
  have len: "length line = length (marks_from (length s) 0 (insertions (texts_of injectedTexts)))"
    using length_injected assms(1) by (simp add: line texts_ok_def)
  have long: "0 < length line" if "texts_of injectedTexts \<noteq> []"
  proof -
    obtain t ts where "texts_of injectedTexts = t # ts" using \<open>texts_of injectedTexts \<noteq> []\<close> by (cases "texts_of injectedTexts") auto
    then show ?thesis using assms(1) by (auto simp: texts_ok_def insertions_def line)
  qed
  show ?thesis
  proof (cases "first = - 1 \<or> length line \<le> 1")
    case True
    then show ?thesis using long data_for_ok [OF assms(1), of "[int (length line)]" 0 "[]"] len
      unfolding createLineBreaks_eq line_def [symmetric] by (auto simp: createModelLineProjection_def data_for_def Let_def new_ModelLineProjectionData_def)
  next
    case False
    define st where "st = found_breaks classifier line tabSize first full wrapping keep"
    let ?d = "data_for injectedTexts (bk_offsets st @ [int (length line)]) (bk_columns st @ [bk_visibleColumn st]) (computeWrappedTextIndentLength line tabSize first full wrapping)"
    obtain j where "breaking_ok (\<lambda>i v. (i, v) \<in> set (char_starts tabSize full 0 0 line)) (length line) j st"
      using found_breaks_ok [of line] False unfolding st_def by fastforce
    then have b: "sorted_wrt (<) (0 # bk_offsets st @ [int (length line)])" "length (bk_columns st) = length (bk_offsets st)"
        "\<And>k. k < length (bk_offsets st) \<Longrightarrow> (nat (bk_offsets st ! k), bk_columns st ! k) \<in> set (char_starts tabSize full 0 0 line)"
      using False by (auto simp: breaking_ok_def sorted_wrt_append list_all2_conv_all_nth in_set_conv_nth)
    have ok: "projection_ok (length s) ?d" "injections ?d = insertions (texts_of injectedTexts)"
      using b(1) len indent_nonneg [OF assms(2)] by (intro data_for_ok [OF assms(1)]; simp)+
    have "breakOffsets ?d = bk_offsets st @ [int (length line)]" "breakOffsetsVisibleColumn ?d = bk_columns st @ [bk_visibleColumn st]"
      by (simp_all add: data_for_def Let_def new_ModelLineProjectionData_def)
    then have starts: "\<forall>k < length (breakOffsets ?d) - 1. (nat (breakOffsets ?d ! k), breakOffsetsVisibleColumn ?d ! k) \<in> set (char_starts tabSize full 0 0 line)"
      using b(2,3) by (simp add: nth_append)
    have "createLineBreaks classifier s injectedTexts tabSize first full wrapping keep = None \<and> texts_of injectedTexts = [] \<or>
        createLineBreaks classifier s injectedTexts tabSize first full wrapping keep = Some ?d"
      using False unfolding createLineBreaks_eq line_def [symmetric] st_def [symmetric] Let_def by auto
    then show ?thesis using ok starts by (auto simp: createModelLineProjection_def simp flip: line)
  qed
qed


text \<open>The line \<open>ab cd\<close> wrapped at column 4 breaks after the space, when the space is a character after which to break.\<close>

section \<open>The classifier\<close>

lemma map_or_default_set:
  "map_or_default c (CharacterClassifier_set d value this) =
     (if 0 \<le> d \<and> d < 256 \<or> c \<noteq> d then map_or_default c this else if toUint8 value = 0 then cc_defaultValue this else toUint8 value)"
  by (simp add: map_or_default_def CharacterClassifier_set_def Let_def split: option.splits)

lemma ascii_set:
  "length (cc_asciiMap this) = 256 \<Longrightarrow> 0 \<le> c \<Longrightarrow> c < 256 \<Longrightarrow>
    cc_asciiMap (CharacterClassifier_set d value this) ! nat c = (if c = d then toUint8 value else cc_asciiMap this ! nat c)"
  by (simp add: CharacterClassifier_set_def Let_def nth_list_update nat_eq_iff)

lemma not_ideographic: "c < 256 \<Longrightarrow> \<not> is_ideographic c"
  by (simp add: is_ideographic_def)

lemma classifier_set_get:
  assumes "length (cc_asciiMap this) = 256" "0 < value" "value \<le> 255"
  shows "CharacterClassifier_get c (CharacterClassifier_set d value this) = (if c = d then value else CharacterClassifier_get c this)"
    "WrappingCharacterClassifier_get c (CharacterClassifier_set d value this) =
      (if c = d \<and> \<not> is_ideographic c then value else WrappingCharacterClassifier_get c this)"
    "length (cc_asciiMap (CharacterClassifier_set d value this)) = 256"
proof -
  have v: "toUint8 value = value" using assms(2,3) by (simp add: toUint8_def is_int32_def)
  show "CharacterClassifier_get c (CharacterClassifier_set d value this) = (if c = d then value else CharacterClassifier_get c this)"
    using assms(2) by (auto simp: CharacterClassifier_get_def ascii_set [OF assms(1)] map_or_default_set v)
  show "WrappingCharacterClassifier_get c (CharacterClassifier_set d value this) =
      (if c = d \<and> \<not> is_ideographic c then value else WrappingCharacterClassifier_get c this)"
    using assms(2) by (auto simp: WrappingCharacterClassifier_get_def ascii_set [OF assms(1)] map_or_default_set v not_ideographic)
  show "length (cc_asciiMap (CharacterClassifier_set d value this)) = 256" using assms(1) by (simp add: CharacterClassifier_set_def Let_def)
qed

text \<open>
  The class of a character: Han and Kana are ideographic whatever was asked for, a character that is in both strings is one to break after, and every other character has no
  class.
\<close>

lemma wrapping_classes:
  "WrappingCharacterClassifier_get (uint c) (new_WrappingCharacterClassifier before after) =
     (if is_ideographic (uint c) then BREAK_IDEOGRAPHIC else if c \<in> set after then BREAK_AFTER else if c \<in> set before then BREAK_BEFORE else CLASS_NONE)"
proof -
  have fold: "length (cc_asciiMap (fold (\<lambda>c. CharacterClassifier_set (uint c) v) cs st)) = 256 \<and>
      WrappingCharacterClassifier_get (uint c) (fold (\<lambda>c. CharacterClassifier_set (uint c) v) cs st) =
        (if c \<in> set cs \<and> \<not> is_ideographic (uint c) then v else WrappingCharacterClassifier_get (uint c) st)"
    if "length (cc_asciiMap st) = 256" "0 < v" "v \<le> 255" for st v and cs :: jsstring
    using that(1)
  proof (induction cs arbitrary: st)
    case (Cons d cs)
    have "c = d \<longleftrightarrow> uint c = uint d" by (simp add: word_uint_eq_iff)
    then show ?case using Cons.IH [of "CharacterClassifier_set (uint d) v st"] classifier_set_get(2,3) [OF Cons.prems that(2,3)] by auto
  qed simp
  define st where "st = new_CharacterClassifier CLASS_NONE"
  have st: "length (cc_asciiMap st) = 256" "cc_asciiMap st = replicate 256 0" "map_or_default (uint c) st = 0"
    by (simp_all add: st_def new_CharacterClassifier_def toUint8_def is_int32_def map_or_default_def Let_def)
  have ascii: "replicate 256 0 ! nat x = (0 :: number)" if "x < 256" for x using that by (intro nth_replicate) auto
  have none: "WrappingCharacterClassifier_get (uint c) st = (if is_ideographic (uint c) then BREAK_IDEOGRAPHIC else CLASS_NONE)"
    using ascii [of "uint c"] not_ideographic [of "uint c"] by (simp add: WrappingCharacterClassifier_get_def st(2,3))
  note 1 = fold [OF st(1), of BREAK_BEFORE before, unfolded none]
  show ?thesis using fold [of "fold (\<lambda>c. CharacterClassifier_set (uint c) BREAK_BEFORE) before st" BREAK_AFTER after] 1
    by (simp add: new_WrappingCharacterClassifier_def flip: st_def)
qed

section \<open>A sample\<close>

text \<open>The line \<open>ab cd\<close> wrapped at column 4 breaks after the space, when the space is a character after which to break.\<close>

definition sample_classifier :: CharacterClassifier where
  "sample_classifier = new_WrappingCharacterClassifier [] [32]"

lemma sample_found:
  "bk_offsets (found_breaks sample_classifier [97, 98, 32, 99, 100] 4 4 2 IndentNone False) = [3]"
  "bk_columns (found_breaks sample_classifier [97, 98, 32, 99, 100] 4 4 2 IndentNone False) = [3]"
  "bk_visibleColumn (found_breaks sample_classifier [97, 98, 32, 99, 100] 4 4 2 IndentNone False) = 5"
  unfolding sample_classifier_def by code_simp+

lemma sample_breaks: "createLineBreaks sample_classifier [97, 98, 32, 99, 100] None 4 4 2 IndentNone False =
    Some (new_ModelLineProjectionData None None [3, 5] [3, 5] 0)"
  unfolding createLineBreaks_eq
  by (simp add: LineInjectedText_applyInjectedText_def sample_found Let_def data_for_def texts_of_def computeWrappedTextIndentLength_def)

lemma no_texts_ok: "texts_ok n None"
  by (simp add: texts_ok_def texts_of_def insertions_def)

theorem createLineBreaks_gives_projection_witness:
  "line_projection_ok 5 (createModelLineProjection (createLineBreaks sample_classifier [97, 98, 32, 99, 100] None 4 4 2 IndentNone False) True)"
  using createLineBreaks_gives_projection [OF no_texts_ok, where s = "[97, 98, 32, 99, 100]" and tabSize = 4 and classifier = sample_classifier and first = 4
      and full = 2 and wrapping = IndentNone and keep = False and visible = True]
  by (simp add: eval_nat_numeral)


text \<open>
  In a text that is not well formed, a high surrogate without a low one takes the next code unit with it, and a pair that begins there can be broken.
\<close>

lemma malformed_text_breaks_pair:
  "bk_offsets (found_breaks sample_classifier [0xD800, 0xD800, 0xDC00] 4 2 2 IndentNone False) = [2]"
  "isHighSurrogate ([0xD800, 0xD800, 0xDC00] ! 1)" "isLowSurrogate ([0xD800, 0xD800, 0xDC00] ! 2)"
  unfolding sample_classifier_def by code_simp+

end
