(* ===== verification/Spec2Isabelle.thy ===== *)
theory Spec2Isabelle
  imports Arrays_Ops Core_Selection Line_Range Document_Data Text_Change_Bytes Folding_Ranges Range_Map String_Builder Bracket_Document Diff_Lines Lru_Cache Lines_Viewport Line_Breaks
begin

text \<open>
  \<^bold>\<open>A verified core of the editor.\<close>

  The program is a code editor in the Visual Studio Code architecture. Its core keeps text, positions and edits;
  around it are views, a workbench, an extension host and language extensions. This
  library models the data structures and algorithms of that core, translated file by file from
  the TypeScript sources under \<open>src/vs\<close>, and proves what their clients rely on.

  \<^bold>\<open>The parts and how they interact.\<close> \<open>Position\<close>, \<open>Range\<close> and \<open>Selection\<close> name places in
  a text; \<open>OffsetRange\<close> and \<open>LineRange\<close> with their sets are the half-open intervals of the
  diff and view code, and are searched with the array functions. An edit of the text is sent
  as a change event; copies of the text in other processes are
  \<open>MirrorTextModel\<close>s, which replay the event on an array of lines and on a
  \<open>PrefixSumComputer\<close> of the line lengths. The undo stack keeps \<open>TextChange\<close>s, composes
  consecutive ones and stores them as bytes. Folding keeps regions of lines in packed words, the list
  widget keeps the heights of its items in a \<open>RangeMap\<close>, and the view places lines and the spaces between them with a \<open>LinesLayout\<close>. Long lines, and lines with injected texts, are shown as several
  lines of the view by projections. The bracket pairs of a document are a balanced tree: the
  brackets configured for a language become tokens, a tokenizer cuts the text into tokens, a parser turns them into a tree of nested lists
  and pairs and, after an edit, reuses the nodes of the old tree that the edit does not touch. Two versions of a file are compared by a diff algorithm
  over the numbers of their lines, whose differences are then joined and moved.

  \<^bold>\<open>Theories.\<close>
  \<^item> \<open>Prelude\<close>: numbers as \<open>int\<close>, strings as lists of 16-bit code units, exceptions as the left
    side of a sum, and the operators of the language that differ from those of HOL
    (\<open>| 0\<close>, \<open>%\<close>, \<open>slice\<close>, \<open>substring\<close>, \<open>splice\<close>, indexing, typed arrays).
  \<^item> \<open>Comparators\<close>, \<open>Arrays_Find\<close>, \<open>Arrays_Ops\<close>: \<open>base/common/arrays.ts\<close> and \<open>arraysFind.ts\<close>. Binary
    searches agree with linear scans, \<open>quickSelect\<close> returns an item of the given rank for every
    choice of pivots, \<open>top\<close> is a prefix of the stable sort, the splices of \<open>sortedDiff\<close> transform one
    array into the other, \<open>ArrayQueue\<close> is a queue. Callbacks are parameters; a comparator
    satisfies the laws of the locale of \<open>Comparators\<close>.
  \<^item> \<open>Core_Position\<close>, \<open>Core_Range\<close>, \<open>Core_Selection\<close>: \<open>editor/common/core/position.ts\<close>, \<open>range.ts\<close> and
    \<open>selection.ts\<close>. Containment is inclusion of positions, \<open>plusRange\<close> and \<open>intersectRanges\<close> are join and
    meet, a selection is a range with a direction.
  \<^item> \<open>Intervals\<close>, \<open>Offset_Range\<close>, \<open>Line_Range\<close>: \<open>offsetRange.ts\<close> and \<open>lineRange.ts\<close>. The locales
    \<open>interval_set\<close> and \<open>canonical_interval_set\<close> hold what the two kinds of sets share; their operations are exactly the
    operations on sets of offsets or lines, and the representation is canonical.
  \<^item> \<open>Prefix_Sum\<close>: \<open>editor/common/model/prefixSumComputer.ts\<close>. Both computers refine a list of values through
    their caches and satisfy the locale \<open>prefix_sums\<close>; sums of \<open>PrefixSumComputer\<close> are those of 32-bit words.
  \<^item> \<open>Text_Lines\<close>, \<open>Mirror_Text\<close>: \<open>eolCounter.ts\<close>, \<open>splitLines\<close> and \<open>model/mirrorTextModel.ts\<close>. Replaying an
    event refines replacing ranges of the text, and both caches stay in step with it.
  \<^item> \<open>Ext_Types\<close>, \<open>Document_Data\<close>: the positions and ranges of \<open>workbench/api/common/extHostTypes.ts\<close> and
    \<open>extHostDocumentData.ts\<close>, the document extensions see: offsets and positions of the mirrored text
    convert into each other, and the text of a range is a slice of the text.
  \<^item> \<open>Text_Change\<close>, \<open>Byte_Buffer\<close>, \<open>Text_Change_Bytes\<close>: \<open>core/textChange.ts\<close>, the codecs of
    \<open>base/common/buffer.ts\<close> and the decoder of \<open>core/stringBuilder.ts\<close>. Compressing consecutive
    changes composes them, and changes survive the byte encoding.
  \<^item> \<open>String_Builder\<close>: the class of \<open>core/stringBuilder.ts\<close>, which never tears a surrogate pair.
  \<^item> \<open>Folding_Ranges\<close>: \<open>editor/contrib/folding/browser/foldingRanges.ts\<close>. The packed words and bit fields (locale
    \<open>flag_field\<close>) lose nothing, the stack computes the innermost enclosing region, searching ends with the
    innermost region, and the merge returns nested ranges and keeps those of the user.
  \<^item> \<open>Range_Map\<close>: \<open>base/common/range.ts\<close> and \<open>base/browser/ui/list/rangeMap.ts\<close>. The groups of
    equal heights refine the list of heights.
  \<^item> \<open>Bracket_Length\<close>, \<open>Small_Set\<close>: \<open>length.ts\<close> and \<open>smallImmutableSet.ts\<close> of
    \<open>editor/common/model/bracketPairsTextModelPart/bracketPairsTree\<close>, the directory of the next six theories too. Packed lengths refine line and column counts (locale
    \<open>additive_lengths\<close>), and sets of small numbers are sets (locale \<open>key_sets\<close>).
  \<^item> \<open>Bracket_Ast\<close>, \<open>Bracket_Concat\<close>: \<open>ast.ts\<close> and \<open>concat23Trees.ts\<close>. Concatenating (2,3) trees of any heights gives one balanced
    tree with the items of all, and correct cached lengths and ids.
  \<^item> \<open>Bracket_Config\<close>, \<open>Bracket_Tokenizer\<close>: \<open>editor/common/languages/supports/languageBracketsConfiguration.ts\<close>, \<open>brackets.ts\<close> and
    \<open>tokenizer.ts\<close>. The brackets and tokens of a language represent exactly its configured pairs, and the tokens of a text cut it into pieces.
  \<^item> \<open>Bracket_Mapper\<close>, \<open>Bracket_Node_Reader\<close>: \<open>beforeEditPositionMapper.ts\<close> and \<open>nodeReader.ts\<close>, which find the old offset of a new one and
    the old nodes at it.
  \<^item> \<open>Bracket_Parser\<close>, \<open>Bracket_Document\<close>: \<open>parser.ts\<close> and the first tree of \<open>bracketPairsTree.ts\<close>. The locale \<open>token_stream\<close> is what the
    parser needs of a tokenizer; parsing returns a well-formed, correctly nested tree over all tokens, and for a text the tree covers the text and
    its pairs are configured pairs.
  \<^item> \<open>Diff_Sequence\<close>, \<open>Diff_Dynamic\<close>, \<open>Diff_Optimize\<close>, \<open>Diff_Lines\<close>: \<open>algorithms/diffAlgorithm.ts\<close>, \<open>algorithms/dynamicProgrammingDiffing.ts\<close>,
    \<open>heuristicSequenceOptimizations.ts\<close>, \<open>lineSequence.ts\<close> and the numbering of lines of \<open>defaultLinesDiffComputer.ts\<close>, all of
    \<open>editor/common/diff/defaultLinesDiffComputer\<close>. Differences are valid (\<open>diffs_ok\<close>) when the elements between them are the same in both sequences, and then
    they turn one sequence into the other. The quadratic algorithm returns valid differences for every timeout and every score, the passes
    that join differences keep them valid (locale \<open>diff_pass\<close>), and for files the lines not reported are equal up to white space around them.
  \<^item> \<open>Linked_Map\<close>, \<open>Lru_Cache\<close>: \<open>base/common/map.ts\<close>. The items of a linked map are objects in a store that point to each other; the map
    refines the list of its entries (\<open>represents\<close>), for every sequence of operations, and its iterators notice changes. A cache is written against the
    interface \<open>entry_store\<close> of the linked map and refines the list of entries in the order of their last use.
  \<^item> \<open>Lines_Layout\<close>, \<open>Lines_Viewport\<close>: \<open>editor/common/viewLayout/linesLayout.ts\<close>, which keeps the vertical positions of the lines and of the whitespaces between
    them. Changes are collected and applied when something is read, and sums of heights are cached: \<open>layout_step\<close> lists the operations, every reachable layout satisfies
    \<open>layout_ok\<close>, and readers return a function of the whitespaces after all pending changes (\<open>returns\<close>). Offsets are heights of what is above, the binary
    searches (locale \<open>stacked_rows\<close>) find the line or whitespace at an offset, and the data of a viewport covers what is visible.
  \<^item> \<open>Line_Projection\<close>, \<open>Model_Lines\<close>, \<open>Line_Breaks\<close>: \<open>editor/common/modelLineProjectionData.ts\<close>, \<open>LineInjectedText\<close> of \<open>textModelEvents.ts\<close>,
    \<open>viewModel/modelLineProjection.ts\<close> and \<open>createLineBreaks\<close> of \<open>viewModel/monospaceLineBreaksComputer.ts\<close> with \<open>core/characterClassifier.ts\<close>: a line with
    injected texts is wrapped into lines of the view. Every character of the line with injections is marked as one of the model or not (\<open>marks\<close>): translating a position counts the
    former, translating an offset finds its first or last point, and normalizing moves within the points of one offset. Breaking a line gives data with the
    invariant \<open>projection_ok\<close> these results need, and the lines fit the column.

  \<^bold>\<open>Conventions.\<close> A class is a record and a method a function that takes and returns it, named
  after the class and the method; a loop is a recursive function with a termination proof.
  Where a loop of the source need not end (\<open>findRange\<close> on an object whose parents could not be
  computed) it is a partial function into \<open>option\<close>, and the property shows that it
  returns. The bracket parser and the node reader take fuel, the number of calls that may nest; their properties show that they
  return when it exceeds twice the number of tokens, and the number of nodes of the old tree. Arithmetic is that of integers: the line numbers, columns, offsets and indices are far
  below \<open>2 ^ 53\<close>; where the source works on 32 bits, so does the model. The random pivots of
  \<open>quickSelect\<close>, callbacks, the matches of regular expressions and the platform's \<open>TextDecoder\<close> are parameters, the last with the
  documented behaviour \<open>text_decoder\<close> as hypothesis.

  \<^bold>\<open>Not modelled.\<close> The rendering of views, the workbench and its services, the extension host protocol, the
  bundled extensions and the main process are input and output over platform
  libraries. The piece tree, the interval tree of decorations, the Myers diff algorithm,
  the refinement of line differences to characters and the detection of moved lines,
  the queries on the bracket tree, the scanner of the text model's tokens behind \<open>TextBufferTokenizer\<close>, the ternary search tree and the context key expressions are parts of the core that are
  not covered yet. In the modelled files, conversions from untyped
  objects, methods that only forward to the modelled static ones, and helpers over the event loop are left out.
\<close>

end
